(* ===== verification/LosPrelude.thy ===== *)
theory LosPrelude
  imports Main "HOL-Library.Word" "HOL-Library.Monad_Syntax"
begin

text \<open>
  Shared vocabulary of the development: the C integer types of
  \<^verbatim>\<open>kernel/include/los_typedef.h\<close> at their widths, the status codes every component
  returns, the two lemma collections the component proofs use, and generic lemmas on lists, words
  and bits.
\<close>

unbundle bit_operations_syntax

section \<open>C integer types and status codes\<close>

type_synonym u8 = "8 word"
type_synonym u16 = "16 word"
type_synonym u32 = "32 word"
type_synonym u64 = "64 word"
type_synonym i32 = "32 word" \<comment> \<open>read with \<open>sint\<close>\<close>

abbreviation (input) LOS_OK :: u32 where "LOS_OK \<equiv> 0"
abbreviation (input) LOS_NOK :: u32 where "LOS_NOK \<equiv> 1"
abbreviation (input) LOS_EPERM :: u32 where "LOS_EPERM \<equiv> 1"
abbreviation (input) LOS_EINTR :: u32 where "LOS_EINTR \<equiv> 4"
abbreviation (input) LOS_EBADF :: u32 where "LOS_EBADF \<equiv> 9"
abbreviation (input) LOS_EBUSY :: u32 where "LOS_EBUSY \<equiv> 16"
abbreviation (input) LOS_EINVAL :: u32 where "LOS_EINVAL \<equiv> 22"
abbreviation (input) LOS_EDEADLK :: u32 where "LOS_EDEADLK \<equiv> 35"
abbreviation (input) LOS_ETIMEDOUT :: u32 where "LOS_ETIMEDOUT \<equiv> 110"
abbreviation (input) LOS_EOPNOTSUPP :: u32 where "LOS_EOPNOTSUPP \<equiv> 95"
abbreviation (input) OS_INVALID_VALUE :: u32 where "OS_INVALID_VALUE \<equiv> 0xFFFFFFFF"
abbreviation (input) LOS_WAIT_FOREVER :: u32 where "LOS_WAIT_FOREVER \<equiv> 0xFFFFFFFF"
abbreviation (input) LOS_NO_WAIT :: u32 where "LOS_NO_WAIT \<equiv> 0"

text \<open>\<open>LOS_ERRNO_OS_ERROR\<close> and \<open>LOS_ERRNO_OS_FATAL\<close> build an error code from a module
  number and an error number (\<^verbatim>\<open>kernel/include/los_errno.h\<close>; \<open>LOS_ERRNO_OS_ID\<close> is 0).\<close>

abbreviation (input) LOS_ERRTYPE_ERROR :: u32 where "LOS_ERRTYPE_ERROR \<equiv> 0x02000000"
abbreviation (input) LOS_ERRTYPE_FATAL :: u32 where "LOS_ERRTYPE_FATAL \<equiv> 0x03000000"

section \<open>Lemma collections\<close>

named_theorems flag_simps \<open>a test of a status word against a flag, as the bits it looks at\<close>
named_theorems kframe \<open>what an operation leaves unchanged\<close>

section \<open>Bits\<close>

lemma and_single_bit_ne_0: "w AND 2 ^ n \<noteq> 0 \<longleftrightarrow> bit w n" if "n < LENGTH('a)" for w :: "'a::len word"
proof
  assume "bit w n"
  then have "bit (w AND 2 ^ n) n"
    using that by (simp add: bit_simps)
  then show "w AND 2 ^ n \<noteq> 0"
    by (metis bit_0_eq bot_apply bot_boolE)
next
  assume "w AND 2 ^ n \<noteq> 0"
  then obtain k where "bit (w AND 2 ^ n) k"
    by (metis bit_eqI bit_0_eq bot_apply bot_boolE)
  then show "bit w n"
    by (auto simp: bit_simps)
qed

lemma word_ne_0_iff_bit: "w \<noteq> 0 \<longleftrightarrow> (\<exists>n < LENGTH('a). bit w n)" for w :: "'a::len word"
  by (metis bit_eqI bit_imp_le_length bit_0_eq bot_apply bot_boolE)

lemma and_or_ne_0: "w AND (a OR b) \<noteq> 0 \<longleftrightarrow> w AND a \<noteq> 0 \<or> w AND b \<noteq> 0" for w :: "'a::len word"
  unfolding word_ne_0_iff_bit by (auto simp: bit_simps)

lemma word_plus_1_bound:
  assumes "a < (b :: 'a::len word)"
  shows "a + 1 \<le> b" and "unat (a + 1) = unat a + 1"
proof -
  have "unat b < 2 ^ LENGTH('a)" by (rule unsigned_less)
  moreover have "unat a < unat b" using assms by (simp only: word_less_nat_alt)
  ultimately have "unat a + 1 < 2 ^ LENGTH('a)" by linarith
  then show "unat (a + 1) = unat a + 1" by (simp add: unat_word_ariths)
  with assms show "a + 1 \<le> b" by (simp add: word_less_nat_alt word_le_nat_alt)
qed

section \<open>Lists\<close>

text \<open>The least index below \<open>n\<close> with \<open>P\<close>, \<open>n\<close> when there is none: a bounded linear search.\<close>

definition first_index :: "nat \<Rightarrow> (nat \<Rightarrow> bool) \<Rightarrow> nat" where
  "first_index n P = length (takeWhile (\<lambda>i. \<not> P i) [0..<n])"

lemma first_index_le: "first_index n P \<le> n"
  unfolding first_index_def by (metis length_takeWhile_le length_upt minus_nat.diff_0)

lemma first_index_sat: "first_index n P < n \<Longrightarrow> P (first_index n P)"
  unfolding first_index_def
  by (metis (mono_tags, lifting) add_0 length_upt minus_nat.diff_0 nth_length_takeWhile nth_upt)

lemma first_index_least: "i < first_index n P \<Longrightarrow> \<not> P i"
proof -
  assume i: "i < first_index n P"
  then have "i < n" using first_index_le [of n P] by simp
  moreover have "takeWhile (\<lambda>i. \<not> P i) [0..<n] ! i = [0..<n] ! i"
    using i by (intro takeWhile_nth) (simp add: first_index_def)
  moreover have "takeWhile (\<lambda>i. \<not> P i) [0..<n] ! i \<in> set (takeWhile (\<lambda>i. \<not> P i) [0..<n])"
    using i by (intro nth_mem) (simp add: first_index_def)
  ultimately show ?thesis by (auto dest: set_takeWhileD)
qed

lemma first_index_less_iff: "first_index n P < n \<longleftrightarrow> (\<exists>i < n. P i)"
  using first_index_sat [of n P] first_index_least [of _ n P] by (meson linorder_not_le order.strict_trans2)

lemma first_index_eqI: "i < n \<Longrightarrow> P i \<Longrightarrow> (\<And>j. j < i \<Longrightarrow> \<not> P j) \<Longrightarrow> first_index n P = i"
  by (metis first_index_least first_index_less_iff first_index_sat linorder_neqE_nat)

lemma remove1_idem_notin [simp]: "x \<notin> set xs \<Longrightarrow> remove1 x xs = xs"
  by (rule remove1_idem)

lemma remove1_snoc_notin: "x \<notin> set xs \<Longrightarrow> remove1 x (xs @ [x]) = xs"
  by (simp add: remove1_append)

lemma remove1_hd: "xs \<noteq> [] \<Longrightarrow> remove1 (hd xs) xs = tl xs"
  by (cases xs) auto

lemma sorted_wrt_remove1: "sorted_wrt P xs \<Longrightarrow> sorted_wrt P (remove1 x xs)"
  by (induction xs) (auto dest: notin_set_remove1)

section \<open>32-bit arithmetic on \<open>nat\<close>\<close>

text \<open>\<open>UINT32\<close> values that serve as lengths and indexes are naturals below \<open>2 ^ 32\<close>; addition and
  subtraction wrap as in C.\<close>

definition add32 :: "nat \<Rightarrow> nat \<Rightarrow> nat" where
  "add32 a b = (a + b) mod 2 ^ 32"

definition sub32 :: "nat \<Rightarrow> nat \<Rightarrow> nat" where
  "sub32 a b = (a + 2 ^ 32 - b mod 2 ^ 32) mod 2 ^ 32"

lemma add32_small [simp]: "a + b < 2 ^ 32 \<Longrightarrow> add32 a b = a + b"
  by (simp add: add32_def)

lemma sub32_small [simp]: "b \<le> a \<Longrightarrow> a < 2 ^ 32 \<Longrightarrow> sub32 a b = a - b"
proof -
  assume le: "b \<le> a" and lt: "a < 2 ^ 32"
  then have "b mod 2 ^ 32 = b" by simp
  moreover have "a + 2 ^ 32 - b = (a - b) + 2 ^ 32" using le by simp
  ultimately show "sub32 a b = a - b"
    unfolding sub32_def using lt by (simp only: mod_add_self2) simp
qed

lemma add32_less [simp]: "add32 a b < 2 ^ 32" and sub32_less [simp]: "sub32 a b < 2 ^ 32"
  by (simp_all add: add32_def sub32_def)

section \<open>Bounded copies\<close>

text \<open>\<open>rmax\<close> is the largest size the bounds-checking library accepts. A copy from a structure in memory is a list of bytes.\<close>

text \<open>\<open>memcpy_s dest destMax src count\<close>, with \<open>dest\<close> the offset \<open>off\<close> of the storage \<open>mem\<close>, is \<open>None\<close> on a
  constraint violation.\<close>

definition memcpy_s_into :: "nat \<Rightarrow> (nat \<Rightarrow> u8) \<Rightarrow> nat \<Rightarrow> nat \<Rightarrow> u8 list \<Rightarrow> nat \<Rightarrow> (nat \<Rightarrow> u8) option" where
  "memcpy_s_into rmax mem off destMax src count =
    (if destMax > rmax \<or> count > destMax then None
     else Some (\<lambda>i. if off \<le> i \<and> i < off + count then src ! (i - off) else mem i))"

definition memcpy_s_from :: "nat \<Rightarrow> nat \<Rightarrow> (nat \<Rightarrow> u8) \<Rightarrow> nat \<Rightarrow> nat \<Rightarrow> u8 list option" where
  "memcpy_s_from rmax destMax mem off count =
    (if destMax > rmax \<or> count > destMax then None else Some (map mem [off ..< off + count]))"

text \<open>The bytes of a \<open>UINT32\<close> in memory.\<close>

definition u32_bytes :: "u32 \<Rightarrow> u8 list" where
  "u32_bytes w = map (\<lambda>i. ucast (drop_bit (8 * i) w)) [0..<4]"

fun bytes_u32 :: "u8 list \<Rightarrow> u32" where
  "bytes_u32 [] = 0"
| "bytes_u32 (b # bs) = ucast b OR push_bit 8 (bytes_u32 bs)"

lemma length_u32_bytes [simp]: "length (u32_bytes w) = 4"
  by (simp add: u32_bytes_def)

lemma bytes_u32_bytes [simp]: "bytes_u32 (u32_bytes w) = w"
proof (rule bit_word_eqI)
  fix n assume n: "n < LENGTH(32)"
  have "u32_bytes w = [ucast w, ucast (drop_bit 8 w), ucast (drop_bit 16 w), ucast (drop_bit 24 w)]"
    by (simp add: u32_bytes_def upt_conv_Cons numeral_eq_Suc)
  moreover have "n < 8 \<or> 8 \<le> n \<and> n < 16 \<or> 16 \<le> n \<and> n < 24 \<or> 24 \<le> n \<and> n < 32" using n by auto
  ultimately show "bit (bytes_u32 (u32_bytes w)) n = bit w n"
    by (auto simp: bit_simps)
qed

end
