(* ===== verification/LosList.thy ===== *)
theory LosList
  imports LosPrelude
begin

text \<open>
  The intrusive circular doubly linked list of \<^verbatim>\<open>kernel/include/los_list.h\<close>, on an
  explicit heap of \<open>LOS_DL_LIST\<close> nodes: every operation is the source's sequence of pointer
  writes, so aliasing (an empty list's head is its own neighbour) is the code's.
  \<open>dl_list h l xs\<close> says that the list with head \<open>l\<close> holds the nodes \<open>xs\<close> in order.
  The operations refine the list operations the other components use, and leave every list they
  do not touch as it was; the locale \<open>linked_list\<close> states that contract and \<open>dll\<close>
  interprets it on the pointer code.
\<close>

section \<open>The code\<close>

record LOS_DL_LIST =
  pstPrev :: nat
  pstNext :: nat

type_synonym dlheap = "nat \<Rightarrow> LOS_DL_LIST"

definition set_prev :: "dlheap \<Rightarrow> nat \<Rightarrow> nat \<Rightarrow> dlheap" where
  "set_prev h a v = h(a := (h a)\<lparr>pstPrev := v\<rparr>)"

definition set_next :: "dlheap \<Rightarrow> nat \<Rightarrow> nat \<Rightarrow> dlheap" where
  "set_next h a v = h(a := (h a)\<lparr>pstNext := v\<rparr>)"

definition LOS_ListInit :: "dlheap \<Rightarrow> nat \<Rightarrow> dlheap" where
  "LOS_ListInit h list = set_prev (set_next h list list) list list"

definition LOS_ListAdd :: "dlheap \<Rightarrow> nat \<Rightarrow> nat \<Rightarrow> dlheap" where
  "LOS_ListAdd h list node =
     (let h = set_next h node (pstNext (h list));
          h = set_prev h node list;
          h = set_prev h (pstNext (h list)) node
      in set_next h list node)"

definition LOS_ListTailInsert :: "dlheap \<Rightarrow> nat \<Rightarrow> nat \<Rightarrow> dlheap" where
  "LOS_ListTailInsert h list node = LOS_ListAdd h (pstPrev (h list)) node"

definition LOS_ListHeadInsert :: "dlheap \<Rightarrow> nat \<Rightarrow> nat \<Rightarrow> dlheap" where
  "LOS_ListHeadInsert h list node = LOS_ListAdd h list node"

definition LOS_ListDelete :: "dlheap \<Rightarrow> nat \<Rightarrow> dlheap" where
  "LOS_ListDelete h node =
     (let h = set_prev h (pstNext (h node)) (pstPrev (h node));
          h = set_next h (pstPrev (h node)) (pstNext (h node));
          h = set_next h node 0
      in set_prev h node 0)"

definition LOS_ListEmpty :: "dlheap \<Rightarrow> nat \<Rightarrow> bool" where
  "LOS_ListEmpty h list \<longleftrightarrow> pstNext (h list) = list"

definition LOS_ListAddList :: "dlheap \<Rightarrow> nat \<Rightarrow> nat \<Rightarrow> dlheap" where
  "LOS_ListAddList h oldList newList =
     (let oldListHead = pstNext (h oldList);
          oldListTail = oldList;
          newListHead = newList;
          newListTail = pstPrev (h newList);
          h = set_next h oldListTail newListHead;
          h = set_prev h newListHead oldListTail;
          h = set_prev h oldListHead newListTail
      in set_next h newListTail oldListHead)"

definition LOS_ListTailInsertList :: "dlheap \<Rightarrow> nat \<Rightarrow> nat \<Rightarrow> dlheap" where
  "LOS_ListTailInsertList h oldList newList = LOS_ListAddList h (pstPrev (h oldList)) newList"

definition LOS_ListHeadInsertList :: "dlheap \<Rightarrow> nat \<Rightarrow> nat \<Rightarrow> dlheap" where
  "LOS_ListHeadInsertList h oldList newList = LOS_ListAddList h oldList newList"

definition LOS_ListDelInit :: "dlheap \<Rightarrow> nat \<Rightarrow> dlheap" where
  "LOS_ListDelInit h list =
     (let h = set_prev h (pstNext (h list)) (pstPrev (h list));
          h = set_next h (pstPrev (h list)) (pstNext (h list))
      in LOS_ListInit h list)"

definition LOS_ListPeekHeadType :: "dlheap \<Rightarrow> nat \<Rightarrow> nat option" where
  "LOS_ListPeekHeadType h list =
     (if pstNext (h list) = list then None else Some (pstNext (h list)))"

definition LOS_ListRemoveHeadType :: "dlheap \<Rightarrow> nat \<Rightarrow> nat option \<times> dlheap" where
  "LOS_ListRemoveHeadType h list =
     (if pstNext (h list) = list then (None, h)
      else (Some (pstNext (h list)), LOS_ListDelete h (pstNext (h list))))"

text \<open>\<open>LOS_DL_LIST_FOR_EACH\<close>: the nodes the loop visits, from \<open>item\<close> until the head comes
  round again; \<open>None\<close> when \<open>fuel\<close> steps do not reach the head.\<close>

fun for_each_from :: "nat \<Rightarrow> dlheap \<Rightarrow> nat \<Rightarrow> nat \<Rightarrow> nat list option" where
  "for_each_from 0 h list item = None"
| "for_each_from (Suc fuel) h list item =
     (if item = list then Some []
      else map_option (Cons item) (for_each_from fuel h list (pstNext (h item))))"

definition LOS_DL_LIST_FOR_EACH :: "nat \<Rightarrow> dlheap \<Rightarrow> nat \<Rightarrow> nat list option" where
  "LOS_DL_LIST_FOR_EACH fuel h list = for_each_from fuel h list (pstNext (h list))"

section \<open>The list a head represents\<close>

fun dlseg :: "dlheap \<Rightarrow> nat \<Rightarrow> nat list \<Rightarrow> nat \<Rightarrow> bool" where
  "dlseg h a [] b \<longleftrightarrow> pstNext (h a) = b \<and> pstPrev (h b) = a"
| "dlseg h a (x # xs) b \<longleftrightarrow> pstNext (h a) = x \<and> pstPrev (h x) = a \<and> dlseg h x xs b"

definition dl_list :: "dlheap \<Rightarrow> nat \<Rightarrow> nat list \<Rightarrow> bool" where
  "dl_list h l xs \<longleftrightarrow> dlseg h l xs l \<and> distinct (l # xs) \<and> 0 \<notin> set (l # xs)"

lemmas list_ops = set_prev_def set_next_def LOS_ListInit_def LOS_ListAdd_def Let_def

lemma dlseg_append: "dlseg h a (xs @ y # ys) b \<longleftrightarrow> dlseg h a xs y \<and> dlseg h y ys b"
  by (induction xs arbitrary: a) auto

text \<open>A segment depends on the \<open>pstNext\<close> of its start and nodes and the \<open>pstPrev\<close> of its nodes and
  end only.\<close>

lemma dlseg_cong:
  assumes "\<And>x. x \<in> insert a (set xs) \<Longrightarrow> pstNext (h' x) = pstNext (h x)"
    and "\<And>x. x \<in> insert b (set xs) \<Longrightarrow> pstPrev (h' x) = pstPrev (h x)"
  shows "dlseg h' a xs b \<longleftrightarrow> dlseg h a xs b"
  using assms by (induction xs arbitrary: a) auto

lemma dlseg_last: "dlseg h a xs b \<Longrightarrow> pstPrev (h b) = last (a # xs)"
  by (induction xs arbitrary: a) auto

lemma dlseg_first: "dlseg h a xs b \<Longrightarrow> pstNext (h a) = hd (xs @ [b])"
  by (cases xs) auto

lemma dl_list_ends:
  assumes "dl_list h l xs"
  shows "pstNext (h l) = hd (xs @ [l])" and "pstPrev (h l) = last (l # xs)"
  using assms dlseg_first dlseg_last by (auto simp: dl_list_def)

lemma dl_list_unlinked_unchanged:
  assumes "dl_list h l xs" and "\<And>x. x \<in> set (l # xs) \<Longrightarrow> h' x = h x"
  shows "dl_list h' l xs"
  using assms unfolding dl_list_def by (subst dlseg_cong [of l xs h' h l]) auto

section \<open>Each operation on the represented lists\<close>

lemma dl_list_init: "l \<noteq> 0 \<Longrightarrow> dl_list (LOS_ListInit h l) l []"
  by (simp add: dl_list_def list_ops)

text \<open>What \<open>LOS_ListAdd\<close> and \<open>LOS_ListDelete\<close> write, pointer by pointer.\<close>

lemma ListAdd_next:
  "n \<noteq> a \<Longrightarrow> pstNext (LOS_ListAdd h a n x) =
     (if x = a then n else if x = n then pstNext (h a) else pstNext (h x))"
  by (auto simp: list_ops)

lemma ListAdd_prev:
  "n \<noteq> a \<Longrightarrow> pstPrev (LOS_ListAdd h a n x) =
     (if x = pstNext (h a) then n else if x = n then a else pstPrev (h x))"
  by (auto simp: list_ops)

lemma ListAdd_frame:
  "n \<noteq> a \<Longrightarrow> x \<noteq> n \<Longrightarrow> x \<noteq> a \<Longrightarrow> x \<noteq> pstNext (h a) \<Longrightarrow> LOS_ListAdd h a n x = h x"
  by (simp add: list_ops)

lemma ListDelete_next:
  "pstPrev (h n) \<noteq> n \<Longrightarrow> pstNext (h n) \<noteq> n \<Longrightarrow> pstNext (LOS_ListDelete h n x) =
     (if x = n then 0 else if x = pstPrev (h n) then pstNext (h n) else pstNext (h x))"
  by (auto simp: list_ops LOS_ListDelete_def)

lemma ListDelete_prev:
  "pstPrev (h n) \<noteq> n \<Longrightarrow> pstNext (h n) \<noteq> n \<Longrightarrow> pstPrev (LOS_ListDelete h n x) =
     (if x = n then 0 else if x = pstNext (h n) then pstPrev (h n) else pstPrev (h x))"
  by (auto simp: list_ops LOS_ListDelete_def)

lemma ListDelete_frame:
  "pstPrev (h n) \<noteq> n \<Longrightarrow> pstNext (h n) \<noteq> n \<Longrightarrow> x \<noteq> n \<Longrightarrow> x \<noteq> pstPrev (h n) \<Longrightarrow> x \<noteq> pstNext (h n) \<Longrightarrow>
     LOS_ListDelete h n x = h x"
  by (simp add: list_ops LOS_ListDelete_def)

text \<open>A circular list seen from any of its nodes: \<open>dlring h ns\<close> links the nodes \<open>ns\<close>, the last back
  to the first. The head is one of them, so insertion after the head and after an element is one
  lemma.\<close>

definition dlring :: "dlheap \<Rightarrow> nat list \<Rightarrow> bool" where
  "dlring h ns \<longleftrightarrow> ns \<noteq> [] \<and> distinct ns \<and> 0 \<notin> set ns \<and> dlseg h (hd ns) (tl ns) (hd ns)"

lemma dl_list_ring: "dl_list h l xs \<longleftrightarrow> dlring h (l # xs)"
  by (auto simp: dl_list_def dlring_def)

lemma dlring_rotate: "dlring h (a # xs @ b # ys) \<longleftrightarrow> dlring h (b # ys @ a # xs)"
  by (auto simp: dlring_def dlseg_append)

lemma dlring_add:
  assumes "dlring h (a # xs)" and "n \<notin> set (a # xs)" and "n \<noteq> 0"
  shows "dlring (LOS_ListAdd h a n) (a # n # xs)"
proof -
  have seg: "dlseg h a xs a" and na: "n \<noteq> a" and a: "a \<notin> set xs"
    using assms by (auto simp: dlring_def)
  have "dlseg (LOS_ListAdd h a n) n xs a"
  proof (cases xs)
    case Nil
    with seg na show ?thesis by (simp add: ListAdd_next ListAdd_prev)
  next
    case (Cons y zs)
    have "dlseg (LOS_ListAdd h a n) y zs a \<longleftrightarrow> dlseg h y zs a"
      using assms seg Cons na a
      by (intro dlseg_cong) (auto simp: ListAdd_next ListAdd_prev dlring_def)
    with seg Cons na a show ?thesis by (auto simp: ListAdd_next ListAdd_prev)
  qed
  with assms na seg show ?thesis
    by (cases xs) (auto simp: dlring_def ListAdd_next ListAdd_prev)
qed

lemma dlring_delete:
  assumes "dlring h (n # a # xs)"
  shows "dlring (LOS_ListDelete h n) (a # xs)"
proof -
  have nxt: "pstNext (h n) = a" and prv: "pstPrev (h n) = last (a # xs)"
    and seg: "dlseg h a xs n" and nn: "n \<notin> set (a # xs)"
    using assms dlseg_last [of h n "a # xs" n] by (auto simp: dlring_def)
  have ne: "pstPrev (h n) \<noteq> n" "pstNext (h n) \<noteq> n"
    using nxt prv nn last_in_set [of "a # xs"] by auto
  have "dlseg (LOS_ListDelete h n) a xs a"
    using seg nn assms ne
  proof (cases xs rule: rev_cases)
    case Nil
    with seg nn ne nxt prv show ?thesis by (simp add: ListDelete_next ListDelete_prev)
  next
    case (snoc ys z)
    have "dlseg (LOS_ListDelete h n) a ys z \<longleftrightarrow> dlseg h a ys z"
      using assms snoc nn ne nxt prv
      by (intro dlseg_cong) (auto simp: ListDelete_next ListDelete_prev dlring_def)
    with seg snoc nn ne nxt prv assms show ?thesis
      by (auto simp: dlseg_append ListDelete_next ListDelete_prev dlring_def)
  qed
  with assms show ?thesis by (auto simp: dlring_def)
qed

text \<open>Lifted to lists with their head.\<close>

lemma dl_list_add_after:
  assumes "dl_list h l (xs @ p # ys)" and "n \<notin> set (l # xs @ p # ys)" and "n \<noteq> 0"
  shows "dl_list (LOS_ListAdd h p n) l (xs @ p # n # ys)"
proof -
  have "dlring h (p # ys @ l # xs)"
    using assms(1) by (simp add: dl_list_ring dlring_rotate)
  then have "dlring (LOS_ListAdd h p n) (p # n # ys @ l # xs)"
    using assms(2,3) by (intro dlring_add) auto
  then show ?thesis
    using dlring_rotate [of "LOS_ListAdd h p n" l xs p "n # ys"] by (simp add: dl_list_ring)
qed

lemma dl_list_head_insert:
  "dl_list h l xs \<Longrightarrow> n \<notin> set (l # xs) \<Longrightarrow> n \<noteq> 0 \<Longrightarrow> dl_list (LOS_ListHeadInsert h l n) l (n # xs)"
  by (simp add: dl_list_ring LOS_ListHeadInsert_def dlring_add)

lemma dl_list_tail_insert:
  assumes "dl_list h l xs" and "n \<notin> set (l # xs)" and "n \<noteq> 0"
  shows "dl_list (LOS_ListTailInsert h l n) l (xs @ [n])"
proof (cases xs rule: rev_cases)
  case Nil
  with assms show ?thesis
    using dl_list_head_insert [of h l "[]" n] dl_list_ends(2) [of h l xs]
    by (simp add: LOS_ListTailInsert_def LOS_ListHeadInsert_def)
next
  case (snoc ys p)
  with assms show ?thesis
    using dl_list_add_after [of h l ys p "[]" n] dl_list_ends(2) [of h l xs]
    by (simp add: LOS_ListTailInsert_def)
qed

text \<open>Inserting at the tail of a node that is not the head puts the new node just before it: this is
  how a task joins a priority-ordered pend list.\<close>

lemma dl_list_tail_insert_before:
  assumes "dl_list h l (xs @ p # ys)" and "n \<notin> set (l # xs @ p # ys)" and "n \<noteq> 0"
  shows "dl_list (LOS_ListTailInsert h p n) l (xs @ n # p # ys)"
proof (cases xs rule: rev_cases)
  case Nil
  with assms have "pstPrev (h p) = l" by (simp add: dl_list_def)
  with Nil assms show ?thesis
    using dl_list_head_insert [of h l "p # ys" n]
    by (simp add: LOS_ListTailInsert_def LOS_ListHeadInsert_def)
next
  case (snoc zs q)
  with assms have "pstPrev (h p) = q" by (simp add: dl_list_def dlseg_append)
  with snoc assms show ?thesis
    using dl_list_add_after [of h l zs q "p # ys" n] by (simp add: LOS_ListTailInsert_def)
qed

lemma dl_list_delete:
  assumes "dl_list h l (xs @ n # ys)"
  shows "dl_list (LOS_ListDelete h n) l (xs @ ys)"
proof -
  have "dlring h (n # ys @ l # xs)"
    using assms by (simp add: dl_list_ring dlring_rotate)
  then have "dlring (LOS_ListDelete h n) (ys @ l # xs)"
    by (cases ys) (auto intro: dlring_delete)
  then show ?thesis
    using dlring_rotate [of "LOS_ListDelete h n" l xs]
    by (cases ys) (auto simp: dl_list_ring)
qed

lemma ListDelete_unlinks:
  "dl_list h l (xs @ n # ys) \<Longrightarrow>
     pstNext (LOS_ListDelete h n n) = 0 \<and> pstPrev (LOS_ListDelete h n n) = 0"
  by (simp add: LOS_ListDelete_def list_ops)

lemma dl_list_empty: "dl_list h l xs \<Longrightarrow> LOS_ListEmpty h l \<longleftrightarrow> xs = []"
  by (cases xs) (auto simp: LOS_ListEmpty_def dl_list_def)

lemma dl_list_first: "dl_list h l (x # xs) \<Longrightarrow> pstNext (h l) = x"
  by (simp add: dl_list_def)

text \<open>\<open>LOS_ListDelInit\<close> takes a node out and leaves it a list of its own; on a head it empties the
  list and leaves the members a headless ring.\<close>

lemma ListDelInit_eq:
  "pstPrev (h n) \<noteq> n \<Longrightarrow> pstNext (h n) \<noteq> n \<Longrightarrow>
     LOS_ListDelInit h n = LOS_ListInit (LOS_ListDelete h n) n"
  by (rule ext) (auto simp: LOS_ListDelInit_def LOS_ListDelete_def list_ops)

lemma dl_list_del_init:
  assumes "dl_list h l (xs @ n # ys)"
  shows "dl_list (LOS_ListDelInit h n) l (xs @ ys)" and "dl_list (LOS_ListDelInit h n) n []"
proof -
  have ring: "dlring h (n # ys @ l # xs)"
    using assms by (simp add: dl_list_ring dlring_rotate)
  have ne: "pstPrev (h n) \<noteq> n" "pstNext (h n) \<noteq> n"
    using ring dlseg_last [of h n "ys @ l # xs" n] last_in_set [of "ys @ l # xs"]
    by (cases ys; auto simp: dlring_def)+
  have "dl_list (LOS_ListInit (LOS_ListDelete h n) n) l (xs @ ys)"
    by (rule dl_list_unlinked_unchanged [OF dl_list_delete [OF assms]])
      (use assms in \<open>auto simp: list_ops dl_list_def\<close>)
  then show "dl_list (LOS_ListDelInit h n) l (xs @ ys)" using ne by (simp add: ListDelInit_eq)
  show "dl_list (LOS_ListDelInit h n) n []"
    using assms ne by (auto simp: ListDelInit_eq dl_list_def intro!: list_ops) (auto simp: list_ops)
qed

lemma dl_list_del_init_head: "dl_list h l xs \<Longrightarrow> dl_list (LOS_ListDelInit h l) l []"
  by (auto simp: dl_list_def LOS_ListDelInit_def list_ops)

text \<open>\<open>LOS_ListAddList\<close> splices a whole headless ring, \<open>newList\<close> included, after \<open>oldList\<close>.\<close>

lemma dlring_add_list:
  assumes "dlring h (a # xs)" and "dlring h (b # ys)" and "set (a # xs) \<inter> set (b # ys) = {}"
  shows "dlring (LOS_ListAddList h a b) (a # b # ys @ xs)"
proof -
  let ?h = "LOS_ListAddList h a b"
  let ?t = "last (b # ys)" and ?o = "hd (xs @ [a])"
  have ends: "pstPrev (h b) = ?t" "pstNext (h a) = ?o"
    using assms dlseg_last [of h b ys b] dlseg_first [of h a xs a] by (auto simp: dlring_def)
  have neq: "a \<noteq> b" "a \<noteq> ?t" "b \<noteq> ?o" "?t \<in> set (b # ys)" "?o \<in> set (a # xs)"
    using assms(3) last_in_set [of "b # ys"] by (cases xs; auto)+
  have nxt: "pstNext (?h x) = (if x = ?t then ?o else if x = a then b else pstNext (h x))"
    and prv: "pstPrev (?h x) = (if x = ?o then ?t else if x = b then a else pstPrev (h x))" for x
    using ends neq by (auto simp: LOS_ListAddList_def list_ops)
  have 1: "dlseg ?h b zs t" if ys: "ys = zs @ [t]" for zs t
  proof -
    have "dlseg h b zs t" using assms(2) ys by (simp add: dlring_def dlseg_append)
    moreover have "dlseg ?h b zs t \<longleftrightarrow> dlseg h b zs t"
      using assms ys neq by (intro dlseg_cong) (auto simp: nxt prv dlring_def)
    ultimately show ?thesis by simp
  qed
  have 2: "dlseg ?h ?t xs a"
  proof (cases xs)
    case Nil
    then show ?thesis using neq by (simp add: nxt prv)
  next
    case (Cons y zs)
    have "dlseg ?h y zs a \<longleftrightarrow> dlseg h y zs a"
      using assms Cons neq by (intro dlseg_cong) (auto simp: nxt prv dlring_def)
    with assms(1) Cons neq show ?thesis by (auto simp: nxt prv dlring_def)
  qed
  have "dlseg ?h b (ys @ xs) a"
    using 1 2 by (cases ys rule: rev_cases) (auto simp: dlseg_append)
  then show ?thesis
    using assms neq nxt [of a] prv [of b] by (auto simp: dlring_def)
qed

section \<open>Traversal\<close>

lemma for_each_from_seg:
  "dlseg h a xs l \<Longrightarrow> l \<notin> set xs \<Longrightarrow> length xs < fuel \<Longrightarrow>
     for_each_from fuel h l (pstNext (h a)) = Some xs"
proof (induction xs arbitrary: a fuel)
  case Nil
  then show ?case by (cases fuel) auto
next
  case (Cons x xs)
  then obtain f where "fuel = Suc f" by (cases fuel) auto
  with Cons show ?case by auto
qed

lemma for_each_complete:
  "dl_list h l xs \<Longrightarrow> length xs < fuel \<Longrightarrow> LOS_DL_LIST_FOR_EACH fuel h l = Some xs"
  by (auto simp: LOS_DL_LIST_FOR_EACH_def dl_list_def intro: for_each_from_seg)

lemma dl_list_remove_head:
  "dl_list h l (x # xs) \<Longrightarrow> fst (LOS_ListRemoveHeadType h l) = Some x \<and>
     dl_list (snd (LOS_ListRemoveHeadType h l)) l xs"
  using dl_list_delete [of h l "[]" x xs]
  by (auto simp: LOS_ListRemoveHeadType_def dl_list_first) (auto simp: dl_list_def)

section \<open>The contract of the list, and its pointer implementation\<close>

text \<open>What the kernel relies on: insertion and deletion do to the represented list what they say, and
  every list that shares no node with the one at hand stays as it is. The lemmas of the locale are
  the facts a client uses: moving a node between two lists, filling a list and draining it.\<close>

locale linked_list =
  fixes repr :: "'h \<Rightarrow> nat \<Rightarrow> nat list \<Rightarrow> bool"
    and tail_insert :: "'h \<Rightarrow> nat \<Rightarrow> nat \<Rightarrow> 'h"
    and delete :: "'h \<Rightarrow> nat \<Rightarrow> 'h"
    and is_empty :: "'h \<Rightarrow> nat \<Rightarrow> bool"
    and first :: "'h \<Rightarrow> nat \<Rightarrow> nat"
  assumes repr_distinct: "repr h l xs \<Longrightarrow> distinct (l # xs) \<and> 0 \<notin> set (l # xs)"
    and repr_tail: "repr h l xs \<Longrightarrow> n \<notin> set (l # xs) \<Longrightarrow> n \<noteq> 0 \<Longrightarrow>
      repr (tail_insert h l n) l (xs @ [n])"
    and repr_tail_frame: "repr h l xs \<Longrightarrow> repr h m ys \<Longrightarrow> set (l # xs) \<inter> set (m # ys) = {} \<Longrightarrow>
      n \<notin> set (l # xs) \<Longrightarrow> n \<notin> set (m # ys) \<Longrightarrow> repr (tail_insert h l n) m ys"
    and repr_delete: "repr h l (xs @ n # ys) \<Longrightarrow> repr (delete h n) l (xs @ ys)"
    and repr_delete_frame: "repr h l (xs @ n # ys) \<Longrightarrow> repr h m zs \<Longrightarrow>
      set (l # xs @ n # ys) \<inter> set (m # zs) = {} \<Longrightarrow> repr (delete h n) m zs"
    and repr_empty: "repr h l xs \<Longrightarrow> is_empty h l \<longleftrightarrow> xs = []"
    and repr_first: "repr h l (x # xs) \<Longrightarrow> first h l = x"
begin

lemma repr_move:
  assumes "repr h l (xs @ n # ys)" and "repr h m zs" and "set (l # xs @ n # ys) \<inter> set (m # zs) = {}"
  shows "repr (tail_insert (delete h n) m n) l (xs @ ys)"
    and "repr (tail_insert (delete h n) m n) m (zs @ [n])"
proof -
  note d = repr_delete [OF assms(1)] repr_delete_frame [OF assms]
  have n: "n \<notin> set (m # zs)" "n \<notin> set (l # xs @ ys)" "n \<noteq> 0"
    using repr_distinct [OF assms(1)] assms(3) by auto
  show "repr (tail_insert (delete h n) m n) l (xs @ ys)"
    by (rule repr_tail_frame [OF d(2,1)]) (use assms(3) n in auto)
  show "repr (tail_insert (delete h n) m n) m (zs @ [n])"
    by (rule repr_tail [OF d(2) n(1,3)])
qed

lemma repr_move_frame:
  assumes "repr h l (xs @ n # ys)" and "repr h m zs" and "repr h k vs"
    and "set (l # xs @ n # ys) \<inter> set (m # zs) = {}" and "set (k # vs) \<inter> set (l # xs @ n # ys) = {}"
    and "set (k # vs) \<inter> set (m # zs) = {}"
  shows "repr (tail_insert (delete h n) m n) k vs"
  by (rule repr_tail_frame [OF repr_delete_frame [OF assms(1,2,4)] repr_delete_frame [OF assms(1,3)]])
    (use assms(4-6) in auto)

lemma repr_fill:
  "repr h l xs \<Longrightarrow> distinct ns \<Longrightarrow> set ns \<inter> set (l # xs) = {} \<Longrightarrow> 0 \<notin> set ns \<Longrightarrow>
     repr (foldl (\<lambda>h n. tail_insert h l n) h ns) l (xs @ ns)"
proof (induction ns arbitrary: h xs)
  case Nil
  then show ?case by simp
next
  case (Cons n ns)
  from Cons.prems have "repr (tail_insert h l n) l (xs @ [n])" by (intro repr_tail) auto
  from Cons.IH [OF this] Cons.prems show ?case by auto
qed

lemma repr_drain:
  "repr h l xs \<Longrightarrow> k \<le> length xs \<Longrightarrow> repr (((\<lambda>h. delete h (first h l)) ^^ k) h) l (drop k xs)"
proof (induction k)
  case 0
  then show ?case by simp
next
  case (Suc k)
  then have IH: "repr (((\<lambda>h. delete h (first h l)) ^^ k) h) l (drop k xs)" by simp
  moreover have "drop k xs = xs ! k # drop (Suc k) xs" using Suc.prems by (simp add: Cons_nth_drop_Suc)
  ultimately have "repr (((\<lambda>h. delete h (first h l)) ^^ k) h) l (xs ! k # drop (Suc k) xs)" by simp
  from repr_first [OF this] repr_delete [of _ l "[]", simplified, OF this] show ?case by simp
qed

lemma first_in_order:
  assumes "repr h l xs" and "k < length xs"
  shows "first (((\<lambda>h. delete h (first h l)) ^^ k) h) l = xs ! k"
  using repr_first [of _ l "xs ! k" "drop (Suc k) xs"] repr_drain [OF assms(1), of k] assms(2)
  by (simp add: Cons_nth_drop_Suc)

end

lemma dl_list_tail_insert_frame:
  assumes "dl_list h l xs" and "dl_list h m ys" and "set (l # xs) \<inter> set (m # ys) = {}"
    and "n \<notin> set (l # xs)" and "n \<notin> set (m # ys)"
  shows "dl_list (LOS_ListTailInsert h l n) m ys"
proof (rule dl_list_unlinked_unchanged [OF assms(2)])
  fix x assume "x \<in> set (m # ys)"
  moreover have "pstPrev (h l) \<in> set (l # xs)" using dl_list_ends(2) [OF assms(1)] by auto
  moreover have "pstNext (h (pstPrev (h l))) \<in> set (l # xs)"
    using assms(1) by (cases xs rule: rev_cases) (auto simp: dl_list_def dlseg_append dlseg_last)
  ultimately show "LOS_ListTailInsert h l n x = h x"
    using assms by (auto simp: LOS_ListTailInsert_def intro!: ListAdd_frame)
qed

lemma dl_list_delete_frame:
  assumes "dl_list h l (xs @ n # ys)" and "dl_list h m zs"
    and "set (l # xs @ n # ys) \<inter> set (m # zs) = {}"
  shows "dl_list (LOS_ListDelete h n) m zs"
proof (rule dl_list_unlinked_unchanged [OF assms(2)])
  fix x assume x: "x \<in> set (m # zs)"
  have ring: "dlring h (n # ys @ l # xs)" using assms(1) by (simp add: dl_list_ring dlring_rotate)
  then have "pstNext (h n) \<in> set (ys @ l # xs)" "pstPrev (h n) = last (ys @ l # xs)"
    using dlseg_last [of h n "ys @ l # xs" n] by (cases ys; auto simp: dlring_def)+
  moreover have "last (ys @ l # xs) \<in> set (ys @ l # xs)" by (rule last_in_set) simp
  ultimately show "LOS_ListDelete h n x = h x"
    using x ring assms(3) by (intro ListDelete_frame) (auto simp: dlring_def)
qed

lemma dl_list_distinct: "dl_list h l xs \<Longrightarrow> distinct (l # xs) \<and> 0 \<notin> set (l # xs)"
  by (simp add: dl_list_def)

interpretation dll: linked_list dl_list LOS_ListTailInsert LOS_ListDelete LOS_ListEmpty
  "\<lambda>h l. pstNext (h l)"
  by unfold_locales
    (fact dl_list_distinct dl_list_tail_insert dl_list_tail_insert_frame dl_list_delete
      dl_list_delete_frame dl_list_empty dl_list_first)+

section \<open>Properties\<close>

text \<open>C37. Moving a node with the pointer code (\<open>LOS_ListDelete\<close>, then \<open>LOS_ListTailInsert\<close>), the
  way the kernel moves a task from a pend list to a ready queue, does exactly that to the two lists
  involved and to nothing else: the node leaves its list, with the order of the others kept, it is
  last on the new list, any third list is unchanged, and a traversal of the new list
  (\<open>LOS_DL_LIST_FOR_EACH\<close>) terminates and visits its nodes in order.\<close>

theorem list_move_correct:
  assumes "dl_list h l (xs @ n # ys)" and "dl_list h m zs" and "dl_list h k vs"
    and "set (l # xs @ n # ys) \<inter> set (m # zs) = {}" and "set (k # vs) \<inter> set (l # xs @ n # ys) = {}"
    and "set (k # vs) \<inter> set (m # zs) = {}"
  shows "dl_list (LOS_ListTailInsert (LOS_ListDelete h n) m n) l (xs @ ys) \<and>
    dl_list (LOS_ListTailInsert (LOS_ListDelete h n) m n) m (zs @ [n]) \<and>
    dl_list (LOS_ListTailInsert (LOS_ListDelete h n) m n) k vs \<and>
    LOS_DL_LIST_FOR_EACH (length zs + 2) (LOS_ListTailInsert (LOS_ListDelete h n) m n) m = Some (zs @ [n])"
  using dll.repr_move [OF assms(1,2,4)] dll.repr_move_frame [OF assms]
  by (auto intro: for_each_complete)

definition move_example_heap :: dlheap where
  "move_example_heap = (\<lambda>_. \<lparr>pstPrev = 0, pstNext = 0\<rparr>)(
     1 := \<lparr>pstPrev = 12, pstNext = 11\<rparr>, 11 := \<lparr>pstPrev = 1, pstNext = 12\<rparr>,
     12 := \<lparr>pstPrev = 11, pstNext = 1\<rparr>, 2 := \<lparr>pstPrev = 21, pstNext = 21\<rparr>,
     21 := \<lparr>pstPrev = 2, pstNext = 2\<rparr>, 3 := \<lparr>pstPrev = 3, pstNext = 3\<rparr>)"

theorem list_move_correct_witness:
  "dl_list (LOS_ListTailInsert (LOS_ListDelete move_example_heap 11) 2 11) 2 [21, 11] \<and>
   LOS_DL_LIST_FOR_EACH (length [21::nat] + 2)
     (LOS_ListTailInsert (LOS_ListDelete move_example_heap 11) 2 11) 2 = Some [21, 11]"
proof -
  have "dl_list move_example_heap 1 ([] @ 11 # [12])" "dl_list move_example_heap 2 [21]"
    "dl_list move_example_heap 3 []"
    by (simp_all add: move_example_heap_def dl_list_def)
  from list_move_correct [OF this] show ?thesis by simp
qed

end
