(* ===== verification/LosFifo.thy ===== *)
theory LosFifo
  imports LosPrelude
begin

text \<open>
  The contract of a bounded first-in first-out channel, which the circular byte buffer implements: the
  abstract state is the sequence of queued elements, writing appends what fits and reading removes
  a prefix. The clients' theorem is about any sequence of reads and writes: the stream that comes out
  is the stream that went in.
\<close>

datatype 'a fifo_op = Put "'a list" | Get nat

text \<open>\<open>fifo_run\<close> performs a sequence of operations and collects everything accepted by the writes and
  everything returned by the reads.\<close>

fun fifo_run :: "('s \<Rightarrow> 'a list \<Rightarrow> 's \<times> nat) \<Rightarrow> ('s \<Rightarrow> nat \<Rightarrow> 's \<times> 'a list) \<Rightarrow> 'a fifo_op list \<Rightarrow> 's
    \<Rightarrow> 's \<times> 'a list \<times> 'a list" where
  "fifo_run put get [] s = (s, [], [])"
| "fifo_run put get (Put xs # ops) s =
    (case put s xs of (s', n) \<Rightarrow> case fifo_run put get ops s' of (s'', ins, outs) \<Rightarrow> (s'', take n xs @ ins, outs))"
| "fifo_run put get (Get n # ops) s =
    (case get s n of (s', ys) \<Rightarrow> case fifo_run put get ops s' of (s'', ins, outs) \<Rightarrow> (s'', ins, ys @ outs))"

locale bounded_fifo =
  fixes inv :: "'s \<Rightarrow> bool"
    and contents :: "'s \<Rightarrow> 'a list"
    and capacity :: "'s \<Rightarrow> nat"
    and put :: "'s \<Rightarrow> 'a list \<Rightarrow> 's \<times> nat"
    and get :: "'s \<Rightarrow> nat \<Rightarrow> 's \<times> 'a list"
    and put_ok :: "'a list \<Rightarrow> bool"
    and get_ok :: "nat \<Rightarrow> bool"
  assumes bound: "inv s \<Longrightarrow> length (contents s) \<le> capacity s"
    and put_law: "inv s \<Longrightarrow> put_ok xs \<Longrightarrow> put s xs = (s', n) \<Longrightarrow>
      inv s' \<and> capacity s' = capacity s \<and> n = min (length xs) (capacity s - length (contents s)) \<and>
      contents s' = contents s @ take n xs"
    and get_law: "inv s \<Longrightarrow> get_ok k \<Longrightarrow> get s k = (s', ys) \<Longrightarrow>
      inv s' \<and> capacity s' = capacity s \<and> ys = take k (contents s) \<and> contents s' = drop k (contents s)"
begin

lemma run_stream:
  assumes "inv s" and "\<forall>op \<in> set ops. case op of Put xs \<Rightarrow> put_ok xs | Get k \<Rightarrow> get_ok k" and "fifo_run put get ops s = (s', ins, outs)"
  shows "inv s' \<and> capacity s' = capacity s \<and> contents s @ ins = outs @ contents s'"
  using assms
proof (induction ops arbitrary: s ins outs)
  case (Cons op ops)
  show ?case
  proof (cases op)
    case (Put xs)
    obtain t n where t: "put s xs = (t, n)" by fastforce
    obtain ins' outs' where r: "fifo_run put get ops t = (s', ins', outs')"
      using Cons.prems(3) Put t by (auto split: prod.splits)
    have "inv t \<and> capacity t = capacity s \<and> contents t = contents s @ take n xs"
      using put_law [OF Cons.prems(1) _ t] Cons.prems(2) Put by auto
    with Cons.IH [OF _ _ r] Cons.prems t r Put show ?thesis by auto
  next
    case (Get k)
    obtain t ys where t: "get s k = (t, ys)" by fastforce
    obtain ins' outs' where r: "fifo_run put get ops t = (s', ins', outs')"
      using Cons.prems(3) Get t by (auto split: prod.splits)
    have "inv t \<and> capacity t = capacity s \<and> contents s = ys @ contents t"
      using get_law [OF Cons.prems(1) _ t] Cons.prems(2) Get by auto
    with Cons.IH [OF _ _ r] Cons.prems t r Get show ?thesis by auto
  qed
qed simp

text \<open>Reading back exactly what an accepted write put into an empty channel.\<close>

lemma put_get:
  assumes "inv s" and "contents s = []" and "length xs \<le> capacity s" and "put_ok xs"
    and "get_ok (length xs)"
    and "put s xs = (s', n)"
  shows "n = length xs" and "snd (get s' n) = xs"
  using put_law [OF assms(1,4,6)] get_law [of s' n "fst (get s' n)" "snd (get s' n)"] assms(2-5)
  by auto

end

end
