(* ===== verification/LosCirBuf.thy ===== *)
theory LosCirBuf
  imports LosFifo
begin

text \<open>
  The circular byte buffer of \<^verbatim>\<open>lib/libscrew/src/los_cir_buf.c\<close>. The buffer's storage is a
  function from offsets to bytes; the control block is a record of the fields of \<open>CirBuf\<close> except the
  spin lock, which makes every operation atomic. \<open>memcpy_s\<close> is the bounds-checked copy of C11 Annex K,
  whose limit \<open>RSIZE_MAX\<close> depends on the library and is a parameter. The abstract state is the byte
  sequence between \<open>startIdx\<close> and \<open>endIdx\<close>, wrapping at the end of the storage.
\<close>

section \<open>The code\<close>

datatype CirBufStatus = CBUF_UNUSED | CBUF_USED

record CirBuf =
  startIdx :: nat
  endIdx :: nat
  bufSize :: nat
  remain :: nat
  status :: CirBufStatus
  fifo :: "(nat \<Rightarrow> u8) option"

definition LOS_CirBufUsedSize :: "CirBuf \<Rightarrow> nat" where
  "LOS_CirBufUsedSize cb = sub32 (bufSize cb) (remain cb)"

definition OsCirBufWriteLinear :: "nat \<Rightarrow> CirBuf \<Rightarrow> (nat \<Rightarrow> u8) \<Rightarrow> u8 list \<Rightarrow> nat \<Rightarrow> CirBuf \<times> nat" where
  "OsCirBufWriteLinear rmax cb mem buf sz =
    (let cpSize = if remain cb < sz then remain cb else sz
     in if cpSize = 0 then (cb, 0)
        else case memcpy_s_into rmax mem (endIdx cb) (remain cb) buf cpSize of
          None \<Rightarrow> (cb, 0)
        | Some mem' \<Rightarrow>
            (cb\<lparr>fifo := Some mem', remain := sub32 (remain cb) cpSize, endIdx := add32 (endIdx cb) cpSize\<rparr>, cpSize))"

definition OsCirBufWriteLoop :: "nat \<Rightarrow> CirBuf \<Rightarrow> (nat \<Rightarrow> u8) \<Rightarrow> u8 list \<Rightarrow> nat \<Rightarrow> CirBuf \<times> nat" where
  "OsCirBufWriteLoop rmax cb mem buf sz =
    (let right = sub32 (bufSize cb) (endIdx cb);
         cpSize = if right < sz then right else sz
     in case memcpy_s_into rmax mem (endIdx cb) right buf cpSize of
          None \<Rightarrow> (cb, 0)
        | Some mem' \<Rightarrow>
            (let end' = add32 (endIdx cb) cpSize;
                 cb' = cb\<lparr>fifo := Some mem', remain := sub32 (remain cb) cpSize,
                          endIdx := if end' = bufSize cb then 0 else end'\<rparr>
             in if cpSize = sz then (cb', sz)
                else case OsCirBufWriteLinear rmax cb' mem' (drop cpSize buf) (sub32 sz cpSize) of
                  (cb'', n) \<Rightarrow> (cb'', add32 cpSize n)))"

text \<open>\<open>cirbufCB\<close> and \<open>buf\<close> may be \<open>NULL\<close>: \<open>None\<close>.\<close>

definition LOS_CirBufWrite :: "nat \<Rightarrow> CirBuf option \<Rightarrow> u8 list option \<Rightarrow> nat \<Rightarrow> CirBuf option \<times> nat" where
  "LOS_CirBufWrite rmax cirbufCB buf sz =
    (case (cirbufCB, buf) of
       (Some cb, Some bytes) \<Rightarrow>
         if sz = 0 \<or> status cb \<noteq> CBUF_USED then (cirbufCB, 0)
         else case fifo cb of
           None \<Rightarrow> (cirbufCB, 0)
         | Some mem \<Rightarrow>
             if remain cb = 0 then (cirbufCB, 0)
             else case (if startIdx cb \<le> endIdx cb then OsCirBufWriteLoop rmax cb mem bytes sz
                        else OsCirBufWriteLinear rmax cb mem bytes sz) of
               (cb', n) \<Rightarrow> (Some cb', n)
     | _ \<Rightarrow> (cirbufCB, 0))"

text \<open>The reads return the bytes copied to \<open>buf\<close> with the count.\<close>

definition OsCirBufReadLinear :: "nat \<Rightarrow> CirBuf \<Rightarrow> (nat \<Rightarrow> u8) \<Rightarrow> nat \<Rightarrow> CirBuf \<times> nat \<times> u8 list" where
  "OsCirBufReadLinear rmax cb mem sz =
    (let rem = sub32 (endIdx cb) (startIdx cb);
         cpSize = if rem < sz then rem else sz
     in if cpSize = 0 then (cb, 0, [])
        else case memcpy_s_from rmax sz mem (startIdx cb) cpSize of
          None \<Rightarrow> (cb, 0, [])
        | Some bytes \<Rightarrow>
            (cb\<lparr>remain := add32 (remain cb) cpSize, startIdx := add32 (startIdx cb) cpSize\<rparr>, cpSize, bytes))"

definition OsCirBufReadLoop :: "nat \<Rightarrow> CirBuf \<Rightarrow> (nat \<Rightarrow> u8) \<Rightarrow> nat \<Rightarrow> CirBuf \<times> nat \<times> u8 list" where
  "OsCirBufReadLoop rmax cb mem sz =
    (let right = sub32 (bufSize cb) (startIdx cb);
         cpSize = if right < sz then right else sz
     in case memcpy_s_from rmax sz mem (startIdx cb) cpSize of
          None \<Rightarrow> (cb, 0, [])
        | Some bytes \<Rightarrow>
            (let start' = add32 (startIdx cb) cpSize;
                 cb' = cb\<lparr>remain := add32 (remain cb) cpSize,
                          startIdx := if start' = bufSize cb then 0 else start'\<rparr>
             in if cpSize < sz
                then case OsCirBufReadLinear rmax cb' mem (sub32 sz cpSize) of
                  (cb'', n, bytes') \<Rightarrow> (cb'', add32 cpSize n, bytes @ bytes')
                else (cb', cpSize, bytes)))"

definition LOS_CirBufRead :: "nat \<Rightarrow> CirBuf option \<Rightarrow> bool \<Rightarrow> nat \<Rightarrow> CirBuf option \<times> nat \<times> u8 list" where
  "LOS_CirBufRead rmax cirbufCB bufIsNull sz =
    (case cirbufCB of
       None \<Rightarrow> (None, 0, [])
     | Some cb \<Rightarrow>
         if bufIsNull \<or> sz = 0 \<or> status cb \<noteq> CBUF_USED then (cirbufCB, 0, [])
         else case fifo cb of
           None \<Rightarrow> (cirbufCB, 0, [])
         | Some mem \<Rightarrow>
             if remain cb = bufSize cb then (cirbufCB, 0, [])
             else case (if startIdx cb \<ge> endIdx cb then OsCirBufReadLoop rmax cb mem sz
                        else OsCirBufReadLinear rmax cb mem sz) of
               (cb', n, bytes) \<Rightarrow> (Some cb', n, bytes))"

definition LOS_CirBufInit :: "CirBuf option \<Rightarrow> (nat \<Rightarrow> u8) option \<Rightarrow> nat \<Rightarrow> CirBuf option \<times> u32" where
  "LOS_CirBufInit cirbufCB mem sz =
    (case (cirbufCB, mem) of
       (Some cb, Some _) \<Rightarrow>
         (Some \<lparr>startIdx = 0, endIdx = 0, bufSize = sz, remain = sz, status = CBUF_USED, fifo = mem\<rparr>, LOS_OK)
     | _ \<Rightarrow> (cirbufCB, LOS_NOK))"

definition LOS_CirBufDeinit :: "CirBuf \<Rightarrow> CirBuf" where
  "LOS_CirBufDeinit cb =
    \<lparr>startIdx = 0, endIdx = 0, bufSize = 0, remain = 0, status = CBUF_UNUSED, fifo = None\<rparr>"

section \<open>The abstract byte sequence\<close>

definition ring_pos :: "CirBuf \<Rightarrow> nat \<Rightarrow> nat" where
  "ring_pos cb i = (if startIdx cb + i < bufSize cb then startIdx cb + i else startIdx cb + i - bufSize cb)"

definition cb_used :: "CirBuf \<Rightarrow> nat" where
  "cb_used cb = bufSize cb - remain cb"

definition cb_contents :: "CirBuf \<Rightarrow> u8 list" where
  "cb_contents cb = map (\<lambda>i. the (fifo cb) (ring_pos cb i)) [0 ..< cb_used cb]"

definition cb_inv :: "nat \<Rightarrow> CirBuf \<Rightarrow> bool" where
  "cb_inv rmax cb \<longleftrightarrow> status cb = CBUF_USED \<and> fifo cb \<noteq> None \<and> bufSize cb \<le> rmax \<and> bufSize cb < 2 ^ 32 \<and>
    remain cb \<le> bufSize cb \<and> (startIdx cb < bufSize cb \<or> startIdx cb = 0 \<and> bufSize cb = 0) \<and>
    endIdx cb = ring_pos cb (cb_used cb)"

lemma length_cb_contents [simp]: "length (cb_contents cb) = cb_used cb"
  by (simp add: cb_contents_def)

lemma cb_inv_endIdx: "cb_inv rmax cb \<Longrightarrow> endIdx cb \<le> bufSize cb \<and> (0 < bufSize cb \<longrightarrow> endIdx cb < bufSize cb)"
  by (auto simp: cb_inv_def ring_pos_def cb_used_def)

text \<open>A contiguous chunk written at \<open>endIdx\<close> extends the sequence; a contiguous chunk read at \<open>startIdx\<close> is its
  prefix.\<close>

lemma write_chunk:
  assumes inv: "cb_inv rmax cb" and mem: "fifo cb = Some mem" and n: "0 < n" "n \<le> remain cb" "endIdx cb + n \<le> bufSize cb"
    and len: "n \<le> length buf"
    and cb': "cb' = cb\<lparr>fifo := Some (\<lambda>i. if endIdx cb \<le> i \<and> i < endIdx cb + n then buf ! (i - endIdx cb) else mem i),
      remain := remain cb - n, endIdx := if endIdx cb + n = bufSize cb then 0 else endIdx cb + n\<rparr>"
  shows "cb_inv rmax cb'" and "cb_contents cb' = cb_contents cb @ take n buf"
proof -
  have used: "cb_used cb' = cb_used cb + n" and rem: "cb_used cb + n \<le> bufSize cb"
    using inv n by (auto simp: cb_used_def cb_inv_def cb')
  have pos: "ring_pos cb' = ring_pos cb" by (auto simp: ring_pos_def cb')
  have mem': "the (fifo cb') j = (if endIdx cb \<le> j \<and> j < endIdx cb + n then buf ! (j - endIdx cb) else mem j)" for j
    by (simp add: cb')
  have start: "startIdx cb < bufSize cb" and e: "endIdx cb = ring_pos cb (cb_used cb)"
    using inv n by (auto simp: cb_inv_def)
  show "cb_inv rmax cb'"
    unfolding cb_inv_def used pos using inv n start rem
    by (auto simp: cb_inv_def cb' ring_pos_def cb_used_def split: if_splits)
  show "cb_contents cb' = cb_contents cb @ take n buf"
  proof (rule nth_equalityI)
    show "length (cb_contents cb') = length (cb_contents cb @ take n buf)"
      using used len by simp
  next
    fix i assume "i < length (cb_contents cb')"
    then have i: "i < cb_used cb + n" by (simp add: used)
    show "cb_contents cb' ! i = (cb_contents cb @ take n buf) ! i"
    proof (cases "i < cb_used cb")
      case True
      then have "\<not> (endIdx cb \<le> ring_pos cb i \<and> ring_pos cb i < endIdx cb + n)"
        using e start rem n by (auto simp: ring_pos_def split: if_splits)
      with True i show ?thesis
        by (auto simp: cb_contents_def used pos nth_append mem' mem)
    next
      case False
      then have "ring_pos cb i = endIdx cb + (i - cb_used cb)"
        using e start rem n i by (auto simp: ring_pos_def split: if_splits)
      with False i show ?thesis
        by (auto simp: cb_contents_def used pos nth_append mem')
    qed
  qed
qed

lemma read_chunk:
  assumes inv: "cb_inv rmax cb" and mem: "fifo cb = Some mem" and n: "0 < n" "n \<le> cb_used cb" "startIdx cb + n \<le> bufSize cb"
    and cb': "cb' = cb\<lparr>remain := remain cb + n,
      startIdx := if startIdx cb + n = bufSize cb then 0 else startIdx cb + n\<rparr>"
  shows "cb_inv rmax cb'" and "cb_contents cb' = drop n (cb_contents cb)"
    and "map mem [startIdx cb ..< startIdx cb + n] = take n (cb_contents cb)"
proof -
  have used: "cb_used cb' = cb_used cb - n" and rem: "cb_used cb \<le> bufSize cb" and
    "startIdx cb < bufSize cb"
    using inv n by (auto simp: cb_used_def cb_inv_def cb')
  have pos: "ring_pos cb' i = ring_pos cb (n + i)" if "n + i \<le> cb_used cb" for i
    using that n rem \<open>startIdx cb < bufSize cb\<close> by (auto simp: ring_pos_def cb')
  show "cb_inv rmax cb'"
    using inv n pos [of "cb_used cb - n"] unfolding cb_inv_def used
    by (auto simp: cb' cb_used_def)
  show "cb_contents cb' = drop n (cb_contents cb)"
    using n pos by (auto intro!: nth_equalityI simp: cb_contents_def used) (simp add: cb')
  show "map mem [startIdx cb ..< startIdx cb + n] = take n (cb_contents cb)"
    using n by (auto intro!: nth_equalityI simp: cb_contents_def mem ring_pos_def)
qed

section \<open>Writing and reading\<close>

lemma write_chunk_memcpy:
  assumes "cb_inv rmax cb" and "fifo cb = Some mem" and "n \<le> destMax" and "destMax \<le> rmax"
  shows "memcpy_s_into rmax mem (endIdx cb) destMax buf n =
    Some (\<lambda>i. if endIdx cb \<le> i \<and> i < endIdx cb + n then buf ! (i - endIdx cb) else mem i)"
  using assms by (simp add: memcpy_s_into_def)

lemma WriteLinear_spec:
  assumes inv: "cb_inv rmax cb" and mem: "fifo cb = Some mem" and sz: "sz \<le> length buf" "sz < 2 ^ 32"
    and room: "endIdx cb + remain cb < bufSize cb \<or> remain cb = 0"
    and eq: "OsCirBufWriteLinear rmax cb mem buf sz = (cb', n)"
  shows "cb_inv rmax cb' \<and> bufSize cb' = bufSize cb \<and> n = min sz (remain cb) \<and>
    cb_contents cb' = cb_contents cb @ take n buf"
proof (cases "sz = 0 \<or> remain cb = 0")
  case True
  then show ?thesis using eq inv by (auto simp: OsCirBufWriteLinear_def Let_def split: if_splits)
next
  case False
  have b: "remain cb \<le> bufSize cb" "bufSize cb \<le> rmax" "bufSize cb < 2 ^ 32"
    using inv by (auto simp: cb_inv_def)
  let ?n = "min sz (remain cb)"
  have n: "n = ?n" and cb': "cb' = cb\<lparr>fifo := Some (\<lambda>i. if endIdx cb \<le> i \<and> i < endIdx cb + ?n then buf ! (i - endIdx cb) else mem i),
      remain := remain cb - ?n, endIdx := if endIdx cb + ?n = bufSize cb then 0 else endIdx cb + ?n\<rparr>"
    using eq False room b by (auto simp: OsCirBufWriteLinear_def memcpy_s_into_def Let_def min_def split: if_splits)
  from write_chunk [OF inv mem _ _ _ _ cb'] show ?thesis
    using False room sz b n by (auto simp: cb')
qed

lemma WriteLoop_spec:
  assumes inv: "cb_inv rmax cb" and mem: "fifo cb = Some mem" and sz: "0 < sz" "sz \<le> length buf" "sz < 2 ^ 32"
    and room: "startIdx cb \<le> endIdx cb" "remain cb \<noteq> 0"
    and eq: "OsCirBufWriteLoop rmax cb mem buf sz = (cb', n)"
  shows "cb_inv rmax cb' \<and> bufSize cb' = bufSize cb \<and> n = min sz (remain cb) \<and>
    cb_contents cb' = cb_contents cb @ take n buf"
proof -
  let ?right = "bufSize cb - endIdx cb"
  let ?n = "min sz ?right"
  let ?mem = "\<lambda>i. if endIdx cb \<le> i \<and> i < endIdx cb + ?n then buf ! (i - endIdx cb) else mem i"
  define cb1 where "cb1 = cb\<lparr>fifo := Some ?mem, remain := remain cb - ?n,
    endIdx := if endIdx cb + ?n = bufSize cb then 0 else endIdx cb + ?n\<rparr>"
  have b: "remain cb \<le> bufSize cb" "bufSize cb \<le> rmax" "bufSize cb < 2 ^ 32" "startIdx cb < bufSize cb"
    and e: "endIdx cb < bufSize cb" "endIdx cb = ring_pos cb (cb_used cb)"
    using inv room cb_inv_endIdx [OF inv] by (auto simp: cb_inv_def)
  have rem: "remain cb = ?right + startIdx cb"
    using e b room by (auto simp: ring_pos_def cb_used_def split: if_splits)
  have n: "0 < ?n" "?n \<le> remain cb" "endIdx cb + ?n \<le> bufSize cb" "?n \<le> length buf"
    using sz e rem by auto
  note chunk = write_chunk [OF inv mem n cb1_def]
  show ?thesis
  proof (cases "sz \<le> ?right")
    case True
    then have "?n = sz" by simp
    then have "cb' = cb1" "n = sz"
      using eq b e(1) n True by (auto simp: OsCirBufWriteLoop_def Let_def memcpy_s_into_def cb1_def min_def split: if_splits)
    with chunk True rem show ?thesis by (auto simp: cb1_def)
  next
    case False
    then have "?n = ?right" by simp
    obtain cb2 m where lin: "OsCirBufWriteLinear rmax cb1 ?mem (drop ?right buf) (sz - ?right) = (cb2, m)" by fastforce
    have one: "fifo cb1 = Some ?mem" "endIdx cb1 = 0" "remain cb1 = startIdx cb" "bufSize cb1 = bufSize cb"
      using False rem e by (auto simp: cb1_def)
    have two: "cb_inv rmax cb2 \<and> bufSize cb2 = bufSize cb1 \<and> m = min (sz - ?right) (remain cb1) \<and>
        cb_contents cb2 = cb_contents cb1 @ take m (drop ?right buf)"
      using one b sz by (intro WriteLinear_spec [OF chunk(1) one(1) _ _ _ lin]) auto
    have "cb' = cb2" and "n = ?right + m"
      using eq lin False b e(1) n sz one(3) two \<open>?n = ?right\<close>
      by (auto simp: OsCirBufWriteLoop_def Let_def memcpy_s_into_def cb1_def split: if_splits prod.splits)
    moreover from this have "take n buf = take ?right buf @ take m (drop ?right buf)" by (simp add: take_add)
    moreover have "?right + m = min sz (remain cb)" using rem False two one by simp
    ultimately show ?thesis using two chunk(2) one \<open>?n = ?right\<close> by simp
  qed
qed

lemma ReadLinear_spec:
  assumes inv: "cb_inv rmax cb" and mem: "fifo cb = Some mem" and sz: "sz \<le> rmax" "sz < 2 ^ 32"
    and room: "startIdx cb + cb_used cb = endIdx cb"
    and eq: "OsCirBufReadLinear rmax cb mem sz = (cb', n, bytes)"
  shows "cb_inv rmax cb' \<and> bufSize cb' = bufSize cb \<and> bytes = take sz (cb_contents cb) \<and> n = length bytes \<and>
    cb_contents cb' = drop sz (cb_contents cb)"
proof -
  have b: "endIdx cb \<le> bufSize cb" "0 < bufSize cb \<Longrightarrow> endIdx cb < bufSize cb" "remain cb \<le> bufSize cb"
    "bufSize cb \<le> rmax" "bufSize cb < 2 ^ 32"
    using inv cb_inv_endIdx [OF inv] by (auto simp: cb_inv_def)
  let ?n = "min sz (cb_used cb)"
  have rem: "sub32 (endIdx cb) (startIdx cb) = cb_used cb" using room b by simp
  show ?thesis
  proof (cases "?n = 0")
    case True
    then have "cb' = cb" "n = 0" "bytes = []"
      using eq rem by (auto simp: OsCirBufReadLinear_def Let_def min_def split: if_splits)
    moreover have "sz = 0 \<or> cb_contents cb = []" using True by (metis length_0_conv length_cb_contents min_def)
    ultimately show ?thesis using inv by auto
  next
    case False
    have n: "n = ?n" and bytes: "bytes = map mem [startIdx cb ..< startIdx cb + ?n]" and
      cb': "cb' = cb\<lparr>remain := remain cb + ?n,
        startIdx := if startIdx cb + ?n = bufSize cb then 0 else startIdx cb + ?n\<rparr>"
      using eq False room b rem sz
      by (auto simp: OsCirBufReadLinear_def memcpy_s_from_def Let_def min_def cb_used_def split: if_splits)
    have "0 < ?n" "?n \<le> cb_used cb" "startIdx cb + ?n \<le> bufSize cb" using False room b by auto
    note c = read_chunk [OF inv mem this cb']
    have "take ?n (cb_contents cb) = take sz (cb_contents cb)" "drop ?n (cb_contents cb) = drop sz (cb_contents cb)"
      by (auto simp: min_def)
    with c bytes n show ?thesis by (simp add: cb')
  qed
qed

lemma ReadLoop_spec:
  assumes inv: "cb_inv rmax cb" and mem: "fifo cb = Some mem" and sz: "0 < sz" "sz \<le> rmax" "sz < 2 ^ 32"
    and room: "endIdx cb \<le> startIdx cb" "remain cb \<noteq> bufSize cb"
    and eq: "OsCirBufReadLoop rmax cb mem sz = (cb', n, bytes)"
  shows "cb_inv rmax cb' \<and> bufSize cb' = bufSize cb \<and> bytes = take sz (cb_contents cb) \<and> n = length bytes \<and>
    cb_contents cb' = drop sz (cb_contents cb)"
proof -
  let ?right = "bufSize cb - startIdx cb"
  let ?n = "min sz ?right"
  define cb1 where "cb1 = cb\<lparr>remain := remain cb + ?n,
    startIdx := if startIdx cb + ?n = bufSize cb then 0 else startIdx cb + ?n\<rparr>"
  have b: "remain cb \<le> bufSize cb" "bufSize cb \<le> rmax" "bufSize cb < 2 ^ 32" "startIdx cb < bufSize cb"
    and e: "endIdx cb < bufSize cb" "endIdx cb = ring_pos cb (cb_used cb)"
    using inv room cb_inv_endIdx [OF inv] by (auto simp: cb_inv_def)
  have used: "cb_used cb = ?right + endIdx cb" and rem: "remain cb + cb_used cb = bufSize cb"
    using e b room by (auto simp: ring_pos_def cb_used_def split: if_splits)
  have n: "0 < ?n" "?n \<le> cb_used cb" "startIdx cb + ?n \<le> bufSize cb"
    using sz b used by auto
  note chunk = read_chunk [OF inv mem n cb1_def]
  show ?thesis
  proof (cases "sz \<le> ?right")
    case True
    then have "?n = sz" by simp
    then have "cb' = cb1" "n = sz" "bytes = map mem [startIdx cb ..< startIdx cb + ?n]"
      using eq b sz n rem True
      by (auto simp: OsCirBufReadLoop_def Let_def memcpy_s_from_def cb1_def min_def split: if_splits)
    with chunk n(2) \<open>?n = sz\<close> show ?thesis by (auto simp: cb1_def)
  next
    case False
    then have right: "?n = ?right" by simp
    obtain cb2 m bytes2 where lin: "OsCirBufReadLinear rmax cb1 mem (sz - ?right) = (cb2, m, bytes2)"
      by (metis prod_cases3)
    have one: "fifo cb1 = Some mem" "startIdx cb1 = 0" "bufSize cb1 = bufSize cb" "endIdx cb1 = cb_used cb1"
      using False rem used b mem by (auto simp: cb1_def cb_used_def)
    have two: "cb_inv rmax cb2 \<and> bufSize cb2 = bufSize cb1 \<and> bytes2 = take (sz - ?right) (cb_contents cb1) \<and>
        m = length bytes2 \<and> cb_contents cb2 = drop (sz - ?right) (cb_contents cb1)"
      using one sz by (intro ReadLinear_spec [OF chunk(1) one(1) _ _ _ lin]) auto
    have "?right + m < 2 ^ 32" using two sz False by auto
    then have "cb' = cb2" "n = ?right + m" "bytes = map mem [startIdx cb ..< startIdx cb + ?n] @ bytes2"
      using eq lin False b sz n rem right
      by (auto simp: OsCirBufReadLoop_def Let_def memcpy_s_from_def cb1_def split: if_splits prod.splits)
    moreover have "take sz (cb_contents cb) = take ?right (cb_contents cb) @ take (sz - ?right) (drop ?right (cb_contents cb))"
      using False by (metis le_add_diff_inverse nat_le_linear take_add)
    moreover have "length (take ?right (cb_contents cb)) = ?right" using used by simp
    ultimately show ?thesis using two chunk one False by (simp add: right)
  qed
qed

section \<open>The buffer is a bounded FIFO channel\<close>

definition cb_put :: "nat \<Rightarrow> CirBuf \<Rightarrow> u8 list \<Rightarrow> CirBuf \<times> nat" where
  "cb_put rmax cb bytes = (case LOS_CirBufWrite rmax (Some cb) (Some bytes) (length bytes) of (r, n) \<Rightarrow> (the r, n))"

definition cb_get :: "nat \<Rightarrow> CirBuf \<Rightarrow> nat \<Rightarrow> CirBuf \<times> u8 list" where
  "cb_get rmax cb sz = (case LOS_CirBufRead rmax (Some cb) False sz of (r, n, bytes) \<Rightarrow> (the r, bytes))"

lemma CirBufWrite_spec:
  assumes inv: "cb_inv rmax cb" and sz: "sz \<le> length bytes" "sz < 2 ^ 32"
    and eq: "LOS_CirBufWrite rmax (Some cb) (Some bytes) sz = (r, n)"
  shows "\<exists>cb'. r = Some cb' \<and> cb_inv rmax cb' \<and> bufSize cb' = bufSize cb \<and> n = min sz (remain cb) \<and>
    cb_contents cb' = cb_contents cb @ take n bytes"
proof -
  obtain mem where mem: "fifo cb = Some mem" and used: "status cb = CBUF_USED"
    using inv by (auto simp: cb_inv_def)
  show ?thesis
  proof (cases "sz = 0 \<or> remain cb = 0")
    case True
    then show ?thesis using eq inv mem by (auto simp: LOS_CirBufWrite_def split: if_splits)
  next
    case False
    let ?w = "if startIdx cb \<le> endIdx cb then OsCirBufWriteLoop rmax cb mem bytes sz
      else OsCirBufWriteLinear rmax cb mem bytes sz"
    obtain cb' m where w: "?w = (cb', m)" by fastforce
    have "endIdx cb + remain cb < bufSize cb" if "\<not> startIdx cb \<le> endIdx cb"
      using that inv False by (auto simp: cb_inv_def ring_pos_def cb_used_def split: if_splits)
    then have "cb_inv rmax cb' \<and> bufSize cb' = bufSize cb \<and> m = min sz (remain cb) \<and>
        cb_contents cb' = cb_contents cb @ take m bytes"
      using w False sz WriteLoop_spec [OF inv mem _ sz, of cb' m] WriteLinear_spec [OF inv mem sz, of cb' m]
      by (cases "startIdx cb \<le> endIdx cb") auto
    moreover have "r = Some cb'" "n = m"
      using eq w False by (simp_all add: LOS_CirBufWrite_def mem used)
    ultimately show ?thesis by blast
  qed
qed

lemma CirBufRead_spec:
  assumes inv: "cb_inv rmax cb" and sz: "sz \<le> rmax" "sz < 2 ^ 32"
    and eq: "LOS_CirBufRead rmax (Some cb) False sz = (r, n, bytes)"
  shows "\<exists>cb'. r = Some cb' \<and> cb_inv rmax cb' \<and> bufSize cb' = bufSize cb \<and> n = length bytes \<and>
    bytes = take sz (cb_contents cb) \<and> cb_contents cb' = drop sz (cb_contents cb)"
proof -
  obtain mem where mem: "fifo cb = Some mem" and used: "status cb = CBUF_USED"
    using inv by (auto simp: cb_inv_def)
  show ?thesis
  proof (cases "sz = 0 \<or> remain cb = bufSize cb")
    case True
    then have "sz = 0 \<or> cb_contents cb = []" by (auto simp: cb_contents_def cb_used_def)
    then show ?thesis using eq inv mem True by (auto simp: LOS_CirBufRead_def split: if_splits)
  next
    case False
    let ?w = "if endIdx cb \<le> startIdx cb then OsCirBufReadLoop rmax cb mem sz
      else OsCirBufReadLinear rmax cb mem sz"
    obtain cb' m bs where w: "?w = (cb', m, bs)" by (metis prod_cases3)
    have "startIdx cb + cb_used cb = endIdx cb" if "\<not> endIdx cb \<le> startIdx cb"
      using that inv False by (auto simp: cb_inv_def ring_pos_def cb_used_def split: if_splits)
    then have "cb_inv rmax cb' \<and> bufSize cb' = bufSize cb \<and> bs = take sz (cb_contents cb) \<and> m = length bs \<and>
        cb_contents cb' = drop sz (cb_contents cb)"
      using w False sz ReadLoop_spec [OF inv mem _ sz, of cb' m bs] ReadLinear_spec [OF inv mem sz, of cb' m bs]
      by (cases "endIdx cb \<le> startIdx cb") auto
    moreover have "r = Some cb'" "n = m" "bytes = bs"
      using eq w False by (simp_all add: LOS_CirBufRead_def mem used)
    ultimately show ?thesis by blast
  qed
qed


lemma cb_capacity: "cb_inv rmax cb \<Longrightarrow> bufSize cb - length (cb_contents cb) = remain cb"
  by (auto simp: cb_inv_def cb_used_def)

text \<open>\<open>destMax\<close> of the copy to the reader is the requested size, so a read asks for at most \<open>RSIZE_MAX\<close> bytes.\<close>

interpretation cirbuf: bounded_fifo "cb_inv rmax" cb_contents bufSize "cb_put rmax" "cb_get rmax"
  "\<lambda>xs. length xs < 2 ^ 32" "\<lambda>k. k \<le> rmax \<and> k < 2 ^ 32" for rmax
proof unfold_locales
  fix s :: CirBuf assume "cb_inv rmax s"
  then show "length (cb_contents s) \<le> bufSize s" by (simp add: cb_used_def)
next
  fix s xs s' n
  assume inv: "cb_inv rmax s" and len: "length (xs :: u8 list) < 2 ^ 32" and eq: "cb_put rmax s xs = (s', n)"
  then obtain r where "LOS_CirBufWrite rmax (Some s) (Some xs) (length xs) = (r, n)" and "s' = the r"
    by (auto simp: cb_put_def split: prod.splits)
  from CirBufWrite_spec [OF inv _ len this(1)] this(2)
  show "cb_inv rmax s' \<and> bufSize s' = bufSize s \<and> n = min (length xs) (bufSize s - length (cb_contents s)) \<and>
      cb_contents s' = cb_contents s @ take n xs"
    unfolding cb_capacity [OF inv] by auto
next
  fix s k s' ys
  assume inv: "cb_inv rmax s" and k: "k \<le> rmax \<and> k < 2 ^ 32" and eq: "cb_get rmax s k = (s', ys)"
  then obtain r n where "LOS_CirBufRead rmax (Some s) False k = (r, n, ys)" and "s' = the r"
    by (auto simp: cb_get_def split: prod.splits)
  from CirBufRead_spec [OF inv _ _ this(1)] this(2) k
  show "cb_inv rmax s' \<and> bufSize s' = bufSize s \<and> ys = take k (cb_contents s) \<and> cb_contents s' = drop k (cb_contents s)"
    by auto
qed

section \<open>Properties\<close>

lemma CirBufInit_inv:
  assumes "LOS_CirBufInit (Some cb) (Some mem) sz = (Some cb', LOS_OK)" and "sz \<le> rmax" and "sz < 2 ^ 32"
  shows "cb_inv rmax cb'" and "cb_contents cb' = []" and "bufSize cb' = sz"
  using assms by (auto simp: LOS_CirBufInit_def cb_inv_def ring_pos_def cb_used_def cb_contents_def)

text \<open>C15. The circular buffer is a byte stream: from a freshly initialised buffer of any size up to the limit of
  \<open>memcpy_s\<close>, after any
  sequence of \<open>LOS_CirBufWrite\<close> and \<open>LOS_CirBufRead\<close> calls the bytes returned by the reads followed by
  the bytes still stored are exactly the bytes the writes accepted, in order, however often the
  indexes wrapped; and the stored bytes never exceed the buffer's size.\<close>

theorem cirbuf_stream:
  assumes "LOS_CirBufInit (Some cb) (Some mem) sz = (Some cb0, LOS_OK)" and "sz \<le> rmax" and "sz < 2 ^ 32"
    and "\<forall>op \<in> set ops. case op of Put xs \<Rightarrow> length xs < 2 ^ 32 | Get k \<Rightarrow> k \<le> rmax \<and> k < 2 ^ 32"
    and "fifo_run (cb_put rmax) (cb_get rmax) ops cb0 = (cb', ins, outs)"
  shows "ins = outs @ cb_contents cb' \<and> length (cb_contents cb') \<le> sz \<and> LOS_CirBufUsedSize cb' = length (cb_contents cb')"
proof -
  note init = CirBufInit_inv [OF assms(1-3)]
  from cirbuf.run_stream [OF init(1) assms(4,5)] init
  have "ins = outs @ cb_contents cb'" "cb_inv rmax cb'" "bufSize cb' = sz" by auto
  then show ?thesis
    by (auto simp: LOS_CirBufUsedSize_def cb_used_def cb_inv_def)
qed

theorem cirbuf_stream_witness:
  "\<exists>cb' ins outs. fifo_run (cb_put 100) (cb_get 100) [Put [1, 2, 3], Get 2, Put [4, 5, 6], Get 9]
      \<lparr>startIdx = 0, endIdx = 0, bufSize = 4, remain = 4, status = CBUF_USED, fifo = Some (\<lambda>_. 0)\<rparr> = (cb', ins, outs) \<and>
    ins = outs @ cb_contents cb'"
proof -
  let ?cb = "\<lparr>startIdx = 0, endIdx = 0, bufSize = 4, remain = 4, status = CBUF_USED, fifo = Some (\<lambda>_. 0)\<rparr>"
  obtain cb' ins outs where r:
    "fifo_run (cb_put 100) (cb_get 100) [Put [1, 2, 3], Get 2, Put [4, 5, 6], Get 9] ?cb = (cb', ins, outs)"
    by (metis prod_cases3)
  moreover have "LOS_CirBufInit (Some ?cb) (Some (\<lambda>_. 0)) 4 = (Some ?cb, LOS_OK)"
    by (simp add: LOS_CirBufInit_def)
  from cirbuf_stream [OF this _ _ _ r] have "ins = outs @ cb_contents cb'" by simp
  ultimately show ?thesis by blast
qed

end
