(* ===== verification/LosSortLink.thy ===== *)
theory LosSortLink
  imports LosPrelude
begin

text \<open>
  The sorted timeout list of \<^verbatim>\<open>kernel/base/sched/los_sortlink.c\<close> and
  \<^verbatim>\<open>kernel/base/include/los_sortlink_pri.h\<close>. A node is a number; the fields of the nodes are a
  function \<open>nat \<Rightarrow> SortLinkList\<close>, because the nodes are embedded in task and timer control blocks that
  outlive their membership. The list of a header is the sequence of its nodes from \<open>pstNext\<close> on
  (theory \<open>LosList\<close> shows that the link operations maintain such a sequence). The spin locks make
  every operation atomic.
\<close>

section \<open>The code\<close>

record SortLinkList =
  responseTime :: u64
  cpuid :: nat

record SortLinkAttribute =
  sortLink :: "nat list"
  nodeNum :: u32

type_synonym sort_nodes = "nat \<Rightarrow> SortLinkList"

abbreviation (input) OS_SORT_LINK_INVALID_TIME :: u64 where "OS_SORT_LINK_INVALID_TIME \<equiv> 0xFFFFFFFFFFFFFFFF"

definition SET_SORTLIST_VALUE :: "sort_nodes \<Rightarrow> nat \<Rightarrow> u64 \<Rightarrow> sort_nodes" where
  "SET_SORTLIST_VALUE nodes n v = nodes(n := (nodes n)\<lparr>responseTime := v\<rparr>)"

definition GET_SORTLIST_VALUE :: "sort_nodes \<Rightarrow> nat \<Rightarrow> u64" where
  "GET_SORTLIST_VALUE nodes n = responseTime (nodes n)"

definition OsSortLinkInit :: "SortLinkAttribute \<Rightarrow> SortLinkAttribute" where
  "OsSortLinkInit h = h\<lparr>sortLink := [], nodeNum := 0\<rparr>"

text \<open>\<open>insert_after k\<close> is \<open>LOS_ListAdd\<close> on the \<open>k\<close>-th position: after the first \<open>k\<close> nodes.\<close>

definition insert_after :: "nat \<Rightarrow> nat \<Rightarrow> nat list \<Rightarrow> nat list" where
  "insert_after k n xs = take k xs @ n # drop k xs"

text \<open>The backward search from the tail: \<open>k\<close> nodes are still ahead of \<open>prevNode\<close>, itself included. The code
  has no other exit; \<open>None\<close> is running past the first node, onto the list head.\<close>

fun scan_back :: "sort_nodes \<Rightarrow> u64 \<Rightarrow> nat list \<Rightarrow> nat \<Rightarrow> nat option" where
  "scan_back nodes t xs 0 = None"
| "scan_back nodes t xs (Suc k) =
    (if responseTime (nodes (xs ! k)) \<le> t then Some (Suc k) else scan_back nodes t xs k)"

definition AddNode2SortLink :: "sort_nodes \<Rightarrow> SortLinkAttribute \<Rightarrow> nat \<Rightarrow> SortLinkAttribute option" where
  "AddNode2SortLink nodes h n =
    (case sortLink h of
       [] \<Rightarrow> Some (h\<lparr>sortLink := [n], nodeNum := nodeNum h + 1\<rparr>)
     | listSorted # _ \<Rightarrow>
         if responseTime (nodes listSorted) > responseTime (nodes n)
         then Some (h\<lparr>sortLink := insert_after 0 n (sortLink h), nodeNum := nodeNum h + 1\<rparr>)
         else if responseTime (nodes listSorted) = responseTime (nodes n)
         then Some (h\<lparr>sortLink := insert_after 1 n (sortLink h), nodeNum := nodeNum h + 1\<rparr>)
         else map_option (\<lambda>k. h\<lparr>sortLink := insert_after k n (sortLink h), nodeNum := nodeNum h + 1\<rparr>)
           (scan_back nodes (responseTime (nodes n)) (sortLink h) (length (sortLink h))))"

definition OsAdd2SortLink :: "sort_nodes \<Rightarrow> SortLinkAttribute \<Rightarrow> nat \<Rightarrow> u64 \<Rightarrow> nat
    \<Rightarrow> (sort_nodes \<times> SortLinkAttribute) option" where
  "OsAdd2SortLink nodes h n t idleCpu =
    (let nodes' = SET_SORTLIST_VALUE nodes n t
     in map_option (\<lambda>h'. (nodes'(n := (nodes' n)\<lparr>cpuid := idleCpu\<rparr>), h')) (AddNode2SortLink nodes' h n))"

text \<open>\<open>LOS_ListDelete\<close> of a node that is not linked follows its \<open>NULL\<close> links: \<open>None\<close>.\<close>

definition OsDeleteNodeSortLink :: "sort_nodes \<Rightarrow> SortLinkAttribute \<Rightarrow> nat \<Rightarrow> (sort_nodes \<times> SortLinkAttribute) option" where
  "OsDeleteNodeSortLink nodes h n =
    (if n \<in> set (sortLink h)
     then Some (SET_SORTLIST_VALUE nodes n OS_SORT_LINK_INVALID_TIME,
       h\<lparr>sortLink := remove1 n (sortLink h), nodeNum := nodeNum h - 1\<rparr>)
     else None)"

definition OsDeleteFromSortLink :: "sort_nodes \<Rightarrow> SortLinkAttribute \<Rightarrow> nat \<Rightarrow> (sort_nodes \<times> SortLinkAttribute) option" where
  "OsDeleteFromSortLink nodes h n =
    (if responseTime (nodes n) \<noteq> OS_SORT_LINK_INVALID_TIME then OsDeleteNodeSortLink nodes h n else Some (nodes, h))"

definition OsSortLinkAdjustNodeResponseTime :: "sort_nodes \<Rightarrow> SortLinkAttribute \<Rightarrow> nat \<Rightarrow> u64
    \<Rightarrow> (u32 \<times> sort_nodes \<times> SortLinkAttribute) option" where
  "OsSortLinkAdjustNodeResponseTime nodes h n t =
    (if responseTime (nodes n) \<noteq> OS_SORT_LINK_INVALID_TIME
     then do {
       (nodes1, h1) \<leftarrow> OsDeleteNodeSortLink nodes h n;
       let nodes2 = SET_SORTLIST_VALUE nodes1 n t;
       h2 \<leftarrow> AddNode2SortLink nodes2 h1 n;
       Some (LOS_OK, nodes2, h2)
     }
     else Some (LOS_NOK, nodes, h))"

text \<open>The difference is cast to \<open>UINT32\<close> before it is returned as \<open>UINT64\<close>.\<close>

definition OsSortLinkGetTargetExpireTime :: "u64 \<Rightarrow> sort_nodes \<Rightarrow> nat \<Rightarrow> u64" where
  "OsSortLinkGetTargetExpireTime currTime nodes n =
    (if currTime \<ge> responseTime (nodes n) then 0
     else ucast (ucast (responseTime (nodes n) - currTime) :: u32))"

definition OsSortLinkGetNextExpireTime :: "u64 \<Rightarrow> sort_nodes \<Rightarrow> SortLinkAttribute \<Rightarrow> u64" where
  "OsSortLinkGetNextExpireTime currTime nodes h =
    (case sortLink h of [] \<Rightarrow> OS_SORT_LINK_INVALID_TIME
     | listSorted # _ \<Rightarrow> OsSortLinkGetTargetExpireTime currTime nodes listSorted)"

definition OsGetSortLinkNextExpireTime :: "sort_nodes \<Rightarrow> SortLinkAttribute \<Rightarrow> u64 \<Rightarrow> u32 \<Rightarrow> u64" where
  "OsGetSortLinkNextExpireTime nodes h startTime tickPrecision =
    (case sortLink h of [] \<Rightarrow> OS_SORT_LINK_INVALID_TIME - ucast tickPrecision
     | listSorted # _ \<Rightarrow>
         if responseTime (nodes listSorted) \<le> startTime + ucast tickPrecision then startTime + ucast tickPrecision
         else responseTime (nodes listSorted))"

definition OsGetSortLinkNodeNum :: "SortLinkAttribute \<Rightarrow> u32" where
  "OsGetSortLinkNodeNum h = nodeNum h"

definition OsGetSortLinkNodeCpuid :: "sort_nodes \<Rightarrow> nat \<Rightarrow> nat" where
  "OsGetSortLinkNodeCpuid nodes n = cpuid (nodes n)"

section \<open>Invariant\<close>

text \<open>The nodes are in ascending order of response time, each with a valid one, and counted.\<close>

definition sl_inv :: "sort_nodes \<Rightarrow> SortLinkAttribute \<Rightarrow> bool" where
  "sl_inv nodes h \<longleftrightarrow> distinct (sortLink h) \<and>
    sorted_wrt (\<lambda>a b. responseTime (nodes a) \<le> responseTime (nodes b)) (sortLink h) \<and>
    (\<forall>n \<in> set (sortLink h). responseTime (nodes n) \<noteq> OS_SORT_LINK_INVALID_TIME) \<and>
    nodeNum h = of_nat (length (sortLink h))"

lemma sl_invD:
  assumes "sl_inv nodes h"
  shows "distinct (sortLink h)" and "nodeNum h = of_nat (length (sortLink h))"
    and "n \<in> set (sortLink h) \<Longrightarrow> responseTime (nodes n) \<noteq> OS_SORT_LINK_INVALID_TIME"
  using assms by (auto simp: sl_inv_def)

lemma sl_inv_cong:
  assumes "\<And>n. n \<in> set (sortLink h) \<Longrightarrow> responseTime (nodes' n) = responseTime (nodes n)"
  shows "sl_inv nodes' h \<longleftrightarrow> sl_inv nodes h"
proof -
  have "sorted_wrt (\<lambda>a b. responseTime (nodes' a) \<le> responseTime (nodes' b)) (sortLink h) \<longleftrightarrow>
    sorted_wrt (\<lambda>a b. responseTime (nodes a) \<le> responseTime (nodes b)) (sortLink h)"
    using assms by (auto simp: sorted_wrt_iff_nth_less)
  with assms show ?thesis by (auto simp: sl_inv_def)
qed

lemma scan_back_Some:
  assumes "xs \<noteq> []" and "responseTime (nodes (hd xs)) \<le> t" and "0 < k" and "k \<le> length xs"
  shows "\<exists>j. scan_back nodes t xs k = Some j \<and> 0 < j \<and> j \<le> k \<and> responseTime (nodes (xs ! (j - 1))) \<le> t \<and>
    (\<forall>i. j \<le> i \<and> i < k \<longrightarrow> t < responseTime (nodes (xs ! i)))"
  using assms(3,4)
proof (induction k)
  case (Suc k)
  show ?case
  proof (cases "responseTime (nodes (xs ! k)) \<le> t")
    case False
    moreover from this have "0 < k" using assms(1,2) by (cases k) (auto simp: hd_conv_nth)
    ultimately show ?thesis using Suc.IH Suc.prems by (auto simp: less_Suc_eq not_le)
  qed auto
qed simp

text \<open>The place \<open>AddNode2SortLink\<close> chooses: it always finds one, everything before it is no later and everything
  after it no earlier than the new node.\<close>

lemma AddNode_pos:
  assumes sorted: "sorted_wrt (\<lambda>a b. responseTime (nodes a) \<le> responseTime (nodes b)) (sortLink h)"
  shows "\<exists>k \<le> length (sortLink h). AddNode2SortLink nodes h n =
      Some (h\<lparr>sortLink := insert_after k n (sortLink h), nodeNum := nodeNum h + 1\<rparr>) \<and>
    (\<forall>m \<in> set (take k (sortLink h)). responseTime (nodes m) \<le> responseTime (nodes n)) \<and>
    (\<forall>m \<in> set (drop k (sortLink h)). responseTime (nodes n) \<le> responseTime (nodes m))"
proof (cases "sortLink h")
  case Nil
  then show ?thesis by (auto simp: AddNode2SortLink_def insert_after_def)
next
  case (Cons x xs)
  let ?t = "\<lambda>m. responseTime (nodes m)"
  consider "?t x > ?t n" | "?t x = ?t n" | "?t x < ?t n" by fastforce
  then show ?thesis
  proof cases
    case 1
    have "\<forall>m \<in> set (sortLink h). ?t x \<le> ?t m" using sorted Cons by auto
    with 1 Cons show ?thesis by (intro exI [of _ 0]) (fastforce simp: AddNode2SortLink_def)
  next
    case 2
    with sorted Cons show ?thesis by (intro exI [of _ 1]) (auto simp: AddNode2SortLink_def)
  next
    case 3
    let ?xs = "sortLink h"
    have ne: "?xs \<noteq> []" "?t (hd ?xs) \<le> ?t n" "0 < length ?xs" using 3 Cons by auto
    obtain j where j: "scan_back nodes (?t n) ?xs (length ?xs) = Some j" "0 < j" "j \<le> length ?xs" "?t (?xs ! (j - 1)) \<le> ?t n"
      and late: "\<And>i. j \<le> i \<Longrightarrow> i < length ?xs \<Longrightarrow> ?t n < ?t (?xs ! i)"
      using scan_back_Some [of ?xs nodes "?t n" "length ?xs", OF ne order_refl] by blast
    have "?t m \<le> ?t n" if m: "m \<in> set (take j ?xs)" for m
    proof -
      obtain i where i: "i < j" "m = ?xs ! i" using m j(3) unfolding in_set_conv_nth by auto
      have "?t (?xs ! i) \<le> ?t (?xs ! (j - 1))"
        using sorted i j(2,3) by (cases "i = j - 1") (auto simp: sorted_wrt_iff_nth_less)
      with i j(4) show ?thesis by simp
    qed
    moreover have "?t n \<le> ?t m" if m: "m \<in> set (drop j ?xs)" for m
    proof -
      obtain i where "m = ?xs ! (j + i)" "j + i < length ?xs" using m by (auto simp: in_set_conv_nth)
      then show ?thesis using late [of "j + i"] by simp
    qed
    moreover have "AddNode2SortLink nodes h n = map_option
        (\<lambda>k. h\<lparr>sortLink := insert_after k n ?xs, nodeNum := nodeNum h + 1\<rparr>) (scan_back nodes (?t n) ?xs (length ?xs))"
      using 3 by (auto simp: AddNode2SortLink_def Cons)
    ultimately show ?thesis using j by auto
  qed
qed

lemma remove1_insert_after: "n \<notin> set xs \<Longrightarrow> remove1 n (insert_after k n xs) = xs"
proof -
  assume "n \<notin> set xs"
  then have "n \<notin> set (take k xs)" by (meson in_set_takeD)
  then show ?thesis by (simp add: insert_after_def remove1_append)
qed

lemma set_insert_after [simp]: "set (insert_after k n xs) = insert n (set xs)"
  unfolding insert_after_def by (metis Un_insert_right append_take_drop_id list.simps(15) set_append)

lemma length_insert_after [simp]: "length (insert_after k n xs) = Suc (length xs)"
  by (simp add: insert_after_def)

lemma distinct_insert_after: "distinct (insert_after k n xs) \<longleftrightarrow> distinct xs \<and> n \<notin> set xs"
  unfolding insert_after_def
  by (metis append_take_drop_id distinct.simps(2) distinct_append disjoint_insert(1) list.simps(15) set_append UnCI UnE)

lemma AddNode_shape:
  assumes "AddNode2SortLink nodes h n = Some h'"
  shows "h'\<lparr>sortLink := sortLink h, nodeNum := nodeNum h' - 1\<rparr> = h"
  using assms by (auto simp: AddNode2SortLink_def split: list.splits if_splits)

lemma AddNode_inv:
  assumes inv: "sl_inv nodes h" and new: "n \<notin> set (sortLink h)" "responseTime (nodes n) \<noteq> OS_SORT_LINK_INVALID_TIME"
  shows "\<exists>h'. AddNode2SortLink nodes h n = Some h' \<and> sl_inv nodes h' \<and> set (sortLink h') = insert n (set (sortLink h)) \<and>
    remove1 n (sortLink h') = sortLink h"
proof -
  let ?le = "\<lambda>a b. responseTime (nodes a) \<le> responseTime (nodes b)"
  have sorted: "sorted_wrt ?le (sortLink h)" using inv by (simp add: sl_inv_def)
  from AddNode_pos [OF this, of n] obtain k where
    add: "AddNode2SortLink nodes h n = Some (h\<lparr>sortLink := insert_after k n (sortLink h), nodeNum := nodeNum h + 1\<rparr>)" and
    pos: "\<forall>m \<in> set (take k (sortLink h)). ?le m n" "\<forall>m \<in> set (drop k (sortLink h)). ?le n m" by auto
  have "sorted_wrt ?le (insert_after k n (sortLink h))"
  proof -
    have "sorted_wrt ?le (take k (sortLink h) @ drop k (sortLink h))" using sorted by simp
    with pos show ?thesis unfolding insert_after_def sorted_wrt_append by (auto intro: order_trans)
  qed
  then show ?thesis
    using inv new by (auto simp: add sl_inv_def distinct_insert_after remove1_insert_after)
qed

lemma OsDeleteNode_inv:
  assumes inv: "sl_inv nodes h" and n: "n \<in> set (sortLink h)"
  shows "\<exists>h'. OsDeleteNodeSortLink nodes h n = Some (SET_SORTLIST_VALUE nodes n OS_SORT_LINK_INVALID_TIME, h') \<and>
    sl_inv (SET_SORTLIST_VALUE nodes n OS_SORT_LINK_INVALID_TIME) h' \<and> set (sortLink h') = set (sortLink h) - {n}"
proof -
  let ?xs = "remove1 n (sortLink h)"
  have d: "distinct (sortLink h)" using inv by (simp add: sl_inv_def)
  have "sl_inv nodes (h\<lparr>sortLink := ?xs, nodeNum := nodeNum h - 1\<rparr>)"
  proof -
    obtain m where "length (sortLink h) = Suc m" using n by (cases "sortLink h") auto
    then have "(of_nat (length (sortLink h)) :: u32) - 1 = of_nat (length ?xs)"
      using n by (simp add: length_remove1)
    moreover have "sorted_wrt (\<lambda>a b. responseTime (nodes a) \<le> responseTime (nodes b)) ?xs"
      using inv by (simp add: sl_inv_def sorted_wrt_remove1)
    ultimately show ?thesis using inv d by (auto simp: sl_inv_def dest: notin_set_remove1)
  qed
  then have "sl_inv (SET_SORTLIST_VALUE nodes n OS_SORT_LINK_INVALID_TIME) (h\<lparr>sortLink := ?xs, nodeNum := nodeNum h - 1\<rparr>)"
    using d by (subst sl_inv_cong) (auto simp: SET_SORTLIST_VALUE_def)
  then show ?thesis using d n by (simp add: OsDeleteNodeSortLink_def)
qed

section \<open>Operations\<close>

lemma OsAdd2SortLink_Some: "\<exists>r. OsAdd2SortLink nodes h n t c = Some r"
  if "sorted_wrt (\<lambda>a b. responseTime (nodes a) \<le> responseTime (nodes b)) (sortLink h)" and "n \<notin> set (sortLink h)"
proof -
  have "sorted_wrt (\<lambda>a b. responseTime (SET_SORTLIST_VALUE nodes n t a) \<le> responseTime (SET_SORTLIST_VALUE nodes n t b)) (sortLink h)"
    using that by (auto simp: SET_SORTLIST_VALUE_def sorted_wrt_iff_nth_less)
  from AddNode_pos [OF this, of n] show ?thesis by (auto simp: OsAdd2SortLink_def Let_def)
qed

lemma OsAdd2SortLink_spec:
  assumes inv: "sl_inv nodes h" and new: "n \<notin> set (sortLink h)" and t: "t \<noteq> OS_SORT_LINK_INVALID_TIME"
  shows "\<exists>nodes' h'. OsAdd2SortLink nodes h n t c = Some (nodes', h') \<and> sl_inv nodes' h' \<and>
    nodes' = nodes(n := (nodes n)\<lparr>responseTime := t, cpuid := c\<rparr>) \<and>
    set (sortLink h') = insert n (set (sortLink h)) \<and> remove1 n (sortLink h') = sortLink h"
proof -
  let ?nodes = "SET_SORTLIST_VALUE nodes n t"
  have "sl_inv ?nodes h" using inv new by (subst sl_inv_cong) (auto simp: SET_SORTLIST_VALUE_def)
  moreover have "responseTime (?nodes n) \<noteq> OS_SORT_LINK_INVALID_TIME" using t by (simp add: SET_SORTLIST_VALUE_def)
  ultimately obtain h' where h': "AddNode2SortLink ?nodes h n = Some h'" "sl_inv ?nodes h'"
      "set (sortLink h') = insert n (set (sortLink h))" "remove1 n (sortLink h') = sortLink h"
    using AddNode_inv [of ?nodes h n] new by blast
  moreover have "sl_inv (?nodes(n := (?nodes n)\<lparr>cpuid := c\<rparr>)) h'"
    using h'(2) by (subst sl_inv_cong) auto
  ultimately show ?thesis by (auto simp: OsAdd2SortLink_def Let_def SET_SORTLIST_VALUE_def)
qed

lemma OsDeleteFromSortLink_spec:
  assumes inv: "sl_inv nodes h" and n: "n \<in> set (sortLink h) \<longleftrightarrow> responseTime (nodes n) \<noteq> OS_SORT_LINK_INVALID_TIME"
  shows "\<exists>h'. OsDeleteFromSortLink nodes h n = Some (SET_SORTLIST_VALUE nodes n OS_SORT_LINK_INVALID_TIME, h') \<and>
    sl_inv (SET_SORTLIST_VALUE nodes n OS_SORT_LINK_INVALID_TIME) h' \<and> set (sortLink h') = set (sortLink h) - {n}"
proof (cases "n \<in> set (sortLink h)")
  case True
  with OsDeleteNode_inv [OF inv True] n show ?thesis by (simp add: OsDeleteFromSortLink_def)
next
  case False
  with n have "responseTime (nodes n) = OS_SORT_LINK_INVALID_TIME" by simp
  then have "SET_SORTLIST_VALUE nodes n OS_SORT_LINK_INVALID_TIME = nodes"
    by (intro ext) (simp add: SET_SORTLIST_VALUE_def)
  with False inv n show ?thesis by (auto simp: OsDeleteFromSortLink_def)
qed

lemma first_is_earliest:
  assumes "sl_inv nodes h" and "sortLink h = x # xs"
  shows "responseTime (nodes x) = Min (responseTime ` nodes ` set (sortLink h))"
  using assms by (intro Min_eqI [symmetric]) (auto simp: sl_inv_def)

section \<open>Properties\<close>

text \<open>C14. Adding to the timeout list: for a list that satisfies the invariant (distinct nodes in ascending
  response time, all valid, counted by \<open>nodeNum\<close>) and a node not in it, \<open>OsAdd2SortLink\<close> with a valid time
  finds an insertion place (the unbounded backward loop stops before the list head), re-establishes the
  invariant, and \<open>OsDeleteFromSortLink\<close> of that node afterwards restores the header exactly, with the node
  marked invalid.\<close>

theorem sortlink_add_delete:
  assumes "sl_inv nodes h" and "n \<notin> set (sortLink h)" and "t \<noteq> OS_SORT_LINK_INVALID_TIME"
  shows "\<exists>nodes' h'. OsAdd2SortLink nodes h n t c = Some (nodes', h') \<and> sl_inv nodes' h' \<and>
    set (sortLink h') = insert n (set (sortLink h)) \<and> responseTime (nodes' n) = t \<and> OsGetSortLinkNodeCpuid nodes' n = c \<and>
    (\<forall>m. m \<noteq> n \<longrightarrow> nodes' m = nodes m) \<and>
    OsDeleteFromSortLink nodes' h' n = Some (SET_SORTLIST_VALUE nodes' n OS_SORT_LINK_INVALID_TIME, h)"
proof -
  from OsAdd2SortLink_spec [OF assms, of c] obtain h' where
    add: "OsAdd2SortLink nodes h n t c = Some (nodes(n := (nodes n)\<lparr>responseTime := t, cpuid := c\<rparr>), h')" and
    inv: "sl_inv (nodes(n := (nodes n)\<lparr>responseTime := t, cpuid := c\<rparr>)) h'" and
    h': "set (sortLink h') = insert n (set (sortLink h))" "remove1 n (sortLink h') = sortLink h" by blast
  have "h'\<lparr>sortLink := sortLink h, nodeNum := nodeNum h' - 1\<rparr> = h"
    using add AddNode_shape by (auto simp: OsAdd2SortLink_def Let_def)
  with h'(2) have "OsDeleteFromSortLink (nodes(n := (nodes n)\<lparr>responseTime := t, cpuid := c\<rparr>)) h' n =
      Some (SET_SORTLIST_VALUE (nodes(n := (nodes n)\<lparr>responseTime := t, cpuid := c\<rparr>)) n OS_SORT_LINK_INVALID_TIME, h)"
    using assms(3) h'(1) by (simp add: OsDeleteFromSortLink_def OsDeleteNodeSortLink_def)
  with add inv h' show ?thesis by (auto simp: OsGetSortLinkNodeCpuid_def)
qed

theorem sortlink_add_delete_witness:
  "\<exists>nodes' h'. OsAdd2SortLink (\<lambda>n. \<lparr>responseTime = if n = 1 then 10 else if n = 2 then 30 else OS_SORT_LINK_INVALID_TIME, cpuid = 0\<rparr>)
      \<lparr>sortLink = [1, 2], nodeNum = 2\<rparr> 3 20 0 = Some (nodes', h') \<and> sl_inv nodes' h' \<and> set (sortLink h') = {1, 2, 3}"
proof -
  let ?nodes = "\<lambda>n :: nat. \<lparr>responseTime = if n = 1 then 10 else if n = 2 then 30 else OS_SORT_LINK_INVALID_TIME, cpuid = 0\<rparr>"
  have "sl_inv ?nodes \<lparr>sortLink = [1, 2], nodeNum = 2\<rparr>" by (simp add: sl_inv_def)
  from sortlink_add_delete [OF this, of 3 20 0] show ?thesis by (auto simp: insert_commute)
qed

text \<open>The next timer interrupt is never programmed past a timeout: on a non-empty list,
  \<open>OsGetSortLinkNextExpireTime\<close> is the earliest response time of all nodes, or one tick precision after
  the current time (a 64-bit sum) when that is later.\<close>

theorem next_expire_earliest:
  assumes "sl_inv nodes h" and "sortLink h \<noteq> []"
  shows "OsGetSortLinkNextExpireTime nodes h startTime prec =
      max (startTime + ucast prec) (Min (responseTime ` nodes ` set (sortLink h)))"
proof -
  obtain x xs where h: "sortLink h = x # xs" using assms(2) by (cases "sortLink h") auto
  have "OsGetSortLinkNextExpireTime nodes h startTime prec = max (startTime + ucast prec) (responseTime (nodes x))"
    by (auto simp: OsGetSortLinkNextExpireTime_def h max_def)
  then show ?thesis by (simp only: first_is_earliest [OF assms(1) h])
qed

theorem next_expire_earliest_witness:
  "OsGetSortLinkNextExpireTime (\<lambda>n. \<lparr>responseTime = if n = 1 then 10 else 30, cpuid = 0\<rparr>) \<lparr>sortLink = [1, 2], nodeNum = 2\<rparr> 4 3 = 10"
proof -
  have "sl_inv (\<lambda>n. \<lparr>responseTime = if n = 1 then 10 else 30, cpuid = 0\<rparr>) \<lparr>sortLink = [1, 2], nodeNum = 2\<rparr>"
    by (simp add: sl_inv_def)
  from next_expire_earliest [OF this, of 4 3] show ?thesis by simp
qed

end
