(* ===== verification/LosSchedState.thy ===== *)
theory LosSchedState
  imports LosSortLink
begin

text \<open>
  The state of the scheduler: task control blocks, the lists their \<open>pendList\<close> nodes are in, the run queue
  of the processor, and the inline functions of \<^verbatim>\<open>kernel/base/include/los_sched_pri.h\<close> on them. The
  configuration is the default single-processor one (\<^verbatim>\<open>LOSCFG_KERNEL_SMP\<close>, \<^verbatim>\<open>LOSCFG_KERNEL_PM\<close> and
  \<^verbatim>\<open>LOSCFG_KERNEL_SCHED_PLIMIT\<close> undefined), where \<open>SCHEDULER_LOCK\<close> disables interrupts and every
  kernel operation is atomic.

  An operation is a function to \<open>kstate option\<close>: \<open>None\<close> is a run that does not come back, by a failed
  \<open>LOS_ASSERT\<close>, a \<open>NULL\<close> link or function pointer that is followed, a list node linked twice, or an
  endless loop. A task is a number; the list a task's \<open>pendList\<close> node is linked in is its field
  \<open>pendOn\<close>, \<open>None\<close> when the node's links are \<open>NULL\<close>. The hooks, the debug statistics and the MMU switch are not
  part of the state.
\<close>

section \<open>Data\<close>

abbreviation (input) OS_TASK_STATUS_INIT :: u16 where "OS_TASK_STATUS_INIT \<equiv> 0x0001"
abbreviation (input) OS_TASK_STATUS_READY :: u16 where "OS_TASK_STATUS_READY \<equiv> 0x0002"
abbreviation (input) OS_TASK_STATUS_RUNNING :: u16 where "OS_TASK_STATUS_RUNNING \<equiv> 0x0004"
abbreviation (input) OS_TASK_STATUS_SUSPENDED :: u16 where "OS_TASK_STATUS_SUSPENDED \<equiv> 0x0008"
abbreviation (input) OS_TASK_STATUS_PENDING :: u16 where "OS_TASK_STATUS_PENDING \<equiv> 0x0010"
abbreviation (input) OS_TASK_STATUS_DELAY :: u16 where "OS_TASK_STATUS_DELAY \<equiv> 0x0020"
abbreviation (input) OS_TASK_STATUS_TIMEOUT :: u16 where "OS_TASK_STATUS_TIMEOUT \<equiv> 0x0040"
abbreviation (input) OS_TASK_STATUS_PEND_TIME :: u16 where "OS_TASK_STATUS_PEND_TIME \<equiv> 0x0080"
abbreviation (input) OS_TASK_STATUS_EXIT :: u16 where "OS_TASK_STATUS_EXIT \<equiv> 0x0100"
abbreviation (input) OS_TASK_STATUS_FROZEN :: u16 where "OS_TASK_STATUS_FROZEN \<equiv> 0x0200"
abbreviation (input) OS_TASK_FLAG_SYSTEM_TASK :: u16 where "OS_TASK_FLAG_SYSTEM_TASK \<equiv> 0x2000"
abbreviation (input) OS_TASK_STATUS_BLOCKED :: u16 where "OS_TASK_STATUS_BLOCKED \<equiv> 0x00B1"
  \<comment> \<open>\<open>INIT | PENDING | DELAY | PEND_TIME\<close>\<close>

abbreviation (input) LOS_SCHED_FIFO :: u16 where "LOS_SCHED_FIFO \<equiv> 1"
abbreviation (input) LOS_SCHED_RR :: u16 where "LOS_SCHED_RR \<equiv> 2"
abbreviation (input) LOS_SCHED_IDLE :: u16 where "LOS_SCHED_IDLE \<equiv> 3"
abbreviation (input) LOS_SCHED_DEADLINE :: u16 where "LOS_SCHED_DEADLINE \<equiv> 6"

abbreviation (input) EDF_UNUSED :: u32 where "EDF_UNUSED \<equiv> 0"
abbreviation (input) EDF_NEXT_PERIOD :: u32 where "EDF_NEXT_PERIOD \<equiv> 1"
abbreviation (input) EDF_WAIT_FOREVER :: u32 where "EDF_WAIT_FOREVER \<equiv> 2"
abbreviation (input) EDF_INIT :: u32 where "EDF_INIT \<equiv> 3"

abbreviation (input) INT_PEND_RESCH :: u32 where "INT_PEND_RESCH \<equiv> 1"
abbreviation (input) INT_PEND_TICK :: u32 where "INT_PEND_TICK \<equiv> 2"

abbreviation (input) OS_SCHED_MAX_RESPONSE_TIME :: u64 where "OS_SCHED_MAX_RESPONSE_TIME \<equiv> OS_SORT_LINK_INVALID_TIME"
abbreviation (input) OS_PRIORITY_QUEUE_NUM :: nat where "OS_PRIORITY_QUEUE_NUM \<equiv> 32"
abbreviation (input) LOS_ERRNO_TSK_TIMEOUT :: u32 where "LOS_ERRNO_TSK_TIMEOUT \<equiv> 0x03000227"

text \<open>The vtable a task points to.\<close>

datatype SchedOps = g_priorityOps | g_deadlineOps | g_idleOps

text \<open>\<open>SchedPolicy\<close> is a union of \<open>SchedHPF\<close> and \<open>SchedEDF\<close>, which share the field \<open>policy\<close>; every access is
  through the member the policy selects, so the other fields are kept apart.\<close>

record SchedPolicy =
  policy :: u16
  basePrio :: u16
  priority :: u16
  initTimeSlice :: u32
  priBitmap :: u32
  edfFlags :: u32
  runTime :: i32
  deadline :: u64
  period :: u64
  finishTime :: u64

record SchedParam =
  spPolicy :: u16
  spBasePrio :: u16
  spPriority :: u16
  spTimeSlice :: u32
  spRunTimeUs :: i32
  spDeadlineUs :: u32
  spPeriodUs :: u32

record LosSchedParam =
  prioOrRunTimeUs :: i32 \<comment> \<open>the union of \<open>priority\<close> and \<open>runTimeUs\<close>\<close>
  lspDeadlineUs :: i32
  lspPeriodUs :: i32

datatype listHead =
    PriQueList nat nat \<comment> \<open>\<open>g_schedHPF.queueList[basePrio].priQueList[priority]\<close>\<close>
  | EdfRoot
  | EdfWaitList
  | SemList nat
  | MuxList nat
  | EventList nat
  | QueueList nat nat
  | RwReadList nat
  | RwWriteList nat
  | OtherList nat

record LosTaskCB =
  taskStatus :: u16
  startTime :: u64
  waitTime :: u64
  irqStartTime :: u64
  irqUsedTime :: u32
  timeSlice :: i32
  ops :: SchedOps
  sp :: SchedPolicy
  taskMux :: "nat option"
  taskEvent :: "nat option"
  pendOn :: "listHead option"
  eventMask :: u32
  eventMode :: u32
  processCB :: nat
  waitID :: u32
  waitFlag :: u16

text \<open>Constants of the board configuration, the timer's answer to a reload request, and
  \<open>OS_SYS_US_TO_CYCLE\<close> of a 32-bit argument, whose width depends on the type of the board's
  \<open>get_bus_clk()\<close>.\<close>

record kconfig =
  sysClock :: u32
  cyclePerTick :: u32
  timeSlicesMin :: u32
  timeSlicesMax :: u32
  timeSliceLow :: i32
  schedMiniPeriod :: u32
  tickPrecision :: u32
  HalClockTickTimerReload :: "u64 \<Rightarrow> u64"
  usToCycle32 :: "u32 \<Rightarrow> u64"

record kstate =
  cfg :: kconfig
  tcb :: "nat \<Rightarrow> LosTaskCB"
  threadSiblings :: "nat \<Rightarrow> nat list"
  lists :: "listHead \<Rightarrow> nat list"
  sortNodes :: sort_nodes
  readyTasks :: "nat \<Rightarrow> nat \<Rightarrow> u32"
  prioBitmap :: "nat \<Rightarrow> u32"
  baseBitmap :: u32
  timeoutQueue :: SortLinkAttribute
  rqResponseTime :: u64
  responseID :: u32
  idleTask :: nat
  taskLockCnt :: u32
  schedFlag :: u32
  currTask :: nat
  taskScheduled :: bool
  intActive :: bool
  clock :: u64

section \<open>Access to the state\<close>

definition has :: "'a::len word \<Rightarrow> 'a word \<Rightarrow> bool" where
  "has w m \<longleftrightarrow> w AND m \<noteq> 0"

definition LOS_ASSERT :: "bool \<Rightarrow> unit option" where
  "LOS_ASSERT b = (if b then Some () else None)"

definition upd_task :: "nat \<Rightarrow> (LosTaskCB \<Rightarrow> LosTaskCB) \<Rightarrow> ('a kstate_scheme) \<Rightarrow> 'a kstate_scheme" where
  "upd_task t f s = s\<lparr>tcb := (tcb s)(t := f (tcb s t))\<rparr>"

definition set_status :: "nat \<Rightarrow> u16 \<Rightarrow> 'a kstate_scheme \<Rightarrow> 'a kstate_scheme" where
  "set_status t m = upd_task t (\<lambda>c. c\<lparr>taskStatus := taskStatus c OR m\<rparr>)"

definition clr_status :: "nat \<Rightarrow> u16 \<Rightarrow> 'a kstate_scheme \<Rightarrow> 'a kstate_scheme" where
  "clr_status t m = upd_task t (\<lambda>c. c\<lparr>taskStatus := taskStatus c AND NOT m\<rparr>)"

definition upd_sp :: "nat \<Rightarrow> (SchedPolicy \<Rightarrow> SchedPolicy) \<Rightarrow> 'a kstate_scheme \<Rightarrow> 'a kstate_scheme" where
  "upd_sp t f = upd_task t (\<lambda>c. c\<lparr>sp := f (sp c)\<rparr>)"

abbreviation (input) status_of :: "'a kstate_scheme \<Rightarrow> nat \<Rightarrow> u16" where
  "status_of s t \<equiv> taskStatus (tcb s t)"

text \<open>Linking and unlinking \<open>&task->pendList\<close>: \<open>LOS_ListTailInsert\<close>, \<open>LOS_ListHeadInsert\<close>, an insertion before the
  \<open>k\<close>-th element, and \<open>LOS_ListDelete\<close>.\<close>

definition pend_insert :: "nat \<Rightarrow> listHead \<Rightarrow> nat \<Rightarrow> 'a kstate_scheme \<Rightarrow> 'a kstate_scheme option" where
  "pend_insert k h t s =
    (if pendOn (tcb s t) = None
     then Some (upd_task t (\<lambda>c. c\<lparr>pendOn := Some h\<rparr>)
       (s\<lparr>lists := (lists s)(h := insert_after k t (lists s h))\<rparr>))
     else None)"

definition pend_tail_insert :: "listHead \<Rightarrow> nat \<Rightarrow> 'a kstate_scheme \<Rightarrow> 'a kstate_scheme option" where
  "pend_tail_insert h t s = pend_insert (length (lists s h)) h t s"

definition pend_head_insert :: "listHead \<Rightarrow> nat \<Rightarrow> 'a kstate_scheme \<Rightarrow> 'a kstate_scheme option" where
  "pend_head_insert h t s = pend_insert 0 h t s"

definition pend_delete :: "nat \<Rightarrow> 'a kstate_scheme \<Rightarrow> 'a kstate_scheme option" where
  "pend_delete t s =
    (case pendOn (tcb s t) of
       None \<Rightarrow> None
     | Some h \<Rightarrow> Some (upd_task t (\<lambda>c. c\<lparr>pendOn := None\<rparr>) (s\<lparr>lists := (lists s)(h := remove1 t (lists s h))\<rparr>)))"

section \<open>Inline functions of \<open>los_sched_pri.h\<close>\<close>

definition OsGetCurrSchedTimeCycle :: "'a kstate_scheme \<Rightarrow> u64" where
  "OsGetCurrSchedTimeCycle s = clock s"

definition OsSchedLock :: "'a kstate_scheme \<Rightarrow> 'a kstate_scheme" where
  "OsSchedLock s = s\<lparr>taskLockCnt := taskLockCnt s + 1\<rparr>"

definition OsSchedUnlock :: "'a kstate_scheme \<Rightarrow> 'a kstate_scheme" where
  "OsSchedUnlock s = s\<lparr>taskLockCnt := taskLockCnt s - 1\<rparr>"

definition OsSchedUnlockResch :: "'a kstate_scheme \<Rightarrow> 'a kstate_scheme \<times> bool" where
  "OsSchedUnlockResch s =
    (if taskLockCnt s > 0
     then let s' = s\<lparr>taskLockCnt := taskLockCnt s - 1\<rparr>
          in (s', taskLockCnt s' = 0 \<and> has (schedFlag s') INT_PEND_RESCH \<and> taskScheduled s')
     else (s, False))"

definition OsSchedIsLock :: "'a kstate_scheme \<Rightarrow> bool" where
  "OsSchedIsLock s \<longleftrightarrow> taskLockCnt s \<noteq> 0"

definition OsSchedRunqueuePendingSet :: "'a kstate_scheme \<Rightarrow> 'a kstate_scheme" where
  "OsSchedRunqueuePendingSet s = s\<lparr>schedFlag := schedFlag s OR INT_PEND_RESCH\<rparr>"

definition OsPreemptable :: "'a kstate_scheme \<Rightarrow> 'a kstate_scheme \<times> bool" where
  "OsPreemptable s =
    (if taskLockCnt s = 0 then (s, True) else (s\<lparr>schedFlag := schedFlag s OR INT_PEND_RESCH\<rparr>, False))"

definition OsPreemptableInSched :: "'a kstate_scheme \<Rightarrow> 'a kstate_scheme \<times> bool" where
  "OsPreemptableInSched s =
    (if taskLockCnt s = 0 then (s, True) else (s\<lparr>schedFlag := schedFlag s OR INT_PEND_RESCH\<rparr>, False))"

definition OsTaskIsRunning :: "LosTaskCB \<Rightarrow> bool" where
  "OsTaskIsRunning c \<longleftrightarrow> has (taskStatus c) OS_TASK_STATUS_RUNNING"

definition OsTaskIsReady :: "LosTaskCB \<Rightarrow> bool" where
  "OsTaskIsReady c \<longleftrightarrow> has (taskStatus c) OS_TASK_STATUS_READY"

definition OsTaskIsInactive :: "LosTaskCB \<Rightarrow> bool" where
  "OsTaskIsInactive c \<longleftrightarrow> has (taskStatus c) (OS_TASK_STATUS_INIT OR OS_TASK_STATUS_EXIT)"

definition OsTaskIsPending :: "LosTaskCB \<Rightarrow> bool" where
  "OsTaskIsPending c \<longleftrightarrow> has (taskStatus c) OS_TASK_STATUS_PENDING"

definition OsTaskIsSuspended :: "LosTaskCB \<Rightarrow> bool" where
  "OsTaskIsSuspended c \<longleftrightarrow> has (taskStatus c) OS_TASK_STATUS_SUSPENDED"

definition OsTaskIsBlocked :: "LosTaskCB \<Rightarrow> bool" where
  "OsTaskIsBlocked c \<longleftrightarrow>
    has (taskStatus c) (OS_TASK_STATUS_SUSPENDED OR OS_TASK_STATUS_PENDING OR OS_TASK_STATUS_DELAY)"

definition OsSchedPolicyIsEDF :: "LosTaskCB \<Rightarrow> bool" where
  "OsSchedPolicyIsEDF c \<longleftrightarrow> policy (sp c) = LOS_SCHED_DEADLINE"

definition OsSchedIrqStartTime :: "'a kstate_scheme \<Rightarrow> 'a kstate_scheme" where
  "OsSchedIrqStartTime s = upd_task (currTask s) (\<lambda>c. c\<lparr>irqStartTime := clock s\<rparr>) s"

definition OsSchedIrqUsedTimeUpdate :: "'a kstate_scheme \<Rightarrow> 'a kstate_scheme" where
  "OsSchedIrqUsedTimeUpdate s =
    upd_task (currTask s) (\<lambda>c. c\<lparr>irqUsedTime := ucast (clock s - irqStartTime c)\<rparr>) s"

text \<open>The timeout queue of the run queue.\<close>

definition OsSchedTimeoutQueueAdd :: "nat \<Rightarrow> u64 \<Rightarrow> 'a kstate_scheme \<Rightarrow> 'a kstate_scheme option" where
  "OsSchedTimeoutQueueAdd t time s =
    (if t \<in> set (sortLink (timeoutQueue s)) then None
     else do {
       (nodes, h) \<leftarrow> OsAdd2SortLink (sortNodes s) (timeoutQueue s) t time 0;
       Some (s\<lparr>sortNodes := nodes, timeoutQueue := h\<rparr>)
     })"

definition OsSchedTimeoutQueueDelete :: "nat \<Rightarrow> 'a kstate_scheme \<Rightarrow> 'a kstate_scheme option" where
  "OsSchedTimeoutQueueDelete t s =
    (let oldResponseTime = GET_SORTLIST_VALUE (sortNodes s) t
     in do {
       (nodes, h) \<leftarrow> OsDeleteFromSortLink (sortNodes s) (timeoutQueue s) t;
       Some (s\<lparr>sortNodes := nodes, timeoutQueue := h,
         rqResponseTime := if oldResponseTime \<le> rqResponseTime s then OS_SCHED_MAX_RESPONSE_TIME
                           else rqResponseTime s\<rparr>)
     })"

definition OsSchedTimeoutQueueAdjust :: "nat \<Rightarrow> u64 \<Rightarrow> 'a kstate_scheme \<Rightarrow> ('a kstate_scheme \<times> u32) option" where
  "OsSchedTimeoutQueueAdjust t time s =
    do {
      (ret, nodes, h) \<leftarrow> OsSortLinkAdjustNodeResponseTime (sortNodes s) (timeoutQueue s) t time;
      let s' = s\<lparr>sortNodes := nodes, timeoutQueue := h\<rparr>;
      Some (if ret = LOS_OK then s'\<lparr>schedFlag := schedFlag s' OR INT_PEND_TICK\<rparr> else s', ret)
    }"

definition SchedTaskFreeze :: "nat \<Rightarrow> 'a kstate_scheme \<Rightarrow> 'a kstate_scheme option" where
  "SchedTaskFreeze t s =
    (if \<not> has (status_of s t) (OS_TASK_STATUS_PEND_TIME OR OS_TASK_STATUS_DELAY) then Some s
     else let time = GET_SORTLIST_VALUE (sortNodes s) t
          in do {
            s1 \<leftarrow> OsSchedTimeoutQueueDelete t s;
            Some (set_status t OS_TASK_STATUS_FROZEN (s1\<lparr>sortNodes := SET_SORTLIST_VALUE (sortNodes s1) t time\<rparr>))
          })"

definition SchedTaskUnfreeze :: "nat \<Rightarrow> 'a kstate_scheme \<Rightarrow> 'a kstate_scheme option" where
  "SchedTaskUnfreeze t s =
    (if \<not> has (status_of s t) OS_TASK_STATUS_FROZEN then Some s
     else let s1 = clr_status t OS_TASK_STATUS_FROZEN s;
              time = GET_SORTLIST_VALUE (sortNodes s1) t
          in if time > clock s1 then OsSchedTimeoutQueueAdd t time s1
             else do {
               let s2 = s1\<lparr>sortNodes := SET_SORTLIST_VALUE (sortNodes s1) t OS_SORT_LINK_INVALID_TIME\<rparr>;
               s3 \<leftarrow> (if has (status_of s2 t) OS_TASK_STATUS_PENDING then pend_delete t s2 else Some s2);
               Some (clr_status t OS_TASK_STATUS_BLOCKED s3)
             })"

text \<open>\<open>OsTaskWaitSetPendMask\<close> and \<open>OsTaskWakeClearPendMask\<close> of \<^verbatim>\<open>los_task_pri.h\<close> record what a task waits for.\<close>

definition OsTaskWaitSetPendMask :: "u16 \<Rightarrow> u32 \<Rightarrow> 'a kstate_scheme \<Rightarrow> 'a kstate_scheme" where
  "OsTaskWaitSetPendMask flag lockID s = upd_task (currTask s) (\<lambda>c. c\<lparr>waitID := lockID, waitFlag := flag\<rparr>) s"

definition OsTaskWakeClearPendMask :: "nat \<Rightarrow> 'a kstate_scheme \<Rightarrow> 'a kstate_scheme" where
  "OsTaskWakeClearPendMask t s = upd_task t (\<lambda>c. c\<lparr>waitID := 0, waitFlag := 0\<rparr>) s"

section \<open>Status flags\<close>

lemma has_or [flag_simps]: "has (a OR b) m \<longleftrightarrow> has a m \<or> has b m"
  unfolding has_def by (metis and_or_ne_0 and.commute)

lemma has_and [flag_simps]: "has (a AND b) m \<longleftrightarrow> has a (m AND b)"
  by (simp add: has_def and.assoc and.commute and.left_commute)

lemma has_0 [flag_simps]: "\<not> has a 0" "\<not> has 0 a"
  by (simp_all add: has_def)

lemma has_split: "has a (m OR m') \<longleftrightarrow> has a m \<or> has a m'"
  unfolding has_def by (metis and.commute and_or_ne_0)

lemma has_mono: "has a m \<Longrightarrow> m AND m' = m \<Longrightarrow> has a m'"
  unfolding has_def by (metis and.assoc and.commute and_zero_eq)

lemma has_numeral [flag_simps]:
  "has (numeral a) (numeral b :: 'a::len word) \<longleftrightarrow> numeral a AND numeral b \<noteq> (0 :: 'a word)"
  "has 1 (numeral b :: 'a::len word) \<longleftrightarrow> 1 AND numeral b \<noteq> (0 :: 'a word)"
  "has (numeral a) (1 :: 'a::len word) \<longleftrightarrow> numeral a AND 1 \<noteq> (0 :: 'a word)"
  by (simp_all only: has_def)

lemma clear_absent_flag:
  assumes "\<not> has w m"
  shows "w AND NOT (a OR m) = w AND NOT a"
proof (rule bit_eqI)
  fix n
  have "\<not> bit (w AND m) n" using assms word_ne_0_iff_bit [of "w AND m"] by (auto simp: has_def)
  then show "bit (w AND NOT (a OR m)) n = bit (w AND NOT a) n" by (auto simp: bit_simps)
qed

section \<open>What the updates change\<close>

lemma upd_task_frame [simp]:
  "cfg (upd_task t f s) = cfg s"
  "threadSiblings (upd_task t f s) = threadSiblings s"
  "lists (upd_task t f s) = lists s"
  "sortNodes (upd_task t f s) = sortNodes s"
  "readyTasks (upd_task t f s) = readyTasks s"
  "prioBitmap (upd_task t f s) = prioBitmap s"
  "baseBitmap (upd_task t f s) = baseBitmap s"
  "timeoutQueue (upd_task t f s) = timeoutQueue s"
  "rqResponseTime (upd_task t f s) = rqResponseTime s"
  "responseID (upd_task t f s) = responseID s"
  "idleTask (upd_task t f s) = idleTask s"
  "taskLockCnt (upd_task t f s) = taskLockCnt s"
  "schedFlag (upd_task t f s) = schedFlag s"
  "currTask (upd_task t f s) = currTask s"
  "taskScheduled (upd_task t f s) = taskScheduled s"
  "intActive (upd_task t f s) = intActive s"
  "clock (upd_task t f s) = clock s"
  by (simp_all add: upd_task_def)

lemma tcb_upd_task [simp]: "tcb (upd_task t f s) = (tcb s)(t := f (tcb s t))"
  by (simp add: upd_task_def)

lemma upd_task_id [simp]: "upd_task t (\<lambda>c. c) s = s"
  by (simp add: upd_task_def)

lemmas task_updates = set_status_def clr_status_def upd_sp_def

lemma upd_task_more [simp]: "kstate.more (upd_task t f s) = kstate.more s"
  by (simp add: upd_task_def)

lemma LOS_ASSERT_simps [simp]: "LOS_ASSERT True = Some ()" "LOS_ASSERT False = None"
  by (simp_all add: LOS_ASSERT_def)

end
