(* ===== verification/LosBitmap.thy ===== *)
theory LosBitmap
  imports LosPrelude
begin

text \<open>
  The bitmap module, \<^verbatim>\<open>kernel/base/core/los_bitmap.c\<close> with the word macros of
  \<^verbatim>\<open>kernel/include/los_bitmap.h\<close>, for the 32-bit \<open>UINTPTR\<close> of the ARM target. A bitmap of
  many words is the function from word offsets to words that the pointer \<open>bitmap\<close> gives access
  to; \<open>bitmap_bit\<close> reads it as one sequence of bits. The single-word operations are the priority
  bitmaps of the scheduler. \<open>CLZ\<close>, \<open>CTZ\<close> and \<open>ffsl\<close> are the compiler's builtins.
\<close>

section \<open>The code\<close>

definition CLZ :: "u32 \<Rightarrow> nat" where
  "CLZ w = first_index 32 (\<lambda>i. bit w (31 - i))"

definition CTZ :: "u32 \<Rightarrow> nat" where
  "CTZ w = first_index 32 (bit w)"

definition ffsl :: "u32 \<Rightarrow> nat" where
  "ffsl w = (if w = 0 then 0 else CTZ w + 1)"

definition Ffz :: "u32 \<Rightarrow> nat" where
  "Ffz x = (ffsl (NOT x) + 0xFFFF) mod 2 ^ 16" \<comment> \<open>minus one, in 16 bits\<close>

abbreviation (input) OS_BITMAP_MASK :: u16 where "OS_BITMAP_MASK \<equiv> 0x1F"
abbreviation (input) OS_BITMAP_WORD_MASK :: u32 where "OS_BITMAP_WORD_MASK \<equiv> NOT 0"
abbreviation (input) LOS_INVALID_BIT_INDEX :: nat where "LOS_INVALID_BIT_INDEX \<equiv> 32"

text \<open>A \<open>NULL\<close> bitmap pointer is \<open>None\<close>.\<close>

definition LOS_BitmapSet :: "u32 option \<Rightarrow> u16 \<Rightarrow> u32 option" where
  "LOS_BitmapSet bitmap pos =
     (case bitmap of None \<Rightarrow> None
      | Some w \<Rightarrow> Some (w OR push_bit (unat (pos AND OS_BITMAP_MASK)) 1))"

definition LOS_BitmapClr :: "u32 option \<Rightarrow> u16 \<Rightarrow> u32 option" where
  "LOS_BitmapClr bitmap pos =
     (case bitmap of None \<Rightarrow> None
      | Some w \<Rightarrow> Some (w AND NOT (push_bit (unat (pos AND OS_BITMAP_MASK)) 1)))"

definition LOS_HighBitGet :: "u32 \<Rightarrow> nat" where
  "LOS_HighBitGet bitmap = (if bitmap = 0 then LOS_INVALID_BIT_INDEX else 31 - CLZ bitmap)"

definition LOS_LowBitGet :: "u32 \<Rightarrow> nat" where
  "LOS_LowBitGet bitmap = (if bitmap = 0 then LOS_INVALID_BIT_INDEX else CTZ bitmap)"

definition BITMAP_FIRST_WORD_MASK :: "nat \<Rightarrow> u32" where
  "BITMAP_FIRST_WORD_MASK start = push_bit (start mod 32) (NOT 0)"

definition BITMAP_LAST_WORD_MASK :: "nat \<Rightarrow> u32" where
  "BITMAP_LAST_WORD_MASK nbits =
     (if nbits mod 32 \<noteq> 0 then push_bit (nbits mod 32) 1 - 1 else NOT 0)"

text \<open>The loop of \<open>LOS_BitmapSetNBits\<close>: the words, the pointer, the bits left, the bits the current
  word takes and its mask. The counts are below \<open>2 ^ 32\<close> and only ever get smaller.\<close>

function set_nbits_loop ::
  "(nat \<Rightarrow> u32) \<Rightarrow> nat \<Rightarrow> nat \<Rightarrow> nat \<Rightarrow> u32 \<Rightarrow> (nat \<Rightarrow> u32) \<times> nat \<times> nat \<times> u32" where
  "set_nbits_loop bitmap p numsSet bitsToSet maskToSet =
     (if numsSet > bitsToSet
      then set_nbits_loop (bitmap(p := bitmap p OR maskToSet)) (p + 1) (numsSet - bitsToSet) 32
             OS_BITMAP_WORD_MASK
      else (bitmap, p, numsSet, maskToSet))"
  by pat_completeness auto
termination
  by (relation "measures [\<lambda>(_, _, n, _, _). n, \<lambda>(_, _, _, b, _). if b = 0 then 1 else 0]") auto

definition LOS_BitmapSetNBits :: "(nat \<Rightarrow> u32) \<Rightarrow> nat \<Rightarrow> nat \<Rightarrow> (nat \<Rightarrow> u32)" where
  "LOS_BitmapSetNBits bitmap start numsSet =
     (let size = (start + numsSet) mod 2 ^ 32;
          (bitmap, p, numsSet, maskToSet) =
            set_nbits_loop bitmap (start div 32) numsSet (32 - start mod 32) (BITMAP_FIRST_WORD_MASK start)
      in if numsSet \<noteq> 0 then bitmap(p := bitmap p OR (maskToSet AND BITMAP_LAST_WORD_MASK size))
         else bitmap)"

function clr_nbits_loop ::
  "(nat \<Rightarrow> u32) \<Rightarrow> nat \<Rightarrow> nat \<Rightarrow> nat \<Rightarrow> u32 \<Rightarrow> (nat \<Rightarrow> u32) \<times> nat \<times> nat \<times> u32" where
  "clr_nbits_loop bitmap p numsClear bitsToClear maskToClear =
     (if numsClear \<ge> bitsToClear
      then clr_nbits_loop (bitmap(p := bitmap p AND NOT maskToClear)) (p + 1) (numsClear - bitsToClear)
             32 OS_BITMAP_WORD_MASK
      else (bitmap, p, numsClear, maskToClear))"
  by pat_completeness auto
termination
  by (relation "measures [\<lambda>(_, _, n, _, _). n, \<lambda>(_, _, _, b, _). if b = 0 then 1 else 0]") auto

definition LOS_BitmapClrNBits :: "(nat \<Rightarrow> u32) \<Rightarrow> nat \<Rightarrow> nat \<Rightarrow> (nat \<Rightarrow> u32)" where
  "LOS_BitmapClrNBits bitmap start numsClear =
     (let size = (start + numsClear) mod 2 ^ 32;
          (bitmap, p, numsClear, maskToClear) =
            clr_nbits_loop bitmap (start div 32) numsClear (32 - start mod 32) (BITMAP_FIRST_WORD_MASK start)
      in if numsClear \<noteq> 0
         then bitmap(p := bitmap p AND NOT (maskToClear AND BITMAP_LAST_WORD_MASK size))
         else bitmap)"

text \<open>\<open>LOS_BitmapFfz\<close>: the loop over the words from \<open>i\<close> of \<open>n\<close>; -1 is the source's "no zero bit".\<close>

function ffz_from :: "(nat \<Rightarrow> u32) \<Rightarrow> nat \<Rightarrow> nat \<Rightarrow> nat \<Rightarrow> int" where
  "ffz_from bitmap numBits i n =
     (if i < n
      then if bitmap i = OS_BITMAP_WORD_MASK then ffz_from bitmap numBits (i + 1) n
           else let bit = i * 32 + Ffz (bitmap i)
                in if bit < numBits then int bit else -1
      else -1)"
  by pat_completeness auto
termination by (relation "measure (\<lambda>(_, _, i, n). n - i)") auto

definition LOS_BitmapFfz :: "(nat \<Rightarrow> u32) \<Rightarrow> nat \<Rightarrow> int" where
  "LOS_BitmapFfz bitmap numBits = ffz_from bitmap numBits 0 ((numBits + 32 - 1) mod 2 ^ 32 div 32)"

declare set_nbits_loop.simps [simp del] clr_nbits_loop.simps [simp del] ffz_from.simps [simp del]

section \<open>The builtins\<close>

lemma CLZ_bit: "w \<noteq> 0 \<Longrightarrow> CLZ w < 32 \<and> bit w (31 - CLZ w)"
proof -
  assume "w \<noteq> 0"
  then obtain n where "n < 32" "bit w n" by (auto simp: word_ne_0_iff_bit)
  then have "\<exists>i < 32. bit w (31 - i)" by (intro exI [of _ "31 - n"]) simp
  then have "CLZ w < 32" by (simp add: CLZ_def first_index_less_iff)
  then show ?thesis unfolding CLZ_def using first_index_sat by blast
qed

lemma CLZ_least: "i < CLZ w \<Longrightarrow> \<not> bit w (31 - i)"
  unfolding CLZ_def by (drule first_index_least)

lemma CTZ_bit: "w \<noteq> 0 \<Longrightarrow> CTZ w < 32 \<and> bit w (CTZ w)"
  using first_index_less_iff [of 32 "bit w"] first_index_sat [of 32 "bit w"]
  by (simp add: CTZ_def word_ne_0_iff_bit)

lemma CTZ_least: "i < CTZ w \<Longrightarrow> \<not> bit w i"
  by (simp add: CTZ_def first_index_least)

lemma LOS_HighBitGet_greatest:
  assumes "w \<noteq> 0"
  shows "LOS_HighBitGet w < 32" and "bit w (LOS_HighBitGet w)" and "bit w j \<Longrightarrow> j \<le> LOS_HighBitGet w"
proof -
  show "LOS_HighBitGet w < 32" "bit w (LOS_HighBitGet w)"
    using assms CLZ_bit [OF assms] by (auto simp: LOS_HighBitGet_def)
  assume "bit w j"
  then have "j < 32" using bit_imp_le_length [of w j] by simp
  with \<open>bit w j\<close> CLZ_least [of "31 - j" w] have "\<not> 31 - j < CLZ w" by auto
  with assms \<open>j < 32\<close> show "j \<le> LOS_HighBitGet w" by (simp add: LOS_HighBitGet_def)
qed

lemma LOS_LowBitGet_least:
  assumes "w \<noteq> 0"
  shows "LOS_LowBitGet w < 32" and "bit w (LOS_LowBitGet w)" and "bit w j \<Longrightarrow> LOS_LowBitGet w \<le> j"
proof -
  show "LOS_LowBitGet w < 32" "bit w (LOS_LowBitGet w)"
    using assms CTZ_bit [OF assms] by (auto simp: LOS_LowBitGet_def)
  show "bit w j \<Longrightarrow> LOS_LowBitGet w \<le> j"
    using assms CTZ_least [of j w] not_le by (auto simp: LOS_LowBitGet_def)
qed

lemma bit_BitmapSet:
  "bit (the (LOS_BitmapSet (Some w) pos)) n \<longleftrightarrow> bit w n \<or> n = unat (pos AND OS_BITMAP_MASK)"
  if "n < 32" for w :: u32
  using that by (auto simp: LOS_BitmapSet_def bit_simps)

lemma bit_BitmapClr:
  "bit (the (LOS_BitmapClr (Some w) pos)) n \<longleftrightarrow> bit w n \<and> n \<noteq> unat (pos AND OS_BITMAP_MASK)"
  if "n < 32" for w :: u32
  using that by (auto simp: LOS_BitmapClr_def bit_simps)

section \<open>Runs of bits\<close>

definition bitmap_bit :: "(nat \<Rightarrow> u32) \<Rightarrow> nat \<Rightarrow> bool" where
  "bitmap_bit bitmap j = bit (bitmap (j div 32)) (j mod 32)"

lemma bit_FIRST_WORD_MASK: "bit (BITMAP_FIRST_WORD_MASK a) i \<longleftrightarrow> a mod 32 \<le> i \<and> i < 32"
  by (auto simp: BITMAP_FIRST_WORD_MASK_def bit_simps)

lemma bit_LAST_WORD_MASK:
  "bit (BITMAP_LAST_WORD_MASK a) i \<longleftrightarrow> i < 32 \<and> (a mod 32 = 0 \<or> i < a mod 32)"
proof (cases "a mod 32 = 0")
  case False
  then have "BITMAP_LAST_WORD_MASK a = mask (a mod 32)"
    by (simp add: BITMAP_LAST_WORD_MASK_def mask_eq_exp_minus_1 push_bit_eq_mult)
  then show ?thesis using False by (auto simp: bit_simps)
qed (auto simp: BITMAP_LAST_WORD_MASK_def bit_simps)

lemma bitmap_bit_upd:
  "bitmap_bit (bitmap(p := v)) j = (if j div 32 = p then bit v (j mod 32) else bitmap_bit bitmap j)"
  by (simp add: bitmap_bit_def)

text \<open>The loops in one lemma each: started at position \<open>a\<close>, a loop stops at a position \<open>a'\<close> whose word
  takes all that is left, with every bit of \<open>[a, a')\<close> set (or cleared) and no other touched.\<close>

lemma word_position:
  fixes a :: nat
  obtains q r where "a = 32 * q + r" and "r < 32" and "a div 32 = q" and "a mod 32 = r"
  by (rule that [of "a div 32" "a mod 32"]) simp_all

lemma next_word: "(a + (32 - a mod 32)) div 32 = a div 32 + 1" "(a + (32 - a mod 32)) mod 32 = 0"
  for a :: nat
proof -
  obtain q r where "a = 32 * q + r" "r < 32" "a mod 32 = r" "a div 32 = q" by (rule word_position)
  then have "a + (32 - a mod 32) = 32 * (a div 32 + 1)" by simp
  then show "(a + (32 - a mod 32)) div 32 = a div 32 + 1" "(a + (32 - a mod 32)) mod 32 = 0"
    by simp_all
qed

lemma in_first_word: "j div 32 = a div 32 \<and> a mod 32 \<le> j mod 32 \<longleftrightarrow> a \<le> j \<and> j < a + (32 - a mod 32)"
  for a j :: nat
proof -
  obtain q r where a: "a = 32 * q + r" "r < 32" "a div 32 = q" "a mod 32 = r" by (rule word_position)
  obtain q' r' where j: "j = 32 * q' + r'" "r' < 32" "j div 32 = q'" "j mod 32 = r'" by (rule word_position)
  have "q' = q \<and> r \<le> r' \<longleftrightarrow> 32 * q + r \<le> 32 * q' + r' \<and> 32 * q' + r' < 32 * q + 32"
    using a(2) j(2) by (cases q q' rule: linorder_cases) auto
  then show ?thesis using a j by simp
qed

lemma set_first_word:
  "bitmap_bit (bm(a div 32 := bm (a div 32) OR BITMAP_FIRST_WORD_MASK a)) j \<longleftrightarrow>
     bitmap_bit bm j \<or> a \<le> j \<and> j < a + (32 - a mod 32)"
  unfolding in_first_word [symmetric] by (auto simp: bitmap_bit_def bit_or_iff bit_FIRST_WORD_MASK)

lemma clr_first_word:
  "bitmap_bit (bm(a div 32 := bm (a div 32) AND NOT (BITMAP_FIRST_WORD_MASK a))) j \<longleftrightarrow>
     bitmap_bit bm j \<and> \<not> (a \<le> j \<and> j < a + (32 - a mod 32))"
  unfolding in_first_word [symmetric]
  by (auto simp: bitmap_bit_def bit_and_iff bit_not_iff bit_FIRST_WORD_MASK)

text \<open>The last, partial word: its mask selects exactly the bits left.\<close>

lemma last_word_bits:
  assumes "n \<noteq> 0" and "n \<le> 32 - a mod 32"
  shows "a \<le> j \<and> j < a + n \<longleftrightarrow>
    j div 32 = a div 32 \<and> bit (BITMAP_FIRST_WORD_MASK a AND BITMAP_LAST_WORD_MASK (a + n)) (j mod 32)"
proof -
  obtain q r where a: "a = 32 * q + r" "r < 32" "a div 32 = q" "a mod 32 = r" by (rule word_position)
  obtain q' r' where j: "j = 32 * q' + r'" "r' < 32" "j div 32 = q'" "j mod 32 = r'" by (rule word_position)
  have rn: "r + n \<le> 32" using assms(2) a by simp
  have "32 * q + r \<le> 32 * q' + r' \<and> 32 * q' + r' < 32 * q + r + n \<longleftrightarrow> q' = q \<and> r \<le> r' \<and> r' < r + n"
    using a(2) j(2) rn by (cases q q' rule: linorder_cases) auto
  moreover have "(a + n) mod 32 = (if r + n = 32 then 0 else r + n)"
    using rn a(1) by (auto simp: mod_less add.assoc)
  ultimately show ?thesis
    using a j rn assms(1) by (auto simp: bit_and_iff bit_FIRST_WORD_MASK bit_LAST_WORD_MASK split: if_splits)
qed

lemma set_last_word:
  assumes "n \<noteq> 0" and "n \<le> 32 - a mod 32"
  shows "bitmap_bit (bm(a div 32 := bm (a div 32) OR
      (BITMAP_FIRST_WORD_MASK a AND BITMAP_LAST_WORD_MASK (a + n)))) j \<longleftrightarrow>
    bitmap_bit bm j \<or> a \<le> j \<and> j < a + n"
  unfolding last_word_bits [OF assms] by (auto simp: bitmap_bit_def bit_or_iff)

lemma clr_last_word:
  assumes "n \<noteq> 0" and "n \<le> 32 - a mod 32"
  shows "bitmap_bit (bm(a div 32 := bm (a div 32) AND
      NOT (BITMAP_FIRST_WORD_MASK a AND BITMAP_LAST_WORD_MASK (a + n)))) j \<longleftrightarrow>
    bitmap_bit bm j \<and> \<not> (a \<le> j \<and> j < a + n)"
  unfolding last_word_bits [OF assms] by (auto simp: bitmap_bit_def bit_and_iff bit_not_iff bit_or_iff)

lemma FIRST_WORD_MASK_aligned: "BITMAP_FIRST_WORD_MASK (a + (32 - a mod 32)) = NOT 0"
  using next_word(2) [of a] by (simp add: BITMAP_FIRST_WORD_MASK_def)

lemma set_nbits_loop_spec:
  "\<exists>a' bm' n'. set_nbits_loop bm (a div 32) n (32 - a mod 32) (BITMAP_FIRST_WORD_MASK a) =
      (bm', a' div 32, n', BITMAP_FIRST_WORD_MASK a') \<and>
    a' + n' = a + n \<and> a \<le> a' \<and> n' \<le> 32 - a' mod 32 \<and>
    (\<forall>j. bitmap_bit bm' j \<longleftrightarrow> bitmap_bit bm j \<or> a \<le> j \<and> j < a')"
proof (induction n arbitrary: a bm rule: less_induct)
  case (less n)
  let ?b = "32 - a mod 32"
  let ?bm = "bm(a div 32 := bm (a div 32) OR BITMAP_FIRST_WORD_MASK a)"
  let ?loop = "set_nbits_loop bm (a div 32) n ?b (BITMAP_FIRST_WORD_MASK a)"
  note eq = set_nbits_loop.simps [of bm "a div 32" n ?b "BITMAP_FIRST_WORD_MASK a"]
  show ?case
  proof (cases "n > ?b")
    case False
    then have e: "?loop = (bm, a div 32, n, BITMAP_FIRST_WORD_MASK a)" by (simp add: eq)
    show ?thesis using False by (intro exI conjI) (rule e, auto)
  next
    case True
    have "?b > 0" by simp
    with True have "n - ?b < n" by linarith
    from less.IH [OF this, of ?bm "a + ?b"] obtain a' bm' n' where
      rec: "set_nbits_loop ?bm (a div 32 + 1) (n - ?b) 32 (NOT 0) =
          (bm', a' div 32, n', BITMAP_FIRST_WORD_MASK a')"
      and sum: "a' + n' = a + ?b + (n - ?b)" and le: "a + ?b \<le> a'" and n': "n' \<le> 32 - a' mod 32"
      and bits: "\<And>j. bitmap_bit bm' j \<longleftrightarrow> bitmap_bit ?bm j \<or> a + ?b \<le> j \<and> j < a'"
      unfolding FIRST_WORD_MASK_aligned next_word diff_zero by blast
    have "bitmap_bit bm' j \<longleftrightarrow> bitmap_bit bm j \<or> a \<le> j \<and> j < a'" for j
      unfolding bits set_first_word using le \<open>?b > 0\<close> by linarith
    moreover have e: "?loop = (bm', a' div 32, n', BITMAP_FIRST_WORD_MASK a')"
      using True rec by (simp add: eq)
    ultimately show ?thesis using sum le n' True by (intro exI conjI) (rule e, auto)
  qed
qed

lemma clr_nbits_loop_spec:
  "\<exists>a' bm' n'. clr_nbits_loop bm (a div 32) n (32 - a mod 32) (BITMAP_FIRST_WORD_MASK a) =
      (bm', a' div 32, n', BITMAP_FIRST_WORD_MASK a') \<and>
    a' + n' = a + n \<and> a \<le> a' \<and> n' \<le> 32 - a' mod 32 \<and>
    (\<forall>j. bitmap_bit bm' j \<longleftrightarrow> bitmap_bit bm j \<and> \<not> (a \<le> j \<and> j < a'))"
proof (induction n arbitrary: a bm rule: less_induct)
  case (less n)
  let ?b = "32 - a mod 32"
  let ?bm = "bm(a div 32 := bm (a div 32) AND NOT (BITMAP_FIRST_WORD_MASK a))"
  let ?loop = "clr_nbits_loop bm (a div 32) n ?b (BITMAP_FIRST_WORD_MASK a)"
  note eq = clr_nbits_loop.simps [of bm "a div 32" n ?b "BITMAP_FIRST_WORD_MASK a"]
  show ?case
  proof (cases "n \<ge> ?b")
    case False
    then have e: "?loop = (bm, a div 32, n, BITMAP_FIRST_WORD_MASK a)" by (simp add: eq)
    show ?thesis using False by (intro exI conjI) (rule e, auto)
  next
    case True
    have "?b > 0" by simp
    with True have "n - ?b < n" by linarith
    from less.IH [OF this, of ?bm "a + ?b"] obtain a' bm' n' where
      rec: "clr_nbits_loop ?bm (a div 32 + 1) (n - ?b) 32 (NOT 0) =
          (bm', a' div 32, n', BITMAP_FIRST_WORD_MASK a')"
      and sum: "a' + n' = a + ?b + (n - ?b)" and le: "a + ?b \<le> a'" and n': "n' \<le> 32 - a' mod 32"
      and bits: "\<And>j. bitmap_bit bm' j \<longleftrightarrow> bitmap_bit ?bm j \<and> \<not> (a + ?b \<le> j \<and> j < a')"
      unfolding FIRST_WORD_MASK_aligned next_word diff_zero by blast
    have "bitmap_bit bm' j \<longleftrightarrow> bitmap_bit bm j \<and> \<not> (a \<le> j \<and> j < a')" for j
      unfolding bits clr_first_word using le \<open>?b > 0\<close> by linarith
    moreover have e: "?loop = (bm', a' div 32, n', BITMAP_FIRST_WORD_MASK a')"
      using True rec by (simp add: eq)
    ultimately show ?thesis using sum le n' True by (intro exI conjI) (rule e, auto)
  qed
qed

section \<open>First zero bit\<close>

lemma Ffz_least:
  assumes "x \<noteq> NOT 0"
  shows "Ffz x < 32" and "\<not> bit x (Ffz x)" and "i < Ffz x \<Longrightarrow> bit x i"
proof -
  have n0: "NOT x \<noteq> 0" using assms by (metis bit.double_compl)
  have "CTZ (NOT x) < 32" using CTZ_bit [OF n0] by simp
  then have ffz: "Ffz x = CTZ (NOT x)" using n0 by (simp add: Ffz_def ffsl_def mod_if)
  show "Ffz x < 32" "\<not> bit x (Ffz x)"
    using CTZ_bit [OF n0] by (auto simp: ffz bit_not_iff)
  show "bit x i" if "i < Ffz x"
    using CTZ_least [of i "NOT x"] CTZ_bit [OF n0] that by (auto simp: ffz bit_not_iff)
qed

lemma full_word_bits: "bm (j div 32) = NOT 0 \<Longrightarrow> bitmap_bit bm j"
  by (simp add: bitmap_bit_def bit_not_iff)

lemma ffz_from_spec:
  assumes "\<And>j. j < i * 32 \<Longrightarrow> bitmap_bit bm j" and "numBits \<le> n * 32"
  shows "ffz_from bm numBits i n = (let k = first_index numBits (\<lambda>j. \<not> bitmap_bit bm j)
    in if k < numBits then int k else -1)"
  using assms(1)
proof (induction "n - i" arbitrary: i)
  case 0
  then have "bitmap_bit bm j" if "j < numBits" for j
    using assms(2) that by (intro "0.prems") (simp add: less_le_trans)
  then have "\<not> first_index numBits (\<lambda>j. \<not> bitmap_bit bm j) < numBits"
    by (auto simp: first_index_less_iff)
  then show ?case using 0 by (subst ffz_from.simps) (simp add: Let_def)
next
  case (Suc d)
  then have i: "i < n" by simp
  show ?case
  proof (cases "bm i = NOT 0")
    case True
    have "bitmap_bit bm j" if "j < (i + 1) * 32" for j
    proof (cases "j < i * 32")
      case False
      with that have "j div 32 = i" by (intro div_nat_eqI) auto
      then show ?thesis using True by (simp add: full_word_bits)
    qed (rule Suc.prems)
    from Suc.hyps(1) [of "i + 1", OF _ this] show ?thesis
      using True i Suc.hyps(2) by (subst ffz_from.simps) simp
  next
    case False
    let ?k = "i * 32 + Ffz (bm i)"
    note f = Ffz_least [OF False]
    have zero: "\<not> bitmap_bit bm ?k" using f(1,2) by (simp add: bitmap_bit_def)
    have below: "bitmap_bit bm j" if "j < ?k" for j
    proof (cases "j < i * 32")
      case ge: False
      have "j div 32 = i" using ge that f(1) by (intro div_nat_eqI) auto
      moreover from this have "j mod 32 < Ffz (bm i)" using that mult_div_mod_eq [of 32 j] by linarith
      ultimately show ?thesis using f(3) by (simp add: bitmap_bit_def)
    qed (rule Suc.prems)
    have "?k < numBits \<Longrightarrow> first_index numBits (\<lambda>j. \<not> bitmap_bit bm j) = ?k"
      using zero below by (intro first_index_eqI) auto
    moreover have "\<not> ?k < numBits \<Longrightarrow> \<not> first_index numBits (\<lambda>j. \<not> bitmap_bit bm j) < numBits"
      using below by (auto simp: first_index_less_iff)
    ultimately show ?thesis using False i by (subst ffz_from.simps) (auto simp: Let_def)
  qed
qed

section \<open>Properties\<close>

text \<open>\<open>LOS_BitmapFfz\<close> finds the lowest zero bit: for a bitmap of \<open>n\<close> bits it returns the least
  position below \<open>n\<close> whose bit is zero, and -1 exactly when all \<open>n\<close> bits are one, whatever the
  bits beyond the bitmap's end are.\<close>

theorem BitmapFfz_least_zero:
  assumes "n + 31 < 2 ^ 32"
  shows "(\<forall>j < n. bitmap_bit bm j) \<and> LOS_BitmapFfz bm n = -1 \<or>
    (\<exists>k < n. LOS_BitmapFfz bm n = int k \<and> \<not> bitmap_bit bm k \<and> (\<forall>j < k. bitmap_bit bm j))"
proof -
  let ?k = "first_index n (\<lambda>j. \<not> bitmap_bit bm j)"
  have "n \<le> (n + 31) div 32 * 32"
    using div_mult_mod_eq [of "n + 31" 32] mod_less_divisor [of 32 "n + 31"] by linarith
  then have "LOS_BitmapFfz bm n = (if ?k < n then int ?k else -1)"
    using ffz_from_spec [of 0 bm n "(n + 31) div 32"] assms
    by (simp add: LOS_BitmapFfz_def Let_def add.commute [of n 31])
  then show ?thesis
    using first_index_sat [of n "\<lambda>j. \<not> bitmap_bit bm j"] first_index_least [of _ n "\<lambda>j. \<not> bitmap_bit bm j"]
      first_index_less_iff [of n "\<lambda>j. \<not> bitmap_bit bm j"] by auto
qed

theorem BitmapFfz_least_zero_witness: "\<exists>k < 40. LOS_BitmapFfz (\<lambda>i. if i = 0 then NOT 0 else 5) 40 = int k"
proof -
  have "\<not> bitmap_bit (\<lambda>i. if i = 0 then NOT 0 else 5) 33" by (simp add: bitmap_bit_def)
  then show ?thesis
    using BitmapFfz_least_zero [of 40 "\<lambda>i. if i = 0 then NOT 0 else 5"] by auto
qed

text \<open>\<open>LOS_BitmapSetNBits\<close> and \<open>LOS_BitmapClrNBits\<close> change exactly the requested run of bits, across
  any number of words and for any alignment of its ends: for a run that does not overflow the
  32-bit position, setting makes precisely the bits of \<open>[start, start + n)\<close> one and clearing makes
  precisely them zero, every other bit keeping its value, although the two loops stop at different
  conditions.\<close>

theorem nbits_exact:
  assumes "start + n < 2 ^ 32"
  shows "(bitmap_bit (LOS_BitmapSetNBits bm start n) j \<longleftrightarrow> bitmap_bit bm j \<or> start \<le> j \<and> j < start + n) \<and>
    (bitmap_bit (LOS_BitmapClrNBits bm start n) j \<longleftrightarrow> bitmap_bit bm j \<and> \<not> (start \<le> j \<and> j < start + n))"
proof
  from set_nbits_loop_spec [of bm start n] obtain a bm' n' where
    eq: "set_nbits_loop bm (start div 32) n (32 - start mod 32) (BITMAP_FIRST_WORD_MASK start) =
      (bm', a div 32, n', BITMAP_FIRST_WORD_MASK a)" and
    sum: "a + n' = start + n" and a: "start \<le> a" "n' \<le> 32 - a mod 32" and
    bits: "\<And>j. bitmap_bit bm' j \<longleftrightarrow> bitmap_bit bm j \<or> start \<le> j \<and> j < a" by blast
  have "bitmap_bit (LOS_BitmapSetNBits bm start n) j \<longleftrightarrow> bitmap_bit bm' j \<or> a \<le> j \<and> j < a + n'"
    using assms set_last_word [OF _ a(2), of bm' j] sum
    by (auto simp: LOS_BitmapSetNBits_def eq)
  then show "bitmap_bit (LOS_BitmapSetNBits bm start n) j \<longleftrightarrow> bitmap_bit bm j \<or> start \<le> j \<and> j < start + n"
    unfolding bits using sum a by linarith
next
  from clr_nbits_loop_spec [of bm start n] obtain a bm' n' where
    eq: "clr_nbits_loop bm (start div 32) n (32 - start mod 32) (BITMAP_FIRST_WORD_MASK start) =
      (bm', a div 32, n', BITMAP_FIRST_WORD_MASK a)" and
    sum: "a + n' = start + n" and a: "start \<le> a" "n' \<le> 32 - a mod 32" and
    bits: "\<And>j. bitmap_bit bm' j \<longleftrightarrow> bitmap_bit bm j \<and> \<not> (start \<le> j \<and> j < a)" by blast
  have "bitmap_bit (LOS_BitmapClrNBits bm start n) j \<longleftrightarrow> bitmap_bit bm' j \<and> \<not> (a \<le> j \<and> j < a + n')"
    using assms clr_last_word [OF _ a(2), of bm' j] sum
    by (auto simp: LOS_BitmapClrNBits_def eq)
  then show "bitmap_bit (LOS_BitmapClrNBits bm start n) j \<longleftrightarrow>
      bitmap_bit bm j \<and> \<not> (start \<le> j \<and> j < start + n)"
    unfolding bits using sum a by linarith
qed

theorem nbits_exact_witness:
  "bitmap_bit (LOS_BitmapSetNBits (\<lambda>_. 0) 30 40) 69 \<and> \<not> bitmap_bit (LOS_BitmapSetNBits (\<lambda>_. 0) 30 40) 70"
  using nbits_exact [of 30 40 "\<lambda>_. 0" 69] nbits_exact [of 30 40 "\<lambda>_. 0" 70] by (simp add: bitmap_bit_def)

end
