(* ===== verification/LosPriority.thy ===== *)
theory LosPriority
  imports LosSchedState LosBitmap
begin

text \<open>
  The ready queues of the priority scheduler, \<^verbatim>\<open>kernel/base/sched/los_priority.c\<close> and the search for
  the next task in \<^verbatim>\<open>los_sched_pri.h\<close>: 32 process priorities with 32 thread priorities each, every
  queue with a count of its tasks, a bitmap of the non-empty queues of a process priority and a
  bitmap of the process priorities that have one; the most significant bit is priority 0.
\<close>

section \<open>The code\<close>

abbreviation (input) PRIQUEUE_PRIOR0_BIT :: u32 where "PRIQUEUE_PRIOR0_BIT \<equiv> 0x80000000"
abbreviation (input) OS_SCHED_READY_MAX :: u32 where "OS_SCHED_READY_MAX \<equiv> 30"
abbreviation (input) OS_SCHED_FIFO_TIMEOUT :: u32 where "OS_SCHED_FIFO_TIMEOUT \<equiv> 0x7FFFFFFF"

definition HPFTimeSliceUpdate :: "nat \<Rightarrow> u64 \<Rightarrow> 'a kstate_scheme \<Rightarrow> 'a kstate_scheme option" where
  "HPFTimeSliceUpdate t currTime s =
    do {
      let c = tcb s t;
      LOS_ASSERT (currTime \<ge> startTime c);
      let incTime = (ucast (currTime - startTime c - ucast (irqUsedTime c)) :: i32);
      LOS_ASSERT (0 \<le> sint incTime);
      let slice = (if policy (sp c) = LOS_SCHED_RR then timeSlice c - incTime else timeSlice c);
      let s1 = upd_task t (\<lambda>c. c\<lparr>timeSlice := slice, irqUsedTime := 0, startTime := currTime\<rparr>) s;
      Some (if sint slice \<le> sint (timeSliceLow (cfg s)) then s1\<lparr>schedFlag := schedFlag s1 OR INT_PEND_RESCH\<rparr> else s1)
    }"

definition HPFTimeSliceGet :: "nat \<Rightarrow> 'a kstate_scheme \<Rightarrow> u64" where
  "HPFTimeSliceGet t s =
    (let c = tcb s t;
         slice = if sint (timeSlice c) \<le> sint (timeSliceLow (cfg s)) then initTimeSlice (sp c) else timeSlice c
     in startTime c + scast slice)"

definition TimeSliceCalculate :: "nat \<Rightarrow> nat \<Rightarrow> 'a kstate_scheme \<Rightarrow> u32" where
  "TimeSliceCalculate b p s =
    (if readyTasks s b p > OS_SCHED_READY_MAX then timeSlicesMin (cfg s)
     else ((OS_SCHED_READY_MAX - readyTasks s b p) * (timeSlicesMax (cfg s) - timeSlicesMin (cfg s))) div OS_SCHED_READY_MAX
       + timeSlicesMin (cfg s))"

text \<open>The two insertions differ in the end of the queue; indexes beyond the arrays have no meaning. The
  bitmap test uses the bitmap before this insertion sets its bit.\<close>

definition pri_que_mark :: "nat \<Rightarrow> nat \<Rightarrow> 'a kstate_scheme \<Rightarrow> 'a kstate_scheme" where
  "pri_que_mark b p s =
    (let s1 = (if prioBitmap s b = 0 then s\<lparr>baseBitmap := baseBitmap s OR drop_bit b PRIQUEUE_PRIOR0_BIT\<rparr> else s)
     in if lists s1 (PriQueList b p) = []
        then s1\<lparr>prioBitmap := (prioBitmap s1)(b := prioBitmap s1 b OR drop_bit p PRIQUEUE_PRIOR0_BIT)\<rparr> else s1)"

definition pri_que_count :: "nat \<Rightarrow> nat \<Rightarrow> u32 \<Rightarrow> 'a kstate_scheme \<Rightarrow> 'a kstate_scheme" where
  "pri_que_count b p d s = s\<lparr>readyTasks := (readyTasks s)(b := (readyTasks s b)(p := readyTasks s b p + d))\<rparr>"

definition PriQueHeadInsert :: "nat \<Rightarrow> nat \<Rightarrow> nat \<Rightarrow> 'a kstate_scheme \<Rightarrow> 'a kstate_scheme option" where
  "PriQueHeadInsert b t p s =
    do {
      LOS_ASSERT (b < OS_PRIORITY_QUEUE_NUM \<and> p < OS_PRIORITY_QUEUE_NUM);
      LOS_ASSERT (pendOn (tcb s t) = None);
      s1 \<leftarrow> pend_head_insert (PriQueList b p) t (pri_que_mark b p s);
      Some (pri_que_count b p 1 s1)
    }"

definition PriQueTailInsert :: "nat \<Rightarrow> nat \<Rightarrow> nat \<Rightarrow> 'a kstate_scheme \<Rightarrow> 'a kstate_scheme option" where
  "PriQueTailInsert b t p s =
    do {
      LOS_ASSERT (b < OS_PRIORITY_QUEUE_NUM \<and> p < OS_PRIORITY_QUEUE_NUM);
      LOS_ASSERT (pendOn (tcb s t) = None);
      s1 \<leftarrow> pend_tail_insert (PriQueList b p) t (pri_que_mark b p s);
      Some (pri_que_count b p 1 s1)
    }"

definition PriQueDelete :: "nat \<Rightarrow> nat \<Rightarrow> nat \<Rightarrow> 'a kstate_scheme \<Rightarrow> 'a kstate_scheme option" where
  "PriQueDelete b t p s =
    do {
      LOS_ASSERT (b < OS_PRIORITY_QUEUE_NUM \<and> p < OS_PRIORITY_QUEUE_NUM);
      s1 \<leftarrow> pend_delete t s;
      let s2 = pri_que_count b p (-1) s1;
      let s3 = (if lists s2 (PriQueList b p) = []
        then s2\<lparr>prioBitmap := (prioBitmap s2)(b := prioBitmap s2 b AND NOT (drop_bit p PRIQUEUE_PRIOR0_BIT))\<rparr> else s2);
      Some (if prioBitmap s3 b = 0 then s3\<lparr>baseBitmap := baseBitmap s3 AND NOT (drop_bit b PRIQUEUE_PRIOR0_BIT)\<rparr> else s3)
    }"

abbreviation (input) task_prio :: "'a kstate_scheme \<Rightarrow> nat \<Rightarrow> nat" where
  "task_prio s t \<equiv> unat (priority (sp (tcb s t)))"
abbreviation (input) task_base :: "'a kstate_scheme \<Rightarrow> nat \<Rightarrow> nat" where
  "task_base s t \<equiv> unat (basePrio (sp (tcb s t)))"

definition PriQueInsert :: "nat \<Rightarrow> 'a kstate_scheme \<Rightarrow> 'a kstate_scheme option" where
  "PriQueInsert t s =
    do {
      LOS_ASSERT (\<not> has (status_of s t) OS_TASK_STATUS_READY);
      let c = tcb s t;
      let b = task_base s t;
      let p = task_prio s t;
      let left = sint (timeSlice c) > sint (timeSliceLow (cfg s));
      s1 \<leftarrow>
        (if policy (sp c) = LOS_SCHED_RR then
           if left then PriQueHeadInsert b t p s
           else let slice = TimeSliceCalculate b p s
                in PriQueTailInsert b t p (upd_task t (\<lambda>c. c\<lparr>sp := (sp c)\<lparr>initTimeSlice := slice\<rparr>, timeSlice := slice\<rparr>) s)
         else if policy (sp c) = LOS_SCHED_FIFO then
           if left \<and> has (taskStatus c) OS_TASK_STATUS_RUNNING then PriQueHeadInsert b t p s
           else PriQueTailInsert b t p (upd_task t (\<lambda>c. c\<lparr>sp := (sp c)\<lparr>initTimeSlice := OS_SCHED_FIFO_TIMEOUT\<rparr>,
             timeSlice := OS_SCHED_FIFO_TIMEOUT\<rparr>) s)
         else None);
      Some (set_status t OS_TASK_STATUS_READY (clr_status t OS_TASK_STATUS_BLOCKED s1))
    }"

definition HPFEnqueue :: "nat \<Rightarrow> 'a kstate_scheme \<Rightarrow> 'a kstate_scheme option" where
  "HPFEnqueue t s = PriQueInsert t s"

definition HPFDequeue :: "nat \<Rightarrow> 'a kstate_scheme \<Rightarrow> 'a kstate_scheme option" where
  "HPFDequeue t s =
    (if has (status_of s t) OS_TASK_STATUS_READY
     then map_option (clr_status t OS_TASK_STATUS_READY) (PriQueDelete (task_base s t) t (task_prio s t) s)
     else Some s)"

definition HPFStartToRun :: "nat \<Rightarrow> 'a kstate_scheme \<Rightarrow> 'a kstate_scheme option" where
  "HPFStartToRun t s = HPFDequeue t s"

definition HPFWaitTimeGet :: "nat \<Rightarrow> 'a kstate_scheme \<Rightarrow> 'a kstate_scheme \<times> u64" where
  "HPFWaitTimeGet t s =
    (let time = waitTime (tcb s t) + startTime (tcb s t)
     in (upd_task t (\<lambda>c. c\<lparr>waitTime := time\<rparr>) s, time))"

text \<open>The bits of a bitmap are visited from the most significant one; each visit clears its bit.\<close>

lemma clear_high_bit_less:
  assumes "w \<noteq> 0"
  shows "unat (w AND NOT (2 ^ (31 - CLZ w) :: u32)) < unat w"
proof -
  have b: "bit w (31 - CLZ w)" using assms by (simp add: CLZ_bit)
  have "w AND NOT (2 ^ (31 - CLZ w)) \<noteq> w"
  proof
    assume "w AND NOT (2 ^ (31 - CLZ w)) = w"
    then have "bit (w AND NOT (2 ^ (31 - CLZ w))) (31 - CLZ w)" using b by simp
    then show False by (simp add: bit_simps)
  qed
  then have "w AND NOT (2 ^ (31 - CLZ w)) < w" using word_and_le2 order_less_le by metis
  then show ?thesis unfolding word_less_nat_alt .
qed

function prio_scan :: "(nat \<Rightarrow> nat list) \<Rightarrow> u32 \<Rightarrow> nat option" where
  "prio_scan ques bm =
    (if bm = 0 then None
     else case ques (CLZ bm) of
       newTask # _ \<Rightarrow> Some newTask
     | [] \<Rightarrow> prio_scan ques (bm AND NOT (push_bit (31 - CLZ bm) 1)))"
  by auto
termination by (relation "measure (\<lambda>(_, w). unat w)") (auto simp: clear_high_bit_less)

function base_scan :: "(nat \<Rightarrow> nat \<Rightarrow> nat list) \<Rightarrow> (nat \<Rightarrow> u32) \<Rightarrow> u32 \<Rightarrow> nat option" where
  "base_scan ques bms bm =
    (if bm = 0 then None
     else case prio_scan (ques (CLZ bm)) (bms (CLZ bm)) of
       Some newTask \<Rightarrow> Some newTask
     | None \<Rightarrow> base_scan ques bms (bm AND NOT (push_bit (31 - CLZ bm) 1)))"
  by auto
termination by (relation "measure (\<lambda>(_, _, w). unat w)") (auto simp: clear_high_bit_less simp del: prio_scan.simps)

definition HPFRunqueueTopTaskGet :: "'a kstate_scheme \<Rightarrow> nat option" where
  "HPFRunqueueTopTaskGet s = base_scan (\<lambda>b p. lists s (PriQueList b p)) (prioBitmap s) (baseBitmap s)"

declare prio_scan.simps [simp del] base_scan.simps [simp del]

text \<open>Initialisation of a task's parameters and of the queues.\<close>

definition HPFTaskSchedParamInit :: "nat \<Rightarrow> u16 \<Rightarrow> SchedParam \<Rightarrow> u16 option \<Rightarrow> 'a kstate_scheme \<Rightarrow> 'a kstate_scheme" where
  "HPFTaskSchedParamInit t pol parentParam paramPriority s =
    upd_task t (\<lambda>c. c\<lparr>sp := (sp c)\<lparr>policy := pol,
        priority := (case paramPriority of Some prio \<Rightarrow> prio | None \<Rightarrow> spPriority parentParam),
        basePrio := spBasePrio parentParam, initTimeSlice := 0\<rparr>,
      timeSlice := 0, ops := g_priorityOps\<rparr>) s"

definition HPFProcessDefaultSchedParamGet :: "SchedParam \<Rightarrow> SchedParam" where
  "HPFProcessDefaultSchedParamGet param = param\<lparr>spBasePrio := 10\<rparr>"

definition HPFSchedPolicyInit :: "'a kstate_scheme \<Rightarrow> 'a kstate_scheme" where
  "HPFSchedPolicyInit s =
    s\<lparr>lists := (\<lambda>h. case h of PriQueList b p \<Rightarrow>
        if b < OS_PRIORITY_QUEUE_NUM \<and> p < OS_PRIORITY_QUEUE_NUM then [] else lists s h | _ \<Rightarrow> lists s h)\<rparr>"

definition HPFParamCompare :: "SchedPolicy \<Rightarrow> SchedPolicy \<Rightarrow> int" where
  "HPFParamCompare sp1 sp2 =
    (if basePrio sp1 \<noteq> basePrio sp2 then uint (basePrio sp1) - uint (basePrio sp2)
     else uint (priority sp1) - uint (priority sp2))"

section \<open>The bitmaps describe the queues\<close>

definition queues_ok :: "'a kstate_scheme \<Rightarrow> bool" where
  "queues_ok s \<longleftrightarrow>
    (\<forall>b < 32. bit (baseBitmap s) (31 - b) \<longleftrightarrow> prioBitmap s b \<noteq> 0) \<and>
    (\<forall>b < 32. \<forall>p < 32. (bit (prioBitmap s b) (31 - p) \<longleftrightarrow> lists s (PriQueList b p) \<noteq> []) \<and>
      readyTasks s b p = of_nat (length (lists s (PriQueList b p))))"

lemma queues_okD:
  assumes "queues_ok s" and "b < 32"
  shows "bit (baseBitmap s) (31 - b) \<longleftrightarrow> prioBitmap s b \<noteq> 0"
    and "p < 32 \<Longrightarrow> bit (prioBitmap s b) (31 - p) \<longleftrightarrow> lists s (PriQueList b p) \<noteq> []"
    and "p < 32 \<Longrightarrow> readyTasks s b p = of_nat (length (lists s (PriQueList b p)))"
  using assms by (auto simp: queues_ok_def)

lemma queues_ok_cong:
  assumes "\<And>b p. lists s' (PriQueList b p) = lists s (PriQueList b p)" and "readyTasks s' = readyTasks s"
    and "prioBitmap s' = prioBitmap s" and "baseBitmap s' = baseBitmap s"
  shows "queues_ok s' \<longleftrightarrow> queues_ok s"
  using assms by (simp add: queues_ok_def)

lemma prior_bit: "n < 32 \<Longrightarrow> m < 32 \<Longrightarrow> bit (drop_bit n PRIQUEUE_PRIOR0_BIT) (31 - m) \<longleftrightarrow> m = n"
proof -
  assume "n < 32" "m < 32"
  have "bit (2 ^ 31 :: u32) k \<longleftrightarrow> k = 31" for k unfolding bit_exp_iff by auto
  moreover have "(2 ^ 31 :: u32) = PRIQUEUE_PRIOR0_BIT" by simp
  ultimately have "bit PRIQUEUE_PRIOR0_BIT k \<longleftrightarrow> k = 31" for k by metis
  moreover have "n + (31 - m) = 31 \<longleftrightarrow> m = n" using \<open>n < 32\<close> \<open>m < 32\<close> by auto
  ultimately show ?thesis by (simp add: bit_drop_bit_eq)
qed

lemma word32_ne_0_iff: "w \<noteq> 0 \<longleftrightarrow> (\<exists>p < 32. bit w (31 - p))" for w :: u32
proof
  assume "w \<noteq> 0"
  then have "CLZ w < 32 \<and> bit w (31 - CLZ w)" by (rule CLZ_bit)
  then show "\<exists>p < 32. bit w (31 - p)" by blast
qed auto

text \<open>The search never visits an empty queue when the bitmaps are right, so it returns the first task of the
  queue with the least numbers.\<close>

lemma prio_scan_eq:
  assumes "\<And>p. p < 32 \<Longrightarrow> bit bm (31 - p) \<longleftrightarrow> ques p \<noteq> []"
  shows "prio_scan ques bm = (if bm = 0 then None else Some (hd (ques (CLZ bm))))"
proof (cases "bm = 0")
  case False
  then have "ques (CLZ bm) \<noteq> []" using assms [of "CLZ bm"] CLZ_bit by blast
  then show ?thesis by (subst prio_scan.simps) (auto split: list.splits)
qed (simp add: prio_scan.simps)

lemma HPFTop_eq:
  assumes "queues_ok s"
  shows "HPFRunqueueTopTaskGet s =
    (if baseBitmap s = 0 then None
     else Some (hd (lists s (PriQueList (CLZ (baseBitmap s)) (CLZ (prioBitmap s (CLZ (baseBitmap s))))))))"
proof (cases "baseBitmap s = 0")
  case False
  let ?b = "CLZ (baseBitmap s)"
  have b: "?b < 32" "bit (baseBitmap s) (31 - ?b)" using CLZ_bit [OF False] by auto
  then have "prioBitmap s ?b \<noteq> 0" using queues_okD(1) [OF assms] by blast
  moreover have "prio_scan (\<lambda>p. lists s (PriQueList ?b p)) (prioBitmap s ?b) =
      (if prioBitmap s ?b = 0 then None else Some (hd (lists s (PriQueList ?b (CLZ (prioBitmap s ?b))))))"
    using queues_okD(2) [OF assms b(1)] by (intro prio_scan_eq)
  ultimately show ?thesis using False by (simp add: HPFRunqueueTopTaskGet_def base_scan.simps)
qed (simp add: HPFRunqueueTopTaskGet_def base_scan.simps)

lemma CLZ_minimum: "p < 32 \<Longrightarrow> bit w (31 - p) \<Longrightarrow> CLZ w \<le> p"
  unfolding CLZ_def using first_index_least [of p 32 "\<lambda>i. bit w (31 - i)"] by (metis not_le)

lemma HPFTop_spec:
  assumes "queues_ok s"
  shows "case HPFRunqueueTopTaskGet s of
      None \<Rightarrow> \<forall>b < 32. \<forall>p < 32. lists s (PriQueList b p) = []
    | Some t \<Rightarrow> \<exists>b < 32. \<exists>p < 32. \<exists>rest. lists s (PriQueList b p) = t # rest \<and>
        (\<forall>b' < 32. \<forall>p' < 32. lists s (PriQueList b' p') \<noteq> [] \<longrightarrow> b < b' \<or> b = b' \<and> p \<le> p')"
proof (cases "baseBitmap s = 0")
  case True
  have "lists s (PriQueList b p) = []" if "b < 32" "p < 32" for b p
    using queues_okD [OF assms that(1)] that word32_ne_0_iff [of "prioBitmap s b"] True by auto
  then show ?thesis using True HPFTop_eq [OF assms] by simp
next
  case False
  let ?b = "CLZ (baseBitmap s)" let ?p = "CLZ (prioBitmap s ?b)"
  have b: "?b < 32" "bit (baseBitmap s) (31 - ?b)" using CLZ_bit [OF False] by auto
  then have "prioBitmap s ?b \<noteq> 0" using queues_okD(1) [OF assms] by blast
  then have p: "?p < 32" "bit (prioBitmap s ?b) (31 - ?p)" using CLZ_bit by auto
  then have "lists s (PriQueList ?b ?p) \<noteq> []" using queues_okD(2) [OF assms b(1)] by blast
  then obtain t rest where l: "lists s (PriQueList ?b ?p) = t # rest" by (cases "lists s (PriQueList ?b ?p)") auto
  moreover have "?b < b' \<or> ?b = b' \<and> ?p \<le> p'" if "b' < 32" "p' < 32" "lists s (PriQueList b' p') \<noteq> []" for b' p'
  proof -
    have bit': "bit (prioBitmap s b') (31 - p')" using queues_okD(2) [OF assms that(1,2)] that(3) by blast
    then have "bit (baseBitmap s) (31 - b')" using queues_okD(1) [OF assms that(1)] word32_ne_0_iff that(2) by blast
    then have "?b \<le> b'" by (rule CLZ_minimum [OF that(1)])
    moreover have "?p \<le> p'" if "?b = b'" using CLZ_minimum [OF \<open>p' < 32\<close>, of "prioBitmap s b'"] bit' that by simp
    ultimately show ?thesis by linarith
  qed
  moreover have "HPFRunqueueTopTaskGet s = Some t" using HPFTop_eq [OF assms] False l by simp
  ultimately show ?thesis using b(1) p(1) by auto
qed

text \<open>Insertion and deletion keep the bitmaps and counts right.\<close>

definition pri_insert :: "nat \<Rightarrow> nat \<Rightarrow> nat \<Rightarrow> nat \<Rightarrow> 'a kstate_scheme \<Rightarrow> 'a kstate_scheme" where
  "pri_insert k b t p s = pri_que_count b p 1 (upd_task t (\<lambda>c. c\<lparr>pendOn := Some (PriQueList b p)\<rparr>)
    ((pri_que_mark b p s)\<lparr>lists := (lists s)(PriQueList b p := insert_after k t (lists s (PriQueList b p)))\<rparr>))"

lemma pri_que_mark_frame [simp]:
  "lists (pri_que_mark b p s) = lists s" "tcb (pri_que_mark b p s) = tcb s"
  by (simp_all add: pri_que_mark_def Let_def)

lemma PriQueInsert_eqs:
  assumes "pendOn (tcb s t) = None" and "b < 32" and "p < 32"
  shows "PriQueHeadInsert b t p s = Some (pri_insert 0 b t p s)"
    and "PriQueTailInsert b t p s = Some (pri_insert (length (lists s (PriQueList b p))) b t p s)"
  using assms by (simp_all add: PriQueHeadInsert_def PriQueTailInsert_def pend_head_insert_def pend_tail_insert_def
      pend_insert_def pri_insert_def)

lemma pri_insert_frame [simp]:
  "lists (pri_insert k b t p s) = (lists s)(PriQueList b p := insert_after k t (lists s (PriQueList b p)))"
  "tcb (pri_insert k b t p s) = (tcb s)(t := (tcb s t)\<lparr>pendOn := Some (PriQueList b p)\<rparr>)"
  "readyTasks (pri_insert k b t p s) = (readyTasks s)(b := (readyTasks s b)(p := readyTasks s b p + 1))"
  "sortNodes (pri_insert k b t p s) = sortNodes s" "timeoutQueue (pri_insert k b t p s) = timeoutQueue s"
  "currTask (pri_insert k b t p s) = currTask s" "idleTask (pri_insert k b t p s) = idleTask s"
  "clock (pri_insert k b t p s) = clock s" "taskLockCnt (pri_insert k b t p s) = taskLockCnt s"
  "schedFlag (pri_insert k b t p s) = schedFlag s" "cfg (pri_insert k b t p s) = cfg s"
  "intActive (pri_insert k b t p s) = intActive s" "kstate.more (pri_insert k b t p s) = kstate.more s"
  "responseID (pri_insert k b t p s) = responseID s" "rqResponseTime (pri_insert k b t p s) = rqResponseTime s"
  "threadSiblings (pri_insert k b t p s) = threadSiblings s" "taskScheduled (pri_insert k b t p s) = taskScheduled s"
  "prioBitmap (pri_insert k b t p s) = (prioBitmap s)(b := if lists s (PriQueList b p) = []
    then prioBitmap s b OR drop_bit p PRIQUEUE_PRIOR0_BIT else prioBitmap s b)"
  "baseBitmap (pri_insert k b t p s) = (if prioBitmap s b = 0 then baseBitmap s OR drop_bit b PRIQUEUE_PRIOR0_BIT else baseBitmap s)"
  by (simp_all add: pri_insert_def pri_que_mark_def pri_que_count_def Let_def)

lemma insert_after_not_Nil [simp]: "insert_after k t xs \<noteq> []"
  by (simp add: insert_after_def)

lemma queues_ok_pri_insert:
  assumes q: "queues_ok s" and b: "b < 32" and p: "p < 32"
  shows "queues_ok (pri_insert k b t p s)"
proof -
  let ?s = "pri_insert k b t p s"
  have bits: "bit (prioBitmap ?s b') (31 - p') \<longleftrightarrow> lists ?s (PriQueList b' p') \<noteq> []" if "b' < 32" "p' < 32" for b' p'
    using queues_okD(2) [OF q that] that p prior_bit [OF p that(2)] by (auto simp: bit_or_iff)
  have "prioBitmap ?s b' \<noteq> 0 \<longleftrightarrow> b' = b \<or> prioBitmap s b' \<noteq> 0" if "b' < 32" for b'
  proof (cases "b' = b")
    case True
    then show ?thesis using bits [OF b p] word32_ne_0_iff [of "prioBitmap ?s b"] p by auto
  qed simp
  then have "bit (baseBitmap ?s) (31 - b') \<longleftrightarrow> prioBitmap ?s b' \<noteq> 0" if "b' < 32" for b'
    using queues_okD(1) [OF q that] that prior_bit [OF b that] by (auto simp: bit_or_iff)
  moreover have "readyTasks ?s b' p' = of_nat (length (lists ?s (PriQueList b' p')))" if "b' < 32" "p' < 32" for b' p'
    using queues_okD(3) [OF q that] by (auto simp: add.commute)
  ultimately show ?thesis using bits unfolding queues_ok_def by blast
qed

definition pri_delete :: "nat \<Rightarrow> nat \<Rightarrow> nat \<Rightarrow> 'a kstate_scheme \<Rightarrow> 'a kstate_scheme" where
  "pri_delete b t p s = the (PriQueDelete b t p s)"

lemma pri_delete_eq:
  assumes "pendOn (tcb s t) = Some (PriQueList b p)" and "b < 32" and "p < 32"
  shows "PriQueDelete b t p s = Some (pri_delete b t p s)"
  using assms by (simp add: pri_delete_def PriQueDelete_def pend_delete_def Let_def)

lemma pri_delete_frame:
  assumes "pendOn (tcb s t) = Some (PriQueList b p)" and "b < 32" and "p < 32"
  shows "lists (pri_delete b t p s) = (lists s)(PriQueList b p := remove1 t (lists s (PriQueList b p)))"
    "tcb (pri_delete b t p s) = (tcb s)(t := (tcb s t)\<lparr>pendOn := None\<rparr>)"
    "readyTasks (pri_delete b t p s) = (readyTasks s)(b := (readyTasks s b)(p := readyTasks s b p - 1))"
    "sortNodes (pri_delete b t p s) = sortNodes s" "timeoutQueue (pri_delete b t p s) = timeoutQueue s"
    "currTask (pri_delete b t p s) = currTask s" "idleTask (pri_delete b t p s) = idleTask s"
    "clock (pri_delete b t p s) = clock s" "taskLockCnt (pri_delete b t p s) = taskLockCnt s"
    "schedFlag (pri_delete b t p s) = schedFlag s" "cfg (pri_delete b t p s) = cfg s"
    "intActive (pri_delete b t p s) = intActive s" "kstate.more (pri_delete b t p s) = kstate.more s"
    "responseID (pri_delete b t p s) = responseID s" "rqResponseTime (pri_delete b t p s) = rqResponseTime s"
    "threadSiblings (pri_delete b t p s) = threadSiblings s" "taskScheduled (pri_delete b t p s) = taskScheduled s"
    "prioBitmap (pri_delete b t p s) = (prioBitmap s)(b := if remove1 t (lists s (PriQueList b p)) = []
      then prioBitmap s b AND NOT (drop_bit p PRIQUEUE_PRIOR0_BIT) else prioBitmap s b)"
    "baseBitmap (pri_delete b t p s) = (if prioBitmap (pri_delete b t p s) b = 0
      then baseBitmap s AND NOT (drop_bit b PRIQUEUE_PRIOR0_BIT) else baseBitmap s)"
  using assms by (simp_all add: pri_delete_def PriQueDelete_def pend_delete_def pri_que_count_def Let_def)

lemma queues_ok_pri_delete:
  assumes q: "queues_ok s" and on: "pendOn (tcb s t) = Some (PriQueList b p)" and b: "b < 32" and p: "p < 32"
    and t: "t \<in> set (lists s (PriQueList b p))"
  shows "queues_ok (pri_delete b t p s)"
proof -
  let ?s = "pri_delete b t p s"
  note frame = pri_delete_frame [OF on b p]
  have ne: "lists s (PriQueList b p) \<noteq> []" using t by auto
  have bits: "bit (prioBitmap ?s b') (31 - p') \<longleftrightarrow> lists ?s (PriQueList b' p') \<noteq> []" if "b' < 32" "p' < 32" for b' p'
    using queues_okD(2) [OF q that] that p prior_bit [OF p that(2)] ne
    by (auto simp: frame(1,18) bit_and_iff bit_not_iff)
  have "bit (baseBitmap ?s) (31 - b') \<longleftrightarrow> prioBitmap ?s b' \<noteq> 0" if "b' < 32" for b'
  proof (cases "b' = b")
    case True
    have "bit (baseBitmap s) (31 - b)"
      using queues_okD(1,2) [OF q b] word32_ne_0_iff [of "prioBitmap s b"] p ne by blast
    then show ?thesis using True prior_bit [OF b b] b by (auto simp: frame(19) bit_and_iff bit_not_iff)
  next
    case False
    then show ?thesis
      using queues_okD(1) [OF q that] prior_bit [OF b that] that by (auto simp: frame(18,19) bit_and_iff bit_not_iff)
  qed
  moreover have "readyTasks ?s b' p' = of_nat (length (lists ?s (PriQueList b' p')))" if "b' < 32" "p' < 32" for b' p'
  proof -
    obtain n where "length (lists s (PriQueList b p)) = Suc n" using t by (cases "lists s (PriQueList b p)") auto
    then show ?thesis using queues_okD(3) [OF q that] t by (auto simp: frame(1,3) length_remove1)
  qed
  ultimately show ?thesis using bits unfolding queues_ok_def by blast
qed

end
