(* ===== verification/LosDeadline.thy ===== *)
theory LosDeadline
  imports LosSchedState
begin

text \<open>
  The earliest-deadline-first scheduler, \<^verbatim>\<open>kernel/base/sched/los_deadline.c\<close>, and the idle task's
  operations, \<^verbatim>\<open>kernel/base/sched/los_idle.c\<close>: the part that does not switch tasks. A task that has used up
  its budget waits for its next period on \<open>waitList\<close> with a timeout, otherwise it is queued by
  \<open>finishTime\<close> on \<open>root\<close>.
\<close>

section \<open>Deadline scheduler\<close>

definition EDFTimeSliceUpdate :: "nat \<Rightarrow> u64 \<Rightarrow> 'a kstate_scheme \<Rightarrow> 'a kstate_scheme option" where
  "EDFTimeSliceUpdate t currTime s =
    do {
      let c = tcb s t;
      LOS_ASSERT (currTime \<ge> startTime c);
      if sint (timeSlice c) \<le> 0 then Some (upd_task t (\<lambda>c. c\<lparr>irqUsedTime := 0\<rparr>) s)
      else do {
        let incTime = (ucast (currTime - startTime c - ucast (irqUsedTime c)) :: i32);
        LOS_ASSERT (0 \<le> sint incTime);
        let slice = timeSlice c - incTime;
        let s1 = upd_task t (\<lambda>c. c\<lparr>timeSlice := slice, irqUsedTime := 0, startTime := currTime\<rparr>) s;
        if finishTime (sp c) > currTime \<and> 0 < sint slice then Some s1
        else let s2 = s1\<lparr>schedFlag := schedFlag s1 OR INT_PEND_RESCH\<rparr>
             in Some (if finishTime (sp c) \<le> currTime then upd_task t (\<lambda>c. c\<lparr>timeSlice := 0\<rparr>) s2 else s2)
      }
    }"

definition EDFTimeSliceGet :: "nat \<Rightarrow> 'a kstate_scheme \<Rightarrow> u64" where
  "EDFTimeSliceGet t s =
    (let c = tcb s t; endTime = startTime c + scast (timeSlice c)
     in if endTime > finishTime (sp c) then finishTime (sp c) else endTime)"

definition EDFParamCompare :: "SchedPolicy \<Rightarrow> SchedPolicy \<Rightarrow> int" where
  "EDFParamCompare sp1 sp2 = sint (ucast (finishTime sp1 - finishTime sp2) :: i32)"

text \<open>The position of the insertion: \<open>LOS_ListHeadInsert(list, ..)\<close> links the task after \<open>list\<close>, the first queued
  task that compares greater, or after the head itself when there is none.\<close>

fun deadline_pos :: "'a kstate_scheme \<Rightarrow> SchedPolicy \<Rightarrow> nat list \<Rightarrow> nat \<Rightarrow> nat" where
  "deadline_pos s pol [] i = 0"
| "deadline_pos s pol (readyTask # rest) i =
    (if EDFParamCompare (sp (tcb s readyTask)) pol > 0 then i + 1 else deadline_pos s pol rest (i + 1))"

definition DeadlineQueueInsert :: "nat \<Rightarrow> 'a kstate_scheme \<Rightarrow> 'a kstate_scheme option" where
  "DeadlineQueueInsert t s =
    (if lists s EdfRoot = [] then pend_tail_insert EdfRoot t s
     else pend_insert (deadline_pos s (sp (tcb s t)) (lists s EdfRoot) 0) EdfRoot t s)"

text \<open>The loop that looks for the period to run in; it need not stop, for instance for a run time longer
  than the deadline.\<close>

partial_function (option) edf_period_loop :: "u64 \<Rightarrow> u64 \<Rightarrow> i32 \<Rightarrow> u64 \<Rightarrow> u64 \<Rightarrow> u64 option" where
  "edf_period_loop dl per run currTime finish =
    (if finish + dl \<le> currTime \<or> finish + scast run > finish + dl
     then edf_period_loop dl per run currTime (finish + per)
     else Some finish)"

definition EDFEnqueue :: "nat \<Rightarrow> 'a kstate_scheme \<Rightarrow> 'a kstate_scheme option" where
  "EDFEnqueue t s =
    do {
      LOS_ASSERT (\<not> has (status_of s t) OS_TASK_STATUS_READY);
      let pol = sp (tcb s t);
      let enter = (\<lambda>s'. map_option (\<lambda>s2. set_status t OS_TASK_STATUS_READY
          (clr_status t (OS_TASK_STATUS_BLOCKED OR OS_TASK_STATUS_TIMEOUT) s2)) (DeadlineQueueInsert t s'));
      if sint (timeSlice (tcb s t)) \<le> 0
      then do {
        let currTime = clock s;
        let start = (if edfFlags pol = EDF_INIT then currTime
          else if edfFlags pol \<noteq> EDF_NEXT_PERIOD then (finishTime pol - deadline pol) + period pol
          else finishTime pol);
        finish \<leftarrow> edf_period_loop (deadline pol) (period pol) (runTime pol) currTime start;
        let s1 = upd_sp t (\<lambda>p. p\<lparr>finishTime := finish\<rparr>) s;
        if finish > currTime
        then do {
          s2 \<leftarrow> pend_tail_insert EdfWaitList t s1;
          let s3 = upd_task t (\<lambda>c. c\<lparr>waitTime := OS_SCHED_MAX_RESPONSE_TIME\<rparr>) s2;
          s4 \<leftarrow> (if \<not> OsTaskIsRunning (tcb s3 t) then OsSchedTimeoutQueueAdd t finish s3 else Some s3);
          Some (upd_sp t (\<lambda>p. p\<lparr>edfFlags := EDF_NEXT_PERIOD\<rparr>) (set_status t OS_TASK_STATUS_PEND_TIME s4))
        }
        else enter (upd_task t (\<lambda>c. c\<lparr>timeSlice := runTime pol\<rparr>)
          (upd_sp t (\<lambda>p. p\<lparr>finishTime := finish + deadline pol, edfFlags := EDF_UNUSED\<rparr>) s1))
      }
      else enter s
    }"

definition EDFDequeue :: "nat \<Rightarrow> 'a kstate_scheme \<Rightarrow> 'a kstate_scheme option" where
  "EDFDequeue t s = map_option (clr_status t OS_TASK_STATUS_READY) (pend_delete t s)"

definition EDFWaitTimeGet :: "nat \<Rightarrow> 'a kstate_scheme \<Rightarrow> 'a kstate_scheme \<times> u64" where
  "EDFWaitTimeGet t s =
    (let c = tcb s t;
         time = if edfFlags (sp c) \<noteq> EDF_WAIT_FOREVER then waitTime c + startTime c else waitTime c
     in (upd_task t (\<lambda>c. c\<lparr>waitTime := time\<rparr>) s, if time \<ge> finishTime (sp c) then finishTime (sp c) else time))"

definition EDFRunqueueTopTaskGet :: "'a kstate_scheme \<Rightarrow> nat option" where
  "EDFRunqueueTopTaskGet s = (case lists s EdfRoot of [] \<Rightarrow> None | t # _ \<Rightarrow> Some t)"

text \<open>\<open>OS_SYS_US_TO_CYCLE\<close> and \<open>OS_SYS_CYCLE_TO_US\<close> of 64-bit arguments.\<close>

definition OS_SYS_US_TO_CYCLE :: "u32 \<Rightarrow> u64 \<Rightarrow> u64" where
  "OS_SYS_US_TO_CYCLE freq time =
    (time div 1000000) * ucast freq + (time mod 1000000) * ucast freq div 1000000"

definition OS_SYS_CYCLE_TO_US :: "u32 \<Rightarrow> u64 \<Rightarrow> u64" where
  "OS_SYS_CYCLE_TO_US freq cycle =
    (cycle div ucast freq) * 1000000 + cycle mod ucast freq * 1000000 div ucast freq"

definition EDFTaskSchedParamInit :: "nat \<Rightarrow> u16 \<Rightarrow> LosSchedParam \<Rightarrow> 'a kstate_scheme \<Rightarrow> 'a kstate_scheme \<times> u32" where
  "EDFTaskSchedParamInit t pol param s =
    (upd_task t (\<lambda>c. c\<lparr>sp := (sp c)\<lparr>edfFlags := EDF_INIT, policy := pol,
        runTime := ucast (OS_SYS_US_TO_CYCLE (sysClock (cfg s)) (scast (prioOrRunTimeUs param))),
        deadline := usToCycle32 (cfg s) (lspDeadlineUs param),
        period := usToCycle32 (cfg s) (lspPeriodUs param),
        finishTime := 0\<rparr>, timeSlice := 0, ops := g_deadlineOps\<rparr>) s, LOS_OK)"

definition EDFProcessDefaultSchedParamGet :: "SchedParam \<Rightarrow> SchedParam" where
  "EDFProcessDefaultSchedParamGet param =
    param\<lparr>spRunTimeUs := 100, spDeadlineUs := 5000000, spPeriodUs := 5000000\<rparr>"

definition EDFSchedPolicyInit :: "'a kstate_scheme \<Rightarrow> 'a kstate_scheme" where
  "EDFSchedPolicyInit s = s\<lparr>lists := (lists s)(EdfRoot := [], EdfWaitList := [])\<rparr>"

section \<open>Idle task\<close>

definition IdleTimeSliceUpdate :: "nat \<Rightarrow> u64 \<Rightarrow> 'a kstate_scheme \<Rightarrow> 'a kstate_scheme option" where
  "IdleTimeSliceUpdate t currTime s = Some (upd_task t (\<lambda>c. c\<lparr>startTime := currTime\<rparr>) s)"

definition IdleTimeSliceGet :: "nat \<Rightarrow> 'a kstate_scheme \<Rightarrow> u64" where
  "IdleTimeSliceGet t s = OS_SCHED_MAX_RESPONSE_TIME - ucast (tickPrecision (cfg s))"

definition IdleEnqueue :: "nat \<Rightarrow> 'a kstate_scheme \<Rightarrow> 'a kstate_scheme option" where
  "IdleEnqueue t s = Some (set_status t OS_TASK_STATUS_READY (clr_status t OS_TASK_STATUS_BLOCKED s))"

definition IdleDequeue :: "nat \<Rightarrow> 'a kstate_scheme \<Rightarrow> 'a kstate_scheme option" where
  "IdleDequeue t s = Some (clr_status t OS_TASK_STATUS_READY s)"

definition IdleStartToRun :: "nat \<Rightarrow> 'a kstate_scheme \<Rightarrow> 'a kstate_scheme option" where
  "IdleStartToRun t s = IdleDequeue t s"

definition IdleParamCompare :: "SchedPolicy \<Rightarrow> SchedPolicy \<Rightarrow> int" where
  "IdleParamCompare sp1 sp2 = 0"

definition IdleTaskSchedParamInit :: "nat \<Rightarrow> 'a kstate_scheme \<Rightarrow> 'a kstate_scheme" where
  "IdleTaskSchedParamInit t s =
    upd_task t (\<lambda>c. c\<lparr>sp := (sp c)\<lparr>policy := LOS_SCHED_IDLE, basePrio := 31, priority := 31, initTimeSlice := 0\<rparr>,
      timeSlice := 0, taskStatus := OS_TASK_STATUS_SUSPENDED, ops := g_idleOps\<rparr>) s"

end
