(* ===== verification/LosSched.thy ===== *)
theory LosSched
  imports LosPriority LosDeadline
begin

text \<open>
  The scheduler core, \<^verbatim>\<open>kernel/base/sched/los_sched.c\<close>: choosing and switching to the next task, the timer
  programming, the timeout scan of the tick interrupt, and the order of lock waiters; and the task
  level operations of the three policies (\<open>wait\<close>, \<open>wake\<close>, \<open>delay\<close>, \<open>yield\<close>, \<open>suspend\<close>, \<open>resume\<close>, priorities) that
  \<^verbatim>\<open>los_priority.c\<close>, \<^verbatim>\<open>los_deadline.c\<close> and \<^verbatim>\<open>los_idle.c\<close> build on it. A call through a
  task's \<open>ops\<close> table is a case distinction; the entries that are \<open>NULL\<close> are \<open>None\<close>. A blocking call runs up to
  the switch to another task (\<open>WaitBlocked\<close>); what it does when its task runs again is \<open>wait_resume\<close>.
\<close>

section \<open>Calls through the operation table\<close>

definition ops_enqueue :: "nat \<Rightarrow> 'a kstate_scheme \<Rightarrow> 'a kstate_scheme option" where
  "ops_enqueue t s = (case ops (tcb s t) of g_priorityOps \<Rightarrow> HPFEnqueue t s
    | g_deadlineOps \<Rightarrow> EDFEnqueue t s | g_idleOps \<Rightarrow> IdleEnqueue t s)"

definition ops_dequeue :: "nat \<Rightarrow> 'a kstate_scheme \<Rightarrow> 'a kstate_scheme option" where
  "ops_dequeue t s = (case ops (tcb s t) of g_priorityOps \<Rightarrow> HPFDequeue t s
    | g_deadlineOps \<Rightarrow> EDFDequeue t s | g_idleOps \<Rightarrow> IdleDequeue t s)"

definition ops_start :: "nat \<Rightarrow> 'a kstate_scheme \<Rightarrow> 'a kstate_scheme option" where
  "ops_start t s = (case ops (tcb s t) of g_priorityOps \<Rightarrow> HPFStartToRun t s
    | g_deadlineOps \<Rightarrow> EDFDequeue t s | g_idleOps \<Rightarrow> IdleStartToRun t s)"

definition ops_waitTimeGet :: "nat \<Rightarrow> 'a kstate_scheme \<Rightarrow> ('a kstate_scheme \<times> u64) option" where
  "ops_waitTimeGet t s = (case ops (tcb s t) of g_priorityOps \<Rightarrow> Some (HPFWaitTimeGet t s)
    | g_deadlineOps \<Rightarrow> Some (EDFWaitTimeGet t s) | g_idleOps \<Rightarrow> None)"

definition ops_deadlineGet :: "nat \<Rightarrow> 'a kstate_scheme \<Rightarrow> u64" where
  "ops_deadlineGet t s = (case ops (tcb s t) of g_priorityOps \<Rightarrow> HPFTimeSliceGet t s
    | g_deadlineOps \<Rightarrow> EDFTimeSliceGet t s | g_idleOps \<Rightarrow> IdleTimeSliceGet t s)"

definition ops_timeSliceUpdate :: "nat \<Rightarrow> u64 \<Rightarrow> 'a kstate_scheme \<Rightarrow> 'a kstate_scheme option" where
  "ops_timeSliceUpdate t time s = (case ops (tcb s t) of g_priorityOps \<Rightarrow> HPFTimeSliceUpdate t time s
    | g_deadlineOps \<Rightarrow> EDFTimeSliceUpdate t time s | g_idleOps \<Rightarrow> IdleTimeSliceUpdate t time s)"

definition ops_schedParamCompare :: "SchedOps \<Rightarrow> SchedPolicy \<Rightarrow> SchedPolicy \<Rightarrow> int" where
  "ops_schedParamCompare o1 sp1 sp2 = (case o1 of g_priorityOps \<Rightarrow> HPFParamCompare sp1 sp2
    | g_deadlineOps \<Rightarrow> EDFParamCompare sp1 sp2 | g_idleOps \<Rightarrow> IdleParamCompare sp1 sp2)"

section \<open>Timer programming\<close>

definition SchedNextExpireTimeSet :: "u32 \<Rightarrow> u64 \<Rightarrow> u32 \<Rightarrow> 'a kstate_scheme \<Rightarrow> 'a kstate_scheme" where
  "SchedNextExpireTimeSet respID taskEndTime oldResponseID s =
    (let currTime = clock s;
         expire = OsGetSortLinkNextExpireTime (sortNodes s) (timeoutQueue s) currTime (tickPrecision (cfg s));
         s1 = s\<lparr>schedFlag := schedFlag s AND NOT INT_PEND_TICK\<rparr>;
         s2 = (if responseID s1 = oldResponseID then s1\<lparr>rqResponseTime := OS_SCHED_MAX_RESPONSE_TIME\<rparr> else s1);
         isTimeSlice = (expire > taskEndTime \<and> expire - taskEndTime > ucast (schedMiniPeriod (cfg s)));
         nextExpireTime = (if isTimeSlice then taskEndTime else expire)
     in if rqResponseTime s2 \<le> nextExpireTime \<or> rqResponseTime s2 - nextExpireTime < ucast (tickPrecision (cfg s)) then s2
        else s2\<lparr>responseID := if isTimeSlice then respID else OS_INVALID_VALUE,
                rqResponseTime := currTime + HalClockTickTimerReload (cfg s) (nextExpireTime - currTime)\<rparr>)"

definition OsSchedExpireTimeUpdate :: "'a kstate_scheme \<Rightarrow> 'a kstate_scheme" where
  "OsSchedExpireTimeUpdate s =
    (if \<not> taskScheduled s \<or> intActive s then OsSchedRunqueuePendingSet s
     else SchedNextExpireTimeSet (of_nat (currTask s)) (ops_deadlineGet (currTask s) s) (of_nat (currTask s)) s)"

section \<open>Timeouts\<close>

definition SchedTimeoutTaskWake :: "u64 \<Rightarrow> nat \<Rightarrow> bool \<Rightarrow> 'a kstate_scheme \<Rightarrow> ('a kstate_scheme \<times> bool) option" where
  "SchedTimeoutTaskWake currTime t needSched s =
    do {
      let s1 = (if OsSchedPolicyIsEDF (tcb s t)
        then let s' = (if finishTime (sp (tcb s t)) \<le> currTime then upd_task t (\<lambda>c. c\<lparr>timeSlice := 0\<rparr>) s else s)
             in if edfFlags (sp (tcb s' t)) = EDF_WAIT_FOREVER
                then upd_sp t (\<lambda>p. p\<lparr>edfFlags := EDF_UNUSED\<rparr>) (clr_status t OS_TASK_STATUS_PEND_TIME s') else s'
        else s);
      let tempStatus = status_of s1 t;
      if has tempStatus (OS_TASK_STATUS_PEND_TIME OR OS_TASK_STATUS_DELAY)
      then do {
        let s2 = clr_status t (OS_TASK_STATUS_PENDING OR OS_TASK_STATUS_PEND_TIME OR OS_TASK_STATUS_DELAY) s1;
        s3 \<leftarrow> (if has tempStatus OS_TASK_STATUS_PEND_TIME
          then map_option (\<lambda>s'. OsTaskWakeClearPendMask t (upd_task t (\<lambda>c. c\<lparr>taskMux := None\<rparr>) s'))
            (pend_delete t (set_status t OS_TASK_STATUS_TIMEOUT s2))
          else Some s2);
        if \<not> has tempStatus OS_TASK_STATUS_SUSPENDED
        then map_option (\<lambda>s'. (s', True)) (ops_enqueue t s3)
        else Some (s3, needSched)
      }
      else Some (s1, needSched)
    }"

partial_function (option) timeout_loop :: "u64 \<Rightarrow> bool \<Rightarrow> 'a kstate_scheme \<Rightarrow> ('a kstate_scheme \<times> bool) option" where
  "timeout_loop currTime needSched s =
    (case sortLink (timeoutQueue s) of
       [] \<Rightarrow> Some (s, needSched)
     | t # _ \<Rightarrow>
         if responseTime (sortNodes s t) \<le> currTime
         then do {
           (nodes, h) \<leftarrow> OsDeleteNodeSortLink (sortNodes s) (timeoutQueue s) t;
           (s1, ns) \<leftarrow> SchedTimeoutTaskWake currTime t needSched (s\<lparr>sortNodes := nodes, timeoutQueue := h\<rparr>);
           timeout_loop currTime ns s1
         }
         else Some (s, needSched))"

definition SchedTimeoutQueueScan :: "'a kstate_scheme \<Rightarrow> ('a kstate_scheme \<times> bool) option" where
  "SchedTimeoutQueueScan s = timeout_loop (clock s) False s"

definition OsSchedTick :: "'a kstate_scheme \<Rightarrow> 'a kstate_scheme option" where
  "OsSchedTick s =
    do {
      s1 \<leftarrow> (if responseID s = OS_INVALID_VALUE
        then do {
          (s', needSched) \<leftarrow> SchedTimeoutQueueScan s;
          Some (if needSched then s'\<lparr>schedFlag := schedFlag s' OR INT_PEND_RESCH\<rparr> else s')
        }
        else Some s);
      Some (s1\<lparr>schedFlag := schedFlag s1 OR INT_PEND_TICK, rqResponseTime := OS_SCHED_MAX_RESPONSE_TIME\<rparr>)
    }"

definition OsSchedResponseTimeReset :: "u64 \<Rightarrow> 'a kstate_scheme \<Rightarrow> 'a kstate_scheme" where
  "OsSchedResponseTimeReset time s = s\<lparr>rqResponseTime := time\<rparr>"

definition OsSchedRunqueueInit :: "'a kstate_scheme \<Rightarrow> 'a kstate_scheme" where
  "OsSchedRunqueueInit s = s\<lparr>timeoutQueue := OsSortLinkInit (timeoutQueue s), rqResponseTime := OS_SCHED_MAX_RESPONSE_TIME\<rparr>"

definition OsSchedRunqueueIdleInit :: "nat \<Rightarrow> 'a kstate_scheme \<Rightarrow> 'a kstate_scheme" where
  "OsSchedRunqueueIdleInit t s = s\<lparr>idleTask := t\<rparr>"

definition OsSchedInit :: "'a kstate_scheme \<Rightarrow> 'a kstate_scheme \<times> u32" where
  "OsSchedInit s = (HPFSchedPolicyInit (EDFSchedPolicyInit s), LOS_OK)"

section \<open>Parameters\<close>

definition OsSchedParamCompare :: "LosTaskCB \<Rightarrow> LosTaskCB \<Rightarrow> int" where
  "OsSchedParamCompare task1 task2 =
    (if policy (sp task1) = policy (sp task2) then ops_schedParamCompare (ops task1) (sp task1) (sp task2)
     else if policy (sp task1) = LOS_SCHED_IDLE then 1
     else if policy (sp task2) = LOS_SCHED_IDLE then -1
     else 0)"

text \<open>\<open>param\<close> may be \<open>NULL\<close>; the deadline policy requires it.\<close>

definition OsSchedParamInit :: "nat \<Rightarrow> u16 \<Rightarrow> SchedParam \<Rightarrow> LosSchedParam option \<Rightarrow> 'a kstate_scheme
    \<Rightarrow> ('a kstate_scheme \<times> u32) option" where
  "OsSchedParamInit t pol parentParam param s =
    (if pol = LOS_SCHED_FIFO \<or> pol = LOS_SCHED_RR
     then Some (HPFTaskSchedParamInit t pol parentParam (map_option (\<lambda>p. ucast (prioOrRunTimeUs p)) param) s, LOS_OK)
     else if pol = LOS_SCHED_DEADLINE
     then map_option (\<lambda>p. EDFTaskSchedParamInit t pol p s) param
     else if pol = LOS_SCHED_IDLE then Some (IdleTaskSchedParamInit t s, LOS_OK)
     else Some (s, LOS_NOK))"

definition OsSchedProcessDefaultSchedParamGet :: "u16 \<Rightarrow> SchedParam \<Rightarrow> SchedParam" where
  "OsSchedProcessDefaultSchedParamGet pol param =
    (if pol = LOS_SCHED_FIFO \<or> pol = LOS_SCHED_RR then HPFProcessDefaultSchedParamGet param
     else if pol = LOS_SCHED_DEADLINE then EDFProcessDefaultSchedParamGet param
     else param)"

section \<open>Choosing and switching tasks\<close>

definition TopTaskGet :: "'a kstate_scheme \<Rightarrow> ('a kstate_scheme \<times> nat) option" where
  "TopTaskGet s =
    (let newTask = (case EDFRunqueueTopTaskGet s of Some t \<Rightarrow> t
       | None \<Rightarrow> (case HPFRunqueueTopTaskGet s of Some t \<Rightarrow> t | None \<Rightarrow> idleTask s))
     in map_option (\<lambda>s'. (s', newTask)) (ops_start newTask s))"

definition SchedTaskSwitch :: "nat \<Rightarrow> nat \<Rightarrow> 'a kstate_scheme \<Rightarrow> 'a kstate_scheme option" where
  "SchedTaskSwitch runTask newTask s =
    do {
      let s1 = set_status newTask OS_TASK_STATUS_RUNNING (clr_status runTask OS_TASK_STATUS_RUNNING s);
      let s2 = s1\<lparr>currTask := newTask\<rparr>;
      s3 \<leftarrow> (if has (status_of s2 runTask) OS_TASK_STATUS_READY
        then Some (upd_task newTask (\<lambda>c. c\<lparr>startTime := startTime (tcb s2 runTask)\<rparr>) s2)
        else do {
          let s' = upd_task newTask (\<lambda>c. c\<lparr>startTime := clock s2\<rparr>) s2;
          s4 \<leftarrow> ops_timeSliceUpdate runTask (startTime (tcb s' newTask)) s';
          if has (status_of s4 runTask) (OS_TASK_STATUS_PEND_TIME OR OS_TASK_STATUS_DELAY)
          then do {
            (s5, time) \<leftarrow> ops_waitTimeGet runTask s4;
            OsSchedTimeoutQueueAdd runTask time s5
          }
          else Some s4
        });
      Some (SchedNextExpireTimeSet (of_nat newTask) (ops_deadlineGet newTask s3) (of_nat runTask) s3)
    }"

definition OsSchedResched :: "'a kstate_scheme \<Rightarrow> 'a kstate_scheme option" where
  "OsSchedResched s =
    do {
      LOS_ASSERT (taskLockCnt s = 0);
      let runTask = currTask s;
      (s1, newTask) \<leftarrow> TopTaskGet (s\<lparr>schedFlag := schedFlag s AND NOT INT_PEND_RESCH\<rparr>);
      if runTask = newTask then Some s1 else SchedTaskSwitch runTask newTask s1
    }"

definition OsSchedIrqEndCheckNeedSched :: "'a kstate_scheme \<Rightarrow> 'a kstate_scheme option" where
  "OsSchedIrqEndCheckNeedSched s =
    do {
      let runTask = currTask s;
      s1 \<leftarrow> ops_timeSliceUpdate runTask (clock s) s;
      let (s2, preemptable) = OsPreemptable s1;
      let tick = (\<lambda>s'. if has (schedFlag s') INT_PEND_TICK then OsSchedExpireTimeUpdate s' else s');
      if preemptable \<and> has (schedFlag s2) INT_PEND_RESCH
      then do {
        s3 \<leftarrow> ops_enqueue runTask (s2\<lparr>schedFlag := schedFlag s2 AND NOT INT_PEND_RESCH\<rparr>);
        (s4, newTask) \<leftarrow> TopTaskGet s3;
        if runTask \<noteq> newTask then SchedTaskSwitch runTask newTask s4 else Some (tick s4)
      }
      else Some (tick s2)
    }"

definition LOS_Schedule :: "'a kstate_scheme \<Rightarrow> 'a kstate_scheme option" where
  "LOS_Schedule s =
    (if intActive s then Some (OsSchedRunqueuePendingSet s)
     else case OsPreemptable s of
       (s1, False) \<Rightarrow> Some s1
     | (s1, True) \<Rightarrow>
         do {
           s2 \<leftarrow> ops_timeSliceUpdate (currTask s) (clock s1) s1;
           s3 \<leftarrow> ops_enqueue (currTask s) s2;
           OsSchedResched s3
         })"

section \<open>Order of lock waiters\<close>

text \<open>A position in a wait list is the number of the element a new waiter is linked before. The search walks
  the list; \<open>None\<close> is \<open>NULL\<close>.\<close>

fun SchedLockPendFindPosSub :: "(nat \<Rightarrow> LosTaskCB) \<Rightarrow> LosTaskCB \<Rightarrow> nat list \<Rightarrow> nat \<Rightarrow> nat option" where
  "SchedLockPendFindPosSub tcbs runTask [] i = None"
| "SchedLockPendFindPosSub tcbs runTask (pendedTask # rest) i =
    (let ret = OsSchedParamCompare (tcbs pendedTask) runTask
     in if ret < 0 then SchedLockPendFindPosSub tcbs runTask rest (i + 1)
        else if ret > 0 then Some i
        else Some (i + 1))"

definition OsSchedLockPendFindPos :: "(nat \<Rightarrow> LosTaskCB) \<Rightarrow> LosTaskCB \<Rightarrow> nat list \<Rightarrow> nat option" where
  "OsSchedLockPendFindPos tcbs runTask lockList =
    (if lockList = [] then Some 0
     else if OsSchedParamCompare (tcbs (hd lockList)) runTask > 0 then Some 0
     else if OsSchedParamCompare (tcbs (last lockList)) runTask \<le> 0 then Some (length lockList)
     else SchedLockPendFindPosSub tcbs runTask lockList 0)"

end
