(* ===== verification/LosSchedOps.thy ===== *)
theory LosSchedOps
  imports LosSched
begin

text \<open>
  The task level operations of the three scheduling policies: waiting and waking, delays, yielding, exit, suspend and
  resume, parameters and priority inheritance (\<^verbatim>\<open>los_priority.c\<close>, \<^verbatim>\<open>los_deadline.c\<close>,
  \<^verbatim>\<open>los_idle.c\<close>). A wait links the running task before the \<open>k\<close>-th element of a list, so the list head itself
  is position \<open>length\<close>, and runs up to the switch to another task; \<open>wait_resume\<close> is the rest of the call, run when
  the task is running again.
\<close>

section \<open>Waiting\<close>

datatype wait_result = WaitBlocked | WaitRet u32

definition OS_SCHED_TICK_TO_CYCLE :: "u32 \<Rightarrow> 'a kstate_scheme \<Rightarrow> u64" where
  "OS_SCHED_TICK_TO_CYCLE ticks s = ucast ticks * ucast (cyclePerTick (cfg s))"

definition wait_resume :: "nat \<Rightarrow> 'a kstate_scheme \<Rightarrow> 'a kstate_scheme \<times> u32" where
  "wait_resume t s =
    (if has (status_of s t) OS_TASK_STATUS_TIMEOUT
     then (clr_status t OS_TASK_STATUS_TIMEOUT s, LOS_ERRNO_TSK_TIMEOUT) else (s, LOS_OK))"

definition wait_resched :: "nat \<Rightarrow> 'a kstate_scheme \<Rightarrow> ('a kstate_scheme \<times> wait_result) option" where
  "wait_resched runTask s =
    (case OsPreemptableInSched s of
       (s1, False) \<Rightarrow> Some (s1, WaitRet LOS_OK)
     | (s1, True) \<Rightarrow>
         do {
           s2 \<leftarrow> OsSchedResched s1;
           Some (if currTask s2 = runTask then (case wait_resume runTask s2 of (s3, ret) \<Rightarrow> (s3, WaitRet ret))
                 else (s2, WaitBlocked))
         })"

definition HPFWait :: "nat \<Rightarrow> listHead \<Rightarrow> nat \<Rightarrow> u32 \<Rightarrow> 'a kstate_scheme \<Rightarrow> ('a kstate_scheme \<times> wait_result) option" where
  "HPFWait runTask h k ticks s =
    do {
      s1 \<leftarrow> pend_insert k h runTask (set_status runTask OS_TASK_STATUS_PENDING s);
      let s2 = (if ticks \<noteq> LOS_WAIT_FOREVER
        then upd_task runTask (\<lambda>c. c\<lparr>waitTime := OS_SCHED_TICK_TO_CYCLE ticks s1\<rparr>) (set_status runTask OS_TASK_STATUS_PEND_TIME s1)
        else s1);
      wait_resched runTask s2
    }"

definition EDFWait :: "nat \<Rightarrow> listHead \<Rightarrow> nat \<Rightarrow> u32 \<Rightarrow> 'a kstate_scheme \<Rightarrow> ('a kstate_scheme \<times> wait_result) option" where
  "EDFWait runTask h k ticks s =
    do {
      s1 \<leftarrow> pend_insert k h runTask (set_status runTask (OS_TASK_STATUS_PENDING OR OS_TASK_STATUS_PEND_TIME) s);
      let s2 = (if ticks \<noteq> LOS_WAIT_FOREVER
        then upd_task runTask (\<lambda>c. c\<lparr>waitTime := OS_SCHED_TICK_TO_CYCLE ticks s1\<rparr>) s1
        else upd_task runTask (\<lambda>c. c\<lparr>waitTime := OS_SCHED_MAX_RESPONSE_TIME\<rparr>)
          (upd_sp runTask (\<lambda>p. p\<lparr>edfFlags := EDF_WAIT_FOREVER\<rparr>) s1));
      wait_resched runTask s2
    }"

definition IdleWait :: "nat \<Rightarrow> listHead \<Rightarrow> nat \<Rightarrow> u32 \<Rightarrow> 'a kstate_scheme \<Rightarrow> ('a kstate_scheme \<times> wait_result) option" where
  "IdleWait runTask h k ticks s = Some (s, WaitRet LOS_NOK)"

definition ops_wait :: "nat \<Rightarrow> listHead \<Rightarrow> nat \<Rightarrow> u32 \<Rightarrow> 'a kstate_scheme \<Rightarrow> ('a kstate_scheme \<times> wait_result) option" where
  "ops_wait t h k ticks s = (case ops (tcb s t) of g_priorityOps \<Rightarrow> HPFWait t h k ticks s
    | g_deadlineOps \<Rightarrow> EDFWait t h k ticks s | g_idleOps \<Rightarrow> IdleWait t h k ticks s)"

section \<open>Waking\<close>

text \<open>The three policies unlink the task and cancel its timeout in the same way; \<open>enq\<close> is their enqueue.\<close>

definition wake_with :: "(nat \<Rightarrow> 'a kstate_scheme \<Rightarrow> 'a kstate_scheme option) \<Rightarrow> nat \<Rightarrow> 'a kstate_scheme
    \<Rightarrow> 'a kstate_scheme option" where
  "wake_with enq t s =
    do {
      s1 \<leftarrow> pend_delete t s;
      let s2 = clr_status t OS_TASK_STATUS_PENDING s1;
      s3 \<leftarrow> (if has (status_of s2 t) OS_TASK_STATUS_PEND_TIME
        then map_option (clr_status t OS_TASK_STATUS_PEND_TIME) (OsSchedTimeoutQueueDelete t s2) else Some s2);
      if \<not> has (status_of s3 t) OS_TASK_STATUS_SUSPENDED then enq t s3 else Some s3
    }"

definition HPFWake :: "nat \<Rightarrow> 'a kstate_scheme \<Rightarrow> 'a kstate_scheme option" where
  "HPFWake t s = wake_with HPFEnqueue t s"

definition EDFWake :: "nat \<Rightarrow> 'a kstate_scheme \<Rightarrow> 'a kstate_scheme option" where
  "EDFWake t s = wake_with EDFEnqueue t s"

definition IdleWake :: "nat \<Rightarrow> 'a kstate_scheme \<Rightarrow> 'a kstate_scheme option" where
  "IdleWake t s = wake_with ops_enqueue t s"

definition ops_wake :: "nat \<Rightarrow> 'a kstate_scheme \<Rightarrow> 'a kstate_scheme option" where
  "ops_wake t s = (case ops (tcb s t) of g_priorityOps \<Rightarrow> HPFWake t s
    | g_deadlineOps \<Rightarrow> EDFWake t s | g_idleOps \<Rightarrow> IdleWake t s)"

section \<open>Delay, yield, exit\<close>

definition HPFDelay :: "nat \<Rightarrow> u64 \<Rightarrow> 'a kstate_scheme \<Rightarrow> ('a kstate_scheme \<times> u32) option" where
  "HPFDelay runTask time s =
    map_option (\<lambda>s'. (s', LOS_OK))
      (OsSchedResched (upd_task runTask (\<lambda>c. c\<lparr>waitTime := time\<rparr>) (set_status runTask OS_TASK_STATUS_DELAY s)))"

definition EDFDelay :: "nat \<Rightarrow> u64 \<Rightarrow> 'a kstate_scheme \<Rightarrow> ('a kstate_scheme \<times> u32) option" where
  "EDFDelay runTask time s =
    map_option (\<lambda>s'. (s', LOS_OK))
      (OsSchedResched (upd_task runTask (\<lambda>c. c\<lparr>waitTime := time\<rparr>) (set_status runTask OS_TASK_STATUS_DELAY s)))"

definition HPFYield :: "nat \<Rightarrow> 'a kstate_scheme \<Rightarrow> 'a kstate_scheme option" where
  "HPFYield runTask s =
    do {
      s1 \<leftarrow> HPFEnqueue runTask (upd_task runTask (\<lambda>c. c\<lparr>timeSlice := 0, startTime := clock s\<rparr>) s);
      OsSchedResched s1
    }"

definition EDFYield :: "nat \<Rightarrow> 'a kstate_scheme \<Rightarrow> 'a kstate_scheme option" where
  "EDFYield runTask s =
    do {
      s1 \<leftarrow> EDFEnqueue runTask (upd_task runTask (\<lambda>c. c\<lparr>timeSlice := 0, startTime := clock s\<rparr>) s);
      OsSchedResched s1
    }"

definition IdleYield :: "nat \<Rightarrow> 'a kstate_scheme \<Rightarrow> 'a kstate_scheme option" where
  "IdleYield runTask s = Some s"

definition exit_with :: "(nat \<Rightarrow> 'a kstate_scheme \<Rightarrow> 'a kstate_scheme option) \<Rightarrow> nat \<Rightarrow> 'a kstate_scheme
    \<Rightarrow> 'a kstate_scheme option" where
  "exit_with deq t s =
    do {
      s1 \<leftarrow> (if has (status_of s t) OS_TASK_STATUS_READY then deq t s
        else if has (status_of s t) OS_TASK_STATUS_PENDING
        then map_option (clr_status t OS_TASK_STATUS_PENDING) (pend_delete t s)
        else Some s);
      if has (status_of s1 t) (OS_TASK_STATUS_DELAY OR OS_TASK_STATUS_PEND_TIME)
      then map_option (clr_status t (OS_TASK_STATUS_DELAY OR OS_TASK_STATUS_PEND_TIME)) (OsSchedTimeoutQueueDelete t s1)
      else Some s1
    }"

definition HPFExit :: "nat \<Rightarrow> 'a kstate_scheme \<Rightarrow> 'a kstate_scheme option" where
  "HPFExit t s = exit_with HPFDequeue t s"

definition EDFExit :: "nat \<Rightarrow> 'a kstate_scheme \<Rightarrow> 'a kstate_scheme option" where
  "EDFExit t s = exit_with EDFDequeue t s"

section \<open>Suspend and resume\<close>

definition HPFSuspend :: "nat \<Rightarrow> 'a kstate_scheme \<Rightarrow> ('a kstate_scheme \<times> u32) option" where
  "HPFSuspend t s =
    do {
      s1 \<leftarrow> (if has (status_of s t) OS_TASK_STATUS_READY then HPFDequeue t s else Some s);
      s2 \<leftarrow> SchedTaskFreeze t s1;
      let s3 = set_status t OS_TASK_STATUS_SUSPENDED s2;
      s4 \<leftarrow> (if t = currTask s3 then OsSchedResched s3 else Some s3);
      Some (s4, LOS_OK)
    }"

definition HPFResume :: "nat \<Rightarrow> 'a kstate_scheme \<Rightarrow> ('a kstate_scheme \<times> bool \<times> u32) option" where
  "HPFResume t s =
    do {
      s1 \<leftarrow> SchedTaskUnfreeze t s;
      let s2 = clr_status t OS_TASK_STATUS_SUSPENDED s1;
      if \<not> OsTaskIsBlocked (tcb s2 t) then map_option (\<lambda>s'. (s', True, LOS_OK)) (HPFEnqueue t s2)
      else Some (s2, False, LOS_OK)
    }"

definition IdleResume :: "nat \<Rightarrow> 'a kstate_scheme \<Rightarrow> ('a kstate_scheme \<times> bool \<times> u32) option" where
  "IdleResume t s =
    (let s1 = clr_status t OS_TASK_STATUS_SUSPENDED s
     in if \<not> OsTaskIsBlocked (tcb s1 t) then map_option (\<lambda>s'. (s', True, LOS_OK)) (ops_enqueue t s1)
        else Some (s1, False, LOS_OK))"

definition EDFSuspend :: "nat \<Rightarrow> 'a kstate_scheme \<Rightarrow> ('a kstate_scheme \<times> u32) option" where
  "EDFSuspend t s = Some (s, LOS_EOPNOTSUPP)"

text \<open>\<open>EDFResume\<close> leaves \<open>*needSched\<close> alone.\<close>

definition EDFResume :: "nat \<Rightarrow> bool \<Rightarrow> 'a kstate_scheme \<Rightarrow> ('a kstate_scheme \<times> bool \<times> u32) option" where
  "EDFResume t needSched s = Some (s, needSched, LOS_EOPNOTSUPP)"

section \<open>Scheduling parameters\<close>

fun base_prio_loop :: "nat list \<Rightarrow> u16 \<Rightarrow> bool \<Rightarrow> 'a kstate_scheme \<Rightarrow> ('a kstate_scheme \<times> bool) option" where
  "base_prio_loop [] prio needSched s = Some (s, needSched)"
| "base_prio_loop (t # ts) prio needSched s =
    do {
      s1 \<leftarrow> (if has (status_of s t) OS_TASK_STATUS_READY
        then do {
          s' \<leftarrow> ops_dequeue t s;
          ops_enqueue t (upd_sp t (\<lambda>p. p\<lparr>basePrio := prio\<rparr>) s')
        }
        else Some (upd_sp t (\<lambda>p. p\<lparr>basePrio := prio\<rparr>) s));
      base_prio_loop ts prio (has (status_of s1 t) (OS_TASK_STATUS_READY OR OS_TASK_STATUS_RUNNING) \<or> needSched) s1
    }"

definition BasePriorityModify :: "nat \<Rightarrow> u16 \<Rightarrow> 'a kstate_scheme \<Rightarrow> ('a kstate_scheme \<times> bool) option" where
  "BasePriorityModify t prio s = base_prio_loop (threadSiblings s (processCB (tcb s t))) prio False s"

definition HPFSchedParamModify :: "nat \<Rightarrow> SchedParam \<Rightarrow> 'a kstate_scheme \<Rightarrow> ('a kstate_scheme \<times> bool) option" where
  "HPFSchedParamModify t param s =
    do {
      let s1 = (if policy (sp (tcb s t)) \<noteq> spPolicy param
        then upd_task t (\<lambda>c. c\<lparr>sp := (sp c)\<lparr>policy := spPolicy param\<rparr>, timeSlice := 0\<rparr>) s else s);
      (s2, needSched) \<leftarrow> (if basePrio (sp (tcb s1 t)) \<noteq> spBasePrio param
        then BasePriorityModify t (spBasePrio param) s1 else Some (s1, False));
      let setPrio = upd_sp t (\<lambda>p. p\<lparr>priority := spPriority param\<rparr>);
      if has (status_of s2 t) OS_TASK_STATUS_READY
      then do {
        s3 \<leftarrow> HPFDequeue t s2;
        s4 \<leftarrow> HPFEnqueue t (setPrio s3);
        Some (s4, True)
      }
      else do {
        let s3 = setPrio s2;
        if has (status_of s3 t) OS_TASK_STATUS_INIT then map_option (\<lambda>s'. (s', True)) (HPFEnqueue t s3)
        else if has (status_of s3 t) OS_TASK_STATUS_RUNNING then Some (s3, True)
        else Some (s3, needSched)
      }
    }"

definition EDFSchedParamModify :: "nat \<Rightarrow> SchedParam \<Rightarrow> 'a kstate_scheme \<Rightarrow> ('a kstate_scheme \<times> bool) option" where
  "EDFSchedParamModify t param s =
    do {
      let s1 = upd_task t (\<lambda>c. c\<lparr>timeSlice := 0, sp := (sp c)\<lparr>
        runTime := ucast (usToCycle32 (cfg s) (spRunTimeUs param)), period := usToCycle32 (cfg s) (spPeriodUs param)\<rparr>\<rparr>) s;
      let setDeadline = upd_sp t (\<lambda>p. p\<lparr>deadline := usToCycle32 (cfg s) (spDeadlineUs param)\<rparr>);
      if has (status_of s1 t) OS_TASK_STATUS_READY
      then do {
        s2 \<leftarrow> EDFDequeue t s1;
        s3 \<leftarrow> EDFEnqueue t (setDeadline s2);
        Some (s3, True)
      }
      else do {
        let s2 = setDeadline s1;
        if has (status_of s2 t) OS_TASK_STATUS_INIT then map_option (\<lambda>s'. (s', True)) (EDFEnqueue t s2)
        else Some (s2, has (status_of s2 t) OS_TASK_STATUS_RUNNING)
      }
    }"

definition HPFSchedParamGet :: "nat \<Rightarrow> SchedParam \<Rightarrow> 'a kstate_scheme \<Rightarrow> SchedParam \<times> u32" where
  "HPFSchedParamGet t param s =
    (let p = sp (tcb s t)
     in (param\<lparr>spPolicy := policy p, spBasePrio := basePrio p, spPriority := priority p, spTimeSlice := initTimeSlice p\<rparr>,
       LOS_OK))"

definition IdleSchedParamGet :: "nat \<Rightarrow> SchedParam \<Rightarrow> 'a kstate_scheme \<Rightarrow> SchedParam \<times> u32" where
  "IdleSchedParamGet t param s =
    (let p = sp (tcb s t)
     in (param\<lparr>spPolicy := policy p, spBasePrio := basePrio p, spPriority := priority p, spTimeSlice := 0\<rparr>, LOS_OK))"

definition EDFSchedParamGet :: "nat \<Rightarrow> SchedParam \<Rightarrow> 'a kstate_scheme \<Rightarrow> SchedParam \<times> u32" where
  "EDFSchedParamGet t param s =
    (let p = sp (tcb s t); f = sysClock (cfg s)
     in (param\<lparr>spPolicy := policy p, spRunTimeUs := ucast (OS_SYS_CYCLE_TO_US f (scast (runTime p))),
       spDeadlineUs := ucast (OS_SYS_CYCLE_TO_US f (deadline p)), spPeriodUs := ucast (OS_SYS_CYCLE_TO_US f (period p))\<rparr>,
       LOS_OK))"

definition ops_schedParamGet :: "nat \<Rightarrow> SchedParam \<Rightarrow> 'a kstate_scheme \<Rightarrow> SchedParam \<times> u32" where
  "ops_schedParamGet t param s = (case ops (tcb s t) of g_priorityOps \<Rightarrow> HPFSchedParamGet t param s
    | g_deadlineOps \<Rightarrow> EDFSchedParamGet t param s | g_idleOps \<Rightarrow> IdleSchedParamGet t param s)"

section \<open>Priority inheritance\<close>

definition is_hpf_param :: "SchedParam \<Rightarrow> bool" where
  "is_hpf_param param \<longleftrightarrow> spPolicy param = LOS_SCHED_RR \<or> spPolicy param = LOS_SCHED_FIFO"

definition HPFPriorityInheritance :: "nat \<Rightarrow> SchedParam \<Rightarrow> 'a kstate_scheme \<Rightarrow> 'a kstate_scheme" where
  "HPFPriorityInheritance owner param s =
    (if \<not> is_hpf_param param then s
     else if priority (sp (tcb s owner)) \<le> spPriority param then s
     else upd_sp owner (\<lambda>p. p\<lparr>priBitmap := the (LOS_BitmapSet (Some (priBitmap p)) (priority p)),
       priority := spPriority param\<rparr>) s)"

text \<open>\<open>clear_pended\<close> is the loop over the waiters of the released lock; \<open>list\<close> may be \<open>NULL\<close>.\<close>

fun clear_pended :: "(nat \<Rightarrow> LosTaskCB) \<Rightarrow> SchedOps \<Rightarrow> nat \<Rightarrow> nat list \<Rightarrow> u32 \<Rightarrow> u32" where
  "clear_pended tcbs ownerOps prio [] bm = bm"
| "clear_pended tcbs ownerOps prio (t # ts) bm =
    clear_pended tcbs ownerOps prio ts
      (if ops (tcbs t) = ownerOps \<and> prio \<noteq> unat (priority (sp (tcbs t)))
       then the (LOS_BitmapClr (Some bm) (priority (sp (tcbs t)))) else bm)"

definition HPFPriorityRestore :: "nat \<Rightarrow> nat list option \<Rightarrow> SchedParam \<Rightarrow> 'a kstate_scheme \<Rightarrow> 'a kstate_scheme" where
  "HPFPriorityRestore owner waiters param s =
    (if \<not> is_hpf_param param then s
     else let p = sp (tcb s owner)
     in if priority p < spPriority param
        then if LOS_HighBitGet (priBitmap p) \<noteq> unat (spPriority param)
             then upd_sp owner (\<lambda>p. p\<lparr>priBitmap := the (LOS_BitmapClr (Some (priBitmap p)) (spPriority param))\<rparr>) s
             else s
        else if priBitmap p = 0 then s
        else let bm = (case waiters of
                 Some (w # ws) \<Rightarrow> clear_pended (tcb s) (ops (tcb s owner)) (LOS_HighBitGet (priBitmap p)) (w # ws) (priBitmap p)
               | _ \<Rightarrow> priBitmap p);
                 prio = LOS_LowBitGet bm
             in if prio \<noteq> LOS_INVALID_BIT_INDEX
                then upd_sp owner (\<lambda>p. p\<lparr>priBitmap := the (LOS_BitmapClr (Some bm) (of_nat prio)), priority := of_nat prio\<rparr>) s
                else upd_sp owner (\<lambda>p. p\<lparr>priBitmap := bm\<rparr>) s)"

definition ops_priorityInheritance :: "nat \<Rightarrow> SchedParam \<Rightarrow> 'a kstate_scheme \<Rightarrow> 'a kstate_scheme" where
  "ops_priorityInheritance owner param s = (case ops (tcb s owner) of g_priorityOps \<Rightarrow> HPFPriorityInheritance owner param s
    | g_deadlineOps \<Rightarrow> s | g_idleOps \<Rightarrow> s)"

definition ops_priorityRestore :: "nat \<Rightarrow> nat list option \<Rightarrow> SchedParam \<Rightarrow> 'a kstate_scheme \<Rightarrow> 'a kstate_scheme" where
  "ops_priorityRestore owner waiters param s = (case ops (tcb s owner) of g_priorityOps \<Rightarrow> HPFPriorityRestore owner waiters param s
    | g_deadlineOps \<Rightarrow> s | g_idleOps \<Rightarrow> s)"

end
