(* ===== verification/LosSchedInv.thy ===== *)
theory LosSchedInv
  imports LosSchedOps
begin

text \<open>
  The scheduler invariant: every \<open>pendList\<close> node is in the list its task's status says, the ready queues have the
  bitmaps and counts that describe them, and the timeout list is sorted and holds exactly the nodes with a valid
  time. The lemmas give, for each operation, that it does not fail and keeps the invariant.
\<close>

section \<open>The invariant\<close>

fun wait_list :: "listHead \<Rightarrow> bool" where
  "wait_list (PriQueList b p) = False"
| "wait_list EdfRoot = False"
| "wait_list EdfWaitList = False"
| "wait_list _ = True"

abbreviation (input) is_ready :: "LosTaskCB \<Rightarrow> bool" where "is_ready c \<equiv> has (taskStatus c) OS_TASK_STATUS_READY"
abbreviation (input) is_pending :: "LosTaskCB \<Rightarrow> bool" where "is_pending c \<equiv> has (taskStatus c) OS_TASK_STATUS_PENDING"
abbreviation (input) is_frozen :: "LosTaskCB \<Rightarrow> bool" where "is_frozen c \<equiv> has (taskStatus c) OS_TASK_STATUS_FROZEN"

definition link_ok :: "LosTaskCB \<Rightarrow> bool" where
  "link_ok c \<longleftrightarrow>
    (is_pending c \<longleftrightarrow> (\<exists>h. pendOn c = Some h \<and> wait_list h)) \<and>
    (ops c \<noteq> g_idleOps \<longrightarrow> (is_ready c \<longleftrightarrow> (\<exists>h. pendOn c = Some h \<and> \<not> wait_list h \<and> h \<noteq> EdfWaitList))) \<and>
    (\<forall>b p. pendOn c = Some (PriQueList b p) \<longrightarrow>
      ops c = g_priorityOps \<and> b = unat (basePrio (sp c)) \<and> p = unat (priority (sp c))) \<and>
    (pendOn c = Some EdfRoot \<or> pendOn c = Some EdfWaitList \<longrightarrow> ops c = g_deadlineOps) \<and>
    (ops c = g_idleOps \<longrightarrow> pendOn c = None) \<and>
    (is_ready c \<longrightarrow> \<not> has (taskStatus c) OS_TASK_STATUS_BLOCKED \<and> \<not> is_frozen c) \<and>
    (ops c = g_priorityOps \<longrightarrow> (policy (sp c) = LOS_SCHED_RR \<or> policy (sp c) = LOS_SCHED_FIFO) \<and>
      unat (basePrio (sp c)) < 32 \<and> unat (priority (sp c)) < 32)"

definition lists_ok :: "'a kstate_scheme \<Rightarrow> bool" where
  "lists_ok s \<longleftrightarrow> (\<forall>h. distinct (lists s h) \<and> (\<forall>t. t \<in> set (lists s h) \<longleftrightarrow> pendOn (tcb s t) = Some h))"

text \<open>A node of the timeout list belongs to a task that is not ready, and that waits with a time limit if it waits.\<close>

definition timed_ok :: "LosTaskCB \<Rightarrow> bool" where
  "timed_ok c \<longleftrightarrow> \<not> is_ready c \<and> (is_pending c \<longrightarrow> has (taskStatus c) OS_TASK_STATUS_PEND_TIME)"

definition timeouts_ok :: "'a kstate_scheme \<Rightarrow> bool" where
  "timeouts_ok s \<longleftrightarrow> sl_inv (sortNodes s) (timeoutQueue s) \<and>
    (\<forall>t. t \<in> set (sortLink (timeoutQueue s)) \<longleftrightarrow>
      \<not> is_frozen (tcb s t) \<and> responseTime (sortNodes s t) \<noteq> OS_SORT_LINK_INVALID_TIME) \<and>
    (\<forall>t \<in> set (sortLink (timeoutQueue s)). timed_ok (tcb s t))"

definition k_inv :: "'a kstate_scheme \<Rightarrow> bool" where
  "k_inv s \<longleftrightarrow> lists_ok s \<and> queues_ok s \<and> timeouts_ok s \<and> (\<forall>t. link_ok (tcb s t))"

lemma k_invD:
  assumes "k_inv s"
  shows "lists_ok s" and "queues_ok s" and "timeouts_ok s" and "link_ok (tcb s t)"
  using assms by (auto simp: k_inv_def)

lemma lists_okD:
  assumes "k_inv s"
  shows "distinct (lists s h)" and "t \<in> set (lists s h) \<longleftrightarrow> pendOn (tcb s t) = Some h"
  using k_invD(1) [OF assms] by (auto simp: lists_ok_def)

text \<open>The state outside the task table, the ready queues and the lists.\<close>

definition env_of :: "'a kstate_scheme \<Rightarrow> _" where
  "env_of s = (cfg s, threadSiblings s, idleTask s, taskLockCnt s, currTask s, taskScheduled s, intActive s, clock s, kstate.more s)"

definition timer_of :: "'a kstate_scheme \<Rightarrow> _" where
  "timer_of s = (sortNodes s, timeoutQueue s)"

lemma env_ofD:
  assumes "env_of s' = env_of s"
  shows "cfg s' = cfg s" "idleTask s' = idleTask s" "taskLockCnt s' = taskLockCnt s" "currTask s' = currTask s"
    "intActive s' = intActive s" "clock s' = clock s" "kstate.more s' = kstate.more s" "taskScheduled s' = taskScheduled s"
    "threadSiblings s' = threadSiblings s"
  using assms by (simp_all add: env_of_def)

lemma env_of_upd_task [simp]: "env_of (upd_task t f s) = env_of s" "timer_of (upd_task t f s) = timer_of s"
  by (simp_all add: env_of_def timer_of_def)

lemma env_of_pri_insert [simp]: "env_of (pri_insert k b t p s) = env_of s" "timer_of (pri_insert k b t p s) = timer_of s"
  by (simp_all add: env_of_def timer_of_def)

lemma env_of_lists [simp]: "env_of (s\<lparr>lists := l\<rparr>) = env_of s" "timer_of (s\<lparr>lists := l\<rparr>) = timer_of s"
  by (simp_all add: env_of_def timer_of_def)

abbreviation (input) timed_tasks :: "'a kstate_scheme \<Rightarrow> nat set" where
  "timed_tasks s \<equiv> set (sortLink (timeoutQueue s))"

lemma timeouts_ok_mono:
  assumes "timeouts_ok s" and "timer_of s' = timer_of s" and "\<And>t. is_frozen (tcb s' t) = is_frozen (tcb s t)"
    and "\<And>t. t \<in> timed_tasks s \<Longrightarrow> timed_ok (tcb s t) \<Longrightarrow> timed_ok (tcb s' t)"
  shows "timeouts_ok s'"
  using assms by (auto simp: timeouts_ok_def timer_of_def)

section \<open>Updates that do not concern the invariant\<close>

lemma link_ok_cong:
  assumes "pendOn c' = pendOn c" "ops c' = ops c" "policy (sp c') = policy (sp c)" "basePrio (sp c') = basePrio (sp c)"
    "priority (sp c') = priority (sp c)" "is_pending c' = is_pending c" "is_ready c' = is_ready c" "is_frozen c' = is_frozen c"
    "is_ready c \<Longrightarrow> has (taskStatus c') OS_TASK_STATUS_BLOCKED \<Longrightarrow> has (taskStatus c) OS_TASK_STATUS_BLOCKED"
    and "link_ok c"
  shows "link_ok c'"
  unfolding link_ok_def assms(1-8) using assms(9) assms(10) [unfolded link_ok_def] by blast

lemma k_inv_upd_task:
  assumes inv: "k_inv s" and c': "link_ok (f (tcb s t))" "pendOn (f (tcb s t)) = pendOn (tcb s t)"
    "is_frozen (f (tcb s t)) = is_frozen (tcb s t)"
    "t \<in> timed_tasks s \<Longrightarrow> timed_ok (tcb s t) \<Longrightarrow> timed_ok (f (tcb s t))"
  shows "k_inv (upd_task t f s)"
proof -
  have "queues_ok (upd_task t f s)" using k_invD(2) [OF inv] by (subst queues_ok_cong) auto
  moreover have "timeouts_ok (upd_task t f s)" using c' by (intro timeouts_ok_mono [OF k_invD(3) [OF inv]]) auto
  moreover have "lists_ok (upd_task t f s)" using k_invD(1) [OF inv] c' by (auto simp: lists_ok_def)
  ultimately show ?thesis using k_invD(4) [OF inv] c' by (auto simp: k_inv_def)
qed

lemma k_inv_cong:
  assumes "tcb s' = tcb s" "lists s' = lists s" "readyTasks s' = readyTasks s" "prioBitmap s' = prioBitmap s"
    "baseBitmap s' = baseBitmap s" "timer_of s' = timer_of s"
  shows "k_inv s' = k_inv s"
proof -
  have "queues_ok s' = queues_ok s" using assms by (intro queues_ok_cong) auto
  moreover have "timeouts_ok s' = timeouts_ok s" using assms by (simp add: timeouts_ok_def timer_of_def)
  ultimately show ?thesis using assms by (simp add: k_inv_def lists_ok_def)
qed

section \<open>Enqueue\<close>

lemma lists_ok_insert:
  assumes "lists_ok s" and "pendOn (tcb s t) = None" and "lists s' = (lists s)(h := insert_after k t (lists s h))"
    and "\<And>t'. t' \<noteq> t \<Longrightarrow> pendOn (tcb s' t') = pendOn (tcb s t')" and "pendOn (tcb s' t) = Some h"
  shows "lists_ok s'"
proof -
  have "t \<notin> set (lists s h')" for h' using assms(1,2) by (simp add: lists_ok_def)
  with assms show ?thesis unfolding lists_ok_def
    by (metis (no_types, lifting) distinct_insert_after fun_upd_apply insert_iff option.inject set_insert_after)
qed

lemma lists_ok_remove:
  assumes "lists_ok s" and "pendOn (tcb s t) = Some h" and "lists s' = (lists s)(h := remove1 t (lists s h))"
    and "\<And>t'. t' \<noteq> t \<Longrightarrow> pendOn (tcb s' t') = pendOn (tcb s t')" and "pendOn (tcb s' t) = None"
  shows "lists_ok s'"
proof -
  have "distinct (lists s h)" using assms(1) by (simp add: lists_ok_def)
  then have "set (remove1 t (lists s h)) = set (lists s h) - {t}" "distinct (remove1 t (lists s h))" by simp_all
  with assms show ?thesis unfolding lists_ok_def
    by (metis (no_types, lifting) DiffE DiffI fun_upd_apply insertCI option.distinct(1) option.inject singletonD)
qed

text \<open>\<open>HPFEnqueue\<close> puts an unlinked task at one end of the queue of its priorities.\<close>

lemma HPFEnqueue_form:
  assumes inv: "k_inv s" and t: "ops (tcb s t) = g_priorityOps" "pendOn (tcb s t) = None"
  shows "\<exists>k g. HPFEnqueue t s = Some (set_status t OS_TASK_STATUS_READY (clr_status t OS_TASK_STATUS_BLOCKED
      (pri_insert k (task_base s t) t (task_prio s t) (upd_task t g s)))) \<and>
    (k = 0 \<or> k = length (lists s (PriQueList (task_base s t) (task_prio s t)))) \<and>
    (\<exists>x y. g (tcb s t) = (tcb s t)\<lparr>sp := (sp (tcb s t))\<lparr>initTimeSlice := x\<rparr>, timeSlice := y\<rparr>)"
proof -
  have l: "link_ok (tcb s t)" using k_invD(4) [OF inv] .
  then have nr: "\<not> is_ready (tcb s t)" and pol: "policy (sp (tcb s t)) = LOS_SCHED_RR \<or> policy (sp (tcb s t)) = LOS_SCHED_FIFO"
    and lt: "task_base s t < 32" "task_prio s t < 32"
    using t by (auto simp: link_ok_def)
  note heads = PriQueInsert_eqs(1) [of s t "task_base s t" "task_prio s t", OF t(2) lt]
  have tails: "PriQueTailInsert (task_base s t) t (task_prio s t) (upd_task t g s) =
      Some (pri_insert (length (lists s (PriQueList (task_base s t) (task_prio s t)))) (task_base s t) t (task_prio s t) (upd_task t g s))"
    if "pendOn (g (tcb s t)) = None" for g
    using PriQueInsert_eqs(2) [of "upd_task t g s" t "task_base s t" "task_prio s t"] that lt by simp
  let ?left = "sint (timeSlice (tcb s t)) > sint (timeSliceLow (cfg s))"
  let ?g = "\<lambda>x c. c\<lparr>sp := (sp c)\<lparr>initTimeSlice := x\<rparr>, timeSlice := x\<rparr>"
  let ?x = "if policy (sp (tcb s t)) = LOS_SCHED_RR then TimeSliceCalculate (task_base s t) (task_prio s t) s else OS_SCHED_FIFO_TIMEOUT"
  show ?thesis
  proof (cases "?left \<and> (policy (sp (tcb s t)) = LOS_SCHED_RR \<or> has (status_of s t) OS_TASK_STATUS_RUNNING)")
    case True
    then have "HPFEnqueue t s = Some (set_status t OS_TASK_STATUS_READY (clr_status t OS_TASK_STATUS_BLOCKED
        (pri_insert 0 (task_base s t) t (task_prio s t) s)))"
      using pol nr heads by (auto simp: HPFEnqueue_def PriQueInsert_def Let_def)
    moreover have own: "tcb s t = (tcb s t)\<lparr>sp := (sp (tcb s t))\<lparr>initTimeSlice := initTimeSlice (sp (tcb s t))\<rparr>,
        timeSlice := timeSlice (tcb s t)\<rparr>" by simp
    ultimately show ?thesis by (intro exI [of _ 0] exI [of _ "\<lambda>c. c"] conjI exI, unfold upd_task_id) (assumption, simp, rule own)
  next
    case False
    then have "HPFEnqueue t s = Some (set_status t OS_TASK_STATUS_READY (clr_status t OS_TASK_STATUS_BLOCKED
        (pri_insert (length (lists s (PriQueList (task_base s t) (task_prio s t)))) (task_base s t) t (task_prio s t) (upd_task t (?g ?x) s))))"
      using pol nr tails [of "?g ?x"] t(2) by (auto simp: HPFEnqueue_def PriQueInsert_def Let_def)
    then show ?thesis by (intro exI conjI) (assumption, auto)
  qed
qed

lemma HPFEnqueue_spec:
  assumes inv: "k_inv s" and t: "ops (tcb s t) = g_priorityOps" "pendOn (tcb s t) = None" and nt: "t \<notin> timed_tasks s" "\<not> is_frozen (tcb s t)"
  shows "\<exists>s' k. HPFEnqueue t s = Some s' \<and> k_inv s' \<and> env_of s' = env_of s \<and> timer_of s' = timer_of s \<and> schedFlag s' = schedFlag s \<and>
    lists s' = (lists s)(PriQueList (task_base s t) (task_prio s t) :=
      insert_after k t (lists s (PriQueList (task_base s t) (task_prio s t)))) \<and>
    (k = 0 \<or> k = length (lists s (PriQueList (task_base s t) (task_prio s t)))) \<and>
    (\<forall>t'. t' \<noteq> t \<longrightarrow> tcb s' t' = tcb s t') \<and>
    status_of s' t = (status_of s t AND NOT OS_TASK_STATUS_BLOCKED) OR OS_TASK_STATUS_READY \<and>
    pendOn (tcb s' t) = Some (PriQueList (task_base s t) (task_prio s t)) \<and>
    (\<exists>x y. tcb s' t = (tcb s t)\<lparr>taskStatus := status_of s' t, pendOn := pendOn (tcb s' t),
       sp := (sp (tcb s t))\<lparr>initTimeSlice := x\<rparr>, timeSlice := y\<rparr>)"
proof -
  let ?b = "task_base s t" let ?p = "task_prio s t" let ?h = "PriQueList ?b ?p"
  obtain k g where e: "HPFEnqueue t s = Some (set_status t OS_TASK_STATUS_READY (clr_status t OS_TASK_STATUS_BLOCKED
      (pri_insert k ?b t ?p (upd_task t g s))))" and k: "k = 0 \<or> k = length (lists s ?h)"
    and g: "\<exists>x y. g (tcb s t) = (tcb s t)\<lparr>sp := (sp (tcb s t))\<lparr>initTimeSlice := x\<rparr>, timeSlice := y\<rparr>"
    using HPFEnqueue_form [OF inv t] by blast
  define s' where "s' = set_status t OS_TASK_STATUS_READY (clr_status t OS_TASK_STATUS_BLOCKED (pri_insert k ?b t ?p (upd_task t g s)))"
  obtain x y where xy: "g (tcb s t) = (tcb s t)\<lparr>sp := (sp (tcb s t))\<lparr>initTimeSlice := x\<rparr>, timeSlice := y\<rparr>" using g by blast
  have c: "tcb s' t = (tcb s t)\<lparr>taskStatus := (status_of s t AND NOT OS_TASK_STATUS_BLOCKED) OR OS_TASK_STATUS_READY,
      pendOn := Some ?h, sp := (sp (tcb s t))\<lparr>initTimeSlice := x\<rparr>, timeSlice := y\<rparr>"
    by (rule LosTaskCB.equality) (simp_all add: s'_def task_updates xy)
  have ls: "lists s' = (lists s)(?h := insert_after k t (lists s ?h))" by (simp add: s'_def task_updates)
  have others: "tcb s' t' = tcb s t'" if "t' \<noteq> t" for t' using that by (simp add: s'_def task_updates)
  have l: "link_ok (tcb s t)" using k_invD(4) [OF inv] .
  then have lt: "?b < 32" "?p < 32" and pol: "policy (sp (tcb s t)) = LOS_SCHED_RR \<or> policy (sp (tcb s t)) = LOS_SCHED_FIFO"
    using t by (auto simp: link_ok_def)
  have timer: "timer_of s' = timer_of s" by (simp add: s'_def task_updates)
  have "queues_ok (pri_insert k ?b t ?p (upd_task t g s))"
    using k_invD(2) [OF inv] lt by (intro queues_ok_pri_insert) (subst queues_ok_cong, auto)
  then have "queues_ok s'" unfolding s'_def task_updates by (subst queues_ok_cong) auto
  moreover have "lists_ok s'" using k_invD(1) [OF inv] t(2) ls others c by (intro lists_ok_insert [of s t s' ?h k]) auto
  moreover have "is_frozen (tcb s' t') = is_frozen (tcb s t')" for t'
    using c others by (cases "t' = t") (simp_all add: flag_simps)
  then have "timeouts_ok s'" using others nt(1) by (intro timeouts_ok_mono [OF k_invD(3) [OF inv] timer]) metis+
  moreover have "link_ok (tcb s' t)" using pol lt t(1) nt(2) by (simp add: c link_ok_def flag_simps)
  then have "link_ok (tcb s' t')" for t' using others k_invD(4) [OF inv] by (cases "t' = t") auto
  ultimately have "k_inv s'" by (simp add: k_inv_def)
  moreover have "env_of s' = env_of s" "schedFlag s' = schedFlag s" by (simp_all add: s'_def task_updates)
  ultimately show ?thesis using e k timer ls others c unfolding s'_def [symmetric]
    by (intro exI [of _ s'] exI [of _ k]) auto
qed

section \<open>Dequeue\<close>

lemma ready_queue:
  assumes inv: "k_inv s" and t: "ops (tcb s t) = g_priorityOps" and r: "is_ready (tcb s t)"
  shows "pendOn (tcb s t) = Some (PriQueList (task_base s t) (task_prio s t))" and "task_base s t < 32" and "task_prio s t < 32"
proof -
  have l: "link_ok (tcb s t)" using k_invD(4) [OF inv] .
  then obtain h where h: "pendOn (tcb s t) = Some h" "\<not> wait_list h" "h \<noteq> EdfWaitList" using t r by (auto simp: link_ok_def)
  then have "h \<noteq> EdfRoot" using l t by (auto simp: link_ok_def)
  with h have "\<exists>b p. h = PriQueList b p" by (cases h) auto
  with h(1) l show "pendOn (tcb s t) = Some (PriQueList (task_base s t) (task_prio s t))" by (auto simp: link_ok_def)
  show "task_base s t < 32" "task_prio s t < 32" using l t by (simp_all add: link_ok_def)
qed

lemma HPFDequeue_spec:
  assumes inv: "k_inv s" and t: "ops (tcb s t) = g_priorityOps" and r: "is_ready (tcb s t)"
  shows "\<exists>s'. HPFDequeue t s = Some s' \<and> k_inv s' \<and> env_of s' = env_of s \<and> timer_of s' = timer_of s \<and> schedFlag s' = schedFlag s \<and>
    lists s' = (lists s)(PriQueList (task_base s t) (task_prio s t) := remove1 t (lists s (PriQueList (task_base s t) (task_prio s t)))) \<and>
    tcb s' = (tcb s)(t := (tcb s t)\<lparr>pendOn := None, taskStatus := status_of s t AND NOT OS_TASK_STATUS_READY\<rparr>)"
proof -
  let ?b = "task_base s t" let ?p = "task_prio s t" let ?h = "PriQueList ?b ?p"
  note rq = ready_queue [OF inv t r]
  note frame = pri_delete_frame [OF rq]
  define s' where "s' = clr_status t OS_TASK_STATUS_READY (pri_delete ?b t ?p s)"
  have e: "HPFDequeue t s = Some s'" using pri_delete_eq [OF rq] r by (simp add: HPFDequeue_def s'_def)
  have mem: "t \<in> set (lists s ?h)" using lists_okD(2) [OF inv] rq(1) by simp
  have c: "tcb s' = (tcb s)(t := (tcb s t)\<lparr>pendOn := None, taskStatus := status_of s t AND NOT OS_TASK_STATUS_READY\<rparr>)"
    by (simp add: s'_def task_updates frame(2))
  have ls: "lists s' = (lists s)(?h := remove1 t (lists s ?h))" by (simp add: s'_def task_updates frame(1))
  have "queues_ok s'" unfolding s'_def task_updates
    using queues_ok_pri_delete [OF k_invD(2) [OF inv] rq mem] by (subst queues_ok_cong) auto
  moreover have "lists_ok s'" using k_invD(1) [OF inv] rq(1) ls c by (intro lists_ok_remove [of s t ?h s']) auto
  moreover have timer: "timer_of s' = timer_of s" by (simp add: s'_def task_updates timer_of_def frame)
  moreover from this have "timeouts_ok s'" using c
    by (intro timeouts_ok_mono [OF k_invD(3) [OF inv]]) (auto simp: flag_simps timed_ok_def)
  moreover have l: "link_ok (tcb s t)" using k_invD(4) [OF inv] .
  then have "\<not> is_pending (tcb s t)" using rq(1) by (auto simp: link_ok_def)
  then have "link_ok (tcb s' t)" using l t by (simp add: c link_ok_def flag_simps)
  then have "link_ok (tcb s' t')" for t' using k_invD(4) [OF inv] c by (cases "t' = t") auto
  ultimately have "k_inv s'" by (simp add: k_inv_def)
  moreover have "env_of s' = env_of s" "schedFlag s' = schedFlag s" by (simp_all add: s'_def task_updates env_of_def frame)
  ultimately show ?thesis using e timer ls c by blast
qed

section \<open>Timeouts\<close>

lemma TimeoutQueueDelete_spec:
  assumes inv: "k_inv s" and nf: "\<not> is_frozen (tcb s t)"
  shows "\<exists>s'. OsSchedTimeoutQueueDelete t s = Some s' \<and> k_inv s' \<and> env_of s' = env_of s \<and> schedFlag s' = schedFlag s \<and>
    tcb s' = tcb s \<and> lists s' = lists s \<and> readyTasks s' = readyTasks s \<and> prioBitmap s' = prioBitmap s \<and> baseBitmap s' = baseBitmap s \<and>
    set (sortLink (timeoutQueue s')) = set (sortLink (timeoutQueue s)) - {t} \<and>
    (\<forall>t'. t' \<noteq> t \<longrightarrow> sortNodes s' t' = sortNodes s t') \<and> responseTime (sortNodes s' t) = OS_SORT_LINK_INVALID_TIME"
proof -
  have tm: "timeouts_ok s" using k_invD(3) [OF inv] .
  then have "t \<in> set (sortLink (timeoutQueue s)) \<longleftrightarrow> responseTime (sortNodes s t) \<noteq> OS_SORT_LINK_INVALID_TIME"
    using nf by (simp add: timeouts_ok_def)
  then obtain h' where d: "OsDeleteFromSortLink (sortNodes s) (timeoutQueue s) t =
      Some (SET_SORTLIST_VALUE (sortNodes s) t OS_SORT_LINK_INVALID_TIME, h')"
    "sl_inv (SET_SORTLIST_VALUE (sortNodes s) t OS_SORT_LINK_INVALID_TIME) h'" "set (sortLink h') = set (sortLink (timeoutQueue s)) - {t}"
    using OsDeleteFromSortLink_spec tm unfolding timeouts_ok_def by blast
  define s' where "s' = s\<lparr>sortNodes := SET_SORTLIST_VALUE (sortNodes s) t OS_SORT_LINK_INVALID_TIME, timeoutQueue := h',
    rqResponseTime := if GET_SORTLIST_VALUE (sortNodes s) t \<le> rqResponseTime s then OS_SCHED_MAX_RESPONSE_TIME else rqResponseTime s\<rparr>"
  have "OsSchedTimeoutQueueDelete t s = Some s'" using d(1) by (simp add: OsSchedTimeoutQueueDelete_def s'_def)
  moreover have "timeouts_ok s'" using d tm by (auto simp: timeouts_ok_def s'_def SET_SORTLIST_VALUE_def)
  then have "k_inv s'" using inv by (auto simp: k_inv_def lists_ok_def s'_def queues_ok_def)
  moreover have "env_of s' = env_of s" by (simp add: env_of_def s'_def)
  ultimately show ?thesis using d(3) by (auto simp: s'_def SET_SORTLIST_VALUE_def)
qed

section \<open>Wake\<close>

lemma unlink_spec:
  assumes inv: "k_inv s" and on: "pendOn (tcb s t) = Some h" "wait_list h"
  shows "\<exists>s'. pend_delete t s = Some s' \<and> k_inv (clr_status t OS_TASK_STATUS_PENDING s') \<and>
    env_of s' = env_of s \<and> timer_of s' = timer_of s \<and> schedFlag s' = schedFlag s \<and>
    lists s' = (lists s)(h := remove1 t (lists s h)) \<and> tcb s' = (tcb s)(t := (tcb s t)\<lparr>pendOn := None\<rparr>)"
proof -
  define s' where "s' = upd_task t (\<lambda>c. c\<lparr>pendOn := None\<rparr>) (s\<lparr>lists := (lists s)(h := remove1 t (lists s h))\<rparr>)"
  have e: "pend_delete t s = Some s'" using on by (simp add: pend_delete_def s'_def)
  let ?s = "clr_status t OS_TASK_STATUS_PENDING s'"
  have ls: "lists ?s = (lists s)(h := remove1 t (lists s h))" by (simp add: s'_def task_updates)
  have c: "tcb ?s t' = (if t' = t then (tcb s t)\<lparr>pendOn := None, taskStatus := status_of s t AND NOT OS_TASK_STATUS_PENDING\<rparr> else tcb s t')" for t'
    by (simp add: s'_def task_updates)
  have "lists_ok ?s" by (rule lists_ok_remove [OF k_invD(1) [OF inv] on(1) ls]) (simp_all add: c)
  moreover have "queues_ok ?s" using k_invD(2) [OF inv] on(2) by (subst queues_ok_cong [of _ s]) (auto simp: s'_def task_updates)
  moreover have "timeouts_ok ?s"
    by (intro timeouts_ok_mono [OF k_invD(3) [OF inv]]) (auto simp: s'_def task_updates flag_simps timed_ok_def)
  moreover have l: "link_ok (tcb s t)" using k_invD(4) [OF inv] .
  then have "ops (tcb s t) \<noteq> g_idleOps" "\<not> is_ready (tcb s t)" using on by (auto simp: link_ok_def)
  then have "link_ok (tcb ?s t)" using l by (simp add: c link_ok_def flag_simps)
  then have "link_ok (tcb ?s t')" for t' using k_invD(4) [OF inv, of t'] c by (cases "t' = t") auto
  ultimately have "k_inv ?s" by (simp add: k_inv_def)
  with e show ?thesis by (intro exI [of _ s']) (simp add: s'_def fun_upd_def)
qed

lemma clr_pend_time_inv:
  assumes "k_inv s" and "\<not> is_pending (tcb s t)"
  shows "k_inv (clr_status t OS_TASK_STATUS_PEND_TIME s)"
  unfolding clr_status_def
proof (rule k_inv_upd_task [OF assms(1)])
  show "link_ok ((tcb s t)\<lparr>taskStatus := status_of s t AND NOT OS_TASK_STATUS_PEND_TIME\<rparr>)"
    by (rule link_ok_cong [OF _ _ _ _ _ _ _ _ _ k_invD(4) [OF assms(1), of t]]) (auto simp: flag_simps intro: has_mono [of _ 49])
qed (use assms(2) in \<open>simp_all add: flag_simps timed_ok_def\<close>)

text \<open>The first half of a wake: unlink the task and cancel its timeout.\<close>

definition unwait :: "nat \<Rightarrow> 'a kstate_scheme \<Rightarrow> 'a kstate_scheme option" where
  "unwait t s = do {
      s1 \<leftarrow> pend_delete t s;
      let s2 = clr_status t OS_TASK_STATUS_PENDING s1;
      if has (status_of s2 t) OS_TASK_STATUS_PEND_TIME
      then map_option (clr_status t OS_TASK_STATUS_PEND_TIME) (OsSchedTimeoutQueueDelete t s2) else Some s2
    }"

lemma wake_with_unwait:
  "wake_with enq t s = do { s3 \<leftarrow> unwait t s; if \<not> has (status_of s3 t) OS_TASK_STATUS_SUSPENDED then enq t s3 else Some s3 }"
  by (simp add: wake_with_def unwait_def Let_def)

lemma unwait_spec:
  assumes inv: "k_inv s" and on: "pendOn (tcb s t) = Some h" "wait_list h" and nf: "\<not> is_frozen (tcb s t)"
  shows "\<exists>s' st. unwait t s = Some s' \<and> k_inv s' \<and> env_of s' = env_of s \<and> schedFlag s' = schedFlag s \<and>
    lists s' = (lists s)(h := remove1 t (lists s h)) \<and> tcb s' = (tcb s)(t := (tcb s t)\<lparr>pendOn := None, taskStatus := st\<rparr>) \<and>
    st = status_of s t AND NOT (OS_TASK_STATUS_PENDING OR OS_TASK_STATUS_PEND_TIME) \<and>
    timed_tasks s' = timed_tasks s - {t}"
proof -
  obtain s1 where d: "pend_delete t s = Some s1" and inv2: "k_inv (clr_status t OS_TASK_STATUS_PENDING s1)"
    and s1: "env_of s1 = env_of s" "timer_of s1 = timer_of s" "schedFlag s1 = schedFlag s" "lists s1 = (lists s)(h := remove1 t (lists s h))"
      "tcb s1 = (tcb s)(t := (tcb s t)\<lparr>pendOn := None\<rparr>)"
    using unlink_spec [OF inv on] by blast
  define s2 where "s2 = clr_status t OS_TASK_STATUS_PENDING s1"
  have c2: "tcb s2 = (tcb s)(t := (tcb s t)\<lparr>pendOn := None, taskStatus := status_of s t AND NOT OS_TASK_STATUS_PENDING\<rparr>)"
    and s2: "env_of s2 = env_of s" "schedFlag s2 = schedFlag s" "lists s2 = (lists s)(h := remove1 t (lists s h))"
      "timed_tasks s2 = timed_tasks s"
    using s1 by (simp_all add: s2_def task_updates timer_of_def)
  have pt: "has (status_of s2 t) OS_TASK_STATUS_PEND_TIME \<longleftrightarrow> has (status_of s t) OS_TASK_STATUS_PEND_TIME"
    by (simp add: c2 flag_simps)
  show ?thesis
  proof (cases "has (status_of s t) OS_TASK_STATUS_PEND_TIME")
    case True
    have "\<not> is_frozen (tcb s2 t)" using nf by (simp add: c2 flag_simps)
    from TimeoutQueueDelete_spec [OF inv2 [folded s2_def] this] obtain s3 where
      s3: "OsSchedTimeoutQueueDelete t s2 = Some s3" "k_inv s3" "env_of s3 = env_of s2" "schedFlag s3 = schedFlag s2"
        "tcb s3 = tcb s2" "lists s3 = lists s2" "set (sortLink (timeoutQueue s3)) = set (sortLink (timeoutQueue s2)) - {t}" by blast
    have "unwait t s = Some (clr_status t OS_TASK_STATUS_PEND_TIME s3)"
      using True pt d s3(1) by (simp add: unwait_def s2_def [symmetric])
    moreover have "(status_of s t AND NOT OS_TASK_STATUS_PENDING) AND NOT OS_TASK_STATUS_PEND_TIME =
        status_of s t AND NOT (OS_TASK_STATUS_PENDING OR OS_TASK_STATUS_PEND_TIME)"
      by (simp add: and.assoc)
    moreover have "k_inv (clr_status t OS_TASK_STATUS_PEND_TIME s3)"
      using s3(2,5) by (intro clr_pend_time_inv) (simp_all add: c2 flag_simps)
    ultimately show ?thesis using s3 s2 c2
      by (intro exI conjI) (assumption, simp_all add: task_updates fun_upd_def [symmetric])
  next
    case False
    then have "unwait t s = Some s2" using pt d by (simp add: unwait_def s2_def [symmetric])
    moreover have "is_pending (tcb s t)" using k_invD(4) [OF inv, of t] on unfolding link_ok_def by blast
    then have "t \<notin> timed_tasks s" using False k_invD(3) [OF inv] unfolding timeouts_ok_def timed_ok_def by blast
    then have "timed_tasks s2 = timed_tasks s - {t}" using s2(4) by simp
    moreover have "status_of s t AND NOT OS_TASK_STATUS_PENDING = status_of s t AND NOT (OS_TASK_STATUS_PENDING OR OS_TASK_STATUS_PEND_TIME)"
      by (rule clear_absent_flag [OF False, symmetric])
    ultimately show ?thesis using inv2 s2 c2 False
      by (intro exI conjI) (assumption, simp_all add: s2_def [symmetric])
  qed
qed

text \<open>A task woken by \<open>HPFWake\<close>: its status and where it is linked are new, the rest of the block is kept up to
  its time slice.\<close>

definition woken :: "LosTaskCB \<Rightarrow> LosTaskCB \<Rightarrow> bool" where
  "woken c c' \<longleftrightarrow> ops c' = ops c \<and> basePrio (sp c') = basePrio (sp c) \<and> priority (sp c') = priority (sp c) \<and>
    policy (sp c') = policy (sp c) \<and> priBitmap (sp c') = priBitmap (sp c) \<and>
    taskMux c' = taskMux c \<and> taskEvent c' = taskEvent c \<and> eventMask c' = eventMask c \<and> eventMode c' = eventMode c \<and>
    processCB c' = processCB c \<and> waitID c' = waitID c \<and> waitFlag c' = waitFlag c \<and> startTime c' = startTime c \<and>
    \<not> has (taskStatus c') OS_TASK_STATUS_PENDING \<and> \<not> has (taskStatus c') OS_TASK_STATUS_PEND_TIME \<and>
    (\<forall>m \<in> {OS_TASK_STATUS_FROZEN, OS_TASK_STATUS_SUSPENDED, OS_TASK_STATUS_TIMEOUT, OS_TASK_STATUS_RUNNING}.
      has (taskStatus c') m \<longleftrightarrow> has (taskStatus c) m) \<and>
    (has (taskStatus c') OS_TASK_STATUS_READY \<longleftrightarrow> \<not> has (taskStatus c) OS_TASK_STATUS_SUSPENDED) \<and>
    pendOn c' = (if has (taskStatus c) OS_TASK_STATUS_SUSPENDED then None
      else Some (PriQueList (unat (basePrio (sp c))) (unat (priority (sp c)))))"

lemma HPFWake_spec:
  assumes inv: "k_inv s" and t: "ops (tcb s t) = g_priorityOps" and on: "pendOn (tcb s t) = Some h" "wait_list h"
    and nf: "\<not> is_frozen (tcb s t)"
  shows "\<exists>s'. HPFWake t s = Some s' \<and> k_inv s' \<and> env_of s' = env_of s \<and> schedFlag s' = schedFlag s \<and>
    (\<forall>h'. wait_list h' \<longrightarrow> lists s' h' = (if h' = h then remove1 t (lists s h) else lists s h')) \<and>
    (\<forall>t'. t' \<noteq> t \<longrightarrow> tcb s' t' = tcb s t') \<and> woken (tcb s t) (tcb s' t) \<and>
    timed_tasks s' = timed_tasks s - {t} \<and> lists s' EdfRoot = lists s EdfRoot"
proof -
  obtain s3 st where u: "unwait t s = Some s3" and inv3: "k_inv s3" and env: "env_of s3 = env_of s" "schedFlag s3 = schedFlag s"
    and ls: "lists s3 = (lists s)(h := remove1 t (lists s h))" and c: "tcb s3 = (tcb s)(t := (tcb s t)\<lparr>pendOn := None, taskStatus := st\<rparr>)"
    and st: "st = status_of s t AND NOT (OS_TASK_STATUS_PENDING OR OS_TASK_STATUS_PEND_TIME)"
    and gone: "timed_tasks s3 = timed_tasks s - {t}"
    using unwait_spec [OF inv on nf] by blast
  have nr: "\<not> is_ready (tcb s t)"
    using k_invD(4) [OF inv, of t] on t by (auto simp: link_ok_def)
  have susp: "has st OS_TASK_STATUS_SUSPENDED \<longleftrightarrow> has (status_of s t) OS_TASK_STATUS_SUSPENDED" by (simp add: st flag_simps)
  show ?thesis
  proof (cases "has (status_of s t) OS_TASK_STATUS_SUSPENDED")
    case True
    then have "HPFWake t s = Some s3" using u susp by (simp add: HPFWake_def wake_with_unwait c)
    moreover have "woken (tcb s t) (tcb s3 t)" using True nr by (simp add: woken_def c st flag_simps)
    moreover have "h \<noteq> EdfRoot" using on(2) by auto
    ultimately show ?thesis using inv3 env ls c gone by auto
  next
    case False
    have t3: "ops (tcb s3 t) = g_priorityOps" "pendOn (tcb s3 t) = None" using c t by simp_all
    have nf3: "\<not> is_frozen (tcb s3 t)" using nf by (simp add: c st flag_simps)
    obtain s4 k where e4: "HPFEnqueue t s3 = Some s4" and inv4: "k_inv s4" and env4: "env_of s4 = env_of s3" "timer_of s4 = timer_of s3"
        "schedFlag s4 = schedFlag s3"
      and ls4: "lists s4 = (lists s3)(PriQueList (task_base s3 t) (task_prio s3 t) :=
        insert_after k t (lists s3 (PriQueList (task_base s3 t) (task_prio s3 t))))"
      and o4: "\<forall>t'. t' \<noteq> t \<longrightarrow> tcb s4 t' = tcb s3 t'"
      and st4: "status_of s4 t = (status_of s3 t AND NOT OS_TASK_STATUS_BLOCKED) OR OS_TASK_STATUS_READY"
      and p4: "pendOn (tcb s4 t) = Some (PriQueList (task_base s3 t) (task_prio s3 t))"
      and c4: "\<exists>x y. tcb s4 t = (tcb s3 t)\<lparr>taskStatus := status_of s4 t, pendOn := pendOn (tcb s4 t),
        sp := (sp (tcb s3 t))\<lparr>initTimeSlice := x\<rparr>, timeSlice := y\<rparr>"
      using HPFEnqueue_spec [OF inv3 t3 _ nf3] gone by blast
    obtain x y where xy: "tcb s4 t = (tcb s3 t)\<lparr>taskStatus := (st AND NOT OS_TASK_STATUS_BLOCKED) OR OS_TASK_STATUS_READY,
        pendOn := Some (PriQueList (task_base s t) (task_prio s t)), sp := (sp (tcb s t))\<lparr>initTimeSlice := x\<rparr>, timeSlice := y\<rparr>"
      using c4 st4 p4 c by auto
    have "HPFWake t s = Some s4" using u susp False e4 by (simp add: HPFWake_def wake_with_unwait c)
    moreover have "woken (tcb s t) (tcb s4 t)" unfolding xy using False by (simp add: woken_def c st flag_simps)
    moreover have "lists s4 h' = (if h' = h then remove1 t (lists s h) else lists s h')" if "wait_list h' \<or> h' = EdfRoot" for h'
      using that ls4 ls by auto
    moreover have "h \<noteq> EdfRoot" using on(2) by auto
    ultimately show ?thesis using inv4 env env4 o4 c gone by (auto simp: timer_of_def)
  qed
qed

lemma ops_wake_spec:
  assumes "ops (tcb s t) = g_priorityOps"
  shows "ops_wake t s = HPFWake t s"
  using assms by (simp add: ops_wake_def)

end
