(* ===== verification/LosSchedSwitch.thy ===== *)
theory LosSchedSwitch
  imports LosSchedInv
begin

text \<open>
  Choosing the next task and switching to it: \<open>TopTaskGet\<close>, \<open>SchedTaskSwitch\<close>, \<open>OsSchedResched\<close>,
  \<open>LOS_Schedule\<close> and the blocking wait keep the scheduler invariant, do not fail, and leave the highest priority
  ready task running.
\<close>

section \<open>The running task\<close>

text \<open>Exactly the current task runs; it is in no list and has no timeout.\<close>

definition run_ok :: "'a kstate_scheme \<Rightarrow> bool" where
  "run_ok s \<longleftrightarrow> (\<forall>t. has (status_of s t) OS_TASK_STATUS_RUNNING \<longleftrightarrow> t = currTask s) \<and>
    pendOn (tcb s (currTask s)) = None \<and> \<not> is_ready (tcb s (currTask s)) \<and> \<not> is_frozen (tcb s (currTask s)) \<and>
    \<not> has (status_of s (currTask s)) OS_TASK_STATUS_BLOCKED \<and> currTask s \<notin> timed_tasks s"

definition idle_ok :: "'a kstate_scheme \<Rightarrow> bool" where
  "idle_ok s \<longleftrightarrow> (\<forall>t. ops (tcb s t) = g_idleOps \<longleftrightarrow> t = idleTask s) \<and>
    \<not> is_frozen (tcb s (idleTask s)) \<and> \<not> has (status_of s (idleTask s)) OS_TASK_STATUS_BLOCKED \<and> idleTask s \<notin> timed_tasks s"

text \<open>The elapsed time of a task fits the signed 32-bit difference the time slice accounting asserts.\<close>

definition slice_ok :: "'a kstate_scheme \<Rightarrow> nat \<Rightarrow> bool" where
  "slice_ok s t \<longleftrightarrow> startTime (tcb s t) \<le> clock s \<and>
    0 \<le> sint (ucast (clock s - startTime (tcb s t) - ucast (irqUsedTime (tcb s t))) :: i32)"

text \<open>The order of priorities: process priority first, then thread priority, smaller numbers first.\<close>

definition prio_le :: "LosTaskCB \<Rightarrow> LosTaskCB \<Rightarrow> bool" where
  "prio_le c c' \<longleftrightarrow> basePrio (sp c) < basePrio (sp c') \<or> basePrio (sp c) = basePrio (sp c') \<and> priority (sp c) \<le> priority (sp c')"

definition ready_hpf :: "'a kstate_scheme \<Rightarrow> nat \<Rightarrow> bool" where
  "ready_hpf s t \<longleftrightarrow> ops (tcb s t) = g_priorityOps \<and> is_ready (tcb s t)"

section \<open>Frames\<close>

lemma SchedNextExpireTimeSet_frame [simp]:
  "tcb (SchedNextExpireTimeSet a b c s) = tcb s" "lists (SchedNextExpireTimeSet a b c s) = lists s"
  "readyTasks (SchedNextExpireTimeSet a b c s) = readyTasks s" "prioBitmap (SchedNextExpireTimeSet a b c s) = prioBitmap s"
  "baseBitmap (SchedNextExpireTimeSet a b c s) = baseBitmap s" "timer_of (SchedNextExpireTimeSet a b c s) = timer_of s"
  "env_of (SchedNextExpireTimeSet a b c s) = env_of s" "currTask (SchedNextExpireTimeSet a b c s) = currTask s"
  "timeoutQueue (SchedNextExpireTimeSet a b c s) = timeoutQueue s" "sortNodes (SchedNextExpireTimeSet a b c s) = sortNodes s"
  by (simp_all add: SchedNextExpireTimeSet_def Let_def timer_of_def env_of_def)

lemma k_inv_SchedNextExpireTimeSet [simp]: "k_inv (SchedNextExpireTimeSet a b c s) = k_inv s"
  by (rule k_inv_cong) simp_all

lemma k_inv_env [simp]:
  "k_inv (s\<lparr>schedFlag := f\<rparr>) = k_inv s" "k_inv (s\<lparr>currTask := t\<rparr>) = k_inv s"
  by (rule k_inv_cong; simp add: timer_of_def)+

text \<open>Changing the \<open>RUNNING\<close> flag or the times of a block does not concern the invariant.\<close>

definition minor_update :: "(LosTaskCB \<Rightarrow> LosTaskCB) \<Rightarrow> bool" where
  "minor_update f \<longleftrightarrow> (\<forall>c. pendOn (f c) = pendOn c \<and> ops (f c) = ops c \<and> policy (sp (f c)) = policy (sp c) \<and>
    basePrio (sp (f c)) = basePrio (sp c) \<and> priority (sp (f c)) = priority (sp c) \<and>
    (\<forall>m \<in> {OS_TASK_STATUS_PENDING, OS_TASK_STATUS_READY, OS_TASK_STATUS_FROZEN, OS_TASK_STATUS_PEND_TIME, OS_TASK_STATUS_BLOCKED}.
      has (taskStatus (f c)) m = has (taskStatus c) m))"

lemma k_inv_minor:
  assumes "k_inv s" and "minor_update f"
  shows "k_inv (upd_task t f s)"
proof (rule k_inv_upd_task [OF assms(1)])
  show "link_ok (f (tcb s t))"
    using assms(2) by (intro link_ok_cong [OF _ _ _ _ _ _ _ _ _ k_invD(4) [OF assms(1), of t]]) (simp_all add: minor_update_def)
qed (use assms(2) in \<open>simp_all add: minor_update_def timed_ok_def\<close>)

lemma minor_updates:
  "minor_update (\<lambda>c. c\<lparr>taskStatus := taskStatus c OR OS_TASK_STATUS_RUNNING\<rparr>)"
  "minor_update (\<lambda>c. c\<lparr>taskStatus := taskStatus c AND NOT OS_TASK_STATUS_RUNNING\<rparr>)"
  "minor_update (\<lambda>c. c\<lparr>startTime := x\<rparr>)" "minor_update (\<lambda>c. c\<lparr>waitTime := x\<rparr>)"
  "minor_update (\<lambda>c. c\<lparr>timeSlice := y, irqUsedTime := z, startTime := x\<rparr>)"
  "minor_update (\<lambda>c. c\<lparr>waitID := w, waitFlag := v\<rparr>)"
  "minor_update (\<lambda>c. c\<lparr>taskEvent := e\<rparr>)"
  by (simp_all add: minor_update_def flag_simps)

section \<open>The top task\<close>

lemma lists_head_ready:
  assumes inv: "k_inv s" and l: "lists s (PriQueList b p) = t # rest"
  shows "ready_hpf s t" and "b = task_base s t" and "p = task_prio s t"
proof -
  have on: "pendOn (tcb s t) = Some (PriQueList b p)" using lists_okD(2) [OF inv, of t "PriQueList b p"] l by simp
  have lk: "link_ok (tcb s t)" using k_invD(4) [OF inv] .
  show "b = task_base s t" "p = task_prio s t" using on lk unfolding link_ok_def by blast+
  have "ops (tcb s t) = g_priorityOps" using on lk unfolding link_ok_def by blast
  moreover have "\<not> wait_list (PriQueList b p)" by simp
  ultimately show "ready_hpf s t" using on lk unfolding link_ok_def ready_hpf_def by (metis SchedOps.distinct(3) listHead.distinct(3))
qed

lemma ready_in_list:
  assumes "k_inv s" and "ready_hpf s t"
  shows "t \<in> set (lists s (PriQueList (task_base s t) (task_prio s t)))" "task_base s t < 32" "task_prio s t < 32"
  using ready_queue [OF assms(1)] assms(2) lists_okD(2) [OF assms(1)] by (auto simp: ready_hpf_def)

lemma HPFTop_highest:
  assumes inv: "k_inv s"
  shows "case HPFRunqueueTopTaskGet s of None \<Rightarrow> \<forall>t. \<not> ready_hpf s t
    | Some t \<Rightarrow> ready_hpf s t \<and> (\<forall>t'. ready_hpf s t' \<longrightarrow> prio_le (tcb s t) (tcb s t')) \<and>
        hd (lists s (PriQueList (task_base s t) (task_prio s t))) = t"
proof (cases "HPFRunqueueTopTaskGet s")
  case None
  then show ?thesis using HPFTop_spec [OF k_invD(2) [OF inv]] ready_in_list [OF inv] by fastforce
next
  case (Some t)
  with HPFTop_spec [OF k_invD(2) [OF inv]] obtain b p rest where l: "lists s (PriQueList b p) = t # rest"
    and least: "\<And>b' p'. b' < 32 \<Longrightarrow> p' < 32 \<Longrightarrow> lists s (PriQueList b' p') \<noteq> [] \<Longrightarrow> b < b' \<or> b = b' \<and> p \<le> p'" by auto
  note h = lists_head_ready [OF inv l]
  have "prio_le (tcb s t) (tcb s t')" if "ready_hpf s t'" for t'
  proof -
    have "lists s (PriQueList (task_base s t') (task_prio s t')) \<noteq> []" using ready_in_list(1) [OF inv that] by auto
    from least [OF ready_in_list(2,3) [OF inv that] this] show ?thesis
      unfolding h(2,3) prio_le_def word_less_nat_alt word_le_nat_alt by (metis unsigned_word_eqI)
  qed
  then show ?thesis using Some h l by auto
qed

lemma TopTaskGet_spec:
  assumes inv: "k_inv s" and idle: "idle_ok s" and edf: "lists s EdfRoot = []"
  shows "\<exists>s' t. TopTaskGet s = Some (s', t) \<and> k_inv s' \<and> env_of s' = env_of s \<and> timer_of s' = timer_of s \<and> schedFlag s' = schedFlag s \<and>
    (\<forall>t'. t' \<noteq> t \<longrightarrow> tcb s' t' = tcb s t') \<and>
    tcb s' t = (tcb s t)\<lparr>pendOn := None, taskStatus := status_of s t AND NOT OS_TASK_STATUS_READY\<rparr> \<and>
    (\<forall>h. wait_list h \<longrightarrow> lists s' h = lists s h) \<and> lists s' EdfRoot = [] \<and>
    (ready_hpf s t \<and> (\<forall>t'. ready_hpf s t' \<longrightarrow> prio_le (tcb s t) (tcb s t')) \<or>
     (\<forall>t'. \<not> ready_hpf s t') \<and> t = idleTask s)"
proof (cases "HPFRunqueueTopTaskGet s")
  case (Some t)
  with HPFTop_highest [OF inv] have t: "ready_hpf s t" "\<forall>t'. ready_hpf s t' \<longrightarrow> prio_le (tcb s t) (tcb s t')" by auto
  then obtain s' where s': "HPFDequeue t s = Some s'" "k_inv s'" "env_of s' = env_of s" "timer_of s' = timer_of s" "schedFlag s' = schedFlag s"
    "lists s' = (lists s)(PriQueList (task_base s t) (task_prio s t) := remove1 t (lists s (PriQueList (task_base s t) (task_prio s t))))"
    "tcb s' = (tcb s)(t := (tcb s t)\<lparr>pendOn := None, taskStatus := status_of s t AND NOT OS_TASK_STATUS_READY\<rparr>)"
    using HPFDequeue_spec [OF inv, of t] by (auto simp: ready_hpf_def)
  have "TopTaskGet s = Some (s', t)"
    using Some edf t(1) s'(1) by (simp add: TopTaskGet_def EDFRunqueueTopTaskGet_def ops_start_def HPFStartToRun_def ready_hpf_def)
  moreover have "\<forall>h. wait_list h \<longrightarrow> lists s' h = lists s h" "lists s' EdfRoot = []" using s'(6) edf by auto
  ultimately show ?thesis using s' t by (intro exI [of _ s'] exI [of _ t]) simp
next
  case None
  let ?t = "idleTask s" let ?f = "\<lambda>c. c\<lparr>taskStatus := taskStatus c AND NOT OS_TASK_STATUS_READY\<rparr>"
  have t: "ops (tcb s ?t) = g_idleOps" using idle by (simp add: idle_ok_def)
  then have l: "link_ok (tcb s ?t)" "pendOn (tcb s ?t) = None" using k_invD(4) [OF inv, of ?t] unfolding link_ok_def by blast+
  have "TopTaskGet s = Some (clr_status ?t OS_TASK_STATUS_READY s, ?t)"
    using None edf t by (simp add: TopTaskGet_def EDFRunqueueTopTaskGet_def ops_start_def IdleStartToRun_def IdleDequeue_def Let_def)
  moreover have "link_ok (?f (tcb s ?t))" using l t by (simp add: link_ok_def flag_simps)
  then have "k_inv (clr_status ?t OS_TASK_STATUS_READY s)" unfolding clr_status_def
    by (intro k_inv_upd_task [OF inv]) (simp_all add: flag_simps timed_ok_def)
  moreover have "tcb s ?t = (tcb s ?t)\<lparr>pendOn := None\<rparr>" using l(2) by simp
  ultimately show ?thesis using None HPFTop_highest [OF inv] edf
    by (intro exI [of _ "clr_status ?t OS_TASK_STATUS_READY s"] exI [of _ ?t]) (simp add: task_updates)
qed

section \<open>Switching\<close>

text \<open>The two halves of \<open>SchedTaskSwitch\<close>: hand over the processor, then account for the task that left.\<close>

definition hand_over :: "nat \<Rightarrow> nat \<Rightarrow> 'a kstate_scheme \<Rightarrow> 'a kstate_scheme" where
  "hand_over runTask newTask s =
    (set_status newTask OS_TASK_STATUS_RUNNING (clr_status runTask OS_TASK_STATUS_RUNNING s))\<lparr>currTask := newTask\<rparr>"

lemma hand_over_tcb:
  "runTask \<noteq> newTask \<Longrightarrow> tcb (hand_over runTask newTask s) = (tcb s)
    (runTask := (tcb s runTask)\<lparr>taskStatus := status_of s runTask AND NOT OS_TASK_STATUS_RUNNING\<rparr>,
     newTask := (tcb s newTask)\<lparr>taskStatus := status_of s newTask OR OS_TASK_STATUS_RUNNING\<rparr>)"
  by (simp add: hand_over_def task_updates)

lemma hand_over_frame [simp]:
  "lists (hand_over r n s) = lists s" "timer_of (hand_over r n s) = timer_of s" "timeoutQueue (hand_over r n s) = timeoutQueue s"
  "clock (hand_over r n s) = clock s" "currTask (hand_over r n s) = n" "idleTask (hand_over r n s) = idleTask s"
  "cfg (hand_over r n s) = cfg s" "kstate.more (hand_over r n s) = kstate.more s" "taskLockCnt (hand_over r n s) = taskLockCnt s"
  "intActive (hand_over r n s) = intActive s" "sortNodes (hand_over r n s) = sortNodes s"
  by (simp_all add: hand_over_def task_updates timer_of_def)

lemma env_of_hand_over [simp]: "env_of (hand_over r n s) = env_of (s\<lparr>currTask := n\<rparr>)"
  by (simp add: env_of_def hand_over_def task_updates)

lemma k_inv_hand_over: "k_inv s \<Longrightarrow> k_inv (hand_over r n s)"
  unfolding hand_over_def k_inv_env task_updates by (intro k_inv_minor minor_updates)

text \<open>The condition under which a state can be handed to a chosen task: all but the chosen task are as required, and the
  old task is linked somewhere, delayed, or suspended, or is the idle task.\<close>

definition chosen_ok :: "'a kstate_scheme \<Rightarrow> nat \<Rightarrow> bool" where
  "chosen_ok s t \<longleftrightarrow> (\<forall>t'. has (status_of s t') OS_TASK_STATUS_RUNNING \<longleftrightarrow> t' = currTask s) \<and>
    pendOn (tcb s t) = None \<and> \<not> is_ready (tcb s t) \<and> \<not> is_frozen (tcb s t) \<and>
    \<not> has (status_of s t) OS_TASK_STATUS_BLOCKED \<and> t \<notin> timed_tasks s"

lemma TopTaskGet_chosen:
  assumes inv: "k_inv s" and idle: "idle_ok s" and edf: "lists s EdfRoot = []"
    and run: "\<And>t. has (status_of s t) OS_TASK_STATUS_RUNNING \<longleftrightarrow> t = currTask s"
    and top: "TopTaskGet s = Some (s', t)"
  shows "chosen_ok s' t"
proof -
  from TopTaskGet_spec [OF inv idle edf] top have s': "k_inv s'" "env_of s' = env_of s" "timer_of s' = timer_of s"
      "\<forall>t'. t' \<noteq> t \<longrightarrow> tcb s' t' = tcb s t'"
      "tcb s' t = (tcb s t)\<lparr>pendOn := None, taskStatus := status_of s t AND NOT OS_TASK_STATUS_READY\<rparr>"
      "ready_hpf s t \<or> t = idleTask s" by auto
  have st: "has (status_of s' t) m \<longleftrightarrow> has (status_of s t) (m AND NOT OS_TASK_STATUS_READY)" for m by (simp add: s'(5) flag_simps)
  have run': "has (status_of s' t') OS_TASK_STATUS_RUNNING \<longleftrightarrow> t' = currTask s'" for t'
    using run [of t'] s'(4) st [of OS_TASK_STATUS_RUNNING] env_ofD(4) [OF s'(2)] by (cases "t' = t") auto
  have tm: "t \<notin> timed_tasks s'" "\<not> is_frozen (tcb s t)" "\<not> has (status_of s t) OS_TASK_STATUS_BLOCKED"
  proof -
    have "t \<notin> timed_tasks s \<and> \<not> is_frozen (tcb s t) \<and> \<not> has (status_of s t) OS_TASK_STATUS_BLOCKED"
      using s'(6)
    proof
      assume "t = idleTask s"
      then show ?thesis using idle by (simp add: idle_ok_def)
    next
      assume r: "ready_hpf s t"
      then have "\<not> has (status_of s t) OS_TASK_STATUS_BLOCKED" "\<not> is_frozen (tcb s t)"
        using k_invD(4) [OF inv, of t] unfolding link_ok_def ready_hpf_def by blast+
      moreover have "t \<notin> timed_tasks s" using r k_invD(3) [OF inv] unfolding timeouts_ok_def timed_ok_def ready_hpf_def by blast
      ultimately show ?thesis by simp
    qed
    then show "t \<notin> timed_tasks s'" "\<not> is_frozen (tcb s t)" "\<not> has (status_of s t) OS_TASK_STATUS_BLOCKED"
      using s'(3) by (simp_all add: timer_of_def)
  qed
  show ?thesis unfolding chosen_ok_def using run' tm st by (simp add: s'(5) flag_simps)
qed

lemma run_ok_chosen: "chosen_ok s (currTask s) \<Longrightarrow> run_ok s"
  by (simp add: run_ok_def chosen_ok_def)

lemma run_ok_hand_over:
  assumes "chosen_ok s n" and "currTask s = r" and "r \<noteq> n"
  shows "run_ok (hand_over r n s)"
  using assms by (auto simp: run_ok_def chosen_ok_def hand_over_tcb flag_simps)

text \<open>\<open>run_ok\<close> does not look at the times of the blocks.\<close>

lemma run_ok_upd:
  assumes "run_ok s" and "\<And>t. taskStatus (tcb s' t) = taskStatus (tcb s t) \<and> pendOn (tcb s' t) = pendOn (tcb s t)"
    and "currTask s' = currTask s" and "timeoutQueue s' = timeoutQueue s"
  shows "run_ok s'"
  using assms by (simp add: run_ok_def)

lemma SchedTaskSwitch_alt:
  "SchedTaskSwitch r n s = (let s2 = hand_over r n s in do {
      s3 \<leftarrow> (if has (status_of s2 r) OS_TASK_STATUS_READY
        then Some (upd_task n (\<lambda>c. c\<lparr>startTime := startTime (tcb s2 r)\<rparr>) s2)
        else do {
          let s' = upd_task n (\<lambda>c. c\<lparr>startTime := clock s2\<rparr>) s2;
          s4 \<leftarrow> ops_timeSliceUpdate r (startTime (tcb s' n)) s';
          if has (status_of s4 r) (OS_TASK_STATUS_PEND_TIME OR OS_TASK_STATUS_DELAY)
          then do {
            (s5, time) \<leftarrow> ops_waitTimeGet r s4;
            OsSchedTimeoutQueueAdd r time s5
          }
          else Some s4
        });
      Some (SchedNextExpireTimeSet (of_nat n) (ops_deadlineGet n s3) (of_nat r) s3)
    })"
  by (simp add: SchedTaskSwitch_def hand_over_def Let_def)

lemma switch_ready:
  assumes inv: "k_inv s" and ch: "chosen_ok s n" and r: "currTask s = r" "r \<noteq> n" "is_ready (tcb s r)"
  shows "\<exists>s'. SchedTaskSwitch r n s = Some s' \<and> k_inv s' \<and> run_ok s' \<and> env_of s' = env_of (s\<lparr>currTask := n\<rparr>) \<and>
    lists s' = lists s \<and> timer_of s' = timer_of s \<and> tcb s' r = (tcb s r)\<lparr>taskStatus := status_of s r AND NOT OS_TASK_STATUS_RUNNING\<rparr> \<and>
    (\<forall>t. t \<noteq> r \<and> t \<noteq> n \<longrightarrow> tcb s' t = tcb s t) \<and> ops (tcb s' n) = ops (tcb s n) \<and> sp (tcb s' n) = sp (tcb s n)"
proof -
  let ?h = "hand_over r n s"
  define s1 where "s1 = upd_task n (\<lambda>c. c\<lparr>startTime := startTime (tcb ?h r)\<rparr>) ?h"
  define s' where "s' = SchedNextExpireTimeSet (of_nat n) (ops_deadlineGet n s1) (of_nat r) s1"
  have "is_ready (tcb ?h r)" using r by (simp add: hand_over_tcb flag_simps)
  then have "SchedTaskSwitch r n s = Some s'"
    by (simp add: SchedTaskSwitch_alt s1_def s'_def Let_def)
  moreover have "k_inv s'" unfolding s'_def s1_def k_inv_SchedNextExpireTimeSet
    by (intro k_inv_minor k_inv_hand_over inv minor_updates)
  moreover have "run_ok s'"
    by (rule run_ok_upd [OF run_ok_hand_over [OF ch r(1,2)]]) (simp_all add: s'_def s1_def)
  moreover have "env_of s' = env_of (s\<lparr>currTask := n\<rparr>)" unfolding s'_def s1_def by simp
  ultimately show ?thesis using r(2) by (intro exI [of _ s']) (simp add: s'_def s1_def hand_over_tcb)
qed

section \<open>\<open>LOS_Schedule\<close>\<close>

lemma HPFTimeSliceUpdate_spec:
  assumes "slice_ok s t"
  shows "\<exists>s' x. HPFTimeSliceUpdate t (clock s) s = Some s' \<and> tcb s' = (tcb s)(t := (tcb s t)\<lparr>timeSlice := x, irqUsedTime := 0, startTime := clock s\<rparr>) \<and>
    lists s' = lists s \<and> readyTasks s' = readyTasks s \<and> prioBitmap s' = prioBitmap s \<and> baseBitmap s' = baseBitmap s \<and>
    timer_of s' = timer_of s \<and> env_of s' = env_of s"
proof -
  define inc where "inc = (ucast (clock s - startTime (tcb s t) - ucast (irqUsedTime (tcb s t))) :: i32)"
  define x where "x = (if policy (sp (tcb s t)) = LOS_SCHED_RR then timeSlice (tcb s t) - inc else timeSlice (tcb s t))"
  let ?s1 = "upd_task t (\<lambda>c. c\<lparr>timeSlice := x, irqUsedTime := 0, startTime := clock s\<rparr>) s"
  have "HPFTimeSliceUpdate t (clock s) s = Some (if sint x \<le> sint (timeSliceLow (cfg s))
      then ?s1\<lparr>schedFlag := schedFlag ?s1 OR INT_PEND_RESCH\<rparr> else ?s1)"
    unfolding HPFTimeSliceUpdate_def Let_def inc_def [symmetric] x_def [symmetric]
    using assms by (simp add: slice_ok_def inc_def)
  then show ?thesis by (intro exI conjI) (assumption, simp_all add: env_of_def timer_of_def)
qed

lemma HPFTimeSliceUpdate_inv:
  assumes "slice_ok s t" and "k_inv s" and "HPFTimeSliceUpdate t (clock s) s = Some s'"
  shows "k_inv s'"
proof -
  obtain x where s': "tcb s' = (tcb s)(t := (tcb s t)\<lparr>timeSlice := x, irqUsedTime := 0, startTime := clock s\<rparr>)"
    "lists s' = lists s" "readyTasks s' = readyTasks s" "prioBitmap s' = prioBitmap s" "baseBitmap s' = baseBitmap s" "timer_of s' = timer_of s"
    using HPFTimeSliceUpdate_spec [OF assms(1)] assms(3) by auto
  have "k_inv s' = k_inv (upd_task t (\<lambda>c. c\<lparr>timeSlice := x, irqUsedTime := 0, startTime := clock s\<rparr>) s)"
    using s' by (intro k_inv_cong) simp_all
  then show ?thesis using k_inv_minor [OF assms(2) minor_updates(5)] by simp
qed

lemma idle_ok_cong:
  assumes "idle_ok s" and "idleTask s' = idleTask s" and "timeoutQueue s' = timeoutQueue s"
    and "\<And>t. ops (tcb s' t) = ops (tcb s t)"
    and "\<And>m. m \<in> {OS_TASK_STATUS_FROZEN, OS_TASK_STATUS_BLOCKED} \<Longrightarrow> has (status_of s' (idleTask s)) m = has (status_of s (idleTask s)) m"
  shows "idle_ok s'"
  using assms by (simp add: idle_ok_def)

lemma OsSchedResched_ready:
  assumes inv: "k_inv s" and idle: "idle_ok s" and edf: "lists s EdfRoot = []" and lock: "taskLockCnt s = 0"
    and run: "\<And>t. has (status_of s t) OS_TASK_STATUS_RUNNING \<longleftrightarrow> t = currTask s" and cur: "ready_hpf s (currTask s)"
  shows "\<exists>s'. OsSchedResched s = Some s' \<and> k_inv s' \<and> run_ok s' \<and> env_of s' = env_of (s\<lparr>currTask := currTask s'\<rparr>) \<and>
    timer_of s' = timer_of s \<and> (\<forall>h. wait_list h \<longrightarrow> lists s' h = lists s h) \<and> lists s' EdfRoot = [] \<and>
    ready_hpf s (currTask s') \<and> (\<forall>t. ready_hpf s t \<longrightarrow> prio_le (tcb s (currTask s')) (tcb s t)) \<and>
    (\<forall>t. ops (tcb s' t) = ops (tcb s t) \<and> basePrio (sp (tcb s' t)) = basePrio (sp (tcb s t)) \<and> priority (sp (tcb s' t)) = priority (sp (tcb s t))) \<and>
    (\<forall>t. ready_hpf s' t \<longleftrightarrow> ready_hpf s t \<and> t \<noteq> currTask s')"
proof -
  define s0 where "s0 = s\<lparr>schedFlag := schedFlag s AND NOT INT_PEND_RESCH\<rparr>"
  have s0: "k_inv s0" "tcb s0 = tcb s" "lists s0 = lists s" "timer_of s0 = timer_of s" "env_of s0 = env_of s" "currTask s0 = currTask s"
    "timeoutQueue s0 = timeoutQueue s" "idleTask s0 = idleTask s"
    using inv by (simp_all add: s0_def timer_of_def env_of_def)
  have idle0: "idle_ok s0" and edf0: "lists s0 EdfRoot = []" using idle edf s0 by (simp_all add: idle_ok_def)
  obtain s1 n where top: "TopTaskGet s0 = Some (s1, n)" and inv1: "k_inv s1" and s1: "env_of s1 = env_of s0" "timer_of s1 = timer_of s0"
      "\<forall>t'. t' \<noteq> n \<longrightarrow> tcb s1 t' = tcb s0 t'" "tcb s1 n = (tcb s0 n)\<lparr>pendOn := None, taskStatus := status_of s0 n AND NOT OS_TASK_STATUS_READY\<rparr>"
      "\<forall>h. wait_list h \<longrightarrow> lists s1 h = lists s0 h" "lists s1 EdfRoot = []"
    and best: "ready_hpf s0 n" "\<forall>t'. ready_hpf s0 t' \<longrightarrow> prio_le (tcb s0 n) (tcb s0 t')"
    using TopTaskGet_spec [OF s0(1) idle0 edf0] cur s0(2) unfolding ready_hpf_def by auto
  have ch: "chosen_ok s1 n" using run s0 by (intro TopTaskGet_chosen [OF s0(1) idle0 edf0 _ top]) simp
  have c1: "currTask s1 = currTask s" using env_ofD(4) [OF s1(1)] s0(6) by simp
  have ready1: "ready_hpf s1 t \<longleftrightarrow> ready_hpf s t \<and> t \<noteq> n" for t
    using s1(3,4) s0(2) by (cases "t = n") (simp_all add: ready_hpf_def flag_simps)
  have res: "OsSchedResched s = (if currTask s = n then Some s1 else SchedTaskSwitch (currTask s) n s1)"
    using lock top by (simp add: OsSchedResched_def s0_def)
  have keep: "ops (tcb s1 t) = ops (tcb s t) \<and> sp (tcb s1 t) = sp (tcb s t)" for t
    using s1(3,4) s0(2) by (cases "t = n") simp_all
  show ?thesis
  proof (cases "currTask s = n")
    case True
    then have "run_ok s1" using ch c1 run_ok_chosen by metis
    with True res show ?thesis using inv1 s1 s0 best ready1 keep c1
      by (intro exI [of _ s1]) (simp add: env_of_def ready_hpf_def)
  next
    case False
    have rd: "is_ready (tcb s1 (currTask s))" using cur False s1(3) s0(2) by (simp add: ready_hpf_def)
    obtain s' where sw: "SchedTaskSwitch (currTask s) n s1 = Some s'" "k_inv s'" "run_ok s'" "env_of s' = env_of (s1\<lparr>currTask := n\<rparr>)"
      "lists s' = lists s1" "timer_of s' = timer_of s1"
      "tcb s' (currTask s) = (tcb s1 (currTask s))\<lparr>taskStatus := status_of s1 (currTask s) AND NOT OS_TASK_STATUS_RUNNING\<rparr>"
      "\<forall>t. t \<noteq> currTask s \<and> t \<noteq> n \<longrightarrow> tcb s' t = tcb s1 t" "ops (tcb s' n) = ops (tcb s1 n)" "sp (tcb s' n) = sp (tcb s1 n)"
      using switch_ready [OF inv1 ch c1 False rd] by blast
    have cur': "currTask s' = n" using env_ofD(4) [OF sw(4)] by simp
    have keep': "ops (tcb s' t) = ops (tcb s t) \<and> sp (tcb s' t) = sp (tcb s t)" for t
      using keep [of t] sw(7-10) False by (cases "t = n"; cases "t = currTask s") auto
    have ready': "ready_hpf s' t \<longleftrightarrow> ready_hpf s t \<and> t \<noteq> n" for t
    proof (cases "t = n")
      case True
      then show ?thesis using sw(3) cur' by (auto simp: run_ok_def ready_hpf_def)
    next
      case ne: False
      then show ?thesis using ready1 [of t] sw(7,8) by (cases "t = currTask s") (simp_all add: ready_hpf_def flag_simps)
    qed
    have "env_of s' = env_of (s\<lparr>currTask := n\<rparr>)" using sw(4) s1(1) s0(5) by (simp add: env_of_def)
    with False res sw s1 s0 best keep' ready' cur' show ?thesis
      by (intro exI [of _ s']) (simp add: ready_hpf_def)
  qed
qed

lemma run_ok_preenqueue:
  assumes "run_ok s" and "HPFTimeSliceUpdate (currTask s) (clock s) s = Some s1" and "slice_ok s (currTask s)"
  shows "run_ok s1"
proof -
  obtain x where "tcb s1 = (tcb s)(currTask s := (tcb s (currTask s))\<lparr>timeSlice := x, irqUsedTime := 0, startTime := clock s\<rparr>)"
      "timer_of s1 = timer_of s" "env_of s1 = env_of s"
    using HPFTimeSliceUpdate_spec [OF assms(3)] assms(2) by auto
  then show ?thesis using env_ofD(4) [of s1 s]
    by (intro run_ok_upd [OF assms(1)]) (simp_all add: timer_of_def)
qed

text \<open>The first steps of \<open>LOS_Schedule\<close>: charge the running task and put it back into its ready queue.\<close>

lemma requeue_current:
  assumes inv: "k_inv s" and run: "run_ok s" and idle: "idle_ok s" and edf: "lists s EdfRoot = []"
    and cur: "ops (tcb s (currTask s)) = g_priorityOps" and sl: "slice_ok s (currTask s)"
  shows "\<exists>s1 s2. ops_timeSliceUpdate (currTask s) (clock s) s = Some s1 \<and> ops_enqueue (currTask s) s1 = Some s2 \<and>
    k_inv s2 \<and> idle_ok s2 \<and> lists s2 EdfRoot = [] \<and> env_of s2 = env_of s \<and> timer_of s2 = timer_of s \<and>
    (\<forall>t. has (status_of s2 t) OS_TASK_STATUS_RUNNING \<longleftrightarrow> t = currTask s2) \<and> (\<forall>h. wait_list h \<longrightarrow> lists s2 h = lists s h) \<and>
    (\<forall>t. ready_hpf s2 t \<longleftrightarrow> ready_hpf s t \<or> t = currTask s)"
proof -
  let ?c = "currTask s"
  obtain s1 x where u: "HPFTimeSliceUpdate ?c (clock s) s = Some s1"
    and t1: "tcb s1 = (tcb s)(?c := (tcb s ?c)\<lparr>timeSlice := x, irqUsedTime := 0, startTime := clock s\<rparr>)"
    and l1: "lists s1 = lists s" "timer_of s1 = timer_of s" "env_of s1 = env_of s" using HPFTimeSliceUpdate_spec [OF sl] by blast
  have inv1: "k_inv s1" using HPFTimeSliceUpdate_inv [OF sl inv u] .
  have pre: "ops (tcb s1 ?c) = g_priorityOps" "pendOn (tcb s1 ?c) = None" "?c \<notin> timed_tasks s1" "\<not> is_frozen (tcb s1 ?c)"
    using cur run l1(2) by (simp_all add: t1 run_ok_def timer_of_def)
  obtain s2 k where e: "HPFEnqueue ?c s1 = Some s2" and inv2: "k_inv s2" and s2: "env_of s2 = env_of s1" "timer_of s2 = timer_of s1"
      "lists s2 = (lists s1)(PriQueList (task_base s1 ?c) (task_prio s1 ?c) := insert_after k ?c (lists s1 (PriQueList (task_base s1 ?c) (task_prio s1 ?c))))"
      "\<forall>t'. t' \<noteq> ?c \<longrightarrow> tcb s2 t' = tcb s1 t'"
      "status_of s2 ?c = (status_of s1 ?c AND NOT OS_TASK_STATUS_BLOCKED) OR OS_TASK_STATUS_READY"
    and c2: "\<exists>x y. tcb s2 ?c = (tcb s1 ?c)\<lparr>taskStatus := status_of s2 ?c, pendOn := pendOn (tcb s2 ?c),
        sp := (sp (tcb s1 ?c))\<lparr>initTimeSlice := x\<rparr>, timeSlice := y\<rparr>"
    using HPFEnqueue_spec [OF inv1 pre] by blast
  from c2 obtain y z where yz: "tcb s2 ?c = (tcb s1 ?c)\<lparr>taskStatus := status_of s2 ?c, pendOn := pendOn (tcb s2 ?c),
      sp := (sp (tcb s1 ?c))\<lparr>initTimeSlice := y\<rparr>, timeSlice := z\<rparr>" by blast
  have "ops (tcb s2 ?c) = ops (tcb s1 ?c)" using arg_cong [OF yz, of ops] by simp
  then have o2: "ops (tcb s2 t) = ops (tcb s t)" for t using s2(4) t1 by (cases "t = ?c") simp_all
  have st2: "has (status_of s2 t) OS_TASK_STATUS_RUNNING \<longleftrightarrow> has (status_of s t) OS_TASK_STATUS_RUNNING" for t
    using s2(4,5) t1 by (cases "t = ?c") (simp_all add: flag_simps)
  have cur2: "currTask s2 = ?c" "idleTask s2 = idleTask s" using env_ofD [OF s2(1)] env_ofD [OF l1(3)] by simp_all
  have "idleTask s \<noteq> ?c" using idle cur unfolding idle_ok_def by (metis SchedOps.distinct(3))
  then have "idle_ok s2"
    using s2 t1 l1(2) cur2 by (intro idle_ok_cong [OF idle _ _ o2]) (simp_all add: timer_of_def)
  moreover have "ready_hpf s2 t \<longleftrightarrow> ready_hpf s t \<or> t = ?c" for t
    using o2 [of t] s2(4,5) cur t1 by (cases "t = ?c") (simp_all add: ready_hpf_def flag_simps)
  moreover have "ops_timeSliceUpdate ?c (clock s) s = Some s1" "ops_enqueue ?c s1 = Some s2"
    using u e cur pre by (simp_all add: ops_timeSliceUpdate_def ops_enqueue_def)
  moreover have "lists s2 EdfRoot = []" "\<forall>h. wait_list h \<longrightarrow> lists s2 h = lists s h" using s2(3) l1(1) edf by auto
  moreover have "has (status_of s2 t) OS_TASK_STATUS_RUNNING \<longleftrightarrow> t = currTask s2" for t using st2 run cur2 by (simp add: run_ok_def)
  ultimately show ?thesis using inv2 s2(1,2) l1 by (intro exI [of _ s1] exI [of _ s2]) simp
qed

lemma LOS_Schedule_spec:
  assumes inv: "k_inv s" and run: "run_ok s" and idle: "idle_ok s" and edf: "lists s EdfRoot = []"
    and sched: "\<not> intActive s" "taskLockCnt s = 0" and cur: "ops (tcb s (currTask s)) = g_priorityOps" "slice_ok s (currTask s)"
  shows "\<exists>s'. LOS_Schedule s = Some s' \<and> k_inv s' \<and> run_ok s' \<and> kstate.more s' = kstate.more s \<and> timer_of s' = timer_of s \<and>
    (\<forall>h. wait_list h \<longrightarrow> lists s' h = lists s h) \<and> ops (tcb s' (currTask s')) = g_priorityOps \<and>
    (\<forall>t. ready_hpf s' t \<longrightarrow> prio_le (tcb s' (currTask s')) (tcb s' t)) \<and>
    (\<forall>t. ready_hpf s' t \<or> t = currTask s' \<longleftrightarrow> ready_hpf s t \<or> t = currTask s)"
proof -
  obtain s1 s2 where s2: "ops_timeSliceUpdate (currTask s) (clock s) s = Some s1" "ops_enqueue (currTask s) s1 = Some s2"
    "k_inv s2" "idle_ok s2" "lists s2 EdfRoot = []" "env_of s2 = env_of s" "timer_of s2 = timer_of s"
    "\<And>t. has (status_of s2 t) OS_TASK_STATUS_RUNNING \<longleftrightarrow> t = currTask s2" "\<forall>h. wait_list h \<longrightarrow> lists s2 h = lists s h"
    "\<And>t. ready_hpf s2 t \<longleftrightarrow> ready_hpf s t \<or> t = currTask s"
    using requeue_current [OF inv run idle edf cur] by blast
  note env = env_ofD [OF s2(6)]
  have "taskLockCnt s2 = 0" "ready_hpf s2 (currTask s2)" using env sched s2(10) by simp_all
  then obtain s' where s': "OsSchedResched s2 = Some s'" "k_inv s'" "run_ok s'" "env_of s' = env_of (s2\<lparr>currTask := currTask s'\<rparr>)"
    "timer_of s' = timer_of s2" "\<forall>h. wait_list h \<longrightarrow> lists s' h = lists s2 h" "ready_hpf s2 (currTask s')"
    "\<And>t. ready_hpf s2 t \<Longrightarrow> prio_le (tcb s2 (currTask s')) (tcb s2 t)"
    "\<And>t. ops (tcb s' t) = ops (tcb s2 t) \<and> basePrio (sp (tcb s' t)) = basePrio (sp (tcb s2 t)) \<and> priority (sp (tcb s' t)) = priority (sp (tcb s2 t))"
    "\<And>t. ready_hpf s' t \<longleftrightarrow> ready_hpf s2 t \<and> t \<noteq> currTask s'"
    using OsSchedResched_ready [OF s2(3-5) _ s2(8)] by blast
  have "LOS_Schedule s = Some s'"
    using sched s2(1,2) s'(1) by (simp add: LOS_Schedule_def OsPreemptable_def)
  moreover have "prio_le (tcb s' (currTask s')) (tcb s' t)" if "ready_hpf s' t" for t
    using s'(8) [of t] s'(9) [of t] s'(9) [of "currTask s'"] s'(10) [of t] that by (simp add: prio_le_def)
  moreover have "kstate.more s' = kstate.more s" using env_ofD(7) [OF s'(4)] env(7) by simp
  moreover have "ops (tcb s' (currTask s')) = g_priorityOps" using s'(7,9) by (simp add: ready_hpf_def)
  moreover have "ready_hpf s' t \<or> t = currTask s' \<longleftrightarrow> ready_hpf s t \<or> t = currTask s" for t using s'(7,10) s2(10) by metis
  moreover have "timer_of s' = timer_of s" "\<forall>h. wait_list h \<longrightarrow> lists s' h = lists s h" using s'(5,6) s2(7,9) by simp_all
  ultimately show ?thesis using s'(2,3) by blast
qed

section \<open>Blocking\<close>

lemma TimeoutQueueAdd_spec:
  assumes inv: "k_inv s" and t: "t \<notin> timed_tasks s" "\<not> is_frozen (tcb s t)" "timed_ok (tcb s t)"
    and time: "time \<noteq> OS_SORT_LINK_INVALID_TIME"
  shows "\<exists>s'. OsSchedTimeoutQueueAdd t time s = Some s' \<and> k_inv s' \<and> env_of s' = env_of s \<and> schedFlag s' = schedFlag s \<and>
    tcb s' = tcb s \<and> lists s' = lists s \<and> timed_tasks s' = insert t (timed_tasks s) \<and>
    responseTime (sortNodes s' t) = time \<and> (\<forall>t'. t' \<noteq> t \<longrightarrow> sortNodes s' t' = sortNodes s t')"
proof -
  have tm: "timeouts_ok s" using k_invD(3) [OF inv] .
  then obtain h where a: "OsAdd2SortLink (sortNodes s) (timeoutQueue s) t time 0 =
      Some ((sortNodes s)(t := (sortNodes s t)\<lparr>responseTime := time, cpuid := 0\<rparr>), h)"
    "sl_inv ((sortNodes s)(t := (sortNodes s t)\<lparr>responseTime := time, cpuid := 0\<rparr>)) h" "set (sortLink h) = insert t (timed_tasks s)"
    using OsAdd2SortLink_spec [OF _ t(1) time] unfolding timeouts_ok_def by blast
  define s' where "s' = s\<lparr>sortNodes := (sortNodes s)(t := (sortNodes s t)\<lparr>responseTime := time, cpuid := 0\<rparr>), timeoutQueue := h\<rparr>"
  have "OsSchedTimeoutQueueAdd t time s = Some s'" using t(1) a(1) by (simp add: OsSchedTimeoutQueueAdd_def s'_def)
  moreover have "timeouts_ok s'" using tm a t time by (auto simp: timeouts_ok_def s'_def)
  then have "k_inv s'" using inv by (auto simp: k_inv_def lists_ok_def s'_def queues_ok_def)
  moreover have "env_of s' = env_of s" by (simp add: env_of_def s'_def)
  ultimately show ?thesis using a(3) by (simp add: s'_def)
qed

text \<open>The block of a task that has left the processor: charged up to now, and otherwise as it was.\<close>

definition left_cpu :: "LosTaskCB \<Rightarrow> LosTaskCB \<Rightarrow> bool" where
  "left_cpu c c' \<longleftrightarrow> pendOn c' = pendOn c \<and> ops c' = ops c \<and> sp c' = sp c \<and> taskStatus c' = taskStatus c AND NOT OS_TASK_STATUS_RUNNING \<and>
    waitID c' = waitID c \<and> waitFlag c' = waitFlag c \<and> taskMux c' = taskMux c \<and> taskEvent c' = taskEvent c \<and>
    eventMask c' = eventMask c \<and> eventMode c' = eventMode c \<and> processCB c' = processCB c"

lemma blocked_accounting:
  assumes inv: "k_inv s" and r: "ops (tcb s r) = g_priorityOps" "slice_ok s r" "r \<notin> timed_tasks s" "\<not> is_frozen (tcb s r)" "\<not> is_ready (tcb s r)"
    and timed: "is_pending (tcb s r) \<Longrightarrow> has (status_of s r) (OS_TASK_STATUS_PEND_TIME OR OS_TASK_STATUS_DELAY) \<Longrightarrow> has (status_of s r) OS_TASK_STATUS_PEND_TIME"
    and time: "has (status_of s r) (OS_TASK_STATUS_PEND_TIME OR OS_TASK_STATUS_DELAY) \<Longrightarrow> waitTime (tcb s r) + clock s \<noteq> OS_SORT_LINK_INVALID_TIME"
  shows "\<exists>s' x w. do {
      s4 \<leftarrow> ops_timeSliceUpdate r (clock s) s;
      if has (status_of s4 r) (OS_TASK_STATUS_PEND_TIME OR OS_TASK_STATUS_DELAY)
      then do { (s5, time) \<leftarrow> ops_waitTimeGet r s4; OsSchedTimeoutQueueAdd r time s5 }
      else Some s4 } = Some s' \<and> k_inv s' \<and> env_of s' = env_of s \<and> lists s' = lists s \<and>
    tcb s' = (tcb s)(r := (tcb s r)\<lparr>timeSlice := x, irqUsedTime := 0, startTime := clock s, waitTime := w\<rparr>) \<and>
    (if has (status_of s r) (OS_TASK_STATUS_PEND_TIME OR OS_TASK_STATUS_DELAY)
     then timed_tasks s' = insert r (timed_tasks s) \<and> responseTime (sortNodes s' r) = waitTime (tcb s r) + clock s
     else timer_of s' = timer_of s)"
proof -
  obtain s4 x where u: "HPFTimeSliceUpdate r (clock s) s = Some s4"
    and t4: "tcb s4 = (tcb s)(r := (tcb s r)\<lparr>timeSlice := x, irqUsedTime := 0, startTime := clock s\<rparr>)"
    and l4: "lists s4 = lists s" "timer_of s4 = timer_of s" "env_of s4 = env_of s" using HPFTimeSliceUpdate_spec [OF r(2)] by blast
  have inv4: "k_inv s4" using HPFTimeSliceUpdate_inv [OF r(2) inv u] .
  have u': "ops_timeSliceUpdate r (clock s) s = Some s4" using u r(1) by (simp add: ops_timeSliceUpdate_def)
  show ?thesis
  proof (cases "has (status_of s r) (OS_TASK_STATUS_PEND_TIME OR OS_TASK_STATUS_DELAY)")
    case True
    define w where "w = waitTime (tcb s r) + clock s"
    define s5 where "s5 = upd_task r (\<lambda>c. c\<lparr>waitTime := w\<rparr>) s4"
    have wt: "ops_waitTimeGet r s4 = Some (s5, w)" using r(1) by (simp add: ops_waitTimeGet_def HPFWaitTimeGet_def t4 w_def s5_def Let_def)
    have inv5: "k_inv s5" unfolding s5_def by (intro k_inv_minor inv4 minor_updates)
    have "r \<notin> timed_tasks s5" "\<not> is_frozen (tcb s5 r)" "timed_ok (tcb s5 r)"
      using r True timed l4(2) by (simp_all add: s5_def t4 timer_of_def timed_ok_def)
    from TimeoutQueueAdd_spec [OF inv5 this time [OF True, folded w_def]] obtain s' where
      s': "OsSchedTimeoutQueueAdd r w s5 = Some s'" "k_inv s'" "env_of s' = env_of s5" "tcb s' = tcb s5" "lists s' = lists s5"
        "timed_tasks s' = insert r (timed_tasks s5)" "responseTime (sortNodes s' r) = w" by blast
    then show ?thesis using True u' wt l4
      by (intro exI [of _ s'] exI [of _ x] exI [of _ w]) (simp add: t4 s5_def w_def timer_of_def)
  next
    case False
    have "(tcb s r)\<lparr>timeSlice := x, irqUsedTime := 0, startTime := clock s\<rparr> =
        (tcb s r)\<lparr>timeSlice := x, irqUsedTime := 0, startTime := clock s, waitTime := waitTime (tcb s r)\<rparr>" by simp
    then show ?thesis using False u' l4 inv4
      by (intro exI [of _ s4] exI [of _ x] exI [of _ "waitTime (tcb s r)"]) (simp add: t4)
  qed
qed

lemma switch_blocked:
  assumes inv: "k_inv s" and ch: "chosen_ok s n" and r: "currTask s = r" "r \<noteq> n" "ops (tcb s r) = g_priorityOps" "slice_ok s r"
      "r \<notin> timed_tasks s" "\<not> is_frozen (tcb s r)" "\<not> is_ready (tcb s r)"
    and timed: "is_pending (tcb s r) \<Longrightarrow> has (status_of s r) (OS_TASK_STATUS_PEND_TIME OR OS_TASK_STATUS_DELAY) \<Longrightarrow> has (status_of s r) OS_TASK_STATUS_PEND_TIME"
    and time: "has (status_of s r) (OS_TASK_STATUS_PEND_TIME OR OS_TASK_STATUS_DELAY) \<Longrightarrow> waitTime (tcb s r) + clock s \<noteq> OS_SORT_LINK_INVALID_TIME"
  shows "\<exists>s'. SchedTaskSwitch r n s = Some s' \<and> k_inv s' \<and> run_ok s' \<and> env_of s' = env_of (s\<lparr>currTask := n\<rparr>) \<and>
    lists s' = lists s \<and> left_cpu (tcb s r) (tcb s' r) \<and>
    (\<forall>t. t \<noteq> r \<and> t \<noteq> n \<longrightarrow> tcb s' t = tcb s t) \<and> ops (tcb s' n) = ops (tcb s n) \<and> sp (tcb s' n) = sp (tcb s n) \<and>
    (if has (status_of s r) (OS_TASK_STATUS_PEND_TIME OR OS_TASK_STATUS_DELAY)
     then timed_tasks s' = insert r (timed_tasks s) \<and> responseTime (sortNodes s' r) = waitTime (tcb s r) + clock s
     else timer_of s' = timer_of s)"
proof -
  define s2 where "s2 = hand_over r n s"
  define s3 where "s3 = upd_task n (\<lambda>c. c\<lparr>startTime := clock s2\<rparr>) s2"
  have t3: "tcb s3 r = (tcb s r)\<lparr>taskStatus := status_of s r AND NOT OS_TASK_STATUS_RUNNING\<rparr>" "startTime (tcb s3 n) = clock s3"
    using r(2) by (simp_all add: s3_def s2_def hand_over_tcb)
  have o3: "tcb s3 t = tcb s t" if "t \<noteq> r" "t \<noteq> n" for t using that r(2) by (simp add: s3_def s2_def hand_over_tcb)
  have n3: "ops (tcb s3 n) = ops (tcb s n)" "sp (tcb s3 n) = sp (tcb s n)" using r(2) by (simp_all add: s3_def s2_def hand_over_tcb)
  have inv3: "k_inv s3" unfolding s3_def s2_def by (intro k_inv_minor k_inv_hand_over inv minor_updates)
  have f3: "lists s3 = lists s" "timer_of s3 = timer_of s" "env_of s3 = env_of (s\<lparr>currTask := n\<rparr>)" "clock s3 = clock s" "timeoutQueue s3 = timeoutQueue s"
    by (simp_all add: s3_def s2_def)
  have run3: "run_ok s3"
    by (rule run_ok_upd [OF run_ok_hand_over [OF ch r(1,2)]]) (simp_all add: s3_def s2_def)
  have st: "has (status_of s3 r) m \<longleftrightarrow> has (status_of s r) m" if "m \<in> {OS_TASK_STATUS_PENDING, OS_TASK_STATUS_PEND_TIME, OS_TASK_STATUS_READY,
      OS_TASK_STATUS_FROZEN, OS_TASK_STATUS_PEND_TIME OR OS_TASK_STATUS_DELAY}" for m
    using that t3(1) by (auto simp: flag_simps)
  have "ops (tcb s3 r) = g_priorityOps" "slice_ok s3 r" "r \<notin> timed_tasks s3" "\<not> is_frozen (tcb s3 r)" "\<not> is_ready (tcb s3 r)"
    "is_pending (tcb s3 r) \<Longrightarrow> has (status_of s3 r) (OS_TASK_STATUS_PEND_TIME OR OS_TASK_STATUS_DELAY) \<Longrightarrow> has (status_of s3 r) OS_TASK_STATUS_PEND_TIME"
    "has (status_of s3 r) (OS_TASK_STATUS_PEND_TIME OR OS_TASK_STATUS_DELAY) \<Longrightarrow> waitTime (tcb s3 r) + clock s3 \<noteq> OS_SORT_LINK_INVALID_TIME"
    using r timed time f3 st by (simp_all add: t3(1) slice_ok_def)
  from blocked_accounting [OF inv3 this] obtain s4 x w where
    acc: "do { s4 \<leftarrow> ops_timeSliceUpdate r (clock s3) s3;
      if has (status_of s4 r) (OS_TASK_STATUS_PEND_TIME OR OS_TASK_STATUS_DELAY)
      then do { (s5, time) \<leftarrow> ops_waitTimeGet r s4; OsSchedTimeoutQueueAdd r time s5 }
      else Some s4 } = Some s4" and inv4: "k_inv s4" and s4: "env_of s4 = env_of s3" "lists s4 = lists s3"
      "tcb s4 = (tcb s3)(r := (tcb s3 r)\<lparr>timeSlice := x, irqUsedTime := 0, startTime := clock s3, waitTime := w\<rparr>)"
    and tm4: "if has (status_of s3 r) (OS_TASK_STATUS_PEND_TIME OR OS_TASK_STATUS_DELAY)
     then timed_tasks s4 = insert r (timed_tasks s3) \<and> responseTime (sortNodes s4 r) = waitTime (tcb s3 r) + clock s3
     else timer_of s4 = timer_of s3" by blast
  define s' where "s' = SchedNextExpireTimeSet (of_nat n) (ops_deadlineGet n s4) (of_nat r) s4"
  have "SchedTaskSwitch r n s = Some s'"
    unfolding SchedTaskSwitch_alt Let_def s2_def [symmetric] s3_def [symmetric] t3(2) acc
    using st [of OS_TASK_STATUS_READY] r(2,7) by (simp add: s'_def s3_def)
  moreover have "k_inv s'" using inv4 by (simp add: s'_def)
  moreover have "timed_tasks s' \<subseteq> insert r (timed_tasks s)"
    using tm4 f3(5) by (auto simp: s'_def timer_of_def split: if_splits)
  have "run_ok s'"
    using run3 s4 f3 r(2) env_ofD(4) [OF s4(1)] env_ofD(4) [OF f3(3)] \<open>timed_tasks s' \<subseteq> _\<close>
    by (auto simp: run_ok_def s'_def)
  moreover have "env_of s' = env_of (s\<lparr>currTask := n\<rparr>)" using s4(1) f3(3) by (simp add: s'_def)
  moreover have "left_cpu (tcb s r) (tcb s' r)" using s4(3) t3(1) by (simp add: left_cpu_def s'_def)
  moreover have "if has (status_of s r) (OS_TASK_STATUS_PEND_TIME OR OS_TASK_STATUS_DELAY)
     then timed_tasks s' = insert r (timed_tasks s) \<and> responseTime (sortNodes s' r) = waitTime (tcb s r) + clock s
     else timer_of s' = timer_of s"
    using tm4 f3(2,4,5) st [of "OS_TASK_STATUS_PEND_TIME OR OS_TASK_STATUS_DELAY"] unfolding s'_def timer_of_def by (simp add: t3(1))
  ultimately show ?thesis using s4(2,3) f3(1) n3 r(2) o3
    by (intro exI [of _ s'] conjI) (simp_all add: s'_def)
qed

end
