(* ===== verification/LosSchedBlock.thy ===== *)
theory LosSchedBlock
  imports LosSchedSwitch
begin

text \<open>
  Waiting on a list and being woken, as the interprocess communication objects use them, and the properties of the
  scheduler as a whole. The interface to the objects is the locale \<open>waker\<close>.
\<close>

section \<open>Blocking the running task\<close>

lemma link_wait_spec:
  assumes inv: "k_inv s" and t: "pendOn (tcb s t) = None" "ops (tcb s t) = g_priorityOps" "t \<notin> timed_tasks s"
    and h: "wait_list h"
    and f: "f = (\<lambda>c. c\<lparr>pendOn := Some h, taskStatus := st, waitTime := w\<rparr>)"
    and st: "has st OS_TASK_STATUS_PENDING" "\<not> has st OS_TASK_STATUS_READY" "has st OS_TASK_STATUS_FROZEN \<longleftrightarrow> is_frozen (tcb s t)"
  shows "k_inv (upd_task t f (s\<lparr>lists := (lists s)(h := insert_after k t (lists s h))\<rparr>))" (is "k_inv ?s")
proof -
  have "lists_ok ?s" by (rule lists_ok_insert [OF k_invD(1) [OF inv] t(1), of _ h k]) (simp_all add: f)
  moreover have "queues_ok ?s" using h k_invD(2) [OF inv] by (subst queues_ok_cong [of _ s]) auto
  moreover have "timeouts_ok ?s" using t(3) st(3) by (intro timeouts_ok_mono [OF k_invD(3) [OF inv]]) (auto simp: f)
  moreover have "link_ok (f (tcb s t))"
    using k_invD(4) [OF inv, of t] t(2) h st by (auto simp: link_ok_def f)
  ultimately show ?thesis using k_invD(4) [OF inv] by (auto simp: k_inv_def)
qed

text \<open>The state just before the reschedule: the running task is linked and marked.\<close>

definition wait_linked :: "nat \<Rightarrow> listHead \<Rightarrow> nat \<Rightarrow> u32 \<Rightarrow> 'a kstate_scheme \<Rightarrow> 'a kstate_scheme" where
  "wait_linked t h k ticks s = upd_task t (\<lambda>c. c\<lparr>pendOn := Some h,
      taskStatus := status_of s t OR (if ticks = LOS_WAIT_FOREVER then OS_TASK_STATUS_PENDING else OS_TASK_STATUS_PENDING OR OS_TASK_STATUS_PEND_TIME),
      waitTime := (if ticks = LOS_WAIT_FOREVER then waitTime (tcb s t) else OS_SCHED_TICK_TO_CYCLE ticks s)\<rparr>)
    (s\<lparr>lists := (lists s)(h := insert_after k t (lists s h))\<rparr>)"

lemma HPFWait_linked:
  assumes "pendOn (tcb s t) = None"
  shows "HPFWait t h k ticks s = wait_resched t (wait_linked t h k ticks s)"
proof -
  have "(taskStatus (tcb s t) OR OS_TASK_STATUS_PENDING) OR OS_TASK_STATUS_PEND_TIME = status_of s t OR (OS_TASK_STATUS_PENDING OR OS_TASK_STATUS_PEND_TIME)"
    by (simp add: or.assoc)
  moreover have swap: "(tcb s t)\<lparr>taskStatus := a, pendOn := b\<rparr> = (tcb s t)\<lparr>pendOn := b, taskStatus := a\<rparr>" for a b
    by (rule LosTaskCB.equality) simp_all
  ultimately show ?thesis
    using assms by (auto simp: swap HPFWait_def pend_insert_def wait_linked_def task_updates upd_task_def OS_SCHED_TICK_TO_CYCLE_def Let_def)
qed

lemma HPFWait_spec:
  assumes inv: "k_inv s" and run: "run_ok s" and idle: "idle_ok s" and edf: "lists s EdfRoot = []" and lock: "taskLockCnt s = 0"
    and t: "t = currTask s" "ops (tcb s t) = g_priorityOps" "slice_ok s t" and h: "wait_list h"
    and time: "ticks \<noteq> LOS_WAIT_FOREVER \<Longrightarrow> OS_SCHED_TICK_TO_CYCLE ticks s + clock s \<noteq> OS_SORT_LINK_INVALID_TIME"
  shows "\<exists>s'. HPFWait t h k ticks s = Some (s', WaitBlocked) \<and> k_inv s' \<and> run_ok s' \<and> currTask s' \<noteq> t \<and>
    env_of s' = env_of (s\<lparr>currTask := currTask s'\<rparr>) \<and>
    lists s' h = insert_after k t (lists s h) \<and> (\<forall>h'. wait_list h' \<and> h' \<noteq> h \<longrightarrow> lists s' h' = lists s h') \<and>
    left_cpu (tcb (wait_linked t h k ticks s) t) (tcb s' t) \<and>
    (\<forall>t'. t' \<noteq> t \<and> t' \<noteq> currTask s' \<longrightarrow> tcb s' t' = tcb s t') \<and>
    (if ticks = LOS_WAIT_FOREVER then t \<notin> timed_tasks s'
     else t \<in> timed_tasks s' \<and> responseTime (sortNodes s' t) = OS_SCHED_TICK_TO_CYCLE ticks s + clock s) \<and>
    (ready_hpf s (currTask s') \<and> (\<forall>t'. ready_hpf s t' \<longrightarrow> prio_le (tcb s (currTask s')) (tcb s t')) \<or>
     (\<forall>t'. \<not> ready_hpf s t') \<and> currTask s' = idleTask s)"
proof -
  have r: "pendOn (tcb s t) = None" "t \<notin> timed_tasks s" "\<not> is_ready (tcb s t)" "\<not> is_frozen (tcb s t)"
    "\<not> has (status_of s t) OS_TASK_STATUS_BLOCKED" "\<And>t'. has (status_of s t') OS_TASK_STATUS_RUNNING \<longleftrightarrow> t' = t"
    using run t(1) by (simp_all add: run_ok_def)
  define s1 where "s1 = (wait_linked t h k ticks s)\<lparr>schedFlag := schedFlag s AND NOT INT_PEND_RESCH\<rparr>"
  have inv1: "k_inv s1"
    unfolding s1_def wait_linked_def k_inv_env using r by (intro link_wait_spec [OF inv r(1) t(2) r(2) h refl]) (simp_all add: flag_simps)
  have t1: "tcb s1 = (tcb s)(t := tcb (wait_linked t h k ticks s) t)" by (simp add: s1_def wait_linked_def)
  have c1: "pendOn (tcb s1 t) = Some h" "ops (tcb s1 t) = g_priorityOps" "\<not> is_ready (tcb s1 t)" "\<not> is_frozen (tcb s1 t)" "slice_ok s1 t"
    "has (status_of s1 t) OS_TASK_STATUS_RUNNING" "t \<notin> timed_tasks s1" "currTask s1 = t"
    using r t by (simp_all add: s1_def wait_linked_def flag_simps slice_ok_def)
  have l1: "lists s1 = (lists s)(h := insert_after k t (lists s h))" "env_of s1 = env_of s" "timer_of s1 = timer_of s" "clock s1 = clock s"
    "timeoutQueue s1 = timeoutQueue s" "idleTask s1 = idleTask s" by (simp_all add: s1_def wait_linked_def env_of_def timer_of_def)
  have "\<not> has (status_of s t) OS_TASK_STATUS_DELAY" "\<not> has (status_of s t) OS_TASK_STATUS_PEND_TIME"
    using r(5) has_mono [of "status_of s t" OS_TASK_STATUS_DELAY OS_TASK_STATUS_BLOCKED]
      has_mono [of "status_of s t" OS_TASK_STATUS_PEND_TIME OS_TASK_STATUS_BLOCKED] by auto
  then have pt: "has (status_of s1 t) (OS_TASK_STATUS_PEND_TIME OR OS_TASK_STATUS_DELAY) \<longleftrightarrow> ticks \<noteq> LOS_WAIT_FOREVER"
      "has (status_of s1 t) OS_TASK_STATUS_PEND_TIME \<longleftrightarrow> ticks \<noteq> LOS_WAIT_FOREVER"
    unfolding has_split by (simp_all add: s1_def wait_linked_def flag_simps)
  have nidle: "idleTask s \<noteq> t" using idle t(2) unfolding idle_ok_def by (metis SchedOps.distinct(3))
  have ops1: "ops (tcb s1 t') = ops (tcb s t')" for t' by (cases "t' = t") (simp_all add: t1 wait_linked_def)
  have idle1: "idle_ok s1" using nidle l1 t1 by (intro idle_ok_cong [OF idle _ _ ops1]) simp_all
  have edf1: "lists s1 EdfRoot = []" using edf h l1(1) by auto
  have ready1: "ready_hpf s1 t' \<longleftrightarrow> ready_hpf s t'" for t' using c1(3) r(3) t1 by (cases "t' = t") (simp_all add: ready_hpf_def)
  have run1: "has (status_of s1 t') OS_TASK_STATUS_RUNNING \<longleftrightarrow> t' = currTask s1" for t'
    using r(6) [of t'] c1(6,8) t1 by (cases "t' = t") simp_all
  obtain s2 n where top: "TopTaskGet s1 = Some (s2, n)" and inv2: "k_inv s2" and s2: "env_of s2 = env_of s1" "timer_of s2 = timer_of s1"
      "\<forall>t'. t' \<noteq> n \<longrightarrow> tcb s2 t' = tcb s1 t'" "\<forall>h. wait_list h \<longrightarrow> lists s2 h = lists s1 h"
      "sp (tcb s2 n) = sp (tcb s1 n)"
    and best: "ready_hpf s1 n \<and> (\<forall>t'. ready_hpf s1 t' \<longrightarrow> prio_le (tcb s1 n) (tcb s1 t')) \<or> (\<forall>t'. \<not> ready_hpf s1 t') \<and> n = idleTask s1"
    using TopTaskGet_spec [OF inv1 idle1 edf1] by auto
  have ch: "chosen_ok s2 n" by (rule TopTaskGet_chosen [OF inv1 idle1 edf1 run1 top])
  have nt: "n \<noteq> t" using best c1(3) nidle l1(6) by (auto simp: ready_hpf_def)
  have c2: "tcb s2 t = tcb s1 t" "currTask s2 = t" "clock s2 = clock s" "timeoutQueue s2 = timeoutQueue s"
    using s2 nt env_ofD [OF s2(1)] c1(8) l1 by (simp_all add: timer_of_def)
  have "\<exists>s'. SchedTaskSwitch t n s2 = Some s' \<and> k_inv s' \<and> run_ok s' \<and> env_of s' = env_of (s2\<lparr>currTask := n\<rparr>) \<and>
    lists s' = lists s2 \<and> left_cpu (tcb s2 t) (tcb s' t) \<and> (\<forall>t'. t' \<noteq> t \<and> t' \<noteq> n \<longrightarrow> tcb s' t' = tcb s2 t') \<and> ops (tcb s' n) = ops (tcb s2 n) \<and>
    sp (tcb s' n) = sp (tcb s2 n) \<and> (if has (status_of s2 t) (OS_TASK_STATUS_PEND_TIME OR OS_TASK_STATUS_DELAY)
     then timed_tasks s' = insert t (timed_tasks s2) \<and> responseTime (sortNodes s' t) = waitTime (tcb s2 t) + clock s2
     else timer_of s' = timer_of s2)"
    by (rule switch_blocked [OF inv2 ch c2(2) nt [symmetric]])
      (use c1 c2 pt time r(2) in \<open>auto simp: slice_ok_def s1_def wait_linked_def\<close>)
  then obtain s' where sw: "SchedTaskSwitch t n s2 = Some s'" "k_inv s'" "run_ok s'" "env_of s' = env_of (s2\<lparr>currTask := n\<rparr>)"
    "lists s' = lists s2" "left_cpu (tcb s2 t) (tcb s' t)" "\<forall>t'. t' \<noteq> t \<and> t' \<noteq> n \<longrightarrow> tcb s' t' = tcb s2 t'"
    and tm: "if has (status_of s2 t) (OS_TASK_STATUS_PEND_TIME OR OS_TASK_STATUS_DELAY)
     then timed_tasks s' = insert t (timed_tasks s2) \<and> responseTime (sortNodes s' t) = waitTime (tcb s2 t) + clock s2
     else timer_of s' = timer_of s2" by blast
  have cur': "currTask s' = n" using env_ofD(4) [OF sw(4)] by simp
  have "OsSchedResched (wait_linked t h k ticks s) = Some s'"
    using top lock sw(1) nt t(1) by (simp add: OsSchedResched_def s1_def wait_linked_def)
  then have "HPFWait t h k ticks s = Some (s', WaitBlocked)"
    using cur' nt lock by (simp add: HPFWait_linked [OF r(1)] wait_resched_def OsPreemptableInSched_def wait_linked_def)
  moreover have "env_of s' = env_of (s\<lparr>currTask := currTask s'\<rparr>)" using sw(4) s2(1) l1(2) cur' by (simp add: env_of_def)
  moreover have "lists s' h = insert_after k t (lists s h)" "\<forall>h'. wait_list h' \<and> h' \<noteq> h \<longrightarrow> lists s' h' = lists s h'"
    using sw(5) s2(4) l1(1) h by simp_all
  moreover have "left_cpu (tcb (wait_linked t h k ticks s) t) (tcb s' t)" using sw(6) c2(1) t1 by simp
  moreover have "\<forall>t'. t' \<noteq> t \<and> t' \<noteq> currTask s' \<longrightarrow> tcb s' t' = tcb s t'" using sw(7) s2(3) t1 cur' by simp
  moreover have "if ticks = LOS_WAIT_FOREVER then t \<notin> timed_tasks s'
     else t \<in> timed_tasks s' \<and> responseTime (sortNodes s' t) = OS_SCHED_TICK_TO_CYCLE ticks s + clock s"
    using tm pt c2 r(2) by (auto simp: timer_of_def s1_def wait_linked_def split: if_splits)
  moreover have "ready_hpf s (currTask s') \<and> (\<forall>t'. ready_hpf s t' \<longrightarrow> prio_le (tcb s (currTask s')) (tcb s t')) \<or>
     (\<forall>t'. \<not> ready_hpf s t') \<and> currTask s' = idleTask s"
  proof -
    have "tcb s1 t' = tcb s t'" if "ready_hpf s t'" for t' using that r(3) t1 by (cases "t' = t") (auto simp: ready_hpf_def)
    with best show ?thesis unfolding ready1 cur' l1(6) by auto
  qed
  ultimately show ?thesis using sw(2,3) cur' nt by blast
qed

section \<open>The interface of the wait lists\<close>

text \<open>What the interprocess communication objects rely on: waking a waiter takes it out of its list and nothing else out
  of any list, makes it runnable, and leaves the other waiters as wakeable as before. \<open>wake_seq\<close> wakes several
  waiters one after the other.\<close>

fun wake_seq :: "(nat \<Rightarrow> 's \<Rightarrow> 's option) \<Rightarrow> nat list \<Rightarrow> 's \<Rightarrow> 's option" where
  "wake_seq wake [] s = Some s"
| "wake_seq wake (t # ts) s = do { s' \<leftarrow> wake t s; wake_seq wake ts s' }"

locale waker =
  fixes wake :: "nat \<Rightarrow> 's \<Rightarrow> 's option"
    and inv :: "'s \<Rightarrow> bool"
    and waiters :: "'s \<Rightarrow> 'h \<Rightarrow> nat list"
    and wakeable :: "'s \<Rightarrow> nat \<Rightarrow> bool"
    and runnable :: "'s \<Rightarrow> nat \<Rightarrow> bool"
    and obj :: "'s \<Rightarrow> 'o"
  assumes distinct_waiters: "inv s \<Longrightarrow> distinct (waiters s h)"
    and one_list: "inv s \<Longrightarrow> t \<in> set (waiters s h) \<Longrightarrow> t \<in> set (waiters s h') \<Longrightarrow> h = h'"
    and wake_law: "inv s \<Longrightarrow> t \<in> set (waiters s h) \<Longrightarrow> wakeable s t \<Longrightarrow>
      \<exists>s'. wake t s = Some s' \<and> inv s' \<and> (\<forall>h'. waiters s' h' = (if h' = h then remove1 t (waiters s h) else waiters s h')) \<and>
        runnable s' t \<and> (\<forall>t'. t' \<noteq> t \<longrightarrow> (wakeable s' t' \<longleftrightarrow> wakeable s t') \<and> (runnable s' t' \<longleftrightarrow> runnable s t')) \<and> obj s' = obj s"
begin

lemma wake_all:
  assumes "inv s" and "set ts \<subseteq> set (waiters s h)" and "distinct ts" and "\<forall>t \<in> set ts. wakeable s t"
  shows "\<exists>s'. wake_seq wake ts s = Some s' \<and> inv s' \<and> waiters s' h = filter (\<lambda>t. t \<notin> set ts) (waiters s h) \<and>
    (\<forall>h'. h' \<noteq> h \<longrightarrow> waiters s' h' = waiters s h') \<and> (\<forall>t \<in> set ts. runnable s' t) \<and>
    (\<forall>t. t \<notin> set ts \<longrightarrow> (wakeable s' t \<longleftrightarrow> wakeable s t) \<and> (runnable s' t \<longleftrightarrow> runnable s t)) \<and> obj s' = obj s"
  using assms
proof (induction ts arbitrary: s)
  case (Cons t ts)
  then obtain s1 where s1: "wake t s = Some s1" "inv s1" "\<And>h'. waiters s1 h' = (if h' = h then remove1 t (waiters s h) else waiters s h')"
    "runnable s1 t" "\<And>t'. t' \<noteq> t \<Longrightarrow> (wakeable s1 t' \<longleftrightarrow> wakeable s t') \<and> (runnable s1 t' \<longleftrightarrow> runnable s t')" "obj s1 = obj s"
    using wake_law [of s t h] by auto
  have d: "distinct (waiters s h)" using distinct_waiters [OF Cons.prems(1)] .
  have r1: "remove1 t (waiters s h) = filter ((\<noteq>) t) (waiters s h)" using d by (simp add: distinct_remove1_removeAll removeAll_filter_not_eq)
  have "set ts \<subseteq> set (waiters s1 h)" using Cons.prems(2,3) d s1(3) by auto
  moreover have "\<forall>t' \<in> set ts. wakeable s1 t'" using Cons.prems(3,4) s1(5) by (metis distinct.simps(2) list.set_intros(2))
  ultimately obtain s' where s': "wake_seq wake ts s1 = Some s'" "inv s'" "waiters s' h = filter (\<lambda>t. t \<notin> set ts) (waiters s1 h)"
    "\<forall>h'. h' \<noteq> h \<longrightarrow> waiters s' h' = waiters s1 h'" "\<forall>t \<in> set ts. runnable s' t"
    "\<forall>t. t \<notin> set ts \<longrightarrow> (wakeable s' t \<longleftrightarrow> wakeable s1 t) \<and> (runnable s' t \<longleftrightarrow> runnable s1 t)" "obj s' = obj s1"
    using Cons.IH [OF s1(2)] Cons.prems(3) by auto
  have "waiters s' h = filter (\<lambda>t'. t' \<notin> set (t # ts)) (waiters s h)"
    unfolding s'(3) s1(3) using r1 by (auto intro: filter_cong)
  with s1 s' Cons.prems(3) show ?case by (intro exI [of _ s']) auto
qed simp

end

text \<open>The scheduler provides it, for tasks of the priority policies that are not frozen by a suspend.\<close>

definition waiters_of :: "'a kstate_scheme \<Rightarrow> listHead \<Rightarrow> nat list" where
  "waiters_of s h = (if wait_list h then lists s h else [])"

definition wakeable :: "'a kstate_scheme \<Rightarrow> nat \<Rightarrow> bool" where
  "wakeable s t \<longleftrightarrow> ops (tcb s t) = g_priorityOps \<and> \<not> is_frozen (tcb s t)"

text \<open>Runnable: queued as ready, or held back only by a suspend.\<close>

definition runnable :: "'a kstate_scheme \<Rightarrow> nat \<Rightarrow> bool" where
  "runnable s t \<longleftrightarrow> \<not> is_pending (tcb s t) \<and> (ready_hpf s t \<or> has (status_of s t) OS_TASK_STATUS_SUSPENDED)"

lemma waiters_ofD: "k_inv s \<Longrightarrow> t \<in> set (waiters_of s h) \<longleftrightarrow> wait_list h \<and> pendOn (tcb s t) = Some h"
  by (simp add: waiters_of_def lists_okD)

lemma ops_wake_law:
  assumes inv: "k_inv s" and t: "t \<in> set (waiters_of s h)" "wakeable s t"
  shows "\<exists>s'. ops_wake t s = Some s' \<and> k_inv s' \<and> env_of s' = env_of s \<and> schedFlag s' = schedFlag s \<and>
    (\<forall>h'. waiters_of s' h' = (if h' = h then remove1 t (waiters_of s h) else waiters_of s h')) \<and>
    (\<forall>t'. t' \<noteq> t \<longrightarrow> tcb s' t' = tcb s t') \<and> woken (tcb s t) (tcb s' t) \<and>
    timed_tasks s' = timed_tasks s - {t} \<and> lists s' EdfRoot = lists s EdfRoot"
proof -
  have h: "wait_list h" "pendOn (tcb s t) = Some h" using t(1) waiters_ofD [OF inv] by blast+
  have w: "ops (tcb s t) = g_priorityOps" "\<not> is_frozen (tcb s t)" using t(2) by (simp_all add: wakeable_def)
  from HPFWake_spec [OF inv w(1) h(2,1) w(2)] show ?thesis
    using h(1) unfolding ops_wake_spec [OF w(1)] by (auto simp: waiters_of_def)
qed

lemma woken_runnable: "woken c (tcb s t) \<Longrightarrow> ops c = g_priorityOps \<Longrightarrow> runnable s t"
  by (auto simp: woken_def runnable_def ready_hpf_def)

interpretation sched: waker ops_wake k_inv waiters_of wakeable runnable env_of
proof unfold_locales
  fix s :: "'a kstate_scheme" and h assume "k_inv s"
  then show "distinct (waiters_of s h)" by (simp add: waiters_of_def lists_okD)
next
  fix s :: "'a kstate_scheme" and t h h' assume "k_inv s" "t \<in> set (waiters_of s h)" "t \<in> set (waiters_of s h')"
  then show "h = h'" by (simp add: waiters_ofD)
next
  fix s :: "'a kstate_scheme" and t h assume "k_inv s" "t \<in> set (waiters_of s h)" "wakeable s t"
  from ops_wake_law [OF this] obtain s' where s': "ops_wake t s = Some s'" "k_inv s'" "env_of s' = env_of s"
    "\<forall>h'. waiters_of s' h' = (if h' = h then remove1 t (waiters_of s h) else waiters_of s h')"
    "\<forall>t'. t' \<noteq> t \<longrightarrow> tcb s' t' = tcb s t'" "woken (tcb s t) (tcb s' t)" by blast
  have "runnable s' t" using woken_runnable [OF s'(6)] \<open>wakeable s t\<close> by (simp add: wakeable_def)
  with s' show "\<exists>s'. ops_wake t s = Some s' \<and> k_inv s' \<and> (\<forall>h'. waiters_of s' h' = (if h' = h then remove1 t (waiters_of s h) else waiters_of s h')) \<and>
        runnable s' t \<and> (\<forall>t'. t' \<noteq> t \<longrightarrow> (wakeable s' t' \<longleftrightarrow> wakeable s t') \<and> (runnable s' t' \<longleftrightarrow> runnable s t')) \<and> env_of s' = env_of s"
    by (intro exI [of _ s']) (simp add: wakeable_def runnable_def ready_hpf_def)
qed

section \<open>A concrete system\<close>

text \<open>Task 0 is the idle task, task 1 runs with process priority 10 and thread priority 10, every other task has thread
  priority 5 and is not in any queue. The state of the other components is \<open>m\<close>.\<close>

definition demo_policy :: "nat \<Rightarrow> SchedPolicy" where
  "demo_policy t = \<lparr>policy = if t = 0 then LOS_SCHED_IDLE else LOS_SCHED_FIFO, basePrio = 10, priority = if t \<le> 1 then 10 else 5,
    initTimeSlice = 0, priBitmap = 0, edfFlags = 0, runTime = 0, deadline = 0, period = 0, finishTime = 0\<rparr>"

definition demo_task :: "nat \<Rightarrow> LosTaskCB" where
  "demo_task t = \<lparr>taskStatus = if t = 1 then OS_TASK_STATUS_RUNNING else 0, startTime = 0, waitTime = 0, irqStartTime = 0,
    irqUsedTime = 0, timeSlice = 0, ops = if t = 0 then g_idleOps else g_priorityOps, sp = demo_policy t, taskMux = None,
    taskEvent = None, pendOn = None, eventMask = 0, eventMode = 0, processCB = 0, waitID = 0, waitFlag = 0\<rparr>"

definition demo_config :: kconfig where
  "demo_config = \<lparr>sysClock = 50000000, cyclePerTick = 500000, timeSlicesMin = 250000, timeSlicesMax = 1000000, timeSliceLow = 2500,
    schedMiniPeriod = 500000, tickPrecision = 375000, HalClockTickTimerReload = (\<lambda>x. x), usToCycle32 = (\<lambda>x. ucast x * 50)\<rparr>"

definition demo :: "'a \<Rightarrow> 'a kstate_scheme" where
  "demo m = \<lparr>cfg = demo_config, tcb = demo_task, threadSiblings = (\<lambda>_. []), lists = (\<lambda>_. []),
    sortNodes = (\<lambda>_. \<lparr>responseTime = OS_SORT_LINK_INVALID_TIME, cpuid = 0\<rparr>), readyTasks = (\<lambda>_ _. 0), prioBitmap = (\<lambda>_. 0),
    baseBitmap = 0, timeoutQueue = \<lparr>sortLink = [], nodeNum = 0\<rparr>, rqResponseTime = 0, responseID = 0, idleTask = 0,
    taskLockCnt = 0, schedFlag = 0, currTask = 1, taskScheduled = True, intActive = False, clock = 1000, \<dots> = m\<rparr>"

lemma demo_simps [simp]:
  "tcb (demo m) = demo_task" "lists (demo m) h = []" "timeoutQueue (demo m) = \<lparr>sortLink = [], nodeNum = 0\<rparr>"
  "currTask (demo m) = 1" "taskLockCnt (demo m) = 0" "idleTask (demo m) = 0" "intActive (demo m) = False" "clock (demo m) = 1000"
  "kstate.more (demo m) = m" "cfg (demo m) = demo_config" "schedFlag (demo m) = 0"
  by (simp_all add: demo_def)

lemma demo_task_simps [simp]:
  "pendOn (demo_task t) = None" "ops (demo_task t) = (if t = 0 then g_idleOps else g_priorityOps)" "sp (demo_task t) = demo_policy t"
  "taskStatus (demo_task t) = (if t = 1 then OS_TASK_STATUS_RUNNING else 0)"
  by (simp_all add: demo_task_def)

lemma demo_k_inv: "k_inv (demo m)"
proof -
  have "link_ok (demo_task t)" for t
    by (auto simp: link_ok_def demo_policy_def flag_simps)
  moreover have "queues_ok (demo m)" "timeouts_ok (demo m)" "lists_ok (demo m)"
    by (simp_all add: demo_def queues_ok_def timeouts_ok_def lists_ok_def sl_inv_def)
  ultimately show ?thesis by (simp add: k_inv_def)
qed

lemma demo_run_ok: "run_ok (demo m)"
  by (simp add: run_ok_def flag_simps)

lemma demo_idle_ok: "idle_ok (demo m)"
  by (simp add: idle_ok_def flag_simps)

lemma demo_slice_ok: "slice_ok (demo m) t"
  by (simp add: slice_ok_def demo_task_def)

text \<open>\<open>demo2\<close> is \<open>demo\<close> with task 2, of higher priority than the running task, made ready.\<close>

definition demo2 :: "'a \<Rightarrow> 'a kstate_scheme" where
  "demo2 m = the (HPFEnqueue 2 (demo m))"

lemma demo2:
  "k_inv (demo2 m)" "run_ok (demo2 m)" "idle_ok (demo2 m)" "lists (demo2 m) EdfRoot = []" "\<not> intActive (demo2 m)" "taskLockCnt (demo2 m) = 0"
  "ops (tcb (demo2 m) (currTask (demo2 m))) = g_priorityOps" "slice_ok (demo2 m) (currTask (demo2 m))" "currTask (demo2 m) = 1" "ready_hpf (demo2 m) 2"
proof -
  have "ops (tcb (demo m) 2) = g_priorityOps" "pendOn (tcb (demo m) 2) = None" "2 \<notin> timed_tasks (demo m)" "\<not> is_frozen (tcb (demo m) 2)"
    by (simp_all add: flag_simps)
  from HPFEnqueue_spec [OF demo_k_inv this] obtain s k where e: "HPFEnqueue 2 (demo m) = Some s" and s: "k_inv s" "env_of s = env_of (demo m)"
      "timer_of s = timer_of (demo m)" "lists s = (lists (demo m))(PriQueList (task_base (demo m) 2) (task_prio (demo m) 2) :=
        insert_after k 2 (lists (demo m) (PriQueList (task_base (demo m) 2) (task_prio (demo m) 2))))"
      "\<forall>t'. t' \<noteq> 2 \<longrightarrow> tcb s t' = tcb (demo m) t'"
      "status_of s 2 = (status_of (demo m) 2 AND NOT OS_TASK_STATUS_BLOCKED) OR OS_TASK_STATUS_READY"
    and c: "\<exists>x y. tcb s 2 = (tcb (demo m) 2)\<lparr>taskStatus := status_of s 2, pendOn := pendOn (tcb s 2),
       sp := (sp (tcb (demo m) 2))\<lparr>initTimeSlice := x\<rparr>, timeSlice := y\<rparr>" by blast
  obtain x y where xy: "tcb s 2 = (tcb (demo m) 2)\<lparr>taskStatus := status_of s 2, pendOn := pendOn (tcb s 2),
       sp := (sp (tcb (demo m) 2))\<lparr>initTimeSlice := x\<rparr>, timeSlice := y\<rparr>" using c by blast
  have eq: "demo2 m = s" using e by (simp add: demo2_def)
  have ops2: "ops (tcb s 2) = g_priorityOps" using arg_cong [OF xy, of ops] by simp
  have env: "currTask s = 1" "idleTask s = 0" "taskLockCnt s = 0" "\<not> intActive s" "clock s = 1000"
    using env_ofD [OF s(2)] by simp_all
  have tq: "timeoutQueue s = \<lparr>sortLink = [], nodeNum = 0\<rparr>" using s(3) by (simp add: timer_of_def)
  have st2: "status_of s 2 = OS_TASK_STATUS_READY" using s(6) by simp
  have others: "tcb s t = demo_task t" if "t \<noteq> 2" for t using s(5) that by simp
  have opsn: "ops (tcb s t) = (if t = 0 then g_idleOps else g_priorityOps)" for t using ops2 others by (cases "t = 2") simp_all
  show "k_inv (demo2 m)" using s(1) eq by simp
  have "has (status_of s t) OS_TASK_STATUS_RUNNING \<longleftrightarrow> t = 1" for t
    using st2 others by (cases "t = 2") (simp_all add: flag_simps)
  then show "run_ok (demo2 m)" unfolding eq run_ok_def env tq using others [of 1] by (simp add: flag_simps)
  show "idle_ok (demo2 m)" unfolding eq idle_ok_def env tq using opsn others [of 0] by (simp add: flag_simps)
  show "lists (demo2 m) EdfRoot = []" "\<not> intActive (demo2 m)" "taskLockCnt (demo2 m) = 0" "currTask (demo2 m) = 1"
    unfolding eq using env s(4) by simp_all
  show "ops (tcb (demo2 m) (currTask (demo2 m))) = g_priorityOps" unfolding eq env using opsn by simp
  show "slice_ok (demo2 m) (currTask (demo2 m))" unfolding eq env slice_ok_def using others [of 1] by (simp add: demo_task_def)
  show "ready_hpf (demo2 m) 2" unfolding eq ready_hpf_def using ops2 st2 by (simp add: flag_simps)
qed

section \<open>Properties\<close>

text \<open>C7. The scheduler runs a highest priority task: called outside interrupts with the scheduler unlocked, in a state
  that satisfies the scheduler invariant, with a priority-scheduled running task and no deadline task ready,
  \<open>LOS_Schedule\<close> does not fail, keeps the invariant, and afterwards no ready task has a higher priority (process priority
  first, then thread priority) than the running one; the set of tasks that are running or ready is the same
  as before, and the wait lists and the state of the other components are untouched.\<close>

theorem LOS_Schedule_highest:
  assumes "k_inv s" and "run_ok s" and "idle_ok s" and "lists s EdfRoot = []" and "\<not> intActive s" and "taskLockCnt s = 0"
    and "ops (tcb s (currTask s)) = g_priorityOps" and "slice_ok s (currTask s)"
  shows "\<exists>s'. LOS_Schedule s = Some s' \<and> k_inv s' \<and> run_ok s' \<and>
    (\<forall>t. ready_hpf s' t \<longrightarrow> prio_le (tcb s' (currTask s')) (tcb s' t)) \<and>
    (\<forall>t. ready_hpf s' t \<or> t = currTask s' \<longleftrightarrow> ready_hpf s t \<or> t = currTask s) \<and>
    (\<forall>h. wait_list h \<longrightarrow> lists s' h = lists s h) \<and> kstate.more s' = kstate.more s"
  using LOS_Schedule_spec [OF assms] by blast

theorem LOS_Schedule_highest_witness:
  "\<exists>s'. LOS_Schedule (demo2 ()) = Some s' \<and> (\<forall>t. ready_hpf s' t \<longrightarrow> prio_le (tcb s' (currTask s')) (tcb s' t)) \<and> (ready_hpf s' 2 \<or> currTask s' = 2)"
  using LOS_Schedule_highest [OF demo2(1-8) [of "()"]] demo2(10) by metis

text \<open>C29. Blocking: when the running task waits on a list with \<open>HPFWait\<close>, it is linked at the requested place of that
  list and of no other, it is in the timeout list exactly if the wait has a time limit and then expires after that many
  ticks, the invariant is kept, and the processor goes to a highest priority ready task, or to the idle
  task when none is ready.\<close>

theorem HPFWait_blocks:
  assumes "k_inv s" and "run_ok s" and "idle_ok s" and "lists s EdfRoot = []" and "taskLockCnt s = 0"
    and "ops (tcb s (currTask s)) = g_priorityOps" and "slice_ok s (currTask s)" and "wait_list h"
    and "ticks = LOS_WAIT_FOREVER \<or> OS_SCHED_TICK_TO_CYCLE ticks s + clock s \<noteq> OS_SORT_LINK_INVALID_TIME"
  shows "\<exists>s'. HPFWait (currTask s) h k ticks s = Some (s', WaitBlocked) \<and> k_inv s' \<and> run_ok s' \<and>
    lists s' h = insert_after k (currTask s) (lists s h) \<and> (\<forall>h'. wait_list h' \<and> h' \<noteq> h \<longrightarrow> lists s' h' = lists s h') \<and>
    (currTask s \<in> timed_tasks s' \<longleftrightarrow> ticks \<noteq> LOS_WAIT_FOREVER) \<and>
    (ticks \<noteq> LOS_WAIT_FOREVER \<longrightarrow> responseTime (sortNodes s' (currTask s)) = OS_SCHED_TICK_TO_CYCLE ticks s + clock s) \<and>
    (ready_hpf s (currTask s') \<and> (\<forall>t. ready_hpf s t \<longrightarrow> prio_le (tcb s (currTask s')) (tcb s t)) \<or>
     (\<forall>t. \<not> ready_hpf s t) \<and> currTask s' = idleTask s)"
proof -
  have "ticks \<noteq> LOS_WAIT_FOREVER \<Longrightarrow> OS_SCHED_TICK_TO_CYCLE ticks s + clock s \<noteq> OS_SORT_LINK_INVALID_TIME" using assms(9) by blast
  from HPFWait_spec [OF assms(1-5) refl assms(6-8) this, of k] show ?thesis by (auto split: if_splits)
qed

theorem HPFWait_blocks_witness:
  "\<exists>s'. HPFWait 1 (SemList 0) 0 LOS_WAIT_FOREVER (demo2 ()) = Some (s', WaitBlocked) \<and>
    lists s' (SemList 0) = insert_after 0 1 (lists (demo2 ()) (SemList 0)) \<and> ready_hpf (demo2 ()) (currTask s')"
  using HPFWait_blocks [OF demo2(1-4,6-8) [of "()"], of "SemList 0" LOS_WAIT_FOREVER 0] demo2(9,10) [of "()"] by (auto simp: demo2(9))

end
