(* ===== verification/LosSchedFrame.thy ===== *)
theory LosSchedFrame
  imports LosSchedOps
begin

text \<open>
  The scheduler never touches the state of the components built on it: whatever the state, an operation that returns
  leaves the record extension of \<open>kstate\<close>, where those components keep their control blocks, what a task
  block records about the object it waits for, and the policy and the priorities of every task, as they were.
\<close>

definition ipc_view :: "'a kstate_scheme \<Rightarrow> _" where
  "ipc_view s = (kstate.more s, \<lambda>x. (eventMask (tcb s x), eventMode (tcb s x), taskEvent (tcb s x), taskMux (tcb s x),
    waitID (tcb s x), waitFlag (tcb s x), processCB (tcb s x)),
    \<lambda>x. (ops (tcb s x), policy (sp (tcb s x)), basePrio (sp (tcb s x)), priority (sp (tcb s x)), priBitmap (sp (tcb s x))))"

lemma ipc_view_upd_task [simp]:
  assumes "\<And>c. eventMask (f c) = eventMask c \<and> eventMode (f c) = eventMode c \<and> taskEvent (f c) = taskEvent c \<and> taskMux (f c) = taskMux c \<and>
    waitID (f c) = waitID c \<and> waitFlag (f c) = waitFlag c \<and> processCB (f c) = processCB c \<and> ops (f c) = ops c \<and> policy (sp (f c)) = policy (sp c) \<and>
    basePrio (sp (f c)) = basePrio (sp c) \<and> priority (sp (f c)) = priority (sp c) \<and> priBitmap (sp (f c)) = priBitmap (sp c)"
  shows "ipc_view (upd_task t f s) = ipc_view s"
  using assms by (simp add: ipc_view_def fun_eq_iff)

lemma ipc_view_frame [simp]:
  "ipc_view (s\<lparr>lists := l\<rparr>) = ipc_view s" "ipc_view (s\<lparr>sortNodes := n\<rparr>) = ipc_view s"
  "ipc_view (s\<lparr>readyTasks := r\<rparr>) = ipc_view s" "ipc_view (s\<lparr>prioBitmap := p\<rparr>) = ipc_view s"
  "ipc_view (s\<lparr>baseBitmap := b\<rparr>) = ipc_view s" "ipc_view (s\<lparr>timeoutQueue := q\<rparr>) = ipc_view s"
  "ipc_view (s\<lparr>rqResponseTime := a\<rparr>) = ipc_view s" "ipc_view (s\<lparr>responseID := i\<rparr>) = ipc_view s"
  "ipc_view (s\<lparr>schedFlag := f\<rparr>) = ipc_view s" "ipc_view (s\<lparr>currTask := c\<rparr>) = ipc_view s"
  by (simp_all add: ipc_view_def)

lemma LOS_ASSERT_Some [simp]: "LOS_ASSERT b = Some u \<longleftrightarrow> b"
  by (simp add: LOS_ASSERT_def)

lemmas steps_simps = bind_eq_Some_conv Let_def task_updates

lemma pend_view [kframe]:
  "pend_insert k h t s = Some s' \<Longrightarrow> ipc_view s' = ipc_view s"
  "pend_tail_insert h t s = Some s' \<Longrightarrow> ipc_view s' = ipc_view s"
  "pend_head_insert h t s = Some s' \<Longrightarrow> ipc_view s' = ipc_view s"
  "pend_delete t s = Some s' \<Longrightarrow> ipc_view s' = ipc_view s"
  by (auto simp: pend_insert_def pend_tail_insert_def pend_head_insert_def pend_delete_def split: if_splits option.splits)

lemma timeout_queue_view [kframe]:
  "OsSchedTimeoutQueueAdd t time s = Some s' \<Longrightarrow> ipc_view s' = ipc_view s"
  "OsSchedTimeoutQueueDelete t s = Some s' \<Longrightarrow> ipc_view s' = ipc_view s"
  by (auto simp: OsSchedTimeoutQueueAdd_def OsSchedTimeoutQueueDelete_def steps_simps split: if_splits prod.splits)

lemma pri_que_view [simp]:
  "ipc_view (pri_que_mark b p s) = ipc_view s" "ipc_view (pri_que_count b p d s) = ipc_view s"
  by (simp_all add: pri_que_mark_def pri_que_count_def Let_def)

lemma PriQue_view [kframe]:
  "PriQueHeadInsert b t p s = Some s' \<Longrightarrow> ipc_view s' = ipc_view s"
  "PriQueTailInsert b t p s = Some s' \<Longrightarrow> ipc_view s' = ipc_view s"
  "PriQueDelete b t p s = Some s' \<Longrightarrow> ipc_view s' = ipc_view s"
  by (auto simp: PriQueHeadInsert_def PriQueTailInsert_def PriQueDelete_def steps_simps dest!: pend_view split: if_splits)

lemma HPFEnqueue_view [kframe]: "HPFEnqueue t s = Some s' \<Longrightarrow> ipc_view s' = ipc_view s"
  by (auto simp: HPFEnqueue_def PriQueInsert_def steps_simps dest!: PriQue_view split: if_splits)

lemma HPFDequeue_view [kframe]: "HPFDequeue t s = Some s' \<Longrightarrow> ipc_view s' = ipc_view s"
  by (auto simp: HPFDequeue_def steps_simps dest!: PriQue_view split: if_splits)

lemma EDF_view [kframe]:
  "DeadlineQueueInsert t s = Some s' \<Longrightarrow> ipc_view s' = ipc_view s"
  "EDFDequeue t s = Some s' \<Longrightarrow> ipc_view s' = ipc_view s"
  by (auto simp: DeadlineQueueInsert_def EDFDequeue_def steps_simps dest!: pend_view split: if_splits)

lemma EDFEnqueue_view [kframe]: "EDFEnqueue t s = Some s' \<Longrightarrow> ipc_view s' = ipc_view s"
  by (auto simp: EDFEnqueue_def steps_simps dest!: EDF_view timeout_queue_view pend_view split: if_splits)

lemma ops_view [kframe]:
  "ops_enqueue t s = Some s' \<Longrightarrow> ipc_view s' = ipc_view s"
  "ops_start t s = Some s' \<Longrightarrow> ipc_view s' = ipc_view s"
  "ops_timeSliceUpdate t time s = Some s' \<Longrightarrow> ipc_view s' = ipc_view s"
  by (auto simp: ops_enqueue_def ops_start_def ops_timeSliceUpdate_def IdleEnqueue_def IdleDequeue_def IdleStartToRun_def HPFStartToRun_def
      HPFTimeSliceUpdate_def EDFTimeSliceUpdate_def IdleTimeSliceUpdate_def steps_simps
      dest!: HPFEnqueue_view HPFDequeue_view EDFEnqueue_view EDF_view split: SchedOps.splits if_splits)

lemma waitTimeGet_view [kframe]: "ops_waitTimeGet t s = Some (s', time) \<Longrightarrow> ipc_view s' = ipc_view s"
  by (auto simp: ops_waitTimeGet_def HPFWaitTimeGet_def EDFWaitTimeGet_def Let_def split: SchedOps.splits)

lemma SchedNextExpireTimeSet_view [simp]: "ipc_view (SchedNextExpireTimeSet a b c s) = ipc_view s"
  by (simp add: SchedNextExpireTimeSet_def Let_def)

lemma SchedTaskSwitch_view [kframe]: "SchedTaskSwitch r n s = Some s' \<Longrightarrow> ipc_view s' = ipc_view s"
  by (auto simp: SchedTaskSwitch_def steps_simps dest!: ops_view waitTimeGet_view timeout_queue_view split: if_splits)

lemma OsSchedResched_view [kframe]: "OsSchedResched s = Some s' \<Longrightarrow> ipc_view s' = ipc_view s"
  by (auto simp: OsSchedResched_def TopTaskGet_def steps_simps dest!: ops_view SchedTaskSwitch_view split: if_splits)

lemma OsPreemptable_view [simp]:
  "ipc_view (fst (OsPreemptable s)) = ipc_view s" "ipc_view (fst (OsPreemptableInSched s)) = ipc_view s"
  by (simp_all add: OsPreemptable_def OsPreemptableInSched_def)

lemma LOS_Schedule_view [kframe]: "LOS_Schedule s = Some s' \<Longrightarrow> ipc_view s' = ipc_view s"
  by (auto simp: LOS_Schedule_def OsSchedRunqueuePendingSet_def OsPreemptable_def steps_simps
      dest!: ops_view OsSchedResched_view split: if_splits)

lemma wait_resched_view: "wait_resched t s = Some (s', r) \<Longrightarrow> ipc_view s' = ipc_view s"
  by (auto simp: wait_resched_def wait_resume_def OsPreemptableInSched_def steps_simps dest!: OsSchedResched_view split: if_splits)

lemma ops_wait_view [kframe]: "ops_wait t h k ticks s = Some (s', r) \<Longrightarrow> ipc_view s' = ipc_view s"
  by (auto simp: ops_wait_def HPFWait_def EDFWait_def IdleWait_def steps_simps
      dest!: wait_resched_view pend_view split: SchedOps.splits if_splits)

lemma wake_with_view:
  assumes "\<And>t s s'. enq t s = Some s' \<Longrightarrow> ipc_view s' = ipc_view s" and "wake_with enq t s = Some s'"
  shows "ipc_view s' = ipc_view s"
  using assms(2) by (auto simp: wake_with_def steps_simps dest!: assms(1) pend_view timeout_queue_view split: if_splits)

lemma ops_wake_view [kframe]: "ops_wake t s = Some s' \<Longrightarrow> ipc_view s' = ipc_view s"
  using wake_with_view [of HPFEnqueue, OF HPFEnqueue_view] wake_with_view [of EDFEnqueue, OF EDFEnqueue_view]
    wake_with_view [of ops_enqueue, OF ops_view(1)]
  by (auto simp: ops_wake_def HPFWake_def EDFWake_def IdleWake_def split: SchedOps.splits)

text \<open>In particular the extension is the same.\<close>

lemma view_more: "ipc_view s' = ipc_view s \<Longrightarrow> kstate.more s' = kstate.more s"
  by (simp add: ipc_view_def)

lemma viewD:
  assumes "ipc_view s' = ipc_view s"
  shows "eventMask (tcb s' x) = eventMask (tcb s x)" "eventMode (tcb s' x) = eventMode (tcb s x)" "taskEvent (tcb s' x) = taskEvent (tcb s x)"
    "taskMux (tcb s' x) = taskMux (tcb s x)" "waitID (tcb s' x) = waitID (tcb s x)" "waitFlag (tcb s' x) = waitFlag (tcb s x)"
    "processCB (tcb s' x) = processCB (tcb s x)" "kstate.more s' = kstate.more s" "ops (tcb s' x) = ops (tcb s x)" "policy (sp (tcb s' x)) = policy (sp (tcb s x))"
    "basePrio (sp (tcb s' x)) = basePrio (sp (tcb s x))" "priority (sp (tcb s' x)) = priority (sp (tcb s x))" "priBitmap (sp (tcb s' x)) = priBitmap (sp (tcb s x))"
  using assms by (simp_all add: ipc_view_def fun_eq_iff)

lemmas LOS_Schedule_more = LOS_Schedule_view [THEN view_more]
  and ops_wait_more = ops_wait_view [THEN view_more]
  and ops_wake_more = ops_wake_view [THEN view_more]

end
