(* ===== verification/LosSchedCall.thy ===== *)
theory LosSchedCall
  imports LosSchedBlock LosSchedFrame
begin

text \<open>
  The scheduler as the interprocess communication objects call it: the state in which a task running under a priority
  policy calls a kernel service, and what waking, waiting and the final reschedule do there.
\<close>

section \<open>The state of a service call\<close>

definition call_ok :: "'a kstate_scheme \<Rightarrow> bool" where
  "call_ok s \<longleftrightarrow> k_inv s \<and> run_ok s \<and> idle_ok s \<and> lists s EdfRoot = [] \<and>
    ops (tcb s (currTask s)) = g_priorityOps \<and> slice_ok s (currTask s)"

lemma call_okD:
  assumes "call_ok s"
  shows "k_inv s" "run_ok s" "idle_ok s" "lists s EdfRoot = []" "ops (tcb s (currTask s)) = g_priorityOps" "slice_ok s (currTask s)"
  using assms by (simp_all add: call_ok_def)

text \<open>A reschedule at the end of a service call: nothing when the caller is an interrupt or holds the scheduler lock, a
  switch to a highest priority task otherwise. \<open>waiting\<close> is what the objects see of a state.\<close>

definition waiting :: "'a kstate_scheme \<Rightarrow> listHead \<Rightarrow> nat list" where
  "waiting s h = waiters_of s h"

lemma waiting_lists: "wait_list h \<Longrightarrow> waiting s h = lists s h"
  by (simp add: waiting_def waiters_of_def)

lemma schedFlag_inv [simp]:
  "k_inv (s\<lparr>schedFlag := f\<rparr>) = k_inv s" "run_ok (s\<lparr>schedFlag := f\<rparr>) = run_ok s" "call_ok (s\<lparr>schedFlag := f\<rparr>) = call_ok s"
  by (simp_all add: run_ok_def call_ok_def idle_ok_def slice_ok_def)

lemma Schedule_call:
  assumes "call_ok s"
  shows "\<exists>s'. LOS_Schedule s = Some s' \<and> k_inv s' \<and> run_ok s' \<and> kstate.more s' = kstate.more s \<and> timer_of s' = timer_of s \<and>
    (\<forall>h. wait_list h \<longrightarrow> lists s' h = lists s h) \<and>
    (\<forall>t. ready_hpf s' t \<or> t = currTask s' \<longleftrightarrow> ready_hpf s t \<or> t = currTask s) \<and>
    (\<not> intActive s \<and> taskLockCnt s = 0 \<longrightarrow> (\<forall>t. ready_hpf s' t \<longrightarrow> prio_le (tcb s' (currTask s')) (tcb s' t)))"
proof (cases "intActive s \<or> taskLockCnt s \<noteq> 0")
  case True
  then have "LOS_Schedule s = Some (s\<lparr>schedFlag := schedFlag s OR INT_PEND_RESCH\<rparr>)"
    by (auto simp: LOS_Schedule_def OsSchedRunqueuePendingSet_def OsPreemptable_def)
  with True call_okD(1,2) [OF assms] show ?thesis by (auto simp: ready_hpf_def timer_of_def)
next
  case False
  with LOS_Schedule_spec [OF call_okD(1-4) [OF assms] _ _ call_okD(5,6) [OF assms]] show ?thesis by blast
qed

text \<open>The final reschedule, when somebody was woken.\<close>

lemma Schedule_if:
  assumes "call_ok s"
  shows "\<exists>s'. (if b then LOS_Schedule s else Some s) = Some s' \<and> k_inv s' \<and> run_ok s' \<and> ipc_view s' = ipc_view s \<and> waiting s' = waiting s \<and>
    (\<forall>t. ready_hpf s' t \<or> t = currTask s' \<longleftrightarrow> ready_hpf s t \<or> t = currTask s)"
proof (cases b)
  case True
  from Schedule_call [OF assms] obtain s' where s': "LOS_Schedule s = Some s'" "k_inv s'" "run_ok s'"
    "\<forall>h. wait_list h \<longrightarrow> lists s' h = lists s h" "\<forall>t. ready_hpf s' t \<or> t = currTask s' \<longleftrightarrow> ready_hpf s t \<or> t = currTask s" by blast
  moreover have "waiting s' = waiting s" using s'(4) by (simp add: fun_eq_iff waiting_def waiters_of_def)
  ultimately show ?thesis using True LOS_Schedule_view [OF s'(1)] by auto
qed (use call_okD [OF assms] in simp)

section \<open>Updates that keep it\<close>

text \<open>A change of what a task waits for, and a change of the state of the objects.\<close>

lemma call_ok_minor:
  assumes "call_ok s" and "minor_update f"
    and "\<And>c. startTime (f c) = startTime c \<and> irqUsedTime (f c) = irqUsedTime c \<and> taskStatus (f c) = taskStatus c"
  shows "call_ok (upd_task t f s)"
proof -
  have "run_ok (upd_task t f s)" using assms call_okD(2) [OF assms(1)] by (auto simp: run_ok_def minor_update_def)
  moreover have "idle_ok (upd_task t f s)" using assms call_okD(3) [OF assms(1)] by (auto simp: idle_ok_def minor_update_def)
  moreover have "slice_ok (upd_task t f s) (currTask s)" using assms call_okD(6) [OF assms(1)] by (auto simp: slice_ok_def)
  ultimately show ?thesis using call_okD [OF assms(1)] k_inv_minor [OF call_okD(1) [OF assms(1)] assms(2)] assms(2)
    by (auto simp: call_ok_def minor_update_def)
qed

lemma call_ok_pend_mask [simp]:
  "call_ok s \<Longrightarrow> call_ok (OsTaskWaitSetPendMask f i s)" "call_ok s \<Longrightarrow> call_ok (OsTaskWakeClearPendMask t s)"
  unfolding OsTaskWaitSetPendMask_def OsTaskWakeClearPendMask_def by (simp_all add: call_ok_minor minor_updates)

lemma pend_mask_frame [simp]:
  "lists (OsTaskWaitSetPendMask f i s) = lists s" "currTask (OsTaskWaitSetPendMask f i s) = currTask s"
  "clock (OsTaskWaitSetPendMask f i s) = clock s" "cfg (OsTaskWaitSetPendMask f i s) = cfg s" "taskLockCnt (OsTaskWaitSetPendMask f i s) = taskLockCnt s"
  "kstate.more (OsTaskWaitSetPendMask f i s) = kstate.more s" "timeoutQueue (OsTaskWaitSetPendMask f i s) = timeoutQueue s"
  "ready_hpf (OsTaskWaitSetPendMask f i s) t' = ready_hpf s t'" "intActive (OsTaskWaitSetPendMask f i s) = intActive s"
  "idleTask (OsTaskWaitSetPendMask f i s) = idleTask s" "ops (tcb (OsTaskWaitSetPendMask f i s) t') = ops (tcb s t')"
  by (simp_all add: OsTaskWaitSetPendMask_def ready_hpf_def)

lemma clear_mask_frame [simp]:
  "lists (OsTaskWakeClearPendMask t s) = lists s" "currTask (OsTaskWakeClearPendMask t s) = currTask s"
  "kstate.more (OsTaskWakeClearPendMask t s) = kstate.more s" "env_of (OsTaskWakeClearPendMask t s) = env_of s"
  "timeoutQueue (OsTaskWakeClearPendMask t s) = timeoutQueue s"
  "waiters_of (OsTaskWakeClearPendMask t s) = waiters_of s" "wakeable (OsTaskWakeClearPendMask t s) = wakeable s"
  "runnable (OsTaskWakeClearPendMask t s) = runnable s" "waiting (OsTaskWakeClearPendMask t s) = waiting s"
  by (simp_all add: OsTaskWakeClearPendMask_def waiters_of_def fun_eq_iff wakeable_def runnable_def ready_hpf_def waiting_def)

text \<open>The scheduler does not see the state of the objects.\<close>

lemma truncateD:
  assumes "kstate.truncate s' = kstate.truncate s"
  shows "tcb s' = tcb s" "lists s' = lists s" "readyTasks s' = readyTasks s" "prioBitmap s' = prioBitmap s" "baseBitmap s' = baseBitmap s"
    "timeoutQueue s' = timeoutQueue s" "sortNodes s' = sortNodes s" "currTask s' = currTask s" "idleTask s' = idleTask s" "clock s' = clock s"
    "intActive s' = intActive s" "taskLockCnt s' = taskLockCnt s" "schedFlag s' = schedFlag s" "cfg s' = cfg s"
  using assms by (simp_all add: kstate.truncate_def)

lemma same_sched:
  assumes "kstate.truncate s' = kstate.truncate s"
  shows "k_inv s' = k_inv s" "run_ok s' = run_ok s" "idle_ok s' = idle_ok s" "call_ok s' = call_ok s" "waiting s' = waiting s"
    "wakeable s' = wakeable s" "ready_hpf s' = ready_hpf s"
proof -
  note same = truncateD [OF assms]
  show k: "k_inv s' = k_inv s" using same by (intro k_inv_cong) (simp_all add: timer_of_def)
  show r: "run_ok s' = run_ok s" "idle_ok s' = idle_ok s" using same by (simp_all add: run_ok_def idle_ok_def)
  show "call_ok s' = call_ok s" using k r same by (simp add: call_ok_def slice_ok_def)
  show "waiting s' = waiting s" "wakeable s' = wakeable s" "ready_hpf s' = ready_hpf s"
    using same by (simp_all add: fun_eq_iff waiting_def waiters_of_def wakeable_def ready_hpf_def)
qed

section \<open>Waking from a service\<close>

text \<open>What a woken waiter looks like afterwards, and that the call can go on.\<close>

lemma wake_task:
  assumes call: "call_ok s" and t: "t \<in> set (waiting s h)" "wakeable s t"
  shows "\<exists>s'. ops_wake t s = Some s' \<and> call_ok s' \<and> env_of s' = env_of s \<and> schedFlag s' = schedFlag s \<and>
    (\<forall>h'. waiting s' h' = (if h' = h then remove1 t (waiting s h) else waiting s h')) \<and>
    (\<forall>t'. t' \<noteq> t \<longrightarrow> tcb s' t' = tcb s t') \<and> runnable s' t \<and> t \<notin> timed_tasks s' \<and> t \<noteq> currTask s \<and> woken (tcb s t) (tcb s' t)"
proof -
  from ops_wake_law [OF call_okD(1) [OF call] t(1) [unfolded waiting_def] t(2)] obtain s' where s': "ops_wake t s = Some s'" "k_inv s'"
    "env_of s' = env_of s" "schedFlag s' = schedFlag s"
    "\<forall>h'. waiters_of s' h' = (if h' = h then remove1 t (waiters_of s h) else waiters_of s h')"
    "\<forall>t'. t' \<noteq> t \<longrightarrow> tcb s' t' = tcb s t'" "woken (tcb s t) (tcb s' t)" and timed: "timed_tasks s' = timed_tasks s - {t}"
    and edf: "lists s' EdfRoot = lists s EdfRoot" by blast
  have on: "wait_list h" "pendOn (tcb s t) = Some h" using t(1) waiters_ofD [OF call_okD(1) [OF call]] by (simp_all add: waiting_def)
  then have ne: "t \<noteq> currTask s" using call_okD(2) [OF call] by (auto simp: run_ok_def)
  have idle: "t \<noteq> idleTask s" using t(2) call_okD(3) [OF call] unfolding wakeable_def idle_ok_def by (metis SchedOps.distinct(3))
  have env: "currTask s' = currTask s" "idleTask s' = idleTask s" "clock s' = clock s" using env_ofD [OF s'(3)] by simp_all
  have others: "tcb s' t' = tcb s t'" if "t' \<noteq> t" for t' using s'(6) that by simp
  have ops': "ops (tcb s' t') = ops (tcb s t')" for t' using s'(7) others by (cases "t' = t") (simp_all add: woken_def)
  have run': "has (status_of s' t') OS_TASK_STATUS_RUNNING \<longleftrightarrow> has (status_of s t') OS_TASK_STATUS_RUNNING" for t'
    using s'(7) others by (cases "t' = t") (simp_all add: woken_def)
  have "run_ok s'" using call_okD(2) [OF call] ne unfolding run_ok_def env run' others [OF ne [symmetric]] timed by blast
  moreover have "idle_ok s'" using call_okD(3) [OF call] unfolding idle_ok_def env ops' others [OF idle [symmetric]] timed by blast
  moreover have "slice_ok s' (currTask s')" using call_okD(6) [OF call] unfolding slice_ok_def env others [OF ne [symmetric]] .
  ultimately have "call_ok s'" using s'(2) edf call_okD(4,5) [OF call] ops' by (simp add: call_ok_def env)
  moreover have "runnable s' t" using woken_runnable [OF s'(7)] t(2) by (simp add: wakeable_def)
  ultimately show ?thesis using s' timed ne by (intro exI [of _ s']) (simp add: waiting_def)
qed

lemma wake_call:
  assumes call: "call_ok s" and t: "t \<in> set (waiting s h)" "wakeable s t"
  shows "\<exists>s'. ops_wake t (OsTaskWakeClearPendMask t s) = Some s' \<and> call_ok s' \<and> env_of s' = env_of s \<and> schedFlag s' = schedFlag s \<and>
    (\<forall>h'. waiting s' h' = (if h' = h then remove1 t (waiting s h) else waiting s h')) \<and>
    (\<forall>t'. t' \<noteq> t \<longrightarrow> tcb s' t' = tcb s t') \<and> runnable s' t \<and> t \<notin> timed_tasks s' \<and> t \<noteq> currTask s \<and>
    waitID (tcb s' t) = 0 \<and> waitFlag (tcb s' t) = 0 \<and> woken ((tcb s t)\<lparr>waitID := 0, waitFlag := 0\<rparr>) (tcb s' t)"
proof -
  let ?s = "OsTaskWakeClearPendMask t s"
  have "call_ok ?s" "t \<in> set (waiting ?s h)" "wakeable ?s t" using call t by simp_all
  from wake_task [OF this] obtain s' where s': "ops_wake t ?s = Some s'" "call_ok s'" "env_of s' = env_of s" "schedFlag s' = schedFlag ?s"
    "\<forall>h'. waiting s' h' = (if h' = h then remove1 t (waiting s h) else waiting s h')"
    "\<forall>t'. t' \<noteq> t \<longrightarrow> tcb s' t' = tcb ?s t'" "runnable s' t" "t \<notin> timed_tasks s'" "t \<noteq> currTask s" "woken (tcb ?s t) (tcb s' t)" by auto
  have w: "woken ((tcb s t)\<lparr>waitID := 0, waitFlag := 0\<rparr>) (tcb s' t)" using s'(10) by (simp add: OsTaskWakeClearPendMask_def)
  then have "waitID (tcb s' t) = 0" "waitFlag (tcb s' t) = 0" by (simp_all add: woken_def)
  with w show ?thesis using s' by (intro exI [of _ s']) (simp add: OsTaskWakeClearPendMask_def)
qed

section \<open>Waiting from a service\<close>

text \<open>A service that blocks: it records what it waits for, waits, and \<open>ret\<close> is its result if it does not block.\<close>

lemma wait_call:
  assumes call: "call_ok s" and lock: "taskLockCnt s = 0" and h: "wait_list h"
    and time: "ticks = LOS_WAIT_FOREVER \<or> OS_SCHED_TICK_TO_CYCLE ticks s + clock s \<noteq> OS_SORT_LINK_INVALID_TIME"
  shows "\<exists>s'. ops_wait (currTask s) h k ticks (OsTaskWaitSetPendMask f i s) = Some (s', WaitBlocked) \<and> k_inv s' \<and> run_ok s' \<and>
    currTask s' \<noteq> currTask s \<and> kstate.more s' = kstate.more s \<and>
    waiting s' h = insert_after k (currTask s) (waiting s h) \<and> (\<forall>h'. h' \<noteq> h \<longrightarrow> waiting s' h' = waiting s h') \<and>
    (currTask s \<in> timed_tasks s' \<longleftrightarrow> ticks \<noteq> LOS_WAIT_FOREVER) \<and>
    waitFlag (tcb s' (currTask s)) = f \<and> waitID (tcb s' (currTask s)) = i \<and>
    (\<forall>t'. t' \<noteq> currTask s \<and> t' \<noteq> currTask s' \<longrightarrow> tcb s' t' = tcb s t')"
proof -
  let ?s = "OsTaskWaitSetPendMask f i s"
  have call': "call_ok ?s" using call by simp
  have time': "ticks \<noteq> LOS_WAIT_FOREVER \<Longrightarrow> OS_SCHED_TICK_TO_CYCLE ticks ?s + clock ?s \<noteq> OS_SORT_LINK_INVALID_TIME"
    using time by (auto simp: OS_SCHED_TICK_TO_CYCLE_def)
  from HPFWait_spec [OF call_okD(1-4) [OF call'] _ refl call_okD(5,6) [OF call'] h time', of k] lock
  obtain s' where s': "HPFWait (currTask s) h k ticks ?s = Some (s', WaitBlocked)" "k_inv s'" "run_ok s'" "currTask s' \<noteq> currTask s"
    "env_of s' = env_of (?s\<lparr>currTask := currTask s'\<rparr>)" "lists s' h = insert_after k (currTask s) (lists s h)"
    "\<forall>h'. wait_list h' \<and> h' \<noteq> h \<longrightarrow> lists s' h' = lists s h'" "left_cpu (tcb (wait_linked (currTask s) h k ticks ?s) (currTask s)) (tcb s' (currTask s))"
    "\<forall>t'. t' \<noteq> currTask s \<and> t' \<noteq> currTask s' \<longrightarrow> tcb s' t' = tcb ?s t'"
    and timed: "currTask s \<in> timed_tasks s' \<longleftrightarrow> ticks \<noteq> LOS_WAIT_FOREVER" by (auto split: if_splits)
  have "ops (tcb ?s (currTask s)) = g_priorityOps" using call_okD(5) [OF call'] by simp
  then have "ops_wait (currTask s) h k ticks ?s = Some (s', WaitBlocked)" using s'(1) by (simp add: ops_wait_def)
  moreover have "kstate.more s' = kstate.more s" using s'(5) by (simp add: env_of_def)
  moreover have "waitFlag (tcb s' (currTask s)) = f" "waitID (tcb s' (currTask s)) = i"
    using s'(8) by (simp_all add: left_cpu_def wait_linked_def OsTaskWaitSetPendMask_def)
  moreover have "waiting s' h = insert_after k (currTask s) (waiting s h)" "\<forall>h'. h' \<noteq> h \<longrightarrow> waiting s' h' = waiting s h'"
    using s'(6,7) h by (auto simp: waiting_def waiters_of_def)
  moreover have "tcb s' t' = tcb s t'" if "t' \<noteq> currTask s" "t' \<noteq> currTask s'" for t'
    using s'(9) that by (simp add: OsTaskWaitSetPendMask_def)
  ultimately show ?thesis using s'(2-4) timed by blast
qed

section \<open>A concrete system with a waiter\<close>

text \<open>\<open>demo_wait h m\<close> is \<open>demo\<close> with task 2 waiting in the list \<open>h\<close>.\<close>

definition demo_wait :: "listHead \<Rightarrow> 'a \<Rightarrow> 'a kstate_scheme" where
  "demo_wait h m = upd_task 2 (\<lambda>c. c\<lparr>pendOn := Some h, taskStatus := OS_TASK_STATUS_PENDING, waitTime := 0\<rparr>)
    ((demo m)\<lparr>lists := (lists (demo m))(h := insert_after 0 2 (lists (demo m) h))\<rparr>)"

lemma demo_call: "call_ok (demo m)"
  by (simp add: call_ok_def demo_k_inv demo_run_ok demo_idle_ok demo_slice_ok)

lemma demo_wait_simps [simp]:
  "lists (demo_wait h m) = (\<lambda>_. [])(h := [2])" "kstate.more (demo_wait h m) = m" "currTask (demo_wait h m) = 1"
  "tcb (demo_wait h m) = demo_task(2 := (demo_task 2)\<lparr>pendOn := Some h, taskStatus := OS_TASK_STATUS_PENDING, waitTime := 0\<rparr>)"
  "timeoutQueue (demo_wait h m) = \<lparr>sortLink = [], nodeNum = 0\<rparr>" "idleTask (demo_wait h m) = 0" "clock (demo_wait h m) = 1000"
  "intActive (demo_wait h m) = False" "taskLockCnt (demo_wait h m) = 0" "cfg (demo_wait h m) = demo_config"
  by (simp_all add: demo_wait_def insert_after_def fun_upd_def demo_def)

lemma demo_wait_call:
  assumes h: "wait_list h"
  shows "call_ok (demo_wait h m)" and "wakeable (demo_wait h m) 2" and "waiting (demo_wait h m) h = [2]"
proof -
  have "k_inv (demo_wait h m)" unfolding demo_wait_def
    by (rule link_wait_spec [OF demo_k_inv _ _ _ h refl]) (simp_all add: flag_simps)
  moreover have "run_ok (demo_wait h m)" by (simp add: run_ok_def flag_simps)
  moreover have "idle_ok (demo_wait h m)" by (simp add: idle_ok_def flag_simps)
  moreover have "slice_ok (demo_wait h m) 1" by (simp add: slice_ok_def demo_task_def)
  ultimately show "call_ok (demo_wait h m)" using h by (auto simp: call_ok_def)
  show "wakeable (demo_wait h m) 2" by (simp add: wakeable_def flag_simps)
  show "waiting (demo_wait h m) h = [2]" using h by (simp add: waiting_lists)
qed

end
