(* ===== verification/LosHandle.thy ===== *)
theory LosHandle
  imports LosPrelude
begin

text \<open>
  Object handles. Semaphores and message queues are named by a 32-bit identifier that holds the index of a slot in a
  table and, above bit 16, the number of times the slot was freed. The locale \<open>handle_table\<close> is the interface of
  such a table: one step of its component frees at most one slot, which moves that slot to its next identifier. Its client
  lemma is that an old handle stays invalid.
\<close>

section \<open>Identifiers\<close>

definition split_index :: "u32 \<Rightarrow> u32" where
  "split_index x = x AND 0xFFFF"

definition split_count :: "u32 \<Rightarrow> u32" where
  "split_count x = drop_bit 16 x"

definition split_id :: "u32 \<Rightarrow> u32 \<Rightarrow> u32" where
  "split_id c i = push_bit 16 c OR i"

lemma split_index_take_bit: "split_index x = take_bit 16 x"
  by (simp add: split_index_def take_bit_eq_mask mask_eq_exp_minus_1)

lemma split_index_split_id: "split_index i = i \<Longrightarrow> split_index (split_id c i) = i"
  unfolding split_index_take_bit split_id_def by (simp add: take_bit_push_bit)

lemma split_index_of_nat: "n < 0x10000 \<Longrightarrow> split_index (of_nat n) = of_nat n"
  unfolding split_index_take_bit by (simp add: take_bit_of_nat take_bit_nat_eq_self)

lemma split_index_idem [simp]: "split_index (split_index x) = split_index x"
  by (simp add: split_index_take_bit)

text \<open>Freeing a slot adds one to the count and keeps the index.\<close>

lemma next_id: "split_id (split_count x + 1) (split_index x) = x + 0x10000"
proof -
  have "push_bit 16 (drop_bit 16 x + 1) OR take_bit 16 x = push_bit 16 (drop_bit 16 x + 1) + take_bit 16 x"
    by (rule disjunctive_add_eq_or [symmetric]) (auto simp: bit_eq_iff bit_simps)
  also have "\<dots> = (push_bit 16 (drop_bit 16 x) + take_bit 16 x) + 0x10000"
    by (simp add: push_bit_add push_bit_eq_mult)
  finally show ?thesis by (simp add: split_id_def split_count_def split_index_take_bit bits_ident)
qed

lemma next_id_ne: "0 < k \<Longrightarrow> k < 0x10000 \<Longrightarrow> x + of_nat k * 0x10000 \<noteq> (x :: u32)"
proof
  assume k: "0 < k" "k < 0x10000" and "x + of_nat k * 0x10000 = x"
  then have "(of_nat k * 0x10000 :: u32) = 0" by simp
  then have "of_nat (k * 0x10000) = (0 :: u32)" by simp
  then have "2 ^ 32 dvd k * 0x10000" by (simp only: word_of_nat_eq_0_iff) simp
  with k show False by (auto dest: dvd_imp_le)
qed

section \<open>Tables of slots\<close>

locale handle_table =
  fixes step :: "'s \<Rightarrow> 's \<Rightarrow> bool" and slotID :: "'s \<Rightarrow> nat \<Rightarrow> u32"
  assumes step_slot: "step s s' \<Longrightarrow> \<exists>i. (\<forall>j. j \<noteq> i \<longrightarrow> slotID s' j = slotID s j) \<and>
    (slotID s' i = slotID s i \<or> slotID s' i = slotID s i + 0x10000)"
begin

lemma slot_after: "(step ^^ n) s s' \<Longrightarrow> \<exists>k \<le> n. slotID s' i = slotID s i + of_nat k * 0x10000"
proof (induction n arbitrary: s')
  case (Suc n)
  then obtain s1 where s1: "(step ^^ n) s s1" "step s1 s'" by auto
  then obtain k where k: "k \<le> n" "slotID s1 i = slotID s i + of_nat k * 0x10000" using Suc.IH by blast
  from step_slot [OF s1(2)] have "slotID s' i = slotID s1 i \<or> slotID s' i = slotID s1 i + 0x10000" by metis
  then show ?case
  proof
    assume "slotID s' i = slotID s1 i"
    with k show ?thesis by (intro exI [of _ k]) simp
  next
    assume "slotID s' i = slotID s1 i + 0x10000"
    with k show ?thesis by (intro exI [of _ "Suc k"]) (simp add: algebra_simps)
  qed
qed auto

text \<open>Once its slot was freed, a handle does not name the slot during the next 65534 operations.\<close>

lemma stale:
  assumes "slotID s1 i = slotID s i + 0x10000" and "(step ^^ n) s1 s2" and "n < 0xFFFF"
  shows "slotID s2 i \<noteq> slotID s i"
proof -
  obtain k where "k \<le> n" "slotID s2 i = slotID s1 i + of_nat k * 0x10000" using slot_after [OF assms(2)] by blast
  then have "slotID s2 i = slotID s i + of_nat (Suc k) * 0x10000" and "Suc k < 0x10000"
    using assms by (simp_all add: algebra_simps)
  then show ?thesis using next_id_ne [of "Suc k" "slotID s i"] by simp
qed

end

end
