(* ===== verification/LosSem.thy ===== *)
theory LosSem
  imports LosSchedCall LosHandle
begin

text \<open>
  Semaphores, \<^verbatim>\<open>kernel/base/ipc/los_sem.c\<close>. The table \<open>g_allSem\<close> has \<open>semLimit\<close>
  (\<^verbatim>\<open>LOSCFG_BASE_IPC_SEM_LIMIT\<close>) control blocks; the node \<open>semList\<close> of a block is in \<open>g_unusedSemList\<close> while the block is
  free and heads the list \<open>SemList i\<close> of waiting tasks while it is in use. \<open>LOS_SemPend\<close> runs up to
  the switch to another task; \<open>LOS_SemPend_resume\<close> is the rest of the call. The hooks and the debug records are
  left out.
\<close>

section \<open>The code\<close>

abbreviation (input) LOS_ERRNO_SEM_NO_MEMORY :: u32 where "LOS_ERRNO_SEM_NO_MEMORY \<equiv> 0x02000700"
abbreviation (input) LOS_ERRNO_SEM_INVALID :: u32 where "LOS_ERRNO_SEM_INVALID \<equiv> 0x02000701"
abbreviation (input) LOS_ERRNO_SEM_PTR_NULL :: u32 where "LOS_ERRNO_SEM_PTR_NULL \<equiv> 0x02000702"
abbreviation (input) LOS_ERRNO_SEM_ALL_BUSY :: u32 where "LOS_ERRNO_SEM_ALL_BUSY \<equiv> 0x02000703"
abbreviation (input) LOS_ERRNO_SEM_UNAVAILABLE :: u32 where "LOS_ERRNO_SEM_UNAVAILABLE \<equiv> 0x02000704"
abbreviation (input) LOS_ERRNO_SEM_PEND_INTERR :: u32 where "LOS_ERRNO_SEM_PEND_INTERR \<equiv> 0x02000705"
abbreviation (input) LOS_ERRNO_SEM_PEND_IN_LOCK :: u32 where "LOS_ERRNO_SEM_PEND_IN_LOCK \<equiv> 0x02000706"
abbreviation (input) LOS_ERRNO_SEM_TIMEOUT :: u32 where "LOS_ERRNO_SEM_TIMEOUT \<equiv> 0x02000707"
abbreviation (input) LOS_ERRNO_SEM_OVERFLOW :: u32 where "LOS_ERRNO_SEM_OVERFLOW \<equiv> 0x02000708"
abbreviation (input) LOS_ERRNO_SEM_PENDED :: u32 where "LOS_ERRNO_SEM_PENDED \<equiv> 0x02000709"
abbreviation (input) LOS_ERRNO_SEM_PEND_IN_SYSTEM_TASK :: u32 where "LOS_ERRNO_SEM_PEND_IN_SYSTEM_TASK \<equiv> 0x0200070A"

abbreviation (input) OS_SEM_UNUSED :: u8 where "OS_SEM_UNUSED \<equiv> 0"
abbreviation (input) OS_SEM_USED :: u8 where "OS_SEM_USED \<equiv> 1"
abbreviation (input) OS_SEM_COUNT_MAX :: u16 where "OS_SEM_COUNT_MAX \<equiv> 0xFFFE"
abbreviation (input) OS_SEM_BINARY_COUNT_MAX :: u16 where "OS_SEM_BINARY_COUNT_MAX \<equiv> 1"
abbreviation (input) OS_TASK_WAIT_SEM :: u16 where "OS_TASK_WAIT_SEM \<equiv> 5"

record LosSemCB =
  semStat :: u8
  semCount :: u16
  maxSemCount :: u16
  semID :: u32

record sem_kstate = kstate +
  g_allSem :: "nat \<Rightarrow> LosSemCB"
  g_unusedSemList :: "nat list"
  semLimit :: nat

definition SET_SEM_ID :: "u32 \<Rightarrow> u32 \<Rightarrow> u32" where
  "SET_SEM_ID count index = split_id count index"

definition GET_SEM_INDEX :: "u32 \<Rightarrow> u32" where
  "GET_SEM_INDEX semHandle = split_index semHandle"

abbreviation (input) GET_SEM :: "u32 \<Rightarrow> nat" where
  "GET_SEM semHandle \<equiv> unat (GET_SEM_INDEX semHandle)"

definition GET_SEM_COUNT :: "u32 \<Rightarrow> u32" where
  "GET_SEM_COUNT semHandle = split_count semHandle"

definition upd_sem :: "nat \<Rightarrow> (LosSemCB \<Rightarrow> LosSemCB) \<Rightarrow> 'a sem_kstate_scheme \<Rightarrow> 'a sem_kstate_scheme" where
  "upd_sem i f s = s\<lparr>g_allSem := (g_allSem s)(i := f (g_allSem s i))\<rparr>"

text \<open>\<open>alloc\<close> is the answer of \<open>LOS_MemAlloc\<close>, \<open>dbg\<close> that of the debug hook; the blocks' other fields are what the
  memory holds.\<close>

definition OsSemInit :: "bool \<Rightarrow> bool \<Rightarrow> 'a sem_kstate_scheme \<Rightarrow> 'a sem_kstate_scheme \<times> u32" where
  "OsSemInit alloc dbg s =
    (if \<not> alloc then (s\<lparr>g_unusedSemList := []\<rparr>, LOS_ERRNO_SEM_NO_MEMORY)
     else (s\<lparr>g_allSem := (\<lambda>i. if i < semLimit s then (g_allSem s i)\<lparr>semID := SET_SEM_ID 0 (of_nat i), semStat := OS_SEM_UNUSED\<rparr>
               else g_allSem s i),
             g_unusedSemList := [0..<semLimit s]\<rparr>,
           if dbg then LOS_OK else LOS_ERRNO_SEM_NO_MEMORY))"

text \<open>\<open>semHandle\<close> says whether the pointer is not \<open>NULL\<close>; the third result is what is written through it.\<close>

definition OsSemCreate :: "u16 \<Rightarrow> u16 \<Rightarrow> bool \<Rightarrow> 'a sem_kstate_scheme \<Rightarrow> 'a sem_kstate_scheme \<times> u32 \<times> u32 option" where
  "OsSemCreate count maxCount semHandle s =
    (if \<not> semHandle then (s, LOS_ERRNO_SEM_PTR_NULL, None)
     else if count > maxCount then (s, LOS_ERRNO_SEM_OVERFLOW, None)
     else case g_unusedSemList s of
       [] \<Rightarrow> (s, LOS_ERRNO_SEM_ALL_BUSY, None)
     | unusedSem # rest \<Rightarrow>
         let s1 = upd_sem unusedSem (\<lambda>c. c\<lparr>semCount := count, semStat := OS_SEM_USED, maxSemCount := maxCount\<rparr>)
               (s\<lparr>g_unusedSemList := rest, lists := (lists s)(SemList unusedSem := [])\<rparr>)
         in (s1, LOS_OK, Some (semID (g_allSem s1 unusedSem))))"

definition LOS_SemCreate :: "u16 \<Rightarrow> bool \<Rightarrow> 'a sem_kstate_scheme \<Rightarrow> 'a sem_kstate_scheme \<times> u32 \<times> u32 option" where
  "LOS_SemCreate count semHandle s = OsSemCreate count OS_SEM_COUNT_MAX semHandle s"

definition LOS_BinarySemCreate :: "u16 \<Rightarrow> bool \<Rightarrow> 'a sem_kstate_scheme \<Rightarrow> 'a sem_kstate_scheme \<times> u32 \<times> u32 option" where
  "LOS_BinarySemCreate count semHandle s = OsSemCreate count OS_SEM_BINARY_COUNT_MAX semHandle s"

definition LOS_SemDelete :: "u32 \<Rightarrow> 'a sem_kstate_scheme \<Rightarrow> 'a sem_kstate_scheme \<times> u32" where
  "LOS_SemDelete semHandle s =
    (let i = GET_SEM semHandle; semDeleted = g_allSem s i
     in if i \<ge> semLimit s then (s, LOS_ERRNO_SEM_INVALID)
        else if semStat semDeleted = OS_SEM_UNUSED \<or> semID semDeleted \<noteq> semHandle then (s, LOS_ERRNO_SEM_INVALID)
        else if lists s (SemList i) \<noteq> [] then (s, LOS_ERRNO_SEM_PENDED)
        else (upd_sem i (\<lambda>c. c\<lparr>semStat := OS_SEM_UNUSED,
                semID := SET_SEM_ID (GET_SEM_COUNT (semID c) + 1) (GET_SEM_INDEX (semID c))\<rparr>)
              (s\<lparr>g_unusedSemList := g_unusedSemList s @ [i]\<rparr>), LOS_OK))"

definition sem_ret :: "u32 \<Rightarrow> u32" where
  "sem_ret ret = (if ret = LOS_ERRNO_TSK_TIMEOUT then LOS_ERRNO_SEM_TIMEOUT else ret)"

definition LOS_SemPend :: "u32 \<Rightarrow> u32 \<Rightarrow> 'a sem_kstate_scheme \<Rightarrow> ('a sem_kstate_scheme \<times> wait_result) option" where
  "LOS_SemPend semHandle timeout s =
    (let i = GET_SEM semHandle; semPended = g_allSem s i; runTask = currTask s
     in if i \<ge> semLimit s then Some (s, WaitRet LOS_ERRNO_SEM_INVALID)
        else if intActive s then Some (s, WaitRet LOS_ERRNO_SEM_PEND_INTERR)
        else if has (status_of s runTask) OS_TASK_FLAG_SYSTEM_TASK then Some (s, WaitRet LOS_ERRNO_SEM_PEND_IN_SYSTEM_TASK)
        else if semStat semPended = OS_SEM_UNUSED \<or> semID semPended \<noteq> semHandle then Some (s, WaitRet LOS_ERRNO_SEM_INVALID)
        else if semCount semPended > 0 then Some (upd_sem i (\<lambda>c. c\<lparr>semCount := semCount c - 1\<rparr>) s, WaitRet LOS_OK)
        else if timeout = 0 then Some (s, WaitRet LOS_ERRNO_SEM_UNAVAILABLE)
        else case OsPreemptableInSched s of
          (s1, False) \<Rightarrow> Some (s1, WaitRet LOS_ERRNO_SEM_PEND_IN_LOCK)
        | (s1, True) \<Rightarrow> do {
            let s2 = OsTaskWaitSetPendMask OS_TASK_WAIT_SEM (semID semPended) s1;
            (s3, r) \<leftarrow> ops_wait runTask (SemList i) (length (lists s2 (SemList i))) timeout s2;
            Some (s3, case r of WaitBlocked \<Rightarrow> WaitBlocked | WaitRet ret \<Rightarrow> WaitRet (sem_ret ret))
          })"

definition LOS_SemPend_resume :: "nat \<Rightarrow> 'a sem_kstate_scheme \<Rightarrow> 'a sem_kstate_scheme \<times> u32" where
  "LOS_SemPend_resume t s = (case wait_resume t s of (s', ret) \<Rightarrow> (s', sem_ret ret))"

text \<open>The third result is \<open>*needSched\<close>, initially false. An index outside the table reads foreign memory.\<close>

definition OsSemPostUnsafe :: "u32 \<Rightarrow> 'a sem_kstate_scheme \<Rightarrow> ('a sem_kstate_scheme \<times> u32 \<times> bool) option" where
  "OsSemPostUnsafe semHandle s =
    (let i = GET_SEM semHandle; semPosted = g_allSem s i
     in if i \<ge> semLimit s then None
        else if semID semPosted \<noteq> semHandle \<or> semStat semPosted = OS_SEM_UNUSED then Some (s, LOS_ERRNO_SEM_INVALID, False)
        else if semCount semPosted = maxSemCount semPosted then Some (s, LOS_ERRNO_SEM_OVERFLOW, False)
        else case lists s (SemList i) of
          resumedTask # _ \<Rightarrow> do {
            s1 \<leftarrow> ops_wake resumedTask (OsTaskWakeClearPendMask resumedTask s);
            Some (s1, LOS_OK, True)
          }
        | [] \<Rightarrow> Some (upd_sem i (\<lambda>c. c\<lparr>semCount := semCount c + 1\<rparr>) s, LOS_OK, False))"

definition LOS_SemPost :: "u32 \<Rightarrow> 'a sem_kstate_scheme \<Rightarrow> ('a sem_kstate_scheme \<times> u32) option" where
  "LOS_SemPost semHandle s =
    (if GET_SEM semHandle \<ge> semLimit s then Some (s, LOS_ERRNO_SEM_INVALID)
     else do {
       (s1, ret, needSched) \<leftarrow> OsSemPostUnsafe semHandle s;
       s2 \<leftarrow> (if needSched then LOS_Schedule s1 else Some s1);
       Some (s2, ret)
     })"

text \<open>The calls of the component as one type, for statements about all of them. \<open>inl\<close> of a call's answer is that it
  blocked.\<close>

datatype sem_call = SemCreate u16 bool | BinarySemCreate u16 bool | SemDelete u32 | SemPend u32 u32 | SemPost u32

fun sem_run :: "sem_call \<Rightarrow> 'a sem_kstate_scheme \<Rightarrow> ('a sem_kstate_scheme \<times> wait_result) option" where
  "sem_run (SemCreate count p) s = (case LOS_SemCreate count p s of (s', ret, _) \<Rightarrow> Some (s', WaitRet ret))"
| "sem_run (BinarySemCreate count p) s = (case LOS_BinarySemCreate count p s of (s', ret, _) \<Rightarrow> Some (s', WaitRet ret))"
| "sem_run (SemDelete h) s = (case LOS_SemDelete h s of (s', ret) \<Rightarrow> Some (s', WaitRet ret))"
| "sem_run (SemPend h timeout) s = LOS_SemPend h timeout s"
| "sem_run (SemPost h) s = map_option (\<lambda>(s', ret). (s', WaitRet ret)) (LOS_SemPost h s)"

section \<open>The table of semaphores\<close>

lemma sem_more:
  assumes "kstate.more s' = kstate.more s"
  shows "g_allSem s' = g_allSem s" "g_unusedSemList s' = g_unusedSemList s" "semLimit s' = semLimit s"
  using assms by (cases s; cases s'; simp)+

lemma upd_sem_frame [simp]:
  "g_allSem (upd_sem i f s) = (g_allSem s)(i := f (g_allSem s i))" "g_unusedSemList (upd_sem i f s) = g_unusedSemList s"
  "semLimit (upd_sem i f s) = semLimit s" "lists (upd_sem i f s) = lists s" "tcb (upd_sem i f s) = tcb s"
  "currTask (upd_sem i f s) = currTask s" "timeoutQueue (upd_sem i f s) = timeoutQueue s" "sortNodes (upd_sem i f s) = sortNodes s"
  by (simp_all add: upd_sem_def)

definition sem_slot_ok :: "nat \<Rightarrow> LosSemCB \<Rightarrow> nat list \<Rightarrow> bool" where
  "sem_slot_ok i c waiters \<longleftrightarrow> GET_SEM (semID c) = i \<and> (semStat c = OS_SEM_UNUSED \<longrightarrow> waiters = []) \<and>
    (semStat c \<noteq> OS_SEM_UNUSED \<longrightarrow> 0 < maxSemCount c \<and> semCount c \<le> maxSemCount c \<and> (waiters \<noteq> [] \<longrightarrow> semCount c = 0))"

definition sem_inv :: "'a sem_kstate_scheme \<Rightarrow> bool" where
  "sem_inv s \<longleftrightarrow> semLimit s \<le> 0x10000 \<and> distinct (g_unusedSemList s) \<and>
    (\<forall>i. i \<in> set (g_unusedSemList s) \<longleftrightarrow> i < semLimit s \<and> semStat (g_allSem s i) = OS_SEM_UNUSED) \<and>
    (\<forall>i < semLimit s. sem_slot_ok i (g_allSem s i) (lists s (SemList i)))"

lemma sem_invD:
  assumes "sem_inv s"
  shows "distinct (g_unusedSemList s)" "i \<in> set (g_unusedSemList s) \<longleftrightarrow> i < semLimit s \<and> semStat (g_allSem s i) = OS_SEM_UNUSED"
    "i < semLimit s \<Longrightarrow> sem_slot_ok i (g_allSem s i) (lists s (SemList i))"
  using assms by (simp_all add: sem_inv_def)

text \<open>Changing one block, or the lists.\<close>

lemma sem_inv_block:
  assumes inv: "sem_inv s" and c: "semStat c = semStat (g_allSem s i)" "i < semLimit s \<Longrightarrow> sem_slot_ok i c (lists s (SemList i))"
    and s': "g_allSem s' = (g_allSem s)(i := c)" "g_unusedSemList s' = g_unusedSemList s" "semLimit s' = semLimit s" "lists s' = lists s"
  shows "sem_inv s'"
  using inv c unfolding sem_inv_def s' by simp

lemma sem_inv_lists:
  assumes "sem_inv s" and "kstate.more s' = kstate.more s"
    and "\<And>i. i < semLimit s \<Longrightarrow> sem_slot_ok i (g_allSem s i) (lists s (SemList i)) \<Longrightarrow> sem_slot_ok i (g_allSem s i) (lists s' (SemList i))"
  shows "sem_inv s'"
  using assms(1,3) unfolding sem_inv_def sem_more [OF assms(2)] by blast

lemma truncate_upd_sem [simp]:
  "kstate.truncate (upd_sem i f s) = kstate.truncate s" "kstate.truncate (s\<lparr>g_unusedSemList := l\<rparr>) = kstate.truncate s"
  by (simp_all add: kstate.truncate_def upd_sem_def)

lemmas upd_sem_sched [simp] = same_sched [OF truncate_upd_sem(1)] same_sched [OF truncate_upd_sem(2)]

section \<open>Creation and deletion\<close>

definition sem_live :: "'a sem_kstate_scheme \<Rightarrow> u32 \<Rightarrow> bool" where
  "sem_live s h \<longleftrightarrow> GET_SEM h < semLimit s \<and> semStat (g_allSem s (GET_SEM h)) \<noteq> OS_SEM_UNUSED \<and> semID (g_allSem s (GET_SEM h)) = h"

lemma OsSemCreate_ok:
  assumes inv: "sem_inv s" "k_inv s" "run_ok s" and free: "g_unusedSemList s = i # rest" and c: "count \<le> m" "0 < m"
  shows "\<exists>s'. OsSemCreate count m True s = (s', LOS_OK, Some (semID (g_allSem s i))) \<and> k_inv s' \<and> run_ok s' \<and> sem_inv s' \<and>
    lists s' = lists s \<and> g_allSem s' = (g_allSem s)(i := (g_allSem s i)\<lparr>semCount := count, semStat := OS_SEM_USED, maxSemCount := m\<rparr>) \<and>
    semLimit s' = semLimit s"
proof -
  have i: "i < semLimit s" "semStat (g_allSem s i) = OS_SEM_UNUSED" using sem_invD(2) [OF inv(1), of i] free by auto
  note slot = sem_invD(3) [OF inv(1) i(1)]
  then have e: "lists s (SemList i) = []" using i(2) by (simp add: sem_slot_ok_def)
  then have "(lists s)(SemList i := []) = lists s" by (simp add: fun_upd_idem)
  then have same: "s\<lparr>g_unusedSemList := rest, lists := (lists s)(SemList i := [])\<rparr> = s\<lparr>g_unusedSemList := rest\<rparr>" by simp
  define s' where "s' = upd_sem i (\<lambda>c. c\<lparr>semCount := count, semStat := OS_SEM_USED, maxSemCount := m\<rparr>) (s\<lparr>g_unusedSemList := rest\<rparr>)"
  have "OsSemCreate count m True s = (s', LOS_OK, Some (semID (g_allSem s i)))"
    using c free same by (simp add: OsSemCreate_def s'_def Let_def)
  moreover have "distinct (i # rest)" and mem: "\<And>j. j \<in> set (i # rest) \<longleftrightarrow> j < semLimit s \<and> semStat (g_allSem s j) = OS_SEM_UNUSED"
    using sem_invD [OF inv(1)] free by simp_all
  then have "j \<in> set rest \<longleftrightarrow> j < semLimit s \<and> semStat (g_allSem s' j) = OS_SEM_UNUSED" for j
    using mem [of j] by (auto simp: s'_def)
  then have "sem_inv s'" using inv(1) slot e c i free by (simp add: sem_inv_def s'_def sem_slot_ok_def)
  ultimately show ?thesis using inv by (simp add: s'_def)
qed

lemma sem_create_ok:
  assumes "sem_inv s" "k_inv s" "run_ok s" and "0 < m"
  shows "\<exists>s' ret h. OsSemCreate count m p s = (s', ret, h) \<and> k_inv s' \<and> run_ok s' \<and> sem_inv s'"
proof (cases "p \<and> count \<le> m \<and> g_unusedSemList s \<noteq> []")
  case True
  then show ?thesis using OsSemCreate_ok [OF assms(1-3) _ _ assms(4)] by (metis neq_Nil_conv)
next
  case False
  then have "fst (OsSemCreate count m p s) = s" by (auto simp: OsSemCreate_def)
  then show ?thesis using assms by (metis prod.exhaust_sel)
qed

lemma GET_SEM_next: "GET_SEM (SET_SEM_ID (GET_SEM_COUNT x + 1) (GET_SEM_INDEX x)) = GET_SEM x"
  by (simp add: GET_SEM_INDEX_def SET_SEM_ID_def GET_SEM_COUNT_def split_index_split_id)

lemma LOS_SemDelete_ok:
  assumes inv: "sem_inv s" "k_inv s" "run_ok s" and h: "sem_live s h" "lists s (SemList (GET_SEM h)) = []"
  shows "\<exists>s'. LOS_SemDelete h s = (s', LOS_OK) \<and> k_inv s' \<and> run_ok s' \<and> sem_inv s' \<and> lists s' = lists s \<and>
    g_allSem s' = (g_allSem s)(GET_SEM h := (g_allSem s (GET_SEM h))\<lparr>semStat := OS_SEM_UNUSED, semID := h + 0x10000\<rparr>) \<and>
    g_unusedSemList s' = g_unusedSemList s @ [GET_SEM h] \<and> semLimit s' = semLimit s"
proof -
  let ?i = "GET_SEM h"
  define s' where "s' = upd_sem ?i (\<lambda>c. c\<lparr>semStat := OS_SEM_UNUSED, semID := SET_SEM_ID (GET_SEM_COUNT (semID c) + 1) (GET_SEM_INDEX (semID c))\<rparr>)
    (s\<lparr>g_unusedSemList := g_unusedSemList s @ [?i]\<rparr>)"
  have i: "?i < semLimit s" "semStat (g_allSem s ?i) \<noteq> OS_SEM_UNUSED" "semID (g_allSem s ?i) = h" using h(1) by (simp_all add: sem_live_def)
  have "SET_SEM_ID (GET_SEM_COUNT h + 1) (GET_SEM_INDEX h) = h + 0x10000"
    using next_id [of h] by (simp add: SET_SEM_ID_def GET_SEM_COUNT_def GET_SEM_INDEX_def)
  then have c: "g_allSem s' = (g_allSem s)(?i := (g_allSem s ?i)\<lparr>semStat := OS_SEM_UNUSED, semID := h + 0x10000\<rparr>)"
    and gi: "GET_SEM (h + 0x10000) = ?i"
    using i(3) GET_SEM_next [of h] by (simp_all add: s'_def)
  have "LOS_SemDelete h s = (s', LOS_OK)" using i h by (simp add: LOS_SemDelete_def s'_def Let_def)
  moreover have "sem_inv s'" using inv(1) c i h(2) gi unfolding sem_inv_def by (auto simp: s'_def sem_slot_ok_def)
  ultimately show ?thesis using inv c by (simp add: s'_def)
qed

lemma sem_delete_ok:
  assumes "sem_inv s" "k_inv s" "run_ok s"
  shows "\<exists>s' ret. LOS_SemDelete h s = (s', ret) \<and> k_inv s' \<and> run_ok s' \<and> sem_inv s'"
proof (cases "sem_live s h \<and> lists s (SemList (GET_SEM h)) = []")
  case True
  then show ?thesis using LOS_SemDelete_ok [OF assms] by blast
next
  case False
  then have "fst (LOS_SemDelete h s) = s" by (auto simp: LOS_SemDelete_def sem_live_def Let_def)
  then show ?thesis using assms by (metis prod.exhaust_sel)
qed

section \<open>Pend and post\<close>

text \<open>The wait of \<open>LOS_SemPend\<close>: an unavailable semaphore, a time limit, and the scheduler not locked.\<close>

lemma LOS_SemPend_blocks:
  assumes call: "call_ok s" and inv: "sem_inv s" and h: "sem_live s h" "semCount (g_allSem s (GET_SEM h)) = 0"
    and ctx: "\<not> intActive s" "\<not> has (status_of s (currTask s)) OS_TASK_FLAG_SYSTEM_TASK" "taskLockCnt s = 0" "timeout \<noteq> 0"
    and time: "timeout = LOS_WAIT_FOREVER \<or> OS_SCHED_TICK_TO_CYCLE timeout s + clock s \<noteq> OS_SORT_LINK_INVALID_TIME"
  shows "\<exists>s'. LOS_SemPend h timeout s = Some (s', WaitBlocked) \<and> k_inv s' \<and> run_ok s' \<and> sem_inv s' \<and> kstate.more s' = kstate.more s \<and>
    currTask s' \<noteq> currTask s \<and> waiting s' (SemList (GET_SEM h)) = waiting s (SemList (GET_SEM h)) @ [currTask s] \<and>
    (\<forall>h'. h' \<noteq> SemList (GET_SEM h) \<longrightarrow> waiting s' h' = waiting s h') \<and>
    (currTask s \<in> timed_tasks s' \<longleftrightarrow> timeout \<noteq> LOS_WAIT_FOREVER) \<and>
    waitFlag (tcb s' (currTask s)) = OS_TASK_WAIT_SEM \<and> waitID (tcb s' (currTask s)) = h"
proof -
  let ?h = "SemList (GET_SEM h)"
  have w: "wait_list ?h" by simp
  from wait_call [OF call ctx(3) w time, of "length (lists s ?h)" OS_TASK_WAIT_SEM h]
  obtain s' where s': "ops_wait (currTask s) ?h (length (lists s ?h)) timeout (OsTaskWaitSetPendMask OS_TASK_WAIT_SEM h s) = Some (s', WaitBlocked)"
    "k_inv s'" "run_ok s'" "currTask s' \<noteq> currTask s" "kstate.more s' = kstate.more s"
    "waiting s' ?h = insert_after (length (lists s ?h)) (currTask s) (waiting s ?h)" "\<forall>h'. h' \<noteq> ?h \<longrightarrow> waiting s' h' = waiting s h'"
    "currTask s \<in> timed_tasks s' \<longleftrightarrow> timeout \<noteq> LOS_WAIT_FOREVER" "waitFlag (tcb s' (currTask s)) = OS_TASK_WAIT_SEM" "waitID (tcb s' (currTask s)) = h"
    by blast
  have ls: "waiting s' ?h = waiting s ?h @ [currTask s]" using s'(6) by (simp add: insert_after_def waiting_lists)
  have "LOS_SemPend h timeout s = Some (s', WaitBlocked)"
    using h ctx s'(1) by (simp add: LOS_SemPend_def sem_live_def OsPreemptableInSched_def)
  moreover have "sem_inv s'"
  proof (rule sem_inv_lists [OF inv s'(5)])
    fix i assume i: "i < semLimit s" and ok: "sem_slot_ok i (g_allSem s i) (lists s (SemList i))"
    show "sem_slot_ok i (g_allSem s i) (lists s' (SemList i))"
    proof (cases "i = GET_SEM h")
      case True
      then show ?thesis using ok h by (simp add: sem_slot_ok_def sem_live_def)
    next
      case False
      then have "lists s' (SemList i) = lists s (SemList i)" using s'(7) by (simp add: waiting_lists [symmetric])
      then show ?thesis using ok by simp
    qed
  qed
  ultimately show ?thesis using s' ls by blast
qed

lemma sem_pend_ok:
  assumes call: "call_ok s" and inv: "sem_inv s"
    and time: "timeout = LOS_WAIT_FOREVER \<or> OS_SCHED_TICK_TO_CYCLE timeout s + clock s \<noteq> OS_SORT_LINK_INVALID_TIME"
  shows "\<exists>s' r. LOS_SemPend h timeout s = Some (s', r) \<and> k_inv s' \<and> run_ok s' \<and> sem_inv s'"
proof -
  let ?c = "g_allSem s (GET_SEM h)"
  let ?enter = "sem_live s h \<and> \<not> intActive s \<and> \<not> has (status_of s (currTask s)) OS_TASK_FLAG_SYSTEM_TASK"
  consider (reject) "\<not> ?enter \<or> semCount ?c = 0 \<and> timeout = 0" | (take) "?enter" "semCount ?c > 0"
    | (locked) "?enter" "semCount ?c = 0" "timeout \<noteq> 0" "taskLockCnt s \<noteq> 0" | (block) "?enter" "semCount ?c = 0" "timeout \<noteq> 0" "taskLockCnt s = 0"
    by (auto simp: word_gt_0)
  then show ?thesis
  proof cases
    case reject
    then have "\<exists>r. LOS_SemPend h timeout s = Some (s, r)" by (auto simp: LOS_SemPend_def sem_live_def Let_def)
    then show ?thesis using call_okD [OF call] inv by blast
  next
    case take
    let ?s = "upd_sem (GET_SEM h) (\<lambda>c. c\<lparr>semCount := semCount c - 1\<rparr>) s"
    have le: "semCount ?c - 1 \<le> semCount ?c" using take(2) by (simp add: word_le_nat_alt unat_minus_one word_gt_0)
    have "sem_inv ?s"
      by (rule sem_inv_block [OF inv, of "?c\<lparr>semCount := semCount ?c - 1\<rparr>" "GET_SEM h"])
        (use sem_invD(3) [OF inv, of "GET_SEM h"] take le in \<open>auto simp: sem_slot_ok_def sem_live_def intro: order_trans\<close>)
    moreover have "LOS_SemPend h timeout s = Some (?s, WaitRet LOS_OK)" using take by (simp add: LOS_SemPend_def sem_live_def Let_def)
    ultimately show ?thesis using call_okD [OF call] by simp
  next
    case locked
    let ?s = "s\<lparr>schedFlag := schedFlag s OR INT_PEND_RESCH\<rparr>"
    have "LOS_SemPend h timeout s = Some (?s, WaitRet LOS_ERRNO_SEM_PEND_IN_LOCK)"
      using locked by (simp add: LOS_SemPend_def sem_live_def Let_def OsPreemptableInSched_def)
    moreover have "sem_inv ?s" using inv by (simp add: sem_inv_def)
    ultimately show ?thesis using call_okD [OF call] by simp
  next
    case block
    then show ?thesis using LOS_SemPend_blocks [OF call inv _ block(2) _ _ block(4,3) time] by blast
  qed
qed

text \<open>A post with waiters passes the unit to the first of them and reschedules.\<close>

lemma LOS_SemPost_wakes:
  assumes call: "call_ok s" and inv: "sem_inv s" and h: "sem_live s h" "lists s (SemList (GET_SEM h)) = t # ts" and t: "wakeable s t"
  shows "\<exists>s'. LOS_SemPost h s = Some (s', LOS_OK) \<and> k_inv s' \<and> run_ok s' \<and> sem_inv s' \<and> kstate.more s' = kstate.more s \<and>
    waiting s' (SemList (GET_SEM h)) = ts \<and> (\<forall>h'. h' \<noteq> SemList (GET_SEM h) \<longrightarrow> waiting s' h' = waiting s h') \<and>
    t \<notin> timed_tasks s' \<and> (\<not> has (status_of s t) OS_TASK_STATUS_SUSPENDED \<longrightarrow> ready_hpf s' t \<or> currTask s' = t) \<and>
    (\<forall>t'. ready_hpf s t' \<or> t' = currTask s \<longrightarrow> ready_hpf s' t' \<or> t' = currTask s') \<and>
    (\<not> intActive s \<and> taskLockCnt s = 0 \<longrightarrow> (\<forall>t'. ready_hpf s' t' \<longrightarrow> prio_le (tcb s' (currTask s')) (tcb s' t')))"
proof -
  let ?h = "SemList (GET_SEM h)"
  have i: "GET_SEM h < semLimit s" "semStat (g_allSem s (GET_SEM h)) \<noteq> OS_SEM_UNUSED" "semID (g_allSem s (GET_SEM h)) = h"
    using h(1) by (simp_all add: sem_live_def)
  then have c: "semCount (g_allSem s (GET_SEM h)) \<noteq> maxSemCount (g_allSem s (GET_SEM h))"
    using sem_invD(3) [OF inv i(1)] h(2) by (auto simp: sem_slot_ok_def)
  have w: "waiting s ?h = t # ts" using h(2) by (simp add: waiting_lists)
  then have "t \<in> set (waiting s ?h)" by simp
  from wake_call [OF call this t] obtain s1 where s1: "ops_wake t (OsTaskWakeClearPendMask t s) = Some s1" "call_ok s1" "env_of s1 = env_of s"
    "\<forall>h'. waiting s1 h' = (if h' = ?h then remove1 t (waiting s ?h) else waiting s h')" "\<forall>t'. t' \<noteq> t \<longrightarrow> tcb s1 t' = tcb s t'"
    "t \<notin> timed_tasks s1" "t \<noteq> currTask s" "woken ((tcb s t)\<lparr>waitID := 0, waitFlag := 0\<rparr>) (tcb s1 t)" by blast
  from Schedule_call [OF s1(2)] obtain s' where s': "LOS_Schedule s1 = Some s'" "k_inv s'" "run_ok s'" "kstate.more s' = kstate.more s1"
    "timer_of s' = timer_of s1" "\<forall>h. wait_list h \<longrightarrow> lists s' h = lists s1 h"
    "\<forall>t. ready_hpf s' t \<or> t = currTask s' \<longleftrightarrow> ready_hpf s1 t \<or> t = currTask s1"
    "\<not> intActive s1 \<and> taskLockCnt s1 = 0 \<longrightarrow> (\<forall>t. ready_hpf s' t \<longrightarrow> prio_le (tcb s' (currTask s')) (tcb s' t))" by blast
  note env = env_ofD [OF s1(3)]
  have more: "kstate.more s' = kstate.more s" using s'(4) env(7) by simp
  have wt: "waiting s' h' = waiting s1 h'" for h' using s'(6) by (simp add: waiting_def waiters_of_def)
  have post: "LOS_SemPost h s = Some (s', LOS_OK)" using i c h s1(1) s'(1) by (simp add: LOS_SemPost_def OsSemPostUnsafe_def)
  have w': "waiting s' ?h = ts" "\<forall>h'. h' \<noteq> ?h \<longrightarrow> waiting s' h' = waiting s h'" using wt s1(4) w by simp_all
  have "sem_inv s'"
  proof (rule sem_inv_lists [OF inv more])
    fix i assume "i < semLimit s" and ok: "sem_slot_ok i (g_allSem s i) (lists s (SemList i))"
    show "sem_slot_ok i (g_allSem s i) (lists s' (SemList i))"
    proof (cases "i = GET_SEM h")
      case True
      then show ?thesis using ok h by (auto simp: sem_slot_ok_def sem_live_def)
    next
      case False
      then show ?thesis using ok w'(2) by (simp add: waiting_lists [symmetric])
    qed
  qed
  moreover have "ready_hpf s1 t" if "\<not> has (status_of s t) OS_TASK_STATUS_SUSPENDED"
    using s1(8) that t by (simp add: woken_def ready_hpf_def wakeable_def)
  then have "\<not> has (status_of s t) OS_TASK_STATUS_SUSPENDED \<longrightarrow> ready_hpf s' t \<or> currTask s' = t" using s'(7) by blast
  moreover have "\<not> ready_hpf s t" using h(2) lists_okD(2) [OF call_okD(1) [OF call], of t ?h] k_invD(4) [OF call_okD(1) [OF call], of t] t
    by (auto simp: link_ok_def ready_hpf_def wakeable_def)
  then have "ready_hpf s1 t'" if "ready_hpf s t'" for t' using that s1(5) unfolding ready_hpf_def by metis
  then have "\<forall>t'. ready_hpf s t' \<or> t' = currTask s \<longrightarrow> ready_hpf s' t' \<or> t' = currTask s'" using s'(7) env(4) by metis
  moreover have "t \<notin> timed_tasks s'" using s'(5) s1(6) by (simp add: timer_of_def)
  ultimately show ?thesis using post s'(2,3,8) more w' env by simp
qed

lemma LOS_SemPost_counts:
  assumes inv: "sem_inv s" and h: "sem_live s h" "lists s (SemList (GET_SEM h)) = []"
  shows "LOS_SemPost h s = (if semCount (g_allSem s (GET_SEM h)) = maxSemCount (g_allSem s (GET_SEM h)) then Some (s, LOS_ERRNO_SEM_OVERFLOW)
      else Some (upd_sem (GET_SEM h) (\<lambda>c. c\<lparr>semCount := semCount c + 1\<rparr>) s, LOS_OK))"
    and "semCount (g_allSem s (GET_SEM h)) \<noteq> maxSemCount (g_allSem s (GET_SEM h)) \<Longrightarrow>
      sem_inv (upd_sem (GET_SEM h) (\<lambda>c. c\<lparr>semCount := semCount c + 1\<rparr>) s) \<and>
      unat (semCount (g_allSem s (GET_SEM h)) + 1) = unat (semCount (g_allSem s (GET_SEM h))) + 1"
proof -
  let ?c = "g_allSem s (GET_SEM h)"
  show "LOS_SemPost h s = (if semCount ?c = maxSemCount ?c then Some (s, LOS_ERRNO_SEM_OVERFLOW)
      else Some (upd_sem (GET_SEM h) (\<lambda>c. c\<lparr>semCount := semCount c + 1\<rparr>) s, LOS_OK))"
    using h by (simp add: LOS_SemPost_def OsSemPostUnsafe_def sem_live_def)
  assume ne: "semCount ?c \<noteq> maxSemCount ?c"
  have ok: "sem_slot_ok (GET_SEM h) ?c []" using sem_invD(3) [OF inv] h by (metis sem_live_def)
  then have "semCount ?c < maxSemCount ?c" using ne h(1) by (simp add: sem_slot_ok_def sem_live_def order.strict_iff_order)
  then have "semCount ?c + 1 \<le> maxSemCount ?c" "unat (semCount ?c + 1) = unat (semCount ?c) + 1"
    by (rule word_plus_1_bound)+
  moreover from this have "sem_inv (upd_sem (GET_SEM h) (\<lambda>c. c\<lparr>semCount := semCount c + 1\<rparr>) s)"
    by (intro sem_inv_block [OF inv, of "?c\<lparr>semCount := semCount ?c + 1\<rparr>" "GET_SEM h"])
      (use ok h in \<open>simp_all add: sem_slot_ok_def sem_live_def\<close>)
  ultimately show "sem_inv (upd_sem (GET_SEM h) (\<lambda>c. c\<lparr>semCount := semCount c + 1\<rparr>) s) \<and> unat (semCount ?c + 1) = unat (semCount ?c) + 1"
    by simp
qed

lemma LOS_SemPost_dead: "\<not> sem_live s h \<Longrightarrow> LOS_SemPost h s = Some (s, LOS_ERRNO_SEM_INVALID)"
  by (auto simp: LOS_SemPost_def OsSemPostUnsafe_def sem_live_def Let_def)

lemma sem_post_ok:
  assumes call: "call_ok s" and inv: "sem_inv s" and w: "\<And>t ts. sem_live s h \<Longrightarrow> lists s (SemList (GET_SEM h)) = t # ts \<Longrightarrow> wakeable s t"
  shows "\<exists>s' ret. LOS_SemPost h s = Some (s', ret) \<and> k_inv s' \<and> run_ok s' \<and> sem_inv s'"
proof (cases "sem_live s h")
  case True
  show ?thesis
  proof (cases "lists s (SemList (GET_SEM h))")
    case Nil
    then show ?thesis using LOS_SemPost_counts [OF inv True Nil] call_okD(1,2) [OF call] inv
      by (cases "semCount (g_allSem s (GET_SEM h)) = maxSemCount (g_allSem s (GET_SEM h))") simp_all
  next
    case (Cons t ts)
    then show ?thesis using LOS_SemPost_wakes [OF call inv True Cons w [OF True Cons]] by blast
  qed
qed (use call_okD(1,2) [OF call] inv LOS_SemPost_dead in blast)

text \<open>Suspending a task that waits with a time limit takes its node out of the timeout list but leaves its time and its status as they were (\<open>SchedTaskFreeze\<close>). Waking it
  then unlinks a node that is in no list.\<close>

definition frozen_waiter :: "'a kstate_scheme \<Rightarrow> nat \<Rightarrow> bool" where
  "frozen_waiter s t \<longleftrightarrow> is_frozen (tcb s t) \<and> has (status_of s t) OS_TASK_STATUS_PEND_TIME \<and> responseTime (sortNodes s t) \<noteq> OS_SORT_LINK_INVALID_TIME"

lemma freeze_waiter:
  assumes "k_inv s" and "has (status_of s t) OS_TASK_STATUS_PEND_TIME" and "t \<in> timed_tasks s"
  shows "\<exists>s'. SchedTaskFreeze t s = Some s' \<and> frozen_waiter s' t"
proof -
  have "responseTime (sortNodes s t) \<noteq> OS_SORT_LINK_INVALID_TIME" using assms(3) k_invD(3) [OF assms(1)] by (simp add: timeouts_ok_def)
  moreover have "has (status_of s t) (OS_TASK_STATUS_PEND_TIME OR OS_TASK_STATUS_DELAY)" using assms(2) unfolding has_split by simp
  ultimately show ?thesis using assms(2,3)
    by (simp add: SchedTaskFreeze_def OsSchedTimeoutQueueDelete_def OsDeleteFromSortLink_def OsDeleteNodeSortLink_def GET_SORTLIST_VALUE_def frozen_waiter_def
      set_status_def SET_SORTLIST_VALUE_def flag_simps)
qed

lemma wake_frozen:
  assumes k: "k_inv s" and t: "ops (tcb s t) = g_priorityOps" "frozen_waiter s t"
  shows "ops_wake t s = None"
proof -
  have "t \<notin> timed_tasks s" using k_invD(3) [OF k] t(2) by (simp add: timeouts_ok_def frozen_waiter_def)
  then have "OsSchedTimeoutQueueDelete t (clr_status t OS_TASK_STATUS_PENDING u) = None" if "pend_delete t s = Some u" for u
    using that t(2) by (auto simp: pend_delete_def OsSchedTimeoutQueueDelete_def OsDeleteFromSortLink_def OsDeleteNodeSortLink_def frozen_waiter_def clr_status_def split: option.splits)
  moreover have "has (status_of (clr_status t OS_TASK_STATUS_PENDING u) t) OS_TASK_STATUS_PEND_TIME" if "pend_delete t s = Some u" for u
    using that t(2) by (auto simp: pend_delete_def frozen_waiter_def clr_status_def flag_simps split: option.splits)
  ultimately show ?thesis using t(1) by (cases "pend_delete t s") (simp_all add: ops_wake_def HPFWake_def wake_with_def)
qed

lemma post_frozen:
  assumes k: "k_inv s" and inv: "sem_inv s" and h: "sem_live s h" "lists s (SemList (GET_SEM h)) = t # ts" and t: "ops (tcb s t) = g_priorityOps" "frozen_waiter s t"
  shows "LOS_SemPost h s = None"
proof -
  let ?s = "OsTaskWakeClearPendMask t s"
  have "k_inv ?s" unfolding OsTaskWakeClearPendMask_def by (rule k_inv_minor [OF k]) (simp add: minor_update_def)
  then have "ops_wake t ?s = None" using t by (intro wake_frozen) (simp_all add: frozen_waiter_def OsTaskWakeClearPendMask_def)
  moreover have i: "GET_SEM h < semLimit s" and c: "semID (g_allSem s (GET_SEM h)) = h" "semStat (g_allSem s (GET_SEM h)) \<noteq> OS_SEM_UNUSED"
    using h(1) by (simp_all add: sem_live_def)
  moreover have "semCount (g_allSem s (GET_SEM h)) \<noteq> maxSemCount (g_allSem s (GET_SEM h))" using sem_invD(3) [OF inv i] c h(2) by (auto simp: sem_slot_ok_def)
  ultimately show ?thesis using h(2) by (simp add: LOS_SemPost_def OsSemPostUnsafe_def)
qed

section \<open>Handles\<close>

inductive sem_step :: "'a sem_kstate_scheme \<Rightarrow> 'a sem_kstate_scheme \<Rightarrow> bool" where
  call: "sem_run c s = Some (s', r) \<Longrightarrow> sem_step s s'"

abbreviation (input) sem_slotID :: "'a sem_kstate_scheme \<Rightarrow> nat \<Rightarrow> u32" where
  "sem_slotID s i \<equiv> semID (g_allSem s i)"

lemma OsSemCreate_ids: "sem_slotID (fst (OsSemCreate count m p s)) i = sem_slotID s i"
  by (auto simp: OsSemCreate_def Let_def split: list.splits)

lemma LOS_SemDelete_ids:
  "i \<noteq> GET_SEM h \<Longrightarrow> sem_slotID (fst (LOS_SemDelete h s)) i = sem_slotID s i"
  "sem_slotID (fst (LOS_SemDelete h s)) (GET_SEM h) \<in> {sem_slotID s (GET_SEM h), sem_slotID s (GET_SEM h) + 0x10000}"
  using next_id [of "sem_slotID s (GET_SEM h)"]
  by (auto simp: LOS_SemDelete_def Let_def SET_SEM_ID_def GET_SEM_COUNT_def GET_SEM_INDEX_def)

lemma LOS_SemPend_ids:
  assumes "LOS_SemPend h timeout s = Some (s', r)"
  shows "sem_slotID s' i = sem_slotID s i"
proof -
  have w: "sem_slotID s3 i = sem_slotID s i"
    if "ops_wait t l k timeout (OsTaskWaitSetPendMask f x s) = Some (s3, r')" for t l k f x s3 r'
    using sem_more(1) [of s3 "OsTaskWaitSetPendMask f x s"] sem_more(1) [of "OsTaskWaitSetPendMask f x s" s] ops_wait_more [OF that] by simp
  show ?thesis using assms
    by (auto simp: LOS_SemPend_def Let_def bind_eq_Some_conv OsPreemptableInSched_def dest!: w split: if_splits)
qed

lemma LOS_SemPost_ids:
  assumes "LOS_SemPost h s = Some (s', r)"
  shows "sem_slotID s' i = sem_slotID s i"
proof -
  have w: "sem_slotID s1 i = sem_slotID s i" if "ops_wake t (OsTaskWakeClearPendMask t s) = Some s1" for t s1
    using sem_more(1) [of s1 "OsTaskWakeClearPendMask t s"] sem_more(1) [of "OsTaskWakeClearPendMask t s" s] ops_wake_more [OF that] by simp
  have sc: "sem_slotID s' i = sem_slotID s1 i" if "LOS_Schedule s1 = Some s'" for s1
    using sem_more(1) [of s' s1] LOS_Schedule_more [OF that] by simp
  show ?thesis using assms
    by (auto simp: LOS_SemPost_def OsSemPostUnsafe_def Let_def bind_eq_Some_conv dest!: w sc split: if_splits list.splits)
qed

interpretation sem: handle_table sem_step sem_slotID
proof
  fix s s' :: "'a sem_kstate_scheme" assume "sem_step s s'"
  then obtain c r where "sem_run c s = Some (s', r)" by (auto elim: sem_step.cases)
  then show "\<exists>i. (\<forall>j. j \<noteq> i \<longrightarrow> sem_slotID s' j = sem_slotID s j) \<and> (sem_slotID s' i = sem_slotID s i \<or> sem_slotID s' i = sem_slotID s i + 0x10000)"
  proof (cases c)
    case (SemDelete h)
    then have "s' = fst (LOS_SemDelete h s)" using \<open>sem_run c s = Some (s', r)\<close> by (auto split: prod.splits)
    then show ?thesis using LOS_SemDelete_ids [where s = s and h = h] by auto
  next
    case (SemCreate n p)
    then have "s' = fst (OsSemCreate n OS_SEM_COUNT_MAX p s)" using \<open>sem_run c s = Some (s', r)\<close> by (auto simp: LOS_SemCreate_def split: prod.splits)
    then show ?thesis using OsSemCreate_ids by blast
  next
    case (BinarySemCreate n p)
    then have "s' = fst (OsSemCreate n OS_SEM_BINARY_COUNT_MAX p s)" using \<open>sem_run c s = Some (s', r)\<close> by (auto simp: LOS_BinarySemCreate_def split: prod.splits)
    then show ?thesis using OsSemCreate_ids by blast
  next
    case (SemPend h timeout)
    then show ?thesis using \<open>sem_run c s = Some (s', r)\<close> LOS_SemPend_ids by fastforce
  next
    case (SemPost h)
    then show ?thesis using \<open>sem_run c s = Some (s', r)\<close> LOS_SemPost_ids by fastforce
  qed
qed

section \<open>A concrete table\<close>

text \<open>Two blocks: block 0 in use with no unit left, block 1 free. In \<open>sem_demo\<close> nobody waits, in \<open>sem_demo_wait\<close> task
  2 waits for semaphore 0.\<close>

definition sem_demo_cb :: "nat \<Rightarrow> LosSemCB" where
  "sem_demo_cb i = \<lparr>semStat = if i = 0 then OS_SEM_USED else OS_SEM_UNUSED, semCount = 0, maxSemCount = OS_SEM_COUNT_MAX, semID = of_nat i\<rparr>"

definition sem_demo :: sem_kstate where
  "sem_demo = demo (sem_kstate.fields sem_demo_cb [1] 2)"

definition sem_demo_wait :: sem_kstate where
  "sem_demo_wait = demo_wait (SemList 0) (sem_kstate.fields sem_demo_cb [1] 2)"

lemma sem_demo_more:
  assumes "kstate.more s = sem_kstate.fields f u l"
  shows "g_allSem s = f" "g_unusedSemList s = u" "semLimit s = l"
  using assms by (cases s; simp add: sem_kstate.fields_def)+

lemmas sem_demo_fields [simp] =
  sem_demo_more [of sem_demo sem_demo_cb "[1]" 2, unfolded sem_demo_def, OF demo_simps(9), folded sem_demo_def]
  sem_demo_more [of sem_demo_wait sem_demo_cb "[1]" 2, unfolded sem_demo_wait_def, OF demo_wait_simps(2), folded sem_demo_wait_def]

lemma sem_demo_inv: "sem_inv sem_demo" "sem_inv sem_demo_wait" "call_ok sem_demo" "call_ok sem_demo_wait"
proof -
  have two: "i < (2 :: nat) \<longleftrightarrow> i = 0 \<or> i = 1" for i by auto
  have slot: "sem_slot_ok i (sem_demo_cb i) (if i = 0 then l else [])" if "i < 2" for i l
    using that by (auto simp: two sem_slot_ok_def sem_demo_cb_def GET_SEM_INDEX_def split_index_def)
  have "semStat (sem_demo_cb i) = OS_SEM_UNUSED \<longleftrightarrow> i \<noteq> 0" for i by (simp add: sem_demo_cb_def)
  moreover have "lists sem_demo h = []" "lists sem_demo_wait (SemList i) = (if i = 0 then [2] else [])" for h i
    by (simp_all add: sem_demo_def sem_demo_wait_def)
  ultimately show "sem_inv sem_demo" "sem_inv sem_demo_wait" using slot [of _ "[]"] slot [of _ "[2]"]
    by (auto simp: sem_inv_def)
  show "call_ok sem_demo" "call_ok sem_demo_wait" unfolding sem_demo_def sem_demo_wait_def by (simp_all add: demo_call demo_wait_call)
qed

lemma sem_demo_live: "sem_live sem_demo 0" "sem_live sem_demo_wait 0"
  by (simp_all add: sem_live_def GET_SEM_INDEX_def split_index_def sem_demo_cb_def)

section \<open>Properties\<close>

text \<open>C12. The semaphore calls: whatever call a task makes, with whatever arguments, it does not fail an assertion or follow a bad link, and it keeps the scheduler
  invariant and the semaphore invariant, which says that the free list holds exactly the unused blocks, that a count never exceeds its maximum, and that nobody waits
  for a semaphore that has units left. The only exception is a post whose first waiter waits with a time limit and was suspended meanwhile: waking it unlinks a node of
  the timeout list that \<open>SchedTaskFreeze\<close> has already unlinked. The waiters are tasks of the priority policies, and a time limit is not the largest time.\<close>

theorem sem_calls_safe:
  assumes "call_ok s" and "sem_inv s"
    and "\<forall>i. \<forall>t \<in> set (lists s (SemList i)). ops (tcb s t) = g_priorityOps \<and> (is_frozen (tcb s t) \<longrightarrow> frozen_waiter s t)"
    and "\<forall>h timeout. c = SemPend h timeout \<longrightarrow>
      timeout = LOS_WAIT_FOREVER \<or> OS_SCHED_TICK_TO_CYCLE timeout s + clock s \<noteq> OS_SORT_LINK_INVALID_TIME"
  shows "if \<exists>h t ts. c = SemPost h \<and> sem_live s h \<and> lists s (SemList (GET_SEM h)) = t # ts \<and> is_frozen (tcb s t)
    then sem_run c s = None
    else \<exists>s' r. sem_run c s = Some (s', r) \<and> k_inv s' \<and> run_ok s' \<and> sem_inv s'"
proof (cases c)
  case (SemCreate n p)
  then show ?thesis using sem_create_ok [OF assms(2) call_okD(1,2) [OF assms(1)], of OS_SEM_COUNT_MAX n p] by (auto simp: LOS_SemCreate_def)
next
  case (BinarySemCreate n p)
  then show ?thesis using sem_create_ok [OF assms(2) call_okD(1,2) [OF assms(1)], of OS_SEM_BINARY_COUNT_MAX n p] by (auto simp: LOS_BinarySemCreate_def)
next
  case (SemDelete h)
  then show ?thesis using sem_delete_ok [OF assms(2) call_okD(1,2) [OF assms(1)], of h] by auto
next
  case (SemPend h timeout)
  then show ?thesis using sem_pend_ok [OF assms(1,2), of timeout h] assms(4) by simp
next
  case (SemPost h)
  show ?thesis
  proof (cases "\<exists>t ts. sem_live s h \<and> lists s (SemList (GET_SEM h)) = t # ts \<and> is_frozen (tcb s t)")
    case True
    then obtain t ts where t: "sem_live s h" "lists s (SemList (GET_SEM h)) = t # ts" "is_frozen (tcb s t)" by blast
    have "t \<in> set (lists s (SemList (GET_SEM h)))" using t(2) by simp
    with assms(3) t(3) have "ops (tcb s t) = g_priorityOps" "frozen_waiter s t" by blast+
    with post_frozen [OF call_okD(1) [OF assms(1)] assms(2) t(1,2)] True SemPost show ?thesis by simp
  next
    case False
    have "wakeable s t" if "sem_live s h" "lists s (SemList (GET_SEM h)) = t # ts" for t ts
    proof -
      have "t \<in> set (lists s (SemList (GET_SEM h)))" using that(2) by simp
      with assms(3) False that show ?thesis unfolding wakeable_def by blast
    qed
    with sem_post_ok [OF assms(1,2), of h] False SemPost show ?thesis by auto
  qed
qed

theorem sem_calls_safe_witness:
  "\<exists>s' r. sem_run (SemPost 0) sem_demo_wait = Some (s', r) \<and> sem_inv s'"
proof -
  have "wakeable sem_demo_wait 2" using demo_wait_call(2) [of "SemList 0"] by (simp add: sem_demo_wait_def)
  moreover have l: "lists sem_demo_wait (SemList i) = (if i = 0 then [2] else [])" for i by (simp add: sem_demo_wait_def)
  ultimately have w: "\<forall>i. \<forall>t \<in> set (lists sem_demo_wait (SemList i)). \<not> is_frozen (tcb sem_demo_wait t) \<and> ops (tcb sem_demo_wait t) = g_priorityOps"
    by (simp add: wakeable_def)
  moreover have "GET_SEM 0 = 0" by (simp add: GET_SEM_INDEX_def split_index_def)
  ultimately show ?thesis using sem_calls_safe [OF sem_demo_inv(4,2), where c = "SemPost 0"] by (auto simp: l)
qed

text \<open>C16. Posting hands the unit over: a post on a live semaphore with waiters takes the first waiter out of the list,
  cancels its timeout and makes it ready or running unless it is suspended, leaves the count and all other waiters as they were, and
  afterwards no ready task has a higher priority than the running one. Waiters queue in the order of their pends,
  by C11.\<close>

theorem sem_post_hands_over:
  assumes "call_ok s" and "sem_inv s" and "sem_live s h" and "lists s (SemList (GET_SEM h)) = t # ts" and "wakeable s t"
  shows "\<exists>s'. LOS_SemPost h s = Some (s', LOS_OK) \<and> waiting s' (SemList (GET_SEM h)) = ts \<and>
    (\<forall>h'. h' \<noteq> SemList (GET_SEM h) \<longrightarrow> waiting s' h' = waiting s h') \<and> g_allSem s' = g_allSem s \<and> t \<notin> timed_tasks s' \<and>
    (\<not> has (status_of s t) OS_TASK_STATUS_SUSPENDED \<longrightarrow> ready_hpf s' t \<or> currTask s' = t) \<and>
    (\<forall>t'. ready_hpf s t' \<or> t' = currTask s \<longrightarrow> ready_hpf s' t' \<or> t' = currTask s') \<and>
    (\<not> intActive s \<and> taskLockCnt s = 0 \<longrightarrow> (\<forall>t'. ready_hpf s' t' \<longrightarrow> prio_le (tcb s' (currTask s')) (tcb s' t')))"
  using LOS_SemPost_wakes [OF assms] by (rule ex_forward) (blast dest: sem_more(1))

theorem sem_post_hands_over_witness:
  "\<exists>s'. LOS_SemPost 0 sem_demo_wait = Some (s', LOS_OK) \<and> (ready_hpf s' 2 \<or> currTask s' = 2) \<and> waiting s' (SemList 0) = []"
proof -
  have g: "GET_SEM 0 = 0" by (simp add: GET_SEM_INDEX_def split_index_def)
  have w: "wakeable sem_demo_wait 2" "lists sem_demo_wait (SemList (GET_SEM 0)) = [2]" "\<not> has (status_of sem_demo_wait 2) OS_TASK_STATUS_SUSPENDED"
    using demo_wait_call(2) [of "SemList 0"] g by (simp_all add: sem_demo_wait_def flag_simps)
  then show ?thesis using sem_post_hands_over [OF sem_demo_inv(4,2) sem_demo_live(2) w(2,1)] unfolding g by blast
qed

text \<open>C32. Pending: on a live semaphore, from a task that may block, a pend takes a unit when there is one, fails at once with
  \<open>LOS_ERRNO_SEM_UNAVAILABLE\<close> when there is none and the timeout is zero, and otherwise blocks the task at the
  end of the waiting list, with a timeout unless the wait is forever, and another task runs.\<close>

theorem sem_pend_takes_or_waits:
  assumes "call_ok s" and "sem_inv s" and "sem_live s h" and "\<not> intActive s" and "taskLockCnt s = 0"
    and "\<not> has (status_of s (currTask s)) OS_TASK_FLAG_SYSTEM_TASK"
    and "timeout = LOS_WAIT_FOREVER \<or> OS_SCHED_TICK_TO_CYCLE timeout s + clock s \<noteq> OS_SORT_LINK_INVALID_TIME"
  shows "if semCount (g_allSem s (GET_SEM h)) > 0
    then LOS_SemPend h timeout s = Some (upd_sem (GET_SEM h) (\<lambda>c. c\<lparr>semCount := semCount c - 1\<rparr>) s, WaitRet LOS_OK)
    else if timeout = 0 then LOS_SemPend h timeout s = Some (s, WaitRet LOS_ERRNO_SEM_UNAVAILABLE)
    else \<exists>s'. LOS_SemPend h timeout s = Some (s', WaitBlocked) \<and> sem_inv s' \<and> k_inv s' \<and> currTask s' \<noteq> currTask s \<and>
      waiting s' (SemList (GET_SEM h)) = waiting s (SemList (GET_SEM h)) @ [currTask s] \<and>
      (\<forall>h'. h' \<noteq> SemList (GET_SEM h) \<longrightarrow> waiting s' h' = waiting s h') \<and> g_allSem s' = g_allSem s \<and>
      (currTask s \<in> timed_tasks s' \<longleftrightarrow> timeout \<noteq> LOS_WAIT_FOREVER)"
proof (cases "semCount (g_allSem s (GET_SEM h)) > 0 \<or> timeout = 0")
  case True
  then show ?thesis using assms by (auto simp: LOS_SemPend_def sem_live_def Let_def word_gt_0)
next
  case False
  then have "semCount (g_allSem s (GET_SEM h)) = 0" "timeout \<noteq> 0" by (simp_all add: word_gt_0)
  from LOS_SemPend_blocks [OF assms(1-3) this(1) assms(4,6,5) this(2) assms(7)] False show ?thesis
    by (simp only: if_False de_Morgan_disj) (metis sem_more(1))
qed

theorem sem_pend_takes_or_waits_witness:
  "\<exists>s'. LOS_SemPend 0 LOS_WAIT_FOREVER sem_demo = Some (s', WaitBlocked) \<and> waiting s' (SemList 0) = [1]"
proof -
  have g: "GET_SEM 0 = 0" by (simp add: GET_SEM_INDEX_def split_index_def)
  have "\<not> intActive sem_demo" "taskLockCnt sem_demo = 0" "\<not> has (status_of sem_demo (currTask sem_demo)) OS_TASK_FLAG_SYSTEM_TASK"
    by (simp_all add: sem_demo_def flag_simps)
  moreover have "waiting sem_demo (SemList 0) = []" "currTask sem_demo = 1" by (simp_all add: sem_demo_def waiting_lists)
  ultimately show ?thesis
    using sem_pend_takes_or_waits [OF sem_demo_inv(3,1) sem_demo_live(1), of LOS_WAIT_FOREVER]
    unfolding g by (auto simp: sem_demo_cb_def)
qed

text \<open>C34. A deleted semaphore stays deleted: after a successful \<open>LOS_SemDelete\<close>, and whatever semaphore calls (up to 65534 of
  them, reuse of the block by new semaphores included) follow, the old handle is rejected by delete, post and pend, without a
  change of state.\<close>

theorem sem_stale_handle:
  assumes "LOS_SemDelete h s = (s1, LOS_OK)" and "(sem_step ^^ n) s1 s2" and "n < 0xFFFF"
  shows "LOS_SemDelete h s2 = (s2, LOS_ERRNO_SEM_INVALID) \<and> LOS_SemPost h s2 = Some (s2, LOS_ERRNO_SEM_INVALID) \<and>
    (\<exists>e \<in> {LOS_ERRNO_SEM_INVALID, LOS_ERRNO_SEM_PEND_INTERR, LOS_ERRNO_SEM_PEND_IN_SYSTEM_TASK}. LOS_SemPend h timeout s2 = Some (s2, WaitRet e))"
proof -
  have "sem_live s h" using assms(1) by (auto simp: LOS_SemDelete_def sem_live_def Let_def split: if_splits)
  then have "sem_slotID s1 (GET_SEM h) = sem_slotID s (GET_SEM h) + 0x10000" and id: "sem_slotID s (GET_SEM h) = h"
    using assms(1) next_id [of h]
    by (auto simp: LOS_SemDelete_def sem_live_def Let_def SET_SEM_ID_def GET_SEM_COUNT_def GET_SEM_INDEX_def split: if_splits)
  from sem.stale [OF this(1) assms(2,3)] have "sem_slotID s2 (GET_SEM h) \<noteq> h" unfolding id .
  then show ?thesis
    by (auto simp: LOS_SemPend_def LOS_SemDelete_def Let_def LOS_SemPost_dead sem_live_def)
qed

theorem sem_stale_handle_witness:
  "\<exists>s1. LOS_SemDelete 0 sem_demo = (s1, LOS_OK) \<and> (\<exists>s2. (sem_step ^^ 1) s1 s2 \<and> LOS_SemPost 0 s2 = Some (s2, LOS_ERRNO_SEM_INVALID))"
proof -
  have "lists sem_demo (SemList (GET_SEM 0)) = []" by (simp add: sem_demo_def)
  then obtain s1 where d: "LOS_SemDelete 0 sem_demo = (s1, LOS_OK)" "sem_inv s1" "k_inv s1" "run_ok s1"
    using LOS_SemDelete_ok [OF sem_demo_inv(1) call_okD(1,2) [OF sem_demo_inv(3)] sem_demo_live(1)] by blast
  obtain s2 ret r where "LOS_SemCreate 1 True s1 = (s2, ret, r)" by (metis prod_cases3)
  then have "sem_step s1 s2" by (intro sem_step.call [of "SemCreate 1 True"]) auto
  then have "(sem_step ^^ 1) s1 s2" by auto
  with d(1) sem_stale_handle [OF d(1) this] show ?thesis by fastforce
qed

end
