(* ===== verification/LosEvent.thy ===== *)
theory LosEvent
  imports LosSchedCall
begin

text \<open>
  Events, \<^verbatim>\<open>kernel/base/ipc/los_event.c\<close>. An event control block is named by its address; \<open>uwEventID\<close> holds
  its event bits and \<open>EventList e\<close> its waiting tasks. A pointer argument is an option, \<open>None\<close> for \<open>NULL\<close>. A
  read runs up to the switch to another task; \<open>OsEventRead_resume\<close> is the rest of the call. The hooks are left out.
\<close>

section \<open>The code\<close>

abbreviation (input) LOS_ERRNO_EVENT_SETBIT_INVALID :: u32 where "LOS_ERRNO_EVENT_SETBIT_INVALID \<equiv> 0x02001c00"
abbreviation (input) LOS_ERRNO_EVENT_READ_TIMEOUT :: u32 where "LOS_ERRNO_EVENT_READ_TIMEOUT \<equiv> 0x02001c01"
abbreviation (input) LOS_ERRNO_EVENT_EVENTMASK_INVALID :: u32 where "LOS_ERRNO_EVENT_EVENTMASK_INVALID \<equiv> 0x02001c02"
abbreviation (input) LOS_ERRNO_EVENT_READ_IN_INTERRUPT :: u32 where "LOS_ERRNO_EVENT_READ_IN_INTERRUPT \<equiv> 0x02001c03"
abbreviation (input) LOS_ERRNO_EVENT_FLAGS_INVALID :: u32 where "LOS_ERRNO_EVENT_FLAGS_INVALID \<equiv> 0x02001c04"
abbreviation (input) LOS_ERRNO_EVENT_READ_IN_LOCK :: u32 where "LOS_ERRNO_EVENT_READ_IN_LOCK \<equiv> 0x02001c05"
abbreviation (input) LOS_ERRNO_EVENT_PTR_NULL :: u32 where "LOS_ERRNO_EVENT_PTR_NULL \<equiv> 0x02001c06"
abbreviation (input) LOS_ERRNO_EVENT_READ_IN_SYSTEM_TASK :: u32 where "LOS_ERRNO_EVENT_READ_IN_SYSTEM_TASK \<equiv> 0x02001c07"
abbreviation (input) LOS_ERRNO_EVENT_SHOULD_NOT_DESTROY :: u32 where "LOS_ERRNO_EVENT_SHOULD_NOT_DESTROY \<equiv> 0x02001c08"

abbreviation (input) LOS_WAITMODE_AND :: u32 where "LOS_WAITMODE_AND \<equiv> 4"
abbreviation (input) LOS_WAITMODE_OR :: u32 where "LOS_WAITMODE_OR \<equiv> 2"
abbreviation (input) LOS_WAITMODE_CLR :: u32 where "LOS_WAITMODE_CLR \<equiv> 1"
abbreviation (input) OS_TASK_WAIT_EVENT :: u16 where "OS_TASK_WAIT_EVENT \<equiv> 12"

record event_kstate = kstate +
  uwEventID :: "nat \<Rightarrow> u32"

definition set_event :: "nat \<Rightarrow> u32 \<Rightarrow> 'a event_kstate_scheme \<Rightarrow> 'a event_kstate_scheme" where
  "set_event e x s = s\<lparr>uwEventID := (uwEventID s)(e := x)\<rparr>"

definition LOS_EventInit :: "nat option \<Rightarrow> 'a event_kstate_scheme \<Rightarrow> 'a event_kstate_scheme \<times> u32" where
  "LOS_EventInit eventCB s = (case eventCB of None \<Rightarrow> (s, LOS_ERRNO_EVENT_PTR_NULL)
    | Some e \<Rightarrow> ((set_event e 0 s)\<lparr>lists := (lists s)(EventList e := [])\<rparr>, LOS_OK))"

definition OsEventParamCheck :: "nat option \<Rightarrow> u32 \<Rightarrow> u32 \<Rightarrow> u32" where
  "OsEventParamCheck ptr msk mode =
    (if ptr = None then LOS_ERRNO_EVENT_PTR_NULL
     else if msk = 0 then LOS_ERRNO_EVENT_EVENTMASK_INVALID
     else if has msk LOS_ERRTYPE_ERROR then LOS_ERRNO_EVENT_SETBIT_INVALID
     else if has mode LOS_WAITMODE_OR \<and> has mode LOS_WAITMODE_AND \<or>
       has mode (NOT (LOS_WAITMODE_OR OR LOS_WAITMODE_AND OR LOS_WAITMODE_CLR)) \<or>
       \<not> has mode (LOS_WAITMODE_OR OR LOS_WAITMODE_AND) then LOS_ERRNO_EVENT_FLAGS_INVALID
     else LOS_OK)"

text \<open>The new event word and the returned bits.\<close>

definition OsEventPoll :: "u32 \<Rightarrow> u32 \<Rightarrow> u32 \<Rightarrow> u32 \<times> u32" where
  "OsEventPoll eventID msk mode =
    (let ret = (if has mode LOS_WAITMODE_OR then (if eventID AND msk \<noteq> 0 then eventID AND msk else 0)
                else (if msk \<noteq> 0 \<and> msk = eventID AND msk then eventID AND msk else 0))
     in (if ret \<noteq> 0 \<and> has mode LOS_WAITMODE_CLR then eventID AND NOT ret else eventID, ret))"

definition event_poll :: "nat \<Rightarrow> u32 \<Rightarrow> u32 \<Rightarrow> 'a event_kstate_scheme \<Rightarrow> 'a event_kstate_scheme \<times> u32" where
  "event_poll e msk mode s = (case OsEventPoll (uwEventID s e) msk mode of (x, ret) \<Rightarrow> (set_event e x s, ret))"

definition OsEventReadCheck :: "nat option \<Rightarrow> u32 \<Rightarrow> u32 \<Rightarrow> 'a event_kstate_scheme \<Rightarrow> u32" where
  "OsEventReadCheck eventCB msk mode s =
    (let ret = OsEventParamCheck eventCB msk mode
     in if ret \<noteq> LOS_OK then ret
        else if intActive s then LOS_ERRNO_EVENT_READ_IN_INTERRUPT
        else if has (status_of s (currTask s)) OS_TASK_FLAG_SYSTEM_TASK then LOS_ERRNO_EVENT_READ_IN_SYSTEM_TASK
        else LOS_OK)"

text \<open>What the reader does with the result of its wait.\<close>

definition event_waited :: "nat \<Rightarrow> u32 \<Rightarrow> u32 \<Rightarrow> u32 \<Rightarrow> 'a event_kstate_scheme \<Rightarrow> 'a event_kstate_scheme \<times> u32" where
  "event_waited e msk mode ret s =
    (if ret = LOS_ERRNO_TSK_TIMEOUT then (s, LOS_ERRNO_EVENT_READ_TIMEOUT) else event_poll e msk mode s)"

definition OsEventReadImp :: "nat \<Rightarrow> u32 \<Rightarrow> u32 \<Rightarrow> u32 \<Rightarrow> bool \<Rightarrow> 'a event_kstate_scheme
    \<Rightarrow> ('a event_kstate_scheme \<times> wait_result) option" where
  "OsEventReadImp e msk mode timeout once s =
    (let runTask = currTask s;
         (s0, ret) = (if \<not> once then event_poll e msk mode s else (s, 0))
     in if ret \<noteq> 0 then Some (s0, WaitRet ret)
        else if timeout = 0 then Some (s0, WaitRet ret)
        else case OsPreemptableInSched s0 of
          (s1, False) \<Rightarrow> Some (s1, WaitRet LOS_ERRNO_EVENT_READ_IN_LOCK)
        | (s1, True) \<Rightarrow> do {
            let s2 = OsTaskWaitSetPendMask OS_TASK_WAIT_EVENT msk
              (upd_task runTask (\<lambda>c. c\<lparr>eventMask := msk, eventMode := mode, taskEvent := Some e\<rparr>) s1);
            (s3, r) \<leftarrow> ops_wait runTask (EventList e) (length (lists s2 (EventList e))) timeout s2;
            Some (case r of WaitBlocked \<Rightarrow> (s3, WaitBlocked)
              | WaitRet ret \<Rightarrow> (case event_waited e msk mode ret s3 of (s4, ret') \<Rightarrow> (s4, WaitRet ret')))
          })"

definition OsEventRead_resume :: "nat \<Rightarrow> nat \<Rightarrow> u32 \<Rightarrow> u32 \<Rightarrow> 'a event_kstate_scheme \<Rightarrow> 'a event_kstate_scheme \<times> u32" where
  "OsEventRead_resume t e msk mode s = (case wait_resume t s of (s', ret) \<Rightarrow> event_waited e msk mode ret s')"

definition OsEventRead :: "nat option \<Rightarrow> u32 \<Rightarrow> u32 \<Rightarrow> u32 \<Rightarrow> bool \<Rightarrow> 'a event_kstate_scheme
    \<Rightarrow> ('a event_kstate_scheme \<times> wait_result) option" where
  "OsEventRead eventCB msk mode timeout once s =
    (let ret = OsEventReadCheck eventCB msk mode s
     in if ret \<noteq> LOS_OK then Some (s, WaitRet ret)
        else OsEventReadImp (the eventCB) msk mode timeout once s)"

definition event_wake :: "nat \<Rightarrow> 'a kstate_scheme \<Rightarrow> 'a kstate_scheme option" where
  "event_wake t s = ops_wake t (OsTaskWakeClearPendMask t (upd_task t (\<lambda>c. c\<lparr>taskEvent := None\<rparr>) s))"

definition event_match :: "LosTaskCB \<Rightarrow> u32 \<Rightarrow> u32 \<Rightarrow> bool" where
  "event_match c eventID events \<longleftrightarrow> has (eventMode c) LOS_WAITMODE_OR \<and> eventMask c AND events \<noteq> 0 \<or>
    has (eventMode c) LOS_WAITMODE_AND \<and> eventMask c AND eventID = eventMask c"

definition OsEventResume :: "nat \<Rightarrow> nat \<Rightarrow> u32 \<Rightarrow> 'a event_kstate_scheme \<Rightarrow> ('a event_kstate_scheme \<times> bool) option" where
  "OsEventResume resumedTask e events s =
    (if event_match (tcb s resumedTask) (uwEventID s e) events
     then map_option (\<lambda>s'. (s', True)) (event_wake resumedTask s)
     else Some (s, False))"

text \<open>The walk over the waiters. The successor of a waiter is read before the waiter is woken, and a wake unlinks only
  the woken task from the list, so the walk visits the list as it was at its start.\<close>

fun event_write_loop :: "nat list \<Rightarrow> nat \<Rightarrow> u32 \<Rightarrow> bool \<Rightarrow> bool \<Rightarrow> 'a event_kstate_scheme \<Rightarrow> ('a event_kstate_scheme \<times> bool) option" where
  "event_write_loop [] e events once flag s = Some (s, flag)"
| "event_write_loop (resumedTask # rest) e events once flag s =
    do {
      (s1, woken_up) \<leftarrow> OsEventResume resumedTask e events s;
      if once then Some (s1, flag \<or> woken_up) else event_write_loop rest e events once (flag \<or> woken_up) s1
    }"

definition OsEventWriteUnsafe :: "nat \<Rightarrow> u32 \<Rightarrow> bool \<Rightarrow> 'a event_kstate_scheme \<Rightarrow> ('a event_kstate_scheme \<times> bool) option" where
  "OsEventWriteUnsafe e events once s =
    (let s1 = set_event e (uwEventID s e OR events) s
     in event_write_loop (lists s1 (EventList e)) e events once False s1)"

definition OsEventWrite :: "nat option \<Rightarrow> u32 \<Rightarrow> bool \<Rightarrow> 'a event_kstate_scheme \<Rightarrow> ('a event_kstate_scheme \<times> u32) option" where
  "OsEventWrite eventCB events once s = (case eventCB of None \<Rightarrow> Some (s, LOS_ERRNO_EVENT_PTR_NULL)
    | Some e \<Rightarrow>
        if has events LOS_ERRTYPE_ERROR then Some (s, LOS_ERRNO_EVENT_SETBIT_INVALID)
        else do {
          (s1, exitFlag) \<leftarrow> OsEventWriteUnsafe e events once s;
          s2 \<leftarrow> (if exitFlag then LOS_Schedule s1 else Some s1);
          Some (s2, LOS_OK)
        })"

text \<open>\<open>LOS_EventPoll\<close> works on any event word; here it is that of a control block.\<close>

definition LOS_EventPoll :: "nat option \<Rightarrow> u32 \<Rightarrow> u32 \<Rightarrow> 'a event_kstate_scheme \<Rightarrow> 'a event_kstate_scheme \<times> u32" where
  "LOS_EventPoll eventID msk mode s =
    (let ret = OsEventParamCheck eventID msk mode
     in if ret \<noteq> LOS_OK then (s, ret) else event_poll (the eventID) msk mode s)"

definition LOS_EventRead :: "nat option \<Rightarrow> u32 \<Rightarrow> u32 \<Rightarrow> u32 \<Rightarrow> 'a event_kstate_scheme \<Rightarrow> ('a event_kstate_scheme \<times> wait_result) option" where
  "LOS_EventRead eventCB msk mode timeout s = OsEventRead eventCB msk mode timeout False s"

definition LOS_EventWrite :: "nat option \<Rightarrow> u32 \<Rightarrow> 'a event_kstate_scheme \<Rightarrow> ('a event_kstate_scheme \<times> u32) option" where
  "LOS_EventWrite eventCB events s = OsEventWrite eventCB events False s"

definition OsEventReadOnce :: "nat option \<Rightarrow> u32 \<Rightarrow> u32 \<Rightarrow> u32 \<Rightarrow> 'a event_kstate_scheme \<Rightarrow> ('a event_kstate_scheme \<times> wait_result) option" where
  "OsEventReadOnce eventCB msk mode timeout s = OsEventRead eventCB msk mode timeout True s"

definition OsEventWriteOnce :: "nat option \<Rightarrow> u32 \<Rightarrow> 'a event_kstate_scheme \<Rightarrow> ('a event_kstate_scheme \<times> u32) option" where
  "OsEventWriteOnce eventCB events s = OsEventWrite eventCB events True s"

definition LOS_EventDestroy :: "nat option \<Rightarrow> 'a event_kstate_scheme \<Rightarrow> 'a event_kstate_scheme \<times> u32" where
  "LOS_EventDestroy eventCB s = (case eventCB of None \<Rightarrow> (s, LOS_ERRNO_EVENT_PTR_NULL)
    | Some e \<Rightarrow> if lists s (EventList e) \<noteq> [] then (s, LOS_ERRNO_EVENT_SHOULD_NOT_DESTROY)
        else (set_event e 0 s, LOS_OK))"

definition LOS_EventClear :: "nat option \<Rightarrow> u32 \<Rightarrow> 'a event_kstate_scheme \<Rightarrow> 'a event_kstate_scheme \<times> u32" where
  "LOS_EventClear eventCB msk s = (case eventCB of None \<Rightarrow> (s, LOS_ERRNO_EVENT_PTR_NULL)
    | Some e \<Rightarrow> (set_event e (uwEventID s e AND msk) s, LOS_OK))"

text \<open>\<open>cond\<close> is whether \<open>*cond->realValue\<close> equals \<open>cond->value\<close>.\<close>

definition OsEventReadWithCond :: "bool \<Rightarrow> u32 \<Rightarrow> nat option \<Rightarrow> u32 \<Rightarrow> u32 \<Rightarrow> u32 \<Rightarrow> 'a event_kstate_scheme
    \<Rightarrow> ('a event_kstate_scheme \<times> wait_result) option" where
  "OsEventReadWithCond cond clearEvent eventCB msk mode timeout s =
    (let ret = OsEventReadCheck eventCB msk mode s
     in if ret \<noteq> LOS_OK then Some (s, WaitRet ret)
        else if \<not> cond then Some (set_event (the eventCB) (uwEventID s (the eventCB) AND clearEvent) s, WaitRet ret)
        else OsEventReadImp (the eventCB) msk mode timeout False s)"

section \<open>Conditions\<close>

lemma event_more: "kstate.more s' = kstate.more s \<Longrightarrow> uwEventID s' = uwEventID s"
  by (cases s; cases s'; simp)

lemma truncate_set_event [simp]: "kstate.truncate (set_event e x s) = kstate.truncate s"
  by (simp add: set_event_def kstate.truncate_def)

lemmas set_event_sched [simp] = same_sched [OF truncate_set_event] truncateD [OF truncate_set_event]

lemma uwEventID_set_event [simp]: "uwEventID (set_event e x s) = (uwEventID s)(e := x)"
  by (simp add: set_event_def)

text \<open>A read condition is satisfied by an event word, and a waiter's mode is one that a read lets through.\<close>

definition event_sat :: "u32 \<Rightarrow> u32 \<Rightarrow> u32 \<Rightarrow> bool" where
  "event_sat eventID msk mode \<longleftrightarrow> (if has mode LOS_WAITMODE_OR then eventID AND msk \<noteq> 0 else msk \<noteq> 0 \<and> eventID AND msk = msk)"

definition mode_ok :: "u32 \<Rightarrow> u32 \<Rightarrow> bool" where
  "mode_ok msk mode \<longleftrightarrow> msk \<noteq> 0 \<and> (has mode LOS_WAITMODE_AND \<longleftrightarrow> \<not> has mode LOS_WAITMODE_OR)"

lemma OsEventPoll_ret: "snd (OsEventPoll x msk mode) = (if event_sat x msk mode then x AND msk else 0)"
  by (auto simp: OsEventPoll_def event_sat_def Let_def)

lemma event_sat_ret: "event_sat x msk mode \<Longrightarrow> x AND msk \<noteq> 0"
  by (auto simp: event_sat_def split: if_splits)

lemma OsEventPoll_unsat: "\<not> event_sat x msk mode \<Longrightarrow> OsEventPoll x msk mode = (x, 0)"
  by (auto simp: OsEventPoll_def event_sat_def Let_def split: if_splits)

text \<open>Fewer bits satisfy fewer conditions.\<close>

lemma event_sat_mono:
  assumes "event_sat (x AND y) msk mode"
  shows "event_sat x msk mode"
proof (cases "has mode LOS_WAITMODE_OR")
  case True
  then have "(x AND msk) AND y \<noteq> 0" using assms by (simp add: event_sat_def and.assoc and.commute and.left_commute)
  then have "x AND msk \<noteq> 0" by auto
  then show ?thesis using True by (simp add: event_sat_def)
next
  case False
  then have m: "msk \<noteq> 0" "(x AND y) AND msk = msk" using assms by (simp_all add: event_sat_def)
  then have "x AND msk = x AND ((x AND y) AND msk)" by simp
  also have "\<dots> = (x AND y) AND msk" by (simp add: and.assoc [symmetric])
  finally show ?thesis using False m by (simp add: event_sat_def)
qed

text \<open>The test of \<open>OsEventResume\<close> looks at the new bits only for an \<open>OR\<close> wait; for a waiter that was not satisfied
  before, that is the test against all bits.\<close>

lemma event_match_sat:
  assumes "mode_ok (eventMask c) (eventMode c)" and "\<not> event_sat x (eventMask c) (eventMode c)"
  shows "event_match c (x OR events) events \<longleftrightarrow> event_sat (x OR events) (eventMask c) (eventMode c)"
proof (cases "has (eventMode c) LOS_WAITMODE_OR")
  case True
  then have "x AND eventMask c = 0" using assms(2) by (simp add: event_sat_def)
  then have "(x OR events) AND eventMask c = events AND eventMask c" by (simp add: bit.conj_disj_distrib2)
  with True assms(1) show ?thesis by (simp add: event_match_def event_sat_def mode_ok_def and.commute)
next
  case False
  then show ?thesis using assms(1) by (simp add: event_match_def event_sat_def mode_ok_def and.commute)
qed

lemma ParamCheck_ok: "OsEventParamCheck p msk mode = LOS_OK \<Longrightarrow> p \<noteq> None \<and> mode_ok msk mode"
  using has_split [of mode LOS_WAITMODE_OR LOS_WAITMODE_AND] by (auto simp: OsEventParamCheck_def mode_ok_def split: if_splits)

section \<open>No waiter waits in vain\<close>

definition event_inv :: "'a event_kstate_scheme \<Rightarrow> bool" where
  "event_inv s \<longleftrightarrow> (\<forall>e. \<forall>t \<in> set (waiting s (EventList e)).
    mode_ok (eventMask (tcb s t)) (eventMode (tcb s t)) \<and> \<not> event_sat (uwEventID s e) (eventMask (tcb s t)) (eventMode (tcb s t)))"

lemma event_invD:
  assumes "event_inv s" and "t \<in> set (waiting s (EventList e))"
  shows "mode_ok (eventMask (tcb s t)) (eventMode (tcb s t))" "\<not> event_sat (uwEventID s e) (eventMask (tcb s t)) (eventMode (tcb s t))"
  using assms by (auto simp: event_inv_def)

text \<open>Losing event bits or waiters keeps it.\<close>

lemma event_inv_mono:
  assumes "event_inv s" and "\<And>e. set (waiting s' (EventList e)) \<subseteq> set (waiting s (EventList e))"
    and "\<And>t. eventMask (tcb s' t) = eventMask (tcb s t) \<and> eventMode (tcb s' t) = eventMode (tcb s t)"
    and "\<And>e. \<exists>y. uwEventID s' e = uwEventID s e AND y"
  shows "event_inv s'"
  unfolding event_inv_def
proof (intro allI ballI conjI)
  fix e t assume "t \<in> set (waiting s' (EventList e))"
  then have t: "t \<in> set (waiting s (EventList e))" using assms(2) by blast
  show "mode_ok (eventMask (tcb s' t)) (eventMode (tcb s' t))" using event_invD(1) [OF assms(1) t] assms(3) by simp
  show "\<not> event_sat (uwEventID s' e) (eventMask (tcb s' t)) (eventMode (tcb s' t))"
    using event_invD(2) [OF assms(1) t] assms(3,4) event_sat_mono by metis
qed

section \<open>Waking readers\<close>

definition event_obj :: "'a kstate_scheme \<Rightarrow> _" where
  "event_obj s = (env_of s, schedFlag s, \<lambda>t. (eventMask (tcb s t), eventMode (tcb s t), has (status_of s t) OS_TASK_STATUS_SUSPENDED))"

lemma event_wake_law:
  assumes call: "call_ok s" and t: "t \<in> set (waiting s h)" "wakeable s t"
  shows "\<exists>s'. event_wake t s = Some s' \<and> call_ok s' \<and> event_obj s' = event_obj s \<and>
    (\<forall>h'. waiting s' h' = (if h' = h then remove1 t (waiting s h) else waiting s h')) \<and> (\<forall>t'. t' \<noteq> t \<longrightarrow> tcb s' t' = tcb s t') \<and>
    runnable s' t"
proof -
  let ?s = "upd_task t (\<lambda>c. c\<lparr>taskEvent := None\<rparr>) s"
  have call': "call_ok ?s" by (rule call_ok_minor [OF call minor_updates(7)]) simp
  have same: "waiting ?s = waiting s" "wakeable ?s = wakeable s" "env_of ?s = env_of s"
    by (simp_all add: waiting_def waiters_of_def wakeable_def fun_eq_iff)
  have t': "t \<in> set (waiting ?s h)" "wakeable ?s t" using t same by simp_all
  from wake_call [OF call' t'] obtain s' where s': "event_wake t s = Some s'" "call_ok s'" "env_of s' = env_of s" "schedFlag s' = schedFlag s"
    "\<forall>h'. waiting s' h' = (if h' = h then remove1 t (waiting s h) else waiting s h')" "\<forall>t'. t' \<noteq> t \<longrightarrow> tcb s' t' = tcb s t'"
    "runnable s' t" "woken ((tcb ?s t)\<lparr>waitID := 0, waitFlag := 0\<rparr>) (tcb s' t)"
    unfolding event_wake_def same by auto
  have "eventMask (tcb s' t') = eventMask (tcb s t') \<and> eventMode (tcb s' t') = eventMode (tcb s t') \<and>
      has (status_of s' t') OS_TASK_STATUS_SUSPENDED = has (status_of s t') OS_TASK_STATUS_SUSPENDED" for t'
    using s'(6,8) by (cases "t' = t") (simp_all add: woken_def)
  then have "event_obj s' = event_obj s" using s'(3,4) by (simp add: event_obj_def)
  with s' show ?thesis by blast
qed

interpretation event: waker event_wake call_ok waiting wakeable runnable event_obj
proof unfold_locales
  fix s :: "'a kstate_scheme" and h assume "call_ok s"
  then show "distinct (waiting s h)" using sched.distinct_waiters [OF call_okD(1)] by (simp add: waiting_def)
next
  fix s :: "'a kstate_scheme" and t h h' assume "call_ok s" "t \<in> set (waiting s h)" "t \<in> set (waiting s h')"
  then show "h = h'" using sched.one_list [OF call_okD(1)] by (simp add: waiting_def)
next
  fix s :: "'a kstate_scheme" and t h assume "call_ok s" "t \<in> set (waiting s h)" "wakeable s t"
  from event_wake_law [OF this] obtain s' where s': "event_wake t s = Some s'" "call_ok s'" "event_obj s' = event_obj s"
    "\<forall>h'. waiting s' h' = (if h' = h then remove1 t (waiting s h) else waiting s h')" "\<forall>t'. t' \<noteq> t \<longrightarrow> tcb s' t' = tcb s t'" "runnable s' t"
    by blast
  then show "\<exists>s'. event_wake t s = Some s' \<and> call_ok s' \<and> (\<forall>h'. waiting s' h' = (if h' = h then remove1 t (waiting s h) else waiting s h')) \<and>
      runnable s' t \<and> (\<forall>t'. t' \<noteq> t \<longrightarrow> (wakeable s' t' \<longleftrightarrow> wakeable s t') \<and> (runnable s' t' \<longleftrightarrow> runnable s t')) \<and> event_obj s' = event_obj s"
    by (intro exI [of _ s']) (simp add: wakeable_def runnable_def ready_hpf_def)
qed

lemma event_objD: "event_obj s' = event_obj s \<Longrightarrow> uwEventID s' = uwEventID s"
  for s :: "'a event_kstate_scheme"
  by (auto simp: event_obj_def env_of_def intro: event_more)

lemma event_write_loop_seq:
  assumes "call_ok s" and "distinct ts" and "set ts \<subseteq> set (waiting s (EventList e))" and "\<forall>t \<in> set ts. wakeable s t"
  shows "event_write_loop ts e events False flag s = map_option (\<lambda>s'. (s', flag \<or> filter (\<lambda>t. event_match (tcb s t) (uwEventID s e) events) ts \<noteq> []))
    (wake_seq event_wake (filter (\<lambda>t. event_match (tcb s t) (uwEventID s e) events) ts) s)"
  using assms
proof (induction ts arbitrary: s flag)
  case (Cons t ts)
  show ?case
  proof (cases "event_match (tcb s t) (uwEventID s e) events")
    case False
    then show ?thesis using Cons by (simp add: OsEventResume_def)
  next
    case True
    have t: "t \<in> set (waiting s (EventList e))" "wakeable s t" using Cons.prems by simp_all
    from event_wake_law [OF Cons.prems(1) t] obtain s1 where s1: "event_wake t s = Some s1" "call_ok s1" "event_obj s1 = event_obj s"
      "\<forall>h'. waiting s1 h' = (if h' = EventList e then remove1 t (waiting s (EventList e)) else waiting s h')"
      "\<forall>t'. t' \<noteq> t \<longrightarrow> tcb s1 t' = tcb s t'" by blast
    have "x \<in> set (remove1 t (waiting s (EventList e)))" if "x \<in> set ts" for x
    proof -
      have "x \<noteq> t" "x \<in> set (waiting s (EventList e))" using that Cons.prems(2,3) by auto
      then show ?thesis by (simp add: in_set_remove1)
    qed
    then have sub: "set ts \<subseteq> set (waiting s1 (EventList e))" using s1(4) by auto
    have same: "filter (\<lambda>t. event_match (tcb s1 t) (uwEventID s1 e) events) ts = filter (\<lambda>t. event_match (tcb s t) (uwEventID s e) events) ts"
      using s1(5) Cons.prems(2) event_objD [OF s1(3)] by (intro filter_cong) auto
    have w: "\<forall>t \<in> set ts. wakeable s1 t" using s1(5) Cons.prems(2,4) unfolding wakeable_def by (metis distinct.simps(2) list.set_intros(2))
    from Cons.IH [OF s1(2) _ sub w, of True] Cons.prems(2) True s1(1) show ?thesis by (simp add: OsEventResume_def same)
  qed
qed simp

section \<open>Writing\<close>

text \<open>The waiters a write wakes, and what is left.\<close>

definition satisfied :: "'a event_kstate_scheme \<Rightarrow> nat \<Rightarrow> u32 \<Rightarrow> nat \<Rightarrow> bool" where
  "satisfied s e x t \<longleftrightarrow> event_sat x (eventMask (tcb s t)) (eventMode (tcb s t))"

lemma OsEventWriteUnsafe_spec:
  assumes call: "call_ok s" and inv: "event_inv s" and w: "\<forall>t \<in> set (waiting s (EventList e)). wakeable s t"
  shows "\<exists>s'. OsEventWriteUnsafe e events False s = Some (s', \<exists>t \<in> set (waiting s (EventList e)). satisfied s e (uwEventID s e OR events) t) \<and>
    call_ok s' \<and> uwEventID s' = (uwEventID s)(e := uwEventID s e OR events) \<and>
    waiting s' (EventList e) = filter (\<lambda>t. \<not> satisfied s e (uwEventID s e OR events) t) (waiting s (EventList e)) \<and>
    (\<forall>h. h \<noteq> EventList e \<longrightarrow> waiting s' h = waiting s h) \<and>
    (\<forall>t \<in> set (waiting s (EventList e)). satisfied s e (uwEventID s e OR events) t \<longrightarrow>
      has (status_of s t) OS_TASK_STATUS_SUSPENDED \<or> ready_hpf s' t) \<and>
    (\<forall>t. eventMask (tcb s' t) = eventMask (tcb s t) \<and> eventMode (tcb s' t) = eventMode (tcb s t)) \<and>
    intActive s' = intActive s \<and> taskLockCnt s' = taskLockCnt s"
proof -
  let ?x = "uwEventID s e OR events" let ?s = "set_event e ?x s" let ?ws = "waiting s (EventList e)"
  let ?ts = "filter (\<lambda>t. event_match (tcb ?s t) (uwEventID ?s e) events) ?ws"
  have call': "call_ok ?s" using call by simp
  have d: "distinct ?ws" using event.distinct_waiters [OF call] .
  have ts: "?ts = filter (satisfied s e ?x) ?ws"
    by (rule filter_cong) (simp_all add: satisfied_def event_match_sat event_invD [OF inv])
  have "OsEventWriteUnsafe e events False s = event_write_loop ?ws e events False False ?s"
    by (simp add: OsEventWriteUnsafe_def waiting_lists)
  also have "\<dots> = map_option (\<lambda>s'. (s', ?ts \<noteq> [])) (wake_seq event_wake ?ts ?s)"
    using event_write_loop_seq [OF call', of ?ws e events False] d w by simp
  finally have run: "OsEventWriteUnsafe e events False s = map_option (\<lambda>s'. (s', ?ts \<noteq> [])) (wake_seq event_wake ?ts ?s)" .
  have "set ?ts \<subseteq> set (waiting ?s (EventList e))" "distinct ?ts" "\<forall>t \<in> set ?ts. wakeable ?s t" using d w by auto
  from event.wake_all [OF call' this] obtain s' where s': "wake_seq event_wake ?ts ?s = Some s'" "call_ok s'"
    "waiting s' (EventList e) = filter (\<lambda>t. t \<notin> set ?ts) (waiting ?s (EventList e))" "\<forall>h'. h' \<noteq> EventList e \<longrightarrow> waiting s' h' = waiting ?s h'"
    "\<forall>t \<in> set ?ts. runnable s' t" "event_obj s' = event_obj ?s" by blast
  have "waiting s' (EventList e) = filter (\<lambda>t. \<not> satisfied s e ?x t) ?ws" unfolding s'(3) ts by (auto intro: filter_cong)
  moreover have "uwEventID s' = (uwEventID s)(e := ?x)" using event_objD [OF s'(6)] by simp
  moreover have "eventMask (tcb s' t) = eventMask (tcb s t) \<and> eventMode (tcb s' t) = eventMode (tcb s t)" for t
    using s'(6) by (auto simp: event_obj_def fun_eq_iff)
  moreover have "intActive s' = intActive s" "taskLockCnt s' = taskLockCnt s" using s'(6) by (auto simp: event_obj_def env_of_def)
  moreover have "?ts \<noteq> [] \<longleftrightarrow> (\<exists>t \<in> set ?ws. satisfied s e ?x t)" unfolding ts by (auto simp: filter_empty_conv)
  moreover have "has (status_of s' t) OS_TASK_STATUS_SUSPENDED = has (status_of s t) OS_TASK_STATUS_SUSPENDED" for t
    using s'(6) by (auto simp: event_obj_def fun_eq_iff)
  then have "\<forall>t \<in> set ?ws. satisfied s e ?x t \<longrightarrow> has (status_of s t) OS_TASK_STATUS_SUSPENDED \<or> ready_hpf s' t"
    using s'(5) unfolding ts by (auto simp: runnable_def)
  moreover have "\<forall>h. h \<noteq> EventList e \<longrightarrow> waiting s' h = waiting s h" using s'(4) by simp
  moreover have "OsEventWriteUnsafe e events False s = Some (s', ?ts \<noteq> [])" using run s'(1) by simp
  ultimately show ?thesis using s'(2) by (intro exI [of _ s']) simp
qed

lemma LOS_EventWrite_spec:
  assumes call: "call_ok s" and inv: "event_inv s" and w: "\<forall>t \<in> set (waiting s (EventList e)). wakeable s t"
    and ok: "\<not> has events LOS_ERRTYPE_ERROR"
  shows "\<exists>s'. LOS_EventWrite (Some e) events s = Some (s', LOS_OK) \<and> k_inv s' \<and> run_ok s' \<and> event_inv s' \<and>
    uwEventID s' = (uwEventID s)(e := uwEventID s e OR events) \<and>
    waiting s' (EventList e) = filter (\<lambda>t. \<not> satisfied s e (uwEventID s e OR events) t) (waiting s (EventList e)) \<and>
    (\<forall>h. h \<noteq> EventList e \<longrightarrow> waiting s' h = waiting s h) \<and>
    (\<forall>t \<in> set (waiting s (EventList e)). satisfied s e (uwEventID s e OR events) t \<longrightarrow>
      has (status_of s t) OS_TASK_STATUS_SUSPENDED \<or> ready_hpf s' t \<or> currTask s' = t)"
proof -
  let ?x = "uwEventID s e OR events"
  obtain s1 where s1: "OsEventWriteUnsafe e events False s = Some (s1, \<exists>t \<in> set (waiting s (EventList e)). satisfied s e ?x t)"
    "call_ok s1" "uwEventID s1 = (uwEventID s)(e := ?x)"
    "waiting s1 (EventList e) = filter (\<lambda>t. \<not> satisfied s e ?x t) (waiting s (EventList e))"
    "\<forall>h. h \<noteq> EventList e \<longrightarrow> waiting s1 h = waiting s h"
    "\<forall>t \<in> set (waiting s (EventList e)). satisfied s e ?x t \<longrightarrow> has (status_of s t) OS_TASK_STATUS_SUSPENDED \<or> ready_hpf s1 t"
    and ev: "\<And>t. eventMask (tcb s1 t) = eventMask (tcb s t) \<and> eventMode (tcb s1 t) = eventMode (tcb s t)"
    using OsEventWriteUnsafe_spec [OF call inv w] by blast
  obtain s' where s': "(if \<exists>t \<in> set (waiting s (EventList e)). satisfied s e ?x t then LOS_Schedule s1 else Some s1) = Some s'"
    "k_inv s'" "run_ok s'" "ipc_view s' = ipc_view s1" "waiting s' = waiting s1"
    "\<forall>t. ready_hpf s' t \<or> t = currTask s' \<longleftrightarrow> ready_hpf s1 t \<or> t = currTask s1" using Schedule_if [OF s1(2)] by blast
  have id: "uwEventID s' = uwEventID s1" by (rule event_more [OF viewD(8) [OF s'(4)]])
  have "event_inv s'" unfolding event_inv_def
  proof (intro allI ballI)
    fix e' t assume t: "t \<in> set (waiting s' (EventList e'))"
    have same: "eventMask (tcb s' t) = eventMask (tcb s t)" "eventMode (tcb s' t) = eventMode (tcb s t)"
      using viewD(1,2) [OF s'(4)] ev by simp_all
    show "mode_ok (eventMask (tcb s' t)) (eventMode (tcb s' t)) \<and> \<not> event_sat (uwEventID s' e') (eventMask (tcb s' t)) (eventMode (tcb s' t))"
      using t event_invD [OF inv, of t e'] s1(3-5) unfolding s'(5) id same by (cases "e' = e") (auto simp: satisfied_def)
  qed
  moreover have "\<forall>t \<in> set (waiting s (EventList e)). satisfied s e ?x t \<longrightarrow>
      has (status_of s t) OS_TASK_STATUS_SUSPENDED \<or> ready_hpf s' t \<or> currTask s' = t" using s1(6) s'(6) by blast
  moreover have "LOS_EventWrite (Some e) events s = Some (s', LOS_OK)" using s1(1) s'(1) ok by (simp add: LOS_EventWrite_def OsEventWrite_def)
  ultimately show ?thesis using s'(2,3,5) s1(3-5) id by simp
qed

section \<open>Reading\<close>

text \<open>A reader whose condition is not satisfied blocks, with its condition recorded.\<close>

lemma minor_event: "minor_update (\<lambda>c. c\<lparr>eventMask := a, eventMode := b, taskEvent := d\<rparr>)"
  by (simp add: minor_update_def)

lemma event_wait_spec:
  assumes call: "call_ok s" and inv: "event_inv s" and lock: "taskLockCnt s = 0" and m: "mode_ok msk mode" "\<not> event_sat (uwEventID s e) msk mode"
    and time: "timeout = LOS_WAIT_FOREVER \<or> OS_SCHED_TICK_TO_CYCLE timeout s + clock s \<noteq> OS_SORT_LINK_INVALID_TIME"
    and f: "f = (\<lambda>c. c\<lparr>eventMask := msk, eventMode := mode, taskEvent := Some e\<rparr>)"
  shows "\<exists>s'. ops_wait (currTask s) (EventList e) (length (lists s (EventList e))) timeout
      (OsTaskWaitSetPendMask OS_TASK_WAIT_EVENT msk (upd_task (currTask s) f s)) = Some (s', WaitBlocked) \<and>
    k_inv s' \<and> run_ok s' \<and> event_inv s' \<and> currTask s' \<noteq> currTask s \<and> uwEventID s' = uwEventID s \<and>
    waiting s' (EventList e) = waiting s (EventList e) @ [currTask s] \<and> (\<forall>h. h \<noteq> EventList e \<longrightarrow> waiting s' h = waiting s h) \<and>
    (currTask s \<in> timed_tasks s' \<longleftrightarrow> timeout \<noteq> LOS_WAIT_FOREVER) \<and>
    eventMask (tcb s' (currTask s)) = msk \<and> eventMode (tcb s' (currTask s)) = mode \<and> taskEvent (tcb s' (currTask s)) = Some e"
proof -
  let ?t = "currTask s" let ?h = "EventList e" let ?s = "upd_task ?t f s" let ?s2 = "OsTaskWaitSetPendMask OS_TASK_WAIT_EVENT msk ?s"
  have call': "call_ok ?s" unfolding f by (rule call_ok_minor [OF call minor_event]) simp
  have w: "waiting ?s = waiting s" by (simp add: fun_eq_iff waiting_def waiters_of_def)
  have pre: "taskLockCnt ?s = 0" "wait_list ?h" "timeout = LOS_WAIT_FOREVER \<or> OS_SCHED_TICK_TO_CYCLE timeout ?s + clock ?s \<noteq> OS_SORT_LINK_INVALID_TIME"
    using lock time by (simp_all add: OS_SCHED_TICK_TO_CYCLE_def)
  from wait_call [OF call' pre, of "length (lists s ?h)" OS_TASK_WAIT_EVENT msk]
  obtain s' where s': "ops_wait ?t ?h (length (lists s ?h)) timeout ?s2 = Some (s', WaitBlocked)" "k_inv s'" "run_ok s'" "currTask s' \<noteq> ?t"
    "waiting s' ?h = insert_after (length (lists s ?h)) ?t (waiting s ?h)" "\<forall>h'. h' \<noteq> ?h \<longrightarrow> waiting s' h' = waiting s h'"
    "?t \<in> timed_tasks s' \<longleftrightarrow> timeout \<noteq> LOS_WAIT_FOREVER" unfolding w by auto
  note view = viewD [OF ops_wait_view [OF s'(1)]]
  have ev: "eventMask (tcb s' t') = (if t' = ?t then msk else eventMask (tcb s t'))" "eventMode (tcb s' t') = (if t' = ?t then mode else eventMode (tcb s t'))" for t'
    using view(1,2) [of t'] by (simp_all add: OsTaskWaitSetPendMask_def f)
  have id: "uwEventID s' = uwEventID s" by (rule event_more) (use view(8) in simp)
  have ls: "waiting s' ?h = waiting s ?h @ [?t]" using s'(5) by (simp add: insert_after_def waiting_lists)
  have me: "?t \<notin> set (waiting s h)" for h
    using call_okD(1,2) [OF call] waiters_ofD [OF call_okD(1) [OF call], of ?t h] by (auto simp: run_ok_def waiting_def)
  have "event_inv s'" unfolding event_inv_def
  proof (intro allI ballI)
    fix e' t' assume t': "t' \<in> set (waiting s' (EventList e'))"
    show "mode_ok (eventMask (tcb s' t')) (eventMode (tcb s' t')) \<and> \<not> event_sat (uwEventID s' e') (eventMask (tcb s' t')) (eventMode (tcb s' t'))"
    proof (cases "t' = ?t")
      case True
      then have "e' = e" using t' me s'(6) by (cases "e' = e") auto
      then show ?thesis using True m by (simp add: ev id)
    next
      case False
      then have "t' \<in> set (waiting s (EventList e'))" using t' s'(6) ls by (cases "e' = e") auto
      then show ?thesis using False event_invD [OF inv] by (simp add: ev id)
    qed
  qed
  moreover have "taskEvent (tcb s' ?t) = Some e" using view(3) [of ?t] by (simp add: OsTaskWaitSetPendMask_def f)
  ultimately show ?thesis using s' ls id ev by simp
qed

definition read_allowed :: "'a kstate_scheme \<Rightarrow> bool" where
  "read_allowed s \<longleftrightarrow> \<not> intActive s \<and> \<not> has (status_of s (currTask s)) OS_TASK_FLAG_SYSTEM_TASK"

lemma OsEventReadCheck_ok:
  "OsEventReadCheck eventCB msk mode s = LOS_OK \<longleftrightarrow> OsEventParamCheck eventCB msk mode = LOS_OK \<and> read_allowed s"
  by (auto simp: OsEventReadCheck_def read_allowed_def Let_def)

lemma LOS_EventRead_imp:
  assumes "OsEventParamCheck (Some e) msk mode = LOS_OK" and "read_allowed s"
  shows "LOS_EventRead (Some e) msk mode timeout s = OsEventReadImp e msk mode timeout False s"
  using assms OsEventReadCheck_ok [of "Some e" msk mode s] by (simp add: LOS_EventRead_def OsEventRead_def)

text \<open>A satisfied read returns the bits it asked for.\<close>

lemma OsEventReadImp_sat:
  assumes "event_sat (uwEventID s e) msk mode"
  shows "OsEventReadImp e msk mode timeout False s = Some (set_event e (if has mode LOS_WAITMODE_CLR then uwEventID s e AND NOT (uwEventID s e AND msk)
    else uwEventID s e) s, WaitRet (uwEventID s e AND msk))"
proof -
  have "snd (OsEventPoll (uwEventID s e) msk mode) = uwEventID s e AND msk" "uwEventID s e AND msk \<noteq> 0"
    using assms event_sat_ret by (simp_all add: OsEventPoll_ret)
  then show ?thesis by (auto simp: OsEventReadImp_def event_poll_def OsEventPoll_def Let_def split: if_splits)
qed

lemma set_event_same [simp]: "set_event e (uwEventID s e) s = s"
  by (simp add: set_event_def)

lemma OsEventReadImp_unsat:
  assumes "\<not> event_sat (uwEventID s e) msk mode"
  shows "OsEventReadImp e msk mode timeout False s =
    (if timeout = 0 then Some (s, WaitRet 0)
     else if taskLockCnt s \<noteq> 0 then Some (s\<lparr>schedFlag := schedFlag s OR INT_PEND_RESCH\<rparr>, WaitRet LOS_ERRNO_EVENT_READ_IN_LOCK)
     else do {
       (s3, r) \<leftarrow> ops_wait (currTask s) (EventList e) (length (lists s (EventList e))) timeout (OsTaskWaitSetPendMask OS_TASK_WAIT_EVENT msk
         (upd_task (currTask s) (\<lambda>c. c\<lparr>eventMask := msk, eventMode := mode, taskEvent := Some e\<rparr>) s));
       Some (case r of WaitBlocked \<Rightarrow> (s3, WaitBlocked)
         | WaitRet ret \<Rightarrow> (case event_waited e msk mode ret s3 of (s4, ret') \<Rightarrow> (s4, WaitRet ret')))
     })"
  using OsEventPoll_unsat [OF assms] by (simp add: OsEventReadImp_def event_poll_def OsPreemptableInSched_def Let_def)

section \<open>A concrete event\<close>

text \<open>Event 0 holds the bit 1. In \<open>event_demo_wait\<close> task 2 waits for the bits 1 and 2 together.\<close>

definition event_demo :: event_kstate where
  "event_demo = demo (event_kstate.fields (\<lambda>e. 1))"

definition event_demo_wait :: event_kstate where
  "event_demo_wait = upd_task 2 (\<lambda>c. c\<lparr>eventMask := 3, eventMode := LOS_WAITMODE_AND, taskEvent := Some 0\<rparr>)
    (demo_wait (EventList 0) (event_kstate.fields (\<lambda>e. 1)))"

lemma event_demo_id: "kstate.more s = event_kstate.fields f \<Longrightarrow> uwEventID s = f"
  by (cases s) (simp add: event_kstate.fields_def)

lemma event_demo_ok: "call_ok event_demo" "event_inv event_demo" "uwEventID event_demo = (\<lambda>e. 1)"
  "call_ok event_demo_wait" "event_inv event_demo_wait" "uwEventID event_demo_wait = (\<lambda>e. 1)"
  "waiting event_demo_wait (EventList e) = (if e = 0 then [2] else [])" "wakeable event_demo_wait 2"
proof -
  show "call_ok event_demo" by (simp add: event_demo_def demo_call)
  show id: "uwEventID event_demo = (\<lambda>e. 1)" unfolding event_demo_def by (rule event_demo_id) simp
  show "event_inv event_demo" by (simp add: event_inv_def waiting_lists event_demo_def)
  show "call_ok event_demo_wait" unfolding event_demo_wait_def
    by (rule call_ok_minor [OF demo_wait_call(1) minor_event]) simp_all
  show id': "uwEventID event_demo_wait = (\<lambda>e. 1)" unfolding event_demo_wait_def by (rule event_demo_id) simp
  show w: "waiting event_demo_wait (EventList e) = (if e = 0 then [2] else [])" for e by (simp add: waiting_lists event_demo_wait_def)
  show "wakeable event_demo_wait 2" using demo_wait_call(2) [of "EventList 0" "event_kstate.fields (\<lambda>e. 1)"]
    by (simp add: event_demo_wait_def wakeable_def)
  show "event_inv event_demo_wait" unfolding event_inv_def w id'
    by (simp add: event_demo_wait_def mode_ok_def event_sat_def flag_simps)
qed

section \<open>Properties\<close>

text \<open>The calls of the component as one type.\<close>

datatype event_call = EventInit "nat option" | EventRead "nat option" u32 u32 u32 | EventWrite "nat option" u32
  | EventPoll "nat option" u32 u32 | EventClear "nat option" u32 | EventDestroy "nat option"

fun event_run :: "event_call \<Rightarrow> 'a event_kstate_scheme \<Rightarrow> ('a event_kstate_scheme \<times> wait_result) option" where
  "event_run (EventInit p) s = (case LOS_EventInit p s of (s', ret) \<Rightarrow> Some (s', WaitRet ret))"
| "event_run (EventRead p msk mode timeout) s = LOS_EventRead p msk mode timeout s"
| "event_run (EventWrite p events) s = map_option (\<lambda>(s', ret). (s', WaitRet ret)) (LOS_EventWrite p events s)"
| "event_run (EventPoll p msk mode) s = (case LOS_EventPoll p msk mode s of (s', ret) \<Rightarrow> Some (s', WaitRet ret))"
| "event_run (EventClear p msk) s = (case LOS_EventClear p msk s of (s', ret) \<Rightarrow> Some (s', WaitRet ret))"
| "event_run (EventDestroy p) s = (case LOS_EventDestroy p s of (s', ret) \<Rightarrow> Some (s', WaitRet ret))"

lemma event_inv_set_event:
  assumes "event_inv s"
  shows "event_inv (set_event e (uwEventID s e AND y) s)"
proof (rule event_inv_mono [OF assms])
  show "\<exists>z. uwEventID (set_event e (uwEventID s e AND y) s) e' = uwEventID s e' AND z" for e'
    by (cases "e' = e") (auto intro: exI [of _ "-1"])
qed simp_all

lemma OsEventPoll_less: "\<exists>y. fst (OsEventPoll x msk mode) = x AND y"
  by (auto simp: OsEventPoll_def Let_def intro: exI [of _ "-1"])

lemma event_poll_inv: "event_inv s \<Longrightarrow> event_inv (fst (event_poll e msk mode s))"
  using OsEventPoll_less [of "uwEventID s e" msk mode] event_inv_set_event by (auto simp: event_poll_def split: prod.splits)

lemma event_poll_sched [simp]: "k_inv (fst (event_poll e msk mode s)) = k_inv s" "run_ok (fst (event_poll e msk mode s)) = run_ok s"
  by (simp_all add: event_poll_def split: prod.splits)

lemma event_read_ok:
  assumes call: "call_ok s" and inv: "event_inv s"
    and time: "timeout = LOS_WAIT_FOREVER \<or> OS_SCHED_TICK_TO_CYCLE timeout s + clock s \<noteq> OS_SORT_LINK_INVALID_TIME"
  shows "\<exists>s' r. LOS_EventRead p msk mode timeout s = Some (s', r) \<and> k_inv s' \<and> run_ok s' \<and> event_inv s'"
proof (cases "OsEventReadCheck p msk mode s = LOS_OK")
  case False
  then show ?thesis using call_okD [OF call] inv by (simp add: LOS_EventRead_def OsEventRead_def)
next
  case True
  then obtain e where e: "p = Some e" and m: "mode_ok msk mode" and imp: "LOS_EventRead p msk mode timeout s = OsEventReadImp e msk mode timeout False s"
    using OsEventReadCheck_ok [of p msk mode s] ParamCheck_ok [of p msk mode] LOS_EventRead_imp by blast
  show ?thesis
  proof (cases "event_sat (uwEventID s e) msk mode")
    case True
    then show ?thesis unfolding imp OsEventReadImp_sat [OF True] using call_okD [OF call] inv event_inv_set_event [OF inv] by simp
  next
    case False
    consider "timeout = 0" | "timeout \<noteq> 0" "taskLockCnt s \<noteq> 0" | "timeout \<noteq> 0" "taskLockCnt s = 0" by blast
    then show ?thesis
    proof cases
      case 3
      with event_wait_spec [OF call inv 3(2) m False time refl] show ?thesis unfolding imp OsEventReadImp_unsat [OF False] by auto
    next
      case 2
      have "event_inv (s\<lparr>schedFlag := schedFlag s OR INT_PEND_RESCH\<rparr>)" using inv by (simp add: event_inv_def waiting_def waiters_of_def)
      then show ?thesis unfolding imp OsEventReadImp_unsat [OF False] using 2 call_okD(1,2) [OF call] by simp
    next
      case 1
      then show ?thesis unfolding imp OsEventReadImp_unsat [OF False] using call_okD(1,2) [OF call] inv by simp
    qed
  qed
qed

text \<open>C5. No lost wake-up: whatever event call a task makes, it neither fails an assertion nor follows a bad link, keeps the
  scheduler invariant, and afterwards no task waits for an event condition that the event word already satisfies. An
  event may be initialised only while nobody waits for it.\<close>

theorem event_no_lost_wakeup:
  assumes "call_ok s" and "event_inv s" and "\<forall>e. \<forall>t \<in> set (lists s (EventList e)). wakeable s t"
    and "\<forall>e. c = EventInit (Some e) \<longrightarrow> lists s (EventList e) = []"
    and "\<forall>p msk mode timeout. c = EventRead p msk mode timeout \<longrightarrow>
      timeout = LOS_WAIT_FOREVER \<or> OS_SCHED_TICK_TO_CYCLE timeout s + clock s \<noteq> OS_SORT_LINK_INVALID_TIME"
  shows "\<exists>s' r. event_run c s = Some (s', r) \<and> k_inv s' \<and> run_ok s' \<and> event_inv s'"
proof (cases c)
  case (EventInit p)
  show ?thesis
  proof (cases p)
    case (Some e)
    then have "(set_event e 0 s)\<lparr>lists := (lists s)(EventList e := [])\<rparr> = set_event e (uwEventID s e AND 0) s"
      using assms(4) EventInit by (simp add: set_event_def fun_upd_idem)
    then show ?thesis using EventInit Some call_okD [OF assms(1)] event_inv_set_event [OF assms(2), of e 0] by (simp add: LOS_EventInit_def)
  qed (use EventInit call_okD [OF assms(1)] assms(2) in \<open>simp add: LOS_EventInit_def\<close>)
next
  case (EventRead p msk mode timeout)
  then show ?thesis using event_read_ok [OF assms(1,2)] assms(5) by simp
next
  case (EventWrite p events)
  show ?thesis
  proof (cases "p = None \<or> has events LOS_ERRTYPE_ERROR")
    case True
    then show ?thesis using EventWrite call_okD [OF assms(1)] assms(2) by (auto simp: LOS_EventWrite_def OsEventWrite_def split: option.splits)
  next
    case False
    then obtain e where e: "p = Some e" "\<not> has events LOS_ERRTYPE_ERROR" by auto
    have "\<forall>t \<in> set (waiting s (EventList e)). wakeable s t" using assms(3) by (simp add: waiting_lists)
    from LOS_EventWrite_spec [OF assms(1,2) this e(2)] show ?thesis using EventWrite e(1) by auto
  qed
next
  case (EventPoll p msk mode)
  obtain s' ret where e: "event_poll (the p) msk mode s = (s', ret)" by force
  then have "k_inv s'" "run_ok s'" "event_inv s'"
    using call_okD(1,2) [OF assms(1)] event_poll_inv [OF assms(2), of "the p" msk mode] event_poll_sched [of "the p" msk mode s] by simp_all
  then show ?thesis using EventPoll e call_okD(1,2) [OF assms(1)] assms(2) by (simp add: LOS_EventPoll_def Let_def)
next
  case (EventClear p msk)
  then show ?thesis using call_okD [OF assms(1)] assms(2) event_inv_set_event [OF assms(2)]
    by (auto simp: LOS_EventClear_def split: option.splits)
next
  case (EventDestroy p)
  then show ?thesis using call_okD [OF assms(1)] assms(2) event_inv_set_event [OF assms(2), of _ 0]
    by (auto simp: LOS_EventDestroy_def split: option.splits)
qed

theorem event_no_lost_wakeup_witness:
  "\<exists>s' r. event_run (EventWrite (Some 0) 2) event_demo_wait = Some (s', r) \<and> event_inv s'"
proof -
  have "\<forall>e. \<forall>t \<in> set (lists event_demo_wait (EventList e)). wakeable event_demo_wait t"
    using event_demo_ok(7,8) by (simp add: waiting_lists split: if_splits)
  then show ?thesis using event_no_lost_wakeup [OF event_demo_ok(4,5), where c = "EventWrite (Some 0) 2"] by auto
qed

text \<open>C28. A write wakes exactly the satisfied readers: it sets the bits, the tasks that stay in the waiting list are,
  in their order, those whose condition the new event word does not satisfy, every other waiter becomes ready or
  running unless it is suspended, and the waiting lists of other objects are untouched.\<close>

theorem event_write_wakes_satisfied:
  assumes "call_ok s" and "event_inv s" and "\<forall>t \<in> set (waiting s (EventList e)). wakeable s t" and "\<not> has events LOS_ERRTYPE_ERROR"
  shows "\<exists>s'. LOS_EventWrite (Some e) events s = Some (s', LOS_OK) \<and> uwEventID s' = (uwEventID s)(e := uwEventID s e OR events) \<and>
    waiting s' (EventList e) = filter (\<lambda>t. \<not> satisfied s e (uwEventID s' e) t) (waiting s (EventList e)) \<and>
    (\<forall>t \<in> set (waiting s (EventList e)). satisfied s e (uwEventID s' e) t \<longrightarrow>
      has (status_of s t) OS_TASK_STATUS_SUSPENDED \<or> ready_hpf s' t \<or> currTask s' = t) \<and>
    (\<forall>h. h \<noteq> EventList e \<longrightarrow> waiting s' h = waiting s h)"
  using LOS_EventWrite_spec [OF assms] by (rule ex_forward) auto

theorem event_write_wakes_satisfied_witness:
  "\<exists>s'. LOS_EventWrite (Some 0) 2 event_demo_wait = Some (s', LOS_OK) \<and> waiting s' (EventList 0) = [] \<and> (ready_hpf s' 2 \<or> currTask s' = 2)"
proof -
  have w: "\<forall>t \<in> set (waiting event_demo_wait (EventList 0)). wakeable event_demo_wait t" using event_demo_ok(7,8) by simp
  have "satisfied event_demo_wait 0 3 2" "\<not> has (status_of event_demo_wait 2) OS_TASK_STATUS_SUSPENDED"
    by (simp_all add: satisfied_def event_demo_wait_def event_sat_def flag_simps)
  moreover have "\<not> has (2 :: u32) LOS_ERRTYPE_ERROR" by (simp add: flag_simps)
  ultimately show ?thesis using event_write_wakes_satisfied [OF event_demo_ok(4,5) w, of 2] event_demo_ok(6,7) by auto
qed

text \<open>C33. A read returns what it asked for or waits: with valid arguments, from a task that may block, a read whose condition the
  event word satisfies returns the requested bits that are set and clears them exactly if asked to; otherwise it
  returns 0 if its timeout is 0, and blocks at the end of the waiting list with its condition recorded if not.\<close>

theorem event_read_returns_or_waits:
  assumes "call_ok s" and "event_inv s" and "OsEventParamCheck (Some e) msk mode = LOS_OK" and "read_allowed s" and "taskLockCnt s = 0"
    and "timeout = LOS_WAIT_FOREVER \<or> OS_SCHED_TICK_TO_CYCLE timeout s + clock s \<noteq> OS_SORT_LINK_INVALID_TIME"
  shows "if event_sat (uwEventID s e) msk mode
    then LOS_EventRead (Some e) msk mode timeout s = Some (set_event e (if has mode LOS_WAITMODE_CLR then uwEventID s e AND NOT (uwEventID s e AND msk)
      else uwEventID s e) s, WaitRet (uwEventID s e AND msk))
    else if timeout = 0 then LOS_EventRead (Some e) msk mode timeout s = Some (s, WaitRet 0)
    else \<exists>s'. LOS_EventRead (Some e) msk mode timeout s = Some (s', WaitBlocked) \<and> currTask s' \<noteq> currTask s \<and> uwEventID s' = uwEventID s \<and>
      waiting s' (EventList e) = waiting s (EventList e) @ [currTask s] \<and> (\<forall>h. h \<noteq> EventList e \<longrightarrow> waiting s' h = waiting s h) \<and>
      (currTask s \<in> timed_tasks s' \<longleftrightarrow> timeout \<noteq> LOS_WAIT_FOREVER) \<and> eventMask (tcb s' (currTask s)) = msk \<and> eventMode (tcb s' (currTask s)) = mode"
proof (cases "event_sat (uwEventID s e) msk mode")
  case True
  then show ?thesis by (simp only: if_True LOS_EventRead_imp [OF assms(3,4)] OsEventReadImp_sat)
next
  case False
  have m: "mode_ok msk mode" using ParamCheck_ok [OF assms(3)] by blast
  show ?thesis using False event_wait_spec [OF assms(1,2,5) m False assms(6) refl]
    unfolding LOS_EventRead_imp [OF assms(3,4)] OsEventReadImp_unsat [OF False] using assms(5) by auto
qed

theorem event_read_returns_or_waits_witness:
  "LOS_EventRead (Some 0) 3 (LOS_WAITMODE_OR OR LOS_WAITMODE_CLR) 0 event_demo = Some (set_event 0 0 event_demo, WaitRet 1)"
proof -
  have "OsEventParamCheck (Some 0) 3 (LOS_WAITMODE_OR OR LOS_WAITMODE_CLR) = LOS_OK" by (simp add: OsEventParamCheck_def flag_simps has_def)
  moreover have "read_allowed event_demo" "taskLockCnt event_demo = 0" by (simp_all add: read_allowed_def event_demo_def flag_simps)
  moreover have "OS_SCHED_TICK_TO_CYCLE 0 event_demo + clock event_demo \<noteq> OS_SORT_LINK_INVALID_TIME"
    by (simp add: OS_SCHED_TICK_TO_CYCLE_def event_demo_def)
  ultimately show ?thesis using event_read_returns_or_waits [OF event_demo_ok(1,2), of 0 3 "LOS_WAITMODE_OR OR LOS_WAITMODE_CLR" 0]
    by (simp add: event_demo_ok(3) event_sat_def flag_simps)
qed

end
