(* ===== verification/LosRefine.thy ===== *)
theory LosRefine
  imports LosPrelude
begin

text \<open>
  Functional refinement. A component whose operations may fail to return implements an abstract machine when every
  operation returns, gives the abstract answer and commutes with the abstraction; then so does every
  sequence of operations.
\<close>

fun run_ops :: "('op \<Rightarrow> 's \<Rightarrow> ('s \<times> 'r) option) \<Rightarrow> 'op list \<Rightarrow> 's \<Rightarrow> ('s \<times> 'r list) option" where
  "run_ops step [] s = Some (s, [])"
| "run_ops step (op # ops) s = do { (s1, r) \<leftarrow> step op s; (s2, rs) \<leftarrow> run_ops step ops s1; Some (s2, r # rs) }"

fun spec_ops :: "('op \<Rightarrow> 'a \<Rightarrow> 'a \<times> 'r) \<Rightarrow> 'op list \<Rightarrow> 'a \<Rightarrow> 'a \<times> 'r list" where
  "spec_ops step [] a = (a, [])"
| "spec_ops step (op # ops) a = (case step op a of (a1, r) \<Rightarrow> case spec_ops step ops a1 of (a2, rs) \<Rightarrow> (a2, r # rs))"

locale functional_refinement =
  fixes inv :: "'s \<Rightarrow> bool" and abs :: "'s \<Rightarrow> 'a"
    and cstep :: "'op \<Rightarrow> 's \<Rightarrow> ('s \<times> 'r) option" and astep :: "'op \<Rightarrow> 'a \<Rightarrow> 'a \<times> 'r"
    and ok :: "'op \<Rightarrow> bool"
  assumes step_refines: "inv s \<Longrightarrow> ok op \<Longrightarrow>
    \<exists>s'. cstep op s = Some (s', snd (astep op (abs s))) \<and> inv s' \<and> abs s' = fst (astep op (abs s))"
begin

lemma run_refines:
  "inv s \<Longrightarrow> \<forall>op \<in> set ops. ok op \<Longrightarrow>
    \<exists>s'. run_ops cstep ops s = Some (s', snd (spec_ops astep ops (abs s))) \<and> inv s' \<and> abs s' = fst (spec_ops astep ops (abs s))"
proof (induction ops arbitrary: s)
  case (Cons op ops)
  then obtain s1 where s1: "cstep op s = Some (s1, snd (astep op (abs s)))" "inv s1" "abs s1 = fst (astep op (abs s))"
    using step_refines [of s op] by auto
  with Cons.IH [OF s1(2)] Cons.prems show ?case by (auto simp: split_beta)
qed simp

end

text \<open>
  Refinement of labelled step relations. A label is a call with its answer; a path is a sequence of labelled steps with the states between them.
  Where the abstract machine leaves a choice open (which address an allocation gives), the component implements it when each of its steps is a
  step of the abstract machine with the same label; then every path of the component is, state by state, a path of the abstract machine.
\<close>

fun path :: "('s \<Rightarrow> 'l \<Rightarrow> 's \<Rightarrow> bool) \<Rightarrow> 's \<Rightarrow> ('l \<times> 's) list \<Rightarrow> bool" where
  "path step s [] = True"
| "path step s ((l, s') # tr) = (step s l s' \<and> path step s' tr)"

definition path_end :: "'s \<Rightarrow> ('l \<times> 's) list \<Rightarrow> 's" where
  "path_end s tr = last (s # map snd tr)"

lemma path_end_simps [simp]: "path_end s [] = s" "path_end s ((l, s') # tr) = path_end s' tr"
  by (simp_all add: path_end_def)

lemma path_snoc: "path step s (tr @ [(l, s')]) \<longleftrightarrow> path step s tr \<and> step (path_end s tr) l s'" "path_end s (tr @ [(l, s')]) = s'"
  by (induction tr arbitrary: s) auto

locale step_refinement =
  fixes inv :: "'c \<Rightarrow> bool" and abs :: "'c \<Rightarrow> 'a" and cstep :: "'c \<Rightarrow> 'l \<Rightarrow> 'c \<Rightarrow> bool" and astep :: "'a \<Rightarrow> 'l \<Rightarrow> 'a \<Rightarrow> bool"
  assumes step_simulates: "inv c \<Longrightarrow> cstep c l c' \<Longrightarrow> inv c' \<and> astep (abs c) l (abs c')"
begin

lemma path_simulates: "path cstep c tr \<Longrightarrow> inv c \<Longrightarrow> inv (path_end c tr) \<and> path astep (abs c) (map (map_prod id abs) tr)"
proof (induction tr arbitrary: c)
  case (Cons x tr)
  obtain l c' where x: "x = (l, c')" by (cases x)
  with Cons.prems step_simulates [of c l c'] have "inv c'" "astep (abs c) l (abs c')" "path cstep c' tr" by simp_all
  with Cons.IH [of c'] x show ?case by simp
qed simp

end

end
