(* ===== verification/LosQueue.thy ===== *)
theory LosQueue
  imports LosSchedCall LosHandle LosRefine
begin

text \<open>
  Message queues, \<^verbatim>\<open>kernel/base/ipc/los_queue.c\<close>. A queue is a ring of \<open>queueLen\<close> nodes of \<open>queueSize\<close> bytes in the
  memory \<open>queueHandle\<close>; the last four bytes of a node hold the length of its message. \<open>readWriteableCnt[0]\<close> counts the messages
  and \<open>readWriteableCnt[1]\<close> the free nodes that are not promised to a woken task; the readers wait in
  \<open>QueueList i 0\<close>, the writers in \<open>QueueList i 1\<close>, and \<open>QueueList i 2\<close> is \<open>memList\<close>. A caller's buffer is
  the list of its bytes, \<open>None\<close> for \<open>NULL\<close>. An operation runs up to the switch to another task;
  \<open>OsQueueOperate_resume\<close> is the rest of the call. The hooks and debug records are left out.
\<close>

section \<open>The code\<close>

abbreviation (input) LOS_ERRNO_QUEUE_NO_MEMORY :: u32 where "LOS_ERRNO_QUEUE_NO_MEMORY \<equiv> 0x02000601"
abbreviation (input) LOS_ERRNO_QUEUE_CREATE_NO_MEMORY :: u32 where "LOS_ERRNO_QUEUE_CREATE_NO_MEMORY \<equiv> 0x02000602"
abbreviation (input) LOS_ERRNO_QUEUE_SIZE_TOO_BIG :: u32 where "LOS_ERRNO_QUEUE_SIZE_TOO_BIG \<equiv> 0x02000603"
abbreviation (input) LOS_ERRNO_QUEUE_CB_UNAVAILABLE :: u32 where "LOS_ERRNO_QUEUE_CB_UNAVAILABLE \<equiv> 0x02000604"
abbreviation (input) LOS_ERRNO_QUEUE_NOT_FOUND :: u32 where "LOS_ERRNO_QUEUE_NOT_FOUND \<equiv> 0x02000605"
abbreviation (input) LOS_ERRNO_QUEUE_PEND_IN_LOCK :: u32 where "LOS_ERRNO_QUEUE_PEND_IN_LOCK \<equiv> 0x02000606"
abbreviation (input) LOS_ERRNO_QUEUE_TIMEOUT :: u32 where "LOS_ERRNO_QUEUE_TIMEOUT \<equiv> 0x02000607"
abbreviation (input) LOS_ERRNO_QUEUE_IN_TSKUSE :: u32 where "LOS_ERRNO_QUEUE_IN_TSKUSE \<equiv> 0x02000608"
abbreviation (input) LOS_ERRNO_QUEUE_WRITE_IN_INTERRUPT :: u32 where "LOS_ERRNO_QUEUE_WRITE_IN_INTERRUPT \<equiv> 0x02000609"
abbreviation (input) LOS_ERRNO_QUEUE_NOT_CREATE :: u32 where "LOS_ERRNO_QUEUE_NOT_CREATE \<equiv> 0x0200060a"
abbreviation (input) LOS_ERRNO_QUEUE_IN_TSKWRITE :: u32 where "LOS_ERRNO_QUEUE_IN_TSKWRITE \<equiv> 0x0200060b"
abbreviation (input) LOS_ERRNO_QUEUE_CREAT_PTR_NULL :: u32 where "LOS_ERRNO_QUEUE_CREAT_PTR_NULL \<equiv> 0x0200060c"
abbreviation (input) LOS_ERRNO_QUEUE_PARA_ISZERO :: u32 where "LOS_ERRNO_QUEUE_PARA_ISZERO \<equiv> 0x0200060d"
abbreviation (input) LOS_ERRNO_QUEUE_INVALID :: u32 where "LOS_ERRNO_QUEUE_INVALID \<equiv> 0x0200060e"
abbreviation (input) LOS_ERRNO_QUEUE_READ_PTR_NULL :: u32 where "LOS_ERRNO_QUEUE_READ_PTR_NULL \<equiv> 0x0200060f"
abbreviation (input) LOS_ERRNO_QUEUE_READSIZE_IS_INVALID :: u32 where "LOS_ERRNO_QUEUE_READSIZE_IS_INVALID \<equiv> 0x02000610"
abbreviation (input) LOS_ERRNO_QUEUE_WRITE_PTR_NULL :: u32 where "LOS_ERRNO_QUEUE_WRITE_PTR_NULL \<equiv> 0x02000612"
abbreviation (input) LOS_ERRNO_QUEUE_WRITESIZE_ISZERO :: u32 where "LOS_ERRNO_QUEUE_WRITESIZE_ISZERO \<equiv> 0x02000613"
abbreviation (input) LOS_ERRNO_QUEUE_WRITE_SIZE_TOO_BIG :: u32 where "LOS_ERRNO_QUEUE_WRITE_SIZE_TOO_BIG \<equiv> 0x02000615"
abbreviation (input) LOS_ERRNO_QUEUE_ISFULL :: u32 where "LOS_ERRNO_QUEUE_ISFULL \<equiv> 0x02000616"
abbreviation (input) LOS_ERRNO_QUEUE_PTR_NULL :: u32 where "LOS_ERRNO_QUEUE_PTR_NULL \<equiv> 0x02000617"
abbreviation (input) LOS_ERRNO_QUEUE_READ_IN_INTERRUPT :: u32 where "LOS_ERRNO_QUEUE_READ_IN_INTERRUPT \<equiv> 0x02000618"
abbreviation (input) LOS_ERRNO_QUEUE_ISEMPTY :: u32 where "LOS_ERRNO_QUEUE_ISEMPTY \<equiv> 0x0200061d"

abbreviation (input) OS_QUEUE_UNUSED :: u16 where "OS_QUEUE_UNUSED \<equiv> 0"
abbreviation (input) OS_QUEUE_INUSED :: u16 where "OS_QUEUE_INUSED \<equiv> 1"
abbreviation (input) OS_QUEUE_READ :: u32 where "OS_QUEUE_READ \<equiv> 0"
abbreviation (input) OS_QUEUE_WRITE :: u32 where "OS_QUEUE_WRITE \<equiv> 1"
abbreviation (input) OS_QUEUE_HEAD :: u32 where "OS_QUEUE_HEAD \<equiv> 0"
abbreviation (input) OS_QUEUE_TAIL :: u32 where "OS_QUEUE_TAIL \<equiv> 1"
abbreviation (input) OS_QUEUE_READ_HEAD :: u32 where "OS_QUEUE_READ_HEAD \<equiv> 0"
abbreviation (input) OS_QUEUE_WRITE_HEAD :: u32 where "OS_QUEUE_WRITE_HEAD \<equiv> 1"
abbreviation (input) OS_QUEUE_WRITE_TAIL :: u32 where "OS_QUEUE_WRITE_TAIL \<equiv> 3"
abbreviation (input) OS_TASK_WAIT_QUEUE :: u16 where "OS_TASK_WAIT_QUEUE \<equiv> 6"

record LosQueueCB =
  queueHandle :: "(nat \<Rightarrow> u8) option"
  queueState :: u16
  queueLen :: u16
  queueSize :: u16
  queueID :: u32
  queueHead :: u16
  queueTail :: u16
  readWriteableCnt :: "u32 \<Rightarrow> u16"

text \<open>\<open>secMax\<close> is the size limit of the bounds-checking library.\<close>

record queue_kstate = kstate +
  g_allQueue :: "nat \<Rightarrow> LosQueueCB"
  g_freeQueueList :: "nat list"
  queueLimit :: nat
  secMax :: nat

definition SET_QUEUE_ID :: "u32 \<Rightarrow> u32 \<Rightarrow> u32" where
  "SET_QUEUE_ID count index = split_id count index"

definition GET_QUEUE_INDEX :: "u32 \<Rightarrow> u32" where
  "GET_QUEUE_INDEX queueid = split_index queueid"

definition GET_QUEUE_COUNT :: "u32 \<Rightarrow> u32" where
  "GET_QUEUE_COUNT queueid = split_count queueid"

abbreviation (input) GET_QUEUE_HANDLE :: "u32 \<Rightarrow> nat" where
  "GET_QUEUE_HANDLE queueid \<equiv> unat (GET_QUEUE_INDEX queueid)"

definition OS_QUEUE_OPERATE_TYPE :: "u32 \<Rightarrow> u32 \<Rightarrow> u32" where
  "OS_QUEUE_OPERATE_TYPE readOrWrite headOrTail = push_bit 1 headOrTail OR readOrWrite"

definition OS_QUEUE_READ_WRITE_GET :: "u32 \<Rightarrow> u32" where
  "OS_QUEUE_READ_WRITE_GET type = type AND 1"

definition OS_QUEUE_OPERATE_GET :: "u32 \<Rightarrow> u32" where
  "OS_QUEUE_OPERATE_GET type = type AND 3"

definition OS_QUEUE_IS_READ :: "u32 \<Rightarrow> bool" where
  "OS_QUEUE_IS_READ type \<longleftrightarrow> OS_QUEUE_READ_WRITE_GET type = OS_QUEUE_READ"

definition OS_QUEUE_IS_WRITE :: "u32 \<Rightarrow> bool" where
  "OS_QUEUE_IS_WRITE type \<longleftrightarrow> OS_QUEUE_READ_WRITE_GET type = OS_QUEUE_WRITE"

definition rw_list :: "nat \<Rightarrow> u32 \<Rightarrow> listHead" where
  "rw_list i rw = QueueList i (unat rw)"

definition upd_queue :: "nat \<Rightarrow> (LosQueueCB \<Rightarrow> LosQueueCB) \<Rightarrow> 'a queue_kstate_scheme \<Rightarrow> 'a queue_kstate_scheme" where
  "upd_queue i f s = s\<lparr>g_allQueue := (g_allQueue s)(i := f (g_allQueue s i))\<rparr>"

text \<open>\<open>alloc\<close> is the answer of \<open>LOS_MemAlloc\<close>, \<open>dbg\<close> that of the debug hook. When the initialisation fails, \<open>g_allQueue\<close> is
  \<open>NULL\<close> and no queue call may follow.\<close>

definition OsAllQueueCBInit :: "bool \<Rightarrow> bool \<Rightarrow> nat \<Rightarrow> nat list option \<Rightarrow> (nat \<Rightarrow> LosQueueCB) option \<times> nat list option" where
  "OsAllQueueCBInit alloc dbg limit freeQueueList =
    (if freeQueueList = None \<or> \<not> alloc then (None, freeQueueList)
     else (if dbg then Some (\<lambda>i. \<lparr>queueHandle = None, queueState = 0, queueLen = 0, queueSize = 0, queueID = of_nat i,
             queueHead = 0, queueTail = 0, readWriteableCnt = (\<lambda>_. 0)\<rparr>) else None,
           Some [0..<limit]))"

definition OsQueueInit :: "bool \<Rightarrow> bool \<Rightarrow> 'a queue_kstate_scheme \<Rightarrow> 'a queue_kstate_scheme \<times> u32" where
  "OsQueueInit alloc dbg s =
    (case OsAllQueueCBInit alloc dbg (queueLimit s) (Some (g_freeQueueList s)) of
       (None, fl) \<Rightarrow> (s\<lparr>g_freeQueueList := the fl\<rparr>, LOS_ERRNO_QUEUE_NO_MEMORY)
     | (Some allQueue, fl) \<Rightarrow> (s\<lparr>g_allQueue := allQueue, g_freeQueueList := the fl\<rparr>, LOS_OK))"

text \<open>\<open>mem\<close> is what \<open>LOS_MemAlloc\<close> returns, \<open>p\<close> whether \<open>queueID\<close> is not \<open>NULL\<close>; the third result is what is written
  through it.\<close>

definition LOS_QueueCreate :: "(nat \<Rightarrow> u8) option \<Rightarrow> u16 \<Rightarrow> bool \<Rightarrow> u16 \<Rightarrow> 'a queue_kstate_scheme
    \<Rightarrow> 'a queue_kstate_scheme \<times> u32 \<times> u32 option" where
  "LOS_QueueCreate mem len p maxMsgSize s =
    (if \<not> p then (s, LOS_ERRNO_QUEUE_CREAT_PTR_NULL, None)
     else if unat maxMsgSize > 0xFFFF - 4 then (s, LOS_ERRNO_QUEUE_SIZE_TOO_BIG, None)
     else if len = 0 \<or> maxMsgSize = 0 then (s, LOS_ERRNO_QUEUE_PARA_ISZERO, None)
     else let msgSize = maxMsgSize + 4
          in case mem of None \<Rightarrow> (s, LOS_ERRNO_QUEUE_CREATE_NO_MEMORY, None)
          | Some queue \<Rightarrow> (case g_freeQueueList s of
              [] \<Rightarrow> (s, LOS_ERRNO_QUEUE_CB_UNAVAILABLE, None)
            | i # rest \<Rightarrow>
                let s1 = upd_queue i (\<lambda>c. c\<lparr>queueLen := len, queueSize := msgSize, queueHandle := Some queue, queueState := OS_QUEUE_INUSED,
                        readWriteableCnt := (\<lambda>rw. if rw = OS_QUEUE_READ then 0 else len), queueHead := 0, queueTail := 0\<rparr>)
                      (s\<lparr>g_freeQueueList := rest,
                         lists := (lists s)(rw_list i OS_QUEUE_READ := [], rw_list i OS_QUEUE_WRITE := [], QueueList i 2 := [])\<rparr>)
                in (s1, LOS_OK, Some (queueID (g_allQueue s1 i)))))"

definition OsQueueReadParameterCheck :: "u32 \<Rightarrow> bool \<Rightarrow> u32 option \<Rightarrow> u32 \<Rightarrow> 'a queue_kstate_scheme \<Rightarrow> u32" where
  "OsQueueReadParameterCheck queueid bufferAddr bufferSize timeout s =
    (if GET_QUEUE_HANDLE queueid \<ge> queueLimit s then LOS_ERRNO_QUEUE_INVALID
     else if \<not> bufferAddr \<or> bufferSize = None then LOS_ERRNO_QUEUE_READ_PTR_NULL
     else if the bufferSize = 0 \<or> the bufferSize > 0xFFFF - 4 then LOS_ERRNO_QUEUE_READSIZE_IS_INVALID
     else if timeout \<noteq> LOS_NO_WAIT \<and> intActive s then LOS_ERRNO_QUEUE_READ_IN_INTERRUPT
     else LOS_OK)"

definition OsQueueWriteParameterCheck :: "u32 \<Rightarrow> bool \<Rightarrow> u32 \<Rightarrow> u32 \<Rightarrow> 'a queue_kstate_scheme \<Rightarrow> u32" where
  "OsQueueWriteParameterCheck queueid bufferAddr bufferSize timeout s =
    (if GET_QUEUE_HANDLE queueid \<ge> queueLimit s then LOS_ERRNO_QUEUE_INVALID
     else if \<not> bufferAddr then LOS_ERRNO_QUEUE_WRITE_PTR_NULL
     else if bufferSize = 0 then LOS_ERRNO_QUEUE_WRITESIZE_ISZERO
     else if timeout \<noteq> LOS_NO_WAIT \<and> intActive s then LOS_ERRNO_QUEUE_WRITE_IN_INTERRUPT
     else LOS_OK)"

text \<open>The node an operation uses, and the new head and tail; the comparisons are on promoted integers.\<close>

definition queue_position :: "u32 \<Rightarrow> LosQueueCB \<Rightarrow> (LosQueueCB \<times> u16) option" where
  "queue_position type c =
    (if OS_QUEUE_OPERATE_GET type = OS_QUEUE_READ_HEAD
     then Some (c\<lparr>queueHead := if unat (queueHead c) + 1 = unat (queueLen c) then 0 else queueHead c + 1\<rparr>, queueHead c)
     else if OS_QUEUE_OPERATE_GET type = OS_QUEUE_WRITE_HEAD
     then let h = (if queueHead c = 0 then queueLen c - 1 else queueHead c - 1) in Some (c\<lparr>queueHead := h\<rparr>, h)
     else if OS_QUEUE_OPERATE_GET type = OS_QUEUE_WRITE_TAIL
     then Some (c\<lparr>queueTail := if unat (queueTail c) + 1 = unat (queueLen c) then 0 else queueTail c + 1\<rparr>, queueTail c)
     else None)"

text \<open>The results are the block, the caller's buffer and \<open>*bufferSize\<close>; a failing copy returns early. Without ring memory a
  \<open>NULL\<close> pointer is followed.\<close>

definition OsQueueBufferOperate :: "nat \<Rightarrow> LosQueueCB \<Rightarrow> u32 \<Rightarrow> u8 list \<Rightarrow> u32 \<Rightarrow> (LosQueueCB \<times> u8 list \<times> u32) option" where
  "OsQueueBufferOperate rmax c0 type buf bufferSize =
    (case queue_position type c0 of
       None \<Rightarrow> Some (c0, buf, bufferSize)
     | Some (c, pos) \<Rightarrow> (case queueHandle c of
         None \<Rightarrow> None
       | Some mem \<Rightarrow>
           let sz = unat (queueSize c); node = unat pos * sz
           in Some (if OS_QUEUE_IS_READ type
              then (case memcpy_s_from rmax 4 mem (node + sz - 4) 4 of
                  None \<Rightarrow> (c, buf, bufferSize)
                | Some bs \<Rightarrow>
                    let msgDataSize = (if bufferSize < bytes_u32 bs then bufferSize else bytes_u32 bs)
                    in case memcpy_s_from rmax (unat bufferSize) mem node (unat msgDataSize) of
                         None \<Rightarrow> (c, buf, bufferSize)
                       | Some bytes \<Rightarrow> (c, bytes @ drop (length bytes) buf, msgDataSize))
              else (case memcpy_s_into rmax mem node sz buf (unat bufferSize) of
                  None \<Rightarrow> (c, buf, bufferSize)
                | Some mem1 \<Rightarrow> (case memcpy_s_into rmax mem1 (node + sz - 4) 4 (u32_bytes bufferSize) 4 of
                    None \<Rightarrow> (c\<lparr>queueHandle := Some mem1\<rparr>, buf, bufferSize)
                  | Some mem2 \<Rightarrow> (c\<lparr>queueHandle := Some mem2\<rparr>, buf, bufferSize))))))"

definition OsQueueOperateParamCheck :: "LosQueueCB \<Rightarrow> u32 \<Rightarrow> u32 \<Rightarrow> u32 \<Rightarrow> u32" where
  "OsQueueOperateParamCheck c queueid type bufferSize =
    (if queueID c \<noteq> queueid \<or> queueState c = OS_QUEUE_UNUSED then LOS_ERRNO_QUEUE_NOT_CREATE
     else if OS_QUEUE_IS_WRITE type \<and> bufferSize > ucast (queueSize c) - 4 then LOS_ERRNO_QUEUE_WRITE_SIZE_TOO_BIG
     else LOS_OK)"

text \<open>The result of a call: it blocked, or its return value, the caller's buffer and \<open>*bufferSize\<close>.\<close>

datatype queue_result = QueueBlocked | QueueRet u32 "u8 list" u32

text \<open>The part after the wait or the count: move the message, then hand the freed message or node to the first waiter of the
  other kind, or count it.\<close>

definition queue_transfer :: "nat \<Rightarrow> u32 \<Rightarrow> u8 list \<Rightarrow> u32 \<Rightarrow> u32 \<Rightarrow> 'a queue_kstate_scheme \<Rightarrow> ('a queue_kstate_scheme \<times> queue_result) option" where
  "queue_transfer i type buf bufferSize ret s =
    do {
      (c, buf', size') \<leftarrow> OsQueueBufferOperate (secMax s) (g_allQueue s i) type buf bufferSize;
      let s1 = upd_queue i (\<lambda>_. c) s;
      let other = (if OS_QUEUE_READ_WRITE_GET type = 0 then 1 else 0 :: u32);
      case lists s1 (rw_list i other) of
        resumedTask # _ \<Rightarrow> do {
          s2 \<leftarrow> ops_wake resumedTask (OsTaskWakeClearPendMask resumedTask s1);
          s3 \<leftarrow> LOS_Schedule s2;
          Some (s3, QueueRet LOS_OK buf' size')
        }
      | [] \<Rightarrow> Some (upd_queue i (\<lambda>c. c\<lparr>readWriteableCnt := (readWriteableCnt c)(other := readWriteableCnt c other + 1)\<rparr>) s1,
                    QueueRet ret buf' size')
    }"

definition queue_waited :: "nat \<Rightarrow> u32 \<Rightarrow> u8 list \<Rightarrow> u32 \<Rightarrow> u32 \<Rightarrow> 'a queue_kstate_scheme \<Rightarrow> ('a queue_kstate_scheme \<times> queue_result) option" where
  "queue_waited i type buf bufferSize ret s =
    (if ret = LOS_ERRNO_TSK_TIMEOUT then Some (s, QueueRet LOS_ERRNO_QUEUE_TIMEOUT buf bufferSize)
     else queue_transfer i type buf bufferSize ret s)"

definition OsQueueOperate :: "u32 \<Rightarrow> u32 \<Rightarrow> u8 list \<Rightarrow> u32 \<Rightarrow> u32 \<Rightarrow> 'a queue_kstate_scheme \<Rightarrow> ('a queue_kstate_scheme \<times> queue_result) option" where
  "OsQueueOperate queueid type buf bufferSize timeout s =
    (let readWrite = OS_QUEUE_READ_WRITE_GET type; i = GET_QUEUE_HANDLE queueid; c = g_allQueue s i;
         ret = OsQueueOperateParamCheck c queueid type bufferSize
     in if i \<ge> queueLimit s then None
        else if ret \<noteq> LOS_OK then Some (s, QueueRet ret buf bufferSize)
        else if readWriteableCnt c readWrite = 0
        then if timeout = LOS_NO_WAIT
          then Some (s, QueueRet (if OS_QUEUE_IS_READ type then LOS_ERRNO_QUEUE_ISEMPTY else LOS_ERRNO_QUEUE_ISFULL) buf bufferSize)
          else (case OsPreemptableInSched s of
            (s1, False) \<Rightarrow> Some (s1, QueueRet LOS_ERRNO_QUEUE_PEND_IN_LOCK buf bufferSize)
          | (s1, True) \<Rightarrow> do {
              let s2 = OsTaskWaitSetPendMask OS_TASK_WAIT_QUEUE (queueID c) s1;
              (s3, r) \<leftarrow> ops_wait (currTask s2) (rw_list i readWrite) (length (lists s2 (rw_list i readWrite))) timeout s2;
              case r of WaitBlocked \<Rightarrow> Some (s3, QueueBlocked) | WaitRet ret' \<Rightarrow> queue_waited i type buf bufferSize ret' s3
            })
        else queue_transfer i type buf bufferSize ret
          (upd_queue i (\<lambda>c. c\<lparr>readWriteableCnt := (readWriteableCnt c)(readWrite := readWriteableCnt c readWrite - 1)\<rparr>) s))"

definition OsQueueOperate_resume :: "nat \<Rightarrow> u32 \<Rightarrow> u32 \<Rightarrow> u8 list \<Rightarrow> u32 \<Rightarrow> 'a queue_kstate_scheme \<Rightarrow> ('a queue_kstate_scheme \<times> queue_result) option" where
  "OsQueueOperate_resume t queueid type buf bufferSize s =
    (case wait_resume t s of (s', ret) \<Rightarrow> queue_waited (GET_QUEUE_HANDLE queueid) type buf bufferSize ret s')"

definition LOS_QueueReadCopy :: "u32 \<Rightarrow> u8 list option \<Rightarrow> u32 option \<Rightarrow> u32 \<Rightarrow> 'a queue_kstate_scheme \<Rightarrow> ('a queue_kstate_scheme \<times> queue_result) option" where
  "LOS_QueueReadCopy queueid bufferAddr bufferSize timeout s =
    (let ret = OsQueueReadParameterCheck queueid (bufferAddr \<noteq> None) bufferSize timeout s
     in if ret \<noteq> LOS_OK then Some (s, QueueRet ret (case bufferAddr of None \<Rightarrow> [] | Some b \<Rightarrow> b) (case bufferSize of None \<Rightarrow> 0 | Some z \<Rightarrow> z))
        else OsQueueOperate queueid (OS_QUEUE_OPERATE_TYPE OS_QUEUE_READ OS_QUEUE_HEAD) (the bufferAddr) (the bufferSize) timeout s)"

definition LOS_QueueWriteHeadCopy :: "u32 \<Rightarrow> u8 list option \<Rightarrow> u32 \<Rightarrow> u32 \<Rightarrow> 'a queue_kstate_scheme \<Rightarrow> ('a queue_kstate_scheme \<times> queue_result) option" where
  "LOS_QueueWriteHeadCopy queueid bufferAddr bufferSize timeout s =
    (let ret = OsQueueWriteParameterCheck queueid (bufferAddr \<noteq> None) bufferSize timeout s
     in if ret \<noteq> LOS_OK then Some (s, QueueRet ret (case bufferAddr of None \<Rightarrow> [] | Some b \<Rightarrow> b) bufferSize)
        else OsQueueOperate queueid (OS_QUEUE_OPERATE_TYPE OS_QUEUE_WRITE OS_QUEUE_HEAD) (the bufferAddr) bufferSize timeout s)"

definition LOS_QueueWriteCopy :: "u32 \<Rightarrow> u8 list option \<Rightarrow> u32 \<Rightarrow> u32 \<Rightarrow> 'a queue_kstate_scheme \<Rightarrow> ('a queue_kstate_scheme \<times> queue_result) option" where
  "LOS_QueueWriteCopy queueid bufferAddr bufferSize timeout s =
    (let ret = OsQueueWriteParameterCheck queueid (bufferAddr \<noteq> None) bufferSize timeout s
     in if ret \<noteq> LOS_OK then Some (s, QueueRet ret (case bufferAddr of None \<Rightarrow> [] | Some b \<Rightarrow> b) bufferSize)
        else OsQueueOperate queueid (OS_QUEUE_OPERATE_TYPE OS_QUEUE_WRITE OS_QUEUE_TAIL) (the bufferAddr) bufferSize timeout s)"

definition LOS_QueueRead :: "u32 \<Rightarrow> u8 list option \<Rightarrow> u32 \<Rightarrow> u32 \<Rightarrow> 'a queue_kstate_scheme \<Rightarrow> ('a queue_kstate_scheme \<times> queue_result) option" where
  "LOS_QueueRead queueid bufferAddr bufferSize timeout s = LOS_QueueReadCopy queueid bufferAddr (Some bufferSize) timeout s"

text \<open>The two pointer variants send the pointer itself: its four bytes, \<open>None\<close> for \<open>NULL\<close>.\<close>

definition LOS_QueueWrite :: "u32 \<Rightarrow> u32 option \<Rightarrow> u32 \<Rightarrow> u32 \<Rightarrow> 'a queue_kstate_scheme \<Rightarrow> ('a queue_kstate_scheme \<times> queue_result) option" where
  "LOS_QueueWrite queueid bufferAddr bufferSize timeout s = (case bufferAddr of
      None \<Rightarrow> Some (s, QueueRet LOS_ERRNO_QUEUE_WRITE_PTR_NULL [] bufferSize)
    | Some a \<Rightarrow> LOS_QueueWriteCopy queueid (Some (u32_bytes a)) 4 timeout s)"

definition LOS_QueueWriteHead :: "u32 \<Rightarrow> u32 option \<Rightarrow> u32 \<Rightarrow> u32 \<Rightarrow> 'a queue_kstate_scheme \<Rightarrow> ('a queue_kstate_scheme \<times> queue_result) option" where
  "LOS_QueueWriteHead queueid bufferAddr bufferSize timeout s = (case bufferAddr of
      None \<Rightarrow> Some (s, QueueRet LOS_ERRNO_QUEUE_WRITE_PTR_NULL [] bufferSize)
    | Some a \<Rightarrow> LOS_QueueWriteHeadCopy queueid (Some (u32_bytes a)) 4 timeout s)"

text \<open>\<open>free\<close> is the answer of \<open>LOS_MemFree\<close>.\<close>

definition LOS_QueueDelete :: "u32 \<Rightarrow> u32 \<Rightarrow> 'a queue_kstate_scheme \<Rightarrow> 'a queue_kstate_scheme \<times> u32" where
  "LOS_QueueDelete free queueid s =
    (let i = GET_QUEUE_HANDLE queueid; c = g_allQueue s i
     in if i \<ge> queueLimit s then (s, LOS_ERRNO_QUEUE_NOT_FOUND)
        else if queueID c \<noteq> queueid \<or> queueState c = OS_QUEUE_UNUSED then (s, LOS_ERRNO_QUEUE_NOT_CREATE)
        else if lists s (rw_list i OS_QUEUE_READ) \<noteq> [] then (s, LOS_ERRNO_QUEUE_IN_TSKUSE)
        else if lists s (rw_list i OS_QUEUE_WRITE) \<noteq> [] then (s, LOS_ERRNO_QUEUE_IN_TSKUSE)
        else if lists s (QueueList i 2) \<noteq> [] then (s, LOS_ERRNO_QUEUE_IN_TSKUSE)
        else if unat (readWriteableCnt c OS_QUEUE_WRITE) + unat (readWriteableCnt c OS_QUEUE_READ) \<noteq> unat (queueLen c)
        then (s, LOS_ERRNO_QUEUE_IN_TSKWRITE)
        else (upd_queue i (\<lambda>c. c\<lparr>queueHandle := None, queueState := OS_QUEUE_UNUSED,
                queueID := SET_QUEUE_ID (GET_QUEUE_COUNT (queueID c) + 1) (GET_QUEUE_INDEX (queueID c))\<rparr>)
              (s\<lparr>g_freeQueueList := g_freeQueueList s @ [i]\<rparr>), free))"

record QUEUE_INFO_S =
  uwQueueID :: u32
  usQueueLen :: u16
  usQueueSize :: u16
  usQueueHead :: u16
  usQueueTail :: u16
  usWritableCnt :: u16
  usReadableCnt :: u16
  uwWaitReadTask :: u64
  uwWaitWriteTask :: u64
  uwWaitMemTask :: u64

text \<open>The bit of a task in the waiting words; a task number of 64 or more shifts it out of the word.\<close>

definition task_bits :: "nat list \<Rightarrow> u64" where
  "task_bits ts = foldl (\<lambda>w t. w OR push_bit t 1) 0 ts"

definition LOS_QueueInfoGet :: "u32 \<Rightarrow> bool \<Rightarrow> 'a queue_kstate_scheme \<Rightarrow> u32 \<times> QUEUE_INFO_S option" where
  "LOS_QueueInfoGet queueid queueInfo s =
    (let i = GET_QUEUE_HANDLE queueid; c = g_allQueue s i;
         zero = \<lparr>uwQueueID = 0, usQueueLen = 0, usQueueSize = 0, usQueueHead = 0, usQueueTail = 0, usWritableCnt = 0, usReadableCnt = 0,
                 uwWaitReadTask = 0, uwWaitWriteTask = 0, uwWaitMemTask = 0\<rparr>
     in if \<not> queueInfo then (LOS_ERRNO_QUEUE_PTR_NULL, None)
        else if i \<ge> queueLimit s then (LOS_ERRNO_QUEUE_INVALID, None)
        else if queueID c \<noteq> queueid \<or> queueState c = OS_QUEUE_UNUSED then (LOS_ERRNO_QUEUE_NOT_CREATE, Some zero)
        else (LOS_OK, Some \<lparr>uwQueueID = queueid, usQueueLen = queueLen c, usQueueSize = queueSize c, usQueueHead = queueHead c,
               usQueueTail = queueTail c, usWritableCnt = readWriteableCnt c OS_QUEUE_WRITE, usReadableCnt = readWriteableCnt c OS_QUEUE_READ,
               uwWaitReadTask = task_bits (lists s (rw_list i OS_QUEUE_READ)), uwWaitWriteTask = task_bits (lists s (rw_list i OS_QUEUE_WRITE)),
               uwWaitMemTask = task_bits (lists s (QueueList i 2))\<rparr>))"

section \<open>Nodes in memory\<close>

definition node_size :: "(nat \<Rightarrow> u8) \<Rightarrow> nat \<Rightarrow> nat \<Rightarrow> u32" where
  "node_size mem sz p = bytes_u32 (map mem [p * sz + sz - 4..<p * sz + sz - 4 + 4])"

definition node_data :: "(nat \<Rightarrow> u8) \<Rightarrow> nat \<Rightarrow> nat \<Rightarrow> u8 list" where
  "node_data mem sz p = map mem [p * sz..<p * sz + unat (node_size mem sz p)]"

text \<open>What a write leaves in memory.\<close>

definition node_store :: "(nat \<Rightarrow> u8) \<Rightarrow> nat \<Rightarrow> nat \<Rightarrow> u8 list \<Rightarrow> u32 \<Rightarrow> nat \<Rightarrow> u8" where
  "node_store mem sz p buf z = (\<lambda>i. if p * sz + sz - 4 \<le> i \<and> i < p * sz + sz - 4 + 4 then u32_bytes z ! (i - (p * sz + sz - 4))
    else if p * sz \<le> i \<and> i < p * sz + unat z then buf ! (i - p * sz) else mem i)"

lemma node_cong:
  assumes "\<And>i. p * sz \<le> i \<Longrightarrow> i < p * sz + sz \<Longrightarrow> mem' i = mem i" and "4 \<le> sz" and "unat (node_size mem sz p) + 4 \<le> sz"
  shows "node_size mem' sz p = node_size mem sz p" and "node_data mem' sz p = node_data mem sz p"
proof -
  have "map mem' [p * sz + sz - 4..<p * sz + sz - 4 + 4] = map mem [p * sz + sz - 4..<p * sz + sz - 4 + 4]"
    using assms(1,2) by (intro map_cong) auto
  then show "node_size mem' sz p = node_size mem sz p" by (simp only: node_size_def)
  then show "node_data mem' sz p = node_data mem sz p" using assms(1,3) unfolding node_data_def by (intro map_cong) auto
qed

lemma nodes_apart:
  assumes "p \<noteq> q" and "p * sz \<le> i" and "i < p * sz + sz"
  shows "i < q * sz \<or> q * sz + sz \<le> (i :: nat)"
proof (cases "p < q")
  case True
  then have "(p + 1) * sz \<le> q * sz" by (intro mult_le_mono1) simp
  then show ?thesis using assms by simp
next
  case False
  then have "(q + 1) * sz \<le> p * sz" using assms(1) by (intro mult_le_mono1) simp
  then show ?thesis using assms by simp
qed

lemma node_store_other:
  assumes "p \<noteq> q" and "4 \<le> sz" and "unat z + 4 \<le> sz" and "unat (node_size mem sz p) + 4 \<le> sz"
  shows "node_size (node_store mem sz q buf z) sz p = node_size mem sz p" "node_data (node_store mem sz q buf z) sz p = node_data mem sz p"
proof -
  have "node_store mem sz q buf z i = mem i" if "p * sz \<le> i" "i < p * sz + sz" for i
    using nodes_apart [OF assms(1) that] assms(2,3) by (auto simp: node_store_def)
  from node_cong [OF this assms(2,4)] show "node_size (node_store mem sz q buf z) sz p = node_size mem sz p"
    "node_data (node_store mem sz q buf z) sz p = node_data mem sz p" by auto
qed

lemma node_store_same:
  assumes "4 \<le> sz" and "unat z + 4 \<le> sz" and "unat z \<le> length buf"
  shows "node_size (node_store mem sz p buf z) sz p = z" "node_data (node_store mem sz p buf z) sz p = take (unat z) buf"
proof -
  have "map (node_store mem sz p buf z) [p * sz + sz - 4..<p * sz + sz - 4 + 4] = u32_bytes z"
    by (rule nth_equalityI) (auto simp: node_store_def)
  then show size: "node_size (node_store mem sz p buf z) sz p = z" unfolding node_size_def by (simp only: bytes_u32_bytes)
  show "node_data (node_store mem sz p buf z) sz p = take (unat z) buf"
    unfolding node_data_def size by (rule nth_equalityI) (use assms in \<open>auto simp: node_store_def\<close>)
qed

section \<open>The ring\<close>

text \<open>\<open>ring_ok c n\<close>: the block holds \<open>n\<close> messages; \<open>ring_msgs c n\<close> are they, oldest first.\<close>

abbreviation (input) ring_pos :: "LosQueueCB \<Rightarrow> nat \<Rightarrow> nat" where
  "ring_pos c j \<equiv> (unat (queueHead c) + j) mod unat (queueLen c)"

definition ring_ok :: "LosQueueCB \<Rightarrow> nat \<Rightarrow> bool" where
  "ring_ok c n \<longleftrightarrow> n \<le> unat (queueLen c) \<and> queueHead c < queueLen c \<and> queueTail c < queueLen c \<and> unat (queueTail c) = ring_pos c n \<and>
    4 < unat (queueSize c) \<and> queueHandle c \<noteq> None \<and>
    (\<forall>j < n. unat (node_size (the (queueHandle c)) (unat (queueSize c)) (ring_pos c j)) + 4 \<le> unat (queueSize c))"

definition ring_msgs :: "LosQueueCB \<Rightarrow> nat \<Rightarrow> u8 list list" where
  "ring_msgs c n = map (\<lambda>j. node_data (the (queueHandle c)) (unat (queueSize c)) (ring_pos c j)) [0..<n]"

lemma length_ring_msgs [simp]: "length (ring_msgs c n) = n"
  by (simp add: ring_msgs_def)

lemma ring_pos_inj: "j < k \<Longrightarrow> k < j + l \<Longrightarrow> (h + j) mod l \<noteq> (h + k) mod (l :: nat)"
proof
  assume "j < k" "k < j + l" and e: "(h + j) mod l = (h + k) mod l"
  then have "l dvd (h + k) - (h + j)" using mod_eq_dvd_iff_nat [of "h + j" "h + k" l] by simp
  then have "l dvd k - j" by simp
  then show False using \<open>j < k\<close> \<open>k < j + l\<close> by (auto dest: dvd_imp_le)
qed

text \<open>The three moves of a position around the ring.\<close>

lemma ring_next:
  assumes "h < (l :: 'a::len word)"
  shows "unat (if unat h + 1 = unat l then 0 else h + 1) = (unat h + 1) mod unat l" "(if unat h + 1 = unat l then 0 else h + 1) < l"
proof -
  have le: "unat h < unat l" using assms by (simp only: word_less_nat_alt)
  show "unat (if unat h + 1 = unat l then 0 else h + 1) = (unat h + 1) mod unat l"
    using word_plus_1_bound(2) [OF assms] le by simp
  then show "(if unat h + 1 = unat l then 0 else h + 1) < l" using le by (simp only: word_less_nat_alt) simp
qed

lemma ring_prev:
  assumes "h < (l :: 'a::len word)"
  shows "unat (if h = 0 then l - 1 else h - 1) = (unat h + (unat l - 1)) mod unat l" "(if h = 0 then l - 1 else h - 1) < l"
proof -
  have le: "unat h < unat l" using assms by (simp only: word_less_nat_alt)
  have ne: "l \<noteq> 0" using assms by auto
  show e: "unat (if h = 0 then l - 1 else h - 1) = (unat h + (unat l - 1)) mod unat l"
  proof (cases "h = 0")
    case False
    then have "unat h \<noteq> 0" by (simp add: unat_eq_0)
    then have "unat h + (unat l - 1) = (unat h - 1) + unat l" using le by linarith
    then have "(unat h + (unat l - 1)) mod unat l = (unat h - 1) mod unat l" by (simp only: mod_add_self2)
    also have "\<dots> = unat h - 1" using le by (intro mod_less) linarith
    finally show ?thesis using False unat_minus_one [OF False] by (simp only: if_False)
  qed (use ne le in \<open>simp add: unat_minus_one\<close>)
  show "(if h = 0 then l - 1 else h - 1) < l" unfolding word_less_nat_alt e using le by simp
qed

text \<open>The parts of a block that moving messages keeps.\<close>

definition same_queue :: "LosQueueCB \<Rightarrow> LosQueueCB \<Rightarrow> bool" where
  "same_queue c' c \<longleftrightarrow> queueLen c' = queueLen c \<and> queueSize c' = queueSize c \<and> queueID c' = queueID c \<and> queueState c' = queueState c \<and>
    readWriteableCnt c' = readWriteableCnt c"

lemma operate_write:
  assumes pos: "queue_position type c = Some (c1, pos)" "queueHandle c1 = Some mem" "OS_QUEUE_IS_WRITE type"
    and sz: "unat z + 4 \<le> unat (queueSize c1)" "4 \<le> unat (queueSize c1)" "0xFFFF \<le> rmax"
  shows "OsQueueBufferOperate rmax c type buf z =
    Some (c1\<lparr>queueHandle := Some (node_store mem (unat (queueSize c1)) (unat pos) buf z)\<rparr>, buf, z)"
proof -
  have "\<not> OS_QUEUE_IS_READ type" using pos(3) by (simp add: OS_QUEUE_IS_WRITE_def OS_QUEUE_IS_READ_def)
  moreover have "unat (queueSize c1) \<le> rmax" using unsigned_less [of "queueSize c1", where ?'a = nat] sz(3) by simp
  ultimately show ?thesis using pos sz by (simp add: OsQueueBufferOperate_def memcpy_s_into_def node_store_def Let_def fun_eq_iff)
qed

lemma operate_read:
  assumes "queue_position type c = Some (c1, pos)" "queueHandle c1 = Some mem" "OS_QUEUE_IS_READ type"
    and "memcpy_s_from rmax 4 mem (unat pos * unat (queueSize c1) + unat (queueSize c1) - 4) 4 = Some bs"
    and k: "(if z < bytes_u32 bs then z else bytes_u32 bs) = k"
    and "memcpy_s_from rmax (unat z) mem (unat pos * unat (queueSize c1)) (unat k) = Some bytes"
  shows "OsQueueBufferOperate rmax c type buf z = Some (c1, bytes @ drop (length bytes) buf, k)"
  using assms unfolding OsQueueBufferOperate_def by (simp only: option.case prod.case Let_def k if_True)

lemma write_positions:
  "queue_position OS_QUEUE_WRITE_TAIL c =
    Some (c\<lparr>queueTail := if unat (queueTail c) + 1 = unat (queueLen c) then 0 else queueTail c + 1\<rparr>, queueTail c)"
  "queue_position OS_QUEUE_WRITE_HEAD c =
    Some (c\<lparr>queueHead := if queueHead c = 0 then queueLen c - 1 else queueHead c - 1\<rparr>, if queueHead c = 0 then queueLen c - 1 else queueHead c - 1)"
  "queue_position OS_QUEUE_READ_HEAD c =
    Some (c\<lparr>queueHead := if unat (queueHead c) + 1 = unat (queueLen c) then 0 else queueHead c + 1\<rparr>, queueHead c)"
  by (simp_all add: queue_position_def OS_QUEUE_OPERATE_GET_def Let_def)

lemma write_tail_ring:
  assumes ok: "ring_ok c n" and n: "n < unat (queueLen c)" and z: "unat z + 4 \<le> unat (queueSize c)" "unat z \<le> length buf" "0xFFFF \<le> rmax"
  shows "\<exists>c'. OsQueueBufferOperate rmax c OS_QUEUE_WRITE_TAIL buf z = Some (c', buf, z) \<and> ring_ok c' (Suc n) \<and>
    ring_msgs c' (Suc n) = ring_msgs c n @ [take (unat z) buf] \<and> same_queue c' c"
proof -
  obtain mem where mem: "queueHandle c = Some mem" using ok by (auto simp: ring_ok_def)
  let ?sz = "unat (queueSize c)" let ?t = "unat (queueTail c)"
  define c' where "c' = c\<lparr>queueTail := if unat (queueTail c) + 1 = unat (queueLen c) then 0 else queueTail c + 1,
    queueHandle := Some (node_store mem ?sz ?t buf z)\<rparr>"
  have op: "OsQueueBufferOperate rmax c OS_QUEUE_WRITE_TAIL buf z = Some (c', buf, z)"
    using operate_write [OF write_positions(1), of c mem z rmax buf] mem z ok
    by (simp add: c'_def ring_ok_def OS_QUEUE_IS_WRITE_def OS_QUEUE_READ_WRITE_GET_def)
  have tail: "queueTail c < queueLen c" "?t = ring_pos c n" and sz: "4 \<le> ?sz" using ok by (auto simp: ring_ok_def)
  have other: "ring_pos c j \<noteq> ?t" if "j < n" for j using ring_pos_inj [OF that, of "unat (queueLen c)"] n tail(2) by simp
  have small: "unat (node_size mem ?sz (ring_pos c j)) + 4 \<le> ?sz" if "j < n" for j using ok that mem by (simp add: ring_ok_def)
  note keep = node_store_other [OF other sz z(1) small]
  note new = node_store_same [OF sz z(1,2), of mem "ring_pos c n"]
  have next_tail: "unat (queueTail c') = ring_pos c (Suc n)" "queueTail c' < queueLen c"
    using ring_next [OF tail(1)] tail(2) by (simp_all add: c'_def mod_Suc_eq)
  have "ring_ok c' (Suc n)" unfolding ring_ok_def
  proof (intro conjI allI impI)
    fix j assume j: "j < Suc n"
    show "unat (node_size (the (queueHandle c')) (unat (queueSize c')) (ring_pos c' j)) + 4 \<le> unat (queueSize c')"
      using j keep(1) [of j] small [of j] new(1) z(1) tail(2) by (cases "j = n") (simp_all add: c'_def)
  qed (use ok n next_tail in \<open>simp_all add: c'_def ring_ok_def\<close>)
  moreover have "ring_msgs c' (Suc n) = ring_msgs c n @ [take (unat z) buf]"
    using keep(2) new(2) tail(2) mem by (simp add: ring_msgs_def c'_def)
  ultimately show ?thesis using op by (auto simp: same_queue_def c'_def)
qed

lemma write_head_ring:
  assumes ok: "ring_ok c n" and n: "n < unat (queueLen c)" and z: "unat z + 4 \<le> unat (queueSize c)" "unat z \<le> length buf" "0xFFFF \<le> rmax"
  shows "\<exists>c'. OsQueueBufferOperate rmax c OS_QUEUE_WRITE_HEAD buf z = Some (c', buf, z) \<and> ring_ok c' (Suc n) \<and>
    ring_msgs c' (Suc n) = take (unat z) buf # ring_msgs c n \<and> same_queue c' c"
proof -
  obtain mem where mem: "queueHandle c = Some mem" using ok by (auto simp: ring_ok_def)
  let ?sz = "unat (queueSize c)" let ?l = "unat (queueLen c)"
  define h where "h = (if queueHead c = 0 then queueLen c - 1 else queueHead c - 1)"
  define c' where "c' = c\<lparr>queueHead := h, queueHandle := Some (node_store mem ?sz (unat h) buf z)\<rparr>"
  have op: "OsQueueBufferOperate rmax c OS_QUEUE_WRITE_HEAD buf z = Some (c', buf, z)"
    using operate_write [OF write_positions(2), of c mem z rmax buf] mem z ok
    by (simp add: c'_def h_def [symmetric] ring_ok_def OS_QUEUE_IS_WRITE_def OS_QUEUE_READ_WRITE_GET_def)
  have head: "queueHead c < queueLen c" "unat (queueTail c) = ring_pos c n" and sz: "4 \<le> ?sz" using ok by (auto simp: ring_ok_def)
  have h: "unat h = ring_pos c (?l - 1)" "h < queueLen c" using ring_prev [OF head(1)] by (simp_all add: h_def)
  have pos: "ring_pos c' (Suc j) = ring_pos c j" for j
  proof -
    have "ring_pos c' (Suc j) = (unat h + Suc j) mod ?l" by (simp add: c'_def)
    also have "\<dots> = (unat (queueHead c) + (?l - 1) + Suc j) mod ?l" unfolding h(1) by (rule mod_add_left_eq)
    also have "unat (queueHead c) + (?l - 1) + Suc j = unat (queueHead c) + j + ?l" using n by simp
    finally show ?thesis by simp
  qed
  have other: "ring_pos c j \<noteq> unat h" if "j < n" for j
    using ring_pos_inj [of j "?l - 1" ?l "unat (queueHead c)"] that n h(1) by simp
  have small: "unat (node_size mem ?sz (ring_pos c j)) + 4 \<le> ?sz" if "j < n" for j using ok that mem by (simp add: ring_ok_def)
  note keep = node_store_other [OF other sz z(1) small]
  note new = node_store_same [OF sz z(1,2), of mem "unat h"]
  have first: "ring_pos c' 0 = unat h" using h(2) by (simp add: c'_def word_less_nat_alt)
  have "ring_ok c' (Suc n)" unfolding ring_ok_def
  proof (intro conjI allI impI)
    show "unat (queueTail c') = ring_pos c' (Suc n)" unfolding pos using head(2) by (simp add: c'_def)
  next
    fix j assume j: "j < Suc n"
    show "unat (node_size (the (queueHandle c')) (unat (queueSize c')) (ring_pos c' j)) + 4 \<le> unat (queueSize c')"
    proof (cases j)
      case 0
      then show ?thesis using new(1) z(1) first by (simp add: c'_def)
    next
      case (Suc k)
      then show ?thesis using j keep(1) [of k] small [of k] pos [of k] by (simp add: c'_def)
    qed
  qed (use ok n h in \<open>simp_all add: c'_def ring_ok_def\<close>)
  moreover have "ring_msgs c' (Suc n) = take (unat z) buf # ring_msgs c n"
  proof -
    have "[0..<Suc n] = 0 # map Suc [0..<n]" by (simp add: map_Suc_upt upt_conv_Cons)
    then have "ring_msgs c' (Suc n) = node_data (the (queueHandle c')) (unat (queueSize c')) (ring_pos c' 0) #
        map (\<lambda>j. node_data (the (queueHandle c')) (unat (queueSize c')) (ring_pos c' (Suc j))) [0..<n]"
      by (simp only: ring_msgs_def list.map map_map o_def)
    also have "\<dots> = take (unat z) buf # ring_msgs c n"
      unfolding pos first ring_msgs_def using keep(2) new(2) mem by (simp add: c'_def)
    finally show ?thesis .
  qed
  ultimately show ?thesis using op by (auto simp: same_queue_def c'_def)
qed

lemma read_ring:
  assumes ok: "ring_ok c (Suc n)" and b: "unat z \<le> 0xFFFF" "0xFFFF \<le> rmax" and m: "ring_msgs c (Suc n) = msg # rest"
  shows "\<exists>c'. OsQueueBufferOperate rmax c OS_QUEUE_READ_HEAD buf z =
      Some (c', take (unat z) msg @ drop (min (unat z) (length msg)) buf, of_nat (min (unat z) (length msg))) \<and>
    ring_ok c' n \<and> ring_msgs c' n = rest \<and> same_queue c' c"
proof -
  obtain mem where mem: "queueHandle c = Some mem" using ok by (auto simp: ring_ok_def)
  let ?sz = "unat (queueSize c)" let ?p = "unat (queueHead c)"
  define c' where "c' = c\<lparr>queueHead := if unat (queueHead c) + 1 = unat (queueLen c) then 0 else queueHead c + 1\<rparr>"
  have head: "queueHead c < queueLen c" and sz: "4 \<le> ?sz" using ok by (auto simp: ring_ok_def)
  then have p0: "ring_pos c 0 = ?p" by (simp add: word_less_nat_alt)
  have split: "[0..<Suc n] = 0 # map Suc [0..<n]" by (simp add: map_Suc_upt upt_conv_Cons)
  have msg: "msg = node_data mem ?sz ?p" and rest: "rest = map (\<lambda>j. node_data mem ?sz (ring_pos c (Suc j))) [0..<n]"
    using m p0 mem unfolding ring_msgs_def split by (simp_all add: o_def)
  define d where "d = node_size mem ?sz ?p"
  have len: "length msg = unat d" by (simp add: msg node_data_def d_def)
  have "unat d + 4 \<le> ?sz" using ok p0 mem unfolding ring_ok_def d_def by (metis option.sel zero_less_Suc)
  define k where "k = (if z < d then z else d)"
  have k: "unat k = min (unat z) (length msg)" by (simp add: k_def len word_less_nat_alt min_def)
  have data: "map mem [?p * ?sz..<?p * ?sz + unat k] = take (unat z) msg"
    unfolding msg node_data_def d_def [symmetric] k len by (rule nth_equalityI) auto
  have "queue_position OS_QUEUE_READ_HEAD c = Some (c', queueHead c)" by (simp only: write_positions c'_def)
  moreover have "queueHandle c' = Some mem" "OS_QUEUE_IS_READ OS_QUEUE_READ_HEAD"
    using mem by (simp_all add: c'_def OS_QUEUE_IS_READ_def OS_QUEUE_READ_WRITE_GET_def)
  moreover have "memcpy_s_from rmax 4 mem (?p * unat (queueSize c') + unat (queueSize c') - 4) 4 = Some (map mem [?p * ?sz + ?sz - 4..<?p * ?sz + ?sz - 4 + 4])"
    using b(2) by (simp add: memcpy_s_from_def c'_def)
  moreover have "(if z < bytes_u32 (map mem [?p * ?sz + ?sz - 4..<?p * ?sz + ?sz - 4 + 4]) then z
      else bytes_u32 (map mem [?p * ?sz + ?sz - 4..<?p * ?sz + ?sz - 4 + 4])) = k"
    by (simp only: k_def d_def node_size_def)
  moreover have "memcpy_s_from rmax (unat z) mem (?p * unat (queueSize c')) (unat k) = Some (take (unat z) msg)"
    using b k data by (simp add: memcpy_s_from_def c'_def)
  ultimately have "OsQueueBufferOperate rmax c OS_QUEUE_READ_HEAD buf z = Some (c', take (unat z) msg @ drop (length (take (unat z) msg)) buf, k)"
    by (rule operate_read)
  moreover have "k = of_nat (min (unat z) (length msg))" unfolding k [symmetric] by simp
  moreover have "length (take (unat z) msg) = min (unat z) (length msg)" by simp
  moreover have pos: "ring_pos c' j = ring_pos c (Suc j)" for j
  proof -
    have "unat (queueHead c') = (?p + 1) mod unat (queueLen c)" using ring_next(1) [OF head] by (simp add: c'_def)
    then have "ring_pos c' j = ((?p + 1) mod unat (queueLen c) + j) mod unat (queueLen c)" by (simp add: c'_def)
    then show ?thesis by (simp add: mod_add_left_eq)
  qed
  have small: "unat (node_size (the (queueHandle c)) ?sz (ring_pos c i)) + 4 \<le> ?sz" if "i < Suc n" for i
    using ok that unfolding ring_ok_def by blast
  have "ring_ok c' n" unfolding ring_ok_def pos
  proof (intro conjI allI impI)
    fix j assume "j < n"
    then show "unat (node_size (the (queueHandle c')) (unat (queueSize c')) (ring_pos c (Suc j))) + 4 \<le> unat (queueSize c')"
      using small [of "Suc j"] by (simp add: c'_def)
  qed (use ok ring_next(2) [OF head] in \<open>simp_all add: c'_def ring_ok_def\<close>)
  moreover have "ring_msgs c' n = rest" unfolding ring_msgs_def pos rest using mem by (simp add: c'_def)
  ultimately show ?thesis by (auto simp: same_queue_def c'_def)
qed

section \<open>The queue as a bounded double-ended queue of messages\<close>

lemma upd_queue_frame [simp]:
  "g_allQueue (upd_queue i f s) = (g_allQueue s)(i := f (g_allQueue s i))" "g_freeQueueList (upd_queue i f s) = g_freeQueueList s"
  "queueLimit (upd_queue i f s) = queueLimit s" "secMax (upd_queue i f s) = secMax s" "lists (upd_queue i f s) = lists s"
  by (simp_all add: upd_queue_def)

lemma upd_queue_upd_queue [simp]: "upd_queue i f (upd_queue i g s) = upd_queue i (\<lambda>c. f (g c)) s"
  by (simp add: upd_queue_def)

definition queue_live :: "'a queue_kstate_scheme \<Rightarrow> u32 \<Rightarrow> bool" where
  "queue_live s h \<longleftrightarrow> GET_QUEUE_HANDLE h < queueLimit s \<and> queueState (g_allQueue s (GET_QUEUE_HANDLE h)) \<noteq> OS_QUEUE_UNUSED \<and>
    queueID (g_allQueue s (GET_QUEUE_HANDLE h)) = h"

lemma type_facts [simp]:
  "OS_QUEUE_OPERATE_TYPE OS_QUEUE_READ OS_QUEUE_HEAD = OS_QUEUE_READ_HEAD" "OS_QUEUE_OPERATE_TYPE OS_QUEUE_WRITE OS_QUEUE_HEAD = OS_QUEUE_WRITE_HEAD"
  "OS_QUEUE_OPERATE_TYPE OS_QUEUE_WRITE OS_QUEUE_TAIL = OS_QUEUE_WRITE_TAIL"
  "OS_QUEUE_READ_WRITE_GET OS_QUEUE_READ_HEAD = 0" "OS_QUEUE_READ_WRITE_GET OS_QUEUE_WRITE_HEAD = 1" "OS_QUEUE_READ_WRITE_GET OS_QUEUE_WRITE_TAIL = 1"
  "OS_QUEUE_IS_READ OS_QUEUE_READ_HEAD" "\<not> OS_QUEUE_IS_READ OS_QUEUE_WRITE_HEAD" "\<not> OS_QUEUE_IS_READ OS_QUEUE_WRITE_TAIL"
  "\<not> OS_QUEUE_IS_WRITE OS_QUEUE_READ_HEAD" "OS_QUEUE_IS_WRITE OS_QUEUE_WRITE_HEAD" "OS_QUEUE_IS_WRITE OS_QUEUE_WRITE_TAIL"
  by (simp_all add: OS_QUEUE_OPERATE_TYPE_def OS_QUEUE_READ_WRITE_GET_def OS_QUEUE_IS_READ_def OS_QUEUE_IS_WRITE_def)

lemma rw_list_distinct [simp]: "rw_list i 0 = QueueList i 0" "rw_list i 1 = QueueList i 1"
  by (simp_all add: rw_list_def)

text \<open>Non-blocking operations, as a client calls them, with the message a read delivers.\<close>

datatype queue_op = PushBack "u8 list" | PushFront "u8 list" | Pop u32

definition queue_answer :: "bool \<Rightarrow> ('a queue_kstate_scheme \<times> queue_result) option \<Rightarrow> ('a queue_kstate_scheme \<times> u32 \<times> u8 list) option" where
  "queue_answer rd r = (case r of Some (s', QueueRet ret buf z) \<Rightarrow> Some (s', ret, if rd \<and> ret = LOS_OK then take (unat z) buf else []) | _ \<Rightarrow> None)"

fun queue_step :: "u32 \<Rightarrow> queue_op \<Rightarrow> 'a queue_kstate_scheme \<Rightarrow> ('a queue_kstate_scheme \<times> u32 \<times> u8 list) option" where
  "queue_step h (PushBack b) s = queue_answer False (LOS_QueueWriteCopy h (Some b) (of_nat (length b)) LOS_NO_WAIT s)"
| "queue_step h (PushFront b) s = queue_answer False (LOS_QueueWriteHeadCopy h (Some b) (of_nat (length b)) LOS_NO_WAIT s)"
| "queue_step h (Pop z) s = queue_answer True (LOS_QueueReadCopy h (Some (replicate (unat z) 0)) (Some z) LOS_NO_WAIT s)"

fun queue_op_ok :: "queue_op \<Rightarrow> bool" where
  "queue_op_ok (PushBack b) = (b \<noteq> [] \<and> length b < 2 ^ 32)"
| "queue_op_ok (PushFront b) = (b \<noteq> [] \<and> length b < 2 ^ 32)"
| "queue_op_ok (Pop z) = (0 < z \<and> z \<le> 0xFFFF - 4)"

text \<open>The abstract machine: capacity, largest message, and the messages.\<close>

type_synonym msg_deque = "nat \<times> nat \<times> u8 list list"

definition deque_push :: "(u8 list list \<Rightarrow> u8 list \<Rightarrow> u8 list list) \<Rightarrow> u8 list \<Rightarrow> msg_deque \<Rightarrow> msg_deque \<times> u32 \<times> u8 list" where
  "deque_push put b d = (case d of (cap, maxMsg, ms) \<Rightarrow>
    if length b > maxMsg then (d, LOS_ERRNO_QUEUE_WRITE_SIZE_TOO_BIG, [])
    else if length ms = cap then (d, LOS_ERRNO_QUEUE_ISFULL, [])
    else ((cap, maxMsg, put ms b), LOS_OK, []))"

fun deque_step :: "queue_op \<Rightarrow> msg_deque \<Rightarrow> msg_deque \<times> u32 \<times> u8 list" where
  "deque_step (PushBack b) d = deque_push (\<lambda>ms b. ms @ [b]) b d"
| "deque_step (PushFront b) d = deque_push (\<lambda>ms b. b # ms) b d"
| "deque_step (Pop z) (cap, maxMsg, ms) = (case ms of [] \<Rightarrow> ((cap, maxMsg, ms), LOS_ERRNO_QUEUE_ISEMPTY, [])
    | m # rest \<Rightarrow> ((cap, maxMsg, rest), LOS_OK, take (unat z) m))"

text \<open>A queue nobody waits for.\<close>

definition queue_free_running :: "u32 \<Rightarrow> 'a queue_kstate_scheme \<Rightarrow> bool" where
  "queue_free_running h s \<longleftrightarrow> (let i = GET_QUEUE_HANDLE h; c = g_allQueue s i in queue_live s h \<and> 0xFFFF \<le> secMax s \<and>
    lists s (QueueList i 0) = [] \<and> lists s (QueueList i 1) = [] \<and> ring_ok c (unat (readWriteableCnt c 0)) \<and>
    unat (readWriteableCnt c 0) + unat (readWriteableCnt c 1) = unat (queueLen c))"

definition queue_abs :: "u32 \<Rightarrow> 'a queue_kstate_scheme \<Rightarrow> msg_deque" where
  "queue_abs h s = (let c = g_allQueue s (GET_QUEUE_HANDLE h) in
    (unat (queueLen c), unat (queueSize c) - 4, ring_msgs c (unat (readWriteableCnt c 0))))"

lemma queue_free_runningD:
  assumes "queue_free_running h s"
  shows "queue_live s h" "0xFFFF \<le> secMax s" "lists s (QueueList (GET_QUEUE_HANDLE h) 0) = []" "lists s (QueueList (GET_QUEUE_HANDLE h) 1) = []"
    "ring_ok (g_allQueue s (GET_QUEUE_HANDLE h)) (unat (readWriteableCnt (g_allQueue s (GET_QUEUE_HANDLE h)) 0))"
    "unat (readWriteableCnt (g_allQueue s (GET_QUEUE_HANDLE h)) 0) + unat (readWriteableCnt (g_allQueue s (GET_QUEUE_HANDLE h)) 1)
      = unat (queueLen (g_allQueue s (GET_QUEUE_HANDLE h)))"
  using assms by (simp_all add: queue_free_running_def Let_def)

lemma size_check: "4 < unat (w :: u16) \<Longrightarrow> z > (ucast w - 4 :: u32) \<longleftrightarrow> unat w - 4 < unat z"
proof -
  assume w: "4 < unat w"
  have u: "unat (ucast w :: u32) = unat w" 
    using unsigned_less [of w, where ?'a = nat] by (simp add: unsigned_ucast_eq take_bit_nat_eq_self)
  have "unat (ucast w - 4 :: u32) = unat w - 4" using w u by (subst unat_sub) (simp_all add: word_le_nat_alt)
  then show ?thesis by (simp add: word_less_nat_alt)
qed

text \<open>An operation that finds what it needs and nobody to wake.\<close>

lemma transfer_counts:
  assumes "lists s (rw_list i (if OS_QUEUE_READ_WRITE_GET type = 0 then 1 else 0)) = []"
    and "OsQueueBufferOperate (secMax s) (g_allQueue s i) type buf z = Some (c, buf', z')"
  shows "queue_transfer i type buf z ret s = Some (upd_queue i (\<lambda>_. c\<lparr>readWriteableCnt := (readWriteableCnt c)
      ((if OS_QUEUE_READ_WRITE_GET type = 0 then 1 else 0) := readWriteableCnt c (if OS_QUEUE_READ_WRITE_GET type = 0 then 1 else 0) + 1)\<rparr>) s,
    QueueRet ret buf' z')"
  using assms by (simp add: queue_transfer_def Let_def)

lemma free_running_upd:
  assumes q: "queue_free_running h s" and c: "same_queue c (g_allQueue s (GET_QUEUE_HANDLE h))" "ring_ok c n" "n \<le> unat (queueLen c)"
    and cnt: "unat (cnt 0) = n" "unat (cnt 0) + unat (cnt 1) = unat (queueLen c)"
  shows "queue_free_running h (upd_queue (GET_QUEUE_HANDLE h) (\<lambda>_. c\<lparr>readWriteableCnt := cnt\<rparr>) s)"
    and "queue_abs h (upd_queue (GET_QUEUE_HANDLE h) (\<lambda>_. c\<lparr>readWriteableCnt := cnt\<rparr>) s) = (unat (queueLen c), unat (queueSize c) - 4, ring_msgs c n)"
proof -
  have "ring_ok (c\<lparr>readWriteableCnt := cnt\<rparr>) n" using c(2) by (simp add: ring_ok_def)
  then show "queue_free_running h (upd_queue (GET_QUEUE_HANDLE h) (\<lambda>_. c\<lparr>readWriteableCnt := cnt\<rparr>) s)"
    using queue_free_runningD [OF q] c(1) cnt by (simp add: queue_free_running_def Let_def queue_live_def same_queue_def)
  show "queue_abs h (upd_queue (GET_QUEUE_HANDLE h) (\<lambda>_. c\<lparr>readWriteableCnt := cnt\<rparr>) s) = (unat (queueLen c), unat (queueSize c) - 4, ring_msgs c n)"
    using cnt by (simp add: queue_abs_def ring_msgs_def Let_def)
qed

lemma same_queue_cnt:
  assumes "ring_ok c n"
  shows "ring_ok (c\<lparr>readWriteableCnt := x\<rparr>) n" "ring_msgs (c\<lparr>readWriteableCnt := x\<rparr>) n = ring_msgs c n"
  using assms by (simp_all add: ring_ok_def ring_msgs_def)

lemma push_refines:
  assumes q: "queue_free_running h s" and b: "b \<noteq> []" "length b < 2 ^ 32" and ty: "type = OS_QUEUE_WRITE_HEAD \<or> type = OS_QUEUE_WRITE_TAIL"
    and put: "\<And>c n z rmax. ring_ok c n \<Longrightarrow> n < unat (queueLen c) \<Longrightarrow> unat z + 4 \<le> unat (queueSize c) \<Longrightarrow> unat z \<le> length b \<Longrightarrow> 0xFFFF \<le> rmax \<Longrightarrow>
      \<exists>c'. OsQueueBufferOperate rmax c type b z = Some (c', b, z) \<and> ring_ok c' (Suc n) \<and> ring_msgs c' (Suc n) = put (ring_msgs c n) (take (unat z) b) \<and> same_queue c' c"
  shows "\<exists>s'. queue_answer False (OsQueueOperate h type b (of_nat (length b)) LOS_NO_WAIT s) = Some (s', snd (deque_push put b (queue_abs h s))) \<and>
    queue_free_running h s' \<and> queue_abs h s' = fst (deque_push put b (queue_abs h s))"
proof -
  let ?i = "GET_QUEUE_HANDLE h" let ?z = "of_nat (length b) :: u32"
  define c where "c = g_allQueue s ?i"
  define n where "n = unat (readWriteableCnt c 0)"
  note D = queue_free_runningD [OF q, folded c_def, folded n_def]
  have z: "unat ?z = length b" using b(2) by (simp add: unsigned_of_nat take_bit_nat_eq_self)
  have live: "?i < queueLimit s" "queueState c \<noteq> OS_QUEUE_UNUSED" "queueID c = h" using D(1) by (simp_all add: queue_live_def c_def)
  have sz: "4 < unat (queueSize c)" using D(5) by (simp add: ring_ok_def)
  have ops: "OS_QUEUE_IS_WRITE type" "\<not> OS_QUEUE_IS_READ type" "OS_QUEUE_READ_WRITE_GET type = 1" using ty by auto
  have abs: "queue_abs h s = (unat (queueLen c), unat (queueSize c) - 4, ring_msgs c n)" by (simp add: queue_abs_def c_def n_def Let_def)
  have check: "OsQueueOperateParamCheck c h type ?z = (if length b > unat (queueSize c) - 4 then LOS_ERRNO_QUEUE_WRITE_SIZE_TOO_BIG else LOS_OK)"
    using live ops size_check [OF sz, of ?z] z by (simp add: OsQueueOperateParamCheck_def)
  consider (big) "length b > unat (queueSize c) - 4" | (full) "length b \<le> unat (queueSize c) - 4" "n = unat (queueLen c)"
    | (room) "length b \<le> unat (queueSize c) - 4" "n < unat (queueLen c)" using D(6) by linarith
  then show ?thesis
  proof cases
    case big
    then have "OsQueueOperate h type b ?z LOS_NO_WAIT s = Some (s, QueueRet LOS_ERRNO_QUEUE_WRITE_SIZE_TOO_BIG b ?z)"
      using live check by (simp add: OsQueueOperate_def c_def [symmetric] Let_def)
    then show ?thesis using q big unfolding abs by (simp add: queue_answer_def deque_push_def abs)
  next
    case full
    then have "readWriteableCnt c 1 = 0" using D(6) by (simp add: unat_eq_0)
    then have "OsQueueOperate h type b ?z LOS_NO_WAIT s = Some (s, QueueRet LOS_ERRNO_QUEUE_ISFULL b ?z)"
      using live check full ops by (simp add: OsQueueOperate_def c_def [symmetric] Let_def)
    then show ?thesis using q full unfolding abs by (simp add: queue_answer_def deque_push_def abs)
  next
    case room
    then have w: "readWriteableCnt c 1 \<noteq> 0" using D(6) by (auto simp: unat_eq_0)
    define c1 where "c1 = c\<lparr>readWriteableCnt := (readWriteableCnt c)(1 := readWriteableCnt c 1 - 1)\<rparr>"
    have c1: "ring_ok c1 n" "ring_msgs c1 n = ring_msgs c n" using same_queue_cnt [OF D(5)] by (simp_all add: c1_def)
    have fits: "unat ?z + 4 \<le> unat (queueSize c1)" "n < unat (queueLen c1)" using room sz z by (simp_all add: c1_def)
    obtain c' where c': "OsQueueBufferOperate (secMax s) c1 type b ?z = Some (c', b, ?z)" "ring_ok c' (Suc n)"
      "ring_msgs c' (Suc n) = put (ring_msgs c n) b" "same_queue c' c1"
      using put [OF c1(1) fits(2,1) _ D(2)] z c1(2) by auto
    let ?cnt = "(readWriteableCnt c')(0 := readWriteableCnt c' 0 + 1)"
    have cnt0: "readWriteableCnt c' 0 = readWriteableCnt c 0" "readWriteableCnt c' 1 = readWriteableCnt c 1 - 1"
      and cl: "queueLen c' = queueLen c" "queueSize c' = queueSize c" using c'(4) by (simp_all add: same_queue_def c1_def)
    have "readWriteableCnt c 0 < queueLen c" using room(2) by (simp add: n_def word_less_nat_alt)
    from word_plus_1_bound(2) [OF this] have inc: "unat (?cnt 0) = Suc n" by (simp add: cnt0 n_def)
    have dec: "unat (?cnt 1) = unat (readWriteableCnt c 1) - 1" using w by (simp add: cnt0 unat_minus_one)
    have sum: "unat (?cnt 0) + unat (?cnt 1) = unat (queueLen c')" unfolding inc dec cl using D(6) room(2) by linarith
    let ?s1 = "upd_queue ?i (\<lambda>c. c\<lparr>readWriteableCnt := (readWriteableCnt c)(1 := readWriteableCnt c 1 - 1)\<rparr>) s"
    have "queue_transfer ?i type b ?z LOS_OK ?s1 = Some (upd_queue ?i (\<lambda>_. c'\<lparr>readWriteableCnt := ?cnt\<rparr>) ?s1, QueueRet LOS_OK b ?z)"
      using transfer_counts [of ?s1 ?i type b ?z c' b ?z LOS_OK] D(3) ops(3) c'(1) by (simp add: c_def c1_def)
    then have run: "OsQueueOperate h type b ?z LOS_NO_WAIT s = Some (upd_queue ?i (\<lambda>_. c'\<lparr>readWriteableCnt := ?cnt\<rparr>) s, QueueRet LOS_OK b ?z)"
      using live check room w ops by (simp add: OsQueueOperate_def c_def [symmetric] Let_def)
    have "same_queue (c'\<lparr>readWriteableCnt := readWriteableCnt c\<rparr>) c" using c'(4) by (simp add: same_queue_def c1_def)
    from free_running_upd [OF q this [unfolded c_def], of "Suc n" ?cnt] c'(2,3) inc sum room(2) cl
    have "queue_free_running h (upd_queue ?i (\<lambda>_. c'\<lparr>readWriteableCnt := ?cnt\<rparr>) s)"
      "queue_abs h (upd_queue ?i (\<lambda>_. c'\<lparr>readWriteableCnt := ?cnt\<rparr>) s) = (unat (queueLen c), unat (queueSize c) - 4, put (ring_msgs c n) b)"
      by (simp_all add: same_queue_cnt [OF c'(2)])
    with run room show ?thesis unfolding abs by (simp add: queue_answer_def deque_push_def)
  qed
qed

lemma pop_refines:
  assumes q: "queue_free_running h s" and z: "0 < z" "z \<le> 0xFFFF - 4"
  shows "\<exists>s'. queue_answer True (OsQueueOperate h OS_QUEUE_READ_HEAD (replicate (unat z) 0) z LOS_NO_WAIT s) = Some (s', snd (deque_step (Pop z) (queue_abs h s))) \<and>
    queue_free_running h s' \<and> queue_abs h s' = fst (deque_step (Pop z) (queue_abs h s))"
proof -
  let ?i = "GET_QUEUE_HANDLE h" let ?buf = "replicate (unat z) 0 :: u8 list"
  define c where "c = g_allQueue s ?i"
  define n where "n = unat (readWriteableCnt c 0)"
  note D = queue_free_runningD [OF q, folded c_def, folded n_def]
  have zz: "unat z \<le> 0xFFFF" using z(2) by (simp add: word_le_nat_alt)
  have live: "?i < queueLimit s" "queueState c \<noteq> OS_QUEUE_UNUSED" "queueID c = h" using D(1) by (simp_all add: queue_live_def c_def)
  have abs: "queue_abs h s = (unat (queueLen c), unat (queueSize c) - 4, ring_msgs c n)" by (simp add: queue_abs_def c_def n_def Let_def)
  have check: "OsQueueOperateParamCheck c h OS_QUEUE_READ_HEAD z = LOS_OK" using live by (simp add: OsQueueOperateParamCheck_def)
  show ?thesis
  proof (cases n)
    case 0
    then have "readWriteableCnt c 0 = 0" by (simp add: n_def unat_eq_0)
    then have "OsQueueOperate h OS_QUEUE_READ_HEAD ?buf z LOS_NO_WAIT s = Some (s, QueueRet LOS_ERRNO_QUEUE_ISEMPTY ?buf z)"
      using live check by (simp add: OsQueueOperate_def c_def [symmetric] Let_def)
    then show ?thesis using q 0 unfolding abs by (simp add: queue_answer_def ring_msgs_def abs)
  next
    case (Suc m)
    then have ne: "readWriteableCnt c 0 \<noteq> 0" by (auto simp: n_def)
    obtain msg rest where ms: "ring_msgs c n = msg # rest" using Suc by (metis length_Suc_conv length_ring_msgs)
    define c1 where "c1 = c\<lparr>readWriteableCnt := (readWriteableCnt c)(0 := readWriteableCnt c 0 - 1)\<rparr>"
    have c1: "ring_ok c1 (Suc m)" "ring_msgs c1 (Suc m) = msg # rest" using same_queue_cnt [OF D(5)] ms Suc by (simp_all add: c1_def)
    let ?k = "min (unat z) (length msg)"
    obtain c' where c': "OsQueueBufferOperate (secMax s) c1 OS_QUEUE_READ_HEAD ?buf z = Some (c', take (unat z) msg @ drop ?k ?buf, of_nat ?k)"
      "ring_ok c' m" "ring_msgs c' m = rest" "same_queue c' c1" using read_ring [OF c1(1) zz D(2) c1(2)] by blast
    let ?cnt = "(readWriteableCnt c')(1 := readWriteableCnt c' 1 + 1)"
    have cnt0: "readWriteableCnt c' 0 = readWriteableCnt c 0 - 1" "readWriteableCnt c' 1 = readWriteableCnt c 1"
      and cl: "queueLen c' = queueLen c" "queueSize c' = queueSize c" using c'(4) by (simp_all add: same_queue_def c1_def)
    have "readWriteableCnt c 1 < queueLen c" using D(6) Suc by (simp add: word_less_nat_alt)
    from word_plus_1_bound(2) [OF this] have inc: "unat (?cnt 1) = unat (readWriteableCnt c 1) + 1" by (simp add: cnt0)
    have dec: "unat (?cnt 0) = m" using ne Suc by (simp add: cnt0 unat_minus_one n_def)
    have sum: "unat (?cnt 0) + unat (?cnt 1) = unat (queueLen c')" unfolding inc dec cl using D(6) Suc by linarith
    let ?s1 = "upd_queue ?i (\<lambda>c. c\<lparr>readWriteableCnt := (readWriteableCnt c)(0 := readWriteableCnt c 0 - 1)\<rparr>) s"
    let ?out = "take (unat z) msg @ drop ?k ?buf"
    have "queue_transfer ?i OS_QUEUE_READ_HEAD ?buf z LOS_OK ?s1 = Some (upd_queue ?i (\<lambda>_. c'\<lparr>readWriteableCnt := ?cnt\<rparr>) ?s1, QueueRet LOS_OK ?out (of_nat ?k))"
      using transfer_counts [of ?s1 ?i OS_QUEUE_READ_HEAD ?buf z c' ?out "of_nat ?k" LOS_OK] D(4) c'(1) by (simp add: c_def c1_def)
    then have run: "OsQueueOperate h OS_QUEUE_READ_HEAD ?buf z LOS_NO_WAIT s =
        Some (upd_queue ?i (\<lambda>_. c'\<lparr>readWriteableCnt := ?cnt\<rparr>) s, QueueRet LOS_OK ?out (of_nat ?k))"
      using live check ne by (simp add: OsQueueOperate_def c_def [symmetric] Let_def)
    have "unat (of_nat ?k :: u32) = ?k" using zz by (simp add: unsigned_of_nat take_bit_nat_eq_self)
    then have out: "take (unat (of_nat ?k :: u32)) ?out = take (unat z) msg" by (simp add: min_def)
    have "same_queue (c'\<lparr>readWriteableCnt := readWriteableCnt c\<rparr>) c" using c'(4) by (simp add: same_queue_def c1_def)
    from free_running_upd [OF q this [unfolded c_def], of m ?cnt] c'(2,3) dec sum cl D(6) Suc
    have "queue_free_running h (upd_queue ?i (\<lambda>_. c'\<lparr>readWriteableCnt := ?cnt\<rparr>) s)"
      "queue_abs h (upd_queue ?i (\<lambda>_. c'\<lparr>readWriteableCnt := ?cnt\<rparr>) s) = (unat (queueLen c), unat (queueSize c) - 4, rest)"
      by (simp_all add: same_queue_cnt [OF c'(2)])
    with run out ms show ?thesis unfolding abs by (simp add: queue_answer_def)
  qed
qed

lemma queue_step_refines:
  assumes q: "queue_free_running h s" and ok: "queue_op_ok op"
  shows "\<exists>s'. queue_step h op s = Some (s', snd (deque_step op (queue_abs h s))) \<and> queue_free_running h s' \<and> queue_abs h s' = fst (deque_step op (queue_abs h s))"
proof -
  have i: "GET_QUEUE_HANDLE h < queueLimit s" using queue_free_runningD(1) [OF q] by (simp add: queue_live_def)
  show ?thesis
  proof (cases op)
    case (PushBack b)
    then have b: "b \<noteq> []" "length b < 2 ^ 32" "(of_nat (length b) :: u32) \<noteq> 0" using ok by (auto simp: word_of_nat_eq_0_iff dest: dvd_imp_le)
    have "queue_step h op s = queue_answer False (OsQueueOperate h OS_QUEUE_WRITE_TAIL b (of_nat (length b)) LOS_NO_WAIT s)"
      using PushBack b(3) i by (simp add: LOS_QueueWriteCopy_def OsQueueWriteParameterCheck_def)
    then show ?thesis using push_refines [OF q b(1,2) disjI2 [OF refl], of "\<lambda>ms b. ms @ [b]"] write_tail_ring PushBack by simp
  next
    case (PushFront b)
    then have b: "b \<noteq> []" "length b < 2 ^ 32" "(of_nat (length b) :: u32) \<noteq> 0" using ok by (auto simp: word_of_nat_eq_0_iff dest: dvd_imp_le)
    have "queue_step h op s = queue_answer False (OsQueueOperate h OS_QUEUE_WRITE_HEAD b (of_nat (length b)) LOS_NO_WAIT s)"
      using PushFront b(3) i by (simp add: LOS_QueueWriteHeadCopy_def OsQueueWriteParameterCheck_def)
    then show ?thesis using push_refines [OF q b(1,2) disjI1 [OF refl], of "\<lambda>ms b. b # ms"] write_head_ring PushFront by simp
  next
    case (Pop z)
    then have z: "0 < z" "z \<le> 0xFFFF - 4" using ok by simp_all
    have "queue_step h op s = queue_answer True (OsQueueOperate h OS_QUEUE_READ_HEAD (replicate (unat z) 0) z LOS_NO_WAIT s)"
      using Pop z i by (auto simp: LOS_QueueReadCopy_def OsQueueReadParameterCheck_def)
    then show ?thesis using pop_refines [OF q z] Pop by simp
  qed
qed

interpretation queue: functional_refinement "queue_free_running h" "queue_abs h" "queue_step h" deque_step queue_op_ok for h
  by unfold_locales (rule queue_step_refines)

section \<open>Handing a message to a blocked reader\<close>

lemma queue_more:
  assumes "kstate.more s' = kstate.more s"
  shows "g_allQueue s' = g_allQueue s" "queueLimit s' = queueLimit s" "secMax s' = secMax s" "g_freeQueueList s' = g_freeQueueList s"
  using assms by (cases s; cases s'; simp)+

lemma truncate_upd_queue [simp]: "kstate.truncate (upd_queue i f s) = kstate.truncate s"
  by (simp add: upd_queue_def kstate.truncate_def)

lemmas upd_queue_sched [simp] = same_sched [OF truncate_upd_queue] truncateD [OF truncate_upd_queue]

text \<open>The transfer that finds a waiter of the other kind.\<close>

lemma transfer_wakes:
  assumes call: "call_ok s" and w: "lists s (rw_list i (if OS_QUEUE_READ_WRITE_GET type = 0 then 1 else 0)) = t # ts" "wakeable s t"
    and op: "OsQueueBufferOperate (secMax s) (g_allQueue s i) type buf z = Some (c, buf', z')"
  shows "\<exists>s'. queue_transfer i type buf z ret s = Some (s', QueueRet LOS_OK buf' z') \<and> k_inv s' \<and> run_ok s' \<and>
    kstate.more s' = kstate.more (upd_queue i (\<lambda>_. c) s) \<and>
    waiting s' (rw_list i (if OS_QUEUE_READ_WRITE_GET type = 0 then 1 else 0)) = ts \<and>
    (\<forall>h. h \<noteq> rw_list i (if OS_QUEUE_READ_WRITE_GET type = 0 then 1 else 0) \<longrightarrow> waiting s' h = waiting s h) \<and>
    (has (status_of s t) OS_TASK_STATUS_SUSPENDED \<or> ready_hpf s' t \<or> currTask s' = t)"
proof -
  let ?h = "rw_list i (if OS_QUEUE_READ_WRITE_GET type = 0 then 1 else 0)" let ?s1 = "upd_queue i (\<lambda>_. c) s"
  have call': "call_ok ?s1" using call by simp
  have wl: "waiting ?s1 ?h = t # ts" using w(1) by (simp add: waiting_lists rw_list_def)
  then have t: "t \<in> set (waiting ?s1 ?h)" "wakeable ?s1 t" using w(2) by simp_all
  from wake_call [OF call' t] obtain s2 where s2: "ops_wake t (OsTaskWakeClearPendMask t ?s1) = Some s2" "call_ok s2" "env_of s2 = env_of ?s1"
    "\<forall>h'. waiting s2 h' = (if h' = ?h then remove1 t (waiting ?s1 ?h) else waiting ?s1 h')" "runnable s2 t"
    "woken ((tcb ?s1 t)\<lparr>waitID := 0, waitFlag := 0\<rparr>) (tcb s2 t)" by blast
  from Schedule_call [OF s2(2)] obtain s' where s': "LOS_Schedule s2 = Some s'" "k_inv s'" "run_ok s'" "kstate.more s' = kstate.more s2"
    "\<forall>h. wait_list h \<longrightarrow> lists s' h = lists s2 h" "\<forall>t. ready_hpf s' t \<or> t = currTask s' \<longleftrightarrow> ready_hpf s2 t \<or> t = currTask s2" by blast
  have "queue_transfer i type buf z ret s = Some (s', QueueRet LOS_OK buf' z')"
    using op w(1) s2(1) s'(1) by (simp add: queue_transfer_def Let_def)
  moreover have "waiting s' h = waiting s2 h" for h using s'(5) by (simp add: waiting_def waiters_of_def)
  moreover have "has (status_of s t) OS_TASK_STATUS_SUSPENDED \<or> ready_hpf s' t \<or> currTask s' = t"
    using s2(5,6) s'(6) by (auto simp: runnable_def woken_def)
  ultimately show ?thesis using s'(2-4) env_ofD(7) [OF s2(3)] s2(4) wl by simp
qed

text \<open>A write that finds a reader waiting at an empty queue leaves the message in the ring, promised to that reader.\<close>

lemma write_to_reader:
  assumes call: "call_ok s" and live: "queue_live s h" "0xFFFF \<le> secMax s"
    and c: "c = g_allQueue s (GET_QUEUE_HANDLE h)" "ring_ok c 0" "readWriteableCnt c 1 \<noteq> 0"
    and w: "lists s (QueueList (GET_QUEUE_HANDLE h) 0) = t # ts" "wakeable s t"
    and b: "b \<noteq> []" "length b + 4 \<le> unat (queueSize c)" and int: "timeout = LOS_NO_WAIT \<or> \<not> intActive s"
  shows "\<exists>s' c'. LOS_QueueWriteCopy h (Some b) (of_nat (length b)) timeout s = Some (s', QueueRet LOS_OK b (of_nat (length b))) \<and> k_inv s' \<and> run_ok s' \<and>
    waiting s' (QueueList (GET_QUEUE_HANDLE h) 0) = ts \<and> (has (status_of s t) OS_TASK_STATUS_SUSPENDED \<or> ready_hpf s' t \<or> currTask s' = t) \<and>
    g_allQueue s' (GET_QUEUE_HANDLE h) = c' \<and> secMax s' = secMax s \<and> ring_ok c' (Suc 0) \<and> ring_msgs c' (Suc 0) = [b] \<and>
    queueLen c' = queueLen c \<and> readWriteableCnt c' = (readWriteableCnt c)(1 := readWriteableCnt c 1 - 1)"
proof -
  let ?i = "GET_QUEUE_HANDLE h" let ?z = "of_nat (length b) :: u32"
  have "length b < 2 ^ 16" using b(2) unsigned_less [of "queueSize c", where ?'a = nat] by simp
  then have z: "unat ?z = length b" by (simp add: unsigned_of_nat take_bit_nat_eq_self)
  then have z0: "?z \<noteq> 0" using b(1) by auto
  have sz: "4 < unat (queueSize c)" using c(2) by (simp add: ring_ok_def)
  define c1 where "c1 = c\<lparr>readWriteableCnt := (readWriteableCnt c)(1 := readWriteableCnt c 1 - 1)\<rparr>"
  define s1 where "s1 = upd_queue ?i (\<lambda>c. c\<lparr>readWriteableCnt := (readWriteableCnt c)(1 := readWriteableCnt c 1 - 1)\<rparr>) s"
  have c1: "ring_ok c1 0" using same_queue_cnt [OF c(2)] by (simp add: c1_def)
  have s1: "g_allQueue s1 ?i = c1" "call_ok s1" "wakeable s1 t" "lists s1 (QueueList ?i 0) = t # ts" "secMax s1 = secMax s" "status_of s1 t = status_of s t"
    using call w by (simp_all add: s1_def c1_def c(1))
  have "0 < unat (queueLen c1)" using c1 by (auto simp: ring_ok_def word_less_nat_alt)
  moreover have "unat ?z + 4 \<le> unat (queueSize c1)" "unat ?z \<le> length b" using b(2) z by (simp_all add: c1_def)
  ultimately obtain c' where c': "OsQueueBufferOperate (secMax s1) c1 OS_QUEUE_WRITE_TAIL b ?z = Some (c', b, ?z)" "ring_ok c' (Suc 0)"
    "ring_msgs c' (Suc 0) = [b]" "same_queue c' c1"
    using write_tail_ring [OF c1, of ?z b "secMax s1"] live(2) z s1(5) by (auto simp: ring_msgs_def)
  have "OsQueueOperateParamCheck c h OS_QUEUE_WRITE_TAIL ?z = LOS_OK"
    using live(1) size_check [OF sz, of ?z] b(2) z by (auto simp: OsQueueOperateParamCheck_def queue_live_def c(1))
  then have "LOS_QueueWriteCopy h (Some b) ?z timeout s = queue_transfer ?i OS_QUEUE_WRITE_TAIL b ?z LOS_OK s1"
    using live(1) z0 c(3) int by (auto simp: LOS_QueueWriteCopy_def OsQueueWriteParameterCheck_def OsQueueOperate_def queue_live_def s1_def c(1) Let_def)
  moreover obtain s' where "queue_transfer ?i OS_QUEUE_WRITE_TAIL b ?z LOS_OK s1 = Some (s', QueueRet LOS_OK b ?z)" "k_inv s'" "run_ok s'"
    "kstate.more s' = kstate.more (upd_queue ?i (\<lambda>_. c') s1)" "waiting s' (QueueList ?i 0) = ts"
    "has (status_of s t) OS_TASK_STATUS_SUSPENDED \<or> ready_hpf s' t \<or> currTask s' = t"
    using transfer_wakes [OF s1(2), of ?i OS_QUEUE_WRITE_TAIL t ts b ?z c' b ?z LOS_OK] s1 c'(1) by auto
  moreover from this have "g_allQueue s' ?i = c'" "secMax s' = secMax s" using queue_more [of s' "upd_queue ?i (\<lambda>_. c') s1"] s1(5) by simp_all
  ultimately show ?thesis using c' by (auto simp: same_queue_def c1_def)
qed

text \<open>The reader, when it runs again.\<close>

lemma reader_resumes:
  assumes c: "c = g_allQueue s (GET_QUEUE_HANDLE h)" "ring_ok c (Suc 0)" "ring_msgs c (Suc 0) = [b]" and s: "0xFFFF \<le> secMax s"
    and nw: "lists s (QueueList (GET_QUEUE_HANDLE h) 1) = []" and t: "\<not> has (status_of s t) OS_TASK_STATUS_TIMEOUT" and z: "z \<le> 0xFFFF - 4"
  shows "\<exists>s' c'. OsQueueOperate_resume t h OS_QUEUE_READ_HEAD buf z s =
      Some (s', QueueRet LOS_OK (take (unat z) b @ drop (min (unat z) (length b)) buf) (of_nat (min (unat z) (length b)))) \<and>
    g_allQueue s' (GET_QUEUE_HANDLE h) = c' \<and> ring_ok c' 0 \<and> readWriteableCnt c' = (readWriteableCnt c)(1 := readWriteableCnt c 1 + 1)"
proof -
  let ?i = "GET_QUEUE_HANDLE h" let ?out = "take (unat z) b @ drop (min (unat z) (length b)) buf" let ?k = "of_nat (min (unat z) (length b)) :: u32"
  have "unat z \<le> 0xFFFF" using z by (simp add: word_le_nat_alt)
  from read_ring [OF c(2) this s c(3)] obtain c' where c': "OsQueueBufferOperate (secMax s) c OS_QUEUE_READ_HEAD buf z = Some (c', ?out, ?k)"
    "ring_ok c' 0" "same_queue c' c" by blast
  have "lists s (rw_list ?i (if OS_QUEUE_READ_WRITE_GET OS_QUEUE_READ_HEAD = 0 then 1 else 0)) = []" using nw by simp
  from transfer_counts [OF this c'(1) [unfolded c(1)], of LOS_OK]
  have "OsQueueOperate_resume t h OS_QUEUE_READ_HEAD buf z s =
    Some (upd_queue ?i (\<lambda>_. c'\<lparr>readWriteableCnt := (readWriteableCnt c')(1 := readWriteableCnt c' 1 + 1)\<rparr>) s, QueueRet LOS_OK ?out ?k)"
    using t by (simp add: OsQueueOperate_resume_def wait_resume_def queue_waited_def)
  moreover have "readWriteableCnt c' = readWriteableCnt c" using c'(3) by (simp add: same_queue_def)
  ultimately show ?thesis using same_queue_cnt(1) [OF c'(2)] by simp
qed

section \<open>A concrete queue\<close>

text \<open>Queue 0 has two nodes for messages of up to four bytes and is empty; in \<open>queue_demo_wait\<close> task 2 waits to read.\<close>

definition queue_demo_cb :: "nat \<Rightarrow> LosQueueCB" where
  "queue_demo_cb i = \<lparr>queueHandle = Some (\<lambda>_. 0), queueState = OS_QUEUE_INUSED, queueLen = 2, queueSize = 8, queueID = of_nat i,
    queueHead = 0, queueTail = 0, readWriteableCnt = (\<lambda>rw. if rw = 0 then 0 else 2)\<rparr>"

definition queue_demo :: queue_kstate where
  "queue_demo = demo (queue_kstate.fields queue_demo_cb [] 1 0x7FFFFFFF)"

definition queue_demo_wait :: queue_kstate where
  "queue_demo_wait = demo_wait (QueueList 0 0) (queue_kstate.fields queue_demo_cb [] 1 0x7FFFFFFF)"

lemma queue_demo_more:
  assumes "kstate.more s = queue_kstate.fields f u l x"
  shows "g_allQueue s = f" "g_freeQueueList s = u" "queueLimit s = l" "secMax s = x"
  using assms by (cases s; simp add: queue_kstate.fields_def)+

lemmas queue_demo_fields [simp] =
  queue_demo_more [of queue_demo, unfolded queue_demo_def, OF demo_simps(9), folded queue_demo_def]
  queue_demo_more [of queue_demo_wait, unfolded queue_demo_wait_def, OF demo_wait_simps(2), folded queue_demo_wait_def]

lemma queue_demo_ok: "queue_free_running 0 queue_demo" "queue_abs 0 queue_demo = (2, 4, [])" "GET_QUEUE_HANDLE 0 = 0"
  "queue_live queue_demo_wait 0" "ring_ok (queue_demo_cb 0) 0" "call_ok queue_demo_wait" "wakeable queue_demo_wait 2"
  "lists queue_demo_wait (QueueList 0 0) = [2]" "\<not> intActive queue_demo_wait"
proof -
  show g: "GET_QUEUE_HANDLE 0 = 0" by (simp add: GET_QUEUE_INDEX_def split_index_def)
  show ring: "ring_ok (queue_demo_cb 0) 0" by (simp add: ring_ok_def queue_demo_cb_def)
  show "queue_live queue_demo_wait 0" using g by (simp add: queue_live_def queue_demo_cb_def)
  show "queue_free_running 0 queue_demo" unfolding queue_free_running_def queue_live_def g
    using ring by (simp add: Let_def) (simp add: queue_demo_cb_def queue_demo_def)
  show "queue_abs 0 queue_demo = (2, 4, [])" unfolding queue_abs_def g by (simp add: Let_def queue_demo_cb_def ring_msgs_def)
  show "call_ok queue_demo_wait" "wakeable queue_demo_wait 2" "lists queue_demo_wait (QueueList 0 0) = [2]" "\<not> intActive queue_demo_wait"
    using demo_wait_call [of "QueueList 0 0"] by (simp_all add: queue_demo_wait_def)
qed

section \<open>Properties\<close>

text \<open>C1. A message queue is a bounded double-ended queue of messages: any sequence of non-blocking writes at the
  tail, writes at the head and reads on a queue nobody waits for returns, gives exactly the answers of the abstract
  queue (the messages in order and unchanged, cut to the reader's buffer, and the full, empty and
  too-big errors), and ends in the state that represents the abstract result; the ring never wraps
  wrongly and a count never leaves its range.\<close>

theorem queue_refines_deque:
  assumes "queue_free_running h s" and "\<forall>op \<in> set calls. queue_op_ok op"
  shows "\<exists>s'. run_ops (queue_step h) calls s = Some (s', snd (spec_ops deque_step calls (queue_abs h s))) \<and>
    queue_free_running h s' \<and> queue_abs h s' = fst (spec_ops deque_step calls (queue_abs h s))"
  using assms by (rule queue.run_refines)

theorem queue_refines_deque_witness:
  "\<exists>s'. run_ops (queue_step 0) [PushBack [1, 2], PushFront [3], PushBack [4], Pop 4, Pop 1, Pop 4] queue_demo =
    Some (s', [(LOS_OK, []), (LOS_OK, []), (LOS_ERRNO_QUEUE_ISFULL, []), (LOS_OK, [3]), (LOS_OK, [1]), (LOS_ERRNO_QUEUE_ISEMPTY, [])])"
  using queue_refines_deque [OF queue_demo_ok(1), of "[PushBack [1, 2], PushFront [3], PushBack [4], Pop 4, Pop 1, Pop 4]"]
  by (auto simp: queue_demo_ok(2) deque_push_def)

text \<open>C27. A blocked reader receives the message: a write to an empty queue with a waiting reader succeeds, takes the first
  reader out of the list and makes it ready or running unless it is suspended, and when that reader runs again, with
  the queue as the write left it and no writer waiting, its read returns exactly the written bytes, cut to its buffer,
  and gives the node back.\<close>

theorem queue_message_delivered:
  assumes "call_ok s" and "queue_live s h" and "0xFFFF \<le> secMax s" and "ring_ok (g_allQueue s (GET_QUEUE_HANDLE h)) 0"
    and "readWriteableCnt (g_allQueue s (GET_QUEUE_HANDLE h)) 1 \<noteq> 0" and "lists s (QueueList (GET_QUEUE_HANDLE h) 0) = t # ts" and "wakeable s t"
    and "b \<noteq> []" and "length b + 4 \<le> unat (queueSize (g_allQueue s (GET_QUEUE_HANDLE h)))" and "timeout = LOS_NO_WAIT \<or> \<not> intActive s"
  shows "\<exists>s'. LOS_QueueWriteCopy h (Some b) (of_nat (length b)) timeout s = Some (s', QueueRet LOS_OK b (of_nat (length b))) \<and>
    waiting s' (QueueList (GET_QUEUE_HANDLE h) 0) = ts \<and> (has (status_of s t) OS_TASK_STATUS_SUSPENDED \<or> ready_hpf s' t \<or> currTask s' = t) \<and>
    (\<forall>s2 buf z. kstate.more s2 = kstate.more s' \<and> lists s2 (QueueList (GET_QUEUE_HANDLE h) 1) = [] \<and>
        \<not> has (status_of s2 t) OS_TASK_STATUS_TIMEOUT \<and> z \<le> 0xFFFF - 4 \<longrightarrow>
      (\<exists>s3. OsQueueOperate_resume t h OS_QUEUE_READ_HEAD buf z s2 =
          Some (s3, QueueRet LOS_OK (take (unat z) b @ drop (min (unat z) (length b)) buf) (of_nat (min (unat z) (length b)))) \<and>
        readWriteableCnt (g_allQueue s3 (GET_QUEUE_HANDLE h)) = readWriteableCnt (g_allQueue s (GET_QUEUE_HANDLE h))))"
proof -
  let ?i = "GET_QUEUE_HANDLE h" let ?c = "g_allQueue s ?i"
  obtain s' c' where s': "LOS_QueueWriteCopy h (Some b) (of_nat (length b)) timeout s = Some (s', QueueRet LOS_OK b (of_nat (length b)))"
    "waiting s' (QueueList ?i 0) = ts" "has (status_of s t) OS_TASK_STATUS_SUSPENDED \<or> ready_hpf s' t \<or> currTask s' = t"
    and c': "g_allQueue s' ?i = c'" "secMax s' = secMax s" "ring_ok c' (Suc 0)" "ring_msgs c' (Suc 0) = [b]"
      "readWriteableCnt c' = (readWriteableCnt ?c)(1 := readWriteableCnt ?c 1 - 1)"
    using write_to_reader [OF assms(1-3) refl assms(4-10)] by blast
  have "\<exists>s3. OsQueueOperate_resume t h OS_QUEUE_READ_HEAD buf z s2 =
        Some (s3, QueueRet LOS_OK (take (unat z) b @ drop (min (unat z) (length b)) buf) (of_nat (min (unat z) (length b)))) \<and>
      readWriteableCnt (g_allQueue s3 ?i) = readWriteableCnt ?c"
    if s2: "kstate.more s2 = kstate.more s'" "lists s2 (QueueList ?i 1) = []" "\<not> has (status_of s2 t) OS_TASK_STATUS_TIMEOUT" "z \<le> 0xFFFF - 4" for s2 buf z
  proof -
    have q: "c' = g_allQueue s2 ?i" "0xFFFF \<le> secMax s2" using queue_more [OF s2(1)] c'(1,2) assms(3) by simp_all
    from reader_resumes [OF q(1) c'(3,4) q(2) s2(2-4)] c'(5) show ?thesis by auto
  qed
  with s' show ?thesis by blast
qed

theorem queue_message_delivered_witness:
  "\<exists>s' s3. LOS_QueueWriteCopy 0 (Some [7, 8]) 2 LOS_NO_WAIT queue_demo_wait = Some (s', QueueRet LOS_OK [7, 8] 2) \<and>
    OsQueueOperate_resume 2 0 OS_QUEUE_READ_HEAD [0, 0, 0] 3 (demo (kstate.more s')) = Some (s3, QueueRet LOS_OK [7, 8, 0] 2)"
proof -
  let ?b = "[7, 8] :: 8 word list" and ?h = "0 :: 32 word"
  obtain s' where s': "LOS_QueueWriteCopy ?h (Some ?b) (of_nat (length ?b)) LOS_NO_WAIT queue_demo_wait = Some (s', QueueRet LOS_OK ?b (of_nat (length ?b)))"
    and r: "\<forall>s2 buf z. kstate.more s2 = kstate.more s' \<and> lists s2 (QueueList (GET_QUEUE_HANDLE ?h) 1) = [] \<and>
        \<not> has (status_of s2 2) OS_TASK_STATUS_TIMEOUT \<and> z \<le> 0xFFFF - 4 \<longrightarrow>
      (\<exists>s3. OsQueueOperate_resume 2 ?h OS_QUEUE_READ_HEAD buf z s2 =
          Some (s3, QueueRet LOS_OK (take (unat z) ?b @ drop (min (unat z) (length ?b)) buf) (of_nat (min (unat z) (length ?b)))) \<and>
        readWriteableCnt (g_allQueue s3 (GET_QUEUE_HANDLE ?h)) = readWriteableCnt (g_allQueue queue_demo_wait (GET_QUEUE_HANDLE ?h)))"
  proof -
    have "call_ok queue_demo_wait" "queue_live queue_demo_wait ?h" "0xFFFF \<le> secMax queue_demo_wait"
      "ring_ok (g_allQueue queue_demo_wait (GET_QUEUE_HANDLE ?h)) 0" "readWriteableCnt (g_allQueue queue_demo_wait (GET_QUEUE_HANDLE ?h)) 1 \<noteq> 0"
      "lists queue_demo_wait (QueueList (GET_QUEUE_HANDLE ?h) 0) = [2]" "wakeable queue_demo_wait 2"
      "?b \<noteq> []" "length ?b + 4 \<le> unat (queueSize (g_allQueue queue_demo_wait (GET_QUEUE_HANDLE ?h)))"
      using queue_demo_ok by (simp_all add: queue_demo_cb_def)
    from queue_message_delivered [OF this, of LOS_NO_WAIT] that show thesis by blast
  qed
  have "\<not> has (status_of (demo (kstate.more s')) 2) OS_TASK_STATUS_TIMEOUT" by (simp add: flag_simps)
  then have "\<exists>s3. OsQueueOperate_resume 2 0 OS_QUEUE_READ_HEAD [0, 0, 0] 3 (demo (kstate.more s')) = Some (s3, QueueRet LOS_OK [7, 8, 0] 2)"
    using r [rule_format, of "demo (kstate.more s')" 3 "[0, 0, 0]"] by auto
  with s' show ?thesis by auto
qed

end
