(* ===== verification/LosLockWait.thy ===== *)
theory LosLockWait
  imports LosSchedCall
begin

text \<open>
  The waiters of a lock: the order \<open>OsSchedLockPendFindPos\<close> (\<^verbatim>\<open>kernel/base/sched/los_sched.c\<close>) keeps them in,
  which the mutex and the read-write lock share, and waiting at the position it returns.
\<close>

section \<open>The order of the waiters\<close>

text \<open>Tasks of one priority policy are compared by their priorities.\<close>

definition same_policy :: "u16 \<Rightarrow> LosTaskCB \<Rightarrow> bool" where
  "same_policy p c \<longleftrightarrow> ops c = g_priorityOps \<and> policy (sp c) = p"

lemma compare_prio:
  assumes "same_policy p c" and "same_policy p c'"
  shows "OsSchedParamCompare c c' \<le> 0 \<longleftrightarrow> prio_le c c'" and "OsSchedParamCompare c c' < 0 \<longleftrightarrow> \<not> prio_le c' c"
  using assms by (auto simp: same_policy_def OsSchedParamCompare_def ops_schedParamCompare_def HPFParamCompare_def prio_le_def
    word_less_def word_le_def word_uint_eq_iff)

lemma prio_le_trans: "prio_le a b \<Longrightarrow> prio_le b c \<Longrightarrow> prio_le a c"
  by (auto simp: prio_le_def)

lemma prio_le_total: "\<not> prio_le a b \<Longrightarrow> prio_le b a"
  by (auto simp: prio_le_def)

text \<open>The position is always found.\<close>

lemma FindPosSub_Some:
  assumes "ws \<noteq> []" and "0 < OsSchedParamCompare (tcbs (last ws)) run"
  shows "\<exists>k \<le> length ws. SchedLockPendFindPosSub tcbs run ws i = Some (i + k)"
  using assms
proof (induction ws arbitrary: i)
  case (Cons x xs)
  show ?case
  proof (cases "OsSchedParamCompare (tcbs x) run < 0")
    case True
    with Cons.prems have "xs \<noteq> []" "0 < OsSchedParamCompare (tcbs (last xs)) run" by (auto split: if_splits)
    from Cons.IH [OF this, of "i + 1"] obtain k where "k \<le> length xs" "SchedLockPendFindPosSub tcbs run xs (i + 1) = Some (i + 1 + k)" by blast
    with True show ?thesis by (intro exI [of _ "Suc k"]) simp
  next
    case False
    then show ?thesis
      by (cases "0 < OsSchedParamCompare (tcbs x) run") (auto simp: Let_def intro: exI [of _ 0] exI [of _ 1])
  qed
qed simp

lemma FindPos_Some: "\<exists>k \<le> length ws. OsSchedLockPendFindPos tcbs run ws = Some k"
proof (cases "ws = [] \<or> 0 < OsSchedParamCompare (tcbs (hd ws)) run \<or> OsSchedParamCompare (tcbs (last ws)) run \<le> 0")
  case False
  with FindPosSub_Some [of ws tcbs run 0] show ?thesis by (auto simp: OsSchedLockPendFindPos_def)
qed (auto simp: OsSchedLockPendFindPos_def)

text \<open>In a list ordered by priority it is a position the new task belongs to.\<close>

definition pos_ok :: "(nat \<Rightarrow> LosTaskCB) \<Rightarrow> LosTaskCB \<Rightarrow> nat list \<Rightarrow> nat \<Rightarrow> bool" where
  "pos_ok tcbs run ws k \<longleftrightarrow> k \<le> length ws \<and> (\<forall>t \<in> set (take k ws). prio_le (tcbs t) run) \<and> (\<forall>t \<in> set (drop k ws). prio_le run (tcbs t))"

lemma FindPosSub_pos:
  assumes "ws \<noteq> []" and "0 < OsSchedParamCompare (tcbs (last ws)) run" and "\<forall>t \<in> set ws. same_policy p (tcbs t)" and "same_policy p run"
    and "sorted_wrt prio_le (map tcbs ws)"
  shows "\<exists>k. SchedLockPendFindPosSub tcbs run ws i = Some (i + k) \<and> pos_ok tcbs run ws k"
  using assms
proof (induction ws arbitrary: i)
  case (Cons x xs)
  have x: "OsSchedParamCompare (tcbs x) run \<le> 0 \<longleftrightarrow> prio_le (tcbs x) run" "OsSchedParamCompare (tcbs x) run < 0 \<longleftrightarrow> \<not> prio_le run (tcbs x)"
    using compare_prio Cons.prems(3,4) by auto
  have le: "\<forall>t \<in> set xs. prio_le (tcbs x) (tcbs t)" using Cons.prems(5) by simp
  consider "OsSchedParamCompare (tcbs x) run < 0" | "OsSchedParamCompare (tcbs x) run = 0" | "0 < OsSchedParamCompare (tcbs x) run" by linarith
  then show ?case
  proof cases
    case 1
    with Cons.prems have "xs \<noteq> []" "0 < OsSchedParamCompare (tcbs (last xs)) run" by (auto split: if_splits)
    from Cons.IH [OF this, of "i + 1"] Cons.prems(3-5) obtain k where "SchedLockPendFindPosSub tcbs run xs (i + 1) = Some (i + 1 + k)" "pos_ok tcbs run xs k"
      by auto
    with 1 x show ?thesis by (intro exI [of _ "Suc k"]) (auto simp: pos_ok_def)
  next
    case 2
    with x le have "pos_ok tcbs run (x # xs) 1" by (auto simp: pos_ok_def intro: prio_le_trans)
    with 2 show ?thesis by (intro exI [of _ 1]) simp
  next
    case 3
    with x have "prio_le run (tcbs x)" using prio_le_total by (metis linorder_not_le)
    with le have "pos_ok tcbs run (x # xs) 0" by (auto simp: pos_ok_def intro: prio_le_trans)
    with 3 show ?thesis by (intro exI [of _ 0]) simp
  qed
qed simp

lemma FindPos_pos:
  assumes "\<forall>t \<in> set ws. same_policy p (tcbs t)" and "same_policy p run" and "sorted_wrt prio_le (map tcbs ws)"
  shows "\<exists>k. OsSchedLockPendFindPos tcbs run ws = Some k \<and> pos_ok tcbs run ws k"
proof (cases "ws = []")
  case False
  have c: "OsSchedParamCompare (tcbs t) run \<le> 0 \<longleftrightarrow> prio_le (tcbs t) run" if "t \<in> set ws" for t
    using compare_prio(1) assms(1,2) that by blast
  have first: "pos_ok tcbs run ws 0" if "0 < OsSchedParamCompare (tcbs (hd ws)) run"
  proof -
    have "prio_le run (tcbs (hd ws))" using that c [OF hd_in_set [OF False]] prio_le_total by auto
    moreover have "\<forall>t \<in> set ws. t = hd ws \<or> prio_le (tcbs (hd ws)) (tcbs t)" using assms(3) False by (cases ws) auto
    ultimately show ?thesis by (auto simp: pos_ok_def intro: prio_le_trans)
  qed
  have final: "pos_ok tcbs run ws (length ws)" if "OsSchedParamCompare (tcbs (last ws)) run \<le> 0"
  proof -
    have "prio_le (tcbs (last ws)) run" using that c [OF last_in_set [OF False]] by simp
    moreover have "\<forall>t \<in> set ws. t = last ws \<or> prio_le (tcbs t) (tcbs (last ws))"
      using assms(3) False by (cases ws rule: rev_cases) (auto simp: sorted_wrt_append)
    ultimately show ?thesis by (auto simp: pos_ok_def intro: prio_le_trans)
  qed
  from first final FindPosSub_pos [OF False _ assms(1,2,3), of 0] show ?thesis using False by (auto simp: OsSchedLockPendFindPos_def)
qed (auto simp: OsSchedLockPendFindPos_def pos_ok_def)

lemma sorted_insert_after:
  assumes "sorted_wrt prio_le (map tcbs ws)" and "pos_ok tcbs (tcbs run) ws k"
  shows "sorted_wrt prio_le (map tcbs (insert_after k run ws))"
proof -
  have "sorted_wrt prio_le (map tcbs (take k ws) @ map tcbs (drop k ws))" using assms(1) by (metis append_take_drop_id map_append)
  with assms(2) show ?thesis by (auto simp: insert_after_def pos_ok_def sorted_wrt_append)
qed

section \<open>Waiting for a lock\<close>

lemma lock_wait:
  assumes call: "call_ok s" and lock: "taskLockCnt s = 0" and h: "wait_list h"
    and time: "ticks = LOS_WAIT_FOREVER \<or> OS_SCHED_TICK_TO_CYCLE ticks s + clock s \<noteq> OS_SORT_LINK_INVALID_TIME"
  shows "\<exists>k s'. OsSchedLockPendFindPos (tcb s) (tcb s (currTask s)) (lists s h) = Some k \<and>
    ops_wait (currTask s) h k ticks s = Some (s', WaitBlocked) \<and> k_inv s' \<and> run_ok s' \<and>
    currTask s' \<noteq> currTask s \<and> kstate.more s' = kstate.more s \<and>
    waiting s' h = insert_after k (currTask s) (waiting s h) \<and> (\<forall>h'. h' \<noteq> h \<longrightarrow> waiting s' h' = waiting s h')"
proof -
  obtain k where k: "OsSchedLockPendFindPos (tcb s) (tcb s (currTask s)) (lists s h) = Some k" using FindPos_Some by blast
  let ?c = "tcb s (currTask s)"
  have "OsTaskWaitSetPendMask (waitFlag ?c) (waitID ?c) s = s" by (simp add: OsTaskWaitSetPendMask_def upd_task_def)
  with wait_call [OF call lock h time, of k "waitFlag ?c" "waitID ?c"] k show ?thesis by auto
qed

section \<open>Properties\<close>

text \<open>C25. The waiters of a lock stay ordered by priority: in a list of tasks of one priority policy that is ordered by
  priority, \<open>OsSchedLockPendFindPos\<close> always finds a position, and linking the running task there keeps the list
  ordered; when the task is not more urgent than the last waiter it goes to the end.\<close>

theorem lock_waiters_ordered:
  assumes "\<forall>t \<in> set ws. same_policy p (tcbs t)" and "same_policy p (tcbs run)" and "sorted_wrt prio_le (map tcbs ws)"
  shows "\<exists>k \<le> length ws. OsSchedLockPendFindPos tcbs (tcbs run) ws = Some k \<and> sorted_wrt prio_le (map tcbs (insert_after k run ws)) \<and>
    (ws \<noteq> [] \<and> prio_le (tcbs (last ws)) (tcbs run) \<and> \<not> prio_le (tcbs run) (tcbs (hd ws)) \<longrightarrow> k = length ws)"
proof -
  obtain k where k: "OsSchedLockPendFindPos tcbs (tcbs run) ws = Some k" "pos_ok tcbs (tcbs run) ws k" using FindPos_pos [OF assms] by blast
  have "k = length ws" if ws: "ws \<noteq> []" "prio_le (tcbs (last ws)) (tcbs run)" "\<not> prio_le (tcbs run) (tcbs (hd ws))"
  proof -
    have "OsSchedParamCompare (tcbs (last ws)) (tcbs run) \<le> 0" "OsSchedParamCompare (tcbs (hd ws)) (tcbs run) < 0"
      using ws compare_prio assms(1,2) by (meson last_in_set, meson hd_in_set)
    with k(1) ws(1) show ?thesis by (simp add: OsSchedLockPendFindPos_def)
  qed
  with k sorted_insert_after [OF assms(3) k(2)] show ?thesis by (auto simp: pos_ok_def)
qed

theorem lock_waiters_ordered_witness:
  "\<exists>k \<le> 2. OsSchedLockPendFindPos demo_task (demo_task 3) [2, 1] = Some k \<and> sorted_wrt prio_le (map demo_task (insert_after k 3 [2, 1]))"
proof -
  have "\<forall>t \<in> set [2, 1]. same_policy LOS_SCHED_FIFO (demo_task t)" "same_policy LOS_SCHED_FIFO (demo_task 3)"
    "sorted_wrt prio_le (map demo_task [2, 1])" by (simp_all add: same_policy_def prio_le_def demo_policy_def)
  from lock_waiters_ordered [OF this] show ?thesis by (auto simp: numeral_2_eq_2)
qed

end
