(* ===== verification/LosRwlock.thy ===== *)
theory LosRwlock
  imports LosLockWait "HOL-Library.Multiset"
begin

text \<open>
  Read-write locks, \<^verbatim>\<open>kernel/base/ipc/los_rwlock.c\<close>. A lock is named by its address \<open>i\<close>; its waiting readers and
  writers are the lists \<open>RwReadList i\<close> and \<open>RwWriteList i\<close>. A pointer argument is an option, \<open>None\<close> for \<open>NULL\<close>.
  A locking call runs up to the switch to another task; \<open>OsRwlock_resume\<close> is the rest of the call.
\<close>

section \<open>The code\<close>

abbreviation (input) OS_RWLOCK_MAGIC :: u32 where "OS_RWLOCK_MAGIC \<equiv> 0xEFDCA"
abbreviation (input) RWLOCK_COUNT_MASK :: u32 where "RWLOCK_COUNT_MASK \<equiv> 0x00FFFFFF"
abbreviation (input) INT8_MAX :: "8 word" where "INT8_MAX \<equiv> 127"
abbreviation (input) INT8_MIN :: "8 word" where "INT8_MIN \<equiv> 128"

datatype RwlockMode = RWLOCK_NONE_MODE | RWLOCK_READ_MODE | RWLOCK_WRITE_MODE | RWLOCK_READFIRST_MODE | RWLOCK_WRITEFIRST_MODE

text \<open>The two bit fields \<open>magic:24\<close> and \<open>rwCount:8\<close> are signed.\<close>

record LosRwlock =
  rwMagic :: "24 word"
  rwCount :: "8 word"
  writeOwner :: "nat option"

record rw_kstate = kstate +
  rwlocks :: "nat \<Rightarrow> LosRwlock"

definition upd_rwlock :: "nat \<Rightarrow> (LosRwlock \<Rightarrow> LosRwlock) \<Rightarrow> 'a rw_kstate_scheme \<Rightarrow> 'a rw_kstate_scheme" where
  "upd_rwlock i f s = s\<lparr>rwlocks := (rwlocks s)(i := f (rwlocks s i))\<rparr>"

definition rw_magic_ok :: "LosRwlock \<Rightarrow> bool" where
  "rw_magic_ok l \<longleftrightarrow> (scast (rwMagic l) :: u32) AND RWLOCK_COUNT_MASK = OS_RWLOCK_MAGIC"

definition LOS_RwlockIsValid :: "nat option \<Rightarrow> 'a rw_kstate_scheme \<Rightarrow> bool" where
  "LOS_RwlockIsValid rwlock s = (case rwlock of None \<Rightarrow> False | Some i \<Rightarrow> rw_magic_ok (rwlocks s i))"

definition LOS_RwlockInit :: "nat option \<Rightarrow> 'a rw_kstate_scheme \<Rightarrow> 'a rw_kstate_scheme \<times> u32" where
  "LOS_RwlockInit rwlock s =
    (case rwlock of
       None \<Rightarrow> (s, LOS_EINVAL)
     | Some i \<Rightarrow>
         if rw_magic_ok (rwlocks s i) then (s, LOS_EPERM)
         else ((upd_rwlock i (\<lambda>l. l\<lparr>rwCount := 0, writeOwner := None, rwMagic := ucast OS_RWLOCK_MAGIC\<rparr>) s)
                 \<lparr>lists := (lists s)(RwReadList i := [], RwWriteList i := [])\<rparr>, LOS_OK))"

definition LOS_RwlockDestroy :: "nat option \<Rightarrow> 'a rw_kstate_scheme \<Rightarrow> 'a rw_kstate_scheme \<times> u32" where
  "LOS_RwlockDestroy rwlock s =
    (case rwlock of
       None \<Rightarrow> (s, LOS_EINVAL)
     | Some i \<Rightarrow>
         if \<not> rw_magic_ok (rwlocks s i) then (s, LOS_EBADF)
         else if rwCount (rwlocks s i) \<noteq> 0 then (s, LOS_EBUSY)
         else (upd_rwlock i (\<lambda>_. \<lparr>rwMagic = 0, rwCount = 0, writeOwner = None\<rparr>) s, LOS_OK))"

definition OsRwlockCheck :: "nat option \<Rightarrow> 'a rw_kstate_scheme \<Rightarrow> u32" where
  "OsRwlockCheck rwlock s =
    (if rwlock = None then LOS_EINVAL
     else if intActive s then LOS_EINTR
     else if has (status_of s (currTask s)) OS_TASK_FLAG_SYSTEM_TASK then LOS_EPERM
     else LOS_OK)"

definition OsRwlockPriCompare :: "nat \<Rightarrow> listHead \<Rightarrow> 'a rw_kstate_scheme \<Rightarrow> bool" where
  "OsRwlockPriCompare runTask rwList s =
    (case lists s rwList of
       highestTask # _ \<Rightarrow> OsSchedParamCompare (tcb s runTask) (tcb s highestTask) < 0
     | [] \<Rightarrow> True)"

text \<open>What both kinds of locking do when the lock is not available: \<open>self\<close> says that the running task is the write
  owner and may not read.\<close>

definition rw_ret :: "u32 \<Rightarrow> u32" where
  "rw_ret ret = (if ret = LOS_ERRNO_TSK_TIMEOUT then LOS_ETIMEDOUT else ret)"

definition rw_wait :: "nat \<Rightarrow> listHead \<Rightarrow> u32 \<Rightarrow> 'a rw_kstate_scheme \<Rightarrow> ('a rw_kstate_scheme \<times> wait_result) option" where
  "rw_wait runTask rwList timeout s = do {
     node \<leftarrow> OsSchedLockPendFindPos (tcb s) (tcb s runTask) (lists s rwList);
     (s', r) \<leftarrow> ops_wait runTask rwList node timeout s;
     Some (s', case r of WaitBlocked \<Rightarrow> WaitBlocked | WaitRet ret \<Rightarrow> WaitRet (rw_ret ret))
   }"

definition OsRwlock_resume :: "nat \<Rightarrow> 'a rw_kstate_scheme \<Rightarrow> 'a rw_kstate_scheme \<times> u32" where
  "OsRwlock_resume t s = (case wait_resume t s of (s', ret) \<Rightarrow> (s', rw_ret ret))"

definition OsRwlockRdPendOp :: "nat \<Rightarrow> nat \<Rightarrow> u32 \<Rightarrow> 'a rw_kstate_scheme \<Rightarrow> ('a rw_kstate_scheme \<times> wait_result) option" where
  "OsRwlockRdPendOp runTask i timeout s =
    (if 0 \<le> sint (rwCount (rwlocks s i)) \<and> OsRwlockPriCompare runTask (RwWriteList i) s
     then if rwCount (rwlocks s i) = INT8_MAX then Some (s, WaitRet LOS_EINVAL)
          else Some (upd_rwlock i (\<lambda>l. l\<lparr>rwCount := rwCount l + 1\<rparr>) s, WaitRet LOS_OK)
     else if timeout = 0 then Some (s, WaitRet LOS_EINVAL)
     else case OsPreemptableInSched s of
       (s1, False) \<Rightarrow> Some (s1, WaitRet LOS_EDEADLK)
     | (s1, True) \<Rightarrow>
         if writeOwner (rwlocks s1 i) = Some runTask then Some (s1, WaitRet LOS_EINVAL)
         else rw_wait runTask (RwReadList i) timeout s1)"

definition OsRwlockWrPendOp :: "nat \<Rightarrow> nat \<Rightarrow> u32 \<Rightarrow> 'a rw_kstate_scheme \<Rightarrow> ('a rw_kstate_scheme \<times> wait_result) option" where
  "OsRwlockWrPendOp runTask i timeout s =
    (if rwCount (rwlocks s i) = 0
     then Some (upd_rwlock i (\<lambda>l. l\<lparr>rwCount := - 1, writeOwner := Some runTask\<rparr>) s, WaitRet LOS_OK)
     else if sint (rwCount (rwlocks s i)) < 0 \<and> writeOwner (rwlocks s i) = Some runTask
     then if rwCount (rwlocks s i) = INT8_MIN then Some (s, WaitRet LOS_EINVAL)
          else Some (upd_rwlock i (\<lambda>l. l\<lparr>rwCount := rwCount l - 1\<rparr>) s, WaitRet LOS_OK)
     else if timeout = 0 then Some (s, WaitRet LOS_EINVAL)
     else case OsPreemptableInSched s of
       (s1, False) \<Rightarrow> Some (s1, WaitRet LOS_EDEADLK)
     | (s1, True) \<Rightarrow> rw_wait runTask (RwWriteList i) timeout s1)"

definition OsRwlockRdUnsafe :: "nat \<Rightarrow> u32 \<Rightarrow> 'a rw_kstate_scheme \<Rightarrow> ('a rw_kstate_scheme \<times> wait_result) option" where
  "OsRwlockRdUnsafe i timeout s =
    (if \<not> rw_magic_ok (rwlocks s i) then Some (s, WaitRet LOS_EBADF) else OsRwlockRdPendOp (currTask s) i timeout s)"

definition OsRwlockTryRdUnsafe :: "nat \<Rightarrow> u32 \<Rightarrow> 'a rw_kstate_scheme \<Rightarrow> ('a rw_kstate_scheme \<times> wait_result) option" where
  "OsRwlockTryRdUnsafe i timeout s =
    (let runTask = currTask s; l = rwlocks s i
     in if \<not> rw_magic_ok l then Some (s, WaitRet LOS_EBADF)
        else if writeOwner l = Some runTask then Some (s, WaitRet LOS_EINVAL)
        else if 0 \<le> sint (rwCount l) \<and> \<not> OsRwlockPriCompare runTask (RwWriteList i) s then Some (s, WaitRet LOS_EBUSY)
        else if sint (rwCount l) < 0 then Some (s, WaitRet LOS_EBUSY)
        else OsRwlockRdPendOp runTask i timeout s)"

definition OsRwlockWrUnsafe :: "nat \<Rightarrow> u32 \<Rightarrow> 'a rw_kstate_scheme \<Rightarrow> ('a rw_kstate_scheme \<times> wait_result) option" where
  "OsRwlockWrUnsafe i timeout s =
    (if \<not> rw_magic_ok (rwlocks s i) then Some (s, WaitRet LOS_EBADF) else OsRwlockWrPendOp (currTask s) i timeout s)"

definition OsRwlockTryWrUnsafe :: "nat \<Rightarrow> u32 \<Rightarrow> 'a rw_kstate_scheme \<Rightarrow> ('a rw_kstate_scheme \<times> wait_result) option" where
  "OsRwlockTryWrUnsafe i timeout s =
    (let runTask = currTask s; l = rwlocks s i
     in if \<not> rw_magic_ok l then Some (s, WaitRet LOS_EBADF)
        else if 0 < sint (rwCount l) then Some (s, WaitRet LOS_EBUSY)
        else if sint (rwCount l) < 0 \<and> writeOwner l \<noteq> Some runTask then Some (s, WaitRet LOS_EBUSY)
        else OsRwlockWrPendOp runTask i timeout s)"

definition LOS_RwlockRdLock :: "nat option \<Rightarrow> u32 \<Rightarrow> 'a rw_kstate_scheme \<Rightarrow> ('a rw_kstate_scheme \<times> wait_result) option" where
  "LOS_RwlockRdLock rwlock timeout s =
    (if OsRwlockCheck rwlock s \<noteq> LOS_OK then Some (s, WaitRet (OsRwlockCheck rwlock s)) else OsRwlockRdUnsafe (the rwlock) timeout s)"

definition LOS_RwlockTryRdLock :: "nat option \<Rightarrow> 'a rw_kstate_scheme \<Rightarrow> ('a rw_kstate_scheme \<times> wait_result) option" where
  "LOS_RwlockTryRdLock rwlock s =
    (if OsRwlockCheck rwlock s \<noteq> LOS_OK then Some (s, WaitRet (OsRwlockCheck rwlock s)) else OsRwlockTryRdUnsafe (the rwlock) 0 s)"

definition LOS_RwlockWrLock :: "nat option \<Rightarrow> u32 \<Rightarrow> 'a rw_kstate_scheme \<Rightarrow> ('a rw_kstate_scheme \<times> wait_result) option" where
  "LOS_RwlockWrLock rwlock timeout s =
    (if OsRwlockCheck rwlock s \<noteq> LOS_OK then Some (s, WaitRet (OsRwlockCheck rwlock s)) else OsRwlockWrUnsafe (the rwlock) timeout s)"

definition LOS_RwlockTryWrLock :: "nat option \<Rightarrow> 'a rw_kstate_scheme \<Rightarrow> ('a rw_kstate_scheme \<times> wait_result) option" where
  "LOS_RwlockTryWrLock rwlock s =
    (if OsRwlockCheck rwlock s \<noteq> LOS_OK then Some (s, WaitRet (OsRwlockCheck rwlock s)) else OsRwlockTryWrUnsafe (the rwlock) 0 s)"

definition OsRwlockGetMode :: "nat list \<Rightarrow> nat list \<Rightarrow> 'a rw_kstate_scheme \<Rightarrow> RwlockMode" where
  "OsRwlockGetMode readList writeList s =
    (if readList = [] \<and> writeList = [] then RWLOCK_NONE_MODE
     else if readList \<noteq> [] \<and> writeList = [] then RWLOCK_READ_MODE
     else if readList = [] \<and> writeList \<noteq> [] then RWLOCK_WRITE_MODE
     else if OsSchedParamCompare (tcb s (hd writeList)) (tcb s (hd readList)) \<le> 0 then RWLOCK_WRITEFIRST_MODE
     else RWLOCK_READFIRST_MODE)"

text \<open>The loop over the remaining readers; the second result tells that the counter has no room for the next one.\<close>

partial_function (option) rw_wake_readers :: "nat \<Rightarrow> RwlockMode \<Rightarrow> 'a rw_kstate_scheme \<Rightarrow> ('a rw_kstate_scheme \<times> bool) option" where
  "rw_wake_readers i mode s =
    (case lists s (RwReadList i) of
       [] \<Rightarrow> Some (s, False)
     | resumedTask # _ \<Rightarrow>
         if mode = RWLOCK_READFIRST_MODE \<and>
           0 \<le> OsSchedParamCompare (tcb s resumedTask) (tcb s (hd (lists s (RwWriteList i)))) then Some (s, False)
         else if rwCount (rwlocks s i) = INT8_MAX then Some (s, True)
         else Option.bind (ops_wake resumedTask (upd_rwlock i (\<lambda>l. l\<lparr>rwCount := rwCount l + 1\<rparr>) s)) (rw_wake_readers i mode))"

text \<open>The third result is \<open>*needSched\<close>, initially false.\<close>

definition OsRwlockPostOp :: "nat \<Rightarrow> 'a rw_kstate_scheme \<Rightarrow> ('a rw_kstate_scheme \<times> u32 \<times> bool) option" where
  "OsRwlockPostOp i s =
    (let s1 = upd_rwlock i (\<lambda>l. l\<lparr>rwCount := 0, writeOwner := None\<rparr>) s;
         mode = OsRwlockGetMode (lists s1 (RwReadList i)) (lists s1 (RwWriteList i)) s1
     in if mode = RWLOCK_NONE_MODE then Some (s1, LOS_OK, False)
        else if mode = RWLOCK_WRITE_MODE \<or> mode = RWLOCK_WRITEFIRST_MODE
        then do {
          let resumedTask = hd (lists s1 (RwWriteList i));
          s2 \<leftarrow> ops_wake resumedTask (upd_rwlock i (\<lambda>l. l\<lparr>rwCount := - 1, writeOwner := Some resumedTask\<rparr>) s1);
          Some (s2, LOS_OK, True)
        }
        else do {
          s2 \<leftarrow> ops_wake (hd (lists s1 (RwReadList i))) (upd_rwlock i (\<lambda>l. l\<lparr>rwCount := 1\<rparr>) s1);
          (s3, full) \<leftarrow> rw_wake_readers i mode s2;
          Some (if full then (s3, LOS_EINVAL, False) else (s3, LOS_OK, True))
        })"

definition OsRwlockUnlockUnsafe :: "nat \<Rightarrow> 'a rw_kstate_scheme \<Rightarrow> ('a rw_kstate_scheme \<times> u32 \<times> bool) option" where
  "OsRwlockUnlockUnsafe i s =
    (let l = rwlocks s i
     in if \<not> rw_magic_ok l then Some (s, LOS_EBADF, False)
        else if rwCount l = 0 then Some (s, LOS_EPERM, False)
        else if sint (rwCount l) < 0 \<and> writeOwner l \<noteq> Some (currTask s) then Some (s, LOS_EPERM, False)
        else if 1 < sint (rwCount l) then Some (upd_rwlock i (\<lambda>l. l\<lparr>rwCount := rwCount l - 1\<rparr>) s, LOS_OK, False)
        else if sint (rwCount l) < - 1 then Some (upd_rwlock i (\<lambda>l. l\<lparr>rwCount := rwCount l + 1\<rparr>) s, LOS_OK, False)
        else OsRwlockPostOp i s)"

definition LOS_RwlockUnLock :: "nat option \<Rightarrow> 'a rw_kstate_scheme \<Rightarrow> ('a rw_kstate_scheme \<times> u32) option" where
  "LOS_RwlockUnLock rwlock s =
    (if OsRwlockCheck rwlock s \<noteq> LOS_OK then Some (s, OsRwlockCheck rwlock s)
     else do {
       (s1, ret, needSched) \<leftarrow> OsRwlockUnlockUnsafe (the rwlock) s;
       s2 \<leftarrow> (if needSched then LOS_Schedule s1 else Some s1);
       Some (s2, ret)
     })"

section \<open>What the calls change\<close>

lemma upd_rwlock_frame [simp]:
  "rwlocks (upd_rwlock i f s) = (rwlocks s)(i := f (rwlocks s i))" "lists (upd_rwlock i f s) = lists s" "tcb (upd_rwlock i f s) = tcb s"
  "currTask (upd_rwlock i f s) = currTask s" "intActive (upd_rwlock i f s) = intActive s" "taskLockCnt (upd_rwlock i f s) = taskLockCnt s"
  "kstate.truncate (upd_rwlock i f s) = kstate.truncate s"
  by (simp_all add: upd_rwlock_def kstate.truncate_def)

lemma rw_more:
  assumes "kstate.more s' = kstate.more s"
  shows "rwlocks s' = rwlocks s"
  using assms by (cases s; cases s'; simp)

lemma upd_rwlock_sched [simp]:
  "call_ok (upd_rwlock i f s) = call_ok s" "waiting (upd_rwlock i f s) = waiting s" "wakeable (upd_rwlock i f s) = wakeable s"
  "k_inv (upd_rwlock i f s) = k_inv s" "run_ok (upd_rwlock i f s) = run_ok s"
  by (simp_all add: same_sched [OF upd_rwlock_frame(7)])

lemma rw_waiting: "lists s (RwReadList i) = waiting s (RwReadList i)" "lists s (RwWriteList i) = waiting s (RwWriteList i)"
  by (simp_all add: waiting_lists)

text \<open>\<open>handed s s' h ts\<close>: from \<open>s\<close> to \<open>s'\<close> the tasks \<open>ts\<close> at the front of \<open>h\<close> were woken, and nothing else changed
  for the scheduler.\<close>

definition handed :: "'a rw_kstate_scheme \<Rightarrow> 'a rw_kstate_scheme \<Rightarrow> listHead \<Rightarrow> nat list \<Rightarrow> bool" where
  "handed s s' h ts \<longleftrightarrow> call_ok s' \<and> currTask s' = currTask s \<and> intActive s' = intActive s \<and> taskLockCnt s' = taskLockCnt s \<and>
    waiting s h = ts @ waiting s' h \<and>
    (\<forall>h'. h' \<noteq> h \<longrightarrow> waiting s' h' = waiting s h') \<and> (\<forall>t. t \<notin> set ts \<longrightarrow> tcb s' t = tcb s t) \<and>
    (\<forall>t \<in> set ts. runnable s' t \<and> (has (status_of s' t) OS_TASK_STATUS_SUSPENDED \<longleftrightarrow> has (status_of s t) OS_TASK_STATUS_SUSPENDED))"

lemma handed_refl: "call_ok s \<Longrightarrow> handed s s h []"
  by (simp add: handed_def)

lemma runnable_tcb: "tcb s' t = tcb s t \<Longrightarrow> runnable s' t \<longleftrightarrow> runnable s t"
  by (simp add: runnable_def ready_hpf_def)

lemma waiting_distinct:
  assumes "call_ok s"
  shows "distinct (waiting s h)" and "t \<in> set (waiting s h) \<Longrightarrow> t \<in> set (waiting s h') \<Longrightarrow> h = h'"
  using sched.distinct_waiters [OF call_okD(1) [OF assms]] sched.one_list [OF call_okD(1) [OF assms]] by (simp_all add: waiting_def)

lemma handed_Cons:
  assumes "call_ok s" and "handed s s1 h [t]" and "handed s1 s2 h ts"
  shows "handed s s2 h (t # ts)"
proof -
  have d: "t \<notin> set ts" using waiting_distinct(1) [OF assms(1), of h] assms(2,3) by (auto simp: handed_def)
  with assms(2,3) have "runnable s2 t" "status_of s2 t = status_of s1 t" using runnable_tcb [of s2 t s1] by (auto simp: handed_def)
  moreover have "\<forall>t' \<in> set ts. status_of s1 t' = status_of s t'" using assms(2) d by (auto simp: handed_def)
  ultimately show ?thesis using assms(2,3) by (auto simp: handed_def)
qed

lemma wake_first:
  assumes call: "call_ok s" and h: "waiting s h = t # ts" and w: "wakeable s t"
  shows "\<exists>s'. ops_wake t (upd_rwlock i f s) = Some s' \<and> handed s s' h [t] \<and> rwlocks s' = (rwlocks s)(i := f (rwlocks s i))"
proof -
  let ?s = "upd_rwlock i f s"
  have "call_ok ?s" "t \<in> set (waiting ?s h)" "wakeable ?s t" using call h w by simp_all
  from wake_task [OF this] obtain s' where s': "ops_wake t ?s = Some s'" "call_ok s'" "env_of s' = env_of ?s"
    "\<forall>h'. waiting s' h' = (if h' = h then remove1 t (waiting s h) else waiting s h')"
    "\<forall>t'. t' \<noteq> t \<longrightarrow> tcb s' t' = tcb s t'" "runnable s' t" "woken (tcb s t) (tcb s' t)" by auto
  have "kstate.more s' = kstate.more ?s" using s'(3) by (simp add: env_of_def)
  from rw_more [OF this] have "rwlocks s' = (rwlocks s)(i := f (rwlocks s i))" by simp
  moreover have "handed s s' h [t]" using s' h env_ofD [OF s'(3)] by (auto simp: handed_def woken_def)
  ultimately show ?thesis using s'(1) by blast
qed

section \<open>The counter\<close>

lemma count_range: "- 128 \<le> sint (c :: 8 word)" "sint (c :: 8 word) \<le> 127"
  using sint_ge [of c] sint_lt [of c] by simp_all

lemma count_add:
  assumes "- 128 \<le> sint (c :: 8 word) + k" and "sint c + k \<le> 127"
  shows "sint (c + word_of_int k) = sint c + k"
proof -
  have "c + word_of_int k = word_of_int (sint c + k)" by simp
  then have "sint (c + word_of_int k) = signed_take_bit 7 (sint c + k)" by (simp only: signed_of_int) simp
  with assms show ?thesis by (simp add: signed_take_bit_int_eq_self)
qed

lemma count_step:
  fixes c :: "8 word"
  shows "c \<noteq> INT8_MAX \<Longrightarrow> sint (c + 1) = sint c + 1" and "c \<noteq> INT8_MIN \<Longrightarrow> sint (c - 1) = sint c - 1"
proof -
  have "sint c = 127 \<Longrightarrow> c = INT8_MAX" "sint c = - 128 \<Longrightarrow> c = INT8_MIN" by (simp_all add: signed_word_eqI)
  then show "c \<noteq> INT8_MAX \<Longrightarrow> sint (c + 1) = sint c + 1" "c \<noteq> INT8_MIN \<Longrightarrow> sint (c - 1) = sint c - 1"
    using count_range [of c] count_add [of c 1] count_add [of c "- 1"] by force+
qed

lemma count_consts [simp]: "sint (0 :: 8 word) = 0" "sint (- 1 :: 8 word) = - 1" "sint INT8_MAX = 127" "sint INT8_MIN = - 128"
  by simp_all

lemma count_eq_iff: "c = 0 \<longleftrightarrow> sint c = 0" "c = INT8_MAX \<longleftrightarrow> sint c = 127" "c = INT8_MIN \<longleftrightarrow> sint c = - 128" for c :: "8 word"
  using word_eq_iff_signed [of c] by (metis count_consts)+

section \<open>Releasing the lock\<close>

text \<open>Who gets the lock: nobody, the first writer, or the readers in front of it.\<close>

definition rw_ahead :: "RwlockMode \<Rightarrow> nat \<Rightarrow> 'a rw_kstate_scheme \<Rightarrow> nat \<Rightarrow> bool" where
  "rw_ahead mode w s t \<longleftrightarrow> mode = RWLOCK_READFIRST_MODE \<longrightarrow> OsSchedParamCompare (tcb s t) (tcb s w) < 0"

lemma wake_readers_spec:
  assumes "call_ok s" and "\<forall>t \<in> set (waiting s (RwReadList i)). wakeable s t" and "0 \<le> sint (rwCount (rwlocks s i))"
    and "mode = RWLOCK_READFIRST_MODE \<Longrightarrow> waiting s (RwWriteList i) \<noteq> []"
  shows "\<exists>s' ts. rw_wake_readers i mode s =
      Some (s', 127 - sint (rwCount (rwlocks s i)) < int (length (takeWhile (rw_ahead mode (hd (waiting s (RwWriteList i))) s) (waiting s (RwReadList i))))) \<and>
    ts = take (nat (127 - sint (rwCount (rwlocks s i)))) (takeWhile (rw_ahead mode (hd (waiting s (RwWriteList i))) s) (waiting s (RwReadList i))) \<and>
    handed s s' (RwReadList i) ts \<and>
    (\<exists>c. rwlocks s' = (rwlocks s)(i := (rwlocks s i)\<lparr>rwCount := c\<rparr>) \<and> sint c = sint (rwCount (rwlocks s i)) + int (length ts))"
  using assms
proof (induction "waiting s (RwReadList i)" arbitrary: s)
  case Nil
  then have "lists s (RwReadList i) = []" by (simp add: rw_waiting)
  then show ?case using Nil handed_refl [OF Nil(2)] count_range [of "rwCount (rwlocks s i)"]
    by (subst rw_wake_readers.simps) (auto intro!: exI [of _ s] exI [of _ "rwCount (rwlocks s i)"])
next
  case (Cons t ts)
  let ?l = "rwlocks s i" let ?w = "hd (waiting s (RwWriteList i))"
  have R: "waiting s (RwReadList i) = t # ts" using Cons.hyps(2) by simp
  have L: "lists s (RwReadList i) = t # ts" "lists s (RwWriteList i) = waiting s (RwWriteList i)" using R by (simp_all add: rw_waiting)
  consider "\<not> rw_ahead mode ?w s t" | "rw_ahead mode ?w s t" "rwCount ?l = INT8_MAX" | "rw_ahead mode ?w s t" "rwCount ?l \<noteq> INT8_MAX" by blast
  then show ?case
  proof cases
    case 1
    then have "rw_wake_readers i mode s = Some (s, False)" by (subst rw_wake_readers.simps) (simp add: L rw_ahead_def not_less)
    then show ?thesis using 1 R handed_refl [OF Cons.prems(1)] count_range [of "rwCount ?l"]
      by (intro exI [of _ s]) (auto intro!: exI [of _ "rwCount ?l"])
  next
    case 2
    then have "rw_wake_readers i mode s = Some (s, True)" by (subst rw_wake_readers.simps) (auto simp: L rw_ahead_def)
    then show ?thesis using 2 R handed_refl [OF Cons.prems(1)] count_range [of "rwCount ?l"]
      by (intro exI [of _ s]) (auto intro!: exI [of _ "rwCount ?l"])
  next
    case 3
    from wake_first [OF Cons.prems(1) R, of i "\<lambda>l. l\<lparr>rwCount := rwCount l + 1\<rparr>"] Cons.prems(2) R obtain s1 where
      s1: "ops_wake t (upd_rwlock i (\<lambda>l. l\<lparr>rwCount := rwCount l + 1\<rparr>) s) = Some s1" "handed s s1 (RwReadList i) [t]"
      "rwlocks s1 = (rwlocks s)(i := ?l\<lparr>rwCount := rwCount ?l + 1\<rparr>)" by auto
    have run: "rw_wake_readers i mode s = rw_wake_readers i mode s1"
      using 3 s1(1) by (subst rw_wake_readers.simps) (auto simp: L rw_ahead_def)
    have W: "waiting s1 (RwReadList i) = ts" "waiting s1 (RwWriteList i) = waiting s (RwWriteList i)" "call_ok s1"
      and tcb: "\<And>t'. t' \<noteq> t \<Longrightarrow> tcb s1 t' = tcb s t'" using s1(2) R by (auto simp: handed_def)
    have d: "t \<notin> set ts" using waiting_distinct(1) [OF Cons.prems(1), of "RwReadList i"] R by simp
    have c1: "sint (rwCount (rwlocks s1 i)) = sint (rwCount ?l) + 1" using count_step(1) [OF 3(2)] s1(3) by simp
    have wk: "\<forall>t' \<in> set (waiting s1 (RwReadList i)). wakeable s1 t'" using Cons.prems(2) W(1) R d tcb
      by (metis list.set_intros(2) wakeable_def)
    have nt: "?w \<noteq> t" if "mode = RWLOCK_READFIRST_MODE"
      using waiting_distinct(2) [OF Cons.prems(1), of t "RwReadList i" "RwWriteList i"] R Cons.prems(4) [OF that] hd_in_set by fastforce
    have ah: "takeWhile (rw_ahead mode ?w s1) ts = takeWhile (rw_ahead mode ?w s) ts"
    proof (rule takeWhile_cong [OF refl])
      fix x assume "x \<in> set ts"
      then have "tcb s1 x = tcb s x" using d tcb by metis
      then show "rw_ahead mode ?w s1 x = rw_ahead mode ?w s x" using tcb nt by (simp add: rw_ahead_def)
    qed
    have pos: "0 \<le> sint (rwCount (rwlocks s1 i))" using Cons.prems(3) c1 by simp
    obtain s' us c where s': "rw_wake_readers i mode s1 = Some (s', 127 - sint (rwCount (rwlocks s1 i)) < int (length (takeWhile (rw_ahead mode ?w s) ts)))"
      "us = take (nat (127 - sint (rwCount (rwlocks s1 i)))) (takeWhile (rw_ahead mode ?w s) ts)" "handed s1 s' (RwReadList i) us"
      "rwlocks s' = (rwlocks s1)(i := (rwlocks s1 i)\<lparr>rwCount := c\<rparr>)" "sint c = sint (rwCount (rwlocks s1 i)) + int (length us)"
      using Cons.hyps(1) [OF W(1) [symmetric] W(3) wk pos] Cons.prems(4) unfolding W ah by blast
    have lt: "sint (rwCount ?l) < 127" using count_range [of "rwCount ?l"] 3(2) count_eq_iff(2) [of "rwCount ?l"] by linarith
    then have n: "nat (127 - sint (rwCount ?l)) = Suc (nat (127 - (sint (rwCount ?l) + 1)))" by linarith
    have "handed s s' (RwReadList i) (t # us)" by (rule handed_Cons [OF Cons.prems(1) s1(2) s'(3)])
    moreover have "t # us = take (nat (127 - sint (rwCount ?l))) (takeWhile (rw_ahead mode ?w s) (t # ts))"
      unfolding n s'(2) c1 using 3(1) by simp
    moreover have "rw_wake_readers i mode s = Some (s', 127 - sint (rwCount ?l) < int (length (takeWhile (rw_ahead mode ?w s) (t # ts))))"
      unfolding run s'(1) c1 using 3(1) by auto
    moreover have "rwlocks s' = (rwlocks s)(i := ?l\<lparr>rwCount := c\<rparr>) \<and> sint c = sint (rwCount ?l) + int (length (t # us))"
      using s'(4,5) s1(3) c1 by simp
    ultimately show ?thesis unfolding R by blast
  qed
qed

text \<open>The tasks the lock goes to: the readers and the writer the release picks from the two lists.\<close>

definition rw_readers :: "(nat \<Rightarrow> LosTaskCB) \<Rightarrow> nat list \<Rightarrow> nat list \<Rightarrow> nat list" where
  "rw_readers tcbs R W = takeWhile (\<lambda>t. W \<noteq> [] \<longrightarrow> OsSchedParamCompare (tcbs t) (tcbs (hd W)) < 0) R"

definition rw_next :: "(nat \<Rightarrow> LosTaskCB) \<Rightarrow> nat list \<Rightarrow> nat list \<Rightarrow> nat list \<times> nat list" where
  "rw_next tcbs R W =
    (if W \<noteq> [] \<and> (R = [] \<or> OsSchedParamCompare (tcbs (hd W)) (tcbs (hd R)) \<le> 0) then ([], [hd W])
     else if R = [] then ([], [])
     else (hd R # take 126 (rw_readers tcbs (tl R) W), []))"

definition released :: "nat \<Rightarrow> nat list \<Rightarrow> nat list \<Rightarrow> 'a rw_kstate_scheme \<Rightarrow> 'a rw_kstate_scheme \<Rightarrow> bool" where
  "released i rs ws s s' \<longleftrightarrow>
    waiting s (RwReadList i) = rs @ waiting s' (RwReadList i) \<and> waiting s (RwWriteList i) = ws @ waiting s' (RwWriteList i) \<and>
    (\<forall>h. h \<noteq> RwReadList i \<and> h \<noteq> RwWriteList i \<longrightarrow> waiting s' h = waiting s h) \<and>
    (\<forall>j. j \<noteq> i \<longrightarrow> rwlocks s' j = rwlocks s j) \<and> rwMagic (rwlocks s' i) = rwMagic (rwlocks s i) \<and>
    sint (rwCount (rwlocks s' i)) = int (length rs) - int (length ws) \<and>
    writeOwner (rwlocks s' i) = (if ws = [] then None else Some (hd ws))"

lemma rw_next_writers: "rw_next tcbs R W = (rs, ws) \<Longrightarrow> ws = [] \<or> rs = [] \<and> (\<exists>w. ws = [w])"
  by (auto simp: rw_next_def split: if_splits)

lemma rw_next_empty: "rw_next tcbs R W = ([], []) \<Longrightarrow> R = [] \<and> W = []"
  by (simp add: rw_next_def split: if_splits)

lemma handed_runnable: "handed s s' h ts \<Longrightarrow> t \<in> set ts \<Longrightarrow> has (status_of s t) OS_TASK_STATUS_SUSPENDED \<or> ready_hpf s' t"
  by (auto simp: handed_def runnable_def)

lemma PostOp_spec:
  assumes call: "call_ok s" and wk: "\<forall>t \<in> set (waiting s (RwReadList i)) \<union> set (waiting s (RwWriteList i)). wakeable s t"
    and nxt: "rw_next (tcb s) (waiting s (RwReadList i)) (waiting s (RwWriteList i)) = (rs, ws)"
  shows "\<exists>s' ret b. OsRwlockPostOp i s = Some (s', ret, b) \<and> call_ok s' \<and> currTask s' = currTask s \<and> released i rs ws s s' \<and>
    (\<forall>t \<in> set (rs @ ws). has (status_of s t) OS_TASK_STATUS_SUSPENDED \<or> ready_hpf s' t) \<and>
    ret = (if 126 < length (rw_readers (tcb s) (tl (waiting s (RwReadList i))) (waiting s (RwWriteList i))) \<and> rs \<noteq> [] then LOS_EINVAL else LOS_OK) \<and>
    (b \<longleftrightarrow> ret = LOS_OK \<and> rs @ ws \<noteq> [])"
proof -
  let ?R = "waiting s (RwReadList i)" and ?W = "waiting s (RwWriteList i)"
  let ?s1 = "upd_rwlock i (\<lambda>l. l\<lparr>rwCount := 0, writeOwner := None\<rparr>) s"
  note L = rw_waiting
  consider "?R = []" "?W = []" | "?W \<noteq> []" "?R = [] \<or> OsSchedParamCompare (tcb s (hd ?W)) (tcb s (hd ?R)) \<le> 0"
    | "?R \<noteq> []" "?W = [] \<or> 0 < OsSchedParamCompare (tcb s (hd ?W)) (tcb s (hd ?R))" by fastforce
  then show ?thesis
  proof cases
    case 1
    then have "OsRwlockPostOp i s = Some (?s1, LOS_OK, False)" by (simp add: OsRwlockPostOp_def OsRwlockGetMode_def L)
    moreover have "rs = []" "ws = []" using nxt 1 by (simp_all add: rw_next_def)
    ultimately show ?thesis using call 1 by (auto simp: released_def)
  next
    case 2
    let ?w = "hd ?W" let ?s2 = "upd_rwlock i (\<lambda>l. l\<lparr>rwCount := - 1, writeOwner := Some ?w\<rparr>) ?s1"
    have call1: "call_ok ?s1" "waiting ?s1 (RwWriteList i) = ?w # tl ?W" "wakeable ?s1 ?w" using call 2 wk by simp_all
    from wake_first [OF this, of i "\<lambda>l. l\<lparr>rwCount := - 1, writeOwner := Some ?w\<rparr>"] obtain s' where
      s': "ops_wake ?w ?s2 = Some s'" "handed ?s1 s' (RwWriteList i) [?w]" "rwlocks s' = rwlocks ?s2" by auto
    have "OsRwlockPostOp i s = Some (s', LOS_OK, True)" using 2 s'(1) by (auto simp: OsRwlockPostOp_def OsRwlockGetMode_def L Let_def)
    moreover have "rs = []" "ws = [?w]" using nxt 2 by (simp_all add: rw_next_def)
    moreover have "released i [] [?w] s s'" using s'(2) unfolding released_def s'(3) by (auto simp: handed_def)
    ultimately show ?thesis using s'(2) handed_runnable [OF s'(2)] by (simp add: handed_def)
  next
    case 3
    let ?r = "hd ?R"
    define mode where "mode = (if ?W = [] then RWLOCK_READ_MODE else RWLOCK_READFIRST_MODE)"
    have call1: "call_ok ?s1" "waiting ?s1 (RwReadList i) = ?r # tl ?R" "wakeable ?s1 ?r" using call 3 wk by simp_all
    from wake_first [OF this, of i "\<lambda>l. l\<lparr>rwCount := 1\<rparr>"] obtain s2 where
      s2: "ops_wake ?r (upd_rwlock i (\<lambda>l. l\<lparr>rwCount := 1\<rparr>) ?s1) = Some s2" "handed ?s1 s2 (RwReadList i) [?r]"
      "rwlocks s2 = (rwlocks s)(i := (rwlocks s i)\<lparr>writeOwner := None, rwCount := 1\<rparr>)" by auto
    have W2: "waiting s2 (RwReadList i) = tl ?R" "waiting s2 (RwWriteList i) = ?W" "call_ok s2"
      and tcb2: "\<And>t. t \<noteq> ?r \<Longrightarrow> tcb s2 t = tcb s t" using s2(2) 3(1) unfolding handed_def by (simp_all, metis list.sel(3))
    have d: "?r \<notin> set (tl ?R)" using waiting_distinct(1) [OF call, of "RwReadList i"] 3(1) by (cases ?R) auto
    have wk2: "\<forall>t \<in> set (waiting s2 (RwReadList i)). wakeable s2 t"
    proof
      fix t assume t: "t \<in> set (waiting s2 (RwReadList i))"
      then have "tcb s2 t = tcb s t" "t \<in> set ?R" using W2(1) d tcb2 3(1) by (metis, metis list.set_sel(2))
      with wk show "wakeable s2 t" by (simp add: wakeable_def)
    qed
    have w: "?W \<noteq> [] \<Longrightarrow> hd ?W \<noteq> ?r" using waiting_distinct(2) [OF call, of ?r "RwReadList i" "RwWriteList i"] 3(1) by (metis hd_in_set listHead.distinct)
    have ah: "takeWhile (rw_ahead mode (hd ?W) s2) (tl ?R) = rw_readers (tcb s) (tl ?R) ?W" unfolding rw_readers_def
    proof (rule takeWhile_cong [OF refl])
      fix x assume "x \<in> set (tl ?R)"
      then have "tcb s2 x = tcb s x" using d tcb2 by metis
      then show "rw_ahead mode (hd ?W) s2 x \<longleftrightarrow> (?W \<noteq> [] \<longrightarrow> OsSchedParamCompare (tcb s x) (tcb s (hd ?W)) < 0)"
        using tcb2 w by (simp add: rw_ahead_def mode_def)
    qed
    have c2: "sint (rwCount (rwlocks s2 i)) = 1" using s2(3) by simp
    have p: "0 \<le> sint (rwCount (rwlocks s2 i))" "mode = RWLOCK_READFIRST_MODE \<Longrightarrow> waiting s2 (RwWriteList i) \<noteq> []"
      using c2 W2(2) by (simp_all add: mode_def split: if_splits)
    have n: "nat (127 - 1) = 126" "127 - 1 < int k \<longleftrightarrow> 126 < k" for k by auto
    obtain s' ts c where s': "rw_wake_readers i mode s2 = Some (s', 126 < length (rw_readers (tcb s) (tl ?R) ?W))"
      "ts = take 126 (rw_readers (tcb s) (tl ?R) ?W)" "handed s2 s' (RwReadList i) ts"
      "rwlocks s' = (rwlocks s2)(i := (rwlocks s2 i)\<lparr>rwCount := c\<rparr>)" "sint c = 1 + int (length ts)"
      using wake_readers_spec [OF W2(3) wk2 p(1), of mode, OF p(2)] unfolding W2 ah c2 n by blast
    have h: "handed ?s1 s' (RwReadList i) (?r # ts)" by (rule handed_Cons [OF call1(1) s2(2) s'(3)])
    have mode: "OsRwlockGetMode ?R ?W ?s1 = mode" "mode \<noteq> RWLOCK_NONE_MODE" "mode \<noteq> RWLOCK_WRITE_MODE" "mode \<noteq> RWLOCK_WRITEFIRST_MODE"
      using 3 by (auto simp: OsRwlockGetMode_def mode_def)
    have run: "OsRwlockPostOp i s = Some (s', if 126 < length (rw_readers (tcb s) (tl ?R) ?W) then LOS_EINVAL else LOS_OK,
        \<not> 126 < length (rw_readers (tcb s) (tl ?R) ?W))"
      unfolding OsRwlockPostOp_def Let_def upd_rwlock_frame L upd_rwlock_sched mode(1) using mode(2-4) s2(1) s'(1) by (auto simp: L)
    have rs: "rs = ?r # ts" "ws = []" using nxt 3 s'(2) by (auto simp: rw_next_def split: if_splits)
    have "released i rs ws s s'" using h s'(4,5) s2(3) unfolding released_def rs by (auto simp: handed_def)
    moreover have "\<forall>t \<in> set (rs @ ws). has (status_of s t) OS_TASK_STATUS_SUSPENDED \<or> ready_hpf s' t"
      using handed_runnable [OF h] rs by simp
    ultimately show ?thesis using run h rs by (auto simp: handed_def)
  qed
qed

lemma released_schedule:
  assumes "released i rs ws s s1" and "waiting s' = waiting s1" and "rwlocks s' = rwlocks s1"
  shows "released i rs ws s s'"
  using assms by (simp add: released_def)

text \<open>Unlocking by a task that holds the lock.\<close>

lemma unlock_last:
  assumes call: "call_ok s" and chk: "OsRwlockCheck (Some i) s = LOS_OK" and magic: "rw_magic_ok (rwlocks s i)"
    and wk: "\<forall>t \<in> set (waiting s (RwReadList i)) \<union> set (waiting s (RwWriteList i)). wakeable s t"
    and c: "sint (rwCount (rwlocks s i)) = 1 \<or> sint (rwCount (rwlocks s i)) = - 1 \<and> writeOwner (rwlocks s i) = Some (currTask s)"
    and nxt: "rw_next (tcb s) (waiting s (RwReadList i)) (waiting s (RwWriteList i)) = (rs, ws)"
  shows "\<exists>s'. LOS_RwlockUnLock (Some i) s =
      Some (s', if 126 < length (rw_readers (tcb s) (tl (waiting s (RwReadList i))) (waiting s (RwWriteList i))) \<and> rs \<noteq> [] then LOS_EINVAL else LOS_OK) \<and>
    k_inv s' \<and> run_ok s' \<and> released i rs ws s s' \<and>
    (\<forall>t \<in> set (rs @ ws). has (status_of s t) OS_TASK_STATUS_SUSPENDED \<or> ready_hpf s' t \<or> currTask s' = t)"
proof -
  from PostOp_spec [OF call wk nxt] obtain s1 ret b where s1: "OsRwlockPostOp i s = Some (s1, ret, b)" "call_ok s1" "released i rs ws s s1"
    "\<forall>t \<in> set (rs @ ws). has (status_of s t) OS_TASK_STATUS_SUSPENDED \<or> ready_hpf s1 t"
    "ret = (if 126 < length (rw_readers (tcb s) (tl (waiting s (RwReadList i))) (waiting s (RwWriteList i))) \<and> rs \<noteq> [] then LOS_EINVAL else LOS_OK)" by blast
  from Schedule_if [OF s1(2), of b] obtain s' where s': "(if b then LOS_Schedule s1 else Some s1) = Some s'" "k_inv s'" "run_ok s'"
    "ipc_view s' = ipc_view s1" "waiting s' = waiting s1" "\<forall>t. ready_hpf s' t \<or> t = currTask s' \<longleftrightarrow> ready_hpf s1 t \<or> t = currTask s1" by blast
  have "OsRwlockUnlockUnsafe i s = OsRwlockPostOp i s" using magic c by (auto simp: OsRwlockUnlockUnsafe_def Let_def)
  with chk s1(1) s'(1) have "LOS_RwlockUnLock (Some i) s = Some (s', ret)" by (simp add: LOS_RwlockUnLock_def)
  moreover have "released i rs ws s s'" using released_schedule [OF s1(3) s'(5) rw_more [OF viewD(8) [OF s'(4)]]] .
  moreover have "\<forall>t \<in> set (rs @ ws). has (status_of s t) OS_TASK_STATUS_SUSPENDED \<or> ready_hpf s' t \<or> currTask s' = t" using s1(4) s'(6) by blast
  ultimately show ?thesis using s'(2,3) s1(5) by blast
qed

lemma unlock_nested:
  assumes call: "call_ok s" and chk: "OsRwlockCheck (Some i) s = LOS_OK" and magic: "rw_magic_ok (rwlocks s i)"
    and c: "1 < sint (rwCount (rwlocks s i)) \<or> sint (rwCount (rwlocks s i)) < - 1 \<and> writeOwner (rwlocks s i) = Some (currTask s)"
  shows "\<exists>c'. LOS_RwlockUnLock (Some i) s = Some (upd_rwlock i (\<lambda>l. l\<lparr>rwCount := c'\<rparr>) s, LOS_OK) \<and>
    sint c' = sint (rwCount (rwlocks s i)) - sgn (sint (rwCount (rwlocks s i)))"
proof -
  let ?c = "rwCount (rwlocks s i)"
  have ne: "?c \<noteq> INT8_MAX \<or> sint ?c < 0 \<Longrightarrow> sint ?c < 0 \<Longrightarrow> sint (?c + 1) = sint ?c + 1" "0 < sint ?c \<Longrightarrow> sint (?c - 1) = sint ?c - 1"
    using count_step [of ?c] count_eq_iff(2,3) [of ?c] by auto
  from c show ?thesis
  proof
    assume "1 < sint ?c"
    then have "LOS_RwlockUnLock (Some i) s = Some (upd_rwlock i (\<lambda>l. l\<lparr>rwCount := ?c - 1\<rparr>) s, LOS_OK)"
      using chk magic by (auto simp: LOS_RwlockUnLock_def OsRwlockUnlockUnsafe_def Let_def upd_rwlock_def)
    with ne(2) \<open>1 < sint ?c\<close> show ?thesis by (intro exI [of _ "?c - 1"]) simp
  next
    assume c: "sint ?c < - 1 \<and> writeOwner (rwlocks s i) = Some (currTask s)"
    then have "LOS_RwlockUnLock (Some i) s = Some (upd_rwlock i (\<lambda>l. l\<lparr>rwCount := ?c + 1\<rparr>) s, LOS_OK)"
      using chk magic by (auto simp: LOS_RwlockUnLock_def OsRwlockUnlockUnsafe_def Let_def upd_rwlock_def)
    with ne(1) c show ?thesis by (intro exI [of _ "?c + 1"]) simp
  qed
qed

section \<open>Taking the lock\<close>

text \<open>A call that is refused, and a call that blocks in the list \<open>h\<close>.\<close>

definition rw_refused :: "'a rw_kstate_scheme \<Rightarrow> 'a rw_kstate_scheme \<Rightarrow> bool" where
  "rw_refused s s' \<longleftrightarrow> k_inv s' \<and> run_ok s' \<and> rwlocks s' = rwlocks s \<and> waiting s' = waiting s"

definition rw_blocked :: "listHead \<Rightarrow> 'a rw_kstate_scheme \<Rightarrow> 'a rw_kstate_scheme \<Rightarrow> bool" where
  "rw_blocked h s s' \<longleftrightarrow> k_inv s' \<and> run_ok s' \<and> rwlocks s' = rwlocks s \<and> currTask s' \<noteq> currTask s \<and>
    (\<exists>k. OsSchedLockPendFindPos (tcb s) (tcb s (currTask s)) (waiting s h) = Some k \<and> waiting s' h = insert_after k (currTask s) (waiting s h)) \<and>
    (\<forall>h'. h' \<noteq> h \<longrightarrow> waiting s' h' = waiting s h')"

lemma refused_refl: "call_ok s \<Longrightarrow> rw_refused s s"
  by (simp add: rw_refused_def call_okD)

lemma refused_pending:
  assumes "call_ok s" and "OsPreemptableInSched s = (s1, False)"
  shows "rw_refused s s1"
proof -
  have s1: "s1 = s\<lparr>schedFlag := schedFlag s OR INT_PEND_RESCH\<rparr>" using assms(2) by (simp add: OsPreemptableInSched_def split: if_splits)
  have "rwlocks s1 = rwlocks s" unfolding s1 by (rule rw_more) simp
  moreover have "waiting s1 = waiting s" by (simp add: s1 waiting_def waiters_of_def fun_eq_iff)
  ultimately show ?thesis using call_okD [OF assms(1)] by (simp add: rw_refused_def s1)
qed

lemma rw_wait_spec:
  assumes call: "call_ok s" and lock: "taskLockCnt s = 0" and h: "wait_list h"
    and time: "ticks = LOS_WAIT_FOREVER \<or> OS_SCHED_TICK_TO_CYCLE ticks s + clock s \<noteq> OS_SORT_LINK_INVALID_TIME"
  shows "\<exists>s'. rw_wait (currTask s) h ticks s = Some (s', WaitBlocked) \<and> rw_blocked h s s'"
proof -
  from lock_wait [OF assms] obtain k s' where s': "OsSchedLockPendFindPos (tcb s) (tcb s (currTask s)) (lists s h) = Some k"
    "ops_wait (currTask s) h k ticks s = Some (s', WaitBlocked)" "k_inv s'" "run_ok s'" "currTask s' \<noteq> currTask s" "kstate.more s' = kstate.more s"
    "waiting s' h = insert_after k (currTask s) (waiting s h)" "\<forall>h'. h' \<noteq> h \<longrightarrow> waiting s' h' = waiting s h'" by blast
  have "rw_wait (currTask s) h ticks s = Some (s', WaitBlocked)" using s'(1,2) by (simp add: rw_wait_def)
  moreover have "rw_blocked h s s'" using s' h rw_more [OF s'(6)] by (simp add: rw_blocked_def waiting_lists)
  ultimately show ?thesis by blast
qed

text \<open>The four outcomes of a locking call.\<close>

definition rw_outcome :: "listHead \<Rightarrow> bool \<Rightarrow> (LosRwlock \<Rightarrow> LosRwlock) \<Rightarrow> nat \<Rightarrow> 'a rw_kstate_scheme \<Rightarrow> 'a rw_kstate_scheme \<Rightarrow> wait_result \<Rightarrow> bool" where
  "rw_outcome h free grab i s s' r \<longleftrightarrow>
    r = WaitRet LOS_OK \<and> free \<and> s' = upd_rwlock i grab s \<or>
    r = WaitBlocked \<and> \<not> free \<and> rw_blocked h s s' \<or>
    (\<exists>e. r = WaitRet e \<and> e \<noteq> LOS_OK \<and> rw_refused s s')"

definition rd_free :: "nat \<Rightarrow> 'a rw_kstate_scheme \<Rightarrow> bool" where
  "rd_free i s \<longleftrightarrow> 0 \<le> sint (rwCount (rwlocks s i)) \<and> OsRwlockPriCompare (currTask s) (RwWriteList i) s"

definition wr_free :: "nat \<Rightarrow> 'a rw_kstate_scheme \<Rightarrow> bool" where
  "wr_free i s \<longleftrightarrow> rwCount (rwlocks s i) = 0 \<or> sint (rwCount (rwlocks s i)) < 0 \<and> writeOwner (rwlocks s i) = Some (currTask s)"

definition rd_take :: "LosRwlock \<Rightarrow> LosRwlock" where
  "rd_take l = l\<lparr>rwCount := rwCount l + 1\<rparr>"

definition wr_take :: "nat \<Rightarrow> LosRwlock \<Rightarrow> LosRwlock" where
  "wr_take t l = l\<lparr>rwCount := rwCount l - 1, writeOwner := Some t\<rparr>"

lemma RdPendOp_outcome:
  assumes call: "call_ok s" and time: "timeout = LOS_WAIT_FOREVER \<or> OS_SCHED_TICK_TO_CYCLE timeout s + clock s \<noteq> OS_SORT_LINK_INVALID_TIME"
  shows "\<exists>s' r. OsRwlockRdPendOp (currTask s) i timeout s = Some (s', r) \<and>
    rw_outcome (RwReadList i) (rd_free i s \<and> rwCount (rwlocks s i) \<noteq> INT8_MAX) rd_take i s s' r \<and> (timeout = 0 \<longrightarrow> r \<noteq> WaitBlocked)"
proof (cases "rd_free i s \<or> timeout = 0 \<or> \<not> snd (OsPreemptableInSched s) \<or> writeOwner (rwlocks s i) = Some (currTask s)")
  case True
  then show ?thesis
    using refused_refl [OF call] refused_pending [OF call] unfolding rw_outcome_def rd_free_def rd_take_def OsRwlockRdPendOp_def
    by (auto split: prod.splits bool.splits simp: OsPreemptableInSched_def)
next
  case False
  then have "taskLockCnt s = 0" by (simp add: OsPreemptableInSched_def split: if_splits)
  with False rw_wait_spec [OF call this _ time, of "RwReadList i"] show ?thesis
    unfolding rw_outcome_def rd_free_def OsRwlockRdPendOp_def by (auto simp: OsPreemptableInSched_def)
qed

lemma WrPendOp_outcome:
  assumes call: "call_ok s" and time: "timeout = LOS_WAIT_FOREVER \<or> OS_SCHED_TICK_TO_CYCLE timeout s + clock s \<noteq> OS_SORT_LINK_INVALID_TIME"
  shows "\<exists>s' r. OsRwlockWrPendOp (currTask s) i timeout s = Some (s', r) \<and>
    rw_outcome (RwWriteList i) (wr_free i s \<and> rwCount (rwlocks s i) \<noteq> INT8_MIN) (wr_take (currTask s)) i s s' r \<and> (timeout = 0 \<longrightarrow> r \<noteq> WaitBlocked)"
proof (cases "wr_free i s \<or> timeout = 0 \<or> \<not> snd (OsPreemptableInSched s)")
  case True
  have "upd_rwlock i (\<lambda>l. l\<lparr>rwCount := - 1, writeOwner := Some (currTask s)\<rparr>) s = upd_rwlock i (wr_take (currTask s)) s"
    if "rwCount (rwlocks s i) = 0" using that by (simp add: upd_rwlock_def wr_take_def)
  moreover have "upd_rwlock i (\<lambda>l. l\<lparr>rwCount := rwCount l - 1\<rparr>) s = upd_rwlock i (wr_take (currTask s)) s"
    if "writeOwner (rwlocks s i) = Some (currTask s)" using that by (cases "rwlocks s i") (simp add: upd_rwlock_def wr_take_def)
  ultimately show ?thesis using True
    using refused_refl [OF call] refused_pending [OF call] unfolding rw_outcome_def wr_free_def OsRwlockWrPendOp_def
    by (auto split: prod.splits bool.splits simp: OsPreemptableInSched_def)
next
  case False
  then have "taskLockCnt s = 0" by (simp add: OsPreemptableInSched_def split: if_splits)
  with False rw_wait_spec [OF call this _ time, of "RwWriteList i"] show ?thesis
    unfolding rw_outcome_def wr_free_def OsRwlockWrPendOp_def by (auto simp: OsPreemptableInSched_def)
qed

text \<open>The calls of the component as one type.\<close>

datatype rw_call = RdLock u32 | TryRdLock | WrLock u32 | TryWrLock | UnLock

fun rw_run :: "nat option \<Rightarrow> rw_call \<Rightarrow> 'a rw_kstate_scheme \<Rightarrow> ('a rw_kstate_scheme \<times> wait_result) option" where
  "rw_run l (RdLock timeout) s = LOS_RwlockRdLock l timeout s"
| "rw_run l TryRdLock s = LOS_RwlockTryRdLock l s"
| "rw_run l (WrLock timeout) s = LOS_RwlockWrLock l timeout s"
| "rw_run l TryWrLock s = LOS_RwlockTryWrLock l s"
| "rw_run l UnLock s = map_option (\<lambda>(s', ret). (s', WaitRet ret)) (LOS_RwlockUnLock l s)"

fun timeout_ok :: "rw_call \<Rightarrow> 'a rw_kstate_scheme \<Rightarrow> bool" where
  "timeout_ok (RdLock timeout) s \<longleftrightarrow> timeout = LOS_WAIT_FOREVER \<or> OS_SCHED_TICK_TO_CYCLE timeout s + clock s \<noteq> OS_SORT_LINK_INVALID_TIME"
| "timeout_ok (WrLock timeout) s \<longleftrightarrow> timeout = LOS_WAIT_FOREVER \<or> OS_SCHED_TICK_TO_CYCLE timeout s + clock s \<noteq> OS_SORT_LINK_INVALID_TIME"
| "timeout_ok c s \<longleftrightarrow> clock s \<noteq> OS_SORT_LINK_INVALID_TIME"

fun is_rd :: "rw_call \<Rightarrow> bool" where
  "is_rd (RdLock _) = True" | "is_rd TryRdLock = True" | "is_rd _ = False"

fun is_wr :: "rw_call \<Rightarrow> bool" where
  "is_wr (WrLock _) = True" | "is_wr TryWrLock = True" | "is_wr _ = False"

lemma outcome_refused: "rw_refused s s' \<Longrightarrow> e \<noteq> LOS_OK \<Longrightarrow> rw_outcome h free grab i s s' (WaitRet e)"
  by (auto simp: rw_outcome_def)

lemma rd_call_outcome:
  assumes call: "call_ok s" and c: "is_rd c" "timeout_ok c s"
  shows "\<exists>s' r. rw_run (Some i) c s = Some (s', r) \<and>
    rw_outcome (RwReadList i) (rd_free i s \<and> rwCount (rwlocks s i) \<noteq> INT8_MAX) rd_take i s s' r"
proof -
  have no: "rw_outcome h free grab i s s (WaitRet e)" if "e \<noteq> LOS_OK" for h free grab e
    by (rule outcome_refused [OF refused_refl [OF call] that])
  show ?thesis
  proof (cases c)
    case (RdLock timeout)
    with c(2) have "timeout = LOS_WAIT_FOREVER \<or> OS_SCHED_TICK_TO_CYCLE timeout s + clock s \<noteq> OS_SORT_LINK_INVALID_TIME" by simp
    from RdPendOp_outcome [OF call this, of i] RdLock no show ?thesis by (auto simp: LOS_RwlockRdLock_def OsRwlockRdUnsafe_def)
  next
    case TryRdLock
    with c(2) have "(0 :: u32) = LOS_WAIT_FOREVER \<or> OS_SCHED_TICK_TO_CYCLE 0 s + clock s \<noteq> OS_SORT_LINK_INVALID_TIME"
      by (simp add: OS_SCHED_TICK_TO_CYCLE_def)
    from RdPendOp_outcome [OF call this, of i] TryRdLock no show ?thesis by (auto simp: LOS_RwlockTryRdLock_def OsRwlockTryRdUnsafe_def Let_def)
  qed (use c(1) in simp_all)
qed

lemma wr_call_outcome:
  assumes call: "call_ok s" and c: "is_wr c" "timeout_ok c s"
  shows "\<exists>s' r. rw_run (Some i) c s = Some (s', r) \<and>
    rw_outcome (RwWriteList i) (wr_free i s \<and> rwCount (rwlocks s i) \<noteq> INT8_MIN) (wr_take (currTask s)) i s s' r"
proof -
  have no: "rw_outcome h free grab i s s (WaitRet e)" if "e \<noteq> LOS_OK" for h free grab e
    by (rule outcome_refused [OF refused_refl [OF call] that])
  show ?thesis
  proof (cases c)
    case (WrLock timeout)
    with c(2) have "timeout = LOS_WAIT_FOREVER \<or> OS_SCHED_TICK_TO_CYCLE timeout s + clock s \<noteq> OS_SORT_LINK_INVALID_TIME" by simp
    from WrPendOp_outcome [OF call this, of i] WrLock no show ?thesis by (auto simp: LOS_RwlockWrLock_def OsRwlockWrUnsafe_def)
  next
    case TryWrLock
    with c(2) have "(0 :: u32) = LOS_WAIT_FOREVER \<or> OS_SCHED_TICK_TO_CYCLE 0 s + clock s \<noteq> OS_SORT_LINK_INVALID_TIME"
      by (simp add: OS_SCHED_TICK_TO_CYCLE_def)
    from WrPendOp_outcome [OF call this, of i] TryWrLock no show ?thesis by (auto simp: LOS_RwlockTryWrLock_def OsRwlockTryWrUnsafe_def Let_def)
  qed (use c(1) in simp_all)
qed

text \<open>Unlocking a lock the running task does not hold is refused, except that the code does not know the readers.\<close>

definition may_unlock :: "nat \<Rightarrow> 'a rw_kstate_scheme \<Rightarrow> bool" where
  "may_unlock i s \<longleftrightarrow> OsRwlockCheck (Some i) s = LOS_OK \<and> rw_magic_ok (rwlocks s i) \<and> sint (rwCount (rwlocks s i)) \<noteq> 0 \<and>
    (sint (rwCount (rwlocks s i)) < 0 \<longrightarrow> writeOwner (rwlocks s i) = Some (currTask s))"

lemma unlock_refused: "\<not> may_unlock i s \<Longrightarrow> \<exists>e. LOS_RwlockUnLock (Some i) s = Some (s, e) \<and> e \<noteq> LOS_OK"
  unfolding may_unlock_def LOS_RwlockUnLock_def OsRwlockUnlockUnsafe_def Let_def
  by (cases "OsRwlockCheck (Some i) s = LOS_OK") (auto simp: count_eq_iff(1))

lemma may_unlock_cases:
  assumes "may_unlock i s"
  obtains (last) "sint (rwCount (rwlocks s i)) = 1 \<or> sint (rwCount (rwlocks s i)) = - 1 \<and> writeOwner (rwlocks s i) = Some (currTask s)"
    | (nested) "1 < sint (rwCount (rwlocks s i)) \<or> sint (rwCount (rwlocks s i)) < - 1 \<and> writeOwner (rwlocks s i) = Some (currTask s)"
  using assms unfolding may_unlock_def by linarith

section \<open>Who holds the lock\<close>

text \<open>The history of a lock with its holders: \<open>rd\<close> and \<open>wr\<close> collect the tasks that were granted the lock to read and to
  write and have not released it, once for every grant. A locking call that returns \<open>LOS_OK\<close> is a grant; a release
  grants the lock to the tasks it takes out of the lists. Between the calls the scheduler, the timeouts and other
  components may do anything that leaves the lock alone and only takes tasks out of its lists.\<close>

definition left_list :: "listHead \<Rightarrow> 'a rw_kstate_scheme \<Rightarrow> 'a rw_kstate_scheme \<Rightarrow> nat multiset" where
  "left_list h s s' = mset (waiting s h) - mset (waiting s' h)"

inductive rw_history :: "nat \<Rightarrow> 'a rw_kstate_scheme \<Rightarrow> nat multiset \<Rightarrow> nat multiset \<Rightarrow> bool" for i where
  rw_init: "LOS_RwlockInit (Some i) s = (s', LOS_OK) \<Longrightarrow> rw_history i s' {#} {#}"
| rw_grant_rd: "rw_history i s rd wr \<Longrightarrow> call_ok s \<Longrightarrow> is_rd c \<Longrightarrow> timeout_ok c s \<Longrightarrow> rw_run (Some i) c s = Some (s', WaitRet LOS_OK) \<Longrightarrow>
    rw_history i s' (add_mset (currTask s) rd) wr"
| rw_grant_wr: "rw_history i s rd wr \<Longrightarrow> call_ok s \<Longrightarrow> is_wr c \<Longrightarrow> timeout_ok c s \<Longrightarrow> rw_run (Some i) c s = Some (s', WaitRet LOS_OK) \<Longrightarrow>
    rw_history i s' rd (add_mset (currTask s) wr)"
| rw_no_grant: "rw_history i s rd wr \<Longrightarrow> call_ok s \<Longrightarrow> is_rd c \<or> is_wr c \<Longrightarrow> timeout_ok c s \<Longrightarrow> rw_run (Some i) c s = Some (s', r) \<Longrightarrow> r \<noteq> WaitRet LOS_OK \<Longrightarrow>
    rw_history i s' rd wr"
| rw_release: "rw_history i s rd wr \<Longrightarrow> call_ok s \<Longrightarrow> OsRwlockCheck (Some i) s = LOS_OK \<Longrightarrow>
    \<forall>t \<in> set (waiting s (RwReadList i)) \<union> set (waiting s (RwWriteList i)). wakeable s t \<Longrightarrow>
    currTask s \<in># rd + wr \<Longrightarrow> LOS_RwlockUnLock (Some i) s = Some (s', ret) \<Longrightarrow>
    rw_history i s' (rd - {#currTask s#} + left_list (RwReadList i) s s') (wr - {#currTask s#} + left_list (RwWriteList i) s s')"
| rw_other: "rw_history i s rd wr \<Longrightarrow> rwlocks s' i = rwlocks s i \<Longrightarrow> mset (waiting s' (RwReadList i)) \<subseteq># mset (waiting s (RwReadList i)) \<Longrightarrow>
    mset (waiting s' (RwWriteList i)) \<subseteq># mset (waiting s (RwWriteList i)) \<Longrightarrow> rw_history i s' rd wr"

definition holders_ok :: "nat \<Rightarrow> 'a rw_kstate_scheme \<Rightarrow> nat multiset \<Rightarrow> nat multiset \<Rightarrow> bool" where
  "holders_ok i s rd wr \<longleftrightarrow> rw_magic_ok (rwlocks s i) \<and> (rd = {#} \<or> wr = {#}) \<and>
    sint (rwCount (rwlocks s i)) = int (size rd) - int (size wr) \<and>
    (if wr = {#} then writeOwner (rwlocks s i) = None else \<exists>t. writeOwner (rwlocks s i) = Some t \<and> set_mset wr = {t}) \<and>
    (rd = {#} \<and> wr = {#} \<longrightarrow> waiting s (RwReadList i) = [] \<and> waiting s (RwWriteList i) = [])"

lemma holders_init:
  assumes "LOS_RwlockInit (Some i) s = (s', LOS_OK)"
  shows "holders_ok i s' {#} {#}"
proof -
  have s': "s' = (upd_rwlock i (\<lambda>l. l\<lparr>rwCount := 0, writeOwner := None, rwMagic := ucast OS_RWLOCK_MAGIC\<rparr>) s)
      \<lparr>lists := (lists s)(RwReadList i := [], RwWriteList i := [])\<rparr>"
    using assms by (simp add: LOS_RwlockInit_def split: if_splits)
  show ?thesis unfolding holders_ok_def by (simp add: s' waiting_lists) (simp add: rw_magic_ok_def upd_rwlock_def)
qed

lemma holders_take_rd:
  assumes h: "holders_ok i s rd wr" and free: "rd_free i s" "rwCount (rwlocks s i) \<noteq> INT8_MAX"
  shows "holders_ok i (upd_rwlock i rd_take s) (add_mset t rd) wr"
proof -
  have "wr = {#}"
  proof (rule ccontr)
    assume "wr \<noteq> {#}"
    then have "sint (rwCount (rwlocks s i)) < 0" using h by (auto simp: holders_ok_def nonempty_has_size)
    with free(1) show False by (simp add: rd_free_def)
  qed
  with h count_step(1) [OF free(2)] show ?thesis by (simp add: holders_ok_def rd_take_def rw_magic_ok_def)
qed

lemma holders_take_wr:
  assumes h: "holders_ok i s rd wr" and free: "wr_free i s" "rwCount (rwlocks s i) \<noteq> INT8_MIN"
  shows "holders_ok i (upd_rwlock i (wr_take (currTask s)) s) rd (add_mset (currTask s) wr)"
proof -
  have "rd = {#}"
  proof (rule ccontr)
    assume "rd \<noteq> {#}"
    then have "0 < sint (rwCount (rwlocks s i))" using h by (auto simp: holders_ok_def nonempty_has_size)
    with free(1) show False by (auto simp: wr_free_def)
  qed
  moreover have "set_mset wr \<subseteq> {currTask s}"
  proof (cases "wr = {#}")
    case wr: False
    with h \<open>rd = {#}\<close> have "sint (rwCount (rwlocks s i)) < 0" by (auto simp: holders_ok_def nonempty_has_size)
    with free(1) have "writeOwner (rwlocks s i) = Some (currTask s)" by (auto simp: wr_free_def)
    with h wr show ?thesis by (auto simp: holders_ok_def)
  qed simp
  ultimately show ?thesis using h count_step(2) [OF free(2)] by (auto simp: holders_ok_def wr_take_def rw_magic_ok_def)
qed

lemma holders_other:
  assumes "holders_ok i s rd wr" and "rwlocks s' i = rwlocks s i"
    and "rd = {#} \<and> wr = {#} \<Longrightarrow> waiting s' (RwReadList i) = [] \<and> waiting s' (RwWriteList i) = []"
  shows "holders_ok i s' rd wr"
  using assms by (auto simp: holders_ok_def)

text \<open>A task only blocks while somebody holds the lock.\<close>

lemma blocked_held:
  assumes "holders_ok i s rd wr" and "\<not> (rd_free i s \<and> rwCount (rwlocks s i) \<noteq> INT8_MAX) \<or> \<not> (wr_free i s \<and> rwCount (rwlocks s i) \<noteq> INT8_MIN)"
  shows "\<not> (rd = {#} \<and> wr = {#})"
proof
  assume "rd = {#} \<and> wr = {#}"
  with assms(1) have "sint (rwCount (rwlocks s i)) = 0" "lists s (RwWriteList i) = []" by (simp_all add: holders_ok_def rw_waiting)
  then have "rd_free i s" "wr_free i s" "rwCount (rwlocks s i) \<noteq> INT8_MAX" "rwCount (rwlocks s i) \<noteq> INT8_MIN"
    by (simp_all add: rd_free_def wr_free_def OsRwlockPriCompare_def count_eq_iff(1)) (simp_all add: count_eq_iff)
  with assms(2) show False by simp
qed

lemma holders_no_grant:
  assumes h: "holders_ok i s rd wr" and o: "rw_outcome lh free grab i s s' r" "r \<noteq> WaitRet LOS_OK"
    and held: "\<not> free \<Longrightarrow> \<not> (rd = {#} \<and> wr = {#})"
  shows "holders_ok i s' rd wr"
proof -
  from o consider "\<not> free" "rw_blocked lh s s'" | "rw_refused s s'" by (auto simp: rw_outcome_def)
  then show ?thesis
  proof cases
    case 1
    with held show ?thesis by (intro holders_other [OF h]) (auto simp: rw_blocked_def)
  next
    case 2
    with h show ?thesis by (intro holders_other [OF h]) (auto simp: rw_refused_def holders_ok_def)
  qed
qed

lemma singleton_diff: "size M = 1 \<Longrightarrow> t \<in># M \<Longrightarrow> M - {#t#} = {#}"
  using size_1_singleton_mset [of M] by auto

lemma holders_release:
  assumes h: "holders_ok i s rd wr" and call: "call_ok s" and chk: "OsRwlockCheck (Some i) s = LOS_OK"
    and wk: "\<forall>t \<in> set (waiting s (RwReadList i)) \<union> set (waiting s (RwWriteList i)). wakeable s t"
    and t: "currTask s \<in># rd + wr" and run: "LOS_RwlockUnLock (Some i) s = Some (s', ret)"
  shows "holders_ok i s' (rd - {#currTask s#} + left_list (RwReadList i) s s') (wr - {#currTask s#} + left_list (RwWriteList i) s s')"
proof -
  let ?t = "currTask s" let ?l = "rwlocks s i"
  have magic: "rw_magic_ok ?l" and c: "sint (rwCount ?l) = int (size rd) - int (size wr)" using h by (simp_all add: holders_ok_def)
  have who: "?t \<in># rd \<and> wr = {#} \<and> writeOwner ?l = None \<or> ?t \<in># wr \<and> rd = {#} \<and> writeOwner ?l = Some ?t \<and> set_mset wr = {?t}"
    using t h by (auto simp: holders_ok_def split: if_splits)
  then have pos: "wr = {#} \<Longrightarrow> 0 < size rd" "rd = {#} \<Longrightarrow> 0 < size wr" by (auto simp: nonempty_has_size [symmetric])
  have may: "may_unlock i s" using chk magic who c pos by (auto simp: may_unlock_def)
  from may show ?thesis
  proof (cases rule: may_unlock_cases)
    case last
    obtain rs ws where nxt: "rw_next (tcb s) (waiting s (RwReadList i)) (waiting s (RwWriteList i)) = (rs, ws)" by fastforce
    from unlock_last [OF call chk magic wk last nxt] run have rel: "released i rs ws s s'" by auto
    have one: "rd - {#?t#} = {#}" "wr - {#?t#} = {#}"
    proof -
      have "size rd = 1 \<and> wr = {#} \<or> rd = {#} \<and> size wr = 1" using who last c by auto
      then show "rd - {#?t#} = {#}" "wr - {#?t#} = {#}" using who singleton_diff by fastforce+
    qed
    have left: "left_list (RwReadList i) s s' = mset rs" "left_list (RwWriteList i) s s' = mset ws"
      using rel by (simp_all add: left_list_def released_def)
    have free: "rs = [] \<and> ws = [] \<Longrightarrow> waiting s' (RwReadList i) = [] \<and> waiting s' (RwWriteList i) = []"
      using nxt rel rw_next_empty [of "tcb s" "waiting s (RwReadList i)" "waiting s (RwWriteList i)"] by (auto simp: released_def)
    have magic': "rw_magic_ok (rwlocks s' i)" using rel magic by (simp add: released_def rw_magic_ok_def)
    have l': "sint (rwCount (rwlocks s' i)) = int (length rs) - int (length ws)" "writeOwner (rwlocks s' i) = (if ws = [] then None else Some (hd ws))"
      using rel by (simp_all add: released_def)
    from rw_next_writers [OF nxt] show ?thesis unfolding one left holders_ok_def using magic' l' free by auto
  next
    case nested
    from unlock_nested [OF call chk magic nested] run obtain c' where s': "s' = upd_rwlock i (\<lambda>l. l\<lparr>rwCount := c'\<rparr>) s"
      "sint c' = sint (rwCount ?l) - sgn (sint (rwCount ?l))" by auto
    have left: "left_list lh s s' = {#}" for lh by (simp add: left_list_def s')
    from who show ?thesis
    proof
      assume w: "?t \<in># rd \<and> wr = {#} \<and> writeOwner ?l = None"
      then have n: "1 < size rd" "size (rd - {#?t#}) = size rd - 1" using nested c by (auto simp: size_Diff_singleton)
      then have "rd - {#?t#} \<noteq> {#}" by auto
      then show ?thesis using w n s' h c left by (auto simp: holders_ok_def rw_magic_ok_def)
    next
      assume w: "?t \<in># wr \<and> rd = {#} \<and> writeOwner ?l = Some ?t \<and> set_mset wr = {?t}"
      then have n: "1 < size wr" "size (wr - {#?t#}) = size wr - 1" using nested c by (auto simp: size_Diff_singleton)
      then have ne: "wr - {#?t#} \<noteq> {#}" by auto
      then have "set_mset (wr - {#?t#}) = {?t}" using w in_diffD [of _ wr "{#?t#}"] by auto
      then show ?thesis using w n s' h c left ne by (auto simp: holders_ok_def rw_magic_ok_def)
    qed
  qed
qed

lemma history_holders: "rw_history i s rd wr \<Longrightarrow> holders_ok i s rd wr"
proof (induction rule: rw_history.induct)
  case (rw_init s s')
  then show ?case by (rule holders_init)
next
  case (rw_grant_rd s rd wr c s')
  from rd_call_outcome [OF rw_grant_rd.hyps(2-4), of i] rw_grant_rd.hyps(5) have "rd_free i s" "rwCount (rwlocks s i) \<noteq> INT8_MAX" "s' = upd_rwlock i rd_take s"
    by (auto simp: rw_outcome_def)
  with holders_take_rd [OF rw_grant_rd.IH] show ?case by simp
next
  case (rw_grant_wr s rd wr c s')
  from wr_call_outcome [OF rw_grant_wr.hyps(2-4), of i] rw_grant_wr.hyps(5)
  have "wr_free i s" "rwCount (rwlocks s i) \<noteq> INT8_MIN" "s' = upd_rwlock i (wr_take (currTask s)) s" by (auto simp: rw_outcome_def)
  with holders_take_wr [OF rw_grant_wr.IH] show ?case by simp
next
  case (rw_no_grant s rd wr c s' r)
  from rw_no_grant.hyps(3) show ?case
  proof
    assume "is_rd c"
    from rd_call_outcome [OF rw_no_grant.hyps(2) this rw_no_grant.hyps(4), of i] rw_no_grant.hyps(5)
    have o: "rw_outcome (RwReadList i) (rd_free i s \<and> rwCount (rwlocks s i) \<noteq> INT8_MAX) rd_take i s s' r" by auto
    show ?thesis by (rule holders_no_grant [OF rw_no_grant.IH o rw_no_grant.hyps(6)]) (use blocked_held [OF rw_no_grant.IH] in blast)
  next
    assume "is_wr c"
    from wr_call_outcome [OF rw_no_grant.hyps(2) this rw_no_grant.hyps(4), of i] rw_no_grant.hyps(5)
    have o: "rw_outcome (RwWriteList i) (wr_free i s \<and> rwCount (rwlocks s i) \<noteq> INT8_MIN) (wr_take (currTask s)) i s s' r" by auto
    show ?thesis by (rule holders_no_grant [OF rw_no_grant.IH o rw_no_grant.hyps(6)]) (use blocked_held [OF rw_no_grant.IH] in blast)
  qed
next
  case (rw_release s rd wr s' ret)
  from holders_release [OF rw_release.IH rw_release.hyps(2-6)] show ?case .
next
  case (rw_other s rd wr s')
  show ?case by (rule holders_other [OF rw_other.IH rw_other.hyps(2)]) (use rw_other.hyps(3,4) rw_other.IH in \<open>auto simp: holders_ok_def\<close>)
qed

section \<open>Concrete locks\<close>

definition rw_demo_lock :: "8 word \<Rightarrow> nat option \<Rightarrow> nat \<Rightarrow> LosRwlock" where
  "rw_demo_lock c w i = \<lparr>rwMagic = ucast OS_RWLOCK_MAGIC, rwCount = c, writeOwner = w\<rparr>"

definition rw_demo :: "(nat \<Rightarrow> LosRwlock) \<Rightarrow> rw_kstate" where
  "rw_demo ls = demo \<lparr>rwlocks = ls\<rparr>"

definition rw_demo_wait :: "(nat \<Rightarrow> LosRwlock) \<Rightarrow> rw_kstate" where
  "rw_demo_wait ls = demo_wait (RwReadList 0) \<lparr>rwlocks = ls\<rparr>"

lemma rw_demo_more [simp]: "rwlocks (demo \<lparr>rwlocks = ls\<rparr>) = ls" "rwlocks (demo_wait h \<lparr>rwlocks = ls\<rparr>) = ls"
  by (simp_all add: demo_def demo_wait_def upd_task_def)

lemma rw_demo_magic [simp]: "rw_magic_ok (rw_demo_lock c w i)"
  by (simp add: rw_magic_ok_def rw_demo_lock_def)

lemma rw_demo_ok:
  "call_ok (rw_demo ls)" "call_ok (rw_demo_wait ls)" "OsRwlockCheck (Some 0) (rw_demo ls) = LOS_OK" "OsRwlockCheck (Some 0) (rw_demo_wait ls) = LOS_OK"
  "waiting (rw_demo_wait ls) (RwReadList 0) = [2]" "waiting (rw_demo_wait ls) (RwWriteList 0) = []" "wakeable (rw_demo_wait ls) 2"
  unfolding rw_demo_def rw_demo_wait_def by (simp_all add: demo_call demo_wait_call OsRwlockCheck_def flag_simps waiting_lists)

section \<open>Properties\<close>

text \<open>C3. Mutual exclusion: in every history of a lock, readers and writers never hold it together, at most one task
  holds it for writing, the counter is the number of read grants or minus the number of nested write grants, and
  nobody waits for a lock that is free.\<close>

theorem rwlock_exclusion:
  assumes "rw_history i s rd wr"
  shows "(rd = {#} \<or> wr = {#}) \<and> (\<exists>t. set_mset wr \<subseteq> {t}) \<and> sint (rwCount (rwlocks s i)) = int (size rd) - int (size wr) \<and>
    (rd = {#} \<and> wr = {#} \<longrightarrow> waiting s (RwReadList i) = [] \<and> waiting s (RwWriteList i) = [])"
  using history_holders [OF assms] by (auto simp: holders_ok_def split: if_splits)

theorem rwlock_exclusion_witness:
  "\<exists>s. LOS_RwlockTryRdLock (Some 0) (fst (LOS_RwlockInit (Some 0) (rw_demo (\<lambda>_. \<lparr>rwMagic = 0, rwCount = 0, writeOwner = None\<rparr>)))) = Some (s, WaitRet LOS_OK) \<and>
    sint (rwCount (rwlocks s 0)) = 1"
proof -
  let ?ls = "\<lambda>_ :: nat. \<lparr>rwMagic = 0, rwCount = 0, writeOwner = None\<rparr>" let ?s = "rw_demo ?ls" let ?s1 = "fst (LOS_RwlockInit (Some 0) ?s)"
  have init: "LOS_RwlockInit (Some 0) ?s = (?s1, LOS_OK)" by (simp add: LOS_RwlockInit_def rw_demo_def rw_magic_ok_def)
  have s1: "?s1 = rw_demo (?ls(0 := rw_demo_lock 0 None 0))"
    by (simp add: LOS_RwlockInit_def rw_demo_def rw_magic_ok_def) (simp add: upd_rwlock_def demo_def fun_eq_iff rw_demo_lock_def)
  have call: "call_ok ?s1" unfolding s1 by (rule rw_demo_ok)
  have run: "LOS_RwlockTryRdLock (Some 0) ?s1 = Some (upd_rwlock 0 rd_take ?s1, WaitRet LOS_OK)" unfolding s1
    by (simp add: LOS_RwlockTryRdLock_def rw_demo_ok OsRwlockTryRdUnsafe_def OsRwlockRdPendOp_def OsRwlockPriCompare_def Let_def)
      (simp add: rw_demo_def rw_demo_lock_def rw_magic_ok_def rd_take_def upd_rwlock_def)
  have "timeout_ok TryRdLock ?s1" unfolding s1 by (simp add: rw_demo_def)
  with rw_grant_rd [OF rw_init [OF init] call, of TryRdLock] run have "rw_history 0 (upd_rwlock 0 rd_take ?s1) {#currTask ?s1#} {#}" by simp
  from rwlock_exclusion [OF this] run show ?thesis by auto
qed

text \<open>C18. Release: when the last holder unlocks, the lock goes to the first waiting writer if it is not less urgent
  than the first waiting reader, else to the first reader and the readers behind it that are more urgent than the first
  writer (up to the range of the counter), else it becomes free; the counter and the owner say so, and every task that
  got the lock is ready or running unless it is suspended.\<close>

theorem rwlock_release_hands_over:
  assumes "call_ok s" and "OsRwlockCheck (Some i) s = LOS_OK" and "rw_magic_ok (rwlocks s i)"
    and "\<forall>t \<in> set (waiting s (RwReadList i)) \<union> set (waiting s (RwWriteList i)). wakeable s t"
    and "sint (rwCount (rwlocks s i)) = 1 \<or> sint (rwCount (rwlocks s i)) = - 1 \<and> writeOwner (rwlocks s i) = Some (currTask s)"
    and "rw_next (tcb s) (waiting s (RwReadList i)) (waiting s (RwWriteList i)) = (rs, ws)"
  shows "\<exists>s' ret. LOS_RwlockUnLock (Some i) s = Some (s', ret) \<and> k_inv s' \<and> run_ok s' \<and>
    waiting s (RwReadList i) = rs @ waiting s' (RwReadList i) \<and> waiting s (RwWriteList i) = ws @ waiting s' (RwWriteList i) \<and>
    sint (rwCount (rwlocks s' i)) = int (length rs) - int (length ws) \<and> writeOwner (rwlocks s' i) = (if ws = [] then None else Some (hd ws)) \<and>
    (\<forall>t \<in> set (rs @ ws). has (status_of s t) OS_TASK_STATUS_SUSPENDED \<or> ready_hpf s' t \<or> currTask s' = t)"
  using unlock_last [OF assms] unfolding released_def by blast

theorem rwlock_release_hands_over_witness:
  "\<exists>s' ret. LOS_RwlockUnLock (Some 0) (rw_demo_wait (rw_demo_lock (- 1) (Some 1))) = Some (s', ret) \<and>
    waiting s' (RwReadList 0) = [] \<and> sint (rwCount (rwlocks s' 0)) = 1 \<and> (ready_hpf s' 2 \<or> currTask s' = 2)"
proof -
  let ?s = "rw_demo_wait (rw_demo_lock (- 1) (Some 1))"
  have l: "rwlocks ?s 0 = rw_demo_lock (- 1) (Some 1) 0" by (simp add: rw_demo_wait_def)
  have n: "rw_next (tcb ?s) (waiting ?s (RwReadList 0)) (waiting ?s (RwWriteList 0)) = ([2], [])" by (simp add: rw_next_def rw_demo_ok rw_readers_def)
  have "rw_magic_ok (rwlocks ?s 0)" "\<forall>t \<in> set (waiting ?s (RwReadList 0)) \<union> set (waiting ?s (RwWriteList 0)). wakeable ?s t"
    "sint (rwCount (rwlocks ?s 0)) = 1 \<or> sint (rwCount (rwlocks ?s 0)) = - 1 \<and> writeOwner (rwlocks ?s 0) = Some (currTask ?s)"
    unfolding l by (simp_all add: rw_demo_ok) (simp add: rw_demo_lock_def rw_demo_wait_def)
  from rwlock_release_hands_over [OF rw_demo_ok(2,4) this n] have "\<exists>s' ret. LOS_RwlockUnLock (Some 0) ?s = Some (s', ret) \<and>
    waiting s' (RwReadList 0) = [] \<and> sint (rwCount (rwlocks s' 0)) = 1 \<and> (has (status_of ?s 2) OS_TASK_STATUS_SUSPENDED \<or> ready_hpf s' 2 \<or> currTask s' = 2)"
    by (auto simp: rw_demo_ok)
  moreover have "\<not> has (status_of ?s 2) OS_TASK_STATUS_SUSPENDED" by (simp add: rw_demo_wait_def flag_simps)
  ultimately show ?thesis by blast
qed

text \<open>C31. Every locking and unlocking call comes back or blocks, and leaves the scheduler's invariant in place, whatever the fields of the lock are and whoever calls. A time
  limit is not the largest time, and for an unlocking call the waiters are tasks of the priority policies of which none is frozen: waking a task that waits with a time
  limit and was suspended meanwhile unlinks a node that is in no list.\<close>

theorem rwlock_calls_safe:
  assumes "call_ok s" and "timeout_ok c s"
    and "c = UnLock \<longrightarrow> (\<forall>t \<in> set (waiting s (RwReadList i)) \<union> set (waiting s (RwWriteList i)). ops (tcb s t) = g_priorityOps \<and> \<not> is_frozen (tcb s t))"
  shows "\<exists>s' r. rw_run (Some i) c s = Some (s', r) \<and> k_inv s' \<and> run_ok s' \<and> (r = WaitBlocked \<longrightarrow> currTask s' \<noteq> currTask s)"
proof -
  have out: "k_inv s' \<and> run_ok s' \<and> (r = WaitBlocked \<longrightarrow> currTask s' \<noteq> currTask s)" if "rw_outcome h free grab i s s' r" for h free grab s' r
    using that call_okD [OF assms(1)] by (auto simp: rw_outcome_def rw_blocked_def rw_refused_def)
  consider "is_rd c" | "is_wr c" | "c = UnLock" by (cases c) auto
  then show ?thesis
  proof cases
    case 3
    show ?thesis
    proof (cases "may_unlock i s")
      case True
      then have m: "OsRwlockCheck (Some i) s = LOS_OK" "rw_magic_ok (rwlocks s i)" by (simp_all add: may_unlock_def)
      from True show ?thesis
      proof (cases rule: may_unlock_cases)
        case last
        have "\<forall>t \<in> set (waiting s (RwReadList i)) \<union> set (waiting s (RwWriteList i)). wakeable s t" using assms(3) 3 by (simp add: wakeable_def)
        from unlock_last [OF assms(1) m this last surjective_pairing] show ?thesis by (auto simp: 3)
      qed (use unlock_nested [OF assms(1) m] call_okD [OF assms(1)] 3 in auto)
    qed (use unlock_refused [of i s] call_okD [OF assms(1)] 3 in auto)
  qed (use rd_call_outcome [OF assms(1) _ assms(2), of i] wr_call_outcome [OF assms(1) _ assms(2), of i] out in blast)+
qed

theorem rwlock_calls_safe_witness:
  "(\<exists>s' r. rw_run (Some 0) (WrLock LOS_WAIT_FOREVER) (rw_demo_wait (rw_demo_lock 1 None)) = Some (s', r) \<and> k_inv s' \<and> run_ok s') \<and>
   (\<exists>s' r. rw_run (Some 0) UnLock (rw_demo_wait (rw_demo_lock 1 None)) = Some (s', r) \<and> k_inv s' \<and> run_ok s')"
proof -
  have "\<forall>t \<in> set (waiting (rw_demo_wait (rw_demo_lock 1 None)) (RwReadList 0)) \<union> set (waiting (rw_demo_wait (rw_demo_lock 1 None)) (RwWriteList 0)).
    ops (tcb (rw_demo_wait (rw_demo_lock 1 None)) t) = g_priorityOps \<and> \<not> is_frozen (tcb (rw_demo_wait (rw_demo_lock 1 None)) t)"
    using rw_demo_ok(7) [of "rw_demo_lock 1 None"] by (simp add: rw_demo_ok wakeable_def)
  moreover have "timeout_ok UnLock (rw_demo_wait (rw_demo_lock 1 None))" "timeout_ok (WrLock LOS_WAIT_FOREVER) (rw_demo_wait (rw_demo_lock 1 None))"
    by (simp_all add: rw_demo_wait_def)
  ultimately show ?thesis using rwlock_calls_safe [OF rw_demo_ok(2), of "WrLock LOS_WAIT_FOREVER" "rw_demo_lock 1 None" 0] rwlock_calls_safe [OF rw_demo_ok(2), of UnLock "rw_demo_lock 1 None" 0]
    by blast
qed

end
