(* ===== verification/LosMux.thy ===== *)
theory LosMux
  imports LosLockWait
begin

text \<open>
  Mutexes, \<^verbatim>\<open>kernel/base/ipc/los_mux.c\<close>. A mutex is named by its address \<open>i\<close>; its waiters are the list
  \<open>MuxList i\<close> of the scheduler, and the mutexes a task holds are its \<open>lockList\<close>, in which the node \<open>holdList\<close> of
  a mutex is linked. A pointer argument is an option, \<open>None\<close> for \<open>NULL\<close>, and an output parameter is an additional
  result, \<open>None\<close> when nothing is written. A locking call runs up to the switch to another task; \<open>OsMuxPendOp_resume\<close>
  is the rest of the call. The waiting order is that of \<open>OsSchedLockPendFindPos\<close>, and the priority protocols are the
  inheritance operations of the scheduling policies.
\<close>

section \<open>Data\<close>

abbreviation (input) OS_MUX_MAGIC :: u32 where "OS_MUX_MAGIC \<equiv> 0xEBCFDEA0"
abbreviation (input) LOS_MUX_PRIO_NONE :: u8 where "LOS_MUX_PRIO_NONE \<equiv> 0"
abbreviation (input) LOS_MUX_PRIO_INHERIT :: u8 where "LOS_MUX_PRIO_INHERIT \<equiv> 1"
abbreviation (input) LOS_MUX_PRIO_PROTECT :: u8 where "LOS_MUX_PRIO_PROTECT \<equiv> 2"
abbreviation (input) LOS_MUX_NORMAL :: u8 where "LOS_MUX_NORMAL \<equiv> 0"
abbreviation (input) LOS_MUX_RECURSIVE :: u8 where "LOS_MUX_RECURSIVE \<equiv> 1"
abbreviation (input) LOS_MUX_ERRORCHECK :: u8 where "LOS_MUX_ERRORCHECK \<equiv> 2"
abbreviation (input) LOS_MUX_DEFAULT :: u8 where "LOS_MUX_DEFAULT \<equiv> LOS_MUX_RECURSIVE"
abbreviation (input) OS_TASK_PRIORITY_HIGHEST :: int where "OS_TASK_PRIORITY_HIGHEST \<equiv> 0"
abbreviation (input) OS_TASK_PRIORITY_LOWEST :: int where "OS_TASK_PRIORITY_LOWEST \<equiv> 31"
abbreviation (input) MUTEXATTR_TYPE_MASK :: u8 where "MUTEXATTR_TYPE_MASK \<equiv> 0x0F"
abbreviation (input) OS_TASK_WAIT_MUTEX :: u16 where "OS_TASK_WAIT_MUTEX \<equiv> 10"

record LosMuxAttr =
  protocol :: u8
  prioceiling :: u8
  mux_type :: u8
  reserved :: u8

text \<open>\<open>holdOn\<close> is the task whose \<open>lockList\<close> the node \<open>holdList\<close> is in, \<open>muxLinked\<close> tells that the links of the head
  \<open>muxList\<close> are not \<open>NULL\<close>.\<close>

record LosMux =
  muxMagic :: u32
  attr :: LosMuxAttr
  holdOn :: "nat option"
  muxLinked :: bool
  owner :: "nat option"
  muxCount :: u16

record mux_kstate = kstate +
  muxes :: "nat \<Rightarrow> LosMux"
  lockList :: "nat \<Rightarrow> nat list"

definition upd_mux :: "nat \<Rightarrow> (LosMux \<Rightarrow> LosMux) \<Rightarrow> 'a mux_kstate_scheme \<Rightarrow> 'a mux_kstate_scheme" where
  "upd_mux i f s = s\<lparr>muxes := (muxes s)(i := f (muxes s i))\<rparr>"

text \<open>\<open>LOS_ListTailInsert(&task->lockList, &mutex->holdList)\<close> and \<open>LOS_ListDelete(&mutex->holdList)\<close>.\<close>

definition hold_insert :: "nat \<Rightarrow> nat \<Rightarrow> 'a mux_kstate_scheme \<Rightarrow> 'a mux_kstate_scheme option" where
  "hold_insert t i s =
    (if holdOn (muxes s i) = None
     then Some ((upd_mux i (\<lambda>m. m\<lparr>holdOn := Some t\<rparr>) s)\<lparr>lockList := (lockList s)(t := lockList s t @ [i])\<rparr>)
     else None)"

definition hold_delete :: "nat \<Rightarrow> 'a mux_kstate_scheme \<Rightarrow> 'a mux_kstate_scheme option" where
  "hold_delete i s =
    (case holdOn (muxes s i) of
       None \<Rightarrow> None
     | Some t \<Rightarrow> Some ((upd_mux i (\<lambda>m. m\<lparr>holdOn := None\<rparr>) s)\<lparr>lockList := (lockList s)(t := remove1 i (lockList s t))\<rparr>))"

section \<open>Attributes\<close>

definition LOS_MuxAttrInit :: "LosMuxAttr option \<Rightarrow> LosMuxAttr option \<times> u32" where
  "LOS_MuxAttrInit a =
    (case a of None \<Rightarrow> (None, LOS_EINVAL)
     | Some x \<Rightarrow> (Some (x\<lparr>protocol := LOS_MUX_PRIO_INHERIT, prioceiling := word_of_int OS_TASK_PRIORITY_LOWEST, mux_type := LOS_MUX_DEFAULT\<rparr>), LOS_OK))"

definition LOS_MuxAttrDestroy :: "LosMuxAttr option \<Rightarrow> u32" where
  "LOS_MuxAttrDestroy a = (if a = None then LOS_EINVAL else LOS_OK)"

text \<open>\<open>out\<close> tells that the output pointer is not \<open>NULL\<close>.\<close>

definition LOS_MuxAttrGetType :: "LosMuxAttr option \<Rightarrow> bool \<Rightarrow> u8 option \<times> u32" where
  "LOS_MuxAttrGetType a out =
    (case a of None \<Rightarrow> (None, LOS_EINVAL)
     | Some x \<Rightarrow>
         if \<not> out then (None, LOS_EINVAL)
         else let type = mux_type x AND MUTEXATTR_TYPE_MASK
              in if LOS_MUX_ERRORCHECK < type then (None, LOS_EINVAL) else (Some type, LOS_OK))"

definition LOS_MuxAttrSetType :: "LosMuxAttr option \<Rightarrow> i32 \<Rightarrow> LosMuxAttr option \<times> u32" where
  "LOS_MuxAttrSetType a type =
    (case a of None \<Rightarrow> (None, LOS_EINVAL)
     | Some x \<Rightarrow>
         if sint type < 0 \<or> 2 < sint type then (a, LOS_EINVAL)
         else (Some (x\<lparr>mux_type := ucast ((ucast (mux_type x) AND NOT (ucast MUTEXATTR_TYPE_MASK)) OR type)\<rparr>), LOS_OK))"

definition LOS_MuxAttrGetProtocol :: "LosMuxAttr option \<Rightarrow> bool \<Rightarrow> u8 option \<times> u32" where
  "LOS_MuxAttrGetProtocol a out =
    (case a of Some x \<Rightarrow> if out then (Some (protocol x), LOS_OK) else (None, LOS_EINVAL) | None \<Rightarrow> (None, LOS_EINVAL))"

definition LOS_MuxAttrSetProtocol :: "LosMuxAttr option \<Rightarrow> i32 \<Rightarrow> LosMuxAttr option \<times> u32" where
  "LOS_MuxAttrSetProtocol a prot =
    (case a of None \<Rightarrow> (None, LOS_EINVAL)
     | Some x \<Rightarrow>
         if prot = 0 \<or> prot = 1 \<or> prot = 2 then (Some (x\<lparr>protocol := ucast prot\<rparr>), LOS_OK) else (a, LOS_EINVAL))"

definition LOS_MuxAttrGetPrioceiling :: "LosMuxAttr option \<Rightarrow> bool \<Rightarrow> u8 option \<times> u32" where
  "LOS_MuxAttrGetPrioceiling a out =
    (case a of None \<Rightarrow> (None, LOS_EINVAL) | Some x \<Rightarrow> (if out then Some (prioceiling x) else None, LOS_OK))"

definition LOS_MuxAttrSetPrioceiling :: "LosMuxAttr option \<Rightarrow> i32 \<Rightarrow> LosMuxAttr option \<times> u32" where
  "LOS_MuxAttrSetPrioceiling a prio =
    (case a of None \<Rightarrow> (None, LOS_EINVAL)
     | Some x \<Rightarrow>
         if sint prio < OS_TASK_PRIORITY_HIGHEST \<or> OS_TASK_PRIORITY_LOWEST < sint prio then (a, LOS_EINVAL)
         else (Some (x\<lparr>prioceiling := ucast prio\<rparr>), LOS_OK))"

definition OsCheckMutexAttr :: "LosMuxAttr \<Rightarrow> u32" where
  "OsCheckMutexAttr a =
    (if sint (mux_type a) < 0 \<or> LOS_MUX_ERRORCHECK < mux_type a then LOS_NOK
     else if sint (prioceiling a) < OS_TASK_PRIORITY_HIGHEST \<or> OS_TASK_PRIORITY_LOWEST < uint (prioceiling a) then LOS_NOK
     else if sint (protocol a) < 0 \<or> LOS_MUX_PRIO_PROTECT < protocol a then LOS_NOK
     else LOS_OK)"

section \<open>Creating and destroying\<close>

definition LOS_MuxIsValid :: "nat option \<Rightarrow> 'a mux_kstate_scheme \<Rightarrow> bool" where
  "LOS_MuxIsValid mutex s = (case mutex of Some i \<Rightarrow> muxMagic (muxes s i) = OS_MUX_MAGIC | None \<Rightarrow> False)"

definition LOS_MuxGetPrioceiling :: "nat option \<Rightarrow> bool \<Rightarrow> 'a mux_kstate_scheme \<Rightarrow> u8 option \<times> u32" where
  "LOS_MuxGetPrioceiling mutex out s =
    (case mutex of
       Some i \<Rightarrow> if out \<and> muxMagic (muxes s i) = OS_MUX_MAGIC then (Some (prioceiling (attr (muxes s i))), LOS_OK) else (None, LOS_EINVAL)
     | None \<Rightarrow> (None, LOS_EINVAL))"

definition LOS_MuxInit :: "nat option \<Rightarrow> LosMuxAttr option \<Rightarrow> 'a mux_kstate_scheme \<Rightarrow> 'a mux_kstate_scheme \<times> u32" where
  "LOS_MuxInit mutex a s =
    (case mutex of
       None \<Rightarrow> (s, LOS_EINVAL)
     | Some i \<Rightarrow>
         let s1 = upd_mux i (\<lambda>m. m\<lparr>attr := (case a of None \<Rightarrow> the (fst (LOS_MuxAttrInit (Some (attr m)))) | Some x \<Rightarrow> x)\<rparr>) s
         in if OsCheckMutexAttr (attr (muxes s1 i)) \<noteq> LOS_OK then (s1, LOS_EINVAL)
            else ((upd_mux i (\<lambda>m. m\<lparr>muxCount := 0, owner := None, muxLinked := True, muxMagic := OS_MUX_MAGIC\<rparr>) s1)
                    \<lparr>lists := (lists s)(MuxList i := [])\<rparr>, LOS_OK))"

definition mux_zero :: LosMux where
  "mux_zero = \<lparr>muxMagic = 0, attr = \<lparr>protocol = 0, prioceiling = 0, mux_type = 0, reserved = 0\<rparr>, holdOn = None, muxLinked = False,
    owner = None, muxCount = 0\<rparr>"

definition LOS_MuxDestroy :: "nat option \<Rightarrow> 'a mux_kstate_scheme \<Rightarrow> 'a mux_kstate_scheme \<times> u32" where
  "LOS_MuxDestroy mutex s =
    (case mutex of
       None \<Rightarrow> (s, LOS_EINVAL)
     | Some i \<Rightarrow>
         if muxMagic (muxes s i) \<noteq> OS_MUX_MAGIC then (s, LOS_EBADF)
         else if muxCount (muxes s i) \<noteq> 0 then (s, LOS_EBUSY)
         else (upd_mux i (\<lambda>_. mux_zero) s, LOS_OK))"

section \<open>Locking\<close>

definition SchedParam_zero :: SchedParam where
  "SchedParam_zero = \<lparr>spPolicy = 0, spBasePrio = 0, spPriority = 0, spTimeSlice = 0, spRunTimeUs = 0, spDeadlineUs = 0, spPeriodUs = 0\<rparr>"

definition param_of :: "nat \<Rightarrow> 'a mux_kstate_scheme \<Rightarrow> SchedParam" where
  "param_of t s = fst (ops_schedParamGet t SchedParam_zero s)"

text \<open>A \<open>NULL\<close> owner is followed.\<close>

definition OsMuxBitmapSet :: "nat \<Rightarrow> nat \<Rightarrow> 'a mux_kstate_scheme \<Rightarrow> 'a mux_kstate_scheme option" where
  "OsMuxBitmapSet i runTask s =
    (if protocol (attr (muxes s i)) \<noteq> LOS_MUX_PRIO_INHERIT then Some s
     else do {
       ow \<leftarrow> owner (muxes s i);
       Some (if 0 < OsSchedParamCompare (tcb s ow) (tcb s runTask) then ops_priorityInheritance ow (param_of runTask s) s else s)
     })"

definition OsMuxBitmapRestore :: "nat \<Rightarrow> nat list option \<Rightarrow> nat \<Rightarrow> 'a mux_kstate_scheme \<Rightarrow> 'a mux_kstate_scheme option" where
  "OsMuxBitmapRestore i waiters runTask s =
    (if protocol (attr (muxes s i)) \<noteq> LOS_MUX_PRIO_INHERIT then Some s
     else do {
       ow \<leftarrow> owner (muxes s i);
       Some (ops_priorityRestore ow waiters (param_of runTask s) s)
     })"

text \<open>What follows the wait, with its result.\<close>

definition mux_wait_end :: "nat \<Rightarrow> nat \<Rightarrow> u32 \<Rightarrow> 'a mux_kstate_scheme \<Rightarrow> ('a mux_kstate_scheme \<times> u32) option" where
  "mux_wait_end runTask i ret s =
    (if ret = LOS_ERRNO_TSK_TIMEOUT
     then do {
       s1 \<leftarrow> OsMuxBitmapRestore i None runTask s;
       Some (upd_task runTask (\<lambda>c. c\<lparr>taskMux := None\<rparr>) s1, LOS_ETIMEDOUT)
     }
     else Some (s, ret))"

definition OsMuxPendOp_resume :: "nat \<Rightarrow> nat \<Rightarrow> 'a mux_kstate_scheme \<Rightarrow> ('a mux_kstate_scheme \<times> u32) option" where
  "OsMuxPendOp_resume runTask i s = (case wait_resume runTask s of (s1, ret) \<Rightarrow> mux_wait_end runTask i ret s1)"

definition mux_take :: "nat \<Rightarrow> nat \<Rightarrow> 'a mux_kstate_scheme \<Rightarrow> 'a mux_kstate_scheme option" where
  "mux_take runTask i s = do {
     s1 \<leftarrow> hold_insert runTask i (upd_mux i (\<lambda>m. m\<lparr>muxCount := muxCount m + 1, owner := Some runTask\<rparr>) s);
     Some (if protocol (attr (muxes s1 i)) = LOS_MUX_PRIO_PROTECT
           then ops_priorityInheritance runTask ((param_of runTask s1)\<lparr>spPriority := ucast (prioceiling (attr (muxes s1 i)))\<rparr>) s1
           else s1)
   }"

definition mux_wait :: "nat \<Rightarrow> nat \<Rightarrow> u32 \<Rightarrow> 'a mux_kstate_scheme \<Rightarrow> ('a mux_kstate_scheme \<times> wait_result) option" where
  "mux_wait runTask i timeout s = do {
     s1 \<leftarrow> OsMuxBitmapSet i runTask s;
     let s2 = upd_task runTask (\<lambda>c. c\<lparr>taskMux := Some i\<rparr>) s1;
     case OsSchedLockPendFindPos (tcb s2) (tcb s2 runTask) (lists s2 (MuxList i)) of
       None \<Rightarrow> Some (s2, WaitRet LOS_NOK)
     | Some node \<Rightarrow> do {
         (s3, r) \<leftarrow> ops_wait runTask (MuxList i) node timeout (OsTaskWaitSetPendMask OS_TASK_WAIT_MUTEX (of_nat i) s2);
         case r of
           WaitBlocked \<Rightarrow> Some (s3, WaitBlocked)
         | WaitRet ret \<Rightarrow> map_option (\<lambda>(s4, ret'). (s4, WaitRet ret')) (mux_wait_end runTask i ret s3)
       }
   }"

definition OsMuxPendOp :: "nat \<Rightarrow> nat \<Rightarrow> u32 \<Rightarrow> 'a mux_kstate_scheme \<Rightarrow> ('a mux_kstate_scheme \<times> wait_result) option" where
  "OsMuxPendOp runTask i timeout s =
    (let s0 = (if muxLinked (muxes s i) then s
               else (upd_mux i (\<lambda>m. m\<lparr>muxCount := 0, owner := None, muxLinked := True\<rparr>) s)\<lparr>lists := (lists s)(MuxList i := [])\<rparr>);
         m = muxes s0 i
     in if muxCount m = 0 then map_option (\<lambda>s1. (s1, WaitRet LOS_OK)) (mux_take runTask i s0)
        else if owner m = Some runTask \<and> mux_type (attr m) = LOS_MUX_RECURSIVE
        then Some (if muxCount m < 0xFFFF then upd_mux i (\<lambda>m. m\<lparr>muxCount := muxCount m + 1\<rparr>) s0 else s0, WaitRet LOS_OK)
        else if timeout = 0 then Some (s0, WaitRet LOS_EINVAL)
        else case OsPreemptableInSched s0 of
          (s1, False) \<Rightarrow> Some (s1, WaitRet LOS_EDEADLK)
        | (s1, True) \<Rightarrow> mux_wait runTask i timeout s1)"

definition OsMuxLockUnsafe :: "nat \<Rightarrow> u32 \<Rightarrow> 'a mux_kstate_scheme \<Rightarrow> ('a mux_kstate_scheme \<times> wait_result) option" where
  "OsMuxLockUnsafe i timeout s =
    (let runTask = currTask s; m = muxes s i
     in if muxMagic m \<noteq> OS_MUX_MAGIC then Some (s, WaitRet LOS_EBADF)
        else if OsCheckMutexAttr (attr m) \<noteq> LOS_OK then Some (s, WaitRet LOS_EINVAL)
        else if mux_type (attr m) = LOS_MUX_ERRORCHECK \<and> owner m = Some runTask then Some (s, WaitRet LOS_EDEADLK)
        else OsMuxPendOp runTask i timeout s)"

definition OsMuxTrylockUnsafe :: "nat \<Rightarrow> u32 \<Rightarrow> 'a mux_kstate_scheme \<Rightarrow> ('a mux_kstate_scheme \<times> wait_result) option" where
  "OsMuxTrylockUnsafe i timeout s =
    (let runTask = currTask s; m = muxes s i
     in if muxMagic m \<noteq> OS_MUX_MAGIC then Some (s, WaitRet LOS_EBADF)
        else if OsCheckMutexAttr (attr m) \<noteq> LOS_OK then Some (s, WaitRet LOS_EINVAL)
        else if owner m \<noteq> None \<and> (owner m \<noteq> Some runTask \<or> mux_type (attr m) \<noteq> LOS_MUX_RECURSIVE) then Some (s, WaitRet LOS_EBUSY)
        else OsMuxPendOp runTask i timeout s)"

definition LOS_MuxLock :: "nat option \<Rightarrow> u32 \<Rightarrow> 'a mux_kstate_scheme \<Rightarrow> ('a mux_kstate_scheme \<times> wait_result) option" where
  "LOS_MuxLock mutex timeout s =
    (case mutex of
       None \<Rightarrow> Some (s, WaitRet LOS_EINVAL)
     | Some i \<Rightarrow> if intActive s then Some (s, WaitRet LOS_EINTR) else OsMuxLockUnsafe i timeout s)"

definition LOS_MuxTrylock :: "nat option \<Rightarrow> 'a mux_kstate_scheme \<Rightarrow> ('a mux_kstate_scheme \<times> wait_result) option" where
  "LOS_MuxTrylock mutex s =
    (case mutex of
       None \<Rightarrow> Some (s, WaitRet LOS_EINVAL)
     | Some i \<Rightarrow> if intActive s then Some (s, WaitRet LOS_EINTR) else OsMuxTrylockUnsafe i 0 s)"

section \<open>Unlocking\<close>

text \<open>The last result is \<open>*needSched\<close>, initially false.\<close>

definition OsMuxPostOp :: "nat \<Rightarrow> 'a mux_kstate_scheme \<Rightarrow> ('a mux_kstate_scheme \<times> u32 \<times> bool) option" where
  "OsMuxPostOp i s =
    (case lists s (MuxList i) of
       [] \<Rightarrow> do {
         s1 \<leftarrow> hold_delete i s;
         Some (upd_mux i (\<lambda>m. m\<lparr>owner := None\<rparr>) s1, LOS_OK, False)
       }
     | resumedTask # _ \<Rightarrow> do {
         s1 \<leftarrow> OsMuxBitmapRestore i (Some (lists s (MuxList i))) resumedTask s;
         s2 \<leftarrow> hold_delete i (upd_mux i (\<lambda>m. m\<lparr>muxCount := 1, owner := Some resumedTask\<rparr>) s1);
         s3 \<leftarrow> hold_insert resumedTask i s2;
         s4 \<leftarrow> ops_wake resumedTask (OsTaskWakeClearPendMask resumedTask s3);
         Some (upd_task resumedTask (\<lambda>c. c\<lparr>taskMux := None\<rparr>) s4, LOS_OK, True)
       })"

definition OsMuxUnlockUnsafe :: "nat \<Rightarrow> nat \<Rightarrow> 'a mux_kstate_scheme \<Rightarrow> ('a mux_kstate_scheme \<times> u32 \<times> bool) option" where
  "OsMuxUnlockUnsafe taskCB i s =
    (let m = muxes s i
     in if muxMagic m \<noteq> OS_MUX_MAGIC then Some (s, LOS_EBADF, False)
        else if OsCheckMutexAttr (attr m) \<noteq> LOS_OK then Some (s, LOS_EINVAL, False)
        else if owner m \<noteq> Some taskCB then Some (s, LOS_EPERM, False)
        else if muxCount m = 0 then Some (s, LOS_EPERM, False)
        else let s1 = upd_mux i (\<lambda>m. m\<lparr>muxCount := muxCount m - 1\<rparr>) s
             in if muxCount (muxes s1 i) \<noteq> 0 \<and> mux_type (attr m) = LOS_MUX_RECURSIVE then Some (s1, LOS_OK, False)
                else OsMuxPostOp i (if protocol (attr m) = LOS_MUX_PRIO_PROTECT
                                    then ops_priorityRestore taskCB None (param_of taskCB s1) s1 else s1))"

definition LOS_MuxUnlock :: "nat option \<Rightarrow> 'a mux_kstate_scheme \<Rightarrow> ('a mux_kstate_scheme \<times> u32) option" where
  "LOS_MuxUnlock mutex s =
    (case mutex of
       None \<Rightarrow> Some (s, LOS_EINVAL)
     | Some i \<Rightarrow>
         if intActive s then Some (s, LOS_EINTR)
         else do {
           (s1, ret, needSched) \<leftarrow> OsMuxUnlockUnsafe (currTask s) i s;
           s2 \<leftarrow> (if needSched then LOS_Schedule s1 else Some s1);
           Some (s2, ret)
         })"

text \<open>\<open>LOS_MuxSetPrioceiling\<close>: \<open>mux_set_ceiling\<close> is what follows the lock; the last result is \<open>*oldPrioceiling\<close>.\<close>

definition mux_set_ceiling :: "nat \<Rightarrow> i32 \<Rightarrow> bool \<Rightarrow> 'a mux_kstate_scheme \<Rightarrow> ('a mux_kstate_scheme \<times> u32 \<times> u8 option) option" where
  "mux_set_ceiling i prio out s = do {
     let old = (if out then Some (prioceiling (attr (muxes s i))) else None);
     let (a, ret) = LOS_MuxAttrSetPrioceiling (Some (attr (muxes s i))) prio;
     (s1, retLock) \<leftarrow> LOS_MuxUnlock (Some i) (upd_mux i (\<lambda>m. m\<lparr>attr := the a\<rparr>) s);
     Some (s1, if ret = LOS_OK \<and> retLock \<noteq> LOS_OK then retLock else ret, old)
   }"

definition LOS_MuxSetPrioceiling :: "nat option \<Rightarrow> i32 \<Rightarrow> bool \<Rightarrow> 'a mux_kstate_scheme \<Rightarrow> ('a mux_kstate_scheme \<times> wait_result \<times> u8 option) option" where
  "LOS_MuxSetPrioceiling mutex prio out s =
    (if mutex = None \<or> sint prio < OS_TASK_PRIORITY_HIGHEST \<or> OS_TASK_PRIORITY_LOWEST < sint prio then Some (s, WaitRet LOS_EINVAL, None)
     else do {
       (s1, r) \<leftarrow> LOS_MuxLock mutex LOS_WAIT_FOREVER s;
       if r = WaitRet LOS_OK then map_option (\<lambda>(s2, ret, old). (s2, WaitRet ret, old)) (mux_set_ceiling (the mutex) prio out s1)
       else Some (s1, r, None)
     })"

section \<open>What the calls change\<close>

lemma upd_mux_frame [simp]:
  "muxes (upd_mux i f s) = (muxes s)(i := f (muxes s i))" "lockList (upd_mux i f s) = lockList s" "lists (upd_mux i f s) = lists s"
  "tcb (upd_mux i f s) = tcb s" "currTask (upd_mux i f s) = currTask s" "intActive (upd_mux i f s) = intActive s"
  "kstate.truncate (upd_mux i f s) = kstate.truncate s"
  by (simp_all add: upd_mux_def kstate.truncate_def)

lemma mux_more:
  assumes "kstate.more s' = kstate.more s"
  shows "muxes s' = muxes s" and "lockList s' = lockList s"
  using assms by (cases s; cases s'; simp)+

lemma mux_upd_task [simp]: "muxes (upd_task t f s) = muxes s" "lockList (upd_task t f s) = lockList s"
  by (rule mux_more; simp)+

lemma mux_lists [simp]: "muxes (s\<lparr>lists := l\<rparr>) = muxes s" "lockList (s\<lparr>lists := l\<rparr>) = lockList s"
  by (rule mux_more; simp)+

lemma mux_pend_mask [simp]:
  "muxes (OsTaskWaitSetPendMask f x s) = muxes s" "lockList (OsTaskWaitSetPendMask f x s) = lockList s"
  "muxes (OsTaskWakeClearPendMask t s) = muxes s" "lockList (OsTaskWakeClearPendMask t s) = lockList s"
  by (rule mux_more; simp)+

lemma mux_inheritance [simp]:
  "muxes (ops_priorityInheritance t p s) = muxes s" "lockList (ops_priorityInheritance t p s) = lockList s"
  "muxes (ops_priorityRestore t w p s) = muxes s" "lockList (ops_priorityRestore t w p s) = lockList s"
  by (simp_all add: ops_priorityInheritance_def HPFPriorityInheritance_def ops_priorityRestore_def HPFPriorityRestore_def upd_sp_def Let_def
      split: SchedOps.split)

text \<open>The mutexes and the lists of held mutexes: what a call changes of them does not depend on the scheduler.\<close>

definition locks_of :: "'a mux_kstate_scheme \<Rightarrow> (nat \<Rightarrow> LosMux) \<times> (nat \<Rightarrow> nat list)" where
  "locks_of s = (muxes s, lockList s)"

lemma locks_frame [simp]:
  "locks_of (upd_task t f s) = locks_of s" "locks_of (s\<lparr>lists := l\<rparr>) = locks_of s"
  "locks_of (OsTaskWaitSetPendMask g x s) = locks_of s" "locks_of (OsTaskWakeClearPendMask t s) = locks_of s"
  "locks_of (ops_priorityInheritance t p s) = locks_of s" "locks_of (ops_priorityRestore t w p s) = locks_of s"
  by (simp_all add: locks_of_def)

lemma locks_ofD: "locks_of s' = locks_of s \<Longrightarrow> muxes s' = muxes s" "locks_of s' = locks_of s \<Longrightarrow> lockList s' = lockList s"
  by (simp_all add: locks_of_def)

lemma more_locks: "kstate.more s' = kstate.more s \<Longrightarrow> locks_of s' = locks_of s"
  using mux_more [of s' s] by (simp add: locks_of_def)

lemma locks_calls:
  "ops_wait t h k ticks s = Some (s', r) \<Longrightarrow> locks_of s' = locks_of s"
  "ops_wake t s = Some s' \<Longrightarrow> locks_of s' = locks_of s"
  "LOS_Schedule s = Some s' \<Longrightarrow> locks_of s' = locks_of s"
  "OsPreemptableInSched s = (s', b) \<Longrightarrow> locks_of s' = locks_of s"
  "wait_resume t s = (s', u) \<Longrightarrow> locks_of s' = locks_of s"
  using ops_wait_more ops_wake_more LOS_Schedule_more more_locks
  by (blast, blast, blast)
    (auto simp: OsPreemptableInSched_def wait_resume_def clr_status_def intro!: more_locks split: if_splits)

lemma locks_boost:
  "OsMuxBitmapSet i t s = Some s' \<Longrightarrow> locks_of s' = locks_of s"
  "OsMuxBitmapRestore i w t s = Some s' \<Longrightarrow> locks_of s' = locks_of s"
  by (auto simp: OsMuxBitmapSet_def OsMuxBitmapRestore_def bind_eq_Some_conv split: if_splits)

lemma locks_wait_end: "mux_wait_end t i ret s = Some (s', r) \<Longrightarrow> locks_of s' = locks_of s"
  by (auto simp: mux_wait_end_def bind_eq_Some_conv dest!: locks_boost split: if_splits)

lemma locks_wait:
  assumes "mux_wait t i timeout s = Some (s', r)"
  shows "locks_of s' = locks_of s"
proof -
  from assms obtain s1 where s1: "OsMuxBitmapSet i t s = Some s1" by (auto simp: mux_wait_def bind_eq_Some_conv)
  define s2 where "s2 = upd_task t (\<lambda>c. c\<lparr>taskMux := Some i\<rparr>) s1"
  have s2: "locks_of s2 = locks_of s" using locks_boost(1) [OF s1] by (simp add: s2_def)
  show ?thesis
  proof (cases "OsSchedLockPendFindPos (tcb s2) (tcb s2 t) (lists s2 (MuxList i))")
    case None
    with assms s1 s2 show ?thesis by (auto simp: mux_wait_def s2_def)
  next
    case (Some node)
    with assms s1 obtain s3 r' where s3: "ops_wait t (MuxList i) node timeout (OsTaskWaitSetPendMask OS_TASK_WAIT_MUTEX (of_nat i) s2) = Some (s3, r')"
      and rest: "(case r' of WaitBlocked \<Rightarrow> Some (s3, WaitBlocked) | WaitRet ret \<Rightarrow> map_option (\<lambda>(s4, ret'). (s4, WaitRet ret')) (mux_wait_end t i ret s3)) = Some (s', r)"
      by (auto simp: mux_wait_def s2_def bind_eq_Some_conv Let_def)
    from rest have "locks_of s' = locks_of s3" by (cases r') (auto dest!: locks_wait_end)
    with locks_calls(1) [OF s3] s2 show ?thesis by simp
  qed
qed

section \<open>Ownership\<close>

text \<open>The node of a mutex is in the list of its owner and in no other, a free mutex has no owner, and only a recursive
  mutex is held more than once.\<close>

definition mux_ok :: "LosMux \<Rightarrow> bool" where
  "mux_ok m \<longleftrightarrow> (muxCount m = 0 \<longleftrightarrow> owner m = None) \<and> holdOn m = owner m \<and>
    (mux_type (attr m) \<noteq> LOS_MUX_RECURSIVE \<longrightarrow> muxCount m = 0 \<or> muxCount m = 1) \<and> (muxMagic m = OS_MUX_MAGIC \<or> owner m \<noteq> None \<longrightarrow> muxLinked m)"

definition mux_inv :: "'a mux_kstate_scheme \<Rightarrow> bool" where
  "mux_inv s \<longleftrightarrow> (\<forall>i. mux_ok (muxes s i)) \<and>
    (\<forall>t. distinct (lockList s t) \<and> (\<forall>i. i \<in> set (lockList s t) \<longleftrightarrow> owner (muxes s i) = Some t))"

lemma mux_invD:
  assumes "mux_inv s"
  shows "mux_ok (muxes s i)" and "distinct (lockList s t)" and "i \<in> set (lockList s t) \<longleftrightarrow> owner (muxes s i) = Some t"
  using assms by (simp_all add: mux_inv_def)

lemma mux_inv_locks: "locks_of s' = locks_of s \<Longrightarrow> mux_inv s' = mux_inv s"
  by (simp add: mux_inv_def locks_of_def)

lemma mux_inv_upd:
  assumes "mux_inv s" and "mux_ok m" and "owner m = owner (muxes s i)"
    and "muxes s' = (muxes s)(i := m)" and "lockList s' = lockList s"
  shows "mux_inv s'"
  using assms by (auto simp: mux_inv_def)

lemma mux_inv_take:
  assumes "mux_inv s" and "mux_ok m" and "owner m = Some t" and "owner (muxes s i) = None"
    and "muxes s' = (muxes s)(i := m)" and "lockList s' = (lockList s)(t := lockList s t @ [i])"
  shows "mux_inv s'"
  using assms by (auto simp: mux_inv_def)

lemma mux_inv_drop:
  assumes "mux_inv s" and "mux_ok m" and "owner m = None" and "owner (muxes s i) = Some t"
    and "muxes s' = (muxes s)(i := m)" and "lockList s' = (lockList s)(t := remove1 i (lockList s t))"
  shows "mux_inv s'"
  using assms by (auto simp: mux_inv_def)

lemma mux_ok_cong:
  "mux_ok (m\<lparr>attr := a\<rparr>) \<longleftrightarrow> mux_ok m" if "mux_type a = mux_type (attr m)"
  using that by (simp add: mux_ok_def)

lemma inv_hold:
  assumes "mux_inv s"
  shows "owner (muxes s i) = None \<Longrightarrow> muxCount (muxes s i) = 0 \<and> holdOn (muxes s i) = None"
    and "owner (muxes s i) = Some t \<Longrightarrow> muxCount (muxes s i) \<noteq> 0 \<and> holdOn (muxes s i) = Some t \<and> muxLinked (muxes s i)"
  using mux_invD(1) [OF assms, of i] by (auto simp: mux_ok_def)

lemma MuxInit_inv:
  assumes "mux_inv s" and "holdOn (muxes s i) = None" and "LOS_MuxInit (Some i) a s = (s', r)"
  shows "mux_inv s'"
proof -
  have m: "owner (muxes s i) = None" "muxCount (muxes s i) = 0" using mux_invD(1) [OF assms(1), of i] assms(2) by (auto simp: mux_ok_def)
  have "mux_ok (muxes s' i)" "owner (muxes s' i) = None" "muxes s' = (muxes s)(i := muxes s' i)" "lockList s' = lockList s"
    using assms(2,3) m mux_invD(1) [OF assms(1), of i] by (auto simp: LOS_MuxInit_def Let_def mux_ok_def split: if_split_asm)
  then show ?thesis using mux_inv_upd [OF assms(1), of "muxes s' i" i s'] m by auto
qed

lemma MuxDestroy_inv:
  assumes "mux_inv s" and "LOS_MuxDestroy mutex s = (s', r)"
  shows "mux_inv s'"
proof (cases "s' = s")
  case False
  with assms(2) obtain i where i: "muxCount (muxes s i) = 0" "s' = upd_mux i (\<lambda>_. mux_zero) s"
    by (auto simp: LOS_MuxDestroy_def split: option.splits if_splits)
  then have "owner (muxes s i) = None" using mux_invD(1) [OF assms(1), of i] by (simp add: mux_ok_def)
  then show ?thesis using i by (intro mux_inv_upd [OF assms(1), of mux_zero i]) (simp_all add: mux_zero_def mux_ok_def)
qed (use assms(1) in simp)

text \<open>Who holds a mutex, and how often.\<close>

definition held :: "'a mux_kstate_scheme \<Rightarrow> nat \<Rightarrow> (nat \<times> nat) option" where
  "held s i = map_option (\<lambda>t. (t, unat (muxCount (muxes s i)))) (owner (muxes s i))"

lemma held_locks: "locks_of s' = locks_of s \<Longrightarrow> held s' = held s"
  by (simp add: fun_eq_iff held_def locks_of_def)

text \<open>The holder after a granted lock: the counter stops at its largest value.\<close>

definition mux_granted :: "nat \<Rightarrow> nat \<Rightarrow> 'a mux_kstate_scheme \<Rightarrow> 'a mux_kstate_scheme \<Rightarrow> bool" where
  "mux_granted t i s s' \<longleftrightarrow>
    held s i = None \<and> held s' = (held s)(i \<mapsto> (t, 1)) \<or>
    (\<exists>n. held s i = Some (t, n) \<and> mux_type (attr (muxes s i)) = LOS_MUX_RECURSIVE \<and> held s' = (held s)(i \<mapsto> (t, min 65535 (n + 1))))"

lemma mux_take_spec:
  assumes inv: "mux_inv s" and free: "muxCount (muxes s i) = 0" "muxLinked (muxes s i)"
  shows "\<exists>s'. mux_take t i s = Some s' \<and> mux_inv s' \<and> held s' = (held s)(i \<mapsto> (t, 1)) \<and> lockList s' = (lockList s)(t := lockList s t @ [i])"
proof -
  have m: "owner (muxes s i) = None" "holdOn (muxes s i) = None" using mux_invD(1) [OF inv, of i] free by (auto simp: mux_ok_def)
  let ?m = "(muxes s i)\<lparr>muxCount := 1, owner := Some t, holdOn := Some t\<rparr>"
  obtain s' where s': "mux_take t i s = Some s'" "muxes s' = (muxes s)(i := ?m)" "lockList s' = (lockList s)(t := lockList s t @ [i])"
    using m free by (auto simp: mux_take_def hold_insert_def)
  have "mux_ok ?m" using free by (simp add: mux_ok_def)
  with s' m have "mux_inv s'" by (intro mux_inv_take [OF inv, of ?m t i]) simp_all
  moreover have "held s' = (held s)(i \<mapsto> (t, 1))" using s' by (auto simp: held_def fun_eq_iff)
  ultimately show ?thesis using s' by blast
qed

lemma mux_nest_spec:
  assumes inv: "mux_inv s" and o: "owner (muxes s i) = Some t" "mux_type (attr (muxes s i)) = LOS_MUX_RECURSIVE"
    and s': "s' = (if muxCount (muxes s i) < 0xFFFF then upd_mux i (\<lambda>m. m\<lparr>muxCount := muxCount m + 1\<rparr>) s else s)"
  shows "mux_inv s' \<and> mux_granted t i s s'"
proof -
  let ?m = "muxes s i" let ?c = "muxCount ?m" let ?n = "if ?c < 0xFFFF then ?m\<lparr>muxCount := ?c + 1\<rparr> else ?m"
  have e: "muxes s' = (muxes s)(i := ?n)" "lockList s' = lockList s" by (simp_all add: s')
  have c: "?c < 0xFFFF \<Longrightarrow> unat (?c + 1) = unat ?c + 1" "?c < 0xFFFF \<longleftrightarrow> unat ?c < 65535" "unat ?c \<le> 65535"
    using unsigned_less [of ?c, where 'a = nat] by (auto simp: word_less_nat_alt unat_word_ariths)
  then have ne: "?c < 0xFFFF \<Longrightarrow> ?c + 1 \<noteq> 0" by (metis add_is_0 unat_0 zero_neq_one)
  have "mux_ok ?n" using mux_invD(1) [OF inv, of i] o ne by (auto simp: mux_ok_def)
  with e have "mux_inv s'" by (intro mux_inv_upd [OF inv, of ?n i]) simp_all
  moreover have "held s i = Some (t, unat ?c)" using o by (simp add: held_def)
  moreover have "held s' = (held s)(i \<mapsto> (t, min 65535 (unat ?c + 1)))" using e o c by (auto simp: held_def fun_eq_iff min_def)
  ultimately show ?thesis using o by (auto simp: mux_granted_def)
qed

text \<open>A locking call that comes back with \<open>LOS_OK\<close> granted the mutex; every other outcome leaves all mutexes as they were.\<close>

lemma PendOp_locks:
  assumes inv: "mux_inv s" and magic: "muxMagic (muxes s i) = OS_MUX_MAGIC" and run: "OsMuxPendOp t i timeout s = Some (s', r)"
  shows "mux_inv s'" and "locks_of s' = locks_of s \<or> r = WaitRet LOS_OK \<and> mux_granted t i s s'"
proof -
  have l: "muxLinked (muxes s i)" using mux_invD(1) [OF inv, of i] magic by (simp add: mux_ok_def)
  let ?m = "muxes s i" let ?c = "muxCount ?m"
  have all: "mux_inv s' \<and> (locks_of s' = locks_of s \<or> r = WaitRet LOS_OK \<and> mux_granted t i s s')"
  proof -
    consider "?c = 0" | "?c \<noteq> 0" "owner ?m = Some t" "mux_type (attr ?m) = LOS_MUX_RECURSIVE"
      | "?c \<noteq> 0" "\<not> (owner ?m = Some t \<and> mux_type (attr ?m) = LOS_MUX_RECURSIVE)" by blast
    then show ?thesis
    proof cases
      case 1
      then have "held s i = None" using mux_invD(1) [OF inv, of i] by (simp add: held_def mux_ok_def)
      with mux_take_spec [OF inv 1 l, of t] run l 1 show ?thesis by (auto simp: OsMuxPendOp_def mux_granted_def)
    next
      case 2
      then show ?thesis using mux_nest_spec [OF inv 2(2,3)] run l by (auto simp: OsMuxPendOp_def)
    next
      case 3
      with run l have "locks_of s' = locks_of s"
        by (auto simp: OsMuxPendOp_def dest!: locks_calls locks_wait split: if_split_asm prod.split_asm bool.split_asm)
      then show ?thesis using mux_inv_locks inv by blast
    qed
  qed
  then show "mux_inv s'" "locks_of s' = locks_of s \<or> r = WaitRet LOS_OK \<and> mux_granted t i s s'" by simp_all
qed

lemma mux_inv_move:
  assumes "mux_inv s" and "mux_ok m" and "owner m = Some w" and "owner (muxes s i) = Some t" and "muxes s' = (muxes s)(i := m)"
    and "lockList s' = ((lockList s)(t := remove1 i (lockList s t)))(w := ((lockList s)(t := remove1 i (lockList s t))) w @ [i])"
  shows "mux_inv s'"
  using assms by (auto simp: mux_inv_def split: if_splits)

lemma PostOp_ret: "OsMuxPostOp i s = Some (s', ret, b) \<Longrightarrow> ret = LOS_OK"
  by (auto simp: OsMuxPostOp_def bind_eq_Some_conv split: list.split_asm)

text \<open>The release of the last hold, on the mutexes alone.\<close>

lemma PostOp_locks:
  assumes run: "OsMuxPostOp i s = Some (s', ret, b)" and h: "holdOn (muxes s i) = Some t"
  shows "ret = LOS_OK" and
    "case lists s (MuxList i) of
       [] \<Rightarrow> muxes s' = (muxes s)(i := (muxes s i)\<lparr>owner := None, holdOn := None\<rparr>) \<and> lockList s' = (lockList s)(t := remove1 i (lockList s t))
     | w # _ \<Rightarrow> muxes s' = (muxes s)(i := (muxes s i)\<lparr>muxCount := 1, owner := Some w, holdOn := Some w\<rparr>) \<and>
         lockList s' = ((lockList s)(t := remove1 i (lockList s t)))(w := ((lockList s)(t := remove1 i (lockList s t))) w @ [i])"
proof -
  let ?L = "(lockList s)(t := remove1 i (lockList s t))"
  show "ret = LOS_OK" by (rule PostOp_ret [OF run])
  show "case lists s (MuxList i) of
       [] \<Rightarrow> muxes s' = (muxes s)(i := (muxes s i)\<lparr>owner := None, holdOn := None\<rparr>) \<and> lockList s' = ?L
     | w # _ \<Rightarrow> muxes s' = (muxes s)(i := (muxes s i)\<lparr>muxCount := 1, owner := Some w, holdOn := Some w\<rparr>) \<and>
         lockList s' = ?L(w := ?L w @ [i])"
  proof (cases "lists s (MuxList i)")
    case Nil
    with run h show ?thesis by (auto simp: OsMuxPostOp_def hold_delete_def)
  next
    case (Cons w ws)
    with run obtain s1 s2 s3 s4 where s1: "OsMuxBitmapRestore i (Some (w # ws)) w s = Some s1"
      and s2: "hold_delete i (upd_mux i (\<lambda>m. m\<lparr>muxCount := 1, owner := Some w\<rparr>) s1) = Some s2"
      and s3: "hold_insert w i s2 = Some s3" and s4: "ops_wake w (OsTaskWakeClearPendMask w s3) = Some s4"
      and s': "s' = upd_task w (\<lambda>c. c\<lparr>taskMux := None\<rparr>) s4" by (auto simp: OsMuxPostOp_def bind_eq_Some_conv)
    have l1: "muxes s1 = muxes s" "lockList s1 = lockList s" using locks_ofD [OF locks_boost(2) [OF s1]] by simp_all
    have l4: "muxes s' = muxes s3" "lockList s' = lockList s3" using locks_ofD [OF locks_calls(2) [OF s4]] by (simp_all add: s')
    from s2 s3 h have "muxes s3 = (muxes s)(i := (muxes s i)\<lparr>muxCount := 1, owner := Some w, holdOn := Some w\<rparr>)" "lockList s3 = ?L(w := ?L w @ [i])"
      by (auto simp: hold_delete_def hold_insert_def l1)
    with Cons l4 show ?thesis by simp
  qed
qed

text \<open>The holder after a release: one hold less, or the first waiter, or nobody.\<close>

definition mux_released :: "nat \<Rightarrow> nat \<Rightarrow> 'a mux_kstate_scheme \<Rightarrow> 'a mux_kstate_scheme \<Rightarrow> bool" where
  "mux_released t i s s' \<longleftrightarrow> (\<exists>n. held s i = Some (t, Suc n) \<and>
    held s' = (held s)(i := if n \<noteq> 0 then Some (t, n) else case lists s (MuxList i) of [] \<Rightarrow> None | w # _ \<Rightarrow> Some (w, 1)))"

lemma Unlock_locks:
  assumes inv: "mux_inv s" and run: "OsMuxUnlockUnsafe t i s = Some (s', ret, b)"
  shows "mux_inv s'" and "s' = s \<and> ret \<noteq> LOS_OK \<or> ret = LOS_OK \<and> mux_released t i s s'"
proof -
  let ?m = "muxes s i" let ?c = "muxCount ?m"
  have ok: "mux_ok ?m" by (rule mux_invD(1) [OF inv])
  have all: "mux_inv s' \<and> (s' = s \<and> ret \<noteq> LOS_OK \<or> ret = LOS_OK \<and> mux_released t i s s')"
  proof (cases "muxMagic ?m = OS_MUX_MAGIC \<and> OsCheckMutexAttr (attr ?m) = LOS_OK \<and> owner ?m = Some t \<and> ?c \<noteq> 0")
    case False
    with run inv show ?thesis by (auto simp: OsMuxUnlockUnsafe_def Let_def split: if_split_asm)
  next
    case g: True
    define n where "n = unat (?c - 1)"
    have c: "unat ?c = Suc n" using g by (simp add: n_def unat_gt_0 unat_minus_one)
    have h: "held s i = Some (t, Suc n)" using g c by (simp add: held_def)
    define s1 where "s1 = upd_mux i (\<lambda>m. m\<lparr>muxCount := muxCount m - 1\<rparr>) s"
    define s2 where "s2 = (if protocol (attr ?m) = LOS_MUX_PRIO_PROTECT then ops_priorityRestore t None (param_of t s1) s1 else s1)"
    show ?thesis
    proof (cases "?c - 1 \<noteq> 0 \<and> mux_type (attr ?m) = LOS_MUX_RECURSIVE")
      case True
      with run g have s': "s' = s1" "ret = LOS_OK" by (simp_all add: OsMuxUnlockUnsafe_def Let_def s1_def)
      have "mux_ok (?m\<lparr>muxCount := ?c - 1\<rparr>)" using ok g True by (auto simp: mux_ok_def)
      then have "mux_inv s'" unfolding s' s1_def by (intro mux_inv_upd [OF inv, of _ i]) simp_all
      moreover have "n \<noteq> 0" using True by (simp add: n_def unat_eq_0)
      moreover have "held s' = (held s)(i \<mapsto> (t, n))" using g by (auto simp: s' s1_def held_def fun_eq_iff n_def)
      ultimately show ?thesis using s'(2) h by (auto simp: mux_released_def)
    next
      case False
      with run g have post: "OsMuxPostOp i s2 = Some (s', ret, b)" by (auto simp: OsMuxUnlockUnsafe_def Let_def s1_def s2_def split: if_split_asm)
      have c1: "?c - 1 = 0" using False ok g by (auto simp: mux_ok_def)
      then have n: "n = 0" by (simp add: n_def)
      have s2: "muxes s2 = (muxes s)(i := ?m\<lparr>muxCount := 0\<rparr>)" "lockList s2 = lockList s"
        using c1 by (simp_all add: s2_def s1_def)
      have l2: "lists s2 = lists s"
        by (simp add: s2_def s1_def ops_priorityRestore_def HPFPriorityRestore_def upd_sp_def Let_def split: SchedOps.split)
      have hold: "holdOn (muxes s2 i) = Some t" "muxLinked ?m" using ok g by (simp_all add: s2 mux_ok_def)
      note p = PostOp_locks [OF post hold(1)]
      show ?thesis
      proof (cases "lists s (MuxList i)")
        case Nil
        let ?n = "?m\<lparr>muxCount := 0, owner := None, holdOn := None\<rparr>"
        have e: "muxes s' = (muxes s)(i := ?n)" "lockList s' = (lockList s)(t := remove1 i (lockList s t))" using p(2) Nil by (simp_all add: s2 l2)
        have "mux_ok ?n" using hold(2) by (simp add: mux_ok_def)
        then have "mux_inv s'" using g e by (intro mux_inv_drop [OF inv, of ?n i t]) simp_all
        moreover have "held s' = (held s)(i := None)" using e by (auto simp: held_def fun_eq_iff)
        ultimately show ?thesis using p(1) h n Nil by (auto simp: mux_released_def)
      next
        case (Cons w ws)
        let ?n = "?m\<lparr>muxCount := 1, owner := Some w, holdOn := Some w\<rparr>" let ?L = "(lockList s)(t := remove1 i (lockList s t))"
        have e: "muxes s' = (muxes s)(i := ?n)" "lockList s' = ?L(w := ?L w @ [i])" using p(2) Cons by (simp_all add: s2 l2)
        have "mux_ok ?n" using hold(2) by (simp add: mux_ok_def)
        then have "mux_inv s'" using g e by (intro mux_inv_move [OF inv, of ?n w i t]) simp_all
        moreover have "held s' = (held s)(i \<mapsto> (w, 1))" using e by (auto simp: held_def fun_eq_iff)
        ultimately show ?thesis using p(1) h n Cons by (auto simp: mux_released_def)
      qed
    qed
  qed
  then show "mux_inv s'" "s' = s \<and> ret \<noteq> LOS_OK \<or> ret = LOS_OK \<and> mux_released t i s s'" by simp_all
qed

section \<open>Reachable states\<close>

text \<open>Every interleaving of the calls, from a state in which no mutex is held: a mutex that is held is not initialised
  again, \<open>mux_unlock_by\<close> is also how the exit of a task gives back the mutexes it holds, and the scheduler, the timeouts
  and the other components may do anything in between that leaves the mutexes alone.\<close>

definition mux_start :: "'a mux_kstate_scheme \<Rightarrow> bool" where
  "mux_start s \<longleftrightarrow> (\<forall>i. muxes s i = mux_zero) \<and> (\<forall>t. lockList s t = [])"

inductive mux_step :: "'a mux_kstate_scheme \<Rightarrow> 'a mux_kstate_scheme \<Rightarrow> bool" where
  mux_init: "holdOn (muxes s i) = None \<Longrightarrow> LOS_MuxInit (Some i) a s = (s', ret) \<Longrightarrow> mux_step s s'"
| mux_destroy: "LOS_MuxDestroy mutex s = (s', ret) \<Longrightarrow> mux_step s s'"
| mux_lock: "LOS_MuxLock mutex timeout s = Some (s', r) \<Longrightarrow> mux_step s s'"
| mux_trylock: "LOS_MuxTrylock mutex s = Some (s', r) \<Longrightarrow> mux_step s s'"
| mux_resume: "OsMuxPendOp_resume t i s = Some (s', ret) \<Longrightarrow> mux_step s s'"
| mux_unlock: "LOS_MuxUnlock mutex s = Some (s', ret) \<Longrightarrow> mux_step s s'"
| mux_unlock_by: "OsMuxUnlockUnsafe t i s = Some (s', ret, b) \<Longrightarrow> mux_step s s'"
| mux_ceiling: "LOS_MuxSetPrioceiling mutex prio out s = Some (s', r, old) \<Longrightarrow> mux_step s s'"
| mux_ceiling_rest: "mux_set_ceiling i prio out s = Some (s', ret, old) \<Longrightarrow> mux_step s s'"
| mux_other: "locks_of s' = locks_of s \<Longrightarrow> mux_step s s'"

inductive mux_reach :: "'a mux_kstate_scheme \<Rightarrow> bool" where
  "mux_start s \<Longrightarrow> mux_reach s"
| "mux_reach s \<Longrightarrow> mux_step s s' \<Longrightarrow> mux_reach s'"

lemma lock_granted:
  assumes inv: "mux_inv s" and run: "LOS_MuxLock mutex timeout s = Some (s', r)"
  shows "mux_inv s'" and "locks_of s' = locks_of s \<or> r = WaitRet LOS_OK \<and> (\<exists>i. mutex = Some i \<and> mux_granted (currTask s) i s s')"
proof -
  have "locks_of s' = locks_of s \<or> (\<exists>i. mutex = Some i \<and> muxMagic (muxes s i) = OS_MUX_MAGIC \<and> OsMuxPendOp (currTask s) i timeout s = Some (s', r))"
    using run by (auto simp: LOS_MuxLock_def OsMuxLockUnsafe_def Let_def split: option.split_asm if_split_asm)
  then show "mux_inv s'" "locks_of s' = locks_of s \<or> r = WaitRet LOS_OK \<and> (\<exists>i. mutex = Some i \<and> mux_granted (currTask s) i s s')"
    using PendOp_locks [OF inv] mux_inv_locks inv by blast+
qed

lemma trylock_granted:
  assumes inv: "mux_inv s" and run: "LOS_MuxTrylock mutex s = Some (s', r)"
  shows "mux_inv s'" and "locks_of s' = locks_of s \<or> r = WaitRet LOS_OK \<and> (\<exists>i. mutex = Some i \<and> mux_granted (currTask s) i s s')"
proof -
  have "locks_of s' = locks_of s \<or> (\<exists>i. mutex = Some i \<and> muxMagic (muxes s i) = OS_MUX_MAGIC \<and> OsMuxPendOp (currTask s) i 0 s = Some (s', r))"
    using run by (auto simp: LOS_MuxTrylock_def OsMuxTrylockUnsafe_def Let_def split: option.split_asm if_split_asm)
  then show "mux_inv s'" "locks_of s' = locks_of s \<or> r = WaitRet LOS_OK \<and> (\<exists>i. mutex = Some i \<and> mux_granted (currTask s) i s s')"
    using PendOp_locks [OF inv] mux_inv_locks inv by blast+
qed

lemma unlock_released:
  assumes inv: "mux_inv s" and run: "LOS_MuxUnlock mutex s = Some (s', ret)"
  shows "mux_inv s'" and "s' = s \<and> ret \<noteq> LOS_OK \<or> ret = LOS_OK \<and> (\<exists>i. mutex = Some i \<and> mux_released (currTask s) i s s')"
proof -
  have "s' = s \<and> ret \<noteq> LOS_OK \<or> (\<exists>i s1 b. mutex = Some i \<and> OsMuxUnlockUnsafe (currTask s) i s = Some (s1, ret, b) \<and>
    (b \<and> LOS_Schedule s1 = Some s' \<or> \<not> b \<and> s' = s1))"
    using run by (auto simp: LOS_MuxUnlock_def bind_eq_Some_conv split: option.split_asm if_split_asm)
  then consider "s' = s \<and> ret \<noteq> LOS_OK" | i s1 b where "mutex = Some i" "OsMuxUnlockUnsafe (currTask s) i s = Some (s1, ret, b)"
    "b \<and> LOS_Schedule s1 = Some s' \<or> \<not> b \<and> s' = s1" by blast
  then have "mux_inv s' \<and> (s' = s \<and> ret \<noteq> LOS_OK \<or> ret = LOS_OK \<and> (\<exists>i. mutex = Some i \<and> mux_released (currTask s) i s s'))"
  proof cases
    case 2
    have l: "locks_of s' = locks_of s1" using 2(3) locks_calls(3) by blast
    have "\<not> b" if "s1 = s" "ret \<noteq> LOS_OK"
      using 2(2) that by (auto simp: OsMuxUnlockUnsafe_def Let_def split: if_split_asm dest: PostOp_ret)
    with Unlock_locks [OF inv 2(2)] 2(1,3) show ?thesis using mux_inv_locks [OF l] held_locks [OF l] by (auto simp: mux_released_def)
  qed (use inv in simp)
  then show "mux_inv s'" "s' = s \<and> ret \<noteq> LOS_OK \<or> ret = LOS_OK \<and> (\<exists>i. mutex = Some i \<and> mux_released (currTask s) i s s')" by simp_all
qed

lemma set_ceiling_inv:
  assumes inv: "mux_inv s" and run: "mux_set_ceiling i prio out s = Some (s', ret, old)"
  shows "mux_inv s'"
proof -
  obtain a rc where a: "LOS_MuxAttrSetPrioceiling (Some (attr (muxes s i))) prio = (a, rc)" by fastforce
  then have "mux_type (the a) = mux_type (attr (muxes s i))" by (auto simp: LOS_MuxAttrSetPrioceiling_def split: if_split_asm)
  then have "mux_ok ((muxes s i)\<lparr>attr := the a\<rparr>)" using mux_invD(1) [OF inv, of i] by (simp add: mux_ok_cong)
  then have "mux_inv (upd_mux i (\<lambda>m. m\<lparr>attr := the a\<rparr>) s)" by (intro mux_inv_upd [OF inv, of _ i]) simp_all
  moreover from run a obtain rl where "LOS_MuxUnlock (Some i) (upd_mux i (\<lambda>m. m\<lparr>attr := the a\<rparr>) s) = Some (s', rl)"
    by (auto simp: mux_set_ceiling_def bind_eq_Some_conv)
  ultimately show ?thesis by (rule unlock_released(1))
qed

lemma mux_step_inv: "mux_step s s' \<Longrightarrow> mux_inv s \<Longrightarrow> mux_inv s'"
proof (induction rule: mux_step.induct)
  case (mux_ceiling mutex prio out s s' r old)
  then consider "s' = s" | s1 r1 where "LOS_MuxLock mutex LOS_WAIT_FOREVER s = Some (s1, r1)"
    "s' = s1 \<or> (\<exists>ret. mux_set_ceiling (the mutex) prio out s1 = Some (s', ret, old))"
    by (auto simp: LOS_MuxSetPrioceiling_def bind_eq_Some_conv split: if_split_asm)
  then show ?case using mux_ceiling.prems lock_granted(1) set_ceiling_inv by cases blast+
next
  case (mux_resume t i s s' ret)
  obtain s1 u where s1: "wait_resume t s = (s1, u)" by fastforce
  with mux_resume.hyps have "locks_of s' = locks_of s1" by (auto simp: OsMuxPendOp_resume_def dest!: locks_wait_end)
  with locks_calls(5) [OF s1] mux_inv_locks mux_resume.prems show ?case by metis
qed (blast intro: MuxInit_inv MuxDestroy_inv lock_granted(1) trylock_granted(1) unlock_released(1) Unlock_locks(1) set_ceiling_inv
  mux_inv_locks [THEN iffD2])+

lemma mux_reach_inv: "mux_reach s \<Longrightarrow> mux_inv s"
proof (induction rule: mux_reach.induct)
  case (1 s)
  then show ?case by (simp add: mux_start_def mux_inv_def mux_zero_def mux_ok_def)
qed (rule mux_step_inv)

section \<open>Priority changes and the scheduler\<close>

text \<open>Changing the priority of a task that is in no ready queue.\<close>

definition prio_change :: "(SchedPolicy \<Rightarrow> SchedPolicy) \<Rightarrow> bool" where
  "prio_change f \<longleftrightarrow> (\<forall>p. policy (f p) = policy p \<and> basePrio (f p) = basePrio p)"

lemma prio_change_id [simp]: "prio_change (\<lambda>p. p)"
  by (simp add: prio_change_def)

lemma upd_sp_id [simp]: "upd_sp t (\<lambda>p. p) s = s"
  by (simp add: upd_sp_def upd_task_def)

lemma upd_sp_frame [simp]:
  "lists (upd_sp t f s) = lists s" "currTask (upd_sp t f s) = currTask s" "waiting (upd_sp t f s) = waiting s"
  "taskLockCnt (upd_sp t f s) = taskLockCnt s" "clock (upd_sp t f s) = clock s" "cfg (upd_sp t f s) = cfg s" "intActive (upd_sp t f s) = intActive s"
  "status_of (upd_sp t f s) u = status_of s u" "wakeable (upd_sp t f s) = wakeable s" "ready_hpf (upd_sp t f s) = ready_hpf s"
  "idleTask (upd_sp t f s) = idleTask s"
  "timeoutQueue (upd_sp t f s) = timeoutQueue s" "ops (tcb (upd_sp t f s) u) = ops (tcb s u)" "pendOn (tcb (upd_sp t f s) u) = pendOn (tcb s u)"
  "startTime (tcb (upd_sp t f s) u) = startTime (tcb s u)" "irqUsedTime (tcb (upd_sp t f s) u) = irqUsedTime (tcb s u)"
  by (simp_all add: upd_sp_def waiting_def waiters_of_def wakeable_def ready_hpf_def fun_eq_iff)

lemma mux_upd_sp [simp]: "muxes (upd_sp t f s) = muxes s" "lockList (upd_sp t f s) = lockList s"
  by (simp_all add: upd_sp_def)

lemma link_ok_prio:
  assumes l: "link_ok c" and c': "sp c' = p" "pendOn c' = pendOn c" "ops c' = ops c" "taskStatus c' = taskStatus c"
    and np: "\<And>b q. pendOn c \<noteq> Some (PriQueList b q)"
    and p: "policy p = policy (sp c)" "basePrio p = basePrio (sp c)" "unat (priority (sp c)) < 32 \<Longrightarrow> unat (priority p) < 32"
  shows "link_ok c'"
  unfolding link_ok_def c' p(1,2) using l [unfolded link_ok_def] np p(3) by blast

lemma call_ok_upd_sp:
  assumes call: "call_ok s" and f: "prio_change f" and nr: "\<not> ready_hpf s t"
    and p: "unat (priority (sp (tcb s t))) < 32 \<Longrightarrow> unat (priority (f (sp (tcb s t)))) < 32"
  shows "call_ok (upd_sp t f s)"
proof -
  have l: "link_ok (tcb s t)" using call_okD(1) [OF call] k_invD(4) by blast
  have "pendOn (tcb s t) \<noteq> Some (PriQueList b q)" for b q
  proof
    assume pq: "pendOn (tcb s t) = Some (PriQueList b q)"
    from l have r: "ops (tcb s t) \<noteq> g_idleOps \<longrightarrow> (is_ready (tcb s t) \<longleftrightarrow> (\<exists>h. pendOn (tcb s t) = Some h \<and> \<not> wait_list h \<and> h \<noteq> EdfWaitList))"
      unfolding link_ok_def by blast
    from l pq have "ops (tcb s t) = g_priorityOps" unfolding link_ok_def by blast
    with r pq nr show False by (simp add: ready_hpf_def)
  qed
  then have np: "pendOn (tcb s t) = Some (PriQueList b q) \<longleftrightarrow> False" for b q by simp
  have "link_ok ((tcb s t)\<lparr>sp := f (sp (tcb s t))\<rparr>)" by (rule link_ok_prio [OF l, where p = "f (sp (tcb s t))"]) (use np f p in \<open>simp_all add: prio_change_def\<close>)
  then have "k_inv (upd_sp t f s)" unfolding upd_sp_def
    by (intro k_inv_upd_task [OF call_okD(1) [OF call]]) (simp_all add: timed_ok_def)
  then show ?thesis using call_okD [OF call] by (simp add: call_ok_def run_ok_def idle_ok_def slice_ok_def)
qed

lemma inheritance_form:
  assumes "unat (spPriority p) < 32"
  shows "\<exists>f. ops_priorityInheritance t p s = upd_sp t f s \<and> prio_change f \<and>
    (unat (priority (sp (tcb s t))) < 32 \<longrightarrow> unat (priority (f (sp (tcb s t)))) < 32)"
proof (cases "ops (tcb s t) = g_priorityOps \<and> is_hpf_param p \<and> \<not> priority (sp (tcb s t)) \<le> spPriority p")
  case True
  then show ?thesis using assms
    by (intro exI [of _ "\<lambda>x. x\<lparr>priBitmap := the (LOS_BitmapSet (Some (priBitmap x)) (priority x)), priority := spPriority p\<rparr>"])
      (simp add: ops_priorityInheritance_def HPFPriorityInheritance_def prio_change_def)
next
  case False
  then have "ops_priorityInheritance t p s = s"
    by (auto simp: ops_priorityInheritance_def HPFPriorityInheritance_def split: SchedOps.split)
  then show ?thesis by (intro exI [of _ "\<lambda>p. p"]) simp
qed

lemma restore_form:
  "\<exists>f. ops_priorityRestore t w p s = upd_sp t f s \<and> prio_change f \<and> (unat (priority (sp (tcb s t))) < 32 \<longrightarrow> unat (priority (f (sp (tcb s t)))) < 32)"
proof -
  have low: "unat (of_nat (LOS_LowBitGet bm) :: u16) < 32" if "LOS_LowBitGet bm \<noteq> LOS_INVALID_BIT_INDEX" for bm
    using that LOS_LowBitGet_least(1) [of bm] by (cases "bm = 0") (simp_all add: LOS_LowBitGet_def unat_of_nat)
  define P where "P s' \<longleftrightarrow> (\<exists>f. s' = upd_sp t f s \<and> prio_change f \<and>
    (unat (priority (sp (tcb s t))) < 32 \<longrightarrow> unat (priority (f (sp (tcb s t)))) < 32))" for s'
  have id: "P s" unfolding P_def by (intro exI [of _ "\<lambda>p. p"]) simp
  have upd: "P (upd_sp t g s)" if "prio_change g" "unat (priority (sp (tcb s t))) < 32 \<Longrightarrow> unat (priority (g (sp (tcb s t)))) < 32" for g
    using that unfolding P_def by blast
  have "P (HPFPriorityRestore t w p s)"
    unfolding HPFPriorityRestore_def Let_def by (auto simp: prio_change_def low intro!: id upd)
  with id have "P (ops_priorityRestore t w p s)" by (simp add: ops_priorityRestore_def split: SchedOps.split)
  then show ?thesis by (simp add: P_def)
qed

section \<open>The calls come back\<close>

lemma upd_mux_sched [simp]:
  "call_ok (upd_mux i f s) = call_ok s" "waiting (upd_mux i f s) = waiting s" "wakeable (upd_mux i f s) = wakeable s"
  "ready_hpf (upd_mux i f s) = ready_hpf s" "k_inv (upd_mux i f s) = k_inv s" "run_ok (upd_mux i f s) = run_ok s"
  "taskLockCnt (upd_mux i f s) = taskLockCnt s"
  by (simp_all add: same_sched [OF upd_mux_frame(7)] truncateD [OF upd_mux_frame(7)])

lemma hold_truncate:
  "hold_insert t i s = Some s' \<Longrightarrow> kstate.truncate s' = kstate.truncate s"
  "hold_delete i s = Some s' \<Longrightarrow> kstate.truncate s' = kstate.truncate s"
  by (auto simp: hold_insert_def hold_delete_def kstate.truncate_def upd_mux_def split: if_split_asm option.split_asm)

lemma running_not_ready: "call_ok s \<Longrightarrow> \<not> ready_hpf s (currTask s)"
  using call_okD(2) [of s] by (simp add: run_ok_def ready_hpf_def)

lemma prio_bound:
  assumes "call_ok s" and "ops (tcb s t) = g_priorityOps"
  shows "unat (spPriority (param_of t s)) < 32" and "spPriority (param_of t s) = priority (sp (tcb s t))"
proof -
  have "link_ok (tcb s t)" using k_invD(4) [OF call_okD(1) [OF assms(1)]] .
  with assms(2) show "unat (spPriority (param_of t s)) < 32"
    by (simp add: param_of_def ops_schedParamGet_def HPFSchedParamGet_def Let_def link_ok_def)
qed (use assms(2) in \<open>simp add: param_of_def ops_schedParamGet_def HPFSchedParamGet_def Let_def\<close>)

lemma boost_call:
  assumes "call_ok s" and "\<not> ready_hpf s t" and "unat (spPriority p) < 32"
  shows "call_ok (ops_priorityInheritance t p s)"
proof -
  from inheritance_form [OF assms(3)] obtain f where f: "ops_priorityInheritance t p s = upd_sp t f s" "prio_change f"
    "unat (priority (sp (tcb s t))) < 32 \<longrightarrow> unat (priority (f (sp (tcb s t)))) < 32" by blast
  from call_ok_upd_sp [OF assms(1) f(2) assms(2)] f(3) show ?thesis unfolding f(1) by blast
qed

lemma restore_call:
  assumes "call_ok s" and "\<not> ready_hpf s t"
  shows "call_ok (ops_priorityRestore t w p s)"
proof -
  obtain f where f: "ops_priorityRestore t w p s = upd_sp t f s" "prio_change f"
    "unat (priority (sp (tcb s t))) < 32 \<longrightarrow> unat (priority (f (sp (tcb s t)))) < 32" using restore_form by blast
  from call_ok_upd_sp [OF assms(1) f(2) assms(2)] f(3) show ?thesis unfolding f(1) by blast
qed

lemma boost_frame [simp]:
  "lists (ops_priorityInheritance t p s) = lists s" "currTask (ops_priorityInheritance t p s) = currTask s"
  "waiting (ops_priorityInheritance t p s) = waiting s" "taskLockCnt (ops_priorityInheritance t p s) = taskLockCnt s"
  "clock (ops_priorityInheritance t p s) = clock s" "cfg (ops_priorityInheritance t p s) = cfg s"
  by (simp_all add: ops_priorityInheritance_def HPFPriorityInheritance_def split: SchedOps.split)

lemma restore_frame [simp]:
  "lists (ops_priorityRestore t w p s) = lists s" "currTask (ops_priorityRestore t w p s) = currTask s"
  "waiting (ops_priorityRestore t w p s) = waiting s" "wakeable (ops_priorityRestore t w p s) = wakeable s"
  "status_of (ops_priorityRestore t w p s) u = status_of s u"
  by (simp_all add: ops_priorityRestore_def HPFPriorityRestore_def Let_def split: SchedOps.split)

text \<open>Blocking for a mutex may change the priority of its owner, which must then not be in a ready queue.\<close>

definition boost_ok :: "nat \<Rightarrow> 'a mux_kstate_scheme \<Rightarrow> bool" where
  "boost_ok i s \<longleftrightarrow> (protocol (attr (muxes s i)) = LOS_MUX_PRIO_INHERIT \<longrightarrow>
    (\<forall>ow. owner (muxes s i) = Some ow \<longrightarrow> \<not> ready_hpf s ow \<or> OsSchedParamCompare (tcb s ow) (tcb s (currTask s)) \<le> 0))"

definition mux_blocked :: "nat \<Rightarrow> 'a mux_kstate_scheme \<Rightarrow> 'a mux_kstate_scheme \<Rightarrow> bool" where
  "mux_blocked i s s' \<longleftrightarrow> currTask s' \<noteq> currTask s \<and>
    (\<exists>k \<le> length (waiting s (MuxList i)). waiting s' (MuxList i) = insert_after k (currTask s) (waiting s (MuxList i))) \<and>
    (\<forall>h. h \<noteq> MuxList i \<longrightarrow> waiting s' h = waiting s h)"

lemma BitmapSet_call:
  assumes call: "call_ok s" and ow: "owner (muxes s i) = Some ow" and boost: "boost_ok i s"
  obtains s1 where "OsMuxBitmapSet i (currTask s) s = Some s1" "call_ok s1" "waiting s1 = waiting s" "currTask s1 = currTask s" "taskLockCnt s1 = taskLockCnt s"
    "clock s1 = clock s" "cfg s1 = cfg s"
proof (cases "protocol (attr (muxes s i)) = LOS_MUX_PRIO_INHERIT \<and> 0 < OsSchedParamCompare (tcb s ow) (tcb s (currTask s))")
  case True
  then have "\<not> ready_hpf s ow" using boost ow by (auto simp: boost_ok_def)
  from boost_call [OF call this prio_bound(1) [OF call call_okD(5) [OF call]]] True ow
  show ?thesis by (intro that [of "ops_priorityInheritance ow (param_of (currTask s) s) s"]) (simp_all add: OsMuxBitmapSet_def)
next
  case False
  with ow call show ?thesis by (intro that [of s]) (auto simp: OsMuxBitmapSet_def)
qed

lemma mux_wait_spec:
  assumes call: "call_ok s" and lock: "taskLockCnt s = 0" and ow: "owner (muxes s i) = Some ow" and boost: "boost_ok i s"
    and time: "timeout = LOS_WAIT_FOREVER \<or> OS_SCHED_TICK_TO_CYCLE timeout s + clock s \<noteq> OS_SORT_LINK_INVALID_TIME"
  shows "\<exists>s'. mux_wait (currTask s) i timeout s = Some (s', WaitBlocked) \<and> k_inv s' \<and> run_ok s' \<and> mux_blocked i s s'"
proof -
  let ?t = "currTask s" let ?h = "MuxList i"
  obtain s1 where s1: "OsMuxBitmapSet i ?t s = Some s1" "call_ok s1" "waiting s1 = waiting s" "currTask s1 = ?t" "taskLockCnt s1 = 0"
    "clock s1 = clock s" "cfg s1 = cfg s" using BitmapSet_call [OF call ow boost] lock by metis
  define s2 where "s2 = upd_task ?t (\<lambda>c. c\<lparr>taskMux := Some i\<rparr>) s1"
  have call2: "call_ok s2" unfolding s2_def by (rule call_ok_minor [OF s1(2)]) (simp_all add: minor_update_def)
  have "waiting s2 = waiting s1" by (simp add: s2_def fun_eq_iff waiting_def waiters_of_def)
  then have s2: "currTask s2 = ?t" "taskLockCnt s2 = 0" "clock s2 = clock s" "cfg s2 = cfg s" "waiting s2 = waiting s"
    using s1 by (simp_all add: s2_def)
  obtain k where k: "k \<le> length (lists s2 ?h)" "OsSchedLockPendFindPos (tcb s2) (tcb s2 ?t) (lists s2 ?h) = Some k" using FindPos_Some by blast
  have len: "lists s2 ?h = waiting s ?h" using s2(5) waiting_lists [of ?h s2] by simp
  from wait_call [OF call2 s2(2), of ?h timeout k OS_TASK_WAIT_MUTEX "of_nat i"] time obtain s' where
    s': "ops_wait ?t ?h k timeout (OsTaskWaitSetPendMask OS_TASK_WAIT_MUTEX (of_nat i) s2) = Some (s', WaitBlocked)" "k_inv s'" "run_ok s'"
    "currTask s' \<noteq> ?t" "waiting s' ?h = insert_after k ?t (waiting s ?h)" "\<forall>h'. h' \<noteq> ?h \<longrightarrow> waiting s' h' = waiting s h'"
    unfolding s2(1,5) by (auto simp: OS_SCHED_TICK_TO_CYCLE_def s2(3,4))
  have "mux_wait ?t i timeout s = Some (s', WaitBlocked)" using s1(1) k(2) s'(1) unfolding s2_def by (simp add: mux_wait_def)
  moreover have "mux_blocked i s s'" using s'(4-6) k(1) by (auto simp: mux_blocked_def len)
  ultimately show ?thesis using s'(2,3) by blast
qed

text \<open>Taking a free mutex, for the scheduler.\<close>

lemma mux_take_sched:
  assumes call: "call_ok s" and run: "mux_take (currTask s) i s = Some s'" and a: "OsCheckMutexAttr (attr (muxes s i)) = LOS_OK"
  shows "k_inv s' \<and> run_ok s' \<and> waiting s' = waiting s"
proof -
  let ?t = "currTask s"
  from run obtain s1 where s1: "hold_insert ?t i (upd_mux i (\<lambda>m. m\<lparr>muxCount := muxCount m + 1, owner := Some ?t\<rparr>) s) = Some s1"
    and s': "s' = s1 \<or> s' = ops_priorityInheritance ?t ((param_of ?t s1)\<lparr>spPriority := ucast (prioceiling (attr (muxes s1 i)))\<rparr>) s1"
    by (auto simp: mux_take_def bind_eq_Some_conv split: if_split_asm)
  have same: "kstate.truncate s1 = kstate.truncate s" using hold_truncate(1) [OF s1] by simp
  have c1: "call_ok s1" "waiting s1 = waiting s" "currTask s1 = ?t" using same_sched(4,5) [OF same] truncateD(8) [OF same] call by simp_all
  have "prioceiling (attr (muxes s1 i)) = prioceiling (attr (muxes s i))" using s1 by (auto simp: hold_insert_def split: if_split_asm)
  moreover have "prioceiling (attr (muxes s i)) \<le> 31" using a by (simp add: OsCheckMutexAttr_def word_le_def split: if_split_asm)
  then have "unat (prioceiling (attr (muxes s i))) < 32" by (simp add: word_le_nat_alt)
  ultimately have "unat (spPriority ((param_of ?t s1)\<lparr>spPriority := ucast (prioceiling (attr (muxes s1 i)))\<rparr>)) < 32"
    by (simp add: unsigned_ucast_eq take_bit_nat_eq_self)
  from boost_call [OF c1(1) _ this, of ?t] running_not_ready [OF c1(1)] c1 s' show ?thesis by (auto simp: call_okD)
qed

text \<open>The two locking calls as one type.\<close>

datatype mux_call = Lock u32 | Trylock

fun mux_run :: "nat option \<Rightarrow> mux_call \<Rightarrow> 'a mux_kstate_scheme \<Rightarrow> ('a mux_kstate_scheme \<times> wait_result) option" where
  "mux_run mutex (Lock timeout) s = LOS_MuxLock mutex timeout s"
| "mux_run mutex Trylock s = LOS_MuxTrylock mutex s"

fun mux_time_ok :: "mux_call \<Rightarrow> 'a mux_kstate_scheme \<Rightarrow> bool" where
  "mux_time_ok (Lock timeout) s \<longleftrightarrow> timeout = LOS_WAIT_FOREVER \<or> OS_SCHED_TICK_TO_CYCLE timeout s + clock s \<noteq> OS_SORT_LINK_INVALID_TIME"
| "mux_time_ok Trylock s \<longleftrightarrow> True"

definition mux_outcome :: "nat \<Rightarrow> 'a mux_kstate_scheme \<Rightarrow> 'a mux_kstate_scheme \<Rightarrow> wait_result \<Rightarrow> bool" where
  "mux_outcome i s s' r \<longleftrightarrow>
    r = WaitRet LOS_OK \<and> mux_granted (currTask s) i s s' \<and> waiting s' = waiting s \<or>
    r = WaitBlocked \<and> held s' = held s \<and> mux_blocked i s s' \<and> (\<exists>t n. held s i = Some (t, n) \<and> (t = currTask s \<longrightarrow> mux_type (attr (muxes s i)) \<noteq> LOS_MUX_RECURSIVE)) \<or>
    (\<exists>e. r = WaitRet e \<and> e \<noteq> LOS_OK \<and> held s' = held s \<and> waiting s' = waiting s)"

lemma preempt_refused:
  assumes "call_ok s" and "OsPreemptableInSched s = (s1, False)"
  shows "k_inv s1 \<and> run_ok s1 \<and> waiting s1 = waiting s"
proof -
  have s1: "s1 = s\<lparr>schedFlag := schedFlag s OR INT_PEND_RESCH\<rparr>" using assms(2) by (simp add: OsPreemptableInSched_def split: if_splits)
  then show ?thesis using call_okD [OF assms(1)] by (simp add: waiting_def waiters_of_def fun_eq_iff)
qed

lemma PendOp_spec:
  assumes call: "call_ok s" and inv: "mux_inv s" and boost: "boost_ok i s"
    and m: "muxMagic (muxes s i) = OS_MUX_MAGIC" "OsCheckMutexAttr (attr (muxes s i)) = LOS_OK"
    and time: "timeout = 0 \<or> timeout = LOS_WAIT_FOREVER \<or> OS_SCHED_TICK_TO_CYCLE timeout s + clock s \<noteq> OS_SORT_LINK_INVALID_TIME"
  shows "\<exists>s' r. OsMuxPendOp (currTask s) i timeout s = Some (s', r) \<and> k_inv s' \<and> run_ok s' \<and> mux_outcome i s s' r \<and> (timeout = 0 \<longrightarrow> r \<noteq> WaitBlocked)"
proof -
  let ?t = "currTask s" let ?m = "muxes s i"
  have l: "muxLinked ?m" using mux_invD(1) [OF inv, of i] m(1) by (simp add: mux_ok_def)
  consider (take) "muxCount ?m = 0" | (nest) "muxCount ?m \<noteq> 0" "owner ?m = Some ?t" "mux_type (attr ?m) = LOS_MUX_RECURSIVE"
    | (no) "muxCount ?m \<noteq> 0" "\<not> (owner ?m = Some ?t \<and> mux_type (attr ?m) = LOS_MUX_RECURSIVE)" "timeout = 0 \<or> taskLockCnt s \<noteq> 0"
    | (wait) "muxCount ?m \<noteq> 0" "\<not> (owner ?m = Some ?t \<and> mux_type (attr ?m) = LOS_MUX_RECURSIVE)" "timeout \<noteq> 0" "taskLockCnt s = 0" by blast
  then show ?thesis
  proof cases
    case take
    from mux_take_spec [OF inv take l, of ?t] obtain s' where s': "mux_take ?t i s = Some s'" by blast
    then have run: "OsMuxPendOp ?t i timeout s = Some (s', WaitRet LOS_OK)" using l take by (simp add: OsMuxPendOp_def)
    have "mux_granted ?t i s s'" using mux_take_spec [OF inv take l, of ?t] s' mux_invD(1) [OF inv, of i] take
      by (auto simp: mux_granted_def held_def mux_ok_def)
    then show ?thesis using run mux_take_sched [OF call s' m(2)] by (intro exI conjI) (auto simp: mux_outcome_def)
  next
    case nest
    define s' where "s' = (if muxCount ?m < 0xFFFF then upd_mux i (\<lambda>m. m\<lparr>muxCount := muxCount m + 1\<rparr>) s else s)"
    have run: "OsMuxPendOp ?t i timeout s = Some (s', WaitRet LOS_OK)" using l nest by (simp add: OsMuxPendOp_def s'_def)
    have "mux_granted ?t i s s'" using mux_nest_spec [OF inv nest(2,3) s'_def] by simp
    moreover have "k_inv s' \<and> run_ok s' \<and> waiting s' = waiting s" using call_okD [OF call] by (simp add: s'_def)
    ultimately show ?thesis using run unfolding mux_outcome_def by blast
  next
    case no
    obtain s' e where s': "OsMuxPendOp ?t i timeout s = Some (s', WaitRet e)" "e \<noteq> LOS_OK" "s' = s \<or> OsPreemptableInSched s = (s', False)"
    proof (cases "timeout = 0")
      case True
      have "OsMuxPendOp ?t i timeout s = Some (s, WaitRet LOS_EINVAL)" unfolding OsMuxPendOp_def Let_def using l no True by simp
      from that [OF this] show ?thesis by simp
    next
      case False
      let ?s = "s\<lparr>schedFlag := schedFlag s OR INT_PEND_RESCH\<rparr>"
      have p: "OsPreemptableInSched s = (?s, False)" using no(3) False by (simp add: OsPreemptableInSched_def)
      have "OsMuxPendOp ?t i timeout s = Some (?s, WaitRet LOS_EDEADLK)" unfolding OsMuxPendOp_def Let_def using l no False p by simp
      from that [OF this] p show ?thesis by simp
    qed
    then have "locks_of s' = locks_of s" "k_inv s' \<and> run_ok s' \<and> waiting s' = waiting s" using locks_calls(4) preempt_refused [OF call] call_okD [OF call] by blast+
    then show ?thesis using s' held_locks unfolding mux_outcome_def by blast
  next
    case wait
    then obtain ow where ow: "owner ?m = Some ow" using mux_invD(1) [OF inv, of i] by (auto simp: mux_ok_def)
    from mux_wait_spec [OF call wait(4) ow boost, of timeout] time wait(3) obtain s' where
      s': "mux_wait ?t i timeout s = Some (s', WaitBlocked)" "k_inv s'" "run_ok s'" "mux_blocked i s s'" by blast
    have run: "OsMuxPendOp ?t i timeout s = Some (s', WaitBlocked)" using l wait s'(1) unfolding OsMuxPendOp_def Let_def by (simp add: OsPreemptableInSched_def)
    have "held s' = held s" by (rule held_locks [OF locks_wait [OF s'(1)]])
    moreover have "held s i = Some (ow, unat (muxCount ?m))" using ow by (simp add: held_def)
    moreover have "ow = ?t \<longrightarrow> mux_type (attr ?m) \<noteq> LOS_MUX_RECURSIVE" using wait(2) ow by simp
    ultimately show ?thesis using run s' wait(3) unfolding mux_outcome_def by blast
  qed
qed

lemma mux_call_spec:
  assumes call: "call_ok s" and inv: "mux_inv s" and boost: "boost_ok i s" and time: "mux_time_ok c s"
  shows "\<exists>s' r. mux_run (Some i) c s = Some (s', r) \<and> k_inv s' \<and> run_ok s' \<and> mux_inv s' \<and> mux_outcome i s s' r \<and> (c = Trylock \<longrightarrow> r \<noteq> WaitBlocked)"
proof -
  let ?m = "muxes s i"
  define timeout where "timeout = (case c of Lock n \<Rightarrow> n | Trylock \<Rightarrow> 0)"
  have t: "timeout = 0 \<or> timeout = LOS_WAIT_FOREVER \<or> OS_SCHED_TICK_TO_CYCLE timeout s + clock s \<noteq> OS_SORT_LINK_INVALID_TIME"
    using time by (cases c) (auto simp: timeout_def)
  have no: "k_inv s \<and> run_ok s \<and> mux_inv s \<and> mux_outcome i s s (WaitRet e)" if "e \<noteq> LOS_OK" for e
    using that call_okD [OF call] inv by (simp add: mux_outcome_def)
  have "(\<exists>e. e \<noteq> LOS_OK \<and> mux_run (Some i) c s = Some (s, WaitRet e)) \<or>
    muxMagic ?m = OS_MUX_MAGIC \<and> OsCheckMutexAttr (attr ?m) = LOS_OK \<and> mux_run (Some i) c s = OsMuxPendOp (currTask s) i timeout s"
    by (cases c) (simp_all add: LOS_MuxLock_def OsMuxLockUnsafe_def LOS_MuxTrylock_def OsMuxTrylockUnsafe_def Let_def timeout_def)
  then show ?thesis
  proof
    assume "\<exists>e. e \<noteq> LOS_OK \<and> mux_run (Some i) c s = Some (s, WaitRet e)"
    with no show ?thesis by blast
  next
    assume m: "muxMagic ?m = OS_MUX_MAGIC \<and> OsCheckMutexAttr (attr ?m) = LOS_OK \<and> mux_run (Some i) c s = OsMuxPendOp (currTask s) i timeout s"
    from PendOp_spec [OF call inv boost _ _ t] m obtain s' r where s': "OsMuxPendOp (currTask s) i timeout s = Some (s', r)" "k_inv s'" "run_ok s'"
      "mux_outcome i s s' r" "timeout = 0 \<longrightarrow> r \<noteq> WaitBlocked" by blast
    moreover have "mux_inv s'" using PendOp_locks(1) [OF inv _ s'(1)] m by blast
    moreover have "c = Trylock \<longrightarrow> r \<noteq> WaitBlocked" using s'(5) by (auto simp: timeout_def)
    ultimately show ?thesis using m by auto
  qed
qed

text \<open>The last unlock with a waiter, and without one.\<close>

lemma MuxPostOp_spec:
  assumes call: "call_ok s" and o: "owner (muxes s i) = Some (currTask s)" "holdOn (muxes s i) = Some (currTask s)"
    and wk: "\<forall>t \<in> set (waiting s (MuxList i)). wakeable s t"
  shows "\<exists>s' b. OsMuxPostOp i s = Some (s', LOS_OK, b) \<and> call_ok s' \<and> waiting s' (MuxList i) = tl (waiting s (MuxList i)) \<and>
    (\<forall>w ws. waiting s (MuxList i) = w # ws \<longrightarrow> has (status_of s w) OS_TASK_STATUS_SUSPENDED \<or> ready_hpf s' w)"
proof (cases "waiting s (MuxList i)")
  case Nil
  then have "lists s (MuxList i) = []" by (simp add: waiting_lists)
  with o obtain s1 where s1: "hold_delete i s = Some s1" "OsMuxPostOp i s = Some (upd_mux i (\<lambda>m. m\<lparr>owner := None\<rparr>) s1, LOS_OK, False)"
    by (simp add: OsMuxPostOp_def hold_delete_def)
  with same_sched [OF hold_truncate(2) [OF s1(1)]] call Nil show ?thesis by auto
next
  case (Cons w ws)
  then have l: "lists s (MuxList i) = w # ws" by (simp add: waiting_lists)
  let ?p = "param_of w s" let ?t = "currTask s"
  define s1 where "s1 = (if protocol (attr (muxes s i)) \<noteq> LOS_MUX_PRIO_INHERIT then s else ops_priorityRestore ?t (Some (w # ws)) ?p s)"
  have r: "OsMuxBitmapRestore i (Some (w # ws)) w s = Some s1" using o(1) by (simp add: OsMuxBitmapRestore_def s1_def)
  have c1: "call_ok s1" using restore_call [OF call running_not_ready [OF call]] call by (simp add: s1_def)
  have f1: "waiting s1 = waiting s" "wakeable s1 = wakeable s" "muxes s1 = muxes s" "status_of s1 u = status_of s u" for u by (simp_all add: s1_def)
  define s2 where "s2 = upd_mux i (\<lambda>m. m\<lparr>muxCount := 1, owner := Some w\<rparr>) s1"
  obtain s3 where s3: "hold_delete i s2 = Some s3" "holdOn (muxes s3 i) = None" using o(2) by (auto simp: hold_delete_def s2_def f1)
  obtain s4 where s4: "hold_insert w i s3 = Some s4" using s3(2) by (simp add: hold_insert_def)
  have same: "kstate.truncate s4 = kstate.truncate s1" using hold_truncate(1) [OF s4] hold_truncate(2) [OF s3(1)] by (simp add: s2_def)
  have "call_ok s4" "w \<in> set (waiting s4 (MuxList i))" "wakeable s4 w"
    using same_sched [OF same] c1 f1 Cons wk by simp_all
  from wake_call [OF this] obtain s5 where s5: "ops_wake w (OsTaskWakeClearPendMask w s4) = Some s5" "call_ok s5"
    "\<forall>h. waiting s5 h = (if h = MuxList i then remove1 w (waiting s4 (MuxList i)) else waiting s4 h)" "runnable s5 w"
    "woken ((tcb s4 w)\<lparr>waitID := 0, waitFlag := 0\<rparr>) (tcb s5 w)" by blast
  define s6 where "s6 = upd_task w (\<lambda>c. c\<lparr>taskMux := None\<rparr>) s5"
  have run: "OsMuxPostOp i s = Some (s6, LOS_OK, True)" using l r s3(1) s4 s5(1) by (simp add: OsMuxPostOp_def s2_def s6_def)
  have "call_ok s6" unfolding s6_def by (rule call_ok_minor [OF s5(2)]) (simp_all add: minor_update_def)
  moreover have "waiting s6 = waiting s5" "ready_hpf s6 w = ready_hpf s5 w" by (simp_all add: s6_def waiting_def waiters_of_def ready_hpf_def fun_eq_iff)
  moreover have "waiting s5 (MuxList i) = ws" using s5(3) same_sched(5) [OF same] f1(1) Cons by simp
  moreover have "has (status_of s5 w) OS_TASK_STATUS_SUSPENDED \<longleftrightarrow> has (status_of s w) OS_TASK_STATUS_SUSPENDED"
    using s5(5) truncateD(1) [OF same] f1(4) [of w] by (simp add: woken_def)
  ultimately show ?thesis using run s5(4) Cons by (intro exI [of _ s6] exI [of _ True]) (auto simp: runnable_def)
qed

lemma unlock_spec:
  assumes call: "call_ok s" and inv: "mux_inv s" and free: "\<not> intActive s"
    and m: "muxMagic (muxes s i) = OS_MUX_MAGIC" "OsCheckMutexAttr (attr (muxes s i)) = LOS_OK"
    and h: "held s i = Some (currTask s, n)" and wk: "\<forall>t \<in> set (waiting s (MuxList i)). wakeable s t"
  shows "\<exists>s'. LOS_MuxUnlock (Some i) s = Some (s', LOS_OK) \<and> k_inv s' \<and> run_ok s' \<and>
    waiting s' (MuxList i) = (if n = 1 then tl (waiting s (MuxList i)) else waiting s (MuxList i)) \<and>
    (\<forall>w ws. n = 1 \<and> waiting s (MuxList i) = w # ws \<longrightarrow> has (status_of s w) OS_TASK_STATUS_SUSPENDED \<or> ready_hpf s' w \<or> currTask s' = w)"
proof -
  let ?m = "muxes s i" let ?t = "currTask s"
  have o: "owner ?m = Some ?t" "unat (muxCount ?m) = n" "muxCount ?m \<noteq> 0" "holdOn ?m = Some ?t"
    using h mux_invD(1) [OF inv, of i] by (auto simp: held_def mux_ok_def)
  have n: "muxCount ?m = 1 \<longleftrightarrow> n = 1" using o(2) by (metis unat_1 word_unat_eq_iff)
  define s1 where "s1 = upd_mux i (\<lambda>m. m\<lparr>muxCount := muxCount m - 1\<rparr>) s"
  show ?thesis
  proof (cases "n = 1")
    case False
    then have r: "mux_type (attr ?m) = LOS_MUX_RECURSIVE" "muxCount ?m - 1 \<noteq> 0" using mux_invD(1) [OF inv, of i] o(3) n by (auto simp: mux_ok_def)
    then have "LOS_MuxUnlock (Some i) s = Some (s1, LOS_OK)"
      using m o free by (simp add: LOS_MuxUnlock_def OsMuxUnlockUnsafe_def Let_def s1_def)
    then show ?thesis using call_okD [OF call] False by (intro exI [of _ s1]) (simp add: s1_def)
  next
    case True
    define s2 where "s2 = (if protocol (attr ?m) = LOS_MUX_PRIO_PROTECT then ops_priorityRestore ?t None (param_of ?t s1) s1 else s1)"
    have c1: "call_ok s1" "currTask s1 = ?t" using call by (simp_all add: s1_def)
    have c2: "call_ok s2" using restore_call [OF c1(1), of ?t] running_not_ready [OF c1(1)] c1 by (simp add: s2_def)
    have f2: "currTask s2 = ?t" "waiting s2 = waiting s" "wakeable s2 = wakeable s" "status_of s2 u = status_of s u" for u by (simp_all add: s2_def s1_def)
    have o2: "owner (muxes s2 i) = Some (currTask s2)" "holdOn (muxes s2 i) = Some (currTask s2)" using o unfolding f2(1) by (simp_all add: s2_def s1_def)
    from MuxPostOp_spec [OF c2 o2] wk obtain s3 b where s3: "OsMuxPostOp i s2 = Some (s3, LOS_OK, b)" "call_ok s3" "waiting s3 (MuxList i) = tl (waiting s (MuxList i))"
      "\<forall>w ws. waiting s (MuxList i) = w # ws \<longrightarrow> has (status_of s w) OS_TASK_STATUS_SUSPENDED \<or> ready_hpf s3 w" unfolding f2 by blast
    have un: "OsMuxUnlockUnsafe ?t i s = Some (s3, LOS_OK, b)"
      unfolding s3(1) [symmetric] s2_def s1_def using m o n True by (simp add: OsMuxUnlockUnsafe_def Let_def)
    from Schedule_if [OF s3(2), of b] obtain s' where s': "(if b then LOS_Schedule s3 else Some s3) = Some s'" "k_inv s'" "run_ok s'" "waiting s' = waiting s3"
      "\<forall>t. ready_hpf s' t \<or> t = currTask s' \<longleftrightarrow> ready_hpf s3 t \<or> t = currTask s3" by blast
    have "LOS_MuxUnlock (Some i) s = Some (s', LOS_OK)" using un s'(1) free by (simp add: LOS_MuxUnlock_def)
    then show ?thesis using s' s3(3,4) True by (intro exI [of _ s']) auto
  qed
qed

section \<open>A concrete mutex\<close>

definition mux_demo_attr :: LosMuxAttr where
  "mux_demo_attr = \<lparr>protocol = LOS_MUX_PRIO_INHERIT, prioceiling = 31, mux_type = LOS_MUX_RECURSIVE, reserved = 0\<rparr>"

text \<open>Mutex 0 is held by a task, or free; the others were never initialised.\<close>

definition mux_demo_mux :: "nat option \<Rightarrow> nat \<Rightarrow> LosMux" where
  "mux_demo_mux ow = (\<lambda>_. mux_zero)(0 := \<lparr>muxMagic = OS_MUX_MAGIC, attr = mux_demo_attr, holdOn = ow, muxLinked = True, owner = ow,
    muxCount = if ow = None then 0 else 1\<rparr>)"

definition mux_demo_holds :: "nat option \<Rightarrow> nat \<Rightarrow> nat list" where
  "mux_demo_holds ow t = (if ow = Some t then [0] else [])"

definition mux_demo :: "nat option \<Rightarrow> mux_kstate" where
  "mux_demo ow = demo \<lparr>muxes = mux_demo_mux ow, lockList = mux_demo_holds ow\<rparr>"

definition mux_demo_wait :: mux_kstate where
  "mux_demo_wait = demo_wait (MuxList 0) \<lparr>muxes = mux_demo_mux (Some 1), lockList = mux_demo_holds (Some 1)\<rparr>"

lemma mux_demo_locks [simp]:
  "muxes (mux_demo ow) = mux_demo_mux ow" "lockList (mux_demo ow) = mux_demo_holds ow"
  "muxes mux_demo_wait = mux_demo_mux (Some 1)" "lockList mux_demo_wait = mux_demo_holds (Some 1)"
  by (simp_all add: mux_demo_def mux_demo_wait_def demo_def demo_wait_def upd_task_def)

lemma mux_demo_inv: "mux_inv (mux_demo ow)" "mux_inv mux_demo_wait"
  by (auto simp: mux_inv_def mux_demo_mux_def mux_demo_holds_def mux_ok_def mux_zero_def)

lemma mux_demo_call: "call_ok (mux_demo ow)" "call_ok mux_demo_wait" "waiting mux_demo_wait (MuxList 0) = [2]" "wakeable mux_demo_wait 2"
  by (simp_all add: mux_demo_def mux_demo_wait_def demo_call demo_wait_call)

lemma mux_demo_attr_ok: "OsCheckMutexAttr mux_demo_attr = LOS_OK"
  by (simp add: OsCheckMutexAttr_def mux_demo_attr_def)

section \<open>Properties\<close>

text \<open>C6. Ownership: in every reachable state a mutex is linked in the list of held mutexes of exactly the task that owns
  it, once; it has an owner exactly when its counter is not 0; and only a recursive mutex is ever counted beyond 1.\<close>

theorem mux_ownership:
  assumes "mux_reach s"
  shows "(i \<in> set (lockList s t) \<longleftrightarrow> owner (muxes s i) = Some t) \<and> distinct (lockList s t) \<and>
    (owner (muxes s i) = None \<longleftrightarrow> muxCount (muxes s i) = 0) \<and> (mux_type (attr (muxes s i)) \<noteq> LOS_MUX_RECURSIVE \<longrightarrow> unat (muxCount (muxes s i)) \<le> 1)"
  using mux_invD(1) [OF mux_reach_inv [OF assms], of i] mux_invD(2,3) [OF mux_reach_inv [OF assms]] by (auto simp: mux_ok_def)

theorem mux_ownership_witness:
  "\<exists>s :: mux_kstate. mux_reach s \<and> lockList s 1 = [0] \<and> owner (muxes s 0) = Some 1 \<and> \<not> 0 \<in> set (lockList s 2)"
proof -
  define s :: mux_kstate where "s = demo \<lparr>muxes = (\<lambda>_. mux_zero), lockList = (\<lambda>_. [])\<rparr>"
  let ?s1 = "fst (LOS_MuxInit (Some 0) None s)" let ?s2 = "fst (the (LOS_MuxTrylock (Some 0) ?s1))"
  have l: "muxes s = (\<lambda>_. mux_zero)" "lockList s = (\<lambda>_. [])" "currTask s = 1" "\<not> intActive s" by (simp_all add: s_def) (simp_all add: demo_def)
  have r0: "mux_reach s" by (rule mux_reach.intros(1)) (simp add: mux_start_def l)
  have a: "OsCheckMutexAttr (the (fst (LOS_MuxAttrInit (Some (attr mux_zero))))) = LOS_OK"
    by (simp add: LOS_MuxAttrInit_def OsCheckMutexAttr_def)
  have "holdOn (muxes s 0) = None" unfolding l by (simp add: mux_zero_def)
  from mux_reach.intros(2) [OF r0 mux_init [OF this surjective_pairing]] have r1: "mux_reach ?s1" .
  have m: "muxes ?s1 0 = mux_zero\<lparr>attr := the (fst (LOS_MuxAttrInit (Some (attr mux_zero)))), muxCount := 0, owner := None, muxLinked := True, muxMagic := OS_MUX_MAGIC\<rparr>"
    "lockList ?s1 = (\<lambda>_. [])" "currTask ?s1 = 1" "\<not> intActive ?s1"
    using a by (simp_all add: LOS_MuxInit_def Let_def l)
  have p: "protocol (the (fst (LOS_MuxAttrInit (Some (attr mux_zero))))) = LOS_MUX_PRIO_INHERIT" by (simp add: LOS_MuxAttrInit_def)
  have run: "LOS_MuxTrylock (Some 0) ?s1 = Some (?s2, WaitRet LOS_OK)" "lockList ?s2 1 = [0]" "owner (muxes ?s2 0) = Some 1"
    using a p by (simp_all add: LOS_MuxTrylock_def OsMuxTrylockUnsafe_def OsMuxPendOp_def mux_take_def hold_insert_def m mux_zero_def)
  have r2: "mux_reach ?s2" by (rule mux_reach.intros(2) [OF r1 mux_trylock [OF run(1)]])
  moreover have "\<not> 0 \<in> set (lockList ?s2 2)" using mux_ownership [OF r2, of 0 2] run(3) by simp
  ultimately show ?thesis using run by blast
qed

text \<open>C30. Locking: with the scheduler and the mutexes in order, \<open>LOS_MuxLock\<close> and \<open>LOS_MuxTrylock\<close> come back or block
  with the scheduler still in order; they return \<open>LOS_OK\<close> exactly by giving the mutex to the caller, which is free or
  already its own and recursive; a caller that blocks is queued while somebody else, or itself without recursion, holds
  the mutex; otherwise they return an error and change no mutex. The priority of an owner may only be raised while the
  owner is in no ready queue (\<open>boost_ok\<close>).\<close>

theorem mux_lock_outcomes:
  assumes "call_ok s" and "mux_inv s" and "boost_ok i s" and "mux_time_ok c s"
  shows "\<exists>s' r. mux_run (Some i) c s = Some (s', r) \<and> k_inv s' \<and> run_ok s' \<and> mux_inv s' \<and> mux_outcome i s s' r \<and> (c = Trylock \<longrightarrow> r \<noteq> WaitBlocked)"
  using assms by (rule mux_call_spec)

theorem mux_lock_outcomes_witness:
  "(\<exists>s'. mux_run (Some 0) Trylock (mux_demo None) = Some (s', WaitRet LOS_OK) \<and> k_inv s' \<and> held s' 0 = Some (1, 1)) \<and>
   (\<exists>s' r. mux_run (Some 0) (Lock LOS_WAIT_FOREVER) (mux_demo (Some 2)) = Some (s', r) \<and> k_inv s' \<and> mux_outcome 0 (mux_demo (Some 2)) s' r)"
proof -
  have b: "boost_ok 0 (mux_demo None)" "boost_ok 0 (mux_demo (Some 2))"
    by (simp_all add: boost_ok_def mux_demo_mux_def mux_demo_def ready_hpf_def flag_simps)
  have h: "held (mux_demo None) 0 = None" by (simp add: held_def mux_demo_mux_def)
  obtain s' r where s': "mux_run (Some 0) Trylock (mux_demo None) = Some (s', r)" "k_inv s'" "mux_outcome 0 (mux_demo None) s' r" "r \<noteq> WaitBlocked"
    using mux_lock_outcomes [OF mux_demo_call(1) mux_demo_inv(1) b(1), of Trylock] by auto
  have "\<exists>s''. mux_run (Some 0) Trylock (mux_demo None) = Some (s'', WaitRet LOS_OK)"
    by (simp add: LOS_MuxTrylock_def OsMuxTrylockUnsafe_def OsMuxPendOp_def mux_take_def hold_insert_def mux_demo_mux_def mux_demo_attr_ok)
      (simp add: mux_demo_def mux_demo_attr_def)
  with s' h have "r = WaitRet LOS_OK" "held s' 0 = Some (1, 1)" by (auto simp: mux_outcome_def mux_granted_def mux_demo_def)
  with s' mux_lock_outcomes [OF mux_demo_call(1) mux_demo_inv(1) b(2), of "Lock LOS_WAIT_FOREVER"] show ?thesis by auto
qed

text \<open>C17. Unlocking: a holder that unlocks gives back one hold; with the last one the mutex goes to the first waiter, with
  one hold and out of the waiting list, or becomes free; the waiter that got it is ready or running unless it is
  suspended; a task that does not hold the mutex gets an error and nothing changes.\<close>

theorem mux_unlock_hands_over:
  assumes "call_ok s" and "mux_inv s" and "\<not> intActive s" and "muxMagic (muxes s i) = OS_MUX_MAGIC" and "OsCheckMutexAttr (attr (muxes s i)) = LOS_OK"
    and "\<forall>t \<in> set (waiting s (MuxList i)). wakeable s t"
  shows "case held s i of
      Some (t, n) \<Rightarrow> if t = currTask s
        then \<exists>s'. LOS_MuxUnlock (Some i) s = Some (s', LOS_OK) \<and> k_inv s' \<and> run_ok s' \<and> mux_inv s' \<and>
          held s' = (held s)(i := if n \<noteq> 1 then Some (t, n - 1) else if waiting s (MuxList i) = [] then None else Some (hd (waiting s (MuxList i)), 1)) \<and>
          waiting s' (MuxList i) = (if n = 1 then tl (waiting s (MuxList i)) else waiting s (MuxList i)) \<and>
          (n = 1 \<and> waiting s (MuxList i) \<noteq> [] \<longrightarrow> (let w = hd (waiting s (MuxList i)) in has (status_of s w) OS_TASK_STATUS_SUSPENDED \<or> ready_hpf s' w \<or> currTask s' = w))
        else LOS_MuxUnlock (Some i) s = Some (s, LOS_EPERM)
    | None \<Rightarrow> LOS_MuxUnlock (Some i) s = Some (s, LOS_EPERM)"
proof (cases "\<exists>n. held s i = Some (currTask s, n)")
  case False
  then have "owner (muxes s i) \<noteq> Some (currTask s)" by (auto simp: held_def)
  then have "LOS_MuxUnlock (Some i) s = Some (s, LOS_EPERM)" using assms(3-5) by (simp add: LOS_MuxUnlock_def OsMuxUnlockUnsafe_def Let_def)
  with False show ?thesis by (auto split: option.split)
next
  case True
  then obtain n where n: "held s i = Some (currTask s, n)" by blast
  from unlock_spec [OF assms(1-5) n assms(6)] obtain s' where s': "LOS_MuxUnlock (Some i) s = Some (s', LOS_OK)" "k_inv s'" "run_ok s'"
    "waiting s' (MuxList i) = (if n = 1 then tl (waiting s (MuxList i)) else waiting s (MuxList i))"
    "\<forall>w ws. n = 1 \<and> waiting s (MuxList i) = w # ws \<longrightarrow> has (status_of s w) OS_TASK_STATUS_SUSPENDED \<or> ready_hpf s' w \<or> currTask s' = w" by blast
  from unlock_released [OF assms(2) s'(1)] have inv: "mux_inv s'" and rel: "mux_released (currTask s) i s s'" by auto
  have "held s' = (held s)(i := if n \<noteq> 1 then Some (currTask s, n - 1) else if waiting s (MuxList i) = [] then None else Some (hd (waiting s (MuxList i)), 1))"
    using rel n by (auto simp: mux_released_def waiting_lists split: list.split)
  with s' inv n show ?thesis by (cases "waiting s (MuxList i)") (auto simp: Let_def)
qed

theorem mux_unlock_hands_over_witness:
  "\<exists>s'. LOS_MuxUnlock (Some 0) mux_demo_wait = Some (s', LOS_OK) \<and> k_inv s' \<and> held s' 0 = Some (2, 1) \<and> waiting s' (MuxList 0) = []"
proof -
  have "\<not> intActive mux_demo_wait" "muxMagic (muxes mux_demo_wait 0) = OS_MUX_MAGIC" "OsCheckMutexAttr (attr (muxes mux_demo_wait 0)) = LOS_OK"
    "\<forall>t \<in> set (waiting mux_demo_wait (MuxList 0)). wakeable mux_demo_wait t" "currTask mux_demo_wait = 1"
    by (simp_all add: mux_demo_mux_def mux_demo_attr_ok mux_demo_call) (simp_all add: mux_demo_wait_def)
  moreover have "held mux_demo_wait 0 = Some (1, 1)" by (simp add: held_def mux_demo_mux_def)
  ultimately show ?thesis using mux_unlock_hands_over [OF mux_demo_call(2) mux_demo_inv(2), of 0] by (auto simp: mux_demo_call)
qed

end
