(* ===== verification/LosMuxInherit.thy ===== *)
theory LosMuxInherit
  imports LosMux
begin

text \<open>
  Priority inheritance of mutexes: the bitmap in which \<open>HPFPriorityInheritance\<close> and \<open>HPFPriorityRestore\<close>
  (\<^verbatim>\<open>kernel/base/sched/los_priority.c\<close>) remember the priorities a mutex owner had, over histories of \<open>LOS_MuxLock\<close> calls that
  block (\<open>OsMuxBitmapSet\<close>) up to the last \<open>LOS_MuxUnlock\<close> of the owner (\<open>OsMuxBitmapRestore\<close>, \<^verbatim>\<open>kernel/base/ipc/los_mux.c\<close>).
\<close>

section \<open>Tasks of one policy\<close>

abbreviation (input) prio_of :: "LosTaskCB \<Rightarrow> nat" where "prio_of c \<equiv> unat (priority (sp c))"

text \<open>Tasks of one priority policy and one process priority.\<close>

definition peers :: "u16 \<Rightarrow> u16 \<Rightarrow> LosTaskCB \<Rightarrow> bool" where
  "peers pol base c \<longleftrightarrow> same_policy pol c \<and> (pol = LOS_SCHED_RR \<or> pol = LOS_SCHED_FIFO) \<and> basePrio (sp c) = base \<and> prio_of c < 32"

lemma peers_compare:
  assumes "peers pol base c" and "peers pol base c'"
  shows "0 < OsSchedParamCompare c c' \<longleftrightarrow> prio_of c' < prio_of c"
  using compare_prio(1) [of pol c c'] assms by (auto simp: peers_def prio_le_def word_le_nat_alt not_le [symmetric])

lemma prio_mask:
  assumes "unat (p :: u16) < 32"
  shows "unat (p AND OS_BITMAP_MASK) = unat p"
proof -
  have "(0x1F :: u16) = mask 5" by (simp add: mask_eq_exp_minus_1)
  then have "p AND OS_BITMAP_MASK = take_bit 5 p" by (simp only: take_bit_eq_mask)
  with assms show ?thesis by (simp add: unsigned_take_bit_eq take_bit_nat_eq_self)
qed

lemma prio_bits:
  assumes "unat (p :: u16) < 32"
  shows "bit (the (LOS_BitmapSet (Some w) p)) n \<longleftrightarrow> bit w n \<or> n = unat p" and "bit (the (LOS_BitmapClr (Some w) p)) n \<longleftrightarrow> bit w n \<and> n \<noteq> unat p"
proof -
  have "n < 32 \<or> \<not> bit w n \<and> \<not> bit (the (LOS_BitmapSet (Some w) p)) n \<and> \<not> bit (the (LOS_BitmapClr (Some w) p)) n \<and> n \<noteq> unat p"
    using bit_imp_le_length [of w n] bit_imp_le_length [of "the (LOS_BitmapSet (Some w) p)" n] bit_imp_le_length [of "the (LOS_BitmapClr (Some w) p)" n] assms
    by fastforce
  then show "bit (the (LOS_BitmapSet (Some w) p)) n \<longleftrightarrow> bit w n \<or> n = unat p" "bit (the (LOS_BitmapClr (Some w) p)) n \<longleftrightarrow> bit w n \<and> n \<noteq> unat p"
    using bit_BitmapSet [of n w p] bit_BitmapClr [of n w p] prio_mask [OF assms] by auto
qed

section \<open>The bitmap while the owner is boosted\<close>

text \<open>The owner runs at the most urgent of the priorities; the bitmap holds its own priority and some it had on the way.\<close>

definition boost_bits :: "nat \<Rightarrow> nat \<Rightarrow> u32 \<Rightarrow> nat set \<Rightarrow> bool" where
  "boost_bits p0 q bm P \<longleftrightarrow> q \<in> insert p0 P \<and> (\<forall>p \<in> insert p0 P. q \<le> p) \<and> (q < p0 \<longrightarrow> bit bm p0) \<and> (\<forall>j. bit bm j \<longrightarrow> q < j \<and> j \<le> p0 \<and> (j = p0 \<or> j \<in> P))"

lemma boost_bits_keep: "boost_bits p0 q bm P \<Longrightarrow> q \<le> p \<Longrightarrow> boost_bits p0 q bm (insert p P)"
  by (auto simp: boost_bits_def)

lemma boost_bits_raise:
  "boost_bits p0 (unat q) bm P \<Longrightarrow> p < unat q \<Longrightarrow> unat q < 32 \<Longrightarrow> boost_bits p0 p (the (LOS_BitmapSet (Some bm) q)) (insert p P)"
  by (force simp: boost_bits_def prio_bits)

lemma upd_sp_same:
  assumes "f (sp (tcb s t)) = sp (tcb s t)"
  shows "upd_sp t f s = s"
  using assms by (simp add: upd_sp_def upd_task_def)

text \<open>A waiter that arrives raises the priority of the owner to its own, unless it is no more urgent.\<close>

lemma arrival_step:
  assumes own: "owner (muxes s i) = Some ow" "protocol (attr (muxes s i)) = LOS_MUX_PRIO_INHERIT"
    and b: "boost_bits p0 (prio_of (tcb s ow)) (priBitmap (sp (tcb s ow))) P" and p: "peers pol base (tcb s ow)" "peers pol base (tcb s t)"
  shows "\<exists>bm q. OsMuxBitmapSet i t s = Some (upd_sp ow (\<lambda>x. x\<lparr>priBitmap := bm, priority := q\<rparr>) s) \<and> boost_bits p0 (unat q) bm (insert (prio_of (tcb s t)) P)"
proof -
  let ?x = "sp (tcb s ow)"
  have q32: "prio_of (tcb s ow) < 32" using p(1) by (simp add: peers_def)
  note cmp = peers_compare [OF p]
  have param: "is_hpf_param (param_of t s)" "spPriority (param_of t s) = priority (sp (tcb s t))" and ops: "ops (tcb s ow) = g_priorityOps"
    using p by (auto simp: param_of_def ops_schedParamGet_def HPFSchedParamGet_def Let_def is_hpf_param_def peers_def same_policy_def)
  show ?thesis
  proof (cases "prio_of (tcb s t) < prio_of (tcb s ow)")
    case True
    let ?bm = "the (LOS_BitmapSet (Some (priBitmap ?x)) (priority ?x))"
    have "OsMuxBitmapSet i t s = Some (upd_sp ow (\<lambda>x. x\<lparr>priBitmap := the (LOS_BitmapSet (Some (priBitmap x)) (priority x)), priority := priority (sp (tcb s t))\<rparr>) s)"
      using own cmp True param ops by (simp add: OsMuxBitmapSet_def ops_priorityInheritance_def HPFPriorityInheritance_def word_le_nat_alt)
    also have "\<dots> = Some (upd_sp ow (\<lambda>x. x\<lparr>priBitmap := ?bm, priority := priority (sp (tcb s t))\<rparr>) s)" by (simp add: upd_sp_def upd_task_def)
    finally show ?thesis using boost_bits_raise [OF b True q32] by blast
  next
    case False
    have "upd_sp ow (\<lambda>x. x\<lparr>priBitmap := priBitmap ?x, priority := priority ?x\<rparr>) s = s" by (rule upd_sp_same) simp
    moreover have "OsMuxBitmapSet i t s = Some s" using own cmp False by (simp add: OsMuxBitmapSet_def)
    ultimately show ?thesis using boost_bits_keep [OF b, of "prio_of (tcb s t)"] False by (intro exI [of _ "priBitmap ?x"] exI [of _ "priority ?x"]) simp
  qed
qed

section \<open>Giving the priority back\<close>

lemma bit_clear_pended:
  assumes "\<forall>t \<in> set ws. prio_of (tcbs t) < 32"
  shows "bit (clear_pended tcbs o1 k ws bm) j \<longleftrightarrow> bit bm j \<and> \<not> (\<exists>t \<in> set ws. ops (tcbs t) = o1 \<and> k \<noteq> prio_of (tcbs t) \<and> j = prio_of (tcbs t))"
  using assms by (induction ws arbitrary: bm) (auto simp: prio_bits)

lemma only_bit: "(\<And>j. bit (bm :: u32) j \<longleftrightarrow> j = p) \<Longrightarrow> LOS_LowBitGet bm = p \<and> LOS_HighBitGet bm = p"
  using LOS_LowBitGet_least(2) [of bm] LOS_HighBitGet_greatest(2) [of bm] by (metis bit_0_eq bot_apply bot_bool_def)

lemma clear_none: "priBitmap x = 0 \<Longrightarrow> x\<lparr>priBitmap := the (LOS_BitmapClr (Some (priBitmap x)) r)\<rparr> = x" for x :: SchedPolicy
  by (simp add: LOS_BitmapClr_def)

lemma restore_spec:
  assumes ow: "ops (tcb s' ow) = g_priorityOps" and par: "is_hpf_param p" "unat (spPriority p) = r" "r \<in> prio_of ` tcb s' ` set ws" "\<forall>x \<in> prio_of ` tcb s' ` set ws. r \<le> x"
    and ws: "ws \<noteq> []" "\<forall>t \<in> set ws. ops (tcb s' t) = g_priorityOps \<and> prio_of (tcb s' t) < 32"
    and p0: "p0 < 32" and b: "boost_bits p0 (prio_of (tcb s' ow)) (priBitmap (sp (tcb s' ow))) (prio_of ` tcb s' ` set ws)"
  shows "ops_priorityRestore ow (Some ws) p s' = upd_sp ow (\<lambda>x. x\<lparr>priBitmap := 0, priority := of_nat p0\<rparr>) s'"
proof -
  let ?x = "sp (tcb s' ow)" let ?P = "prio_of ` tcb s' ` set ws" let ?bm = "priBitmap ?x"
  have q: "prio_of (tcb s' ow) = min p0 r" using b par(3,4) unfolding boost_bits_def by (metis insert_iff le_antisym min_def)
  have bits: "bit ?bm j \<Longrightarrow> prio_of (tcb s' ow) < j \<and> j \<le> p0 \<and> (j = p0 \<or> j \<in> ?P)" for j using b by (auto simp: boost_bits_def)
  have less: "priority ?x < spPriority p \<longleftrightarrow> p0 < r" unfolding word_less_nat_alt par(2) q by auto
  have same: "upd_sp ow (\<lambda>x. x\<lparr>priBitmap := 0, priority := of_nat p0\<rparr>) s' = s'" if "?bm = 0" "prio_of (tcb s' ow) = p0"
  proof -
    have "of_nat p0 = priority ?x" unfolding that(2) [symmetric] by simp
    then have "?x\<lparr>priBitmap := 0, priority := of_nat p0\<rparr> = ?x\<lparr>priBitmap := priBitmap ?x, priority := priority ?x\<rparr>" using that(1) by simp
    then show ?thesis by (intro upd_sp_same) simp
  qed
  show ?thesis
  proof (cases "p0 \<le> r")
    case True
    then have e: "prio_of (tcb s' ow) = p0" using q by simp
    have "?bm = 0" by (rule bit_word_eqI) (use bits e in force)
    moreover have "upd_sp ow (\<lambda>x. x\<lparr>priBitmap := the (LOS_BitmapClr (Some (priBitmap x)) (spPriority p))\<rparr>) s' = s'"
      by (rule upd_sp_same) (rule clear_none [OF \<open>?bm = 0\<close>])
    ultimately have "ops_priorityRestore ow (Some ws) p s' = s'"
      using ow par(1) by (simp add: ops_priorityRestore_def HPFPriorityRestore_def Let_def)
    with same [OF \<open>?bm = 0\<close> e] show ?thesis by simp
  next
    case False
    then have e: "prio_of (tcb s' ow) < p0" "\<not> priority ?x < spPriority p" using q less by auto
    then have p0b: "bit ?bm p0" using b by (simp add: boost_bits_def)
    then have nz: "?bm \<noteq> 0" by auto
    have high: "LOS_HighBitGet ?bm = p0" using LOS_HighBitGet_greatest(2,3) [OF nz] bits p0b by (metis le_antisym)
    let ?c = "clear_pended (tcb s') g_priorityOps p0 ws ?bm"
    have c: "bit ?c j \<longleftrightarrow> j = p0" for j
      using bit_clear_pended [of ws "tcb s'" g_priorityOps p0 ?bm j] ws(2) bits [of j] p0b by auto
    have clr: "the (LOS_BitmapClr (Some ?c) (of_nat p0)) = 0"
    proof (rule bit_word_eqI)
      have "unat (of_nat p0 :: u16) = p0" using p0 by (simp add: unat_of_nat)
      then show "bit (the (LOS_BitmapClr (Some ?c) (of_nat p0))) j \<longleftrightarrow> bit (0 :: u32) j" for j using prio_bits(2) [of "of_nat p0" ?c j] p0 c by auto
    qed
    obtain w v where wv: "ws = w # v" using ws(1) by (cases ws) auto
    show ?thesis using ow par(1) e(2) nz high only_bit [of ?c, OF c] p0 clr
      by (simp add: ops_priorityRestore_def HPFPriorityRestore_def Let_def wv)
  qed
qed

section \<open>Histories of a held mutex\<close>

text \<open>What a task is to its scheduler, apart from its time slice.\<close>

definition rank_of :: "'a kstate_scheme \<Rightarrow> nat \<Rightarrow> _" where
  "rank_of s t = (ops (tcb s t), policy (sp (tcb s t)), basePrio (sp (tcb s t)), priority (sp (tcb s t)), priBitmap (sp (tcb s t)))"

lemma rank_view:
  assumes "ipc_view s' = ipc_view s"
  shows "rank_of s' = rank_of s"
  by (rule ext) (simp only: rank_of_def viewD(9-13) [OF assms])

lemma rank_frame [simp]:
  "rank_of (upd_mux i f m) = rank_of m" "rank_of (OsTaskWaitSetPendMask fl x s) = rank_of s" "rank_of (OsTaskWakeClearPendMask t s) = rank_of s"
  "rank_of (upd_task t (\<lambda>c. c\<lparr>taskMux := o1\<rparr>) s) = rank_of s"
  by (simp_all add: rank_of_def fun_eq_iff OsTaskWaitSetPendMask_def OsTaskWakeClearPendMask_def upd_task_def)

lemma rank_hold:
  "hold_insert t i m = Some m' \<Longrightarrow> rank_of m' = rank_of m" "hold_delete i m = Some m' \<Longrightarrow> rank_of m' = rank_of m"
  by (auto simp: hold_insert_def hold_delete_def rank_of_def fun_eq_iff split: if_split_asm option.split_asm)

lemma rank_peers: "rank_of s' t = rank_of s t \<Longrightarrow> peers pol base (tcb s' t) = peers pol base (tcb s t)"
  by (simp add: rank_of_def peers_def same_policy_def)

lemma rank_prio:
  assumes "rank_of s' t = rank_of s t"
  shows "priority (sp (tcb s' t)) = priority (sp (tcb s t))" and "priBitmap (sp (tcb s' t)) = priBitmap (sp (tcb s t))" and "basePrio (sp (tcb s' t)) = basePrio (sp (tcb s t))"
  using assms by (simp_all add: rank_of_def)

text \<open>While task \<open>ow\<close> holds mutex \<open>i\<close>, other tasks of its policy and process priority lock it and block, and anything else happens that keeps the owner, the
  attributes and the list of the waiters of the mutex and the priorities of these tasks, a nested lock or unlock of the owner among it.\<close>

inductive inherit_run :: "nat \<Rightarrow> nat \<Rightarrow> u16 \<Rightarrow> u16 \<Rightarrow> 'a mux_kstate_scheme \<Rightarrow> 'a mux_kstate_scheme \<Rightarrow> bool" for i ow pol base s0 where
  run_start: "inherit_run i ow pol base s0 s0"
| run_lock: "inherit_run i ow pol base s0 s \<Longrightarrow> call_ok s \<Longrightarrow> mux_inv s \<Longrightarrow> boost_ok i s \<Longrightarrow> mux_time_ok (Lock timeout) s \<Longrightarrow> currTask s \<noteq> ow \<Longrightarrow>
    peers pol base (tcb s (currTask s)) \<Longrightarrow> LOS_MuxLock (Some i) timeout s = Some (s', WaitBlocked) \<Longrightarrow> inherit_run i ow pol base s0 s'"
| run_other: "inherit_run i ow pol base s0 s \<Longrightarrow> owner (muxes s' i) = owner (muxes s i) \<Longrightarrow> attr (muxes s' i) = attr (muxes s i) \<Longrightarrow>
    waiting s' (MuxList i) = waiting s (MuxList i) \<Longrightarrow> \<forall>t \<in> insert ow (set (waiting s (MuxList i))). rank_of s' t = rank_of s t \<Longrightarrow> inherit_run i ow pol base s0 s'"

definition inherits :: "nat \<Rightarrow> nat \<Rightarrow> u16 \<Rightarrow> u16 \<Rightarrow> nat \<Rightarrow> 'a mux_kstate_scheme \<Rightarrow> bool" where
  "inherits i ow pol base p0 s \<longleftrightarrow> owner (muxes s i) = Some ow \<and> protocol (attr (muxes s i)) = LOS_MUX_PRIO_INHERIT \<and> ow \<notin> set (waiting s (MuxList i)) \<and>
    (\<forall>t \<in> insert ow (set (waiting s (MuxList i))). peers pol base (tcb s t)) \<and> sorted_wrt prio_le (map (tcb s) (waiting s (MuxList i))) \<and>
    boost_bits p0 (prio_of (tcb s ow)) (priBitmap (sp (tcb s ow))) (prio_of ` tcb s ` set (waiting s (MuxList i)))"

lemma inheritsD:
  assumes "inherits i ow pol base p0 s"
  shows "owner (muxes s i) = Some ow" and "protocol (attr (muxes s i)) = LOS_MUX_PRIO_INHERIT" and "ow \<notin> set (waiting s (MuxList i))" and "peers pol base (tcb s ow)"
    and "\<forall>t \<in> set (waiting s (MuxList i)). peers pol base (tcb s t)" and "sorted_wrt prio_le (map (tcb s) (waiting s (MuxList i)))"
    and "boost_bits p0 (prio_of (tcb s ow)) (priBitmap (sp (tcb s ow))) (prio_of ` tcb s ` set (waiting s (MuxList i)))"
  using assms by (simp_all add: inherits_def)

lemma sorted_rank:
  assumes "\<forall>t \<in> set ws. rank_of s' t = rank_of s t" and "sorted_wrt prio_le (map (tcb s) ws)"
  shows "sorted_wrt prio_le (map (tcb s') ws)"
proof -
  have step: "prio_le (tcb s' x) (tcb s' y)" if "x \<in> set ws" "y \<in> set ws" "prio_le (tcb s x) (tcb s y)" for x y
  proof -
    have e: "rank_of s' x = rank_of s x" "rank_of s' y = rank_of s y" using assms(1) that by blast+
    show ?thesis using that(3) unfolding prio_le_def rank_prio [OF e(1)] rank_prio [OF e(2)] .
  qed
  show ?thesis unfolding sorted_wrt_map
  proof (rule sorted_wrt_mono_rel [where P = "\<lambda>x y. prio_le (tcb s x) (tcb s y)"])
    show "sorted_wrt (\<lambda>x y. prio_le (tcb s x) (tcb s y)) ws" using assms(2) unfolding sorted_wrt_map .
  qed (rule step)
qed

lemma inherits_cong:
  assumes v: "inherits i ow pol base p0 s" and m: "owner (muxes s' i) = owner (muxes s i)" "attr (muxes s' i) = attr (muxes s i)" "waiting s' (MuxList i) = waiting s (MuxList i)"
    and r: "\<forall>t \<in> insert ow (set (waiting s (MuxList i))). rank_of s' t = rank_of s t"
  shows "inherits i ow pol base p0 s'"
proof -
  let ?W = "set (waiting s (MuxList i))"
  have "prio_of (tcb s' t) = prio_of (tcb s t)" if "t \<in> insert ow ?W" for t using rank_prio(1) r that by metis
  then have "prio_of ` tcb s' ` ?W = prio_of ` tcb s ` ?W" "prio_of (tcb s' ow) = prio_of (tcb s ow)" by (auto simp: image_image)
  moreover have "priBitmap (sp (tcb s' ow)) = priBitmap (sp (tcb s ow))" using rank_prio(2) r by blast
  moreover have "\<forall>t \<in> insert ow ?W. peers pol base (tcb s' t) = peers pol base (tcb s t)" using rank_peers r by blast
  ultimately show ?thesis using inheritsD [OF v] m sorted_rank [of "waiting s (MuxList i)" s' s] r unfolding inherits_def by simp
qed

text \<open>A call of \<open>LOS_MuxLock\<close> that blocks comes to the wait, which keeps all ranks but that of the owner.\<close>

lemma lock_waits:
  assumes inv: "mux_inv s" and run: "LOS_MuxLock (Some i) timeout s = Some (s', WaitBlocked)"
  shows "mux_wait (currTask s) i timeout s = Some (s', WaitBlocked)" and "taskLockCnt s = 0" and "owner (muxes s i) \<noteq> None"
proof -
  let ?m = "muxes s i"
  have l: "muxLinked ?m" "muxCount ?m \<noteq> 0" and p: "OsMuxPendOp (currTask s) i timeout s = Some (s', WaitBlocked)"
  proof -
    have m: "muxMagic ?m = OS_MUX_MAGIC" and p: "OsMuxPendOp (currTask s) i timeout s = Some (s', WaitBlocked)"
      using run by (auto simp: LOS_MuxLock_def OsMuxLockUnsafe_def Let_def split: if_split_asm)
    show l: "muxLinked ?m" using mux_invD(1) [OF inv, of i] m by (simp add: mux_ok_def)
    show "muxCount ?m \<noteq> 0" using p l by (auto simp: OsMuxPendOp_def)
    show "OsMuxPendOp (currTask s) i timeout s = Some (s', WaitBlocked)" by (rule p)
  qed
  have "taskLockCnt s = 0 \<and> mux_wait (currTask s) i timeout s = Some (s', WaitBlocked)"
    using p l unfolding OsMuxPendOp_def Let_def by (auto simp: OsPreemptableInSched_def split: if_split_asm)
  then show "mux_wait (currTask s) i timeout s = Some (s', WaitBlocked)" "taskLockCnt s = 0" by blast+
  show "owner ?m \<noteq> None" using mux_invD(1) [OF inv, of i] l(2) by (auto simp: mux_ok_def)
qed

lemma lock_blocks:
  fixes s :: "'a mux_kstate_scheme"
  assumes call: "call_ok s" and inv: "mux_inv s" and boost: "boost_ok i s" and time: "mux_time_ok (Lock timeout) s"
    and run: "LOS_MuxLock (Some i) timeout s = Some (s', WaitBlocked)"
  shows "\<exists>s1 (s2 :: 'a mux_kstate_scheme) k. OsMuxBitmapSet i (currTask s) s = Some s1 \<and> rank_of s2 = rank_of s1 \<and> rank_of s' = rank_of s1 \<and> muxes s' = muxes s \<and>
    OsSchedLockPendFindPos (tcb s2) (tcb s2 (currTask s)) (waiting s (MuxList i)) = Some k \<and>
    waiting s' (MuxList i) = insert_after k (currTask s) (waiting s (MuxList i))"
proof -
  let ?t = "currTask s" let ?h = "MuxList i"
  note w = lock_waits [OF inv run]
  from w(3) obtain ow where ow: "owner (muxes s i) = Some ow" by blast
  obtain s1 where s1: "OsMuxBitmapSet i ?t s = Some s1" "call_ok s1" "waiting s1 = waiting s" "currTask s1 = ?t" "taskLockCnt s1 = 0" "clock s1 = clock s" "cfg s1 = cfg s"
    using BitmapSet_call [OF call ow boost] w(2) by metis
  define s2 where "s2 = upd_task ?t (\<lambda>c. c\<lparr>taskMux := Some i\<rparr>) s1"
  have call2: "call_ok s2" unfolding s2_def by (rule call_ok_minor [OF s1(2)]) (simp_all add: minor_update_def)
  have "waiting s2 = waiting s1" by (simp add: s2_def fun_eq_iff waiting_def waiters_of_def)
  then have s2: "currTask s2 = ?t" "taskLockCnt s2 = 0" "clock s2 = clock s" "cfg s2 = cfg s" "waiting s2 = waiting s"
    using s1 by (simp_all add: s2_def)
  have len: "lists s2 ?h = waiting s ?h" using s2(5) waiting_lists [of ?h s2] by simp
  obtain k where k: "OsSchedLockPendFindPos (tcb s2) (tcb s2 ?t) (waiting s ?h) = Some k" using FindPos_Some by blast
  from wait_call [OF call2 s2(2), of ?h timeout k OS_TASK_WAIT_MUTEX "of_nat i"] time obtain s3 where
    s3: "ops_wait ?t ?h k timeout (OsTaskWaitSetPendMask OS_TASK_WAIT_MUTEX (of_nat i) s2) = Some (s3, WaitBlocked)" "waiting s3 ?h = insert_after k ?t (waiting s ?h)"
    unfolding s2(1,5) by (auto simp: OS_SCHED_TICK_TO_CYCLE_def s2(3,4))
  have "mux_wait ?t i timeout s = Some (s3, WaitBlocked)" using s1(1) k s3(1) len unfolding s2_def by (simp add: mux_wait_def)
  then have e: "s3 = s'" using w(1) by simp
  have r2: "rank_of s2 = rank_of s1" by (simp add: s2_def)
  moreover have "rank_of s' = rank_of s1" using rank_view [OF ops_wait_view [OF s3(1)]] r2 unfolding e by simp
  moreover have "muxes s' = muxes s" by (rule locks_ofD(1) [OF locks_wait [OF w(1)]])
  ultimately show ?thesis using s1(1) k s3(2) unfolding e by blast
qed

lemma rank_upd_sp:
  "rank_of (upd_sp u f s) t = (if t = u then (ops (tcb s u), policy (f (sp (tcb s u))), basePrio (f (sp (tcb s u))), priority (f (sp (tcb s u))), priBitmap (f (sp (tcb s u)))) else rank_of s t)"
  by (simp add: rank_of_def upd_sp_def upd_task_def)

text \<open>One more waiter.\<close>

lemma inherits_lock:
  fixes s :: "'a mux_kstate_scheme"
  assumes v: "inherits i ow pol base p0 s" and call: "call_ok s" and inv: "mux_inv s" and boost: "boost_ok i s" and time: "mux_time_ok (Lock timeout) s"
    and t: "currTask s \<noteq> ow" "peers pol base (tcb s (currTask s))" and run: "LOS_MuxLock (Some i) timeout s = Some (s', WaitBlocked)"
  shows "inherits i ow pol base p0 s'"
proof -
  let ?t = "currTask s" let ?ws = "waiting s (MuxList i)" let ?W = "set ?ws"
  note d = inheritsD [OF v]
  from lock_blocks [OF call inv boost time run] obtain s1 s2 :: "'a mux_kstate_scheme" and k where
    s1: "OsMuxBitmapSet i ?t s = Some s1" "rank_of s2 = rank_of s1" "rank_of s' = rank_of s1" "muxes s' = muxes s"
    and k: "OsSchedLockPendFindPos (tcb s2) (tcb s2 ?t) ?ws = Some k" "waiting s' (MuxList i) = insert_after k ?t ?ws" by blast
  from arrival_step [OF d(1,2,7,4) t(2)] obtain bm q where
    q: "s1 = upd_sp ow (\<lambda>x. x\<lparr>priBitmap := bm, priority := q\<rparr>) s" "boost_bits p0 (unat q) bm (insert (prio_of (tcb s ?t)) (prio_of ` tcb s ` ?W))"
    using s1(1) by auto
  have others: "rank_of s1 u = rank_of s u" if "u \<noteq> ow" for u unfolding q(1) rank_upd_sp using that by simp
  have q32: "unat q < 32" using q(2) t(2) unfolding boost_bits_def peers_def by fastforce
  have own: "rank_of s1 ow = (ops (tcb s ow), policy (sp (tcb s ow)), basePrio (sp (tcb s ow)), q, bm)" unfolding q(1) rank_upd_sp by simp
  have peer: "peers pol base (tcb sx u)" if "u \<in> insert ow (insert ?t ?W)" "rank_of sx = rank_of s1" for u sx
  proof (cases "u = ow")
    case True
    then show ?thesis using own d(4) q32 that(2) by (simp add: rank_of_def peers_def same_policy_def fun_eq_iff)
  next
    case False
    then have "peers pol base (tcb s u)" "rank_of sx u = rank_of s u" using that d(5) t(2) others by auto
    then show ?thesis using rank_peers by blast
  qed
  have ne: "ow \<notin> insert ?t ?W" using d(3) t(1) by auto
  have set': "set (waiting s' (MuxList i)) = insert ?t ?W" unfolding k(2) insert_after_def by (metis append_take_drop_id insert_is_Un list.simps(15) set_append sup_left_commute)
  have "sorted_wrt prio_le (map (tcb s2) ?ws)" by (rule sorted_rank [OF _ d(6)]) (metis others s1(2) d(3))
  moreover have "\<forall>u \<in> ?W. same_policy pol (tcb s2 u)" "same_policy pol (tcb s2 ?t)" using peer [OF _ s1(2)] by (auto simp: peers_def)
  ultimately have "sorted_wrt prio_le (map (tcb s2) (insert_after k ?t ?ws))"
    using FindPos_pos [of ?ws pol "tcb s2" "tcb s2 ?t"] k(1) sorted_insert_after [of "tcb s2" ?ws ?t k] by auto
  then have srt: "sorted_wrt prio_le (map (tcb s') (waiting s' (MuxList i)))" unfolding k(2) by (rule sorted_rank [rotated]) (simp add: s1(2,3))
  have pr: "prio_of (tcb s' u) = prio_of (tcb s u)" if "u \<in> insert ?t ?W" for u
  proof -
    have "rank_of s' u = rank_of s u" using s1(3) others ne that by metis
    from rank_prio(1) [OF this] show ?thesis by simp
  qed
  have im: "prio_of ` tcb s' ` insert ?t ?W = insert (prio_of (tcb s ?t)) (prio_of ` tcb s ` ?W)" using pr by (auto simp: image_image)
  have qq: "priority (sp (tcb s' ow)) = q" "priBitmap (sp (tcb s' ow)) = bm" using own s1(3) by (simp_all add: rank_of_def fun_eq_iff)
  show ?thesis unfolding inherits_def set' im qq
    using d(1,2) s1(4) ne srt q(2) peer [OF _ s1(3)] by simp
qed

lemma inherit_run_inherits:
  assumes "inherit_run i ow pol base s0 s" and "inherits i ow pol base p0 s0"
  shows "inherits i ow pol base p0 s"
  using assms by induction (auto intro: inherits_lock inherits_cong)

lemma inherits_start:
  assumes "owner (muxes s i) = Some ow" and "protocol (attr (muxes s i)) = LOS_MUX_PRIO_INHERIT" and "waiting s (MuxList i) = []"
    and "peers pol base (tcb s ow)" and "priBitmap (sp (tcb s ow)) = 0"
  shows "inherits i ow pol base (prio_of (tcb s ow)) s"
  using assms by (simp add: inherits_def boost_bits_def)

lemma inherits_prio:
  assumes "inherits i ow pol base p0 s"
  shows "prio_of (tcb s ow) = Min (insert p0 (prio_of ` tcb s ` set (waiting s (MuxList i))))"
  using inheritsD(7) [OF assms] by (intro Min_eqI [symmetric]) (auto simp: boost_bits_def)

section \<open>The last unlock\<close>

lemma inherits_restore:
  assumes v: "inherits i ow pol base p0 s" and p0: "p0 < 32" and ws: "waiting s (MuxList i) = w # ws"
  shows "OsMuxBitmapRestore i (Some (w # ws)) w s = Some (upd_sp ow (\<lambda>x. x\<lparr>priBitmap := 0, priority := of_nat p0\<rparr>) s)"
proof -
  note d = inheritsD [OF v]
  have pw: "peers pol base (tcb s w)" and po: "\<forall>t \<in> set (w # ws). ops (tcb s t) = g_priorityOps \<and> prio_of (tcb s t) < 32" and oo: "ops (tcb s ow) = g_priorityOps"
    using d(4,5) ws by (auto simp: peers_def same_policy_def)
  have param: "is_hpf_param (param_of w s)" "unat (spPriority (param_of w s)) = prio_of (tcb s w)"
    using pw by (auto simp: param_of_def ops_schedParamGet_def HPFSchedParamGet_def Let_def is_hpf_param_def peers_def same_policy_def)
  have least: "\<forall>x \<in> prio_of ` tcb s ` set (w # ws). prio_of (tcb s w) \<le> x"
    using d(5,6) ws by (auto simp: prio_le_def word_le_nat_alt peers_def)
  have "ops_priorityRestore ow (Some (w # ws)) (param_of w s) s = upd_sp ow (\<lambda>x. x\<lparr>priBitmap := 0, priority := of_nat p0\<rparr>) s"
    by (rule restore_spec [OF oo param _ least _ po p0]) (use d(7) ws in auto)
  with d(1,2) show ?thesis by (simp add: OsMuxBitmapRestore_def)
qed

lemma PostOp_ranks:
  assumes v: "inherits i ow pol base p0 s" and p0: "p0 < 32" and run: "OsMuxPostOp i s = Some (s', r, b)"
  shows "rank_of s' = rank_of (upd_sp ow (\<lambda>x. x\<lparr>priBitmap := 0, priority := of_nat p0\<rparr>) s)"
proof (cases "waiting s (MuxList i)")
  case Nil
  let ?x = "sp (tcb s ow)"
  have b: "prio_of (tcb s ow) = p0" "\<not> bit (priBitmap ?x) j" for j using inheritsD(7) [OF v] Nil by (fastforce simp: boost_bits_def)+
  have "priBitmap ?x = 0" by (rule bit_word_eqI) (simp add: b(2))
  moreover have "of_nat p0 = priority ?x" unfolding b(1) [symmetric] by simp
  ultimately have "upd_sp ow (\<lambda>x. x\<lparr>priBitmap := 0, priority := of_nat p0\<rparr>) s = s" by (intro upd_sp_same) simp
  moreover have "lists s (MuxList i) = []" using Nil by (simp add: waiting_lists)
  ultimately show ?thesis using run by (auto simp: OsMuxPostOp_def bind_eq_Some_conv rank_hold)
next
  case (Cons w ws)
  then have "lists s (MuxList i) = w # ws" by (simp add: waiting_lists)
  with run inherits_restore [OF v p0 Cons] obtain s2 s3 s4 where
    s2: "hold_delete i (upd_mux i (\<lambda>m. m\<lparr>muxCount := 1, owner := Some w\<rparr>) (upd_sp ow (\<lambda>x. x\<lparr>priBitmap := 0, priority := of_nat p0\<rparr>) s)) = Some s2"
    and s3: "hold_insert w i s2 = Some s3" and s4: "ops_wake w (OsTaskWakeClearPendMask w s3) = Some s4" and s': "s' = upd_task w (\<lambda>c. c\<lparr>taskMux := None\<rparr>) s4"
    by (auto simp: OsMuxPostOp_def bind_eq_Some_conv)
  from rank_view [OF ops_wake_view [OF s4]] rank_hold(1) [OF s3] rank_hold(2) [OF s2] show ?thesis by (simp add: s')
qed

lemma unlock_ranks:
  assumes v: "inherits i ow pol base p0 s" and p0: "p0 < 32" and h: "muxCount (muxes s i) = 1" "currTask s = ow"
    and run: "LOS_MuxUnlock (Some i) s = Some (s', LOS_OK)"
  shows "rank_of s' = rank_of (upd_sp ow (\<lambda>x. x\<lparr>priBitmap := 0, priority := of_nat p0\<rparr>) s)"
proof -
  let ?s1 = "upd_mux i (\<lambda>m. m\<lparr>muxCount := muxCount m - 1\<rparr>) s"
  note d = inheritsD [OF v]
  from run obtain s2 b where s2: "OsMuxUnlockUnsafe ow i s = Some (s2, LOS_OK, b)" "(if b then LOS_Schedule s2 else Some s2) = Some s'"
    using h(2) by (auto simp: LOS_MuxUnlock_def bind_eq_Some_conv split: if_split_asm)
  have "OsMuxPostOp i ?s1 = Some (s2, LOS_OK, b)"
    using s2(1) d(1,2) h(1) by (auto simp: OsMuxUnlockUnsafe_def Let_def split: if_split_asm)
  moreover have "inherits i ow pol base p0 ?s1" by (rule inherits_cong [OF v]) simp_all
  ultimately have "rank_of s2 = rank_of (upd_sp ow (\<lambda>x. x\<lparr>priBitmap := 0, priority := of_nat p0\<rparr>) ?s1)" using PostOp_ranks p0 by blast
  also have "\<dots> = rank_of (upd_sp ow (\<lambda>x. x\<lparr>priBitmap := 0, priority := of_nat p0\<rparr>) s)" by (rule ext) (simp add: rank_upd_sp)
  finally have "rank_of s2 = \<dots>" .
  moreover have "rank_of s' = rank_of s2" using s2(2) rank_view [OF LOS_Schedule_view, of s2 s'] by (auto split: if_split_asm)
  ultimately show ?thesis by simp
qed

section \<open>A concrete history\<close>

text \<open>Task 2 runs while task 1, of lower priority, holds the mutex; afterwards task 1 runs, with the priority of task 2, which waits.\<close>

definition inherit_demo_run :: mux_kstate where
  "inherit_demo_run = (upd_task 1 (\<lambda>c. c\<lparr>taskStatus := 0\<rparr>) (upd_task 2 (\<lambda>c. c\<lparr>taskStatus := OS_TASK_STATUS_RUNNING\<rparr>) (mux_demo (Some 1))))\<lparr>currTask := 2\<rparr>"

definition inherit_demo_boosted :: mux_kstate where
  "inherit_demo_boosted = upd_sp 1 (\<lambda>x. x\<lparr>priBitmap := 0x400, priority := 5\<rparr>) mux_demo_wait"

lemma mux_demo_tasks [simp]:
  "tcb (mux_demo ow) = demo_task" "waiting (mux_demo ow) (MuxList j) = []"
  "tcb mux_demo_wait = demo_task(2 := (demo_task 2)\<lparr>pendOn := Some (MuxList 0), taskStatus := OS_TASK_STATUS_PENDING, waitTime := 0\<rparr>)"
  by (simp_all add: mux_demo_def mux_demo_wait_def waiting_def waiters_of_def)

lemma inherit_demo_simps [simp]:
  "currTask inherit_demo_run = 2" "muxes inherit_demo_run = mux_demo_mux (Some 1)" "lockList inherit_demo_run = mux_demo_holds (Some 1)" "taskLockCnt inherit_demo_run = 0" "intActive inherit_demo_run = False"
  "waiting inherit_demo_run (MuxList j) = []" "tcb inherit_demo_run = demo_task(1 := (demo_task 1)\<lparr>taskStatus := 0\<rparr>, 2 := (demo_task 2)\<lparr>taskStatus := OS_TASK_STATUS_RUNNING\<rparr>)"
  by (simp_all add: inherit_demo_run_def waiting_def waiters_of_def mux_demo_def demo_def fun_upd_twist)

lemma inherit_demo_call: "call_ok inherit_demo_run"
proof -
  have l: "link_ok ((demo_task t)\<lparr>taskStatus := 0\<rparr>)" "link_ok ((demo_task t)\<lparr>taskStatus := OS_TASK_STATUS_RUNNING\<rparr>)" for t
    by (auto simp: link_ok_def demo_policy_def flag_simps)
  have "k_inv (upd_task 2 (\<lambda>c. c\<lparr>taskStatus := OS_TASK_STATUS_RUNNING\<rparr>) (mux_demo (Some 1)))"
    by (rule k_inv_upd_task [OF call_okD(1) [OF mux_demo_call(1)]]) (use l in \<open>simp_all add: mux_demo_def flag_simps timed_ok_def\<close>)
  then have "k_inv (upd_task 1 (\<lambda>c. c\<lparr>taskStatus := 0\<rparr>) (upd_task 2 (\<lambda>c. c\<lparr>taskStatus := OS_TASK_STATUS_RUNNING\<rparr>) (mux_demo (Some 1))))"
    by (rule k_inv_upd_task) (use l in \<open>simp_all add: mux_demo_def flag_simps timed_ok_def\<close>)
  then have "k_inv inherit_demo_run" unfolding inherit_demo_run_def by (subst k_inv_cong) (simp_all add: timer_of_def)
  moreover have f: "timeoutQueue inherit_demo_run = \<lparr>sortLink = [], nodeNum = 0\<rparr>" "idleTask inherit_demo_run = 0" "lists inherit_demo_run EdfRoot = []" "clock inherit_demo_run = 1000"
    by (simp_all add: inherit_demo_run_def mux_demo_def)
  moreover have "run_ok inherit_demo_run" "idle_ok inherit_demo_run" "slice_ok inherit_demo_run 2"
    by (simp_all add: run_ok_def idle_ok_def slice_ok_def f flag_simps) (simp_all add: demo_task_def)
  ultimately show ?thesis by (simp add: call_ok_def)
qed

lemma inherit_demo_history: "inherit_run 0 1 LOS_SCHED_FIFO 10 (mux_demo (Some 1)) inherit_demo_boosted"
proof -
  let ?s0 = "mux_demo (Some 1)" let ?s1 = inherit_demo_run
  have m: "owner (mux_demo_mux (Some 1) 0) = Some 1" "protocol (attr (mux_demo_mux (Some 1) 0)) = LOS_MUX_PRIO_INHERIT" by (simp_all add: mux_demo_mux_def mux_demo_attr_def)
  have r1: "inherit_run 0 1 LOS_SCHED_FIFO 10 ?s0 ?s1"
    by (rule run_other [OF run_start]) (simp_all add: rank_of_def)
  have inv: "mux_inv ?s1" using mux_demo_inv(1) [of "Some 1"] by (simp add: mux_inv_def)
  have b: "boost_ok 0 ?s1" by (simp add: boost_ok_def m ready_hpf_def flag_simps)
  obtain s2 where s2: "mux_wait 2 0 LOS_WAIT_FOREVER ?s1 = Some (s2, WaitBlocked)"
    using mux_wait_spec [OF inherit_demo_call _ _ b, of 1 LOS_WAIT_FOREVER] m by auto
  then have run: "LOS_MuxLock (Some 0) LOS_WAIT_FOREVER ?s1 = Some (s2, WaitBlocked)"
    by (simp add: LOS_MuxLock_def OsMuxLockUnsafe_def OsMuxPendOp_def mux_demo_mux_def mux_demo_attr_ok OsPreemptableInSched_def)
  have pe: "peers LOS_SCHED_FIFO 10 (tcb ?s1 (currTask ?s1))" by (simp add: peers_def same_policy_def demo_policy_def)
  have r2: "inherit_run 0 1 LOS_SCHED_FIFO 10 ?s0 s2" by (rule run_lock [OF r1 inherit_demo_call inv b _ _ pe run]) simp_all
  from lock_blocks [OF inherit_demo_call inv b _ run] obtain s3 where
    s3: "OsMuxBitmapSet 0 2 ?s1 = Some s3" "rank_of s2 = rank_of s3" "muxes s2 = mux_demo_mux (Some 1)" "waiting s2 (MuxList 0) = [2]" by (auto simp: insert_after_def)
  have "0 < OsSchedParamCompare (tcb ?s1 1) (tcb ?s1 2)"
    using peers_compare [of LOS_SCHED_FIFO 10 "tcb ?s1 1" "tcb ?s1 2"] by (simp add: peers_def same_policy_def demo_policy_def)
  moreover have "is_hpf_param (param_of 2 ?s1)" "spPriority (param_of 2 ?s1) = 5"
    by (simp_all add: param_of_def ops_schedParamGet_def HPFSchedParamGet_def is_hpf_param_def demo_policy_def)
  moreover have "the (LOS_BitmapSet (Some 0) (10 :: u16)) = 0x400" by (simp add: LOS_BitmapSet_def)
  ultimately have "s3 = upd_sp 1 (\<lambda>x. x\<lparr>priBitmap := 0x400, priority := 5\<rparr>) ?s1"
    using m s3(1) by (simp add: OsMuxBitmapSet_def ops_priorityInheritance_def HPFPriorityInheritance_def demo_policy_def upd_sp_def upd_task_def)
  with s3(2) have "rank_of inherit_demo_boosted t = rank_of s2 t" if "t \<in> {1, 2}" for t
    using that by (auto simp: inherit_demo_boosted_def rank_upd_sp) (simp_all add: rank_of_def)
  then show ?thesis
    by (intro run_other [OF r2]) (use s3(3,4) in \<open>simp_all add: inherit_demo_boosted_def mux_demo_call\<close>)
qed

section \<open>Properties\<close>

text \<open>C24. Priority inheritance: task \<open>ow\<close> holds a mutex of the inheritance protocol for which nobody waits yet. Over every history in which other tasks of
  its policy and process priority call \<open>LOS_MuxLock\<close> and block, and nothing else changes the priorities of these tasks, the owner has the most urgent of its
  own priority and those of the waiters; and when it gives up its last hold with \<open>LOS_MuxUnlock\<close>, it has the priority of the start again, with an empty bitmap of
  remembered priorities, and no other task has another priority than before the call. The calls are made with the scheduler and the mutexes in order, and at the unlock
  the waiters are of the priority policy and not frozen by a suspension (\<open>wakeable\<close>). It holds for an owner that is not raised through another mutex at the same time (its
  bitmap is empty at the start, and the waiters of this mutex are the only ones that raise it): with two mutexes the code may drop a priority that is still owed. No waiter gives
  up by a timeout, and an owner is only raised while it is in no ready queue (\<open>boost_ok\<close>).\<close>

theorem mux_inheritance_restored:
  assumes "inherit_run i ow pol base s0 s" and "owner (muxes s0 i) = Some ow" and "protocol (attr (muxes s0 i)) = LOS_MUX_PRIO_INHERIT"
    and "waiting s0 (MuxList i) = []" and "peers pol base (tcb s0 ow)" and "priBitmap (sp (tcb s0 ow)) = 0"
  shows "prio_of (tcb s ow) = Min (insert (prio_of (tcb s0 ow)) (prio_of ` tcb s ` set (waiting s (MuxList i)))) \<and>
    (call_ok s \<and> mux_inv s \<and> \<not> intActive s \<and> muxMagic (muxes s i) = OS_MUX_MAGIC \<and> OsCheckMutexAttr (attr (muxes s i)) = LOS_OK \<and>
       held s i = Some (ow, 1) \<and> currTask s = ow \<and> (\<forall>t \<in> set (waiting s (MuxList i)). wakeable s t) \<longrightarrow>
     (\<exists>s'. LOS_MuxUnlock (Some i) s = Some (s', LOS_OK) \<and> priority (sp (tcb s' ow)) = priority (sp (tcb s0 ow)) \<and> priBitmap (sp (tcb s' ow)) = 0 \<and>
       (\<forall>t. t \<noteq> ow \<longrightarrow> priority (sp (tcb s' t)) = priority (sp (tcb s t)) \<and> priBitmap (sp (tcb s' t)) = priBitmap (sp (tcb s t)))))"
proof (intro conjI impI)
  let ?p0 = "prio_of (tcb s0 ow)"
  have v: "inherits i ow pol base ?p0 s" by (rule inherit_run_inherits [OF assms(1) inherits_start [OF assms(2-6)]])
  show "prio_of (tcb s ow) = Min (insert ?p0 (prio_of ` tcb s ` set (waiting s (MuxList i))))" by (rule inherits_prio [OF v])
  assume *: "call_ok s \<and> mux_inv s \<and> \<not> intActive s \<and> muxMagic (muxes s i) = OS_MUX_MAGIC \<and> OsCheckMutexAttr (attr (muxes s i)) = LOS_OK \<and>
       held s i = Some (ow, 1) \<and> currTask s = ow \<and> (\<forall>t \<in> set (waiting s (MuxList i)). wakeable s t)"
  then obtain s' where s': "LOS_MuxUnlock (Some i) s = Some (s', LOS_OK)" using unlock_spec [of s i 1] by auto
  have "unat (muxCount (muxes s i)) = 1" using * by (auto simp: held_def)
  then have c: "muxCount (muxes s i) = 1" by (metis unat_1 word_unat_eq_iff)
  have p0: "?p0 < 32" using assms(5) by (simp add: peers_def)
  have r: "rank_of s' t = rank_of (upd_sp ow (\<lambda>x. x\<lparr>priBitmap := 0, priority := of_nat ?p0\<rparr>) s) t" for t using unlock_ranks [OF v p0 c _ s'] * by simp
  have "priority (sp (tcb s' ow)) = priority (sp (tcb s0 ow))" "priBitmap (sp (tcb s' ow)) = 0" using r [of ow] by (simp_all add: rank_upd_sp) (simp_all add: rank_of_def)
  moreover have "rank_of s' t = rank_of s t" if "t \<noteq> ow" for t using r [of t] that by (simp add: rank_upd_sp)
  ultimately show "\<exists>s'. LOS_MuxUnlock (Some i) s = Some (s', LOS_OK) \<and> priority (sp (tcb s' ow)) = priority (sp (tcb s0 ow)) \<and> priBitmap (sp (tcb s' ow)) = 0 \<and>
       (\<forall>t. t \<noteq> ow \<longrightarrow> priority (sp (tcb s' t)) = priority (sp (tcb s t)) \<and> priBitmap (sp (tcb s' t)) = priBitmap (sp (tcb s t)))"
    using s' rank_prio(1,2) by blast
qed

theorem mux_inheritance_restored_witness:
  "\<exists>s s'. inherit_run 0 1 LOS_SCHED_FIFO 10 (mux_demo (Some 1)) s \<and> waiting s (MuxList 0) = [2] \<and> priority (sp (tcb s 1)) = 5 \<and>
    LOS_MuxUnlock (Some 0) s = Some (s', LOS_OK) \<and> priority (sp (tcb s' 1)) = 10 \<and> priority (sp (tcb s' 2)) = 5"
proof -
  let ?start = "mux_demo (Some 1)" let ?s = inherit_demo_boosted
  have t: "priority (sp (tcb ?s 1)) = 5" "sp (tcb ?s 2) = demo_policy 2" by (simp_all add: inherit_demo_boosted_def upd_sp_def)
  have h0: "owner (muxes ?start 0) = Some 1" "protocol (attr (muxes ?start 0)) = LOS_MUX_PRIO_INHERIT" "waiting ?start (MuxList 0) = []"
    "peers LOS_SCHED_FIFO 10 (tcb ?start 1)" "priBitmap (sp (tcb ?start 1)) = 0"
    by (simp_all add: mux_demo_mux_def mux_demo_attr_def peers_def same_policy_def demo_policy_def)
  have "call_ok ?s" unfolding inherit_demo_boosted_def
    by (rule call_ok_upd_sp [OF mux_demo_call(2)]) (simp_all add: prio_change_def ready_hpf_def mux_demo_wait_def flag_simps)
  moreover have "mux_inv ?s" using mux_demo_inv(2) by (simp add: mux_inv_def inherit_demo_boosted_def)
  moreover have "muxMagic (muxes ?s 0) = OS_MUX_MAGIC" "OsCheckMutexAttr (attr (muxes ?s 0)) = LOS_OK" "held ?s 0 = Some (1, 1)"
    by (simp_all add: held_def inherit_demo_boosted_def mux_demo_mux_def mux_demo_attr_ok)
  moreover have "\<not> intActive ?s" "currTask ?s = 1" by (simp_all add: inherit_demo_boosted_def) (simp_all add: mux_demo_wait_def)
  moreover have w: "waiting ?s (MuxList 0) = [2]" "wakeable ?s 2" by (simp_all add: inherit_demo_boosted_def mux_demo_call)
  ultimately obtain s' where s': "LOS_MuxUnlock (Some 0) ?s = Some (s', LOS_OK)" "priority (sp (tcb s' 1)) = priority (sp (tcb ?start 1))" "\<forall>t. t \<noteq> 1 \<longrightarrow> priority (sp (tcb s' t)) = priority (sp (tcb ?s t))"
    using mux_inheritance_restored [OF inherit_demo_history h0] by auto
  from s'(2,3) t have "priority (sp (tcb s' 1)) = 10" "priority (sp (tcb s' 2)) = 5" by (simp_all add: demo_policy_def)
  with inherit_demo_history w(1) s'(1) t(1) show ?thesis by blast
qed

end
