(* ===== verification/LosBuddy.thy ===== *)
theory LosBuddy
  imports LosPrelude
begin

text \<open>
  Sets of aligned blocks of page frames, as a binary buddy system keeps them: \<open>ord f\<close> is the order of the free block
  that starts at frame \<open>f\<close>, 9 (\<^verbatim>\<open>VM_LIST_ORDER_MAX\<close>) when none starts there. The theory has no code; it is the
  arithmetic behind \<^verbatim>\<open>kernel/base/vm/los_vm_phys.c\<close>.
\<close>

section \<open>Aligned blocks\<close>

definition blk :: "nat \<Rightarrow> nat \<Rightarrow> nat set" where
  "blk f k = {f ..< f + 2 ^ k}"

definition buddy :: "nat \<Rightarrow> nat \<Rightarrow> nat" where
  "buddy f k = (if even (f div 2 ^ k) then f + 2 ^ k else f - 2 ^ k)"

definition parent :: "nat \<Rightarrow> nat \<Rightarrow> nat" where
  "parent f k = f div 2 ^ Suc k * 2 ^ Suc k"

lemma blk_0 [simp]: "blk f 0 = {f}"
  by (auto simp: blk_def)

lemma blk_self [simp]: "f \<in> blk f k"
  by (simp add: blk_def)

lemma blk_div:
  assumes "2 ^ k dvd f"
  shows "x \<in> blk f k \<longleftrightarrow> x div 2 ^ k = f div 2 ^ k"
proof -
  obtain m where f: "f = 2 ^ k * m" using assms by blast
  have "x \<in> blk f k \<longleftrightarrow> x div 2 ^ k = m"
  proof
    assume "x \<in> blk f k"
    then have "m * 2 ^ k \<le> x" "x < (m + 1) * 2 ^ k" by (auto simp: blk_def f algebra_simps)
    then show "x div 2 ^ k = m" by (simp add: div_nat_eqI algebra_simps)
  next
    assume m: "x div 2 ^ k = m"
    have "x = x div 2 ^ k * 2 ^ k + x mod 2 ^ k" by (rule div_mult_mod_eq [symmetric])
    moreover have "x mod 2 ^ k < 2 ^ k" by simp
    ultimately have "m * 2 ^ k \<le> x" "x < m * 2 ^ k + 2 ^ k" unfolding m by linarith+
    then show "x \<in> blk f k" by (simp add: blk_def f algebra_simps)
  qed
  then show ?thesis by (simp add: f)
qed

lemma blk_nested:
  assumes al: "2 ^ k dvd f" "2 ^ k' dvd f'" and le: "k \<le> k'" and meet: "x \<in> blk f k" "x \<in> blk f' k'"
  shows "blk f k \<subseteq> blk f' k'"
proof
  fix y assume "y \<in> blk f k"
  with meet have "y div 2 ^ k = x div 2 ^ k" by (simp add: blk_div [OF al(1)])
  then have "y div 2 ^ k div 2 ^ (k' - k) = x div 2 ^ k div 2 ^ (k' - k)" by simp
  then have "y div 2 ^ k' = x div 2 ^ k'" using le by (simp add: div_mult2_eq [symmetric] power_add [symmetric])
  with meet show "y \<in> blk f' k'" by (simp add: blk_div [OF al(2)])
qed

lemma blk_same: "2 ^ k dvd f \<Longrightarrow> 2 ^ k dvd f' \<Longrightarrow> x \<in> blk f k \<Longrightarrow> x \<in> blk f' k \<Longrightarrow> f = f'"
  by (metis blk_div dvd_div_mult_self)

lemma buddy_mult: "buddy (2 ^ k * m) k = 2 ^ k * (if even m then m + 1 else m - 1)"
  by (auto simp: buddy_def algebra_simps)

lemma buddy_left:
  assumes "2 ^ Suc k dvd f"
  shows "buddy f k = f + 2 ^ k"
proof -
  obtain m where "f = 2 ^ k * (2 * m)" using assms by (auto elim!: dvdE)
  then show ?thesis by (simp add: buddy_mult)
qed

lemma parent_mult: "parent (2 ^ k * m) k = 2 ^ k * (2 * (m div 2))"
  by (simp add: parent_def)

lemma parent_buddy:
  assumes "2 ^ k dvd f"
  shows "2 ^ k dvd buddy f k" and "2 ^ Suc k dvd parent f k" and "blk (parent f k) (Suc k) = blk f k \<union> blk (buddy f k) k"
    and "blk f k \<inter> blk (buddy f k) k = {}" and "parent f k = f \<or> parent f k = buddy f k" and "buddy (buddy f k) k = f"
    and "parent (buddy f k) k = parent f k"
proof -
  obtain m where f: "f = 2 ^ k * m" using assms by blast
  have pos: "(0 :: nat) < 2 ^ k" by simp
  have b: "buddy f k = 2 ^ k * (if even m then m + 1 else m - 1)" by (simp add: f buddy_mult)
  have p: "parent f k = 2 ^ k * (2 * (m div 2))" by (simp add: f parent_mult)
  show "2 ^ k dvd buddy f k" by (simp add: b)
  show "2 ^ Suc k dvd parent f k" by (simp add: parent_def)
  have m: "even m \<Longrightarrow> 2 * (m div 2) = m" "odd m \<Longrightarrow> 2 * (m div 2) = m - 1" "odd m \<Longrightarrow> 0 < m"
    by (auto elim!: oddE)
  show "parent f k = f \<or> parent f k = buddy f k" unfolding b p using m by (cases "even m") (simp_all add: f)
  show "buddy (buddy f k) k = f" unfolding b buddy_mult using m(3) by (auto simp: f)
  show "parent (buddy f k) k = parent f k" unfolding p b parent_mult by (cases "even m") (auto elim!: oddE evenE)
  have d: "2 ^ k * m + 2 ^ k \<le> 2 ^ k * m'" if "m < m'" for m m' :: nat
    using mult_le_mono2 [of "Suc m" m' "2 ^ k"] that by simp
  show "blk f k \<inter> blk (buddy f k) k = {}" unfolding b using m(3) d [of "m - 1" m] d [of m "m + 1"] by (auto simp: blk_def f)
  show "blk (parent f k) (Suc k) = blk f k \<union> blk (buddy f k) k"
  proof (cases "even m")
    case True
    with m(1) have "parent f k = 2 ^ k * m" "buddy f k = 2 ^ k * m + 2 ^ k" by (simp_all add: p b)
    then show ?thesis by (auto simp: blk_def f)
  next
    case False
    then obtain j where "m = Suc (2 * j)" by (auto elim: oddE)
    then have "parent f k = 2 ^ k * (2 * j)" "buddy f k = 2 ^ k * (2 * j)" "f = 2 ^ k * (2 * j) + 2 ^ k" unfolding p b by (simp_all add: f)
    then show ?thesis by (auto simp: blk_def)
  qed
qed

section \<open>Sets of free blocks\<close>

definition free_frames :: "(nat \<Rightarrow> nat) \<Rightarrow> nat set" where
  "free_frames ord = (\<Union>f \<in> {f. ord f < 9}. blk f (ord f))"

text \<open>The blocks lie between \<open>lo\<close> and \<open>hi\<close>, are aligned and disjoint, and two free buddies are always merged.\<close>

definition buddy_ok :: "nat \<Rightarrow> nat \<Rightarrow> (nat \<Rightarrow> nat) \<Rightarrow> bool" where
  "buddy_ok lo hi ord \<longleftrightarrow>
    (\<forall>f. ord f < 9 \<longrightarrow> lo \<le> f \<and> f + 2 ^ ord f \<le> hi \<and> 2 ^ ord f dvd f) \<and>
    (\<forall>f f' x. ord f < 9 \<and> ord f' < 9 \<and> x \<in> blk f (ord f) \<and> x \<in> blk f' (ord f') \<longrightarrow> f = f') \<and>
    (\<forall>f. ord f < 8 \<longrightarrow> ord (buddy f (ord f)) \<noteq> ord f)"

lemma buddy_okD:
  assumes "buddy_ok lo hi ord" and "ord f < 9"
  shows "lo \<le> f" "f + 2 ^ ord f \<le> hi" "2 ^ ord f dvd f" "ord f' < 9 \<Longrightarrow> x \<in> blk f (ord f) \<Longrightarrow> x \<in> blk f' (ord f') \<Longrightarrow> f = f'"
    "ord f < 8 \<Longrightarrow> ord (buddy f (ord f)) \<noteq> ord f"
  using assms by (auto simp: buddy_ok_def)

lemma free_framesI: "ord f < 9 \<Longrightarrow> x \<in> blk f (ord f) \<Longrightarrow> x \<in> free_frames ord"
  by (auto simp: free_frames_def)

lemma free_framesE:
  assumes "x \<in> free_frames ord"
  obtains f where "ord f < 9" "x \<in> blk f (ord f)"
  using assms by (auto simp: free_frames_def)

lemma free_frames_range: "buddy_ok lo hi ord \<Longrightarrow> x \<in> free_frames ord \<Longrightarrow> lo \<le> x \<and> x < hi"
  by (elim free_framesE) (fastforce simp: blk_def dest: buddy_okD(1,2))

lemma not_head: "A \<inter> free_frames ord = {} \<Longrightarrow> f \<in> A \<Longrightarrow> \<not> ord f < 9"
  using free_framesI [of ord f f] by auto

text \<open>No block at all.\<close>

lemma no_blocks: "buddy_ok lo hi (\<lambda>_. 9)" "free_frames (\<lambda>_. 9) = {}"
  by (simp_all add: buddy_ok_def free_frames_def)

text \<open>Taking a block out, and putting one in whose buddy is not there.\<close>

lemma buddy_remove:
  assumes ok: "buddy_ok lo hi ord" and f: "ord f < 9"
  shows "buddy_ok lo hi (ord(f := 9))" and "free_frames (ord(f := 9)) = free_frames ord - blk f (ord f)"
proof -
  show "buddy_ok lo hi (ord(f := 9))" using ok unfolding buddy_ok_def by simp
  show "free_frames (ord(f := 9)) = free_frames ord - blk f (ord f)"
  proof (intro set_eqI iffI)
    fix x assume "x \<in> free_frames (ord(f := 9))"
    then obtain g where "g \<noteq> f" "ord g < 9" "x \<in> blk g (ord g)" by (auto elim!: free_framesE split: if_splits)
    then show "x \<in> free_frames ord - blk f (ord f)" using buddy_okD(4) [OF ok f] free_framesI [of ord g x] by blast
  next
    fix x assume x: "x \<in> free_frames ord - blk f (ord f)"
    then obtain g where "ord g < 9" "x \<in> blk g (ord g)" "g \<noteq> f" by (auto elim!: free_framesE)
    then show "x \<in> free_frames (ord(f := 9))" using free_framesI [of "ord(f := 9)" g x] by simp
  qed
qed

lemma buddy_insert:
  assumes ok: "buddy_ok lo hi ord" and new: "blk f k \<inter> free_frames ord = {}" and f: "k < 9" "lo \<le> f" "f + 2 ^ k \<le> hi" "2 ^ k dvd f"
    and apart: "k < 8 \<longrightarrow> ord (buddy f k) \<noteq> k"
  shows "buddy_ok lo hi (ord(f := k))" and "free_frames (ord(f := k)) = free_frames ord \<union> blk f k"
proof -
  have disj: "x \<notin> blk f' (ord f')" if "ord f' < 9" "x \<in> blk f k" for f' x
  proof
    assume "x \<in> blk f' (ord f')"
    with that free_framesI [of ord f' x] new show False by auto
  qed
  have none: "\<not> ord f < 9" using disj [of f f] by auto
  have "ord f' \<noteq> k" if "buddy f' k = f" "f' \<noteq> f" "k < 8" "ord f' < 9" for f'
  proof
    assume eq: "ord f' = k"
    then have "2 ^ k dvd f'" using buddy_okD(3) [OF ok that(4)] by simp
    then have "f' = buddy f k" using parent_buddy(6) that(1) by metis
    with apart that(3) eq show False by simp
  qed
  moreover have "buddy f k \<noteq> f" using parent_buddy(4) [OF f(4)] by (auto simp: blk_def)
  ultimately show "buddy_ok lo hi (ord(f := k))"
    using ok f disj none apart unfolding buddy_ok_def by (auto simp: fun_upd_def)
  show "free_frames (ord(f := k)) = free_frames ord \<union> blk f k" using f(1) none by (auto simp: free_frames_def split: if_splits)
qed

text \<open>A run of free frames of an aligned shape lies in one block.\<close>

lemma free_run_in_block:
  assumes ok: "buddy_ok lo hi ord"
  shows "k < 9 \<Longrightarrow> 2 ^ k dvd f \<Longrightarrow> blk f k \<subseteq> free_frames ord \<Longrightarrow> \<exists>g. k \<le> ord g \<and> ord g < 9 \<and> blk f k \<subseteq> blk g (ord g)"
proof (induction k arbitrary: f)
  case 0
  then show ?case by (auto elim: free_framesE)
next
  case (Suc k)
  let ?b = "f + 2 ^ k"
  have al: "2 ^ k dvd f" "2 ^ k dvd ?b" using Suc.prems(2) by (auto dest: power_le_dvd [of 2 "Suc k" f k])
  have split: "blk f (Suc k) = blk f k \<union> blk ?b k" by (auto simp: blk_def)
  then have "blk f k \<subseteq> free_frames ord" "blk ?b k \<subseteq> free_frames ord" using Suc.prems(3) by auto
  then obtain g h where g: "k \<le> ord g" "ord g < 9" "blk f k \<subseteq> blk g (ord g)" and h: "k \<le> ord h" "ord h < 9" "blk ?b k \<subseteq> blk h (ord h)"
    using Suc.IH [OF _ al(1)] Suc.IH [OF _ al(2)] Suc.prems(1) by auto
  have big: "blk f (Suc k) \<subseteq> blk j (ord j)" if "Suc k \<le> ord j" "ord j < 9" "x \<in> blk f (Suc k)" "x \<in> blk j (ord j)" for j x
    by (rule blk_nested [OF Suc.prems(2) buddy_okD(3) [OF ok that(2)] that(1,3,4)])
  have small: "j = f'" if "\<not> Suc k \<le> ord j" "k \<le> ord j" "ord j < 9" "2 ^ k dvd f'" "blk f' k \<subseteq> blk j (ord j)" for j f'
  proof -
    have k: "ord j = k" using that(1,2) by simp
    have "f' \<in> blk j k" using that(5) blk_self [of f' k] unfolding k by blast
    then show ?thesis using blk_same [OF _ that(4) _ blk_self] buddy_okD(3) [OF ok that(3)] unfolding k by blast
  qed
  have in_f: "f \<in> blk f (Suc k)" "?b \<in> blk f (Suc k)" "f \<in> blk f k" "?b \<in> blk ?b k" by (simp_all add: blk_def)
  consider "Suc k \<le> ord g" | "Suc k \<le> ord h" | "\<not> Suc k \<le> ord g" "\<not> Suc k \<le> ord h" by blast
  then show ?case
  proof cases
    case 1 with big [OF 1 g(2) in_f(1)] g in_f(3) show ?thesis by blast
  next
    case 2 with big [OF 2 h(2) in_f(2)] h in_f(4) show ?thesis by blast
  next
    case 3
    then have "g = f" "h = ?b" using small g h al by blast+
    moreover have "buddy f k = ?b" by (rule buddy_left [OF Suc.prems(2)])
    moreover have "ord g = k" "ord h = k" using 3 g(1) h(1) by simp_all
    ultimately have False using buddy_okD(5) [OF ok g(2)] Suc.prems(1) by simp
    then show ?thesis ..
  qed
qed

text \<open>So the set of free frames determines the blocks.\<close>

lemma buddy_canonical_le:
  assumes ok: "buddy_ok lo hi ord" "buddy_ok lo' hi' ord'" and same: "free_frames ord = free_frames ord'" and f: "ord f < 9"
  shows "ord' f = ord f"
proof -
  have al: "2 ^ ord f dvd f" by (rule buddy_okD(3) [OF ok(1) f])
  have "blk f (ord f) \<subseteq> free_frames ord'" using same free_framesI [of ord f] f by blast
  from free_run_in_block [OF ok(2) f al this] obtain g where g: "ord f \<le> ord' g" "ord' g < 9" "blk f (ord f) \<subseteq> blk g (ord' g)" by blast
  have "blk g (ord' g) \<subseteq> free_frames ord" using same free_framesI [of ord' g] g(2) by blast
  from free_run_in_block [OF ok(1) g(2) buddy_okD(3) [OF ok(2) g(2)] this] obtain h
    where h: "ord' g \<le> ord h" "ord h < 9" "blk g (ord' g) \<subseteq> blk h (ord h)" by blast
  have "f = h" using buddy_okD(4) [OF ok(1) f h(2) blk_self] g(3) h(3) by (meson blk_self subsetD)
  with g(1) h(1) have k: "ord' g = ord f" by simp
  then have "f = g" using blk_same [OF al _ blk_self, of g] buddy_okD(3) [OF ok(2) g(2)] g(3) by (metis blk_self subsetD)
  with k show ?thesis by simp
qed

lemma buddy_canonical:
  assumes "buddy_ok lo hi ord" "buddy_ok lo' hi' ord'" and "free_frames ord = free_frames ord'" and "\<forall>f. ord f \<le> 9 \<and> ord' f \<le> 9"
  shows "ord = ord'"
proof
  fix f
  show "ord f = ord' f"
    using buddy_canonical_le [OF assms(1,2,3), of f] buddy_canonical_le [OF assms(2,1) assms(3) [symmetric], of f] assms(4)
    by (metis nat_less_le)
qed

section \<open>Freeing with merging, splitting\<close>

function merge :: "(nat \<Rightarrow> nat) \<Rightarrow> nat \<Rightarrow> nat \<Rightarrow> nat \<Rightarrow> nat" where
  "merge ord f k = (if k < 8 \<and> ord (buddy f k) = k then merge (ord(buddy f k := 9)) (parent f k) (Suc k) else ord(f := k))"
  by auto
termination by (relation "measure (\<lambda>(_, _, k). 8 - k)") auto

declare merge.simps [simp del]

lemma merge_ok:
  assumes "buddy_ok lo hi ord" and "blk f k \<inter> free_frames ord = {}" and "k < 9" and "lo \<le> f" and "f + 2 ^ k \<le> hi" and "2 ^ k dvd f"
  shows "buddy_ok lo hi (merge ord f k) \<and> free_frames (merge ord f k) = free_frames ord \<union> blk f k"
  using assms
proof (induction ord f k rule: merge.induct)
  case (1 ord f k)
  let ?b = "buddy f k"
  show ?case
  proof (cases "k < 8 \<and> ord ?b = k")
    case True
    then have b: "ord ?b < 9" "ord ?b = k" by auto
    note pb = parent_buddy [OF 1(7)]
    note rem = buddy_remove [OF 1(2) b(1), unfolded b(2)]
    have r: "lo \<le> ?b" "?b + 2 ^ k \<le> hi" using buddy_okD(1,2) [OF 1(2) b(1)] b(2) by simp_all
    have "blk (parent f k) (Suc k) \<inter> free_frames (ord(?b := 9)) = {}" unfolding pb(3) rem(2) using 1(3) by blast
    moreover have "lo \<le> parent f k" using pb(5) 1(5) r(1) by auto
    moreover have "parent f k + 2 ^ Suc k \<le> hi"
    proof -
      have "(0 :: nat) < 2 ^ Suc k" by simp
      then have "parent f k + 2 ^ Suc k - 1 \<in> blk (parent f k) (Suc k)" unfolding blk_def atLeastLessThan_iff by linarith
      then have "parent f k + 2 ^ Suc k - 1 < hi" unfolding pb(3) using 1(6) r(2) by (auto simp: blk_def)
      then show ?thesis by simp
    qed
    ultimately have "buddy_ok lo hi (merge (ord(?b := 9)) (parent f k) (Suc k)) \<and>
        free_frames (merge (ord(?b := 9)) (parent f k) (Suc k)) = free_frames (ord(?b := 9)) \<union> blk (parent f k) (Suc k)"
      using 1(1) [OF True rem(1)] True pb(2) by (simp add: fun_upd_def)
    moreover have "free_frames ord - blk ?b k \<union> (blk f k \<union> blk ?b k) = free_frames ord \<union> blk f k"
      using free_framesI [of ord ?b] b by auto
    ultimately show ?thesis using True by (subst (1 2) merge.simps) (simp add: rem(2) pb(3))
  next
    case False
    then have m: "merge ord f k = ord(f := k)" by (subst merge.simps) auto
    show ?thesis unfolding m using buddy_insert [OF 1(2,3,4,5,6,7)] False by blast
  qed
qed

fun split :: "(nat \<Rightarrow> nat) \<Rightarrow> nat \<Rightarrow> nat \<Rightarrow> nat \<Rightarrow> nat \<Rightarrow> nat" where
  "split ord f old 0 = ord"
| "split ord f old (Suc n) = (if old < Suc n then split (ord(f + 2 ^ n := n)) f old n else ord)"

lemma split_ok:
  assumes "buddy_ok lo hi ord" and "blk f n \<inter> free_frames ord = {}" and "n < 9" and "lo \<le> f" and "f + 2 ^ n \<le> hi" and "2 ^ n dvd f" and "old \<le> n"
  shows "buddy_ok lo hi (split ord f old n) \<and> free_frames (split ord f old n) = free_frames ord \<union> (blk f n - blk f old)"
  using assms
proof (induction ord f old n rule: split.induct)
  case (2 ord f old n)
  show ?case
  proof (cases "old < Suc n")
    case True
    have al: "2 ^ n dvd f" using 2(7) by (rule power_le_dvd) simp
    have b: "buddy f n = f + 2 ^ n" by (rule buddy_left [OF 2(7)])
    have halves: "blk f (Suc n) = blk f n \<union> blk (f + 2 ^ n) n" "blk f n \<inter> blk (f + 2 ^ n) n = {}" by (auto simp: blk_def)
    have none: "\<not> ord f < 9" by (rule not_head [OF 2(3) blk_self])
    have new: "blk (f + 2 ^ n) n \<inter> free_frames ord = {}" using 2(3) unfolding halves(1) Int_Un_distrib2 by simp
    have apart: "n < 8 \<longrightarrow> ord (buddy (f + 2 ^ n) n) \<noteq> n" using parent_buddy(6) [OF al] none unfolding b by auto
    have "2 ^ n dvd f + 2 ^ n" "lo \<le> f + 2 ^ n" "f + 2 ^ n + 2 ^ n \<le> hi" "n < 9" using al 2(4-6) by simp_all
    note ins = buddy_insert [OF 2(2) new this(4,2,3,1) apart]
    have "blk f n \<inter> free_frames ord = {}" using 2(3) unfolding halves(1) Int_Un_distrib2 by simp
    then have "blk f n \<inter> free_frames (ord(f + 2 ^ n := n)) = {}" unfolding ins(2) Int_Un_distrib using halves(2) by simp
    moreover have "f + 2 ^ n \<le> hi" "old \<le> n" using 2(6) True by simp_all
    ultimately have "buddy_ok lo hi (split (ord(f + 2 ^ n := n)) f old n) \<and> free_frames (split (ord(f + 2 ^ n := n)) f old n) =
        free_frames (ord(f + 2 ^ n := n)) \<union> (blk f n - blk f old)" using 2(1) [OF True ins(1)] 2(4,5) al by (simp add: fun_upd_def)
    moreover have "blk f old \<subseteq> blk f n" using True by (auto simp: blk_def less_Suc_eq_le intro: less_le_trans power_increasing)
    ultimately show ?thesis unfolding ins(2) halves(1) using True halves(2) by auto
  next
    case False
    with 2(8) have "old = Suc n" by simp
    with 2(2) show ?thesis by simp
  qed
qed auto

end
