(* ===== verification/LosVmPhys.thy ===== *)
theory LosVmPhys
  imports LosBuddy LosBitmap
begin

text \<open>
  Physical page frames, \<^verbatim>\<open>kernel/base/vm/los_vm_phys.c\<close>, \<^verbatim>\<open>los_vm_page.c\<close> and \<^verbatim>\<open>los_vm_boot.c\<close>. A page structure is its index in
  \<open>g_vmPageArray\<close>; \<open>page[k]\<close> and \<open>page + k\<close> are sums of indices. The list of free blocks of an order is the sequence of
  the pages whose \<open>node\<close> is linked in it. Addresses and page counts are 32-bit words, orders and segment numbers
  numbers. \<open>None\<close> is a panic, a failed assertion, an index outside \<open>freeList\<close>, or a node that is unlinked from a list it is not in
  or linked twice. The spin locks make every operation atomic; the memory limits of process groups are left out.
\<close>

section \<open>Data\<close>

abbreviation (input) VM_LIST_ORDER_MAX :: nat where "VM_LIST_ORDER_MAX \<equiv> 9"
abbreviation (input) VM_PHYS_SEG_MAX :: nat where "VM_PHYS_SEG_MAX \<equiv> 32"
abbreviation (input) VM_NR_LRU_LISTS :: nat where "VM_NR_LRU_LISTS \<equiv> 5"
abbreviation (input) PAGE_SHIFT :: nat where "PAGE_SHIFT \<equiv> 12"
abbreviation (input) PAGE_SIZE :: u32 where "PAGE_SIZE \<equiv> 4096"
abbreviation (input) ONE_PAGE :: u32 where "ONE_PAGE \<equiv> 1"
abbreviation (input) SIZEOF_LosVmPage :: u32 where "SIZEOF_LosVmPage \<equiv> 24"

record LosVmPage =
  physAddr :: u32
  refCounts :: i32
  pageFlags :: u32
  pgOrder :: nat
  segID :: nat
  nPages :: u16

record VmPhysSeg =
  segStart :: u32
  segSize :: u32
  pageBase :: nat
  freeNode :: "nat \<Rightarrow> nat list"
  listCnt :: "nat \<Rightarrow> u32"
  lruSize :: "nat \<Rightarrow> u32"
  lruList :: "nat \<Rightarrow> nat list"

record VmPhysArea =
  areaStart :: u32
  areaSize :: u32

text \<open>\<open>pageMem\<close> is the content of a page by its kernel address; the two bases are constants of the board.\<close>

record vm_phys =
  g_physArea :: VmPhysArea
  g_vmPhysSeg :: "nat \<Rightarrow> VmPhysSeg"
  g_vmPhysSegNum :: nat
  g_vmPageArray :: "nat \<Rightarrow> LosVmPage"
  g_vmPageArraySize :: u32
  g_vmBootMemBase :: u32
  g_kHeapInited :: bool
  pageMem :: "u32 \<Rightarrow> u8 list"
  SYS_MEM_BASE :: u32
  KERNEL_ASPACE_BASE :: u32

definition upd_seg :: "nat \<Rightarrow> (VmPhysSeg \<Rightarrow> VmPhysSeg) \<Rightarrow> vm_phys \<Rightarrow> vm_phys" where
  "upd_seg i f s = s\<lparr>g_vmPhysSeg := (g_vmPhysSeg s)(i := f (g_vmPhysSeg s i))\<rparr>"

definition upd_page :: "nat \<Rightarrow> (LosVmPage \<Rightarrow> LosVmPage) \<Rightarrow> vm_phys \<Rightarrow> vm_phys" where
  "upd_page p f s = s\<lparr>g_vmPageArray := (g_vmPageArray s)(p := f (g_vmPageArray s p))\<rparr>"

definition ROUNDUP :: "u32 \<Rightarrow> u32 \<Rightarrow> u32" where
  "ROUNDUP a b = (a + (b - 1)) AND NOT (b - 1)"

definition VM_ORDER_TO_PAGES :: "nat \<Rightarrow> nat" where
  "VM_ORDER_TO_PAGES k = 2 ^ k"

definition VM_ORDER_TO_PHYS :: "nat \<Rightarrow> u32" where
  "VM_ORDER_TO_PHYS k = push_bit (PAGE_SHIFT + k) 1"

definition VM_PHYS_TO_ORDER :: "u32 \<Rightarrow> nat" where
  "VM_PHYS_TO_ORDER phys = min (LOS_LowBitGet (drop_bit PAGE_SHIFT phys)) (VM_LIST_ORDER_MAX - 1)"

section \<open>Segments\<close>

definition OsVmPhysLruInit :: "VmPhysSeg \<Rightarrow> VmPhysSeg" where
  "OsVmPhysLruInit seg = seg\<lparr>lruSize := \<lambda>i. if i < VM_NR_LRU_LISTS then 0 else lruSize seg i,
    lruList := \<lambda>i. if i < VM_NR_LRU_LISTS then [] else lruList seg i\<rparr>"

text \<open>The loop that moves the segments behind the new one up; \<open>k\<close> is the slot that is free.\<close>

fun seg_shift :: "u32 \<Rightarrow> nat \<Rightarrow> (nat \<Rightarrow> VmPhysSeg) \<Rightarrow> (nat \<Rightarrow> VmPhysSeg) \<times> nat" where
  "seg_shift fin 0 segs = (segs, 0)"
| "seg_shift fin (Suc k) segs =
    (if segStart (segs k) > fin then seg_shift fin k (segs(Suc k := segs k)) else (segs, Suc k))"

definition OsVmPhysSegCreate :: "u32 \<Rightarrow> u32 \<Rightarrow> vm_phys \<Rightarrow> vm_phys \<times> int" where
  "OsVmPhysSegCreate start len s =
    (if g_vmPhysSegNum s \<ge> VM_PHYS_SEG_MAX then (s, - 1)
     else case seg_shift (start + len) (g_vmPhysSegNum s) (g_vmPhysSeg s) of
       (segs, k) \<Rightarrow> (s\<lparr>g_vmPhysSeg := segs(k := (segs k)\<lparr>segStart := start, segSize := len\<rparr>),
         g_vmPhysSegNum := g_vmPhysSegNum s + 1\<rparr>, 0))"

definition OsVmPhysSegAdd :: "vm_phys \<Rightarrow> vm_phys option" where
  "OsVmPhysSegAdd s =
    (if g_vmPhysSegNum s < VM_PHYS_SEG_MAX
     then Some (fst (OsVmPhysSegCreate (areaStart (g_physArea s)) (areaSize (g_physArea s)) s)) else None)"

definition OsVmPhysAreaSizeAdjust :: "u32 \<Rightarrow> vm_phys \<Rightarrow> vm_phys" where
  "OsVmPhysAreaSizeAdjust len s =
    s\<lparr>g_physArea := (g_physArea s)\<lparr>areaStart := areaStart (g_physArea s) + len, areaSize := areaSize (g_physArea s) - len\<rparr>\<rparr>"

definition OsVmPhysPageNumGet :: "vm_phys \<Rightarrow> u32" where
  "OsVmPhysPageNumGet s = drop_bit PAGE_SHIFT (areaSize (g_physArea s))"

definition OsVmPhysFreeListInit :: "VmPhysSeg \<Rightarrow> VmPhysSeg" where
  "OsVmPhysFreeListInit seg = seg\<lparr>freeNode := \<lambda>i. if i < VM_LIST_ORDER_MAX then [] else freeNode seg i,
    listCnt := \<lambda>i. if i < VM_LIST_ORDER_MAX then 0 else listCnt seg i\<rparr>"

fun phys_init_from :: "nat \<Rightarrow> nat \<Rightarrow> u32 \<Rightarrow> vm_phys \<Rightarrow> vm_phys" where
  "phys_init_from i 0 n s = s"
| "phys_init_from i (Suc k) n s =
    phys_init_from (i + 1) k (n + drop_bit PAGE_SHIFT (segSize (g_vmPhysSeg s i)))
      (upd_seg i (\<lambda>seg. OsVmPhysLruInit (OsVmPhysFreeListInit (seg\<lparr>pageBase := unat n\<rparr>))) s)"

definition OsVmPhysInit :: "vm_phys \<Rightarrow> vm_phys" where
  "OsVmPhysInit s = phys_init_from 0 (g_vmPhysSegNum s) 0 s"

section \<open>Free lists\<close>

definition OsVmPhysFreeListAddUnsafe :: "nat \<Rightarrow> nat \<Rightarrow> vm_phys \<Rightarrow> vm_phys option" where
  "OsVmPhysFreeListAddUnsafe page k s =
    (let g = segID (g_vmPageArray s page)
     in if g \<ge> VM_PHYS_SEG_MAX \<or> k \<ge> VM_LIST_ORDER_MAX \<or> page \<in> set (freeNode (g_vmPhysSeg s g) k) then None
        else Some (upd_seg g (\<lambda>seg. seg\<lparr>freeNode := (freeNode seg)(k := freeNode seg k @ [page]), listCnt := (listCnt seg)(k := listCnt seg k + 1)\<rparr>)
          (upd_page page (\<lambda>p. p\<lparr>pgOrder := k\<rparr>) s)))"

definition OsVmPhysFreeListDelUnsafe :: "nat \<Rightarrow> vm_phys \<Rightarrow> vm_phys option" where
  "OsVmPhysFreeListDelUnsafe page s =
    (let g = segID (g_vmPageArray s page); k = pgOrder (g_vmPageArray s page)
     in if g \<ge> VM_PHYS_SEG_MAX \<or> k \<ge> VM_LIST_ORDER_MAX \<or> page \<notin> set (freeNode (g_vmPhysSeg s g) k) then None
        else Some (upd_page page (\<lambda>p. p\<lparr>pgOrder := VM_LIST_ORDER_MAX\<rparr>)
          (upd_seg g (\<lambda>seg. seg\<lparr>freeNode := (freeNode seg)(k := remove1 page (freeNode seg k)), listCnt := (listCnt seg)(k := listCnt seg k - 1)\<rparr>) s)))"

fun OsVmPhysPagesSpiltUnsafe :: "nat \<Rightarrow> nat \<Rightarrow> nat \<Rightarrow> vm_phys \<Rightarrow> vm_phys option" where
  "OsVmPhysPagesSpiltUnsafe page oldOrder 0 s = Some s"
| "OsVmPhysPagesSpiltUnsafe page oldOrder (Suc k) s =
    (if Suc k > oldOrder
     then let buddyPage = page + VM_ORDER_TO_PAGES k
          in if pgOrder (g_vmPageArray s buddyPage) \<noteq> VM_LIST_ORDER_MAX then None
             else Option.bind (OsVmPhysFreeListAddUnsafe buddyPage k s) (OsVmPhysPagesSpiltUnsafe page oldOrder k)
     else Some s)"

text \<open>The outer option is a panic, the inner one \<open>NULL\<close>.\<close>

definition OsVmPhysToPage :: "u32 \<Rightarrow> nat \<Rightarrow> vm_phys \<Rightarrow> nat option option" where
  "OsVmPhysToPage pa g s =
    (if g \<ge> VM_PHYS_SEG_MAX then None
     else let seg = g_vmPhysSeg s g
          in Some (if pa < segStart seg \<or> pa \<ge> segStart seg + segSize seg then None
            else Some (pageBase seg + unat (drop_bit PAGE_SHIFT (pa - segStart seg)))))"

fun paddr_to_page_from :: "nat \<Rightarrow> nat \<Rightarrow> u32 \<Rightarrow> vm_phys \<Rightarrow> nat option option" where
  "paddr_to_page_from g 0 paddr s = Some None"
| "paddr_to_page_from g (Suc k) paddr s =
    do { vmPage \<leftarrow> OsVmPhysToPage paddr g s;
      case vmPage of Some p \<Rightarrow> Some (Some p) | None \<Rightarrow> paddr_to_page_from (g + 1) k paddr s }"

definition OsVmPaddrToPage :: "u32 \<Rightarrow> vm_phys \<Rightarrow> nat option option" where
  "OsVmPaddrToPage paddr s = paddr_to_page_from 0 (g_vmPhysSegNum s) paddr s"

definition LOS_VmPageGet :: "u32 \<Rightarrow> vm_phys \<Rightarrow> nat option option" where
  "LOS_VmPageGet paddr s = paddr_to_page_from 0 (g_vmPhysSegNum s) paddr s"

definition OsVmPageToVaddr :: "nat \<Rightarrow> vm_phys \<Rightarrow> u32" where
  "OsVmPageToVaddr page s = KERNEL_ASPACE_BASE s + physAddr (g_vmPageArray s page) - SYS_MEM_BASE s"

text \<open>\<open>pa\<close> is the answer of \<open>LOS_PaddrQuery(ptr)\<close>, the page table walk.\<close>

fun vaddr_to_page_from :: "nat \<Rightarrow> nat \<Rightarrow> u32 \<Rightarrow> vm_phys \<Rightarrow> nat option" where
  "vaddr_to_page_from g 0 pa s = None"
| "vaddr_to_page_from g (Suc k) pa s =
    (let seg = g_vmPhysSeg s g
     in if pa \<ge> segStart seg \<and> pa < segStart seg + segSize seg then Some (pageBase seg + unat (drop_bit PAGE_SHIFT (pa - segStart seg)))
        else vaddr_to_page_from (g + 1) k pa s)"

definition OsVmVaddrToPage :: "u32 \<Rightarrow> vm_phys \<Rightarrow> nat option" where
  "OsVmVaddrToPage pa s = vaddr_to_page_from 0 (g_vmPhysSegNum s) pa s"

section \<open>Freeing\<close>

text \<open>The loop of \<open>OsVmPhysPagesFree\<close>: it merges the block with its free buddies and returns the block to link.\<close>

function free_merge :: "nat \<Rightarrow> u32 \<Rightarrow> nat \<Rightarrow> vm_phys \<Rightarrow> (nat \<times> nat \<times> vm_phys) option" where
  "free_merge page pa k s =
    (if k < VM_LIST_ORDER_MAX - 1
     then let pa1 = pa XOR VM_ORDER_TO_PHYS k; g = segID (g_vmPageArray s page)
          in do {
            buddyPage \<leftarrow> OsVmPhysToPage pa1 g s;
            case buddyPage of
              None \<Rightarrow> Some (page, k, s)
            | Some b \<Rightarrow>
                if pgOrder (g_vmPageArray s b) \<noteq> k then Some (page, k, s)
                else do {
                  s1 \<leftarrow> OsVmPhysFreeListDelUnsafe b s;
                  let pa2 = pa1 AND NOT (VM_ORDER_TO_PHYS (k + 1) - 1);
                  up \<leftarrow> OsVmPhysToPage pa2 g s1;
                  case up of None \<Rightarrow> None | Some page' \<Rightarrow> free_merge page' pa2 (k + 1) s1
                }
          }
     else Some (page, k, s))"
  by pat_completeness auto
termination by (relation "measure (\<lambda>(_, _, k, _). VM_LIST_ORDER_MAX - 1 - k)") auto

declare free_merge.simps [simp del]

definition OsVmPhysPagesFree :: "nat option \<Rightarrow> nat \<Rightarrow> vm_phys \<Rightarrow> vm_phys option" where
  "OsVmPhysPagesFree page k s =
    (case page of
       None \<Rightarrow> Some s
     | Some p \<Rightarrow>
         if k \<ge> VM_LIST_ORDER_MAX then Some s
         else do {
           (p', k', s') \<leftarrow> free_merge p (physAddr (g_vmPageArray s p)) k s;
           OsVmPhysFreeListAddUnsafe p' k' s'
         })"

lemma unat_pow2: "k < 32 \<Longrightarrow> unat (2 ^ k :: u32) = 2 ^ k"
proof -
  assume "k < 32"
  then have "unat (of_nat (2 ^ k) :: u32) = 2 ^ k" by (simp only: unsigned_of_nat) (simp add: take_bit_nat_eq_self)
  then show ?thesis by simp
qed

lemma pages_step:
  assumes "k < 32" and "m = VM_ORDER_TO_PAGES k"
  shows "unat (of_nat m :: u32) = 2 ^ k" and "\<not> of_nat m > (n :: u32) \<Longrightarrow> unat (n - of_nat m) = unat n - 2 ^ k"
    and "\<not> of_nat m > (n :: u32) \<Longrightarrow> 2 ^ k \<le> unat n" and "\<not> of_nat m > (n :: u32) \<Longrightarrow> unat (n - of_nat m) < unat n"
proof -
  show m: "unat (of_nat m :: u32) = 2 ^ k" using assms by (simp add: VM_ORDER_TO_PAGES_def unat_pow2)
  show le: "2 ^ k \<le> unat n" if "\<not> of_nat m > (n :: u32)" using that m by (simp add: not_less word_le_nat_alt)
  show sub: "unat (n - of_nat m) = unat n - 2 ^ k" if "\<not> of_nat m > (n :: u32)" using that m by (simp add: unat_sub not_less)
  show "unat (n - of_nat m) < unat n" if "\<not> of_nat m > (n :: u32)" using le [OF that] sub [OF that] by (simp add: less_le_trans [of 0 "2 ^ k"])
qed

lemma high_bit_le:
  assumes "bit n k" and "k < 32"
  shows "(2 :: u32) ^ k \<le> n"
proof -
  have "2 ^ k \<le> unat n"
  proof (rule ccontr)
    assume "\<not> 2 ^ k \<le> unat n"
    then have "unat n div 2 ^ k = 0" by simp
    moreover have "odd (unat n div 2 ^ k)" using assms(1) by (simp add: bit_iff_odd [symmetric] bit_unsigned_iff)
    ultimately show False by simp
  qed
  with assms(2) show ?thesis by (simp add: word_le_nat_alt unat_pow2)
qed

text \<open>The two loops of \<open>OsVmPhysPagesFreeContiguous\<close>: blocks as large as the address allows, then as large as the rest
  allows.\<close>

function free_aligned :: "nat \<Rightarrow> u32 \<Rightarrow> vm_phys \<Rightarrow> (nat \<times> u32 \<times> vm_phys) option" where
  "free_aligned page n s =
    (let k = VM_PHYS_TO_ORDER (physAddr (g_vmPageArray s page)); m = VM_ORDER_TO_PAGES k
     in if of_nat m > n then Some (page, n, s)
        else Option.bind (OsVmPhysPagesFree (Some page) k s) (free_aligned (page + m) (n - of_nat m)))"
  by pat_completeness auto
termination
proof (relation "measure (\<lambda>(_, n, _). unat n)")
  fix page n s k m z
  assume k: "k = VM_PHYS_TO_ORDER (physAddr (g_vmPageArray s page))" and m: "m = VM_ORDER_TO_PAGES k" and n: "\<not> of_nat m > (n :: u32)"
  have "k < 32" by (simp add: k VM_PHYS_TO_ORDER_def)
  from pages_step [OF this m] n show "((page + m, n - of_nat m, z), page, n, s) \<in> measure (\<lambda>(_, n, _). unat n)" by simp
qed auto

function free_rest :: "nat \<Rightarrow> u32 \<Rightarrow> vm_phys \<Rightarrow> vm_phys option" where
  "free_rest page n s =
    (if n > 0
     then let k = LOS_HighBitGet n; m = VM_ORDER_TO_PAGES k
          in Option.bind (OsVmPhysPagesFree (Some page) k s) (free_rest (page + m) (n - of_nat m))
     else Some s)"
  by pat_completeness auto
termination
proof (relation "measure (\<lambda>(_, n, _). unat n)")
  fix page n s k m z
  assume n: "n > 0" and k: "k = LOS_HighBitGet n" and m: "m = VM_ORDER_TO_PAGES k"
  have "k < 32" "bit n k" using LOS_HighBitGet_greatest(1,2) [of n] n by (auto simp: k)
  from pages_step [OF this(1) m] high_bit_le [OF this(2,1)] show "((page + m, n - of_nat m, z), page, n, s) \<in> measure (\<lambda>(_, n, _). unat n)"
    by (simp add: m VM_ORDER_TO_PAGES_def)
qed auto

declare free_aligned.simps [simp del] free_rest.simps [simp del]

definition OsVmPhysPagesFreeContiguous :: "nat \<Rightarrow> u32 \<Rightarrow> vm_phys \<Rightarrow> vm_phys option" where
  "OsVmPhysPagesFreeContiguous page n s = do {
     (page', n', s') \<leftarrow> free_aligned page n s;
     free_rest page' n' s'
   }"

section \<open>Allocating\<close>

definition OsVmRecycleExtraPages :: "nat \<Rightarrow> u32 \<Rightarrow> u32 \<Rightarrow> vm_phys \<Rightarrow> vm_phys option" where
  "OsVmRecycleExtraPages page startPage endPage s =
    (if startPage \<ge> endPage then Some s else OsVmPhysPagesFreeContiguous page (endPage - startPage) s)"

text \<open>\<open>1 << order\<close> is not defined beyond 31.\<close>

function pages_to_order_from :: "nat \<Rightarrow> u32 \<Rightarrow> nat option" where
  "pages_to_order_from k n =
    (if k < 32 then if of_nat (VM_ORDER_TO_PAGES k) < n then pages_to_order_from (k + 1) n else Some k else None)"
  by pat_completeness auto
termination by (relation "measure (\<lambda>(k, _). 32 - k)") auto

declare pages_to_order_from.simps [simp del]

definition OsVmPagesToOrder :: "u32 \<Rightarrow> nat option" where
  "OsVmPagesToOrder n = pages_to_order_from 0 n"

text \<open>The inner loop of \<open>OsVmPhysLargeAlloc\<close> ends with the last value of \<open>paStart\<close>; the outer loop is the search
  through the list.\<close>

partial_function (option) large_scan :: "VmPhysSeg \<Rightarrow> u32 \<Rightarrow> u32 \<Rightarrow> vm_phys \<Rightarrow> u32 option" where
  "large_scan seg paEnd paStart s =
    (let pa = paStart + push_bit (VM_LIST_ORDER_MAX - 1) PAGE_SIZE
     in if pa \<ge> paEnd \<or> pa < segStart seg \<or> pa \<ge> segStart seg + segSize seg then Some pa
        else if pgOrder (g_vmPageArray s (pageBase seg + unat (drop_bit PAGE_SHIFT (pa - segStart seg)))) \<noteq> VM_LIST_ORDER_MAX - 1 then Some pa
        else large_scan seg paEnd pa s)"

fun large_search :: "VmPhysSeg \<Rightarrow> u32 \<Rightarrow> nat list \<Rightarrow> vm_phys \<Rightarrow> nat option option" where
  "large_search seg len [] s = Some None"
| "large_search seg len (page # pages) s =
    (let paStart = physAddr (g_vmPageArray s page); paEnd = paStart + len
     in if paEnd > segStart seg + segSize seg then large_search seg len pages s
        else do {
          pa \<leftarrow> large_scan seg paEnd paStart s;
          if pa \<ge> paEnd then Some (Some page) else large_search seg len pages s
        })"

definition OsVmPhysLargeAlloc :: "VmPhysSeg \<Rightarrow> u32 \<Rightarrow> vm_phys \<Rightarrow> nat option option" where
  "OsVmPhysLargeAlloc seg n s = large_search seg (push_bit PAGE_SHIFT n) (freeNode seg (VM_LIST_ORDER_MAX - 1)) s"

text \<open>The first order with a free block, and the loop that unlinks the blocks of the run.\<close>

fun first_order :: "VmPhysSeg \<Rightarrow> nat list \<Rightarrow> (nat \<times> nat) option" where
  "first_order seg [] = None"
| "first_order seg (k # ks) = (case freeNode seg k of page # _ \<Rightarrow> Some (page, k) | [] \<Rightarrow> first_order seg ks)"

function del_blocks :: "nat \<Rightarrow> nat \<Rightarrow> nat \<Rightarrow> vm_phys \<Rightarrow> vm_phys option" where
  "del_blocks tmp fin k s =
    (if tmp < fin then Option.bind (OsVmPhysFreeListDelUnsafe tmp s) (del_blocks (tmp + VM_ORDER_TO_PAGES k) fin k) else Some s)"
  by pat_completeness auto
termination by (relation "measure (\<lambda>(tmp, fin, _, _). fin - tmp)") (auto simp: VM_ORDER_TO_PAGES_def intro!: diff_less_mono2)

declare del_blocks.simps [simp del]

definition OsVmPhysPagesAlloc :: "nat \<Rightarrow> u32 \<Rightarrow> vm_phys \<Rightarrow> (vm_phys \<times> nat option) option" where
  "OsVmPhysPagesAlloc g n s = do {
     let seg = g_vmPhysSeg s g;
     k \<leftarrow> OsVmPagesToOrder n;
     found \<leftarrow> (if k < VM_LIST_ORDER_MAX then Some (first_order seg [k ..< VM_LIST_ORDER_MAX])
       else map_option (map_option (\<lambda>page. (page, VM_LIST_ORDER_MAX - 1))) (OsVmPhysLargeAlloc seg n s));
     case found of
       None \<Rightarrow> Some (s, None)
     | Some (page, newOrder) \<Rightarrow> do {
         s1 \<leftarrow> del_blocks page (page + unat n) newOrder s;
         s2 \<leftarrow> OsVmPhysPagesSpiltUnsafe page k newOrder s1;
         s3 \<leftarrow> OsVmRecycleExtraPages (page + unat n) n (ROUNDUP n (of_nat (VM_ORDER_TO_PAGES (min k newOrder)))) s2;
         Some (s3, Some page)
       }
   }"

fun pages_get_from :: "nat \<Rightarrow> nat \<Rightarrow> u32 \<Rightarrow> vm_phys \<Rightarrow> (vm_phys \<times> nat option) option" where
  "pages_get_from g 0 n s = Some (s, None)"
| "pages_get_from g (Suc c) n s = do {
     (s1, page) \<leftarrow> OsVmPhysPagesAlloc g n s;
     case page of
       Some p \<Rightarrow> Some (upd_page p (\<lambda>q. q\<lparr>refCounts := 0, nPages := ucast n\<rparr>) s1, Some p)
     | None \<Rightarrow> pages_get_from (g + 1) c n s1
   }"

definition OsVmPhysPagesGet :: "u32 \<Rightarrow> vm_phys \<Rightarrow> (vm_phys \<times> nat option) option" where
  "OsVmPhysPagesGet n s = pages_get_from 0 (g_vmPhysSegNum s) n s"

section \<open>The interface of the component\<close>

text \<open>The result is the kernel address, 0 for \<open>NULL\<close>.\<close>

definition LOS_PhysPagesAllocContiguous :: "u32 \<Rightarrow> vm_phys \<Rightarrow> (vm_phys \<times> u32) option" where
  "LOS_PhysPagesAllocContiguous n s =
    (if n = 0 then Some (s, 0)
     else do {
       (s1, page) \<leftarrow> OsVmPhysPagesGet n s;
       Some (s1, case page of None \<Rightarrow> 0 | Some p \<Rightarrow> OsVmPageToVaddr p s1)
     })"

text \<open>\<open>query\<close> is \<open>LOS_PaddrQuery\<close>, the page table walk.\<close>

definition LOS_PhysPagesFreeContiguous :: "(u32 \<Rightarrow> u32) \<Rightarrow> u32 \<Rightarrow> u32 \<Rightarrow> vm_phys \<Rightarrow> vm_phys option" where
  "LOS_PhysPagesFreeContiguous query ptr n s =
    (if ptr = 0 then Some s
     else case OsVmVaddrToPage (query ptr) s of
       None \<Rightarrow> Some s
     | Some page \<Rightarrow> OsVmPhysPagesFreeContiguous page n (upd_page page (\<lambda>q. q\<lparr>nPages := 0\<rparr>) s))"

definition OsKVaddrToPaddr :: "u32 \<Rightarrow> vm_phys \<Rightarrow> u32" where
  "OsKVaddrToPaddr kvaddr s = (if kvaddr = 0 then 0 else kvaddr - KERNEL_ASPACE_BASE s + SYS_MEM_BASE s)"

text \<open>The search through the segments in \<open>LOS_PaddrToKVaddr\<close> does not change its result.\<close>

definition LOS_PaddrToKVaddr :: "u32 \<Rightarrow> vm_phys \<Rightarrow> u32" where
  "LOS_PaddrToKVaddr paddr s = (if paddr = 0 then 0 else paddr - SYS_MEM_BASE s + KERNEL_ASPACE_BASE s)"

text \<open>Dropping a reference: \<open>LOS_AtomicDecRet\<close> returns the new count.\<close>

definition drop_ref :: "nat \<Rightarrow> vm_phys \<Rightarrow> vm_phys option" where
  "drop_ref p s =
    (let s1 = upd_page p (\<lambda>q. q\<lparr>refCounts := refCounts q - 1\<rparr>) s
     in if sint (refCounts (g_vmPageArray s1 p)) \<le> 0
        then map_option (upd_page p (\<lambda>q. q\<lparr>refCounts := 0\<rparr>)) (OsVmPhysPagesFreeContiguous p ONE_PAGE s1)
        else Some s1)"

definition LOS_PhysPageFree :: "nat option \<Rightarrow> vm_phys \<Rightarrow> vm_phys option" where
  "LOS_PhysPageFree page s = (case page of None \<Rightarrow> Some s | Some p \<Rightarrow> drop_ref p s)"

definition LOS_PhysPageAlloc :: "vm_phys \<Rightarrow> (vm_phys \<times> nat option) option" where
  "LOS_PhysPageAlloc s = OsVmPhysPagesGet ONE_PAGE s"

text \<open>The pages linked into the caller's list, in order; the result of the code is their number.\<close>

fun pages_alloc_loop :: "nat \<Rightarrow> vm_phys \<Rightarrow> nat list \<Rightarrow> (vm_phys \<times> nat list) option" where
  "pages_alloc_loop 0 s acc = Some (s, acc)"
| "pages_alloc_loop (Suc n) s acc = do {
     (s1, page) \<leftarrow> OsVmPhysPagesGet ONE_PAGE s;
     case page of None \<Rightarrow> Some (s1, acc) | Some p \<Rightarrow> pages_alloc_loop n s1 (acc @ [p])
   }"

definition LOS_PhysPagesAlloc :: "u32 \<Rightarrow> nat list option \<Rightarrow> vm_phys \<Rightarrow> (vm_phys \<times> nat list option \<times> u32) option" where
  "LOS_PhysPagesAlloc n list s =
    (if list = None \<or> n = 0 then Some (s, list, 0)
     else map_option (\<lambda>(s', ps). (s', Some ps, of_nat (length ps - length (the list)))) (pages_alloc_loop (unat n) s (the list)))"

fun pages_free_loop :: "nat list \<Rightarrow> vm_phys \<Rightarrow> vm_phys option" where
  "pages_free_loop [] s = Some s"
| "pages_free_loop (p # ps) s = Option.bind (drop_ref p s) (pages_free_loop ps)"

definition LOS_PhysPagesFree :: "nat list option \<Rightarrow> vm_phys \<Rightarrow> (vm_phys \<times> u32) option" where
  "LOS_PhysPagesFree list s =
    (case list of None \<Rightarrow> Some (s, 0) | Some ps \<Rightarrow> map_option (\<lambda>s'. (s', of_nat (length ps))) (pages_free_loop ps s))"

text \<open>Copying a shared page before a write; the second result is \<open>*newPaddr\<close>.\<close>

definition OsPhysSharePageCopy :: "u32 \<Rightarrow> u32 option \<Rightarrow> nat option \<Rightarrow> vm_phys \<Rightarrow> (vm_phys \<times> u32 option) option" where
  "OsPhysSharePageCopy oldPaddr newPaddr newPage s =
    (if newPage = None \<or> newPaddr = None then Some (s, newPaddr)
     else do {
       oldPage \<leftarrow> LOS_VmPageGet oldPaddr s;
       case oldPage of
         None \<Rightarrow> Some (s, newPaddr)
       | Some old \<Rightarrow>
           if refCounts (g_vmPageArray s old) = 1 then Some (s, Some oldPaddr)
           else let newMem = LOS_PaddrToKVaddr (the newPaddr) s; oldMem = LOS_PaddrToKVaddr oldPaddr s
             in if newMem = 0 \<or> oldMem = 0 then Some (s, newPaddr)
                else Some (upd_page old (\<lambda>q. q\<lparr>refCounts := refCounts q - 1\<rparr>)
                  (upd_page (the newPage) (\<lambda>q. q\<lparr>refCounts := refCounts q + 1\<rparr>)
                    (s\<lparr>pageMem := (pageMem s)(newMem := pageMem s oldMem)\<rparr>)), newPaddr)
     })"

definition OsVmPhysSegGet :: "nat option \<Rightarrow> vm_phys \<Rightarrow> nat option" where
  "OsVmPhysSegGet page s = (case page of None \<Rightarrow> None
    | Some p \<Rightarrow> if segID (g_vmPageArray s p) \<ge> VM_PHYS_SEG_MAX then None else Some (segID (g_vmPageArray s p)))"

section \<open>Start-up\<close>

definition LOS_Align :: "u32 \<Rightarrow> u32 \<Rightarrow> u32" where
  "LOS_Align addr boundary = (if addr + boundary - 1 > addr then (addr + boundary - 1) AND NOT (boundary - 1) else addr AND NOT (boundary - 1))"

definition OsVmBootMemAlloc :: "u32 \<Rightarrow> vm_phys \<Rightarrow> vm_phys \<times> u32" where
  "OsVmBootMemAlloc len s =
    (if g_kHeapInited s then (s, 0)
     else let ptr = LOS_Align (g_vmBootMemBase s) 4 in (s\<lparr>g_vmBootMemBase := ptr + LOS_Align len 4\<rparr>, ptr))"

text \<open>A page structure outside the \<open>g_vmPageArraySize\<close> bytes of the page array is not there to be written.\<close>

definition OsVmPageInit :: "nat \<Rightarrow> u32 \<Rightarrow> nat \<Rightarrow> vm_phys \<Rightarrow> vm_phys option" where
  "OsVmPageInit page pa g s =
    (if unat (g_vmPageArraySize s) < (page + 1) * 24 then None
     else Some (upd_page page (\<lambda>_. \<lparr>physAddr = pa, refCounts = 0, pageFlags = 0, pgOrder = VM_LIST_ORDER_MAX, segID = g, nPages = 0\<rparr>) s))"

definition OsVmPageOrderListInit :: "nat \<Rightarrow> u32 \<Rightarrow> vm_phys \<Rightarrow> vm_phys option" where
  "OsVmPageOrderListInit page n s = OsVmPhysPagesFreeContiguous page n s"

text \<open>\<open>VMPAGEINIT\<close> repeated \<open>k\<close> times.\<close>

fun VMPAGEINIT :: "nat \<Rightarrow> nat \<Rightarrow> u32 \<Rightarrow> nat \<Rightarrow> vm_phys \<Rightarrow> (nat \<times> u32 \<times> vm_phys) option" where
  "VMPAGEINIT 0 page pa g s = Some (page, pa, s)"
| "VMPAGEINIT (Suc k) page pa g s = Option.bind (OsVmPageInit page pa g s) (VMPAGEINIT k (page + 1) (pa + PAGE_SIZE) g)"

definition startup_seg :: "nat \<Rightarrow> vm_phys \<Rightarrow> vm_phys option" where
  "startup_seg g s =
    (let seg = g_vmPhysSeg s g; nPage = drop_bit PAGE_SHIFT (segSize seg); count = drop_bit 3 nPage; left = nPage AND 7
     in do {
       (page, pa, s1) \<leftarrow> VMPAGEINIT (8 * unat count) (pageBase seg) (segStart seg) g s;
       (_, _, s2) \<leftarrow> VMPAGEINIT (unat left) page pa g s1;
       OsVmPageOrderListInit (pageBase seg) nPage s2
     })"

fun startup_from :: "nat \<Rightarrow> nat \<Rightarrow> vm_phys \<Rightarrow> vm_phys option" where
  "startup_from g 0 s = Some s"
| "startup_from g (Suc k) s = Option.bind (startup_seg g s) (startup_from (g + 1) k)"

text \<open>The page array is carved out of the memory area, then the rest becomes a segment.\<close>

definition startup_carve :: "vm_phys \<Rightarrow> vm_phys" where
  "startup_carve s =
    (let s1 = OsVmPhysAreaSizeAdjust (ROUNDUP (g_vmBootMemBase s - KERNEL_ASPACE_BASE s) PAGE_SIZE) s;
         pageNum = OsVmPhysPageNumGet s1;
         nPage = pageNum * PAGE_SIZE div (SIZEOF_LosVmPage + PAGE_SIZE);
         s2 = s1\<lparr>g_vmPageArraySize := nPage * SIZEOF_LosVmPage\<rparr>;
         s3 = fst (OsVmBootMemAlloc (g_vmPageArraySize s2) s2)
     in OsVmPhysAreaSizeAdjust (ROUNDUP (g_vmPageArraySize s3) PAGE_SIZE) s3)"

definition OsVmPageStartup :: "vm_phys \<Rightarrow> vm_phys option" where
  "OsVmPageStartup s = do {
     s5 \<leftarrow> OsVmPhysSegAdd (startup_carve s);
     let s6 = OsVmPhysInit s5;
     startup_from 0 (g_vmPhysSegNum s6) s6
   }"

end
