(* ===== verification/LosVmPhysInv.thy ===== *)
theory LosVmPhysInv
  imports LosVmPhys
begin

text \<open>
  The physical page allocator keeps its segments in order: the free lists and the order fields of the pages agree, they
  form a buddy system (theory \<open>LosBuddy\<close>), and allocating and freeing take runs of frames out of and into the set
  of free frames.
\<close>

section \<open>Addresses of frames\<close>

definition frame_addr :: "nat \<Rightarrow> u32" where
  "frame_addr f = of_nat (4096 * f)"

lemma unat_frame_addr: "f < 2 ^ 20 \<Longrightarrow> unat (frame_addr f) = 4096 * f"
  by (simp only: frame_addr_def unsigned_of_nat) (simp add: take_bit_nat_eq_self)

lemma frame_addr_inj: "f < 2 ^ 20 \<Longrightarrow> f' < 2 ^ 20 \<Longrightarrow> frame_addr f = frame_addr f' \<longleftrightarrow> f = f'"
  by (metis mult_cancel1 unat_frame_addr zero_neq_numeral)

lemma flip_bit_word: "w XOR push_bit k 1 = (if bit w k then w - 2 ^ k else w + 2 ^ k)" for w :: u32
proof -
  have "w XOR push_bit k 1 = flip_bit k w" by (simp add: flip_bit_eq_xor)
  then show ?thesis by (simp add: flip_bit_eq_if unset_bit_eq set_bit_eq)
qed

lemma buddy_range: "f < 2 ^ 20 \<Longrightarrow> k < 20 \<Longrightarrow> 2 ^ k dvd f \<Longrightarrow> buddy f k < 2 ^ 20"
proof -
  assume f: "f < 2 ^ 20" and k: "k < 20" and al: "2 ^ k dvd f"
  obtain m where m: "f = 2 ^ k * m" using al by blast
  have p: "(2 :: nat) ^ 20 = 2 ^ k * 2 ^ (20 - k)" using k by (simp add: power_add [symmetric])
  then have lt: "m < 2 ^ (20 - k)" using f unfolding m by (metis mult_less_cancel1)
  have "even ((2 :: nat) ^ (20 - k))" using k by simp
  with lt have "even m \<Longrightarrow> m + 1 < 2 ^ (20 - k)" by (metis Suc_eq_plus1 Suc_lessI even_Suc)
  with lt have "(if even m then m + 1 else m - 1) < 2 ^ (20 - k)" by auto
  then show ?thesis unfolding m buddy_mult p by simp
qed

lemma frame_xor:
  assumes f: "f < 2 ^ 20" and k: "k < 20" and al: "2 ^ k dvd f"
  shows "frame_addr f XOR VM_ORDER_TO_PHYS k = frame_addr (buddy f k)"
proof -
  have "bit (frame_addr f) (12 + k) \<longleftrightarrow> odd (unat (frame_addr f) div 2 ^ (12 + k))"
    by (simp add: bit_iff_odd [symmetric] bit_unsigned_iff)
  also have "unat (frame_addr f) div 2 ^ (12 + k) = f div 2 ^ k" by (simp add: unat_frame_addr [OF f] power_add)
  finally have b: "bit (frame_addr f) (12 + k) \<longleftrightarrow> odd (f div 2 ^ k)" .
  have "2 ^ k \<le> f" if "odd (f div 2 ^ k)" using that by (metis div_less even_zero linorder_not_le)
  then show ?thesis unfolding VM_ORDER_TO_PHYS_def flip_bit_word b
    by (auto simp: buddy_def frame_addr_def power_add algebra_simps)
qed

lemma frame_and:
  assumes f: "f < 2 ^ 20" and k: "k < 19"
  shows "frame_addr f AND NOT (VM_ORDER_TO_PHYS (k + 1) - 1) = frame_addr (parent f k)"
proof -
  have m: "VM_ORDER_TO_PHYS (k + 1) - 1 = mask (13 + k)" by (simp add: VM_ORDER_TO_PHYS_def mask_eq_exp_minus_1 numeral_eq_Suc)
  have "frame_addr f AND NOT (mask (13 + k)) = push_bit (13 + k) (drop_bit (13 + k) (frame_addr f))"
    by (rule bit_word_eqI) (auto simp: bit_simps)
  moreover have "unat (push_bit (13 + k) (drop_bit (13 + k) (frame_addr f))) = 4096 * parent f k"
  proof -
    have "unat (drop_bit (13 + k) (frame_addr f)) = f div 2 ^ Suc k"
      unfolding unsigned_drop_bit_eq unat_frame_addr [OF f] using f by (simp add: drop_bit_eq_div power_add div_mult2_eq take_bit_nat_eq_self)
    moreover have "f div 2 ^ Suc k * 2 ^ (13 + k) = 4096 * parent f k" by (simp add: parent_def power_add)
    moreover have "parent f k \<le> f" by (simp add: parent_def)
    ultimately show ?thesis using f unfolding unsigned_push_bit_eq by (simp add: push_bit_eq_mult take_bit_nat_eq_self)
  qed
  moreover have "parent f k < 2 ^ 20" using f by (simp add: parent_def le_less_trans [OF div_times_less_eq_dividend])
  ultimately show ?thesis unfolding m by (metis unat_frame_addr word_unat_eq_iff)
qed

section \<open>A segment and its free lists\<close>

abbreviation (input) page_at :: "vm_phys \<Rightarrow> nat \<Rightarrow> LosVmPage" where
  "page_at s p \<equiv> g_vmPageArray s p"

definition seg_lo :: "vm_phys \<Rightarrow> nat \<Rightarrow> nat" where
  "seg_lo s g = unat (segStart (g_vmPhysSeg s g)) div 4096"

definition seg_hi :: "vm_phys \<Rightarrow> nat \<Rightarrow> nat" where
  "seg_hi s g = seg_lo s g + unat (segSize (g_vmPhysSeg s g)) div 4096"

definition page_of :: "vm_phys \<Rightarrow> nat \<Rightarrow> nat \<Rightarrow> nat" where
  "page_of s g f = pageBase (g_vmPhysSeg s g) + (f - seg_lo s g)"

definition in_seg :: "vm_phys \<Rightarrow> nat \<Rightarrow> nat \<Rightarrow> bool" where
  "in_seg s g f \<longleftrightarrow> seg_lo s g \<le> f \<and> f < seg_hi s g"

definition seg_ord :: "vm_phys \<Rightarrow> nat \<Rightarrow> nat \<Rightarrow> nat" where
  "seg_ord s g f = (if in_seg s g f then pgOrder (page_at s (page_of s g f)) else 9)"

text \<open>The page structures describe the frames of the segment, and the lists hold the pages their order fields say.\<close>

definition seg_layout :: "vm_phys \<Rightarrow> nat \<Rightarrow> bool" where
  "seg_layout s g \<longleftrightarrow> g < VM_PHYS_SEG_MAX \<and> 4096 dvd unat (segStart (g_vmPhysSeg s g)) \<and> 4096 dvd unat (segSize (g_vmPhysSeg s g)) \<and>
    unat (segStart (g_vmPhysSeg s g)) + unat (segSize (g_vmPhysSeg s g)) < 2 ^ 32 \<and>
    (\<forall>f. in_seg s g f \<longrightarrow> physAddr (page_at s (page_of s g f)) = frame_addr f \<and> segID (page_at s (page_of s g f)) = g)"

definition seg_rep :: "vm_phys \<Rightarrow> nat \<Rightarrow> bool" where
  "seg_rep s g \<longleftrightarrow> seg_layout s g \<and> (\<forall>f. seg_ord s g f \<le> 9) \<and>
    (\<forall>k < 9. distinct (freeNode (g_vmPhysSeg s g) k) \<and> set (freeNode (g_vmPhysSeg s g) k) = page_of s g ` {f. in_seg s g f \<and> seg_ord s g f = k} \<and>
      listCnt (g_vmPhysSeg s g) k = of_nat (length (freeNode (g_vmPhysSeg s g) k)))"

lemma seg_layoutD:
  assumes "seg_layout s g"
  shows "g < VM_PHYS_SEG_MAX" "unat (segStart (g_vmPhysSeg s g)) = 4096 * seg_lo s g"
    "unat (segStart (g_vmPhysSeg s g) + segSize (g_vmPhysSeg s g)) = 4096 * seg_hi s g" "seg_hi s g < 2 ^ 20"
    "in_seg s g f \<Longrightarrow> physAddr (page_at s (page_of s g f)) = frame_addr f" "in_seg s g f \<Longrightarrow> segID (page_at s (page_of s g f)) = g"
proof -
  let ?a = "segStart (g_vmPhysSeg s g)" and ?n = "segSize (g_vmPhysSeg s g)"
  have d: "unat ?a = 4096 * seg_lo s g" "unat ?n = 4096 * (unat ?n div 4096)" "unat ?a + unat ?n < 2 ^ 32"
    using assms by (simp_all add: seg_layout_def seg_lo_def)
  then have "unat (?a + ?n) = unat ?a + unat ?n" using unat_add_lem [of ?a ?n] by simp
  with d show "unat (?a + ?n) = 4096 * seg_hi s g" unfolding seg_hi_def by (simp add: algebra_simps)
  show "seg_hi s g < 2 ^ 20" using d by (simp add: seg_hi_def)
  show "unat ?a = 4096 * seg_lo s g" by (rule d)
qed (use assms in \<open>simp_all add: seg_layout_def\<close>)

lemma in_seg_small: "seg_layout s g \<Longrightarrow> in_seg s g f \<Longrightarrow> f < 2 ^ 20"
  using seg_layoutD(4) [of s g] by (simp add: in_seg_def)

lemma page_of_inj: "in_seg s g f \<Longrightarrow> in_seg s g f' \<Longrightarrow> page_of s g f = page_of s g f' \<longleftrightarrow> f = f'"
  by (auto simp: page_of_def in_seg_def)

lemma page_of_add: "in_seg s g f \<Longrightarrow> page_of s g f + n = page_of s g (f + n)"
  by (simp add: page_of_def in_seg_def)

lemma PhysToPage_frame:
  assumes lay: "seg_layout s g" and f: "f < 2 ^ 20"
  shows "OsVmPhysToPage (frame_addr f) g s = Some (if in_seg s g f then Some (page_of s g f) else None)"
proof -
  let ?a = "segStart (g_vmPhysSeg s g)"
  note d = seg_layoutD(1-4) [OF lay]
  have lt: "frame_addr f < ?a \<longleftrightarrow> f < seg_lo s g" "frame_addr f \<ge> ?a + segSize (g_vmPhysSeg s g) \<longleftrightarrow> seg_hi s g \<le> f"
    by (simp_all add: word_less_nat_alt word_le_nat_alt unat_frame_addr [OF f] d(2,3))
  have "unat (drop_bit 12 (frame_addr f - ?a)) = f - seg_lo s g" if "seg_lo s g \<le> f"
  proof -
    have "unat (frame_addr f - ?a) = 4096 * (f - seg_lo s g)"
      using that lt(1) by (simp add: unat_sub not_less unat_frame_addr [OF f] d(2) diff_mult_distrib2)
    then show ?thesis unfolding unsigned_drop_bit_eq using f by (simp add: drop_bit_eq_div take_bit_nat_eq_self)
  qed
  then show ?thesis using lt d(1) by (auto simp: OsVmPhysToPage_def Let_def in_seg_def page_of_def)
qed

text \<open>What one segment's operations leave alone.\<close>

definition vm_frame :: "nat \<Rightarrow> vm_phys \<Rightarrow> vm_phys \<Rightarrow> bool" where
  "vm_frame g s s' \<longleftrightarrow> (\<forall>h. h \<noteq> g \<longrightarrow> g_vmPhysSeg s' h = g_vmPhysSeg s h) \<and>
    segStart (g_vmPhysSeg s' g) = segStart (g_vmPhysSeg s g) \<and> segSize (g_vmPhysSeg s' g) = segSize (g_vmPhysSeg s g) \<and>
    pageBase (g_vmPhysSeg s' g) = pageBase (g_vmPhysSeg s g) \<and>
    (\<forall>p. physAddr (page_at s' p) = physAddr (page_at s p) \<and> segID (page_at s' p) = segID (page_at s p) \<and>
      nPages (page_at s' p) = nPages (page_at s p) \<and> refCounts (page_at s' p) = refCounts (page_at s p)) \<and>
    (\<forall>p. p \<notin> page_of s g ` {f. in_seg s g f} \<longrightarrow> page_at s' p = page_at s p) \<and>
    g_vmPhysSegNum s' = g_vmPhysSegNum s \<and> SYS_MEM_BASE s' = SYS_MEM_BASE s \<and> KERNEL_ASPACE_BASE s' = KERNEL_ASPACE_BASE s"

lemma vm_frame_seg:
  assumes "vm_frame g s s'"
  shows "seg_lo s' g = seg_lo s g" "seg_hi s' g = seg_hi s g" "page_of s' g = page_of s g" "in_seg s' g = in_seg s g"
    "physAddr (page_at s' p) = physAddr (page_at s p)" "segID (page_at s' p) = segID (page_at s p)"
    "nPages (page_at s' p) = nPages (page_at s p)" "refCounts (page_at s' p) = refCounts (page_at s p)"
    "g_vmPhysSegNum s' = g_vmPhysSegNum s"
  using assms by (simp_all add: vm_frame_def seg_lo_def seg_hi_def page_of_def in_seg_def fun_eq_iff)

lemma vm_frame_refl: "vm_frame g s s"
  by (simp add: vm_frame_def)

lemma vm_frame_trans:
  assumes "vm_frame g s s1" and "vm_frame g s1 s2"
  shows "vm_frame g s s2"
  using assms vm_frame_seg(3,4) [OF assms(1)] unfolding vm_frame_def by simp

lemma layout_frame:
  assumes "vm_frame g s s'" and "seg_layout s g"
  shows "seg_layout s' g"
proof -
  have "segStart (g_vmPhysSeg s' g) = segStart (g_vmPhysSeg s g)" "segSize (g_vmPhysSeg s' g) = segSize (g_vmPhysSeg s g)"
    using assms(1) by (simp_all add: vm_frame_def)
  with assms(2) show ?thesis unfolding seg_layout_def vm_frame_seg [OF assms(1)] by simp
qed

section \<open>Linking and unlinking a block\<close>

lemma seg_repD:
  assumes "seg_rep s g" and "k < 9"
  shows "distinct (freeNode (g_vmPhysSeg s g) k)" "p \<in> set (freeNode (g_vmPhysSeg s g) k) \<longleftrightarrow> (\<exists>f. in_seg s g f \<and> seg_ord s g f = k \<and> p = page_of s g f)"
    "listCnt (g_vmPhysSeg s g) k = of_nat (length (freeNode (g_vmPhysSeg s g) k))"
  using assms by (auto simp: seg_rep_def)

text \<open>A page of the segment gets a new order, and the lists follow.\<close>

lemma seg_rep_upd:
  assumes rep: "seg_rep s g" and f: "in_seg s g f" and k: "k \<le> 9"
    and pages: "g_vmPageArray s' = (g_vmPageArray s)(page_of s g f := (page_at s (page_of s g f))\<lparr>pgOrder := k\<rparr>)"
    and segs: "g_vmPhysSeg s' = (g_vmPhysSeg s)(g := (g_vmPhysSeg s g)\<lparr>freeNode := F, listCnt := C\<rparr>)"
    and rest: "g_vmPhysSegNum s' = g_vmPhysSegNum s" "SYS_MEM_BASE s' = SYS_MEM_BASE s" "KERNEL_ASPACE_BASE s' = KERNEL_ASPACE_BASE s"
    and F: "\<And>j. j < 9 \<Longrightarrow> distinct (F j) \<and> C j = of_nat (length (F j)) \<and>
      set (F j) = (set (freeNode (g_vmPhysSeg s g) j) - {page_of s g f}) \<union> (if j = k then {page_of s g f} else {})"
  shows "seg_rep s' g \<and> seg_ord s' g = (seg_ord s g)(f := k) \<and> vm_frame g s s'"
proof -
  have frame: "vm_frame g s s'" using f by (auto simp: vm_frame_def pages segs rest)
  note same = vm_frame_seg [OF frame]
  have ord: "seg_ord s' g = (seg_ord s g)(f := k)"
    unfolding seg_ord_def same pages using page_of_inj [OF _ f] f by (auto simp: fun_eq_iff)
  have "set (F j) = page_of s g ` {f'. in_seg s g f' \<and> ((seg_ord s g)(f := k)) f' = j}" if "j < 9" for j
    using F [OF that] seg_repD(2) [OF rep that] f page_of_inj [OF _ f] by (auto simp: image_iff split: if_splits)
  with rep F k layout_frame [OF frame] show ?thesis unfolding seg_rep_def ord same by (auto simp: segs frame ord)
qed

lemma FreeListDel_rep:
  assumes rep: "seg_rep s g" and f: "in_seg s g f" "seg_ord s g f < 9"
  shows "\<exists>s'. OsVmPhysFreeListDelUnsafe (page_of s g f) s = Some s' \<and> seg_rep s' g \<and> seg_ord s' g = (seg_ord s g)(f := 9) \<and> vm_frame g s s'"
proof -
  let ?p = "page_of s g f" let ?k = "seg_ord s g f" let ?seg = "g_vmPhysSeg s g"
  have lay: "seg_layout s g" using rep by (simp add: seg_rep_def)
  have p: "segID (page_at s ?p) = g" "pgOrder (page_at s ?p) = ?k" "g < 32" using seg_layoutD(1,6) [OF lay] f by (simp_all add: seg_ord_def)
  have mem: "?p \<in> set (freeNode ?seg ?k)" using seg_repD(2) [OF rep f(2)] f by auto
  let ?F = "(freeNode ?seg)(?k := remove1 ?p (freeNode ?seg ?k))" and ?C = "(listCnt ?seg)(?k := listCnt ?seg ?k - 1)"
  let ?s' = "upd_page ?p (\<lambda>p. p\<lparr>pgOrder := 9\<rparr>) (upd_seg g (\<lambda>seg. seg\<lparr>freeNode := ?F, listCnt := ?C\<rparr>) s)"
  have run: "OsVmPhysFreeListDelUnsafe ?p s = Some ?s'"
    using p mem f(2) by (simp add: OsVmPhysFreeListDelUnsafe_def Let_def upd_seg_def)
  have F: "distinct (?F j) \<and> ?C j = of_nat (length (?F j)) \<and> set (?F j) = (set (freeNode ?seg j) - {?p}) \<union> (if j = 9 then {?p} else {})" if "j < 9" for j
  proof (cases "j = ?k")
    case True
    have "(of_nat (length (freeNode ?seg ?k)) :: u32) - 1 = of_nat (length (freeNode ?seg ?k) - 1)"
      using mem by (cases "freeNode ?seg ?k") auto
    with True that mem seg_repD [OF rep that] show ?thesis by (auto simp: length_remove1)
  next
    case False
    then have "?p \<notin> set (freeNode ?seg j)" using seg_repD(2) [OF rep that] page_of_inj [OF f(1)] by auto
    with False that seg_repD [OF rep that] show ?thesis by auto
  qed
  from seg_rep_upd [OF rep f(1), of 9 ?s' ?C ?F, OF _ _ _ _ _ _ F] run show ?thesis by (simp add: upd_page_def upd_seg_def)
qed

lemma FreeListAdd_rep:
  assumes rep: "seg_rep s g" and f: "in_seg s g f" "seg_ord s g f = 9" and k: "k < 9"
  shows "\<exists>s'. OsVmPhysFreeListAddUnsafe (page_of s g f) k s = Some s' \<and> seg_rep s' g \<and> seg_ord s' g = (seg_ord s g)(f := k) \<and> vm_frame g s s'"
proof -
  let ?p = "page_of s g f" let ?seg = "g_vmPhysSeg s g"
  have lay: "seg_layout s g" using rep by (simp add: seg_rep_def)
  have p: "segID (page_at s ?p) = g" "g < 32" using seg_layoutD(1,6) [OF lay] f by simp_all
  have mem: "?p \<notin> set (freeNode ?seg j)" if "j < 9" for j using seg_repD(2) [OF rep that] f page_of_inj [OF f(1)] that by auto
  let ?F = "(freeNode ?seg)(k := freeNode ?seg k @ [?p])" and ?C = "(listCnt ?seg)(k := listCnt ?seg k + 1)"
  let ?s' = "upd_seg g (\<lambda>seg. seg\<lparr>freeNode := ?F, listCnt := ?C\<rparr>) (upd_page ?p (\<lambda>p. p\<lparr>pgOrder := k\<rparr>) s)"
  have run: "OsVmPhysFreeListAddUnsafe ?p k s = Some ?s'"
    using p mem k by (simp add: OsVmPhysFreeListAddUnsafe_def Let_def upd_seg_def upd_page_def)
  have F: "distinct (?F j) \<and> ?C j = of_nat (length (?F j)) \<and> set (?F j) = (set (freeNode ?seg j) - {?p}) \<union> (if j = k then {?p} else {})" if "j < 9" for j
    using mem [OF that] seg_repD(1,3) [OF rep that] by auto
  from seg_rep_upd [OF rep f(1), of k ?s' ?C ?F, OF _ _ _ _ _ _ F] run k show ?thesis by (simp add: upd_page_def upd_seg_def)
qed

section \<open>Freeing\<close>

lemma seg_ord_in_seg: "seg_ord s g f < 9 \<Longrightarrow> in_seg s g f"
  by (simp add: seg_ord_def split: if_splits)

lemma free_merge_rep:
  assumes "seg_rep s g" and "in_seg s g f" and "seg_ord s g f = 9" and "2 ^ k dvd f" and "k < 9"
  shows "\<exists>f' k' s'. free_merge (page_of s g f) (frame_addr f) k s = Some (page_of s g f', k', s') \<and> seg_rep s' g \<and> vm_frame g s s' \<and>
    in_seg s g f' \<and> k' < 9 \<and> seg_ord s' g f' = 9 \<and> (seg_ord s' g)(f' := k') = merge (seg_ord s g) f k"
  using assms
proof (induction "8 - k" arbitrary: k f s)
  case 0
  then show ?case using vm_frame_refl [of g s]
    by (intro exI [of _ f] exI [of _ k] exI [of _ s]) (simp add: free_merge.simps [of _ _ k] merge.simps [of _ _ k])
next
  case (Suc n)
  let ?b = "buddy f k"
  have lay: "seg_layout s g" using Suc.prems(1) by (simp add: seg_rep_def)
  have k: "k < 8" and f: "f < 2 ^ 20" using Suc.hyps(2) in_seg_small [OF lay Suc.prems(2)] by simp_all
  have b: "?b < 2 ^ 20" by (rule buddy_range [OF f _ Suc.prems(4)]) (use k in simp)
  have id: "segID (page_at s (page_of s g f)) = g" by (rule seg_layoutD(6) [OF lay Suc.prems(2)])
  have xor: "frame_addr f XOR VM_ORDER_TO_PHYS k = frame_addr ?b" by (rule frame_xor [OF f _ Suc.prems(4)]) (use k in simp)
  note find = PhysToPage_frame [OF lay b]
  show ?case
  proof (cases "seg_ord s g ?b = k")
    case False
    then have "free_merge (page_of s g f) (frame_addr f) k s = Some (page_of s g f, k, s)"
      by (subst free_merge.simps) (auto simp: k id xor find Let_def seg_ord_def split: if_splits)
    moreover have "merge (seg_ord s g) f k = (seg_ord s g)(f := k)" using False by (subst merge.simps) simp
    ultimately show ?thesis using Suc.prems vm_frame_refl [of g s] by (intro exI [of _ f] exI [of _ k] exI [of _ s]) simp
  next
    case True
    then have inb: "in_seg s g ?b" "seg_ord s g ?b < 9" using seg_ord_in_seg [of s g ?b] k by simp_all
    from FreeListDel_rep [OF Suc.prems(1) inb] obtain s1 where s1: "OsVmPhysFreeListDelUnsafe (page_of s g ?b) s = Some s1" "seg_rep s1 g"
      "seg_ord s1 g = (seg_ord s g)(?b := 9)" "vm_frame g s s1" by blast
    note same = vm_frame_seg [OF s1(4)]
    note pb = parent_buddy [OF Suc.prems(4)]
    have up: "in_seg s g (parent f k)" "seg_ord s1 g (parent f k) = 9" using pb(5) inb(1) Suc.prems(2,3) by (auto simp: s1(3))
    have "parent f k < 2 ^ 20" by (rule in_seg_small [OF lay up(1)])
    from PhysToPage_frame [OF layout_frame [OF s1(4) lay] this] have find': "OsVmPhysToPage (frame_addr (parent f k)) g s1 = Some (Some (page_of s g (parent f k)))"
      using up(1) by (simp add: same)
    have mask: "frame_addr ?b AND NOT (VM_ORDER_TO_PHYS (k + 1) - 1) = frame_addr (parent f k)" using frame_and [OF b, of k] pb(7) k by simp
    have "pgOrder (page_at s (page_of s g ?b)) = k" using True inb(1) by (simp add: seg_ord_def)
    then have run: "free_merge (page_of s g f) (frame_addr f) k s = free_merge (page_of s g (parent f k)) (frame_addr (parent f k)) (k + 1) s1"
      by (subst free_merge.simps) (simp add: k id xor find inb(1) s1(1) mask find' Let_def del: One_nat_def)
    have "n = 8 - Suc k" using Suc.hyps(2) by simp
    from Suc.hyps(1) [OF this s1(2) up(1) [folded same(4)] up(2) pb(2)] k obtain f' k' s' where s': "free_merge (page_of s g (parent f k)) (frame_addr (parent f k)) (Suc k) s1 = Some (page_of s g f', k', s')"
      "seg_rep s' g" "vm_frame g s1 s'" "in_seg s g f'" "k' < 9" "seg_ord s' g f' = 9" "(seg_ord s' g)(f' := k') = merge (seg_ord s1 g) (parent f k) (Suc k)"
      unfolding same by auto
    have "merge (seg_ord s g) f k = merge (seg_ord s1 g) (parent f k) (Suc k)" using True k by (subst merge.simps) (simp add: s1(3))
    with s' run vm_frame_trans [OF s1(4) s'(3)] show ?thesis by (intro exI [of _ f'] exI [of _ k'] exI [of _ s']) simp
  qed
qed

text \<open>The invariant of a segment, and its free frames.\<close>

definition seg_inv :: "vm_phys \<Rightarrow> nat \<Rightarrow> bool" where
  "seg_inv s g \<longleftrightarrow> seg_rep s g \<and> buddy_ok (seg_lo s g) (seg_hi s g) (seg_ord s g)"

definition seg_free :: "vm_phys \<Rightarrow> nat \<Rightarrow> nat set" where
  "seg_free s g = free_frames (seg_ord s g)"

lemma seg_inv_frame: "seg_rep s' g \<Longrightarrow> vm_frame g s s' \<Longrightarrow> buddy_ok (seg_lo s g) (seg_hi s g) (seg_ord s' g) \<Longrightarrow> seg_inv s' g"
  by (simp add: seg_inv_def vm_frame_seg)

lemma PagesFree_inv:
  assumes inv: "seg_inv s g" and f: "seg_lo s g \<le> f" "f + 2 ^ k \<le> seg_hi s g" "2 ^ k dvd f" and k: "k < 9" and new: "blk f k \<inter> seg_free s g = {}"
  shows "\<exists>s'. OsVmPhysPagesFree (Some (page_of s g f)) k s = Some s' \<and> seg_inv s' g \<and> seg_free s' g = seg_free s g \<union> blk f k \<and> vm_frame g s s'"
proof -
  have rep: "seg_rep s g" and lay: "seg_layout s g" and ok: "buddy_ok (seg_lo s g) (seg_hi s g) (seg_ord s g)"
    using inv by (simp_all add: seg_inv_def seg_rep_def)
  have "f < f + 2 ^ k" by simp
  then have "f < seg_hi s g" using f(2) by (rule less_le_trans)
  then have inf: "in_seg s g f" using f(1) by (simp add: in_seg_def)
  have "\<not> seg_ord s g f < 9" using not_head [OF new [unfolded seg_free_def] blk_self] .
  moreover have "seg_ord s g f \<le> 9" using rep by (simp add: seg_rep_def)
  ultimately have o9: "seg_ord s g f = 9" by simp
  from free_merge_rep [OF rep inf o9 f(3) k] obtain f' k' s1 where s1: "free_merge (page_of s g f) (frame_addr f) k s = Some (page_of s g f', k', s1)"
    "seg_rep s1 g" "vm_frame g s s1" "in_seg s g f'" "k' < 9" "seg_ord s1 g f' = 9" "(seg_ord s1 g)(f' := k') = merge (seg_ord s g) f k" by blast
  note same = vm_frame_seg [OF s1(3)]
  from FreeListAdd_rep [OF s1(2) _ s1(6,5)] s1(4) obtain s2 where s2: "OsVmPhysFreeListAddUnsafe (page_of s g f') k' s1 = Some s2" "seg_rep s2 g"
    "seg_ord s2 g = merge (seg_ord s g) f k" "vm_frame g s1 s2" unfolding same s1(7) by blast
  have "OsVmPhysPagesFree (Some (page_of s g f)) k s = Some s2"
    using k s1(1) s2(1) seg_layoutD(5) [OF lay inf] by (simp add: OsVmPhysPagesFree_def)
  moreover have m: "buddy_ok (seg_lo s g) (seg_hi s g) (seg_ord s2 g)" "seg_free s2 g = seg_free s g \<union> blk f k"
    using merge_ok [OF ok new [unfolded seg_free_def] k f] by (simp_all add: s2(3) seg_free_def)
  ultimately show ?thesis using seg_inv_frame [OF s2(2) vm_frame_trans [OF s1(3) s2(4)] m(1)] vm_frame_trans [OF s1(3) s2(4)] by blast
qed

text \<open>Freeing a run of frames block by block.\<close>

lemma high_bit_less:
  assumes "n \<noteq> (0 :: u32)"
  shows "unat n < 2 ^ Suc (LOS_HighBitGet n)"
proof -
  have "take_bit (Suc (LOS_HighBitGet n)) (unat n) = unat n"
    by (rule bit_eqI) (use LOS_HighBitGet_greatest(3) [OF assms] in \<open>auto simp: bit_simps bit_unsigned_iff less_Suc_eq_le\<close>)
  then show ?thesis by (metis take_bit_nat_less_exp)
qed

lemma addr_order:
  assumes f: "f < 2 ^ 20"
  shows "2 ^ VM_PHYS_TO_ORDER (frame_addr f) dvd f"
proof -
  have w: "unat (drop_bit 12 (frame_addr f)) = f"
    unfolding unsigned_drop_bit_eq unat_frame_addr [OF f] using f by (simp add: drop_bit_eq_div take_bit_nat_eq_self)
  let ?w = "drop_bit 12 (frame_addr f)"
  show ?thesis
  proof (cases "?w = 0")
    case True
    with w show ?thesis by (metis dvd_0_right unsigned_0)
  next
    case False
    have "take_bit (LOS_LowBitGet ?w) f = 0"
    proof (rule bit_eqI)
      fix j
      have "bit f j \<longleftrightarrow> bit ?w j" by (subst w [symmetric]) (auto simp: bit_unsigned_iff)
      then show "bit (take_bit (LOS_LowBitGet ?w) f) j = bit 0 j" using LOS_LowBitGet_least(3) [OF False, of j] by (auto simp: bit_take_bit_iff)
    qed
    then have "2 ^ LOS_LowBitGet ?w dvd f" by (simp add: take_bit_eq_0_iff)
    then show ?thesis unfolding VM_PHYS_TO_ORDER_def by (rule power_le_dvd) simp
  qed
qed

lemma order_less: "VM_PHYS_TO_ORDER pa < 9"
  by (simp add: VM_PHYS_TO_ORDER_def)

lemma run_tail:
  fixes f n m :: nat
  assumes "{f ..< f + n} \<inter> A = {}" and "m \<le> n"
  shows "{f + m ..< f + m + (n - m)} \<inter> (A \<union> {f ..< f + m}) = {}"
proof -
  have "{f + m ..< f + m + (n - m)} \<subseteq> {f ..< f + n}" using assms(2) by auto
  with assms(1) have "{f + m ..< f + m + (n - m)} \<inter> A = {}" by blast
  then show ?thesis by auto
qed

lemma free_aligned_inv:
  assumes "seg_inv s g" and "seg_lo s g \<le> f" and "f + unat n \<le> seg_hi s g" and "{f ..< f + unat n} \<inter> seg_free s g = {}"
  shows "\<exists>f' n' s'. free_aligned (page_of s g f) n s = Some (page_of s g f', n', s') \<and> seg_inv s' g \<and> vm_frame g s s' \<and> f \<le> f' \<and>
    f' + unat n' = f + unat n \<and> seg_free s' g = seg_free s g \<union> {f ..< f'} \<and> (n' \<noteq> 0 \<longrightarrow> (\<exists>j < 9. 2 ^ j dvd f' \<and> unat n' < 2 ^ j))"
  using assms
proof (induction "unat n" arbitrary: n f s rule: less_induct)
  case less
  let ?k = "VM_PHYS_TO_ORDER (physAddr (page_at s (page_of s g f)))" let ?m = "VM_ORDER_TO_PAGES ?k"
  have k: "?k < 9" "?k < 32" using order_less [of "physAddr (page_at s (page_of s g f))"] by simp_all
  have lay: "seg_layout s g" using less.prems(1) by (simp add: seg_inv_def seg_rep_def)
  have al: "2 ^ ?k dvd f" if "n \<noteq> 0"
  proof -
    have "0 < unat n" using that by (simp add: unat_gt_0)
    then have "in_seg s g f" using less.prems(2,3) by (simp add: in_seg_def)
    then show ?thesis using addr_order [OF in_seg_small [OF lay]] seg_layoutD(5) [OF lay] by simp
  qed
  show ?case
  proof (cases "of_nat ?m > n")
    case True
    then have run: "free_aligned (page_of s g f) n s = Some (page_of s g f, n, s)" by (subst free_aligned.simps) (simp add: Let_def)
    have "unat n < 2 ^ ?k" using True pages_step(1) [OF k(2) refl] by (simp add: word_less_nat_alt)
    with al k(1) have "n \<noteq> 0 \<longrightarrow> (\<exists>j < 9. 2 ^ j dvd f \<and> unat n < 2 ^ j)" by blast
    with run less.prems(1) vm_frame_refl [of g s] show ?thesis by (intro exI [of _ f] exI [of _ n] exI [of _ s]) simp
  next
    case False
    note st = pages_step(2,3,4) [OF k(2) refl False]
    then have n0: "n \<noteq> 0" by auto
    have "blk f ?k \<subseteq> {f ..< f + unat n}" using st(2) by (auto simp: blk_def)
    then have "blk f ?k \<inter> seg_free s g = {}" using less.prems(4) by blast
    with PagesFree_inv [OF less.prems(1,2) _ al [OF n0] k(1)] st(2) less.prems(3) obtain s1 where s1: "OsVmPhysPagesFree (Some (page_of s g f)) ?k s = Some s1"
      "seg_inv s1 g" "seg_free s1 g = seg_free s g \<union> blk f ?k" "vm_frame g s s1" by fastforce
    note same = vm_frame_seg [OF s1(4)]
    have inf: "in_seg s g f" using less.prems(2,3) st(2,3) by (simp add: in_seg_def)
    have next_page: "page_of s g f + ?m = page_of s1 g (f + 2 ^ ?k)" using page_of_add [OF inf] same(3) by (simp add: VM_ORDER_TO_PAGES_def)
    have run: "free_aligned (page_of s g f) n s = free_aligned (page_of s1 g (f + 2 ^ ?k)) (n - of_nat ?m) s1"
      using False s1(1) by (subst free_aligned.simps) (simp add: Let_def next_page)
    have "{f + 2 ^ ?k ..< f + 2 ^ ?k + unat (n - of_nat ?m)} \<inter> seg_free s1 g = {}"
      unfolding s1(3) st(1) blk_def by (rule run_tail [OF less.prems(4) st(2)])
    moreover have "f + 2 ^ ?k + unat (n - of_nat ?m) \<le> seg_hi s1 g" "seg_lo s1 g \<le> f + 2 ^ ?k" using less.prems(2,3) st(1,2) same by simp_all
    ultimately obtain f' n' s' where s': "free_aligned (page_of s1 g (f + 2 ^ ?k)) (n - of_nat ?m) s1 = Some (page_of s1 g f', n', s')" "seg_inv s' g"
      "vm_frame g s1 s'" "f + 2 ^ ?k \<le> f'" "f' + unat n' = f + 2 ^ ?k + unat (n - of_nat ?m)" "seg_free s' g = seg_free s1 g \<union> {f + 2 ^ ?k ..< f'}"
      "n' \<noteq> 0 \<longrightarrow> (\<exists>j < 9. 2 ^ j dvd f' \<and> unat n' < 2 ^ j)" using less.hyps [OF st(3) s1(2)] by blast
    have "seg_free s' g = seg_free s g \<union> {f ..< f'}" unfolding s'(6) s1(3) using s'(4) by (auto simp: blk_def)
    moreover have "f \<le> f'" "f' + unat n' = f + unat n" using s'(4,5) st(1,2) by simp_all
    ultimately show ?thesis using s'(1-3,7) run same(3) vm_frame_trans [OF s1(4) s'(3)] by (intro exI [of _ f'] exI [of _ n'] exI [of _ s']) simp
  qed
qed

lemma free_rest_inv:
  assumes "seg_inv s g" and "seg_lo s g \<le> f" and "f + unat n \<le> seg_hi s g" and "{f ..< f + unat n} \<inter> seg_free s g = {}"
    and "n \<noteq> 0 \<longrightarrow> (\<exists>j < 9. 2 ^ j dvd f \<and> unat n < 2 ^ j)"
  shows "\<exists>s'. free_rest (page_of s g f) n s = Some s' \<and> seg_inv s' g \<and> vm_frame g s s' \<and> seg_free s' g = seg_free s g \<union> {f ..< f + unat n}"
  using assms
proof (induction "unat n" arbitrary: n f s rule: less_induct)
  case less
  show ?case
  proof (cases "n = 0")
    case True
    with less.prems(1) vm_frame_refl [of g s] show ?thesis by (subst free_rest.simps) simp
  next
    case False
    let ?k = "LOS_HighBitGet n" let ?m = "VM_ORDER_TO_PAGES ?k"
    obtain j where j: "j < 9" "2 ^ j dvd f" "unat n < 2 ^ j" using less.prems(5) False by blast
    have hb: "?k < 32" "bit n ?k" using LOS_HighBitGet_greatest(1,2) [OF False] by simp_all
    have le: "\<not> of_nat ?m > n" using high_bit_le [OF hb(2,1)] by (simp add: VM_ORDER_TO_PAGES_def not_less)
    note st = pages_step(2,3,4) [OF hb(1) refl le]
    have "(2 :: nat) ^ ?k < 2 ^ j" using st(2) j(3) by (rule le_less_trans)
    then have k: "?k < j" by simp
    have al: "2 ^ ?k dvd f" using j(2) by (rule power_le_dvd) (use k in simp)
    have "blk f ?k \<subseteq> {f ..< f + unat n}" using st(2) by (auto simp: blk_def)
    then have "blk f ?k \<inter> seg_free s g = {}" using less.prems(4) by blast
    with PagesFree_inv [OF less.prems(1,2) _ al] k j(1) st(2) less.prems(3) obtain s1 where s1: "OsVmPhysPagesFree (Some (page_of s g f)) ?k s = Some s1"
      "seg_inv s1 g" "seg_free s1 g = seg_free s g \<union> blk f ?k" "vm_frame g s s1" by fastforce
    note same = vm_frame_seg [OF s1(4)]
    have inf: "in_seg s g f" using less.prems(2,3) st(2,3) by (simp add: in_seg_def)
    have next_page: "page_of s g f + ?m = page_of s1 g (f + 2 ^ ?k)" using page_of_add [OF inf] same(3) by (simp add: VM_ORDER_TO_PAGES_def)
    have run: "free_rest (page_of s g f) n s = free_rest (page_of s1 g (f + 2 ^ ?k)) (n - of_nat ?m) s1"
      using False s1(1) by (subst free_rest.simps) (simp add: Let_def next_page word_neq_0_conv)
    have "{f + 2 ^ ?k ..< f + 2 ^ ?k + unat (n - of_nat ?m)} \<inter> seg_free s1 g = {}"
      unfolding s1(3) st(1) blk_def by (rule run_tail [OF less.prems(4) st(2)])
    moreover have "f + 2 ^ ?k + unat (n - of_nat ?m) \<le> seg_hi s1 g" "seg_lo s1 g \<le> f + 2 ^ ?k" using less.prems(2,3) st(1,2) same by simp_all
    moreover have "2 ^ ?k dvd f + 2 ^ ?k" "unat (n - of_nat ?m) < 2 ^ ?k" "?k < 9" using al st(1) high_bit_less [OF False] k j(1) by simp_all
    ultimately obtain s' where s': "free_rest (page_of s1 g (f + 2 ^ ?k)) (n - of_nat ?m) s1 = Some s'" "seg_inv s' g" "vm_frame g s1 s'"
      "seg_free s' g = seg_free s1 g \<union> {f + 2 ^ ?k ..< f + 2 ^ ?k + unat (n - of_nat ?m)}" using less.hyps [OF st(3) s1(2)] by blast
    have "seg_free s' g = seg_free s g \<union> {f ..< f + unat n}" unfolding s'(4) s1(3) st(1) using st(2) by (auto simp: blk_def)
    then show ?thesis using s'(1-3) run vm_frame_trans [OF s1(4) s'(3)] by simp
  qed
qed

lemma FreeContiguous_inv:
  assumes "seg_inv s g" and "seg_lo s g \<le> f" and "f + unat n \<le> seg_hi s g" and "{f ..< f + unat n} \<inter> seg_free s g = {}"
  shows "\<exists>s'. OsVmPhysPagesFreeContiguous (page_of s g f) n s = Some s' \<and> seg_inv s' g \<and> vm_frame g s s' \<and> seg_free s' g = seg_free s g \<union> {f ..< f + unat n}"
proof -
  from free_aligned_inv [OF assms] obtain f' n' s1 where s1: "free_aligned (page_of s g f) n s = Some (page_of s g f', n', s1)" "seg_inv s1 g"
    "vm_frame g s s1" "f \<le> f'" "f' + unat n' = f + unat n" "seg_free s1 g = seg_free s g \<union> {f ..< f'}"
    "n' \<noteq> 0 \<longrightarrow> (\<exists>j < 9. 2 ^ j dvd f' \<and> unat n' < 2 ^ j)" by blast
  note same = vm_frame_seg [OF s1(3)]
  have "{f' ..< f' + unat n'} \<inter> seg_free s1 g = {}" using run_tail [OF assms(4), of "f' - f"] s1(4,5) unfolding s1(6) by (simp add: add.commute)
  with free_rest_inv [OF s1(2), of f' n'] s1(4,5,7) assms(2,3) obtain s2 where s2: "free_rest (page_of s g f') n' s1 = Some s2" "seg_inv s2 g"
    "vm_frame g s1 s2" "seg_free s2 g = seg_free s1 g \<union> {f' ..< f' + unat n'}" unfolding same by auto
  have "seg_free s2 g = seg_free s g \<union> {f ..< f + unat n}" unfolding s2(4) s1(6,5) using s1(4,5) by auto
  then show ?thesis using s1(1) s2(1,2) vm_frame_trans [OF s1(3) s2(3)] by (simp add: OsVmPhysPagesFreeContiguous_def)
qed

section \<open>Allocating: the order and the rounding\<close>

lemma pages_to_order_spec:
  assumes "unat n \<le> 2 ^ 31" and "k < 32" and "k = 0 \<or> 2 ^ (k - 1) < unat n"
  shows "\<exists>j. pages_to_order_from k n = Some j \<and> j < 32 \<and> unat n \<le> 2 ^ j \<and> (j = 0 \<or> 2 ^ (j - 1) < unat n)"
  using assms(2,3)
proof (induction "32 - k" arbitrary: k)
  case (Suc d)
  have m: "unat (of_nat (VM_ORDER_TO_PAGES k) :: u32) = 2 ^ k" by (rule pages_step(1) [OF Suc.prems(1) refl])
  show ?case
  proof (cases "of_nat (VM_ORDER_TO_PAGES k) < n")
    case True
    then have lt: "2 ^ k < unat n" using m by (simp add: word_less_nat_alt)
    from lt assms(1) have "(2 :: nat) ^ k < 2 ^ 31" by (rule less_le_trans)
    then have "k < 31" by (rule power_less_imp_less_exp [rotated]) simp
    have d: "d = 32 - (k + 1)" using Suc.hyps(2) by simp
    from Suc.hyps(1) [OF d] \<open>k < 31\<close> lt obtain j where "pages_to_order_from (k + 1) n = Some j" "j < 32" "unat n \<le> 2 ^ j" "j = 0 \<or> 2 ^ (j - 1) < unat n" by auto
    with True Suc.prems(1) show ?thesis by (subst pages_to_order_from.simps) simp
  next
    case False
    then have "unat n \<le> 2 ^ k" using m by (simp add: word_less_nat_alt)
    with False Suc.prems show ?thesis by (subst pages_to_order_from.simps) auto
  qed
qed simp

lemma PagesToOrder_spec:
  assumes "unat n \<le> 2 ^ 31"
  shows "\<exists>k. OsVmPagesToOrder n = Some k \<and> k < 32 \<and> unat n \<le> 2 ^ k \<and> (k = 0 \<or> 2 ^ (k - 1) < unat n)"
  using pages_to_order_spec [OF assms, of 0] by (simp add: OsVmPagesToOrder_def)

lemma ROUNDUP_pow2:
  assumes k: "k < 32" and n: "unat n + 2 ^ k \<le> 2 ^ 32"
  shows "unat (ROUNDUP n (of_nat (2 ^ k))) = (unat n + 2 ^ k - 1) div 2 ^ k * 2 ^ k"
proof -
  have m: "of_nat (2 ^ k) - 1 = (mask k :: u32)" by (simp add: mask_eq_exp_minus_1)
  have um: "unat (mask k :: u32) = 2 ^ k - 1" using k by (simp add: mask_eq_exp_minus_1 unat_sub unat_pow2 word_le_nat_alt)
  have "unat n + (2 ^ k - 1) < 2 ^ 32" using n by (simp add: less_le_trans [of _ "unat n + 2 ^ k"])
  then have a: "unat (n + mask k) = unat n + (2 ^ k - 1)" using unat_add_lem [of n "mask k"] um by simp
  have "(n + mask k) AND NOT (mask k) = push_bit k (drop_bit k (n + mask k))" by (rule bit_word_eqI) (auto simp: bit_simps)
  moreover have "unat (drop_bit k (n + mask k)) = (unat n + (2 ^ k - 1)) div 2 ^ k"
    unfolding unsigned_drop_bit_eq a using \<open>unat n + (2 ^ k - 1) < 2 ^ 32\<close> by (simp add: drop_bit_eq_div take_bit_nat_eq_self)
  moreover have "(unat n + (2 ^ k - 1)) div 2 ^ k * 2 ^ k < 2 ^ 32" using \<open>unat n + (2 ^ k - 1) < 2 ^ 32\<close> by (rule le_less_trans [OF div_times_less_eq_dividend])
  ultimately have "unat ((n + mask k) AND NOT (mask k)) = (unat n + (2 ^ k - 1)) div 2 ^ k * 2 ^ k"
    by (simp only: unsigned_push_bit_eq) (simp add: push_bit_eq_mult take_bit_nat_eq_self)
  then show ?thesis unfolding ROUNDUP_def m by simp
qed

lemma first_order_None: "first_order seg ks = None \<longleftrightarrow> (\<forall>k \<in> set ks. freeNode seg k = [])"
  by (induction ks) (auto split: list.splits)

lemma first_order_Some: "first_order seg ks = Some (p, k) \<Longrightarrow> k \<in> set ks \<and> (\<exists>ps. freeNode seg k = p # ps)"
  by (induction ks) (auto split: list.splits)

section \<open>Allocating from a larger block\<close>

lemma Spilt_rep:
  assumes "seg_rep s g" and "\<forall>x \<in> blk f n. in_seg s g x \<and> seg_ord s g x = 9" and "n < 10"
  shows "\<exists>s'. OsVmPhysPagesSpiltUnsafe (page_of s g f) old n s = Some s' \<and> seg_rep s' g \<and> vm_frame g s s' \<and> seg_ord s' g = split (seg_ord s g) f old n"
  using assms
proof (induction n arbitrary: s)
  case 0
  then show ?case using vm_frame_refl [of g s] by simp
next
  case (Suc n)
  show ?case
  proof (cases "old < Suc n")
    case False
    then show ?thesis using Suc.prems(1) vm_frame_refl [of g s] by simp
  next
    case True
    let ?b = "f + 2 ^ n"
    have b: "?b \<in> blk f (Suc n)" "f \<in> blk f (Suc n)" by (simp_all add: blk_def)
    then have inb: "in_seg s g ?b" "seg_ord s g ?b = 9" "in_seg s g f" using Suc.prems(2) by blast+
    have page: "page_of s g f + VM_ORDER_TO_PAGES n = page_of s g ?b" using page_of_add [OF inb(3)] by (simp add: VM_ORDER_TO_PAGES_def)
    from FreeListAdd_rep [OF Suc.prems(1) inb(1,2), of n] Suc.prems(3) obtain s1 where s1: "OsVmPhysFreeListAddUnsafe (page_of s g ?b) n s = Some s1"
      "seg_rep s1 g" "seg_ord s1 g = (seg_ord s g)(?b := n)" "vm_frame g s s1" by auto
    note same = vm_frame_seg [OF s1(4)]
    have "\<forall>x \<in> blk f n. in_seg s1 g x \<and> seg_ord s1 g x = 9" unfolding same s1(3) using Suc.prems(2) by (auto simp: blk_def)
    with Suc.IH [OF s1(2)] Suc.prems(3) obtain s' where s': "OsVmPhysPagesSpiltUnsafe (page_of s g f) old n s1 = Some s'" "seg_rep s' g" "vm_frame g s1 s'"
      "seg_ord s' g = split (seg_ord s1 g) f old n" unfolding same by auto
    have "pgOrder (page_at s (page_of s g ?b)) = 9" using inb(1,2) by (simp add: seg_ord_def)
    with True s1(1) s'(1) page have "OsVmPhysPagesSpiltUnsafe (page_of s g f) old (Suc n) s = Some s'" by (simp add: Let_def)
    with s' s1(3) True vm_frame_trans [OF s1(4) s'(3)] show ?thesis by simp
  qed
qed

text \<open>Giving the rest of the rounded run back.\<close>

lemma Recycle_inv:
  assumes inv: "seg_inv s g" and r: "unat r = m" and n: "unat n \<le> m" and f: "seg_lo s g \<le> f" "f + m \<le> seg_hi s g"
    and out: "{f + unat n ..< f + m} \<inter> seg_free s g = {}"
  shows "\<exists>s'. OsVmRecycleExtraPages (page_of s g f + unat n) n r s = Some s' \<and> seg_inv s' g \<and> vm_frame g s s' \<and>
    seg_free s' g = seg_free s g \<union> {f + unat n ..< f + m}"
proof (cases "n \<ge> r")
  case True
  then have "m \<le> unat n" using r by (simp add: word_le_nat_alt)
  with True inv vm_frame_refl [of g s] show ?thesis by (simp add: OsVmRecycleExtraPages_def)
next
  case False
  have d: "f + unat n + unat (r - n) = f + m" using False r n by (simp add: unat_sub not_le less_imp_le)
  have page: "page_of s g f + unat n = page_of s g (f + unat n)" using f(1) by (simp add: page_of_def)
  from FreeContiguous_inv [OF inv, of "f + unat n" "r - n"] f out False show ?thesis unfolding d page by (simp add: OsVmRecycleExtraPages_def)
qed

text \<open>The whole run \<open>[f, f + n)\<close> out of a free block of order \<open>j\<close>, rounded up to order \<open>k\<close>.\<close>

lemma alloc_split:
  assumes inv: "seg_inv s g" and f: "seg_ord s g f = j" "j < 9" and k: "k \<le> j" "unat n \<le> 2 ^ k" "k = 0 \<or> 2 ^ (k - 1) < unat n" and n: "n \<noteq> 0"
  shows "\<exists>s1 s2 s3. del_blocks (page_of s g f) (page_of s g f + unat n) j s = Some s1 \<and> OsVmPhysPagesSpiltUnsafe (page_of s g f) k j s1 = Some s2 \<and>
    OsVmRecycleExtraPages (page_of s g f + unat n) n (ROUNDUP n (of_nat (VM_ORDER_TO_PAGES (min k j)))) s2 = Some s3 \<and>
    seg_inv s3 g \<and> vm_frame g s s3 \<and> {f ..< f + unat n} \<subseteq> seg_free s g \<and> seg_free s3 g = seg_free s g - {f ..< f + unat n}"
proof -
  have rep: "seg_rep s g" and ok: "buddy_ok (seg_lo s g) (seg_hi s g) (seg_ord s g)" using inv by (simp_all add: seg_inv_def)
  have f9: "seg_ord s g f < 9" and inf: "in_seg s g f" using f seg_ord_in_seg [of s g f] by simp_all
  note d = buddy_okD(1-3) [OF ok f9, unfolded f(1)]
  from FreeListDel_rep [OF rep inf f9] obtain s1 where s1: "OsVmPhysFreeListDelUnsafe (page_of s g f) s = Some s1" "seg_rep s1 g"
    "seg_ord s1 g = (seg_ord s g)(f := 9)" "vm_frame g s s1" by blast
  note same1 = vm_frame_seg [OF s1(4)]
  note rem = buddy_remove [OF ok f9, unfolded f(1)]
  have n0: "0 < unat n" using n by (simp add: unat_gt_0)
  have kj: "(2 :: nat) ^ k \<le> 2 ^ j" using k(1) by (simp add: power_increasing)
  have del: "del_blocks (page_of s g f) (page_of s g f + unat n) j s = Some s1"
    using n0 le_trans [OF k(2) kj] s1(1) by (subst del_blocks.simps) (simp add: del_blocks.simps [of "_ + _"] VM_ORDER_TO_PAGES_def)
  have out: "blk f j \<inter> free_frames (seg_ord s1 g) = {}" unfolding s1(3) rem(2) by blast
  have rep1: "\<forall>x. seg_ord s1 g x \<le> 9" using s1(2) by (simp add: seg_rep_def)
  have "in_seg s1 g x \<and> seg_ord s1 g x = 9" if "x \<in> blk f j" for x
    using not_head [OF out that] rep1 [rule_format, of x] that d(1,2) by (auto simp: same1 in_seg_def blk_def)
  with Spilt_rep [OF s1(2), of f j k] f(2) obtain s2 where s2: "OsVmPhysPagesSpiltUnsafe (page_of s g f) k j s1 = Some s2" "seg_rep s2 g" "vm_frame g s1 s2"
    "seg_ord s2 g = split (seg_ord s1 g) f k j" unfolding same1 by auto
  have fr2: "vm_frame g s s2" by (rule vm_frame_trans [OF s1(4) s2(3)])
  note same2 = vm_frame_seg [OF fr2]
  have sp: "buddy_ok (seg_lo s g) (seg_hi s g) (seg_ord s2 g)" "free_frames (seg_ord s2 g) = free_frames (seg_ord s1 g) \<union> (blk f j - blk f k)"
    using split_ok [OF rem(1) out [unfolded s1(3)] f(2) d k(1)] unfolding s2(4) s1(3) by blast+
  have inv2: "seg_inv s2 g" by (rule seg_inv_frame [OF s2(2) fr2 sp(1)])
  have k32: "k < 32" using k(1) f(2) by simp
  have up: "unat (ROUNDUP n (of_nat (VM_ORDER_TO_PAGES (min k j)))) = 2 ^ k"
  proof -
    have "(2 :: nat) ^ k \<le> 2 ^ 8" using k(1) f(2) by (intro power_increasing) auto
    then have "unat n + 2 ^ k \<le> 2 ^ 32" using k(2) by simp
    then have "unat (ROUNDUP n (of_nat (VM_ORDER_TO_PAGES (min k j)))) = (unat n + 2 ^ k - 1) div 2 ^ k * 2 ^ k"
      using ROUNDUP_pow2 [OF k32, of n] k(1) by (simp add: VM_ORDER_TO_PAGES_def min_absorb1)
    moreover have "(unat n + 2 ^ k - 1) div 2 ^ k = 1" using n0 k(2) by (intro div_nat_eqI) auto
    ultimately show ?thesis by simp
  qed
  have sub: "{f ..< f + unat n} \<subseteq> blk f k" "blk f k \<subseteq> blk f j" using k(2) kj by (auto simp: blk_def)
  have free2: "seg_free s2 g = seg_free s g - blk f k" unfolding seg_free_def sp(2) s1(3) rem(2)
    using sub(2) free_framesI [of "seg_ord s g" f] f by auto
  have "{f + unat n ..< f + 2 ^ k} \<inter> seg_free s2 g = {}" unfolding free2 by (auto simp: blk_def)
  moreover have "f + 2 ^ k \<le> seg_hi s2 g" "seg_lo s2 g \<le> f" unfolding same2 using d(1,2) kj by linarith+
  ultimately have "\<exists>s3. OsVmRecycleExtraPages (page_of s g f + unat n) n (ROUNDUP n (of_nat (VM_ORDER_TO_PAGES (min k j)))) s2 = Some s3 \<and> seg_inv s3 g \<and> vm_frame g s2 s3 \<and>
    seg_free s3 g = seg_free s2 g \<union> {f + unat n ..< f + 2 ^ k}"
    using Recycle_inv [OF inv2 up k(2)] unfolding same2 by blast
  then obtain s3 where s3: "OsVmRecycleExtraPages (page_of s g f + unat n) n (ROUNDUP n (of_nat (VM_ORDER_TO_PAGES (min k j)))) s2 = Some s3" "seg_inv s3 g"
    "vm_frame g s2 s3" "seg_free s3 g = seg_free s2 g \<union> {f + unat n ..< f + 2 ^ k}" by blast
  have in_free: "blk f k \<subseteq> seg_free s g" using sub(2) free_framesI [of "seg_ord s g" f] f by (auto simp: seg_free_def)
  have "seg_free s3 g = seg_free s g - {f ..< f + unat n}" unfolding s3(4) free2 using in_free k(2) by (auto simp: blk_def)
  with del s2(1) s3(1,2) vm_frame_trans [OF fr2 s3(3)] in_free sub(1) show ?thesis by blast
qed

end
