(* ===== verification/LosVmPhysAlloc.thy ===== *)
theory LosVmPhysAlloc
  imports LosVmPhysInv
begin

text \<open>
  Allocation from one segment (\<^verbatim>\<open>OsVmPhysPagesAlloc\<close>): runs longer than the largest block, and the request as a whole.
\<close>

section \<open>Runs of largest blocks\<close>

lemma frame_cmp:
  assumes lay: "seg_layout s g" and f: "f < 2 ^ 20"
  shows "frame_addr f < segStart (g_vmPhysSeg s g) \<longleftrightarrow> f < seg_lo s g"
    and "segStart (g_vmPhysSeg s g) + segSize (g_vmPhysSeg s g) \<le> frame_addr f \<longleftrightarrow> seg_hi s g \<le> f"
    and "in_seg s g f \<Longrightarrow> pageBase (g_vmPhysSeg s g) + unat (drop_bit 12 (frame_addr f - segStart (g_vmPhysSeg s g))) = page_of s g f"
proof -
  note d = seg_layoutD(1-4) [OF lay]
  show lt: "frame_addr f < segStart (g_vmPhysSeg s g) \<longleftrightarrow> f < seg_lo s g"
    "segStart (g_vmPhysSeg s g) + segSize (g_vmPhysSeg s g) \<le> frame_addr f \<longleftrightarrow> seg_hi s g \<le> f"
    by (simp_all add: word_less_nat_alt word_le_nat_alt unat_frame_addr [OF f] d(2,3))
  show "pageBase (g_vmPhysSeg s g) + unat (drop_bit 12 (frame_addr f - segStart (g_vmPhysSeg s g))) = page_of s g f" if "in_seg s g f"
    using PhysToPage_frame [OF lay f] that d(1) lt by (auto simp: OsVmPhysToPage_def Let_def in_seg_def)
qed

lemma frame_addr_le: "f < 2 ^ 20 \<Longrightarrow> f' < 2 ^ 20 \<Longrightarrow> frame_addr f \<le> frame_addr f' \<longleftrightarrow> f \<le> f'"
  by (simp add: word_le_nat_alt unat_frame_addr)

lemma large_scan_spec:
  assumes inv: "seg_inv s g" and e: "e \<le> seg_hi s g" and x: "seg_ord s g x = 8" "x < e"
  shows "\<exists>y m. large_scan (g_vmPhysSeg s g) (frame_addr e) (frame_addr x) s = Some (frame_addr y) \<and> y < 2 ^ 20 \<and> y = x + 256 * m \<and>
    (\<forall>i < m. seg_ord s g (x + 256 * i) = 8)"
  using x
proof (induction "e - x" arbitrary: x rule: less_induct)
  case less
  let ?seg = "g_vmPhysSeg s g" let ?y = "x + 256"
  have lay: "seg_layout s g" and ok: "buddy_ok (seg_lo s g) (seg_hi s g) (seg_ord s g)" using inv by (simp_all add: seg_inv_def seg_rep_def)
  have "x + 2 ^ 8 \<le> seg_hi s g" "seg_lo s g \<le> x" using buddy_okD(1,2) [OF ok, of x] less.prems(1) by simp_all
  then have y: "?y < 2 ^ 20" "seg_lo s g \<le> ?y" using seg_layoutD(4) [OF lay] by simp_all
  have e20: "e < 2 ^ 20" using e seg_layoutD(4) [OF lay] by simp
  have pa: "frame_addr x + 0x100000 = frame_addr ?y" by (simp add: frame_addr_def)
  note cmp = frame_cmp [OF lay y(1)] frame_addr_le [OF e20 y(1)]
  show ?case
  proof (cases "e \<le> ?y \<or> seg_ord s g ?y \<noteq> 8")
    case True
    have "large_scan ?seg (frame_addr e) (frame_addr x) s = Some (frame_addr ?y)"
    proof (cases "e \<le> ?y")
      case True
      then show ?thesis by (subst large_scan.simps) (simp add: pa cmp(4))
    next
      case False
      then have iny: "in_seg s g ?y" using e y(2) by (simp add: in_seg_def)
      then have "pgOrder (page_at s (page_of s g ?y)) \<noteq> 8" using True False by (simp add: seg_ord_def)
      with False iny show ?thesis by (subst large_scan.simps) (simp add: pa cmp Let_def)
    qed
    with y(1) less.prems(1) show ?thesis by (intro exI [of _ ?y] exI [of _ 1]) simp
  next
    case False
    then have iny: "in_seg s g ?y" "e - ?y < e - x" using e y(2) less.prems(2) by (auto simp: in_seg_def)
    then have "pgOrder (page_at s (page_of s g ?y)) = 8" using False by (simp add: seg_ord_def)
    with False iny(1) y(2) have run: "large_scan ?seg (frame_addr e) (frame_addr x) s = large_scan ?seg (frame_addr e) (frame_addr ?y) s"
      by (subst large_scan.simps) (simp add: pa cmp Let_def in_seg_def)
    obtain z m where z: "large_scan ?seg (frame_addr e) (frame_addr ?y) s = Some (frame_addr z)" "z < 2 ^ 20" "z = ?y + 256 * m"
      "\<forall>i < m. seg_ord s g (?y + 256 * i) = 8" using less.hyps [OF iny(2)] False by auto
    have "seg_ord s g (x + 256 * i) = 8" if "i < Suc m" for i
      using z(4) less.prems(1) that by (cases i) (simp_all add: algebra_simps)
    with z run show ?thesis by (intro exI [of _ z] exI [of _ "Suc m"]) simp
  qed
qed

lemma del_blocks_inv:
  assumes "seg_inv s g" and "\<forall>i < m. seg_ord s g (x + 256 * i) = 8" and "seg_lo s g \<le> x"
    and "fin \<le> page_of s g x + 256 * m" and "m = 0 \<or> page_of s g x + 256 * (m - 1) < fin"
  shows "\<exists>s'. del_blocks (page_of s g x) fin 8 s = Some s' \<and> seg_inv s' g \<and> vm_frame g s s' \<and> seg_free s' g = seg_free s g - {x ..< x + 256 * m}"
  using assms
proof (induction m arbitrary: x s)
  case 0
  then show ?case using vm_frame_refl [of g s] by (subst del_blocks.simps) simp
next
  case (Suc m)
  have rep: "seg_rep s g" and ok: "buddy_ok (seg_lo s g) (seg_hi s g) (seg_ord s g)" using Suc.prems(1) by (simp_all add: seg_inv_def)
  have x: "seg_ord s g x = 8" "seg_ord s g x < 9" using Suc.prems(2) by (metis add_0_right mult_0_right zero_less_Suc, metis add_0_right mult_0_right zero_less_Suc less_add_one numeral_plus_one semiring_norm(5))
  note inx = seg_ord_in_seg [OF x(2)]
  from FreeListDel_rep [OF rep inx x(2)] obtain s1 where s1: "OsVmPhysFreeListDelUnsafe (page_of s g x) s = Some s1" "seg_rep s1 g"
    "seg_ord s1 g = (seg_ord s g)(x := 9)" "vm_frame g s s1" by blast
  note same = vm_frame_seg [OF s1(4)]
  note rem = buddy_remove [OF ok x(2), unfolded x(1)]
  have inv1: "seg_inv s1 g" by (rule seg_inv_frame [OF s1(2,4)]) (simp add: s1(3) rem(1))
  have nxt: "page_of s g x + VM_ORDER_TO_PAGES 8 = page_of s1 g (x + 256)" using page_of_add [OF inx] same(3) by (simp add: VM_ORDER_TO_PAGES_def)
  have "page_of s g x < fin" using Suc.prems(5) by simp
  then have run: "del_blocks (page_of s g x) fin 8 s = del_blocks (page_of s1 g (x + 256)) fin 8 s1"
    using s1(1) by (subst del_blocks.simps) (simp add: nxt)
  have ords: "\<forall>i < m. seg_ord s1 g (x + 256 + 256 * i) = 8"
    unfolding s1(3) using Suc.prems(2) by (auto simp: algebra_simps dest: spec [of _ "Suc _"])
  have p: "page_of s1 g (x + 256) = page_of s g x + 256" using nxt by (simp add: VM_ORDER_TO_PAGES_def)
  have fin: "fin \<le> page_of s1 g (x + 256) + 256 * m" using Suc.prems(4) unfolding p by simp
  have last: "m = 0 \<or> page_of s1 g (x + 256) + 256 * (m - 1) < fin" using Suc.prems(5) unfolding p by (cases m) simp_all
  have lo: "seg_lo s1 g \<le> x + 256" using Suc.prems(3) same(1) by simp
  from Suc.IH [OF inv1 ords lo fin last] obtain s' where s': "del_blocks (page_of s1 g (x + 256)) fin 8 s1 = Some s'" "seg_inv s' g" "vm_frame g s1 s'"
    "seg_free s' g = seg_free s1 g - {x + 256 ..< x + 256 + 256 * m}" by blast
  have "seg_free s1 g = seg_free s g - {x ..< x + 256}" using rem(2) by (simp add: seg_free_def s1(3) blk_def)
  moreover have "{x ..< x + 256 * Suc m} = {x ..< x + 256} \<union> {x + 256 ..< x + 256 + 256 * m}" by auto
  ultimately have "seg_free s' g = seg_free s g - {x ..< x + 256 * Suc m}" unfolding s'(4) by blast
  with s' run vm_frame_trans [OF s1(4) s'(3)] show ?case by auto
qed

lemma large_search_spec:
  assumes inv: "seg_inv s g" and fits: "seg_hi s g + unat n \<le> 2 ^ 20" and n: "n \<noteq> 0"
    and pages: "\<forall>p \<in> set ps. \<exists>f. p = page_of s g f \<and> seg_ord s g f = 8"
  shows "\<exists>r. large_search (g_vmPhysSeg s g) (push_bit 12 n) ps s = Some r \<and>
    (case r of None \<Rightarrow> True | Some p \<Rightarrow> \<exists>f. p = page_of s g f \<and> f + unat n \<le> seg_hi s g \<and> (\<forall>i. 256 * i < unat n \<longrightarrow> seg_ord s g (f + 256 * i) = 8))"
  using pages
proof (induction ps)
  case (Cons p ps)
  obtain f where f: "p = page_of s g f" "seg_ord s g f = 8" using Cons.prems by auto
  have lay: "seg_layout s g" and inf: "in_seg s g f" using inv f(2) seg_ord_in_seg [of s g f] by (simp_all add: seg_inv_def seg_rep_def)
  have f20: "f < 2 ^ 20" "f + unat n < 2 ^ 20" "seg_hi s g < 2 ^ 20" using inf fits seg_layoutD(4) [OF lay] by (simp_all add: in_seg_def)
  have pa: "physAddr (page_at s p) = frame_addr f" using seg_layoutD(5) [OF lay inf] f(1) by simp
  have len: "push_bit 12 n = frame_addr (unat n)" by (simp add: frame_addr_def push_bit_eq_mult)
  have fin: "frame_addr f + push_bit 12 n = frame_addr (f + unat n)" unfolding len by (simp add: frame_addr_def algebra_simps)
  have gt: "frame_addr (f + unat n) > segStart (g_vmPhysSeg s g) + segSize (g_vmPhysSeg s g) \<longleftrightarrow> seg_hi s g < f + unat n"
    unfolding word_less_nat_alt unat_frame_addr [OF f20(2)] seg_layoutD(3) [OF lay] by (simp only: mult_less_cancel1) simp
  show ?case
  proof (cases "seg_hi s g < f + unat n")
    case True
    with Cons gt show ?thesis by (simp add: Let_def pa fin)
  next
    case False
    have "f < f + unat n" "f + unat n \<le> seg_hi s g" using n False by (simp_all add: unat_gt_0)
    from large_scan_spec [OF inv this(2) f(2) this(1)] obtain y m where y: "large_scan (g_vmPhysSeg s g) (frame_addr (f + unat n)) (frame_addr f) s = Some (frame_addr y)"
      "y < 2 ^ 20" "y = f + 256 * m" "\<forall>i < m. seg_ord s g (f + 256 * i) = 8" by blast
    show ?thesis
    proof (cases "f + unat n \<le> y")
      case True
      then have "\<forall>i. 256 * i < unat n \<longrightarrow> seg_ord s g (f + 256 * i) = 8" using y(3,4) by auto
      with True False gt y(1) frame_addr_le [OF f20(2) y(2)] f(1) pa show ?thesis by (auto simp: Let_def fin)
    next
      case no: False
      with Cons False gt y(1) frame_addr_le [OF f20(2) y(2)] show ?thesis by (simp add: Let_def pa fin)
    qed
  qed
qed simp

lemma alloc_large:
  assumes inv: "seg_inv s g" and n: "n \<noteq> 0" and f: "f + unat n \<le> seg_hi s g" "\<forall>i. 256 * i < unat n \<longrightarrow> seg_ord s g (f + 256 * i) = 8" and k: "9 \<le> k"
  shows "\<exists>s1 s2 s3. del_blocks (page_of s g f) (page_of s g f + unat n) 8 s = Some s1 \<and> OsVmPhysPagesSpiltUnsafe (page_of s g f) k 8 s1 = Some s2 \<and>
    OsVmRecycleExtraPages (page_of s g f + unat n) n (ROUNDUP n (of_nat (VM_ORDER_TO_PAGES (min k 8)))) s2 = Some s3 \<and>
    seg_inv s3 g \<and> vm_frame g s s3 \<and> {f ..< f + unat n} \<subseteq> seg_free s g \<and> seg_free s3 g = seg_free s g - {f ..< f + unat n}"
proof -
  define m where "m = (unat n + 255) div 256"
  have n0: "0 < unat n" using n by (simp add: unat_gt_0)
  have m: "unat n \<le> 256 * m" "256 * (m - 1) < unat n" "0 < m" using n0 by (auto simp: m_def)
  have ok: "buddy_ok (seg_lo s g) (seg_hi s g) (seg_ord s g)" and lay: "seg_layout s g" using inv by (simp_all add: seg_inv_def seg_rep_def)
  have ords: "\<forall>i < m. seg_ord s g (f + 256 * i) = 8"
  proof (intro allI impI)
    fix i assume "i < m"
    then have "256 * i \<le> 256 * (m - 1)" by simp
    with m(2) have "256 * i < unat n" by linarith
    with f(2) show "seg_ord s g (f + 256 * i) = 8" by blast
  qed
  have blocks: "f + 256 * i + 256 \<le> seg_hi s g" "seg_lo s g \<le> f + 256 * i" if "i < m" for i
    using buddy_okD(1,2) [OF ok, of "f + 256 * i"] ords that by auto
  have lo: "seg_lo s g \<le> f" using blocks(2) [OF m(3)] by simp
  have hi: "f + 256 * m \<le> seg_hi s g" using blocks(1) [of "m - 1"] m(3) by (cases m) simp_all
  have in_free: "{f ..< f + 256 * m} \<subseteq> seg_free s g"
  proof
    fix x assume "x \<in> {f ..< f + 256 * m}"
    then have x: "f \<le> x" "(x - f) div 256 < m" by auto
    let ?b = "f + 256 * ((x - f) div 256)"
    have "?b \<le> x" "x < ?b + 256" using x(1) div_times_less_eq_dividend [of "x - f" 256] dividend_less_div_times [of 256 "x - f"] by linarith+
    then have "x \<in> blk ?b 8" by (simp add: blk_def)
    with ords x(2) free_framesI [of "seg_ord s g" ?b x] show "x \<in> seg_free s g" by (simp add: seg_free_def)
  qed
  from del_blocks_inv [OF inv ords lo, of "page_of s g f + unat n"] m obtain s1 where s1: "del_blocks (page_of s g f) (page_of s g f + unat n) 8 s = Some s1"
    "seg_inv s1 g" "vm_frame g s s1" "seg_free s1 g = seg_free s g - {f ..< f + 256 * m}" by auto
  note same = vm_frame_seg [OF s1(3)]
  have split: "OsVmPhysPagesSpiltUnsafe (page_of s g f) k 8 s1 = Some s1" using k by (simp add: numeral_eq_Suc)
  have n20: "unat n < 2 ^ 20" using f(1) seg_layoutD(4) [OF lay] by simp
  have up: "unat (ROUNDUP n (of_nat (VM_ORDER_TO_PAGES (min k 8)))) = 256 * m"
    using ROUNDUP_pow2 [of 8 n] n20 k by (simp add: VM_ORDER_TO_PAGES_def min_absorb2 m_def)
  have "{f + unat n ..< f + 256 * m} \<inter> seg_free s1 g = {}" unfolding s1(4) by auto
  with Recycle_inv [OF s1(2) up m(1), of f] lo hi obtain s3 where s3: "OsVmRecycleExtraPages (page_of s g f + unat n) n (ROUNDUP n (of_nat (VM_ORDER_TO_PAGES (min k 8)))) s1 = Some s3"
    "seg_inv s3 g" "vm_frame g s1 s3" "seg_free s3 g = seg_free s1 g \<union> {f + unat n ..< f + 256 * m}" unfolding same by auto
  have "seg_free s3 g = seg_free s g - {f ..< f + unat n}" unfolding s3(4) s1(4) using in_free m(1) by auto
  moreover have "{f ..< f + unat n} \<subseteq> seg_free s g" using in_free m(1) by auto
  ultimately show ?thesis using s1(1) split s3(1,2) vm_frame_trans [OF s1(3) s3(3)] by blast
qed

section \<open>One segment\<close>

text \<open>The order of a request below the largest blocks: the request fits a block of that order and no smaller one.\<close>

lemma first_order_spec:
  assumes inv: "seg_inv s g" and k: "k < 9"
  shows "case first_order (g_vmPhysSeg s g) [k ..< 9] of
      None \<Rightarrow> \<forall>f. 2 ^ k dvd f \<longrightarrow> \<not> blk f k \<subseteq> seg_free s g
    | Some (p, j) \<Rightarrow> k \<le> j \<and> j < 9 \<and> (\<exists>f. p = page_of s g f \<and> seg_ord s g f = j)"
proof (cases "first_order (g_vmPhysSeg s g) [k ..< 9]")
  case None
  have rep: "seg_rep s g" and ok: "buddy_ok (seg_lo s g) (seg_hi s g) (seg_ord s g)" using inv by (simp_all add: seg_inv_def)
  have "\<not> blk f k \<subseteq> seg_free s g" if al: "2 ^ k dvd f" for f
  proof
    assume "blk f k \<subseteq> seg_free s g"
    from free_run_in_block [OF ok k al this [unfolded seg_free_def]] obtain h where h: "k \<le> seg_ord s g h" "seg_ord s g h < 9" by blast
    then have "page_of s g h \<in> set (freeNode (g_vmPhysSeg s g) (seg_ord s g h))" using seg_repD(2) [OF rep h(2)] seg_ord_in_seg [OF h(2)] by blast
    moreover have "freeNode (g_vmPhysSeg s g) (seg_ord s g h) = []" using None h by (simp add: first_order_None)
    ultimately show False by simp
  qed
  with None show ?thesis by simp
next
  case (Some r)
  obtain p j where r: "r = (p, j)" by (cases r)
  from first_order_Some [OF Some [unfolded r]] have j: "k \<le> j" "j < 9" "p \<in> set (freeNode (g_vmPhysSeg s g) j)" by auto
  moreover have "seg_rep s g" using inv by (simp add: seg_inv_def)
  ultimately show ?thesis using seg_repD(2) [of s g j p] Some r by auto
qed

lemma LargeAlloc_spec:
  assumes inv: "seg_inv s g" and fits: "seg_hi s g + unat n \<le> 2 ^ 20" and n: "n \<noteq> 0"
  shows "\<exists>r. OsVmPhysLargeAlloc (g_vmPhysSeg s g) n s = Some r \<and>
    (case r of None \<Rightarrow> True | Some p \<Rightarrow> \<exists>f. p = page_of s g f \<and> f + unat n \<le> seg_hi s g \<and> (\<forall>i. 256 * i < unat n \<longrightarrow> seg_ord s g (f + 256 * i) = 8))"
proof -
  have "\<forall>p \<in> set (freeNode (g_vmPhysSeg s g) 8). \<exists>f. p = page_of s g f \<and> seg_ord s g f = 8"
    using seg_repD(2) [of s g 8] inv by (auto simp: seg_inv_def)
  from large_search_spec [OF inv fits n this] show ?thesis by (simp add: OsVmPhysLargeAlloc_def)
qed

text \<open>A request to one segment: the run it takes was free and nothing else changes; a small request is refused only when no aligned
  block of its order is free.\<close>

lemma PagesAlloc_inv:
  assumes inv: "seg_inv s g" and fits: "seg_hi s g + unat n \<le> 2 ^ 20" and n: "n \<noteq> 0"
  shows "\<exists>s' r. OsVmPhysPagesAlloc g n s = Some (s', r) \<and> seg_inv s' g \<and> vm_frame g s s' \<and>
    (case r of
       None \<Rightarrow> s' = s \<and> (\<forall>k f. k < 9 \<and> unat n \<le> 2 ^ k \<and> 2 ^ k dvd f \<longrightarrow> \<not> blk f k \<subseteq> seg_free s g)
     | Some p \<Rightarrow> \<exists>f. p = page_of s g f \<and> in_seg s g f \<and> f + unat n \<le> seg_hi s g \<and> {f ..< f + unat n} \<subseteq> seg_free s g \<and> seg_free s' g = seg_free s g - {f ..< f + unat n})"
proof -
  have n31: "unat n \<le> 2 ^ 31" using fits by simp
  from PagesToOrder_spec [OF n31] obtain k where k: "OsVmPagesToOrder n = Some k" "k < 32" "unat n \<le> 2 ^ k" "k = 0 \<or> 2 ^ (k - 1) < unat n" by blast
  show ?thesis
  proof (cases "k < 9")
    case True
    note spec = first_order_spec [OF inv True]
    show ?thesis
    proof (cases "first_order (g_vmPhysSeg s g) [k ..< 9]")
      case None
      have "\<not> blk f j \<subseteq> seg_free s g" if "j < 9" "unat n \<le> 2 ^ j" "2 ^ j dvd f" for j f
      proof -
        have "k \<le> j"
        proof (rule ccontr)
          assume "\<not> k \<le> j"
          then have "j \<le> k - 1" "k \<noteq> 0" by simp_all
          then have "(2 :: nat) ^ j \<le> 2 ^ (k - 1)" by simp
          with k(4) \<open>k \<noteq> 0\<close> that(2) show False by linarith
        qed
        then have "blk f k \<subseteq> blk f j" "2 ^ k dvd f" using that(3) by (auto simp: blk_def power_increasing order.strict_trans2 intro: dvd_trans [OF le_imp_power_dvd])
        with spec None show ?thesis by auto
      qed
      with None True k(1) inv vm_frame_refl [of g s] show ?thesis by (simp add: OsVmPhysPagesAlloc_def)
    next
      case (Some r)
      with spec obtain j f where r: "r = (page_of s g f, j)" "k \<le> j" "j < 9" "seg_ord s g f = j" by auto
      from alloc_split [OF inv r(4,3,2) k(3,4) n] obtain s1 s2 s3 where s: "del_blocks (page_of s g f) (page_of s g f + unat n) j s = Some s1"
        "OsVmPhysPagesSpiltUnsafe (page_of s g f) k j s1 = Some s2" "OsVmRecycleExtraPages (page_of s g f + unat n) n (ROUNDUP n (of_nat (VM_ORDER_TO_PAGES (min k j)))) s2 = Some s3"
        "seg_inv s3 g" "vm_frame g s s3" "{f ..< f + unat n} \<subseteq> seg_free s g" "seg_free s3 g = seg_free s g - {f ..< f + unat n}" by blast
      have "in_seg s g f" using r seg_ord_in_seg [of s g f] by simp
      moreover have "f + unat n \<le> seg_hi s g"
      proof -
        have "(2 :: nat) ^ k \<le> 2 ^ j" using r(2) by simp
        moreover have "f + 2 ^ j \<le> seg_hi s g" using buddy_okD(2) [of "seg_lo s g" "seg_hi s g" "seg_ord s g" f] inv r(3,4) by (simp add: seg_inv_def)
        ultimately show ?thesis using k(3) by linarith
      qed
      ultimately show ?thesis using Some True k(1) r(1) s by (auto simp: OsVmPhysPagesAlloc_def)
    qed
  next
    case False
    then have "(2 :: nat) ^ 8 \<le> 2 ^ (k - 1)" by (intro power_increasing) simp_all
    then have big: "256 < unat n" using k(4) False by auto
    have none: "\<not> (j < 9 \<and> unat n \<le> 2 ^ j)" for j
    proof
      assume "j < 9 \<and> unat n \<le> 2 ^ j"
      moreover from this have "(2 :: nat) ^ j \<le> 2 ^ 8" by (intro power_increasing) simp_all
      ultimately show False using big by simp
    qed
    from LargeAlloc_spec [OF inv fits n] obtain r where r: "OsVmPhysLargeAlloc (g_vmPhysSeg s g) n s = Some r"
      "case r of None \<Rightarrow> True | Some p \<Rightarrow> \<exists>f. p = page_of s g f \<and> f + unat n \<le> seg_hi s g \<and> (\<forall>i. 256 * i < unat n \<longrightarrow> seg_ord s g (f + 256 * i) = 8)" by blast
    show ?thesis
    proof (cases r)
      case None
      with r(1) False k(1) inv vm_frame_refl [of g s] none show ?thesis by (auto simp: OsVmPhysPagesAlloc_def)
    next
      case (Some p)
      with r(2) obtain f where f: "p = page_of s g f" "f + unat n \<le> seg_hi s g" "\<forall>i. 256 * i < unat n \<longrightarrow> seg_ord s g (f + 256 * i) = 8" by auto
      have "seg_ord s g f = 8" using f(3) big by (metis add_0_right mult_0_right gr_zeroI not_less_zero)
      then have "in_seg s g f" using seg_ord_in_seg [of s g f] by simp
      moreover have "9 \<le> k" using False by simp
      from alloc_large [OF inv n f(2,3) this] obtain s1 s2 s3 where s: "del_blocks (page_of s g f) (page_of s g f + unat n) 8 s = Some s1"
        "OsVmPhysPagesSpiltUnsafe (page_of s g f) k 8 s1 = Some s2" "OsVmRecycleExtraPages (page_of s g f + unat n) n (ROUNDUP n (of_nat (VM_ORDER_TO_PAGES (min k 8)))) s2 = Some s3"
        "seg_inv s3 g" "vm_frame g s s3" "{f ..< f + unat n} \<subseteq> seg_free s g" "seg_free s3 g = seg_free s g - {f ..< f + unat n}" by blast
      ultimately show ?thesis using Some False k(1) r(1) f(1,2) by (auto simp: OsVmPhysPagesAlloc_def)
    qed
  qed
qed

end
