(* ===== verification/LosRuns.thy ===== *)
theory LosRuns
  imports Main
begin

text \<open>
  The interface of an allocator of runs of frames: what its clients may rely on, for every sequence of requests and
  releases. \<open>avail\<close> are the free frames, \<open>whole\<close> all frames, \<open>fits s f n\<close> says that the run of \<open>n\<close> frames from \<open>f\<close> lies in one
  region, and \<open>small s n\<close> that \<open>n\<close> is a request the allocator can compute with.
\<close>

text \<open>A history of requests with the runs that are in use.\<close>

inductive alloc_history :: "(nat \<Rightarrow> 's \<Rightarrow> ('s \<times> nat option) option) \<Rightarrow> (nat \<Rightarrow> nat \<Rightarrow> 's \<Rightarrow> 's option) \<Rightarrow> ('s \<Rightarrow> nat \<Rightarrow> bool) \<Rightarrow> 's \<Rightarrow> 's \<Rightarrow> (nat \<times> nat) list \<Rightarrow> bool"
  for alloc release small s0 where
  start: "alloc_history alloc release small s0 s0 []"
| granted: "alloc_history alloc release small s0 s used \<Longrightarrow> 0 < n \<Longrightarrow> small s n \<Longrightarrow> alloc n s = Some (s', Some f) \<Longrightarrow>
    alloc_history alloc release small s0 s' ((f, n) # used)"
| refused: "alloc_history alloc release small s0 s used \<Longrightarrow> 0 < n \<Longrightarrow> small s n \<Longrightarrow> alloc n s = Some (s', None) \<Longrightarrow>
    alloc_history alloc release small s0 s' used"
| returned: "alloc_history alloc release small s0 s used \<Longrightarrow> (f, n) \<in> set used \<Longrightarrow> release f n s = Some s' \<Longrightarrow>
    alloc_history alloc release small s0 s' (remove1 (f, n) used)"

definition run_set :: "nat \<times> nat \<Rightarrow> nat set" where
  "run_set r = {fst r ..< fst r + snd r}"

definition runs_apart :: "(nat \<times> nat) list \<Rightarrow> bool" where
  "runs_apart used \<longleftrightarrow> (\<forall>r \<in> set used. 0 < snd r) \<and> distinct used \<and> (\<forall>r \<in> set used. \<forall>r' \<in> set used. r \<noteq> r' \<longrightarrow> run_set r \<inter> run_set r' = {})"

lemma runs_apart_Cons:
  "runs_apart used \<Longrightarrow> 0 < snd r \<Longrightarrow> \<forall>r' \<in> set used. run_set r \<inter> run_set r' = {} \<Longrightarrow> runs_apart (r # used)"
  unfolding runs_apart_def by (auto simp: run_set_def Int_commute)

lemma runs_apart_remove1: "runs_apart used \<Longrightarrow> runs_apart (remove1 r used)"
  unfolding runs_apart_def using set_remove1_subset [of r used] by (intro conjI) (blast, simp add: distinct_remove1, blast)

locale run_allocator =
  fixes alloc :: "nat \<Rightarrow> 's \<Rightarrow> ('s \<times> nat option) option"
    and release :: "nat \<Rightarrow> nat \<Rightarrow> 's \<Rightarrow> 's option"
    and small :: "'s \<Rightarrow> nat \<Rightarrow> bool"
    and ok :: "'s \<Rightarrow> bool"
    and avail :: "'s \<Rightarrow> nat set"
    and whole :: "'s \<Rightarrow> nat set"
    and fits :: "'s \<Rightarrow> nat \<Rightarrow> nat \<Rightarrow> bool"
  assumes alloc_law: "ok s \<Longrightarrow> 0 < n \<Longrightarrow> small s n \<Longrightarrow> \<exists>s' r. alloc n s = Some (s', r) \<and> ok s' \<and> whole s' = whole s \<and> fits s' = fits s \<and>
      (case r of None \<Rightarrow> avail s' = avail s | Some f \<Rightarrow> fits s f n \<and> {f ..< f + n} \<subseteq> avail s \<and> avail s' = avail s - {f ..< f + n})"
    and release_law: "ok s \<Longrightarrow> 0 < n \<Longrightarrow> fits s f n \<Longrightarrow> {f ..< f + n} \<inter> avail s = {} \<Longrightarrow>
      \<exists>s'. release f n s = Some s' \<and> ok s' \<and> whole s' = whole s \<and> fits s' = fits s \<and> avail s' = avail s \<union> {f ..< f + n}"
    and avail_whole: "ok s \<Longrightarrow> avail s \<subseteq> whole s"
begin

lemma history_sound:
  assumes "alloc_history alloc release small s0 s used" and "ok s0" and "avail s0 = whole s0"
  shows "ok s \<and> whole s = whole s0 \<and> fits s = fits s0 \<and> runs_apart used \<and> (\<forall>r \<in> set used. fits s0 (fst r) (snd r)) \<and>
    (\<forall>r \<in> set used. run_set r \<subseteq> whole s0) \<and> avail s = whole s0 - (\<Union>r \<in> set used. run_set r)"
  using assms(1)
proof (induction rule: alloc_history.induct)
  case start
  then show ?case using assms(2,3) by (simp add: runs_apart_def)
next
  case (granted s used n s' f)
  from alloc_law [of s n] granted have s': "ok s'" "whole s' = whole s" "fits s' = fits s" "fits s f n" "{f ..< f + n} \<subseteq> avail s" "avail s' = avail s - {f ..< f + n}"
    by auto
  let ?r = "(f, n)"
  have r: "run_set ?r \<subseteq> avail s" "avail s' = avail s - run_set ?r" using s'(5,6) by (simp_all add: run_set_def)
  have av: "avail s = whole s0 - (\<Union>r \<in> set used. run_set r)" using granted.IH by blast
  have "\<forall>r' \<in> set used. run_set ?r \<inter> run_set r' = {}" "run_set ?r \<subseteq> whole s0" using r(1) unfolding av by blast+
  moreover have "avail s' = whole s0 - (\<Union>r \<in> set (?r # used). run_set r)" unfolding r(2) av by auto
  ultimately show ?case using granted.IH granted.hyps(2) s' runs_apart_Cons [of used "(f, n)"] by simp
next
  case (refused s used n s')
  from alloc_law [of s n] refused show ?case by auto
next
  case (returned s used f n s')
  have r: "0 < n" "fits s f n" using returned by (auto simp: runs_apart_def)
  have "run_set (f, n) \<inter> avail s = {}" using returned by auto
  with release_law [of s n f] r returned.IH returned.hyps(3) have s': "ok s'" "whole s' = whole s" "fits s' = fits s" "avail s' = avail s \<union> run_set (f, n)"
    by (auto simp: run_set_def)
  have set: "set (remove1 (f, n) used) = set used - {(f, n)}" using returned.IH by (simp add: runs_apart_def set_remove1_eq)
  have "run_set (f, n) \<inter> (\<Union>r \<in> set used - {(f, n)}. run_set r) = {}" using returned.IH returned.hyps(2) unfolding runs_apart_def by blast
  then have "avail s' = whole s0 - (\<Union>r \<in> set (remove1 (f, n) used). run_set r)" unfolding s'(4) set using returned.IH returned.hyps(2) by blast
  with s' returned.IH runs_apart_remove1 [of used "(f, n)"] set show ?case by simp
qed

end

end
