(* ===== verification/LosVmPhysAll.thy ===== *)
theory LosVmPhysAll
  imports LosVmPhysAlloc LosRuns "HOL-Library.Multiset"
begin

text \<open>
  The physical page allocator over all segments: its invariant, the calls of the kernel's interface as an allocator of runs
  of frames, and its properties.
\<close>

section \<open>All segments\<close>

text \<open>Two states agree on a segment: its lists and what the page structures of its frames say.\<close>

definition seg_same :: "nat \<Rightarrow> vm_phys \<Rightarrow> vm_phys \<Rightarrow> bool" where
  "seg_same g s s' \<longleftrightarrow> g_vmPhysSeg s' g = g_vmPhysSeg s g \<and>
    (\<forall>f. in_seg s g f \<longrightarrow> physAddr (page_at s' (page_of s g f)) = physAddr (page_at s (page_of s g f)) \<and>
      segID (page_at s' (page_of s g f)) = segID (page_at s (page_of s g f)) \<and> pgOrder (page_at s' (page_of s g f)) = pgOrder (page_at s (page_of s g f)))"

lemma seg_same_range: "seg_same g s s' \<Longrightarrow> seg_lo s' g = seg_lo s g \<and> seg_hi s' g = seg_hi s g \<and> page_of s' g = page_of s g \<and> in_seg s' g = in_seg s g"
  by (simp add: seg_same_def seg_lo_def seg_hi_def page_of_def in_seg_def fun_eq_iff)

lemma seg_same_inv:
  assumes same: "seg_same g s s'"
  shows "seg_inv s' g \<longleftrightarrow> seg_inv s g" and "seg_free s' g = seg_free s g"
proof -
  note r = seg_same_range [OF same]
  have ord: "seg_ord s' g = seg_ord s g" using same r by (auto simp: seg_same_def seg_ord_def)
  have "seg_layout s' g = seg_layout s g" unfolding seg_layout_def using same r by (auto simp: seg_same_def)
  then show "seg_inv s' g \<longleftrightarrow> seg_inv s g" using same r ord by (simp add: seg_inv_def seg_rep_def seg_same_def)
  show "seg_free s' g = seg_free s g" by (simp add: seg_free_def ord)
qed

text \<open>The page structures and the frames of two segments are apart, and the kernel address of a frame is not 0.\<close>

definition segs_apart :: "vm_phys \<Rightarrow> bool" where
  "segs_apart s \<longleftrightarrow> (\<forall>g < g_vmPhysSegNum s. \<forall>h < g_vmPhysSegNum s. g \<noteq> h \<longrightarrow>
    (\<forall>f f'. in_seg s g f \<and> in_seg s h f' \<longrightarrow> f \<noteq> f' \<and> page_of s g f \<noteq> page_of s h f'))"

definition kernel_addr :: "vm_phys \<Rightarrow> nat \<Rightarrow> u32" where
  "kernel_addr s f = KERNEL_ASPACE_BASE s + frame_addr f - SYS_MEM_BASE s"

definition vm_whole :: "vm_phys \<Rightarrow> nat set" where
  "vm_whole s = (\<Union>g < g_vmPhysSegNum s. {f. in_seg s g f})"

definition vm_free :: "vm_phys \<Rightarrow> nat set" where
  "vm_free s = (\<Union>g < g_vmPhysSegNum s. seg_free s g)"

definition vm_inv :: "vm_phys \<Rightarrow> bool" where
  "vm_inv s \<longleftrightarrow> (\<forall>g < g_vmPhysSegNum s. seg_inv s g) \<and> segs_apart s \<and> (\<forall>f \<in> vm_whole s. f \<noteq> 0 \<and> kernel_addr s f \<noteq> 0)"

definition vm_fits :: "vm_phys \<Rightarrow> nat \<Rightarrow> nat \<Rightarrow> bool" where
  "vm_fits s f n \<longleftrightarrow> (\<exists>g < g_vmPhysSegNum s. seg_lo s g \<le> f \<and> f + n \<le> seg_hi s g)"

definition vm_small :: "vm_phys \<Rightarrow> nat \<Rightarrow> bool" where
  "vm_small s n \<longleftrightarrow> n \<le> 2 ^ 20 \<and> (\<forall>g < g_vmPhysSegNum s. seg_hi s g + n \<le> 2 ^ 20)"

text \<open>The segments are where they were.\<close>

definition vm_shape :: "vm_phys \<Rightarrow> vm_phys \<Rightarrow> bool" where
  "vm_shape s s' \<longleftrightarrow> g_vmPhysSegNum s' = g_vmPhysSegNum s \<and> SYS_MEM_BASE s' = SYS_MEM_BASE s \<and> KERNEL_ASPACE_BASE s' = KERNEL_ASPACE_BASE s \<and>
    (\<forall>g. segStart (g_vmPhysSeg s' g) = segStart (g_vmPhysSeg s g) \<and> segSize (g_vmPhysSeg s' g) = segSize (g_vmPhysSeg s g) \<and>
      pageBase (g_vmPhysSeg s' g) = pageBase (g_vmPhysSeg s g))"

lemma vm_shapeD:
  assumes "vm_shape s s'"
  shows "seg_lo s' = seg_lo s" "seg_hi s' = seg_hi s" "page_of s' = page_of s" "in_seg s' = in_seg s" "vm_whole s' = vm_whole s"
    "vm_fits s' = vm_fits s" "vm_small s' = vm_small s" "kernel_addr s' = kernel_addr s" "segs_apart s' = segs_apart s"
    "g_vmPhysSegNum s' = g_vmPhysSegNum s"
proof -
  show r: "seg_lo s' = seg_lo s" "seg_hi s' = seg_hi s" "page_of s' = page_of s" "in_seg s' = in_seg s" "kernel_addr s' = kernel_addr s"
    using assms by (simp_all add: vm_shape_def seg_lo_def seg_hi_def page_of_def in_seg_def kernel_addr_def fun_eq_iff)
  show "g_vmPhysSegNum s' = g_vmPhysSegNum s" using assms by (simp add: vm_shape_def)
  show "vm_whole s' = vm_whole s" "vm_fits s' = vm_fits s" "vm_small s' = vm_small s" "segs_apart s' = segs_apart s"
    using assms by (simp_all add: vm_shape_def vm_whole_def vm_fits_def vm_small_def segs_apart_def r fun_eq_iff)
qed

lemma vm_shape_refl: "vm_shape s s"
  by (simp add: vm_shape_def)

lemma vm_shape_trans: "vm_shape s s1 \<Longrightarrow> vm_shape s1 s2 \<Longrightarrow> vm_shape s s2"
  by (simp add: vm_shape_def)

lemma vm_frame_shape: "vm_frame g s s' \<Longrightarrow> vm_shape s s'"
  unfolding vm_frame_def vm_shape_def by metis

lemma vm_invD:
  assumes "vm_inv s" and "g < g_vmPhysSegNum s"
  shows "seg_inv s g" and "h < g_vmPhysSegNum s \<Longrightarrow> g \<noteq> h \<Longrightarrow> in_seg s g f \<Longrightarrow> \<not> in_seg s h f"
    and "h < g_vmPhysSegNum s \<Longrightarrow> g \<noteq> h \<Longrightarrow> in_seg s g f \<Longrightarrow> in_seg s h f' \<Longrightarrow> page_of s g f \<noteq> page_of s h f'"
  using assms by (simp add: vm_inv_def) (use assms in \<open>unfold vm_inv_def segs_apart_def, blast\<close>)+

text \<open>An operation on one segment keeps the invariant of all, and the frames of the others stay as they are.\<close>

lemma vm_step:
  assumes inv: "vm_inv s" and g: "g < g_vmPhysSegNum s" and frame: "vm_frame g s s'" and new: "seg_inv s' g"
  shows "vm_inv s'" and "vm_shape s s'" and "h < g_vmPhysSegNum s \<Longrightarrow> h \<noteq> g \<Longrightarrow> seg_free s' h = seg_free s h"
proof -
  show shape: "vm_shape s s'" by (rule vm_frame_shape [OF frame])
  have same: "seg_same h s s'" if "h < g_vmPhysSegNum s" "h \<noteq> g" for h
  proof -
    have "page_of s h f \<notin> page_of s g ` {f. in_seg s g f}" if "in_seg s h f" for f
      using vm_invD(3) [OF inv \<open>h < g_vmPhysSegNum s\<close> g \<open>h \<noteq> g\<close> that] by blast
    then have "page_at s' (page_of s h f) = page_at s (page_of s h f)" if "in_seg s h f" for f using frame that by (simp add: vm_frame_def)
    with frame \<open>h \<noteq> g\<close> show ?thesis by (simp add: seg_same_def vm_frame_def)
  qed
  show "seg_free s' h = seg_free s h" if "h < g_vmPhysSegNum s" "h \<noteq> g" using seg_same_inv(2) [OF same [OF that]] .
  have "seg_inv s' h" if "h < g_vmPhysSegNum s" for h
    using new seg_same_inv(1) [OF same [OF that]] inv that by (cases "h = g") (simp_all add: vm_inv_def)
  then show "vm_inv s'" using inv by (simp add: vm_inv_def vm_shapeD [OF shape])
qed

lemma seg_free_in: "seg_inv s g \<Longrightarrow> x \<in> seg_free s g \<Longrightarrow> in_seg s g x"
  using free_frames_range [of "seg_lo s g" "seg_hi s g" "seg_ord s g" x] by (simp add: seg_inv_def seg_free_def in_seg_def)

lemma seg_free_apart: "vm_inv s \<Longrightarrow> g < g_vmPhysSegNum s \<Longrightarrow> h < g_vmPhysSegNum s \<Longrightarrow> g \<noteq> h \<Longrightarrow> x \<in> seg_free s g \<Longrightarrow> \<not> in_seg s h x"
  using seg_free_in [OF vm_invD(1), of s g x] vm_invD(2) [of s g h x] by blast

lemma vm_free_split:
  assumes "vm_inv s" and "g < g_vmPhysSegNum s" and "A \<subseteq> {f. in_seg s g f}"
  shows "A \<inter> vm_free s = A \<inter> seg_free s g"
  using assms seg_free_apart [OF assms(1) _ assms(2)] unfolding vm_free_def by blast

lemma vm_free_upd:
  assumes inv: "vm_inv s" and g: "g < g_vmPhysSegNum s" and frame: "vm_frame g s s'" "seg_inv s' g"
  shows "A \<subseteq> {f. in_seg s g f} \<Longrightarrow> seg_free s' g = seg_free s g - A \<Longrightarrow> vm_free s' = vm_free s - A"
    and "seg_free s' g = seg_free s g \<union> A \<Longrightarrow> vm_free s' = vm_free s \<union> A"
proof -
  note others = vm_step(3) [OF inv g frame]
  have num: "g_vmPhysSegNum s' = g_vmPhysSegNum s" using frame(1) by (simp add: vm_frame_def)
  have split: "(\<Union>h < g_vmPhysSegNum s. F h) = F g \<union> (\<Union>h \<in> {..< g_vmPhysSegNum s} - {g}. F h)" for F :: "nat \<Rightarrow> nat set" using g by blast
  have rest: "(\<Union>h \<in> {..< g_vmPhysSegNum s} - {g}. seg_free s' h) = (\<Union>h \<in> {..< g_vmPhysSegNum s} - {g}. seg_free s h)" using others by simp
  show "vm_free s' = vm_free s - A" if A: "A \<subseteq> {f. in_seg s g f}" "seg_free s' g = seg_free s g - A"
  proof -
    have "A \<inter> (\<Union>h \<in> {..< g_vmPhysSegNum s} - {g}. seg_free s h) = {}" using A(1) seg_free_apart [OF inv _ g] by blast
    then show ?thesis unfolding vm_free_def num split rest A(2) by blast
  qed
  show "vm_free s' = vm_free s \<union> A" if "seg_free s' g = seg_free s g \<union> A" unfolding vm_free_def num split rest that by blast
qed

text \<open>The other fields of a page structure do not matter.\<close>

lemma upd_page_same:
  assumes "\<And>q. physAddr (h q) = physAddr q \<and> segID (h q) = segID q \<and> pgOrder (h q) = pgOrder q"
  shows "seg_same g s (upd_page p h s)" and "vm_shape s (upd_page p h s)"
  using assms by (auto simp: seg_same_def vm_shape_def upd_page_def)

lemma vm_same:
  assumes same: "\<And>g. seg_same g s s'" and shape: "vm_shape s s'"
  shows "vm_inv s' \<longleftrightarrow> vm_inv s" and "vm_free s' = vm_free s"
  unfolding vm_inv_def vm_free_def vm_shapeD [OF shape] seg_same_inv [OF same] by (rule refl)+

text \<open>The free frames determine the order fields and the lists, up to the order of a list.\<close>

lemma vm_same_free:
  assumes inv: "vm_inv s" "vm_inv s'" and shape: "vm_shape s s'" and free: "vm_free s' = vm_free s"
  shows "\<forall>g < g_vmPhysSegNum s. seg_ord s' g = seg_ord s g \<and> (\<forall>k < 9. mset (freeNode (g_vmPhysSeg s' g) k) = mset (freeNode (g_vmPhysSeg s g) k))"
proof (intro allI impI)
  fix g assume g: "g < g_vmPhysSegNum s"
  note sh = vm_shapeD [OF shape]
  have g': "g < g_vmPhysSegNum s'" using g sh by simp
  note i = vm_invD(1) [OF inv(1) g] vm_invD(1) [OF inv(2) g']
  let ?A = "{f. in_seg s g f}"
  have "seg_free s g = ?A \<inter> seg_free s g" "seg_free s' g = ?A \<inter> seg_free s' g" using seg_free_in [OF i(1)] seg_free_in [OF i(2)] sh by auto
  then have "free_frames (seg_ord s' g) = free_frames (seg_ord s g)"
    using vm_free_split [OF inv(1) g, of ?A] vm_free_split [OF inv(2) g', of ?A] free sh by (simp add: seg_free_def)
  moreover have rep: "seg_rep s g" "seg_rep s' g" and "buddy_ok (seg_lo s g) (seg_hi s g) (seg_ord s g)" "buddy_ok (seg_lo s g) (seg_hi s g) (seg_ord s' g)"
    using i sh by (simp_all add: seg_inv_def)
  moreover have "\<forall>f. seg_ord s' g f \<le> 9 \<and> seg_ord s g f \<le> 9" using rep by (simp add: seg_rep_def)
  ultimately have ord: "seg_ord s' g = seg_ord s g" using buddy_canonical by blast
  moreover have "mset (freeNode (g_vmPhysSeg s' g) k) = mset (freeNode (g_vmPhysSeg s g) k)" if "k < 9" for k
    using rep that by (subst set_eq_iff_mset_eq_distinct [symmetric]) (simp_all add: seg_rep_def ord sh)
  ultimately show "seg_ord s' g = seg_ord s g \<and> (\<forall>k < 9. mset (freeNode (g_vmPhysSeg s' g) k) = mset (freeNode (g_vmPhysSeg s g) k))" by blast
qed

text \<open>What a request to all segments does; \<open>refused\<close> says that no segment has an aligned free block for it.\<close>

definition refused :: "vm_phys \<Rightarrow> nat \<Rightarrow> nat \<Rightarrow> bool" where
  "refused s h n \<longleftrightarrow> (\<forall>k f. k < 9 \<and> n \<le> 2 ^ k \<and> 2 ^ k dvd f \<longrightarrow> \<not> blk f k \<subseteq> seg_free s h)"

definition taken :: "vm_phys \<Rightarrow> nat \<Rightarrow> nat \<Rightarrow> nat \<Rightarrow> bool" where
  "taken s p f n \<longleftrightarrow> (\<exists>h < g_vmPhysSegNum s. p = page_of s h f \<and> in_seg s h f \<and> f + n \<le> seg_hi s h) \<and> {f ..< f + n} \<subseteq> vm_free s"

lemma PagesGet_from_inv:
  assumes "vm_inv s" and "g + c \<le> g_vmPhysSegNum s" and small: "vm_small s (unat n)" and n: "n \<noteq> 0"
  shows "\<exists>s' r. pages_get_from g c n s = Some (s', r) \<and> vm_inv s' \<and> vm_shape s s' \<and>
    (case r of None \<Rightarrow> s' = s \<and> (\<forall>h \<in> {g ..< g + c}. refused s h (unat n)) | Some p \<Rightarrow> \<exists>f. taken s p f (unat n) \<and> vm_free s' = vm_free s - {f ..< f + unat n})"
  using assms(1,2)
proof (induction c arbitrary: g)
  case 0
  then show ?case using vm_shape_refl [of s] by simp
next
  case (Suc c)
  have g: "g < g_vmPhysSegNum s" using Suc.prems(2) by simp
  have fits: "seg_hi s g + unat n \<le> 2 ^ 20" using small g by (simp add: vm_small_def)
  from PagesAlloc_inv [OF vm_invD(1) [OF Suc.prems(1) g] fits n] obtain s1 r where r: "OsVmPhysPagesAlloc g n s = Some (s1, r)" "seg_inv s1 g" "vm_frame g s s1"
    "case r of None \<Rightarrow> s1 = s \<and> (\<forall>k f. k < 9 \<and> unat n \<le> 2 ^ k \<and> 2 ^ k dvd f \<longrightarrow> \<not> blk f k \<subseteq> seg_free s g)
     | Some p \<Rightarrow> \<exists>f. p = page_of s g f \<and> in_seg s g f \<and> f + unat n \<le> seg_hi s g \<and> {f ..< f + unat n} \<subseteq> seg_free s g \<and> seg_free s1 g = seg_free s g - {f ..< f + unat n}" by blast
  show ?case
  proof (cases r)
    case None
    with r(4) have s1: "s1 = s" "refused s g (unat n)" by (simp_all add: refused_def)
    have ivl: "{g ..< g + Suc c} = insert g {g + 1 ..< g + 1 + c}" by auto
    from Suc.IH [OF Suc.prems(1), of "g + 1"] Suc.prems(2) obtain s' r' where r': "pages_get_from (g + 1) c n s = Some (s', r')" "vm_inv s'" "vm_shape s s'"
      "case r' of None \<Rightarrow> s' = s \<and> (\<forall>h \<in> {g + 1 ..< g + 1 + c}. refused s h (unat n)) | Some p \<Rightarrow> \<exists>f. taken s p f (unat n) \<and> vm_free s' = vm_free s - {f ..< f + unat n}" by auto
    from r'(4) s1(2) have "case r' of None \<Rightarrow> s' = s \<and> (\<forall>h \<in> {g ..< g + Suc c}. refused s h (unat n)) | Some p \<Rightarrow> \<exists>f. taken s p f (unat n) \<and> vm_free s' = vm_free s - {f ..< f + unat n}"
      unfolding ivl by (simp split: option.splits)
    with r'(1-3) None r(1) s1(1) show ?thesis by auto
  next
    case (Some p)
    with r(4) obtain f where f: "p = page_of s g f" "in_seg s g f" "f + unat n \<le> seg_hi s g" "{f ..< f + unat n} \<subseteq> seg_free s g" "seg_free s1 g = seg_free s g - {f ..< f + unat n}" by auto
    let ?s' = "upd_page p (\<lambda>q. q\<lparr>refCounts := 0, nPages := ucast n\<rparr>) s1"
    note step = vm_step(1,2) [OF Suc.prems(1) g r(3,2)]
    have same: "seg_same h s1 ?s'" "vm_shape s1 ?s'" for h by (rule upd_page_same, simp)+
    have inv': "vm_inv ?s'" "vm_free ?s' = vm_free s1" using vm_same [OF same] step(1) by simp_all
    have "{f ..< f + unat n} \<subseteq> {f. in_seg s g f}" using f(2,3) by (auto simp: in_seg_def)
    from vm_free_upd(1) [OF Suc.prems(1) g r(3,2) this f(5)] have "vm_free s1 = vm_free s - {f ..< f + unat n}" .
    moreover have "taken s p f (unat n)" using f g by (auto simp: taken_def vm_free_def)
    ultimately show ?thesis using r(1) Some inv' vm_shape_trans [OF step(2) same(2)] by auto
  qed
qed

lemma PagesGet_inv:
  assumes "vm_inv s" and small: "vm_small s (unat n)" and n: "n \<noteq> 0"
  shows "\<exists>s' r. OsVmPhysPagesGet n s = Some (s', r) \<and> vm_inv s' \<and> vm_shape s s' \<and>
    (case r of None \<Rightarrow> s' = s \<and> (\<forall>h < g_vmPhysSegNum s. refused s h (unat n)) | Some p \<Rightarrow> \<exists>f. taken s p f (unat n) \<and> vm_free s' = vm_free s - {f ..< f + unat n})"
proof -
  have all: "(\<forall>h \<in> {0 ..< 0 + m}. P h) \<longleftrightarrow> (\<forall>h < m. P h)" for m :: nat and P by auto
  show ?thesis using PagesGet_from_inv [OF assms(1) _ assms(2,3), of 0 "g_vmPhysSegNum s"] unfolding OsVmPhysPagesGet_def all by simp
qed

section \<open>The kernel's interface\<close>

lemma taken_page:
  assumes "vm_inv s" and "taken s p f n"
  shows "OsVmPageToVaddr p s = kernel_addr s f" and "f \<in> vm_whole s" and "vm_fits s f n" and "f < 2 ^ 20"
proof -
  obtain h where h: "h < g_vmPhysSegNum s" "p = page_of s h f" "in_seg s h f" "f + n \<le> seg_hi s h" using assms(2) by (auto simp: taken_def)
  have lay: "seg_layout s h" using vm_invD(1) [OF assms(1) h(1)] by (simp add: seg_inv_def seg_rep_def)
  show "f < 2 ^ 20" by (rule in_seg_small [OF lay h(3)])
  show "OsVmPageToVaddr p s = kernel_addr s f" using seg_layoutD(5) [OF lay h(3)] h(2) by (simp add: OsVmPageToVaddr_def kernel_addr_def)
  show "f \<in> vm_whole s" "vm_fits s f n" using h by (auto simp: vm_whole_def vm_fits_def in_seg_def)
qed

text \<open>The frame a kernel address names, 0 meaning that there is none.\<close>

definition addr_frame :: "vm_phys \<Rightarrow> u32 \<Rightarrow> nat option" where
  "addr_frame s a = (if a = 0 then None else Some (unat (OsKVaddrToPaddr a s) div 4096))"

lemma kernel_addr_frame: "f < 2 ^ 20 \<Longrightarrow> kernel_addr s f \<noteq> 0 \<Longrightarrow> OsKVaddrToPaddr (kernel_addr s f) s = frame_addr f \<and> addr_frame s (kernel_addr s f) = Some f"
  by (simp add: addr_frame_def OsKVaddrToPaddr_def unat_frame_addr) (simp add: kernel_addr_def unat_frame_addr)

lemma AllocContiguous_inv:
  assumes inv: "vm_inv s" and small: "vm_small s (unat n)" and n: "n \<noteq> 0"
  shows "\<exists>s' a. LOS_PhysPagesAllocContiguous n s = Some (s', a) \<and> vm_inv s' \<and> vm_shape s s' \<and>
    (case addr_frame s a of
       None \<Rightarrow> s' = s \<and> (\<forall>h < g_vmPhysSegNum s. refused s h (unat n))
     | Some f \<Rightarrow> a = kernel_addr s f \<and> f \<in> vm_whole s \<and> vm_fits s f (unat n) \<and> {f ..< f + unat n} \<subseteq> vm_free s \<and> vm_free s' = vm_free s - {f ..< f + unat n})"
proof -
  from PagesGet_inv [OF assms] obtain s' r where r: "OsVmPhysPagesGet n s = Some (s', r)" "vm_inv s'" "vm_shape s s'"
    "case r of None \<Rightarrow> s' = s \<and> (\<forall>h < g_vmPhysSegNum s. refused s h (unat n)) | Some p \<Rightarrow> \<exists>f. taken s p f (unat n) \<and> vm_free s' = vm_free s - {f ..< f + unat n}" by blast
  show ?thesis
  proof (cases r)
    case None
    with r n show ?thesis by (simp add: LOS_PhysPagesAllocContiguous_def addr_frame_def)
  next
    case (Some p)
    with r(4) obtain f where f: "taken s p f (unat n)" "vm_free s' = vm_free s - {f ..< f + unat n}" by auto
    obtain h where h: "h < g_vmPhysSegNum s" "p = page_of s h f" "in_seg s h f" "f + unat n \<le> seg_hi s h" using f(1) by (auto simp: taken_def)
    have lay: "seg_layout s' h" using vm_invD(1) [OF r(2)] h(1) vm_shapeD(10) [OF r(3)] by (simp add: seg_inv_def seg_rep_def)
    have a: "OsVmPageToVaddr p s' = kernel_addr s f" using seg_layoutD(5) [OF lay, of f] h(2,3) vm_shapeD(3,4,8) [OF r(3)]
      by (simp add: OsVmPageToVaddr_def kernel_addr_def [symmetric])
    note t = taken_page [OF inv f(1)]
    have "kernel_addr s f \<noteq> 0" using inv t(2) by (simp add: vm_inv_def)
    from kernel_addr_frame [OF t(4) this] have "addr_frame s (kernel_addr s f) = Some f" by simp
    with r(1-3) Some n f a t show ?thesis by (simp add: LOS_PhysPagesAllocContiguous_def taken_def)
  qed
qed

lemma vaddr_to_page_from_spec:
  assumes inv: "vm_inv s" and h: "h < g_vmPhysSegNum s" "in_seg s h f"
  shows "g \<le> h \<Longrightarrow> h < g + c \<Longrightarrow> g + c \<le> g_vmPhysSegNum s \<Longrightarrow> vaddr_to_page_from g c (frame_addr f) s = Some (page_of s h f)"
proof (induction c arbitrary: g)
  case (Suc c)
  have g: "g < g_vmPhysSegNum s" using Suc.prems by simp
  have lay: "seg_layout s g" "seg_layout s h" using vm_invD(1) [OF inv] g h(1) by (simp_all add: seg_inv_def seg_rep_def)
  have f: "f < 2 ^ 20" by (rule in_seg_small [OF lay(2) h(2)])
  have ing: "in_seg s g f \<longleftrightarrow> g = h" using vm_invD(2) [OF inv h(1) g, of f] h(2) by auto
  note cmp = frame_cmp [OF lay(1) f]
  show ?case
  proof (cases "g = h")
    case True
    then show ?thesis using cmp h(2) by (simp add: Let_def in_seg_def not_le not_less)
  next
    case False
    then have "\<not> in_seg s g f" using ing by simp
    with cmp False Suc show ?thesis by (auto simp: Let_def in_seg_def not_le not_less)
  qed
qed simp

lemma FreeContiguous_frames:
  assumes inv: "vm_inv s" and fits: "vm_fits s f (unat n)" and n: "n \<noteq> 0" and out: "{f ..< f + unat n} \<inter> vm_free s = {}"
  shows "\<exists>s'. LOS_PhysPagesFreeContiguous (\<lambda>a. OsKVaddrToPaddr a s) (kernel_addr s f) n s = Some s' \<and> vm_inv s' \<and> vm_shape s s' \<and> vm_free s' = vm_free s \<union> {f ..< f + unat n}"
proof -
  have n0: "0 < unat n" using n by (simp add: unat_gt_0)
  obtain g where g: "g < g_vmPhysSegNum s" "seg_lo s g \<le> f" "f + unat n \<le> seg_hi s g" using fits by (auto simp: vm_fits_def)
  then have inf: "in_seg s g f" using n0 by (simp add: in_seg_def)
  have lay: "seg_layout s g" using vm_invD(1) [OF inv g(1)] by (simp add: seg_inv_def seg_rep_def)
  have "f \<in> vm_whole s" using inf g(1) by (auto simp: vm_whole_def)
  then have k: "kernel_addr s f \<noteq> 0" using inv by (simp add: vm_inv_def)
  have pa: "OsKVaddrToPaddr (kernel_addr s f) s = frame_addr f" using kernel_addr_frame [OF in_seg_small [OF lay inf] k] by simp
  let ?s1 = "upd_page (page_of s g f) (\<lambda>q. q\<lparr>nPages := 0\<rparr>) s"
  have same: "seg_same h s ?s1" "vm_shape s ?s1" for h by (rule upd_page_same, simp)+
  note sh = vm_shapeD [OF same(2)]
  have inv1: "vm_inv ?s1" "vm_free ?s1 = vm_free s" using vm_same [OF same] inv by simp_all
  have g1: "g < g_vmPhysSegNum ?s1" using g(1) sh by simp
  have run: "{f ..< f + unat n} \<subseteq> {f. in_seg ?s1 g f}" using g(2,3) sh by (auto simp: in_seg_def)
  have out1: "{f ..< f + unat n} \<inter> seg_free ?s1 g = {}" using vm_free_split [OF inv1(1) g1 run] out inv1(2) by simp
  from FreeContiguous_inv [OF vm_invD(1) [OF inv1(1) g1] _ _ out1] g(2,3) obtain s' where s': "OsVmPhysPagesFreeContiguous (page_of s g f) n ?s1 = Some s'"
    "seg_inv s' g" "vm_frame g ?s1 s'" "seg_free s' g = seg_free ?s1 g \<union> {f ..< f + unat n}" unfolding sh by blast
  have "OsVmVaddrToPage (frame_addr f) s = Some (page_of s g f)"
    unfolding OsVmVaddrToPage_def by (rule vaddr_to_page_from_spec [OF inv g(1) inf]) (use g(1) in simp_all)
  then have "LOS_PhysPagesFreeContiguous (\<lambda>a. OsKVaddrToPaddr a s) (kernel_addr s f) n s = Some s'" using k s'(1) by (simp add: LOS_PhysPagesFreeContiguous_def pa)
  moreover have "vm_inv s'" "vm_shape s s'" using vm_step(1,2) [OF inv1(1) g1 s'(3,2)] vm_shape_trans [OF same(2)] by blast+
  moreover have "vm_free s' = vm_free s \<union> {f ..< f + unat n}" using vm_free_upd(2) [OF inv1(1) g1 s'(3,2,4)] inv1(2) by simp
  ultimately show ?thesis by blast
qed

text \<open>The two calls by frame numbers, as the interface of an allocator of runs.\<close>

definition phys_alloc :: "nat \<Rightarrow> vm_phys \<Rightarrow> (vm_phys \<times> nat option) option" where
  "phys_alloc n s = map_option (\<lambda>(s', a). (s', addr_frame s a)) (LOS_PhysPagesAllocContiguous (of_nat n) s)"

definition phys_release :: "nat \<Rightarrow> nat \<Rightarrow> vm_phys \<Rightarrow> vm_phys option" where
  "phys_release f n s = LOS_PhysPagesFreeContiguous (\<lambda>a. OsKVaddrToPaddr a s) (kernel_addr s f) (of_nat n) s"

lemma small_word: "0 < n \<Longrightarrow> n \<le> 2 ^ 20 \<Longrightarrow> unat (of_nat n :: u32) = n \<and> of_nat n \<noteq> (0 :: u32)"
proof -
  assume n: "0 < n" "n \<le> 2 ^ 20"
  then have u: "unat (of_nat n :: u32) = n" by (simp add: unsigned_of_nat take_bit_nat_eq_self)
  then have "of_nat n \<noteq> (0 :: u32)" using n(1) by (metis unat_0 less_irrefl)
  with u show ?thesis by blast
qed

interpretation phys: run_allocator phys_alloc phys_release vm_small vm_inv vm_free vm_whole vm_fits
proof (unfold_locales, goal_cases)
  case (1 s n)
  then have w: "unat (of_nat n :: u32) = n" "of_nat n \<noteq> (0 :: u32)" using small_word [of n] by (simp_all add: vm_small_def)
  from AllocContiguous_inv [OF 1(1), of "of_nat n"] 1(3) obtain s' a where a: "LOS_PhysPagesAllocContiguous (of_nat n) s = Some (s', a)" "vm_inv s'" "vm_shape s s'"
    "case addr_frame s a of None \<Rightarrow> s' = s \<and> (\<forall>h < g_vmPhysSegNum s. refused s h n)
     | Some f \<Rightarrow> a = kernel_addr s f \<and> f \<in> vm_whole s \<and> vm_fits s f n \<and> {f ..< f + n} \<subseteq> vm_free s \<and> vm_free s' = vm_free s - {f ..< f + n}"
    unfolding w using w(2) by blast
  then show ?case using vm_shapeD(5,6) [OF a(3)] by (auto simp: phys_alloc_def split: option.splits)
next
  case (2 s n f)
  have "n \<le> 2 ^ 20"
  proof -
    obtain g where g: "g < g_vmPhysSegNum s" "f + n \<le> seg_hi s g" using 2(3) by (auto simp: vm_fits_def)
    have "seg_hi s g < 2 ^ 20" using vm_invD(1) [OF 2(1) g(1)] seg_layoutD(4) [of s g] by (simp add: seg_inv_def seg_rep_def)
    with g(2) show ?thesis by simp
  qed
  then have w: "unat (of_nat n :: u32) = n" "of_nat n \<noteq> (0 :: u32)" using small_word [of n] 2(2) by simp_all
  from FreeContiguous_frames [OF 2(1), of f "of_nat n"] 2(3,4) obtain s' where "phys_release f n s = Some s'" "vm_inv s'" "vm_shape s s'" "vm_free s' = vm_free s \<union> {f ..< f + n}"
    unfolding phys_release_def w using w(2) by blast
  then show ?case using vm_shapeD(5,6) by auto
next
  case (3 s)
  then show ?case using seg_free_in [OF vm_invD(1) [OF 3]] unfolding vm_free_def vm_whole_def by blast
qed

section \<open>References\<close>

lemma sint_dec: "0 < sint x \<Longrightarrow> sint (x - 1) = sint x - 1" for x :: i32
proof -
  assume "0 < sint x"
  moreover have "sint x \<le> 2 ^ 31 - 1" using sint_lt [of x] by simp
  ultimately have "signed_take_bit 31 (sint x - 1) = sint x - 1" by (intro signed_take_bit_int_eq_self) simp_all
  moreover have "x - 1 = word_of_int (sint x - 1)" by simp
  then have "sint (x - 1) = signed_take_bit 31 (sint x - 1)" by (simp only: signed_of_int) simp
  ultimately show ?thesis by simp
qed

text \<open>A page in use, and the call that drops one of its references.\<close>

definition page_used :: "vm_phys \<Rightarrow> nat \<Rightarrow> nat \<Rightarrow> bool" where
  "page_used s p f \<longleftrightarrow> f \<notin> vm_free s \<and> (\<exists>g < g_vmPhysSegNum s. in_seg s g f \<and> p = page_of s g f)"

lemma drop_ref_keeps:
  assumes "vm_inv s" and "page_used s p f" and "1 < sint (refCounts (g_vmPageArray s p))"
  shows "\<exists>s'. drop_ref p s = Some s' \<and> vm_inv s' \<and> vm_free s' = vm_free s \<and> page_used s' p f \<and> sint (refCounts (g_vmPageArray s' p)) = sint (refCounts (g_vmPageArray s p)) - 1"
proof -
  let ?s1 = "upd_page p (\<lambda>q. q\<lparr>refCounts := refCounts q - 1\<rparr>) s"
  have same: "seg_same h s ?s1" "vm_shape s ?s1" for h by (rule upd_page_same, simp)+
  note sh = vm_shapeD [OF same(2)]
  have free: "vm_free ?s1 = vm_free s" and inv: "vm_inv ?s1" using vm_same [OF same] assms(1) by simp_all
  have r: "refCounts (g_vmPageArray ?s1 p) = refCounts (g_vmPageArray s p) - 1" by (simp add: upd_page_def)
  have "drop_ref p s = Some ?s1" using assms(3) sint_dec [of "refCounts (g_vmPageArray s p)"] by (simp add: drop_ref_def Let_def r)
  moreover have "page_used ?s1 p f" using assms(2) by (simp add: page_used_def sh free)
  ultimately show ?thesis using inv free r sint_dec [of "refCounts (g_vmPageArray s p)"] assms(3) by simp
qed

lemma drop_ref_frees:
  assumes "vm_inv s" and "page_used s p f" and "sint (refCounts (g_vmPageArray s p)) = 1"
  shows "\<exists>s'. drop_ref p s = Some s' \<and> vm_inv s' \<and> vm_free s' = vm_free s \<union> {f} \<and> refCounts (g_vmPageArray s' p) = 0"
proof -
  define s1 where "s1 = upd_page p (\<lambda>q. q\<lparr>refCounts := refCounts q - 1\<rparr>) s"
  have same: "seg_same h s s1" "vm_shape s s1" for h unfolding s1_def by (rule upd_page_same, simp)+
  note sh = vm_shapeD [OF same(2)]
  have free: "vm_free s1 = vm_free s" and inv: "vm_inv s1" using vm_same [OF same] assms(1) by simp_all
  obtain g where g: "g < g_vmPhysSegNum s1" "in_seg s1 g f" "p = page_of s1 g f" using assms(2) sh by (auto simp: page_used_def)
  have "{f} \<inter> vm_free s1 = {}" using assms(2) free by (simp add: page_used_def)
  then have out: "{f ..< f + unat (1 :: u32)} \<inter> seg_free s1 g = {}" using vm_free_split [OF inv g(1), of "{f}"] g(2) by simp
  have "seg_lo s1 g \<le> f" "f + unat (1 :: u32) \<le> seg_hi s1 g" using g(2) by (simp_all add: in_seg_def)
  from FreeContiguous_inv [OF vm_invD(1) [OF inv g(1)] this out] obtain s2 where s2: "OsVmPhysPagesFreeContiguous p 1 s1 = Some s2" "seg_inv s2 g" "vm_frame g s1 s2"
    "seg_free s2 g = seg_free s1 g \<union> {f}" unfolding g(3) by auto
  let ?s' = "upd_page p (\<lambda>q. q\<lparr>refCounts := 0\<rparr>) s2"
  have same2: "seg_same h s2 ?s'" "vm_shape s2 ?s'" for h by (rule upd_page_same, simp)+
  have "vm_inv ?s'" "vm_free ?s' = vm_free s2" using vm_same [OF same2] vm_step(1) [OF inv g(1) s2(3,2)] by simp_all
  moreover have "vm_free s2 = vm_free s \<union> {f}" using vm_free_upd(2) [OF inv g(1) s2(3,2,4)] free by simp
  moreover have "drop_ref p s = Some ?s'" using s2(1) assms(3) sint_dec [of "refCounts (g_vmPageArray s p)"] by (simp add: drop_ref_def Let_def s1_def [symmetric]) (simp add: s1_def upd_page_def)
  ultimately show ?thesis by (simp add: upd_page_def [of p _ s2])
qed

text \<open>\<open>k\<close> calls of \<open>LOS_PhysPageFree\<close> on the same page.\<close>

primrec free_calls :: "nat \<Rightarrow> nat \<Rightarrow> vm_phys \<Rightarrow> vm_phys option" where
  "free_calls 0 p s = Some s"
| "free_calls (Suc k) p s = Option.bind (LOS_PhysPageFree (Some p) s) (free_calls k p)"

lemma drop_refs:
  assumes "vm_inv s" and "page_used s p f" and "sint (refCounts (g_vmPageArray s p)) = int (Suc k)"
  shows "j \<le> k \<Longrightarrow> \<exists>s'. free_calls j p s = Some s' \<and> vm_inv s' \<and> vm_free s' = vm_free s"
    and "\<exists>s'. free_calls (Suc k) p s = Some s' \<and> vm_inv s' \<and> vm_free s' = vm_free s \<union> {f}"
  using assms
proof (induction k arbitrary: s j)
  case 0
  { case 1 with 0 show ?case by simp }
  { case 2 with drop_ref_frees [of s p f] show ?case by (auto simp: LOS_PhysPageFree_def) }
next
  case (Suc k)
  have go: "\<exists>s1. drop_ref p s = Some s1 \<and> vm_inv s1 \<and> vm_free s1 = vm_free s \<and> page_used s1 p f \<and> sint (refCounts (g_vmPageArray s1 p)) = int (Suc k)"
    if "vm_inv s" "page_used s p f" "sint (refCounts (g_vmPageArray s p)) = int (Suc (Suc k))" for s
    using drop_ref_keeps [OF that(1,2)] that(3) by auto
  { case 1
    with go [OF 1(2-4)] obtain s1 where s1: "drop_ref p s = Some s1" "vm_inv s1" "vm_free s1 = vm_free s" "page_used s1 p f" "sint (refCounts (g_vmPageArray s1 p)) = int (Suc k)" by blast
    show ?case
    proof (cases j)
      case (Suc i)
      with 1(1) Suc.IH(1) [OF _ s1(2,4,5), of i] s1(1,3) show ?thesis by (auto simp: LOS_PhysPageFree_def)
    qed (use 1 in simp) }
  { case 2
    with go [OF 2] obtain s1 where s1: "drop_ref p s = Some s1" "vm_inv s1" "vm_free s1 = vm_free s" "page_used s1 p f" "sint (refCounts (g_vmPageArray s1 p)) = int (Suc k)" by blast
    from Suc.IH(2) [OF s1(2,4,5)] s1(1,3) show ?case by (auto simp: LOS_PhysPageFree_def) }
qed

section \<open>Properties\<close>

text \<open>A board with eight frames from frame 16 on, free in one block.\<close>

definition demo_page :: "nat \<Rightarrow> LosVmPage" where
  "demo_page p = \<lparr>physAddr = frame_addr (16 + p), refCounts = 0, pageFlags = 0, pgOrder = (if p = 0 then 3 else 9), segID = 0, nPages = 0\<rparr>"

definition demo_seg :: VmPhysSeg where
  "demo_seg = \<lparr>segStart = 0x10000, segSize = 0x8000, pageBase = 0, freeNode = (\<lambda>k. if k = 3 then [0] else []), listCnt = (\<lambda>k. if k = 3 then 1 else 0),
    lruSize = (\<lambda>_. 0), lruList = (\<lambda>_. [])\<rparr>"

definition demo_phys :: vm_phys where
  "demo_phys = \<lparr>g_physArea = \<lparr>areaStart = 0x10000, areaSize = 0x8000\<rparr>, g_vmPhysSeg = (\<lambda>_. demo_seg), g_vmPhysSegNum = 1, g_vmPageArray = demo_page,
    g_vmPageArraySize = 192, g_vmBootMemBase = 0x40000000, g_kHeapInited = True, pageMem = (\<lambda>_. []), SYS_MEM_BASE = 0x10000, KERNEL_ASPACE_BASE = 0x40000000\<rparr>"

lemma demo_seg_ord: "seg_lo demo_phys 0 = 16" "seg_hi demo_phys 0 = 24" "page_of demo_phys 0 f = f - 16" "seg_ord demo_phys 0 = (\<lambda>_. 9)(16 := 3)"
proof -
  show r: "seg_lo demo_phys 0 = 16" "seg_hi demo_phys 0 = 24" by (simp_all add: seg_hi_def seg_lo_def demo_phys_def demo_seg_def)
  have "pageBase (g_vmPhysSeg demo_phys 0) = 0" by (simp add: demo_phys_def demo_seg_def)
  then show p: "page_of demo_phys 0 f = f - 16" for f by (simp add: page_of_def r)
  show "seg_ord demo_phys 0 = (\<lambda>_. 9)(16 := 3)" 
    by (rule ext) (simp add: seg_ord_def in_seg_def r p, simp add: demo_phys_def demo_page_def)
qed

lemma demo_phys_ok: "vm_inv demo_phys" "vm_free demo_phys = {16 ..< 24}" "vm_whole demo_phys = {16 ..< 24}"
  "n \<le> 100 \<Longrightarrow> vm_small demo_phys n"
proof -
  note r = demo_seg_ord
  have num: "g_vmPhysSegNum demo_phys = 1" by (simp add: demo_phys_def)
  have frames: "in_seg demo_phys 0 f \<longleftrightarrow> 16 \<le> f \<and> f < 24" for f by (simp add: in_seg_def r)
  show "vm_small demo_phys n" if "n \<le> 100" using that by (simp add: vm_small_def num r)
  show whole: "vm_whole demo_phys = {16 ..< 24}" by (auto simp: vm_whole_def num frames)
  note ins = buddy_insert [OF no_blocks(1), of 16 3 16 24]
  have ok: "buddy_ok 16 24 ((\<lambda>_. 9)(16 := 3))" using ins(1) by (simp add: no_blocks)
  show "vm_free demo_phys = {16 ..< 24}" using ins(2) by (simp add: vm_free_def num lessThan_Suc seg_free_def r no_blocks blk_def)
  have lay: "seg_layout demo_phys 0" by (auto simp: seg_layout_def frames r) (auto simp: demo_phys_def demo_seg_def demo_page_def)
  have "seg_rep demo_phys 0" unfolding seg_rep_def
  proof (intro conjI allI impI, goal_cases)
    case (4 k)
    then show ?case by (auto simp: r frames) (auto simp: demo_phys_def demo_seg_def)
  qed (auto simp: lay r, auto simp: demo_phys_def demo_seg_def)
  then have "seg_inv demo_phys 0" using ok by (simp add: seg_inv_def r)
  moreover have "kernel_addr demo_phys f \<noteq> 0" if "16 \<le> f" "f < 24" for f
  proof -
    have "frame_addr f = kernel_addr demo_phys f + 0xC0010000" by (simp add: kernel_addr_def demo_phys_def)
    then have "kernel_addr demo_phys f = 0 \<Longrightarrow> unat (frame_addr f) = 0xC0010000" by simp
    then show ?thesis using that unat_frame_addr [of f] by auto
  qed
  ultimately show "vm_inv demo_phys" using whole by (simp add: vm_inv_def num segs_apart_def)
qed

lemma demo_refused: "0 < g_vmPhysSegNum demo_phys" "\<not> refused demo_phys 0 5"
proof -
  show num: "0 < g_vmPhysSegNum demo_phys" by (simp add: demo_phys_def)
  have free: "seg_free demo_phys 0 = {16 ..< 24}" using demo_phys_ok(2) by (simp add: vm_free_def demo_phys_def lessThan_Suc)
  show "\<not> refused demo_phys 0 5"
  proof
    assume "refused demo_phys 0 5"
    from this [unfolded refused_def, rule_format, of 3 16] show False unfolding free by (simp add: blk_def)
  qed
qed

text \<open>C4. A request for contiguous pages (\<^verbatim>\<open>LOS_PhysPagesAllocContiguous\<close>) in a consistent state always returns. When it grants an address, that is the
  kernel address of a run of exactly the requested length that lies in one segment and was free, and just these frames stop being free. When it
  returns \<open>NULL\<close>, the state is unchanged and no segment has a free aligned block that could hold the request (requests up to 256 pages).\<close>

theorem phys_alloc_sound_complete:
  assumes "vm_inv s" and "vm_small s (unat n)" and "n \<noteq> 0"
  shows "\<exists>s' a. LOS_PhysPagesAllocContiguous n s = Some (s', a) \<and> vm_inv s' \<and>
    (if a = 0
     then s' = s \<and> (\<forall>h < g_vmPhysSegNum s. \<forall>k f. k < 9 \<and> unat n \<le> 2 ^ k \<and> 2 ^ k dvd f \<longrightarrow> \<not> {f ..< f + 2 ^ k} \<subseteq> seg_free s h)
     else \<exists>f. a = kernel_addr s f \<and> vm_fits s f (unat n) \<and> {f ..< f + unat n} \<subseteq> vm_free s \<and> vm_free s' = vm_free s - {f ..< f + unat n})"
  using AllocContiguous_inv [OF assms] by (auto simp: addr_frame_def refused_def blk_def split: if_splits)

theorem phys_alloc_sound_complete_witness:
  "\<exists>s' a f. LOS_PhysPagesAllocContiguous 5 demo_phys = Some (s', a) \<and> vm_inv s' \<and> a = kernel_addr demo_phys f \<and> vm_free s' = {16 ..< 24} - {f ..< f + 5}"
proof -
  have s: "vm_small demo_phys (unat (5 :: u32))" "(5 :: u32) \<noteq> 0" by (simp_all add: demo_phys_ok)
  from phys_alloc_sound_complete [OF demo_phys_ok(1) s] demo_refused show ?thesis unfolding demo_phys_ok(2) by (fastforce simp: refused_def blk_def split: if_splits)
qed

text \<open>C9. Over every sequence of requests and releases through the kernel's interface, starting with all frames free: the runs in use never share a
  frame, each lies in one segment, and the free frames are exactly the frames in no run, so nothing is lost and nothing is handed out twice.\<close>

theorem phys_history_apart:
  assumes "alloc_history phys_alloc phys_release vm_small s0 s used" and "vm_inv s0" and "vm_free s0 = vm_whole s0"
  shows "vm_inv s \<and> runs_apart used \<and> (\<forall>(f, n) \<in> set used. vm_fits s0 f n) \<and> vm_free s = vm_whole s0 - (\<Union>(f, n) \<in> set used. {f ..< f + n})"
  using phys.history_sound [OF assms] by (auto simp: run_set_def)

theorem phys_history_apart_witness:
  "\<exists>s f. alloc_history phys_alloc phys_release vm_small demo_phys s [(f, 5)] \<and> vm_free s = {16 ..< 24} - {f ..< f + 5}"
proof -
  have small: "vm_small demo_phys 5" by (simp add: demo_phys_ok)
  from AllocContiguous_inv [OF demo_phys_ok(1), of 5] small obtain s' a where "LOS_PhysPagesAllocContiguous 5 demo_phys = Some (s', a)"
    "case addr_frame demo_phys a of None \<Rightarrow> \<forall>h < g_vmPhysSegNum demo_phys. refused demo_phys h 5 | Some f \<Rightarrow> True" by (auto split: option.splits)
  then obtain f where "phys_alloc 5 demo_phys = Some (s', Some f)" using demo_refused by (auto simp: phys_alloc_def split: option.splits)
  then have hist: "alloc_history phys_alloc phys_release vm_small demo_phys s' [(f, 5)]"
    using alloc_history.granted [of phys_alloc phys_release vm_small demo_phys demo_phys "[]" 5] alloc_history.start small by fastforce
  from phys_history_apart [OF hist demo_phys_ok(1)] have "vm_free s' = {16 ..< 24} - {f ..< f + 5}" by (simp add: demo_phys_ok)
  with hist show ?thesis by blast
qed

text \<open>C20. Giving a run back undoes the request: for every segment the order field of every page is as before the request, so that splitting and merging
  leave no trace, whatever the state of the free lists was.\<close>

theorem phys_alloc_free_roundtrip:
  assumes "vm_inv s" and "vm_small s (unat n)" and "n \<noteq> 0" and "LOS_PhysPagesAllocContiguous n s = Some (s', a)" and "a \<noteq> 0"
  shows "\<exists>s''. LOS_PhysPagesFreeContiguous (\<lambda>p. OsKVaddrToPaddr p s') a n s' = Some s'' \<and> vm_inv s'' \<and>
    (\<forall>g < g_vmPhysSegNum s. seg_ord s'' g = seg_ord s g \<and> (\<forall>k < 9. mset (freeNode (g_vmPhysSeg s'' g) k) = mset (freeNode (g_vmPhysSeg s g) k)))"
proof -
  from AllocContiguous_inv [OF assms(1-3)] assms(4,5) obtain f where f: "vm_inv s'" "vm_shape s s'" "a = kernel_addr s f" "vm_fits s f (unat n)"
    "{f ..< f + unat n} \<subseteq> vm_free s" "vm_free s' = vm_free s - {f ..< f + unat n}" by (auto simp: addr_frame_def)
  note sh = vm_shapeD [OF f(2)]
  have "vm_fits s' f (unat n)" "{f ..< f + unat n} \<inter> vm_free s' = {}" using f(4,6) sh by auto
  from FreeContiguous_frames [OF f(1) this(1) assms(3) this(2)] obtain s'' where s'': "LOS_PhysPagesFreeContiguous (\<lambda>p. OsKVaddrToPaddr p s') a n s' = Some s''"
    "vm_inv s''" "vm_shape s' s''" "vm_free s'' = vm_free s' \<union> {f ..< f + unat n}" unfolding f(3) sh by blast
  have "vm_free s'' = vm_free s" using f(5,6) s''(4) by blast
  from vm_same_free [OF assms(1) s''(2) vm_shape_trans [OF f(2) s''(3)] this] s''(1,2) show ?thesis by blast
qed

theorem phys_alloc_free_roundtrip_witness:
  "\<exists>s' a s''. LOS_PhysPagesAllocContiguous 5 demo_phys = Some (s', a) \<and> LOS_PhysPagesFreeContiguous (\<lambda>p. OsKVaddrToPaddr p s') a 5 s' = Some s'' \<and>
    seg_ord s'' 0 = (\<lambda>_. 9)(16 := 3)"
proof -
  have small: "vm_small demo_phys (unat (5 :: u32))" "(5 :: u32) \<noteq> 0" by (simp_all add: demo_phys_ok)
  from AllocContiguous_inv [OF demo_phys_ok(1) small] demo_refused obtain s' a where a: "LOS_PhysPagesAllocContiguous 5 demo_phys = Some (s', a)" "a \<noteq> 0"
    by (fastforce simp: addr_frame_def split: if_splits)
  from phys_alloc_free_roundtrip [OF demo_phys_ok(1) small a] demo_refused(1) a(1) show ?thesis by (auto simp: demo_seg_ord)
qed

text \<open>C36. Reference counts decide when a page is freed: a page in use with \<open>k\<close> references survives fewer than \<open>k\<close> calls of \<^verbatim>\<open>LOS_PhysPageFree\<close>, no frame changes
  hands, and the \<open>k\<close>-th call frees exactly its frame.\<close>

theorem page_freed_with_last_reference:
  assumes "vm_inv s" and "page_used s p f" and "sint (refCounts (g_vmPageArray s p)) = int k" and "0 < k"
  shows "(\<forall>j. j < k \<longrightarrow> (\<exists>s'. free_calls j p s = Some s' \<and> vm_inv s' \<and> vm_free s' = vm_free s)) \<and>
    (\<exists>s'. free_calls k p s = Some s' \<and> vm_inv s' \<and> vm_free s' = vm_free s \<union> {f})"
proof -
  obtain m where m: "k = Suc m" using assms(4) by (cases k) simp_all
  show ?thesis using drop_refs [OF assms(1,2), of m] assms(3) unfolding m by (simp del: free_calls.simps add: less_Suc_eq_le)
qed

definition demo_shared :: vm_phys where
  "demo_shared = demo_phys\<lparr>g_vmPhysSeg := \<lambda>_. demo_seg\<lparr>freeNode := \<lambda>_. [], listCnt := \<lambda>_. 0\<rparr>,
    g_vmPageArray := \<lambda>p. (demo_page p)\<lparr>pgOrder := 9, refCounts := if p = 2 then 3 else 0\<rparr>\<rparr>"

lemma demo_shared_ok: "vm_inv demo_shared" "vm_free demo_shared = {}" "page_used demo_shared 2 18"
proof -
  have shape: "vm_shape demo_phys demo_shared" by (simp add: demo_shared_def demo_phys_def vm_shape_def)
  note sh = vm_shapeD [OF shape]
  have num: "g_vmPhysSegNum demo_phys = 1" by (simp add: demo_phys_def)
  have frames: "in_seg demo_phys 0 f \<longleftrightarrow> 16 \<le> f \<and> f < 24" for f by (simp add: in_seg_def demo_seg_ord)
  have ord: "seg_ord demo_shared 0 = (\<lambda>_. 9)" by (rule ext) (simp add: seg_ord_def demo_shared_def)
  have lay: "seg_layout demo_shared 0" by (auto simp: seg_layout_def sh frames demo_seg_ord) (auto simp: demo_shared_def demo_seg_def demo_page_def)
  have "seg_inv demo_shared 0" by (simp add: seg_inv_def seg_rep_def lay ord no_blocks) (simp add: demo_shared_def)
  then show "vm_inv demo_shared" using demo_phys_ok(1) by (simp add: vm_inv_def sh num)
  show free: "vm_free demo_shared = {}" by (simp add: vm_free_def sh num lessThan_Suc seg_free_def ord no_blocks)
  show "page_used demo_shared 2 18" by (simp add: page_used_def free sh num frames demo_seg_ord)
qed

theorem page_freed_with_last_reference_witness:
  "\<exists>s'. free_calls 3 2 demo_shared = Some s' \<and> vm_free s' = {18}"
proof -
  have "sint (refCounts (g_vmPageArray demo_shared 2)) = int 3" by (simp add: demo_shared_def)
  from page_freed_with_last_reference [OF demo_shared_ok(1,3) this] show ?thesis by (auto simp: demo_shared_ok(2) simp del: free_calls.simps)
qed

end
