(* ===== verification/LosWord.thy ===== *)
theory LosWord
  imports LosPrelude
begin

text \<open>32-bit words as natural numbers: the conversions the address arithmetic of the memory components needs.\<close>

lemma unat_of_nat32: "n < 2 ^ 32 \<Longrightarrow> unat (of_nat n :: u32) = n"
  by (simp add: unsigned_of_nat take_bit_nat_eq_self)

lemma unat_drop32: "unat (drop_bit k n) = unat n div 2 ^ k" for n :: u32
proof -
  have "take_bit 32 (unat n) = unat n" using unsigned_less [of n] by (intro take_bit_nat_eq_self) simp
  then show ?thesis unfolding unsigned_drop_bit_eq by (simp add: drop_bit_eq_div)
qed

lemma unat_add32: "unat a + unat b < 2 ^ 32 \<Longrightarrow> unat (a + b) = unat a + unat b" for a b :: u32
  using unat_add_lem [of a b] by simp

lemma unat_sub32: "b \<le> a \<Longrightarrow> unat (a - b) = unat a - unat b" for a b :: u32
  by (simp add: unat_sub)

lemma unat_mult32: "unat a * unat b < 2 ^ 32 \<Longrightarrow> unat (a * b) = unat a * unat b" for a b :: u32
  using unat_mult_lem [of a b] by simp

lemma unat_lt32: "unat a < 2 ^ 32" for a :: u32
  using unsigned_less [of a, where ?'a = nat] by simp

lemma and_not_mask32: "k < 32 \<Longrightarrow> unat (a AND NOT (mask k)) = unat a div 2 ^ k * 2 ^ k" for a :: u32
proof -
  assume k: "k < 32"
  have "a AND NOT (mask k) = push_bit k (drop_bit k a)" by (rule bit_word_eqI) (auto simp: bit_simps)
  moreover have "unat (push_bit k (drop_bit k a)) = unat a div 2 ^ k * 2 ^ k"
  proof -
    have p: "unat (2 ^ k :: u32) = 2 ^ k" using unat_of_nat32 [of "2 ^ k"] power_strict_increasing [OF k, of "2 :: nat"] by simp
    have "unat a div 2 ^ k * 2 ^ k \<le> unat a" by simp
    then have "unat a div 2 ^ k * 2 ^ k < 2 ^ 32" using unat_lt32 [of a] by linarith
    then show ?thesis using unat_mult32 [of "drop_bit k a" "2 ^ k"] by (simp add: push_bit_eq_mult unat_drop32 p)
  qed
  ultimately show ?thesis by simp
qed

lemma and_not_3: "unat (a AND NOT 3) = unat a div 4 * 4" for a :: u32
proof -
  have "(3 :: u32) = mask 2" by (simp add: mask_eq_exp_minus_1)
  then show ?thesis using and_not_mask32 [of 2 a] by simp
qed

end
