(* ===== verification/LosVmBoot.thy ===== *)
theory LosVmBoot
  imports LosVmPhysAll LosWord
begin

text \<open>
  The start-up of the physical memory (\<^verbatim>\<open>OsVmPageStartup\<close>): the page array is carved out of the memory behind the kernel image, the rest becomes one
  segment, and its frames become free. How large the page array is, against the number of frames it must describe.
\<close>

section \<open>Page structures\<close>

definition fresh_page :: "u32 \<Rightarrow> nat \<Rightarrow> LosVmPage" where
  "fresh_page pa g = \<lparr>physAddr = pa, refCounts = 0, pageFlags = 0, pgOrder = 9, segID = g, nPages = 0\<rparr>"

lemma VMPAGEINIT_spec:
  "VMPAGEINIT k page pa g s = (if k = 0 \<or> (page + k) * 24 \<le> unat (g_vmPageArraySize s)
    then Some (page + k, pa + of_nat (4096 * k),
      s\<lparr>g_vmPageArray := \<lambda>p. if page \<le> p \<and> p < page + k then fresh_page (pa + of_nat (4096 * (p - page))) g else g_vmPageArray s p\<rparr>)
    else None)"
proof (induction k arbitrary: page pa s)
  case 0
  show ?case by (cases s) (auto simp: fun_eq_iff)
next
  case (Suc k)
  have page: "(if page + 1 \<le> p \<and> p < page + 1 + k then fresh_page (pa + 4096 + of_nat (4096 * (p - (page + 1)))) g else ((g_vmPageArray s)(page := fresh_page pa g)) p) =
    (if page \<le> p \<and> p < page + Suc k then fresh_page (pa + of_nat (4096 * (p - page))) g else g_vmPageArray s p)" for p
  proof (cases "page < p \<and> p < page + Suc k")
    case True
    then obtain d where "p = page + Suc d" by (metis less_imp_Suc_add add_Suc_right)
    then show ?thesis using True by (simp add: algebra_simps)
  qed auto
  show ?case
  proof (cases "(page + Suc k) * 24 \<le> unat (g_vmPageArraySize s)")
    case True
    then have "VMPAGEINIT (Suc k) page pa g s = Some (page + 1 + k, pa + 4096 + of_nat (4096 * k),
      s\<lparr>g_vmPageArray := \<lambda>p. if page + 1 \<le> p \<and> p < page + 1 + k then fresh_page (pa + 4096 + of_nat (4096 * (p - (page + 1)))) g
        else ((g_vmPageArray s)(page := fresh_page pa g)) p\<rparr>)"
      by (simp add: Suc.IH OsVmPageInit_def upd_page_def fresh_page_def [symmetric] cong: if_cong)
    with True show ?thesis unfolding page by (simp add: algebra_simps)
  next
    case False
    then have "VMPAGEINIT (Suc k) page pa g s = None" by (cases "k = 0") (auto simp: Suc.IH OsVmPageInit_def upd_page_def)
    with False show ?thesis by simp
  qed
qed

lemma seg_pages_split: "8 * unat (drop_bit 3 n) + unat (n AND 7) = unat n" for n :: u32
proof -
  have "n AND 7 = take_bit 3 n" by (simp add: take_bit_eq_mask mask_eq_exp_minus_1)
  then have "unat (n AND 7) = unat n mod 8" unfolding \<open>n AND 7 = _\<close> unsigned_take_bit_eq by (simp add: take_bit_eq_mod)
  moreover have "unat (drop_bit 3 n) = unat n div 8" by (simp add: unat_drop32)
  ultimately show ?thesis by simp
qed

lemma VMPAGEINIT_add: "Option.bind (VMPAGEINIT j p pa g s) (\<lambda>(p', pa', s'). VMPAGEINIT k p' pa' g s') = VMPAGEINIT (j + k) p pa g s"
proof (induction j p pa g s rule: VMPAGEINIT.induct)
  case (2 j p pa g s)
  then show ?case by (cases "OsVmPageInit p pa g s") simp_all
qed simp

lemma startup_seg_init:
  assumes "n = drop_bit 12 (segSize (g_vmPhysSeg s g))"
  shows "startup_seg g s = Option.bind (VMPAGEINIT (unat n) (pageBase (g_vmPhysSeg s g)) (segStart (g_vmPhysSeg s g)) g s)
    (\<lambda>(_, _, s'). OsVmPhysPagesFreeContiguous (pageBase (g_vmPhysSeg s g)) n s')"
proof -
  let ?p = "pageBase (g_vmPhysSeg s g)" and ?a = "segStart (g_vmPhysSeg s g)" let ?f = "\<lambda>(_, _, s'). OsVmPhysPagesFreeContiguous ?p n s'"
  have "startup_seg g s = Option.bind (VMPAGEINIT (8 * unat (drop_bit 3 n)) ?p ?a g s) (\<lambda>(p', pa', s'). Option.bind (VMPAGEINIT (unat (n AND 7)) p' pa' g s') ?f)"
    unfolding startup_seg_def Let_def OsVmPageOrderListInit_def assms [symmetric] by simp
  also have "\<dots> = Option.bind (Option.bind (VMPAGEINIT (8 * unat (drop_bit 3 n)) ?p ?a g s) (\<lambda>(p', pa', s'). VMPAGEINIT (unat (n AND 7)) p' pa' g s')) ?f"
    by (cases "VMPAGEINIT (8 * unat (drop_bit 3 n)) ?p ?a g s") (simp_all add: split_beta)
  finally show ?thesis unfolding VMPAGEINIT_add seg_pages_split .
qed

text \<open>The frames of a segment with empty lists become free.\<close>

lemma startup_seg_inv:
  assumes g: "g < 32" and al: "4096 dvd unat (segStart (g_vmPhysSeg s g))" "4096 dvd unat (segSize (g_vmPhysSeg s g))"
    and lim: "unat (segStart (g_vmPhysSeg s g)) + unat (segSize (g_vmPhysSeg s g)) < 2 ^ 32"
    and empty: "\<forall>k < 9. freeNode (g_vmPhysSeg s g) k = [] \<and> listCnt (g_vmPhysSeg s g) k = 0"
    and fits: "segSize (g_vmPhysSeg s g) = 0 \<or> (pageBase (g_vmPhysSeg s g) + unat (segSize (g_vmPhysSeg s g)) div 4096) * 24 \<le> unat (g_vmPageArraySize s)"
  shows "\<exists>s'. startup_seg g s = Some s' \<and> seg_inv s' g \<and> seg_free s' g = {seg_lo s g ..< seg_hi s g} \<and> vm_shape s s'"
proof -
  define n where "n = drop_bit 12 (segSize (g_vmPhysSeg s g))"
  define s1 where "s1 = s\<lparr>g_vmPageArray := \<lambda>p. if pageBase (g_vmPhysSeg s g) \<le> p \<and> p < pageBase (g_vmPhysSeg s g) + unat n
    then fresh_page (segStart (g_vmPhysSeg s g) + of_nat (4096 * (p - pageBase (g_vmPhysSeg s g)))) g else g_vmPageArray s p\<rparr>"
  have n: "unat n = unat (segSize (g_vmPhysSeg s g)) div 4096" by (simp add: n_def unat_drop32)
  have init: "\<exists>p a. VMPAGEINIT (unat n) (pageBase (g_vmPhysSeg s g)) (segStart (g_vmPhysSeg s g)) g s = Some (p, a, s1)"
    using fits unfolding VMPAGEINIT_spec s1_def n by auto
  have hi: "seg_hi s g = seg_lo s g + unat n" by (simp add: seg_hi_def n)
  have shape: "vm_shape s s1" and segs: "g_vmPhysSeg s1 = g_vmPhysSeg s" by (simp_all add: s1_def vm_shape_def)
  note sh = vm_shapeD [OF shape]
  have pages: "page_at s1 (page_of s g f) = fresh_page (frame_addr f) g" if inf: "in_seg s g f" for f
  proof -
    obtain d where d: "f = seg_lo s g + d" using inf le_Suc_ex [of "seg_lo s g" f] by (auto simp: in_seg_def)
    then have "d < unat n" using inf hi by (simp add: in_seg_def)
    moreover have "segStart (g_vmPhysSeg s g) = frame_addr (seg_lo s g)" using al(1) by (simp add: frame_addr_def seg_lo_def)
    then have "segStart (g_vmPhysSeg s g) + of_nat (4096 * d) = frame_addr f" by (simp add: d frame_addr_def algebra_simps)
    ultimately show ?thesis by (simp add: s1_def page_of_def d)
  qed
  have ord: "seg_ord s1 g = (\<lambda>_. 9)" using pages by (auto simp: seg_ord_def sh fresh_page_def)
  have "seg_layout s1 g" using g al lim pages by (simp add: seg_layout_def segs sh fresh_page_def)
  then have inv: "seg_inv s1 g" using empty by (simp add: seg_inv_def seg_rep_def ord segs no_blocks)
  have none: "seg_free s1 g = {}" by (simp add: seg_free_def ord no_blocks)
  have "seg_lo s1 g \<le> seg_lo s g" "seg_lo s g + unat n \<le> seg_hi s1 g" "{seg_lo s g ..< seg_lo s g + unat n} \<inter> seg_free s1 g = {}" by (simp_all add: sh hi none)
  from FreeContiguous_inv [OF inv this] obtain s' where s': "OsVmPhysPagesFreeContiguous (page_of s1 g (seg_lo s g)) n s1 = Some s'" "seg_inv s' g" "vm_frame g s1 s'"
    "seg_free s' g = seg_free s1 g \<union> {seg_lo s g ..< seg_lo s g + unat n}" by blast
  have "startup_seg g s = Some s'" using s'(1) init startup_seg_init [OF n_def] by (auto simp: sh page_of_def)
  with s' none hi vm_shape_trans [OF shape vm_frame_shape [OF s'(3)]] show ?thesis by auto
qed

section \<open>The whole start-up\<close>

text \<open>The memory the boot loader left: pages of 4096 bytes, \<open>boot_image\<close> of them taken by the kernel image and the boot allocations; the page array is
  computed for the \<open>boot_pages\<close> behind it.\<close>

definition boot_image :: "vm_phys \<Rightarrow> nat" where
  "boot_image s = (unat (g_vmBootMemBase s - KERNEL_ASPACE_BASE s) + 4095) div 4096"

definition boot_pages :: "vm_phys \<Rightarrow> nat" where
  "boot_pages s = unat (areaSize (g_physArea s)) div 4096 - boot_image s"

definition array_entries :: "nat \<Rightarrow> nat" where
  "array_entries p = p * 4096 div 4120"

definition array_pages :: "nat \<Rightarrow> nat" where
  "array_pages p = (array_entries p * 24 + 4095) div 4096"

definition boot_ok :: "vm_phys \<Rightarrow> bool" where
  "boot_ok s \<longleftrightarrow> g_vmPhysSegNum s = 0 \<and> \<not> g_kHeapInited s \<and> 4096 dvd unat (areaStart (g_physArea s)) \<and> 4096 dvd unat (areaSize (g_physArea s)) \<and>
    unat (areaStart (g_physArea s)) + unat (areaSize (g_physArea s)) < 2 ^ 32 \<and> unat (g_vmBootMemBase s - KERNEL_ASPACE_BASE s) \<le> unat (areaSize (g_physArea s)) \<and>
    (\<forall>f < unat (areaSize (g_physArea s)) div 4096. let g = unat (areaStart (g_physArea s)) div 4096 + f in g \<noteq> 0 \<and> kernel_addr s g \<noteq> 0)"

lemma array_pages_le: "array_pages p \<le> p"
proof -
  have "array_entries p * 4120 \<le> p * 4096" unfolding array_entries_def by simp
  then have "array_entries p * 24 + 4095 \<le> p * 4096 + 4095" by simp
  then have "array_entries p * 24 + 4095 < Suc p * 4096" by simp
  then show ?thesis unfolding array_pages_def by (simp add: less_Suc_eq_le [symmetric] less_mult_imp_div_less)
qed

text \<open>The array has a structure for every frame that is left.\<close>

definition array_fits :: "nat \<Rightarrow> bool" where
  "array_fits p \<longleftrightarrow> p - array_pages p \<le> array_entries p"

text \<open>Two roundings, so the array may describe one frame less than there are.\<close>

lemma array_one_short: "p - array_pages p \<le> array_entries p + 1"
proof -
  let ?n = "array_entries p"
  have "p * 4096 < ?n * 4120 + 4120" unfolding array_entries_def using dividend_less_div_times [of 4120 "p * 4096"] by simp
  moreover have "?n * 24 \<le> array_pages p * 4096" unfolding array_pages_def using dividend_less_div_times [of 4096 "?n * 24 + 4095"] by simp
  ultimately have "p * 4096 < (?n + array_pages p + 1) * 4096 + 24" by (simp add: algebra_simps)
  then show ?thesis by simp
qed

lemma Roundup_page: "unat x + 4096 \<le> 2 ^ 32 \<Longrightarrow> unat (ROUNDUP x 4096) = 4096 * ((unat x + 4095) div 4096)"
  using ROUNDUP_pow2 [of 12 x] by simp

lemma adjust_area:
  assumes n: "unat n = 4096 * m" and area: "unat (areaStart (g_physArea s)) + unat (areaSize (g_physArea s)) < 2 ^ 32" "unat n \<le> unat (areaSize (g_physArea s))"
    and al: "4096 dvd unat (areaStart (g_physArea s))" "4096 dvd unat (areaSize (g_physArea s))"
  shows "unat (areaStart (g_physArea (OsVmPhysAreaSizeAdjust n s))) = 4096 * (unat (areaStart (g_physArea s)) div 4096 + m)"
    and "unat (areaSize (g_physArea (OsVmPhysAreaSizeAdjust n s))) = 4096 * (unat (areaSize (g_physArea s)) div 4096 - m)"
proof -
  let ?a = "areaStart (g_physArea s)" and ?n = "areaSize (g_physArea s)"
  have "unat (?a + n) = unat ?a + unat n" using unat_add_lem [of ?a n] area by simp
  with al(1) n show "unat (areaStart (g_physArea (OsVmPhysAreaSizeAdjust n s))) = 4096 * (unat ?a div 4096 + m)"
    by (simp add: OsVmPhysAreaSizeAdjust_def distrib_left)
  have "unat (?n - n) = unat ?n - unat n" using area(2) by (simp add: unat_sub word_le_nat_alt)
  with al(2) n show "unat (areaSize (g_physArea (OsVmPhysAreaSizeAdjust n s))) = 4096 * (unat ?n div 4096 - m)"
    by (simp add: OsVmPhysAreaSizeAdjust_def diff_mult_distrib2)
qed

lemma adjust_frame [simp]:
  "g_vmPhysSegNum (OsVmPhysAreaSizeAdjust n s) = g_vmPhysSegNum s" "g_vmPageArraySize (OsVmPhysAreaSizeAdjust n s) = g_vmPageArraySize s"
  "SYS_MEM_BASE (OsVmPhysAreaSizeAdjust n s) = SYS_MEM_BASE s" "KERNEL_ASPACE_BASE (OsVmPhysAreaSizeAdjust n s) = KERNEL_ASPACE_BASE s"
  "g_kHeapInited (OsVmPhysAreaSizeAdjust n s) = g_kHeapInited s"
  by (simp_all add: OsVmPhysAreaSizeAdjust_def)

text \<open>The size of the page array and the area that is left.\<close>

lemma carve_spec:
  assumes "boot_ok s"
  shows "unat (g_vmPageArraySize (startup_carve s)) = 24 * array_entries (boot_pages s)"
    and "unat (areaStart (g_physArea (startup_carve s))) = 4096 * (unat (areaStart (g_physArea s)) div 4096 + boot_image s + array_pages (boot_pages s))"
    and "unat (areaSize (g_physArea (startup_carve s))) = 4096 * (boot_pages s - array_pages (boot_pages s))"
    and "g_vmPhysSegNum (startup_carve s) = 0" "SYS_MEM_BASE (startup_carve s) = SYS_MEM_BASE s" "KERNEL_ASPACE_BASE (startup_carve s) = KERNEL_ASPACE_BASE s"
    and "boot_image s \<le> unat (areaSize (g_physArea s)) div 4096"
proof -
  let ?a = "unat (areaStart (g_physArea s))" and ?n = "unat (areaSize (g_physArea s))" and ?b = "g_vmBootMemBase s - KERNEL_ASPACE_BASE s"
  let ?p = "boot_pages s" let ?e = "array_entries ?p"
  have ok: "4096 dvd ?a" "4096 dvd ?n" "?a + ?n < 2 ^ 32" "unat ?b \<le> ?n" "g_vmPhysSegNum s = 0" "\<not> g_kHeapInited s" using assms by (simp_all add: boot_ok_def)
  obtain N where N: "?n = 4096 * N" using ok(2) by blast
  have N20: "4096 * N < 2 ^ 32" using ok(3) N by simp
  have img: "unat (ROUNDUP ?b 4096) = 4096 * boot_image s" using Roundup_page [of ?b] ok(4) N N20 unfolding boot_image_def by simp
  show le: "boot_image s \<le> ?n div 4096" using ok(4) unfolding boot_image_def N by (simp add: div_le_mono)
  define s1 where "s1 = OsVmPhysAreaSizeAdjust (ROUNDUP ?b 4096) s"
  have le1: "unat (ROUNDUP ?b 4096) \<le> ?n" using le N unfolding img by simp
  have s1: "unat (areaStart (g_physArea s1)) = 4096 * (?a div 4096 + boot_image s)" "unat (areaSize (g_physArea s1)) = 4096 * ?p"
    unfolding s1_def boot_pages_def by (rule adjust_area [OF img ok(3) le1 ok(1,2)])+
  have p: "?p \<le> N" "?p * 4096 < 2 ^ 32" using N20 by (simp_all add: boot_pages_def N)
  have num: "unat (OsVmPhysPageNumGet s1) = ?p" by (simp add: OsVmPhysPageNumGet_def unat_drop32 s1)
  have mul: "unat (OsVmPhysPageNumGet s1 * 4096) = ?p * 4096" using unat_mult_lem [of "OsVmPhysPageNumGet s1" 4096] p(2) by (simp add: num)
  have entries: "unat (OsVmPhysPageNumGet s1 * 4096 div 4120) = ?e" unfolding unat_div mul by (simp add: array_entries_def)
  have "?e * 4120 \<le> ?p * 4096" unfolding array_entries_def by simp
  then have e: "?e * 24 + 4096 \<le> 2 ^ 32" using p(2) by simp
  then have size: "unat (OsVmPhysPageNumGet s1 * 4096 div 4120 * 24) = ?e * 24"
    using unat_mult_lem [of "OsVmPhysPageNumGet s1 * 4096 div 4120" 24] by (simp add: entries)
  define s3 where "s3 = fst (OsVmBootMemAlloc (OsVmPhysPageNumGet s1 * 4096 div 4120 * 24) (s1\<lparr>g_vmPageArraySize := OsVmPhysPageNumGet s1 * 4096 div 4120 * 24\<rparr>))"
  have s3: "g_vmPageArraySize s3 = OsVmPhysPageNumGet s1 * 4096 div 4120 * 24" "g_physArea s3 = g_physArea s1" "g_vmPhysSegNum s3 = 0"
    "SYS_MEM_BASE s3 = SYS_MEM_BASE s" "KERNEL_ASPACE_BASE s3 = KERNEL_ASPACE_BASE s"
    using ok(5,6) by (simp_all add: s3_def OsVmBootMemAlloc_def Let_def s1_def)
  have carve: "startup_carve s = OsVmPhysAreaSizeAdjust (ROUNDUP (g_vmPageArraySize s3) 4096) s3"
    by (simp add: startup_carve_def Let_def s3_def s1_def)
  have arr: "unat (ROUNDUP (g_vmPageArraySize s3) 4096) = 4096 * array_pages ?p" using Roundup_page e unfolding s3 array_pages_def size [symmetric] by blast
  have area: "unat (areaStart (g_physArea s3)) + unat (areaSize (g_physArea s3)) < 2 ^ 32" "unat (ROUNDUP (g_vmPageArraySize s3) 4096) \<le> unat (areaSize (g_physArea s3))"
    "4096 dvd unat (areaStart (g_physArea s3))" "4096 dvd unat (areaSize (g_physArea s3))"
    using array_pages_le [of ?p] ok(1-3) le by (simp_all add: arr s3(2) s1 boot_pages_def distrib_left)
  show "unat (areaStart (g_physArea (startup_carve s))) = 4096 * (?a div 4096 + boot_image s + array_pages ?p)"
    "unat (areaSize (g_physArea (startup_carve s))) = 4096 * (?p - array_pages ?p)"
    using adjust_area [OF arr area] by (simp_all add: carve s3 s1)
  show "unat (g_vmPageArraySize (startup_carve s)) = 24 * ?e" "g_vmPhysSegNum (startup_carve s) = 0" "SYS_MEM_BASE (startup_carve s) = SYS_MEM_BASE s"
    "KERNEL_ASPACE_BASE (startup_carve s) = KERNEL_ASPACE_BASE s" by (simp_all add: carve s3 size)
qed

lemma segment_ready:
  assumes "g_vmPhysSegNum s = 0"
  obtains s' where "OsVmPhysSegAdd s = Some s'" "g_vmPhysSegNum (OsVmPhysInit s') = 1" "SYS_MEM_BASE (OsVmPhysInit s') = SYS_MEM_BASE s"
    "KERNEL_ASPACE_BASE (OsVmPhysInit s') = KERNEL_ASPACE_BASE s" "segStart (g_vmPhysSeg (OsVmPhysInit s') 0) = areaStart (g_physArea s)"
    "segSize (g_vmPhysSeg (OsVmPhysInit s') 0) = areaSize (g_physArea s)"
    "\<forall>k < 9. freeNode (g_vmPhysSeg (OsVmPhysInit s') 0) k = [] \<and> listCnt (g_vmPhysSeg (OsVmPhysInit s') 0) k = 0"
    "pageBase (g_vmPhysSeg (OsVmPhysInit s') 0) = 0" "g_vmPageArraySize (OsVmPhysInit s') = g_vmPageArraySize s"
  using assms by (simp add: OsVmPhysSegAdd_def OsVmPhysSegCreate_def OsVmPhysInit_def upd_seg_def OsVmPhysLruInit_def OsVmPhysFreeListInit_def)

lemma startup_inv:
  assumes ok: "boot_ok s"
  shows "if array_fits (boot_pages s)
    then \<exists>s'. OsVmPageStartup s = Some s' \<and> vm_inv s' \<and> vm_free s' = vm_whole s' \<and>
      vm_whole s' = {unat (areaStart (g_physArea s)) div 4096 + boot_image s + array_pages (boot_pages s) ..<
        unat (areaStart (g_physArea s)) div 4096 + unat (areaSize (g_physArea s)) div 4096}
    else OsVmPageStartup s = None"
proof -
  let ?c = "startup_carve s" let ?a = "unat (areaStart (g_physArea s)) div 4096" and ?n = "unat (areaSize (g_physArea s)) div 4096"
  note carve = carve_spec [OF ok]
  obtain s5 where s5: "OsVmPhysSegAdd ?c = Some s5" "g_vmPhysSegNum (OsVmPhysInit s5) = 1" "SYS_MEM_BASE (OsVmPhysInit s5) = SYS_MEM_BASE ?c"
    "KERNEL_ASPACE_BASE (OsVmPhysInit s5) = KERNEL_ASPACE_BASE ?c" "segStart (g_vmPhysSeg (OsVmPhysInit s5) 0) = areaStart (g_physArea ?c)"
    "segSize (g_vmPhysSeg (OsVmPhysInit s5) 0) = areaSize (g_physArea ?c)"
    "\<forall>k < 9. freeNode (g_vmPhysSeg (OsVmPhysInit s5) 0) k = [] \<and> listCnt (g_vmPhysSeg (OsVmPhysInit s5) 0) k = 0"
    "pageBase (g_vmPhysSeg (OsVmPhysInit s5) 0) = 0" "g_vmPageArraySize (OsVmPhysInit s5) = g_vmPageArraySize ?c"
    by (rule segment_ready [OF carve(4)])
  let ?s6 = "OsVmPhysInit s5"
  have sum: "?a + boot_image s + array_pages (boot_pages s) + (boot_pages s - array_pages (boot_pages s)) = ?a + ?n"
    using carve(7) array_pages_le [of "boot_pages s"] by (simp add: boot_pages_def)
  have lim: "4096 * (?a + ?n) < 2 ^ 32" using ok by (auto simp: boot_ok_def)
  have lo: "seg_lo ?s6 0 = ?a + boot_image s + array_pages (boot_pages s)" by (simp add: seg_lo_def s5 carve)
  have hi: "seg_hi ?s6 0 = ?a + ?n" unfolding seg_hi_def lo using sum by (simp add: s5 carve)
  have "unat (segStart (g_vmPhysSeg ?s6 0)) + unat (segSize (g_vmPhysSeg ?s6 0)) < 2 ^ 32" using lim unfolding s5(5,6) carve(2,3) distrib_left [symmetric] sum .
  note lim6 = this
  show ?thesis
  proof (cases "array_fits (boot_pages s)")
    case False
    let ?k = "boot_pages s - array_pages (boot_pages s)"
    have n: "unat (drop_bit 12 (segSize (g_vmPhysSeg ?s6 0))) = ?k" by (simp add: unat_drop32 s5 carve)
    have "VMPAGEINIT ?k 0 (segStart (g_vmPhysSeg ?s6 0)) 0 ?s6 = None" using False by (simp add: VMPAGEINIT_spec s5 carve array_fits_def)
    then have "startup_seg 0 ?s6 = None" using startup_seg_init [OF refl, of 0 ?s6] by (simp add: n s5(8))
    then have "OsVmPageStartup s = None" using s5(1,2) by (simp add: OsVmPageStartup_def)
    with False show ?thesis by simp
  next
    case True
    have "(pageBase (g_vmPhysSeg ?s6 0) + unat (segSize (g_vmPhysSeg ?s6 0)) div 4096) * 24 \<le> unat (g_vmPageArraySize ?s6)"
      using True by (simp add: s5 carve array_fits_def)
    with startup_seg_inv [of 0 ?s6] s5(5-7) lim6 carve(2,3) obtain s' where s': "startup_seg 0 ?s6 = Some s'" "seg_inv s' 0" "seg_free s' 0 = {seg_lo ?s6 0 ..< seg_hi ?s6 0}" "vm_shape ?s6 s'"
      by auto
    note sh = vm_shapeD [OF s'(4)]
    have num: "g_vmPhysSegNum s' = 1" using s5(2) sh by simp
    have whole: "vm_whole s' = {seg_lo ?s6 0 ..< seg_hi ?s6 0}" by (auto simp: vm_whole_def num sh in_seg_def)
    have free: "vm_free s' = vm_whole s'" unfolding whole vm_free_def num s'(3) [symmetric] by auto
    have addr: "f \<noteq> 0 \<and> kernel_addr s' f \<noteq> 0" if "f \<in> vm_whole s'" for f
    proof -
      have "?a \<le> f" "f - ?a < ?n" using that unfolding whole lo hi by auto
      moreover have "kernel_addr s' f = kernel_addr s f" using s'(4) s5(3,4) carve(5,6) by (simp add: vm_shape_def kernel_addr_def)
      moreover have "\<forall>i < ?n. ?a + i \<noteq> 0 \<and> kernel_addr s (?a + i) \<noteq> 0" using ok by (simp add: boot_ok_def Let_def)
      ultimately show ?thesis by (metis le_add_diff_inverse)
    qed
    have "vm_inv s'" using s'(2) addr by (simp add: vm_inv_def num segs_apart_def)
    moreover have "OsVmPageStartup s = Some s'" using s5(1,2) s'(1) by (simp add: OsVmPageStartup_def)
    ultimately show ?thesis using free whole lo hi True by auto
  qed
qed

section \<open>Properties\<close>

text \<open>A board with 600 pages of memory, \<open>n\<close> of them taken by the kernel image.\<close>

definition boot_demo :: "nat \<Rightarrow> vm_phys" where
  "boot_demo n = \<lparr>g_physArea = \<lparr>areaStart = 0x80000000, areaSize = 0x258000\<rparr>, g_vmPhysSeg = (\<lambda>_. demo_seg), g_vmPhysSegNum = 0, g_vmPageArray = demo_page,
    g_vmPageArraySize = 0, g_vmBootMemBase = 0x40000000 + of_nat (4096 * n), g_kHeapInited = False, pageMem = (\<lambda>_. []), SYS_MEM_BASE = 0x80000000,
    KERNEL_ASPACE_BASE = 0x40000000\<rparr>"

lemma boot_demo_ok:
  assumes "n \<le> 600"
  shows "boot_ok (boot_demo n)" "boot_image (boot_demo n) = n" "boot_pages (boot_demo n) = 600 - n"
proof -
  have "kernel_addr (boot_demo n) (0x80000 + f) \<noteq> 0" if "f < 600" for f
  proof -
    have "frame_addr (0x80000 + f) = kernel_addr (boot_demo n) (0x80000 + f) + 0x40000000" by (simp add: kernel_addr_def boot_demo_def)
    then have "kernel_addr (boot_demo n) (0x80000 + f) = 0 \<Longrightarrow> unat (frame_addr (0x80000 + f)) = 0x40000000" by simp
    then show ?thesis using that unat_frame_addr [of "0x80000 + f"] by auto
  qed
  moreover have u: "unat (of_nat (4096 * n) :: u32) = 4096 * n" using assms by (intro unat_of_nat32) simp
  ultimately show "boot_ok (boot_demo n)" using assms by (simp add: boot_ok_def Let_def) (simp add: boot_demo_def)
  show "boot_image (boot_demo n) = n" using u by (simp add: boot_image_def boot_demo_def)
  then show "boot_pages (boot_demo n) = 600 - n" by (simp add: boot_pages_def) (simp add: boot_demo_def)
qed

text \<open>C21. Start-up (\<^verbatim>\<open>OsVmPageStartup\<close>), with the page array bounded by the bytes allocated for it. When the array has a structure for every frame that is left, start-up
  returns and leaves a consistent allocator in which every frame it manages is free: exactly the frames of the memory area behind the kernel image and the pages
  of the page array. Otherwise, which does happen, it writes a structure past the end of the array.\<close>

theorem startup_all_frames_free:
  assumes "boot_ok s"
  shows "if array_fits (boot_pages s)
    then \<exists>s'. OsVmPageStartup s = Some s' \<and> vm_inv s' \<and> vm_free s' = vm_whole s' \<and>
      vm_whole s' = {unat (areaStart (g_physArea s)) div 4096 + boot_image s + array_pages (boot_pages s) ..<
        unat (areaStart (g_physArea s)) div 4096 + unat (areaSize (g_physArea s)) div 4096}
    else OsVmPageStartup s = None"
  by (rule startup_inv [OF assms])

theorem startup_all_frames_free_witness:
  "(\<exists>s'. OsVmPageStartup (boot_demo 85) = Some s' \<and> vm_inv s' \<and> vm_free s' = {0x80058 ..< 0x80258}) \<and> OsVmPageStartup (boot_demo 84) = None"
proof -
  have a: "array_pages 515 = 3" "array_fits 515" "\<not> array_fits 516" by (simp_all add: array_fits_def array_pages_def array_entries_def)
  note d = boot_demo_ok [of 85, simplified] boot_demo_ok [of 84, simplified]
  have "\<exists>s'. OsVmPageStartup (boot_demo 85) = Some s' \<and> vm_inv s' \<and> vm_free s' = {0x80058 ..< 0x80258}"
    using startup_all_frames_free [OF d(1)] a(1,2) unfolding d(2,3) by (auto simp: boot_demo_def)
  moreover have "OsVmPageStartup (boot_demo 84) = None" using startup_all_frames_free [OF d(4)] a(3) unfolding d(6) by simp
  ultimately show ?thesis by blast
qed

text \<open>The page array start-up allocates is large enough up to one entry: the frames of the segment are at most one more than the page structures that fit the array.
  The entry that may be missing is a real case: 516 pages behind the image give an array of 512 structures for 513 frames.\<close>

theorem page_array_at_most_one_short:
  assumes "boot_ok s"
  shows "unat (OsVmPhysPageNumGet (startup_carve s)) \<le> unat (g_vmPageArraySize (startup_carve s)) div 24 + 1"
  using array_one_short [of "boot_pages s"] carve_spec(1,3) [OF assms] by (simp add: OsVmPhysPageNumGet_def unat_drop32)

end
