(* ===== verification/LosTlsfIndex.thy ===== *)
theory LosTlsfIndex
  imports LosBitmap LosWord
begin

text \<open>
  The size classes of the heap, \<^verbatim>\<open>kernel/base/mem/tlsf/los_memory.c\<close>: free blocks are kept in 223 lists. Blocks below 128 bytes have a list for
  every multiple of 4; larger ones are classed by the highest set bit of the size (\<open>fl\<close>) and the three bits below it (\<open>sl\<close>).
\<close>

section \<open>The code\<close>

abbreviation (input) OS_MEM_SLI :: nat where "OS_MEM_SLI \<equiv> 3"
abbreviation (input) OS_MEM_SMALL_BUCKET_COUNT :: u32 where "OS_MEM_SMALL_BUCKET_COUNT \<equiv> 31"
abbreviation (input) OS_MEM_SMALL_BUCKET_MAX_SIZE :: u32 where "OS_MEM_SMALL_BUCKET_MAX_SIZE \<equiv> 128"
abbreviation (input) OS_MEM_FREE_LIST_NUM :: u32 where "OS_MEM_FREE_LIST_NUM \<equiv> 8"
abbreviation (input) OS_MEM_LARGE_START_BUCKET :: u32 where "OS_MEM_LARGE_START_BUCKET \<equiv> 7"
abbreviation (input) OS_MEM_FREE_LIST_COUNT :: u32 where "OS_MEM_FREE_LIST_COUNT \<equiv> 223" \<comment> \<open>\<open>31 + (24 << 3)\<close>\<close>
abbreviation (input) OS_MEM_BITMAP_MASK :: u32 where "OS_MEM_BITMAP_MASK \<equiv> 0x1F"

definition OsMemFFS :: "u32 \<Rightarrow> u16" where
  "OsMemFFS bitmap = 0x1F - of_nat (CLZ (bitmap AND (NOT bitmap + 1)))"

definition OsMemFLS :: "u32 \<Rightarrow> u16" where
  "OsMemFLS bitmap = 0x1F - of_nat (CLZ bitmap)"

definition OsMemLog2 :: "u32 \<Rightarrow> u32" where
  "OsMemLog2 sz = ucast (OsMemFLS sz)"

definition OsMemFlGet :: "u32 \<Rightarrow> u32" where
  "OsMemFlGet sz = (if sz < OS_MEM_SMALL_BUCKET_MAX_SIZE then drop_bit 2 sz - 1 else OsMemLog2 sz)"

definition OsMemSlGet :: "u32 \<Rightarrow> u32 \<Rightarrow> u32" where
  "OsMemSlGet sz fl = drop_bit (unat fl) (push_bit OS_MEM_SLI sz) - OS_MEM_FREE_LIST_NUM"

definition OsMemFreeListIndexGet :: "u32 \<Rightarrow> u32" where
  "OsMemFreeListIndexGet sz =
    (let fl = OsMemFlGet sz
     in if sz < OS_MEM_SMALL_BUCKET_MAX_SIZE then fl
        else OS_MEM_SMALL_BUCKET_COUNT + push_bit OS_MEM_SLI (fl - OS_MEM_LARGE_START_BUCKET) + OsMemSlGet sz fl)"

section \<open>The lowest and the highest bit\<close>

lemma clz_le: "CLZ w \<le> 32"
  by (simp add: CLZ_def first_index_le)

lemma CLZ_eq:
  assumes "k < 32" and "bit w k" and "\<And>j. k < j \<Longrightarrow> \<not> bit w j"
  shows "CLZ w = 31 - k"
proof -
  have "w \<noteq> 0" using assms(2) by auto
  then have h: "CLZ w < 32" "bit w (31 - CLZ w)" using CLZ_bit by auto
  have "\<not> 31 - k < CLZ w" using CLZ_least [of "31 - k" w] assms by auto
  moreover have "31 - CLZ w \<le> k" using h(2) assms(3) by (meson not_le)
  ultimately show ?thesis by linarith
qed

lemma FLS_high: "w \<noteq> 0 \<Longrightarrow> unat (OsMemFLS w) = LOS_HighBitGet w"
proof -
  assume w: "w \<noteq> 0"
  have c: "CLZ w < 32" using CLZ_bit [OF w] by simp
  then have e: "(0x1F :: u16) - of_nat (CLZ w) = of_nat (31 - CLZ w)" by (simp add: of_nat_diff)
  have "31 - CLZ w < 2 ^ 16" by (rule le_less_trans [of _ 31]) simp_all
  with w show ?thesis unfolding OsMemFLS_def e by (simp add: LOS_HighBitGet_def unsigned_of_nat take_bit_nat_eq_self)
qed

lemma low_bit_only:
  fixes w :: u32
  assumes "w \<noteq> 0"
  shows "bit (w AND (NOT w + 1)) j \<longleftrightarrow> j = LOS_LowBitGet w"
proof -
  let ?k = "LOS_LowBitGet w"
  have k: "?k < 32" "bit w ?k" "\<And>j. bit w j \<Longrightarrow> ?k \<le> j" using LOS_LowBitGet_least [OF assms] by auto
  have neg: "NOT w + 1 = - w" by (simp add: minus_eq_not_plus_1)
  have "take_bit ?k w = 0" by (rule bit_word_eqI) (use k(3) in \<open>auto simp: bit_take_bit_iff not_less [symmetric]\<close>)
  then have dv: "w = push_bit ?k (drop_bit ?k w)" by (metis add_0_right bits_ident)
  have odd: "bit (drop_bit ?k w) 0" using k(2) by (simp add: bit_drop_bit_eq)
  have "- w = push_bit ?k (- drop_bit ?k w)" by (subst dv) (simp add: push_bit_minus)
  then have "w AND (NOT w + 1) = push_bit ?k (drop_bit ?k w) AND push_bit ?k (- drop_bit ?k w)" using dv neg by simp
  then have eq: "w AND (NOT w + 1) = push_bit ?k (drop_bit ?k w AND - drop_bit ?k w)" by (simp only: push_bit_and)
  have b: "bit (drop_bit ?k w AND - drop_bit ?k w) j \<longleftrightarrow> j = 0" for j
  proof -
    let ?v = "drop_bit ?k w"
    have "NOT ?v + 1 = NOT ?v OR 1" by (rule disjunctive_add) (use odd in \<open>auto simp: bit_not_iff bit_1_iff\<close>)
    then have "- ?v = NOT ?v OR 1" by (simp add: minus_eq_not_plus_1)
    then show ?thesis using odd by (auto simp: bit_simps)
  qed
  show ?thesis unfolding eq bit_push_bit_iff b using k(1) by auto
qed

lemma FFS_low: "w \<noteq> 0 \<Longrightarrow> unat (OsMemFFS w) = LOS_LowBitGet w"
proof -
  assume w: "w \<noteq> 0"
  let ?v = "w AND (NOT w + 1)" let ?k = "LOS_LowBitGet w"
  have k: "?k < 32" by (rule LOS_LowBitGet_least(1) [OF w])
  have v: "bit ?v j \<longleftrightarrow> j = ?k" for j by (rule low_bit_only [OF w])
  then have nz: "?v \<noteq> 0" by (metis bit_0_eq bot_apply bot_bool_def)
  have "OsMemFFS w = OsMemFLS ?v" by (simp add: OsMemFFS_def OsMemFLS_def)
  with FLS_high [OF nz] have "unat (OsMemFFS w) = LOS_HighBitGet ?v" by simp
  also have "\<dots> = ?k" using LOS_HighBitGet_greatest(2) [OF nz] v by blast
  finally show ?thesis .
qed

lemma high_range:
  assumes "0 < n" and "n < 2 ^ 32"
  defines "k \<equiv> LOS_HighBitGet (of_nat n)"
  shows "2 ^ k \<le> n" and "n < 2 ^ (k + 1)" and "k < 32"
proof -
  let ?w = "of_nat n :: u32"
  have b: "bit ?w j \<longleftrightarrow> bit n j" for j by (subst (2) unat_of_nat32 [OF assms(2), symmetric]) (simp add: bit_unsigned_iff)
  have nz: "?w \<noteq> 0" using assms(1,2) unat_of_nat32 [of n] by force
  note h = LOS_HighBitGet_greatest [OF nz, folded k_def, unfolded b]
  show "k < 32" by (rule h(1))
  show "2 ^ k \<le> n"
  proof (rule ccontr)
    assume "\<not> 2 ^ k \<le> n"
    then have "take_bit k n = n" by (simp add: take_bit_nat_eq_self)
    with h(2) show False by (metis bit_take_bit_iff less_irrefl)
  qed
  have "take_bit (k + 1) n = n" by (rule bit_eqI) (use h(3) in \<open>auto simp: bit_take_bit_iff less_Suc_eq_le\<close>)
  then show "n < 2 ^ (k + 1)" by (metis take_bit_nat_less_exp)
qed

section \<open>The classes\<close>

lemma log_unique: "2 ^ k \<le> n \<Longrightarrow> n < 2 ^ (k + 1) \<Longrightarrow> 2 ^ j \<le> n \<Longrightarrow> n < 2 ^ (j + 1) \<Longrightarrow> j = k" for n :: nat
proof -
  assume a: "2 ^ k \<le> n" "n < 2 ^ (k + 1)" "2 ^ j \<le> n" "n < 2 ^ (j + 1)"
  then have "(2 :: nat) ^ k < 2 ^ (j + 1)" "(2 :: nat) ^ j < 2 ^ (k + 1)" by linarith+
  then have "k < j + 1" "j < k + 1" by (metis one_less_numeral_iff power_strict_increasing_iff semiring_norm(76))+
  then show ?thesis by linarith
qed

definition bucket :: "nat \<Rightarrow> nat" where
  "bucket n = (if n < 128 then n div 4 - 1
    else let k = LOS_HighBitGet (of_nat n) in 31 + (k - 7) * 8 + (8 * n div 2 ^ k - 8))"

lemma bucket_large:
  assumes "128 \<le> n" and "n < 2 ^ 29"
  shows "\<exists>k. 7 \<le> k \<and> k < 29 \<and> 2 ^ k \<le> n \<and> n < 2 ^ (k + 1) \<and> LOS_HighBitGet (of_nat n) = k \<and>
    8 \<le> 8 * n div 2 ^ k \<and> 8 * n div 2 ^ k < 16 \<and> bucket n = 31 + (k - 7) * 8 + (8 * n div 2 ^ k - 8)"
proof -
  let ?k = "LOS_HighBitGet (of_nat n)"
  have h: "2 ^ ?k \<le> n" "n < 2 ^ (?k + 1)" using high_range [of n] assms by auto
  have "(2 :: nat) ^ 7 = 128" by simp
  then have "(2 :: nat) ^ 7 < 2 ^ (?k + 1)" using le_less_trans [OF assms(1) h(2)] by (rule ord_eq_less_trans)
  then have "7 < ?k + 1" by (rule power_less_imp_less_exp [rotated]) simp
  moreover have "?k < 29" by (rule power_less_imp_less_exp [OF _ le_less_trans [OF h(1) assms(2)]]) simp
  moreover have "8 * 2 ^ ?k div 2 ^ ?k \<le> 8 * n div 2 ^ ?k" using h(1) by (intro div_le_mono) simp
  then have "8 \<le> 8 * n div 2 ^ ?k" by simp
  moreover have "8 * n div 2 ^ ?k < 16" using h(2) by (intro less_mult_imp_div_less) simp
  ultimately show ?thesis using h assms by (intro exI [of _ ?k]) (simp add: bucket_def Let_def)
qed

lemma index_class:
  assumes "4 \<le> n" and "n < 2 ^ 29"
  shows "unat (OsMemFreeListIndexGet (of_nat n)) = bucket n"
proof (cases "n < 128")
  case True
  have u: "unat (of_nat n :: u32) = n" by (rule unat_of_nat32) (use assms in simp)
  then have "drop_bit 2 (of_nat n :: u32) \<ge> 1" using True assms by (simp add: word_le_nat_alt unat_drop32)
  then have "unat (drop_bit 2 (of_nat n :: u32) - 1) = n div 4 - 1" using u by (simp add: unat_sub32 unat_drop32)
  with True u show ?thesis by (simp add: OsMemFreeListIndexGet_def OsMemFlGet_def bucket_def word_less_nat_alt)
next
  case False
  from assms obtain k where k: "7 \<le> k" "k < 29" "LOS_HighBitGet (of_nat n) = k" "8 \<le> 8 * n div 2 ^ k" "8 * n div 2 ^ k < 16"
    "bucket n = 31 + (k - 7) * 8 + (8 * n div 2 ^ k - 8)" using bucket_large [of n] False by (auto simp: not_less)
  have u: "unat (of_nat n :: u32) = n" by (rule unat_of_nat32) (use assms in simp)
  then have nz: "(of_nat n :: u32) \<noteq> 0" using assms by force
  have fl: "unat (OsMemLog2 (of_nat n)) = k"
    unfolding OsMemLog2_def using FLS_high [OF nz] k by (simp add: unsigned_ucast_eq take_bit_nat_eq_self)
  have "unat (push_bit 3 (of_nat n :: u32)) = 8 * n"
    unfolding push_bit_eq_mult using unat_mult32 [of "of_nat n" "2 ^ 3"] u assms by simp
  then have "unat (drop_bit k (push_bit 3 (of_nat n :: u32))) = 8 * n div 2 ^ k" by (simp add: unat_drop32)
  then have sl: "unat (OsMemSlGet (of_nat n) (OsMemLog2 (of_nat n))) = 8 * n div 2 ^ k - 8"
    unfolding OsMemSlGet_def fl using k(4) by (subst unat_sub32) (simp_all add: word_le_nat_alt)
  have "unat (OsMemLog2 (of_nat n) - 7) = k - 7" using fl k(1) by (subst unat_sub32) (simp_all add: word_le_nat_alt)
  then have p: "unat (push_bit 3 (OsMemLog2 (of_nat n) - 7)) = (k - 7) * 8"
    unfolding push_bit_eq_mult using unat_mult32 [of "OsMemLog2 (of_nat n) - 7" "2 ^ 3"] k(2) by simp
  have i: "unat (31 + push_bit 3 (OsMemLog2 (of_nat n) - 7)) = 31 + (k - 7) * 8"
    using unat_add32 [of 31 "push_bit 3 (OsMemLog2 (of_nat n) - 7)"] p k(2) by simp
  have "unat (31 + push_bit 3 (OsMemLog2 (of_nat n) - 7) + OsMemSlGet (of_nat n) (OsMemLog2 (of_nat n))) = 31 + (k - 7) * 8 + (8 * n div 2 ^ k - 8)"
    using unat_add32 [of "31 + push_bit 3 (OsMemLog2 (of_nat n) - 7)" "OsMemSlGet (of_nat n) (OsMemLog2 (of_nat n))"] i sl k(2,5) by simp
  moreover have "\<not> (of_nat n :: u32) < 128" using False u by (simp add: word_less_nat_alt)
  ultimately show ?thesis using k(6) by (simp add: OsMemFreeListIndexGet_def OsMemFlGet_def Let_def)
qed

lemma bucket_mono:
  assumes "n \<le> m" and "m < 2 ^ 29"
  shows "bucket n \<le> bucket m"
proof -
  consider "m < 128" | "n < 128" "128 \<le> m" | "128 \<le> n" by linarith
  then show ?thesis
  proof cases
    case 1
    with assms show ?thesis by (simp add: bucket_def div_le_mono diff_le_mono)
  next
    case 2
    then have "bucket n \<le> 30" by (simp add: bucket_def)
    moreover obtain k where "bucket m = 31 + (k - 7) * 8 + (8 * m div 2 ^ k - 8)" using bucket_large [OF 2(2) assms(2)] by blast
    ultimately show ?thesis by linarith
  next
    case 3
    with assms obtain k where k: "7 \<le> k" "2 ^ k \<le> n" "n < 2 ^ (k + 1)" "8 * n div 2 ^ k < 16" "bucket n = 31 + (k - 7) * 8 + (8 * n div 2 ^ k - 8)"
      using bucket_large [OF 3 le_less_trans [OF assms]] by blast
    from 3 assms obtain j where j: "2 ^ j \<le> m" "m < 2 ^ (j + 1)" "8 \<le> 8 * m div 2 ^ j" "bucket m = 31 + (j - 7) * 8 + (8 * m div 2 ^ j - 8)"
      using bucket_large [OF le_trans [OF 3 assms(1)] assms(2)] by blast
    have "(2 :: nat) ^ k < 2 ^ (j + 1)" using k(2) j(2) assms(1) by linarith
    then have kj: "k \<le> j" using power_less_imp_less_exp [of "2 :: nat" k "j + 1"] by simp
    show ?thesis
    proof (cases "k = j")
      case True
      have "8 * n div 2 ^ j \<le> 8 * m div 2 ^ j" using assms(1) by (intro div_le_mono) simp
      with True k(5) j(4) show ?thesis by simp
    next
      case False
      with kj k(1) have "(k - 7) * 8 + 8 \<le> (j - 7) * 8" by simp
      with k(4,5) j(4) show ?thesis by linarith
    qed
  qed
qed

lemma bucket_bound: "n < 2 ^ 29 \<Longrightarrow> bucket n < 207"
proof (cases "n < 128")
  case False
  assume "n < 2 ^ 29"
  with False obtain k where "k < 29" "8 * n div 2 ^ k < 16" "bucket n = 31 + (k - 7) * 8 + (8 * n div 2 ^ k - 8)" using bucket_large [of n] False by (auto simp: not_less)
  then show ?thesis by linarith
qed (simp add: bucket_def)

lemma bucket_small:
  assumes "n < 128" and "4 dvd n" and "4 \<le> n" and "4 dvd m" and "4 \<le> m" and "m < 2 ^ 29" and "bucket n = bucket m"
  shows "n = m"
proof (cases "m < 128")
  case True
  moreover have "0 < n div 4" "0 < m div 4" using assms(3,5) by (simp_all add: div_greater_zero_iff)
  ultimately have "n div 4 = m div 4" using assms(1,7) by (simp add: bucket_def)
  with assms(2,4) show ?thesis by (metis dvd_mult_div_cancel)
next
  case False
  then obtain k where "bucket m = 31 + (k - 7) * 8 + (8 * m div 2 ^ k - 8)" using bucket_large [OF leI [OF False] assms(6)] by blast
  moreover have "bucket n \<le> 30" using assms(1) by (simp add: bucket_def)
  ultimately show ?thesis using assms(7) by linarith
qed

text \<open>Two sizes of one class above 128 differ by less than an eighth.\<close>

lemma bucket_width:
  assumes "128 \<le> n" and "n \<le> m" and "m < 2 ^ 29" and "bucket n = bucket m"
  shows "8 * (m - n) < n"
proof -
  from bucket_large [OF assms(1) le_less_trans [OF assms(2,3)]] obtain k where k: "7 \<le> k" "2 ^ k \<le> n" "n < 2 ^ (k + 1)"
    "8 \<le> 8 * n div 2 ^ k" "8 * n div 2 ^ k < 16" "bucket n = 31 + (k - 7) * 8 + (8 * n div 2 ^ k - 8)" by blast
  from bucket_large [OF le_trans [OF assms(1,2)] assms(3)] obtain j where j: "7 \<le> j" "2 ^ j \<le> m" "m < 2 ^ (j + 1)"
    "8 \<le> 8 * m div 2 ^ j" "8 * m div 2 ^ j < 16" "bucket m = 31 + (j - 7) * 8 + (8 * m div 2 ^ j - 8)" by blast
  have eq: "(k - 7) * 8 + (8 * n div 2 ^ k - 8) = (j - 7) * 8 + (8 * m div 2 ^ j - 8)" using assms(4) k(6) j(6) by simp
  have "((k - 7) * 8 + (8 * n div 2 ^ k - 8)) div 8 = k - 7" "((j - 7) * 8 + (8 * m div 2 ^ j - 8)) div 8 = j - 7" using k(5) j(5) by simp_all
  then have "k - 7 = j - 7" using eq by simp
  then have kj: "k = j" using k(1) j(1) by simp
  with eq k(4) j(4) have d: "8 * n div 2 ^ k = 8 * m div 2 ^ k" by simp
  have "8 * m < (8 * m div 2 ^ k) * 2 ^ k + 2 ^ k" using dividend_less_div_times [of "2 ^ k" "8 * m"] by (simp add: add.commute)
  moreover have "(8 * n div 2 ^ k) * 2 ^ k \<le> 8 * n" by simp
  ultimately have "8 * m < 8 * n + 2 ^ k" unfolding d by (meson add_le_mono1 less_le_trans)
  with k(2) assms(2) show ?thesis by (simp add: diff_mult_distrib2)
qed

section \<open>Properties\<close>

text \<open>C38. Size classes: for every block size below 512 MB the computed index is one of the 223 lists, it grows with the size,
  every list below 128 bytes holds blocks of one size, and the sizes in a larger list differ by less than an eighth.\<close>

theorem tlsf_size_classes:
  assumes "4 \<le> n" and "n \<le> m" and "m < 2 ^ 29" and "4 dvd n" and "4 dvd m"
  shows "OsMemFreeListIndexGet (of_nat n) < OS_MEM_FREE_LIST_COUNT \<and> OsMemFreeListIndexGet (of_nat n) \<le> OsMemFreeListIndexGet (of_nat m) \<and>
    (OsMemFreeListIndexGet (of_nat n) = OsMemFreeListIndexGet (of_nat m) \<longrightarrow> (if n < 128 then n = m else 8 * (m - n) < n))"
proof -
  have i: "unat (OsMemFreeListIndexGet (of_nat n)) = bucket n" "unat (OsMemFreeListIndexGet (of_nat m)) = bucket m"
    using index_class [of n] index_class [of m] assms by auto
  have "bucket n < 223" using bucket_bound [of n] assms by simp
  moreover have "bucket n \<le> bucket m" using bucket_mono assms by blast
  moreover have "if n < 128 then n = m else 8 * (m - n) < n" if "bucket n = bucket m"
    using bucket_small [of n m] bucket_width [of n m] assms that by (simp split: if_split)
  ultimately show ?thesis unfolding word_less_nat_alt word_le_nat_alt word_unat_eq_iff i by simp
qed

theorem tlsf_size_classes_witness: "OsMemFreeListIndexGet (of_nat 1000) = OsMemFreeListIndexGet (of_nat 1020) \<and> 8 * (1020 - 1000) < (1000 :: nat)"
proof -
  have "bucket 1000 = bucket 1020"
    using bucket_large [of 1000] bucket_large [of 1020] log_unique [of 9 "1000"] log_unique [of 9 "1020"] by force
  then have "OsMemFreeListIndexGet (of_nat 1000) = OsMemFreeListIndexGet (of_nat 1020)"
    using index_class [of 1000] index_class [of 1020] by (simp add: word_unat_eq_iff)
  with tlsf_size_classes [of 1000 1020] show ?thesis by simp
qed

end
