(* ===== verification/LosTlsf.thy ===== *)
theory LosTlsf
  imports LosTlsfIndex LosVmPhys
begin

text \<open>
  The kernel heap, \<^verbatim>\<open>kernel/base/mem/tlsf/los_memory.c\<close>: a pool is a sequence of nodes, each with a header of three words, that ends with a sentinel
  node; the free nodes are in the lists of their size class, linked through the two words behind the header, and a bitmap tells which lists are not
  empty. A pool may be expanded by pages of the physical page allocator, which the sentinels chain.

  Memory is the word at every address; the addresses 0, 4 and 8 of a node are the fields \<open>magic\<close>, \<open>ptr\<close> and \<open>sizeAndFlag\<close>, 12 and 16 the links of a
  free node. The pool head, which lies in front of the first node, is kept apart as the fields of the record. Address 0 is \<open>NULL\<close>; \<open>None\<close> is a
  \<open>LOS_Panic\<close> or a loop that does not end. The configuration is the default one of the single-processor kernel with virtual memory: no leak check, no
  integrity check on every allocation, no water line, one pool, no shadow memory. The spin lock makes every operation atomic.
\<close>

section \<open>Data\<close>

abbreviation (input) OS_MEM_NODE_MAGIC :: u32 where "OS_MEM_NODE_MAGIC \<equiv> 0xABCDDCBA"
abbreviation (input) OS_MEM_NODE_USED_FLAG :: u32 where "OS_MEM_NODE_USED_FLAG \<equiv> 0x80000000"
abbreviation (input) OS_MEM_NODE_ALIGNED_FLAG :: u32 where "OS_MEM_NODE_ALIGNED_FLAG \<equiv> 0x40000000"
abbreviation (input) OS_MEM_NODE_LAST_FLAG :: u32 where "OS_MEM_NODE_LAST_FLAG \<equiv> 0x20000000"
abbreviation (input) OS_MEM_NODE_ALIGNED_AND_USED_FLAG :: u32 where "OS_MEM_NODE_ALIGNED_AND_USED_FLAG \<equiv> 0xE0000000"
abbreviation (input) OS_MEM_NODE_HEAD_SIZE :: u32 where "OS_MEM_NODE_HEAD_SIZE \<equiv> 12"
abbreviation (input) OS_MEM_MIN_ALLOC_SIZE :: u32 where "OS_MEM_MIN_ALLOC_SIZE \<equiv> 8"
abbreviation (input) SIZEOF_OsMemPoolHead :: u32 where "SIZEOF_OsMemPoolHead \<equiv> 936"
abbreviation (input) OS_MEM_MIN_POOL_SIZE :: u32 where "OS_MEM_MIN_POOL_SIZE \<equiv> 948"
abbreviation (input) OS_MEM_ALIGN_SIZE :: u32 where "OS_MEM_ALIGN_SIZE \<equiv> 4"
abbreviation (input) OS_MEM_POOL_EXPAND_ENABLE :: u32 where "OS_MEM_POOL_EXPAND_ENABLE \<equiv> 1"
abbreviation (input) OS_MEM_POOL_LOCK_ENABLE :: u32 where "OS_MEM_POOL_LOCK_ENABLE \<equiv> 2"
abbreviation (input) MAX_SHRINK_PAGECACHE_TRY :: nat where "MAX_SHRINK_PAGECACHE_TRY \<equiv> 2"
abbreviation (input) OS_ERROR :: u32 where "OS_ERROR \<equiv> - 1"

text \<open>\<open>paddrQuery\<close> is \<open>LOS_PaddrQuery\<close>, \<open>tryShrink\<close> is \<open>OsTryShrinkMemory\<close>, which gives pages of the page cache back, and \<open>secMax\<close> is \<open>RSIZE_MAX\<close>, the largest size the
  checked copying functions of the C library accept.\<close>

record tlsf =
  mem :: "u32 \<Rightarrow> u32"
  infoPool :: u32
  totalSize :: u32
  poolAttr :: u32
  freeListBitmap :: "nat \<Rightarrow> u32"
  freeList :: "nat \<Rightarrow> u32"
  heapPhys :: vm_phys
  paddrQuery :: "u32 \<Rightarrow> u32"
  tryShrink :: "u32 \<Rightarrow> vm_phys \<Rightarrow> vm_phys"
  secMax :: u32

definition wr :: "u32 \<Rightarrow> u32 \<Rightarrow> tlsf \<Rightarrow> tlsf" where
  "wr a v s = s\<lparr>mem := (mem s)(a := v)\<rparr>"

abbreviation (input) magic_at :: "u32 \<Rightarrow> u32" where "magic_at node \<equiv> node"
abbreviation (input) ptr_at :: "u32 \<Rightarrow> u32" where "ptr_at node \<equiv> node + 4"
abbreviation (input) saf_at :: "u32 \<Rightarrow> u32" where "saf_at node \<equiv> node + 8"
abbreviation (input) prev_at :: "u32 \<Rightarrow> u32" where "prev_at node \<equiv> node + 12"
abbreviation (input) next_at :: "u32 \<Rightarrow> u32" where "next_at node \<equiv> node + 16"

definition OS_MEM_NODE_GET_USED_FLAG :: "u32 \<Rightarrow> bool" where
  "OS_MEM_NODE_GET_USED_FLAG w \<longleftrightarrow> w AND OS_MEM_NODE_USED_FLAG \<noteq> 0"

definition OS_MEM_NODE_GET_ALIGNED_FLAG :: "u32 \<Rightarrow> bool" where
  "OS_MEM_NODE_GET_ALIGNED_FLAG w \<longleftrightarrow> w AND OS_MEM_NODE_ALIGNED_FLAG \<noteq> 0"

definition OS_MEM_NODE_GET_LAST_FLAG :: "u32 \<Rightarrow> bool" where
  "OS_MEM_NODE_GET_LAST_FLAG w \<longleftrightarrow> w AND OS_MEM_NODE_LAST_FLAG \<noteq> 0"

definition OS_MEM_NODE_GET_ALIGNED_GAPSIZE :: "u32 \<Rightarrow> u32" where
  "OS_MEM_NODE_GET_ALIGNED_GAPSIZE w = w AND NOT OS_MEM_NODE_ALIGNED_FLAG"

definition OS_MEM_NODE_GET_SIZE :: "u32 \<Rightarrow> u32" where
  "OS_MEM_NODE_GET_SIZE w = w AND NOT OS_MEM_NODE_ALIGNED_AND_USED_FLAG"

definition OS_MEM_ALIGN :: "u32 \<Rightarrow> u32 \<Rightarrow> u32" where
  "OS_MEM_ALIGN p alignSize = (p + alignSize - 1) AND NOT (alignSize - 1)"

definition OS_MEM_IS_POW_TWO :: "u32 \<Rightarrow> bool" where
  "OS_MEM_IS_POW_TWO v \<longleftrightarrow> v AND (v - 1) = 0"

definition OS_MEM_IS_ALIGNED :: "u32 \<Rightarrow> u32 \<Rightarrow> bool" where
  "OS_MEM_IS_ALIGNED a b \<longleftrightarrow> a AND (b - 1) = 0"

definition OS_MEM_NEXT_NODE :: "u32 \<Rightarrow> tlsf \<Rightarrow> u32" where
  "OS_MEM_NEXT_NODE node s = node + OS_MEM_NODE_GET_SIZE (mem s (saf_at node))"

definition OS_MEM_FIRST_NODE :: "u32 \<Rightarrow> u32" where
  "OS_MEM_FIRST_NODE pool = pool + SIZEOF_OsMemPoolHead"

definition OS_MEM_END_NODE :: "u32 \<Rightarrow> u32 \<Rightarrow> u32" where
  "OS_MEM_END_NODE pool sz = pool + sz - OS_MEM_NODE_HEAD_SIZE"

definition OS_MEM_MIDDLE_ADDR_OPEN_END :: "u32 \<Rightarrow> u32 \<Rightarrow> u32 \<Rightarrow> bool" where
  "OS_MEM_MIDDLE_ADDR_OPEN_END startAddr middleAddr endAddr \<longleftrightarrow> startAddr \<le> middleAddr \<and> middleAddr < endAddr"

definition OS_MEM_MIDDLE_ADDR :: "u32 \<Rightarrow> u32 \<Rightarrow> u32 \<Rightarrow> bool" where
  "OS_MEM_MIDDLE_ADDR startAddr middleAddr endAddr \<longleftrightarrow> startAddr \<le> middleAddr \<and> middleAddr \<le> endAddr"

section \<open>Sentinels\<close>

text \<open>The loop of \<open>OsMemLastSentinelNodeGet\<close> with its variables \<open>ptr\<close>, \<open>size\<close> and \<open>node\<close>.\<close>

partial_function (option) last_sentinel :: "u32 \<Rightarrow> u32 \<Rightarrow> u32 \<Rightarrow> tlsf \<Rightarrow> u32 option" where
  "last_sentinel ptr sz node s =
    (if ptr \<noteq> 0 \<and> sz \<noteq> 0
     then let node = OS_MEM_END_NODE ptr sz
          in last_sentinel (mem s (ptr_at node)) (OS_MEM_NODE_GET_SIZE (mem s (saf_at node))) node s
     else Some node)"

definition OsMemLastSentinelNodeGet :: "u32 \<Rightarrow> tlsf \<Rightarrow> u32 option" where
  "OsMemLastSentinelNodeGet sentinelNode s =
    last_sentinel (mem s (ptr_at sentinelNode)) (OS_MEM_NODE_GET_SIZE (mem s (saf_at sentinelNode))) 0 s"

definition OsMemSentinelNodeCheck :: "u32 \<Rightarrow> tlsf \<Rightarrow> bool" where
  "OsMemSentinelNodeCheck sentinelNode s \<longleftrightarrow>
    OS_MEM_NODE_GET_USED_FLAG (mem s (saf_at sentinelNode)) \<and> mem s (magic_at sentinelNode) = OS_MEM_NODE_MAGIC"

definition OsMemIsLastSentinelNode :: "u32 \<Rightarrow> tlsf \<Rightarrow> bool" where
  "OsMemIsLastSentinelNode sentinelNode s \<longleftrightarrow>
    \<not> OsMemSentinelNodeCheck sentinelNode s \<or> OS_MEM_NODE_GET_SIZE (mem s (saf_at sentinelNode)) = 0 \<or> mem s (ptr_at sentinelNode) = 0"

definition OsMemSentinelNodeSet :: "u32 \<Rightarrow> u32 \<Rightarrow> u32 \<Rightarrow> tlsf \<Rightarrow> tlsf option" where
  "OsMemSentinelNodeSet sentinelNode newNode sz s = do {
     node \<leftarrow> (if mem s (ptr_at sentinelNode) \<noteq> 0 then OsMemLastSentinelNodeGet sentinelNode s else Some sentinelNode);
     Some (wr (saf_at node) (sz OR OS_MEM_NODE_USED_FLAG OR OS_MEM_NODE_LAST_FLAG) (wr (ptr_at node) newNode s))
   }"

definition OsMemSentinelNodeGet :: "u32 \<Rightarrow> tlsf \<Rightarrow> u32" where
  "OsMemSentinelNodeGet node s = mem s (ptr_at node)"

partial_function (option) pre_sentinel :: "u32 \<Rightarrow> u32 \<Rightarrow> tlsf \<Rightarrow> u32 option" where
  "pre_sentinel node sentinelNode s =
    (if sentinelNode = 0 then Some 0
     else if OsMemIsLastSentinelNode sentinelNode s then Some 0
     else let nextNode = OsMemSentinelNodeGet sentinelNode s
          in if nextNode = node then Some sentinelNode
             else pre_sentinel node (OS_MEM_END_NODE nextNode (OS_MEM_NODE_GET_SIZE (mem s (saf_at sentinelNode)))) s)"

definition PreSentinelNodeGet :: "u32 \<Rightarrow> u32 \<Rightarrow> tlsf \<Rightarrow> u32 option" where
  "PreSentinelNodeGet pool node s = pre_sentinel node (OS_MEM_END_NODE pool (totalSize s)) s"

definition OsMemLargeNodeFree :: "u32 \<Rightarrow> tlsf \<Rightarrow> (tlsf \<times> u32) option" where
  "OsMemLargeNodeFree ptr s =
    (case OsVmVaddrToPage (paddrQuery s ptr) (heapPhys s) of
       None \<Rightarrow> Some (s, LOS_NOK)
     | Some page \<Rightarrow>
         if nPages (g_vmPageArray (heapPhys s) page) = 0 then Some (s, LOS_NOK)
         else do {
           p \<leftarrow> LOS_PhysPagesFreeContiguous (paddrQuery s) ptr (ucast (nPages (g_vmPageArray (heapPhys s) page))) (heapPhys s);
           Some (s\<lparr>heapPhys := p\<rparr>, LOS_OK)
         })"

definition TryShrinkPool :: "u32 \<Rightarrow> u32 \<Rightarrow> tlsf \<Rightarrow> (tlsf \<times> bool) option" where
  "TryShrinkPool pool node s =
    (let total = mem s (ptr_at node) - node
     in if OS_MEM_NODE_GET_SIZE (mem s (saf_at node)) \<noteq> total then Some (s, False)
        else do {
          preSentinel \<leftarrow> PreSentinelNodeGet pool node s;
          if preSentinel = 0 then Some (s, False)
          else do {
            let mySentinel = mem s (ptr_at node);
            s1 \<leftarrow> (if OsMemIsLastSentinelNode mySentinel s
                    then OsMemSentinelNodeSet preSentinel 0 0 (wr (ptr_at preSentinel) 0 s)
                    else Some (let s0 = wr (saf_at preSentinel) (mem s (saf_at mySentinel)) s
                               in wr (ptr_at preSentinel) (mem s0 (ptr_at mySentinel)) s0));
            (s2, ret) \<leftarrow> OsMemLargeNodeFree node s1;
            Some (s2, ret = LOS_OK)
          }
        })"

section \<open>The free lists\<close>

definition BITMAP_INDEX :: "u32 \<Rightarrow> nat" where
  "BITMAP_INDEX index = unat (drop_bit 5 index)"

text \<open>The loop of \<open>OsMemFindCurSuitableBlock\<close> from a node.\<close>

partial_function (option) find_cur :: "u32 \<Rightarrow> u32 \<Rightarrow> tlsf \<Rightarrow> u32 option" where
  "find_cur node sz s =
    (if node = 0 then Some 0
     else if sz \<le> mem s (saf_at node) then Some node
     else find_cur (mem s (next_at node)) sz s)"

definition OsMemFindCurSuitableBlock :: "u32 \<Rightarrow> u32 \<Rightarrow> tlsf \<Rightarrow> u32 option" where
  "OsMemFindCurSuitableBlock index sz s = find_cur (freeList s (unat index)) sz s"

definition OsMemNotEmptyIndexGet :: "u32 \<Rightarrow> tlsf \<Rightarrow> u32" where
  "OsMemNotEmptyIndexGet index s =
    (let msk = freeListBitmap s (BITMAP_INDEX index) AND NOT (push_bit (unat (index AND OS_MEM_BITMAP_MASK)) 1 - 1)
     in if msk \<noteq> 0 then ucast (OsMemFFS msk) + (index AND NOT OS_MEM_BITMAP_MASK) else OS_MEM_FREE_LIST_COUNT)"

text \<open>The loop over the remaining words of the bitmap; \<open>OS_MEM_FREE_LIST_COUNT\<close> tells that nothing was found.\<close>

function scan_words :: "u32 \<Rightarrow> tlsf \<Rightarrow> u32" where
  "scan_words index s =
    (if index < OS_MEM_FREE_LIST_COUNT
     then let msk = freeListBitmap s (BITMAP_INDEX index)
          in if msk \<noteq> 0 then ucast (OsMemFFS msk) + index else scan_words (index + 32) s
     else OS_MEM_FREE_LIST_COUNT)"
  by pat_completeness auto
termination
proof (relation "measure (\<lambda>(i, _). 223 - unat i)", goal_cases)
  case (2 index s msk)
  then have i: "unat index < 223" by (simp add: word_less_nat_alt)
  then have "unat (index + 32) = unat index + 32" using unat_add32 [of index 32] by simp
  with i show ?case by simp
qed simp

declare scan_words.simps [simp del]

text \<open>The results are the node and \<open>*outIndex\<close>.\<close>

definition OsMemFindNextSuitableBlock :: "u32 \<Rightarrow> tlsf \<Rightarrow> (u32 \<times> u32) option" where
  "OsMemFindNextSuitableBlock sz s =
    (let fl = OsMemFlGet sz;
         small = sz < OS_MEM_SMALL_BUCKET_MAX_SIZE;
         curIndex = (if small then OS_MEM_FREE_LIST_COUNT
                     else push_bit OS_MEM_SLI (fl - OS_MEM_LARGE_START_BUCKET) + OsMemSlGet sz fl + OS_MEM_SMALL_BUCKET_COUNT);
         index = (if small then fl else curIndex + 1);
         tmp = OsMemNotEmptyIndexGet index s
     in if tmp \<noteq> OS_MEM_FREE_LIST_COUNT then Some (freeList s (unat tmp), tmp)
        else let found = scan_words (LOS_Align (index + 1) 32) s
             in if found \<noteq> OS_MEM_FREE_LIST_COUNT then Some (freeList s (unat found), found)
                else if curIndex = OS_MEM_FREE_LIST_COUNT then Some (0, 0)
                else do {
                  node \<leftarrow> OsMemFindCurSuitableBlock curIndex sz s;
                  Some (node, curIndex)
                })"

definition OsMemSetFreeListBit :: "u32 \<Rightarrow> tlsf \<Rightarrow> tlsf" where
  "OsMemSetFreeListBit index s =
    s\<lparr>freeListBitmap := (freeListBitmap s)(BITMAP_INDEX index := freeListBitmap s (BITMAP_INDEX index) OR push_bit (unat (index AND 0x1f)) 1)\<rparr>"

definition OsMemClearFreeListBit :: "u32 \<Rightarrow> tlsf \<Rightarrow> tlsf" where
  "OsMemClearFreeListBit index s =
    s\<lparr>freeListBitmap := (freeListBitmap s)(BITMAP_INDEX index := freeListBitmap s (BITMAP_INDEX index) AND NOT (push_bit (unat (index AND 0x1f)) 1))\<rparr>"

definition OsMemListAdd :: "u32 \<Rightarrow> u32 \<Rightarrow> tlsf \<Rightarrow> tlsf" where
  "OsMemListAdd listIndex node s =
    (let firstNode = freeList s (unat listIndex);
         s1 = (if firstNode \<noteq> 0 then wr (prev_at firstNode) node s else s);
         s2 = wr (next_at node) firstNode (wr (prev_at node) 0 s1);
         s3 = s2\<lparr>freeList := (freeList s2)(unat listIndex := node)\<rparr>
     in wr (magic_at node) OS_MEM_NODE_MAGIC (OsMemSetFreeListBit listIndex s3))"

definition OsMemListDelete :: "u32 \<Rightarrow> u32 \<Rightarrow> tlsf \<Rightarrow> tlsf" where
  "OsMemListDelete listIndex node s =
    (let s1 = (if node = freeList s (unat listIndex)
               then let s0 = s\<lparr>freeList := (freeList s)(unat listIndex := mem s (next_at node))\<rparr>
                    in if mem s0 (next_at node) = 0 then OsMemClearFreeListBit listIndex s0
                       else wr (prev_at (mem s0 (next_at node))) 0 s0
               else let s0 = wr (next_at (mem s (prev_at node))) (mem s (next_at node)) s
                    in if mem s0 (next_at node) \<noteq> 0 then wr (prev_at (mem s0 (next_at node))) (mem s0 (prev_at node)) s0 else s0)
     in wr (magic_at node) OS_MEM_NODE_MAGIC s1)"

definition OsMemFreeNodeAdd :: "u32 \<Rightarrow> tlsf \<Rightarrow> tlsf option" where
  "OsMemFreeNodeAdd node s =
    (let index = OsMemFreeListIndexGet (mem s (saf_at node))
     in if OS_MEM_FREE_LIST_COUNT \<le> index then None else Some (OsMemListAdd index node s))"

definition OsMemFreeNodeDelete :: "u32 \<Rightarrow> tlsf \<Rightarrow> tlsf option" where
  "OsMemFreeNodeDelete node s =
    (let index = OsMemFreeListIndexGet (mem s (saf_at node))
     in if OS_MEM_FREE_LIST_COUNT \<le> index then None else Some (OsMemListDelete index node s))"

definition OsMemFreeNodeGet :: "u32 \<Rightarrow> tlsf \<Rightarrow> (tlsf \<times> u32) option" where
  "OsMemFreeNodeGet sz s = do {
     (firstNode, index) \<leftarrow> OsMemFindNextSuitableBlock sz s;
     Some (if firstNode = 0 then (s, 0) else (OsMemListDelete index firstNode s, firstNode))
   }"

section \<open>Merging and splitting\<close>

definition OsMemMergeNode :: "u32 \<Rightarrow> tlsf \<Rightarrow> tlsf" where
  "OsMemMergeNode node s =
    (let prev = mem s (ptr_at node);
         s1 = wr (saf_at prev) (mem s (saf_at prev) + mem s (saf_at node)) s;
         nextNode = node + mem s1 (saf_at node)
     in if \<not> OS_MEM_NODE_GET_LAST_FLAG (mem s1 (saf_at nextNode)) then wr (ptr_at nextNode) (mem s1 (ptr_at node)) s1 else s1)"

definition OsMemSplitNode :: "u32 \<Rightarrow> u32 \<Rightarrow> tlsf \<Rightarrow> tlsf option" where
  "OsMemSplitNode allocNode allocSize s = do {
     let newFreeNode = allocNode + allocSize;
     let s1 = wr (ptr_at newFreeNode) allocNode s;
     let s2 = wr (saf_at newFreeNode) (mem s1 (saf_at allocNode) - allocSize) s1;
     let s3 = wr (saf_at allocNode) allocSize s2;
     let nextNode = OS_MEM_NEXT_NODE newFreeNode s3;
     s5 \<leftarrow> (if \<not> OS_MEM_NODE_GET_LAST_FLAG (mem s3 (saf_at nextNode))
            then let s4 = wr (ptr_at nextNode) newFreeNode s3
                 in if \<not> OS_MEM_NODE_GET_USED_FLAG (mem s4 (saf_at nextNode))
                    then map_option (OsMemMergeNode nextNode) (OsMemFreeNodeDelete nextNode s4) else Some s4
            else Some s3);
     OsMemFreeNodeAdd newFreeNode s5
   }"

definition OsMemCreateUsedNode :: "u32 \<Rightarrow> u32" where
  "OsMemCreateUsedNode addr = addr + OS_MEM_NODE_HEAD_SIZE"

section \<open>Pools\<close>

definition OsMemPoolInit :: "u32 \<Rightarrow> u32 \<Rightarrow> tlsf \<Rightarrow> (tlsf \<times> u32) option" where
  "OsMemPoolInit pool sz s = do {
     let s1 = s\<lparr>infoPool := pool, totalSize := sz, poolAttr := OS_MEM_POOL_LOCK_ENABLE, freeListBitmap := (\<lambda>_. 0), freeList := (\<lambda>_. 0)\<rparr>;
     let newNode = OS_MEM_FIRST_NODE pool;
     let s2 = wr (magic_at newNode) OS_MEM_NODE_MAGIC (wr (ptr_at newNode) 0
                (wr (saf_at newNode) (sz - SIZEOF_OsMemPoolHead - OS_MEM_NODE_HEAD_SIZE) s1));
     s3 \<leftarrow> OsMemFreeNodeAdd newNode s2;
     let endNode = OS_MEM_END_NODE pool sz;
     s4 \<leftarrow> OsMemSentinelNodeSet endNode 0 0 (wr (ptr_at endNode) 0 (wr (magic_at endNode) OS_MEM_NODE_MAGIC s3));
     Some (s4, LOS_OK)
   }"

definition LOS_MemInit :: "u32 \<Rightarrow> u32 \<Rightarrow> tlsf \<Rightarrow> (tlsf \<times> u32) option" where
  "LOS_MemInit pool sz s =
    (if pool = 0 \<or> sz \<le> OS_MEM_MIN_POOL_SIZE then Some (s, OS_ERROR)
     else do {
       (s1, ret) \<leftarrow> OsMemPoolInit pool (OS_MEM_ALIGN sz OS_MEM_ALIGN_SIZE) s;
       Some (s1, if ret \<noteq> LOS_OK then OS_ERROR else LOS_OK)
     })"

definition LOS_MemExpandEnable :: "u32 \<Rightarrow> tlsf \<Rightarrow> tlsf" where
  "LOS_MemExpandEnable pool s = (if pool = 0 then s else s\<lparr>poolAttr := poolAttr s OR OS_MEM_POOL_EXPAND_ENABLE\<rparr>)"

text \<open>The loop of \<open>LOS_MemPoolSizeGet\<close> over the expansions.\<close>

partial_function (option) pool_size_from :: "u32 \<Rightarrow> u32 \<Rightarrow> tlsf \<Rightarrow> u32 option" where
  "pool_size_from sentinel count s =
    (if OsMemIsLastSentinelNode sentinel s then Some count
     else let sz = OS_MEM_NODE_GET_SIZE (mem s (saf_at sentinel))
          in pool_size_from (OS_MEM_END_NODE (OsMemSentinelNodeGet sentinel s) sz) (count + sz) s)"

definition LOS_MemPoolSizeGet :: "u32 \<Rightarrow> tlsf \<Rightarrow> u32 option" where
  "LOS_MemPoolSizeGet pool s =
    (if pool = 0 then Some LOS_NOK else pool_size_from (OS_MEM_END_NODE pool (totalSize s)) (totalSize s) s)"

text \<open>Getting pages, with \<open>k\<close> more attempts after the page cache was asked to shrink.\<close>

fun expand_pages :: "nat \<Rightarrow> u32 \<Rightarrow> tlsf \<Rightarrow> (tlsf \<times> u32) option" where
  "expand_pages k n s = do {
     (p, newNode) \<leftarrow> LOS_PhysPagesAllocContiguous n (heapPhys s);
     let s1 = s\<lparr>heapPhys := p\<rparr>;
     if newNode \<noteq> 0 then Some (s1, newNode)
     else case k of 0 \<Rightarrow> Some (s1, 0) | Suc k' \<Rightarrow> expand_pages k' n (s1\<lparr>heapPhys := tryShrink s1 n (heapPhys s1)\<rparr>)
   }"

definition OsMemPoolExpandSub :: "u32 \<Rightarrow> u32 \<Rightarrow> tlsf \<Rightarrow> (tlsf \<times> bool) option" where
  "OsMemPoolExpandSub pool sz0 s = do {
     let sz = ROUNDUP (sz0 + OS_MEM_NODE_HEAD_SIZE) PAGE_SIZE;
     let endNode = OS_MEM_END_NODE pool (totalSize s);
     (s1, newNode) \<leftarrow> expand_pages MAX_SHRINK_PAGECACHE_TRY (drop_bit 12 sz) s;
     if newNode = 0 then Some (s1, False)
     else do {
       let s2 = wr (ptr_at newNode) (OS_MEM_END_NODE newNode sz) (wr (saf_at newNode) (sz - OS_MEM_NODE_HEAD_SIZE) s1);
       s3 \<leftarrow> OsMemSentinelNodeSet endNode newNode sz s2;
       s4 \<leftarrow> OsMemFreeNodeAdd newNode s3;
       let endNode = OS_MEM_END_NODE newNode sz;
       let s5 = wr (magic_at endNode) OS_MEM_NODE_MAGIC (wr (ptr_at endNode) 0 (wr (saf_at endNode) 0 s4));
       s6 \<leftarrow> OsMemSentinelNodeSet endNode 0 0 s5;
       Some (s6, True)
     }
   }"

definition OsMemPoolExpand :: "u32 \<Rightarrow> u32 \<Rightarrow> tlsf \<Rightarrow> (tlsf \<times> bool) option" where
  "OsMemPoolExpand pool allocSize s = do {
     poolSize \<leftarrow> LOS_MemPoolSizeGet pool s;
     let expandDefault = drop_bit 3 poolSize;
     (s1, ok) \<leftarrow> OsMemPoolExpandSub pool (max expandDefault allocSize) s;
     if ok then Some (s1, True)
     else if expandDefault < allocSize then Some (s1, False)
     else OsMemPoolExpandSub pool allocSize s1
   }"

section \<open>Allocation\<close>

text \<open>The part of \<open>OsMemAlloc\<close> that the label \<open>retry\<close> repeats.\<close>

partial_function (option) alloc_retry :: "u32 \<Rightarrow> u32 \<Rightarrow> tlsf \<Rightarrow> (tlsf \<times> u32) option" where
  "alloc_retry pool allocSize s = do {
     (s1, allocNode) \<leftarrow> OsMemFreeNodeGet allocSize s;
     if allocNode \<noteq> 0 then Some (s1, allocNode)
     else if poolAttr s1 AND OS_MEM_POOL_EXPAND_ENABLE \<noteq> 0
     then do {
       (s2, ok) \<leftarrow> OsMemPoolExpand pool allocSize s1;
       if ok then alloc_retry pool allocSize s2 else Some (s2, 0)
     }
     else Some (s1, 0)
   }"

definition OsMemAlloc :: "u32 \<Rightarrow> u32 \<Rightarrow> tlsf \<Rightarrow> (tlsf \<times> u32) option" where
  "OsMemAlloc pool sz s = do {
     let allocSize = OS_MEM_ALIGN (sz + OS_MEM_NODE_HEAD_SIZE) OS_MEM_ALIGN_SIZE;
     (s1, allocNode) \<leftarrow> alloc_retry pool allocSize s;
     if allocNode = 0 then Some (s1, 0)
     else do {
       s2 \<leftarrow> (if allocSize + OS_MEM_NODE_HEAD_SIZE + OS_MEM_MIN_ALLOC_SIZE \<le> mem s1 (saf_at allocNode)
              then OsMemSplitNode allocNode allocSize s1 else Some s1);
       Some (wr (saf_at allocNode) (mem s2 (saf_at allocNode) OR OS_MEM_NODE_USED_FLAG) s2, OsMemCreateUsedNode allocNode)
     }
   }"

definition LOS_MemAlloc :: "u32 \<Rightarrow> u32 \<Rightarrow> tlsf \<Rightarrow> (tlsf \<times> u32) option" where
  "LOS_MemAlloc pool sz s =
    (if pool = 0 \<or> sz = 0
     then Some (if 0 < sz then (case OsVmBootMemAlloc sz (heapPhys s) of (p, ptr) \<Rightarrow> (s\<lparr>heapPhys := p\<rparr>, ptr)) else (s, 0))
     else let sz = (if sz < OS_MEM_MIN_ALLOC_SIZE then OS_MEM_MIN_ALLOC_SIZE else sz)
          in if OS_MEM_NODE_GET_USED_FLAG sz \<or> OS_MEM_NODE_GET_ALIGNED_FLAG sz then Some (s, 0) else OsMemAlloc pool sz s)"

definition LOS_MemAllocAlign :: "u32 \<Rightarrow> u32 \<Rightarrow> u32 \<Rightarrow> tlsf \<Rightarrow> (tlsf \<times> u32) option" where
  "LOS_MemAllocAlign pool sz boundary s =
    (if pool = 0 \<or> sz = 0 \<or> boundary = 0 \<or> \<not> OS_MEM_IS_POW_TWO boundary \<or> \<not> OS_MEM_IS_ALIGNED boundary 4 then Some (s, 0)
     else let sz = (if sz < OS_MEM_MIN_ALLOC_SIZE then OS_MEM_MIN_ALLOC_SIZE else sz)
          in if - 1 - sz < boundary - 4 then Some (s, 0)
             else let useSize = sz + boundary - 4
                  in if OS_MEM_NODE_GET_USED_FLAG useSize \<or> OS_MEM_NODE_GET_ALIGNED_FLAG useSize then Some (s, 0)
                     else do {
                       (s1, ptr) \<leftarrow> OsMemAlloc pool useSize s;
                       let alignedPtr = OS_MEM_ALIGN ptr boundary;
                       if ptr = alignedPtr then Some (s1, ptr)
                       else do {
                         let gapSize = alignedPtr - ptr;
                         let allocNode = ptr - OS_MEM_NODE_HEAD_SIZE;
                         let s2 = wr (saf_at allocNode) (mem s1 (saf_at allocNode) OR OS_MEM_NODE_ALIGNED_FLAG) s1;
                         Some (wr (alignedPtr - 4) (gapSize OR OS_MEM_NODE_ALIGNED_FLAG) s2, alignedPtr)
                       }
                     })"

section \<open>Checks and release\<close>

partial_function (option) addr_valid_from :: "u32 \<Rightarrow> u32 \<Rightarrow> tlsf \<Rightarrow> bool option" where
  "addr_valid_from addr sentinel s =
    (if OsMemIsLastSentinelNode sentinel s then Some False
     else let sz = OS_MEM_NODE_GET_SIZE (mem s (saf_at sentinel)); node = OsMemSentinelNodeGet sentinel s
          in if OS_MEM_MIDDLE_ADDR_OPEN_END node addr (node + sz) then Some True else addr_valid_from addr (OS_MEM_END_NODE node sz) s)"

definition OsMemAddrValidCheck :: "u32 \<Rightarrow> u32 \<Rightarrow> tlsf \<Rightarrow> bool option" where
  "OsMemAddrValidCheck pool addr s =
    (if addr = 0 then Some True
     else if OS_MEM_MIDDLE_ADDR_OPEN_END (pool + SIZEOF_OsMemPoolHead) addr (pool + totalSize s) then Some True
     else addr_valid_from addr (OS_MEM_END_NODE pool (totalSize s)) s)"

definition OsMemIsNodeValid :: "u32 \<Rightarrow> u32 \<Rightarrow> u32 \<Rightarrow> u32 \<Rightarrow> tlsf \<Rightarrow> bool option" where
  "OsMemIsNodeValid node startNode endNode pool s =
    (if \<not> OS_MEM_MIDDLE_ADDR startNode node endNode then Some False
     else if OS_MEM_NODE_GET_USED_FLAG (mem s (saf_at node)) then Some (mem s (magic_at node) = OS_MEM_NODE_MAGIC)
     else OsMemAddrValidCheck pool (mem s (ptr_at node)) s)"

definition MemCheckUsedNode :: "u32 \<Rightarrow> u32 \<Rightarrow> u32 \<Rightarrow> u32 \<Rightarrow> tlsf \<Rightarrow> bool option" where
  "MemCheckUsedNode pool node startNode endNode s = do {
     valid \<leftarrow> OsMemIsNodeValid node startNode endNode pool s;
     if \<not> valid then Some False
     else if \<not> OS_MEM_NODE_GET_USED_FLAG (mem s (saf_at node)) then Some False
     else do {
       let nextNode = OS_MEM_NEXT_NODE node s;
       nextValid \<leftarrow> OsMemIsNodeValid nextNode startNode endNode pool s;
       if \<not> nextValid then Some False
       else if \<not> OS_MEM_NODE_GET_LAST_FLAG (mem s (saf_at nextNode)) \<and> mem s (ptr_at nextNode) \<noteq> node then Some False
       else if node = startNode then Some True
       else do {
         prevValid \<leftarrow> OsMemIsNodeValid (mem s (ptr_at node)) startNode endNode pool s;
         Some (prevValid \<and> OS_MEM_NEXT_NODE (mem s (ptr_at node)) s = node)
       }
     }
   }"

partial_function (option) check_used_from :: "u32 \<Rightarrow> u32 \<Rightarrow> u32 \<Rightarrow> u32 \<Rightarrow> tlsf \<Rightarrow> u32 option" where
  "check_used_from pool node startNode endNode s = do {
     done \<leftarrow> MemCheckUsedNode pool node startNode endNode s;
     if done then Some LOS_OK
     else if \<not> OsMemIsLastSentinelNode endNode s
     then let start' = OsMemSentinelNodeGet endNode s
          in check_used_from pool node start' (OS_MEM_END_NODE start' (OS_MEM_NODE_GET_SIZE (mem s (saf_at endNode)))) s
     else Some LOS_NOK
   }"

definition OsMemCheckUsedNode :: "u32 \<Rightarrow> u32 \<Rightarrow> tlsf \<Rightarrow> u32 option" where
  "OsMemCheckUsedNode pool node s = check_used_from pool node (OS_MEM_FIRST_NODE pool) (OS_MEM_END_NODE pool (totalSize s)) s"

text \<open>The comparison \<open>node->ptr.prev > node\<close> tells the first node of an expansion, whose \<open>prev\<close> is its sentinel.\<close>

definition OsMemFree :: "u32 \<Rightarrow> u32 \<Rightarrow> tlsf \<Rightarrow> (tlsf \<times> u32) option" where
  "OsMemFree pool node s = do {
     ret \<leftarrow> OsMemCheckUsedNode pool node s;
     if ret \<noteq> LOS_OK then Some (s, ret)
     else do {
       let s1 = wr (saf_at node) (OS_MEM_NODE_GET_SIZE (mem s (saf_at node))) s;
       let preNode = mem s1 (ptr_at node);
       (s2, node') \<leftarrow> (if preNode \<noteq> 0 \<and> \<not> OS_MEM_NODE_GET_USED_FLAG (mem s1 (saf_at preNode))
                        then map_option (\<lambda>t. (OsMemMergeNode node t, preNode)) (OsMemFreeNodeDelete preNode s1)
                        else Some (s1, node));
       let nextNode = OS_MEM_NEXT_NODE node' s2;
       s3 \<leftarrow> (if nextNode \<noteq> 0 \<and> \<not> OS_MEM_NODE_GET_USED_FLAG (mem s2 (saf_at nextNode))
              then map_option (OsMemMergeNode nextNode) (OsMemFreeNodeDelete nextNode s2) else Some s2);
       (s4, shrunk) \<leftarrow> (if poolAttr s3 AND OS_MEM_POOL_EXPAND_ENABLE \<noteq> 0 \<and> mem s3 (ptr_at node') \<noteq> 0 \<and> node' < mem s3 (ptr_at node')
                         then TryShrinkPool pool node' s3 else Some (s3, False));
       if shrunk then Some (s4, LOS_OK)
       else do {
         s5 \<leftarrow> OsMemFreeNodeAdd node' s4;
         Some (s5, ret)
       }
     }
   }"

definition LOS_MemFree :: "u32 \<Rightarrow> u32 \<Rightarrow> tlsf \<Rightarrow> (tlsf \<times> u32) option" where
  "LOS_MemFree pool ptr s =
    (if pool = 0 \<or> ptr = 0 \<or> \<not> OS_MEM_IS_ALIGNED pool 4 \<or> \<not> OS_MEM_IS_ALIGNED ptr 4 then Some (s, LOS_NOK)
     else let gapSize = mem s (ptr - 4)
          in if OS_MEM_NODE_GET_ALIGNED_FLAG gapSize \<and> OS_MEM_NODE_GET_USED_FLAG gapSize then Some (s, LOS_NOK)
             else if OS_MEM_NODE_GET_ALIGNED_FLAG gapSize
             then let gap = OS_MEM_NODE_GET_ALIGNED_GAPSIZE gapSize
                  in if gap AND (OS_MEM_ALIGN_SIZE - 1) \<noteq> 0 \<or> ptr - OS_MEM_NODE_HEAD_SIZE < gap then Some (s, LOS_NOK)
                     else OsMemFree pool (ptr - gap - OS_MEM_NODE_HEAD_SIZE) s
             else OsMemFree pool (ptr - OS_MEM_NODE_HEAD_SIZE) s)"

section \<open>Changing the size\<close>

definition OsMemReAllocSmaller :: "u32 \<Rightarrow> u32 \<Rightarrow> u32 \<Rightarrow> tlsf \<Rightarrow> tlsf option" where
  "OsMemReAllocSmaller allocSize node nodeSize s = do {
     let s1 = wr (saf_at node) nodeSize s;
     s2 \<leftarrow> (if allocSize + OS_MEM_NODE_HEAD_SIZE + OS_MEM_MIN_ALLOC_SIZE \<le> nodeSize then OsMemSplitNode node allocSize s1 else Some s1);
     Some (wr (saf_at node) (mem s2 (saf_at node) OR OS_MEM_NODE_USED_FLAG) s2)
   }"

definition OsMemMergeNodeForReAllocBigger :: "u32 \<Rightarrow> u32 \<Rightarrow> u32 \<Rightarrow> u32 \<Rightarrow> tlsf \<Rightarrow> tlsf option" where
  "OsMemMergeNodeForReAllocBigger allocSize node nodeSize nextNode s = do {
     s1 \<leftarrow> OsMemFreeNodeDelete nextNode (wr (saf_at node) nodeSize s);
     let s2 = OsMemMergeNode nextNode s1;
     s3 \<leftarrow> (if allocSize + OS_MEM_NODE_HEAD_SIZE + OS_MEM_MIN_ALLOC_SIZE \<le> mem s2 (saf_at node) then OsMemSplitNode node allocSize s2 else Some s2);
     Some (wr (saf_at node) (mem s3 (saf_at node) OR OS_MEM_NODE_USED_FLAG) s3)
   }"

definition OsGetRealPtr :: "u32 \<Rightarrow> u32 \<Rightarrow> tlsf \<Rightarrow> u32" where
  "OsGetRealPtr pool ptr s =
    (let gapSize = mem s (ptr - 4)
     in if OS_MEM_NODE_GET_ALIGNED_FLAG gapSize \<and> OS_MEM_NODE_GET_USED_FLAG gapSize then 0
        else if OS_MEM_NODE_GET_ALIGNED_FLAG gapSize
        then let gap = OS_MEM_NODE_GET_ALIGNED_GAPSIZE gapSize
             in if gap AND (OS_MEM_ALIGN_SIZE - 1) \<noteq> 0 \<or> ptr - OS_MEM_NODE_HEAD_SIZE - pool < gap then 0 else ptr - gap
        else ptr)"

text \<open>\<open>memcpy_s(dst, dstMax, src, n)\<close> of C11 (Annex K) on words: it refuses a destination that is too large or too small and ranges that
  overlap.\<close>

definition memcpy_s_ok :: "u32 \<Rightarrow> u32 \<Rightarrow> u32 \<Rightarrow> u32 \<Rightarrow> u32 \<Rightarrow> bool" where
  "memcpy_s_ok rmax dst dstMax src n \<longleftrightarrow> dstMax \<noteq> 0 \<and> dstMax \<le> rmax \<and> n \<le> dstMax \<and> dst \<noteq> 0 \<and> src \<noteq> 0 \<and> n \<le> dst - src \<and> n \<le> src - dst"

definition copy_words :: "u32 \<Rightarrow> u32 \<Rightarrow> u32 \<Rightarrow> tlsf \<Rightarrow> tlsf" where
  "copy_words dst src n s = s\<lparr>mem := \<lambda>a. if a - dst < n then mem s (src + (a - dst)) else mem s a\<rparr>"

definition OsMemRealloc :: "u32 \<Rightarrow> u32 \<Rightarrow> u32 \<Rightarrow> u32 \<Rightarrow> tlsf \<Rightarrow> (tlsf \<times> u32) option" where
  "OsMemRealloc pool ptr node sz s =
    (let allocSize = OS_MEM_ALIGN (sz + OS_MEM_NODE_HEAD_SIZE) OS_MEM_ALIGN_SIZE;
         nodeSize = OS_MEM_NODE_GET_SIZE (mem s (saf_at node))
     in if allocSize \<le> nodeSize then map_option (\<lambda>t. (t, ptr)) (OsMemReAllocSmaller allocSize node nodeSize s)
        else let nextNode = OS_MEM_NEXT_NODE node s
             in if \<not> OS_MEM_NODE_GET_USED_FLAG (mem s (saf_at nextNode)) \<and> allocSize \<le> mem s (saf_at nextNode) + nodeSize
                then map_option (\<lambda>t. (t, ptr)) (OsMemMergeNodeForReAllocBigger allocSize node nodeSize nextNode s)
                else do {
                  (s1, tmpPtr) \<leftarrow> OsMemAlloc pool sz s;
                  if tmpPtr = 0 then Some (s1, 0)
                  else if \<not> memcpy_s_ok (secMax s1) tmpPtr sz ptr (nodeSize - OS_MEM_NODE_HEAD_SIZE)
                  then map_option (\<lambda>(s2, _). (s2, 0)) (LOS_MemFree pool tmpPtr s1)
                  else map_option (\<lambda>(s2, _). (s2, tmpPtr)) (OsMemFree pool node (copy_words tmpPtr ptr (nodeSize - OS_MEM_NODE_HEAD_SIZE) s1))
                })"

definition LOS_MemRealloc :: "u32 \<Rightarrow> u32 \<Rightarrow> u32 \<Rightarrow> tlsf \<Rightarrow> (tlsf \<times> u32) option" where
  "LOS_MemRealloc pool ptr sz s =
    (if pool = 0 \<or> OS_MEM_NODE_GET_USED_FLAG sz \<or> OS_MEM_NODE_GET_ALIGNED_FLAG sz then Some (s, 0)
     else let sz = (if sz < OS_MEM_MIN_ALLOC_SIZE then OS_MEM_MIN_ALLOC_SIZE else sz)
          in if ptr = 0 then LOS_MemAlloc pool sz s
             else if sz = 0 then map_option (\<lambda>(s1, _). (s1, 0)) (LOS_MemFree pool ptr s)
             else let real = OsGetRealPtr pool ptr s
                  in if real = 0 then Some (s, 0)
                     else do {
                       ret \<leftarrow> OsMemCheckUsedNode pool (real - OS_MEM_NODE_HEAD_SIZE) s;
                       if ret \<noteq> LOS_OK then Some (s, 0) else OsMemRealloc pool real (real - OS_MEM_NODE_HEAD_SIZE) sz s
                     })"

end
