(* ===== verification/LosTlsfLists.thy ===== *)
theory LosTlsfLists
  imports LosTlsf
begin

text \<open>
  The free lists of the heap as lists of addresses: adding a node puts it at the front of the list of its size class, deleting one takes it out,
  and neither touches a word of memory besides the links of free nodes.
\<close>

section \<open>Memory at natural addresses\<close>

definition hm :: "tlsf \<Rightarrow> nat \<Rightarrow> u32" where
  "hm s a = (if a < 2 ^ 32 then mem s (of_nat a) else 0)"

lemma of_nat32_inj: "a < 2 ^ 32 \<Longrightarrow> b < 2 ^ 32 \<Longrightarrow> (of_nat a :: u32) = of_nat b \<longleftrightarrow> a = b"
  by (metis unat_of_nat32)

lemma of_nat32_0: "a < 2 ^ 32 \<Longrightarrow> (of_nat a :: u32) = 0 \<longleftrightarrow> a = 0"
  using of_nat32_inj [of a 0] by simp

lemma mem_at0: "x < 2 ^ 32 \<Longrightarrow> mem s (of_nat x) = hm s x"
  by (simp add: hm_def)

lemma mem_at: "x + numeral k < 2 ^ 32 \<Longrightarrow> mem s (of_nat x + numeral k) = hm s (x + numeral k)"
  by (simp add: hm_def)

lemma wr_at0: "x < 2 ^ 32 \<Longrightarrow> hm (wr (of_nat x) v s) = (hm s)(x := v)"
  by (auto simp: hm_def wr_def fun_eq_iff of_nat32_inj)

lemma wr_at: "x + numeral k < 2 ^ 32 \<Longrightarrow> hm (wr (of_nat x + numeral k) v s) = (hm s)(x + numeral k := v)"
  using wr_at0 [of "x + numeral k" v s] by simp

definition same_env :: "tlsf \<Rightarrow> tlsf \<Rightarrow> bool" where
  "same_env s t \<longleftrightarrow> infoPool s = infoPool t \<and> totalSize s = totalSize t \<and> poolAttr s = poolAttr t \<and> heapPhys s = heapPhys t \<and>
    paddrQuery s = paddrQuery t \<and> tryShrink s = tryShrink t \<and> secMax s = secMax t"

lemma same_env_refl [simp]: "same_env s s"
  by (simp add: same_env_def)

lemma same_env_trans: "same_env s t \<Longrightarrow> same_env t u \<Longrightarrow> same_env s u"
  by (simp add: same_env_def)

lemma wr_frame [simp]: "freeList (wr a v s) = freeList s" "freeListBitmap (wr a v s) = freeListBitmap s" "same_env s (wr a v s)"
  "totalSize (wr a v s) = totalSize s" "poolAttr (wr a v s) = poolAttr s" "heapPhys (wr a v s) = heapPhys s" "secMax (wr a v s) = secMax s"
  by (simp_all add: wr_def same_env_def)

lemma hm_upd [simp]: "hm (s\<lparr>freeList := v\<rparr>) = hm s" "hm (s\<lparr>freeListBitmap := w\<rparr>) = hm s"
  by (simp_all add: hm_def fun_eq_iff)

section \<open>Nodes apart\<close>

text \<open>The words of a node are the five words of the header of a free node.\<close>

definition apart :: "nat set \<Rightarrow> bool" where
  "apart A \<longleftrightarrow> (\<forall>x \<in> A. 0 < x \<and> x + 20 \<le> 2 ^ 32 \<and> (\<forall>y \<in> A. x \<noteq> y \<longrightarrow> x + 20 \<le> y \<or> y + 20 \<le> x))"

lemma apartD: "apart A \<Longrightarrow> x \<in> A \<Longrightarrow> 0 < x \<and> x + 20 \<le> 2 ^ 32"
  by (simp add: apart_def)

lemma apart_mono: "apart A \<Longrightarrow> B \<subseteq> A \<Longrightarrow> apart B"
  unfolding apart_def by blast

lemma apart_far: "apart A \<Longrightarrow> x \<in> A \<Longrightarrow> y \<in> A \<Longrightarrow> x \<noteq> y \<Longrightarrow> x + 20 \<le> y \<or> y + 20 \<le> x"
  unfolding apart_def by blast

section \<open>Chains of links\<close>

primrec pchain :: "(nat \<Rightarrow> u32) \<Rightarrow> nat \<Rightarrow> nat list \<Rightarrow> bool" where
  "pchain m p [] \<longleftrightarrow> True"
| "pchain m p (x # xs) \<longleftrightarrow> m (x + 12) = of_nat p \<and> pchain m x xs"

primrec nchain :: "(nat \<Rightarrow> u32) \<Rightarrow> nat list \<Rightarrow> nat \<Rightarrow> bool" where
  "nchain m [] q \<longleftrightarrow> True"
| "nchain m (x # xs) q \<longleftrightarrow> m (x + 16) = of_nat (hd (xs @ [q])) \<and> nchain m xs q"

lemma pchain_append: "pchain m p (us @ vs) \<longleftrightarrow> pchain m p us \<and> pchain m (last (p # us)) vs"
  by (induction us arbitrary: p) auto

lemma nchain_append: "nchain m (us @ vs) q \<longleftrightarrow> nchain m us (hd (vs @ [q])) \<and> nchain m vs q"
  by (induction us) (auto simp: hd_append)

lemma pchain_cong: "(\<And>x. x \<in> set xs \<Longrightarrow> m (x + 12) = m' (x + 12)) \<Longrightarrow> pchain m p xs = pchain m' p xs"
  by (induction xs arbitrary: p) auto

lemma nchain_cong: "(\<And>x. x \<in> set xs \<Longrightarrow> m (x + 16) = m' (x + 16)) \<Longrightarrow> nchain m xs q = nchain m' xs q"
  by (induction xs) auto

definition dll :: "(nat \<Rightarrow> u32) \<Rightarrow> nat list \<Rightarrow> bool" where
  "dll m xs \<longleftrightarrow> pchain m 0 xs \<and> nchain m xs 0"

lemma dll_cong: "(\<And>x. x \<in> set xs \<Longrightarrow> m (x + 12) = m' (x + 12) \<and> m (x + 16) = m' (x + 16)) \<Longrightarrow> dll m xs = dll m' xs"
  unfolding dll_def using pchain_cong [of xs m m' 0] nchain_cong [of xs m m' 0] by blast

text \<open>Putting a node in front, and taking one out of the middle.\<close>

lemma dll_Cons:
  assumes "apart A" and "set (x # xs) \<subseteq> A" and "distinct (x # xs)" and "dll m xs"
    and "m' (x + 12) = 0" and "m' (x + 16) = of_nat (hd (xs @ [0]))" and "xs \<noteq> [] \<Longrightarrow> m' (hd xs + 12) = of_nat x"
    and "\<And>y. y \<in> set (tl xs) \<Longrightarrow> m' (y + 12) = m (y + 12)" and "\<And>y. y \<in> set xs \<Longrightarrow> m' (y + 16) = m (y + 16)"
  shows "dll m' (x # xs)"
proof (cases xs)
  case (Cons y ys)
  then have "pchain m y ys" "nchain m xs 0" using assms(4) by (simp_all add: dll_def)
  then have "pchain m' y ys" "nchain m' xs 0" using pchain_cong [of ys m' m y] nchain_cong [of xs m' m 0] assms(8,9) Cons by auto
  then show ?thesis using Cons assms(5-7) by (simp add: dll_def)
qed (use assms in \<open>simp add: dll_def\<close>)

lemma dll_remove:
  assumes "dll m (us @ x # vs)"
    and "us \<noteq> [] \<Longrightarrow> m' (last us + 16) = m (x + 16)" and "vs \<noteq> [] \<Longrightarrow> m' (hd vs + 12) = m (x + 12)"
    and "\<And>y. y \<in> set us \<union> set (tl vs) \<Longrightarrow> m' (y + 12) = m (y + 12)" and "\<And>y. y \<in> set (butlast us) \<union> set vs \<Longrightarrow> m' (y + 16) = m (y + 16)"
  shows "dll m' (us @ vs)"
proof -
  let ?p = "last (0 # us)"
  have c: "pchain m 0 us" "m (x + 12) = of_nat ?p" "pchain m x vs" "nchain m us x" "m (x + 16) = of_nat (hd (vs @ [0]))" "nchain m vs 0"
    using assms(1) by (simp_all add: dll_def pchain_append nchain_append)
  have "pchain m' 0 us" using c(1) pchain_cong [of us m' m 0] assms(4) by auto
  moreover have "pchain m' ?p vs"
  proof (cases vs)
    case (Cons y ys)
    then have "pchain m' y ys" using c(3) pchain_cong [of ys m' m y] assms(4) by auto
    then show ?thesis using Cons assms(3) c(2) by simp
  qed simp
  moreover have "nchain m' vs 0" using c(6) nchain_cong [of vs m' m 0] assms(5) by auto
  moreover have "nchain m' us (hd (vs @ [0]))"
  proof (cases us rule: rev_cases)
    case (snoc ws w)
    then have "nchain m ws w" using c(4) by (simp add: nchain_append)
    then have "nchain m' ws w" using nchain_cong [of ws m' m w] assms(5) snoc by auto
    then show ?thesis using snoc assms(2) c(5) by (simp add: nchain_append)
  qed simp
  ultimately show ?thesis by (simp add: dll_def pchain_append nchain_append)
qed

section \<open>The lists\<close>

text \<open>The lists \<open>L\<close> hold the free nodes \<open>S\<close> (address to size) by size class, and the bitmap tells the lists that are not empty.\<close>

definition free_lists :: "tlsf \<Rightarrow> (nat \<Rightarrow> nat list) \<Rightarrow> (nat \<rightharpoonup> nat) \<Rightarrow> bool" where
  "free_lists s L S \<longleftrightarrow> (\<forall>i. freeList s i = of_nat (hd (L i @ [0])) \<and> dll (hm s) (L i) \<and> distinct (L i)) \<and>
    (\<forall>i < 256. bit (freeListBitmap s (i div 32)) (i mod 32) \<longleftrightarrow> L i \<noteq> []) \<and>
    (\<forall>i x. x \<in> set (L i) \<longleftrightarrow> (\<exists>n. S x = Some n \<and> bucket n = i))"

text \<open>The free nodes are nodes, of the sizes the classes are made for.\<close>

definition free_nodes :: "nat set \<Rightarrow> (nat \<rightharpoonup> nat) \<Rightarrow> bool" where
  "free_nodes A S \<longleftrightarrow> apart A \<and> dom S \<subseteq> A \<and> (\<forall>n \<in> ran S. 20 \<le> n \<and> n < 2 ^ 29)"

definition links :: "(nat \<rightharpoonup> nat) \<Rightarrow> nat set" where
  "links S = {x + 12 | x. x \<in> dom S} \<union> {x + 16 | x. x \<in> dom S}"

lemma free_listsD:
  assumes "free_lists s L S"
  shows "freeList s i = of_nat (hd (L i @ [0]))" and "dll (hm s) (L i)" and "distinct (L i)"
    and "i < 256 \<Longrightarrow> bit (freeListBitmap s (i div 32)) (i mod 32) \<longleftrightarrow> L i \<noteq> []" and "x \<in> set (L i) \<longleftrightarrow> (\<exists>n. S x = Some n \<and> bucket n = i)"
  using assms unfolding free_lists_def by blast+

lemma free_lists_in: "free_lists s L S \<Longrightarrow> set (L i) \<subseteq> dom S"
  using free_listsD(5) by fastforce

lemma free_nodesD:
  assumes "free_nodes A S" and "S x = Some n"
  shows "x \<in> A" and "20 \<le> n" and "n < 2 ^ 29" and "0 < x" and "x + 20 \<le> 2 ^ 32" and "bucket n < 207"
  using assms apartD [of A x] bucket_bound [of n] unfolding free_nodes_def by (auto simp: ran_def)

lemma free_nodes_del: "free_nodes A S \<Longrightarrow> free_nodes A (S(x := None))"
  unfolding free_nodes_def by (auto simp: ran_def)

lemma free_lists_cong:
  assumes "free_lists s L S" and "freeList t = freeList s" and "freeListBitmap t = freeListBitmap s"
    and "\<And>x. x \<in> dom S \<Longrightarrow> hm t (x + 12) = hm s (x + 12) \<and> hm t (x + 16) = hm s (x + 16)"
  shows "free_lists t L S"
proof -
  have "dll (hm t) (L i)" for i using dll_cong [of "L i" "hm t" "hm s"] free_listsD(2) [OF assms(1)] free_lists_in [OF assms(1), of i] assms(4) by blast
  with assms show ?thesis unfolding free_lists_def by simp
qed

lemma bitmap_position:
  assumes "i < 2 ^ 32"
  shows "BITMAP_INDEX (of_nat i) = i div 32" and "unat ((of_nat i :: u32) AND 0x1F) = i mod 32"
proof -
  show "BITMAP_INDEX (of_nat i) = i div 32" by (simp add: BITMAP_INDEX_def unat_drop32 unat_of_nat32 [OF assms])
  have "(of_nat i :: u32) AND 0x1F = take_bit 5 (of_nat i)" unfolding take_bit_eq_mask by (simp add: mask_eq_exp_minus_1)
  then have "unat ((of_nat i :: u32) AND 0x1F) = take_bit 5 (unat (of_nat i :: u32))" by (simp only: unsigned_take_bit_eq)
  then show "unat ((of_nat i :: u32) AND 0x1F) = i mod 32" by (simp add: unat_of_nat32 [OF assms] take_bit_eq_mod)
qed

lemma bitmap_set:
  assumes "i < 256" and "j < 256"
  shows "bit (freeListBitmap (OsMemSetFreeListBit (of_nat i) s) (j div 32)) (j mod 32) \<longleftrightarrow> j = i \<or> bit (freeListBitmap s (j div 32)) (j mod 32)"
    and "bit (freeListBitmap (OsMemClearFreeListBit (of_nat i) s) (j div 32)) (j mod 32) \<longleftrightarrow> j \<noteq> i \<and> bit (freeListBitmap s (j div 32)) (j mod 32)"
proof -
  have eq: "j = i \<longleftrightarrow> j div 32 = i div 32 \<and> j mod 32 = i mod 32" by (metis div_mult_mod_eq)
  have l: "j mod 32 < 32" "i mod 32 < 32" by simp_all
  have p: "BITMAP_INDEX (of_nat i) = i div 32" "unat ((of_nat i :: u32) AND 0x1F) = i mod 32" using bitmap_position [of i] assms by auto
  show "bit (freeListBitmap (OsMemSetFreeListBit (of_nat i) s) (j div 32)) (j mod 32) \<longleftrightarrow> j = i \<or> bit (freeListBitmap s (j div 32)) (j mod 32)"
    unfolding OsMemSetFreeListBit_def p using l eq by (auto simp: bit_simps)
  show "bit (freeListBitmap (OsMemClearFreeListBit (of_nat i) s) (j div 32)) (j mod 32) \<longleftrightarrow> j \<noteq> i \<and> bit (freeListBitmap s (j div 32)) (j mod 32)"
    unfolding OsMemClearFreeListBit_def p using l eq by (auto simp: bit_simps)
qed

lemma bitmap_frame [simp]: "freeList (OsMemSetFreeListBit i s) = freeList s" "hm (OsMemSetFreeListBit i s) = hm s" "mem (OsMemSetFreeListBit i s) = mem s"
  "freeList (OsMemClearFreeListBit i s) = freeList s" "hm (OsMemClearFreeListBit i s) = hm s" "mem (OsMemClearFreeListBit i s) = mem s"
  "same_env s (OsMemSetFreeListBit i s)" "same_env s (OsMemClearFreeListBit i s)"
  by (simp_all add: OsMemSetFreeListBit_def OsMemClearFreeListBit_def same_env_def)

section \<open>Adding and deleting\<close>

lemma apart_lt: "apart A \<Longrightarrow> x \<in> A \<Longrightarrow> x < 2 ^ 32" "apart A \<Longrightarrow> x \<in> A \<Longrightarrow> numeral k < (20 :: nat) \<Longrightarrow> x + numeral k < 2 ^ 32"
  using apartD [of A x] by (simp, meson add_strict_left_mono less_le_trans)

lemma ListAdd_mem:
  fixes s :: tlsf
  assumes A: "apart A" "x \<in> A" "h \<in> A \<or> h = 0" "h \<noteq> x" and h: "freeList s i = of_nat h" and i: "i < 223"
  defines "t \<equiv> OsMemListAdd (of_nat i) (of_nat x) s"
  shows "hm t = (if h = 0 then hm s else (hm s)(h + 12 := of_nat x))(x + 12 := 0, x + 16 := of_nat h, x := OS_MEM_NODE_MAGIC)"
    and "freeList t = (freeList s)(i := of_nat x)" and "freeListBitmap t = freeListBitmap (OsMemSetFreeListBit (of_nat i) s)" and "same_env s t"
proof -
  note l = apart_lt [OF A(1,2)]
  have h0: "(of_nat h :: u32) = 0 \<longleftrightarrow> h = 0" using A(3) of_nat32_0 apart_lt(1) [OF A(1)] by fastforce
  have i': "unat (of_nat i :: u32) = i" using i by (intro unat_of_nat32) simp
  show "hm t = (if h = 0 then hm s else (hm s)(h + 12 := of_nat x))(x + 12 := 0, x + 16 := of_nat h, x := OS_MEM_NODE_MAGIC)"
    unfolding t_def OsMemListAdd_def Let_def i' h h0 using l A(3) apart_lt [OF A(1), of h] by (auto simp: wr_at wr_at0)
  show "freeList t = (freeList s)(i := of_nat x)" "freeListBitmap t = freeListBitmap (OsMemSetFreeListBit (of_nat i) s)" "same_env s t"
    unfolding t_def OsMemListAdd_def Let_def i' by (auto simp: OsMemSetFreeListBit_def same_env_def wr_def)
qed

theorem ListAdd_lists:
  assumes L: "free_lists s L S" and S: "free_nodes A S" and x: "x \<in> A" "S x = None" and n: "20 \<le> n" "n < 2 ^ 29"
  defines "t \<equiv> OsMemListAdd (of_nat (bucket n)) (of_nat x) s"
  shows "free_lists t (L(bucket n := x # L (bucket n))) (S(x \<mapsto> n))" and "free_nodes A (S(x \<mapsto> n))" and "same_env s t"
    and "a \<notin> links (S(x \<mapsto> n)) \<Longrightarrow> hm t a = (if a = x then OS_MEM_NODE_MAGIC else hm s a)"
proof -
  let ?i = "bucket n" and ?h = "hd (L (bucket n) @ [0])"
  have i: "?i < 223" using bucket_bound [OF n(2)] by simp
  have A: "apart A" using S by (simp add: free_nodes_def)
  have LA: "set (L j) \<subseteq> dom S" "set (L j) \<subseteq> A" "x \<notin> set (L j)" for j
    using free_lists_in [OF L, of j] S x(2) by (auto simp: free_nodes_def)
  have hA: "?h \<in> A \<or> ?h = 0" "?h \<noteq> x" using LA [of ?i] apartD [OF A x(1)] by (cases "L ?i"; auto)+
  note m = ListAdd_mem [OF A x(1) hA free_listsD(1) [OF L] i, folded t_def]
  have hm: "hm t = (if L ?i = [] then hm s else (hm s)(hd (L ?i) + 12 := of_nat x))(x + 12 := 0, x + 16 := of_nat ?h, x := OS_MEM_NODE_MAGIC)"
    unfolding m(1) using LA(2) [of ?i] apartD [OF A] by (cases "L ?i") auto
  have f: "x + 20 \<le> y \<or> y + 20 \<le> x" if "y \<in> set (L j)" for y j using apart_far [OF A x(1), of y] that LA(2,3) [of j] by blast
  have far_hd: "L ?i \<noteq> [] \<Longrightarrow> y = hd (L ?i) \<or> y + 20 \<le> hd (L ?i) \<or> hd (L ?i) + 20 \<le> y" if "y \<in> set (L j)" for y j
    using apart_far [OF A, of y "hd (L ?i)"] that LA(2) [of j] LA(2) [of ?i] by (cases "L ?i") auto
  show "free_nodes A (S(x \<mapsto> n))" using S x n unfolding free_nodes_def by (auto simp: ran_def)
  show "same_env s t" by (rule m(4))
  show "hm t a = (if a = x then OS_MEM_NODE_MAGIC else hm s a)" if "a \<notin> links (S(x \<mapsto> n))"
  proof -
    have "a \<noteq> x + 12" "a \<noteq> x + 16" using that by (auto simp: links_def)
    moreover have "L ?i \<noteq> [] \<Longrightarrow> a \<noteq> hd (L ?i) + 12" using that LA(1) [of ?i] by (cases "L ?i") (auto simp: links_def)
    ultimately show ?thesis by (simp add: hm)
  qed
  have d: "dll (hm t) ((L(?i := x # L ?i)) j)" for j
  proof (cases "j = ?i")
    case True
    have "dll (hm t) (x # L ?i)"
    proof (rule dll_Cons [OF A, where m = "hm s"])
      show "set (x # L ?i) \<subseteq> A" "distinct (x # L ?i)" "dll (hm s) (L ?i)" using LA x free_listsD [OF L] by auto
      show "hm t (x + 12) = 0" "hm t (x + 16) = of_nat ?h" by (simp_all add: hm)
      show "hm t (hd (L ?i) + 12) = of_nat x" if "L ?i \<noteq> []"
        using that f [of "hd (L ?i)" ?i] by (auto simp: hm)
      show "hm t (y + 12) = hm s (y + 12)" if "y \<in> set (tl (L ?i))" for y
        using that f [of y ?i] free_listsD(3) [OF L, of ?i] by (cases "L ?i") (auto simp: hm)
      show "hm t (y + 16) = hm s (y + 16)" if "y \<in> set (L ?i)" for y
        using that f [of y ?i] far_hd [of y ?i] by (auto simp: hm)
    qed
    with True show ?thesis by simp
  next
    case False
    have "\<And>y. y \<in> set (L j) \<Longrightarrow> L ?i \<noteq> [] \<Longrightarrow> y \<noteq> hd (L ?i)"
    proof -
      fix y assume "y \<in> set (L j)" "L ?i \<noteq> []"
      then show "y \<noteq> hd (L ?i)" using free_listsD(5) [OF L, of y j] free_listsD(5) [OF L, of y ?i] False by (cases "L ?i") auto
    qed
    then have "hm t (y + 12) = hm s (y + 12) \<and> hm t (y + 16) = hm s (y + 16)" if "y \<in> set (L j)" for y
      using that f [of y j] far_hd [of y j] by (auto simp: hm)
    then have "dll (hm t) (L j)" using dll_cong [of "L j" "hm t" "hm s"] free_listsD(2) [OF L, of j] by blast
    with False show ?thesis by simp
  qed
  have b: "bit (freeListBitmap t (j div 32)) (j mod 32) \<longleftrightarrow> (L(?i := x # L ?i)) j \<noteq> []" if "j < 256" for j
    unfolding m(3) using bitmap_set(1) [of ?i j s] that i free_listsD(4) [OF L that] by simp
  show "free_lists t (L(?i := x # L ?i)) (S(x \<mapsto> n))" unfolding free_lists_def
  proof (intro conjI allI impI)
    fix j y
    show "freeList t j = of_nat (hd ((L(?i := x # L ?i)) j @ [0]))" using m(2) free_listsD(1) [OF L, of j] by simp
    show "dll (hm t) ((L(?i := x # L ?i)) j)" by (rule d)
    show "distinct ((L(?i := x # L ?i)) j)" using free_listsD(3) [OF L] LA(3) by simp
    show "bit (freeListBitmap t (j div 32)) (j mod 32) \<longleftrightarrow> (L(?i := x # L ?i)) j \<noteq> []" if "j < 256" by (rule b [OF that])
    show "y \<in> set ((L(?i := x # L ?i)) j) \<longleftrightarrow> (\<exists>n'. (S(x \<mapsto> n)) y = Some n' \<and> bucket n' = j)"
      using free_listsD(5) [OF L, of y j] LA(3) [of j] x(2) by (cases "y = x") auto
  qed
qed

lemma ListDelete_mem:
  fixes s :: tlsf
  assumes A: "apart A" "set (us @ x # vs) \<subseteq> A" "distinct (us @ x # vs)" and d: "dll (hm s) (us @ x # vs)"
    and h: "freeList s i = of_nat (hd (us @ [x]))" and i: "i < 223" and m: "hm s x = OS_MEM_NODE_MAGIC"
  defines "t \<equiv> OsMemListDelete (of_nat i) (of_nat x) s" and "m1 \<equiv> if us = [] then hm s else (hm s)(last us + 16 := hm s (x + 16))"
  shows "hm t = (if vs = [] then m1 else m1(hd vs + 12 := hm s (x + 12)))"
    and "freeList t = (freeList s)(i := of_nat (hd (us @ vs @ [0])))"
    and "freeListBitmap t = freeListBitmap (if us @ vs = [] then OsMemClearFreeListBit (of_nat i) s else s)" and "same_env s t"
proof -
  have lt: "y < 2 ^ 32" "y + 12 < 2 ^ 32" "y + 16 < 2 ^ 32" "0 < y" if "y \<in> set (us @ x # vs)" for y using apartD [OF A(1), of y] that A(2) by auto
  have ne: "(of_nat y :: u32) \<noteq> 0" if "y \<in> set (us @ x # vs)" for y using of_nat32_0 [OF lt(1) [OF that]] lt(4) [OF that] by simp
  have x: "x \<in> set (us @ x # vs)" by simp
  have i': "unat (of_nat i :: u32) = i" using i by (intro unat_of_nat32) simp
  define q where "q = hd (vs @ [0])"
  have p: "hm s (x + 12) = of_nat (last (0 # us))" "hm s (x + 16) = of_nat q"
    unfolding q_def using d by (simp_all add: dll_def pchain_append nchain_append)
  have hd: "of_nat x = freeList s i \<longleftrightarrow> us = []"
  proof (cases us)
    case (Cons u us')
    then have "x \<noteq> u" using A(3) by auto
    with Cons show ?thesis using of_nat32_inj [OF lt(1) [OF x] lt(1) [of u]] h by simp
  qed (simp add: h)
  have v0: "(of_nat q :: u32) = 0 \<longleftrightarrow> vs = []" unfolding q_def using ne [of "hd vs"] by (cases vs) auto
  have V: "vs \<noteq> [] \<Longrightarrow> hd vs \<in> set (us @ x # vs)" by (cases vs) auto
  have U: "us \<noteq> [] \<Longrightarrow> last us \<in> set (us @ x # vs)" by simp
  have ux: "us \<noteq> [] \<Longrightarrow> last us + 20 \<le> x \<or> x + 20 \<le> last us"
  proof -
    assume "us \<noteq> []"
    then have "last us \<in> set us" by simp
    then have "last us \<in> A" "last us \<noteq> x" using A(2,3) by auto
    then show ?thesis using apart_far [OF A(1), of "last us" x] A(2) by auto
  qed
  have rd: "mem s (of_nat x + 12) = hm s (x + 12)" "mem s (of_nat x + 16) = hm s (x + 16)" using lt [OF x] by (simp_all add: mem_at)
  have hx: "hm t = (if vs = [] then m1 else m1(hd vs + 12 := hm s (x + 12)))(x := OS_MEM_NODE_MAGIC)"
  proof (cases "us = []")
    case True
    then have "freeList s i = of_nat x" using hd by simp
    with True show ?thesis using V lt [OF V] lt [OF x] ne [OF x]
      by (cases vs) (auto simp: t_def OsMemListDelete_def Let_def i' rd p m1_def wr_at wr_at0 ne q_def)
  next
    case False
    define s0 where "s0 = wr (of_nat (last us) + 16) (of_nat q) s"
    have n0: "of_nat x \<noteq> freeList s i" using hd False by simp
    have h0: "hm s0 = m1" using False lt(3) [OF U] by (simp add: s0_def m1_def wr_at p)
    have r0: "mem s0 (of_nat x + 16) = of_nat q" "mem s0 (of_nat x + 12) = of_nat (last us)"
      using lt [OF x] ux [OF False] p False by (auto simp: mem_at h0 m1_def)
    have "t = wr (of_nat x) OS_MEM_NODE_MAGIC (if vs = [] then s0 else wr (of_nat q + 12) (of_nat (last us)) s0)"
      unfolding t_def OsMemListDelete_def Let_def i' rd p using n0 False by (simp add: s0_def [symmetric] r0 v0)
    then show ?thesis using lt [OF x] lt [OF V] p False by (cases vs) (simp_all add: wr_at0 wr_at h0 q_def)
  qed
  have "us \<noteq> [] \<Longrightarrow> x \<noteq> last us + 16" using ux by linarith
  then have "m1 x = OS_MEM_NODE_MAGIC" using m by (simp add: m1_def)
  moreover have "x \<noteq> hd vs + 12" if "vs \<noteq> []"
  proof -
    have "hd vs \<in> set vs" using that by simp
    then have "hd vs \<in> A" "hd vs \<noteq> x" "x \<in> A" using A(2,3) by auto
    then show ?thesis using apart_far [OF A(1), of "hd vs" x] by linarith
  qed
  ultimately have "(if vs = [] then m1 else m1(hd vs + 12 := hm s (x + 12))) x = OS_MEM_NODE_MAGIC" by simp
  then show "hm t = (if vs = [] then m1 else m1(hd vs + 12 := hm s (x + 12)))" unfolding hx by (rule fun_upd_idem)
  show "freeList t = (freeList s)(i := of_nat (hd (us @ vs @ [0])))"
    unfolding t_def OsMemListDelete_def Let_def i' hd rd p using h by (cases us) (auto simp: fun_eq_iff q_def)
  show "freeListBitmap t = freeListBitmap (if us @ vs = [] then OsMemClearFreeListBit (of_nat i) s else s)"
    unfolding t_def OsMemListDelete_def Let_def i' hd rd p using v0 by (auto simp: rd p OsMemClearFreeListBit_def)
  show "same_env s t" unfolding t_def OsMemListDelete_def Let_def by (auto simp: same_env_def OsMemClearFreeListBit_def wr_def)
qed


theorem ListDelete_lists:
  assumes L: "free_lists s L S" and S: "free_nodes A S" and x: "S x = Some n" and m: "hm s x = OS_MEM_NODE_MAGIC"
  defines "t \<equiv> OsMemListDelete (of_nat (bucket n)) (of_nat x) s"
  shows "free_lists t (L(bucket n := remove1 x (L (bucket n)))) (S(x := None))" and "same_env s t"
    and "a \<notin> links (S(x := None)) \<Longrightarrow> hm t a = hm s a"
proof -
  let ?i = "bucket n"
  note fn = free_nodesD [OF S x]
  have i: "?i < 223" using fn(6) by simp
  have A: "apart A" using S by (simp add: free_nodes_def)
  have "x \<in> set (L ?i)" using free_listsD(5) [OF L] x by blast
  then obtain us vs where uv: "L ?i = us @ x # vs" by (meson split_list)
  have sub: "set (us @ x # vs) \<subseteq> A" "distinct (us @ x # vs)" "set (us @ x # vs) \<subseteq> dom S"
    using free_lists_in [OF L, of ?i] free_listsD(3) [OF L, of ?i] S unfolding uv by (auto simp: free_nodes_def)
  then have r: "remove1 x (L ?i) = us @ vs" unfolding uv by (simp add: remove1_append)
  have "freeList s ?i = of_nat (hd (us @ [x]))" using free_listsD(1) [OF L, of ?i] unfolding uv by (simp add: hd_append)
  note md = ListDelete_mem [OF A sub(1,2) free_listsD(2) [OF L, of ?i, unfolded uv] this i m, folded t_def]
  show "same_env s t" by (rule md(4))
  have V: "hd vs \<in> set vs" if "vs \<noteq> []" using that by simp
  have U: "last us \<in> set us" if "us \<noteq> []" using that by simp
  have fr: "hm t a = hm s a" if "us \<noteq> [] \<longrightarrow> a \<noteq> last us + 16" "vs \<noteq> [] \<longrightarrow> a \<noteq> hd vs + 12" for a
    unfolding md(1) using that by simp
  show "hm t a = hm s a" if "a \<notin> links (S(x := None))"
  proof (rule fr)
    have "y + 12 \<in> links (S(x := None))" "y + 16 \<in> links (S(x := None))" if "y \<in> set (us @ vs)" for y
      using that sub(2,3) unfolding links_def by auto
    then show "us \<noteq> [] \<longrightarrow> a \<noteq> last us + 16" "vs \<noteq> [] \<longrightarrow> a \<noteq> hd vs + 12" using that U V by auto
  qed
  have far: "y = z \<or> y + 20 \<le> z \<or> z + 20 \<le> y" if "y \<in> set (L j)" "z \<in> set (us @ vs)" for y z j
  proof -
    have "y \<in> A" "z \<in> A" using that sub(1) free_lists_in [OF L, of j] S by (auto simp: free_nodes_def)
    then show ?thesis using apart_far [OF A, of y z] by blast
  qed
  have d: "dll (hm t) ((L(?i := us @ vs)) j)" for j
  proof (cases "j = ?i")
    case True
    have "dll (hm t) (us @ vs)"
    proof (rule dll_remove [where m = "hm s" and x = x])
      show "dll (hm s) (us @ x # vs)" using free_listsD(2) [OF L, of ?i] unfolding uv .
      have h16: "hm t (y + 16) = (if us \<noteq> [] \<and> y = last us then hm s (x + 16) else hm s (y + 16))" if "y \<in> set (us @ vs)" for y
        unfolding md(1) using far [of y ?i "hd vs"] that V uv by (cases "vs = []") auto
      have h12: "hm t (y + 12) = (if vs \<noteq> [] \<and> y = hd vs then hm s (x + 12) else hm s (y + 12))" if "y \<in> set (us @ vs)" for y
        unfolding md(1) using far [of y ?i "last us"] that U uv by (cases "us = []") auto
      show "us \<noteq> [] \<Longrightarrow> hm t (last us + 16) = hm s (x + 16)" using h16 [of "last us"] by simp
      show "vs \<noteq> [] \<Longrightarrow> hm t (hd vs + 12) = hm s (x + 12)" using h12 [of "hd vs"] by simp
      show "hm t (y + 12) = hm s (y + 12)" if "y \<in> set us \<union> set (tl vs)" for y
      proof -
        have "vs \<noteq> [] \<Longrightarrow> y \<noteq> hd vs" using that sub(2) by (cases vs) auto
        then show ?thesis using h12 [of y] that by (cases vs) auto
      qed
      show "hm t (y + 16) = hm s (y + 16)" if "y \<in> set (butlast us) \<union> set vs" for y
      proof -
        have "us \<noteq> [] \<Longrightarrow> y \<noteq> last us" using that sub(2) by (cases us rule: rev_cases) auto
        moreover have "y \<in> set (us @ vs)" using that in_set_butlastD [of y us] by auto
        ultimately show ?thesis using h16 [of y] by auto
      qed
    qed
    with True show ?thesis by simp
  next
    case False
    have ne: "y \<noteq> z" if "y \<in> set (L j)" "z \<in> set (us @ vs)" for y z
      using free_listsD(5) [OF L, of y j] free_listsD(5) [OF L, of z ?i] that False uv by auto
    have "hm t (y + 12) = hm s (y + 12) \<and> hm t (y + 16) = hm s (y + 16)" if "y \<in> set (L j)" for y
    proof -
      have "us \<noteq> [] \<longrightarrow> y + 20 \<le> last us \<or> last us + 20 \<le> y" using far [OF that, of "last us"] ne [OF that, of "last us"] U by auto
      moreover have "vs \<noteq> [] \<longrightarrow> y + 20 \<le> hd vs \<or> hd vs + 20 \<le> y" using far [OF that, of "hd vs"] ne [OF that, of "hd vs"] V by auto
      ultimately show ?thesis by (intro conjI fr) auto
    qed
    then have "dll (hm t) (L j)" using dll_cong [of "L j" "hm t" "hm s"] free_listsD(2) [OF L, of j] by blast
    with False show ?thesis by simp
  qed
  have b: "bit (freeListBitmap t (j div 32)) (j mod 32) \<longleftrightarrow> (L(?i := us @ vs)) j \<noteq> []" if "j < 256" for j
    unfolding md(3) using bitmap_set(2) [of ?i j s] that i free_listsD(4) [OF L that] uv by auto
  show "free_lists t (L(?i := remove1 x (L ?i))) (S(x := None))" unfolding free_lists_def r
  proof (intro conjI allI impI)
    fix j y
    show "freeList t j = of_nat (hd ((L(?i := us @ vs)) j @ [0]))" using md(2) free_listsD(1) [OF L, of j] by simp
    show "dll (hm t) ((L(?i := us @ vs)) j)" by (rule d)
    show "distinct ((L(?i := us @ vs)) j)" using free_listsD(3) [OF L] sub(2) by simp
    show "bit (freeListBitmap t (j div 32)) (j mod 32) \<longleftrightarrow> (L(?i := us @ vs)) j \<noteq> []" if "j < 256" by (rule b [OF that])
    show "y \<in> set ((L(?i := us @ vs)) j) \<longleftrightarrow> (\<exists>n'. (S(x := None)) y = Some n' \<and> bucket n' = j)"
      using free_listsD(5) [OF L, of y j] sub(2) x uv by (cases "y = x") auto
  qed
qed

end
