(* ===== verification/LosTlsfFind.thy ===== *)
theory LosTlsfFind
  imports LosTlsfLists
begin

text \<open>
  The search for a free block: the bitmap leads to the first list of a larger class that is not empty; only when there is none the list of the class of
  the request itself is searched. So a block is found whenever one is large enough.
\<close>

section \<open>The search in the bitmap\<close>

definition first_list :: "(nat \<Rightarrow> bool) \<Rightarrow> nat \<Rightarrow> nat \<Rightarrow> nat \<Rightarrow> bool" where
  "first_list Q i b r \<longleftrightarrow> (i \<le> r \<and> r < b \<and> Q r \<and> (\<forall>j. i \<le> j \<and> j < r \<longrightarrow> \<not> Q j)) \<or> (r = 223 \<and> (\<forall>j. i \<le> j \<and> j < b \<longrightarrow> \<not> Q j))"

definition marks :: "tlsf \<Rightarrow> (nat \<Rightarrow> bool) \<Rightarrow> bool" where
  "marks s Q \<longleftrightarrow> (\<forall>j < 256. bit (freeListBitmap s (j div 32)) (j mod 32) \<longleftrightarrow> Q j)"

lemma low_word:
  assumes w: "(w :: u32) \<noteq> 0" and b: "\<And>j. j < 32 \<Longrightarrow> bit w j \<longleftrightarrow> lo \<le> j \<and> Q (32 * k + j)" and lo: "lo < 32" "32 * k + 32 \<le> c"
  shows "first_list Q (32 * k + lo) c (32 * k + LOS_LowBitGet w)"
proof -
  note l = LOS_LowBitGet_least [OF w]
  have "lo \<le> LOS_LowBitGet w" "Q (32 * k + LOS_LowBitGet w)" using l(1,2) b by auto
  moreover have "\<not> Q j" if "32 * k + lo \<le> j" "j < 32 * k + LOS_LowBitGet w" for j
  proof
    assume "Q j"
    moreover have "32 * k + (j - 32 * k) = j" "j - 32 * k < 32" "lo \<le> j - 32 * k" using that l(1) by auto
    ultimately have "bit w (j - 32 * k)" using b [of "j - 32 * k"] by simp
    then show False using l(3) that by fastforce
  qed
  ultimately show ?thesis unfolding first_list_def using l(1) lo by auto
qed

lemma first_list_down:
  assumes "first_list Q i' b r" and "\<And>j. i \<le> j \<Longrightarrow> j < i' \<Longrightarrow> \<not> Q j" and "i \<le> i'"
  shows "first_list Q i b r"
  using assms unfolding first_list_def by (meson le_trans not_le)

lemma empty_word:
  assumes "(w :: u32) = 0" and b: "\<And>j. j < 32 \<Longrightarrow> bit w j \<longleftrightarrow> lo \<le> j \<and> Q (32 * k + j)"
  shows "32 * k + lo \<le> j \<Longrightarrow> j < 32 * k + 32 \<Longrightarrow> \<not> Q j"
proof
  assume j: "32 * k + lo \<le> j" "j < 32 * k + 32" "Q j"
  then have "32 * k + (j - 32 * k) = j" by simp
  with b [of "j - 32 * k"] j assms(1) show False by auto
qed

lemma ffs_add:
  assumes "w \<noteq> 0" and "k < 7"
  shows "unat (ucast (OsMemFFS w) + (of_nat (32 * k) :: u32)) = 32 * k + LOS_LowBitGet w"
proof -
  have l: "LOS_LowBitGet w < 32" by (rule LOS_LowBitGet_least(1) [OF assms(1)])
  have u: "unat (ucast (OsMemFFS w) :: u32) = LOS_LowBitGet w"
    using FFS_low [OF assms(1)] l by (simp add: unsigned_ucast_eq take_bit_nat_eq_self)
  have "unat (of_nat (32 * k) :: u32) = 32 * k" using assms(2) by (intro unat_of_nat32) simp
  then show ?thesis using unat_add32 [of "ucast (OsMemFFS w)" "of_nat (32 * k)"] u l assms(2) by simp
qed

lemma index_base:
  assumes "i < 256"
  shows "(of_nat i :: u32) AND NOT 0x1F = of_nat (32 * (i div 32))"
proof -
  have "(0x1F :: u32) = mask 5" by (simp add: mask_eq_exp_minus_1)
  then have "unat ((of_nat i :: u32) AND NOT 0x1F) = i div 32 * 32"
    using and_not_mask32 [of 5 "of_nat i"] unat_of_nat32 [of i] assms by simp
  moreover have "unat (of_nat (32 * (i div 32)) :: u32) = 32 * (i div 32)" using assms by (intro unat_of_nat32) simp
  ultimately show ?thesis by (simp add: word_unat_eq_iff)
qed

lemma NotEmptyIndex:
  assumes m: "marks s Q" and i: "i < 223"
  shows "first_list Q i (32 * (i div 32) + 32) (unat (OsMemNotEmptyIndexGet (of_nat i) s))"
proof -
  let ?k = "i div 32" and ?lo = "i mod 32"
  let ?w = "freeListBitmap s ?k AND NOT (push_bit ?lo 1 - 1)"
  have ik: "i = 32 * ?k + ?lo" by simp
  have b: "bit ?w j \<longleftrightarrow> ?lo \<le> j \<and> Q (32 * ?k + j)" if "j < 32" for j
  proof -
    have "32 * ?k + j < 256" "(32 * ?k + j) div 32 = ?k" "(32 * ?k + j) mod 32 = j" using that i by auto
    then have "bit (freeListBitmap s ?k) j \<longleftrightarrow> Q (32 * ?k + j)" using m unfolding marks_def by metis
    moreover have "(push_bit ?lo 1 - 1 :: u32) = mask ?lo" by (simp add: mask_eq_exp_minus_1 push_bit_eq_mult)
    ultimately show ?thesis using that by (auto simp: bit_simps)
  qed
  have e: "OsMemNotEmptyIndexGet (of_nat i) s = (if ?w \<noteq> 0 then ucast (OsMemFFS ?w) + of_nat (32 * ?k) else 223)"
    unfolding OsMemNotEmptyIndexGet_def Let_def using bitmap_position [of i] index_base [of i] i by simp
  show ?thesis
  proof (cases "?w = 0")
    case True
    then have "\<forall>j. i \<le> j \<and> j < 32 * ?k + 32 \<longrightarrow> \<not> Q j" using empty_word [OF True b] ik by simp
    with True e show ?thesis unfolding first_list_def by simp
  next
    case False
    have "unat (OsMemNotEmptyIndexGet (of_nat i) s) = 32 * ?k + LOS_LowBitGet ?w" unfolding e using False ffs_add [OF False, of ?k] i by simp
    with low_word [OF False b, of "32 * ?k + 32"] show ?thesis using ik by simp
  qed
qed

lemma scan_words_first:
  assumes m: "marks s Q"
  shows "k \<le> 7 \<Longrightarrow> first_list Q (32 * k) 224 (unat (scan_words (of_nat (32 * k)) s))"
proof (induction "7 - k" arbitrary: k)
  case 0
  then have "k = 7" by simp
  then show ?case by (subst scan_words.simps) (auto simp: first_list_def)
next
  case (Suc d)
  then have k: "k < 7" by simp
  let ?w = "freeListBitmap s k"
  have p: "BITMAP_INDEX (of_nat (32 * k)) = k" using bitmap_position(1) [of "32 * k"] k by simp
  have l: "(of_nat (32 * k) :: u32) < 223" using k unat_of_nat32 [of "32 * k"] by (simp add: word_less_nat_alt)
  have b: "bit ?w j \<longleftrightarrow> 0 \<le> j \<and> Q (32 * k + j)" if "j < 32" for j
  proof -
    have "32 * k + j < 256" "(32 * k + j) div 32 = k" "(32 * k + j) mod 32 = j" using that k by auto
    then show ?thesis using m unfolding marks_def by (metis le0)
  qed
  have e: "scan_words (of_nat (32 * k)) s = (if ?w \<noteq> 0 then ucast (OsMemFFS ?w) + of_nat (32 * k) else scan_words (of_nat (32 * Suc k)) s)"
    by (subst scan_words.simps) (use l p in \<open>simp add: Let_def add.commute\<close>)
  show ?case
  proof (cases "?w = 0")
    case True
    have n: "\<not> Q j" if "32 * k \<le> j" "j < 32 * k + 32" for j using empty_word [OF True b] that by simp
    have "first_list Q (32 * Suc k) 224 (unat (scan_words (of_nat (32 * Suc k)) s))" using Suc.hyps(1) [of "Suc k"] Suc.hyps(2) k by simp
    then have "first_list Q (32 * k) 224 (unat (scan_words (of_nat (32 * Suc k)) s))" using n by (rule first_list_down) auto
    with True e show ?thesis by simp
  next
    case False
    have "unat (scan_words (of_nat (32 * k)) s) = 32 * k + LOS_LowBitGet ?w" unfolding e using False ffs_add [OF False k] by simp
    with low_word [OF False b, of 224] show ?thesis using k by simp
  qed
qed

text \<open>The two searches in the bitmap together find the first list from an index on that is not empty.\<close>

definition next_list :: "u32 \<Rightarrow> tlsf \<Rightarrow> u32" where
  "next_list index s = (let tmp = OsMemNotEmptyIndexGet index s in if tmp \<noteq> OS_MEM_FREE_LIST_COUNT then tmp else scan_words (LOS_Align (index + 1) 32) s)"

lemma align_next:
  assumes "i < 223"
  shows "LOS_Align (of_nat i + 1) 32 = of_nat (32 * (i div 32 + 1))"
proof -
  have u: "unat (of_nat i + 1 + 32 - 1 :: u32) = i + 32" using unat_of_nat32 [of "i + 32"] assms by (simp add: algebra_simps)
  have "unat (of_nat i + 1 :: u32) = i + 1" using unat_of_nat32 [of "i + 1"] assms by (simp add: algebra_simps)
  then have g: "(of_nat i + 1 :: u32) < of_nat i + 1 + 32 - 1" unfolding word_less_nat_alt u by simp
  have "(32 - 1 :: u32) = mask 5" by (simp add: mask_eq_exp_minus_1)
  then have "unat ((of_nat i + 1 + 32 - 1) AND NOT (32 - 1) :: u32) = (i + 32) div 32 * 32"
    using and_not_mask32 [of 5 "of_nat i + 1 + 32 - 1"] unfolding u by simp
  moreover have "unat (of_nat (32 * (i div 32 + 1)) :: u32) = 32 * (i div 32 + 1)" using assms by (intro unat_of_nat32) simp
  ultimately show ?thesis unfolding LOS_Align_def using g by (simp add: word_unat_eq_iff div_add_self2)
qed

lemma next_list_first:
  assumes m: "marks s Q" and i: "i < 223" and q: "\<And>j. Q j \<Longrightarrow> j < 223"
  shows "first_list Q i 223 (unat (next_list (of_nat i) s))"
proof -
  let ?k = "i div 32" and ?t = "unat (OsMemNotEmptyIndexGet (of_nat i) s)"
  have t: "first_list Q i (32 * ?k + 32) ?t" by (rule NotEmptyIndex [OF m i])
  have tw: "OsMemNotEmptyIndexGet (of_nat i) s = 223 \<longleftrightarrow> ?t = 223" by (simp add: word_unat_eq_iff)
  have ik: "i < 32 * ?k + 32" using mod_less_divisor [of 32 i] div_mult_mod_eq [of i 32] by linarith
  show ?thesis
  proof (cases "?t = 223")
    case False
    then have "i \<le> ?t" "Q ?t" "\<forall>j. i \<le> j \<and> j < ?t \<longrightarrow> \<not> Q j" using t by (auto simp: first_list_def)
    with False tw q show ?thesis by (auto simp: next_list_def first_list_def Let_def)
  next
    case True
    have n: "\<not> Q j" if "i \<le> j" "j < 32 * ?k + 32" for j using t True q [of 223] that by (auto simp: first_list_def)
    let ?r = "unat (scan_words (of_nat (32 * (?k + 1))) s)"
    have e: "unat (next_list (of_nat i) s) = ?r" using True tw align_next [OF i] by (simp add: next_list_def Let_def)
    have "?k + 1 \<le> 7" using i by simp
    then have r: "first_list Q (32 * (?k + 1)) 224 ?r" by (rule scan_words_first [OF m])
    then have "first_list Q i 224 ?r" by (rule first_list_down) (use n ik in auto)
    then show ?thesis unfolding e first_list_def using q by fastforce
  qed
qed

section \<open>The search for a block\<close>

lemma find_cur_list:
  assumes A: "apart A" and xs: "set xs \<subseteq> A" and n: "nchain (hm s) xs 0" and z: "\<And>x. x \<in> set xs \<Longrightarrow> hm s (x + 8) = of_nat (f x) \<and> f x < 2 ^ 32" and k: "k < 2 ^ 32"
  shows "find_cur (of_nat (hd (xs @ [0]))) (of_nat k) s = Some (of_nat (hd (filter (\<lambda>x. k \<le> f x) xs @ [0])))"
  using xs n z
proof (induction xs)
  case Nil
  then show ?case by (simp add: find_cur.simps)
next
  case (Cons x xs)
  have l: "x < 2 ^ 32" "x + 8 < 2 ^ 32" "x + 16 < 2 ^ 32" "0 < x" using apartD [OF A, of x] Cons.prems(1) by auto
  have le: "(of_nat k :: u32) \<le> of_nat (f x) \<longleftrightarrow> k \<le> f x" using k Cons.prems(3) [of x] by (simp add: word_le_nat_alt unat_of_nat32)
  have ih: "find_cur (of_nat (hd (xs @ [0]))) (of_nat k) s = Some (of_nat (hd (filter (\<lambda>x. k \<le> f x) xs @ [0])))"
    using Cons by simp
  have nz: "(of_nat x :: u32) \<noteq> 0" using of_nat32_0 [OF l(1)] l(4) by simp
  show ?case
    by (subst find_cur.simps) (use nz l Cons.prems(2) Cons.prems(3) [of x] le ih in \<open>simp add: mem_at\<close>)
qed

text \<open>The header of every free node holds its size.\<close>

definition sized :: "tlsf \<Rightarrow> (nat \<rightharpoonup> nat) \<Rightarrow> bool" where
  "sized s S \<longleftrightarrow> (\<forall>x n. S x = Some n \<longrightarrow> hm s (x + 8) = of_nat n \<and> 4 dvd n)"

lemma index_of_nat: "4 \<le> n \<Longrightarrow> n < 2 ^ 29 \<Longrightarrow> OsMemFreeListIndexGet (of_nat n) = of_nat (bucket n)"
proof -
  assume n: "4 \<le> n" "n < 2 ^ 29"
  have "unat (of_nat (bucket n) :: u32) = bucket n" using bucket_bound [OF n(2)] by (intro unat_of_nat32) simp
  with index_class [OF n] show ?thesis by (simp add: word_unat_eq_iff)
qed

lemma FindNext_unfold:
  assumes "4 \<le> k" and "k < 2 ^ 29"
  shows "OsMemFindNextSuitableBlock (of_nat k) s =
    (let i = bucket k + (if k < 128 then 0 else 1); j = next_list (of_nat i) s
     in if j \<noteq> 223 then Some (freeList s (unat j), j) else if k < 128 then Some (0, 0)
        else map_option (\<lambda>node. (node, of_nat (bucket k))) (find_cur (freeList s (bucket k)) (of_nat k) s))"
proof -
  have k: "(of_nat k :: u32) < 128 \<longleftrightarrow> k < 128" using assms unat_of_nat32 [of k] by (simp add: word_less_nat_alt)
  have b: "unat (of_nat (bucket k) :: u32) = bucket k" "bucket k < 207" using bucket_bound [OF assms(2)] unat_of_nat32 [of "bucket k"] by auto
  then have ne: "(of_nat (bucket k) :: u32) \<noteq> 223" unfolding word_unat_eq_iff by simp
  show ?thesis
  proof (cases "k < 128")
    case True
    then have "OsMemFlGet (of_nat k) = of_nat (bucket k)" using index_of_nat [OF assms] k by (simp add: OsMemFreeListIndexGet_def)
    with True k show ?thesis by (simp add: OsMemFindNextSuitableBlock_def next_list_def Let_def)
  next
    case False
    then have c: "push_bit 3 (OsMemFlGet (of_nat k) - 7) + OsMemSlGet (of_nat k) (OsMemFlGet (of_nat k)) + 31 = of_nat (bucket k)"
      using index_of_nat [OF assms] k by (simp add: OsMemFreeListIndexGet_def Let_def add.commute add.left_commute)
    show ?thesis unfolding OsMemFindNextSuitableBlock_def OsMemFindCurSuitableBlock_def next_list_def Let_def
      using False k ne
      by (cases "find_cur (freeList s (bucket k)) (of_nat k) s")
        (simp_all add: c b(1) add.commute [of 1 "of_nat (bucket k) :: u32"] add.commute [of 2 "of_nat (bucket k) :: u32"])
  qed
qed


lemma next_list_free:
  assumes L: "free_lists s L S" and S: "free_nodes A S" and i: "i < 223"
  shows "(\<exists>x n. next_list (of_nat i) s = of_nat (bucket n) \<and> of_nat (bucket n) \<noteq> (223 :: u32) \<and> freeList s (unat (of_nat (bucket n) :: u32)) = of_nat x \<and>
      S x = Some n \<and> i \<le> bucket n) \<or>
    (next_list (of_nat i) s = 223 \<and> (\<forall>x n. S x = Some n \<longrightarrow> bucket n < i))"
proof -
  let ?Q = "\<lambda>j. L j \<noteq> []" and ?j = "unat (next_list (of_nat i) s)"
  have in_list: "\<exists>x n. L j = x # tl (L j) \<and> S x = Some n \<and> bucket n = j" if "L j \<noteq> []" for j
    using that free_listsD(5) [OF L, of "hd (L j)" j] by (cases "L j") auto
  have q: "j < 223" if "L j \<noteq> []" for j using in_list [OF that] free_nodesD(6) [OF S] by fastforce
  have m: "marks s ?Q" unfolding marks_def using free_listsD(4) [OF L] by blast
  have "first_list ?Q i 223 ?j" by (rule next_list_first [OF m i]) (use q in simp)
  then consider "i \<le> ?j" "?j < 223" "L ?j \<noteq> []" | "?j = 223" "\<And>j. i \<le> j \<Longrightarrow> j < 223 \<Longrightarrow> L j = []" unfolding first_list_def by blast
  then show ?thesis
  proof cases
    case 1
    then obtain x n where x: "L ?j = x # tl (L ?j)" "S x = Some n" "bucket n = ?j" using in_list by blast
    then have "freeList s ?j = of_nat x" using free_listsD(1) [OF L, of ?j] by (metis append_Cons list.sel(1))
    moreover have u: "unat (of_nat (bucket n) :: u32) = bucket n" using 1(2) x(3) by (intro unat_of_nat32) simp
    moreover have "(of_nat (bucket n) :: u32) \<noteq> 223" unfolding word_unat_eq_iff u using 1(2) x(3) by simp
    ultimately show ?thesis using x 1(1) by (metis word_unat_eq_iff)
  next
    case 2
    have "bucket n < i" if "S x = Some n" for x n
      using 2(2) [of "bucket n"] free_listsD(5) [OF L, of x "bucket n"] that free_nodesD(6) [OF S that] by fastforce
    with 2(1) show ?thesis by (simp add: word_unat_eq_iff)
  qed
qed

theorem FindNext:
  assumes L: "free_lists s L S" and S: "free_nodes A S" "sized s S" and k: "20 \<le> k" "k < 2 ^ 29" "4 dvd k"
  shows "(\<exists>x n. OsMemFindNextSuitableBlock (of_nat k) s = Some (of_nat x, of_nat (bucket n)) \<and> S x = Some n \<and> k \<le> n) \<or>
    (\<exists>j. OsMemFindNextSuitableBlock (of_nat k) s = Some (0, j) \<and> (\<forall>x n. S x = Some n \<longrightarrow> n < k))"
proof -
  let ?i = "bucket k + (if k < 128 then 0 else 1)"
  have i: "?i < 223" using bucket_bound [OF k(2)] by simp
  have less: "bucket n \<le> bucket k" if "n < k" for n using bucket_mono [of n k] that k(2) by simp
  have more: "bucket k \<le> bucket n" if "k \<le> n" "S x = Some n" for n x using bucket_mono [of k n] that free_nodesD(3) [OF S(1) that(2)] by simp
  have small: "k \<le> n" if "S x = Some n" "?i \<le> bucket n" for x n
  proof (rule ccontr)
    assume "\<not> k \<le> n"
    then have "n < k" by simp
    with less [of n] that(2) have "k < 128" "bucket n = bucket k" by (auto split: if_splits)
    moreover have "4 dvd n" using S(2) that(1) by (auto simp: sized_def)
    ultimately show False using bucket_small [of k n] k free_nodesD [OF S(1) that(1)] \<open>n < k\<close> by simp
  qed
  from next_list_free [OF L S(1) i] show ?thesis
  proof (elim disjE exE conjE)
    fix x n assume "next_list (of_nat ?i) s = of_nat (bucket n)" "of_nat (bucket n) \<noteq> (223 :: u32)"
      "freeList s (unat (of_nat (bucket n) :: u32)) = of_nat x" "S x = Some n" "?i \<le> bucket n"
    then show ?thesis using small [of x n] FindNext_unfold [of k s] k by (simp add: Let_def) blast
  next
    assume a: "next_list (of_nat ?i) s = 223" "\<forall>x n. S x = Some n \<longrightarrow> bucket n < ?i"
    show ?thesis
    proof (cases "k < 128")
      case True
      have "n < k" if "S x = Some n" for x n using a(2) that more [of n x] True by (metis add_0_right not_less)
      then show ?thesis using FindNext_unfold [of k s] k a(1) True by (simp add: Let_def)
    next
      case False
      let ?xs = "L (bucket k)"
      let ?ys = "filter (\<lambda>x. k \<le> the (S x)) ?xs"
      have A: "apart A" "set ?xs \<subseteq> A" using S(1) free_lists_in [OF L, of "bucket k"] by (auto simp: free_nodes_def)
      have z: "hm s (x + 8) = of_nat (the (S x)) \<and> the (S x) < 2 ^ 32" if "x \<in> set ?xs" for x
      proof -
        have "\<exists>n. S x = Some n" using free_listsD(5) [OF L, of x "bucket k"] that by blast
        then obtain n where "S x = Some n" ..
        then show ?thesis using S(2) free_nodesD(3) [OF S(1), of x n] by (simp add: sized_def)
      qed
      have "nchain (hm s) ?xs 0" using free_listsD(2) [OF L] by (simp add: dll_def)
      then have "find_cur (of_nat (hd (?xs @ [0]))) (of_nat k) s = Some (of_nat (hd (?ys @ [0])))"
        using find_cur_list [OF A _ z] k by simp
      then have e: "OsMemFindNextSuitableBlock (of_nat k) s = Some (of_nat (hd (?ys @ [0])), of_nat (bucket k))"
        using FindNext_unfold [of k s] k a(1) False free_listsD(1) [OF L, of "bucket k"] by (simp add: Let_def)
      show ?thesis
      proof (cases ?ys)
        case Nil
        have "n < k" if "S x = Some n" for x n
        proof (rule ccontr)
          assume n: "\<not> n < k"
          then have "bucket n = bucket k" using a(2) that more [of n x] False by fastforce
          then have "x \<in> set ?ys" using free_listsD(5) [OF L, of x "bucket k"] that n by auto
          with Nil show False by simp
        qed
        with e Nil show ?thesis by auto
      next
        case (Cons y ys)
        then have y: "y \<in> set ?ys" by simp
        then obtain n where "S y = Some n" "bucket n = bucket k" "k \<le> n" using free_listsD(5) [OF L, of y "bucket k"] by auto
        with e Cons show ?thesis by (metis append_Cons list.sel(1))
      qed
    qed
  qed
qed

end
