(* ===== verification/LosTlsfBlocks.thy ===== *)
theory LosTlsfBlocks
  imports LosTlsfFind
begin

text \<open>
  The blocks of a pool as a list of sizes and flags in the order of their addresses: what the headers hold for such a list, and which blocks are free.
\<close>

section \<open>Lists of blocks\<close>

type_synonym block = "nat \<times> u32"

primrec bend :: "nat \<Rightarrow> block list \<Rightarrow> nat" where
  "bend a [] = a"
| "bend a (b # bs) = bend (a + fst b) bs"

primrec starts :: "nat \<Rightarrow> block list \<Rightarrow> nat list" where
  "starts a [] = []"
| "starts a (b # bs) = a # starts (a + fst b) bs"

primrec lastb :: "nat \<Rightarrow> nat \<Rightarrow> block list \<Rightarrow> nat" where
  "lastb p a [] = p"
| "lastb p a (b # bs) = lastb a (a + fst b) bs"

primrec frees :: "nat \<Rightarrow> block list \<Rightarrow> (nat \<rightharpoonup> nat)" where
  "frees a [] = Map.empty"
| "frees a (b # bs) = (frees (a + fst b) bs)(a := if snd b = 0 then Some (fst b) else None)"

text \<open>The flags of a block: free, used, or used with an alignment gap.\<close>

definition block_flags :: "u32 \<Rightarrow> bool" where
  "block_flags f \<longleftrightarrow> f = 0 \<or> f = OS_MEM_NODE_USED_FLAG \<or> f = 0xC0000000"

definition okb :: "block \<Rightarrow> bool" where
  "okb b \<longleftrightarrow> 20 \<le> fst b \<and> 4 dvd fst b \<and> block_flags (snd b)"

lemma bend_append [simp]: "bend a (xs @ ys) = bend (bend a xs) ys"
  by (induction xs arbitrary: a) auto

lemma starts_append [simp]: "starts a (xs @ ys) = starts a xs @ starts (bend a xs) ys"
  by (induction xs arbitrary: a) auto

lemma lastb_append [simp]: "lastb p a (xs @ ys) = lastb (lastb p a xs) (bend a xs) ys"
  by (induction xs arbitrary: p a) auto

lemma bend_ge: "a \<le> bend a bs"
proof (induction bs arbitrary: a)
  case (Cons b bs)
  from Cons.IH [of "a + fst b"] show ?case by simp
qed simp

lemma starts_ge: "x \<in> set (starts a bs) \<Longrightarrow> a \<le> x"
proof (induction bs arbitrary: a)
  case (Cons b bs)
  then show ?case using Cons.IH [of "a + fst b"] by fastforce
qed simp

lemma starts_room: "list_all okb bs \<Longrightarrow> x \<in> set (starts a bs) \<Longrightarrow> x + 20 \<le> bend a bs"
proof (induction bs arbitrary: a)
  case (Cons b bs)
  then show ?case using Cons.IH [of "a + fst b"] bend_ge [of "a + fst b" bs] by (auto simp: okb_def)
qed simp

lemma starts_apart: "list_all okb bs \<Longrightarrow> x \<in> set (starts a bs) \<Longrightarrow> y \<in> set (starts a bs) \<Longrightarrow> x \<noteq> y \<Longrightarrow> x + 20 \<le> y \<or> y + 20 \<le> x"
proof (induction bs arbitrary: a)
  case (Cons b bs)
  have "a + 20 \<le> z" if "z \<in> set (starts (a + fst b) bs)" for z using starts_ge [OF that] Cons.prems(1) by (simp add: okb_def)
  with Cons show ?case by auto
qed simp

definition nodes :: "nat \<Rightarrow> block list \<Rightarrow> nat set" where
  "nodes a bs = insert (bend a bs) (set (starts a bs))"

lemma block_nodes_apart:
  assumes "list_all okb bs" and "0 < a" and "bend a bs + 20 \<le> 2 ^ 32"
  shows "apart (nodes a bs)"
proof -
  have *: "x + 20 \<le> bend a bs" "a \<le> x" if "x \<in> set (starts a bs)" for x using starts_room [OF assms(1) that] starts_ge [OF that] by auto
  have "a \<le> bend a bs" by (rule bend_ge)
  with * show ?thesis unfolding apart_def nodes_def using assms starts_apart [OF assms(1)] by (auto, force+)
qed

lemma frees_dom: "dom (frees a bs) \<subseteq> set (starts a bs)"
  by (induction bs arbitrary: a) (auto split: if_splits)

lemma frees_None: "x \<notin> set (starts a bs) \<Longrightarrow> frees a bs x = None"
  using frees_dom [of a bs] by auto

lemma frees_append: "list_all okb xs \<Longrightarrow> frees a (xs @ ys) x = (if x < bend a xs then frees a xs x else frees (bend a xs) ys x)"
proof (induction xs arbitrary: a)
  case Nil
  have "x < a \<Longrightarrow> frees a ys x = None" using frees_None starts_ge not_less by blast
  then show ?case by simp
next
  case (Cons b xs)
  then have "20 \<le> fst b" by (simp add: okb_def)
  then have "a < bend (a + fst b) xs" using bend_ge [of "a + fst b" xs] by simp
  then show ?case using Cons by simp
qed

lemma frees_in: "frees a bs x = Some n \<Longrightarrow> list_all okb bs \<Longrightarrow>
  \<exists>xs ys. bs = xs @ (n, 0) # ys \<and> x = bend a xs"
proof (induction bs arbitrary: a)
  case (Cons b bs)
  show ?case
  proof (cases "x = a")
    case True
    with Cons.prems(1) have "b = (n, 0)" by (auto split: if_splits simp: prod_eq_iff)
    with True show ?thesis by (intro exI [of _ "[]"] exI [of _ bs]) simp
  next
    case False
    with Cons have "\<exists>xs ys. bs = xs @ (n, 0) # ys \<and> x = bend (a + fst b) xs" by simp
    then obtain xs ys where "bs = xs @ (n, 0) # ys" "x = bend (a + fst b) xs" by blast
    then show ?thesis by (intro exI [of _ "b # xs"] exI [of _ ys]) simp
  qed
qed simp

text \<open>Changing the blocks in one place.\<close>

lemma frees_flag:
  assumes "list_all okb xs" and "0 < n"
  shows "frees a (xs @ (n, f) # ys) = (frees a (xs @ (n, g) # ys))(bend a xs := if f = 0 then Some n else None)"
  using assms(1) by (auto simp: fun_eq_iff frees_append)

lemma frees_split:
  assumes "list_all okb xs" and "0 < k" and "k < n"
  shows "frees a (xs @ (k, f) # (n - k, g) # ys) =
    (frees a (xs @ (n, h) # ys))(bend a xs := if f = 0 then Some k else None, bend a xs + k := if g = 0 then Some (n - k) else None)"
proof
  fix x
  have "frees (bend a xs + n) ys x = None" if "x \<le> bend a xs + k" using that assms starts_ge [of x "bend a xs + n" ys] frees_None [of x "bend a xs + n" ys] by auto
  then show "frees a (xs @ (k, f) # (n - k, g) # ys) x =
    ((frees a (xs @ (n, h) # ys))(bend a xs := if f = 0 then Some k else None, bend a xs + k := if g = 0 then Some (n - k) else None)) x"
    using assms by (auto simp: frees_append)
qed

lemma frees_merge:
  assumes "list_all okb xs" and "0 < n" and "0 < m"
  shows "frees a (xs @ (n + m, h) # ys) =
    (frees a (xs @ (n, f) # (m, g) # ys))(bend a xs := if h = 0 then Some (n + m) else None, bend a xs + n := None)"
proof
  fix x
  have "frees (bend a xs + (n + m)) ys x = None" if "x \<le> bend a xs + n"
    using that assms starts_ge [of x "bend a xs + (n + m)" ys] frees_None [of x "bend a xs + (n + m)" ys] by auto
  then show "frees a (xs @ (n + m, h) # ys) x =
    ((frees a (xs @ (n, f) # (m, g) # ys))(bend a xs := if h = 0 then Some (n + m) else None, bend a xs + n := None)) x"
    using assms by (auto simp: frees_append add.assoc)
qed

section \<open>Headers\<close>

primrec chain :: "(nat \<Rightarrow> u32) \<Rightarrow> nat \<Rightarrow> nat \<Rightarrow> block list \<Rightarrow> bool" where
  "chain m p a [] \<longleftrightarrow> True"
| "chain m p a (b # bs) \<longleftrightarrow> m (a + 4) = of_nat p \<and> m (a + 8) = of_nat (fst b) OR snd b \<and> chain m a (a + fst b) bs"

lemma chain_append: "chain m p a (xs @ ys) \<longleftrightarrow> chain m p a xs \<and> chain m (lastb p a xs) (bend a xs) ys"
  by (induction xs arbitrary: p a) auto

lemma chain_cong: "(\<And>x. x \<in> set (starts a bs) \<Longrightarrow> m (x + 4) = m' (x + 4) \<and> m (x + 8) = m' (x + 8)) \<Longrightarrow> chain m p a bs = chain m' p a bs"
  by (induction bs arbitrary: p a) auto

text \<open>The flags do not overlap a size below 512 MB.\<close>

lemma size_bits:
  assumes "n < 2 ^ 29" and "29 \<le> j"
  shows "\<not> bit (of_nat n :: u32) j"
proof -
  have "unat (of_nat n :: u32) = n" using assms(1) by (intro unat_of_nat32) simp
  then have "take_bit 29 (of_nat n :: u32) = of_nat n" using assms(1) by (simp add: word_unat_eq_iff unsigned_take_bit_eq take_bit_nat_eq_self)
  then show ?thesis using assms(2) by (metis bit_take_bit_iff not_le)
qed

lemma flag_bits:
  "bit (0x80000000 :: u32) j \<longleftrightarrow> j = 31" "bit (0x40000000 :: u32) j \<longleftrightarrow> j = 30" "bit (0x20000000 :: u32) j \<longleftrightarrow> j = 29"
  "bit (0xE0000000 :: u32) j \<longleftrightarrow> j = 31 \<or> j = 30 \<or> j = 29" "bit (0xC0000000 :: u32) j \<longleftrightarrow> j = 31 \<or> j = 30" "bit (0xA0000000 :: u32) j \<longleftrightarrow> j = 31 \<or> j = 29"
proof -
  have p: "(0x80000000 :: u32) = push_bit 31 1" "(0x40000000 :: u32) = push_bit 30 1" "(0x20000000 :: u32) = push_bit 29 1" by (simp_all add: push_bit_eq_mult)
  have e: "(0xE0000000 :: u32) = 0x80000000 OR 0x40000000 OR 0x20000000" "(0xC0000000 :: u32) = 0x80000000 OR 0x40000000"
    "(0xA0000000 :: u32) = 0x80000000 OR 0x20000000" by simp_all
  show b: "bit (0x80000000 :: u32) j \<longleftrightarrow> j = 31" "bit (0x40000000 :: u32) j \<longleftrightarrow> j = 30" "bit (0x20000000 :: u32) j \<longleftrightarrow> j = 29"
    unfolding p bit_push_bit_iff bit_1_iff by auto
  show "bit (0xE0000000 :: u32) j \<longleftrightarrow> j = 31 \<or> j = 30 \<or> j = 29" "bit (0xC0000000 :: u32) j \<longleftrightarrow> j = 31 \<or> j = 30"
    "bit (0xA0000000 :: u32) j \<longleftrightarrow> j = 31 \<or> j = 29" unfolding e bit_or_iff b by auto
qed

lemma and_flag: "w AND 0x80000000 \<noteq> 0 \<longleftrightarrow> bit w 31" "w AND 0x40000000 \<noteq> 0 \<longleftrightarrow> bit w 30" "w AND 0x20000000 \<noteq> 0 \<longleftrightarrow> bit w 29" for w :: u32
  using and_single_bit_ne_0 [of 31 w] and_single_bit_ne_0 [of 30 w] and_single_bit_ne_0 [of 29 w] by simp_all

lemma bit_saf: "29 \<le> j \<Longrightarrow> n < 2 ^ 29 \<Longrightarrow> bit (of_nat n OR f) j \<longleftrightarrow> bit f j" for f :: u32
  unfolding bit_or_iff using size_bits by blast

lemma saf_size:
  assumes n: "n < 2 ^ 29" and f: "\<And>j. j < 29 \<Longrightarrow> \<not> bit f j"
  shows "OS_MEM_NODE_GET_SIZE (of_nat n OR f) = of_nat n"
proof (rule bit_word_eqI)
  fix j assume "j < LENGTH(32)"
  then have "j < 32" by simp
  then have "bit (0xE0000000 :: u32) j \<longleftrightarrow> 29 \<le> j" unfolding flag_bits by linarith
  moreover have "bit (NOT 0xE0000000 :: u32) j \<longleftrightarrow> \<not> bit (0xE0000000 :: u32) j" unfolding bit_not_iff using \<open>j < 32\<close> by simp
  ultimately show "bit (OS_MEM_NODE_GET_SIZE (of_nat n OR f)) j \<longleftrightarrow> bit (of_nat n :: u32) j"
    unfolding OS_MEM_NODE_GET_SIZE_def bit_and_iff bit_or_iff using size_bits [OF n, of j] f [of j] not_le by blast
qed

lemma flags_low: "block_flags f \<or> f = 0xA0000000 \<Longrightarrow> j < 29 \<Longrightarrow> \<not> bit f j"
  unfolding block_flags_def by (elim disjE; simp only: flag_bits; simp)

lemma flags_high:
  assumes "block_flags f"
  shows "bit f 31 \<longleftrightarrow> f \<noteq> 0" and "bit f 30 \<longleftrightarrow> f = 0xC0000000" and "\<not> bit f 29"
  using assms unfolding block_flags_def by (elim disjE; simp only: flag_bits; simp)+

lemma saf_flags:
  assumes "n < 2 ^ 29" and "block_flags f"
  shows "OS_MEM_NODE_GET_USED_FLAG (of_nat n OR f) \<longleftrightarrow> f \<noteq> 0" and "OS_MEM_NODE_GET_ALIGNED_FLAG (of_nat n OR f) \<longleftrightarrow> f = 0xC0000000"
    and "\<not> OS_MEM_NODE_GET_LAST_FLAG (of_nat n OR f)"
  unfolding OS_MEM_NODE_GET_USED_FLAG_def OS_MEM_NODE_GET_ALIGNED_FLAG_def OS_MEM_NODE_GET_LAST_FLAG_def and_flag
  by (simp_all only: bit_saf [OF _ assms(1)] flags_high [OF assms(2)] order_refl le_numeral_extra numeral_le_iff semiring_norm not_False_eq_True)

end
