(* ===== verification/LosTlsfSteps.thy ===== *)
theory LosTlsfSteps
  imports LosTlsfBlocks
begin

text \<open>
  The steps the heap operations are made of: taking a block out of its list, merging it with a neighbour, splitting it, and giving it back. Between the
  steps one block is \<^emph>\<open>detached\<close>: its header is that of a free block but it is in no list.
\<close>

section \<open>Invariant\<close>

definition layout :: "tlsf \<Rightarrow> nat \<Rightarrow> block list \<Rightarrow> bool" where
  "layout s a bs \<longleftrightarrow> 0 < a \<and> list_all okb bs \<and> bend a bs + 20 \<le> 2 ^ 32 \<and> bend a bs < a + 2 ^ 29 \<and> chain (hm s) 0 a bs \<and>
    hm s (bend a bs) = OS_MEM_NODE_MAGIC \<and> hm s (bend a bs + 4) = 0 \<and> hm s (bend a bs + 8) = 0xA0000000"

text \<open>The lists hold the blocks \<open>S\<close>, which are free; the nodes \<open>D\<close> have no magic word yet.\<close>

definition book :: "tlsf \<Rightarrow> nat \<Rightarrow> (nat \<Rightarrow> nat list) \<Rightarrow> block list \<Rightarrow> (nat \<rightharpoonup> nat) \<Rightarrow> nat set \<Rightarrow> bool" where
  "book s a L bs S D \<longleftrightarrow> layout s a bs \<and> (\<forall>x \<in> set (starts a bs) - D. hm s x = OS_MEM_NODE_MAGIC) \<and> free_lists s L S \<and> S \<subseteq>\<^sub>m frees a bs \<and>
    dom S \<inter> D = {}"

abbreviation heap_ok :: "tlsf \<Rightarrow> nat \<Rightarrow> (nat \<Rightarrow> nat list) \<Rightarrow> block list \<Rightarrow> bool" where
  "heap_ok s a L bs \<equiv> book s a L bs (frees a bs) {}"

abbreviation detached :: "tlsf \<Rightarrow> nat \<Rightarrow> (nat \<Rightarrow> nat list) \<Rightarrow> block list \<Rightarrow> nat \<Rightarrow> block list \<Rightarrow> bool" where
  "detached s a L xs n ys \<equiv> book s a L (xs @ (n, 0) # ys) (frees a (xs @ (n, OS_MEM_NODE_USED_FLAG) # ys)) {}"

primrec payload :: "nat \<Rightarrow> block list \<Rightarrow> nat set" where
  "payload a [] = {}"
| "payload a (b # bs) = (if snd b = 0 then {} else {a + 12 ..< a + fst b}) \<union> payload (a + fst b) bs"

lemma payload_append [simp]: "payload a (xs @ ys) = payload a xs \<union> payload (bend a xs) ys"
  by (induction xs arbitrary: a) auto

lemma payload_range: "w \<in> payload a bs \<Longrightarrow> a + 12 \<le> w \<and> w < bend a bs"
proof (induction bs arbitrary: a)
  case (Cons b bs)
  from Cons.prems consider "w \<in> {a + 12 ..< a + fst b}" | "w \<in> payload (a + fst b) bs" by (auto split: if_splits)
  then show ?case
  proof cases
    case 1
    then show ?thesis using bend_ge [of "a + fst b" bs] by simp
  next
    case 2
    then show ?thesis using Cons.IH [of "a + fst b"] by simp
  qed
qed simp

lemma payload_header: "list_all okb bs \<Longrightarrow> w \<in> payload a bs \<Longrightarrow> v \<in> nodes a bs \<Longrightarrow> i < 12 \<Longrightarrow> w \<noteq> v + i"
proof (induction bs arbitrary: a)
  case (Cons b bs)
  have v: "v = a \<or> v \<in> nodes (a + fst b) bs" using Cons.prems(3) by (auto simp: nodes_def)
  have g: "a + fst b \<le> v" if "v \<in> nodes (a + fst b) bs" using that starts_ge [of v "a + fst b" bs] bend_ge [of "a + fst b" bs] by (auto simp: nodes_def)
  from Cons.prems(2) consider "w \<in> {a + 12 ..< a + fst b}" | "w \<in> payload (a + fst b) bs" by (auto split: if_splits)
  then show ?case
  proof cases
    case 1
    with v g Cons.prems(4) show ?thesis by auto
  next
    case 2
    then have "v \<noteq> a \<Longrightarrow> ?thesis" using Cons v by simp
    moreover have "a + fst b + 12 \<le> w" using payload_range [OF 2] by simp
    ultimately show ?thesis using Cons.prems(4) by auto
  qed
qed simp

lemma payload_free: "list_all okb bs \<Longrightarrow> w \<in> payload a bs \<Longrightarrow> frees a bs v = Some n \<Longrightarrow> i < n \<Longrightarrow> w \<noteq> v + i"
proof (induction bs arbitrary: a)
  case (Cons b bs)
  have g: "a + fst b \<le> v" if "v \<noteq> a"
  proof -
    have "frees (a + fst b) bs v = Some n" using that Cons.prems(3) by simp
    then have "v \<in> set (starts (a + fst b) bs)" using frees_None [of v "a + fst b" bs] by fastforce
    then show ?thesis by (rule starts_ge)
  qed
  from Cons.prems(2) consider "w \<in> {a + 12 ..< a + fst b}" "snd b \<noteq> 0" | "w \<in> payload (a + fst b) bs" by (auto split: if_splits)
  then show ?case
  proof cases
    case 1
    then have "v \<noteq> a" using Cons.prems(3) by (auto split: if_splits)
    with 1 g show ?thesis by auto
  next
    case 2
    show ?thesis
    proof (cases "v = a")
      case True
      then have "n = fst b" using Cons.prems(3) by (auto split: if_splits)
      with True payload_range [OF 2] Cons.prems(4) show ?thesis by auto
    next
      case False
      with 2 Cons show ?thesis by simp
    qed
  qed
qed simp

lemma payload_links: "list_all okb bs \<Longrightarrow> w \<in> payload a bs \<Longrightarrow> w \<notin> links (frees a bs)"
proof
  assume a: "list_all okb bs" "w \<in> payload a bs" "w \<in> links (frees a bs)"
  then obtain v n where "frees a bs v = Some n" "w = v + 12 \<or> w = v + 16" unfolding links_def by (auto simp: dom_def)
  moreover from this have "20 \<le> n" using frees_in [of a bs v n] a(1) by (auto simp: okb_def)
  ultimately show False using payload_free [OF a(1,2), of v n 12] payload_free [OF a(1,2), of v n 16] by auto
qed

lemma layoutD:
  assumes "layout s a bs"
  shows "list_all okb bs" and "apart (nodes a bs)" and "bend a bs + 20 \<le> 2 ^ 32" and "bend a bs < a + 2 ^ 29" and "chain (hm s) 0 a bs"
    and "hm s (bend a bs) = OS_MEM_NODE_MAGIC" and "hm s (bend a bs + 4) = 0" and "hm s (bend a bs + 8) = 0xA0000000" and "0 < a"
  using assms block_nodes_apart [of bs a] unfolding layout_def by auto

lemma mid_node: "bend a xs \<in> nodes a (xs @ ys)"
  by (cases ys) (auto simp: nodes_def)

lemma layout_mid:
  assumes "layout s a (xs @ (n, f) # ys)"
  defines "x \<equiv> bend a xs"
  shows "hm s (x + 4) = of_nat (lastb 0 a xs)" and "hm s (x + 8) = of_nat n OR f" and "x \<in> nodes a (xs @ (n, f) # ys)"
    and "x + n \<in> nodes a (xs @ (n, f) # ys)" and "20 \<le> n" and "4 dvd n" and "n < 2 ^ 29" and "block_flags f" and "x + n + 20 \<le> 2 ^ 32" and "0 < x"
proof -
  note l = layoutD [OF assms(1)]
  show "hm s (x + 4) = of_nat (lastb 0 a xs)" "hm s (x + 8) = of_nat n OR f" using l(5) by (simp_all add: chain_append x_def)
  show "x \<in> nodes a (xs @ (n, f) # ys)" "x + n \<in> nodes a (xs @ (n, f) # ys)"
    using mid_node [of a xs "(n, f) # ys"] mid_node [of a "xs @ [(n, f)]" ys] by (simp_all add: x_def)
  show "20 \<le> n" "4 dvd n" "block_flags f" using l(1) by (auto simp: okb_def)
  have "x + n \<le> bend a (xs @ (n, f) # ys)" "a \<le> x" using bend_ge [of "x + n" ys] bend_ge [of a xs] by (auto simp: x_def)
  with l(3,4,9) show "n < 2 ^ 29" "x + n + 20 \<le> 2 ^ 32" "0 < x" by auto
qed

text \<open>What the word behind a block says about the next one.\<close>

lemma sentinel_flags: "OS_MEM_NODE_GET_LAST_FLAG 0xA0000000" "OS_MEM_NODE_GET_USED_FLAG 0xA0000000"
  by (simp_all add: OS_MEM_NODE_GET_LAST_FLAG_def OS_MEM_NODE_GET_USED_FLAG_def)

lemma next_header:
  assumes l: "layout s a (xs @ (n, f) # ys)"
  defines "y \<equiv> bend a xs + n"
  shows "OS_MEM_NODE_GET_LAST_FLAG (hm s (y + 8)) \<longleftrightarrow> ys = []"
    and "OS_MEM_NODE_GET_USED_FLAG (hm s (y + 8)) \<longleftrightarrow> ys = [] \<or> snd (hd ys) \<noteq> 0"
proof -
  have "(OS_MEM_NODE_GET_LAST_FLAG (hm s (y + 8)) \<longleftrightarrow> ys = []) \<and> (OS_MEM_NODE_GET_USED_FLAG (hm s (y + 8)) \<longleftrightarrow> ys = [] \<or> snd (hd ys) \<noteq> 0)"
  proof (cases ys)
    case Nil
    then have "hm s (y + 8) = 0xA0000000" using layoutD(8) [OF l] by (simp add: y_def)
    with Nil show ?thesis by (simp add: sentinel_flags)
  next
    case (Cons b ys')
    obtain m g where b: "b = (m, g)" by (cases b)
    have "layout s a ((xs @ [(n, f)]) @ (m, g) # ys')" using l Cons b by simp
    note m = layout_mid(2,7,8) [OF this]
    have "hm s (y + 8) = of_nat m OR g" using m(1) by (simp add: y_def)
    then show ?thesis using saf_flags [OF m(2,3)] Cons b by simp
  qed
  then show "OS_MEM_NODE_GET_LAST_FLAG (hm s (y + 8)) \<longleftrightarrow> ys = []" "OS_MEM_NODE_GET_USED_FLAG (hm s (y + 8)) \<longleftrightarrow> ys = [] \<or> snd (hd ys) \<noteq> 0" by auto
qed

section \<open>Changing headers\<close>

text \<open>Some blocks \<open>ms\<close> in the middle are replaced by blocks \<open>ms'\<close> that fill the same space.\<close>

lemma layout_change:
  assumes l: "layout s a (xs @ ms @ ys)" and ms': "list_all okb ms'" "bend x ms' = bend x ms" and x: "x = bend a xs"
    and c: "chain (hm t) (lastb 0 a xs) x ms'"
    and before: "\<And>v i. v \<in> set (starts a xs) \<Longrightarrow> i = 4 \<or> i = 8 \<Longrightarrow> hm t (v + i) = hm s (v + i)"
    and after: "\<And>v. v \<in> set (starts (bend x ms) ys) \<Longrightarrow> hm t (v + 8) = hm s (v + 8)"
      "\<And>v. v \<in> set (starts (bend x ms) ys) \<Longrightarrow> v \<noteq> bend x ms \<Longrightarrow> hm t (v + 4) = hm s (v + 4)"
      "ys \<noteq> [] \<Longrightarrow> hm t (bend x ms + 4) = of_nat (lastb (lastb 0 a xs) x ms')"
    and sentinel: "hm t (bend (bend x ms) ys) = OS_MEM_NODE_MAGIC" "hm t (bend (bend x ms) ys + 8) = 0xA0000000"
      "hm t (bend (bend x ms) ys + 4) = 0"
  shows "layout t a (xs @ ms' @ ys)"
proof -
  note d = layoutD [OF l]
  have "chain (hm t) 0 a xs" using d(5) chain_cong [of a xs "hm s" "hm t" 0] before by (simp add: chain_append)
  moreover have "chain (hm t) (lastb (lastb 0 a xs) x ms') (bend x ms') ys"
  proof (cases ys)
    case (Cons b ys')
    let ?e = "bend x ms"
    have c0: "hm s (?e + 8) = of_nat (fst b) OR snd b" "chain (hm s) ?e (?e + fst b) ys'" using d(5) Cons x by (simp_all add: chain_append)
    have "0 < fst b" using d(1) Cons by (simp add: okb_def)
    then have "v \<noteq> ?e" if "v \<in> set (starts (?e + fst b) ys')" for v using starts_ge [OF that] by auto
    then have "chain (hm t) ?e (?e + fst b) ys'"
      using c0(2) chain_cong [of "?e + fst b" ys' "hm s" "hm t" ?e] after(1,2) Cons by simp
    then show ?thesis using Cons c0(1) after(1) [of ?e] after(3) ms'(2) by simp
  qed simp
  ultimately show ?thesis using d c ms' sentinel unfolding layout_def x [symmetric] by (simp add: chain_append x [symmetric])
qed

text \<open>The same with the words that are allowed to change spelled out.\<close>

lemma starts_nodes: "v \<in> set (starts a bs) \<Longrightarrow> v \<in> nodes a bs"
  by (simp add: nodes_def)

lemma node_words:
  assumes "apart A" and "v \<in> A" and "w \<in> A" and "i < 20" and "j < 20" and "v \<noteq> w"
  shows "v + i \<noteq> w + j"
  using apart_far [OF assms(1-3,6)] assms(4,5) by auto

lemma set_flags:
  assumes l: "layout s a (xs @ (n, f) # ys)" and g: "block_flags g"
  defines "x \<equiv> bend a xs"
  defines "t \<equiv> wr (of_nat x + 8) (of_nat n OR g) s"
  shows "layout t a (xs @ (n, g) # ys)" and "hm t = (hm s)(x + 8 := of_nat n OR g)"
proof -
  note m = layout_mid [OF l, folded x_def]
  note A = layoutD(2) [OF l]
  show t: "hm t = (hm s)(x + 8 := of_nat n OR g)" unfolding t_def by (rule wr_at) (use m(5,9) in simp)
  have ne: "hm t (v + i) = hm s (v + i)" if "v \<in> nodes a (xs @ (n, f) # ys)" "i < 20" "v \<noteq> x" for v i
    unfolding t using node_words [OF A that(1) m(3) that(2), of 8] that(3) by simp
  have x1: "v \<noteq> x" if "v \<in> set (starts a xs)" for v using starts_room [of xs v a] that layoutD(1) [OF l] by (auto simp: x_def)
  have x2: "v \<noteq> x" if "v \<in> set (starts (x + n) ys)" for v using starts_ge [OF that] m(5) by auto
  have x3: "bend (x + n) ys \<noteq> x" using bend_ge [of "x + n" ys] m(5) by auto
  have "layout t a (xs @ [(n, g)] @ ys)"
  proof (rule layout_change [where s = s and ms = "[(n, f)]" and x = x])
    show "layout s a (xs @ [(n, f)] @ ys)" using l by simp
    show "list_all okb [(n, g)]" using m(5,6) g by (simp add: okb_def)
    show "chain (hm t) (lastb 0 a xs) x [(n, g)]" using m(1) by (simp add: t)
    show "hm t (v + i) = hm s (v + i)" if "v \<in> set (starts a xs)" "i = 4 \<or> i = 8" for v i
      using ne [of v i] x1 [OF that(1)] that by (auto simp: nodes_def)
    show "hm t (v + 8) = hm s (v + 8)" "hm t (v + 4) = hm s (v + 4)" if "v \<in> set (starts (bend x [(n, f)]) ys)" for v
      using ne [of v] x2 [of v] that by (auto simp: nodes_def x_def)
    show "hm t (bend x [(n, f)] + 4) = of_nat (lastb (lastb 0 a xs) x [(n, g)])" if "ys \<noteq> []"
    proof -
      have "hm s (x + n + 4) = of_nat x" using layoutD(5) [OF l] that by (cases ys) (auto simp: chain_append x_def)
      then show ?thesis using ne [OF m(4), of 4] m(5) by simp
    qed
    have "hm t (bend (x + n) ys + i) = hm s (bend (x + n) ys + i)" if "i < 20" for i
      using ne [of "bend (x + n) ys" i] x3 that by (simp add: nodes_def x_def)
    from this [of 0] this [of 4] this [of 8] layoutD(6-8) [OF l]
    show "hm t (bend (bend x [(n, f)]) ys) = OS_MEM_NODE_MAGIC" "hm t (bend (bend x [(n, f)]) ys + 8) = 0xA0000000" "hm t (bend (bend x [(n, f)]) ys + 4) = 0"
      by (simp_all add: x_def)
  qed (simp_all add: x_def)
  then show "layout t a (xs @ (n, g) # ys)" by simp
qed

lemma nodes_first: "list_all okb ys \<Longrightarrow> v \<in> nodes z ys \<Longrightarrow> v = z \<or> z + 20 \<le> v"
proof (cases ys)
  case (Cons b ys')
  assume "list_all okb ys" "v \<in> nodes z ys"
  then show ?thesis using Cons starts_ge [of v "z + fst b" ys'] bend_ge [of "z + fst b" ys'] by (auto simp: nodes_def okb_def)
qed (simp add: nodes_def)

lemma nodes_last: "list_all okb ys \<Longrightarrow> ys \<noteq> [] \<Longrightarrow> z + 20 \<le> bend z ys"
  using starts_room [of ys z z] by (cases ys) auto

lemma mem_words:
  assumes "x + 20 \<le> 2 ^ 32"
  shows "mem s (of_nat x + 4) = hm s (x + 4)" and "mem s (of_nat x + 8) = hm s (x + 8)" and "mem s (of_nat x) = hm s x"
  using assms by (simp_all add: mem_at mem_at0)

lemma MergeNode_layout:
  assumes l: "layout s a (xs @ (n, 0) # (m, 0) # ys)"
  defines "x \<equiv> bend a xs"
  defines "t \<equiv> OsMemMergeNode (of_nat (x + n)) s"
  shows "layout t a (xs @ (n + m, 0) # ys)"
    and "hm t = (let h = (hm s)(x + 8 := of_nat (n + m)) in if ys = [] then h else h(x + n + m + 4 := of_nat x))"
    and "freeList t = freeList s" and "freeListBitmap t = freeListBitmap s" and "same_env s t"
proof -
  let ?y = "x + n" and ?z = "x + n + m"
  have l2: "layout s a ((xs @ [(n, 0)]) @ (m, 0) # ys)" using l by simp
  note mx = layout_mid [OF l, folded x_def]
  have my: "hm s (?y + 4) = of_nat x" "hm s (?y + 8) = of_nat m OR 0" "20 \<le> m" "4 dvd m" "m < 2 ^ 29" "?z + 20 \<le> 2 ^ 32"
    using layout_mid [OF l2] by (simp_all add: x_def add.assoc)
  have okb: "list_all okb xs" "list_all okb ys" using layoutD(1) [OF l] by simp_all
  let ?h = "(hm s)(x + 8 := of_nat (n + m))"
  have "layout s a (xs @ [(n, 0), (m, 0)] @ ys)" using l by simp
  have last: "OS_MEM_NODE_GET_LAST_FLAG (hm s (?z + 8)) \<longleftrightarrow> ys = []" using next_header(1) [OF l2] by (simp add: x_def add.assoc)
  define s1 where "s1 = wr (of_nat x + 8) (of_nat (n + m)) s"
  have h1: "hm s1 = ?h" unfolding s1_def by (rule wr_at) (use mx(5,9) in simp)
  have bnd: "x + 20 \<le> 2 ^ 32" "?y + 20 \<le> 2 ^ 32" "?z + 20 \<le> 2 ^ 32" using mx(5,9) my(6) by auto
  have r: "mem s (of_nat ?y + 4) = of_nat x" "mem s (of_nat ?y + 8) = of_nat m" "mem s (of_nat x + 8) = of_nat n"
    unfolding mem_words [OF bnd(1)] mem_words [OF bnd(2)] using my(1,2) mx(2) by simp_all
  have r1: "mem s1 (of_nat ?y + 8) = of_nat m" "mem s1 (of_nat ?y + 4) = of_nat x" "mem s1 (of_nat ?z + 8) = hm s (?z + 8)"
    unfolding mem_words [OF bnd(2)] mem_words [OF bnd(3)] h1 using my(1-3) mx(5) by simp_all
  have z: "(of_nat ?y :: u32) + of_nat m = of_nat ?z" by simp
  have t: "t = (if ys = [] then s1 else wr (of_nat ?z + 4) (of_nat x) s1)"
    unfolding t_def OsMemMergeNode_def Let_def r(1) r(2,3)
    unfolding of_nat_add [of n m, symmetric] s1_def [symmetric] r1 z last by simp
  have "hm (wr (of_nat ?z + 4) (of_nat x) s1) = ?h(?z + 4 := of_nat x)" unfolding h1 [symmetric] by (rule wr_at) (use my(6) in simp)
  then show hmt: "hm t = (let h = (hm s)(x + 8 := of_nat (n + m)) in if ys = [] then h else h(x + n + m + 4 := of_nat x))"
    unfolding t by (simp add: h1 Let_def)
  show "freeList t = freeList s" "freeListBitmap t = freeListBitmap s" "same_env s t" unfolding t s1_def by (auto simp: wr_def same_env_def)
  have hm: "hm t w = (if ys \<noteq> [] \<and> w = ?z + 4 then of_nat x else if w = x + 8 then of_nat (n + m) else hm s w)" for w unfolding hmt Let_def by simp
  have far: "w = ?z \<or> ?z + 20 \<le> w" if "w \<in> nodes ?z ys" for w by (rule nodes_first [OF okb(2) that])
  have "layout t a (xs @ [(n + m, 0)] @ ys)"
  proof (rule layout_change [where s = s and ms = "[(n, 0), (m, 0)]" and x = x])
    show "layout s a (xs @ [(n, 0), (m, 0)] @ ys)" using l by simp
    show "list_all okb [(n + m, 0)]" using mx(5,6) my(4) by (simp add: okb_def block_flags_def)
    show "chain (hm t) (lastb 0 a xs) x [(n + m, 0)]" using mx(1,5) my(3) by (simp add: hm)
    show "hm t (v + i) = hm s (v + i)" if "v \<in> set (starts a xs)" "i = 4 \<or> i = 8" for v i
      using starts_room [OF okb(1) that(1)] that(2) mx(5) by (auto simp: hm x_def)
    show "hm t (v + 8) = hm s (v + 8)" "v \<noteq> bend x [(n, 0), (m, 0)] \<Longrightarrow> hm t (v + 4) = hm s (v + 4)"
      if "v \<in> set (starts (bend x [(n, 0), (m, 0)]) ys)" for v
      using far [of v] that mx(5) by (auto simp: hm nodes_def)
    show "hm t (bend x [(n, 0), (m, 0)] + 4) = of_nat (lastb (lastb 0 a xs) x [(n + m, 0)])" if "ys \<noteq> []" using that by (simp add: hm)
    let ?e = "bend ?z ys"
    have "ys \<noteq> [] \<Longrightarrow> ?z + 20 \<le> ?e" "?z \<le> ?e" using nodes_last [OF okb(2)] bend_ge by auto
    then have "hm t ?e = hm s ?e" "hm t (?e + 4) = hm s (?e + 4)" "hm t (?e + 8) = hm s (?e + 8)" using mx(5) my(3) by (auto simp: hm)
    with layoutD(6-8) [OF l]
    show "hm t (bend (bend x [(n, 0), (m, 0)]) ys) = OS_MEM_NODE_MAGIC" "hm t (bend (bend x [(n, 0), (m, 0)]) ys + 8) = 0xA0000000"
      "hm t (bend (bend x [(n, 0), (m, 0)]) ys + 4) = 0" by (simp_all add: x_def)
  qed (simp_all add: x_def)
  then show "layout t a (xs @ (n + m, 0) # ys)" by simp
qed

lemma SplitNode_layout:
  assumes l: "layout s a (xs @ (n, 0) # ys)" and k: "20 \<le> k" "4 dvd k" "k + 20 \<le> n"
  defines "x \<equiv> bend a xs"
  shows "\<exists>t. layout t a (xs @ (k, 0) # (n - k, 0) # ys) \<and> freeList t = freeList s \<and> freeListBitmap t = freeListBitmap s \<and> same_env s t \<and>
    (\<forall>w. w \<notin> {x + k + 4, x + k + 8, x + 8, x + n + 4} \<longrightarrow> hm t w = hm s w) \<and>
    OsMemSplitNode (of_nat x) (of_nat k) s =
      (if ys = [] \<or> snd (hd ys) \<noteq> 0 then OsMemFreeNodeAdd (of_nat (x + k)) t
       else Option.bind (OsMemFreeNodeDelete (of_nat (x + n)) t) (\<lambda>t1. OsMemFreeNodeAdd (of_nat (x + k)) (OsMemMergeNode (of_nat (x + n)) t1)))"
proof -
  note mx = layout_mid [OF l, folded x_def]
  have okb: "list_all okb xs" "list_all okb ys" using layoutD(1) [OF l] by simp_all
  have bnd: "x + 20 \<le> 2 ^ 32" "x + k + 20 \<le> 2 ^ 32" "x + n + 20 \<le> 2 ^ 32" using mx(5,9) k by auto
  have last: "OS_MEM_NODE_GET_LAST_FLAG (hm s (x + n + 8)) \<longleftrightarrow> ys = []" "OS_MEM_NODE_GET_USED_FLAG (hm s (x + n + 8)) \<longleftrightarrow> ys = [] \<or> snd (hd ys) \<noteq> 0"
    using next_header [OF l] by (simp_all add: x_def)
  define s1 where "s1 = wr (of_nat (x + k) + 4) (of_nat x) s"
  define s2 where "s2 = wr (of_nat (x + k) + 8) (of_nat (n - k)) s1"
  define s3 where "s3 = wr (of_nat x + 8) (of_nat k) s2"
  define t where "t = (if ys = [] then s3 else wr (of_nat (x + n) + 4) (of_nat (x + k)) s3)"
  let ?h3 = "(hm s)(x + k + 4 := of_nat x, x + k + 8 := of_nat (n - k), x + 8 := of_nat k)"
  have h1: "hm s1 = (hm s)(x + k + 4 := of_nat x)" unfolding s1_def by (rule wr_at) (use bnd in simp)
  have h2: "hm s2 = (hm s)(x + k + 4 := of_nat x, x + k + 8 := of_nat (n - k))" unfolding s2_def h1 [symmetric] by (rule wr_at) (use bnd in simp)
  have h3: "hm s3 = ?h3" unfolding s3_def h2 [symmetric] by (rule wr_at) (use bnd in simp)
  have "hm (wr (of_nat (x + n) + 4) (of_nat (x + k)) s3) = ?h3(x + n + 4 := of_nat (x + k))" unfolding h3 [symmetric] by (rule wr_at) (use bnd in simp)
  then have "hm t = (if ys = [] then ?h3 else ?h3(x + n + 4 := of_nat (x + k)))"
    unfolding t_def by (cases "ys = []") (simp_all only: h3 if_True if_False simp_thms)
  then have hm: "hm t w = (if ys \<noteq> [] \<and> w = x + n + 4 then of_nat (x + k) else ?h3 w)" for w by simp
  have "(of_nat n :: u32) - of_nat k = of_nat (n - k)" using k by (simp add: of_nat_diff)
  moreover have "mem s1 (of_nat x + 8) = of_nat n" unfolding mem_words [OF bnd(1)] h1 using mx(2) k by simp
  ultimately have r1: "mem s1 (of_nat x + 8) - of_nat k = of_nat (n - k)" by simp
  have nk: "n - k < 2 ^ 29" using mx(7) by simp
  have "mem s3 (of_nat (x + k) + 8) = of_nat (n - k) OR 0" unfolding mem_words [OF bnd(2)] h3 using k by simp
  then have "OS_MEM_NODE_GET_SIZE (mem s3 (of_nat (x + k) + 8)) = of_nat (n - k)" using saf_size [OF nk, of 0] by simp
  then have r3: "OS_MEM_NEXT_NODE (of_nat (x + k)) s3 = of_nat (x + n)" unfolding OS_MEM_NEXT_NODE_def
    using k by (simp add: of_nat_diff)
  have r4: "mem s3 (of_nat (x + n) + 8) = hm s (x + n + 8)" unfolding mem_words [OF bnd(3)] h3 using k by auto
  have r5: "mem t (of_nat (x + n) + 8) = hm s (x + n + 8)" unfolding mem_words [OF bnd(3)] hm using k by auto
  have e: "OsMemSplitNode (of_nat x) (of_nat k) s = Option.bind (if ys = [] \<or> snd (hd ys) \<noteq> 0 then Some t
      else map_option (OsMemMergeNode (of_nat (x + n))) (OsMemFreeNodeDelete (of_nat (x + n)) t)) (OsMemFreeNodeAdd (of_nat (x + k)))"
    unfolding OsMemSplitNode_def Let_def of_nat_add [of x k, symmetric] s1_def [symmetric] r1 s2_def [symmetric] s3_def [symmetric] r3 r4 last
    using r5 last(2) by (cases "ys = []") (auto simp: t_def)
  have far: "w = x + n \<or> x + n + 20 \<le> w" if "w \<in> nodes (x + n) ys" for w by (rule nodes_first [OF okb(2) that])
  have lt: "layout t a (xs @ [(k, 0), (n - k, 0)] @ ys)"
  proof (rule layout_change [where s = s and ms = "[(n, 0)]" and x = x])
    show "layout s a (xs @ [(n, 0)] @ ys)" using l by simp
    show "list_all okb [(k, 0), (n - k, 0)]" using mx(6) k by (simp add: okb_def block_flags_def dvd_diff_nat)
    show "bend x [(k, 0), (n - k, 0)] = bend x [(n, 0)]" using k by simp
    show "chain (hm t) (lastb 0 a xs) x [(k, 0), (n - k, 0)]" using mx(1) k by (simp add: hm)
    show "hm t (v + i) = hm s (v + i)" if "v \<in> set (starts a xs)" "i = 4 \<or> i = 8" for v i
      using starts_room [OF okb(1) that(1)] that(2) by (auto simp: hm x_def)
    show "hm t (v + 8) = hm s (v + 8)" "v \<noteq> bend x [(n, 0)] \<Longrightarrow> hm t (v + 4) = hm s (v + 4)" if "v \<in> set (starts (bend x [(n, 0)]) ys)" for v
      using far [of v] that k by (auto simp: hm nodes_def)
    show "hm t (bend x [(n, 0)] + 4) = of_nat (lastb (lastb 0 a xs) x [(k, 0), (n - k, 0)])" if "ys \<noteq> []" using that by (simp add: hm)
    let ?e = "bend (x + n) ys"
    have "ys \<noteq> [] \<Longrightarrow> x + n + 20 \<le> ?e" "x + n \<le> ?e" using nodes_last [OF okb(2)] bend_ge by auto
    then have "hm t ?e = hm s ?e" "hm t (?e + 4) = hm s (?e + 4)" "hm t (?e + 8) = hm s (?e + 8)" using k by (auto simp: hm)
    with layoutD(6-8) [OF l]
    show "hm t (bend (bend x [(n, 0)]) ys) = OS_MEM_NODE_MAGIC" "hm t (bend (bend x [(n, 0)]) ys + 8) = 0xA0000000"
      "hm t (bend (bend x [(n, 0)]) ys + 4) = 0" by (simp_all add: x_def)
  qed (simp_all add: x_def)
  show ?thesis
  proof (intro exI [of _ t] conjI)
    show "layout t a (xs @ (k, 0) # (n - k, 0) # ys)" using lt by simp
    show "freeList t = freeList s" "freeListBitmap t = freeListBitmap s" "same_env s t"
      unfolding t_def s3_def s2_def s1_def by (auto simp: wr_def same_env_def)
    show "\<forall>w. w \<notin> {x + k + 4, x + k + 8, x + 8, x + n + 4} \<longrightarrow> hm t w = hm s w" by (simp add: hm)
    show "OsMemSplitNode (of_nat x) (of_nat k) s =
      (if ys = [] \<or> snd (hd ys) \<noteq> 0 then OsMemFreeNodeAdd (of_nat (x + k)) t
       else Option.bind (OsMemFreeNodeDelete (of_nat (x + n)) t) (\<lambda>t1. OsMemFreeNodeAdd (of_nat (x + k)) (OsMemMergeNode (of_nat (x + n)) t1)))"
      unfolding e by (cases "OsMemFreeNodeDelete (of_nat (x + n)) t") auto
  qed
qed

section \<open>Steps\<close>

lemma bookD:
  assumes "book s a L bs S D"
  shows "layout s a bs" and "x \<in> set (starts a bs) \<Longrightarrow> x \<notin> D \<Longrightarrow> hm s x = OS_MEM_NODE_MAGIC" and "free_lists s L S" and "S \<subseteq>\<^sub>m frees a bs"
    and "free_nodes (nodes a bs) S" and "sized s S" and "dom S \<subseteq> set (starts a bs)" and "dom S \<inter> D = {}"
proof -
  show l: "layout s a bs" and "x \<in> set (starts a bs) \<Longrightarrow> x \<notin> D \<Longrightarrow> hm s x = OS_MEM_NODE_MAGIC" and "free_lists s L S"
    and sub: "S \<subseteq>\<^sub>m frees a bs" and "dom S \<inter> D = {}" using assms by (auto simp: book_def)
  have blk: "20 \<le> n \<and> n < 2 ^ 29 \<and> 4 dvd n \<and> hm s (v + 8) = of_nat n \<and> v \<in> set (starts a bs)" if "S v = Some n" for v n
  proof -
    have "frees a bs v = Some n" using that sub by (metis domI map_le_def)
    then obtain xs ys where "bs = xs @ (n, 0) # ys" "v = bend a xs" using frees_in layoutD(1) [OF l] by blast
    then show ?thesis using layout_mid [of s a xs n 0 ys] l by simp
  qed
  show "dom S \<subseteq> set (starts a bs)" using blk by blast
  then show "free_nodes (nodes a bs) S" unfolding free_nodes_def using layoutD(2) [OF l] blk by (auto simp: ran_def nodes_def)
  show "sized s S" unfolding sized_def using blk by blast
qed

lemma layout_cong:
  assumes l: "layout s a bs" and h: "\<And>v i. v \<in> nodes a bs \<Longrightarrow> i = 4 \<or> i = 8 \<or> v = bend a bs \<and> i = 0 \<Longrightarrow> hm t (v + i) = hm s (v + i)"
  shows "layout t a bs"
proof -
  have e: "bend a bs \<in> nodes a bs" by (simp add: nodes_def)
  have "hm t (bend a bs) = hm s (bend a bs)" "hm t (bend a bs + 4) = hm s (bend a bs + 4)" "hm t (bend a bs + 8) = hm s (bend a bs + 8)"
    using h [OF e, of 0] h [OF e, of 4] h [OF e, of 8] by simp_all
  moreover have "chain (hm t) 0 a bs" using layoutD(5) [OF l] chain_cong [of a bs "hm s" "hm t" 0] h by (simp add: starts_nodes)
  ultimately show ?thesis using l unfolding layout_def by simp
qed

lemma header_links:
  assumes "apart A" and "dom S \<subseteq> A" and "v \<in> A" and "i < 12"
  shows "v + i \<notin> links S"
proof
  assume "v + i \<in> links S"
  then obtain u where u: "u \<in> dom S" "v + i = u + 12 \<or> v + i = u + 16" unfolding links_def by blast
  then have "u \<in> A" using assms(2) by blast
  with u(2) show False using apart_far [OF assms(1,3), of u] assms(4) by (cases "v = u") auto
qed

lemma links_mono: "dom S \<subseteq> dom S' \<Longrightarrow> links S \<subseteq> links S'"
  unfolding links_def by blast

lemma starts_not_end: "layout s a bs \<Longrightarrow> v \<in> set (starts a bs) \<Longrightarrow> v \<noteq> bend a bs"
  using starts_room layoutD(1) by fastforce

theorem delete_step:
  assumes b: "book s a L bs S D" and x: "S x = Some n"
  shows "\<exists>t L'. OsMemFreeNodeDelete (of_nat x) s = Some t \<and> t = OsMemListDelete (of_nat (bucket n)) (of_nat x) s \<and> book t a L' bs (S(x := None)) D \<and>
    same_env s t \<and> (\<forall>w. w \<notin> links (S(x := None)) \<longrightarrow> hm t w = hm s w)"
proof -
  note d = bookD [OF b]
  note n = free_nodesD [OF d(5) x]
  let ?t = "OsMemListDelete (of_nat (bucket n)) (of_nat x) s" and ?S = "S(x := None)"
  have sz: "mem s (of_nat x + 8) = of_nat n" using mem_words(2) [OF n(5)] d(6) x by (simp add: sized_def)
  have "unat (of_nat (bucket n) :: u32) = bucket n" using n(6) by (intro unat_of_nat32) simp
  then have "\<not> 223 \<le> (of_nat (bucket n) :: u32)" using n(6) by (simp add: word_le_nat_alt)
  then have e: "OsMemFreeNodeDelete (of_nat x) s = Some ?t"
    unfolding OsMemFreeNodeDelete_def sz using index_of_nat [of n] n(2,3) by (simp add: Let_def)
  have "x \<in> set (starts a bs)" "x \<notin> D" using d(7,8) x by auto
  then have "hm s x = OS_MEM_NODE_MAGIC" by (rule d(2))
  note r = ListDelete_lists [OF d(3,5) x this]
  have h: "hm ?t (v + i) = hm s (v + i)" if "v \<in> nodes a bs" "i < 12" for v i
  proof (rule r(3))
    have "dom ?S \<subseteq> nodes a bs" using d(7) by (auto simp: nodes_def)
    then show "v + i \<notin> links ?S" using header_links [OF layoutD(2) [OF d(1)]] that by blast
  qed
  have "layout ?t a bs"
  proof (rule layout_cong [OF d(1)])
    fix v i assume "v \<in> nodes a bs" "i = 4 \<or> i = 8 \<or> v = bend a bs \<and> i = (0 :: nat)"
    then show "hm ?t (v + i) = hm s (v + i)" by (intro h) auto
  qed
  moreover have "\<forall>v \<in> set (starts a bs) - D. hm ?t v = OS_MEM_NODE_MAGIC" using h [of _ 0] d(2) by (auto simp: starts_nodes)
  moreover have "?S \<subseteq>\<^sub>m frees a bs" using d(4) by (auto simp: map_le_def)
  moreover have "dom ?S \<inter> D = {}" using d(8) by auto
  ultimately have "book ?t a (L(bucket n := remove1 x (L (bucket n)))) bs ?S D" unfolding book_def using r(1) by blast
  then show ?thesis using e r(2,3) by blast
qed

theorem add_step:
  assumes b: "book s a L bs S D" and x: "frees a bs x = Some n" "S x = None" and D: "D \<subseteq> {x}"
  shows "\<exists>t L'. OsMemFreeNodeAdd (of_nat x) s = Some t \<and> book t a L' bs (S(x \<mapsto> n)) {} \<and> same_env s t \<and>
    (\<forall>w. w \<notin> links (S(x \<mapsto> n)) \<and> w \<noteq> x \<longrightarrow> hm t w = hm s w)"
proof -
  note d = bookD [OF b]
  from frees_in [OF x(1) layoutD(1) [OF d(1)]] obtain xs ys where bs: "bs = xs @ (n, 0) # ys" "x = bend a xs" by blast
  then have "layout s a (xs @ (n, 0) # ys)" using d(1) by simp
  note m = layout_mid [OF this, folded bs(2), folded bs(1)]
  let ?t = "OsMemListAdd (of_nat (bucket n)) (of_nat x) s" and ?S = "S(x \<mapsto> n)"
  have sz: "mem s (of_nat x + 8) = of_nat n" using mem_words(2) [of x] m(2,5,9) by simp
  have bk: "bucket n < 207" by (rule bucket_bound [OF m(7)])
  then have "unat (of_nat (bucket n) :: u32) = bucket n" by (intro unat_of_nat32) simp
  then have "\<not> 223 \<le> (of_nat (bucket n) :: u32)" using bk by (simp add: word_le_nat_alt)
  then have e: "OsMemFreeNodeAdd (of_nat x) s = Some ?t" unfolding OsMemFreeNodeAdd_def sz using index_of_nat [of n] m(5,7) by (simp add: Let_def)
  note r = ListAdd_lists [OF d(3,5) m(3) x(2) m(5,7)]
  have xs: "x \<in> set (starts a bs)" using bs by simp
  have h: "hm ?t (v + i) = (if v + i = x then OS_MEM_NODE_MAGIC else hm s (v + i))" if "v \<in> nodes a bs" "i < 12" for v i
  proof (rule r(4))
    have "dom ?S \<subseteq> nodes a bs" using d(7) m(3) by (auto simp: nodes_def)
    then show "v + i \<notin> links ?S" using header_links [OF layoutD(2) [OF d(1)]] that by blast
  qed
  have "layout ?t a bs"
  proof (rule layout_cong [OF d(1)])
    fix v i assume v: "v \<in> nodes a bs" "i = 4 \<or> i = 8 \<or> v = bend a bs \<and> i = (0 :: nat)"
    then have "v + i \<noteq> x + 0" using node_words [OF layoutD(2) [OF d(1)] v(1) m(3), of i 0] starts_not_end [OF d(1) xs] by (cases "v = x") auto
    then show "hm ?t (v + i) = hm s (v + i)" using h [OF v(1), of i] v(2) by auto
  qed
  moreover have "\<forall>v \<in> set (starts a bs) - {}. hm ?t v = OS_MEM_NODE_MAGIC" using h [of _ 0] d(2) D by (auto simp: starts_nodes)
  moreover have "?S \<subseteq>\<^sub>m frees a bs" using d(4) x(1) by (auto simp: map_le_def)
  ultimately have "book ?t a (L(bucket n := x # L (bucket n))) bs ?S {}" unfolding book_def using r(1) by blast
  moreover have "\<forall>w. w \<notin> links ?S \<and> w \<noteq> x \<longrightarrow> hm ?t w = hm s w" using r(4) by simp
  ultimately show ?thesis using e r(3) by blast
qed

theorem merge_step:
  assumes b: "book s a L (xs @ (n, 0) # (m, 0) # ys) S D" and S: "S x = None" "S (x + n) = None" and x: "x = bend a xs"
  defines "t \<equiv> OsMemMergeNode (of_nat (x + n)) s"
  shows "book t a L (xs @ (n + m, 0) # ys) S D" and "same_env s t" and "w \<noteq> x + 8 \<Longrightarrow> w \<noteq> x + n + m + 4 \<Longrightarrow> hm t w = hm s w"
proof -
  let ?bs = "xs @ (n, 0) # (m, 0) # ys" and ?bt = "xs @ (n + m, 0) # ys"
  note d = bookD [OF b]
  note g = MergeNode_layout [OF d(1), folded x, folded t_def]
  show "same_env s t" by (rule g(5))
  show fr: "hm t w = hm s w" if "w \<noteq> x + 8" "w \<noteq> x + n + m + 4" for w unfolding g(2) Let_def using that by simp
  have nodes: "x \<in> nodes a ?bs" "x + n + m \<in> nodes a ?bs" using mid_node [of a xs] mid_node [of a "xs @ [(n, 0), (m, 0)]" ys] by (simp_all add: x)
  have A: "apart (nodes a ?bs)" by (rule layoutD(2) [OF d(1)])
  have okb: "list_all okb xs" "0 < n" "0 < m" using layoutD(1) [OF d(1)] by (auto simp: okb_def)
  have sub: "set (starts a ?bt) \<subseteq> set (starts a ?bs)" by (auto simp: add.assoc)
  have "hm t v = OS_MEM_NODE_MAGIC" if "v \<in> set (starts a ?bt) - D" for v
  proof -
    have v: "v \<in> set (starts a ?bs)" "v \<notin> D" using that sub by auto
    have "v + 0 \<noteq> x + 8" "v + 0 \<noteq> x + n + m + 4"
      using node_words [OF A starts_nodes [OF v(1)] nodes(1), of 0 8] node_words [OF A starts_nodes [OF v(1)] nodes(2), of 0 4] by (cases "v = x"; cases "v = x + n + m"; auto)+
    then show ?thesis using fr [of v] d(2) [OF v] by simp
  qed
  moreover have "free_lists t L S"
  proof (rule free_lists_cong [OF d(3) g(3,4)])
    fix v assume "v \<in> dom S"
    then have v: "v \<in> nodes a ?bs" using d(7) by (auto simp: nodes_def)
    have "v + i \<noteq> x + 8" "v + i \<noteq> x + n + m + 4" if "i = 12 \<or> i = 16" for i
      using node_words [OF A v nodes(1), of i 8] node_words [OF A v nodes(2), of i 4] that by (cases "v = x"; cases "v = x + n + m"; auto)+
    then show "hm t (v + 12) = hm s (v + 12) \<and> hm t (v + 16) = hm s (v + 16)" using fr [of "v + 12"] fr [of "v + 16"] by simp
  qed
  moreover have "S \<subseteq>\<^sub>m frees a ?bt" unfolding map_le_def
  proof
    fix v assume v: "v \<in> dom S"
    then have "v \<noteq> x" "v \<noteq> x + n" using S by auto
    then have "frees a ?bt v = frees a ?bs v" using frees_merge [OF okb, of a 0 ys 0 0] by (simp add: x)
    with v d(4) show "S v = frees a ?bt v" by (simp add: map_le_def)
  qed
  ultimately show "book t a L ?bt S D" unfolding book_def using g(1) d(8) by blast
qed

text \<open>The space behind a split joins a free block that follows.\<close>

fun next_free :: "nat \<Rightarrow> block list \<Rightarrow> nat \<times> block list" where
  "next_free r ((m, f) # ys) = (if f = 0 then (r + m, ys) else (r, (m, f) # ys))"
| "next_free r [] = (r, [])"

lemma used_flag: "block_flags OS_MEM_NODE_USED_FLAG" "OS_MEM_NODE_USED_FLAG \<noteq> 0" "block_flags 0"
  by (simp_all add: block_flags_def)

lemma split_book:
  assumes b: "detached s a L xs n ys" and x: "x = bend a xs" and k: "20 \<le> k" "k + 20 \<le> n"
    and l: "layout t a (xs @ (k, 0) # (n - k, 0) # ys)" "freeList t = freeList s" "freeListBitmap t = freeListBitmap s"
    and fr: "\<And>w. w \<notin> {x + k + 4, x + k + 8, x + 8, x + n + 4} \<Longrightarrow> hm t w = hm s w"
  shows "book t a L (xs @ (k, 0) # (n - k, 0) # ys) (frees a (xs @ (n, OS_MEM_NODE_USED_FLAG) # ys)) {x + k}"
    and "frees a (xs @ (n, OS_MEM_NODE_USED_FLAG) # ys) (x + k) = None" and "frees a (xs @ (n, OS_MEM_NODE_USED_FLAG) # ys) x = None"
proof -
  let ?bs = "xs @ (n, 0) # ys" and ?bt = "xs @ (k, 0) # (n - k, 0) # ys" and ?S = "frees a (xs @ (n, OS_MEM_NODE_USED_FLAG) # ys)"
  note d = bookD [OF b]
  have okb: "list_all okb xs" using layoutD(1) [OF d(1)] by simp
  have A: "apart (nodes a ?bt)" by (rule layoutD(2) [OF l(1)])
  have nodes: "x \<in> nodes a ?bt" "x + k \<in> nodes a ?bt" "x + n \<in> nodes a ?bt"
    using mid_node [of a xs] mid_node [of a "xs @ [(k, 0)]"] mid_node [of a "xs @ [(k, 0), (n - k, 0)]" ys] k by (simp_all add: x)
  have off: "hm t (v + i) = hm s (v + i)" if "v \<in> nodes a ?bt" "i < 20" "i \<noteq> 4" "i \<noteq> 8" for v i
    using node_words [OF A that(1) nodes(1) that(2), of 8] node_words [OF A that(1) nodes(2) that(2), of 4] node_words [OF A that(1) nodes(2) that(2), of 8]
      node_words [OF A that(1) nodes(3) that(2), of 4] that(3,4) by (intro fr) auto
  have st: "set (starts a ?bt) = insert (x + k) (set (starts a ?bs))" using k by (auto simp: x)
  have far: "x + n \<le> v" if "v \<in> set (starts (x + n) ys)" for v by (rule starts_ge [OF that])
  show S1: "?S (x + k) = None" using far [of "x + k"] starts_room [OF okb, of "x + k" a] k by (intro frees_None) (auto simp: x)
  have "frees (x + n) ys x = None" using far [of x] k by (intro frees_None) auto
  then show "?S x = None" using okb by (simp add: frees_append x)
  have "hm t v = OS_MEM_NODE_MAGIC" if "v \<in> set (starts a ?bt) - {x + k}" for v
    using off [of v 0] d(2) [of v] that st by (auto simp: starts_nodes)
  moreover have "free_lists t L ?S"
  proof (rule free_lists_cong [OF d(3) l(2,3)])
    fix v assume "v \<in> dom ?S"
    then have "v \<in> nodes a ?bt" using d(7) st by (auto simp: nodes_def)
    then show "hm t (v + 12) = hm s (v + 12) \<and> hm t (v + 16) = hm s (v + 16)" using off [of v 12] off [of v 16] by simp
  qed
  moreover have "?S \<subseteq>\<^sub>m frees a ?bt" unfolding map_le_def
  proof
    fix v assume v: "v \<in> dom ?S"
    then have "v \<noteq> x + k" "v \<noteq> x" using S1 \<open>?S x = None\<close> by auto
    then show "?S v = frees a ?bt v" using frees_split [OF okb, of k n a 0 0 ys OS_MEM_NODE_USED_FLAG] k by (simp add: x)
  qed
  ultimately show "book t a L ?bt ?S {x + k}" unfolding book_def using l(1) S1 by auto
qed

theorem split_step:
  assumes b: "detached s a L xs n ys" and x: "x = bend a xs" and k: "20 \<le> k" "4 dvd k" "k + 20 \<le> n" and r: "next_free (n - k) ys = (r, ys')"
  shows "\<exists>t L'. OsMemSplitNode (of_nat x) (of_nat k) s = Some t \<and> detached t a L' xs k ((r, 0) # ys') \<and> same_env s t \<and>
    (\<forall>w \<in> payload a (xs @ (k, OS_MEM_NODE_USED_FLAG) # (r, 0) # ys'). hm t w = hm s w)"
proof -
  let ?S = "frees a (xs @ (n, OS_MEM_NODE_USED_FLAG) # ys)"
  let ?be = "xs @ (k, OS_MEM_NODE_USED_FLAG) # (r, 0) # ys'"
  have okb: "list_all okb xs" "list_all okb ys" using layoutD(1) [OF bookD(1) [OF b]] by simp_all
  from SplitNode_layout [OF bookD(1) [OF b] k] obtain t where t: "layout t a (xs @ (k, 0) # (n - k, 0) # ys)" "freeList t = freeList s"
    "freeListBitmap t = freeListBitmap s" "same_env s t" "\<And>w. w \<notin> {x + k + 4, x + k + 8, x + 8, x + n + 4} \<Longrightarrow> hm t w = hm s w"
    "OsMemSplitNode (of_nat x) (of_nat k) s =
      (if ys = [] \<or> snd (hd ys) \<noteq> 0 then OsMemFreeNodeAdd (of_nat (x + k)) t
       else Option.bind (OsMemFreeNodeDelete (of_nat (x + n)) t) (\<lambda>t1. OsMemFreeNodeAdd (of_nat (x + k)) (OsMemMergeNode (of_nat (x + n)) t1)))"
    unfolding x by blast
  note sb = split_book [OF b x k(1,3) t(1-3,5)]
  have fs: "frees a (xs @ (k, OS_MEM_NODE_USED_FLAG) # (n - k, 0) # ys) = ?S(x + k \<mapsto> n - k)"
    using frees_split [OF okb(1), of k n a OS_MEM_NODE_USED_FLAG 0 ys OS_MEM_NODE_USED_FLAG] k sb(3) by (simp add: x [symmetric] fun_upd_idem)
  show ?thesis
  proof (cases "ys = [] \<or> snd (hd ys) \<noteq> 0")
    case True
    then have r': "r = n - k" "ys' = ys" using r by (cases ys; auto)+
    have "frees a (xs @ (k, 0) # (n - k, 0) # ys) (x + k) = Some (n - k)" using okb(1) k by (simp add: frees_append x)
    from add_step [OF sb(1) this sb(2)] obtain u L' where u: "OsMemFreeNodeAdd (of_nat (x + k)) t = Some u"
      "book u a L' (xs @ (k, 0) # (n - k, 0) # ys) (?S(x + k \<mapsto> n - k)) {}" "same_env t u"
      "\<And>w. w \<notin> links (?S(x + k \<mapsto> n - k)) \<Longrightarrow> w \<noteq> x + k \<Longrightarrow> hm u w = hm t w" by blast
    have okt: "list_all okb ?be" using layoutD(1) [OF t(1)] r' by (simp add: okb_def block_flags_def)
    have "hm u w = hm s w" if "w \<in> payload a ?be" for w
    proof -
      have hd: "w \<noteq> v + i" if "v \<in> nodes a ?be" "i < 12" for v i by (rule payload_header [OF okt \<open>w \<in> payload a ?be\<close> that])
      have "x \<in> nodes a ?be" "x + k \<in> nodes a ?be" "x + n \<in> nodes a ?be"
        using mid_node [of a xs] mid_node [of a "xs @ [(k, OS_MEM_NODE_USED_FLAG)]"] mid_node [of a "xs @ [(k, OS_MEM_NODE_USED_FLAG), (r, 0)]" ys'] k r'
        by (simp_all add: x)
      from hd [OF this(1), of 8] hd [OF this(2), of 4] hd [OF this(2), of 8] hd [OF this(2), of 0] hd [OF this(3), of 4]
      have "hm t w = hm s w" "w \<noteq> x + k" using t(5) [of w] by auto
      moreover have "w \<notin> links (?S(x + k \<mapsto> n - k))" using payload_links [OF okt that] fs r' by simp
      ultimately show ?thesis using u(4) by simp
    qed
    moreover have "detached u a L' xs k ((r, 0) # ys')" using u(2) fs r' by simp
    ultimately show ?thesis using t(6) True u(1) same_env_trans [OF t(4) u(3)] by auto
  next
    case False
    then obtain m ys0 where ys: "ys = (m, 0) # ys0" by (cases ys) (auto simp: prod_eq_iff)
    then have r': "r = n - k + m" "ys' = ys0" using r by auto
    have "?S (x + n) = Some m" using okb(1) k by (simp add: frees_append x ys)
    from delete_step [OF sb(1) this] obtain t1 L1 where t1: "OsMemFreeNodeDelete (of_nat (x + n)) t = Some t1"
      "book t1 a L1 (xs @ (k, 0) # (n - k, 0) # ys) (?S(x + n := None)) {x + k}" "same_env t t1"
      "\<And>w. w \<notin> links (?S(x + n := None)) \<Longrightarrow> hm t1 w = hm t w" by blast
    define t2 where "t2 = OsMemMergeNode (of_nat (x + n)) t1"
    have "book t1 a L1 ((xs @ [(k, 0)]) @ (n - k, 0) # (m, 0) # ys0) (?S(x + n := None)) {x + k}" using t1(2) ys by simp
    note m2 = merge_step [OF this, of "x + k"]
    have xn: "x + k + (n - k) = x + n" using k by simp
    have t2: "book t2 a L1 (xs @ (k, 0) # (r, 0) # ys0) (?S(x + n := None)) {x + k}" "same_env t1 t2"
      "\<And>w. w \<noteq> x + k + 8 \<Longrightarrow> w \<noteq> x + n + m + 4 \<Longrightarrow> hm t2 w = hm t1 w"
      using m2 sb(2) k unfolding xn by (simp_all add: x t2_def r')
    let ?S' = "(?S(x + n := None))(x + k \<mapsto> r)"
    have "frees a (xs @ (k, 0) # (r, 0) # ys0) (x + k) = Some r" using okb(1) k by (simp add: frees_append x)
    from add_step [OF t2(1) this] obtain u L' where u: "OsMemFreeNodeAdd (of_nat (x + k)) t2 = Some u"
      "book u a L' (xs @ (k, 0) # (r, 0) # ys0) ?S' {}" "same_env t2 u"
      "\<And>w. w \<notin> links ?S' \<Longrightarrow> w \<noteq> x + k \<Longrightarrow> hm u w = hm t2 w" using sb(2) k by auto
    have fe: "frees a ?be = ?S'"
    proof -
      have "frees a ((xs @ [(k, OS_MEM_NODE_USED_FLAG)]) @ (n - k + m, 0) # ys0) =
        (frees a ((xs @ [(k, OS_MEM_NODE_USED_FLAG)]) @ (n - k, 0) # (m, 0) # ys0))(x + k \<mapsto> n - k + m, x + k + (n - k) := None)"
        using frees_merge [of "xs @ [(k, OS_MEM_NODE_USED_FLAG)]" "n - k" m a 0 ys0 0 0] okb k ys by (simp add: x okb_def block_flags_def)
      then show ?thesis using fs k unfolding xn r' ys by (simp add: fun_upd_twist)
    qed
    have okt: "list_all okb ?be" using layoutD(1) [OF bookD(1) [OF t2(1)]] r' by (simp add: okb_def block_flags_def)
    have "hm u w = hm s w" if "w \<in> payload a ?be" for w
    proof -
      have hd: "w \<noteq> v + i" if "v \<in> nodes a ?be" "i < 12" for v i by (rule payload_header [OF okt \<open>w \<in> payload a ?be\<close> that])
      have "x \<in> nodes a ?be" "x + k \<in> nodes a ?be" "x + n + m \<in> nodes a ?be"
        using mid_node [of a xs] mid_node [of a "xs @ [(k, OS_MEM_NODE_USED_FLAG)]"] mid_node [of a "xs @ [(k, OS_MEM_NODE_USED_FLAG), (r, 0)]" ys'] k r'
        by (simp_all add: x add.assoc)
      note h = hd [OF this(1), of 8] hd [OF this(2), of 4] hd [OF this(2), of 8] hd [OF this(2), of 0] hd [OF this(3), of 4]
      have "frees a ?be (x + k) = Some r" using fe by simp
      moreover have "20 \<le> m" using ys okb(2) by (simp add: okb_def)
      then have "n - k + 4 < r" "x + k + (n - k + 4) = x + n + 4" unfolding r'(1) using k by linarith+
      ultimately have "w \<noteq> x + n + 4" using payload_free [OF okt that, of "x + k" r "n - k + 4"] by simp
      with h have "hm t w = hm s w" using t(5) [of w] by auto
      moreover have lk: "w \<notin> links ?S'" using payload_links [OF okt that] fe by simp
      moreover have "w \<notin> links (?S(x + n := None))" using lk links_mono [of "?S(x + n := None)" ?S'] by auto
      moreover have "hm t2 w = hm t1 w" using t2(3) [of w] h by auto
      ultimately show ?thesis using u(4) [of w] t1(4) [of w] h(4) by auto
    qed
    moreover have "detached u a L' xs k ((r, 0) # ys')" using u(2) fe r' by simp
    moreover have "same_env s u" using t(4) t1(3) t2(2) u(3) by (metis same_env_trans)
    moreover have "OsMemSplitNode (of_nat x) (of_nat k) s = Some u" using t(6) False t1(1) u(1) by (simp add: t2_def)
    ultimately show ?thesis by blast
  qed
qed

text \<open>Marking a detached block as used, and the reverse.\<close>

theorem flag_step:
  assumes b: "book s a L (xs @ (n, f) # ys) S {}" and x: "x = bend a xs" "S x = None" and g: "block_flags g"
  defines "t \<equiv> wr (of_nat x + 8) (of_nat n OR g) s"
  shows "book t a L (xs @ (n, g) # ys) S {}" and "same_env s t" and "w \<noteq> x + 8 \<Longrightarrow> hm t w = hm s w"
proof -
  let ?bs = "xs @ (n, f) # ys" and ?bt = "xs @ (n, g) # ys"
  note d = bookD [OF b]
  note l = set_flags [OF d(1) g, folded x(1), folded t_def]
  show "same_env s t" by (simp add: t_def)
  show "hm t w = hm s w" if "w \<noteq> x + 8" using that by (simp add: l(2))
  have xn: "x \<in> nodes a ?bs" and A: "apart (nodes a ?bs)" using layout_mid(3) [OF d(1)] layoutD(2) [OF d(1)] by (simp_all add: x)
  have off: "hm t (v + i) = hm s (v + i)" if "v \<in> nodes a ?bs" "i < 20" "i \<noteq> 8" for v i
    using node_words [OF A that(1) xn that(2), of 8] that(3) by (cases "v = x") (auto simp: l(2))
  have okb: "list_all okb xs" "0 < n" using layoutD(1) [OF d(1)] by (auto simp: okb_def)
  have "free_lists t L S"
    by (rule free_lists_cong [OF d(3)]) (use off d(7) in \<open>auto simp: t_def nodes_def\<close>)
  moreover have "S \<subseteq>\<^sub>m frees a ?bt" unfolding map_le_def
  proof
    fix v assume v: "v \<in> dom S"
    then have "v \<noteq> x" using x(2) by auto
    then have "frees a ?bt v = frees a ?bs v" using frees_flag [OF okb, of a g ys f] by (simp add: x)
    with v d(4) show "S v = frees a ?bt v" by (simp add: map_le_def)
  qed
  moreover have "\<forall>v \<in> set (starts a ?bt) - {}. hm t v = OS_MEM_NODE_MAGIC" using off [of _ 0] d(2) by (auto simp: nodes_def)
  ultimately show "book t a L ?bt S {}" unfolding book_def using l(1) by simp
qed

text \<open>Joining a detached block with a free neighbour.\<close>

theorem join_next:
  assumes b: "detached s a L xs n ((m, 0) # ys)" and x: "x = bend a xs"
  shows "\<exists>t L'. OsMemFreeNodeDelete (of_nat (x + n)) s = Some t \<and> detached (OsMemMergeNode (of_nat (x + n)) t) a L' xs (n + m) ys \<and>
    same_env s (OsMemMergeNode (of_nat (x + n)) t) \<and>
    (\<forall>w \<in> payload a (xs @ (n, OS_MEM_NODE_USED_FLAG) # (m, 0) # ys). hm (OsMemMergeNode (of_nat (x + n)) t) w = hm s w)"
proof -
  let ?bu = "xs @ (n, OS_MEM_NODE_USED_FLAG) # (m, 0) # ys"
  let ?S = "frees a ?bu"
  note d = bookD [OF b]
  have okb: "list_all okb xs" "0 < n" "0 < m" "list_all okb ?bu" using layoutD(1) [OF d(1)] by (auto simp: okb_def block_flags_def)
  have S: "?S (x + n) = Some m" "?S x = None" using okb frees_None [of x "x + n + m" ys] starts_ge [of x "x + n + m" ys]
    by (auto simp: frees_append x)
  from delete_step [OF b S(1)] obtain t L' where t: "OsMemFreeNodeDelete (of_nat (x + n)) s = Some t"
    "book t a L' (xs @ (n, 0) # (m, 0) # ys) (?S(x + n := None)) {}" "same_env s t" "\<And>w. w \<notin> links (?S(x + n := None)) \<Longrightarrow> hm t w = hm s w" by blast
  let ?u = "OsMemMergeNode (of_nat (x + n)) t"
  note m = merge_step [OF t(2) _ _ x]
  have u: "book ?u a L' (xs @ (n + m, 0) # ys) (?S(x + n := None)) {}" "same_env t ?u"
    "\<And>w. w \<noteq> x + 8 \<Longrightarrow> w \<noteq> x + n + m + 4 \<Longrightarrow> hm ?u w = hm t w" using m S(2) by auto
  have "?S(x + n := None) = frees a (xs @ (n + m, OS_MEM_NODE_USED_FLAG) # ys)"
    using frees_merge [OF okb(1-3), of a OS_MEM_NODE_USED_FLAG ys OS_MEM_NODE_USED_FLAG 0] S(2) by (simp add: x [symmetric] fun_upd_idem)
  then have "detached ?u a L' xs (n + m) ys" using u(1) by simp
  moreover have "hm ?u w = hm s w" if w: "w \<in> payload a ?bu" for w
  proof -
    have "x \<in> nodes a ?bu" "x + n + m \<in> nodes a ?bu"
      using mid_node [of a xs] mid_node [of a "xs @ [(n, OS_MEM_NODE_USED_FLAG), (m, 0)]" ys] by (simp_all add: x add.assoc)
    then have "w \<noteq> x + 8" "w \<noteq> x + n + m + 4" using payload_header [OF okb(4) w] by auto
    moreover have "w \<notin> links (?S(x + n := None))" using payload_links [OF okb(4) w] links_mono [of "?S(x + n := None)" ?S] by auto
    ultimately show ?thesis using u(3) [of w] t(4) [of w] by simp
  qed
  ultimately show ?thesis using t(1) same_env_trans [OF t(3) u(2)] by blast
qed

theorem join_prev:
  assumes b: "detached s a L (ws @ [(p, 0)]) n ys" and y: "y = bend a ws"
  shows "\<exists>t L'. OsMemFreeNodeDelete (of_nat y) s = Some t \<and> detached (OsMemMergeNode (of_nat (y + p)) t) a L' ws (p + n) ys \<and>
    same_env s (OsMemMergeNode (of_nat (y + p)) t) \<and> hm (OsMemMergeNode (of_nat (y + p)) t) (y + p + 8) = hm s (y + p + 8) \<and>
    (\<forall>w \<in> payload a (ws @ (p, 0) # (n, OS_MEM_NODE_USED_FLAG) # ys). hm (OsMemMergeNode (of_nat (y + p)) t) w = hm s w)"
proof -
  let ?bu = "ws @ (p, 0) # (n, OS_MEM_NODE_USED_FLAG) # ys"
  let ?S = "frees a ?bu"
  have b': "book s a L (ws @ (p, 0) # (n, 0) # ys) ?S {}" using b by simp
  note d = bookD [OF b']
  have okb: "list_all okb ws" "0 < p" "0 < n" "list_all okb ?bu" using layoutD(1) [OF d(1)] by (auto simp: okb_def block_flags_def)
  have "frees (y + p + n) ys (y + p) = None" using starts_ge [of "y + p" "y + p + n" ys] okb by (intro frees_None) auto
  then have S: "?S y = Some p" "?S (y + p) = None" using okb by (simp_all add: frees_append y)
  from delete_step [OF b' S(1)] obtain t L' where t: "OsMemFreeNodeDelete (of_nat y) s = Some t"
    "book t a L' (ws @ (p, 0) # (n, 0) # ys) (?S(y := None)) {}" "same_env s t" "\<And>w. w \<notin> links (?S(y := None)) \<Longrightarrow> hm t w = hm s w" by blast
  let ?u = "OsMemMergeNode (of_nat (y + p)) t"
  note m = merge_step [OF t(2) _ _ y]
  have u: "book ?u a L' (ws @ (p + n, 0) # ys) (?S(y := None)) {}" "same_env t ?u"
    "\<And>w. w \<noteq> y + 8 \<Longrightarrow> w \<noteq> y + p + n + 4 \<Longrightarrow> hm ?u w = hm t w" using m S(2) by auto
  have "?S(y := None) = frees a (ws @ (p + n, OS_MEM_NODE_USED_FLAG) # ys)"
    using frees_merge [OF okb(1-3), of a OS_MEM_NODE_USED_FLAG ys 0 OS_MEM_NODE_USED_FLAG] S(2) okb(2) by (simp add: y [symmetric] fun_upd_idem)
  then have "detached ?u a L' ws (p + n) ys" using u(1) by simp
  moreover have "hm ?u (y + p + 8) = hm s (y + p + 8)"
  proof -
    have "y + p \<in> nodes a (ws @ (p, 0) # (n, 0) # ys)" using mid_node [of a "ws @ [(p, 0)]"] by (simp add: y)
    then have "y + p + 8 \<notin> links (?S(y := None))" using header_links [OF layoutD(2) [OF d(1)], of "?S(y := None)" "y + p" 8] d(7) by (auto simp: nodes_def)
    moreover have "20 \<le> n" "20 \<le> p" using okb(4) by (auto simp: okb_def)
    ultimately show ?thesis using u(3) [of "y + p + 8"] t(4) [of "y + p + 8"] by auto
  qed
  moreover have "hm ?u w = hm s w" if w: "w \<in> payload a ?bu" for w
  proof -
    have "y \<in> nodes a ?bu" "y + p + n \<in> nodes a ?bu"
      using mid_node [of a ws] mid_node [of a "ws @ [(p, 0), (n, OS_MEM_NODE_USED_FLAG)]" ys] by (simp_all add: y add.assoc)
    then have "w \<noteq> y + 8" "w \<noteq> y + p + n + 4" using payload_header [OF okb(4) w] by auto
    moreover have "w \<notin> links (?S(y := None))" using payload_links [OF okb(4) w] links_mono [of "?S(y := None)" ?S] by auto
    ultimately show ?thesis using u(3) [of w] t(4) [of w] by simp
  qed
  ultimately show ?thesis using t(1) same_env_trans [OF t(3) u(2)] by blast
qed

end
