(* ===== verification/LosTlsfHeap.thy ===== *)
theory LosTlsfHeap
  imports LosTlsfSteps
begin

text \<open>
  Allocation and release on a pool that does not expand, in terms of its list of blocks: allocation cuts a block off the first suitable free block,
  release joins the block with its free neighbours.
\<close>

section \<open>Pools\<close>

text \<open>No two free blocks are neighbours.\<close>

fun coal :: "block list \<Rightarrow> bool" where
  "coal (b # c # bs) \<longleftrightarrow> \<not> (snd b = 0 \<and> snd c = 0) \<and> coal (c # bs)"
| "coal _ \<longleftrightarrow> True"

lemma coal_Cons: "coal (b # bs) \<longleftrightarrow> (bs \<noteq> [] \<longrightarrow> \<not> (snd b = 0 \<and> snd (hd bs) = 0)) \<and> coal bs"
  by (cases bs) auto

lemma coal_append: "coal (xs @ ys) \<longleftrightarrow> coal xs \<and> coal ys \<and> (xs \<noteq> [] \<and> ys \<noteq> [] \<longrightarrow> \<not> (snd (last xs) = 0 \<and> snd (hd ys) = 0))"
proof (induction xs)
  case (Cons b xs)
  then show ?case by (cases "xs = []") (auto simp: coal_Cons)
qed simp

lemma coal_mid: "coal (xs @ (n, f) # ys) \<longleftrightarrow> coal xs \<and> coal ys \<and>
  (f = 0 \<longrightarrow> (xs \<noteq> [] \<longrightarrow> snd (last xs) \<noteq> 0) \<and> (ys \<noteq> [] \<longrightarrow> snd (hd ys) \<noteq> 0))"
  by (auto simp: coal_append coal_Cons)

abbreviation (input) first_node :: "nat \<Rightarrow> nat" where "first_node P \<equiv> P + 936"

definition pool_inv :: "nat \<Rightarrow> tlsf \<Rightarrow> (nat \<Rightarrow> nat list) \<Rightarrow> block list \<Rightarrow> bool" where
  "pool_inv P s L bs \<longleftrightarrow> 0 < P \<and> 4 dvd P \<and> P + unat (totalSize s) = bend (first_node P) bs + 12 \<and> heap_ok s (first_node P) L bs \<and> coal bs \<and> bs \<noteq> [] \<and>
    poolAttr s AND OS_MEM_POOL_EXPAND_ENABLE = 0"

text \<open>What the calls do not touch.\<close>

definition kept :: "nat \<Rightarrow> block list \<Rightarrow> tlsf \<Rightarrow> tlsf \<Rightarrow> bool" where
  "kept P bs s t \<longleftrightarrow> same_env s t \<and> (\<forall>w \<in> payload (first_node P) bs. hm t w = hm s w)"

lemma pool_invD:
  assumes "pool_inv P s L bs"
  shows "0 < P" and "4 dvd P" and "P + unat (totalSize s) = bend (first_node P) bs + 12" and "heap_ok s (first_node P) L bs" and "coal bs"
    and "bs \<noteq> []" and "poolAttr s AND OS_MEM_POOL_EXPAND_ENABLE = 0" and "layout s (first_node P) bs"
  using assms bookD(1) unfolding pool_inv_def by auto

lemma pool_inv_env: "same_env s t \<Longrightarrow> pool_inv P s L bs \<Longrightarrow> heap_ok t (first_node P) L' bs' \<Longrightarrow> coal bs' \<Longrightarrow> bs' \<noteq> [] \<Longrightarrow>
  bend (first_node P) bs' = bend (first_node P) bs \<Longrightarrow> pool_inv P t L' bs'"
  by (simp add: pool_inv_def same_env_def)

section \<open>Allocation\<close>

definition aligned4 :: "nat \<Rightarrow> nat" where
  "aligned4 z = (z + 15) div 4 * 4"

lemma aligned4_bounds:
  assumes "8 \<le> z"
  shows "20 \<le> aligned4 z" and "4 dvd aligned4 z" and "z + 12 \<le> aligned4 z" and "aligned4 z \<le> z + 15"
proof -
  have "20 div 4 * 4 \<le> (z + 15) div 4 * 4" using assms by (intro mult_le_mono1 div_le_mono) simp
  then show "20 \<le> aligned4 z" by (simp add: aligned4_def)
  show "4 dvd aligned4 z" by (simp add: aligned4_def)
  have "(z + 15) mod 4 < 4" by simp
  then show "z + 12 \<le> aligned4 z" "aligned4 z \<le> z + 15" using div_mult_mod_eq [of "z + 15" 4] unfolding aligned4_def by linarith+
qed

lemma ALIGN_eq: "z + 15 < 2 ^ 32 \<Longrightarrow> OS_MEM_ALIGN (of_nat z + 12) 4 = of_nat (aligned4 z)"
proof -
  assume z: "z + 15 < 2 ^ 32"
  have "(of_nat z + 12 + 4 - 1 :: u32) = of_nat (z + 15)" by simp
  then have "unat ((of_nat z + 12 + 4 - 1) AND NOT (4 - 1) :: u32) = aligned4 z"
    using and_not_3 [of "of_nat (z + 15)"] unat_of_nat32 [OF z] by (simp add: aligned4_def add.commute [of 15])
  moreover have "aligned4 z < 2 ^ 32" using z div_mult_mod_eq [of "z + 15" 4] unfolding aligned4_def by linarith
  ultimately show ?thesis unfolding OS_MEM_ALIGN_def word_unat_eq_iff by (simp only: unat_of_nat32)
qed

text \<open>A free block of size \<open>n\<close> serves a request for \<open>k\<close> bytes.\<close>

definition place :: "nat \<Rightarrow> nat \<Rightarrow> block list" where
  "place k n = (if k + 20 \<le> n then [(k, OS_MEM_NODE_USED_FLAG), (n - k, 0)] else [(n, OS_MEM_NODE_USED_FLAG)])"

lemma place_bend: "bend a (place k n) = a + n"
  by (simp add: place_def)

lemma of_nat_le32: "i < 2 ^ 32 \<Longrightarrow> j < 2 ^ 32 \<Longrightarrow> (of_nat i :: u32) \<le> of_nat j \<longleftrightarrow> i \<le> j"
  by (simp add: word_le_nat_alt unat_of_nat32)

text \<open>The end of \<open>OsMemAlloc\<close>, which the reallocations share: cut off what is not needed and mark the block as used.\<close>

definition trim :: "nat \<Rightarrow> nat \<Rightarrow> block list \<Rightarrow> block list" where
  "trim k n ys = (if k + 20 \<le> n then (k, OS_MEM_NODE_USED_FLAG) # (case next_free (n - k) ys of (r, ys') \<Rightarrow> (r, 0) # ys') else (n, OS_MEM_NODE_USED_FLAG) # ys)"

lemma trim_place: "coal ((n, 0) # ys) \<Longrightarrow> trim k n ys = place k n @ ys"
  by (cases ys) (auto simp: trim_def place_def)

definition trim_node :: "u32 \<Rightarrow> u32 \<Rightarrow> tlsf \<Rightarrow> tlsf option" where
  "trim_node node allocSize s = do {
     s2 \<leftarrow> (if allocSize + OS_MEM_NODE_HEAD_SIZE + OS_MEM_MIN_ALLOC_SIZE \<le> mem s (saf_at node) then OsMemSplitNode node allocSize s else Some s);
     Some (wr (saf_at node) (mem s2 (saf_at node) OR OS_MEM_NODE_USED_FLAG) s2)
   }"

lemma trim_spec:
  assumes b: "detached s a L xs n ys" and k: "20 \<le> k" "4 dvd k" "k < 2 ^ 29" and x: "x = bend a xs"
  shows "\<exists>t L'. trim_node (of_nat x) (of_nat k) s = Some t \<and> heap_ok t a L' (xs @ trim k n ys) \<and> same_env s t \<and>
    (\<forall>w \<in> payload a (xs @ trim k n ys). hm t w = hm s w)"
proof -
  let ?U = OS_MEM_NODE_USED_FLAG
  have fin: "\<exists>t. wr (of_nat x + 8) (mem u (of_nat x + 8) OR ?U) u = t \<and> heap_ok t a L' (xs @ (j, ?U) # zs) \<and> same_env u t \<and>
    (\<forall>w \<in> payload a (xs @ (j, ?U) # zs). hm t w = hm u w)" if u: "detached u a L' xs j zs" for u L' j zs
  proof -
    note d = bookD [OF u]
    note m = layout_mid [OF d(1), folded x]
    have "mem u (of_nat x + 8) OR ?U = of_nat j OR ?U" using mem_words(2) [of x u] m(2,5,9) by simp
    moreover have "list_all okb xs" "0 < j" "list_all okb (xs @ (j, ?U) # zs)" using layoutD(1) [OF d(1)] by (auto simp: okb_def block_flags_def)
    moreover have "frees a (xs @ (j, ?U) # zs) x = None"
      using frees_flag [OF calculation(2,3), of a ?U zs 0] by (simp add: x)
    moreover note flag_step [OF u x this used_flag(1)]
    moreover have "w \<noteq> x + 8" if "w \<in> payload a (xs @ (j, ?U) # zs)" for w
      using payload_header [OF calculation(4) that, of x 8] mid_node [of a xs "(j, ?U) # zs"] by (simp add: x)
    ultimately show ?thesis by metis
  qed
  note d = bookD [OF b]
  note m = layout_mid [OF d(1), folded x]
  have sz: "mem s (of_nat x + 8) = of_nat n" using mem_words(2) [of x s] m(2,5,9) by simp
  have c: "(of_nat k :: u32) + 12 + 8 \<le> mem s (of_nat x + 8) \<longleftrightarrow> k + 20 \<le> n"
    unfolding sz using of_nat_le32 [of "k + 20" n] k(3) m(7) by (simp add: add.assoc)
  show ?thesis
  proof (cases "k + 20 \<le> n")
    case False
    then have "trim_node (of_nat x) (of_nat k) s = Some (wr (of_nat x + 8) (mem s (of_nat x + 8) OR ?U) s)" unfolding trim_node_def c by simp
    with fin [OF b] False show ?thesis by (auto simp: trim_def)
  next
    case True
    obtain r zs where r: "next_free (n - k) ys = (r, zs)" by (cases "next_free (n - k) ys")
    from split_step [OF b x k(1,2) True r] obtain u L1 where u: "OsMemSplitNode (of_nat x) (of_nat k) s = Some u" "detached u a L1 xs k ((r, 0) # zs)"
      "same_env s u" "\<forall>w \<in> payload a (xs @ (k, ?U) # (r, 0) # zs). hm u w = hm s w" by blast
    then have e: "trim_node (of_nat x) (of_nat k) s = Some (wr (of_nat x + 8) (mem u (of_nat x + 8) OR ?U) u)" unfolding trim_node_def c using True by simp
    have "trim k n ys = (k, ?U) # (r, 0) # zs" using True r by (simp add: trim_def)
    moreover from fin [OF u(2)] obtain t where t: "wr (of_nat x + 8) (mem u (of_nat x + 8) OR ?U) u = t" "heap_ok t a L1 (xs @ (k, ?U) # (r, 0) # zs)"
      "same_env u t" "\<forall>w \<in> payload a (xs @ (k, ?U) # (r, 0) # zs). hm t w = hm u w" by blast
    moreover have "\<forall>w \<in> payload a (xs @ (k, ?U) # (r, 0) # zs). hm t w = hm s w" using t(4) u(4) by simp
    ultimately show ?thesis using e same_env_trans [OF u(3) t(3)] by metis
  qed
qed

theorem OsMemAlloc_spec:
  assumes v: "pool_inv P s L bs" and z: "8 \<le> z" "z + 16 \<le> 2 ^ 29"
  shows "(\<exists>xs n ys t L'. bs = xs @ (n, 0) # ys \<and> aligned4 z \<le> n \<and> OsMemAlloc (of_nat P) (of_nat z) s = Some (t, of_nat (bend (first_node P) xs + 12)) \<and>
      pool_inv P t L' (xs @ place (aligned4 z) n @ ys) \<and> kept P bs s t) \<or>
    OsMemAlloc (of_nat P) (of_nat z) s = Some (s, 0) \<and> (\<forall>n. (n, 0) \<in> set bs \<longrightarrow> n < aligned4 z)"
proof -
  let ?a = "first_node P" and ?k = "aligned4 z"
  note d = pool_invD [OF v]
  note b = bookD [OF d(4)]
  have k: "20 \<le> ?k" "4 dvd ?k" "?k < 2 ^ 29" using aligned4_bounds [OF z(1)] z(2) by auto
  have al: "OS_MEM_ALIGN (of_nat z + 12) 4 = of_nat ?k" by (rule ALIGN_eq) (use z in simp)
  from FindNext [OF b(3,5,6) k(1,3,2)] show ?thesis
  proof (elim disjE exE conjE)
    fix x n assume f: "OsMemFindNextSuitableBlock (of_nat ?k) s = Some (of_nat x, of_nat (bucket n))" "frees ?a bs x = Some n" "?k \<le> n"
    from frees_in [OF f(2) layoutD(1) [OF b(1)]] obtain xs ys where bs: "bs = xs @ (n, 0) # ys" "x = bend ?a xs" by blast
    note n = free_nodesD [OF b(5) f(2)]
    have nz: "(of_nat x :: u32) \<noteq> 0" using of_nat32_0 [of x] n(4,5) by simp
    from delete_step [OF d(4) f(2)] obtain t L1 where t: "t = OsMemListDelete (of_nat (bucket n)) (of_nat x) s" "book t ?a L1 bs ((frees ?a bs)(x := None)) {}"
      "same_env s t" "\<And>w. w \<notin> links ((frees ?a bs)(x := None)) \<Longrightarrow> hm t w = hm s w" by blast
    have g: "OsMemFreeNodeGet (of_nat ?k) s = Some (t, of_nat x)" using f(1) nz t(1) by (simp add: OsMemFreeNodeGet_def)
    have okb: "list_all okb bs" "list_all okb xs" "0 < n" using layoutD(1) [OF b(1)] bs(1) by (auto simp: okb_def)
    have "(frees ?a bs)(x := None) = frees ?a (xs @ (n, OS_MEM_NODE_USED_FLAG) # ys)"
      using frees_flag [OF okb(2,3), of ?a OS_MEM_NODE_USED_FLAG ys 0] by (simp add: bs)
    then have "detached t ?a L1 xs n ys" using t(2) bs(1) by simp
    from trim_spec [OF this k bs(2)] obtain u L2 where u: "trim_node (of_nat x) (of_nat ?k) t = Some u" "heap_ok u ?a L2 (xs @ trim ?k n ys)" "same_env t u"
      "\<And>w. w \<in> payload ?a (xs @ trim ?k n ys) \<Longrightarrow> hm u w = hm t w" by blast
    have c: "coal xs" "coal ys" "xs \<noteq> [] \<Longrightarrow> snd (last xs) \<noteq> 0" "ys \<noteq> [] \<Longrightarrow> snd (hd ys) \<noteq> 0" using d(5) bs(1) by (auto simp: coal_mid)
    have tr: "trim ?k n ys = place ?k n @ ys" using c(2,4) by (intro trim_place) (simp add: coal_Cons)
    have "alloc_retry (of_nat P) (of_nat ?k) s = Some (t, of_nat x)" by (subst alloc_retry.simps) (simp add: g nz)
    then have e: "OsMemAlloc (of_nat P) (of_nat z) s = Some (u, of_nat (x + 12))"
      using u(1) nz unfolding OsMemAlloc_def al trim_node_def OsMemCreateUsedNode_def by (auto split: bind_splits)
    have "coal (xs @ place ?k n @ ys)" using c by (auto simp: place_def coal_append coal_Cons)
    moreover have "bend ?a (xs @ place ?k n @ ys) = bend ?a bs" by (simp add: bs(1) place_bend)
    ultimately have "pool_inv P u L2 (xs @ place ?k n @ ys)"
      using pool_inv_env [OF same_env_trans [OF t(3) u(3)] v u(2)] tr bs(1) by (simp add: place_def)
    moreover have "hm u w = hm s w" if w: "w \<in> payload ?a bs" for w
    proof -
      have "w \<in> payload ?a (xs @ trim ?k n ys)" using w bs(1) by (auto simp: tr place_def)
      moreover have "w \<notin> links ((frees ?a bs)(x := None))"
        using payload_links [OF okb(1) w] links_mono [of "(frees ?a bs)(x := None)" "frees ?a bs"] by auto
      ultimately show ?thesis using u(4) t(4) by simp
    qed
    ultimately show ?thesis using e bs f(3) same_env_trans [OF t(3) u(3)] unfolding kept_def by blast
  next
    fix j assume f: "OsMemFindNextSuitableBlock (of_nat ?k) s = Some (0, j)" "\<forall>x n. frees ?a bs x = Some n \<longrightarrow> n < ?k"
    then have g: "OsMemFreeNodeGet (of_nat ?k) s = Some (s, 0)" by (simp add: OsMemFreeNodeGet_def)
    have "alloc_retry (of_nat P) (of_nat ?k) s = Some (s, 0)" by (subst alloc_retry.simps) (use d(7) in \<open>simp add: g\<close>)
    then have "OsMemAlloc (of_nat P) (of_nat z) s = Some (s, 0)" unfolding OsMemAlloc_def al by simp
    moreover have "n < ?k" if n: "(n, 0) \<in> set bs" for n
    proof -
      obtain xs ys where bs: "bs = xs @ (n, 0) # ys" using n by (meson split_list)
      then have "frees ?a bs (bend ?a xs) = Some n" using layoutD(1) [OF b(1)] by (simp add: frees_append)
      with f(2) show ?thesis by blast
    qed
    ultimately show ?thesis by blast
  qed
qed

section \<open>Release\<close>

lemma lastb_cases: "lastb p a xs = (if xs = [] then p else bend a (butlast xs))"
proof (cases xs rule: rev_cases)
  case (snoc ys y)
  then show ?thesis by simp
qed simp

text \<open>The checks in front of a release.\<close>

lemma pool_words:
  assumes v: "pool_inv P s L bs"
  shows "OS_MEM_FIRST_NODE (of_nat P) = of_nat (first_node P)" and "OS_MEM_END_NODE (of_nat P) (totalSize s) = of_nat (bend (first_node P) bs)"
    and "of_nat P + totalSize s = (of_nat (bend (first_node P) bs + 12) :: u32)"
    and "OsMemIsLastSentinelNode (of_nat (bend (first_node P) bs)) s"
proof -
  note d = pool_invD [OF v]
  let ?e = "bend (first_node P) bs"
  show "OS_MEM_FIRST_NODE (of_nat P) = of_nat (first_node P)" by (simp add: OS_MEM_FIRST_NODE_def)
  have "totalSize s = of_nat (unat (totalSize s))" by simp
  then show e: "of_nat P + totalSize s = (of_nat (?e + 12) :: u32)" by (metis d(3) of_nat_add)
  then show "OS_MEM_END_NODE (of_nat P) (totalSize s) = of_nat ?e" unfolding OS_MEM_END_NODE_def by simp
  have "mem s (of_nat ?e + 4) = 0" using mem_words(1) [of ?e s] layoutD(3,7) [OF d(8)] by simp
  then show "OsMemIsLastSentinelNode (of_nat ?e) s" by (simp add: OsMemIsLastSentinelNode_def)
qed

lemma in_pool_valid:
  assumes v: "pool_inv P s L bs" and x: "first_node P \<le> x" "x < bend (first_node P) bs + 12"
  shows "OsMemAddrValidCheck (of_nat P) (of_nat x) s = Some True"
proof -
  note d = pool_invD [OF v]
  have e: "bend (first_node P) bs + 20 \<le> 2 ^ 32" by (rule layoutD(3) [OF d(8)])
  have "(of_nat P + 936 :: u32) = of_nat (first_node P)" by simp
  then have "(of_nat P + 936 :: u32) \<le> of_nat x" "(of_nat x :: u32) < of_nat P + totalSize s"
    using x e of_nat_le32 [of "first_node P" x] of_nat_le32 [of "bend (first_node P) bs + 12" x] unfolding pool_words(3) [OF v] by (auto simp: not_le [symmetric])
  then show ?thesis unfolding OsMemAddrValidCheck_def OS_MEM_MIDDLE_ADDR_OPEN_END_def by simp
qed

lemma starts_split: "v \<in> set (starts a bs) \<Longrightarrow> \<exists>xs n f ys. bs = xs @ (n, f) # ys \<and> v = bend a xs"
proof (induction bs arbitrary: a)
  case (Cons b bs)
  show ?case
  proof (cases "v = a")
    case True
    then show ?thesis by (intro exI [of _ "[]"] exI [of _ "fst b"] exI [of _ "snd b"] exI [of _ bs]) simp
  next
    case False
    with Cons have "\<exists>xs n f ys. bs = xs @ (n, f) # ys \<and> v = bend (a + fst b) xs" by simp
    then obtain xs n f ys where "bs = xs @ (n, f) # ys" "v = bend (a + fst b) xs" by blast
    then show ?thesis by (intro exI [of _ "b # xs"] exI [of _ n] exI [of _ f] exI [of _ ys]) simp
  qed
qed simp

lemma prev_node: "xs \<noteq> [] \<Longrightarrow> lastb 0 a xs \<in> nodes a (xs @ ys)"
proof (cases xs rule: rev_cases)
  case (snoc ws w)
  then show ?thesis using mid_node [of a ws "w # ys"] by simp
qed simp

lemma nodes_range: "v \<in> nodes a bs \<Longrightarrow> a \<le> v \<and> (list_all okb bs \<longrightarrow> v \<le> bend a bs)"
  using starts_ge [of v a bs] bend_ge [of a bs] starts_room [of bs v a] by (auto simp: nodes_def)

lemma node_valid:
  assumes v: "pool_inv P s L bs" and x: "x \<in> nodes (first_node P) bs"
  shows "OsMemIsNodeValid (of_nat x) (of_nat (first_node P)) (of_nat (bend (first_node P) bs)) (of_nat P) s = Some True"
proof -
  let ?a = "first_node P" and ?e = "bend (first_node P) bs"
  note d = pool_invD [OF v]
  note l = layoutD [OF d(8)]
  have r: "?a \<le> x" "x \<le> ?e" using nodes_range [OF x] l(1) by auto
  then have mid: "OS_MEM_MIDDLE_ADDR (of_nat ?a) (of_nat x) (of_nat ?e)"
    unfolding OS_MEM_MIDDLE_ADDR_def using of_nat_le32 [of ?a x] of_nat_le32 [of x ?e] l(3) by simp
  have w: "mem s (of_nat x + 4) = hm s (x + 4)" "mem s (of_nat x + 8) = hm s (x + 8)" "mem s (of_nat x) = hm s x"
    using mem_words [of x s] r(2) l(3) by auto
  have mg: "hm s x = OS_MEM_NODE_MAGIC" using x bookD(2) [OF d(4), of x] l(6) by (auto simp: nodes_def)
  show ?thesis
  proof (cases "x = ?e")
    case True
    then show ?thesis unfolding OsMemIsNodeValid_def w using mid mg l(8) sentinel_flags(2) by simp
  next
    case False
    then obtain xs n f ys where bs: "bs = xs @ (n, f) # ys" "x = bend ?a xs" using x starts_split [of x ?a bs] by (auto simp: nodes_def)
    then have "layout s ?a (xs @ (n, f) # ys)" using d(8) by simp
    note m = layout_mid [OF this, folded bs(2)]
    have "OsMemAddrValidCheck (of_nat P) (hm s (x + 4)) s = Some True"
    proof (cases "xs = []")
      case True
      then show ?thesis using m(1) by (simp add: OsMemAddrValidCheck_def)
    next
      case False
      have "lastb 0 ?a xs \<in> nodes ?a bs" using prev_node [OF False, of ?a "(n, f) # ys"] bs(1) by simp
      then show ?thesis unfolding m(1) using nodes_range l(1) by (intro in_pool_valid [OF v]) fastforce+
    qed
    then show ?thesis unfolding OsMemIsNodeValid_def w using mid mg by simp
  qed
qed

lemma next_node:
  assumes "layout s a (xs @ (n, f) # ys)" and "x = bend a xs"
  shows "OS_MEM_NEXT_NODE (of_nat x) s = of_nat (x + n)"
proof -
  note m = layout_mid [OF assms(1), folded assms(2)]
  have "mem s (of_nat x + 8) = of_nat n OR f" using mem_words(2) [of x s] m(2,5,9) by simp
  then show ?thesis unfolding OS_MEM_NEXT_NODE_def using saf_size [OF m(7), of f] flags_low [of f] m(8) by simp
qed

theorem check_used:
  assumes v: "pool_inv P s L bs" and bs: "bs = xs @ (n, f) # ys" and f: "f \<noteq> 0" and x: "x = bend (first_node P) xs"
  shows "OsMemCheckUsedNode (of_nat P) (of_nat x) s = Some LOS_OK"
proof -
  let ?a = "first_node P" and ?e = "bend (first_node P) bs"
  note d = pool_invD [OF v]
  have lx: "layout s ?a (xs @ (n, f) # ys)" using d(8) bs by simp
  note m = layout_mid [OF lx, folded x, folded bs]
  have w: "mem s (of_nat x + 4) = of_nat (lastb 0 ?a xs)" "mem s (of_nat x + 8) = of_nat n OR f"
    using mem_words [of x s] m(1,2,5,9) by simp_all
  have u: "OS_MEM_NODE_GET_USED_FLAG (mem s (of_nat x + 8))" unfolding w using saf_flags(1) [OF m(7,8)] f by simp
  have nx: "OS_MEM_NEXT_NODE (of_nat x) s = of_nat (x + n)" by (rule next_node [OF lx x])
  have np: "OS_MEM_NODE_GET_LAST_FLAG (mem s (of_nat (x + n) + 8)) \<or> mem s (of_nat (x + n) + 4) = of_nat x"
  proof (cases ys)
    case Nil
    then show ?thesis using next_header(1) [OF lx] mem_words(2) [of "x + n" s] m(9) by (simp add: x)
  next
    case (Cons c ys')
    then have "hm s (x + n + 4) = of_nat x" using layoutD(5) [OF lx] by (simp add: chain_append x)
    then show ?thesis using mem_words(1) [of "x + n" s] m(9) by simp
  qed
  have pv: "OsMemIsNodeValid (of_nat (lastb 0 ?a xs)) (of_nat ?a) (of_nat ?e) (of_nat P) s = Some True \<and>
      OS_MEM_NEXT_NODE (of_nat (lastb 0 ?a xs)) s = of_nat x" if "of_nat x \<noteq> (of_nat ?a :: u32)"
  proof -
    have "xs \<noteq> []" using that x by auto
    then obtain ws c where xs: "xs = ws @ [c]" by (metis rev_exhaust)
    have "lastb 0 ?a xs = bend ?a ws" using xs by simp
    moreover have "layout s ?a (ws @ (fst c, snd c) # (n, f) # ys)" using lx xs by simp
    from next_node [OF this refl] have "OS_MEM_NEXT_NODE (of_nat (bend ?a ws)) s = of_nat x" using xs x by simp
    ultimately show ?thesis using node_valid [OF v prev_node [OF \<open>xs \<noteq> []\<close>, of ?a "(n, f) # ys", folded bs]] by simp
  qed
  have "MemCheckUsedNode (of_nat P) (of_nat x) (of_nat ?a) (of_nat ?e) s = Some True"
    unfolding MemCheckUsedNode_def node_valid [OF v m(3)] using u nx np pv node_valid [OF v m(4)] by (auto simp: Let_def w(1))
  then show ?thesis unfolding OsMemCheckUsedNode_def pool_words(1,2) [OF v] by (subst check_used_from.simps) simp
qed

text \<open>A node without the used flag is always refused.\<close>

theorem check_refused:
  assumes v: "pool_inv P s L bs" and u: "\<not> OS_MEM_NODE_GET_USED_FLAG (mem s (node + 8))"
  shows "OsMemCheckUsedNode (of_nat P) node s = Some LOS_NOK"
proof -
  let ?a = "first_node P" and ?e = "bend (first_node P) bs"
  have "addr_valid_from p (of_nat ?e) s = Some False" for p by (subst addr_valid_from.simps) (simp add: pool_words(4) [OF v])
  then have "\<exists>c. OsMemAddrValidCheck (of_nat P) p s = Some c" for p
    unfolding OsMemAddrValidCheck_def pool_words(2) [OF v] by auto
  then have "\<exists>c. OsMemIsNodeValid node (of_nat ?a) (of_nat ?e) (of_nat P) s = Some c"
    unfolding OsMemIsNodeValid_def using u by auto
  then obtain c where "OsMemIsNodeValid node (of_nat ?a) (of_nat ?e) (of_nat P) s = Some c" by blast
  then have "MemCheckUsedNode (of_nat P) node (of_nat ?a) (of_nat ?e) s = Some False" unfolding MemCheckUsedNode_def using u by (cases c) auto
  then show ?thesis unfolding OsMemCheckUsedNode_def pool_words(1,2) [OF v]
    by (subst check_used_from.simps) (simp add: pool_words(4) [OF v])
qed

text \<open>A released block joins the free neighbours on both sides.\<close>

definition free_blocks :: "block list \<Rightarrow> nat \<Rightarrow> block list \<Rightarrow> block list" where
  "free_blocks xs n ys =
    (let (ws, p) = (if xs \<noteq> [] \<and> snd (last xs) = 0 then (butlast xs, fst (last xs) + n) else (xs, n));
         (r, zs) = next_free p ys
     in ws @ (r, 0) # zs)"

lemma next_free_bend: "next_free p ys = (r, zs) \<Longrightarrow> bend (a + r) zs = bend (a + p) ys"
  by (cases "(p, ys)" rule: next_free.cases) (auto simp: add.assoc split: if_splits)

lemma free_blocks_bend: "bend a (free_blocks xs n ys) = bend a (xs @ (n, f) # ys)"
proof (cases xs rule: rev_cases)
  case Nil
  then show ?thesis using next_free_bend [of n ys _ _ a] by (auto simp: free_blocks_def split: prod.split)
next
  case (snoc ws w)
  then show ?thesis using next_free_bend [of "fst w + n" ys _ _ "bend a ws"] next_free_bend [of n ys _ _ "bend a ws + fst w"]
    by (auto simp: free_blocks_def add.assoc split: prod.split)
qed

lemma next_free_coal: "next_free p ys = (r, zs) \<Longrightarrow> coal ys \<Longrightarrow> coal zs \<and> (zs \<noteq> [] \<longrightarrow> snd (hd zs) \<noteq> 0)"
  by (cases "(p, ys)" rule: next_free.cases) (auto simp: coal_Cons split: if_splits)

lemma free_blocks_coal: "coal (xs @ (n, f) # ys) \<Longrightarrow> coal (free_blocks xs n ys)"
proof -
  assume c: "coal (xs @ (n, f) # ys)"
  then have c': "coal xs" "coal ys" by (auto simp: coal_mid)
  have j: "coal (ws @ (r, 0) # zs)" if "next_free p ys = (r, zs)" "coal ws" "ws \<noteq> [] \<longrightarrow> snd (last ws) \<noteq> 0" for ws p r zs
    using next_free_coal [OF that(1) c'(2)] that(2,3) by (auto simp: coal_mid)
  have "coal (butlast xs) \<and> (butlast xs \<noteq> [] \<longrightarrow> snd (last (butlast xs)) \<noteq> 0)" if "xs \<noteq> []" "snd (last xs) = 0"
  proof (cases xs rule: rev_cases)
    case (snoc ws w)
    then show ?thesis using c'(1) that by (auto simp: coal_append)
  qed simp
  then show ?thesis using c'(1) j [of n _ _ xs] j [of "fst (last xs) + n" _ _ "butlast xs"] unfolding free_blocks_def
    by (cases "xs \<noteq> [] \<and> snd (last xs) = 0") (auto split: prod.split)
qed

text \<open>The part of \<open>OsMemFree\<close> behind the checks.\<close>

lemma free_tail:
  assumes b: "detached s a L xs n ys" and x: "x = bend a xs" and at: "poolAttr s AND OS_MEM_POOL_EXPAND_ENABLE = 0" and r: "next_free n ys = (r, zs)"
  shows "\<exists>t u L'. (if OS_MEM_NEXT_NODE (of_nat x) s \<noteq> 0 \<and> \<not> OS_MEM_NODE_GET_USED_FLAG (mem s (OS_MEM_NEXT_NODE (of_nat x) s + 8))
      then map_option (OsMemMergeNode (OS_MEM_NEXT_NODE (of_nat x) s)) (OsMemFreeNodeDelete (OS_MEM_NEXT_NODE (of_nat x) s) s) else Some s) = Some t \<and>
    poolAttr t AND OS_MEM_POOL_EXPAND_ENABLE = 0 \<and> OsMemFreeNodeAdd (of_nat x) t = Some u \<and> heap_ok u a L' (xs @ (r, 0) # zs) \<and> same_env s u \<and>
    (\<forall>w \<in> payload a (xs @ (n, OS_MEM_NODE_USED_FLAG) # ys). w \<noteq> x + 12 \<and> w \<noteq> x + 16 \<longrightarrow> hm u w = hm s w)"
proof -
  let ?U = OS_MEM_NODE_USED_FLAG
  note d = bookD [OF b]
  note m = layout_mid [OF d(1), folded x]
  have ok: "list_all okb (xs @ (n, 0) # ys)" "list_all okb xs" "0 < n" using layoutD(1) [OF d(1)] by (auto simp: okb_def)
  have nx: "OS_MEM_NEXT_NODE (of_nat x) s = of_nat (x + n)" by (rule next_node [OF d(1) x])
  have nz: "(of_nat (x + n) :: u32) \<noteq> 0" using of_nat32_0 [of "x + n"] m(9,10) by simp
  have us: "OS_MEM_NODE_GET_USED_FLAG (mem s (of_nat (x + n) + 8)) \<longleftrightarrow> ys = [] \<or> snd (hd ys) \<noteq> 0"
    using next_header(2) [OF d(1)] mem_words(2) [of "x + n" s] m(9) by (simp add: x)
  have fin: "\<exists>u L'. OsMemFreeNodeAdd (of_nat x) t = Some u \<and> heap_ok u a L' (xs @ (r, 0) # zs) \<and> same_env t u \<and>
      (\<forall>w \<in> payload a (xs @ (r, ?U) # zs). w \<noteq> x + 12 \<and> w \<noteq> x + 16 \<longrightarrow> hm u w = hm t w)" if t: "detached t a L1 xs r zs" for t L1
  proof -
    have ok': "list_all okb (xs @ (r, ?U) # zs)" "0 < r" using layoutD(1) [OF bookD(1) [OF t]] by (auto simp: okb_def used_flag)
    have f: "frees a (xs @ (r, 0) # zs) = (frees a (xs @ (r, ?U) # zs))(x \<mapsto> r)" "frees a (xs @ (r, ?U) # zs) x = None"
      using frees_flag [OF ok(2) ok'(2), of a 0 zs ?U] frees_flag [OF ok(2) ok'(2), of a ?U zs 0] by (simp_all add: x)
    from add_step [OF t _ f(2), of r] obtain u L' where u: "OsMemFreeNodeAdd (of_nat x) t = Some u" "heap_ok u a L' (xs @ (r, 0) # zs)" "same_env t u"
      "\<And>w. w \<notin> links (frees a (xs @ (r, 0) # zs)) \<Longrightarrow> w \<noteq> x \<Longrightarrow> hm u w = hm t w" unfolding f(1) by auto
    have "w \<notin> links (frees a (xs @ (r, 0) # zs))" "w \<noteq> x" if "w \<in> payload a (xs @ (r, ?U) # zs)" "w \<noteq> x + 12 \<and> w \<noteq> x + 16" for w
      using payload_links [OF ok'(1) that(1)] payload_header [OF ok'(1) that(1) mid_node [of a xs], of 0] that(2) unfolding f(1) by (auto simp: x links_def)
    with u show ?thesis by blast
  qed
  show ?thesis
  proof (cases "ys = [] \<or> snd (hd ys) \<noteq> 0")
    case True
    then have "r = n" "zs = ys" using r by (cases ys; auto)+
    with fin [of s L] b True at show ?thesis unfolding nx us by simp
  next
    case False
    then obtain m' ys0 where ys: "ys = (m', 0) # ys0" by (cases ys) (auto simp: prod_eq_iff)
    then have rz: "r = n + m'" "zs = ys0" using r by auto
    from join_next [OF b [unfolded ys] x] obtain t L1 where t: "OsMemFreeNodeDelete (of_nat (x + n)) s = Some t"
      "detached (OsMemMergeNode (of_nat (x + n)) t) a L1 xs (n + m') ys0" "same_env s (OsMemMergeNode (of_nat (x + n)) t)"
      "\<And>w. w \<in> payload a (xs @ (n, ?U) # (m', 0) # ys0) \<Longrightarrow> hm (OsMemMergeNode (of_nat (x + n)) t) w = hm s w" by blast
    let ?t = "OsMemMergeNode (of_nat (x + n)) t"
    from fin [of ?t L1] t(2) rz obtain u L' where u: "OsMemFreeNodeAdd (of_nat x) ?t = Some u" "heap_ok u a L' (xs @ (r, 0) # zs)" "same_env ?t u"
      "\<And>w. w \<in> payload a (xs @ (r, ?U) # zs) \<Longrightarrow> w \<noteq> x + 12 \<and> w \<noteq> x + 16 \<Longrightarrow> hm u w = hm ?t w" by blast
    have "poolAttr ?t AND OS_MEM_POOL_EXPAND_ENABLE = 0" using at t(3) by (simp add: same_env_def)
    moreover have "hm u w = hm s w" if "w \<in> payload a (xs @ (n, ?U) # ys)" "w \<noteq> x + 12 \<and> w \<noteq> x + 16" for w
    proof -
      have "w \<in> payload a (xs @ (r, ?U) # zs)" using that(1) by (auto simp: rz ys add.assoc)
      then show ?thesis using that u(4) [of w] t(4) [of w] ys by simp
    qed
    moreover have "same_env s u" by (rule same_env_trans [OF t(3) u(3)])
    ultimately show ?thesis unfolding nx using False us nz t(1) u(1,2) by auto
  qed
qed

lemma free_code:
  assumes "OsMemCheckUsedNode P x s = Some LOS_OK" and s1: "wr (x + 8) (OS_MEM_NODE_GET_SIZE (mem s (x + 8))) s = s1"
    and prev: "(if mem s1 (x + 4) \<noteq> 0 \<and> \<not> OS_MEM_NODE_GET_USED_FLAG (mem s1 (mem s1 (x + 4) + 8))
      then map_option (\<lambda>t. (OsMemMergeNode x t, mem s1 (x + 4))) (OsMemFreeNodeDelete (mem s1 (x + 4)) s1) else Some (s1, x)) = Some (s2, y)"
    and nx: "(if OS_MEM_NEXT_NODE y s2 \<noteq> 0 \<and> \<not> OS_MEM_NODE_GET_USED_FLAG (mem s2 (OS_MEM_NEXT_NODE y s2 + 8))
      then map_option (OsMemMergeNode (OS_MEM_NEXT_NODE y s2)) (OsMemFreeNodeDelete (OS_MEM_NEXT_NODE y s2) s2) else Some s2) = Some s3"
    and "poolAttr s3 AND OS_MEM_POOL_EXPAND_ENABLE = 0" and "OsMemFreeNodeAdd y s3 = Some u"
  shows "OsMemFree P x s = Some (u, LOS_OK)"
  unfolding OsMemFree_def assms(1) Let_def s1 by (simp add: prev [simplified] nx [simplified] assms(5,6))

theorem OsMemFree_spec:
  assumes v: "pool_inv P s L bs" and bs: "bs = xs @ (n, f) # ys" and f: "f \<noteq> 0" and x: "x = bend (first_node P) xs"
  shows "\<exists>t L' j. OsMemFree (of_nat P) (of_nat x) s = Some (t, LOS_OK) \<and> pool_inv P t L' (free_blocks xs n ys) \<and> kept P (xs @ (n, 0) # ys) s t \<and>
    hm t (x + 8) = of_nat j \<and> j < 2 ^ 29"
proof -
  let ?a = "first_node P" and ?U = OS_MEM_NODE_USED_FLAG
  note d = pool_invD [OF v]
  have lx: "layout s ?a (xs @ (n, f) # ys)" using d(8) bs by simp
  note m = layout_mid [OF lx, folded x]
  have ok: "list_all okb xs" "0 < n" "list_all okb (xs @ (n, ?U) # ys)" using layoutD(1) [OF lx] by (auto simp: okb_def used_flag)
  have w: "mem s (of_nat x + 8) = of_nat n OR f" "OS_MEM_NODE_GET_SIZE (mem s (of_nat x + 8)) = of_nat n OR 0"
    using mem_words(2) [of x s] m(2,5,9) saf_size [OF m(7), of f] flags_low [of f] m(8) by simp_all
  define s1 where "s1 = wr (of_nat x + 8) (of_nat n OR 0) s"
  have "frees ?a (xs @ (n, ?U) # ys) x = None" by (subst frees_flag [OF ok(1,2), of ?a ?U ys ?U]) (simp add: x)
  moreover from this have "frees ?a bs = frees ?a (xs @ (n, ?U) # ys)"
    using frees_flag [OF ok(1,2), of ?a f ys ?U] f by (simp add: bs x fun_upd_idem)
  ultimately have fr: "frees ?a bs = frees ?a (xs @ (n, ?U) # ys)" "frees ?a bs x = None" by simp_all
  have "book s ?a L (xs @ (n, f) # ys) (frees ?a bs) {}" using d(4) bs by simp
  note fs = flag_step [OF this x fr(2) used_flag(3), folded s1_def]
  have dt: "detached s1 ?a L xs n ys" using fs(1) fr(1) by simp
  have h1: "hm s1 (x + 8) = of_nat n" "hm s1 (x + 4) = of_nat (lastb 0 ?a xs)"
    using layout_mid(1,2) [OF bookD(1) [OF dt]] by (simp_all add: x)
  have at: "poolAttr s1 AND OS_MEM_POOL_EXPAND_ENABLE = 0" using d(7) fs(2) by (simp add: same_env_def)
  have pp: "mem s1 (of_nat x + 4) = of_nat (lastb 0 ?a xs)" using mem_words(1) [of x s1] m(5,9) h1 by simp
  have pay: "hm s1 z = hm s z" if "z \<in> payload ?a (xs @ (n, ?U) # ys)" for z
    using fs(3) payload_header [OF ok(3) that mid_node [of ?a xs], of 8] by (simp add: x)
  have env: "pool_inv P u L' (free_blocks xs n ys)" if "heap_ok u ?a L' (free_blocks xs n ys)" "same_env s u" for u L'
    using pool_inv_env [OF that(2) v that(1)] free_blocks_coal [of xs n f ys] free_blocks_bend [of ?a xs n ys f] d(5) bs
    by (auto simp: free_blocks_def Let_def split: prod.splits)
  have chk: "OsMemCheckUsedNode (of_nat P) (of_nat x) s = Some LOS_OK" by (rule check_used [OF v bs f x])
  show ?thesis
  proof (cases "xs \<noteq> [] \<and> snd (last xs) = 0")
    case False
    obtain r zs where r: "next_free n ys = (r, zs)" by (cases "next_free n ys")
    then have fb: "free_blocks xs n ys = xs @ (r, 0) # zs" using False by (auto simp: free_blocks_def)
    from free_tail [OF dt x at r] obtain t u L' where t:
      "(if OS_MEM_NEXT_NODE (of_nat x) s1 \<noteq> 0 \<and> \<not> OS_MEM_NODE_GET_USED_FLAG (mem s1 (OS_MEM_NEXT_NODE (of_nat x) s1 + 8))
        then map_option (OsMemMergeNode (OS_MEM_NEXT_NODE (of_nat x) s1)) (OsMemFreeNodeDelete (OS_MEM_NEXT_NODE (of_nat x) s1) s1) else Some s1) = Some t"
      "poolAttr t AND OS_MEM_POOL_EXPAND_ENABLE = 0" "OsMemFreeNodeAdd (of_nat x) t = Some u" "heap_ok u ?a L' (xs @ (r, 0) # zs)" "same_env s1 u"
      "\<And>w. w \<in> payload ?a (xs @ (n, ?U) # ys) \<Longrightarrow> w \<noteq> x + 12 \<and> w \<noteq> x + 16 \<Longrightarrow> hm u w = hm s1 w" by blast
    have pu: "lastb 0 ?a xs = 0 \<or> OS_MEM_NODE_GET_USED_FLAG (mem s1 (of_nat (lastb 0 ?a xs) + 8))"
    proof (cases xs rule: rev_cases)
      case (snoc ws c)
      have l1: "layout s1 ?a (ws @ (fst c, snd c) # (n, 0) # ys)" using bookD(1) [OF dt] snoc by simp
      note mc = layout_mid [OF l1]
      have "snd c \<noteq> 0" using False snoc by simp
      then show ?thesis using mem_words(2) [of "bend ?a ws" s1] mc(2,5,9) saf_flags(1) [OF mc(7,8)] snoc by simp
    qed simp
    have "OsMemFree (of_nat P) (of_nat x) s = Some (u, LOS_OK)"
    proof (rule free_code [OF chk _ _ t(1-3)])
      show "wr (of_nat x + 8) (OS_MEM_NODE_GET_SIZE (mem s (of_nat x + 8))) s = s1" by (simp only: s1_def w(2))
    qed (use pu in \<open>auto simp: pp\<close>)
    moreover have "hm u (x + 8) = of_nat r \<and> r < 2 ^ 29" using layout_mid(2,7) [OF bookD(1) [OF t(4)]] by (simp add: x)
    moreover have "kept P (xs @ (n, 0) # ys) s u" unfolding kept_def
    proof
      show "same_env s u" by (rule same_env_trans [OF fs(2) t(5)])
      show "\<forall>w \<in> payload ?a (xs @ (n, 0) # ys). hm u w = hm s w"
      proof
        fix w assume w: "w \<in> payload ?a (xs @ (n, 0) # ys)"
        have "frees ?a (xs @ (n, 0) # ys) x = Some n" using ok(1) by (simp add: frees_append x)
        moreover have "list_all okb (xs @ (n, 0) # ys)" using ok(3) by (simp add: okb_def used_flag)
        ultimately have "w \<noteq> x + i" if "i < n" for i using payload_free w that by blast
        from this [of 12] this [of 16] m(5) show "hm u w = hm s w" using t(6) [of w] pay [of w] w by auto
      qed
    qed
    ultimately show ?thesis using env t(4) fb same_env_trans [OF fs(2) t(5)] by metis
  next
    case True
    then obtain ws p where xs: "xs = ws @ [(p, 0)]" by (cases xs rule: rev_cases) (auto simp: prod_eq_iff)
    define y where "y = bend ?a ws"
    have xy: "x = y + p" using x xs by (simp add: y_def)
    obtain r zs where r: "next_free (p + n) ys = (r, zs)" by (cases "next_free (p + n) ys")
    then have fb: "free_blocks xs n ys = ws @ (r, 0) # zs" using xs by (simp add: free_blocks_def)
    from join_prev [OF dt [unfolded xs] y_def] obtain t1 L1 where t1: "OsMemFreeNodeDelete (of_nat y) s1 = Some t1"
      "detached (OsMemMergeNode (of_nat (y + p)) t1) ?a L1 ws (p + n) ys" "same_env s1 (OsMemMergeNode (of_nat (y + p)) t1)"
      "hm (OsMemMergeNode (of_nat (y + p)) t1) (y + p + 8) = hm s1 (y + p + 8)"
      "\<And>w. w \<in> payload ?a (ws @ (p, 0) # (n, ?U) # ys) \<Longrightarrow> hm (OsMemMergeNode (of_nat (y + p)) t1) w = hm s1 w" by blast
    let ?t = "OsMemMergeNode (of_nat (y + p)) t1"
    have "poolAttr ?t AND OS_MEM_POOL_EXPAND_ENABLE = 0" using at t1(3) by (simp add: same_env_def)
    from free_tail [OF t1(2) y_def this r] obtain t u L' where t:
      "(if OS_MEM_NEXT_NODE (of_nat y) ?t \<noteq> 0 \<and> \<not> OS_MEM_NODE_GET_USED_FLAG (mem ?t (OS_MEM_NEXT_NODE (of_nat y) ?t + 8))
        then map_option (OsMemMergeNode (OS_MEM_NEXT_NODE (of_nat y) ?t)) (OsMemFreeNodeDelete (OS_MEM_NEXT_NODE (of_nat y) ?t) ?t) else Some ?t) = Some t"
      "poolAttr t AND OS_MEM_POOL_EXPAND_ENABLE = 0" "OsMemFreeNodeAdd (of_nat y) t = Some u" "heap_ok u ?a L' (ws @ (r, 0) # zs)" "same_env ?t u"
      "\<And>w. w \<in> payload ?a (ws @ (p + n, ?U) # ys) \<Longrightarrow> w \<noteq> y + 12 \<and> w \<noteq> y + 16 \<Longrightarrow> hm u w = hm ?t w" by blast
    have l1: "layout s1 ?a (ws @ (p, 0) # (n, 0) # ys)" using bookD(1) [OF dt] xs by simp
    note mp = layout_mid [OF l1, folded y_def]
    have pz: "(of_nat y :: u32) \<noteq> 0" using of_nat32_0 [of y] mp(9,10) by simp
    have pf: "\<not> OS_MEM_NODE_GET_USED_FLAG (mem s1 (of_nat y + 8))"
      using mem_words(2) [of y s1] mp(2,5,9) saf_flags(1) [OF mp(7,8)] by simp
    have lb: "lastb 0 ?a xs = y" using xs by (simp add: y_def)
    have "OsMemFree (of_nat P) (of_nat x) s = Some (u, LOS_OK)"
    proof (rule free_code [OF chk _ _ t(1-3)])
      show "wr (of_nat x + 8) (OS_MEM_NODE_GET_SIZE (mem s (of_nat x + 8))) s = s1" by (simp only: s1_def w(2))
    qed (use pz pf t1(1) in \<open>simp add: pp [unfolded lb, unfolded xy] xy del: of_nat_add\<close>)
    moreover have "hm u (x + 8) = of_nat n"
    proof -
      have "x + 8 \<in> payload ?a (ws @ (p + n, ?U) # ys)" using mp(5) m(5) by (auto simp: xy y_def used_flag)
      then show ?thesis using t(6) [of "x + 8"] t1(4) h1 mp(5) by (simp add: xy)
    qed
    moreover have "kept P (xs @ (n, 0) # ys) s u" unfolding kept_def
    proof
      show "same_env s u" using fs(2) t1(3) t(5) same_env_trans by blast
      show "\<forall>w \<in> payload ?a (xs @ (n, 0) # ys). hm u w = hm s w"
      proof
        fix w assume w: "w \<in> payload ?a (xs @ (n, 0) # ys)"
        have okb: "list_all okb (ws @ (p, 0) # (n, 0) # ys)" by (rule layoutD(1) [OF l1])
        then have "frees ?a (ws @ (p, 0) # (n, 0) # ys) y = Some p" by (simp add: frees_append y_def okb_def)
        from payload_free [OF okb _ this] w have "w \<noteq> y + i" if "i < p" for i using that xs by simp
        from this [of 12] this [of 16] mp(5) have "w \<noteq> y + 12 \<and> w \<noteq> y + 16" by simp
        moreover have "w \<in> payload ?a (ws @ (p + n, ?U) # ys)" using w xs by (auto simp: add.assoc)
        ultimately have "hm u w = hm ?t w" using t(6) by blast
        also have "\<dots> = hm s1 w" using w xs by (intro t1(5)) auto
        also have "\<dots> = hm s w" using w by (intro pay) auto
        finally show "hm u w = hm s w" .
      qed
    qed
    moreover have "same_env s u" using fs(2) t1(3) t(5) same_env_trans by blast
    ultimately show ?thesis using env t(4) fb m(7) by metis
  qed
qed

end
