(* ===== verification/LosTlsfCalls.thy ===== *)
theory LosTlsfCalls
  imports LosTlsfHeap
begin

text \<open>
  The interface of the heap: initialisation, allocation with and without alignment, release and reallocation, described by the blocks in use
  (address to size and flags).
\<close>

section \<open>Blocks in use\<close>

primrec allocs :: "nat \<Rightarrow> block list \<Rightarrow> (nat \<rightharpoonup> block)" where
  "allocs a [] = Map.empty"
| "allocs a (b # bs) = (allocs (a + fst b) bs)(a := if snd b = 0 then None else Some b)"

lemma allocs_dom: "dom (allocs a bs) \<subseteq> set (starts a bs)"
  by (induction bs arbitrary: a) (auto split: if_splits)

lemma allocs_None: "x \<notin> set (starts a bs) \<Longrightarrow> allocs a bs x = None"
  using allocs_dom [of a bs] by auto

lemma allocs_append: "list_all okb xs \<Longrightarrow> allocs a (xs @ ys) x = (if x < bend a xs then allocs a xs x else allocs (bend a xs) ys x)"
proof (induction xs arbitrary: a)
  case Nil
  have "x < a \<Longrightarrow> allocs a ys x = None" using allocs_None starts_ge not_less by blast
  then show ?case by simp
next
  case (Cons b xs)
  then have "20 \<le> fst b" by (simp add: okb_def)
  then have "a < bend (a + fst b) xs" using bend_ge [of "a + fst b" xs] by simp
  then show ?case using Cons by simp
qed

lemma allocs_in: "allocs a bs x = Some (n, f) \<Longrightarrow> f \<noteq> 0 \<and> (\<exists>xs ys. bs = xs @ (n, f) # ys \<and> x = bend a xs)"
proof (induction bs arbitrary: a)
  case (Cons b bs)
  show ?case
  proof (cases "x = a")
    case True
    with Cons.prems have "b = (n, f)" "f \<noteq> 0" by (auto split: if_splits)
    with True show ?thesis by (intro conjI exI [of _ "[]"] exI [of _ bs]) simp_all
  next
    case False
    with Cons have "f \<noteq> 0 \<and> (\<exists>xs ys. bs = xs @ (n, f) # ys \<and> x = bend (a + fst b) xs)" by simp
    then obtain xs ys where "f \<noteq> 0" "bs = xs @ (n, f) # ys" "x = bend (a + fst b) xs" by blast
    then show ?thesis by (intro conjI exI [of _ "b # xs"] exI [of _ ys]) simp_all
  qed
qed simp

text \<open>Replacing some blocks by others that fill the same space.\<close>

lemma allocs_change:
  assumes "list_all okb xs" and "bend x ms' = bend x ms" and "x = bend a xs" and "list_all okb ms" and "list_all okb ms'"
  shows "allocs a (xs @ ms' @ ys) v = (if x \<le> v \<and> v < bend x ms then allocs x ms' v else allocs a (xs @ ms @ ys) v)"
  using assms by (simp add: allocs_append)

lemma allocs_flag:
  assumes "list_all okb xs"
  shows "allocs a (xs @ (n, f) # ys) = (allocs a (xs @ (n, g) # ys))(bend a xs := if f = 0 then None else Some (n, f))"
  using assms by (auto simp: fun_eq_iff allocs_append)

lemma allocs_block_apart:
  assumes ok: "list_all okb bs" and x: "allocs a bs x = Some (n, f)" and y: "allocs a bs y = Some (m, g)" and ne: "x \<noteq> y"
  shows "x + n \<le> y \<or> y + m \<le> x"
  using assms(1-3)
proof (induction bs arbitrary: a)
  case (Cons b bs)
  have far: "a + fst b \<le> v" if "allocs (a + fst b) bs v = Some c" for v c
    using that allocs_None [of v "a + fst b" bs] starts_ge [of v "a + fst b" bs] by fastforce
  consider "x = a" "y \<noteq> a" | "x \<noteq> a" "y = a" | "x \<noteq> a" "y \<noteq> a" using ne by blast
  then show ?case
  proof cases
    case 1
    then have "n = fst b" "allocs (a + fst b) bs y = Some (m, g)" using Cons.prems by (auto split: if_splits)
    with 1 far show ?thesis by auto
  next
    case 2
    then have "m = fst b" "allocs (a + fst b) bs x = Some (n, f)" using Cons.prems by (auto split: if_splits)
    with 2 far show ?thesis by auto
  next
    case 3
    with Cons show ?thesis by simp
  qed
qed simp

lemma allocs_payload: "allocs a bs x = Some (n, f) \<Longrightarrow> {x + 12 ..< x + n} \<subseteq> payload a bs"
  using allocs_in [of a bs x n f] by fastforce

lemma payload_allocs: "list_all okb bs \<Longrightarrow> w \<in> payload a bs \<longleftrightarrow> (\<exists>x n f. allocs a bs x = Some (n, f) \<and> x + 12 \<le> w \<and> w < x + n)"
proof (induction bs arbitrary: a)
  case (Cons b bs)
  obtain n f where b: "b = (n, f)" by (cases b)
  have far: "a + n \<le> v" if "allocs (a + n) bs v = Some c" for v c
    using that allocs_None [of v "a + n" bs] starts_ge [of v "a + n" bs] by fastforce
  have n: "0 < n" using Cons.prems b by (simp add: okb_def)
  have ih: "w \<in> payload (a + n) bs \<longleftrightarrow> (\<exists>x k g. allocs (a + n) bs x = Some (k, g) \<and> x + 12 \<le> w \<and> w < x + k)" using Cons by simp
  have e: "allocs a (b # bs) x = Some (k, g) \<longleftrightarrow> x = a \<and> f \<noteq> 0 \<and> k = n \<and> g = f \<or> x \<noteq> a \<and> allocs (a + n) bs x = Some (k, g)" for x k g by (auto simp: b)
  have ne: "allocs (a + n) bs a \<noteq> Some c" for c using far [of a c] n by auto
  have "w \<in> payload a (b # bs) \<longleftrightarrow> f \<noteq> 0 \<and> a + 12 \<le> w \<and> w < a + n \<or> w \<in> payload (a + n) bs" by (simp add: b)
  moreover have "(\<exists>x k g. allocs a (b # bs) x = Some (k, g) \<and> x + 12 \<le> w \<and> w < x + k) \<longleftrightarrow>
    f \<noteq> 0 \<and> a + 12 \<le> w \<and> w < a + n \<or> (\<exists>x k g. allocs (a + n) bs x = Some (k, g) \<and> x + 12 \<le> w \<and> w < x + k)" (is "?l \<longleftrightarrow> ?r")
  proof
    show "?l \<Longrightarrow> ?r" unfolding e by (elim exE conjE disjE) auto
    have x: "x \<noteq> a" if "allocs (a + n) bs x = Some (k, g)" for x k g using ne that by auto
    show "?r \<Longrightarrow> ?l"
    proof (elim disjE exE conjE)
      fix x k g assume "allocs (a + n) bs x = Some (k, g)" "x + 12 \<le> w" "w < x + k"
      moreover from this x have "allocs a (b # bs) x = Some (k, g)" unfolding e by blast
      ultimately show ?l by blast
    qed (auto simp: b)
  qed
  ultimately show ?case using ih by simp
qed simp

section \<open>Allocation\<close>

definition pool_at :: "nat \<Rightarrow> tlsf \<Rightarrow> block list \<Rightarrow> bool" where
  "pool_at P s bs \<longleftrightarrow> (\<exists>L. pool_inv P s L bs)"

abbreviation (input) in_use :: "nat \<Rightarrow> block list \<Rightarrow> (nat \<rightharpoonup> block)" where "in_use P bs \<equiv> allocs (first_node P) bs"

lemma pool_at_layout: "pool_at P s bs \<Longrightarrow> layout s (first_node P) bs"
  unfolding pool_at_def using pool_invD(8) by blast

text \<open>A block of size \<open>m\<close> at \<open>x\<close> comes into use.\<close>

definition comes :: "nat \<Rightarrow> block list \<Rightarrow> block list \<Rightarrow> nat \<Rightarrow> nat \<Rightarrow> u32 \<Rightarrow> bool" where
  "comes P bs bs' x m f \<longleftrightarrow> in_use P bs x = None \<and> in_use P bs' = (in_use P bs)(x \<mapsto> (m, f)) \<and> {x ..< x + m} \<inter> payload (first_node P) bs = {}"

lemma free_payload:
  assumes "list_all okb (xs @ (n, 0) # ys)" and "x = bend a xs"
  shows "{x ..< x + n} \<inter> payload a (xs @ (n, 0) # ys) = {}"
proof -
  have "frees a (xs @ (n, 0) # ys) x = Some n" using assms by (simp add: frees_append)
  then have "w \<noteq> x + i" if "w \<in> payload a (xs @ (n, 0) # ys)" "i < n" for w i using payload_free [OF assms(1) that(1)] that(2) by blast
  then show ?thesis by (metis atLeastLessThan_iff disjoint_iff le_add_diff_inverse add_less_cancel_left)
qed

lemma place_comes:
  assumes ok: "list_all okb (xs @ (n, 0) # ys)" and k: "20 \<le> k" "4 dvd k" "k \<le> n" and bs: "bs = xs @ (n, 0) # ys" and x: "x = bend (first_node P) xs"
  shows "\<exists>m. k \<le> m \<and> m \<le> n \<and> comes P bs (xs @ place k n @ ys) x m OS_MEM_NODE_USED_FLAG"
proof -
  let ?U = OS_MEM_NODE_USED_FLAG and ?m = "if k + 20 \<le> n then k else n"
  have okp: "list_all okb (place k n)" using ok k by (auto simp: place_def okb_def block_flags_def dvd_diff_nat)
  have p: "allocs x (place k n) v = (if v = x then Some (?m, ?U) else None)" if "v < x + n" for v
    using k that by (auto simp: place_def)
  have "in_use P (xs @ place k n @ ys) v = ((in_use P bs)(x \<mapsto> (?m, ?U))) v" for v
  proof -
    have "in_use P (xs @ place k n @ ys) v = (if x \<le> v \<and> v < x + n then allocs x (place k n) v else in_use P (xs @ [(n, 0)] @ ys) v)"
      using allocs_change [of xs x "place k n" "[(n, 0)]" "first_node P" ys v] ok okp x by (simp add: place_bend)
    moreover have "in_use P bs v = None" if "x \<le> v" "v < x + n"
      using that ok allocs_None [of v "x + n" ys] starts_ge [of v "x + n" ys] by (auto simp: bs allocs_append x)
    moreover have "x < x + n" using k by simp
    ultimately show ?thesis using p [of v] by (cases "x \<le> v \<and> v < x + n") (auto simp: bs)
  qed
  then have "in_use P (xs @ place k n @ ys) = (in_use P bs)(x \<mapsto> (?m, ?U))" by blast
  moreover have "in_use P bs x = None" using ok allocs_None [of x "x + n" ys] starts_ge [of x "x + n" ys] k by (auto simp: bs allocs_append x)
  moreover have "{x ..< x + ?m} \<subseteq> {x ..< x + n}" using k(3) by auto
  then have "{x ..< x + ?m} \<inter> payload (first_node P) bs = {}" using free_payload [OF ok x] unfolding bs by blast
  ultimately show ?thesis using k(3) unfolding comes_def by (intro exI [of _ ?m]) auto
qed

theorem OsMemAlloc_call:
  assumes v: "pool_at P s bs" and z: "8 \<le> z" "z + 16 \<le> 2 ^ 29"
  shows "(\<exists>x m t bs'. OsMemAlloc (of_nat P) (of_nat z) s = Some (t, of_nat (x + 12)) \<and> pool_at P t bs' \<and> aligned4 z \<le> m \<and>
      comes P bs bs' x m OS_MEM_NODE_USED_FLAG \<and> kept P bs s t) \<or>
    OsMemAlloc (of_nat P) (of_nat z) s = Some (s, 0) \<and> (\<forall>n. (n, 0) \<in> set bs \<longrightarrow> n < aligned4 z)"
proof -
  from v obtain L where L: "pool_inv P s L bs" by (auto simp: pool_at_def)
  from OsMemAlloc_spec [OF L z] show ?thesis
  proof (elim disjE exE conjE)
    fix xs n ys t L' assume a: "bs = xs @ (n, 0) # ys" "aligned4 z \<le> n" "OsMemAlloc (of_nat P) (of_nat z) s = Some (t, of_nat (bend (first_node P) xs + 12))"
      "pool_inv P t L' (xs @ place (aligned4 z) n @ ys)" "kept P bs s t"
    have "list_all okb (xs @ (n, 0) # ys)" using layoutD(1) [OF pool_invD(8) [OF L]] a(1) by simp
    from place_comes [OF this aligned4_bounds(1,2) [OF z(1)] a(2,1) refl, of P] a(3-5) show ?thesis unfolding pool_at_def by blast
  qed simp
qed

lemma request_size:
  assumes "0 < z" and "z + 16 \<le> 2 ^ 29"
  defines "r \<equiv> max z 8"
  shows "(if (of_nat z :: u32) < 8 then 8 else of_nat z) = (of_nat r :: u32)" and "\<not> OS_MEM_NODE_GET_USED_FLAG (of_nat r)"
    and "\<not> OS_MEM_NODE_GET_ALIGNED_FLAG (of_nat r)" and "8 \<le> r" and "r + 16 \<le> 2 ^ 29" and "(of_nat z :: u32) \<noteq> 0"
proof -
  have "unat (of_nat z :: u32) = z" using assms(2) by (intro unat_of_nat32) simp
  then show "(if (of_nat z :: u32) < 8 then 8 else of_nat z) = (of_nat r :: u32)" by (simp add: word_less_nat_alt r_def)
  show r: "8 \<le> r" "r + 16 \<le> 2 ^ 29" using assms by (auto simp: r_def)
  then have "r < 2 ^ 29" by simp
  from saf_flags(1,2) [OF this used_flag(3)] show "\<not> OS_MEM_NODE_GET_USED_FLAG (of_nat r)" "\<not> OS_MEM_NODE_GET_ALIGNED_FLAG (of_nat r)" by simp_all
  show "(of_nat z :: u32) \<noteq> 0" using of_nat32_0 [of z] assms by simp
qed

lemma pool_nonzero: "pool_at P s bs \<Longrightarrow> (of_nat P :: u32) \<noteq> 0 \<and> P + 936 < 2 ^ 32 \<and> 4 dvd P"
proof -
  assume "pool_at P s bs"
  then obtain L where "pool_inv P s L bs" by (auto simp: pool_at_def)
  note d = pool_invD [OF this]
  have "P + 936 \<le> bend (first_node P) bs" by (rule bend_ge)
  then have "P + 936 < 2 ^ 32" using layoutD(3) [OF d(8)] by simp
  then show ?thesis using of_nat32_0 [of P] d(1,2) by simp
qed

theorem LOS_MemAlloc_call:
  assumes v: "pool_at P s bs" and z: "0 < z" "z + 16 \<le> 2 ^ 29"
  shows "(\<exists>x m t bs'. LOS_MemAlloc (of_nat P) (of_nat z) s = Some (t, of_nat (x + 12)) \<and> pool_at P t bs' \<and> aligned4 (max z 8) \<le> m \<and>
      comes P bs bs' x m OS_MEM_NODE_USED_FLAG \<and> kept P bs s t) \<or>
    LOS_MemAlloc (of_nat P) (of_nat z) s = Some (s, 0) \<and> (\<forall>n. (n, 0) \<in> set bs \<longrightarrow> n < aligned4 (max z 8))"
proof -
  note r = request_size [OF z]
  have "LOS_MemAlloc (of_nat P) (of_nat z) s = OsMemAlloc (of_nat P) (of_nat (max z 8)) s"
    unfolding LOS_MemAlloc_def r(1) using pool_nonzero [OF v] r(2,3,6) by (simp add: Let_def)
  then show ?thesis using OsMemAlloc_call [OF v r(4,5)] by simp
qed

section \<open>Writing to blocks in use\<close>

lemma payload_bound: "pool_at P s bs \<Longrightarrow> w \<in> payload (first_node P) bs \<Longrightarrow> w < 2 ^ 32"
  using payload_range [of w "first_node P" bs] layoutD(3) [OF pool_at_layout] by fastforce

theorem payload_change:
  assumes v: "pool_at P s bs" and e: "same_env s t" "freeList t = freeList s" "freeListBitmap t = freeListBitmap s"
    and h: "\<And>w. w \<notin> payload (first_node P) bs \<Longrightarrow> hm t w = hm s w"
  shows "pool_at P t bs"
proof -
  let ?a = "first_node P"
  from v obtain L where L: "pool_inv P s L bs" by (auto simp: pool_at_def)
  note d = pool_invD [OF L]
  note b = bookD [OF d(4)]
  note ok = layoutD(1) [OF b(1)]
  have hd: "hm t (x + i) = hm s (x + i)" if "x \<in> nodes ?a bs" "i < 12" for x i using payload_header [OF ok _ that] by (intro h) blast
  have "layout t ?a bs"
  proof (rule layout_cong [OF b(1)])
    fix x i assume "x \<in> nodes ?a bs" "i = 4 \<or> i = 8 \<or> x = bend ?a bs \<and> i = (0 :: nat)"
    then show "hm t (x + i) = hm s (x + i)" by (intro hd) auto
  qed
  moreover have "free_lists t L (frees ?a bs)"
  proof (rule free_lists_cong [OF b(3) e(2,3)])
    fix x assume "x \<in> dom (frees ?a bs)"
    then have "x + 12 \<in> links (frees ?a bs)" "x + 16 \<in> links (frees ?a bs)" by (auto simp: links_def)
    then show "hm t (x + 12) = hm s (x + 12) \<and> hm t (x + 16) = hm s (x + 16)" using payload_links [OF ok] by (intro conjI h) blast+
  qed
  moreover have "\<forall>x \<in> set (starts ?a bs) - {}. hm t x = OS_MEM_NODE_MAGIC" using hd [of _ 0] b(2) by (auto simp: nodes_def)
  ultimately have "heap_ok t ?a L bs" unfolding book_def by (simp add: map_le_def)
  from pool_inv_env [OF e(1) L this d(5,6) refl] show "pool_at P t bs" by (auto simp: pool_at_def)
qed

lemma payload_write:
  fixes u :: u32
  assumes v: "pool_at P s bs" and w: "w \<in> payload (first_node P) bs"
  defines "t \<equiv> wr (of_nat w) u s"
  shows "pool_at P t bs" and "hm t = (hm s)(w := u)" and "same_env s t"
proof -
  show h: "hm t = (hm s)(w := u)" unfolding t_def by (rule wr_at0 [OF payload_bound [OF v w]])
  show e: "same_env s t" by (simp add: t_def)
  show "pool_at P t bs"
  proof (rule payload_change [OF v e])
    show "freeList t = freeList s" "freeListBitmap t = freeListBitmap s" by (simp_all add: t_def)
    show "hm t y = hm s y" if "y \<notin> payload (first_node P) bs" for y using that w by (auto simp: h)
  qed
qed

section \<open>Release\<close>

text \<open>The block at \<open>x\<close> is out of use.\<close>

lemma free_blocks_cases:
  obtains ws p r zs where "free_blocks xs n ys = ws @ (r, 0) # zs" "ws = xs \<and> p = n \<or> (\<exists>q. xs = ws @ [(q, 0)] \<and> p = q + n)"
    "zs = ys \<and> r = p \<or> (\<exists>m. ys = (m, 0) # zs \<and> r = p + m)"
proof (cases "xs \<noteq> [] \<and> snd (last xs) = 0")
  case True
  then obtain ws q where xs: "xs = ws @ [(q, 0)]" by (cases xs rule: rev_cases) (auto simp: prod_eq_iff)
  obtain r zs where r: "next_free (q + n) ys = (r, zs)" by (cases "next_free (q + n) ys")
  then have "zs = ys \<and> r = q + n \<or> (\<exists>m. ys = (m, 0) # zs \<and> r = q + n + m)" by (cases "(q + n, ys)" rule: next_free.cases) (auto split: if_splits)
  then show ?thesis using that [of ws r zs "q + n"] xs r by (auto simp: free_blocks_def)
next
  case False
  obtain r zs where r: "next_free n ys = (r, zs)" by (cases "next_free n ys")
  then have "zs = ys \<and> r = n \<or> (\<exists>m. ys = (m, 0) # zs \<and> r = n + m)" by (cases "(n, ys)" rule: next_free.cases) (auto split: if_splits)
  then show ?thesis using that [of xs r zs n] False r by (auto simp: free_blocks_def)
qed

lemma allocs_join: "list_all okb ws \<Longrightarrow> 0 < q \<Longrightarrow> 0 < n \<Longrightarrow> allocs a (ws @ (q + n, 0) # ys) = allocs a (ws @ (q, 0) # (n, 0) # ys)"
proof
  fix v assume a: "list_all okb ws" "0 < q" "0 < n"
  have "allocs (b + q + n) ys v = None" if "v < b + q + n" for b using that allocs_None [of v "b + q + n" ys] starts_ge [of v "b + q + n" ys] by auto
  from this [of "bend a ws"] show "allocs a (ws @ (q + n, 0) # ys) v = allocs a (ws @ (q, 0) # (n, 0) # ys) v"
    using a by (auto simp: allocs_append add.assoc)
qed

lemma free_blocks_allocs:
  assumes ok: "list_all okb (xs @ (n, f) # ys)"
  shows "allocs a (free_blocks xs n ys) = (allocs a (xs @ (n, f) # ys))(bend a xs := None)"
proof -
  have z: "allocs a (xs @ (n, 0) # ys) = (allocs a (xs @ (n, f) # ys))(bend a xs := None)"
    using allocs_flag [of xs a n 0 ys f] ok by simp
  obtain ws p r zs where c: "free_blocks xs n ys = ws @ (r, 0) # zs" "ws = xs \<and> p = n \<or> (\<exists>q. xs = ws @ [(q, 0)] \<and> p = q + n)"
    "zs = ys \<and> r = p \<or> (\<exists>m. ys = (m, 0) # zs \<and> r = p + m)" by (rule free_blocks_cases)
  have "allocs a (ws @ (r, 0) # zs) = allocs a (ws @ (p, 0) # ys)" using c(2,3) ok by (auto simp: okb_def allocs_join)
  also have "\<dots> = allocs a (xs @ (n, 0) # ys)" using c(2) ok by (auto simp: okb_def allocs_join)
  finally show ?thesis using c(1) z by simp
qed

theorem OsMemFree_call:
  assumes v: "pool_at P s bs" and x: "in_use P bs x = Some (n, f)"
  shows "\<exists>t bs' j. OsMemFree (of_nat P) (of_nat x) s = Some (t, LOS_OK) \<and> pool_at P t bs' \<and> in_use P bs' = (in_use P bs)(x := None) \<and>
    same_env s t \<and> (\<forall>w \<in> payload (first_node P) bs - {x ..< x + n}. hm t w = hm s w) \<and> hm t (x + 8) = of_nat j \<and> j < 2 ^ 29"
proof -
  from v obtain L where L: "pool_inv P s L bs" by (auto simp: pool_at_def)
  from allocs_in [OF x] obtain xs ys where bs: "f \<noteq> 0" "bs = xs @ (n, f) # ys" "x = bend (first_node P) xs" by blast
  from OsMemFree_spec [OF L bs(2,1,3)] obtain t L' j where t: "OsMemFree (of_nat P) (of_nat x) s = Some (t, LOS_OK)" "pool_inv P t L' (free_blocks xs n ys)"
    "kept P (xs @ (n, 0) # ys) s t" "hm t (x + 8) = of_nat j" "j < 2 ^ 29" by blast
  have "list_all okb (xs @ (n, f) # ys)" using layoutD(1) [OF pool_invD(8) [OF L]] bs(2) by simp
  then have "in_use P (free_blocks xs n ys) = (in_use P bs)(x := None)" using free_blocks_allocs bs by blast
  moreover have "w \<in> payload (first_node P) (xs @ (n, 0) # ys)" if "w \<in> payload (first_node P) bs - {x ..< x + n}" for w
    using that bs by auto
  ultimately show ?thesis using t unfolding kept_def pool_at_def by blast
qed

text \<open>The pointer of a block: behind the header, or behind a gap whose size is kept in front of the pointer.\<close>

definition holds :: "tlsf \<Rightarrow> nat \<Rightarrow> nat \<Rightarrow> nat \<Rightarrow> nat \<Rightarrow> u32 \<Rightarrow> bool" where
  "holds s p z x n f \<longleftrightarrow> 0 < z \<and> x + 12 \<le> p \<and> p + z \<le> x + n \<and> 4 dvd p \<and>
    (f = OS_MEM_NODE_USED_FLAG \<and> p = x + 12 \<or>
     f = 0xC0000000 \<and> x + 12 < p \<and> hm s (p - 4) = of_nat (p - (x + 12)) OR OS_MEM_NODE_ALIGNED_FLAG)"

lemma holds_cong: "holds s p z x n f \<Longrightarrow> (x + 12 < p \<Longrightarrow> hm t (p - 4) = hm s (p - 4)) \<Longrightarrow> holds t p z x n f"
  unfolding holds_def by auto

lemma aligned_4: "4 dvd p \<Longrightarrow> p < 2 ^ 32 \<Longrightarrow> OS_MEM_IS_ALIGNED (of_nat p) 4"
proof -
  assume p: "4 dvd p" "p < 2 ^ 32"
  have "(of_nat p :: u32) AND (4 - 1) = take_bit 2 (of_nat p)" unfolding take_bit_eq_mask by (simp add: mask_eq_exp_minus_1)
  then have "unat ((of_nat p :: u32) AND (4 - 1)) = take_bit 2 p" using unat_of_nat32 [OF p(2)] by (simp only: unsigned_take_bit_eq)
  then have "unat ((of_nat p :: u32) AND (4 - 1)) = p mod 4" by (simp only: take_bit_eq_mod) simp
  then show ?thesis using p(1) unfolding OS_MEM_IS_ALIGNED_def by (simp add: word_unat_eq_iff dvd_eq_mod_eq_0)
qed

text \<open>The gap word of an aligned block.\<close>

lemma gap_word:
  assumes "g < 2 ^ 29" and "w = of_nat g OR OS_MEM_NODE_ALIGNED_FLAG"
  shows "OS_MEM_NODE_GET_ALIGNED_FLAG w" and "\<not> OS_MEM_NODE_GET_USED_FLAG w" and "OS_MEM_NODE_GET_ALIGNED_GAPSIZE w = of_nat g"
proof -
  have b: "bit w j \<longleftrightarrow> bit (of_nat g :: u32) j \<or> j = 30" for j unfolding assms(2) bit_or_iff flag_bits ..
  show "OS_MEM_NODE_GET_ALIGNED_FLAG w" "\<not> OS_MEM_NODE_GET_USED_FLAG w"
    unfolding OS_MEM_NODE_GET_ALIGNED_FLAG_def OS_MEM_NODE_GET_USED_FLAG_def and_flag b using size_bits [OF assms(1), of 31] by auto
  show "OS_MEM_NODE_GET_ALIGNED_GAPSIZE w = of_nat g" unfolding OS_MEM_NODE_GET_ALIGNED_GAPSIZE_def
  proof (rule bit_word_eqI)
    fix j assume "j < LENGTH(32)"
    then have "bit (NOT 0x40000000 :: u32) j \<longleftrightarrow> j \<noteq> 30" unfolding bit_not_iff flag_bits by simp
    then show "bit (w AND NOT 0x40000000) j \<longleftrightarrow> bit (of_nat g :: u32) j" unfolding bit_and_iff b using size_bits [OF assms(1), of 30] by auto
  qed
qed

theorem LOS_MemFree_call:
  assumes v: "pool_at P s bs" and x: "in_use P bs x = Some (n, f)" and h: "holds s p z x n f"
  shows "\<exists>t bs' j. LOS_MemFree (of_nat P) (of_nat p) s = Some (t, LOS_OK) \<and> pool_at P t bs' \<and> in_use P bs' = (in_use P bs)(x := None) \<and>
    same_env s t \<and> (\<forall>w \<in> payload (first_node P) bs - {x ..< x + n}. hm t w = hm s w) \<and> hm t (x + 8) = of_nat j \<and> j < 2 ^ 29"
proof -
  from allocs_in [OF x] obtain xs ys where bs: "f \<noteq> 0" "bs = xs @ (n, f) # ys" "x = bend (first_node P) xs" by blast
  have "layout s (first_node P) (xs @ (n, f) # ys)" using pool_at_layout [OF v] bs(2) by simp
  note m = layout_mid [OF this, folded bs(3)]
  have pl: "x + 12 \<le> p" "p < x + n" "4 dvd p" "0 < z" using h by (auto simp: holds_def)
  have p32: "p < 2 ^ 32" "p \<noteq> 0" using pl(1,2) m(9) by auto
  have nz: "(of_nat p :: u32) \<noteq> 0" using of_nat32_0 [OF p32(1)] p32(2) by simp
  note pn = pool_nonzero [OF v]
  have al: "OS_MEM_IS_ALIGNED (of_nat P) 4" "OS_MEM_IS_ALIGNED (of_nat p) 4" using aligned_4 pn p32(1) pl(3) by auto
  have m4: "(of_nat p :: u32) - 4 = of_nat (p - 4)" "(of_nat p :: u32) - 12 = of_nat (p - 12)" using pl(1) by (simp_all add: of_nat_diff)
  have rd: "mem s (of_nat p - 4) = hm s (p - 4)" unfolding m4 by (rule mem_at0) (use p32 in simp)
  have "LOS_MemFree (of_nat P) (of_nat p) s = OsMemFree (of_nat P) (of_nat x) s"
  proof (cases "p = x + 12")
    case True
    then have "f = OS_MEM_NODE_USED_FLAG" "p - 4 = x + 8" using h by (auto simp: holds_def)
    then have "f = OS_MEM_NODE_USED_FLAG" "hm s (p - 4) = of_nat n OR f" using m(2) by simp_all
    then have "\<not> OS_MEM_NODE_GET_ALIGNED_FLAG (hm s (p - 4))" using saf_flags(2) [OF m(7,8)] by simp
    then show ?thesis unfolding LOS_MemFree_def rd m4(2) using nz pn al True by (simp add: Let_def)
  next
    case False
    define g where "g = p - (x + 12)"
    have g: "g < 2 ^ 29" "hm s (p - 4) = of_nat g OR OS_MEM_NODE_ALIGNED_FLAG" "g \<le> p - 12" using h False pl(2) m(7) by (auto simp: holds_def g_def)
    note gw = gap_word [OF g(1,2)]
    have "4 dvd x"
    proof -
      have "4 dvd bend (first_node P) xs"
      proof -
        have "list_all okb xs" using layoutD(1) [OF pool_at_layout [OF v]] bs(2) by simp
        moreover have "4 dvd bend a us" if "4 dvd a" "list_all okb us" for a us using that by (induction us arbitrary: a) (auto simp: okb_def)
        ultimately show ?thesis using pn by simp
      qed
      then show ?thesis using bs(3) by simp
    qed
    then have "4 dvd g" using pl(1,3) unfolding g_def by (simp add: dvd_diff_nat)
    then have "(of_nat g :: u32) AND (4 - 1) = 0" using aligned_4 [of g] g(1) by (simp add: OS_MEM_IS_ALIGNED_def)
    moreover have "\<not> (of_nat (p - 12) :: u32) < of_nat g" using of_nat_le32 [of g "p - 12"] g p32(1) by (simp add: not_less)
    moreover have "(of_nat p :: u32) - of_nat g - 12 = of_nat x"
    proof -
      have "p = x + 12 + g" using pl(1) by (simp add: g_def)
      then show ?thesis by simp
    qed
    ultimately show ?thesis unfolding LOS_MemFree_def rd m4(2) using nz pn al gw by (simp add: Let_def)
  qed
  with OsMemFree_call [OF v x] show ?thesis by simp
qed

text \<open>A word without flags in front of a pointer: the release is refused and nothing changes.\<close>

theorem LOS_MemFree_refused:
  assumes v: "pool_at P s bs" and p: "12 \<le> p" "p < 2 ^ 32" and w: "hm s (p - 4) = of_nat j" "j < 2 ^ 29"
  shows "LOS_MemFree (of_nat P) (of_nat p) s = Some (s, LOS_NOK)"
proof -
  from v obtain L where L: "pool_inv P s L bs" by (auto simp: pool_at_def)
  have m4: "(of_nat p :: u32) - 4 = of_nat (p - 4)" "(of_nat p :: u32) - 12 + 8 = of_nat (p - 4)" using p(1) by (simp_all add: of_nat_diff)
  have rd: "mem s (of_nat (p - 4)) = of_nat j" using mem_at0 [of "p - 4" s] p w(1) by simp
  have fl: "\<not> OS_MEM_NODE_GET_ALIGNED_FLAG (of_nat j)" "\<not> OS_MEM_NODE_GET_USED_FLAG (of_nat j)" using saf_flags(1,2) [OF w(2) used_flag(3)] by simp_all
  have "\<not> OS_MEM_NODE_GET_USED_FLAG (mem s (of_nat p - 12 + 8))" unfolding m4 rd by (rule fl(2))
  then have "OsMemFree (of_nat P) (of_nat p - 12) s = Some (s, LOS_NOK)" unfolding OsMemFree_def using check_refused [OF L] by simp
  then show ?thesis unfolding LOS_MemFree_def m4(1) rd using fl(1) by (simp add: Let_def)
qed

section \<open>Allocation with alignment\<close>

lemma bend_dvd: "4 dvd a \<Longrightarrow> list_all okb us \<Longrightarrow> 4 dvd bend a us"
  by (induction us arbitrary: a) (auto simp: okb_def)

lemma in_use_block:
  assumes v: "pool_at P s bs" and x: "in_use P bs x = Some (n, f)"
  shows "hm s (x + 8) = of_nat n OR f" and "20 \<le> n" and "n < 2 ^ 29" and "block_flags f" and "f \<noteq> 0" and "x + n + 20 \<le> 2 ^ 32" and "4 dvd x"
    and "first_node P \<le> x" and "x + n \<le> bend (first_node P) bs" and "4 dvd n"
proof -
  from allocs_in [OF x] obtain xs ys where bs: "f \<noteq> 0" "bs = xs @ (n, f) # ys" "x = bend (first_node P) xs" by blast
  have l: "layout s (first_node P) (xs @ (n, f) # ys)" using pool_at_layout [OF v] bs(2) by simp
  show "hm s (x + 8) = of_nat n OR f" "20 \<le> n" "n < 2 ^ 29" "block_flags f" "f \<noteq> 0" "x + n + 20 \<le> 2 ^ 32" "4 dvd n"
    using layout_mid [OF l, folded bs(3)] bs(1) by simp_all
  have "list_all okb xs" using layoutD(1) [OF l] by simp
  then show "4 dvd x" using bend_dvd [of "first_node P" xs] pool_nonzero [OF v] bs(3) by simp
  show "first_node P \<le> x" "x + n \<le> bend (first_node P) bs" using bend_ge [of "first_node P" xs] bend_ge [of "x + n" ys] bs(2,3) by auto
qed

text \<open>Giving a block in use another flag.\<close>

lemma set_flag_call:
  assumes v: "pool_at P s bs" and x: "in_use P bs x = Some (n, f)" and g: "block_flags g" "g \<noteq> 0"
  defines "t \<equiv> wr (of_nat x + 8) (of_nat n OR g) s"
  shows "\<exists>bs'. pool_at P t bs' \<and> in_use P bs' = (in_use P bs)(x \<mapsto> (n, g)) \<and> payload (first_node P) bs' = payload (first_node P) bs" and "same_env s t"
    and "w \<noteq> x + 8 \<Longrightarrow> hm t w = hm s w"
proof -
  from v obtain L where L: "pool_inv P s L bs" by (auto simp: pool_at_def)
  note d = pool_invD [OF L]
  from allocs_in [OF x] obtain xs ys where bs: "f \<noteq> 0" "bs = xs @ (n, f) # ys" "x = bend (first_node P) xs" by blast
  have ok: "list_all okb xs" "0 < n" using layoutD(1) [OF d(8)] bs(2) by (auto simp: okb_def)
  have "frees (first_node P) bs x = None" using ok(1) frees_flag [OF ok, of "first_node P" f ys f] bs by (metis fun_upd_same)
  moreover have "frees (first_node P) (xs @ (n, g) # ys) = frees (first_node P) bs"
    using frees_flag [OF ok, of "first_node P" g ys f] bs g(2) calculation by (simp add: fun_upd_idem)
  moreover note flag_step [OF d(4) [unfolded bs(2)] bs(3) _ g(1), folded t_def]
  ultimately have b: "heap_ok t (first_node P) L (xs @ (n, g) # ys)" and e: "same_env s t" and fr: "\<And>w. w \<noteq> x + 8 \<Longrightarrow> hm t w = hm s w"
    unfolding bs(2) by simp_all
  show "same_env s t" "w \<noteq> x + 8 \<Longrightarrow> hm t w = hm s w" by (fact e) (rule fr)
  have "coal (xs @ (n, g) # ys)" using d(5) bs(1,2) g(2) by (auto simp: coal_mid)
  then have "pool_inv P t L (xs @ (n, g) # ys)" using pool_inv_env [OF e L b] bs(2) by simp
  moreover have "in_use P (xs @ (n, g) # ys) = (in_use P bs)(x \<mapsto> (n, g))" using allocs_flag [OF ok(1), of "first_node P" n g ys f] g(2) bs by simp
  moreover have "payload (first_node P) (xs @ (n, g) # ys) = payload (first_node P) bs" using bs(1,2) g(2) by simp
  ultimately show "\<exists>bs'. pool_at P t bs' \<and> in_use P bs' = (in_use P bs)(x \<mapsto> (n, g)) \<and> payload (first_node P) bs' = payload (first_node P) bs"
    unfolding pool_at_def by blast
qed

lemma align_up:
  assumes "q + 2 ^ j < 2 ^ 32" and "j < 32"
  defines "p \<equiv> (q + 2 ^ j - 1) div 2 ^ j * 2 ^ j"
  shows "OS_MEM_ALIGN (of_nat q) (2 ^ j) = of_nat p" and "q \<le> p" and "p < q + 2 ^ j" and "2 ^ j dvd p"
proof -
  let ?b = "2 ^ j :: nat"
  have "0 < ?b" by simp
  moreover have "(q + ?b - 1) mod ?b < ?b" by simp
  moreover have "p + (q + ?b - 1) mod ?b = q + ?b - 1" unfolding p_def by (rule div_mult_mod_eq)
  ultimately show b: "q \<le> p" "p < q + ?b" by linarith+
  show "2 ^ j dvd p" by (simp add: p_def)
  have w: "(of_nat q + 2 ^ j - 1 :: u32) = of_nat (q + ?b - 1)" using of_nat_diff [of 1 "q + ?b", where 'a = u32] by (simp add: Suc_le_eq)
  have "unat (of_nat (q + ?b - 1) :: u32) = q + ?b - 1" using assms(1) by (intro unat_of_nat32) linarith
  then have "unat ((of_nat q + 2 ^ j - 1 :: u32) AND NOT (mask j)) = p" unfolding w using and_not_mask32 [OF assms(2), of "of_nat (q + ?b - 1)"] by (simp add: p_def)
  moreover have "unat (of_nat p :: u32) = p" using b(2) assms(1) by (intro unat_of_nat32) linarith
  ultimately show "OS_MEM_ALIGN (of_nat q) (2 ^ j) = of_nat p" unfolding OS_MEM_ALIGN_def mask_eq_exp_minus_1 [symmetric] by (simp add: word_unat_eq_iff)
qed

text \<open>A pointer into a block that came into use.\<close>

lemma comes_block:
  assumes "pool_at P t bs'" and "comes P bs bs' x m f"
  shows "in_use P bs' x = Some (m, f)" and "{x + 12 ..< x + m} \<subseteq> payload (first_node P) bs'"
  using assms(2) allocs_payload [of "first_node P" bs' x m f] by (auto simp: comes_def)

theorem LOS_MemAllocAlign_call:
  assumes v: "pool_at P s bs" and z: "0 < z" "z + 2 ^ j + 24 \<le> 2 ^ 29" and j: "2 \<le> j"
  shows "(\<exists>p x m f t bs'. LOS_MemAllocAlign (of_nat P) (of_nat z) (2 ^ j) s = Some (t, of_nat p) \<and> pool_at P t bs' \<and> 2 ^ j dvd p \<and>
      holds t p z x m f \<and> comes P bs bs' x m f \<and> kept P bs s t) \<or>
    LOS_MemAllocAlign (of_nat P) (of_nat z) (2 ^ j) s = Some (s, 0)"
proof -
  let ?B = "2 ^ j :: nat" and ?b = "2 ^ j :: u32"
  have "?B < 2 ^ 29" using z by linarith
  then have j29: "j < 29" by (rule power_less_imp_less_exp [rotated]) simp
  then have Bu: "unat ?b = ?B" "(of_nat ?B :: u32) = ?b" using unat_of_nat32 [of ?B] \<open>?B < 2 ^ 29\<close> by simp_all
  have "(2 :: nat) ^ 2 \<le> ?B" using j by (intro power_increasing) simp_all
  then have B4: "4 \<le> ?B" by simp
  have d4: "4 dvd ?B" using le_imp_power_dvd [OF j, of "2 :: nat"] by simp
  have "z + 16 \<le> 2 ^ 29" using z by linarith
  note r = request_size [OF z(1) this]
  define r where "r = max z 8"
  define u where "u = r + ?B - 4"
  have u: "8 \<le> u" "u + 16 \<le> 2 ^ 29" "u < 2 ^ 29" "r \<le> u" using z B4 by (auto simp: u_def r_def)
  have ub: "(of_nat r :: u32) + ?b - 4 = of_nat u" using B4 by (simp add: u_def of_nat_diff)
  have uf: "\<not> OS_MEM_NODE_GET_USED_FLAG (of_nat u)" "\<not> OS_MEM_NODE_GET_ALIGNED_FLAG (of_nat u)" using saf_flags(1,2) [OF u(3) used_flag(3)] by simp_all
  have pow: "OS_MEM_IS_POW_TWO ?b"
  proof -
    have "?b AND (?b - 1) = 0" unfolding mask_eq_exp_minus_1 [symmetric] by (rule bit_word_eqI) (auto simp: bit_simps)
    then show ?thesis by (simp add: OS_MEM_IS_POW_TWO_def)
  qed
  have al: "OS_MEM_IS_ALIGNED ?b 4" using aligned_4 [OF d4] \<open>?B < 2 ^ 29\<close> Bu(2) by simp
  have ov: "\<not> (- 1 - of_nat r :: u32) < ?b - 4"
  proof -
    have "unat (of_nat r :: u32) = r" using u(3,4) by (intro unat_of_nat32) simp
    moreover have "unat (- 1 :: u32) = 2 ^ 32 - 1" by (simp add: unsigned_minus_1_eq_mask mask_eq_exp_minus_1)
    ultimately have "unat (- 1 - of_nat r :: u32) = 2 ^ 32 - 1 - r" using unat_sub32 [of "of_nat r" "- 1"] by simp
    moreover have "unat (?b - 4) = ?B - 4" using Bu B4 by (subst unat_sub32) (simp_all add: word_le_nat_alt)
    ultimately show ?thesis using u(2) unfolding word_less_nat_alt by (simp add: u_def)
  qed
  have bnz: "?b \<noteq> 0" using Bu(1) by fastforce
  have code: "LOS_MemAllocAlign (of_nat P) (of_nat z) ?b s = (do {
      (s1, ptr) \<leftarrow> OsMemAlloc (of_nat P) (of_nat u) s;
      let alignedPtr = OS_MEM_ALIGN ptr ?b;
      if ptr = alignedPtr then Some (s1, ptr)
      else Some (wr (alignedPtr - 4) ((alignedPtr - ptr) OR OS_MEM_NODE_ALIGNED_FLAG)
        (wr (ptr - 12 + 8) (mem s1 (ptr - 12 + 8) OR OS_MEM_NODE_ALIGNED_FLAG) s1), alignedPtr) })"
    unfolding LOS_MemAllocAlign_def r(1) r_def [symmetric] Let_def ub using pool_nonzero [OF v] r(6) bnz pow al ov uf by simp
  from OsMemAlloc_call [OF v u(1,2)] show ?thesis
  proof (elim disjE exE conjE)
    assume "OsMemAlloc (of_nat P) (of_nat u) s = Some (s, 0)"
    moreover have "OS_MEM_ALIGN 0 ?b = 0" using align_up(1) [of 0 j] \<open>?B < 2 ^ 29\<close> j29 by (simp add: div_eq_0_iff)
    ultimately show ?thesis unfolding code by (simp add: Let_def)
  next
    fix x m t bs' assume a: "OsMemAlloc (of_nat P) (of_nat u) s = Some (t, of_nat (x + 12))" "pool_at P t bs'" "aligned4 u \<le> m"
      "comes P bs bs' x m OS_MEM_NODE_USED_FLAG" "kept P bs s t"
    note cb = comes_block [OF a(2,4)]
    note ib = in_use_block [OF a(2) cb(1)]
    have mu: "u + 12 \<le> m" using aligned4_bounds(3) [OF u(1)] a(3) by simp
    define q where "q = x + 12"
    have q: "q + ?B < 2 ^ 32" using ib(6) mu B4 by (simp add: q_def u_def)
    have "j < 32" using j29 by simp
    note up = align_up [OF q this]
    define p where "p = (q + ?B - 1) div ?B * ?B"
    note up = up [folded p_def]
    have "4 dvd p" using up(4) d4 by (rule dvd_trans [rotated])
    have q4: "4 dvd q" using ib(7) by (simp add: q_def)
    have gap: "p \<le> q + ?B - 4"
    proof -
      have "4 dvd q + ?B - p" using q4 d4 \<open>4 dvd p\<close> by (simp add: dvd_diff_nat)
      moreover have "0 < q + ?B - p" using up(3) by simp
      ultimately show ?thesis using dvd_imp_le [of 4 "q + ?B - p"] up(3) by simp
    qed
    have zr: "z \<le> r" "r + ?B = u + 4" using B4 by (auto simp: r_def u_def)
    have room: "p + z \<le> x + m" using gap mu zr by (simp add: q_def)
    have p32: "p < 2 ^ 32" "(of_nat p :: u32) = of_nat q \<longleftrightarrow> p = q" using of_nat32_inj [of p q] up(3) q by auto
    show ?thesis
    proof (cases "p = q")
      case True
      then have "LOS_MemAllocAlign (of_nat P) (of_nat z) ?b s = Some (t, of_nat p)" unfolding code a(1) q_def [symmetric] using up(1) by (simp add: Let_def)
      moreover have "holds t p z x m OS_MEM_NODE_USED_FLAG" using True z(1) room \<open>4 dvd p\<close> by (simp add: holds_def q_def)
      ultimately show ?thesis using a(2,4,5) up(4) by blast
    next
      case False
      define g where "g = p - q"
      have g: "p = q + g" "4 \<le> g" "4 dvd g" using False up(2) q4 \<open>4 dvd p\<close> dvd_imp_le [of 4 "p - q"] by (auto simp: g_def dvd_diff_nat)
      have f1: "block_flags 0xC0000000" "(0xC0000000 :: u32) \<noteq> 0" by (simp_all add: block_flags_def)
      have sv: "mem t (of_nat x + 8) OR OS_MEM_NODE_ALIGNED_FLAG = of_nat m OR 0xC0000000"
        using mem_words(2) [of x t] ib(1,2,6) by (simp add: or.assoc)
      define t1 where "t1 = wr (of_nat x + 8) (of_nat m OR 0xC0000000) t"
      note sf = set_flag_call [OF a(2) cb(1) f1, folded t1_def]
      from sf(1) obtain bs1 where b1: "pool_at P t1 bs1" "in_use P bs1 = (in_use P bs')(x \<mapsto> (m, 0xC0000000))" "payload (first_node P) bs1 = payload (first_node P) bs'" by blast
      have pin: "p - 4 \<in> {x + 12 ..< x + m}" using g room z(1) by (auto simp: q_def)
      then have pw: "p - 4 \<in> payload (first_node P) bs1" using cb(2) b1(3) by blast
      define t2 where "t2 = wr (of_nat (p - 4)) (of_nat g OR OS_MEM_NODE_ALIGNED_FLAG) t1"
      note w = payload_write [OF b1(1) pw, of "of_nat g OR OS_MEM_NODE_ALIGNED_FLAG", folded t2_def]
      have "(of_nat q :: u32) - 12 + 8 = of_nat x + 8" "(of_nat p :: u32) - 4 = of_nat (p - 4)" "(of_nat p :: u32) - of_nat q = of_nat g"
        using g by (simp_all add: q_def of_nat_diff)
      then have e: "LOS_MemAllocAlign (of_nat P) (of_nat z) ?b s = Some (t2, of_nat p)"
        unfolding code a(1) q_def [symmetric] using up(1) p32(2) False by (simp add: Let_def sv t1_def t2_def)
      have h: "holds t2 p z x m 0xC0000000" using z(1) room \<open>4 dvd p\<close> g by (simp add: holds_def w(2) q_def)
      have "comes P bs bs1 x m 0xC0000000" using a(4) b1(2) by (simp add: comes_def)
      moreover have "kept P bs s t2" unfolding kept_def
      proof
        show "same_env s t2" using a(5) sf(2) w(3) same_env_trans by (metis kept_def)
        show "\<forall>y \<in> payload (first_node P) bs. hm t2 y = hm s y"
        proof
          fix y assume y: "y \<in> payload (first_node P) bs"
          then have "y \<notin> {x ..< x + m}" using a(4) by (auto simp: comes_def)
          then have "y \<noteq> p - 4" "y \<noteq> x + 8" using pin ib(2) by auto
          then show "hm t2 y = hm s y" using w(2) sf(3) [of y] a(5) y by (simp add: kept_def)
        qed
      qed
      ultimately show ?thesis using e w(1) up(4) h by blast
    qed
  qed
qed

section \<open>Initialisation\<close>

lemma no_lists: "freeList s = (\<lambda>_. 0) \<Longrightarrow> freeListBitmap s = (\<lambda>_. 0) \<Longrightarrow> free_lists s (\<lambda>_. []) Map.empty"
  by (simp add: free_lists_def dll_def)

theorem OsMemPoolInit_call:
  assumes P: "0 < P" "4 dvd P" and n: "20 \<le> n" "4 dvd n" "n < 2 ^ 29" "P + n + 956 \<le> 2 ^ 32"
  shows "\<exists>t. OsMemPoolInit (of_nat P) (of_nat (n + 948)) s = Some (t, LOS_OK) \<and> pool_at P t [(n, 0)]"
proof -
  let ?a = "first_node P" and ?e = "first_node P + n"
  define s1 where "s1 = s\<lparr>infoPool := of_nat P, totalSize := of_nat (n + 948), poolAttr := OS_MEM_POOL_LOCK_ENABLE, freeListBitmap := (\<lambda>_. 0), freeList := (\<lambda>_. 0)\<rparr>"
  define s2 where "s2 = wr (of_nat ?a) OS_MEM_NODE_MAGIC (wr (of_nat ?a + 4) 0 (wr (of_nat ?a + 8) (of_nat n) s1))"
  have h2: "hm s2 = (hm s1)(?a + 8 := of_nat n, ?a + 4 := 0, ?a := OS_MEM_NODE_MAGIC)"
  proof -
    have "hm (wr (of_nat ?a + 8) (of_nat n) s1) = (hm s1)(?a + 8 := of_nat n)" by (rule wr_at) (use n in simp)
    moreover have "hm (wr (of_nat ?a + 4) 0 u) = (hm u)(?a + 4 := 0)" for u by (rule wr_at) (use n in simp)
    moreover have "hm (wr (of_nat ?a) OS_MEM_NODE_MAGIC u) = (hm u)(?a := OS_MEM_NODE_MAGIC)" for u by (rule wr_at0) (use n in simp)
    ultimately show ?thesis unfolding s2_def by simp
  qed
  have A: "apart {?a}" using P n by (simp add: apart_def)
  have fl: "free_lists s2 (\<lambda>_. []) Map.empty" by (rule no_lists) (simp_all add: s2_def s1_def)
  have fn: "free_nodes {?a} Map.empty" using A by (simp add: free_nodes_def)
  define s3 where "s3 = OsMemListAdd (of_nat (bucket n)) (of_nat ?a) s2"
  note la = ListAdd_lists [OF fl fn _ _ n(1,3), of ?a, folded s3_def, simplified]
  have sz: "mem s2 (of_nat ?a + 8) = of_nat n" using mem_words(2) [of ?a s2] n h2 by simp
  have "bucket n < 207" by (rule bucket_bound [OF n(3)])
  moreover from this have "unat (of_nat (bucket n) :: u32) = bucket n" by (intro unat_of_nat32) simp
  ultimately have "\<not> 223 \<le> (of_nat (bucket n) :: u32)" by (simp add: word_le_nat_alt)
  then have add: "OsMemFreeNodeAdd (of_nat ?a) s2 = Some s3" unfolding OsMemFreeNodeAdd_def sz using index_of_nat [of n] n(1,3) by (simp add: Let_def s3_def)
  define s4 where "s4 = wr (of_nat ?e + 4) 0 (wr (of_nat ?e) OS_MEM_NODE_MAGIC s3)"
  define t where "t = wr (of_nat ?e + 8) (0 OR OS_MEM_NODE_USED_FLAG OR OS_MEM_NODE_LAST_FLAG) (wr (of_nat ?e + 4) 0 s4)"
  have we: "hm (wr (of_nat ?e + 4) v u) = (hm u)(?e + 4 := v)" "hm (wr (of_nat ?e + 8) v u) = (hm u)(?e + 8 := v)"
    "hm (wr (of_nat ?e) v u) = (hm u)(?e := v)" for u v by (rule wr_at wr_at0; use n in simp)+
  have h4: "mem s4 (of_nat ?e + 4) = 0" using mem_words(1) [of ?e s4] n(4) we by (simp add: s4_def)
  have ht: "hm t = (hm s3)(?e := OS_MEM_NODE_MAGIC, ?e + 4 := 0, ?e + 8 := 0xA0000000)" unfolding t_def s4_def we by simp
  have en: "OS_MEM_END_NODE (of_nat P) (of_nat (n + 948)) = of_nat ?e" "OS_MEM_FIRST_NODE (of_nat P) = of_nat ?a"
    by (simp_all add: OS_MEM_END_NODE_def OS_MEM_FIRST_NODE_def)
  have sub: "(of_nat (n + 948) :: u32) - 936 - 12 = of_nat n" by simp
  have set: "OsMemSentinelNodeSet (of_nat ?e) 0 0 s4 = Some t" unfolding OsMemSentinelNodeSet_def h4 by (simp add: t_def)
  have e: "OsMemPoolInit (of_nat P) (of_nat (n + 948)) s = Some (t, LOS_OK)"
    unfolding OsMemPoolInit_def Let_def en sub s1_def [symmetric] s2_def [symmetric] add Option.bind.simps s4_def [symmetric] set by simp
  have h3: "hm s3 ?a = OS_MEM_NODE_MAGIC" "hm s3 (?a + 4) = 0" "hm s3 (?a + 8) = of_nat n"
    using la(4) [of ?a] la(4) [of "?a + 4"] la(4) [of "?a + 8"] h2 by (simp_all add: links_def)
  have lay: "layout t ?a [(n, 0)]"
    using n P h3 by (simp add: layout_def ht okb_def used_flag)
  have "free_lists t ((\<lambda>_. [])(bucket n := [?a])) [?a \<mapsto> n]"
  proof (rule free_lists_cong [OF la(1)])
    show "freeList t = freeList s3" "freeListBitmap t = freeListBitmap s3" by (simp_all add: t_def s4_def)
    show "hm t (x + 12) = hm s3 (x + 12) \<and> hm t (x + 16) = hm s3 (x + 16)" if "x \<in> dom [?a \<mapsto> n]" for x
      using that n(1) unfolding ht by simp
  qed
  then have "heap_ok t ?a ((\<lambda>_. [])(bucket n := [?a])) [(n, 0)]"
    unfolding book_def using lay h3(1) n(1) by (simp add: ht)
  moreover have "totalSize t = of_nat (n + 948)" "poolAttr t = OS_MEM_POOL_LOCK_ENABLE"
    using la(3) by (simp_all add: t_def s4_def s2_def s1_def same_env_def)
  moreover have "unat (of_nat (n + 948) :: u32) = n + 948" by (rule unat_of_nat32) (use n(3) in simp)
  ultimately have "pool_inv P t ((\<lambda>_. [])(bucket n := [?a])) [(n, 0)]" using P unfolding pool_inv_def by simp
  then show ?thesis using e unfolding pool_at_def by blast
qed

theorem LOS_MemInit_call:
  assumes P: "0 < P" "4 dvd P" "P + Z + 11 \<le> 2 ^ 32" and Z: "965 \<le> Z" "Z < 2 ^ 29"
  defines "n \<equiv> (Z + 3) div 4 * 4 - 948"
  shows "\<exists>t. LOS_MemInit (of_nat P) (of_nat Z) s = Some (t, LOS_OK) \<and> pool_at P t [(n, 0)]"
proof -
  define Y where "Y = (Z + 3) div 4 * 4"
  have "(Z + 3) mod 4 < 4" by simp
  then have Y: "Z \<le> Y" "Y \<le> Z + 3" "4 dvd Y" using div_mult_mod_eq [of "Z + 3" 4] unfolding Y_def by (linarith, linarith, simp)
  have "968 \<le> Y" using Y(1,3) Z(1) by presburger
  then have n: "20 \<le> n" "4 dvd n" "n < 2 ^ 29" "P + n + 956 \<le> 2 ^ 32" "n + 948 = Y"
    using Y Z P(3) by (auto simp: n_def Y_def [symmetric] dvd_diff_nat)
  have "unat (of_nat Z :: u32) = Z" using Z by (intro unat_of_nat32) simp
  then have big: "\<not> (of_nat Z :: u32) \<le> 948" using Z(1) by (simp add: word_le_nat_alt)
  have "OS_MEM_ALIGN (of_nat Z) 4 = of_nat Y" using align_up(1) [of Z 2] Z by (simp add: Y_def add.commute [of 3 Z])
  moreover have "(of_nat P :: u32) \<noteq> 0" using of_nat32_0 [of P] P by simp
  ultimately have "LOS_MemInit (of_nat P) (of_nat Z) s = Option.bind (OsMemPoolInit (of_nat P) (of_nat (n + 948)) s) (\<lambda>(s1, ret). Some (s1, if ret \<noteq> LOS_OK then OS_ERROR else LOS_OK))"
    unfolding LOS_MemInit_def n(5) using big by simp
  with OsMemPoolInit_call [OF P(1,2) n(1-4), of s] show ?thesis by auto
qed

end
