(* ===== verification/LosTlsfRealloc.thy ===== *)
theory LosTlsfRealloc
  imports LosTlsfCalls
begin

text \<open>
  Reallocation: the block shrinks or grows in place, or its contents move to a new block; in each case the words that both sizes share are kept.
\<close>

section \<open>In place\<close>

text \<open>The outcome of a reallocation of the block of size \<open>n\<close> at \<open>x\<close>, which is now the block of size \<open>m\<close> at \<open>y\<close>.\<close>

definition moved :: "nat \<Rightarrow> block list \<Rightarrow> tlsf \<Rightarrow> nat \<Rightarrow> nat \<Rightarrow> tlsf \<Rightarrow> nat \<Rightarrow> nat \<Rightarrow> bool" where
  "moved P bs s x n t y m \<longleftrightarrow> (\<exists>bs'. pool_at P t bs' \<and> in_use P bs' = (in_use P bs)(x := None, y \<mapsto> (m, OS_MEM_NODE_USED_FLAG))) \<and>
    (y = x \<or> in_use P bs y = None) \<and> same_env s t \<and> (\<forall>w \<in> payload (first_node P) bs - {x ..< x + n}. hm t w = hm s w) \<and>
    (\<forall>i. 12 + i < n \<and> 12 + i < m \<longrightarrow> hm t (y + 12 + i) = hm s (x + 12 + i))"

lemma detach_used:
  assumes L: "pool_inv P s L bs" and bs: "bs = xs @ (n, OS_MEM_NODE_USED_FLAG) # ys" and x: "x = bend (first_node P) xs"
  defines "t \<equiv> wr (of_nat x + 8) (of_nat n) s"
  shows "detached t (first_node P) L xs n ys" and "same_env s t" and "w \<noteq> x + 8 \<Longrightarrow> hm t w = hm s w"
proof -
  let ?U = OS_MEM_NODE_USED_FLAG and ?a = "first_node P"
  note d = pool_invD [OF L]
  have ok: "list_all okb xs" "0 < n" using layoutD(1) [OF d(8)] bs by (auto simp: okb_def)
  have "frees ?a (xs @ (n, ?U) # ys) x = None" by (subst frees_flag [OF ok, of ?a ?U ys ?U]) (simp add: x)
  from flag_step [OF d(4) [unfolded bs] x this used_flag(3)]
  show "detached t (first_node P) L xs n ys" "same_env s t" "w \<noteq> x + 8 \<Longrightarrow> hm t w = hm s w" by (simp_all add: t_def)
qed

lemma trim_facts:
  assumes ok: "list_all okb (xs @ (n, f) # ys)" and c: "coal xs" "coal ys" and k: "20 \<le> k" "4 dvd k" "k \<le> n" and x: "x = bend a xs"
  shows "\<exists>m. k \<le> m \<and> m \<le> n \<and> allocs a (xs @ trim k n ys) = (allocs a (xs @ (n, f) # ys))(x \<mapsto> (m, OS_MEM_NODE_USED_FLAG)) \<and>
    payload a (xs @ trim k n ys) = payload a xs \<union> {x + 12 ..< x + m} \<union> payload (x + n) ys \<and>
    coal (xs @ trim k n ys) \<and> bend a (xs @ trim k n ys) = bend a (xs @ (n, f) # ys)"
proof (cases "k + 20 \<le> n")
  case False
  let ?U = OS_MEM_NODE_USED_FLAG
  have tr: "trim k n ys = (n, ?U) # ys" using False by (simp add: trim_def)
  have "allocs a (xs @ (n, ?U) # ys) = (allocs a (xs @ (n, f) # ys))(x \<mapsto> (n, ?U))" using allocs_flag [of xs a n ?U ys f] ok x by simp
  then show ?thesis unfolding tr using c k x by (intro exI [of _ n]) (auto simp: coal_mid)
next
  case True
  let ?U = OS_MEM_NODE_USED_FLAG
  obtain r zs where r: "next_free (n - k) ys = (r, zs)" by (cases "next_free (n - k) ys")
  then have tr: "trim k n ys = (k, ?U) # (r, 0) # zs" using True by (simp add: trim_def)
  have rz: "zs = ys \<and> r = n - k \<or> (\<exists>j. ys = (j, 0) # zs \<and> r = n - k + j)"
    using r by (cases "(n - k, ys)" rule: next_free.cases) (auto split: if_splits)
  have okx: "list_all okb xs" "list_all okb ys" using ok by simp_all
  have okk: "okb (k, ?U)" "okb (n - k, 0)" using k ok True by (auto simp: okb_def block_flags_def dvd_diff_nat)
  have "allocs a ((xs @ [(k, ?U)]) @ (r, 0) # zs) = allocs a ((xs @ [(k, ?U)]) @ (n - k, 0) # ys)"
    using rz
  proof (elim disjE exE conjE)
    fix j assume "ys = (j, 0) # zs" "r = n - k + j"
    then show ?thesis using allocs_join [of "xs @ [(k, ?U)]" "n - k" j a zs] okx okk True by (simp add: okb_def)
  qed simp
  then have "allocs a (xs @ trim k n ys) = allocs a (xs @ [(k, ?U), (n - k, 0)] @ ys)" by (simp add: tr)
  also have "\<dots> = (allocs a (xs @ (n, f) # ys))(x \<mapsto> (k, ?U))"
  proof
    fix v
    have "allocs a (xs @ [(k, ?U), (n - k, 0)] @ ys) v = (if x \<le> v \<and> v < x + n then allocs x [(k, ?U), (n - k, 0)] v else allocs a (xs @ [(n, f)] @ ys) v)"
      using allocs_change [of xs x "[(k, ?U), (n - k, 0)]" "[(n, f)]" a ys v] ok okk k x by simp
    moreover have "allocs a (xs @ (n, f) # ys) v = None" if "x < v" "v < x + n"
      using that ok allocs_None [of v "x + n" ys] starts_ge [of v "x + n" ys] by (auto simp: allocs_append x)
    ultimately show "allocs a (xs @ [(k, ?U), (n - k, 0)] @ ys) v = ((allocs a (xs @ (n, f) # ys))(x \<mapsto> (k, ?U))) v"
      using k by (cases "v = x"; cases "x < v \<and> v < x + n") auto
  qed
  finally have A: "allocs a (xs @ trim k n ys) = (allocs a (xs @ (n, f) # ys))(x \<mapsto> (k, ?U))" .
  have "payload (x + k + r) zs = payload (x + n) ys" using rz True by (auto simp: add.assoc)
  then have "payload a (xs @ trim k n ys) = payload a xs \<union> {x + 12 ..< x + k} \<union> payload (x + n) ys" unfolding tr by (auto simp: x)
  moreover have "coal (xs @ trim k n ys)" using next_free_coal [OF r c(2)] c(1) unfolding tr by (auto simp: coal_mid coal_Cons)
  moreover have "bend a (xs @ trim k n ys) = bend a (xs @ (n, f) # ys)"
    using next_free_bend [OF r, of "x + k"] True unfolding tr by (simp add: x)
  ultimately show ?thesis using A k(3) by blast
qed

text \<open>Cutting a detached block gives the outcome of a reallocation in place.\<close>

lemma trim_moved:
  assumes L: "pool_inv P s L bs" and b: "detached u (first_node P) L1 xs N zs" and e: "same_env s u"
    and k: "20 \<le> k" "4 dvd k" "k < 2 ^ 29" "k \<le> N" and x: "x = bend (first_node P) xs"
    and use: "in_use P (xs @ (N, 0) # zs) = (in_use P bs)(x := None)" and be: "bend (first_node P) bs = bend (first_node P) (xs @ (N, 0) # zs)"
    and c: "coal xs" "coal zs" and pay: "payload (first_node P) bs \<subseteq> payload (first_node P) xs \<union> {x + 12 ..< x + n} \<union> payload (x + N) zs" "n \<le> N"
    and h: "\<And>w. w \<in> payload (first_node P) xs \<union> {x + 12 ..< x + n} \<union> payload (x + N) zs \<Longrightarrow> hm u w = hm s w"
  shows "\<exists>t m. trim_node (of_nat x) (of_nat k) u = Some t \<and> k \<le> m \<and> moved P bs s x n t x m"
proof -
  let ?a = "first_node P" and ?U = OS_MEM_NODE_USED_FLAG
  have ok: "list_all okb (xs @ (N, 0) # zs)" by (rule layoutD(1) [OF bookD(1) [OF b]])
  from trim_spec [OF b k(1-3) x] obtain t L2 where t: "trim_node (of_nat x) (of_nat k) u = Some t" "heap_ok t ?a L2 (xs @ trim k N zs)" "same_env u t"
    "\<And>w. w \<in> payload ?a (xs @ trim k N zs) \<Longrightarrow> hm t w = hm u w" by blast
  from trim_facts [OF ok c k(1,2,4) x] obtain m where m: "k \<le> m" "m \<le> N" "in_use P (xs @ trim k N zs) = (in_use P (xs @ (N, 0) # zs))(x \<mapsto> (m, ?U))"
    "payload ?a (xs @ trim k N zs) = payload ?a xs \<union> {x + 12 ..< x + m} \<union> payload (x + N) zs" "coal (xs @ trim k N zs)"
    "bend ?a (xs @ trim k N zs) = bend ?a (xs @ (N, 0) # zs)" by blast
  have es: "same_env s t" by (rule same_env_trans [OF e t(3)])
  have "xs @ trim k N zs \<noteq> []" by (simp add: trim_def)
  then have "pool_inv P t L2 (xs @ trim k N zs)" using pool_inv_env [OF es L t(2) m(5)] m(6) be by simp
  moreover have "in_use P (xs @ trim k N zs) = (in_use P bs)(x := None, x \<mapsto> (m, ?U))" using m(3) use by simp
  moreover have "hm t w = hm s w" if "w \<in> payload ?a bs - {x ..< x + n}" for w
  proof -
    have "w \<in> payload ?a xs \<union> payload (x + N) zs" using that pay(1) by auto
    then show ?thesis using t(4) [of w] h [of w] unfolding m(4) by auto
  qed
  moreover have "hm t (x + 12 + i) = hm s (x + 12 + i)" if "12 + i < n" "12 + i < m" for i
    using that t(4) [of "x + 12 + i"] h [of "x + 12 + i"] unfolding m(4) by auto
  ultimately have "moved P bs s x n t x m" using es unfolding moved_def pool_at_def by blast
  then show ?thesis using t(1) m(1) by blast
qed

lemma realloc_smaller:
  assumes L: "pool_inv P s L bs" and bs: "bs = xs @ (n, OS_MEM_NODE_USED_FLAG) # ys" and x: "x = bend (first_node P) xs"
    and k: "20 \<le> k" "4 dvd k" "k < 2 ^ 29" "k \<le> n"
  shows "\<exists>t m. OsMemReAllocSmaller (of_nat k) (of_nat x) (of_nat n) s = Some t \<and> k \<le> m \<and> moved P bs s x n t x m"
proof -
  let ?a = "first_node P" and ?U = OS_MEM_NODE_USED_FLAG
  note d = pool_invD [OF L]
  define u where "u = wr (of_nat x + 8) (of_nat n) s"
  note dt = detach_used [OF L bs x, folded u_def]
  have ok: "list_all okb xs" "list_all okb bs" using layoutD(1) [OF d(8)] bs by simp_all
  have c: "coal xs" "coal ys" using d(5) bs by (auto simp: coal_mid)
  note m = layout_mid [OF bookD(1) [OF dt(1)], folded x]
  have "mem u (of_nat x + 8) = of_nat n" using mem_words(2) [of x u] m(2,5,9) by simp
  then have e: "OsMemReAllocSmaller (of_nat k) (of_nat x) (of_nat n) s = trim_node (of_nat x) (of_nat k) u"
    unfolding OsMemReAllocSmaller_def trim_node_def u_def [symmetric] Let_def by simp
  have xn: "x \<in> nodes ?a bs" using mid_node [of ?a xs] by (simp add: bs x)
  have "in_use P (xs @ (n, 0) # ys) = (in_use P bs)(x := None)" using allocs_flag [OF ok(1), of ?a n 0 ys ?U] by (simp add: bs x)
  moreover have "payload ?a bs = payload ?a xs \<union> {x + 12 ..< x + n} \<union> payload (x + n) ys" by (auto simp: bs x)
  moreover from this have "hm u w = hm s w" if "w \<in> payload ?a xs \<union> {x + 12 ..< x + n} \<union> payload (x + n) ys" for w
    using payload_header [OF ok(2) _ xn, of w 8] dt(3) [of w] that by simp
  ultimately show ?thesis unfolding e using trim_moved [OF L dt(1,2) k x, of n] c by (simp add: bs)
qed

lemma realloc_bigger:
  assumes L: "pool_inv P s L bs" and bs: "bs = xs @ (n, OS_MEM_NODE_USED_FLAG) # (q, 0) # ys" and x: "x = bend (first_node P) xs"
    and k: "20 \<le> k" "4 dvd k" "k < 2 ^ 29" "k \<le> n + q"
  shows "\<exists>t m. OsMemMergeNodeForReAllocBigger (of_nat k) (of_nat x) (of_nat n) (of_nat (x + n)) s = Some t \<and> k \<le> m \<and> moved P bs s x n t x m"
proof -
  let ?a = "first_node P" and ?U = OS_MEM_NODE_USED_FLAG
  note d = pool_invD [OF L]
  define u where "u = wr (of_nat x + 8) (of_nat n) s"
  note dt = detach_used [OF L bs x, folded u_def]
  have ok: "list_all okb xs" "list_all okb bs" "0 < n" "0 < q" using layoutD(1) [OF d(8)] bs by (auto simp: okb_def)
  have c: "coal xs" "coal ys" using d(5) bs by (auto simp: coal_mid coal_Cons)
  from join_next [OF dt(1) x] obtain v L1 where v: "OsMemFreeNodeDelete (of_nat (x + n)) u = Some v"
    "detached (OsMemMergeNode (of_nat (x + n)) v) ?a L1 xs (n + q) ys" "same_env u (OsMemMergeNode (of_nat (x + n)) v)"
    "\<And>w. w \<in> payload ?a (xs @ (n, ?U) # (q, 0) # ys) \<Longrightarrow> hm (OsMemMergeNode (of_nat (x + n)) v) w = hm u w" by blast
  let ?v = "OsMemMergeNode (of_nat (x + n)) v"
  have e: "OsMemMergeNodeForReAllocBigger (of_nat k) (of_nat x) (of_nat n) (of_nat (x + n)) s = trim_node (of_nat x) (of_nat k) ?v"
    unfolding OsMemMergeNodeForReAllocBigger_def trim_node_def u_def [symmetric] Let_def v(1) by simp
  have xn: "x \<in> nodes ?a bs" using mid_node [of ?a xs] by (simp add: bs x)
  have "in_use P (xs @ (n + q, 0) # ys) = in_use P (xs @ (n, 0) # (q, 0) # ys)" by (rule allocs_join [OF ok(1,3,4)])
  also have "\<dots> = (in_use P bs)(x := None)" using allocs_flag [OF ok(1), of ?a n 0 "(q, 0) # ys" ?U] by (simp add: bs x)
  finally have use: "in_use P (xs @ (n + q, 0) # ys) = (in_use P bs)(x := None)" .
  have pay: "payload ?a bs = payload ?a xs \<union> {x + 12 ..< x + n} \<union> payload (x + (n + q)) ys" by (auto simp: bs x add.assoc)
  have "hm ?v w = hm s w" if "w \<in> payload ?a xs \<union> {x + 12 ..< x + n} \<union> payload (x + (n + q)) ys" for w
  proof -
    have w: "w \<in> payload ?a bs" using that unfolding pay .
    then have "hm ?v w = hm u w" unfolding bs by (rule v(4))
    also have "\<dots> = hm s w" using payload_header [OF ok(2) w xn, of 8] by (intro dt(3)) simp
    finally show ?thesis .
  qed
  note h = this
  have be: "bend ?a bs = bend ?a (xs @ (n + q, 0) # ys)" by (simp add: bs add.assoc)
  show ?thesis unfolding e by (rule trim_moved [OF L v(2) same_env_trans [OF dt(2) v(3)] k x use be c eq_refl [OF pay] _ h]) simp_all
qed

section \<open>Moving to a new block\<close>

lemma copy_hm:
  assumes d: "dst + len \<le> 2 ^ 32" and s: "src + len \<le> 2 ^ 32" and "len < 2 ^ 32"
  shows "hm (copy_words (of_nat dst) (of_nat src) (of_nat len) u) w = (if dst \<le> w \<and> w < dst + len then hm u (src + (w - dst)) else hm u w)"
proof (cases "w < 2 ^ 32")
  case True
  have lt: "(of_nat w - of_nat dst :: u32) < of_nat len \<longleftrightarrow> dst \<le> w \<and> w < dst + len"
  proof (cases "dst \<le> w")
    case True
    then have "(of_nat w - of_nat dst :: u32) = of_nat (w - dst)" by (simp add: of_nat_diff)
    moreover have "w - dst < 2 ^ 32" using \<open>w < 2 ^ 32\<close> by simp
    ultimately have "unat (of_nat w - of_nat dst :: u32) = w - dst" using unat_of_nat32 by metis
    then show ?thesis using True unat_of_nat32 [OF assms(3)] unfolding word_less_nat_alt by auto
  next
    case False
    then have "(of_nat w - of_nat dst :: u32) = of_nat (2 ^ 32 + w - dst)" using d by (simp add: of_nat_diff)
    moreover have "2 ^ 32 + w - dst < 2 ^ 32" using False d by linarith
    ultimately have "unat (of_nat w - of_nat dst :: u32) = 2 ^ 32 + w - dst" using unat_of_nat32 by metis
    then show ?thesis using False d assms(3) unat_of_nat32 [OF assms(3)] unfolding word_less_nat_alt by linarith
  qed
  show ?thesis
  proof (cases "dst \<le> w \<and> w < dst + len")
    case c: True
    then have "(of_nat src + (of_nat w - of_nat dst) :: u32) = of_nat (src + (w - dst))" by (simp add: of_nat_diff)
    moreover have "src + (w - dst) < 2 ^ 32" using c s by linarith
    ultimately show ?thesis using c True lt by (simp add: hm_def copy_words_def add_diff_eq)
  qed (use True lt in \<open>auto simp: hm_def copy_words_def\<close>)
qed (use d in \<open>simp add: hm_def\<close>)

lemma word_dist:
  assumes "b + n \<le> a \<or> a + n \<le> b" and "a + n \<le> 2 ^ 32" "b + n \<le> 2 ^ 32" and "a < b + 2 ^ 30" "b < a + 2 ^ 30" and "n < 2 ^ 30"
  shows "(of_nat n :: u32) \<le> of_nat a - of_nat b"
proof (cases "b \<le> a")
  case True
  then have "(of_nat a - of_nat b :: u32) = of_nat (a - b)" by (simp add: of_nat_diff)
  moreover have "a - b < 2 ^ 32" "n \<le> a - b \<or> n = 0" using assms True by auto
  ultimately show ?thesis using of_nat_le32 [of n "a - b"] assms(6) by auto
next
  case False
  then have "(of_nat a - of_nat b :: u32) = of_nat (2 ^ 32 + a - b)" using assms(3) by (simp add: of_nat_diff)
  moreover have "2 ^ 32 + a - b < 2 ^ 32" "n \<le> 2 ^ 32 + a - b" "n < 2 ^ 32" using assms False by simp_all
  ultimately show ?thesis using of_nat_le32 [of n "2 ^ 32 + a - b"] by simp
qed

lemma realloc_move:
  assumes v: "pool_at P s bs" and x: "in_use P bs x = Some (n, OS_MEM_NODE_USED_FLAG)" and z: "8 \<le> z" "z + 16 \<le> 2 ^ 29" "of_nat z \<le> secMax s"
    and k: "n < aligned4 z"
  defines "r \<equiv> do {
      (s1, tmpPtr) \<leftarrow> OsMemAlloc (of_nat P) (of_nat z) s;
      if tmpPtr = 0 then Some (s1, 0)
      else if \<not> memcpy_s_ok (secMax s1) tmpPtr (of_nat z) (of_nat (x + 12)) (of_nat n - OS_MEM_NODE_HEAD_SIZE)
      then map_option (\<lambda>(s2, _). (s2, 0)) (LOS_MemFree (of_nat P) tmpPtr s1)
      else map_option (\<lambda>(s2, _). (s2, tmpPtr)) (OsMemFree (of_nat P) (of_nat x) (copy_words tmpPtr (of_nat (x + 12)) (of_nat n - OS_MEM_NODE_HEAD_SIZE) s1))
    }"
  shows "r = Some (s, 0) \<or> (\<exists>t y m. r = Some (t, of_nat (y + 12)) \<and> aligned4 z \<le> m \<and> moved P bs s x n t y m)"
proof -
  let ?a = "first_node P" and ?U = OS_MEM_NODE_USED_FLAG
  note ix = in_use_block [OF v x]
  have n12: "(of_nat n :: u32) - 12 = of_nat (n - 12)" using ix(2) by (simp add: of_nat_diff)
  from OsMemAlloc_call [OF v z(1,2)] show ?thesis
  proof (elim disjE exE conjE)
    fix y m t1 bs1 assume a: "OsMemAlloc (of_nat P) (of_nat z) s = Some (t1, of_nat (y + 12))" "pool_at P t1 bs1" "aligned4 z \<le> m"
      "comes P bs bs1 y m ?U" "kept P bs s t1"
    note cb = comes_block [OF a(2,4)]
    note iy = in_use_block [OF a(2) cb(1)]
    have xy: "x \<noteq> y" "in_use P bs y = None" "in_use P bs1 = (in_use P bs)(y \<mapsto> (m, ?U))" using a(4) x by (auto simp: comes_def)
    then have x1: "in_use P bs1 x = Some (n, ?U)" using x by simp
    have ok1: "list_all okb bs1" by (rule layoutD(1) [OF pool_at_layout [OF a(2)]])
    have far: "x + n \<le> y \<or> y + m \<le> x" using allocs_block_apart [OF ok1 x1 cb(1) xy(1)] .
    have nm: "n < m" using k a(3) by simp
    define u where "u = copy_words (of_nat (y + 12)) (of_nat (x + 12)) (of_nat (n - 12)) t1"
    have hu: "hm u w = (if y + 12 \<le> w \<and> w < y + n then hm t1 (x + 12 + (w - (y + 12))) else hm t1 w)" for w
      using copy_hm [of "y + 12" "n - 12" "x + 12" t1 w] ix(2,3,6) iy(6) nm by (simp add: u_def)
    have pu: "pool_at P u bs1"
    proof (rule payload_change [OF a(2)])
      show "same_env t1 u" "freeList u = freeList t1" "freeListBitmap u = freeListBitmap t1" by (simp_all add: u_def copy_words_def same_env_def)
      show "hm u w = hm t1 w" if "w \<notin> payload ?a bs1" for w
      proof -
        have "w \<notin> {y + 12 ..< y + m}" using that cb(2) by blast
        then have "\<not> (y + 12 \<le> w \<and> w < y + m)" by simp
        then have "\<not> (y + 12 \<le> w \<and> w < y + n)" using nm by linarith
        then show ?thesis unfolding hu by (rule if_not_P)
      qed
    qed
    from OsMemFree_call [OF pu x1] obtain t bs2 where t: "OsMemFree (of_nat P) (of_nat x) u = Some (t, LOS_OK)" "pool_at P t bs2"
      "in_use P bs2 = (in_use P bs1)(x := None)" "same_env u t" "\<And>w. w \<in> payload ?a bs1 \<Longrightarrow> w \<notin> {x ..< x + n} \<Longrightarrow> hm t w = hm u w" by blast
    have env: "same_env s t1" "secMax t1 = secMax s" using a(5) by (simp_all add: kept_def same_env_def)
    have y0: "(of_nat (y + 12) :: u32) \<noteq> 0" using of_nat32_0 [of "y + 12"] iy(2,6) by simp
    have x0: "(of_nat (x + 12) :: u32) \<noteq> 0" using of_nat32_0 [of "x + 12"] ix(2,6) by simp
    have cp: "memcpy_s_ok (secMax t1) (of_nat (y + 12)) (of_nat z) (of_nat (x + 12)) (of_nat (n - 12))"
    proof -
      have "n - 12 \<le> z"
      proof -
        have "4 dvd aligned4 z - n" using aligned4_bounds(2) [OF z(1)] ix(10) by (simp add: dvd_diff_nat)
        then have "4 \<le> aligned4 z - n" using k by (intro dvd_imp_le) simp_all
        then show ?thesis using aligned4_bounds(4) [OF z(1)] by linarith
      qed
      then have zl: "(of_nat (n - 12) :: u32) \<le> of_nat z" using of_nat_le32 [of "n - 12" z] z(2) ix(3) by simp
      have z0: "(of_nat z :: u32) \<noteq> 0" using of_nat32_0 [of z] z by simp
      have rng: "?a \<le> x" "?a \<le> y" "x + n \<le> bend ?a bs1" "y + m \<le> bend ?a bs1" "bend ?a bs1 < ?a + 2 ^ 29"
        using in_use_block(8,9) [OF a(2) x1] iy(8,9) layoutD(4) [OF pool_at_layout [OF a(2)]] by simp_all
      have "(of_nat (n - 12) :: u32) \<le> of_nat (y + 12) - of_nat (x + 12)" "(of_nat (n - 12) :: u32) \<le> of_nat (x + 12) - of_nat (y + 12)"
        using far rng nm ix(2,6) iy(6) by (intro word_dist; auto)+
      then show ?thesis unfolding memcpy_s_ok_def env(2) using zl z0 z(3) x0 y0 by simp
    qed
    have r: "r = Some (t, of_nat (y + 12))" unfolding r_def a(1) n12 using y0 cp t(1) by (simp add: u_def)
    have ok: "list_all okb bs" by (rule layoutD(1) [OF pool_at_layout [OF v]])
    have up: "w \<in> payload ?a bs1" if "w \<in> payload ?a bs" for w
    proof -
      from that obtain v' j f where f: "in_use P bs v' = Some (j, f)" "v' + 12 \<le> w" "w < v' + j" unfolding payload_allocs [OF ok] by blast
      then have "in_use P bs1 v' = Some (j, f)" using xy by auto
      with f(2,3) show ?thesis unfolding payload_allocs [OF ok1] by blast
    qed
    have "moved P bs s x n t y m" unfolding moved_def
    proof (intro conjI)
      show "\<exists>bs'. pool_at P t bs' \<and> in_use P bs' = (in_use P bs)(x := None, y \<mapsto> (m, ?U))"
        using t(2,3) xy by (intro exI [of _ bs2]) (simp add: fun_upd_twist)
      show "y = x \<or> in_use P bs y = None" using xy(2) by simp
      have "same_env t1 u" by (simp add: u_def copy_words_def same_env_def)
      then show "same_env s t" using env(1) t(4) same_env_trans by blast
      show "\<forall>w \<in> payload ?a bs - {x ..< x + n}. hm t w = hm s w"
      proof
        fix w assume w: "w \<in> payload ?a bs - {x ..< x + n}"
        then have "w \<notin> {y ..< y + m}" using a(4) by (auto simp: comes_def)
        then have "\<not> (y \<le> w \<and> w < y + m)" by simp
        then have "\<not> (y + 12 \<le> w \<and> w < y + n)" using nm by linarith
        then have "hm u w = hm t1 w" unfolding hu by (rule if_not_P)
        then show "hm t w = hm s w" using t(5) [of w] up [of w] w a(5) by (simp add: kept_def)
      qed
      show "\<forall>i. 12 + i < n \<and> 12 + i < m \<longrightarrow> hm t (y + 12 + i) = hm s (x + 12 + i)"
      proof (intro allI impI)
        fix i assume i: "12 + i < n \<and> 12 + i < m"
        have "y + 12 + i \<in> payload ?a bs1" using cb(2) i by auto
        moreover have "y + 12 + i \<notin> {x ..< x + n}" using far i by auto
        ultimately have "hm t (y + 12 + i) = hm u (y + 12 + i)" by (rule t(5))
        also have "\<dots> = hm t1 (x + 12 + i)" unfolding hu using i by simp
        also have "\<dots> = hm s (x + 12 + i)"
        proof -
          have "x + 12 + i \<in> payload ?a bs" using allocs_payload [OF x] i by auto
          then show ?thesis using a(5) by (simp add: kept_def)
        qed
        finally show "hm t (y + 12 + i) = hm s (x + 12 + i)" .
      qed
    qed
    then show ?thesis using r a(3) by blast
  qed (simp add: r_def)
qed

section \<open>The call\<close>

theorem LOS_MemRealloc_call:
  assumes v: "pool_at P s bs" and x: "in_use P bs x = Some (n, OS_MEM_NODE_USED_FLAG)" and z: "0 < z" "z + 16 \<le> 2 ^ 29" "of_nat (max z 8) \<le> secMax s"
  shows "LOS_MemRealloc (of_nat P) (of_nat (x + 12)) (of_nat z) s = Some (s, 0) \<or>
    (\<exists>t y m. LOS_MemRealloc (of_nat P) (of_nat (x + 12)) (of_nat z) s = Some (t, of_nat (y + 12)) \<and> aligned4 (max z 8) \<le> m \<and> moved P bs s x n t y m)"
proof -
  let ?a = "first_node P" and ?U = OS_MEM_NODE_USED_FLAG
  note r = request_size [OF z(1,2)]
  define c where "c = max z 8"
  note r = r [folded c_def]
  note ix = in_use_block [OF v x]
  from v obtain L where L: "pool_inv P s L bs" by (auto simp: pool_at_def)
  from allocs_in [OF x] obtain xs ys where bs: "bs = xs @ (n, ?U) # ys" and xe: "x = bend ?a xs" by blast
  have lx: "layout s ?a (xs @ (n, ?U) # ys)" using pool_at_layout [OF v] bs by simp
  have z29: "z < 2 ^ 29" using z(2) by simp
  have zf: "\<not> OS_MEM_NODE_GET_USED_FLAG (of_nat z)" "\<not> OS_MEM_NODE_GET_ALIGNED_FLAG (of_nat z)" using saf_flags(1,2) [OF z29 used_flag(3)] by simp_all
  have x0: "(of_nat (x + 12) :: u32) \<noteq> 0" using of_nat32_0 [of "x + 12"] ix(2,6) by simp
  have c0: "(of_nat c :: u32) \<noteq> 0" using of_nat32_0 [of c] r(4,5) by simp
  have m4: "(of_nat (x + 12) :: u32) - 4 = of_nat x + 8" "(of_nat (x + 12) :: u32) - 12 = of_nat x" by simp_all
  have sz: "mem s (of_nat x + 8) = of_nat n OR ?U" using mem_words(2) [of x s] ix(1,2,6) by simp
  have real: "OsGetRealPtr (of_nat P) (of_nat (x + 12)) s = of_nat (x + 12)"
    unfolding OsGetRealPtr_def m4 sz using saf_flags(2) [OF ix(3,4)] by (simp add: Let_def)
  have chk: "OsMemCheckUsedNode (of_nat P) (of_nat x) s = Some LOS_OK" by (rule check_used [OF L bs ix(5) xe])
  have code: "LOS_MemRealloc (of_nat P) (of_nat (x + 12)) (of_nat z) s = OsMemRealloc (of_nat P) (of_nat (x + 12)) (of_nat x) (of_nat c) s"
    unfolding LOS_MemRealloc_def Let_def r(1) real m4(2) chk using pool_nonzero [OF v] zf x0 c0 by simp
  define k where "k = aligned4 c"
  have k: "20 \<le> k" "4 dvd k" "k < 2 ^ 29" using aligned4_bounds [OF r(4)] r(5) by (auto simp: k_def)
  have al: "OS_MEM_ALIGN (of_nat c + 12) 4 = of_nat k" using ALIGN_eq [of c] r(5) by (simp add: k_def)
  have ns: "OS_MEM_NODE_GET_SIZE (mem s (of_nat x + 8)) = of_nat n" unfolding sz using saf_size [OF ix(3), of ?U] flags_low [of ?U] ix(4) by simp
  have le: "(of_nat k :: u32) \<le> of_nat n \<longleftrightarrow> k \<le> n" using of_nat_le32 [of k n] k(3) ix(3) by simp
  have nx: "OS_MEM_NEXT_NODE (of_nat x) s = of_nat (x + n)" by (rule next_node [OF lx xe])
  note code = code [unfolded OsMemRealloc_def Let_def al ns le nx]
  show ?thesis
  proof (cases "k \<le> n")
    case True
    with realloc_smaller [OF L bs xe k] show ?thesis unfolding code c_def [symmetric] k_def [symmetric] by auto
  next
    case big: False
    show ?thesis
    proof (cases "\<exists>q zs. ys = (q, 0) # zs \<and> k \<le> n + q")
      case True
      then obtain q zs where q: "ys = (q, 0) # zs" "k \<le> n + q" by blast
      have l2: "layout s ?a ((xs @ [(n, ?U)]) @ (q, 0) # zs)" using lx q(1) by simp
      have "mem s (of_nat (x + n) + 8) = of_nat q" using layout_mid(2) [OF l2] mem_words(2) [of "x + n" s] ix(6) by (simp add: xe)
      moreover have "\<not> OS_MEM_NODE_GET_USED_FLAG (of_nat q)" using saf_flags(1) [OF layout_mid(7) [OF l2] used_flag(3)] by simp
      moreover have "(of_nat k :: u32) \<le> of_nat q + of_nat n"
        using of_nat_le32 [of k "q + n"] k(3) q(2) layout_mid(7) [OF l2] ix(3) by (simp add: add.commute)
      ultimately show ?thesis unfolding code c_def [symmetric] k_def [symmetric]
        using realloc_bigger [OF L bs [unfolded q(1)] xe k q(2)] big by auto
    next
      case False
      have "OS_MEM_NODE_GET_USED_FLAG (mem s (of_nat (x + n) + 8)) \<or> \<not> of_nat k \<le> mem s (of_nat (x + n) + 8) + of_nat n"
      proof (cases "ys = [] \<or> snd (hd ys) \<noteq> 0")
        case True
        then have "OS_MEM_NODE_GET_USED_FLAG (hm s (x + n + 8))" using next_header(2) [OF lx] by (simp add: xe)
        then show ?thesis using mem_words(2) [of "x + n" s] ix(6) by simp
      next
        case f: False
        then obtain q zs where q: "ys = (q, 0) # zs" by (cases ys) (auto simp: prod_eq_iff)
        have l2: "layout s ?a ((xs @ [(n, ?U)]) @ (q, 0) # zs)" using lx q by simp
        have "mem s (of_nat (x + n) + 8) = of_nat q" using layout_mid(2) [OF l2] mem_words(2) [of "x + n" s] ix(6) by (simp add: xe)
        moreover have "\<not> (of_nat k :: u32) \<le> of_nat q + of_nat n"
          using of_nat_le32 [of k "q + n"] k(3) q False layout_mid(7) [OF l2] ix(3) by (simp add: add.commute)
        ultimately show ?thesis by simp
      qed
      then show ?thesis unfolding code c_def [symmetric] k_def [symmetric]
        using realloc_move [OF v x r(4,5) z(3) [folded c_def], folded k_def] big by (auto simp: not_le)
    qed
  qed
qed

end
