(* ===== verification/LosTlsfHist.thy ===== *)
theory LosTlsfHist
  imports LosTlsfRealloc LosRefine
begin

text \<open>
  Histories of the heap. A client calls the functions of the interface in any order and writes words of the blocks it holds; the specification is a store
  of blocks, each with its size and contents. Every history of calls is a history of the store with the same calls and answers, and every call returns.
\<close>

section \<open>The blocks a client holds\<close>

text \<open>The pointers a client holds, each with the size asked for and whether it came from \<open>LOS_MemAllocAlign\<close>.\<close>

type_synonym client = "nat \<rightharpoonup> nat \<times> bool"

text \<open>\<open>M\<close> maps the blocks in use to their sizes and flags, \<open>h\<close> a pointer to the block behind it.\<close>

definition placed :: "tlsf \<Rightarrow> (nat \<rightharpoonup> block) \<Rightarrow> client \<Rightarrow> (nat \<Rightarrow> nat) \<Rightarrow> bool" where
  "placed s M U h \<longleftrightarrow> inj_on h (dom U) \<and> h ` dom U = dom M \<and>
    (\<forall>p z a. U p = Some (z, a) \<longrightarrow> (\<exists>n f. M (h p) = Some (n, f) \<and> holds s p z (h p) n f \<and> (\<not> a \<longrightarrow> f = OS_MEM_NODE_USED_FLAG)))"

lemma placedD:
  assumes "placed s M U h"
  shows "inj_on h (dom U)" and "h ` dom U = dom M"
    and "U p = Some (z, a) \<Longrightarrow> \<exists>n f. M (h p) = Some (n, f) \<and> holds s p z (h p) n f \<and> (\<not> a \<longrightarrow> f = OS_MEM_NODE_USED_FLAG)"
  using assms by (auto simp: placed_def)

lemma placed_start: "placed s Map.empty Map.empty h"
  by (simp add: placed_def)

lemma placed_drop:
  assumes U: "placed s M U h" and p: "U p = Some c"
  shows "placed s (M(h p := None)) (U(p := None)) h"
proof -
  note d = placedD [OF U]
  have ne: "h q \<noteq> h p" if "U q = Some b" "q \<noteq> p" for q b using d(1) that p by (auto dest: inj_onD)
  have "inj_on h (dom (U(p := None)))" using d(1) by (rule inj_on_subset) auto
  moreover have "h ` dom (U(p := None)) = dom (M(h p := None))"
  proof -
    have "h ` (dom U - {p}) = h ` dom U - {h p}" using inj_on_image_set_diff [OF d(1), of "dom U" "{p}"] p by auto
    then show ?thesis using d(2) by simp
  qed
  ultimately show ?thesis unfolding placed_def using d(3) ne by (auto split: if_splits)
qed

lemma placed_add:
  assumes U: "placed s M U h" and y: "M y = None" and q: "q \<notin> dom U" and n: "holds s q z y m f" "\<not> a \<longrightarrow> f = OS_MEM_NODE_USED_FLAG"
  shows "placed s (M(y \<mapsto> (m, f))) (U(q \<mapsto> (z, a))) (h(q := y))"
proof -
  note d = placedD [OF U]
  have ny: "h p \<noteq> y" if "p \<in> dom U" for p using d(2) y that by (metis domIff imageI)
  have e: "(h(q := y)) ` dom U = h ` dom U" using q by (intro image_cong) auto
  have "inj_on (h(q := y)) (dom (U(q \<mapsto> (z, a))))" using d(1) q ny by (auto simp: inj_on_def)
  moreover have "(h(q := y)) ` dom (U(q \<mapsto> (z, a))) = dom (M(y \<mapsto> (m, f)))"
  proof -
    have "(h(q := y)) ` insert q (dom U) = insert y (h ` dom U)" unfolding image_insert e by simp
    then show ?thesis using d(2) by (simp only: dom_fun_upd option.distinct if_False)
  qed
  moreover have "\<exists>n g. (M(y \<mapsto> (m, f))) ((h(q := y)) p) = Some (n, g) \<and> holds s p w ((h(q := y)) p) n g \<and> (\<not> b \<longrightarrow> g = OS_MEM_NODE_USED_FLAG)"
    if "(U(q \<mapsto> (z, a))) p = Some (w, b)" for p w b
  proof (cases "p = q")
    case False
    then have "U p = Some (w, b)" using that by simp
    with d(3) [OF this] ny [of p] False show ?thesis by auto
  qed (use that n in auto)
  ultimately show ?thesis unfolding placed_def by blast
qed

lemma placed_cong:
  assumes "placed s M U h" and "\<And>p z a. U p = Some (z, a) \<Longrightarrow> h p + 12 < p \<Longrightarrow> hm t (p - 4) = hm s (p - 4)"
  shows "placed t M U h"
proof -
  have "\<exists>n f. M (h p) = Some (n, f) \<and> holds t p z (h p) n f \<and> (\<not> a \<longrightarrow> f = OS_MEM_NODE_USED_FLAG)" if "U p = Some (z, a)" for p z a
    using placedD(3) [OF assms(1) that] holds_cong [of s p z "h p" _ _ t] assms(2) [OF that] by blast
  then show ?thesis using assms(1) by (simp add: placed_def)
qed

text \<open>Different pointers have their memory apart.\<close>

lemma placed_apart:
  assumes U: "placed s M U h" and p: "U p = Some (z, a)" and ok: "list_all okb bs" and M: "M \<subseteq>\<^sub>m allocs A bs" and y: "allocs A bs y = Some (m, f)" "y \<noteq> h p"
  shows "p + z \<le> y \<or> y + m + 12 \<le> p"
proof -
  from placedD(3) [OF U p] obtain n g where n: "M (h p) = Some (n, g)" "holds s p z (h p) n g" by blast
  then have "allocs A bs (h p) = Some (n, g)" using M by (metis domI map_le_def)
  from allocs_block_apart [OF ok this y(1) y(2) [symmetric]] show ?thesis using n(2) by (auto simp: holds_def)
qed

lemma placed_pair:
  assumes U: "placed s (allocs A bs) U h" and ok: "list_all okb bs" and p: "U p = Some (z, a)" and q: "U q = Some (y, b)" and ne: "p \<noteq> q"
  shows "p + z \<le> q \<or> q + y \<le> p"
proof -
  from placedD(3) [OF U q] obtain n g where n: "allocs A bs (h q) = Some (n, g)" "holds s q y (h q) n g" by blast
  have "h q \<noteq> h p" using placedD(1) [OF U] p q ne by (auto dest: inj_onD)
  from placed_apart [OF U p ok map_le_refl n(1) this] n(2) show ?thesis by (auto simp: holds_def)
qed

section \<open>The specification\<close>

text \<open>The words of the blocks of a client.\<close>

type_synonym store = "nat \<rightharpoonup> nat \<times> bool \<times> u32 list"

definition words_of :: "tlsf \<Rightarrow> nat \<Rightarrow> nat \<Rightarrow> u32 list" where
  "words_of s p z = map (\<lambda>i. hm s (p + 4 * i)) [0 ..< z div 4]"

definition store_of :: "tlsf \<Rightarrow> client \<Rightarrow> store" where
  "store_of s U = (\<lambda>p. map_option (\<lambda>(z, a). (z, a, words_of s p z)) (U p))"

text \<open>The bytes from \<open>p\<close> to \<open>p + z\<close> lie between \<open>lo\<close> and \<open>hi\<close> and belong to no block.\<close>

definition room :: "nat \<Rightarrow> nat \<Rightarrow> store \<Rightarrow> nat \<Rightarrow> nat \<Rightarrow> bool" where
  "room lo hi A p z \<longleftrightarrow> 0 < z \<and> 4 dvd p \<and> lo \<le> p \<and> p + z \<le> hi \<and> p \<notin> dom A \<and> (\<forall>q y b ws. A q = Some (y, b, ws) \<longrightarrow> p + z \<le> q \<or> q + y \<le> p)"

text \<open>The calls of a client; \<open>MWrite p i v\<close> is a write of word \<open>i\<close> of the block at \<open>p\<close>. A step is labelled with the call and its answer: a pointer, which is 0 for a refusal,
  or a status.\<close>

datatype heap_op = MAlloc nat | MAllocAlign nat nat | MFree nat | MRealloc nat nat | MWrite nat nat u32

fun is_request :: "heap_op \<Rightarrow> bool" where
  "is_request (MAlloc z) = True"
| "is_request (MAllocAlign z j) = True"
| "is_request (MRealloc p y) = True"
| "is_request (MFree p) = False"
| "is_request (MWrite p i v) = False"

text \<open>The only choices left open are the place of a new block and the words it has at first.\<close>

inductive heap_spec :: "nat \<Rightarrow> nat \<Rightarrow> store \<Rightarrow> heap_op \<times> u32 \<Rightarrow> store \<Rightarrow> bool" for lo hi where
  spec_alloc: "room lo hi A (unat r) z \<Longrightarrow> length ws = z div 4 \<Longrightarrow> heap_spec lo hi A (MAlloc z, r) (A(unat r \<mapsto> (z, False, ws)))"
| spec_align: "room lo hi A (unat r) z \<Longrightarrow> 2 ^ j dvd unat r \<Longrightarrow> length ws = z div 4 \<Longrightarrow> heap_spec lo hi A (MAllocAlign z j, r) (A(unat r \<mapsto> (z, True, ws)))"
| spec_refuse: "is_request op \<Longrightarrow> heap_spec lo hi A (op, 0) A"
| spec_free: "p \<in> dom A \<Longrightarrow> heap_spec lo hi A (MFree p, LOS_OK) (A(p := None))"
| spec_realloc: "A p = Some (z, a, ws) \<Longrightarrow> room lo hi (A(p := None)) (unat r) y \<Longrightarrow> length vs = y div 4 \<Longrightarrow>
    take (min (length ws) (length vs)) vs = take (min (length ws) (length vs)) ws \<Longrightarrow> heap_spec lo hi A (MRealloc p y, r) (A(p := None, unat r \<mapsto> (y, a, vs)))"
| spec_write: "A p = Some (z, a, ws) \<Longrightarrow> i < length ws \<Longrightarrow> heap_spec lo hi A (MWrite p i v, 0) (A(p \<mapsto> (z, a, ws[i := v])))"

text \<open>The same calls of the code. A pointer of \<open>LOS_MemAllocAlign\<close> is not passed to \<open>LOS_MemRealloc\<close>.\<close>

inductive heap_step :: "nat \<Rightarrow> tlsf \<times> client \<Rightarrow> heap_op \<times> u32 \<Rightarrow> tlsf \<times> client \<Rightarrow> bool" for P where
  step_alloc: "0 < z \<Longrightarrow> z + 16 \<le> 2 ^ 29 \<Longrightarrow> LOS_MemAlloc (of_nat P) (of_nat z) s = Some (t, p) \<Longrightarrow>
    heap_step P (s, U) (MAlloc z, p) (t, if p = 0 then U else U(unat p \<mapsto> (z, False)))"
| step_align: "0 < z \<Longrightarrow> 2 \<le> j \<Longrightarrow> z + 2 ^ j + 24 \<le> 2 ^ 29 \<Longrightarrow> LOS_MemAllocAlign (of_nat P) (of_nat z) (2 ^ j) s = Some (t, p) \<Longrightarrow>
    heap_step P (s, U) (MAllocAlign z j, p) (t, if p = 0 then U else U(unat p \<mapsto> (z, True)))"
| step_free: "p \<in> dom U \<Longrightarrow> LOS_MemFree (of_nat P) (of_nat p) s = Some (t, r) \<Longrightarrow> heap_step P (s, U) (MFree p, r) (t, U(p := None))"
| step_realloc: "U p = Some (z, False) \<Longrightarrow> 0 < y \<Longrightarrow> y + 16 \<le> 2 ^ 29 \<Longrightarrow> of_nat (max y 8) \<le> secMax s \<Longrightarrow>
    LOS_MemRealloc (of_nat P) (of_nat p) (of_nat y) s = Some (t, q) \<Longrightarrow>
    heap_step P (s, U) (MRealloc p y, q) (t, if q = 0 then U else U(p := None, unat q \<mapsto> (y, False)))"
| step_write: "U p = Some (z, a) \<Longrightarrow> i < z div 4 \<Longrightarrow> heap_step P (s, U) (MWrite p i v, 0) (wr (of_nat (p + 4 * i)) v s, U)"

definition heap_inv :: "nat \<Rightarrow> nat \<Rightarrow> tlsf \<times> client \<Rightarrow> bool" where
  "heap_inv P hi c \<longleftrightarrow> P + unat (totalSize (fst c)) = hi + 12 \<and> (\<exists>bs h. pool_at P (fst c) bs \<and> placed (fst c) (in_use P bs) (snd c) h)"

lemma heap_invE:
  assumes "heap_inv P hi (s, U)"
  obtains bs h where "pool_at P s bs" "placed s (in_use P bs) U h" "list_all okb bs" "bend (first_node P) bs = hi" "P + unat (totalSize s) = hi + 12"
proof -
  from assms obtain bs h where b: "pool_at P s bs" "placed s (in_use P bs) U h" "P + unat (totalSize s) = hi + 12" by (auto simp: heap_inv_def)
  from b(1) obtain L where "pool_inv P s L bs" by (auto simp: pool_at_def)
  note d = pool_invD [OF this]
  show ?thesis using that [OF b(1,2) layoutD(1) [OF d(8)] _ b(3)] d(3) b(3) by simp
qed

lemma heap_invI: "pool_at P t bs \<Longrightarrow> placed t (in_use P bs) U h \<Longrightarrow> same_env s t \<Longrightarrow> P + unat (totalSize s) = hi + 12 \<Longrightarrow> heap_inv P hi (t, U)"
  by (auto simp: heap_inv_def same_env_def)

text \<open>The memory of a block: inside the pool and inside a block in use.\<close>

lemma live_range:
  assumes v: "pool_at P s bs" and U: "placed s (in_use P bs) U h" and p: "U p = Some (z, a)"
  shows "first_node P + 12 \<le> p" and "p + z \<le> bend (first_node P) bs" and "4 dvd p" and "0 < z" and "{p ..< p + z} \<subseteq> payload (first_node P) bs"
    and "h p + 12 < p \<Longrightarrow> p - 4 \<in> payload (first_node P) bs" and "p < 2 ^ 32"
proof -
  from placedD(3) [OF U p] obtain n f where n: "in_use P bs (h p) = Some (n, f)" "holds s p z (h p) n f" by blast
  note ib = in_use_block [OF v n(1)]
  have h: "0 < z" "h p + 12 \<le> p" "p + z \<le> h p + n" "4 dvd p" using n(2) by (auto simp: holds_def)
  show "first_node P + 12 \<le> p" "p + z \<le> bend (first_node P) bs" "4 dvd p" "0 < z" "p < 2 ^ 32" using h ib(6,8,9) by auto
  have s: "{h p + 12 ..< h p + n} \<subseteq> payload (first_node P) bs" by (rule allocs_payload [OF n(1)])
  show "{p ..< p + z} \<subseteq> payload (first_node P) bs" using h by (intro subset_trans [OF _ s]) auto
  assume "h p + 12 < p"
  moreover have "4 dvd p - (h p + 12)" using h(4) ib(7) by (simp add: dvd_diff_nat)
  ultimately have "4 \<le> p - (h p + 12)" by (intro dvd_imp_le) simp_all
  then have "p - 4 \<in> {h p + 12 ..< h p + n}" using h by auto
  then show "p - 4 \<in> payload (first_node P) bs" using s by blast
qed

section \<open>Every step is a step of the specification\<close>

lemma store_upd:
  "store_of s (U(p \<mapsto> (z, a))) = (store_of s U)(p \<mapsto> (z, a, words_of s p z))" "store_of s (U(p := None)) = (store_of s U)(p := None)"
  by (simp_all add: store_of_def fun_eq_iff)

lemma store_dom: "dom (store_of s U) = dom U"
  by (auto simp: store_of_def)

lemma words_cong: "(\<And>w. w \<in> {p ..< p + z} \<Longrightarrow> hm t w = hm s w) \<Longrightarrow> words_of t p z = words_of s p z"
proof -
  assume h: "\<And>w. w \<in> {p ..< p + z} \<Longrightarrow> hm t w = hm s w"
  have "p + 4 * i \<in> {p ..< p + z}" if "i < z div 4" for i using that by auto
  then show ?thesis unfolding words_of_def using h by auto
qed

lemma store_cong:
  assumes "\<And>p z a w. U p = Some (z, a) \<Longrightarrow> w \<in> {p ..< p + z} \<Longrightarrow> hm t w = hm s w"
  shows "store_of t U = store_of s U"
proof
  fix p
  show "store_of t U p = store_of s U p"
  proof (cases "U p")
    case (Some c)
    then show ?thesis using words_cong [of p "fst c" t s] assms [of p "fst c" "snd c"] by (simp add: store_of_def split_beta)
  qed (simp add: store_of_def)
qed

lemma new_room:
  assumes v: "pool_at P t bs" and U: "placed t (in_use P bs) (U(p \<mapsto> (z, a))) h" and p: "p \<notin> dom U" and hi: "bend (first_node P) bs = hi"
  shows "room (P + 948) hi (store_of s U) p z"
proof -
  have pz: "(U(p \<mapsto> (z, a))) p = Some (z, a)" by simp
  note l = live_range [OF v U pz]
  have ok: "list_all okb bs" by (rule layoutD(1) [OF pool_at_layout [OF v]])
  have "p + z \<le> q \<or> q + y \<le> p" if "store_of s U q = Some (y, b, ws)" for q y b ws
  proof -
    have q: "U q = Some (y, b)" using that by (auto simp: store_of_def)
    then have "p \<noteq> q" using p by auto
    moreover from this q have "(U(p \<mapsto> (z, a))) q = Some (y, b)" by simp
    ultimately show ?thesis using placed_pair [OF U ok pz] by blast
  qed
  then show ?thesis using l(1-4) hi p unfolding room_def store_dom by auto
qed

lemma pool_end: "pool_at P s bs \<Longrightarrow> bend (first_node P) bs + 12 = P + unat (totalSize s)"
  unfolding pool_at_def using pool_invD(3) by fastforce

lemma grant:
  assumes v: "pool_at P s bs" and U: "placed s (in_use P bs) U h" and hi: "P + unat (totalSize s) = hi + 12"
    and c: "comes P bs bs' x m f" and t: "pool_at P t bs'" "kept P bs s t" and n: "holds t p z x m f" "\<not> a \<longrightarrow> f = OS_MEM_NODE_USED_FLAG"
  shows "heap_inv P hi (t, U(p \<mapsto> (z, a)))" and "store_of t (U(p \<mapsto> (z, a))) = (store_of s U)(p \<mapsto> (z, a, words_of t p z))"
    and "unat (of_nat p :: u32) = p" and "(of_nat p :: u32) \<noteq> 0" and "room (P + 948) hi (store_of s U) p z"
proof -
  have k: "same_env s t" "\<And>w. w \<in> payload (first_node P) bs \<Longrightarrow> hm t w = hm s w" using t(2) by (auto simp: kept_def)
  have cu: "in_use P bs x = None" "in_use P bs' = (in_use P bs)(x \<mapsto> (m, f))" "{x ..< x + m} \<inter> payload (first_node P) bs = {}" using c by (auto simp: comes_def)
  have px: "p \<in> {x ..< x + m}" using n(1) by (auto simp: holds_def)
  have nd: "p \<notin> dom U"
  proof
    assume "p \<in> dom U"
    then obtain z' a' where "U p = Some (z', a')" by auto
    note l = live_range [OF v U this]
    from l(4,5) have "p \<in> payload (first_node P) bs" by auto
    with px cu(3) show False by blast
  qed
  have "placed t (in_use P bs) U h" by (rule placed_cong [OF U]) (use live_range(6) [OF v U] k(2) in blast)
  from placed_add [OF this cu(1) nd n] have pl: "placed t (in_use P bs') (U(p \<mapsto> (z, a))) (h(p := x))" unfolding cu(2) .
  show "heap_inv P hi (t, U(p \<mapsto> (z, a)))" by (rule heap_invI [OF t(1) pl k(1) hi])
  have "unat (totalSize t) = unat (totalSize s)" using k(1) by (simp add: same_env_def)
  then have be: "bend (first_node P) bs' = hi" using pool_end [OF t(1)] hi by simp
  have "store_of t U = store_of s U" by (rule store_cong) (use live_range(5) [OF v U] k(2) in blast)
  then show "store_of t (U(p \<mapsto> (z, a))) = (store_of s U)(p \<mapsto> (z, a, words_of t p z))" unfolding store_upd by simp
  show "room (P + 948) hi (store_of s U) p z" by (rule new_room [OF t(1) pl nd be])
  have "(U(p \<mapsto> (z, a))) p = Some (z, a)" by simp
  note l = live_range [OF t(1) pl this]
  show "unat (of_nat p :: u32) = p" by (rule unat_of_nat32 [OF l(7)])
  then show "(of_nat p :: u32) \<noteq> 0" using l(1) by auto
qed

text \<open>Where the words outside the block of \<open>p\<close> are kept, the other pointers keep their blocks and their contents.\<close>

lemma others_kept:
  assumes v: "pool_at P s bs" and U: "placed s (in_use P bs) U h" and p: "U p = Some c" and n: "in_use P bs (h p) = Some (n, f)"
    and k: "\<forall>w \<in> payload (first_node P) bs - {h p ..< h p + n}. hm t w = hm s w"
  shows "placed t ((in_use P bs)(h p := None)) (U(p := None)) h" and "store_of t (U(p := None)) = (store_of s U)(p := None)"
proof -
  have other: "w \<notin> {h p ..< h p + n}" if "U q = Some (y, b)" "q \<noteq> p" "h q + 12 \<le> w" "w < q + y" for q y b w
  proof -
    from placedD(3) [OF U that(1)] obtain m g where m: "in_use P bs (h q) = Some (m, g)" "holds s q y (h q) m g" by blast
    have "h q \<noteq> h p" using placedD(1) [OF U] p that(1,2) by (auto dest: inj_onD)
    from allocs_block_apart [OF layoutD(1) [OF pool_at_layout [OF v]] m(1) n(1) this] m(2) that(3,4) show ?thesis by (auto simp: holds_def)
  qed
  show "placed t ((in_use P bs)(h p := None)) (U(p := None)) h"
  proof (rule placed_cong [OF placed_drop [OF U p]])
    fix q y b assume "(U(p := None)) q = Some (y, b)" and q: "h q + 12 < q"
    then have u: "U q = Some (y, b)" "q \<noteq> p" by (auto split: if_splits)
    note l = live_range [OF v U u(1)]
    from placedD(3) [OF U u(1)] obtain m g where m: "in_use P bs (h q) = Some (m, g)" by blast
    have "4 dvd q - (h q + 12)" using l(3) in_use_block(7) [OF v m] by (simp add: dvd_diff_nat)
    then have "4 \<le> q - (h q + 12)" using q by (intro dvd_imp_le) simp_all
    then show "hm t (q - 4) = hm s (q - 4)" using l(4) by (intro k [rule_format] DiffI l(6) [OF q] other [OF u]) simp_all
  qed
  have "store_of t (U(p := None)) = store_of s (U(p := None))"
  proof (rule store_cong)
    fix q y b w assume "(U(p := None)) q = Some (y, b)" and w: "w \<in> {q ..< q + y}"
    then have u: "U q = Some (y, b)" "q \<noteq> p" by (auto split: if_splits)
    from placedD(3) [OF U u(1)] have "h q + 12 \<le> q" by (auto simp: holds_def)
    then show "hm t w = hm s w" using live_range(5) [OF v U u(1)] w by (intro k [rule_format] DiffI other [OF u]) auto
  qed
  then show "store_of t (U(p := None)) = (store_of s U)(p := None)" by (simp add: store_upd)
qed

lemma release:
  assumes v: "pool_at P s bs" and U: "placed s (in_use P bs) U h" and p: "U p = Some c"
  shows "\<exists>t bs' j. LOS_MemFree (of_nat P) (of_nat p) s = Some (t, LOS_OK) \<and> pool_at P t bs' \<and> same_env s t \<and> placed t (in_use P bs') (U(p := None)) h \<and>
    store_of t (U(p := None)) = (store_of s U)(p := None) \<and> hm t (h p + 8) = of_nat j \<and> j < 2 ^ 29"
proof -
  from placedD(3) [OF U, of p "fst c" "snd c"] p obtain n f where n: "in_use P bs (h p) = Some (n, f)" "holds s p (fst c) (h p) n f" by auto
  from LOS_MemFree_call [OF v n] obtain t bs' j where t: "LOS_MemFree (of_nat P) (of_nat p) s = Some (t, LOS_OK)" "pool_at P t bs'"
    "in_use P bs' = (in_use P bs)(h p := None)" "same_env s t" "\<forall>w \<in> payload (first_node P) bs - {h p ..< h p + n}. hm t w = hm s w"
    "hm t (h p + 8) = of_nat j" "j < 2 ^ 29" by blast
  from others_kept [OF v U p n(1) t(5)] have "placed t (in_use P bs') (U(p := None)) h" "store_of t (U(p := None)) = (store_of s U)(p := None)" unfolding t(3) .
  with t(1,2,4,6,7) show ?thesis by blast
qed

lemma resize:
  assumes v: "pool_at P s bs" and U: "placed s (in_use P bs) U h" and hi: "P + unat (totalSize s) = hi + 12" and p: "U p = Some (z, False)"
    and n: "in_use P bs (h p) = Some (n, f)" and t: "moved P bs s (h p) n t y m" "k + 12 \<le> m" "0 < k" and q: "q = y + 12"
  shows "heap_inv P hi (t, U(p := None, q \<mapsto> (k, False)))" and "heap_spec (P + 948) hi (store_of s U) (MRealloc p k, of_nat q) (store_of t (U(p := None, q \<mapsto> (k, False))))"
    and "unat (of_nat q :: u32) = q" and "(of_nat q :: u32) \<noteq> 0"
proof -
  let ?M = "(in_use P bs)(h p := None)" and ?U = OS_MEM_NODE_USED_FLAG and ?V = "U(p := None)"
  from t(1) obtain bs' where b: "pool_at P t bs'" "in_use P bs' = ?M(y \<mapsto> (m, ?U))" and y: "?M y = None" and e: "same_env s t"
    and kp: "\<forall>w \<in> payload (first_node P) bs - {h p ..< h p + n}. hm t w = hm s w"
    and cp: "\<And>i. 12 + i < n \<Longrightarrow> 12 + i < m \<Longrightarrow> hm t (y + 12 + i) = hm s (h p + 12 + i)" by (auto simp: moved_def)
  note o = others_kept [OF v U p n kp]
  have iy: "in_use P bs' y = Some (m, ?U)" using b(2) by simp
  have ok: "list_all okb bs'" by (rule layoutD(1) [OF pool_at_layout [OF b(1)]])
  have le: "?M \<subseteq>\<^sub>m in_use P bs'" unfolding b(2) using y by (auto simp: map_le_def)
  have nd: "q \<notin> dom ?V"
  proof
    assume "q \<in> dom ?V"
    then obtain z' a' where c: "?V q = Some (z', a')" by (cases "?V q") auto
    have "h q \<noteq> y" using placedD(2) [OF o(1)] c y by (metis domI domIff imageI)
    from placed_apart [OF o(1) c ok le iy this [symmetric]] live_range(4) [OF v U, of q z' a'] c t(2,3) q show False by (auto split: if_splits)
  qed
  have "4 dvd y" by (rule in_use_block(7) [OF b(1) iy])
  then have "holds t q k y m ?U" using t(2,3) q by (simp add: holds_def)
  from placed_add [OF o(1) y nd this] have pl: "placed t (in_use P bs') (?V(q \<mapsto> (k, False))) (h(q := y))" unfolding b(2) by blast
  show "heap_inv P hi (t, ?V(q \<mapsto> (k, False)))" by (rule heap_invI [OF b(1) pl e hi])
  have "unat (totalSize t) = unat (totalSize s)" using e by (simp add: same_env_def)
  then have be: "bend (first_node P) bs' = hi" using pool_end [OF b(1)] hi by simp
  have w: "take (min (z div 4) (k div 4)) (words_of t q k) = take (min (z div 4) (k div 4)) (words_of s p z)"
  proof (rule nth_equalityI)
    from placedD(3) [OF U p] n have ph: "p = h p + 12" "p + z \<le> h p + n" by (auto simp: holds_def)
    fix i assume "i < length (take (min (z div 4) (k div 4)) (words_of t q k))"
    then have i: "i < z div 4" "i < k div 4" by (simp_all add: words_of_def)
    then have "12 + 4 * i < n" "12 + 4 * i < m" using ph t(2) by linarith+
    from cp [OF this] have "hm t (q + 4 * i) = hm s (p + 4 * i)" using ph(1) q by simp
    then show "take (min (z div 4) (k div 4)) (words_of t q k) ! i = take (min (z div 4) (k div 4)) (words_of s p z) ! i"
      using i by (simp add: words_of_def)
  qed (simp add: words_of_def)
  have sp: "store_of s U p = Some (z, False, words_of s p z)" using p by (simp add: store_of_def)
  have len: "length (words_of s' r j) = j div 4" for s' r j by (simp add: words_of_def)
  have "(?V(q \<mapsto> (k, False))) q = Some (k, False)" by simp
  note l = live_range [OF b(1) pl this]
  show uq: "unat (of_nat q :: u32) = q" by (rule unat_of_nat32 [OF l(7)])
  then show "(of_nat q :: u32) \<noteq> 0" using l(1) by auto
  have "heap_spec (P + 948) hi (store_of s U) (MRealloc p k, of_nat q) ((store_of s U)(p := None, unat (of_nat q :: u32) \<mapsto> (k, False, words_of t q k)))"
  proof (rule spec_realloc [of "store_of s U" p, OF sp _ len])
    show "room (P + 948) hi ((store_of s U)(p := None)) (unat (of_nat q :: u32)) k" using new_room [OF b(1) pl nd be, of s] uq by (simp add: store_upd)
  qed (simp add: len w)
  then show "heap_spec (P + 948) hi (store_of s U) (MRealloc p k, of_nat q) (store_of t (?V(q \<mapsto> (k, False))))" unfolding store_upd(1) o(2) uq .
qed

lemma alloc_holds:
  assumes "pool_at P t bs'" and "comes P bs bs' x m OS_MEM_NODE_USED_FLAG" and "0 < z" and "aligned4 (max z 8) \<le> m"
  shows "holds t (x + 12) z x m OS_MEM_NODE_USED_FLAG"
proof -
  have "max z 8 + 12 \<le> m" using aligned4_bounds(3) [of "max z 8"] assms(4) by simp
  moreover have "4 dvd x" by (rule in_use_block(7) [OF assms(1) comes_block(1) [OF assms(1,2)]])
  ultimately show ?thesis using assms(3) by (simp add: holds_def)
qed

text \<open>The words a client writes are those of its own blocks.\<close>

lemma write_step:
  fixes v :: u32
  assumes b: "pool_at P s bs" and U: "placed s (in_use P bs) U h" and hi: "P + unat (totalSize s) = hi + 12" and p: "U p = Some (z, a)" "i < z div 4"
  defines "t \<equiv> wr (of_nat (p + 4 * i)) v s"
  shows "heap_inv P hi (t, U)" and "store_of t U = (store_of s U)(p \<mapsto> (z, a, (words_of s p z)[i := v]))"
proof -
  let ?w = "p + 4 * i"
  note l = live_range [OF b U p(1)]
  have w: "?w \<in> {p ..< p + z}" using p(2) by auto
  then have wp: "?w \<in> payload (first_node P) bs" using l(5) by blast
  note pw = payload_write [OF b wp, of v, folded t_def]
  have ok: "list_all okb bs" by (rule layoutD(1) [OF pool_at_layout [OF b]])
  from placedD(3) [OF U p(1)] obtain n f where n: "in_use P bs (h p) = Some (n, f)" "holds s p z (h p) n f" by blast
  have gap: "q - 4 \<noteq> ?w" if q: "U q = Some (y, c)" "h q + 12 < q" for q y c
  proof (cases "q = p")
    case False
    from placedD(3) [OF U q(1)] obtain m g where m: "in_use P bs (h q) = Some (m, g)" "holds s q y (h q) m g" by blast
    have "h q \<noteq> h p" using placedD(1) [OF U] p(1) q(1) False by (auto dest: inj_onD)
    from allocs_block_apart [OF ok m(1) n(1) this] m(2) n(2) w q(2) live_range(6) [OF b U q] show ?thesis by (auto simp: holds_def)
  qed (use l(1) in auto)
  have "placed t (in_use P bs) U h" by (rule placed_cong [OF U]) (simp add: pw(2) gap)
  then show "heap_inv P hi (t, U)" by (rule heap_invI [OF pw(1) _ pw(3) hi])
  have "U = (U(p := None))(p \<mapsto> (z, a))" using p(1) by auto
  then have "store_of t U = (store_of t (U(p := None)))(p \<mapsto> (z, a, words_of t p z))" by (metis store_upd(1))
  moreover have "store_of t (U(p := None)) = store_of s (U(p := None))"
  proof (rule store_cong)
    fix q y c x assume "(U(p := None)) q = Some (y, c)" and x: "x \<in> {q ..< q + y}"
    then have q: "U q = Some (y, c)" "q \<noteq> p" by (auto split: if_splits)
    from placed_pair [OF U ok q(1) p(1) q(2)] x w have "x \<noteq> ?w" by auto
    then show "hm t x = hm s x" by (simp add: pw(2))
  qed
  moreover have "words_of t p z = (words_of s p z)[i := v]"
    by (rule nth_equalityI) (use p(2) in \<open>auto simp: words_of_def pw(2) nth_list_update\<close>)
  ultimately show "store_of t U = (store_of s U)(p \<mapsto> (z, a, (words_of s p z)[i := v]))" by (metis store_upd(2) fun_upd_upd)
qed

lemma words_len: "length (words_of s p z) = z div 4"
  by (simp add: words_of_def)

theorem heap_step_refines:
  assumes "heap_inv P hi c" and "heap_step P c l c'"
  shows "heap_inv P hi c' \<and> heap_spec (P + 948) hi (store_of (fst c) (snd c)) l (store_of (fst c') (snd c'))"
  using assms(2,1)
proof (induction rule: heap_step.induct)
  case (step_alloc z s t p U)
  from step_alloc.prems obtain bs h where b: "pool_at P s bs" "placed s (in_use P bs) U h" "P + unat (totalSize s) = hi + 12" by (rule heap_invE)
  from LOS_MemAlloc_call [OF b(1) step_alloc.hyps(1,2)] show ?case
  proof (elim disjE exE conjE)
    fix x m t' bs' assume a: "LOS_MemAlloc (of_nat P) (of_nat z) s = Some (t', of_nat (x + 12))" "pool_at P t' bs'" "aligned4 (max z 8) \<le> m"
      "comes P bs bs' x m OS_MEM_NODE_USED_FLAG" "kept P bs s t'"
    note g = grant [OF b a(4,2,5) alloc_holds [OF a(2,4) step_alloc.hyps(1) a(3)], of False, OF impI [OF refl]]
    have e: "t = t'" "p = of_nat (x + 12)" using step_alloc.hyps(3) a(1) by simp_all
    have U': "(if p = 0 then U else U(unat p \<mapsto> (z, False))) = U(x + 12 \<mapsto> (z, False))" unfolding e(2) using g(3,4) by (simp only: if_False)
    have "room (P + 948) hi (store_of s U) (unat p) z" unfolding e(2) g(3) by (rule g(5))
    from spec_alloc [OF this words_len, of t "x + 12"] have "heap_spec (P + 948) hi (store_of s U) (MAlloc z, p) (store_of t (U(x + 12 \<mapsto> (z, False))))"
      unfolding e(1) g(2) by (simp only: e(2) g(3))
    with U' show ?case using g(1) by (simp only: e(1) fst_conv snd_conv simp_thms)
  qed (use step_alloc in \<open>simp add: spec_refuse\<close>)
next
  case (step_align z j s t p U)
  from step_align.prems obtain bs h where b: "pool_at P s bs" "placed s (in_use P bs) U h" "P + unat (totalSize s) = hi + 12" by (rule heap_invE)
  from LOS_MemAllocAlign_call [OF b(1) step_align.hyps(1,3,2)] show ?case
  proof (elim disjE exE conjE)
    fix q x m f t' bs' assume a: "LOS_MemAllocAlign (of_nat P) (of_nat z) (2 ^ j) s = Some (t', of_nat q)" "pool_at P t' bs'" "holds t' q z x m f"
      "comes P bs bs' x m f" "kept P bs s t'" "2 ^ j dvd q"
    have "\<not> True \<longrightarrow> f = OS_MEM_NODE_USED_FLAG" by simp
    note g = grant [OF b a(4,2,5,3) this]
    have e: "t = t'" "p = of_nat q" using step_align.hyps(4) a(1) by simp_all
    have U': "(if p = 0 then U else U(unat p \<mapsto> (z, True))) = U(q \<mapsto> (z, True))" unfolding e(2) using g(3,4) by (simp only: if_False)
    have r: "room (P + 948) hi (store_of s U) (unat p) z" "2 ^ j dvd unat p" unfolding e(2) g(3) by (rule g(5), rule a(6))
    from spec_align [OF r words_len, of t q] have "heap_spec (P + 948) hi (store_of s U) (MAllocAlign z j, p) (store_of t (U(q \<mapsto> (z, True))))"
      unfolding e(1) g(2) by (simp only: e(2) g(3))
    with U' show ?case using g(1) by (simp only: e(1) fst_conv snd_conv simp_thms)
  qed (use step_align in \<open>simp add: spec_refuse\<close>)
next
  case (step_free p U s t r)
  from step_free.prems obtain bs h where b: "pool_at P s bs" "placed s (in_use P bs) U h" "P + unat (totalSize s) = hi + 12" by (rule heap_invE)
  from step_free.hyps(1) obtain d where "U p = Some d" by auto
  from release [OF b(1,2) this] obtain t' bs' where f: "LOS_MemFree (of_nat P) (of_nat p) s = Some (t', LOS_OK)" "pool_at P t' bs'" "same_env s t'"
    "placed t' (in_use P bs') (U(p := None)) h" "store_of t' (U(p := None)) = (store_of s U)(p := None)" by blast
  have "t = t'" "r = LOS_OK" using step_free.hyps(2) f(1) by simp_all
  moreover have "heap_spec (P + 948) hi (store_of s U) (MFree p, LOS_OK) ((store_of s U)(p := None))" by (rule spec_free) (use step_free.hyps(1) in \<open>simp add: store_dom\<close>)
  ultimately show ?case using heap_invI [OF f(2,4,3) b(3)] f(5) by (simp only: fst_conv snd_conv simp_thms)
next
  case (step_realloc U p z y s t q)
  from step_realloc.prems obtain bs h where b: "pool_at P s bs" "placed s (in_use P bs) U h" "P + unat (totalSize s) = hi + 12" by (rule heap_invE)
  from placedD(3) [OF b(2) step_realloc.hyps(1)] obtain n where n: "in_use P bs (h p) = Some (n, OS_MEM_NODE_USED_FLAG)" "p = h p + 12" by (auto simp: holds_def)
  from LOS_MemRealloc_call [OF b(1) n(1) step_realloc.hyps(2-4), folded n(2)] show ?case
  proof (elim disjE exE conjE)
    fix t' x m assume a: "LOS_MemRealloc (of_nat P) (of_nat p) (of_nat y) s = Some (t', of_nat (x + 12))" "aligned4 (max y 8) \<le> m"
      "moved P bs s (h p) n t' x m"
    have "y + 12 \<le> m" using aligned4_bounds(3) [of "max y 8"] a(2) by simp
    note g = resize [OF b step_realloc.hyps(1) n(1) a(3) this step_realloc.hyps(2) refl]
    have e: "t = t'" "q = of_nat (x + 12)" using step_realloc.hyps(5) a(1) by simp_all
    have "(if q = 0 then U else U(p := None, unat q \<mapsto> (y, False))) = U(p := None, x + 12 \<mapsto> (y, False))" unfolding e(2) using g(3,4) by (simp only: if_False)
    then show ?case using g(1,2) by (simp only: e fst_conv snd_conv simp_thms)
  qed (use step_realloc in \<open>simp add: spec_refuse\<close>)
next
  case (step_write U p z a i s v)
  from step_write.prems obtain bs h where b: "pool_at P s bs" "placed s (in_use P bs) U h" "P + unat (totalSize s) = hi + 12" by (rule heap_invE)
  note w = write_step [OF b step_write.hyps(1,2), of v]
  have "store_of s U p = Some (z, a, words_of s p z)" using step_write.hyps(1) by (simp add: store_of_def)
  moreover have "i < length (words_of s p z)" using step_write.hyps(2) by (simp add: words_of_def)
  ultimately have "heap_spec (P + 948) hi (store_of s U) (MWrite p i v, 0) ((store_of s U)(p \<mapsto> (z, a, (words_of s p z)[i := v])))" by (rule spec_write)
  then show ?case using w by (simp only: fst_conv snd_conv simp_thms)
qed

interpretation heap: step_refinement "heap_inv P hi" "\<lambda>c. store_of (fst c) (snd c)" "heap_step P" "heap_spec (P + 948) hi" for P hi
  by unfold_locales (rule heap_step_refines)

section \<open>From initialisation on\<close>

definition pool_args :: "nat \<Rightarrow> nat \<Rightarrow> bool" where
  "pool_args P Z \<longleftrightarrow> 0 < P \<and> 4 dvd P \<and> P + Z + 11 \<le> 2 ^ 32 \<and> 965 \<le> Z \<and> Z < 2 ^ 29"

definition pool_space :: "nat \<Rightarrow> nat" where
  "pool_space Z = (Z + 3) div 4 * 4 - 948"

text \<open>\<open>t\<close> and \<open>U\<close> are reached from an initialised pool of \<open>Z\<close> bytes at \<open>P\<close>.\<close>

definition heap_run :: "nat \<Rightarrow> nat \<Rightarrow> tlsf \<Rightarrow> client \<Rightarrow> bool" where
  "heap_run P Z t U \<longleftrightarrow> pool_args P Z \<and>
    (\<exists>s0 s tr. LOS_MemInit (of_nat P) (of_nat Z) s0 = Some (s, LOS_OK) \<and> path (heap_step P) (s, Map.empty) tr \<and> path_end (s, Map.empty) tr = (t, U))"

lemma init_inv:
  assumes a: "pool_args P Z"
  shows "\<exists>s. LOS_MemInit (of_nat P) (of_nat Z) s0 = Some (s, LOS_OK) \<and> pool_at P s [(pool_space Z, 0)] \<and> heap_inv P (P + 936 + pool_space Z) (s, Map.empty)"
proof -
  from LOS_MemInit_call [of P Z s0] a obtain s where s: "LOS_MemInit (of_nat P) (of_nat Z) s0 = Some (s, LOS_OK)" "pool_at P s [(pool_space Z, 0)]"
    unfolding pool_args_def pool_space_def by blast
  have "in_use P [(pool_space Z, 0)] = Map.empty" by simp
  then have "placed s (in_use P [(pool_space Z, 0)]) Map.empty id" using placed_start by metis
  then have "heap_inv P (P + 936 + pool_space Z) (s, Map.empty)" using s(2) pool_end [OF s(2)] unfolding heap_inv_def
    by (intro conjI exI [of _ "[(pool_space Z, 0)]"] exI [of _ id]) simp_all
  with s show ?thesis by blast
qed

lemma run_inv: "heap_run P Z t U \<Longrightarrow> heap_inv P (P + 936 + pool_space Z) (t, U)"
proof -
  assume "heap_run P Z t U"
  then obtain s0 s tr where r: "pool_args P Z" "LOS_MemInit (of_nat P) (of_nat Z) s0 = Some (s, LOS_OK)" "path (heap_step P) (s, Map.empty) tr"
    "path_end (s, Map.empty) tr = (t, U)" by (auto simp: heap_run_def)
  from init_inv [OF r(1), of s0] r(2) have "heap_inv P (P + 936 + pool_space Z) (s, Map.empty)" by auto
  with heap.path_simulates [OF r(3)] show ?thesis unfolding r(4) by blast
qed

lemma run_extend: "heap_run P Z s U \<Longrightarrow> heap_step P (s, U) l (t, V) \<Longrightarrow> heap_run P Z t V"
proof -
  assume "heap_run P Z s U" and l: "heap_step P (s, U) l (t, V)"
  then obtain s0 s1 tr where r: "pool_args P Z" "LOS_MemInit (of_nat P) (of_nat Z) s0 = Some (s1, LOS_OK)" "path (heap_step P) (s1, Map.empty) tr"
    "path_end (s1, Map.empty) tr = (s, U)" by (auto simp: heap_run_def)
  have "path (heap_step P) (s1, Map.empty) (tr @ [(l, (t, V))])" "path_end (s1, Map.empty) (tr @ [(l, (t, V))]) = (t, V)" using r(3,4) l by (simp_all add: path_snoc)
  with r(1,2) show ?thesis unfolding heap_run_def by blast
qed

lemma inv_apart:
  assumes "heap_inv P hi (s, U)" and p: "U p = Some (z, a)"
  shows "P + 948 \<le> p" and "p + z \<le> hi" and "4 dvd p" and "0 < z" and "U q = Some (y, b) \<Longrightarrow> q \<noteq> p \<Longrightarrow> p + z \<le> q \<or> q + y \<le> p"
proof -
  from assms(1) obtain bs h where b: "pool_at P s bs" "placed s (in_use P bs) U h" "list_all okb bs" "bend (first_node P) bs = hi" by (rule heap_invE)
  from live_range [OF b(1,2) p] b(4) show "P + 948 \<le> p" "p + z \<le> hi" "4 dvd p" "0 < z" by simp_all
  show "p + z \<le> q \<or> q + y \<le> p" if "U q = Some (y, b)" "q \<noteq> p" using placed_pair [OF b(2,3) p that(1)] that(2) by simp
qed

text \<open>An allocation succeeds exactly when some free block is large enough.\<close>

lemma alloc_fits:
  assumes v: "pool_at P s bs" and z: "0 < z" "z + 16 \<le> 2 ^ 29"
  shows "\<exists>t p. LOS_MemAlloc (of_nat P) (of_nat z) s = Some (t, p) \<and> (p \<noteq> 0 \<longleftrightarrow> (\<exists>n. (n, 0) \<in> set bs \<and> aligned4 (max z 8) \<le> n))"
proof -
  from v obtain L where L: "pool_inv P s L bs" by (auto simp: pool_at_def)
  note r = request_size [OF z]
  have e: "LOS_MemAlloc (of_nat P) (of_nat z) s = OsMemAlloc (of_nat P) (of_nat (max z 8)) s"
    unfolding LOS_MemAlloc_def r(1) using pool_nonzero [OF v] r(2,3,6) by (simp add: Let_def)
  from OsMemAlloc_spec [OF L r(4,5)] show ?thesis
  proof (elim disjE exE conjE)
    fix xs n ys t L' assume a: "bs = xs @ (n, 0) # ys" "aligned4 (max z 8) \<le> n"
      "OsMemAlloc (of_nat P) (of_nat (max z 8)) s = Some (t, of_nat (bend (first_node P) xs + 12))"
    have l: "layout s (first_node P) (xs @ (n, 0) # ys)" using pool_at_layout [OF v] a(1) by simp
    from layout_mid(5,9) [OF l] of_nat32_0 [of "bend (first_node P) xs + 12"] have "(of_nat (bend (first_node P) xs + 12) :: u32) \<noteq> 0" by simp
    with a e show ?thesis by auto
  qed (auto simp: e not_le [symmetric])
qed

lemma idle_pool:
  assumes v: "pool_at P s bs" and e: "in_use P bs = Map.empty"
  shows "\<exists>n. bs = [(n, 0)] \<and> P + 948 + n = P + unat (totalSize s)"
proof -
  from v obtain L where "pool_inv P s L bs" by (auto simp: pool_at_def)
  note d = pool_invD [OF this]
  have z: "f = 0" if "(n, f) \<in> set bs" for n f
  proof (rule ccontr)
    assume "f \<noteq> 0"
    from that obtain xs ys where bs: "bs = xs @ (n, f) # ys" by (meson split_list)
    then have "in_use P bs (bend (first_node P) xs) = Some (n, f)" using layoutD(1) [OF d(8)] \<open>f \<noteq> 0\<close> by (simp add: allocs_append)
    with e show False by simp
  qed
  from d(6) obtain n f cs where bs: "bs = (n, f) # cs" by (cases bs) auto
  have "cs = []"
  proof (cases cs)
    case (Cons b cs')
    then have "snd b = 0" "f = 0" using z [of n f] z [of "fst b" "snd b"] bs by simp_all
    then show ?thesis using d(5) bs Cons by (simp add: coal_Cons)
  qed
  with bs z [of n f] pool_end [OF v] show ?thesis by simp
qed

text \<open>A pool of 2048 bytes at address 4096: the client asks for 100 bytes, and then gives them back.\<close>

lemma sample_args: "pool_args 4096 2048" "pool_space 2048 = 1100"
  by (simp_all add: pool_args_def pool_space_def)

lemma sample_alloc:
  assumes "pool_at 4096 s [(1100, 0)]"
  shows "\<exists>t r. heap_step 4096 (s, Map.empty) (MAlloc 100, r) (t, [unat r \<mapsto> (100, False)])"
proof -
  have "(\<exists>n. (n, 0 :: u32) \<in> set [(1100, 0)] \<and> aligned4 (max 100 8) \<le> n)" by (simp add: aligned4_def)
  then obtain t p where t: "LOS_MemAlloc (of_nat 4096) (of_nat 100) s = Some (t, p)" "p \<noteq> 0" using alloc_fits [OF assms, of 100] by auto
  have "heap_step 4096 (s, Map.empty) (MAlloc 100, p) (t, if p = 0 then Map.empty else [unat p \<mapsto> (100, False)])" by (rule step_alloc [OF _ _ t(1)]) simp_all
  with t(2) show ?thesis by auto
qed

lemma sample_run: "\<exists>t p. heap_run 4096 2048 t [p \<mapsto> (100, False)]"
proof -
  obtain s0 s where s: "LOS_MemInit (of_nat 4096) (of_nat 2048) s0 = Some (s, LOS_OK)" "pool_at 4096 s [(1100, 0)]" using init_inv [OF sample_args(1)] sample_args(2) by metis
  from sample_alloc [OF s(2)] obtain t r where a: "heap_step 4096 (s, Map.empty) (MAlloc 100, r) (t, [unat r \<mapsto> (100, False)])" by blast
  have "heap_run 4096 2048 s Map.empty" unfolding heap_run_def using s(1) sample_args(1) by (intro conjI exI [of _ s0] exI [of _ s] exI [of _ "[]"]) simp_all
  from run_extend [OF this a] show ?thesis by blast
qed

lemma sample_drained: "\<exists>t. heap_run 4096 2048 t Map.empty"
proof -
  from sample_run obtain t p where r: "heap_run 4096 2048 t [p \<mapsto> (100, False)]" by blast
  from run_inv [OF r] obtain bs h where b: "pool_at 4096 t bs" "placed t (in_use 4096 bs) [p \<mapsto> (100, False)] h" by (rule heap_invE)
  from release [OF b, of p] obtain u where u: "LOS_MemFree (of_nat 4096) (of_nat p) t = Some (u, LOS_OK)" by auto
  have "heap_step 4096 (t, [p \<mapsto> (100, False)]) (MFree p, LOS_OK) (u, [p \<mapsto> (100, False)](p := None))" by (rule step_free [OF _ u]) simp
  then have "heap_step 4096 (t, [p \<mapsto> (100, False)]) (MFree p, LOS_OK) (u, Map.empty)" by simp
  from run_extend [OF r this] show ?thesis by blast
qed

section \<open>Properties\<close>

text \<open>C2. A history is a path of calls with their answers and the states between them. On a freshly initialised pool every history is, call by call and state by state,
  a path of the store of blocks with the same calls and answers: \<open>LOS_MemAlloc\<close> and \<open>LOS_MemAllocAlign\<close> give a new block of the size asked for, aligned as asked for, or
  refuse and change nothing; \<open>LOS_MemFree\<close> removes the block and answers \<open>LOS_OK\<close>; \<open>LOS_MemRealloc\<close> keeps the words both sizes share; a write changes one word. So no
  call changes a word of any other block. The blocks are aligned to words, lie in the pool and never overlap.\<close>

theorem heap_history:
  assumes a: "pool_args P Z" and i: "LOS_MemInit (of_nat P) (of_nat Z) s0 = Some (s, r)" and h: "path (heap_step P) (s, Map.empty) tr"
    and e: "path_end (s, Map.empty) tr = (t, U)"
  defines "hi \<equiv> P + 936 + pool_space Z"
  shows "r = LOS_OK \<and> path (heap_spec (P + 948) hi) Map.empty (map (\<lambda>(l, s, U). (l, store_of s U)) tr) \<and>
    (\<forall>p z b. U p = Some (z, b) \<longrightarrow> P + 948 \<le> p \<and> p + z \<le> hi \<and> 4 dvd p \<and> 0 < z \<and> (\<forall>q y c. U q = Some (y, c) \<and> q \<noteq> p \<longrightarrow> p + z \<le> q \<or> q + y \<le> p))"
proof -
  from init_inv [OF a, of s0] i have s: "r = LOS_OK" "heap_inv P hi (s, Map.empty)" by (auto simp: hi_def)
  note r = heap.path_simulates [OF h s(2)]
  have e0: "store_of s Map.empty = Map.empty" by (simp add: store_of_def)
  have "map (map_prod id (\<lambda>c. store_of (fst c) (snd c))) tr = map (\<lambda>(l, s, U). (l, store_of s U)) tr" by (rule map_cong) auto
  then have "path (heap_spec (P + 948) hi) Map.empty (map (\<lambda>(l, s, U). (l, store_of s U)) tr)" using conjunct2 [OF r] e0 by (simp only: fst_conv snd_conv)
  with s(1) inv_apart [OF conjunct1 [OF r, unfolded e]] show ?thesis by blast
qed

text \<open>A client that asks for 100 bytes and writes a word of them finds the word there.\<close>

theorem heap_history_witness:
  "\<exists>s0 s t u r. LOS_MemInit (of_nat 4096) (of_nat 2048) s0 = Some (s, LOS_OK) \<and> LOS_MemAlloc (of_nat 4096) (of_nat 100) s = Some (t, r) \<and> r \<noteq> 0 \<and>
    u = wr (of_nat (unat r + 8)) 7 t \<and> 5044 \<le> unat r \<and> unat r + 100 \<le> 6132 \<and> words_of u (unat r) 100 = (words_of t (unat r) 100)[2 := 7]"
proof -
  obtain s0 s where s: "LOS_MemInit (of_nat 4096) (of_nat 2048) s0 = Some (s, LOS_OK)" "pool_at 4096 s [(1100, 0)]" using init_inv [OF sample_args(1)] sample_args(2) by metis
  have "(\<exists>n. (n, 0 :: u32) \<in> set [(1100, 0)] \<and> aligned4 (max 100 8) \<le> n)" by (simp add: aligned4_def)
  then obtain t r where t: "LOS_MemAlloc (of_nat 4096) (of_nat 100) s = Some (t, r)" "r \<noteq> 0" using alloc_fits [OF s(2), of 100] by auto
  let ?U = "[unat r \<mapsto> (100, False)]" let ?u = "wr (of_nat (unat r + 8)) 7 t"
  have "heap_step 4096 (s, Map.empty) (MAlloc 100, r) (t, if r = 0 then Map.empty else ?U)" by (rule step_alloc [OF _ _ t(1)]) simp_all
  then have a: "heap_step 4096 (s, Map.empty) (MAlloc 100, r) (t, ?U)" using t(2) by simp
  have w: "heap_step 4096 (t, ?U) (MWrite (unat r) 2 7, 0) (?u, ?U)" using step_write [where P = 4096 and i = 2 and v = 7 and s = t and U = ?U and p = "unat r" and a = False] by simp
  let ?tr = "[((MAlloc 100, r), t, ?U), ((MWrite (unat r) 2 7, 0), ?u, ?U)]"
  have p: "path (heap_step 4096) (s, Map.empty) ?tr" "path_end (s, Map.empty) ?tr = (?u, ?U)" using a w by simp_all
  note g = heap_history [OF sample_args(1) s(1) p, unfolded sample_args(2)]
  have r: "5044 \<le> unat r \<and> unat r + 100 \<le> 6132" using conjunct2 [OF conjunct2 [OF g], rule_format, of "unat r" 100 False] by simp
  have "heap_spec 5044 6132 (store_of t ?U) (MWrite (unat r) 2 7, 0) (store_of ?u ?U)" using g by simp
  then have "store_of ?u ?U (unat r) = Some (100, False, (words_of t (unat r) 100)[2 := 7])" by (cases rule: heap_spec.cases) (auto simp: store_of_def)
  then have "words_of ?u (unat r) 100 = (words_of t (unat r) 100)[2 := 7]" by (simp add: store_of_def)
  with s(1) t r show ?thesis by blast
qed

text \<open>C10. Every call returns in every state that a history reaches: the loops over the free lists and the sentinels end and no call panics. A block the
  client holds is always released with \<open>LOS_OK\<close>.\<close>

theorem heap_returns:
  assumes r: "heap_run P Z t U"
  shows "(0 < z \<and> z + 16 \<le> 2 ^ 29 \<longrightarrow> LOS_MemAlloc (of_nat P) (of_nat z) t \<noteq> None) \<and>
    (0 < z \<and> 2 \<le> j \<and> z + 2 ^ j + 24 \<le> 2 ^ 29 \<longrightarrow> LOS_MemAllocAlign (of_nat P) (of_nat z) (2 ^ j) t \<noteq> None) \<and>
    (p \<in> dom U \<longrightarrow> (\<exists>u. LOS_MemFree (of_nat P) (of_nat p) t = Some (u, LOS_OK))) \<and>
    (U p = Some (y, False) \<and> 0 < z \<and> z + 16 \<le> 2 ^ 29 \<and> of_nat (max z 8) \<le> secMax t \<longrightarrow> LOS_MemRealloc (of_nat P) (of_nat p) (of_nat z) t \<noteq> None)"
proof -
  from run_inv [OF r] obtain bs h where b: "pool_at P t bs" "placed t (in_use P bs) U h" by (rule heap_invE)
  have "LOS_MemRealloc (of_nat P) (of_nat p) (of_nat z) t \<noteq> None" if "U p = Some (y, False)" "0 < z" "z + 16 \<le> 2 ^ 29" "of_nat (max z 8) \<le> secMax t"
  proof -
    from placedD(3) [OF b(2) that(1)] obtain n where n: "in_use P bs (h p) = Some (n, OS_MEM_NODE_USED_FLAG)" "p = h p + 12" by (auto simp: holds_def)
    from LOS_MemRealloc_call [OF b(1) n(1) that(2-4), folded n(2)] show ?thesis by auto
  qed
  moreover have "\<exists>u. LOS_MemFree (of_nat P) (of_nat p) t = Some (u, LOS_OK)" if "p \<in> dom U" using release [OF b, of p] that by blast
  moreover have "LOS_MemAllocAlign (of_nat P) (of_nat z) (2 ^ j) t \<noteq> None" if "0 < z" "2 \<le> j" "z + 2 ^ j + 24 \<le> 2 ^ 29"
    using LOS_MemAllocAlign_call [OF b(1) that(1,3,2)] by auto
  moreover have "LOS_MemAlloc (of_nat P) (of_nat z) t \<noteq> None" if "0 < z" "z + 16 \<le> 2 ^ 29" using LOS_MemAlloc_call [OF b(1) that] by auto
  ultimately show ?thesis by blast
qed

theorem heap_returns_witness:
  "\<exists>t p u. heap_run 4096 2048 t [p \<mapsto> (100, False)] \<and> LOS_MemAlloc (of_nat 4096) (of_nat 64) t \<noteq> None \<and> LOS_MemAllocAlign (of_nat 4096) (of_nat 64) (2 ^ 5) t \<noteq> None \<and>
    LOS_MemFree (of_nat 4096) (of_nat p) t = Some (u, LOS_OK)"
proof -
  from sample_run obtain t p where r: "heap_run 4096 2048 t [p \<mapsto> (100, False)]" by blast
  note g = heap_returns [OF r, of 64 5 p 100]
  from g obtain u where "LOS_MemFree (of_nat 4096) (of_nat p) t = Some (u, LOS_OK)" by auto
  moreover have "LOS_MemAlloc (of_nat 4096) (of_nat 64) t \<noteq> None" "LOS_MemAllocAlign (of_nat 4096) (of_nat 64) (2 ^ 5) t \<noteq> None" using g by simp_all
  ultimately show ?thesis using r by blast
qed

text \<open>C22. \<open>LOS_MemAlloc\<close> never misses a block: it gives memory exactly when the pool has a free block that holds the header and the size asked for, rounded up to
  a multiple of four, whatever the size class of that block.\<close>

theorem heap_alloc_iff:
  assumes "pool_at P s bs" and "0 < z" and "z + 16 \<le> 2 ^ 29"
  shows "\<exists>t p. LOS_MemAlloc (of_nat P) (of_nat z) s = Some (t, p) \<and> (p \<noteq> 0 \<longleftrightarrow> (\<exists>n. (n, 0) \<in> set bs \<and> aligned4 (max z 8) \<le> n))"
  by (rule alloc_fits [OF assms])

theorem heap_alloc_iff_witness:
  "\<exists>s t. pool_at 4096 s [(1100, 0)] \<and> (\<exists>p. LOS_MemAlloc (of_nat 4096) (of_nat 1088) s = Some (t, p) \<and> p \<noteq> 0) \<and> (\<exists>u. LOS_MemAlloc (of_nat 4096) (of_nat 1089) s = Some (u, 0))"
proof -
  obtain s where s: "pool_at 4096 s [(1100, 0)]" using init_inv [OF sample_args(1)] sample_args(2) by metis
  from heap_alloc_iff [OF s, of 1088] heap_alloc_iff [OF s, of 1089] s show ?thesis by (auto simp: aligned4_def)
qed

text \<open>C19. Whatever was allocated, moved and released before, once the client holds nothing the pool is one free block again and a request for all of its
  space succeeds: no memory is lost and none stays fragmented.\<close>

theorem heap_drained:
  assumes r: "heap_run P Z t Map.empty" and z: "0 < z" "aligned4 (max z 8) \<le> pool_space Z"
  shows "pool_at P t [(pool_space Z, 0)] \<and> (\<exists>u p. LOS_MemAlloc (of_nat P) (of_nat z) t = Some (u, p) \<and> p \<noteq> 0)"
proof -
  from run_inv [OF r] obtain bs h where b: "pool_at P t bs" "placed t (in_use P bs) Map.empty h" "bend (first_node P) bs = P + 936 + pool_space Z" by (rule heap_invE)
  have "dom (in_use P bs) = {}" using placedD(2) [OF b(2)] by simp
  then have "in_use P bs = Map.empty" by (simp only: dom_eq_empty_conv)
  from idle_pool [OF b(1) this] obtain n where "bs = [(n, 0)]" by blast
  with b(1,3) have p: "pool_at P t [(pool_space Z, 0)]" by simp
  have "pool_space Z + 16 \<le> 2 ^ 29" using r by (auto simp: heap_run_def pool_args_def pool_space_def)
  then have "z + 16 \<le> 2 ^ 29" using z(2) aligned4_bounds(3) [of "max z 8"] by simp
  from alloc_fits [OF p z(1) this] z(2) p show ?thesis by auto
qed

theorem heap_drained_witness:
  "\<exists>t u p. heap_run 4096 2048 t Map.empty \<and> pool_at 4096 t [(1100, 0)] \<and> LOS_MemAlloc (of_nat 4096) (of_nat 1088) t = Some (u, p) \<and> p \<noteq> 0"
proof -
  from sample_drained obtain t where r: "heap_run 4096 2048 t Map.empty" by blast
  have "aligned4 (max 1088 8) \<le> pool_space 2048" by (simp add: aligned4_def sample_args(2))
  from heap_drained [OF r _ this] r show ?thesis unfolding sample_args(2) by auto
qed

text \<open>C26. Releasing a block of \<open>LOS_MemAlloc\<close> or \<open>LOS_MemRealloc\<close> a second time is refused: the second call returns \<open>LOS_NOK\<close> and leaves the heap as it is.\<close>

theorem heap_double_free:
  assumes r: "heap_run P Z s U" and p: "U p = Some (z, False)"
  shows "\<exists>t. LOS_MemFree (of_nat P) (of_nat p) s = Some (t, LOS_OK) \<and> LOS_MemFree (of_nat P) (of_nat p) t = Some (t, LOS_NOK)"
proof -
  from run_inv [OF r] obtain bs h where b: "pool_at P s bs" "placed s (in_use P bs) U h" by (rule heap_invE)
  from placedD(3) [OF b(2) p] have ph: "p = h p + 12" by (auto simp: holds_def)
  from release [OF b p] obtain t bs' j where t: "LOS_MemFree (of_nat P) (of_nat p) s = Some (t, LOS_OK)" "pool_at P t bs'" "hm t (h p + 8) = of_nat j" "j < 2 ^ 29" by blast
  have "p - 4 = h p + 8" "12 \<le> p" using ph by simp_all
  then show ?thesis using LOS_MemFree_refused [OF t(2) _ live_range(7) [OF b p] _ t(4)] t(1,3) by auto
qed

theorem heap_double_free_witness:
  "\<exists>s p t. heap_run 4096 2048 s [p \<mapsto> (100, False)] \<and> LOS_MemFree (of_nat 4096) (of_nat p) s = Some (t, LOS_OK) \<and> LOS_MemFree (of_nat 4096) (of_nat p) t = Some (t, LOS_NOK)"
proof -
  from sample_run obtain s p where r: "heap_run 4096 2048 s [p \<mapsto> (100, False)]" by blast
  from heap_double_free [OF r, of p 100] r show ?thesis by auto
qed

end
