(* ===== verification/LosMembox.thy ===== *)
theory LosMembox
  imports LosRefine LosWord
begin

text \<open>
  Static memory boxes, \<^verbatim>\<open>kernel/base/mem/membox/los_membox.c\<close>: a pool of blocks of one size, the free ones in a singly linked list whose
  links are the first words of the blocks. Memory is the word at every address; \<open>pool\<close> is the address of the pool, the control block takes its first 16
  bytes. Address 0 is \<open>NULL\<close>. The spin lock makes every operation atomic; \<open>LOS_ShowBox\<close> only prints.
\<close>

section \<open>The code\<close>

abbreviation (input) OS_MEMBOX_MAGIC :: u32 where "OS_MEMBOX_MAGIC \<equiv> 0xa55a5aa5"
abbreviation (input) OS_MEMBOX_NODE_HEAD_SIZE :: u32 where "OS_MEMBOX_NODE_HEAD_SIZE \<equiv> 4"
abbreviation (input) SIZEOF_MEMBOX_INFO :: u32 where "SIZEOF_MEMBOX_INFO \<equiv> 16"
abbreviation (input) BOX_OK :: u32 where "BOX_OK \<equiv> 0"
abbreviation (input) BOX_NOK :: u32 where "BOX_NOK \<equiv> 1"

record LOS_MEMBOX_INFO =
  uwBlkSize :: u32
  uwBlkNum :: u32
  uwBlkCnt :: u32
  stFreeList :: u32

record membox =
  boxInfo :: LOS_MEMBOX_INFO
  boxMem :: "u32 \<Rightarrow> u32"

definition LOS_MEMBOX_ALIGNED :: "u32 \<Rightarrow> u32" where
  "LOS_MEMBOX_ALIGNED a = (a + 4 - 1) AND NOT (4 - 1)"

definition OS_MEMBOX_CHECK_MAGIC :: "u32 \<Rightarrow> membox \<Rightarrow> u32" where
  "OS_MEMBOX_CHECK_MAGIC node s = (if boxMem s node = OS_MEMBOX_MAGIC then BOX_OK else BOX_NOK)"

definition OsCheckBoxMem :: "u32 \<Rightarrow> u32 \<Rightarrow> membox \<Rightarrow> u32" where
  "OsCheckBoxMem pool node s =
    (let b = boxInfo s; offset = node - (pool + SIZEOF_MEMBOX_INFO)
     in if uwBlkSize b = 0 then BOX_NOK
        else if offset mod uwBlkSize b \<noteq> 0 then BOX_NOK
        else if offset div uwBlkSize b \<ge> uwBlkNum b then BOX_NOK
        else OS_MEMBOX_CHECK_MAGIC node s)"

text \<open>The loop of \<open>LOS_MemboxInit\<close> that links \<open>k\<close> blocks, each to the next; it ends at the last one.\<close>

fun init_chain :: "nat \<Rightarrow> u32 \<Rightarrow> u32 \<Rightarrow> (u32 \<Rightarrow> u32) \<Rightarrow> u32 \<times> (u32 \<Rightarrow> u32)" where
  "init_chain 0 node blk m = (node, m)"
| "init_chain (Suc k) node blk m = init_chain k (node + blk) blk (m(node := node + blk))"

text \<open>\<open>None\<close> is a division by zero.\<close>

definition LOS_MemboxInit :: "u32 \<Rightarrow> u32 \<Rightarrow> u32 \<Rightarrow> membox \<Rightarrow> (membox \<times> u32) option" where
  "LOS_MemboxInit pool poolSize blkSize s =
    (if pool = 0 then Some (s, BOX_NOK)
     else if blkSize = 0 then Some (s, BOX_NOK)
     else if poolSize < SIZEOF_MEMBOX_INFO then Some (s, BOX_NOK)
     else let blk = LOS_MEMBOX_ALIGNED (blkSize + OS_MEMBOX_NODE_HEAD_SIZE)
          in if blk = 0 then None
             else let num = (poolSize - SIZEOF_MEMBOX_INFO) div blk;
                      b = (boxInfo s)\<lparr>uwBlkSize := blk, uwBlkNum := num, uwBlkCnt := 0\<rparr>
               in if num = 0 then Some (s\<lparr>boxInfo := b\<rparr>, BOX_NOK)
                  else let node = pool + SIZEOF_MEMBOX_INFO
                    in case init_chain (unat (num - 1)) node blk (boxMem s) of
                      (lastNode, m) \<Rightarrow> Some (s\<lparr>boxInfo := b\<lparr>stFreeList := node\<rparr>, boxMem := m(lastNode := 0)\<rparr>, BOX_OK))"

definition LOS_MemboxAlloc :: "u32 \<Rightarrow> membox \<Rightarrow> membox \<times> u32" where
  "LOS_MemboxAlloc pool s =
    (if pool = 0 then (s, 0)
     else let node = stFreeList (boxInfo s)
          in if node = 0 then (s, 0)
             else (s\<lparr>boxInfo := (boxInfo s)\<lparr>stFreeList := boxMem s node, uwBlkCnt := uwBlkCnt (boxInfo s) + 1\<rparr>,
                     boxMem := (boxMem s)(node := OS_MEMBOX_MAGIC)\<rparr>, node + OS_MEMBOX_NODE_HEAD_SIZE))"

definition LOS_MemboxFree :: "u32 \<Rightarrow> u32 \<Rightarrow> membox \<Rightarrow> membox \<times> u32" where
  "LOS_MemboxFree pool box s =
    (if pool = 0 \<or> box = 0 then (s, BOX_NOK)
     else let node = box - OS_MEMBOX_NODE_HEAD_SIZE
          in if OsCheckBoxMem pool node s \<noteq> BOX_OK then (s, BOX_NOK)
             else (s\<lparr>boxInfo := (boxInfo s)\<lparr>stFreeList := node, uwBlkCnt := uwBlkCnt (boxInfo s) - 1\<rparr>,
                     boxMem := (boxMem s)(node := stFreeList (boxInfo s))\<rparr>, BOX_OK))"

text \<open>\<open>rmax\<close> is the largest size the bounds-checking library accepts.\<close>

definition LOS_MemboxClr :: "nat \<Rightarrow> u32 \<Rightarrow> u32 \<Rightarrow> membox \<Rightarrow> membox" where
  "LOS_MemboxClr rmax pool box s =
    (if pool = 0 \<or> box = 0 then s
     else let n = uwBlkSize (boxInfo s) - OS_MEMBOX_NODE_HEAD_SIZE
          in if unat n > rmax then s
             else s\<lparr>boxMem := \<lambda>a. if a - box < n then 0 else boxMem s a\<rparr>)"

text \<open>The three results are written through pointers; \<open>ptrs\<close> says that none of them is \<open>NULL\<close>.\<close>

definition LOS_MemboxStatisticsGet :: "u32 \<Rightarrow> bool \<Rightarrow> membox \<Rightarrow> (u32 \<times> u32 \<times> u32) option" where
  "LOS_MemboxStatisticsGet pool ptrs s =
    (if pool = 0 \<or> \<not> ptrs then None else Some (uwBlkNum (boxInfo s), uwBlkCnt (boxInfo s), uwBlkSize (boxInfo s)))"

section \<open>Blocks\<close>

definition box_node :: "u32 \<Rightarrow> membox \<Rightarrow> nat \<Rightarrow> u32" where
  "box_node pool s i = pool + SIZEOF_MEMBOX_INFO + of_nat i * uwBlkSize (boxInfo s)"

definition box_nodes :: "u32 \<Rightarrow> membox \<Rightarrow> u32 set" where
  "box_nodes pool s = box_node pool s ` {..< unat (uwBlkNum (boxInfo s))}"

text \<open>The pool is aligned and does not pass the end of the address space.\<close>

definition box_shape :: "u32 \<Rightarrow> membox \<Rightarrow> bool" where
  "box_shape pool s \<longleftrightarrow> pool \<noteq> 0 \<and> 4 dvd unat pool \<and> 4 dvd unat (uwBlkSize (boxInfo s)) \<and> 8 \<le> unat (uwBlkSize (boxInfo s)) \<and>
    unat pool + 16 + unat (uwBlkNum (boxInfo s)) * unat (uwBlkSize (boxInfo s)) < 2 ^ 32"

text \<open>The free list: \<open>box_walk\<close> follows the links, \<open>box_chain\<close> says that they lead through the given nodes.\<close>

fun box_walk :: "nat \<Rightarrow> u32 \<Rightarrow> (u32 \<Rightarrow> u32) \<Rightarrow> u32 list" where
  "box_walk 0 a m = []"
| "box_walk (Suc k) a m = (if a = 0 then [] else a # box_walk k (m a) m)"

fun box_chain :: "(u32 \<Rightarrow> u32) \<Rightarrow> u32 \<Rightarrow> u32 list \<Rightarrow> bool" where
  "box_chain m a [] = (a = 0)"
| "box_chain m a (x # xs) = (a = x \<and> a \<noteq> 0 \<and> box_chain m (m a) xs)"

definition box_free :: "membox \<Rightarrow> u32 list" where
  "box_free s = box_walk (unat (uwBlkNum (boxInfo s))) (stFreeList (boxInfo s)) (boxMem s)"

definition box_inv :: "u32 \<Rightarrow> membox \<Rightarrow> bool" where
  "box_inv pool s \<longleftrightarrow> box_shape pool s \<and> box_chain (boxMem s) (stFreeList (boxInfo s)) (box_free s) \<and> distinct (box_free s) \<and>
    set (box_free s) \<subseteq> box_nodes pool s \<and> (\<forall>x \<in> box_nodes pool s. x \<notin> set (box_free s) \<longrightarrow> boxMem s x = OS_MEMBOX_MAGIC) \<and>
    unat (uwBlkCnt (boxInfo s)) + length (box_free s) = unat (uwBlkNum (boxInfo s))"

lemma box_node_unat:
  assumes "box_shape pool s" and "i < unat (uwBlkNum (boxInfo s))"
  shows "unat (box_node pool s i) = unat pool + 16 + i * unat (uwBlkSize (boxInfo s))"
proof -
  let ?z = "uwBlkSize (boxInfo s)"
  have "i * unat ?z \<le> unat (uwBlkNum (boxInfo s)) * unat ?z" using assms(2) by (intro mult_right_mono) simp_all
  moreover have "unat pool + 16 + unat (uwBlkNum (boxInfo s)) * unat ?z < 2 ^ 32" using assms(1) by (simp add: box_shape_def)
  ultimately have lt: "unat pool + 16 + i * unat ?z < 2 ^ 32" by linarith
  have "box_node pool s i = of_nat (unat pool + 16 + i * unat ?z)" by (simp add: box_node_def)
  then show ?thesis using unat_of_nat32 [OF lt] by simp
qed

lemma box_node_inj:
  assumes "box_shape pool s" and "i < unat (uwBlkNum (boxInfo s))" and "j < unat (uwBlkNum (boxInfo s))" and "box_node pool s i = box_node pool s j"
  shows "i = j"
proof -
  have "i * unat (uwBlkSize (boxInfo s)) = j * unat (uwBlkSize (boxInfo s))" using box_node_unat [OF assms(1,2)] box_node_unat [OF assms(1,3)] assms(4) by (metis add_left_cancel)
  moreover have "unat (uwBlkSize (boxInfo s)) \<noteq> 0" using assms(1) by (simp add: box_shape_def)
  ultimately show ?thesis by (simp only: mult_cancel2) blast
qed

lemma box_node_ne: "box_shape pool s \<Longrightarrow> x \<in> box_nodes pool s \<Longrightarrow> x \<noteq> 0 \<and> x \<noteq> OS_MEMBOX_MAGIC"
proof -
  assume sh: "box_shape pool s" and "x \<in> box_nodes pool s"
  then obtain i where i: "i < unat (uwBlkNum (boxInfo s))" "x = box_node pool s i" by (auto simp: box_nodes_def)
  note u = box_node_unat [OF sh i(1)]
  have "4 dvd unat x" using sh unfolding i(2) u by (simp add: box_shape_def)
  moreover have "unat (OS_MEMBOX_MAGIC) mod 4 = 1" by simp
  ultimately have "x \<noteq> OS_MEMBOX_MAGIC" by auto
  moreover have "x \<noteq> 0" using u i(2) by (metis add_is_0 unat_0 zero_neq_numeral)
  ultimately show ?thesis by blast
qed

lemma box_nodes_card: "box_shape pool s \<Longrightarrow> card (box_nodes pool s) = unat (uwBlkNum (boxInfo s))"
  unfolding box_nodes_def by (subst card_image) (auto intro: inj_onI box_node_inj)

lemma box_walk_chain: "box_chain m a xs \<Longrightarrow> length xs \<le> k \<Longrightarrow> box_walk k a m = xs"
proof (induction xs arbitrary: a k)
  case Nil
  then show ?case by (cases k) simp_all
next
  case (Cons x xs)
  then show ?case by (cases k) auto
qed

lemma box_chain_upd: "x \<notin> set xs \<Longrightarrow> box_chain (m(x := v)) a xs \<longleftrightarrow> box_chain m a xs"
  by (induction xs arbitrary: a) auto

lemma box_chain_cong: "\<forall>x \<in> set xs. m' x = m x \<Longrightarrow> box_chain m' a xs \<longleftrightarrow> box_chain m a xs"
  by (induction xs arbitrary: a) auto

lemma box_chain_next: "box_chain m a xs \<Longrightarrow> x \<in> set xs \<Longrightarrow> m x = 0 \<or> m x \<in> set xs"
proof (induction xs arbitrary: a)
  case (Cons y ys)
  then show ?case by (cases ys) auto
qed simp

text \<open>The invariant from any chain of nodes.\<close>

lemma box_invI:
  assumes "box_shape pool s" and chain: "box_chain (boxMem s) (stFreeList (boxInfo s)) xs" "distinct xs" "set xs \<subseteq> box_nodes pool s"
    and magic: "\<forall>x \<in> box_nodes pool s. x \<notin> set xs \<longrightarrow> boxMem s x = OS_MEMBOX_MAGIC"
    and cnt: "unat (uwBlkCnt (boxInfo s)) + length xs = unat (uwBlkNum (boxInfo s))"
  shows "box_inv pool s \<and> box_free s = xs"
proof -
  have "box_free s = xs" unfolding box_free_def using cnt by (intro box_walk_chain [OF chain(1)]) simp
  with assms show ?thesis by (simp add: box_inv_def)
qed

section \<open>Operations\<close>

text \<open>What the check of an address decides.\<close>

lemma CheckBoxMem_iff:
  assumes inv: "box_inv pool s"
  shows "OsCheckBoxMem pool node s = BOX_OK \<longleftrightarrow> node \<in> box_nodes pool s \<and> node \<notin> set (box_free s)"
proof -
  let ?z = "uwBlkSize (boxInfo s)" and ?n = "uwBlkNum (boxInfo s)" and ?off = "node - (pool + 16)"
  have sh: "box_shape pool s" using inv by (simp add: box_inv_def)
  have z: "?z \<noteq> 0" using sh by (auto simp: box_shape_def)
  have in_pool: "?off mod ?z = 0 \<and> \<not> ?n \<le> ?off div ?z \<longleftrightarrow> node \<in> box_nodes pool s"
  proof
    assume l: "?off mod ?z = 0 \<and> \<not> ?n \<le> ?off div ?z"
    then have "?off = ?off div ?z * ?z" by (metis add.right_neutral mult.commute mult_div_mod_eq)
    then have "?off = of_nat (unat (?off div ?z)) * ?z" by simp
    then have "node = box_node pool s (unat (?off div ?z))" unfolding box_node_def by (simp add: algebra_simps)
    moreover have "unat (?off div ?z) < unat ?n" using l by (simp add: word_le_nat_alt)
    ultimately show "node \<in> box_nodes pool s" by (auto simp: box_nodes_def)
  next
    assume "node \<in> box_nodes pool s"
    then obtain i where i: "i < unat ?n" "node = box_node pool s i" by (auto simp: box_nodes_def)
    have off: "?off = of_nat i * ?z" by (simp add: i(2) box_node_def)
    have "i * unat ?z < 2 ^ 32" using box_node_unat [OF sh i(1)] unat_lt32 [of "box_node pool s i"] by simp
    moreover have ui: "unat (of_nat i :: u32) = i" using i(1) unat_lt32 [of ?n] by (intro unat_of_nat32) simp
    ultimately have uoff: "unat ?off = i * unat ?z" unfolding off using unat_mult_lem [of "of_nat i" ?z] by simp
    have "unat (?off mod ?z) = 0" "unat (?off div ?z) = i" using z by (simp_all only: unat_mod unat_div uoff) (simp_all add: unat_eq_zero)
    with i(1) show "?off mod ?z = 0 \<and> \<not> ?n \<le> ?off div ?z" by (simp add: word_le_nat_alt unat_eq_zero)
  qed
  have "boxMem s node = OS_MEMBOX_MAGIC \<longleftrightarrow> node \<notin> set (box_free s)" if "node \<in> box_nodes pool s"
  proof
    assume "boxMem s node = OS_MEMBOX_MAGIC"
    then show "node \<notin> set (box_free s)" using inv box_chain_next [of "boxMem s" _ "box_free s" node] box_node_ne [OF sh] by (fastforce simp: box_inv_def)
  qed (use inv that in \<open>simp add: box_inv_def\<close>)
  moreover have "OsCheckBoxMem pool node s = BOX_OK \<longleftrightarrow> (?off mod ?z = 0 \<and> \<not> ?n \<le> ?off div ?z) \<and> boxMem s node = OS_MEMBOX_MAGIC"
    using z by (simp add: OsCheckBoxMem_def OS_MEMBOX_CHECK_MAGIC_def Let_def)
  ultimately show ?thesis unfolding in_pool by blast
qed

text \<open>Only the free list and its counter change, so the blocks stay where they are.\<close>

lemma box_nodes_info: "uwBlkSize (boxInfo s') = uwBlkSize (boxInfo s) \<Longrightarrow> uwBlkNum (boxInfo s') = uwBlkNum (boxInfo s) \<Longrightarrow>
    box_nodes pool s' = box_nodes pool s \<and> (box_shape pool s' \<longleftrightarrow> box_shape pool s)"
  by (simp add: box_nodes_def box_node_def box_shape_def)

lemma MemboxAlloc_inv:
  assumes inv: "box_inv pool s"
  shows "case box_free s of
      [] \<Rightarrow> LOS_MemboxAlloc pool s = (s, 0)
    | x # xs \<Rightarrow> \<exists>s'. LOS_MemboxAlloc pool s = (s', x + 4) \<and> box_inv pool s' \<and> box_free s' = xs \<and>
        uwBlkSize (boxInfo s') = uwBlkSize (boxInfo s) \<and> uwBlkNum (boxInfo s') = uwBlkNum (boxInfo s)"
proof (cases "box_free s")
  case Nil
  then have "stFreeList (boxInfo s) = 0" using inv by (simp add: box_inv_def)
  then show ?thesis by (simp add: Nil LOS_MemboxAlloc_def)
next
  case (Cons x xs)
  let ?s' = "s\<lparr>boxInfo := (boxInfo s)\<lparr>stFreeList := boxMem s x, uwBlkCnt := uwBlkCnt (boxInfo s) + 1\<rparr>, boxMem := (boxMem s)(x := OS_MEMBOX_MAGIC)\<rparr>"
  have i: "box_shape pool s" "stFreeList (boxInfo s) = x" "x \<noteq> 0" "box_chain (boxMem s) (boxMem s x) xs" "x \<notin> set xs" "distinct xs" "insert x (set xs) \<subseteq> box_nodes pool s"
    "\<forall>y \<in> box_nodes pool s. y \<notin> insert x (set xs) \<longrightarrow> boxMem s y = OS_MEMBOX_MAGIC" "unat (uwBlkCnt (boxInfo s)) + Suc (length xs) = unat (uwBlkNum (boxInfo s))"
    using inv Cons by (auto simp: box_inv_def)
  have "unat (uwBlkCnt (boxInfo s) + 1) = unat (uwBlkCnt (boxInfo s)) + 1" using i(9) unat_lt32 [of "uwBlkNum (boxInfo s)"] unat_add32 [of "uwBlkCnt (boxInfo s)" 1] by simp
  then have "box_inv pool ?s' \<and> box_free ?s' = xs"
    using i box_nodes_info [of ?s' s pool] by (intro box_invI) (auto simp: box_chain_upd)
  moreover have "LOS_MemboxAlloc pool s = (?s', x + 4)" using i(1-3) by (simp add: LOS_MemboxAlloc_def Let_def box_shape_def)
  ultimately show ?thesis by (simp add: Cons)
qed

lemma MemboxFree_inv:
  assumes inv: "box_inv pool s"
  shows "if box \<noteq> 0 \<and> box - 4 \<in> box_nodes pool s \<and> box - 4 \<notin> set (box_free s)
    then \<exists>s'. LOS_MemboxFree pool box s = (s', BOX_OK) \<and> box_inv pool s' \<and> box_free s' = (box - 4) # box_free s \<and>
      uwBlkSize (boxInfo s') = uwBlkSize (boxInfo s) \<and> uwBlkNum (boxInfo s') = uwBlkNum (boxInfo s)
    else LOS_MemboxFree pool box s = (s, BOX_NOK)"
proof (cases "box \<noteq> 0 \<and> box - 4 \<in> box_nodes pool s \<and> box - 4 \<notin> set (box_free s)")
  case True
  let ?x = "box - 4" let ?xs = "box_free s"
  let ?s' = "s\<lparr>boxInfo := (boxInfo s)\<lparr>stFreeList := ?x, uwBlkCnt := uwBlkCnt (boxInfo s) - 1\<rparr>, boxMem := (boxMem s)(?x := stFreeList (boxInfo s))\<rparr>"
  have i: "box_shape pool s" "box_chain (boxMem s) (stFreeList (boxInfo s)) ?xs" "distinct ?xs" "set ?xs \<subseteq> box_nodes pool s"
    "\<forall>y \<in> box_nodes pool s. y \<notin> set ?xs \<longrightarrow> boxMem s y = OS_MEMBOX_MAGIC" "unat (uwBlkCnt (boxInfo s)) + length ?xs = unat (uwBlkNum (boxInfo s))"
    using inv by (auto simp: box_inv_def)
  have x: "?x \<noteq> 0" using box_node_ne [OF i(1)] True by blast
  have "length (?x # ?xs) \<le> card (box_nodes pool s)"
    using True i(3,4) card_mono [of "box_nodes pool s" "set (?x # ?xs)"] distinct_card [of "?x # ?xs"] by (simp add: box_nodes_def)
  then have "0 < unat (uwBlkCnt (boxInfo s))" using i(6) box_nodes_card [OF i(1)] by simp
  then have "unat (uwBlkCnt (boxInfo s) - 1) = unat (uwBlkCnt (boxInfo s)) - 1" by (intro unat_minus_one) auto
  then have "box_inv pool ?s' \<and> box_free ?s' = ?x # ?xs"
    using i x True \<open>0 < unat _\<close> box_nodes_info [of ?s' s pool] by (intro box_invI) (auto simp: box_chain_upd)
  moreover have "LOS_MemboxFree pool box s = (?s', BOX_OK)"
    using True i(1) CheckBoxMem_iff [OF inv, of ?x] by (simp add: LOS_MemboxFree_def Let_def box_shape_def)
  ultimately show ?thesis using True by simp
next
  case False
  then show ?thesis using CheckBoxMem_iff [OF inv, of "box - 4"] inv
    by (auto simp: LOS_MemboxFree_def Let_def box_inv_def box_shape_def)
qed

section \<open>The box as an allocator of blocks\<close>

text \<open>Clients write to and clear the blocks they hold; \<open>box_owned\<close> is the user part of the blocks in use.\<close>

definition box_owned :: "u32 \<Rightarrow> membox \<Rightarrow> u32 \<Rightarrow> bool" where
  "box_owned pool s a \<longleftrightarrow> (\<exists>x \<in> box_nodes pool s. x \<notin> set (box_free s) \<and> 4 \<le> a - x \<and> a - x < uwBlkSize (boxInfo s))"

datatype box_op = BoxAlloc | BoxFree u32 | BoxClr u32 | BoxCount | BoxStore u32 u32

definition box_step :: "nat \<Rightarrow> u32 \<Rightarrow> box_op \<Rightarrow> membox \<Rightarrow> (membox \<times> u32) option" where
  "box_step rmax pool op s =
    (case op of
       BoxAlloc \<Rightarrow> Some (LOS_MemboxAlloc pool s)
     | BoxFree a \<Rightarrow> Some (LOS_MemboxFree pool a s)
     | BoxClr a \<Rightarrow> Some (if OsCheckBoxMem pool (a - 4) s = BOX_OK then LOS_MemboxClr rmax pool a s else s, 0)
     | BoxCount \<Rightarrow> map_option (\<lambda>(num, cnt, size). (s, cnt)) (LOS_MemboxStatisticsGet pool True s)
     | BoxStore a v \<Rightarrow> Some (if box_owned pool s a then s\<lparr>boxMem := (boxMem s)(a := v)\<rparr> else s, 0))"

text \<open>The specification: the blocks in the order in which they will be handed out.\<close>

fun box_spec :: "u32 set \<Rightarrow> box_op \<Rightarrow> u32 list \<Rightarrow> u32 list \<times> u32" where
  "box_spec blocks BoxAlloc free = (case free of [] \<Rightarrow> ([], 0) | x # xs \<Rightarrow> (xs, x + 4))"
| "box_spec blocks (BoxFree a) free = (if a \<noteq> 0 \<and> a - 4 \<in> blocks \<and> a - 4 \<notin> set free then ((a - 4) # free, BOX_OK) else (free, BOX_NOK))"
| "box_spec blocks (BoxClr a) free = (free, 0)"
| "box_spec blocks BoxCount free = (free, of_nat (card blocks - length free))"
| "box_spec blocks (BoxStore a v) free = (free, 0)"

text \<open>A block does not reach into another one, so its user part holds no link and no magic word.\<close>

lemma owned_apart:
  assumes sh: "box_shape pool s" and x: "x \<in> box_nodes pool s" "4 \<le> a - x" "a - x < uwBlkSize (boxInfo s)" and y: "y \<in> box_nodes pool s"
  shows "a \<noteq> y"
proof
  assume a: "a = y"
  let ?z = "unat (uwBlkSize (boxInfo s))"
  obtain i j where i: "i < unat (uwBlkNum (boxInfo s))" "x = box_node pool s i" and j: "j < unat (uwBlkNum (boxInfo s))" "y = box_node pool s j"
    using x(1) y by (auto simp: box_nodes_def)
  note u = box_node_unat [OF sh i(1)] box_node_unat [OF sh j(1)]
  show False
  proof (cases "i \<le> j")
    case True
    then have "x \<le> y" using u i(2) j(2) by (simp add: word_le_nat_alt)
    then have "unat (a - x) = (j - i) * ?z" using u i(2) j(2) a by (simp add: unat_sub diff_mult_distrib)
    moreover have "j \<noteq> i" using x(2) a i(2) j(2) by auto
    ultimately have "?z \<le> unat (a - x)" using True by (cases "j - i") simp_all
    then show False using x(3) by (simp add: word_less_nat_alt)
  next
    case False
    then have lt: "y < x" using u i(2) j(2) sh by (simp add: word_less_nat_alt box_shape_def)
    have "Suc i * ?z \<le> unat (uwBlkNum (boxInfo s)) * ?z" using i(1) by (intro mult_right_mono) simp_all
    then have "unat x + ?z < 2 ^ 32" using u(1) i(2) sh by (simp add: box_shape_def)
    moreover have "unat (a - x) < ?z" using x(3) by (simp add: word_less_nat_alt)
    ultimately have "unat ((a - x) + x) = unat (a - x) + unat x" by (intro unat_add32) linarith
    then show False using lt a by (simp add: word_less_nat_alt)
  qed
qed

text \<open>Writing only where no block starts keeps everything.\<close>

lemma box_inv_data:
  assumes inv: "box_inv pool s" and same: "\<forall>x \<in> box_nodes pool s. m x = boxMem s x"
  shows "box_inv pool (s\<lparr>boxMem := m\<rparr>) \<and> box_free (s\<lparr>boxMem := m\<rparr>) = box_free s"
proof -
  have i: "box_shape pool s" "box_chain (boxMem s) (stFreeList (boxInfo s)) (box_free s)" "distinct (box_free s)" "set (box_free s) \<subseteq> box_nodes pool s"
    "\<forall>y \<in> box_nodes pool s. y \<notin> set (box_free s) \<longrightarrow> boxMem s y = OS_MEMBOX_MAGIC" "unat (uwBlkCnt (boxInfo s)) + length (box_free s) = unat (uwBlkNum (boxInfo s))"
    using inv by (auto simp: box_inv_def)
  have "box_chain m (stFreeList (boxInfo s)) (box_free s)" using i(2,4) same box_chain_cong [of "box_free s" m "boxMem s"] by blast
  then show ?thesis using i same box_nodes_info [of "s\<lparr>boxMem := m\<rparr>" s pool] by (intro box_invI) auto
qed

lemma MemboxClr_inv:
  assumes inv: "box_inv pool s" and used: "OsCheckBoxMem pool (a - 4) s = BOX_OK"
  shows "box_inv pool (LOS_MemboxClr rmax pool a s) \<and> box_free (LOS_MemboxClr rmax pool a s) = box_free s \<and> boxInfo (LOS_MemboxClr rmax pool a s) = boxInfo s"
proof (cases "pool = 0 \<or> a = 0 \<or> unat (uwBlkSize (boxInfo s) - 4) > rmax")
  case True
  then show ?thesis using inv by (auto simp: LOS_MemboxClr_def Let_def)
next
  case False
  let ?m = "\<lambda>b. if b - a < uwBlkSize (boxInfo s) - 4 then 0 else boxMem s b"
  have sh: "box_shape pool s" using inv by (simp add: box_inv_def)
  have x: "a - 4 \<in> box_nodes pool s" using used CheckBoxMem_iff [OF inv] by blast
  have "?m y = boxMem s y" if "y \<in> box_nodes pool s" for y
  proof -
    have "\<not> y - a < uwBlkSize (boxInfo s) - 4"
    proof
      assume lt: "y - a < uwBlkSize (boxInfo s) - 4"
      have z: "8 \<le> unat (uwBlkSize (boxInfo s))" using sh by (simp add: box_shape_def)
      have four: "unat (4 :: u32) = 4" by simp
      have "unat (uwBlkSize (boxInfo s) - 4) = unat (uwBlkSize (boxInfo s)) - 4" using z unat_sub32 [of 4 "uwBlkSize (boxInfo s)"] by (simp add: word_le_nat_alt)
      then have r: "unat (y - a) + 4 < unat (uwBlkSize (boxInfo s))" using lt z by (simp add: word_less_nat_alt)
      have eq: "y - (a - 4) = (y - a) + 4" by simp
      have "unat (y - (a - 4)) = unat (y - a) + 4" using unat_add32 [of "y - a" 4] r unat_lt32 [of "uwBlkSize (boxInfo s)"] unfolding four eq by simp
      then have "4 \<le> y - (a - 4)" "y - (a - 4) < uwBlkSize (boxInfo s)" using r unfolding word_le_nat_alt word_less_nat_alt four by linarith+
      from owned_apart [OF sh x this that] show False by simp
    qed
    then show ?thesis by simp
  qed
  then have "box_inv pool (s\<lparr>boxMem := ?m\<rparr>) \<and> box_free (s\<lparr>boxMem := ?m\<rparr>) = box_free s" by (intro box_inv_data [OF inv]) blast
  moreover have "LOS_MemboxClr rmax pool a s = s\<lparr>boxMem := ?m\<rparr>" using False by (simp add: LOS_MemboxClr_def Let_def)
  ultimately show ?thesis by simp
qed

text \<open>The invariant with the blocks it is about.\<close>

definition box_ready :: "u32 \<Rightarrow> u32 set \<Rightarrow> membox \<Rightarrow> bool" where
  "box_ready pool blocks s \<longleftrightarrow> box_inv pool s \<and> box_nodes pool s = blocks"

lemma box_step_refines:
  assumes "box_ready pool blocks s"
  shows "\<exists>s'. box_step rmax pool op s = Some (s', snd (box_spec blocks op (box_free s))) \<and> box_ready pool blocks s' \<and> box_free s' = fst (box_spec blocks op (box_free s))"
proof -
  have inv: "box_inv pool s" and nodes: "box_nodes pool s = blocks" using assms by (simp_all add: box_ready_def)
  have sh: "box_shape pool s" using inv by (simp add: box_inv_def)
  show ?thesis
  proof (cases op)
    case BoxAlloc
    show ?thesis
    proof (cases "box_free s")
      case Nil
      then show ?thesis using MemboxAlloc_inv [OF inv] assms BoxAlloc by (simp add: box_step_def)
    next
      case (Cons x xs)
      with MemboxAlloc_inv [OF inv] obtain s' where "LOS_MemboxAlloc pool s = (s', x + 4)" "box_inv pool s'" "box_free s' = xs"
        "uwBlkSize (boxInfo s') = uwBlkSize (boxInfo s)" "uwBlkNum (boxInfo s') = uwBlkNum (boxInfo s)" by auto
      then show ?thesis using Cons BoxAlloc nodes box_nodes_info [of s' s pool] by (simp add: box_step_def box_ready_def)
    qed
  next
    case (BoxFree a)
    show ?thesis
    proof (cases "a \<noteq> 0 \<and> a - 4 \<in> blocks \<and> a - 4 \<notin> set (box_free s)")
      case True
      with MemboxFree_inv [OF inv, of a] nodes obtain s' where "LOS_MemboxFree pool a s = (s', BOX_OK)" "box_inv pool s'" "box_free s' = (a - 4) # box_free s"
        "uwBlkSize (boxInfo s') = uwBlkSize (boxInfo s)" "uwBlkNum (boxInfo s') = uwBlkNum (boxInfo s)" by auto
      then show ?thesis using True BoxFree nodes box_nodes_info [of s' s pool] by (simp add: box_step_def box_ready_def)
    next
      case False
      then have "LOS_MemboxFree pool a s = (s, BOX_NOK)" using MemboxFree_inv [OF inv, of a] nodes by (simp split: if_splits)
      then show ?thesis using False BoxFree assms by (auto simp: box_step_def)
    qed
  next
    case (BoxClr a)
    then show ?thesis using MemboxClr_inv [OF inv, of a rmax] assms box_nodes_info [of "LOS_MemboxClr rmax pool a s" s pool]
      by (auto simp: box_step_def box_ready_def)
  next
    case BoxCount
    have "unat (uwBlkCnt (boxInfo s)) + length (box_free s) = card blocks" using inv nodes box_nodes_card [OF sh] by (simp add: box_inv_def)
    then have "unat (uwBlkCnt (boxInfo s)) = card blocks - length (box_free s)" by simp
    then have "uwBlkCnt (boxInfo s) = of_nat (card blocks - length (box_free s))" by (metis of_nat_unat ucast_id)
    then show ?thesis using BoxCount assms sh by (simp add: box_step_def LOS_MemboxStatisticsGet_def box_shape_def)
  next
    case (BoxStore a v)
    show ?thesis
    proof (cases "box_owned pool s a")
      case True
      then have "\<forall>y \<in> box_nodes pool s. ((boxMem s)(a := v)) y = boxMem s y" using owned_apart [OF sh] by (auto simp: box_owned_def)
      with box_inv_data [OF inv, of "(boxMem s)(a := v)"] show ?thesis using True BoxStore nodes box_nodes_info [of "s\<lparr>boxMem := (boxMem s)(a := v)\<rparr>" s pool] by (simp add: box_step_def box_ready_def)
    qed (use BoxStore assms in \<open>simp add: box_step_def\<close>)
  qed
qed

interpretation membox: functional_refinement "box_ready pool blocks" box_free "box_step rmax pool" "box_spec blocks" "\<lambda>_. True" for rmax pool blocks
  by unfold_locales (rule box_step_refines)

section \<open>Initialisation\<close>

lemma init_chain_spec:
  assumes z: "z = unat blk" and lim: "unat node + (k + 1) * z < 2 ^ 32" and blk: "0 < z" and n0: "node \<noteq> 0"
  shows "\<exists>m'. init_chain k node blk m = (node + of_nat k * blk, m') \<and> box_chain (m'(node + of_nat k * blk := 0)) node (map (\<lambda>i. node + of_nat i * blk) [0 ..< Suc k]) \<and>
    (\<forall>a. (\<forall>i \<le> k. a \<noteq> node + of_nat i * blk) \<longrightarrow> m' a = m a)"
  using lim n0
proof (induction k arbitrary: node m)
  case 0
  then show ?case by simp
next
  case (Suc k)
  have "unat (node + blk) = unat node + z" using Suc.prems(1) z by (intro unat_add32 [of node blk, unfolded z [symmetric]]) simp
  then have p: "unat (node + blk) + (k + 1) * z < 2 ^ 32" "node + blk \<noteq> 0" using Suc.prems(1) blk by (simp_all add: unat_eq_0 [symmetric])
  have apart: "node + of_nat (Suc i) * blk \<noteq> node" if "i \<le> k" for i
  proof -
    have "Suc i * z \<le> (k + 2) * z" using that by (intro mult_right_mono) simp_all
    then have "Suc i * z < 2 ^ 32" using Suc.prems(1) by simp
    then have "unat (of_nat (Suc i * z) :: u32) = Suc i * z" by (rule unat_of_nat32)
    moreover have "of_nat (Suc i * z) = of_nat (Suc i) * blk" unfolding of_nat_mult by (simp add: z)
    ultimately have "unat (of_nat (Suc i) * blk) \<noteq> 0" using blk by simp
    then show ?thesis by (metis add_cancel_left_right unat_0)
  qed
  from Suc.IH [OF p, of "m(node := node + blk)"] obtain m' where m': "init_chain k (node + blk) blk (m(node := node + blk)) = (node + blk + of_nat k * blk, m')"
    "box_chain (m'(node + blk + of_nat k * blk := 0)) (node + blk) (map (\<lambda>i. node + blk + of_nat i * blk) [0 ..< Suc k])"
    "\<forall>a. (\<forall>i \<le> k. a \<noteq> node + blk + of_nat i * blk) \<longrightarrow> m' a = (m(node := node + blk)) a" by blast
  have shift: "node + blk + of_nat i * blk = node + of_nat (Suc i) * blk" for i unfolding of_nat_Suc distrib_right by simp
  have upt: "map (\<lambda>i. node + of_nat i * blk) [0 ..< Suc (Suc k)] = node # map (\<lambda>i. node + blk + of_nat i * blk) [0 ..< Suc k]"
    by (subst upt_conv_Cons) (simp_all add: map_Suc_upt [symmetric] shift comp_def del: upt_Suc of_nat_Suc)
  have "m' node = node + blk" using m'(3) apart unfolding shift by fastforce
  moreover have "node \<noteq> node + of_nat (Suc k) * blk" using apart [of k] by auto
  ultimately have "box_chain (m'(node + of_nat (Suc k) * blk := 0)) node (map (\<lambda>i. node + of_nat i * blk) [0 ..< Suc (Suc k)])"
    unfolding upt using m'(2) Suc.prems(2) by (simp add: shift del: upt_Suc)
  moreover have "m' a = m a" if "\<forall>i \<le> Suc k. a \<noteq> node + of_nat i * blk" for a
  proof -
    have "a \<noteq> node" using that [rule_format, of 0] by simp
    moreover have "\<forall>i \<le> k. a \<noteq> node + blk + of_nat i * blk" unfolding shift using that by auto
    ultimately show ?thesis using m'(3) by simp
  qed
  ultimately show ?case using m'(1) by (simp add: shift fun_upd_def del: upt_Suc of_nat_Suc)
qed

lemma aligned_size:
  assumes "unat blkSize + 8 \<le> 2 ^ 32"
  shows "unat (LOS_MEMBOX_ALIGNED (blkSize + 4)) = (unat blkSize + 7) div 4 * 4"
proof -
  have "unat (blkSize + 7) = unat blkSize + 7" using assms unat_add32 [of blkSize 7] by simp
  moreover have al: "LOS_MEMBOX_ALIGNED (blkSize + 4) = (blkSize + 7) AND NOT 3" by (simp add: LOS_MEMBOX_ALIGNED_def algebra_simps)
  ultimately show ?thesis unfolding al and_not_3 by simp
qed

text \<open>\<open>box_count\<close> is the number of blocks a pool has room for.\<close>

definition box_count :: "nat \<Rightarrow> nat \<Rightarrow> nat" where
  "box_count poolSize blkSize = (poolSize - 16) div ((blkSize + 7) div 4 * 4)"

lemma MemboxInit_inv:
  assumes pool: "pool \<noteq> 0" "4 dvd unat pool" "unat pool + unat poolSize < 2 ^ 32" and size: "blkSize \<noteq> 0" "unat blkSize + 8 \<le> 2 ^ 32"
  shows "if unat poolSize < 16 \<or> box_count (unat poolSize) (unat blkSize) = 0 then \<exists>s'. LOS_MemboxInit pool poolSize blkSize s = Some (s', BOX_NOK)
    else \<exists>s'. LOS_MemboxInit pool poolSize blkSize s = Some (s', BOX_OK) \<and> box_inv pool s' \<and> set (box_free s') = box_nodes pool s' \<and>
      card (box_nodes pool s') = box_count (unat poolSize) (unat blkSize) \<and> unat (uwBlkSize (boxInfo s')) = (unat blkSize + 7) div 4 * 4"
proof (cases "poolSize < 16")
  case True
  then show ?thesis using pool(1) size(1) by (simp add: LOS_MemboxInit_def word_less_nat_alt)
next
  case False
  define blk where "blk = LOS_MEMBOX_ALIGNED (blkSize + 4)"
  define num where "num = (poolSize - 16) div blk"
  have b1: "0 < unat blkSize" using size(1) by (simp add: unat_gt_0)
  have blk: "unat blk = (unat blkSize + 7) div 4 * 4" unfolding blk_def by (rule aligned_size [OF size(2)])
  have blk8: "8 \<le> unat blk" "4 dvd unat blk" "blk \<noteq> 0" using b1 unfolding blk by (auto simp: blk unat_eq_0 [symmetric])
  have ps: "16 \<le> unat poolSize" "unat (poolSize - 16) = unat poolSize - 16" using False unat_sub32 [of 16 poolSize] by (simp_all add: not_less word_le_nat_alt)
  have num: "unat num = box_count (unat poolSize) (unat blkSize)" unfolding num_def unat_div ps(2) blk box_count_def by simp
  show ?thesis
  proof (cases "num = 0")
    case True
    then show ?thesis using pool(1) size(1) False blk8(3) num by (simp add: LOS_MemboxInit_def Let_def blk_def [symmetric] num_def [symmetric])
  next
    case nz: False
    let ?node = "pool + 16"
    obtain k where k: "unat num = Suc k" using nz by (metis not0_implies_Suc unat_eq_0)
    have fit: "Suc k * unat blk \<le> unat poolSize - 16" using k unfolding num_def unat_div ps(2) by (metis div_times_less_eq_dividend)
    have node: "unat ?node = unat pool + 16" using pool(3) ps(1) unat_add32 [of pool 16] by simp
    have lim: "unat ?node + (k + 1) * unat blk < 2 ^ 32" unfolding node using fit pool(3) ps(1) by simp
    have n0: "?node \<noteq> 0" using node by (metis add_is_0 unat_0 zero_neq_numeral)
    from init_chain_spec [OF refl lim _ n0, of "boxMem s"] blk8(1) obtain m' where m': "init_chain k ?node blk (boxMem s) = (?node + of_nat k * blk, m')"
      "box_chain (m'(?node + of_nat k * blk := 0)) ?node (map (\<lambda>i. ?node + of_nat i * blk) [0 ..< Suc k])" by auto
    let ?s' = "s\<lparr>boxInfo := (boxInfo s)\<lparr>uwBlkSize := blk, uwBlkNum := num, uwBlkCnt := 0, stFreeList := ?node\<rparr>, boxMem := m'(?node + of_nat k * blk := 0)\<rparr>"
    let ?xs = "map (box_node pool ?s') [0 ..< Suc k]"
    have xs: "?xs = map (\<lambda>i. ?node + of_nat i * blk) [0 ..< Suc k]" by (simp add: box_node_def del: upt_Suc)
    have sh: "box_shape pool ?s'" using pool blk8(1,2) lim k by (simp add: box_shape_def node)
    have nodes: "set ?xs = box_nodes pool ?s'" by (simp add: box_nodes_def k atLeast0LessThan del: upt_Suc)
    have "distinct ?xs" using box_node_inj [OF sh] k by (auto simp: distinct_map inj_on_def simp del: upt_Suc)
    then have "box_inv pool ?s' \<and> box_free ?s' = ?xs" using m'(2) nodes k sh by (intro box_invI) (simp_all add: xs [symmetric] del: upt_Suc)
    moreover have "unat (num - 1) = k" using nz k unat_minus_one [of num] by simp
    then have "LOS_MemboxInit pool poolSize blkSize s = Some (?s', BOX_OK)"
      using m'(1) pool(1) size(1) False blk8(3) nz by (simp add: LOS_MemboxInit_def Let_def blk_def [symmetric] num_def [symmetric])
    moreover have "card (box_nodes pool ?s') = unat num" using box_nodes_card [OF sh] by simp
    ultimately show ?thesis using num k nodes ps(1) blk by (simp del: upt_Suc)
  qed
qed

section \<open>Properties\<close>

text \<open>A pool of 52 bytes at address 4096 with three blocks for 5 bytes each; \<open>box_demo\<close> is the state after the initialisation.\<close>

definition box_raw :: membox where
  "box_raw = \<lparr>boxInfo = \<lparr>uwBlkSize = 0, uwBlkNum = 0, uwBlkCnt = 0, stFreeList = 0\<rparr>, boxMem = \<lambda>_. 0\<rparr>"

definition box_demo :: membox where
  "box_demo = fst (the (LOS_MemboxInit 4096 52 5 box_raw))"

lemma box_demo_ok: "box_inv 4096 box_demo" "LOS_MemboxInit 4096 52 5 box_raw = Some (box_demo, BOX_OK)" "box_nodes 4096 box_demo = {4112, 4124, 4136}"
proof -
  show init: "LOS_MemboxInit 4096 52 5 box_raw = Some (box_demo, BOX_OK)" unfolding box_demo_def by (code_simp)
  have "box_count (unat (52 :: u32)) (unat (5 :: u32)) = 3" by (simp add: box_count_def)
  with MemboxInit_inv [of 4096 52 5 box_raw] init show "box_inv 4096 box_demo" by auto
  have "uwBlkNum (boxInfo box_demo) = 3" "uwBlkSize (boxInfo box_demo) = 12" unfolding box_demo_def by code_simp+
  moreover have "{..< unat (3 :: u32)} = {0, 1, 2}" by auto
  ultimately show "box_nodes 4096 box_demo = {4112, 4124, 4136}" by (simp add: box_nodes_def box_node_def)
qed

text \<open>C39. Initialising a box: with a usable pool the call succeeds exactly when there is room for a block, and then every block is in the free list, the blocks
  are as many as fit, large enough for the user size and the link, and multiples of four.\<close>

theorem membox_init:
  assumes "pool \<noteq> 0" and "4 dvd unat pool" and "unat pool + unat poolSize < 2 ^ 32" and "blkSize \<noteq> 0" and "unat blkSize + 8 \<le> 2 ^ 32"
  shows "if unat poolSize < 16 \<or> box_count (unat poolSize) (unat blkSize) = 0 then \<exists>s'. LOS_MemboxInit pool poolSize blkSize s = Some (s', BOX_NOK)
    else \<exists>s'. LOS_MemboxInit pool poolSize blkSize s = Some (s', BOX_OK) \<and> box_inv pool s' \<and> set (box_free s') = box_nodes pool s' \<and>
      card (box_nodes pool s') = box_count (unat poolSize) (unat blkSize) \<and> unat blkSize + 4 \<le> unat (uwBlkSize (boxInfo s'))"
proof -
  have "unat blkSize + 4 \<le> (unat blkSize + 7) div 4 * 4" by presburger
  then show ?thesis using MemboxInit_inv [OF assms, of s] by (auto split: if_splits)
qed

theorem membox_init_witness: "\<exists>s'. LOS_MemboxInit 4096 52 5 box_raw = Some (s', BOX_OK) \<and> box_inv 4096 s' \<and> card (box_nodes 4096 s') = 3"
proof -
  have "box_count (unat (52 :: u32)) (unat (5 :: u32)) = 3" by (simp add: box_count_def)
  with membox_init [of 4096 52 5 box_raw] show ?thesis by auto
qed

text \<open>C13. After any sequence of allocations, frees of arbitrary addresses, clears and writes to blocks in use, the box answers as the list of free blocks says:
  an allocation pops the first block, a free succeeds exactly for the address of a block in use (so a second free of the same block is refused),
  and the counter is the number of blocks in use.\<close>

theorem membox_refines_block_list:
  assumes "box_inv pool s"
  shows "\<exists>s'. run_ops (box_step rmax pool) ops s = Some (s', snd (spec_ops (box_spec (box_nodes pool s)) ops (box_free s))) \<and> box_inv pool s' \<and>
    box_free s' = fst (spec_ops (box_spec (box_nodes pool s)) ops (box_free s))"
  using membox.run_refines [of pool "box_nodes pool s" s ops rmax] assms by (auto simp: box_ready_def)

theorem membox_refines_block_list_witness:
  "\<exists>s'. run_ops (box_step 1000 4096) [BoxAlloc, BoxFree 4116, BoxFree 4116, BoxCount] box_demo = Some (s', [4116, BOX_OK, BOX_NOK, 0])"
proof -
  have "box_free box_demo = [4112, 4124, 4136]" unfolding box_demo_def by code_simp
  with membox_refines_block_list [OF box_demo_ok(1), of 1000 "[BoxAlloc, BoxFree 4116, BoxFree 4116, BoxCount]"] show ?thesis
    unfolding box_demo_ok(3) by (auto simp del: run_ops.simps)
qed

text \<open>C40. The check of an address by its offset and its magic word is equivalent to looking the address up among the blocks in use.\<close>

theorem membox_check_equivalent:
  assumes "box_inv pool s"
  shows "OsCheckBoxMem pool node s = BOX_OK \<longleftrightarrow> node \<in> box_nodes pool s - set (box_free s)"
  using CheckBoxMem_iff [OF assms] by simp

theorem membox_check_equivalent_witness: "OsCheckBoxMem 4096 4124 (fst (LOS_MemboxAlloc 4096 (fst (LOS_MemboxAlloc 4096 box_demo)))) = BOX_OK"
proof -
  let ?s1 = "fst (LOS_MemboxAlloc 4096 box_demo)" let ?s = "fst (LOS_MemboxAlloc 4096 ?s1)"
  have free: "box_free box_demo = [4112, 4124, 4136]" unfolding box_demo_def by code_simp
  have s1: "box_inv 4096 ?s1" "box_free ?s1 = [4124, 4136]" "box_nodes 4096 ?s1 = {4112, 4124, 4136}"
    using MemboxAlloc_inv [OF box_demo_ok(1)] box_nodes_info [of ?s1 box_demo 4096] by (auto simp: free box_demo_ok(3))
  have s: "box_inv 4096 ?s" "box_free ?s = [4136]" "box_nodes 4096 ?s = {4112, 4124, 4136}"
    using MemboxAlloc_inv [OF s1(1)] box_nodes_info [of ?s ?s1 4096] by (auto simp: s1(2,3))
  show ?thesis using membox_check_equivalent [OF s(1), of 4124] by (simp add: s)
qed

end
