(* ===== verification/LosSwtmr.thy ===== *)
theory LosSwtmr
  imports LosSchedCall LosMembox
begin

text \<open>
  Software timers, \<^verbatim>\<open>kernel/base/core/los_swtmr.c\<close>. A timer is its index in \<open>g_swtmrCBArray\<close>; a free one is in \<open>g_swtmrFreeList\<close>, a ticking one in the sort link
  of the processor, through the same node. The timer task scans the sort link: for every timer whose time has come it takes an item from a memory box
  (theory \<open>LosMembox\<close>), puts the handler into \<open>swtmrHandlerQueue\<close>, and deletes, stops or restarts the timer; then it runs the handlers.

  \<open>None\<close> is a failed assertion, a division by zero, a node that is linked twice or an endless loop. The debug data and the hooks are left out.
  \<open>uwOwnerPid\<close> holds the number of the owning process for its address, \<open>swStartTime\<close> is the field \<open>startTime\<close>, and \<open>uwCount\<close>, which nothing uses, is left out.
\<close>

section \<open>Data\<close>

abbreviation (input) LOSCFG_BASE_CORE_SWTMR_LIMIT :: nat where "LOSCFG_BASE_CORE_SWTMR_LIMIT \<equiv> 1024"
abbreviation (input) OS_SWTMR_MAX_TIMERID :: nat where "OS_SWTMR_MAX_TIMERID \<equiv> 64512" \<comment> \<open>\<open>0xFFFF / 1024 * 1024\<close>\<close>
abbreviation (input) OS_SWTMR_HANDLE_QUEUE_SIZE :: u32 where "OS_SWTMR_HANDLE_QUEUE_SIZE \<equiv> 1024"

abbreviation (input) SIZEOF_SwtmrHandlerItem :: u32 where "SIZEOF_SwtmrHandlerItem \<equiv> 16"

abbreviation (input) OS_SWTMR_STATUS_UNUSED :: u8 where "OS_SWTMR_STATUS_UNUSED \<equiv> 0"
abbreviation (input) OS_SWTMR_STATUS_CREATED :: u8 where "OS_SWTMR_STATUS_CREATED \<equiv> 1"
abbreviation (input) OS_SWTMR_STATUS_TICKING :: u8 where "OS_SWTMR_STATUS_TICKING \<equiv> 2"

abbreviation (input) LOS_SWTMR_MODE_ONCE :: u8 where "LOS_SWTMR_MODE_ONCE \<equiv> 0"
abbreviation (input) LOS_SWTMR_MODE_PERIOD :: u8 where "LOS_SWTMR_MODE_PERIOD \<equiv> 1"
abbreviation (input) LOS_SWTMR_MODE_NO_SELFDELETE :: u8 where "LOS_SWTMR_MODE_NO_SELFDELETE \<equiv> 2"
abbreviation (input) LOS_SWTMR_MODE_OPP :: u8 where "LOS_SWTMR_MODE_OPP \<equiv> 3"

abbreviation (input) LOS_ERRNO_SWTMR_PTR_NULL :: u32 where "LOS_ERRNO_SWTMR_PTR_NULL \<equiv> 0x02000300"
abbreviation (input) LOS_ERRNO_SWTMR_INTERVAL_NOT_SUITED :: u32 where "LOS_ERRNO_SWTMR_INTERVAL_NOT_SUITED \<equiv> 0x02000301"
abbreviation (input) LOS_ERRNO_SWTMR_MODE_INVALID :: u32 where "LOS_ERRNO_SWTMR_MODE_INVALID \<equiv> 0x02000302"
abbreviation (input) LOS_ERRNO_SWTMR_RET_PTR_NULL :: u32 where "LOS_ERRNO_SWTMR_RET_PTR_NULL \<equiv> 0x02000303"
abbreviation (input) LOS_ERRNO_SWTMR_MAXSIZE :: u32 where "LOS_ERRNO_SWTMR_MAXSIZE \<equiv> 0x02000304"
abbreviation (input) LOS_ERRNO_SWTMR_ID_INVALID :: u32 where "LOS_ERRNO_SWTMR_ID_INVALID \<equiv> 0x02000305"
abbreviation (input) LOS_ERRNO_SWTMR_NOT_CREATED :: u32 where "LOS_ERRNO_SWTMR_NOT_CREATED \<equiv> 0x02000306"
abbreviation (input) LOS_ERRNO_SWTMR_NO_MEMORY :: u32 where "LOS_ERRNO_SWTMR_NO_MEMORY \<equiv> 0x02000307"
abbreviation (input) LOS_ERRNO_SWTMR_HANDLER_POOL_NO_MEM :: u32 where "LOS_ERRNO_SWTMR_HANDLER_POOL_NO_MEM \<equiv> 0x0200030a"
abbreviation (input) LOS_ERRNO_SWTMR_TASK_CREATE_FAILED :: u32 where "LOS_ERRNO_SWTMR_TASK_CREATE_FAILED \<equiv> 0x0200030c"
abbreviation (input) LOS_ERRNO_SWTMR_NOT_STARTED :: u32 where "LOS_ERRNO_SWTMR_NOT_STARTED \<equiv> 0x0200030d"
abbreviation (input) LOS_ERRNO_SWTMR_STATUS_INVALID :: u32 where "LOS_ERRNO_SWTMR_STATUS_INVALID \<equiv> 0x0200030e"
abbreviation (input) LOS_ERRNO_SWTMR_TICK_PTR_NULL :: u32 where "LOS_ERRNO_SWTMR_TICK_PTR_NULL \<equiv> 0x02000310"

record SWTMR_CTRL_S =
  ucState :: u8
  ucMode :: u8
  usTimerID :: u16
  uwOverrun :: u32
  uwInterval :: u32
  uwExpiry :: u32
  uwArg :: u32
  pfnHandler :: u32
  uwOwnerPid :: u32
  swStartTime :: u64

record SwtmrHandlerItem =
  itemHandler :: u32
  itemArg :: u32

text \<open>\<open>swtmrCB\<close> is the array behind \<open>g_swtmrCBArray\<close>, with the fields of \<open>stSortList\<close> in \<open>swtmrNodes\<close>; the next three fields are \<open>g_swtmrRunqueue[0]\<close>; \<open>handlerItems\<close> are
  the items in the blocks of the box.\<close>

record swtmr_kstate = kstate +
  g_swtmrCBArray :: u32
  swtmrCB :: "nat \<Rightarrow> SWTMR_CTRL_S"
  swtmrNodes :: sort_nodes
  g_swtmrFreeList :: "nat list"
  swtmrSortLink :: SortLinkAttribute
  swtmrTask :: "nat option"
  swtmrHandlerQueue :: "u32 list"
  handlerItems :: "u32 \<Rightarrow> SwtmrHandlerItem"
  g_swtmrHandlerPool :: u32
  handlerBox :: membox

definition upd_swtmr :: "nat \<Rightarrow> (SWTMR_CTRL_S \<Rightarrow> SWTMR_CTRL_S) \<Rightarrow> 'a swtmr_kstate_scheme \<Rightarrow> 'a swtmr_kstate_scheme" where
  "upd_swtmr i f s = s\<lparr>swtmrCB := (swtmrCB s)(i := f (swtmrCB s i))\<rparr>"

abbreviation (input) linked :: "'a swtmr_kstate_scheme \<Rightarrow> nat \<Rightarrow> bool" where
  "linked s i \<equiv> i \<in> set (g_swtmrFreeList s) \<or> i \<in> set (sortLink (swtmrSortLink s))"

section \<open>Starting, stopping and deleting\<close>

definition AddSwtmr2TimeList :: "nat \<Rightarrow> u64 \<Rightarrow> 'a swtmr_kstate_scheme \<Rightarrow> 'a swtmr_kstate_scheme option" where
  "AddSwtmr2TimeList i time s =
    (if linked s i then None
     else do {
       (nodes, h) \<leftarrow> OsAdd2SortLink (swtmrNodes s) (swtmrSortLink s) i time 0;
       Some (s\<lparr>swtmrNodes := nodes, swtmrSortLink := h\<rparr>)
     })"

definition DeSwtmrFromTimeList :: "nat \<Rightarrow> 'a swtmr_kstate_scheme \<Rightarrow> 'a swtmr_kstate_scheme option" where
  "DeSwtmrFromTimeList i s = do {
     (nodes, h) \<leftarrow> OsDeleteFromSortLink (swtmrNodes s) (swtmrSortLink s) i;
     Some (s\<lparr>swtmrNodes := nodes, swtmrSortLink := h\<rparr>)
   }"

definition SwtmrAdjustCheck :: "u64 \<Rightarrow> 'a swtmr_kstate_scheme \<Rightarrow> 'a swtmr_kstate_scheme option" where
  "SwtmrAdjustCheck time s =
    (case swtmrTask s of
       None \<Rightarrow> Some s
     | Some t \<Rightarrow>
         if \<not> OsTaskIsBlocked (tcb s t) then Some s
         else if GET_SORTLIST_VALUE (sortNodes s) t \<le> time then Some s
         else do {
           (s1, ret) \<leftarrow> OsSchedTimeoutQueueAdjust t time s;
           Some (if ret \<noteq> LOS_OK then s1 else OsSchedExpireTimeUpdate s1)
         })"

definition SwtmrToStart :: "nat \<Rightarrow> 'a swtmr_kstate_scheme \<Rightarrow> ('a swtmr_kstate_scheme \<times> u64) option" where
  "SwtmrToStart i s = do {
     let c = swtmrCB s i;
     let ticks = (if uwOverrun c = 0 \<and> (ucMode c = LOS_SWTMR_MODE_ONCE \<or> ucMode c = LOS_SWTMR_MODE_OPP \<or> ucMode c = LOS_SWTMR_MODE_NO_SELFDELETE)
                  then uwExpiry c else uwInterval c);
     let s1 = upd_swtmr i (\<lambda>c. c\<lparr>ucState := OS_SWTMR_STATUS_TICKING\<rparr>) s;
     let period = ucast ticks * ucast (cyclePerTick (cfg s1));
     let time = swStartTime c + period;
     let currTime = OsGetCurrSchedTimeCycle s1;
     (s2, time2) \<leftarrow> (if time < currTime
       then if period = 0 then None
            else let times = (ucast ((currTime - swStartTime c) div period) :: u32);
                     start2 = swStartTime c + ucast times * period
                 in Some (upd_swtmr i (\<lambda>c. c\<lparr>swStartTime := start2\<rparr>) s1, start2 + period)
       else Some (s1, time));
     s3 \<leftarrow> AddSwtmr2TimeList i time2 s2;
     Some (s3, time2)
   }"

definition SwtmrStart :: "nat \<Rightarrow> 'a swtmr_kstate_scheme \<Rightarrow> 'a swtmr_kstate_scheme option" where
  "SwtmrStart i s = do {
     (s1, time) \<leftarrow> SwtmrToStart i (upd_swtmr i (\<lambda>c. c\<lparr>swStartTime := OsGetCurrSchedTimeCycle s\<rparr>) s);
     SwtmrAdjustCheck time s1
   }"

definition SwtmrDelete :: "nat \<Rightarrow> 'a swtmr_kstate_scheme \<Rightarrow> 'a swtmr_kstate_scheme option" where
  "SwtmrDelete i s =
    (if linked s i then None
     else Some (upd_swtmr i (\<lambda>c. c\<lparr>ucState := OS_SWTMR_STATUS_UNUSED, uwOwnerPid := OS_INVALID_VALUE\<rparr>)
       (s\<lparr>g_swtmrFreeList := g_swtmrFreeList s @ [i]\<rparr>)))"

definition SwtmrStop :: "nat \<Rightarrow> 'a swtmr_kstate_scheme \<Rightarrow> 'a swtmr_kstate_scheme option" where
  "SwtmrStop i s = DeSwtmrFromTimeList i (upd_swtmr i (\<lambda>c. c\<lparr>ucState := OS_SWTMR_STATUS_CREATED, uwOverrun := 0\<rparr>) s)"

section \<open>The timer task\<close>

definition next_timer_id :: "u16 \<Rightarrow> u16" where
  "next_timer_id n = (if unat n < OS_SWTMR_MAX_TIMERID - LOSCFG_BASE_CORE_SWTMR_LIMIT then n + 1024 else n mod 1024)"

definition SwtmrWake :: "u64 \<Rightarrow> nat \<Rightarrow> 'a swtmr_kstate_scheme \<Rightarrow> 'a swtmr_kstate_scheme option" where
  "SwtmrWake time i s = do {
     let (box, item) = LOS_MemboxAlloc (g_swtmrHandlerPool s) (handlerBox s);
     LOS_ASSERT (item \<noteq> 0);
     let s1 = s\<lparr>handlerBox := box,
                handlerItems := (handlerItems s)(item := \<lparr>itemHandler = pfnHandler (swtmrCB s i), itemArg = uwArg (swtmrCB s i)\<rparr>),
                swtmrHandlerQueue := swtmrHandlerQueue s @ [item]\<rparr>;
     if ucMode (swtmrCB s1 i) = LOS_SWTMR_MODE_ONCE
     then do {
       s2 \<leftarrow> SwtmrDelete i s1;
       Some (upd_swtmr i (\<lambda>c. c\<lparr>usTimerID := next_timer_id (usTimerID c)\<rparr>) s2)
     }
     else if ucMode (swtmrCB s1 i) = LOS_SWTMR_MODE_NO_SELFDELETE
     then Some (upd_swtmr i (\<lambda>c. c\<lparr>ucState := OS_SWTMR_STATUS_CREATED\<rparr>) s1)
     else do {
       (s2, _) \<leftarrow> SwtmrToStart i (upd_swtmr i (\<lambda>c. c\<lparr>uwOverrun := uwOverrun c + 1, swStartTime := time\<rparr>) s1);
       Some s2
     }
   }"

text \<open>The loop of \<open>ScanSwtmrTimeList\<close>; \<open>rd k\<close> is what the clock shows when the \<open>k\<close>-th timer is handled. The sort link is locked while a timer is taken out and
  unlocked while it is handled.\<close>

definition scan_take :: "nat \<Rightarrow> 'a swtmr_kstate_scheme \<Rightarrow> ('a swtmr_kstate_scheme \<times> u64) option" where
  "scan_take i s = do {
     let time = GET_SORTLIST_VALUE (swtmrNodes s) i;
     (nodes, h) \<leftarrow> OsDeleteNodeSortLink (swtmrNodes s) (swtmrSortLink s) i;
     Some (s\<lparr>swtmrNodes := nodes, swtmrSortLink := h\<rparr>, time)
   }"

partial_function (option) scan_loop :: "(nat \<Rightarrow> u64) \<Rightarrow> nat \<Rightarrow> u64 \<Rightarrow> 'a swtmr_kstate_scheme \<Rightarrow> 'a swtmr_kstate_scheme option" where
  "scan_loop rd k currTime s =
    (case sortLink (swtmrSortLink s) of
       [] \<Rightarrow> Some s
     | i # _ \<Rightarrow>
         if GET_SORTLIST_VALUE (swtmrNodes s) i \<le> currTime
         then do {
           (s1, time) \<leftarrow> scan_take i s;
           s2 \<leftarrow> SwtmrWake time i (s1\<lparr>clock := rd k\<rparr>);
           scan_loop rd (Suc k) currTime s2
         }
         else Some s)"

definition ScanSwtmrTimeList :: "(nat \<Rightarrow> u64) \<Rightarrow> 'a swtmr_kstate_scheme \<Rightarrow> 'a swtmr_kstate_scheme option" where
  "ScanSwtmrTimeList rd s = scan_loop rd 0 (OsGetCurrSchedTimeCycle s) s"

text \<open>One turn of the loop of \<open>SwtmrTask\<close> that runs the handlers: the item is taken from the queue, copied and given back; the result is the call to make.\<close>

definition SwtmrTask_next :: "'a swtmr_kstate_scheme \<Rightarrow> ('a swtmr_kstate_scheme \<times> SwtmrHandlerItem) option" where
  "SwtmrTask_next s =
    (case swtmrHandlerQueue s of
       [] \<Rightarrow> None
     | item # queue \<Rightarrow> Some (s\<lparr>swtmrHandlerQueue := queue, handlerBox := fst (LOS_MemboxFree (g_swtmrHandlerPool s) item (handlerBox s))\<rparr>, handlerItems s item))"

text \<open>How long the task waits before it scans; 0 is not at all.\<close>

definition SwtmrTask_wait :: "'a swtmr_kstate_scheme \<Rightarrow> u64" where
  "SwtmrTask_wait s = OsSortLinkGetNextExpireTime (OsGetCurrSchedTimeCycle s) (swtmrNodes s) (swtmrSortLink s)"

section \<open>The interface\<close>

text \<open>A \<open>NULL\<close> pointer for the result is \<open>out = False\<close>.\<close>

definition LOS_SwtmrCreate :: "u32 \<Rightarrow> u8 \<Rightarrow> u32 \<Rightarrow> bool \<Rightarrow> u32 \<Rightarrow> 'a swtmr_kstate_scheme \<Rightarrow> 'a swtmr_kstate_scheme \<times> u32 \<times> u16 option" where
  "LOS_SwtmrCreate interval mode handler out arg s =
    (if interval = 0 then (s, LOS_ERRNO_SWTMR_INTERVAL_NOT_SUITED, None)
     else if mode \<noteq> LOS_SWTMR_MODE_ONCE \<and> mode \<noteq> LOS_SWTMR_MODE_PERIOD \<and> mode \<noteq> LOS_SWTMR_MODE_NO_SELFDELETE then (s, LOS_ERRNO_SWTMR_MODE_INVALID, None)
     else if handler = 0 then (s, LOS_ERRNO_SWTMR_PTR_NULL, None)
     else if \<not> out then (s, LOS_ERRNO_SWTMR_RET_PTR_NULL, None)
     else case g_swtmrFreeList s of
       [] \<Rightarrow> (s, LOS_ERRNO_SWTMR_MAXSIZE, None)
     | i # free \<Rightarrow>
         (upd_swtmr i (\<lambda>c. c\<lparr>uwOwnerPid := of_nat (processCB (tcb s (currTask s))), pfnHandler := handler, ucMode := mode, uwOverrun := 0,
              uwInterval := interval, uwExpiry := interval, uwArg := arg, ucState := OS_SWTMR_STATUS_CREATED\<rparr>)
            (s\<lparr>g_swtmrFreeList := free, swtmrNodes := SET_SORTLIST_VALUE (swtmrNodes s) i OS_SORT_LINK_INVALID_TIME\<rparr>),
          LOS_OK, Some (usTimerID (swtmrCB s i))))"

text \<open>The timer behind an identifier, when the identifier is the current one.\<close>

definition swtmr_of :: "u16 \<Rightarrow> 'a swtmr_kstate_scheme \<Rightarrow> nat option" where
  "swtmr_of swtmrID s =
    (if OS_SWTMR_MAX_TIMERID \<le> unat swtmrID then None
     else let i = unat swtmrID mod LOSCFG_BASE_CORE_SWTMR_LIMIT in if usTimerID (swtmrCB s i) \<noteq> swtmrID then None else Some i)"

definition LOS_SwtmrStart :: "u16 \<Rightarrow> 'a swtmr_kstate_scheme \<Rightarrow> ('a swtmr_kstate_scheme \<times> u32) option" where
  "LOS_SwtmrStart swtmrID s =
    (case swtmr_of swtmrID s of
       None \<Rightarrow> Some (s, LOS_ERRNO_SWTMR_ID_INVALID)
     | Some i \<Rightarrow>
         let state = ucState (swtmrCB s i)
         in if state = OS_SWTMR_STATUS_UNUSED then Some (s, LOS_ERRNO_SWTMR_NOT_CREATED)
            else if state = OS_SWTMR_STATUS_TICKING then map_option (\<lambda>t. (t, LOS_OK)) (Option.bind (SwtmrStop i s) (SwtmrStart i))
            else if state = OS_SWTMR_STATUS_CREATED then map_option (\<lambda>t. (t, LOS_OK)) (SwtmrStart i s)
            else Some (s, LOS_ERRNO_SWTMR_STATUS_INVALID))"

definition LOS_SwtmrStop :: "u16 \<Rightarrow> 'a swtmr_kstate_scheme \<Rightarrow> ('a swtmr_kstate_scheme \<times> u32) option" where
  "LOS_SwtmrStop swtmrID s =
    (case swtmr_of swtmrID s of
       None \<Rightarrow> Some (s, LOS_ERRNO_SWTMR_ID_INVALID)
     | Some i \<Rightarrow>
         let state = ucState (swtmrCB s i)
         in if state = OS_SWTMR_STATUS_UNUSED then Some (s, LOS_ERRNO_SWTMR_NOT_CREATED)
            else if state = OS_SWTMR_STATUS_CREATED then Some (s, LOS_ERRNO_SWTMR_NOT_STARTED)
            else if state = OS_SWTMR_STATUS_TICKING then map_option (\<lambda>t. (t, LOS_OK)) (SwtmrStop i s)
            else Some (s, LOS_ERRNO_SWTMR_STATUS_INVALID))"

definition OsSwtmrTimeGet :: "nat \<Rightarrow> 'a swtmr_kstate_scheme \<Rightarrow> u32" where
  "OsSwtmrTimeGet i s =
    (let time = OsSortLinkGetTargetExpireTime (OsGetCurrSchedTimeCycle s) (swtmrNodes s) i div ucast (cyclePerTick (cfg s))
     in ucast (if ucast OS_INVALID_VALUE < time then ucast OS_INVALID_VALUE else time))"

definition LOS_SwtmrTimeGet :: "u16 \<Rightarrow> bool \<Rightarrow> 'a swtmr_kstate_scheme \<Rightarrow> u32 \<times> u32 option" where
  "LOS_SwtmrTimeGet swtmrID out s =
    (if OS_SWTMR_MAX_TIMERID \<le> unat swtmrID then (LOS_ERRNO_SWTMR_ID_INVALID, None)
     else if \<not> out then (LOS_ERRNO_SWTMR_TICK_PTR_NULL, None)
     else case swtmr_of swtmrID s of
       None \<Rightarrow> (LOS_ERRNO_SWTMR_ID_INVALID, None)
     | Some i \<Rightarrow>
         let state = ucState (swtmrCB s i)
         in if state = OS_SWTMR_STATUS_UNUSED then (LOS_ERRNO_SWTMR_NOT_CREATED, None)
            else if state = OS_SWTMR_STATUS_CREATED then (LOS_ERRNO_SWTMR_NOT_STARTED, None)
            else if state = OS_SWTMR_STATUS_TICKING then (LOS_OK, Some (OsSwtmrTimeGet i s))
            else (LOS_ERRNO_SWTMR_STATUS_INVALID, None))"

definition LOS_SwtmrDelete :: "u16 \<Rightarrow> 'a swtmr_kstate_scheme \<Rightarrow> ('a swtmr_kstate_scheme \<times> u32) option" where
  "LOS_SwtmrDelete swtmrID s =
    (case swtmr_of swtmrID s of
       None \<Rightarrow> Some (s, LOS_ERRNO_SWTMR_ID_INVALID)
     | Some i \<Rightarrow>
         let state = ucState (swtmrCB s i)
         in if state = OS_SWTMR_STATUS_UNUSED then Some (s, LOS_ERRNO_SWTMR_NOT_CREATED)
            else if state = OS_SWTMR_STATUS_TICKING then map_option (\<lambda>t. (t, LOS_OK)) (Option.bind (SwtmrStop i s) (SwtmrDelete i))
            else if state = OS_SWTMR_STATUS_CREATED then map_option (\<lambda>t. (t, LOS_OK)) (SwtmrDelete i s)
            else Some (s, LOS_ERRNO_SWTMR_STATUS_INVALID))"

fun recycle_from :: "nat \<Rightarrow> nat \<Rightarrow> u32 \<Rightarrow> 'a swtmr_kstate_scheme \<Rightarrow> 'a swtmr_kstate_scheme option" where
  "recycle_from 0 index ownerID s = Some s"
| "recycle_from (Suc n) index ownerID s = do {
     s1 \<leftarrow> (if uwOwnerPid (swtmrCB s index) = ownerID then map_option fst (LOS_SwtmrDelete (of_nat index) s) else Some s);
     recycle_from n (index + 1) ownerID s1
   }"

definition OsSwtmrRecycle :: "u32 \<Rightarrow> 'a swtmr_kstate_scheme \<Rightarrow> 'a swtmr_kstate_scheme option" where
  "OsSwtmrRecycle ownerID s = recycle_from LOSCFG_BASE_CORE_SWTMR_LIMIT 0 ownerID s"

definition OsSwtmrGetNextTimeout :: "'a swtmr_kstate_scheme \<Rightarrow> u32" where
  "OsSwtmrGetNextTimeout s =
    (let time = OsSortLinkGetNextExpireTime (OsGetCurrSchedTimeCycle s) (swtmrNodes s) (swtmrSortLink s) div ucast (cyclePerTick (cfg s))
     in ucast (if ucast OS_INVALID_VALUE < time then ucast OS_INVALID_VALUE else time))"

definition SwtmrRunqueueFind :: "(nat \<Rightarrow> u32 \<Rightarrow> bool) \<Rightarrow> u32 \<Rightarrow> 'a swtmr_kstate_scheme \<Rightarrow> bool" where
  "SwtmrRunqueueFind checkFunc arg s = list_ex (\<lambda>i. checkFunc i arg) (sortLink (swtmrSortLink s))"

text \<open>The time of every ticking timer is set anew, as if it had been started at \<open>startTime\<close>: the loop goes on behind the place into which the timer was put.\<close>

definition SwtmrRestart :: "u64 \<Rightarrow> nat \<Rightarrow> 'a swtmr_kstate_scheme \<Rightarrow> 'a swtmr_kstate_scheme option" where
  "SwtmrRestart time i s = map_option fst (SwtmrToStart i (upd_swtmr i (\<lambda>c. c\<lparr>swStartTime := time\<rparr>) s))"

definition next_in :: "nat \<Rightarrow> nat list \<Rightarrow> nat option" where
  "next_in i xs = (case dropWhile (\<lambda>j. j \<noteq> i) xs of _ # j # _ \<Rightarrow> Some j | _ \<Rightarrow> None)"

partial_function (option) reset_from :: "u64 \<Rightarrow> nat option \<Rightarrow> 'a swtmr_kstate_scheme \<Rightarrow> 'a swtmr_kstate_scheme option" where
  "reset_from time listNext s =
    (case listNext of
       None \<Rightarrow> Some s
     | Some i \<Rightarrow> do {
         (nodes, h) \<leftarrow> OsDeleteNodeSortLink (swtmrNodes s) (swtmrSortLink s) i;
         s1 \<leftarrow> SwtmrRestart time i (s\<lparr>swtmrNodes := nodes, swtmrSortLink := h\<rparr>);
         reset_from time (next_in i (sortLink (swtmrSortLink s1))) s1
       })"

definition OsSwtmrResponseTimeReset :: "u64 \<Rightarrow> 'a swtmr_kstate_scheme \<Rightarrow> 'a swtmr_kstate_scheme option" where
  "OsSwtmrResponseTimeReset time s = reset_from time (case sortLink (swtmrSortLink s) of [] \<Rightarrow> None | i # _ \<Rightarrow> Some i) s"

section \<open>Initialisation\<close>

text \<open>\<open>cb\<close> and \<open>pool\<close> are the answers of \<open>LOS_MemAlloc\<close>; the control blocks are set to zero.\<close>

definition SwtmrBaseInit :: "u32 \<Rightarrow> u32 \<Rightarrow> 'a swtmr_kstate_scheme \<Rightarrow> ('a swtmr_kstate_scheme \<times> u32) option" where
  "SwtmrBaseInit cb pool s =
    (if cb = 0 then Some (s, LOS_ERRNO_SWTMR_NO_MEMORY)
     else let s1 = s\<lparr>g_swtmrCBArray := cb,
           swtmrCB := (\<lambda>i. \<lparr>ucState = 0, ucMode = 0, usTimerID = of_nat i, uwOverrun = 0, uwInterval = 0, uwExpiry = 0, uwArg = 0, pfnHandler = 0,
             uwOwnerPid = 0, swStartTime = 0\<rparr>),
           swtmrNodes := (\<lambda>_. \<lparr>responseTime = 0, cpuid = 0\<rparr>), g_swtmrFreeList := [0 ..< LOSCFG_BASE_CORE_SWTMR_LIMIT], g_swtmrHandlerPool := pool\<rparr>
       in if pool = 0 then Some (s1, LOS_ERRNO_SWTMR_NO_MEMORY)
          else do {
            let size = SIZEOF_MEMBOX_INFO + LOS_MEMBOX_ALIGNED (SIZEOF_SwtmrHandlerItem + OS_MEMBOX_NODE_HEAD_SIZE) * OS_SWTMR_HANDLE_QUEUE_SIZE;
            (box, ret) \<leftarrow> LOS_MemboxInit pool size SIZEOF_SwtmrHandlerItem (handlerBox s1);
            let s2 = s1\<lparr>handlerBox := box\<rparr>;
            if ret \<noteq> BOX_OK then Some (s2, LOS_ERRNO_SWTMR_HANDLER_POOL_NO_MEM)
            else Some (s2\<lparr>swtmrSortLink := OsSortLinkInit (swtmrSortLink s2), swtmrHandlerQueue := [], swtmrTask := None\<rparr>, LOS_OK)
          })"

text \<open>\<open>task\<close> is the answer of \<open>SwtmrTaskCreate\<close>: the task, or a refusal.\<close>

definition OsSwtmrInit :: "u32 \<Rightarrow> u32 \<Rightarrow> nat option \<Rightarrow> 'a swtmr_kstate_scheme \<Rightarrow> ('a swtmr_kstate_scheme \<times> u32) option" where
  "OsSwtmrInit cb pool task s = do {
     (s1, ret) \<leftarrow> SwtmrBaseInit cb pool s;
     Some (if ret \<noteq> LOS_OK then (s1\<lparr>g_swtmrCBArray := 0, g_swtmrHandlerPool := 0\<rparr>, ret)
           else case task of
             None \<Rightarrow> (s1\<lparr>g_swtmrCBArray := 0, g_swtmrHandlerPool := 0\<rparr>, LOS_ERRNO_SWTMR_TASK_CREATE_FAILED)
           | Some t \<Rightarrow> (s1\<lparr>swtmrTask := Some t\<rparr>, LOS_OK))
   }"

section \<open>The start of the scheduler\<close>

text \<open>The first task is chosen (\<^verbatim>\<open>kernel/base/sched/los_sched.c\<close>), and the timers that were started before are set anew.\<close>

definition OsSchedStart :: "'a swtmr_kstate_scheme \<Rightarrow> 'a swtmr_kstate_scheme option" where
  "OsSchedStart s =
    do {
      (s1, newTask) \<leftarrow> TopTaskGet s;
      let s2 = set_status newTask OS_TASK_STATUS_RUNNING s1;
      let s3 = upd_task newTask (\<lambda>c. c\<lparr>startTime := clock s2\<rparr>) (s2\<lparr>currTask := newTask\<rparr>);
      s4 \<leftarrow> OsSwtmrResponseTimeReset (startTime (tcb s3 newTask)) s3;
      let s5 = s4\<lparr>taskScheduled := True, responseID := OS_INVALID_VALUE\<rparr>;
      Some (SchedNextExpireTimeSet (of_nat newTask) (ops_deadlineGet newTask s5) OS_INVALID_VALUE s5)
    }"

end
