(* ===== verification/LosSwtmrInv.thy ===== *)
theory LosSwtmrInv
  imports LosSwtmr
begin

text \<open>
  The invariant of the software timers: every timer is in the list its state says, ticking timers are sorted by the time they are due, identifiers lead back to
  their timers, and the items of the handler queue are the blocks in use of the box. Each operation returns and keeps it.
\<close>

section \<open>The invariant\<close>

definition tm_ok :: "nat \<Rightarrow> SWTMR_CTRL_S \<Rightarrow> bool" where
  "tm_ok i c \<longleftrightarrow> unat (usTimerID c) mod 1024 = i \<and> unat (usTimerID c) < 64512 \<and> (ucState c = 0 \<or> ucState c = 1 \<or> ucState c = 2) \<and>
    (ucState c \<noteq> 0 \<longrightarrow> (ucMode c = 0 \<or> ucMode c = 1 \<or> ucMode c = 2) \<and> uwInterval c \<noteq> 0 \<and> uwExpiry c = uwInterval c)"

text \<open>The timers outside \<open>X\<close> are in order, those in \<open>X\<close> are in no list.\<close>

definition timers_out :: "nat set \<Rightarrow> 'a swtmr_kstate_scheme \<Rightarrow> bool" where
  "timers_out X s \<longleftrightarrow> distinct (g_swtmrFreeList s) \<and> (\<forall>i. i \<in> set (g_swtmrFreeList s) \<longleftrightarrow> i < 1024 \<and> ucState (swtmrCB s i) = 0 \<and> i \<notin> X) \<and>
    sl_inv (swtmrNodes s) (swtmrSortLink s) \<and> (\<forall>i. i \<in> set (sortLink (swtmrSortLink s)) \<longleftrightarrow> i < 1024 \<and> ucState (swtmrCB s i) = 2 \<and> i \<notin> X) \<and>
    (\<forall>i < 1024. tm_ok i (swtmrCB s i)) \<and>
    (\<forall>i < 1024. i \<notin> X \<longrightarrow> ucState (swtmrCB s i) = 1 \<longrightarrow> responseTime (swtmrNodes s i) = OS_SORT_LINK_INVALID_TIME)"

abbreviation (input) timers_ok :: "'a swtmr_kstate_scheme \<Rightarrow> bool" where "timers_ok \<equiv> timers_out {}"

definition items_ok :: "'a swtmr_kstate_scheme \<Rightarrow> bool" where
  "items_ok s \<longleftrightarrow> box_inv (g_swtmrHandlerPool s) (handlerBox s) \<and> uwBlkNum (boxInfo (handlerBox s)) = 1024 \<and> distinct (swtmrHandlerQueue s) \<and>
    (\<forall>a. a \<in> set (swtmrHandlerQueue s) \<longleftrightarrow> a - 4 \<in> box_nodes (g_swtmrHandlerPool s) (handlerBox s) \<and> a - 4 \<notin> set (box_free (handlerBox s)))"

lemma timersD:
  assumes "timers_out X s"
  shows "distinct (g_swtmrFreeList s)" and "i \<in> set (g_swtmrFreeList s) \<longleftrightarrow> i < 1024 \<and> ucState (swtmrCB s i) = 0 \<and> i \<notin> X"
    and "sl_inv (swtmrNodes s) (swtmrSortLink s)" and "i \<in> set (sortLink (swtmrSortLink s)) \<longleftrightarrow> i < 1024 \<and> ucState (swtmrCB s i) = 2 \<and> i \<notin> X"
    and "i < 1024 \<Longrightarrow> tm_ok i (swtmrCB s i)"
    and "i < 1024 \<Longrightarrow> i \<notin> X \<Longrightarrow> ucState (swtmrCB s i) = 1 \<Longrightarrow> responseTime (swtmrNodes s i) = OS_SORT_LINK_INVALID_TIME"
  using assms by (auto simp: timers_out_def)

lemma timers_out_created: "timers_ok s \<Longrightarrow> ucState (swtmrCB s i) = 1 \<Longrightarrow> timers_out {i} s"
  by (auto simp: timers_out_def)

lemma upd_swtmr_simps [simp]:
  "swtmrCB (upd_swtmr i f s) = (swtmrCB s)(i := f (swtmrCB s i))" "swtmrNodes (upd_swtmr i f s) = swtmrNodes s"
  "g_swtmrFreeList (upd_swtmr i f s) = g_swtmrFreeList s" "swtmrSortLink (upd_swtmr i f s) = swtmrSortLink s" "swtmrTask (upd_swtmr i f s) = swtmrTask s"
  "swtmrHandlerQueue (upd_swtmr i f s) = swtmrHandlerQueue s" "handlerItems (upd_swtmr i f s) = handlerItems s"
  "g_swtmrHandlerPool (upd_swtmr i f s) = g_swtmrHandlerPool s" "handlerBox (upd_swtmr i f s) = handlerBox s" "clock (upd_swtmr i f s) = clock s"
  "cfg (upd_swtmr i f s) = cfg s" "tcb (upd_swtmr i f s) = tcb s" "currTask (upd_swtmr i f s) = currTask s"
  by (simp_all add: upd_swtmr_def)

lemma items_ok_cong:
  "swtmrHandlerQueue t = swtmrHandlerQueue s \<Longrightarrow> g_swtmrHandlerPool t = g_swtmrHandlerPool s \<Longrightarrow> handlerBox t = handlerBox s \<Longrightarrow> items_ok t \<longleftrightarrow> items_ok s"
  by (simp add: items_ok_def)

text \<open>A change of one timer that is in no list.\<close>

lemma timers_out_upd:
  assumes "timers_out X s" and "i \<in> X" and "i < 1024 \<Longrightarrow> tm_ok i (f (swtmrCB s i))"
  shows "timers_out X (upd_swtmr i f s)"
  using assms unfolding timers_out_def by auto

lemma timers_out_keep:
  assumes "timers_out X s" and "ucState (f (swtmrCB s i)) = ucState (swtmrCB s i)" and "i < 1024 \<Longrightarrow> tm_ok i (f (swtmrCB s i))"
  shows "timers_out X (upd_swtmr i f s)"
proof -
  have "ucState (swtmrCB (upd_swtmr i f s) j) = ucState (swtmrCB s j)" for j using assms(2) by simp
  moreover have "j < 1024 \<Longrightarrow> tm_ok j (swtmrCB (upd_swtmr i f s) j)" for j using assms(3) timersD(5) [OF assms(1)] by simp
  ultimately show ?thesis using assms(1) unfolding timers_out_def by simp
qed

section \<open>Times\<close>

lemma unat_add64: "unat (a :: u64) + unat b < 2 ^ 64 \<Longrightarrow> unat (a + b) = unat a + unat b"
  using unat_add_lem [of a b] by simp

lemma unat_mult64: "unat (a :: u64) * unat b < 2 ^ 64 \<Longrightarrow> unat (a * b) = unat a * unat b"
  using unat_mult_lem [of a b] by simp

text \<open>When a timer that was started at \<open>st\<close> is due next: a whole number of periods later, and not before the clock.\<close>

definition due :: "u64 \<Rightarrow> u64 \<Rightarrow> u64 \<Rightarrow> u64" where
  "due st P clk = (if st + P < clk then st + ucast (ucast ((clk - st) div P) :: u32) * P + P else st + P)"

lemma due_time:
  assumes st: "unat st < 2 ^ 62" and P: "0 < unat P" "unat P < 2 ^ 63" and clk: "unat clk < 2 ^ 62" and lag: "unat clk < unat st + 2 ^ 32 * unat P"
  shows "\<exists>n. 0 < n \<and> unat (due st P clk) = unat st + n * unat P" and "unat clk \<le> unat (due st P clk)"
    and "unat (due st P clk) \<le> max (unat st) (unat clk) + unat P"
proof -
  have a: "unat (st + P) = unat st + unat P" using st P by (intro unat_add64) simp
  have "(\<exists>n. 0 < n \<and> unat (due st P clk) = unat st + n * unat P) \<and> unat clk \<le> unat (due st P clk) \<and> unat (due st P clk) \<le> max (unat st) (unat clk) + unat P"
  proof (cases "st + P < clk")
    case False
    then have "unat clk \<le> unat st + unat P" using a by (simp add: word_less_nat_alt not_less)
    moreover have "due st P clk = st + P" using False by (simp add: due_def)
    ultimately show ?thesis using a by (auto intro: exI [of _ 1])
  next
    case True
    then have lt: "unat st + unat P < unat clk" using a by (simp add: word_less_nat_alt)
    define m where "m = (unat clk - unat st) div unat P"
    have "unat (clk - st) = unat clk - unat st" using lt by (intro unat_sub) (simp add: word_le_nat_alt)
    then have q: "unat ((clk - st) div P) = m" by (simp add: unat_div m_def)
    have "m < 2 ^ 32" unfolding m_def using lag lt P by (intro less_mult_imp_div_less) linarith
    then have m: "unat (ucast (ucast ((clk - st) div P) :: u32) :: u64) = m"
      by (simp add: unsigned_ucast_eq unsigned_take_bit_eq q take_bit_nat_eq_self)
    have r: "(unat clk - unat st) mod unat P < unat P" using P by simp
    have eq: "m * unat P + (unat clk - unat st) mod unat P = unat clk - unat st" unfolding m_def by (rule div_mult_mod_eq)
    then have mp: "unat st + m * unat P \<le> unat clk" "unat clk < unat st + m * unat P + unat P" using r lt by linarith+
    define g where "g = (ucast (ucast ((clk - st) div P) :: u32) :: u64) * P"
    have g: "unat g = m * unat P" unfolding g_def using mp(1) clk m by (subst unat_mult64) simp_all
    have "unat (st + g) = unat st + m * unat P" using mp(1) clk g by (subst unat_add64) simp_all
    then have "unat (st + g + P) = unat st + m * unat P + unat P" using mp(1) clk P by (subst unat_add64) simp_all
    then have u: "unat (due st P clk) = unat st + Suc m * unat P" using True by (simp add: due_def g_def)
    then have "unat clk \<le> unat (due st P clk)" "unat (due st P clk) \<le> max (unat st) (unat clk) + unat P" using mp by simp_all
    then show ?thesis using u zero_less_Suc by blast
  qed
  then show "\<exists>n. 0 < n \<and> unat (due st P clk) = unat st + n * unat P" "unat clk \<le> unat (due st P clk)" "unat (due st P clk) \<le> max (unat st) (unat clk) + unat P" by blast+
qed

definition period_of :: "'a swtmr_kstate_scheme \<Rightarrow> nat \<Rightarrow> nat" where
  "period_of s i = unat (uwInterval (swtmrCB s i)) * unat (cyclePerTick (cfg s))"

text \<open>The tick has at least one cycle and fewer than \<open>2\<^sup>3\<^sup>1\<close>, and the clock is below \<open>2\<^sup>6\<^sup>2\<close>.\<close>

definition time_ok :: "'a swtmr_kstate_scheme \<Rightarrow> bool" where
  "time_ok s \<longleftrightarrow> 0 < unat (cyclePerTick (cfg s)) \<and> unat (cyclePerTick (cfg s)) < 2 ^ 31 \<and> unat (clock s) < 2 ^ 62"

lemma period_word:
  fixes ticks cyc :: u32
  assumes "unat cyc < 2 ^ 31"
  shows "unat (ucast ticks * ucast cyc :: u64) = unat ticks * unat cyc" and "unat ticks * unat cyc < 2 ^ 63"
proof -
  have u: "unat (ucast w :: u64) = unat w" for w :: u32
    using unat_lt32 [of w] by (simp add: unsigned_ucast_eq take_bit_nat_eq_self)
  have t: "unat ticks < 2 ^ 32" by (rule unat_lt32)
  have "unat ticks * unat cyc \<le> 2 ^ 32 * unat cyc" using t by (intro mult_right_mono) simp_all
  also have "\<dots> < 2 ^ 32 * 2 ^ 31" using assms by simp
  finally show p: "unat ticks * unat cyc < 2 ^ 63" by simp
  then show "unat (ucast ticks * ucast cyc :: u64) = unat ticks * unat cyc" using u by (subst unat_mult64) simp_all
qed

section \<open>Operations on one timer\<close>

lemma AddSwtmr_spec:
  assumes o: "timers_out {i} s" and i: "i < 1024" "ucState (swtmrCB s i) = 2" and t: "time \<noteq> OS_SORT_LINK_INVALID_TIME"
  shows "\<exists>h s'. AddSwtmr2TimeList i time s = Some s' \<and> s' = s\<lparr>swtmrNodes := (swtmrNodes s)(i := (swtmrNodes s i)\<lparr>responseTime := time, cpuid := 0\<rparr>), swtmrSortLink := h\<rparr> \<and>
    timers_ok s' \<and> remove1 i (sortLink h) = sortLink (swtmrSortLink s)"
proof -
  note d = timersD [OF o]
  have "i \<notin> set (sortLink (swtmrSortLink s))" "\<not> linked s i" using d(2,4) [of i] by auto
  with OsAdd2SortLink_spec [OF d(3) this(1) t, of 0] obtain n h where h: "OsAdd2SortLink (swtmrNodes s) (swtmrSortLink s) i time 0 = Some (n, h)" "sl_inv n h"
    "n = (swtmrNodes s)(i := (swtmrNodes s i)\<lparr>responseTime := time, cpuid := 0\<rparr>)" "set (sortLink h) = insert i (set (sortLink (swtmrSortLink s)))"
    "remove1 i (sortLink h) = sortLink (swtmrSortLink s)" by blast
  define s' where "s' = s\<lparr>swtmrNodes := n, swtmrSortLink := h\<rparr>"
  have "timers_ok s'" unfolding timers_out_def
  proof (intro conjI allI impI)
    fix j
    show "j \<in> set (g_swtmrFreeList s') \<longleftrightarrow> j < 1024 \<and> ucState (swtmrCB s' j) = 0 \<and> j \<notin> {}" using d(2) [of j] i by (auto simp: s'_def)
    show "j \<in> set (sortLink (swtmrSortLink s')) \<longleftrightarrow> j < 1024 \<and> ucState (swtmrCB s' j) = 2 \<and> j \<notin> {}" using d(4) [of j] i h(4) by (auto simp: s'_def)
  qed (use d(1,5,6) h(2,3) i in \<open>auto simp: s'_def\<close>)
  then show ?thesis using h \<open>\<not> linked s i\<close> by (intro exI [of _ h] exI [of _ s']) (simp add: AddSwtmr2TimeList_def s'_def)
qed

lemma ToStart_spec:
  assumes o: "timers_out {i} s" and i: "i < 1024" "ucState (swtmrCB s i) \<noteq> 0" and tk: "time_ok s" and st: "unat (swStartTime (swtmrCB s i)) < 2 ^ 62"
    and lag: "unat (clock s) < unat (swStartTime (swtmrCB s i)) + 2 ^ 32 * unat (cyclePerTick (cfg s))"
  shows "\<exists>s' t h st'. SwtmrToStart i s = Some (s', t) \<and> timers_ok s' \<and>
    s' = (upd_swtmr i (\<lambda>c. c\<lparr>ucState := 2, swStartTime := st'\<rparr>) s)\<lparr>swtmrNodes := (swtmrNodes s)(i := (swtmrNodes s i)\<lparr>responseTime := t, cpuid := 0\<rparr>), swtmrSortLink := h\<rparr> \<and>
    remove1 i (sortLink h) = sortLink (swtmrSortLink s) \<and> (\<exists>n. 0 < n \<and> unat t = unat (swStartTime (swtmrCB s i)) + n * period_of s i) \<and> unat (clock s) \<le> unat t \<and>
    unat t \<le> max (unat (swStartTime (swtmrCB s i))) (unat (clock s)) + period_of s i"
proof -
  let ?c = "swtmrCB s i"
  have tm: "tm_ok i ?c" by (rule timersD(5) [OF o i(1)])
  then have c: "uwInterval ?c \<noteq> 0" "uwExpiry ?c = uwInterval ?c" using i(2) by (auto simp: tm_ok_def)
  define P where "P = (ucast (uwInterval ?c) * ucast (cyclePerTick (cfg s)) :: u64)"
  have cyc: "0 < unat (cyclePerTick (cfg s))" "unat (cyclePerTick (cfg s)) < 2 ^ 31" "unat (clock s) < 2 ^ 62" using tk by (auto simp: time_ok_def)
  have P: "unat P = period_of s i" "period_of s i < 2 ^ 63" using period_word [OF cyc(2)] by (auto simp: P_def period_of_def)
  have iv: "0 < unat (uwInterval ?c)" using c(1) by (simp add: unat_gt_0)
  then have P0: "0 < unat P" "unat (cyclePerTick (cfg s)) \<le> unat P" using cyc(1) P(1) by (auto simp: period_of_def)
  have "2 ^ 32 * unat (cyclePerTick (cfg s)) \<le> 2 ^ 32 * unat P" using P0(2) by simp
  with lag have "unat (clock s) < unat (swStartTime ?c) + 2 ^ 32 * unat P" by linarith
  note dt = due_time [OF st P0(1) _ cyc(3) this, unfolded P(1), OF P(2)]
  define t where "t = due (swStartTime ?c) P (clock s)"
  define st' where "st' = (if swStartTime ?c + P < clock s then swStartTime ?c + ucast (ucast ((clock s - swStartTime ?c) div P) :: u32) * P else swStartTime ?c)"
  define s2 where "s2 = upd_swtmr i (\<lambda>c. c\<lparr>ucState := 2, swStartTime := st'\<rparr>) s"
  have "max (unat (swStartTime ?c)) (unat (clock s)) < 2 ^ 62" using st cyc(3) by simp
  then have "unat t < 2 ^ 62 + 2 ^ 63" using dt(3) P(2) unfolding t_def by linarith
  then have ti: "t \<noteq> OS_SORT_LINK_INVALID_TIME" by auto
  have "timers_out {i} s2" unfolding s2_def by (rule timers_out_upd [OF o]) (use tm i(2) in \<open>auto simp: tm_ok_def\<close>)
  from AddSwtmr_spec [OF this i(1) _ ti] obtain h s' where h: "AddSwtmr2TimeList i t s2 = Some s'"
    "s' = s2\<lparr>swtmrNodes := (swtmrNodes s)(i := (swtmrNodes s i)\<lparr>responseTime := t, cpuid := 0\<rparr>), swtmrSortLink := h\<rparr>" "timers_ok s'"
    "remove1 i (sortLink h) = sortLink (swtmrSortLink s)" by (auto simp: s2_def)
  have Pn: "P \<noteq> 0" using P0(1) by auto
  have e2: "cfg s2 = cfg s" "clock s2 = clock s" by (simp_all add: s2_def)
  have tick: "(if uwOverrun ?c = 0 \<and> (ucMode ?c = 0 \<or> ucMode ?c = 3 \<or> ucMode ?c = 2) then uwExpiry ?c else uwInterval ?c) = uwInterval ?c" using c(2) by simp
  have "SwtmrToStart i s = Some (s', t)"
  proof (cases "swStartTime ?c + P < clock s")
    case True
    then have "upd_swtmr i (\<lambda>c. c\<lparr>swStartTime := swStartTime ?c + ucast (ucast ((clock s - swStartTime ?c) div P) :: u32) * P\<rparr>)
        (upd_swtmr i (\<lambda>c. c\<lparr>ucState := OS_SWTMR_STATUS_TICKING\<rparr>) s) = s2" by (simp add: s2_def st'_def upd_swtmr_def)
    then show ?thesis using True Pn h(1) unfolding SwtmrToStart_def Let_def tick by (simp add: e2 P_def [symmetric] OsGetCurrSchedTimeCycle_def t_def due_def)
  next
    case False
    then have "upd_swtmr i (\<lambda>c. c\<lparr>ucState := OS_SWTMR_STATUS_TICKING\<rparr>) s = s2" by (simp add: s2_def st'_def upd_swtmr_def)
    then show ?thesis using False h(1) unfolding SwtmrToStart_def Let_def tick by (simp add: e2 P_def [symmetric] OsGetCurrSchedTimeCycle_def t_def due_def)
  qed
  with h dt show ?thesis unfolding t_def [symmetric] s2_def by blast
qed

lemma SwtmrStop_spec:
  assumes o: "timers_ok s" and i: "i < 1024" "ucState (swtmrCB s i) = 2"
  shows "\<exists>h s'. SwtmrStop i s = Some s' \<and> s' = (upd_swtmr i (\<lambda>c. c\<lparr>ucState := 1, uwOverrun := 0\<rparr>) s)\<lparr>swtmrNodes := SET_SORTLIST_VALUE (swtmrNodes s) i OS_SORT_LINK_INVALID_TIME,
    swtmrSortLink := h\<rparr> \<and> timers_ok s'"
proof -
  note d = timersD [OF o]
  have "i \<in> set (sortLink (swtmrSortLink s))" using d(4) [of i] i by simp
  moreover from this have "responseTime (swtmrNodes s i) \<noteq> OS_SORT_LINK_INVALID_TIME" using sl_invD(3) [OF d(3)] by blast
  ultimately obtain h where h: "OsDeleteFromSortLink (swtmrNodes s) (swtmrSortLink s) i = Some (SET_SORTLIST_VALUE (swtmrNodes s) i OS_SORT_LINK_INVALID_TIME, h)"
    "sl_inv (SET_SORTLIST_VALUE (swtmrNodes s) i OS_SORT_LINK_INVALID_TIME) h" "set (sortLink h) = set (sortLink (swtmrSortLink s)) - {i}"
    using OsDeleteFromSortLink_spec [OF d(3), of i] by blast
  define s' where "s' = (upd_swtmr i (\<lambda>c. c\<lparr>ucState := 1, uwOverrun := 0\<rparr>) s)\<lparr>swtmrNodes := SET_SORTLIST_VALUE (swtmrNodes s) i OS_SORT_LINK_INVALID_TIME, swtmrSortLink := h\<rparr>"
  have "timers_ok s'" unfolding timers_out_def
  proof (intro conjI allI impI)
    fix j
    show "j \<in> set (g_swtmrFreeList s') \<longleftrightarrow> j < 1024 \<and> ucState (swtmrCB s' j) = 0 \<and> j \<notin> {}" using d(2) [of j] i by (auto simp: s'_def)
    show "j \<in> set (sortLink (swtmrSortLink s')) \<longleftrightarrow> j < 1024 \<and> ucState (swtmrCB s' j) = 2 \<and> j \<notin> {}" using d(4) [of j] h(3) by (auto simp: s'_def)
    assume "j < 1024"
    then show "tm_ok j (swtmrCB s' j)" using d(5) [of j] i by (auto simp: s'_def tm_ok_def)
    assume "j \<notin> {}" "ucState (swtmrCB s' j) = 1"
    then show "responseTime (swtmrNodes s' j) = OS_SORT_LINK_INVALID_TIME" using d(6) [of j] \<open>j < 1024\<close> by (auto simp: s'_def SET_SORTLIST_VALUE_def)
  qed (use d(1) h(2) in \<open>simp_all add: s'_def\<close>)
  then show ?thesis using h(1) by (intro exI [of _ h] exI [of _ s']) (simp add: SwtmrStop_def DeSwtmrFromTimeList_def s'_def)
qed

lemma SwtmrDelete_spec:
  assumes o: "timers_out {i} s" and i: "i < 1024"
  shows "\<exists>s'. SwtmrDelete i s = Some s' \<and> timers_ok s' \<and>
    s' = upd_swtmr i (\<lambda>c. c\<lparr>ucState := 0, uwOwnerPid := OS_INVALID_VALUE\<rparr>) (s\<lparr>g_swtmrFreeList := g_swtmrFreeList s @ [i]\<rparr>)"
proof -
  note d = timersD [OF o]
  have nl: "\<not> linked s i" using d(2,4) [of i] by auto
  define s' where "s' = upd_swtmr i (\<lambda>c. c\<lparr>ucState := 0, uwOwnerPid := OS_INVALID_VALUE\<rparr>) (s\<lparr>g_swtmrFreeList := g_swtmrFreeList s @ [i]\<rparr>)"
  have "timers_ok s'" unfolding timers_out_def
  proof (intro conjI allI impI)
    fix j
    show "j \<in> set (g_swtmrFreeList s') \<longleftrightarrow> j < 1024 \<and> ucState (swtmrCB s' j) = 0 \<and> j \<notin> {}" using d(2) [of j] i by (auto simp: s'_def)
    show "j \<in> set (sortLink (swtmrSortLink s')) \<longleftrightarrow> j < 1024 \<and> ucState (swtmrCB s' j) = 2 \<and> j \<notin> {}" using d(4) [of j] by (auto simp: s'_def)
    assume "j < 1024"
    then show "tm_ok j (swtmrCB s' j)" using d(5) [of j] by (auto simp: s'_def tm_ok_def)
    assume "j \<notin> {}" "ucState (swtmrCB s' j) = 1"
    then show "responseTime (swtmrNodes s' j) = OS_SORT_LINK_INVALID_TIME" using d(6) [of j] \<open>j < 1024\<close> by (auto simp: s'_def split: if_splits)
  qed (use d(1,3) nl in \<open>simp_all add: s'_def\<close>)
  then show ?thesis using nl by (intro exI [of _ s']) (simp add: SwtmrDelete_def s'_def)
qed

section \<open>The timer task in the scheduler\<close>

lemma TimeoutQueueAdjust_spec:
  assumes k: "k_inv s" and f: "\<not> is_frozen (tcb s t)" and time: "time \<noteq> OS_SORT_LINK_INVALID_TIME"
  shows "\<exists>s' r. OsSchedTimeoutQueueAdjust t time s = Some (s', r) \<and> k_inv s' \<and> env_of s' = env_of s \<and> tcb s' = tcb s"
proof -
  let ?n = "sortNodes s" and ?q = "timeoutQueue s" and ?I = OS_SORT_LINK_INVALID_TIME
  have o: "sl_inv ?n ?q" "\<And>u. u \<in> set (sortLink ?q) \<longleftrightarrow> \<not> is_frozen (tcb s u) \<and> responseTime (?n u) \<noteq> ?I" "\<And>u. u \<in> set (sortLink ?q) \<Longrightarrow> timed_ok (tcb s u)"
    using k_invD(3) [OF k] by (auto simp: timeouts_ok_def)
  show ?thesis
  proof (cases "responseTime (?n t) = ?I")
    case True
    then show ?thesis using k by (simp add: OsSchedTimeoutQueueAdjust_def OsSortLinkAdjustNodeResponseTime_def)
  next
    case False
    then have t: "t \<in> set (sortLink ?q)" using o(2) [of t] f by simp
    from OsDeleteNode_inv [OF o(1) t] obtain h1 where h1: "OsDeleteNodeSortLink ?n ?q t = Some (SET_SORTLIST_VALUE ?n t ?I, h1)" "sl_inv (SET_SORTLIST_VALUE ?n t ?I) h1"
      "set (sortLink h1) = set (sortLink ?q) - {t}" by blast
    define n2 where "n2 = SET_SORTLIST_VALUE (SET_SORTLIST_VALUE ?n t ?I) t time"
    have n2: "responseTime (n2 u) = (if u = t then time else responseTime (?n u))" for u by (simp add: n2_def SET_SORTLIST_VALUE_def)
    have "sl_inv n2 h1" using h1(2,3) by (subst sl_inv_cong [where nodes = "SET_SORTLIST_VALUE ?n t ?I"]) (auto simp: n2_def SET_SORTLIST_VALUE_def)
    from AddNode_inv [OF this, of t] h1(3) time n2 obtain h2 where h2: "AddNode2SortLink n2 h1 t = Some h2" "sl_inv n2 h2" "set (sortLink h2) = set (sortLink ?q)" using t insert_absorb [OF t] by auto
    define s' where "s' = s\<lparr>sortNodes := n2, timeoutQueue := h2, schedFlag := schedFlag s OR INT_PEND_TICK\<rparr>"
    have "OsSchedTimeoutQueueAdjust t time s = Some (s', LOS_OK)" using False h1(1) h2(1)
      by (simp add: OsSchedTimeoutQueueAdjust_def OsSortLinkAdjustNodeResponseTime_def n2_def [symmetric] s'_def)
    moreover have "timeouts_ok s'" unfolding timeouts_ok_def using h2(2,3) o f time False by (auto simp: s'_def n2)
    then have "k_inv s'" using k_invD [OF k] queues_ok_cong [of s' s] by (simp add: k_inv_def s'_def lists_ok_def)
    ultimately show ?thesis by (auto simp: s'_def env_of_def)
  qed
qed

lemma ExpireTimeUpdate_spec:
  shows "env_of (OsSchedExpireTimeUpdate s) = env_of s" and "k_inv (OsSchedExpireTimeUpdate s) = k_inv s" and "tcb (OsSchedExpireTimeUpdate s) = tcb s"
proof -
  have "tcb (OsSchedExpireTimeUpdate s) = tcb s \<and> lists (OsSchedExpireTimeUpdate s) = lists s \<and> readyTasks (OsSchedExpireTimeUpdate s) = readyTasks s \<and>
      prioBitmap (OsSchedExpireTimeUpdate s) = prioBitmap s \<and> baseBitmap (OsSchedExpireTimeUpdate s) = baseBitmap s \<and>
      timer_of (OsSchedExpireTimeUpdate s) = timer_of s \<and> env_of (OsSchedExpireTimeUpdate s) = env_of s"
    by (simp add: OsSchedExpireTimeUpdate_def SchedNextExpireTimeSet_def OsSchedRunqueuePendingSet_def Let_def timer_of_def env_of_def)
  then show "env_of (OsSchedExpireTimeUpdate s) = env_of s" "k_inv (OsSchedExpireTimeUpdate s) = k_inv s" "tcb (OsSchedExpireTimeUpdate s) = tcb s"
    using k_inv_cong [of "OsSchedExpireTimeUpdate s" s] by simp_all
qed

text \<open>The timer task is never frozen.\<close>

definition task_ok :: "'a swtmr_kstate_scheme \<Rightarrow> bool" where
  "task_ok s \<longleftrightarrow> k_inv s \<and> (\<forall>t. swtmrTask s = Some t \<longrightarrow> \<not> is_frozen (tcb s t))"

lemma AdjustCheck_spec:
  assumes t: "task_ok s" and time: "time \<noteq> OS_SORT_LINK_INVALID_TIME"
  shows "\<exists>s'. SwtmrAdjustCheck time s = Some s' \<and> k_inv s' \<and> env_of s' = env_of s \<and> tcb s' = tcb s"
proof (cases "swtmrTask s")
  case None
  then show ?thesis using t by (simp add: SwtmrAdjustCheck_def task_ok_def)
next
  case (Some u)
  from TimeoutQueueAdjust_spec [of s u, OF _ _ time] t Some obtain s1 r where s1: "OsSchedTimeoutQueueAdjust u time s = Some (s1, r)" "k_inv s1" "env_of s1 = env_of s" "tcb s1 = tcb s"
    by (auto simp: task_ok_def)
  show ?thesis using Some s1 ExpireTimeUpdate_spec [of s1] t unfolding SwtmrAdjustCheck_def task_ok_def by (cases "r = LOS_OK") auto
qed

text \<open>What the scheduler leaves of the timers.\<close>

lemma swtmr_more:
  assumes "kstate.more s' = kstate.more s"
  shows "swtmrCB s' = swtmrCB s" "swtmrNodes s' = swtmrNodes s" "g_swtmrFreeList s' = g_swtmrFreeList s" "swtmrSortLink s' = swtmrSortLink s" "swtmrTask s' = swtmrTask s"
    "swtmrHandlerQueue s' = swtmrHandlerQueue s" "handlerItems s' = handlerItems s" "g_swtmrHandlerPool s' = g_swtmrHandlerPool s" "handlerBox s' = handlerBox s"
  using assms by (cases s; cases s'; simp)+

lemma timers_more: "kstate.more s' = kstate.more s \<Longrightarrow> timers_out X s' = timers_out X s" "kstate.more s' = kstate.more s \<Longrightarrow> items_ok s' = items_ok s"
  using swtmr_more [of s' s] by (simp_all add: timers_out_def items_ok_def)

section \<open>Waking\<close>

text \<open>Taking an item from the box, when one is left.\<close>

lemma take_item:
  assumes b: "items_ok s" and n: "length (swtmrHandlerQueue s) < 1024"
  shows "\<exists>box item. LOS_MemboxAlloc (g_swtmrHandlerPool s) (handlerBox s) = (box, item) \<and> item \<noteq> 0 \<and> item \<notin> set (swtmrHandlerQueue s) \<and>
    (\<forall>it. items_ok (s\<lparr>handlerBox := box, handlerItems := it, swtmrHandlerQueue := swtmrHandlerQueue s @ [item]\<rparr>))"
proof -
  let ?p = "g_swtmrHandlerPool s" and ?b = "handlerBox s" and ?q = "swtmrHandlerQueue s"
  have v: "box_inv ?p ?b" "uwBlkNum (boxInfo ?b) = 1024" "distinct ?q" and q: "\<And>a. a \<in> set ?q \<longleftrightarrow> a - 4 \<in> box_nodes ?p ?b \<and> a - 4 \<notin> set (box_free ?b)"
    using b by (auto simp: items_ok_def)
  have sh: "box_shape ?p ?b" "set (box_free ?b) \<subseteq> box_nodes ?p ?b" "distinct (box_free ?b)" using v(1) by (auto simp: box_inv_def)
  have "box_free ?b \<noteq> []"
  proof
    assume e: "box_free ?b = []"
    have "set ?q = (\<lambda>x. x + 4) ` box_nodes ?p ?b"
    proof (rule set_eqI)
      fix a
      have "a \<in> (\<lambda>x. x + 4) ` box_nodes ?p ?b \<longleftrightarrow> a - 4 \<in> box_nodes ?p ?b" by (force simp: image_iff)
      then show "a \<in> set ?q \<longleftrightarrow> a \<in> (\<lambda>x. x + 4) ` box_nodes ?p ?b" using q [of a] e by simp
    qed
    then have "card (set ?q) = 1024" using box_nodes_card [OF sh(1)] v(2) by (simp add: card_image)
    then show False using distinct_card [OF v(3)] n by simp
  qed
  then obtain x xs where x: "box_free ?b = x # xs" by (cases "box_free ?b") auto
  with MemboxAlloc_inv [OF v(1)] obtain box where box: "LOS_MemboxAlloc ?p ?b = (box, x + 4)" "box_inv ?p box" "box_free box = xs"
    "uwBlkSize (boxInfo box) = uwBlkSize (boxInfo ?b)" "uwBlkNum (boxInfo box) = uwBlkNum (boxInfo ?b)" by auto
  have nodes: "box_nodes ?p box = box_nodes ?p ?b" using box_nodes_info [OF box(4,5)] by blast
  have xn: "x \<in> box_nodes ?p ?b" "x \<notin> set xs" using sh(2,3) x by auto
  have "x + 4 \<noteq> 0"
  proof
    assume "x + 4 = 0"
    from xn(1) obtain i where i: "i < unat (uwBlkNum (boxInfo ?b))" "x = box_node ?p ?b i" by (auto simp: box_nodes_def)
    have lt: "i * unat (uwBlkSize (boxInfo ?b)) + unat (uwBlkSize (boxInfo ?b)) \<le> unat (uwBlkNum (boxInfo ?b)) * unat (uwBlkSize (boxInfo ?b))"
      using i(1) mult_le_mono1 [of "Suc i" "unat (uwBlkNum (boxInfo ?b))" "unat (uwBlkSize (boxInfo ?b))"] by simp
    have "unat x = unat ?p + 16 + i * unat (uwBlkSize (boxInfo ?b))" using box_node_unat [OF sh(1) i(1)] i(2) by simp
    moreover have "8 \<le> unat (uwBlkSize (boxInfo ?b))" "unat ?p + 16 + unat (uwBlkNum (boxInfo ?b)) * unat (uwBlkSize (boxInfo ?b)) < 2 ^ 32"
      using sh(1) by (auto simp: box_shape_def)
    ultimately have "unat x + 4 < 2 ^ 32" using lt by linarith
    then have "unat (x + 4) = unat x + 4" using unat_add32 [of x 4] by simp
    with \<open>x + 4 = 0\<close> show False by simp
  qed
  moreover have "x + 4 \<notin> set ?q" using q [of "x + 4"] x by simp
  moreover have "items_ok (s\<lparr>handlerBox := box, handlerItems := it, swtmrHandlerQueue := ?q @ [x + 4]\<rparr>)" for it
  proof -
    have "a \<in> set (?q @ [x + 4]) \<longleftrightarrow> a - 4 \<in> box_nodes ?p box \<and> a - 4 \<notin> set xs" for a
      using q [of a] x xn nodes by (cases "a = x + 4") (auto simp: diff_eq_eq)
    then show ?thesis using box v calculation(2) by (simp add: items_ok_def)
  qed
  ultimately show ?thesis using box(1) by blast
qed

lemma timer_id_advances: "unat n < 64512 \<Longrightarrow> unat (next_timer_id n) mod 1024 = unat n mod 1024 \<and> unat (next_timer_id n) < 64512 \<and> next_timer_id n \<noteq> n"
proof -
  assume n: "unat n < 64512"
  show ?thesis
  proof (cases "unat n < 63488")
    case True
    have "unat (n + 1024) = unat n + 1024" using unat_add_lem [of n 1024] True by simp
    then have "unat (next_timer_id n) = unat n + 1024" using True by (simp add: next_timer_id_def)
    moreover from this have "next_timer_id n \<noteq> n" by auto
    ultimately show ?thesis using True by simp
  next
    case False
    have u: "unat (n mod 1024) = unat n mod 1024" by (simp add: unat_mod)
    then have "unat (next_timer_id n) = unat n mod 1024" using False by (simp add: next_timer_id_def)
    moreover have "unat n mod 1024 < 1024" by simp
    moreover from calculation have "next_timer_id n \<noteq> n" using False by auto
    ultimately show ?thesis by simp
  qed
qed

text \<open>What becomes of a timer \<open>c\<close> that was due at \<open>time\<close> and is handled when the clock shows \<open>clk\<close>: it is deleted and gets a new identifier, or it is stopped, or it is due
  again a whole number of periods later, at the first such time that is not past.\<close>

definition fired :: "u64 \<Rightarrow> u64 \<Rightarrow> nat \<Rightarrow> SWTMR_CTRL_S \<Rightarrow> SWTMR_CTRL_S \<Rightarrow> u64 \<Rightarrow> bool" where
  "fired time clk P c c' time' \<longleftrightarrow>
    (if ucMode c = LOS_SWTMR_MODE_ONCE then ucState c' = OS_SWTMR_STATUS_UNUSED \<and> usTimerID c' = next_timer_id (usTimerID c)
     else if ucMode c = LOS_SWTMR_MODE_NO_SELFDELETE then ucState c' = OS_SWTMR_STATUS_CREATED \<and> usTimerID c' = usTimerID c
     else ucState c' = OS_SWTMR_STATUS_TICKING \<and> usTimerID c' = usTimerID c \<and> (\<exists>n. 0 < n \<and> unat time' = unat time + n * P) \<and> clk \<le> time' \<and>
       unat time' \<le> unat clk + P)"

lemma Wake_spec:
  assumes o: "timers_out {i} s" and i: "i < 1024" "ucState (swtmrCB s i) = 2" "responseTime (swtmrNodes s i) = OS_SORT_LINK_INVALID_TIME"
    and b: "items_ok s" "length (swtmrHandlerQueue s) < 1024" and tk: "time_ok s" and time: "time \<le> clock s"
    and lag: "unat (clock s) < unat time + 2 ^ 32 * unat (cyclePerTick (cfg s))"
  shows "\<exists>s' item. SwtmrWake time i s = Some s' \<and> timers_ok s' \<and> items_ok s' \<and> swtmrHandlerQueue s' = swtmrHandlerQueue s @ [item] \<and> item \<notin> set (swtmrHandlerQueue s) \<and>
    handlerItems s' = (handlerItems s)(item := \<lparr>itemHandler = pfnHandler (swtmrCB s i), itemArg = uwArg (swtmrCB s i)\<rparr>) \<and>
    (\<forall>j. j \<noteq> i \<longrightarrow> swtmrCB s' j = swtmrCB s j \<and> swtmrNodes s' j = swtmrNodes s j) \<and> remove1 i (sortLink (swtmrSortLink s')) = sortLink (swtmrSortLink s) \<and>
    fired time (clock s) (period_of s i) (swtmrCB s i) (swtmrCB s' i) (responseTime (swtmrNodes s' i)) \<and> kstate.truncate s' = kstate.truncate s \<and> swtmrTask s' = swtmrTask s"
proof -
  let ?c = "swtmrCB s i" and ?q = "swtmrHandlerQueue s"
  from take_item [OF b] obtain box item where it: "LOS_MemboxAlloc (g_swtmrHandlerPool s) (handlerBox s) = (box, item)" "item \<noteq> 0" "item \<notin> set ?q"
    "\<And>m. items_ok (s\<lparr>handlerBox := box, handlerItems := m, swtmrHandlerQueue := ?q @ [item]\<rparr>)" by blast
  define s1 where "s1 = s\<lparr>handlerBox := box, handlerItems := (handlerItems s)(item := \<lparr>itemHandler = pfnHandler ?c, itemArg = uwArg ?c\<rparr>), swtmrHandlerQueue := ?q @ [item]\<rparr>"
  have i1: "items_ok s1" using it(4) by (simp add: s1_def)
  have o1: "timers_out {i} s1" using o by (simp add: timers_out_def s1_def)
  have e1: "swtmrCB s1 = swtmrCB s" "swtmrNodes s1 = swtmrNodes s" "swtmrSortLink s1 = swtmrSortLink s" "swtmrHandlerQueue s1 = ?q @ [item]" "swtmrTask s1 = swtmrTask s"
    "handlerItems s1 = (handlerItems s)(item := \<lparr>itemHandler = pfnHandler ?c, itemArg = uwArg ?c\<rparr>)" "clock s1 = clock s" "cfg s1 = cfg s" "kstate.truncate s1 = kstate.truncate s"
    by (simp_all add: s1_def kstate.defs)
  have tm: "tm_ok i ?c" by (rule timersD(5) [OF o i(1)])
  then have mode: "ucMode ?c = 0 \<or> ucMode ?c = 1 \<or> ucMode ?c = 2" using i(2) by (auto simp: tm_ok_def)
  have ni: "i \<notin> set (sortLink (swtmrSortLink s))" using timersD(4) [OF o, of i] by simp
  have ids: "unat (usTimerID ?c) mod 1024 = i" "unat (usTimerID ?c) < 64512" using tm by (auto simp: tm_ok_def)
  show ?thesis
  proof (cases "ucMode ?c = 0")
    case True
    from SwtmrDelete_spec [OF o1 i(1)] obtain s2 where s2: "SwtmrDelete i s1 = Some s2" "timers_ok s2"
      "s2 = upd_swtmr i (\<lambda>c. c\<lparr>ucState := 0, uwOwnerPid := OS_INVALID_VALUE\<rparr>) (s1\<lparr>g_swtmrFreeList := g_swtmrFreeList s1 @ [i]\<rparr>)" by blast
    define s' where "s' = upd_swtmr i (\<lambda>c. c\<lparr>usTimerID := next_timer_id (usTimerID c)\<rparr>) s2"
    have "SwtmrWake time i s = Some s'" using True it(1,2) s2(1) by (simp add: SwtmrWake_def s1_def [symmetric] e1 LOS_ASSERT_def s'_def)
    moreover have "tm_ok i ((swtmrCB s2 i)\<lparr>usTimerID := next_timer_id (usTimerID (swtmrCB s2 i))\<rparr>)" using timer_id_advances [OF ids(2)] ids by (simp add: s2(3) e1 tm_ok_def)
    then have "timers_ok s'" unfolding s'_def by (intro timers_out_keep [OF s2(2)]) simp_all
    moreover have "items_ok s'" using i1 by (simp add: s'_def s2(3) items_ok_def)
    moreover have "kstate.truncate s' = kstate.truncate s" using e1(9) by (simp add: s'_def s2(3) upd_swtmr_def kstate.defs)
    ultimately show ?thesis using True e1 it(3) ni by (intro exI [of _ s'] exI [of _ item]) (simp add: s'_def s2(3) fired_def remove1_idem)
  next
    case n0: False
    show ?thesis
    proof (cases "ucMode ?c = 2")
      case True
      define s' where "s' = upd_swtmr i (\<lambda>c. c\<lparr>ucState := 1\<rparr>) s1"
      have "SwtmrWake time i s = Some s'" using True it(1,2) by (simp add: SwtmrWake_def s1_def [symmetric] e1 LOS_ASSERT_def s'_def)
      moreover have "tm_ok i (?c\<lparr>ucState := 1\<rparr>)" using tm i(2) by (simp add: tm_ok_def)
      then have "timers_out {i} s'" unfolding s'_def by (intro timers_out_upd [OF o1]) (simp_all add: e1)
      then have "timers_ok s'" unfolding timers_out_def using i by (simp add: s'_def e1)
      moreover have "items_ok s'" using i1 by (simp add: s'_def items_ok_def)
      moreover have "kstate.truncate s' = kstate.truncate s" using e1(9) by (simp add: s'_def upd_swtmr_def kstate.defs)
      ultimately show ?thesis using True e1 it(3) ni by (intro exI [of _ s'] exI [of _ item]) (simp add: s'_def fired_def remove1_idem)
    next
      case False
      define s2 where "s2 = upd_swtmr i (\<lambda>c. c\<lparr>uwOverrun := uwOverrun c + 1, swStartTime := time\<rparr>) s1"
      have o2: "timers_out {i} s2" unfolding s2_def by (rule timers_out_upd [OF o1]) (use tm in \<open>auto simp: tm_ok_def e1\<close>)
      have tk2: "time_ok s2" using tk by (simp add: time_ok_def s2_def e1)
      have t62: "unat time < 2 ^ 62" using tk time by (auto simp: time_ok_def word_le_nat_alt)
      have c2: "swStartTime (swtmrCB s2 i) = time" "clock s2 = clock s" "cfg s2 = cfg s" "ucState (swtmrCB s2 i) \<noteq> 0" "period_of s2 i = period_of s i"
        using i(2) by (simp_all add: s2_def e1 period_of_def)
      from ToStart_spec [OF o2 i(1) c2(4) tk2, unfolded c2, OF t62 lag] obtain s' t h st' n where s': "SwtmrToStart i s2 = Some (s', t)" "timers_ok s'"
        "s' = (upd_swtmr i (\<lambda>c. c\<lparr>ucState := 2, swStartTime := st'\<rparr>) s2)\<lparr>swtmrNodes := (swtmrNodes s2)(i := (swtmrNodes s2 i)\<lparr>responseTime := t, cpuid := 0\<rparr>), swtmrSortLink := h\<rparr>"
        "remove1 i (sortLink h) = sortLink (swtmrSortLink s2)" "0 < n" "unat t = unat time + n * period_of s i" "unat (clock s) \<le> unat t"
        "unat t \<le> max (unat time) (unat (clock s)) + period_of s i" by blast
      have "SwtmrWake time i s = Some s'" using n0 False it(1,2) s'(1) by (simp add: SwtmrWake_def s1_def [symmetric] e1 LOS_ASSERT_def s2_def [symmetric])
      moreover have "items_ok s'" using i1 by (simp add: s'(3) s2_def items_ok_def)
      moreover have "kstate.truncate s' = kstate.truncate s" using e1(9) by (simp add: s'(3) s2_def upd_swtmr_def kstate.defs)
      moreover have "max (unat time) (unat (clock s)) = unat (clock s)" using time by (simp add: word_le_nat_alt)
      ultimately show ?thesis using n0 False e1 it(3) s'(2,4-8) by (intro exI [of _ s'] exI [of _ item]) (auto simp: s'(3) s2_def fired_def word_le_nat_alt)
    qed
  qed
qed

end
