(* ===== verification/LosSwtmrScan.thy ===== *)
theory LosSwtmrScan
  imports LosSwtmrInv
begin

text \<open>
  The scan of the timer task: it handles exactly the timers that are due, in the order of their times, each of them once, and the box never runs out of items.
\<close>

section \<open>Taking out the first timer\<close>

text \<open>The timers due at \<open>T\<close>.\<close>

definition due_timers :: "u64 \<Rightarrow> 'a swtmr_kstate_scheme \<Rightarrow> nat list" where
  "due_timers T s = takeWhile (\<lambda>i. responseTime (swtmrNodes s i) \<le> T) (sortLink (swtmrSortLink s))"

lemma scan_take_spec:
  assumes o: "timers_ok s" and l: "sortLink (swtmrSortLink s) = i # xs"
  shows "\<exists>s1. scan_take i s = Some (s1, responseTime (swtmrNodes s i)) \<and> timers_out {i} s1 \<and> sortLink (swtmrSortLink s1) = xs \<and>
    responseTime (swtmrNodes s1 i) = OS_SORT_LINK_INVALID_TIME \<and> (\<forall>j. j \<noteq> i \<longrightarrow> swtmrNodes s1 j = swtmrNodes s j) \<and>
    (\<exists>nodes h. s1 = s\<lparr>swtmrNodes := nodes, swtmrSortLink := h\<rparr>)"
proof -
  note d = timersD [OF o]
  let ?n = "SET_SORTLIST_VALUE (swtmrNodes s) i OS_SORT_LINK_INVALID_TIME"
  have i: "i \<in> set (sortLink (swtmrSortLink s))" "i \<notin> set xs" using sl_invD(1) [OF d(3)] l by auto
  from OsDeleteNode_inv [OF d(3) i(1)] obtain h where h: "OsDeleteNodeSortLink (swtmrNodes s) (swtmrSortLink s) i = Some (?n, h)" "sl_inv ?n h"
    "set (sortLink h) = set (sortLink (swtmrSortLink s)) - {i}" by blast
  have hx: "sortLink h = xs" using h(1) l i by (auto simp: OsDeleteNodeSortLink_def)
  define s1 where "s1 = s\<lparr>swtmrNodes := ?n, swtmrSortLink := h\<rparr>"
  have "timers_out {i} s1" unfolding timers_out_def
  proof (intro conjI allI impI)
    fix j
    show "j \<in> set (g_swtmrFreeList s1) \<longleftrightarrow> j < 1024 \<and> ucState (swtmrCB s1 j) = 0 \<and> j \<notin> {i}" using d(2) [of j] d(4) [of i] i(1) by (auto simp: s1_def)
    show "j \<in> set (sortLink (swtmrSortLink s1)) \<longleftrightarrow> j < 1024 \<and> ucState (swtmrCB s1 j) = 2 \<and> j \<notin> {i}" using d(4) [of j] h(3) by (auto simp: s1_def)
    assume "j < 1024"
    then show "tm_ok j (swtmrCB s1 j)" using d(5) by (simp add: s1_def)
    assume "j \<notin> {i}" "ucState (swtmrCB s1 j) = 1"
    then show "responseTime (swtmrNodes s1 j) = OS_SORT_LINK_INVALID_TIME" using d(6) [of j] \<open>j < 1024\<close> by (simp add: s1_def SET_SORTLIST_VALUE_def)
  qed (use d(1) h(2) in \<open>simp_all add: s1_def\<close>)
  then show ?thesis using h(1) hx by (intro exI [of _ s1]) (auto simp: scan_take_def s1_def GET_SORTLIST_VALUE_def SET_SORTLIST_VALUE_def)
qed

section \<open>The loop\<close>

text \<open>The clock moves on while the timers are handled, and the scan comes in time: no more than \<open>2\<^sup>3\<^sup>2\<close> ticks after a timer was due.\<close>

definition readings_ok :: "(nat \<Rightarrow> u64) \<Rightarrow> u64 \<Rightarrow> 'a swtmr_kstate_scheme \<Rightarrow> bool" where
  "readings_ok rd T s \<longleftrightarrow> (\<forall>k. T < rd k \<and> unat (rd k) < 2 ^ 62 \<and>
    (\<forall>i \<in> set (due_timers T s). unat (rd k) < unat (responseTime (swtmrNodes s i)) + 2 ^ 32 * unat (cyclePerTick (cfg s))))"

text \<open>The outcome of a scan of \<open>s\<close> that handles the timers \<open>is\<close>.\<close>

definition scanned :: "(nat \<Rightarrow> u64) \<Rightarrow> u64 \<Rightarrow> nat list \<Rightarrow> 'a swtmr_kstate_scheme \<Rightarrow> 'a swtmr_kstate_scheme \<Rightarrow> bool" where
  "scanned rd T is s s' \<longleftrightarrow> timers_ok s' \<and> items_ok s' \<and>
    (\<exists>items. swtmrHandlerQueue s' = swtmrHandlerQueue s @ items \<and>
      map (handlerItems s') items = map (\<lambda>i. \<lparr>itemHandler = pfnHandler (swtmrCB s i), itemArg = uwArg (swtmrCB s i)\<rparr>) is) \<and>
    (\<forall>a \<in> set (swtmrHandlerQueue s). handlerItems s' a = handlerItems s a) \<and>
    (\<forall>j. j \<notin> set is \<longrightarrow> swtmrCB s' j = swtmrCB s j \<and> swtmrNodes s' j = swtmrNodes s j) \<and>
    (\<forall>i \<in> set is. \<exists>k. fired (responseTime (swtmrNodes s i)) (rd k) (period_of s i) (swtmrCB s i) (swtmrCB s' i) (responseTime (swtmrNodes s' i))) \<and>
    (\<forall>i \<in> set (sortLink (swtmrSortLink s')). T < responseTime (swtmrNodes s' i)) \<and>
    kstate.truncate (s'\<lparr>clock := 0\<rparr>) = kstate.truncate (s\<lparr>clock := 0\<rparr>) \<and> swtmrTask s' = swtmrTask s \<and>
    (clock s' = clock s \<or> (\<exists>k. clock s' = rd k))"

lemma due_split: "timers_ok s \<Longrightarrow> j \<in> set (sortLink (swtmrSortLink s)) \<Longrightarrow> responseTime (swtmrNodes s j) \<le> T \<longleftrightarrow> j \<in> set (due_timers T s)"
proof -
  assume o: "timers_ok s" and j: "j \<in> set (sortLink (swtmrSortLink s))"
  let ?P = "\<lambda>i. responseTime (swtmrNodes s i) \<le> T" and ?xs = "sortLink (swtmrSortLink s)"
  have srt: "sorted_wrt (\<lambda>a b. responseTime (swtmrNodes s a) \<le> responseTime (swtmrNodes s b)) ?xs" using timersD(3) [OF o] by (simp add: sl_inv_def)
  show ?thesis
  proof
    assume P: "?P j"
    show "j \<in> set (due_timers T s)"
    proof (rule ccontr)
      assume "j \<notin> set (due_timers T s)"
      then have d: "j \<in> set (dropWhile ?P ?xs)" using j set_append [of "takeWhile ?P ?xs" "dropWhile ?P ?xs"] by (auto simp: due_timers_def)
      then obtain y ys where y: "dropWhile ?P ?xs = y # ys" by (cases "dropWhile ?P ?xs") auto
      have "\<not> ?P y" using y by (metis hd_dropWhile list.discI list.sel(1))
      moreover have "sorted_wrt (\<lambda>a b. responseTime (swtmrNodes s a) \<le> responseTime (swtmrNodes s b)) (y # ys)"
        using srt y by (metis sorted_wrt_append takeWhile_dropWhile_id)
      ultimately show False using d y P by auto
    qed
  qed (auto simp: due_timers_def dest: set_takeWhileD)
qed

lemma due_filter: "timers_ok s \<Longrightarrow> due_timers T s = filter (\<lambda>i. responseTime (swtmrNodes s i) \<le> T) (sortLink (swtmrSortLink s))"
proof -
  assume o: "timers_ok s"
  let ?P = "\<lambda>i. responseTime (swtmrNodes s i) \<le> T" and ?xs = "sortLink (swtmrSortLink s)"
  have dis: "distinct ?xs" using sl_invD(1) [OF timersD(3) [OF o]] .
  have "\<not> ?P x" if x: "x \<in> set (dropWhile ?P ?xs)" for x
  proof
    assume "?P x"
    then have "x \<in> set (takeWhile ?P ?xs)" using due_split [OF o, of x T] x by (simp add: due_timers_def set_dropWhileD)
    moreover have "set (takeWhile ?P ?xs) \<inter> set (dropWhile ?P ?xs) = {}" using dis by (metis distinct_append takeWhile_dropWhile_id)
    ultimately show False using x by blast
  qed
  then show ?thesis unfolding due_timers_def by (rule takeWhile_eq_filter)
qed

lemma kernel_fields:
  assumes "kstate.truncate (s'\<lparr>clock := 0\<rparr>) = kstate.truncate (s\<lparr>clock := 0\<rparr>)"
  shows "cfg s' = cfg s" and "tcb s' = tcb s" and "k_inv s' = k_inv s" and "currTask s' = currTask s"
proof -
  show "cfg s' = cfg s" "tcb s' = tcb s" "currTask s' = currTask s" using assms by (simp_all add: kstate.defs)
  show "k_inv s' = k_inv s" by (rule k_inv_cong) (use assms in \<open>simp_all add: kstate.defs timer_of_def\<close>)
qed

lemma scan_loop_spec:
  assumes "timers_ok s" and "items_ok s" and "0 < unat (cyclePerTick (cfg s))" and "unat (cyclePerTick (cfg s)) < 2 ^ 31"
    and "length (swtmrHandlerQueue s) + length (due_timers T s) \<le> 1024" and "readings_ok rd T s"
  shows "\<exists>s'. scan_loop rd k T s = Some s' \<and> scanned rd T (due_timers T s) s s'"
  using assms
proof (induction "due_timers T s" arbitrary: s k)
  case Nil
  note o = Nil.prems(1)
  have late: "T < responseTime (swtmrNodes s j)" if "j \<in> set (sortLink (swtmrSortLink s))" for j
    using due_split [OF o that, of T] Nil.hyps by (simp add: not_le [symmetric])
  have "scan_loop rd k T s = Some s"
  proof (cases "sortLink (swtmrSortLink s)")
    case (Cons j ys)
    then show ?thesis using late [of j] by (subst scan_loop.simps) (simp add: GET_SORTLIST_VALUE_def not_le [symmetric])
  qed (subst scan_loop.simps, simp)
  moreover have "scanned rd T (due_timers T s) s s" using o Nil.prems(2) late Nil.hyps [symmetric] by (simp add: scanned_def)
  ultimately show ?case by blast
next
  case (Cons i "is")
  note o = Cons.prems(1)
  obtain xs where l: "sortLink (swtmrSortLink s) = i # xs" "responseTime (swtmrNodes s i) \<le> T"
    using Cons.hyps(2) by (cases "sortLink (swtmrSortLink s)") (auto simp: due_timers_def split: if_splits)
  have is_xs: "is = filter (\<lambda>i. responseTime (swtmrNodes s i) \<le> T) xs" using Cons.hyps(2) due_filter [OF o, of T] l by simp
  have i: "i < 1024" "ucState (swtmrCB s i) = 2" "i \<notin> set xs" using timersD(4) [OF o, of i] sl_invD(1) [OF timersD(3) [OF o]] l(1) by auto
  from scan_take_spec [OF o l(1)] obtain s1 nodes h where s1: "scan_take i s = Some (s1, responseTime (swtmrNodes s i))" "timers_out {i} s1" "sortLink (swtmrSortLink s1) = xs"
    "responseTime (swtmrNodes s1 i) = OS_SORT_LINK_INVALID_TIME" "\<forall>j. j \<noteq> i \<longrightarrow> swtmrNodes s1 j = swtmrNodes s j" "s1 = s\<lparr>swtmrNodes := nodes, swtmrSortLink := h\<rparr>" by blast
  define u where "u = s1\<lparr>clock := rd k\<rparr>"
  have u: "swtmrCB u = swtmrCB s" "swtmrNodes u = swtmrNodes s1" "swtmrSortLink u = swtmrSortLink s1" "swtmrHandlerQueue u = swtmrHandlerQueue s" "handlerItems u = handlerItems s"
    "clock u = rd k" "cfg u = cfg s" "swtmrTask u = swtmrTask s" "g_swtmrHandlerPool u = g_swtmrHandlerPool s" "handlerBox u = handlerBox s" by (simp_all add: u_def s1(6))
  have rd: "T < rd k" "unat (rd k) < 2 ^ 62" "unat (rd k) < unat (responseTime (swtmrNodes s i)) + 2 ^ 32 * unat (cyclePerTick (cfg s))"
    using Cons.prems(6) Cons.hyps(2) [symmetric] by (auto simp: readings_ok_def)
  have ou: "timers_out {i} u" using s1(2) by (simp add: timers_out_def u_def)
  have iu: "items_ok u" using Cons.prems(2) items_ok_cong [of u s] u by simp
  have "length (swtmrHandlerQueue u) < 1024" using Cons.prems(5) Cons.hyps(2) [symmetric] u by simp
  moreover have "time_ok u" using Cons.prems(3,4) rd(2) u by (simp add: time_ok_def)
  moreover have "responseTime (swtmrNodes s i) \<le> clock u" using l(2) rd(1) u by simp
  ultimately obtain s2 item where s2: "SwtmrWake (responseTime (swtmrNodes s i)) i u = Some s2" "timers_ok s2" "items_ok s2" "swtmrHandlerQueue s2 = swtmrHandlerQueue s @ [item]"
    "item \<notin> set (swtmrHandlerQueue s)" "handlerItems s2 = (handlerItems s)(item := \<lparr>itemHandler = pfnHandler (swtmrCB s i), itemArg = uwArg (swtmrCB s i)\<rparr>)"
    "\<And>j. j \<noteq> i \<Longrightarrow> swtmrCB s2 j = swtmrCB s j \<and> swtmrNodes s2 j = swtmrNodes s1 j" "remove1 i (sortLink (swtmrSortLink s2)) = xs"
    "fired (responseTime (swtmrNodes s i)) (rd k) (period_of u i) (swtmrCB s i) (swtmrCB s2 i) (responseTime (swtmrNodes s2 i))" "kstate.truncate s2 = kstate.truncate u" "swtmrTask s2 = swtmrTask s"
    using Wake_spec [OF ou i(1) _ _ iu, of "responseTime (swtmrNodes s i)"] i(2) s1(3,4) rd(3) unfolding u by blast
  have kt: "kstate.truncate (s2\<lparr>clock := 0\<rparr>) = kstate.truncate (s\<lparr>clock := 0\<rparr>)" using s2(10) by (simp add: u_def s1(6) kstate.defs)
  have cf: "cfg s2 = cfg s" by (rule kernel_fields(1) [OF kt])
  have nodes2: "swtmrNodes s2 j = swtmrNodes s j" "swtmrCB s2 j = swtmrCB s j" if "j \<noteq> i" for j using s2(7) [OF that] s1(5) that by auto
  have "T < responseTime (swtmrNodes s2 i)" if "i \<in> set (sortLink (swtmrSortLink s2))"
    using timersD(4) [OF s2(2), of i] that s2(9) rd(1) by (auto simp: fired_def split: if_splits)
  then have ni: "i \<notin> set (filter (\<lambda>i. responseTime (swtmrNodes s2 i) \<le> T) (sortLink (swtmrSortLink s2)))" by auto
  have "due_timers T s2 = filter (\<lambda>i. responseTime (swtmrNodes s2 i) \<le> T) (remove1 i (sortLink (swtmrSortLink s2)))"
    unfolding due_filter [OF s2(2)] filter_remove1 using ni by (simp add: remove1_idem)
  also have "\<dots> = is" unfolding s2(8) is_xs
  proof (rule filter_cong [OF refl])
    fix x assume "x \<in> set xs"
    then have "x \<noteq> i" using i(3) by blast
    then show "responseTime (swtmrNodes s2 x) \<le> T \<longleftrightarrow> responseTime (swtmrNodes s x) \<le> T" using nodes2(1) by simp
  qed
  finally have due: "due_timers T s2 = is" .
  have nis: "i \<notin> set is" using is_xs i(3) by simp
  have "readings_ok rd T s2" using Cons.prems(6) Cons.hyps(2) [symmetric] nodes2 nis unfolding readings_ok_def due cf by fastforce
  moreover have "length (swtmrHandlerQueue s2) + length (due_timers T s2) \<le> 1024" using Cons.prems(5) Cons.hyps(2) [symmetric] due s2(4) by simp
  ultimately obtain s' where s': "scan_loop rd (Suc k) T s2 = Some s'" "scanned rd T is s2 s'"
    using Cons.hyps(1) [OF due [symmetric] s2(2,3), of "Suc k"] Cons.prems(3,4) cf due by auto
  have "scan_loop rd k T s = Some s'"
    by (subst scan_loop.simps) (use l s1(1) s2(1) s'(1) in \<open>simp add: GET_SORTLIST_VALUE_def u_def [symmetric]\<close>)
  moreover have "scanned rd T (i # is) s s'"
  proof -
    from s'(2) obtain items where r: "timers_ok s'" "items_ok s'" "swtmrHandlerQueue s' = swtmrHandlerQueue s2 @ items"
      "map (handlerItems s') items = map (\<lambda>i. \<lparr>itemHandler = pfnHandler (swtmrCB s2 i), itemArg = uwArg (swtmrCB s2 i)\<rparr>) is"
      "\<And>a. a \<in> set (swtmrHandlerQueue s2) \<Longrightarrow> handlerItems s' a = handlerItems s2 a" "\<And>j. j \<notin> set is \<Longrightarrow> swtmrCB s' j = swtmrCB s2 j \<and> swtmrNodes s' j = swtmrNodes s2 j"
      "\<And>i. i \<in> set is \<Longrightarrow> \<exists>k. fired (responseTime (swtmrNodes s2 i)) (rd k) (period_of s2 i) (swtmrCB s2 i) (swtmrCB s' i) (responseTime (swtmrNodes s' i))"
      "\<forall>i \<in> set (sortLink (swtmrSortLink s')). T < responseTime (swtmrNodes s' i)" "kstate.truncate (s'\<lparr>clock := 0\<rparr>) = kstate.truncate (s2\<lparr>clock := 0\<rparr>)" "swtmrTask s' = swtmrTask s2"
      "clock s' = clock s2 \<or> (\<exists>k. clock s' = rd k)"
      unfolding scanned_def by blast
    have per: "period_of s2 j = period_of s j" if "j \<noteq> i" for j using nodes2 [OF that] cf by (simp add: period_of_def)
    have pu: "period_of u i = period_of s i" using u by (simp add: period_of_def)
    have "handlerItems s' item = \<lparr>itemHandler = pfnHandler (swtmrCB s i), itemArg = uwArg (swtmrCB s i)\<rparr>" using r(5) [of item] s2(4,6) by simp
    moreover have "map (\<lambda>i. \<lparr>itemHandler = pfnHandler (swtmrCB s2 i), itemArg = uwArg (swtmrCB s2 i)\<rparr>) is = map (\<lambda>i. \<lparr>itemHandler = pfnHandler (swtmrCB s i), itemArg = uwArg (swtmrCB s i)\<rparr>) is"
    proof (rule map_cong [OF refl])
      fix x assume "x \<in> set is"
      then have "x \<noteq> i" using nis by blast
      then show "\<lparr>itemHandler = pfnHandler (swtmrCB s2 x), itemArg = uwArg (swtmrCB s2 x)\<rparr> = \<lparr>itemHandler = pfnHandler (swtmrCB s x), itemArg = uwArg (swtmrCB s x)\<rparr>"
        using nodes2(2) by simp
    qed
    ultimately have A: "swtmrHandlerQueue s' = swtmrHandlerQueue s @ item # items \<and>
      map (handlerItems s') (item # items) = map (\<lambda>i. \<lparr>itemHandler = pfnHandler (swtmrCB s i), itemArg = uwArg (swtmrCB s i)\<rparr>) (i # is)" using r(3,4) s2(4) by simp
    have B: "handlerItems s' a = handlerItems s a" if "a \<in> set (swtmrHandlerQueue s)" for a using r(5) [of a] s2(4,5,6) that by auto
    have C: "swtmrCB s' j = swtmrCB s j \<and> swtmrNodes s' j = swtmrNodes s j" if "j \<notin> set (i # is)" for j using r(6) [of j] nodes2 [of j] that by simp
    have D: "\<exists>k. fired (responseTime (swtmrNodes s j)) (rd k) (period_of s j) (swtmrCB s j) (swtmrCB s' j) (responseTime (swtmrNodes s' j))" if "j \<in> set (i # is)" for j
    proof (cases "j = i")
      case True
      then show ?thesis using s2(9) pu r(6) [OF nis] by auto
    next
      case False
      then show ?thesis using r(7) [of j] that nodes2 [OF False] per [OF False] by simp
    qed
    have E: "kstate.truncate (s'\<lparr>clock := 0\<rparr>) = kstate.truncate (s\<lparr>clock := 0\<rparr>)" "swtmrTask s' = swtmrTask s" using r(9,10) kt s2(11) by simp_all
    have "clock s2 = rd k" using s2(10) u(6) by (simp add: kstate.defs)
    with r(11) have F: "clock s' = clock s \<or> (\<exists>k. clock s' = rd k)" by auto
    show ?thesis unfolding scanned_def
      by (intro conjI exI [of _ "item # items"] ballI allI impI) (use r(1,2,8) A B C D E F in \<open>blast+\<close>)
  qed
  ultimately show ?case using Cons.hyps(2) by auto
qed

end
