(* ===== verification/LosSwtmrHist.thy ===== *)
theory LosSwtmrHist
  imports LosSwtmrScan
begin

text \<open>
  Histories of the software timers: the calls of the interface, the scans and handlers of the timer task and everything else the kernel does, in any order.
\<close>

definition swtmr_inv :: "'a swtmr_kstate_scheme \<Rightarrow> bool" where
  "swtmr_inv s \<longleftrightarrow> timers_ok s \<and> items_ok s \<and> task_ok s \<and> time_ok s"

lemma swtmr_invD: "swtmr_inv s \<Longrightarrow> timers_ok s \<and> items_ok s \<and> task_ok s \<and> time_ok s"
  by (simp add: swtmr_inv_def)

text \<open>A change of the timers alone.\<close>

lemma swtmr_inv_timers:
  assumes "swtmr_inv s" and "timers_ok s'" and "kstate.truncate s' = kstate.truncate s" and "swtmrTask s' = swtmrTask s"
    and "swtmrHandlerQueue s' = swtmrHandlerQueue s" "g_swtmrHandlerPool s' = g_swtmrHandlerPool s" "handlerBox s' = handlerBox s"
  shows "swtmr_inv s'"
proof -
  have t: "kstate.truncate (s'\<lparr>clock := 0\<rparr>) = kstate.truncate (s\<lparr>clock := 0\<rparr>)" "clock s' = clock s" using assms(3) by (simp_all add: kstate.defs)
  show ?thesis using assms kernel_fields [OF t(1)] t(2) items_ok_cong [of s' s] by (simp add: swtmr_inv_def task_ok_def time_ok_def)
qed

lemma truncate_upd [simp]:
  "kstate.truncate (upd_swtmr i f s) = kstate.truncate s" "kstate.truncate (s\<lparr>swtmrNodes := n\<rparr>) = kstate.truncate s"
  "kstate.truncate (s\<lparr>g_swtmrFreeList := l\<rparr>) = kstate.truncate s" "kstate.truncate (s\<lparr>swtmrSortLink := h\<rparr>) = kstate.truncate s"
  by (simp_all add: upd_swtmr_def kstate.defs)

section \<open>The calls\<close>

text \<open>A call that changes only the state and the times of timer \<open>i\<close>.\<close>

definition touched :: "nat \<Rightarrow> 'a swtmr_kstate_scheme \<Rightarrow> 'a swtmr_kstate_scheme \<Rightarrow> bool" where
  "touched i s s' \<longleftrightarrow> (\<forall>j. j \<noteq> i \<longrightarrow> swtmrCB s' j = swtmrCB s j \<and> swtmrNodes s' j = swtmrNodes s j) \<and>
    (swtmrCB s' i)\<lparr>ucState := 0, uwOverrun := 0, swStartTime := 0\<rparr> = (swtmrCB s i)\<lparr>ucState := 0, uwOverrun := 0, swStartTime := 0\<rparr> \<and>
    swtmrHandlerQueue s' = swtmrHandlerQueue s \<and> clock s' = clock s \<and> cfg s' = cfg s"

lemma touchedD:
  assumes "touched i s s'"
  shows "usTimerID (swtmrCB s' j) = usTimerID (swtmrCB s j)" and "ucMode (swtmrCB s' j) = ucMode (swtmrCB s j)" and "pfnHandler (swtmrCB s' j) = pfnHandler (swtmrCB s j)"
    and "period_of s' j = period_of s j" and "clock s' = clock s" and "cfg s' = cfg s" and "swtmrHandlerQueue s' = swtmrHandlerQueue s"
    and "j \<noteq> i \<Longrightarrow> swtmrCB s' j = swtmrCB s j"
proof -
  have k: "usTimerID c = usTimerID d" "ucMode c = ucMode d" "pfnHandler c = pfnHandler d" "uwInterval c = uwInterval d"
    if "c\<lparr>ucState := 0, uwOverrun := 0, swStartTime := 0\<rparr> = d\<lparr>ucState := 0, uwOverrun := 0, swStartTime := 0\<rparr>" for c d :: SWTMR_CTRL_S
    using that by (cases c, cases d, simp)+
  have "(swtmrCB s' i)\<lparr>ucState := 0, uwOverrun := 0, swStartTime := 0\<rparr> = (swtmrCB s i)\<lparr>ucState := 0, uwOverrun := 0, swStartTime := 0\<rparr>"
    and o: "j \<noteq> i \<Longrightarrow> swtmrCB s' j = swtmrCB s j" and f: "clock s' = clock s" "cfg s' = cfg s" "swtmrHandlerQueue s' = swtmrHandlerQueue s"
    using assms by (simp_all add: touched_def)
  note k = k [OF this(1)]
  show "usTimerID (swtmrCB s' j) = usTimerID (swtmrCB s j)" "ucMode (swtmrCB s' j) = ucMode (swtmrCB s j)" "pfnHandler (swtmrCB s' j) = pfnHandler (swtmrCB s j)"
    "period_of s' j = period_of s j" using k o f by (cases "j = i"; simp add: period_of_def)+
  show "j \<noteq> i \<Longrightarrow> swtmrCB s' j = swtmrCB s j" by (rule o)
  show "clock s' = clock s" "cfg s' = cfg s" "swtmrHandlerQueue s' = swtmrHandlerQueue s" by (rule f)+
qed

lemma touched_trans: "touched i s t \<Longrightarrow> touched i t u \<Longrightarrow> touched i s u"
  by (simp add: touched_def)

lemma swtmr_of_Some: "swtmr_of n s = Some i \<Longrightarrow> i < 1024 \<and> usTimerID (swtmrCB s i) = n"
  by (auto simp: swtmr_of_def Let_def split: if_splits)

lemma Create_inv:
  assumes v: "swtmr_inv s" and c: "LOS_SwtmrCreate iv mode fn out arg s = (s', r, n)"
  shows "swtmr_inv s'"
proof (cases "s' = s")
  case False
  note o = conjunct1 [OF swtmr_invD [OF v]]
  note d = timersD [OF o]
  from c False obtain i free where f: "g_swtmrFreeList s = i # free" "iv \<noteq> 0" "mode = 0 \<or> mode = 1 \<or> mode = 2"
    "s' = upd_swtmr i (\<lambda>c. c\<lparr>uwOwnerPid := of_nat (processCB (tcb s (currTask s))), pfnHandler := fn, ucMode := mode, uwOverrun := 0,
        uwInterval := iv, uwExpiry := iv, uwArg := arg, ucState := 1\<rparr>)
      (s\<lparr>g_swtmrFreeList := free, swtmrNodes := SET_SORTLIST_VALUE (swtmrNodes s) i OS_SORT_LINK_INVALID_TIME\<rparr>)"
    by (auto simp: LOS_SwtmrCreate_def split: if_splits list.splits)
  have i: "i < 1024" "ucState (swtmrCB s i) = 0" "i \<notin> set free" "distinct free" using d(1) d(2) [of i] f(1) by auto
  have ni: "i \<notin> set (sortLink (swtmrSortLink s))" using d(4) [of i] i by simp
  have "timers_ok s'" unfolding timers_out_def
  proof (intro conjI allI impI)
    fix j
    show "j \<in> set (g_swtmrFreeList s') \<longleftrightarrow> j < 1024 \<and> ucState (swtmrCB s' j) = 0 \<and> j \<notin> {}" using d(2) [of j] i f(1) by (auto simp: f(4))
    show "j \<in> set (sortLink (swtmrSortLink s')) \<longleftrightarrow> j < 1024 \<and> ucState (swtmrCB s' j) = 2 \<and> j \<notin> {}" using d(4) [of j] ni by (auto simp: f(4))
    show "sl_inv (swtmrNodes s') (swtmrSortLink s')" using d(3) ni unfolding f(4) by (subst sl_inv_cong [where nodes = "swtmrNodes s"]) (auto simp: SET_SORTLIST_VALUE_def)
    assume "j < 1024"
    then show "tm_ok j (swtmrCB s' j)" using d(5) [of j] f(2,3) by (auto simp: f(4) tm_ok_def)
    assume "ucState (swtmrCB s' j) = 1"
    then show "responseTime (swtmrNodes s' j) = OS_SORT_LINK_INVALID_TIME" using d(6) [of j] \<open>j < 1024\<close> by (auto simp: f(4) SET_SORTLIST_VALUE_def split: if_splits)
  qed (use i in \<open>simp add: f(4)\<close>)
  then show ?thesis by (rule swtmr_inv_timers [OF v]) (simp_all add: f(4))
qed (use v in simp)

lemma Stop_inv:
  assumes v: "swtmr_inv s" and i: "i < 1024" "ucState (swtmrCB s i) = 2"
  shows "\<exists>s'. SwtmrStop i s = Some s' \<and> swtmr_inv s' \<and> ucState (swtmrCB s' i) = 1 \<and> touched i s s'"
proof -
  from SwtmrStop_spec [OF conjunct1 [OF swtmr_invD [OF v]] i] obtain h s' where s': "SwtmrStop i s = Some s'" "timers_ok s'"
    "s' = (upd_swtmr i (\<lambda>c. c\<lparr>ucState := 1, uwOverrun := 0\<rparr>) s)\<lparr>swtmrNodes := SET_SORTLIST_VALUE (swtmrNodes s) i OS_SORT_LINK_INVALID_TIME, swtmrSortLink := h\<rparr>" by blast
  have "swtmr_inv s'" by (rule swtmr_inv_timers [OF v s'(2)]) (simp_all add: s'(3))
  then show ?thesis using s'(1) by (auto simp: s'(3) touched_def SET_SORTLIST_VALUE_def)
qed

lemma Delete_inv:
  assumes v: "swtmr_inv s" and i: "i < 1024" "ucState (swtmrCB s i) = 1"
  shows "\<exists>s'. SwtmrDelete i s = Some s' \<and> swtmr_inv s'"
proof -
  have "timers_out {i} s" using swtmr_invD [OF v] i(2) by (intro timers_out_created) simp_all
  from SwtmrDelete_spec [OF this i(1)] obtain s' where s': "SwtmrDelete i s = Some s'" "timers_ok s'"
    "s' = upd_swtmr i (\<lambda>c. c\<lparr>ucState := 0, uwOwnerPid := OS_INVALID_VALUE\<rparr>) (s\<lparr>g_swtmrFreeList := g_swtmrFreeList s @ [i]\<rparr>)" by blast
  have "swtmr_inv s'" by (rule swtmr_inv_timers [OF v s'(2)]) (simp_all add: s'(3))
  then show ?thesis using s'(1) by blast
qed

lemma Start_inv:
  assumes v: "swtmr_inv s" and i: "i < 1024" "ucState (swtmrCB s i) = 1"
  shows "\<exists>s'. SwtmrStart i s = Some s' \<and> swtmr_inv s' \<and> ucState (swtmrCB s' i) = 2 \<and> touched i s s' \<and>
    unat (responseTime (swtmrNodes s' i)) = unat (clock s) + period_of s i"
proof -
  note vd = swtmr_invD [OF v]
  define u where "u = upd_swtmr i (\<lambda>c. c\<lparr>swStartTime := clock s\<rparr>) s"
  have "timers_out {i} s" using vd i(2) by (intro timers_out_created) simp_all
  then have ou: "timers_out {i} u" unfolding u_def by (rule timers_out_upd) (use timersD(5) [OF conjunct1 [OF vd], of i] in \<open>simp_all add: tm_ok_def\<close>)
  have tk: "time_ok u" "unat (clock s) < 2 ^ 62" "0 < unat (cyclePerTick (cfg s))" using vd by (auto simp: time_ok_def u_def)
  have cu: "swStartTime (swtmrCB u i) = clock s" "clock u = clock s" "cfg u = cfg s" "ucState (swtmrCB u i) \<noteq> 0" "period_of u i = period_of s i"
    using i(2) by (simp_all add: u_def period_of_def)
  have "unat (clock s) < unat (clock s) + 2 ^ 32 * unat (cyclePerTick (cfg s))" using tk(3) by simp
  from ToStart_spec [OF ou i(1) cu(4) tk(1), unfolded cu, OF tk(2) this] obtain s1 t h st' n where s1: "SwtmrToStart i u = Some (s1, t)" "timers_ok s1"
    "s1 = (upd_swtmr i (\<lambda>c. c\<lparr>ucState := 2, swStartTime := st'\<rparr>) u)\<lparr>swtmrNodes := (swtmrNodes u)(i := (swtmrNodes u i)\<lparr>responseTime := t, cpuid := 0\<rparr>), swtmrSortLink := h\<rparr>"
    "0 < n" "unat t = unat (clock s) + n * period_of s i" "unat t \<le> max (unat (clock s)) (unat (clock s)) + period_of s i" by blast
  have v1: "swtmr_inv s1" by (rule swtmr_inv_timers [OF v s1(2)]) (simp_all add: s1(3) u_def)
  have in_link: "i \<in> set (sortLink (swtmrSortLink s1))" using timersD(4) [OF s1(2), of i] i(1) by (simp add: s1(3))
  have "responseTime (swtmrNodes s1 i) \<noteq> OS_SORT_LINK_INVALID_TIME" using sl_invD(3) [OF timersD(3) [OF s1(2)] in_link] .
  then have "t \<noteq> OS_SORT_LINK_INVALID_TIME" by (simp add: s1(3))
  from AdjustCheck_spec [OF _ this, of s1] swtmr_invD [OF v1] obtain s' where s': "SwtmrAdjustCheck t s1 = Some s'" "k_inv s'" "env_of s' = env_of s1" "tcb s' = tcb s1" by blast
  note e = env_ofD [OF s'(3)]
  have "swtmr_inv s'" using swtmr_invD [OF v1] timers_more [OF e(7)] swtmr_more [OF e(7)] s'(2,4) e by (simp add: swtmr_inv_def task_ok_def time_ok_def)
  moreover have "SwtmrStart i s = Some s'" using s1(1) s'(1) by (simp add: SwtmrStart_def OsGetCurrSchedTimeCycle_def u_def)
  moreover have "unat t = unat (clock s) + period_of s i"
  proof -
    have "period_of s i \<le> n * period_of s i" using s1(4) by simp
    moreover have "unat t \<le> unat (clock s) + period_of s i" using s1(6) by (simp only: max.idem)
    ultimately show ?thesis using s1(5) by linarith
  qed
  moreover have "touched i s s'" using swtmr_more [OF e(7)] e(1) s'(3) by (simp add: touched_def s1(3) u_def env_of_def)
  ultimately show ?thesis using swtmr_more [OF e(7)] by (simp add: s1(3))
qed

lemma state_cases: "swtmr_inv s \<Longrightarrow> i < 1024 \<Longrightarrow> ucState (swtmrCB s i) = 0 \<or> ucState (swtmrCB s i) = 1 \<or> ucState (swtmrCB s i) = 2"
  using timersD(5) [of "{}" s i] by (auto simp: swtmr_inv_def tm_ok_def)

theorem LOS_SwtmrStart_inv:
  assumes v: "swtmr_inv s"
  shows "\<exists>s' r. LOS_SwtmrStart n s = Some (s', r) \<and> swtmr_inv s'"
proof (cases "swtmr_of n s")
  case (Some i)
  then have i: "i < 1024" using swtmr_of_Some by blast
  consider "ucState (swtmrCB s i) = 0" | "ucState (swtmrCB s i) = 1" | "ucState (swtmrCB s i) = 2" using state_cases [OF v i] by blast
  then show ?thesis
  proof cases
    case 2
    with Start_inv [OF v i] Some show ?thesis by (auto simp: LOS_SwtmrStart_def Let_def)
  next
    case 3
    from Stop_inv [OF v i 3] obtain s1 where s1: "SwtmrStop i s = Some s1" "swtmr_inv s1" "ucState (swtmrCB s1 i) = 1" by blast
    with Start_inv [OF s1(2) i s1(3)] Some 3 show ?thesis by (auto simp: LOS_SwtmrStart_def Let_def)
  qed (use v Some in \<open>simp add: LOS_SwtmrStart_def\<close>)
qed (use v in \<open>simp add: LOS_SwtmrStart_def\<close>)

theorem LOS_SwtmrStop_inv:
  assumes v: "swtmr_inv s"
  shows "\<exists>s' r. LOS_SwtmrStop n s = Some (s', r) \<and> swtmr_inv s'"
proof (cases "swtmr_of n s")
  case (Some i)
  then have i: "i < 1024" using swtmr_of_Some by blast
  consider "ucState (swtmrCB s i) = 0 \<or> ucState (swtmrCB s i) = 1" | "ucState (swtmrCB s i) = 2" using state_cases [OF v i] by blast
  then show ?thesis
  proof cases
    case 2
    with Stop_inv [OF v i] Some show ?thesis by (auto simp: LOS_SwtmrStop_def Let_def)
  qed (use v Some in \<open>auto simp: LOS_SwtmrStop_def\<close>)
qed (use v in \<open>simp add: LOS_SwtmrStop_def\<close>)

theorem LOS_SwtmrDelete_inv:
  assumes v: "swtmr_inv s"
  shows "\<exists>s' r. LOS_SwtmrDelete n s = Some (s', r) \<and> swtmr_inv s'"
proof (cases "swtmr_of n s")
  case (Some i)
  then have i: "i < 1024" using swtmr_of_Some by blast
  consider "ucState (swtmrCB s i) = 0" | "ucState (swtmrCB s i) = 1" | "ucState (swtmrCB s i) = 2" using state_cases [OF v i] by blast
  then show ?thesis
  proof cases
    case 2
    with Delete_inv [OF v i] Some show ?thesis by (auto simp: LOS_SwtmrDelete_def Let_def)
  next
    case 3
    from Stop_inv [OF v i 3] obtain s1 where s1: "SwtmrStop i s = Some s1" "swtmr_inv s1" "ucState (swtmrCB s1 i) = 1" by blast
    with Delete_inv [OF s1(2) i s1(3)] Some 3 show ?thesis by (auto simp: LOS_SwtmrDelete_def Let_def)
  qed (use v Some in \<open>simp add: LOS_SwtmrDelete_def\<close>)
qed (use v in \<open>simp add: LOS_SwtmrDelete_def\<close>)

lemma recycle_inv: "swtmr_inv s \<Longrightarrow> \<exists>s'. recycle_from n index owner s = Some s' \<and> swtmr_inv s'"
proof (induction n arbitrary: index s)
  case (Suc n)
  from LOS_SwtmrDelete_inv [OF Suc.prems, of "of_nat index"] obtain s1 r where d: "LOS_SwtmrDelete (of_nat index) s = Some (s1, r)" "swtmr_inv s1" by blast
  show ?case using Suc.IH [OF d(2), of "index + 1"] Suc.IH [OF Suc.prems, of "index + 1"] d(1) by simp
qed simp

section \<open>The timer task\<close>

theorem Scan_inv:
  assumes v: "swtmr_inv s" and q: "swtmrHandlerQueue s = []" and rd: "readings_ok rd (clock s) s"
  shows "\<exists>s'. ScanSwtmrTimeList rd s = Some s' \<and> scanned rd (clock s) (due_timers (clock s) s) s s' \<and> swtmr_inv s'"
proof -
  note vd = swtmr_invD [OF v]
  have o: "timers_ok s" "items_ok s" "0 < unat (cyclePerTick (cfg s))" "unat (cyclePerTick (cfg s)) < 2 ^ 31" using vd by (auto simp: time_ok_def)
  have dis: "distinct (due_timers (clock s) s)" unfolding due_filter [OF o(1)] using sl_invD(1) [OF timersD(3) [OF o(1)]] by simp
  have "set (due_timers (clock s) s) \<subseteq> {..< 1024}" using timersD(4) [OF o(1)] by (auto simp: due_filter [OF o(1)])
  then have "card (set (due_timers (clock s) s)) \<le> card {..< 1024 :: nat}" by (rule card_mono [rotated]) simp
  then have "length (swtmrHandlerQueue s) + length (due_timers (clock s) s) \<le> 1024" using distinct_card [OF dis] q by simp
  from scan_loop_spec [OF o this rd, of 0] obtain s' where s': "ScanSwtmrTimeList rd s = Some s'" "scanned rd (clock s) (due_timers (clock s) s) s s'"
    by (auto simp: ScanSwtmrTimeList_def OsGetCurrSchedTimeCycle_def)
  then have f: "timers_ok s'" "items_ok s'" "kstate.truncate (s'\<lparr>clock := 0\<rparr>) = kstate.truncate (s\<lparr>clock := 0\<rparr>)" "swtmrTask s' = swtmrTask s"
    "clock s' = clock s \<or> (\<exists>k. clock s' = rd k)" by (simp_all add: scanned_def)
  have "unat (clock s') < 2 ^ 62" using f(5) rd vd by (auto simp: readings_ok_def time_ok_def)
  then have "swtmr_inv s'" using vd f kernel_fields [OF f(3)] by (simp add: swtmr_inv_def task_ok_def time_ok_def)
  with s' show ?thesis by blast
qed

lemma next_inv:
  assumes v: "swtmr_inv s" and n: "SwtmrTask_next s = Some (s', item)"
  shows "swtmr_inv s'"
proof -
  note vd = swtmr_invD [OF v]
  let ?p = "g_swtmrHandlerPool s" and ?b = "handlerBox s"
  from n obtain a q where a: "swtmrHandlerQueue s = a # q" "s' = s\<lparr>swtmrHandlerQueue := q, handlerBox := fst (LOS_MemboxFree ?p a ?b)\<rparr>"
    by (auto simp: SwtmrTask_next_def split: list.splits)
  have b: "box_inv ?p ?b" "uwBlkNum (boxInfo ?b) = 1024" "distinct (a # q)" and m: "\<And>x. x \<in> set (a # q) \<longleftrightarrow> x - 4 \<in> box_nodes ?p ?b \<and> x - 4 \<notin> set (box_free ?b)"
    using vd a(1) by (auto simp: items_ok_def)
  have a4: "a - 4 \<in> box_nodes ?p ?b" "a - 4 \<notin> set (box_free ?b)" using m [of a] by simp_all
  have sh: "box_shape ?p ?b" using b(1) by (simp add: box_inv_def)
  have a0: "a \<noteq> 0"
  proof
    assume "a = 0"
    with a4(1) obtain i where i: "i < unat (uwBlkNum (boxInfo ?b))" "(- 4 :: u32) = box_node ?p ?b i" by (auto simp: box_nodes_def)
    have "Suc i * unat (uwBlkSize (boxInfo ?b)) \<le> unat (uwBlkNum (boxInfo ?b)) * unat (uwBlkSize (boxInfo ?b))" using i(1) by (intro mult_le_mono1) simp
    moreover have "unat (- 4 :: u32) = unat ?p + 16 + i * unat (uwBlkSize (boxInfo ?b))" using box_node_unat [OF sh i(1)] i(2) by simp
    moreover have "8 \<le> unat (uwBlkSize (boxInfo ?b))" "unat ?p + 16 + unat (uwBlkNum (boxInfo ?b)) * unat (uwBlkSize (boxInfo ?b)) < 2 ^ 32"
      using sh by (auto simp: box_shape_def)
    moreover have "unat (- 4 :: u32) = 2 ^ 32 - 4" by simp
    ultimately show False by simp
  qed
  with MemboxFree_inv [OF b(1), of a] a4 obtain box where box: "LOS_MemboxFree ?p a ?b = (box, BOX_OK)" "box_inv ?p box" "box_free box = (a - 4) # box_free ?b"
    "uwBlkSize (boxInfo box) = uwBlkSize (boxInfo ?b)" "uwBlkNum (boxInfo box) = uwBlkNum (boxInfo ?b)" by auto
  have nodes: "box_nodes ?p box = box_nodes ?p ?b" using box_nodes_info [OF box(4,5)] by blast
  have "x \<in> set q \<longleftrightarrow> x - 4 \<in> box_nodes ?p box \<and> x - 4 \<notin> set (box_free box)" for x
    using m [of x] b(3) box(3) nodes by (cases "x = a") auto
  then have "items_ok s'" using box b by (simp add: items_ok_def a(2))
  moreover have "timers_ok s'" using vd by (simp add: a(2) timers_out_def)
  moreover have "task_ok s'" "time_ok s'" using vd k_inv_cong [of s' s] by (simp_all add: a(2) task_ok_def time_ok_def timer_of_def)
  ultimately show ?thesis by (simp add: swtmr_inv_def)
qed

section \<open>Histories\<close>

inductive swtmr_step :: "'a swtmr_kstate_scheme \<Rightarrow> 'a swtmr_kstate_scheme \<Rightarrow> bool" where
  step_create: "LOS_SwtmrCreate iv mode fn out arg s = (s', r, n) \<Longrightarrow> swtmr_step s s'"
| step_start: "LOS_SwtmrStart n s = Some (s', r) \<Longrightarrow> swtmr_step s s'"
| step_stop: "LOS_SwtmrStop n s = Some (s', r) \<Longrightarrow> swtmr_step s s'"
| step_delete: "LOS_SwtmrDelete n s = Some (s', r) \<Longrightarrow> swtmr_step s s'"
| step_recycle: "OsSwtmrRecycle owner s = Some s' \<Longrightarrow> swtmr_step s s'"
| step_scan: "swtmrHandlerQueue s = [] \<Longrightarrow> readings_ok rd (clock s) s \<Longrightarrow> ScanSwtmrTimeList rd s = Some s' \<Longrightarrow> swtmr_step s s'"
| step_handler: "SwtmrTask_next s = Some (s', item) \<Longrightarrow> swtmr_step s s'"
| step_kernel: "kstate.more s' = kstate.more s \<Longrightarrow> task_ok s' \<Longrightarrow> time_ok s' \<Longrightarrow> swtmr_step s s'" \<comment> \<open>anything else, which does not touch the timers\<close>

theorem step_inv: "swtmr_step s s' \<Longrightarrow> swtmr_inv s \<Longrightarrow> swtmr_inv s'"
proof (induction rule: swtmr_step.induct)
  case (step_start n s s' r)
  then show ?case using LOS_SwtmrStart_inv [OF step_start.prems, of n] by auto
next
  case (step_stop n s s' r)
  then show ?case using LOS_SwtmrStop_inv [OF step_stop.prems, of n] by auto
next
  case (step_delete n s s' r)
  then show ?case using LOS_SwtmrDelete_inv [OF step_delete.prems, of n] by auto
next
  case (step_recycle owner s s')
  then show ?case using recycle_inv [OF step_recycle.prems, of 1024 0 owner] by (auto simp: OsSwtmrRecycle_def)
next
  case (step_scan s rd s')
  then show ?case using Scan_inv [OF step_scan.prems step_scan.hyps(1,2)] by auto
next
  case (step_kernel s' s)
  then show ?case using timers_more [OF step_kernel.hyps(1)] by (simp add: swtmr_inv_def)
qed (blast intro: Create_inv next_inv)+

lemma steps_inv: "swtmr_step\<^sup>*\<^sup>* s s' \<Longrightarrow> swtmr_inv s \<Longrightarrow> swtmr_inv s'"
  by (induction rule: rtranclp_induct) (auto intro: step_inv)

theorem Init_inv:
  assumes cb: "cb \<noteq> 0" and pool: "pool \<noteq> 0" "4 dvd unat pool" "unat pool + 20496 < 2 ^ 32" and k: "k_inv s" "time_ok s" "\<not> is_frozen (tcb s t)"
  shows "\<exists>s'. OsSwtmrInit cb pool (Some t) s = Some (s', LOS_OK) \<and> swtmr_inv s' \<and> g_swtmrFreeList s' = [0 ..< 1024] \<and> swtmrHandlerQueue s' = [] \<and>
    (\<forall>i. ucState (swtmrCB s' i) = 0 \<and> usTimerID (swtmrCB s' i) = of_nat i) \<and> kstate.truncate s' = kstate.truncate s \<and> swtmrTask s' = Some t"
proof -
  have al: "LOS_MEMBOX_ALIGNED (16 + 4) = 20" by (simp add: LOS_MEMBOX_ALIGNED_def)
  have bc: "box_count (unat (20496 :: u32)) (unat (16 :: u32)) = 1024" by (simp add: box_count_def)
  from MemboxInit_inv [of pool 20496 16 "handlerBox s"] pool bc obtain box where box: "LOS_MemboxInit pool 20496 16 (handlerBox s) = Some (box, BOX_OK)" "box_inv pool box"
    "set (box_free box) = box_nodes pool box" "card (box_nodes pool box) = 1024" by auto
  have "unat (uwBlkNum (boxInfo box)) = 1024" using box_nodes_card [of pool box] box(2,4) by (simp add: box_inv_def)
  then have num: "uwBlkNum (boxInfo box) = 1024" by (simp add: word_unat_eq_iff)
  define s' where "s' = s\<lparr>g_swtmrCBArray := cb,
     swtmrCB := (\<lambda>i. \<lparr>ucState = 0, ucMode = 0, usTimerID = of_nat i, uwOverrun = 0, uwInterval = 0, uwExpiry = 0, uwArg = 0, pfnHandler = 0, uwOwnerPid = 0, swStartTime = 0\<rparr>),
     swtmrNodes := (\<lambda>_. \<lparr>responseTime = 0, cpuid = 0\<rparr>), g_swtmrFreeList := [0 ..< 1024], g_swtmrHandlerPool := pool, handlerBox := box,
     swtmrSortLink := OsSortLinkInit (swtmrSortLink s), swtmrHandlerQueue := [], swtmrTask := Some t\<rparr>"
  have "OsSwtmrInit cb pool (Some t) s = Some (s', LOS_OK)" using cb pool(1) box(1) al by (simp add: OsSwtmrInit_def SwtmrBaseInit_def Let_def s'_def)
  moreover have "timers_ok s'"
  proof -
    have "unat (of_nat i :: u16) = i" if "i < 1024" for i using that by (simp add: unat_of_nat take_bit_nat_eq_self)
    then show ?thesis by (simp add: timers_out_def s'_def tm_ok_def sl_inv_def OsSortLinkInit_def)
  qed
  moreover have "items_ok s'" using box num by (simp add: items_ok_def s'_def)
  moreover have "task_ok s'" "time_ok s'" using k k_inv_cong [of s' s] by (simp_all add: s'_def task_ok_def time_ok_def timer_of_def)
  moreover have "g_swtmrFreeList s' = [0 ..< 1024]" "swtmrHandlerQueue s' = []" "\<forall>i. ucState (swtmrCB s' i) = 0 \<and> usTimerID (swtmrCB s' i) = of_nat i"
    "kstate.truncate s' = kstate.truncate s" "swtmrTask s' = Some t" by (simp_all add: s'_def kstate.defs)
  ultimately show ?thesis unfolding swtmr_inv_def by blast
qed

text \<open>A state the timers can reach: they are initialised in a kernel that satisfies its invariant, and then steps follow in any order.\<close>

definition swtmr_run :: "'a swtmr_kstate_scheme \<Rightarrow> bool" where
  "swtmr_run s \<longleftrightarrow> (\<exists>cb pool t s0 s1. cb \<noteq> 0 \<and> pool \<noteq> 0 \<and> 4 dvd unat pool \<and> unat pool + 20496 < 2 ^ 32 \<and> k_inv s0 \<and> time_ok s0 \<and> \<not> is_frozen (tcb s0 t) \<and>
    OsSwtmrInit cb pool (Some t) s0 = Some (s1, LOS_OK) \<and> swtmr_step\<^sup>*\<^sup>* s1 s)"

lemma run_timers: "swtmr_run s \<Longrightarrow> swtmr_inv s"
proof -
  assume "swtmr_run s"
  then obtain cb pool t s0 s1 where i: "cb \<noteq> 0" "pool \<noteq> 0" "4 dvd unat pool" "unat pool + 20496 < 2 ^ 32" "k_inv s0" "time_ok s0" "\<not> is_frozen (tcb s0 t)"
    "OsSwtmrInit cb pool (Some t) s0 = Some (s1, LOS_OK)" "swtmr_step\<^sup>*\<^sup>* s1 s" unfolding swtmr_run_def by blast
  from Init_inv [OF i(1-7)] i(8) have "swtmr_inv s1" by auto
  with i(9) show ?thesis by (rule steps_inv)
qed

lemma run_step: "swtmr_run s \<Longrightarrow> swtmr_step s s' \<Longrightarrow> swtmr_run s'"
  unfolding swtmr_run_def by (meson rtranclp.rtrancl_into_rtrancl)

text \<open>A started timer is due one period after the start.\<close>

lemma start_due:
  assumes v: "swtmr_inv s" and n: "swtmr_of n s = Some i" and c: "ucState (swtmrCB s i) \<noteq> OS_SWTMR_STATUS_UNUSED"
  shows "\<exists>s'. LOS_SwtmrStart n s = Some (s', LOS_OK) \<and> swtmr_inv s' \<and> ucState (swtmrCB s' i) = OS_SWTMR_STATUS_TICKING \<and> touched i s s' \<and>
    unat (responseTime (swtmrNodes s' i)) = unat (clock s) + period_of s i"
proof -
  have i: "i < 1024" using swtmr_of_Some [OF n] by simp
  from state_cases [OF v i] c consider "ucState (swtmrCB s i) = 1" | "ucState (swtmrCB s i) = 2" by blast
  then show ?thesis
  proof cases
    case 1
    with Start_inv [OF v i] n show ?thesis by (auto simp: LOS_SwtmrStart_def Let_def)
  next
    case 2
    from Stop_inv [OF v i 2] obtain s1 where s1: "SwtmrStop i s = Some s1" "swtmr_inv s1" "ucState (swtmrCB s1 i) = 1" "touched i s s1" by blast
    note k = touchedD [OF s1(4)]
    from Start_inv [OF s1(2) i s1(3)] obtain s' where s': "SwtmrStart i s1 = Some s'" "swtmr_inv s'" "ucState (swtmrCB s' i) = 2" "touched i s1 s'"
      "unat (responseTime (swtmrNodes s' i)) = unat (clock s1) + period_of s1 i" by blast
    then show ?thesis using touched_trans [OF s1(4) s'(4)] s1(1) n 2 k(4) [of i] k(5) by (auto simp: LOS_SwtmrStart_def Let_def)
  qed
qed

lemma due_iff:
  assumes v: "swtmr_inv s" and i: "i < 1024" "ucState (swtmrCB s i) = 2"
  shows "i \<in> set (due_timers T s) \<longleftrightarrow> responseTime (swtmrNodes s i) \<le> T"
  using due_split [of s i T] timersD(4) [of "{}" s i] swtmr_invD [OF v] i by auto

section \<open>Recycling\<close>

text \<open>A call of \<open>LOS_SwtmrDelete\<close> changes the timer of its identifier only.\<close>

lemma delete_other:
  assumes "LOS_SwtmrDelete n s = Some (s', r)" and "swtmr_of n s \<noteq> Some i"
  shows "swtmrCB s' i = swtmrCB s i"
  using assms
  by (auto simp: LOS_SwtmrDelete_def SwtmrStop_def SwtmrDelete_def DeSwtmrFromTimeList_def upd_swtmr_def Let_def split: option.splits if_splits Option.bind_splits)

text \<open>\<open>OsSwtmrRecycle\<close> passes the index of a timer for its identifier. The two differ from the first time a one-shot timer of that slot was handled until the
  identifiers come round again: such a timer survives its owner.\<close>

lemma recycle_misses:
  assumes "recycle_from m k owner s = Some s'" and "k + m \<le> 1024" and "usTimerID (swtmrCB s i) \<noteq> of_nat i" and "i < 1024"
  shows "swtmrCB s' i = swtmrCB s i"
  using assms
proof (induction m arbitrary: k s)
  case (Suc m)
  from Suc.prems(1) obtain s1 where s1: "recycle_from m (k + 1) owner s1 = Some s'" "s1 = s \<or> (\<exists>r. LOS_SwtmrDelete (of_nat k) s = Some (s1, r))"
    by (auto split: if_splits Option.bind_splits)
  have k: "unat (of_nat k :: u16) = k" using Suc.prems(2) by (simp add: unat_of_nat take_bit_nat_eq_self)
  have "swtmr_of (of_nat k) s \<noteq> Some i" using Suc.prems(2-4) k by (auto simp: swtmr_of_def Let_def)
  then have "swtmrCB s1 i = swtmrCB s i" using s1(2) delete_other by blast
  then show ?case using Suc.IH [OF s1(1)] Suc.prems(2-4) by simp
qed simp

section \<open>Examples\<close>

lemma sample_created:
  "\<exists>s :: swtmr_kstate. swtmr_run s \<and> swtmr_of 0 s = Some 0 \<and> ucState (swtmrCB s 0) = 1 \<and> ucMode (swtmrCB s 0) = LOS_SWTMR_MODE_ONCE \<and> pfnHandler (swtmrCB s 0) = 77 \<and>
    period_of s 0 = 500000 \<and> clock s = 1000 \<and> cfg s = demo_config \<and> swtmrHandlerQueue s = [] \<and> (\<forall>j. j \<noteq> 0 \<longrightarrow> ucState (swtmrCB s j) = 0)"
proof -
  let ?s0 = "demo undefined :: swtmr_kstate"
  have k: "k_inv ?s0" "time_ok ?s0" "\<not> is_frozen (tcb ?s0 2)" "4 dvd unat (8192 :: u32)" "unat (8192 :: u32) + 20496 < 2 ^ 32"
    using demo_k_inv by (simp_all add: time_ok_def demo_config_def flag_simps)
  from Init_inv [of 4096 8192, OF _ _ k(4,5) k(1-3)] obtain s1 where s1: "OsSwtmrInit 4096 8192 (Some 2) ?s0 = Some (s1, LOS_OK)" "g_swtmrFreeList s1 = [0 ..< 1024]"
    "swtmrHandlerQueue s1 = []" "\<forall>i. ucState (swtmrCB s1 i) = 0 \<and> usTimerID (swtmrCB s1 i) = of_nat i" "kstate.truncate s1 = kstate.truncate ?s0" by auto
  have e: "clock s1 = 1000" "cfg s1 = demo_config" using s1(5) by (simp_all add: kstate.defs)
  obtain s2 r n where c: "LOS_SwtmrCreate 1 LOS_SWTMR_MODE_ONCE 77 True 5 s1 = (s2, r, n)" by (rule prod_cases3)
  have "(0 :: nat) < 1024" by simp
  then have f: "g_swtmrFreeList s1 = 0 # [Suc 0 ..< 1024]" unfolding s1(2) by (rule upt_conv_Cons)
  have "swtmr_run s1" unfolding swtmr_run_def using k s1(1) by (intro exI [of _ 4096] exI [of _ 8192] exI [of _ 2] exI [of _ ?s0] exI [of _ s1]) simp
  then have "swtmr_run s2" by (rule run_step) (rule step_create [OF c])
  then show ?thesis using c s1(3,4) e by (intro exI [of _ s2]) (auto simp: LOS_SwtmrCreate_def f swtmr_of_def period_of_def demo_config_def upd_swtmr_def)
qed

lemma sample_due:
  "\<exists>s :: swtmr_kstate. swtmr_run s \<and> swtmrHandlerQueue s = [] \<and> clock s = 600000 \<and> readings_ok (\<lambda>_. 700000) (clock s) s \<and> due_timers (clock s) s = [0] \<and>
    ucMode (swtmrCB s 0) = LOS_SWTMR_MODE_ONCE \<and> usTimerID (swtmrCB s 0) = 0 \<and> pfnHandler (swtmrCB s 0) = 77"
proof -
  from sample_created obtain s :: swtmr_kstate where s: "swtmr_run s" "swtmr_of 0 s = Some 0" "ucState (swtmrCB s 0) = 1" "ucMode (swtmrCB s 0) = LOS_SWTMR_MODE_ONCE"
    "pfnHandler (swtmrCB s 0) = 77" "period_of s 0 = 500000" "clock s = 1000" "cfg s = demo_config" "swtmrHandlerQueue s = []" "\<forall>j. j \<noteq> 0 \<longrightarrow> ucState (swtmrCB s j) = 0" by blast
  from start_due [OF run_timers [OF s(1)] s(2)] s(3) obtain s1 where s1: "LOS_SwtmrStart 0 s = Some (s1, LOS_OK)" "swtmr_inv s1" "ucState (swtmrCB s1 0) = 2" "touched 0 s s1"
    "unat (responseTime (swtmrNodes s1 0)) = unat (clock s) + period_of s 0" by auto
  note k = touchedD [OF s1(4)] and v1 = swtmr_invD [OF s1(2)]
  have r1: "swtmr_run s1" using s(1) step_start [OF s1(1)] by (rule run_step)
  define s2 where "s2 = s1\<lparr>clock := 600000\<rparr>"
  have "task_ok s2" "time_ok s2" using v1 k_inv_cong [of s2 s1] by (simp_all add: s2_def task_ok_def time_ok_def timer_of_def)
  then have r2: "swtmr_run s2" by (intro run_step [OF r1] step_kernel) (simp_all add: s2_def)
  have "ucState (swtmrCB s1 j) \<noteq> 2" if "j \<noteq> 0" for j using s(10) k(8) [OF that] that by simp
  then have set: "set (sortLink (swtmrSortLink s1)) = {0}" using timersD(4) [OF conjunct1 [OF v1]] s1(3) by auto
  have dis: "distinct (sortLink (swtmrSortLink s1))" using sl_invD(1) [OF timersD(3) [OF conjunct1 [OF v1]]] .
  have link: "sortLink (swtmrSortLink s1) = [0]"
  proof -
    have "length (sortLink (swtmrSortLink s1)) = 1" using distinct_card [OF dis] set by simp
    then obtain x where "sortLink (swtmrSortLink s1) = [x]" by (cases "sortLink (swtmrSortLink s1)") simp_all
    then show ?thesis using set by simp
  qed
  have resp: "unat (responseTime (swtmrNodes s1 0)) = 501000" using s1(5) s(6,7) by simp
  then have due: "due_timers (clock s2) s2 = [0]" using link by (simp add: due_timers_def s2_def word_le_nat_alt)
  have "readings_ok (\<lambda>_. 700000) (clock s2) s2" using resp s(8) k(6) by (simp add: readings_ok_def due) (simp add: s2_def demo_config_def)
  then show ?thesis using r2 due k(1,2,3) [of 0] k(7) s(4,5,9) swtmr_of_Some [OF s(2)] by (intro exI [of _ s2]) (simp add: s2_def)
qed

section \<open>Properties\<close>

text \<open>C11. After the software timers were initialised, and whatever was created, started, stopped, deleted, recycled, scanned and handled since, the timers are
  consistent: a timer is in the free list exactly when it is unused and in the sort link exactly when it is ticking, the sort link is sorted by time, and the items of
  the handler box that are not free are exactly those in the handler queue. So every call returns, and so does every scan that finds the handler queue empty.\<close>

theorem swtmr_history:
  assumes "swtmr_run s"
  shows "timers_ok s \<and> items_ok s \<and> (\<exists>s' r. LOS_SwtmrStart n s = Some (s', r)) \<and> (\<exists>s' r. LOS_SwtmrStop n s = Some (s', r)) \<and> (\<exists>s' r. LOS_SwtmrDelete n s = Some (s', r)) \<and>
    (\<exists>s'. OsSwtmrRecycle owner s = Some s') \<and> (swtmrHandlerQueue s = [] \<longrightarrow> readings_ok rd (clock s) s \<longrightarrow> (\<exists>s'. ScanSwtmrTimeList rd s = Some s'))"
proof -
  note v = run_timers [OF assms]
  have "\<exists>s'. OsSwtmrRecycle owner s = Some s'" unfolding OsSwtmrRecycle_def using recycle_inv [OF v, of 1024 0 owner] by blast
  then show ?thesis using swtmr_invD [OF v] LOS_SwtmrStart_inv [OF v] LOS_SwtmrStop_inv [OF v] LOS_SwtmrDelete_inv [OF v] Scan_inv [OF v] by blast
qed

theorem swtmr_history_witness:
  "\<exists>s :: swtmr_kstate. swtmr_run s \<and> timers_ok s \<and> due_timers (clock s) s = [0] \<and> (\<exists>s'. ScanSwtmrTimeList (\<lambda>_. 700000) s = Some s')"
proof -
  from sample_due obtain s :: swtmr_kstate where s: "swtmr_run s" "swtmrHandlerQueue s = []" "readings_ok (\<lambda>_. 700000) (clock s) s" "due_timers (clock s) s = [0]" by blast
  from swtmr_history [OF s(1), of 0 0 "\<lambda>_. 700000"] s show ?thesis by blast
qed

text \<open>C8. A scan handles exactly the timers whose time has come, in the order of their times and each of them once: their handlers and arguments are queued in that
  order, a one-shot timer is deleted and gets a new identifier, a timer that is kept is stopped, a periodic one is due again a whole number of periods after the time
  it was due, not in the past and at most one period after the clock reading. All other timers are as before and none that is still ticking is due.\<close>

theorem swtmr_scan:
  assumes "swtmr_run s" and "swtmrHandlerQueue s = []" and "readings_ok rd (clock s) s"
  shows "\<exists>s'. ScanSwtmrTimeList rd s = Some s' \<and> swtmr_run s' \<and>
    map (handlerItems s') (swtmrHandlerQueue s') =
      map (\<lambda>i. \<lparr>itemHandler = pfnHandler (swtmrCB s i), itemArg = uwArg (swtmrCB s i)\<rparr>) (filter (\<lambda>i. responseTime (swtmrNodes s i) \<le> clock s) (sortLink (swtmrSortLink s))) \<and>
    (\<forall>i. if i \<in> set (sortLink (swtmrSortLink s)) \<and> responseTime (swtmrNodes s i) \<le> clock s
         then \<exists>k. fired (responseTime (swtmrNodes s i)) (rd k) (period_of s i) (swtmrCB s i) (swtmrCB s' i) (responseTime (swtmrNodes s' i))
         else swtmrCB s' i = swtmrCB s i \<and> swtmrNodes s' i = swtmrNodes s i) \<and>
    (\<forall>i \<in> set (sortLink (swtmrSortLink s')). clock s < responseTime (swtmrNodes s' i))"
proof -
  note v = run_timers [OF assms(1)]
  note d = due_filter [OF conjunct1 [OF swtmr_invD [OF v]], of "clock s"]
  from Scan_inv [OF v assms(2,3)] obtain s' where s': "ScanSwtmrTimeList rd s = Some s'" "scanned rd (clock s) (due_timers (clock s) s) s s'" by blast
  have "swtmr_run s'" using assms(1) step_scan [OF assms(2,3) s'(1)] by (rule run_step)
  with s' show ?thesis unfolding scanned_def d assms(2) by (intro exI [of _ s']) auto
qed

theorem swtmr_scan_witness:
  "\<exists>s s' :: swtmr_kstate. swtmr_run s \<and> ScanSwtmrTimeList (\<lambda>_. 700000) s = Some s' \<and> swtmr_run s' \<and> map (\<lambda>a. itemHandler (handlerItems s' a)) (swtmrHandlerQueue s') = [77]"
proof -
  from sample_due obtain s :: swtmr_kstate where s: "swtmr_run s" "swtmrHandlerQueue s = []" "readings_ok (\<lambda>_. 700000) (clock s) s" "due_timers (clock s) s = [0]"
    "pfnHandler (swtmrCB s 0) = 77" by blast
  have d: "filter (\<lambda>i. responseTime (swtmrNodes s i) \<le> clock s) (sortLink (swtmrSortLink s)) = [0]" using due_filter swtmr_invD [OF run_timers [OF s(1)]] s(4) by metis
  from swtmr_scan [OF s(1-3)] d s(5) obtain s' where "ScanSwtmrTimeList (\<lambda>_. 700000) s = Some s'" "swtmr_run s'"
    "map (handlerItems s') (swtmrHandlerQueue s') = [\<lparr>itemHandler = 77, itemArg = uwArg (swtmrCB s 0)\<rparr>]" by auto
  with s(1) show ?thesis by (intro exI [of _ s] exI [of _ s']) (auto simp: map_eq_Cons_conv)
qed

text \<open>C23. Starting a timer, ticking or not, sets its time to one period after the clock and touches no other timer: a scan at time \<open>T\<close> handles it exactly when
  the period has passed by then.\<close>

theorem swtmr_start_due:
  assumes "swtmr_run s" and "swtmr_of n s = Some i" and "ucState (swtmrCB s i) \<noteq> OS_SWTMR_STATUS_UNUSED"
  shows "\<exists>s'. LOS_SwtmrStart n s = Some (s', LOS_OK) \<and> ucState (swtmrCB s' i) = OS_SWTMR_STATUS_TICKING \<and> touched i s s' \<and>
    (\<forall>T. i \<in> set (due_timers T s') \<longleftrightarrow> unat (clock s) + unat (uwInterval (swtmrCB s i)) * unat (cyclePerTick (cfg s)) \<le> unat T)"
proof -
  from start_due [OF run_timers [OF assms(1)] assms(2,3)] obtain s' where s': "LOS_SwtmrStart n s = Some (s', LOS_OK)" "swtmr_inv s'" "ucState (swtmrCB s' i) = OS_SWTMR_STATUS_TICKING"
    "touched i s s'" "unat (responseTime (swtmrNodes s' i)) = unat (clock s) + period_of s i" by blast
  have "i \<in> set (due_timers T s') \<longleftrightarrow> unat (clock s) + period_of s i \<le> unat T" for T
    using due_iff [OF s'(2) conjunct1 [OF swtmr_of_Some [OF assms(2)]] s'(3)] s'(5) by (simp add: word_le_nat_alt)
  with s' show ?thesis unfolding period_of_def by blast
qed

theorem swtmr_start_due_witness:
  "\<exists>s s' :: swtmr_kstate. swtmr_run s \<and> LOS_SwtmrStart 0 s = Some (s', LOS_OK) \<and> 0 \<in> set (due_timers 501000 s') \<and> 0 \<notin> set (due_timers 500999 s')"
proof -
  from sample_created obtain s :: swtmr_kstate where s: "swtmr_run s" "swtmr_of 0 s = Some 0" "ucState (swtmrCB s 0) = 1" "period_of s 0 = 500000" "clock s = 1000" by blast
  from swtmr_start_due [OF s(1,2)] s show ?thesis by (auto simp: period_of_def)
qed

text \<open>C35. Once a one-shot timer was handled its old identifier is stale: starting, stopping, deleting or querying it is refused with
  \<open>LOS_ERRNO_SWTMR_ID_INVALID\<close> and changes nothing.\<close>

theorem swtmr_once_stale:
  assumes r: "swtmr_run s" and q: "swtmrHandlerQueue s = []" "readings_ok rd (clock s) s"
    and i: "i \<in> set (due_timers (clock s) s)" "ucMode (swtmrCB s i) = LOS_SWTMR_MODE_ONCE" "n = usTimerID (swtmrCB s i)"
  shows "\<exists>s'. ScanSwtmrTimeList rd s = Some s' \<and> swtmr_of n s = Some i \<and> LOS_SwtmrStart n s' = Some (s', LOS_ERRNO_SWTMR_ID_INVALID) \<and>
    LOS_SwtmrStop n s' = Some (s', LOS_ERRNO_SWTMR_ID_INVALID) \<and> LOS_SwtmrDelete n s' = Some (s', LOS_ERRNO_SWTMR_ID_INVALID) \<and>
    LOS_SwtmrTimeGet n True s' = (LOS_ERRNO_SWTMR_ID_INVALID, None)"
proof -
  note v = run_timers [OF r]
  note o = conjunct1 [OF swtmr_invD [OF v]]
  from Scan_inv [OF v q] obtain s' where s': "ScanSwtmrTimeList rd s = Some s'" "scanned rd (clock s) (due_timers (clock s) s) s s'" by blast
  then have n': "usTimerID (swtmrCB s' i) = next_timer_id n" using i by (auto simp: scanned_def fired_def)
  have "i < 1024" using i(1) timersD(4) [OF o, of i] by (simp add: due_filter [OF o])
  then have n: "unat n mod 1024 = i" "unat n < 64512" using timersD(5) [OF o, of i] i(3) by (simp_all add: tm_ok_def)
  have "swtmr_of n s' = None" using n n' timer_id_advances [OF n(2)] by (simp add: swtmr_of_def)
  moreover have "swtmr_of n s = Some i" using n i(3) by (simp add: swtmr_of_def Let_def)
  ultimately show ?thesis using s'(1) n(2) by (simp add: LOS_SwtmrStart_def LOS_SwtmrStop_def LOS_SwtmrDelete_def LOS_SwtmrTimeGet_def)
qed

theorem swtmr_once_stale_witness:
  "\<exists>s s' :: swtmr_kstate. swtmr_run s \<and> swtmr_of 0 s = Some 0 \<and> ScanSwtmrTimeList (\<lambda>_. 700000) s = Some s' \<and> LOS_SwtmrDelete 0 s' = Some (s', LOS_ERRNO_SWTMR_ID_INVALID)"
proof -
  from sample_due obtain s :: swtmr_kstate where s: "swtmr_run s" "swtmrHandlerQueue s = []" "readings_ok (\<lambda>_. 700000) (clock s) s" "due_timers (clock s) s = [0]"
    "ucMode (swtmrCB s 0) = LOS_SWTMR_MODE_ONCE" "usTimerID (swtmrCB s 0) = 0" by blast
  from swtmr_once_stale [OF s(1-3), of 0 0] s show ?thesis by auto
qed

end
