(* ===== verification/Spec2Isabelle.thy ===== *)
theory Spec2Isabelle
  imports LosList LosCirBuf LosSem LosEvent LosQueue LosRwlock LosMuxInherit LosVmBoot LosTlsfHist LosSwtmrHist
begin

text \<open>
  A verification development of the LiteOS-A kernel: the core of \<^verbatim>\<open>kernel/base\<close>, with the list of \<^verbatim>\<open>kernel/include\<close> and the circular
  buffer of \<^verbatim>\<open>lib/libscrew\<close>. File names below are relative to \<^verbatim>\<open>src/\<close>; definitions carry the names of the C functions they model.

  \<^bold>\<open>The program.\<close> The scheduler chooses the task that runs. A task that has to wait is in the list of the object it waits for and, when the wait is
  limited, in the timeout sort link of the processor; the object's operation wakes it through the table of its scheduling policy. Semaphores, events,
  message queues, read-write locks and mutexes are built on that interface. Below them lie three allocators: pages, the heap, which takes its
  expansions from the page allocator, and boxes of equal blocks.

  \<^bold>\<open>The model.\<close> The configuration is one processor with virtual memory and the default options; hooks, debug records and statistics are left out. A spin
  lock makes the code it protects one step, so every call is a function from state to state, and what other tasks, interrupts and the timer do
  between two calls is another step. Integers are words of the C width. \<open>None\<close> is a panic or a loop that does not end; wherever a loop is a
  \<open>partial_function\<close> the properties include that it returns. The only fuel is that of the iteration macros over a list
  (\<open>LOS_DL_LIST_FOR_EACH\<close>); one more than the length of the list is enough, and that is proved. A call in which the caller has to wait is split where the
  scheduler switches: one definition up to the wait, one for what runs after the wake-up.

  \<^bold>\<open>Theories and sources.\<close>

  \<^item> \<open>LosPrelude\<close>, \<open>LosWord\<close>: types and status codes, lemmas on words. \<open>LosRefine\<close>, \<open>LosFifo\<close>, \<open>LosHandle\<close>, \<open>LosRuns\<close>: the contracts several
    components share, each a locale that is interpreted on the model's operations (refinement of functions and of step relations, a bounded channel, a
    table of handles, an allocator of runs).
  \<^item> \<open>LosList\<close> (\<^verbatim>\<open>kernel/include/los_list.h\<close>): the linked list on an explicit heap of nodes. \<open>LosBitmap\<close> (\<^verbatim>\<open>kernel/base/core/los_bitmap.c\<close>): single
    bits, runs of bits, the search for a zero bit. \<open>LosCirBuf\<close> (\<^verbatim>\<open>lib/libscrew/src/los_cir_buf.c\<close>): the bytes read are the bytes written, in order.
  \<^item> \<open>LosSortLink\<close> (\<^verbatim>\<open>kernel/base/sched/los_sortlink.c\<close>): the list stays sorted and the next expiry is the earliest.
  \<^item> \<open>LosSchedState\<close> (\<^verbatim>\<open>los_sched_pri.h\<close>), \<open>LosPriority\<close>, \<open>LosDeadline\<close>, \<open>LosSched\<close>, \<open>LosSchedOps\<close> (\<^verbatim>\<open>los_priority.c\<close>, \<^verbatim>\<open>los_deadline.c\<close>,
    \<^verbatim>\<open>los_idle.c\<close>, \<^verbatim>\<open>los_sched.c\<close>): the scheduler. \<open>LosSchedInv\<close>, \<open>LosSchedSwitch\<close>, \<open>LosSchedFrame\<close>, \<open>LosSchedBlock\<close>, \<open>LosSchedCall\<close>: its invariant (every task is in
    exactly the lists its status says, the bitmaps agree with the queues), that every operation keeps it, that the task chosen is the highest, and the
    locale \<open>waker\<close> through which the objects use it.
  \<^item> \<open>LosSem\<close>, \<open>LosEvent\<close>, \<open>LosQueue\<close>, \<open>LosLockWait\<close>, \<open>LosRwlock\<close>, \<open>LosMux\<close>, \<open>LosMuxInherit\<close> (\<^verbatim>\<open>kernel/base/ipc/\<close>): what each object promises over every
    interleaving of calls: no wake-up is lost, units and locks are handed to the first waiter, a message queue is a double-ended queue, writers
    exclude all others, a mutex belongs to its owner, and an owner that one mutex raises gets its priority back exactly when it unlocks.
  \<^item> \<open>LosBuddy\<close>, \<open>LosVmPhys\<close>, \<open>LosVmPhysInv\<close>, \<open>LosVmPhysAlloc\<close>, \<open>LosVmPhysAll\<close>, \<open>LosVmBoot\<close> (\<^verbatim>\<open>kernel/base/vm/los_vm_phys.c\<close>, \<^verbatim>\<open>los_vm_page.c\<close>,
    \<^verbatim>\<open>los_vm_boot.c\<close>): pages. Allocation succeeds exactly when the frames are there, runs in use never overlap, freeing merges completely, start-up
    hands over every frame but those of the page array, provided the array holds a structure for every frame; in the sizes where it does not the code writes past it.
  \<^item> \<open>LosMembox\<close> (\<^verbatim>\<open>kernel/base/mem/membox/los_membox.c\<close>): boxes refine a list of free blocks.
  \<^item> \<open>LosSwtmr\<close> (\<^verbatim>\<open>kernel/base/core/los_swtmr.c\<close>): the software timers, on the sort link, the scheduler and the boxes. \<open>LosSwtmrInv\<close>: the timers are in the free list or
    the sort link as their states say, and a restarted timer is due at the right time. \<open>LosSwtmrScan\<close>: a scan handles the timers that are due and no others.
    \<open>LosSwtmrHist\<close>: histories of calls and scans, stale identifiers, and the timers recycling misses.
  \<^item> \<open>LosTlsfIndex\<close>, \<open>LosTlsf\<close> (\<^verbatim>\<open>kernel/base/mem/tlsf/los_memory.c\<close>): size classes and the code of the heap. \<open>LosTlsfLists\<close>, \<open>LosTlsfFind\<close>: free lists and
    the search. \<open>LosTlsfBlocks\<close>, \<open>LosTlsfSteps\<close>, \<open>LosTlsfHeap\<close>, \<open>LosTlsfCalls\<close>, \<open>LosTlsfRealloc\<close>: a pool as a list of blocks and what each call does to it.
    \<open>LosTlsfHist\<close>: every history of calls is, state by state and with the same answers, one of a store of disjoint blocks that keep their contents; every call returns, and
    what is released comes back whole.

  \<^bold>\<open>Bounds.\<close> The theorems on the heap are for a pool that does not expand, of less than 512 MB, and for requests of less than 512 MB: from there on the
  size class of a block is computed wrongly. Expansion itself is modelled. The theorems on timers assume a clock below \<open>2\<^sup>6\<^sup>2\<close>, a tick of fewer than \<open>2\<^sup>3\<^sup>1\<close> cycles, and
  that a scan comes no more than \<open>2\<^sup>3\<^sup>2\<close> ticks late and the clock moves on while it runs. The theorems on waking a task assume that the waiters are of the priority
  policy and not frozen (\<open>wakeable\<close>): a waiter with a time limit that is suspended is frozen, and waking it deletes a node that is not linked, which the theorem on the semaphore
  calls states as the one case in which they do not come back. Priority inheritance is proved for an owner that no second mutex raises, waiters of its policy and process priority,
  and no waiter that gives up. The message queue takes its buffer from an allocator that is a parameter; the page
  table walk and the reclaim of cached pages are parameters too.

  \<^bold>\<open>Not modelled.\<close> Task and process life cycles, signals, futexes, address spaces with their page tables and red-black trees, and shared
  memory: they need the architecture layer or user memory, or sit above the scheduler and the allocators as further clients. System calls, file systems, drivers,
  networking and the shell copy parameters, print or drive devices. Multi-processor code has no effect in the configuration modelled.
\<close>

end
